(* ===== verification/Nestory_Prelude.thy ===== *)
theory Nestory_Prelude
  imports Main "HOL-Library.Word" "HOL-Library.Multiset" "HOL-Library.Char_ord" "HOL-Library.List_Lexorder"
begin

text \<open>
  Shared vocabulary of the development: bytes, the error values of the package
  (\<open>db.go\<close>, \<open>engine.go\<close>, \<open>relations.go\<close>, \<open>persist.go\<close>, \<open>secondary_index.go\<close> and
  \<open>tracked.go\<close> declare them as package variables), the sum type every fallible routine
  returns, early-exit loops over it, and Go's \<open>sort.Search\<close>. The lemmas collected here
  are the ones several components use.
\<close>

named_theorems split_results \<open>case splits over results and options\<close>
named_theorems wf_simps \<open>unfoldings of well-formedness predicates\<close>

type_synonym byte = "8 word"
type_synonym bytes = "byte list"

text \<open>
  The sentinel errors, one constructor each; \<open>ErrFmt\<close> is any other \<open>fmt.Errorf\<close> value,
  with the distinguishing part of its text, and \<open>Panic\<close> is a run that panics.
\<close>

datatype go_error =
    ErrConflict
  | ErrExpiredSnapshot
  | ErrNotFound
  | ErrAlreadyExists
  | ErrUniqueViolation string
  | ErrRelationSchema string
  | ErrRelationInvariant string
  | ErrDeleteRestricted string
  | ErrUndeclaredWrite
  | ErrIO string
  | ErrFmt string
  | Panic string

type_synonym 'a result = "go_error + 'a"

definition bind_result :: "'a result \<Rightarrow> ('a \<Rightarrow> 'b result) \<Rightarrow> 'b result" where
  "bind_result r f = (case r of Inl e \<Rightarrow> Inl e | Inr x \<Rightarrow> f x)"

text \<open>A \<open>for range\<close> loop whose body may return an error: the first error ends the loop.\<close>

fun fold_result :: "('s \<Rightarrow> 'x \<Rightarrow> 's result) \<Rightarrow> 'x list \<Rightarrow> 's \<Rightarrow> 's result" where
  "fold_result f [] s = Inr s"
| "fold_result f (x # xs) s = (case f s x of Inl e \<Rightarrow> Inl e | Inr s' \<Rightarrow> fold_result f xs s')"

text \<open>\<open>sort.Search(n, f)\<close>: the binary search of Go's library, loop and midpoint as written there.\<close>

function search_loop :: "(nat \<Rightarrow> bool) \<Rightarrow> nat \<Rightarrow> nat \<Rightarrow> nat" where
  "search_loop f i j =
     (if i < j
      then (let h = (i + j) div 2 in
            if \<not> f h then search_loop f (h + 1) j else search_loop f i h)
      else i)"
  by pat_completeness auto
termination
  by (relation "measure (\<lambda>(f, i, j). j - i)") auto

declare search_loop.simps [simp del]

definition sort_search :: "nat \<Rightarrow> (nat \<Rightarrow> bool) \<Rightarrow> nat" where
  "sort_search n f = search_loop f 0 n"

lemma bind_result_simps [simp]:
  "bind_result (Inl e) f = Inl e"
  "bind_result (Inr x) f = f x"
  by (simp_all add: bind_result_def)

lemma bind_result_Inr_iff:
  "bind_result r f = Inr y \<longleftrightarrow> (\<exists>x. r = Inr x \<and> f x = Inr y)"
  by (cases r) simp_all

lemma fold_result_append:
  "fold_result f (xs @ ys) s = bind_result (fold_result f xs s) (fold_result f ys)"
  by (induction xs arbitrary: s) (auto split: sum.splits)

lemma fold_result_invariant:
  assumes "\<And>s x s'. I s \<Longrightarrow> x \<in> set xs \<Longrightarrow> f s x = Inr s' \<Longrightarrow> I s'"
    and "I s" and "fold_result f xs s = Inr s'"
  shows "I s'"
  using assms
proof (induction xs arbitrary: s)
  case Nil
  then show ?case by simp
next
  case (Cons x xs)
  from Cons.prems(3) obtain t where t: "f s x = Inr t" "fold_result f xs t = Inr s'"
    by (auto split: sum.splits)
  have "I t" using Cons.prems(1)[OF Cons.prems(2) _ t(1)] by simp
  show ?case
  proof (rule Cons.IH[OF _ \<open>I t\<close> t(2)])
    fix u y u'
    assume "I u" "y \<in> set xs" "f u y = Inr u'"
    then show "I u'" using Cons.prems(1)[of u y u'] by simp
  qed
qed

lemma fold_result_unit: "fold_result f xs () = Inr () \<longleftrightarrow> (\<forall>x \<in> set xs. f () x = Inr ())"
proof (induction xs)
  case (Cons x xs)
  then show ?case by (cases "f () x") auto
qed simp

lemma fold_result_Inr_pure:
  "(\<And>s x. x \<in> set xs \<Longrightarrow> f s x = Inr (g s x)) \<Longrightarrow> fold_result f xs s = Inr (foldl g s xs)"
  by (induction xs arbitrary: s) auto

text \<open>
  The contract of the binary search: with a predicate that never goes from true back to
  false on the range, the result is the first index where it holds.
\<close>

lemma search_loop_step:
  "i < j \<Longrightarrow> search_loop f i j =
     (if f ((i + j) div 2) then search_loop f i ((i + j) div 2)
      else search_loop f ((i + j) div 2 + 1) j)"
  by (subst search_loop.simps) (simp add: Let_def)

lemma search_loop_stop: "\<not> i < j \<Longrightarrow> search_loop f i j = i"
  by (subst search_loop.simps) simp

lemma search_loop_bounds: "i \<le> j \<Longrightarrow> i \<le> search_loop f i j \<and> search_loop f i j \<le> j"
proof (induction f i j rule: search_loop.induct)
  case (1 f i j)
  show ?case
  proof (cases "i < j")
    case True
    define h where "h = (i + j) div 2"
    have h: "i \<le> h" "h < j" using True by (auto simp: h_def)
    show ?thesis
    proof (cases "f h")
      case fh: True
      have "i \<le> search_loop f i h \<and> search_loop f i h \<le> h"
        by (rule 1(2)[OF True h_def]) (use fh h in auto)
      then show ?thesis using h fh search_loop_step[OF True, of f] by (simp add: h_def)
    next
      case fh: False
      have "h + 1 \<le> search_loop f (h + 1) j \<and> search_loop f (h + 1) j \<le> j"
        by (rule 1(1)[OF True h_def fh]) (use h in auto)
      then show ?thesis using h fh search_loop_step[OF True, of f] by (simp add: h_def)
    qed
  next
    case False
    then show ?thesis using 1(3) by (simp add: search_loop_stop)
  qed
qed

lemma search_loop_split:
  assumes "\<And>a b. a \<le> b \<Longrightarrow> b < n \<Longrightarrow> f a \<Longrightarrow> f b"
    and "i \<le> j" "j \<le> n" "\<And>k. k < i \<Longrightarrow> \<not> f k" "\<And>k. j \<le> k \<Longrightarrow> k < n \<Longrightarrow> f k"
  shows "(\<forall>k < search_loop f i j. \<not> f k) \<and> (\<forall>k. search_loop f i j \<le> k \<and> k < n \<longrightarrow> f k)"
  using assms
proof (induction f i j rule: search_loop.induct)
  case (1 f i j)
  show ?case
  proof (cases "i < j")
    case True
    define h where "h = (i + j) div 2"
    have h: "i \<le> h" "h < j" using True by (auto simp: h_def)
    have step: "search_loop f i j = (if f h then search_loop f i h else search_loop f (h + 1) j)"
      using search_loop_step[OF True, of f] by (simp add: h_def)
    show ?thesis
    proof (cases "f h")
      case fh: True
      have "(\<forall>k < search_loop f i h. \<not> f k) \<and> (\<forall>k. search_loop f i h \<le> k \<and> k < n \<longrightarrow> f k)"
        by (rule 1(2)[OF True h_def]) (use 1(3-) h fh in auto)
      then show ?thesis using step fh by simp
    next
      case fh: False
      have low: "\<not> f k" if "k < h + 1" for k
        using 1(3)[of k h] fh that h 1(5) by auto
      have "(\<forall>k < search_loop f (h + 1) j. \<not> f k) \<and>
            (\<forall>k. search_loop f (h + 1) j \<le> k \<and> k < n \<longrightarrow> f k)"
        by (rule 1(1)[OF True h_def fh]) (use 1(3,5,7) h low in auto)
      then show ?thesis using step fh by simp
    qed
  next
    case False
    then show ?thesis using 1(4,6,7) by (simp add: search_loop_stop)
  qed
qed

lemma in_map_filter: "x \<in> set (List.map_filter f xs) \<longleftrightarrow> (\<exists>y \<in> set xs. f y = Some x)"
  by (force simp: map_filter_def)

lemma sort_search_le [simp]: "sort_search n f \<le> n"
  using search_loop_bounds[of 0 n f] by (simp add: sort_search_def)

lemma search_loop_cong: "(\<And>k. k < j \<Longrightarrow> f k = g k) \<Longrightarrow> search_loop f i j = search_loop g i j"
proof (induction f i j rule: search_loop.induct)
  case (1 f i j)
  show ?case
  proof (cases "i < j")
    case True
    define h where "h = (i + j) div 2"
    have h: "h < j" using True by (simp add: h_def)
    have fg: "f h = g h" by (rule 1(3)) (rule h)
    note F = search_loop_step[OF True, of f, folded h_def] and G = search_loop_step[OF True, of g, folded h_def]
    show ?thesis
    proof (cases "f h")
      case fh: True
      have "search_loop f i h = search_loop g i h"
      proof (rule 1(2)[OF True h_def])
        show "\<not> \<not> f h" using fh by simp
        show "f k = g k" if "k < h" for k by (rule 1(3)) (use that h in linarith)
      qed
      then show ?thesis using F G fh fg by (simp only: if_True)
    next
      case fh: False
      have "search_loop f (h + 1) j = search_loop g (h + 1) j"
        by (rule 1(1)[OF True h_def fh]) (rule 1(3))
      then show ?thesis using F G fh fg by (simp only: if_False)
    qed
  qed (simp add: search_loop_stop)
qed

lemma sort_search_cong: "(\<And>k. k < n \<Longrightarrow> f k = g k) \<Longrightarrow> sort_search n f = sort_search n g"
  unfolding sort_search_def by (rule search_loop_cong)

lemma sort_search_split:
  assumes "\<And>a b. a \<le> b \<Longrightarrow> b < n \<Longrightarrow> f a \<Longrightarrow> f b"
  shows "k < sort_search n f \<Longrightarrow> \<not> f k" and "sort_search n f \<le> k \<Longrightarrow> k < n \<Longrightarrow> f k"
  using search_loop_split[of n f 0 n, OF assms] by (auto simp: sort_search_def)

lemma distinct_concat_tagged:
  assumes "\<And>c x d y. h c x = h d y \<Longrightarrow> c = d \<and> x = y"
  shows "distinct xs \<Longrightarrow> (\<And>c. c \<in> set xs \<Longrightarrow> distinct (f c)) \<Longrightarrow>
    distinct (concat (map (\<lambda>c. map (h c) (f c)) xs))"
proof (induction xs)
  case Nil
  then show ?case by simp
next
  case (Cons c xs)
  have "inj_on (h c) (set (f c))" using assms by (auto simp: inj_on_def)
  moreover have "set (map (h c) (f c)) \<inter> set (concat (map (\<lambda>c. map (h c) (f c)) xs)) = {}"
    using Cons.prems(1) assms by fastforce
  ultimately show ?case using Cons by (simp add: distinct_map)
qed

text \<open>
  One write of a commit (\<open>engine.go\<close>): the logs encode it, the indexes are maintained from
  it. \<open>work\<close> is nil for a delete.
\<close>

record 'a pendingWrite =
  pw_id :: int
  work :: "'a option"
  deleted :: bool

end
