(* ===== verification/Chunk_Store.thy ===== *)
theory Chunk_Store
  imports Nestory_Prelude
begin

text \<open>
  \<open>chunkstore.go\<close>: the arena every table lives in. Blocks hold at most \<open>chunkLimit\<close>
  slots and are never shifted, deletes set a tombstone, and a dirty flag per block says
  which chunk files the next save rewrites. The element \<open>item\<close> of a slot is the value the
  stable pointer \<open>*T\<close> refers to; the pointer itself is the slot's address, block index and
  offset. A block's array past its counter \<open>n\<close> is never read, so a block is the list of its
  first \<open>n\<close> elements. The panics of the code (a store into a full block of the loader) are
  \<open>Panic\<close> results.
\<close>

definition chunkLimit :: nat where "chunkLimit = 512"

text \<open>Versions do not wrap around here: Go's \<open>int\<close> would after \<open>2 ^ 63\<close> writes of one row.\<close>

record 'a resourceSlot =
  item :: 'a
  version :: nat
  chunk :: nat

type_synonym 'a chunkBlock = "'a list"
text \<open>The address of a slot: block index and offset.\<close>

datatype slot_addr = Slot (slot_chunk: nat) (slot_off: nat)

record 'a chunkStore =
  chunks :: "'a resourceSlot chunkBlock list"
  tomb :: "bool chunkBlock list"
  store_n :: nat
  dead :: nat
  dirty :: "bool list"

definition Push :: "'b chunkBlock \<Rightarrow> 'b \<Rightarrow> 'b chunkBlock \<times> bool" where
  "Push arr v = (if chunkLimit \<le> length arr then (arr, False) else (arr @ [v], True))"

definition markDirty :: "'a chunkStore \<Rightarrow> nat \<Rightarrow> 'a chunkStore" where
  "markDirty s ci =
     (if ci < length (dirty s) then s\<lparr>dirty := (dirty s)[ci := True]\<rparr> else s)"

definition markAllDirty :: "'a chunkStore \<Rightarrow> 'a chunkStore" where
  "markAllDirty s = s\<lparr>dirty := map (\<lambda>_. True) (dirty s)\<rparr>"

definition dirtyIndices :: "'a chunkStore \<Rightarrow> nat list" where
  "dirtyIndices s = filter (\<lambda>i. dirty s ! i) [0 ..< length (dirty s)]"

definition clearDirty :: "'a chunkStore \<Rightarrow> nat list \<Rightarrow> 'a chunkStore" where
  "clearDirty s idxs =
     s\<lparr>dirty := foldl (\<lambda>d i. if i < length d then d[i := False] else d) (dirty s) idxs\<rparr>"

text \<open>\<open>chunkLive\<close>, \<open>Range\<close> and \<open>rangeResources\<close> visit these elements in this order.\<close>

definition chunkLive :: "'a chunkStore \<Rightarrow> nat \<Rightarrow> 'a list" where
  "chunkLive s ci =
     map (\<lambda>q. item (fst q)) (filter (\<lambda>q. \<not> snd q) (zip (chunks s ! ci) (tomb s ! ci)))"

definition chunkSlots :: "'a chunkStore \<Rightarrow> nat \<Rightarrow> nat" where
  "chunkSlots s ci = length (chunks s ! ci)"

definition rangeResources :: "'a chunkStore \<Rightarrow> slot_addr list" where
  "rangeResources s =
     concat (map (\<lambda>c. map (Slot c) (filter (\<lambda>o'. \<not> tomb s ! c ! o') [0 ..< length (chunks s ! c)]))
       [0 ..< length (chunks s)])"

definition slotAt :: "'a chunkStore \<Rightarrow> slot_addr \<Rightarrow> 'a resourceSlot" where
  "slotAt s a = chunks s ! slot_chunk a ! slot_off a"

definition StorePointers :: "'a chunkStore \<Rightarrow> 'a list" where
  "StorePointers s = map (\<lambda>a. item (slotAt s a)) (rangeResources s)"

definition Len :: "'a chunkStore \<Rightarrow> nat" where
  "Len s = store_n s - dead s"

definition Empty :: "'a chunkStore \<Rightarrow> bool" where
  "Empty s = (chunks s = [])"

definition newChunkStore :: "'a chunkStore" where
  "newChunkStore = \<lparr>chunks = [], tomb = [], store_n = 0, dead = 0, dirty = []\<rparr>"

text \<open>\<open>loadChunk\<close>: writing past the fixed block panics, so an oversized file does not load.\<close>

definition loadChunk :: "'a chunkStore \<Rightarrow> 'a list \<Rightarrow> 'a chunkStore result" where
  "loadChunk s vals =
     (if chunkLimit < length vals then Inl (Panic ''index out of range'')
      else
        let ci = length (chunks s);
            ch = map (\<lambda>v. \<lparr>item = v, version = 0, chunk = ci\<rparr>) vals;
            tb = map (\<lambda>_. False) vals
        in Inr (s\<lparr>chunks := chunks s @ [ch], tomb := tomb s @ [tb],
                  dirty := dirty s @ [False], store_n := store_n s + length vals\<rparr>))"

definition growStore :: "'a chunkStore \<Rightarrow> 'a chunkStore" where
  "growStore s =
     (if chunks s = [] \<or> length (last (chunks s)) = chunkLimit
      then s\<lparr>chunks := chunks s @ [[]], tomb := tomb s @ [[]], dirty := dirty s @ [False]\<rparr>
      else s)"

definition Append :: "'a chunkStore \<Rightarrow> 'a \<Rightarrow> 'a chunkStore \<times> slot_addr" where
  "Append s v =
     (let s1 = growStore s;
          ci = length (chunks s1) - 1;
          blk = fst (Push (chunks s1 ! ci) \<lparr>item = v, version = 0, chunk = ci\<rparr>);
          tb = fst (Push (tomb s1 ! ci) False);
          s2 = s1\<lparr>chunks := (chunks s1)[ci := blk], tomb := (tomb s1)[ci := tb],
                   store_n := store_n s1 + 1\<rparr>
      in (markDirty s2 ci, Slot ci (length blk - 1)))"

text \<open>\<open>DeleteFunc\<close>: one iteration of the inner loop, then the loops over offsets and blocks.\<close>

definition deleteSlot ::
  "('a \<Rightarrow> bool) \<Rightarrow> nat \<Rightarrow> 'a chunkStore \<times> 'a list \<Rightarrow> nat \<Rightarrow> 'a chunkStore \<times> 'a list" where
  "deleteSlot pred c st o' =
     (let s = fst st; x = item (chunks s ! c ! o') in
      if tomb s ! c ! o' \<or> \<not> pred x then st
      else (markDirty (s\<lparr>tomb := (tomb s)[c := (tomb s ! c)[o' := True]], dead := dead s + 1\<rparr>) c,
            snd st @ [x]))"

definition deleteBlock ::
  "('a \<Rightarrow> bool) \<Rightarrow> 'a chunkStore \<times> 'a list \<Rightarrow> nat \<Rightarrow> 'a chunkStore \<times> 'a list" where
  "deleteBlock pred st c = foldl (deleteSlot pred c) st [0 ..< length (chunks (fst st) ! c)]"

definition DeleteFunc :: "'a chunkStore \<Rightarrow> ('a \<Rightarrow> bool) \<Rightarrow> 'a chunkStore \<times> 'a list" where
  "DeleteFunc s pred = foldl (deleteBlock pred) (s, []) [0 ..< length (chunks s)]"

text \<open>
  \<open>*resource.item = v\<close> followed by \<open>markDirty(resource.chunk)\<close>, with or without a version
  bump: the write-through of \<open>applyWrite\<close> (\<open>db.go\<close>) and of the recovery loop (\<open>storage.go\<close>).
\<close>

definition writeItem :: "nat \<Rightarrow> 'a chunkStore \<Rightarrow> slot_addr \<Rightarrow> 'a \<Rightarrow> 'a chunkStore" where
  "writeItem bump s a v =
     (let sl = slotAt s a in
      markDirty
        (s\<lparr>chunks := (chunks s)[slot_chunk a := (chunks s ! slot_chunk a)[slot_off a :=
              sl\<lparr>item := v, version := version sl + bump\<rparr>]]\<rparr>)
        (chunk sl))"

text \<open>The invariant of the arena.\<close>

definition block_wf :: "nat \<Rightarrow> 'a resourceSlot chunkBlock \<Rightarrow> bool chunkBlock \<Rightarrow> bool" where
  "block_wf c ch tb \<longleftrightarrow>
     length tb = length ch \<and> length ch \<le> chunkLimit \<and> (\<forall>sl \<in> set ch. chunk sl = c)"

definition store_wf :: "'a chunkStore \<Rightarrow> bool" where
  "store_wf s \<longleftrightarrow>
     length (tomb s) = length (chunks s) \<and> length (dirty s) = length (chunks s) \<and>
     (\<forall>c < length (chunks s). block_wf c (chunks s ! c) (tomb s ! c)) \<and>
     store_n s = sum_list (map length (chunks s)) \<and>
     dead s = sum_list (map (\<lambda>tb. length (filter (\<lambda>b. b) tb)) (tomb s))"

definition valid_addr :: "'a chunkStore \<Rightarrow> slot_addr \<Rightarrow> bool" where
  "valid_addr s a \<longleftrightarrow> slot_chunk a < length (chunks s) \<and> slot_off a < length (chunks s ! slot_chunk a)"

definition live_addr :: "'a chunkStore \<Rightarrow> slot_addr \<Rightarrow> bool" where
  "live_addr s a \<longleftrightarrow> valid_addr s a \<and> \<not> tomb s ! slot_chunk a ! slot_off a"

section \<open>Reading the arena\<close>

lemma chunkLive_conv:
  assumes "length (tomb s ! c) = length (chunks s ! c)"
  shows "chunkLive s c =
    map (\<lambda>o'. item (chunks s ! c ! o')) (filter (\<lambda>o'. \<not> tomb s ! c ! o') [0 ..< length (chunks s ! c)])"
proof -
  have "zip (chunks s ! c) (tomb s ! c) =
      map (\<lambda>o'. (chunks s ! c ! o', tomb s ! c ! o')) [0 ..< length (chunks s ! c)]"
    using assms by (intro nth_equalityI) auto
  then show ?thesis by (simp add: chunkLive_def filter_map o_def)
qed

lemma store_wfD [dest]:
  assumes "store_wf s"
  shows "length (tomb s) = length (chunks s)" "length (dirty s) = length (chunks s)"
    and "c < length (chunks s) \<Longrightarrow> length (tomb s ! c) = length (chunks s ! c)"
    and "c < length (chunks s) \<Longrightarrow> length (chunks s ! c) \<le> chunkLimit"
  using assms by (auto simp: store_wf_def block_wf_def)

lemma StorePointers_conv:
  assumes "store_wf s"
  shows "StorePointers s = concat (map (chunkLive s) [0 ..< length (chunks s)])"
proof -
  have "map (\<lambda>a. item (slotAt s a)) (map (Slot c) (filter (\<lambda>o'. \<not> tomb s ! c ! o') [0 ..< length (chunks s ! c)]))
      = chunkLive s c" if "c < length (chunks s)" for c
    using store_wfD(3)[OF assms that] by (simp add: chunkLive_conv slotAt_def o_def)
  then show ?thesis
    by (auto simp: StorePointers_def rangeResources_def map_concat o_def intro!: arg_cong[where f = concat])
qed

lemma set_rangeResources: "a \<in> set (rangeResources s) \<longleftrightarrow> live_addr s a"
  by (cases a) (auto simp: rangeResources_def live_addr_def valid_addr_def)

lemma distinct_rangeResources: "distinct (rangeResources s)"
  unfolding rangeResources_def
  by (rule distinct_concat_tagged) auto

lemma length_filter_id_not:
  "length (filter (\<lambda>b. b) tb) + length (filter (\<lambda>o'. \<not> tb ! o') [0 ..< length tb]) = length tb"
proof -
  have "filter (\<lambda>b. b) tb = map ((!) tb) (filter (\<lambda>o'. tb ! o') [0 ..< length tb])"
  proof -
    have "filter (\<lambda>b. b) (map ((!) tb) [0 ..< length tb]) = map ((!) tb) (filter (\<lambda>o'. tb ! o') [0 ..< length tb])"
      by (simp add: filter_map o_def)
    then show ?thesis by (simp add: map_nth)
  qed
  then have "length (filter (\<lambda>b. b) tb) = length (filter (\<lambda>o'. tb ! o') [0 ..< length tb])" by simp
  then show ?thesis
    using sum_length_filter_compl[of "\<lambda>o'. tb ! o'" "[0 ..< length tb]"] by simp
qed

lemma sum_list_cong_idx:
  assumes "length xs = length ys" "\<And>i. i < length xs \<Longrightarrow> f (xs ! i) = g (ys ! i)"
  shows "sum_list (map f xs) = sum_list (map g ys)"
proof -
  have "map f xs = map g ys" using assms by (intro nth_equalityI) auto
  then show ?thesis by simp
qed

text \<open>\<open>Len\<close> counts exactly the live elements.\<close>

lemma Len_StorePointers:
  assumes "store_wf s"
  shows "Len s = length (StorePointers s)" and "dead s \<le> store_n s"
proof -
  let ?k = "\<lambda>c. length (filter (\<lambda>b. b) (tomb s ! c))"
  have part: "length (chunkLive s c) + ?k c = length (chunks s ! c)" if "c < length (chunks s)" for c
    using length_filter_id_not[of "tomb s ! c"] store_wfD(3)[OF assms that]
    by (simp add: chunkLive_conv)
  have n: "store_n s = (\<Sum>c \<leftarrow> [0 ..< length (chunks s)]. length (chunks s ! c))"
    using assms by (simp add: store_wf_def) (rule sum_list_cong_idx, auto)
  have d: "dead s = (\<Sum>c \<leftarrow> [0 ..< length (chunks s)]. ?k c)"
    using assms by (simp add: store_wf_def) (rule sum_list_cong_idx, auto)
  have "(\<Sum>c \<leftarrow> [0 ..< length (chunks s)]. length (chunkLive s c)) + dead s = store_n s"
    unfolding n d sum_list_addf[symmetric]
    by (rule sum_list_cong_idx) (auto simp: part)
  moreover have "length (StorePointers s) = (\<Sum>c \<leftarrow> [0 ..< length (chunks s)]. length (chunkLive s c))"
    by (simp add: StorePointers_conv[OF assms] length_concat o_def)
  ultimately show "Len s = length (StorePointers s)" "dead s \<le> store_n s"
    by (auto simp: Len_def)
qed

section \<open>Growing the arena\<close>

lemma markDirty_simps [simp]:
  "chunks (markDirty s c) = chunks s" "tomb (markDirty s c) = tomb s"
  "store_n (markDirty s c) = store_n s" "dead (markDirty s c) = dead s"
  "length (dirty (markDirty s c)) = length (dirty s)"
  by (simp_all add: markDirty_def)

lemma dirty_markDirty: "c' < length (dirty s) \<Longrightarrow> dirty (markDirty s c) ! c' = (dirty s ! c' \<or> c' = c)"
  by (auto simp: markDirty_def nth_list_update)

lemma store_wf_markDirty [simp]: "store_wf (markDirty s c) = store_wf s"
  by (simp add: store_wf_def)

lemma store_wf_new [simp]: "store_wf newChunkStore"
  by (simp add: store_wf_def newChunkStore_def)

lemma growStore_wf:
  assumes "store_wf s"
  shows "store_wf (growStore s)"
    and "chunks (growStore s) \<noteq> []"
    and "length (last (chunks (growStore s))) < chunkLimit"
proof -
  have lim: "length (last (chunks s)) \<le> chunkLimit" if "chunks s \<noteq> []"
    using store_wfD(4)[OF assms, of "length (chunks s) - 1"] that by (simp add: last_conv_nth)
  show "store_wf (growStore s)"
    using assms by (auto simp: growStore_def store_wf_def block_wf_def nth_append less_Suc_eq)
  show "chunks (growStore s) \<noteq> []" by (simp add: growStore_def)
  show "length (last (chunks (growStore s))) < chunkLimit"
    using lim by (auto simp: growStore_def chunkLimit_def)
qed

lemma growStore_reads:
  assumes "store_wf s"
  shows "StorePointers (growStore s) = StorePointers s"
    and "valid_addr s a \<Longrightarrow> valid_addr (growStore s) a \<and> slotAt (growStore s) a = slotAt s a
           \<and> tomb (growStore s) ! slot_chunk a ! slot_off a = tomb s ! slot_chunk a ! slot_off a"
proof -
  have "chunkLive (growStore s) c = chunkLive s c" if "c < length (chunks s)" for c
    using store_wfD(1)[OF assms] that by (auto simp: growStore_def chunkLive_def nth_append)
  moreover have "chunkLive (s\<lparr>chunks := chunks s @ [[]], tomb := tomb s @ [[]], dirty := d\<rparr>) (length (chunks s)) = []" for d
    using store_wfD(1)[OF assms] by (simp add: chunkLive_def nth_append)
  ultimately show "StorePointers (growStore s) = StorePointers s"
    unfolding StorePointers_conv[OF assms] StorePointers_conv[OF growStore_wf(1)[OF assms]]
    by (auto simp: growStore_def intro!: arg_cong[where f = concat])
  show "valid_addr s a \<Longrightarrow> valid_addr (growStore s) a \<and> slotAt (growStore s) a = slotAt s a
           \<and> tomb (growStore s) ! slot_chunk a ! slot_off a = tomb s ! slot_chunk a ! slot_off a"
    using store_wfD(1)[OF assms] by (auto simp: growStore_def valid_addr_def slotAt_def nth_append)
qed

lemma Append_parts:
  assumes "store_wf s" and "Append s v = (s', a)"
  defines "g \<equiv> growStore s"
  defines "ci \<equiv> length (chunks g) - 1"
  shows "ci < length (chunks g)" and "length (chunks g ! ci) < chunkLimit"
    and "a = Slot ci (length (chunks g ! ci))"
    and "chunks s' = (chunks g)[ci := chunks g ! ci @ [\<lparr>item = v, version = 0, chunk = ci\<rparr>]]"
    and "tomb s' = (tomb g)[ci := tomb g ! ci @ [False]]"
    and "store_n s' = store_n g + 1" and "dead s' = dead g"
    and "dirty s' = (dirty g)[ci := True]"
proof -
  note gwf = growStore_wf[OF assms(1), folded g_def]
  show ci: "ci < length (chunks g)" using gwf(2) by (auto simp: ci_def)
  show room: "length (chunks g ! ci) < chunkLimit"
    using gwf(2,3) by (simp add: last_conv_nth ci_def)
  have tb: "length (tomb g ! ci) = length (chunks g ! ci)" using gwf(1) ci by auto
  have e: "length (chunks g) - Suc 0 = ci" by (simp add: ci_def)
  have "length (dirty g) = length (chunks g)" using gwf(1) by auto
  then show "a = Slot ci (length (chunks g ! ci))"
    "chunks s' = (chunks g)[ci := chunks g ! ci @ [\<lparr>item = v, version = 0, chunk = ci\<rparr>]]"
    "tomb s' = (tomb g)[ci := tomb g ! ci @ [False]]"
    "store_n s' = store_n g + 1" "dead s' = dead g" "dirty s' = (dirty g)[ci := True]"
    using assms(2) room tb ci e
    by (auto simp: Append_def Let_def Push_def markDirty_def g_def[symmetric])
qed

lemma sum_list_map_update:
  "c < length xs \<Longrightarrow> sum_list (map f (xs[c := y])) + f (xs ! c) = sum_list (map f xs) + (f y :: nat)"
  by (induction xs arbitrary: c) (auto split: nat.splits)

lemma Append_wf:
  assumes "store_wf s" and "Append s v = (s', a)"
  shows "store_wf s'"
proof -
  note p = Append_parts[OF assms]
  note g = growStore_wf(1)[OF assms(1)]
  let ?g = "growStore s" and ?ci = "length (chunks (growStore s)) - 1"
  have ci: "?ci < length (tomb ?g)" using store_wfD(1)[OF g] p(1) by simp
  have "block_wf c (chunks s' ! c) (tomb s' ! c)" if "c < length (chunks s')" for c
  proof (cases "c = ?ci")
    case True
    have "block_wf ?ci (chunks ?g ! ?ci) (tomb ?g ! ?ci)" using g p(1) by (simp add: store_wf_def)
    then show ?thesis using True p ci by (auto simp: block_wf_def nth_list_update)
  next
    case False
    then show ?thesis using that g p by (auto simp: store_wf_def nth_list_update)
  qed
  moreover have "store_n s' = sum_list (map length (chunks s'))"
    using g sum_list_map_update[OF p(1), of length "chunks ?g ! ?ci @ [\<lparr>item = v, version = 0, chunk = ?ci\<rparr>]"]
    by (simp add: p(4,6) store_wf_def)
  moreover have "dead s' = sum_list (map (\<lambda>tb. length (filter (\<lambda>b. b) tb)) (tomb s'))"
    using g sum_list_map_update[OF ci, of "\<lambda>tb. length (filter (\<lambda>b. b) tb)" "tomb ?g ! ?ci @ [False]"]
    by (simp add: p(5,7) store_wf_def)
  ultimately show ?thesis
    using g p by (simp add: store_wf_def)
qed

text \<open>\<open>Append\<close> adds its value at the end of the live sequence, at an address of its own.\<close>

lemma Append_StorePointers:
  assumes "store_wf s" and "Append s v = (s', a)"
  shows "StorePointers s' = StorePointers s @ [v]"
proof -
  note g = growStore_wf(1)[OF assms(1)]
  note wf' = Append_wf[OF assms]
  let ?g = "growStore s"
  define ci where "ci = length (chunks ?g) - 1"
  note p = Append_parts[OF assms, folded ci_def]
  have len: "length (chunks s') = Suc ci" "length (chunks ?g) = Suc ci"
    using p(1,4) by (auto simp: ci_def)
  have ci: "ci < length (tomb ?g)" using store_wfD(1)[OF g] p(1) by simp
  have a: "map (chunkLive s') [0 ..< ci] = map (chunkLive ?g) [0 ..< ci]"
    by (simp add: chunkLive_def p(4,5))
  have b: "chunkLive s' ci = chunkLive ?g ci @ [v]"
    using p(1,2) ci store_wfD(3)[OF g p(1)] by (simp add: chunkLive_def p(4,5))
  have "StorePointers s' = StorePointers ?g @ [v]"
    unfolding StorePointers_conv[OF wf'] StorePointers_conv[OF g] len
    by (simp add: a b del: map_eq_conv)
  then show ?thesis by (simp add: growStore_reads(1)[OF assms(1)])
qed

lemma Append_addr:
  assumes "store_wf s" and "Append s v = (s', a)"
  shows "live_addr s' a" and "item (slotAt s' a) = v" and "\<not> valid_addr s a"
    and "valid_addr s b \<Longrightarrow> valid_addr s' b \<and> slotAt s' b = slotAt s b \<and>
           (live_addr s' b \<longleftrightarrow> live_addr s b)"
proof -
  note p = Append_parts[OF assms]
  note g = growStore_wf(1)[OF assms(1)]
  let ?g = "growStore s" and ?ci = "length (chunks (growStore s)) - 1"
  have ci: "?ci < length (tomb ?g)" using store_wfD(1)[OF g] p(1) by simp
  have tl: "length (tomb ?g ! ?ci) = length (chunks ?g ! ?ci)" using store_wfD(3)[OF g p(1)] .
  show "live_addr s' a" "item (slotAt s' a) = v"
    using p ci tl by (auto simp: live_addr_def valid_addr_def slotAt_def nth_append)
  show "\<not> valid_addr s a"
    using growStore_reads(2)[OF assms(1), of a] p by (auto simp: valid_addr_def)
  assume b: "valid_addr s b"
  have gb: "valid_addr ?g b" "slotAt ?g b = slotAt s b" "tomb ?g ! slot_chunk b ! slot_off b = tomb s ! slot_chunk b ! slot_off b"
    using growStore_reads(2)[OF assms(1) b] by auto
  show "valid_addr s' b \<and> slotAt s' b = slotAt s b \<and> (live_addr s' b \<longleftrightarrow> live_addr s b)"
    using gb b ci tl p by (auto simp: valid_addr_def slotAt_def live_addr_def nth_list_update nth_append)
qed

section \<open>Deleting\<close>

text \<open>The offsets below \<open>k\<close> of block \<open>c\<close> that a delete hits, and the store with them tombstoned.\<close>

definition hits :: "'a chunkStore \<Rightarrow> ('a \<Rightarrow> bool) \<Rightarrow> nat \<Rightarrow> nat \<Rightarrow> nat list" where
  "hits s pred c k = filter (\<lambda>o'. \<not> tomb s ! c ! o' \<and> pred (item (chunks s ! c ! o'))) [0 ..< k]"

definition killed :: "'a chunkStore \<Rightarrow> ('a \<Rightarrow> bool) \<Rightarrow> nat \<Rightarrow> nat \<Rightarrow> 'a chunkStore" where
  "killed s pred c k =
     s\<lparr>tomb := (tomb s)[c := map (\<lambda>o'. tomb s ! c ! o' \<or> o' < k \<and> pred (item (chunks s ! c ! o')))
                             [0 ..< length (tomb s ! c)]],
       dead := dead s + length (hits s pred c k),
       dirty := (if hits s pred c k = [] then dirty s else (dirty s)[c := True])\<rparr>"

lemma killed_0: "killed s pred c 0 = s"
proof -
  have "map (\<lambda>o'. tomb s ! c ! o') [0 ..< length (tomb s ! c)] = tomb s ! c" by (rule map_nth)
  then show ?thesis by (simp add: killed_def hits_def)
qed

lemma fold_deleteSlot:
  assumes "c < length (tomb s)" "c < length (dirty s)" "k \<le> length (tomb s ! c)"
  shows "foldl (deleteSlot pred c) (s, r) [0 ..< k] =
    (killed s pred c k, r @ map (\<lambda>o'. item (chunks s ! c ! o')) (hits s pred c k))"
  using assms(3)
proof (induction k)
  case 0
  then show ?case by (simp add: killed_0) (simp add: hits_def)
next
  case (Suc k)
  let ?x = "item (chunks s ! c ! k)"
  have tk: "tomb (killed s pred c k) ! c ! k = tomb s ! c ! k"
    using assms(1) Suc.prems by (simp add: killed_def)
  have ck: "chunks (killed s pred c k) = chunks s" by (simp add: killed_def)
  show ?case
  proof (cases "tomb s ! c ! k \<or> \<not> pred ?x")
    case True
    then have "hits s pred c (Suc k) = hits s pred c k" by (auto simp: hits_def)
    moreover have "map (\<lambda>o'. tomb s ! c ! o' \<or> o' < Suc k \<and> pred (item (chunks s ! c ! o'))) [0 ..< length (tomb s ! c)]
        = map (\<lambda>o'. tomb s ! c ! o' \<or> o' < k \<and> pred (item (chunks s ! c ! o'))) [0 ..< length (tomb s ! c)]"
      using True by (auto simp: less_Suc_eq)
    ultimately have "killed s pred c (Suc k) = killed s pred c k"
      by (simp add: killed_def del: map_eq_conv)
    then show ?thesis
      using Suc True tk ck \<open>hits s pred c (Suc k) = hits s pred c k\<close> by (simp add: deleteSlot_def Let_def)
  next
    case False
    then have h: "hits s pred c (Suc k) = hits s pred c k @ [k]" by (simp add: hits_def)
    have "(map (\<lambda>o'. tomb s ! c ! o' \<or> o' < k \<and> pred (item (chunks s ! c ! o'))) [0 ..< length (tomb s ! c)])[k := True]
        = map (\<lambda>o'. tomb s ! c ! o' \<or> o' < Suc k \<and> pred (item (chunks s ! c ! o'))) [0 ..< length (tomb s ! c)]"
      using False Suc.prems by (intro nth_equalityI) (auto simp: nth_list_update less_Suc_eq)
    then have "killed s pred c (Suc k) =
        markDirty (killed s pred c k\<lparr>tomb := (tomb (killed s pred c k))[c := (tomb (killed s pred c k) ! c)[k := True]],
                  dead := dead (killed s pred c k) + 1\<rparr>) c"
      using assms(1,2) by (simp add: killed_def h markDirty_def)
    then show ?thesis
      using Suc False tk ck h by (simp add: deleteSlot_def Let_def)
  qed
qed

definition killed_tomb :: "'a chunkStore \<Rightarrow> ('a \<Rightarrow> bool) \<Rightarrow> nat \<Rightarrow> bool list" where
  "killed_tomb s pred c =
     map (\<lambda>o'. tomb s ! c ! o' \<or> pred (item (chunks s ! c ! o'))) [0 ..< length (tomb s ! c)]"

definition block_hits :: "'a chunkStore \<Rightarrow> ('a \<Rightarrow> bool) \<Rightarrow> nat \<Rightarrow> 'a list" where
  "block_hits s pred c = map (\<lambda>o'. item (chunks s ! c ! o')) (hits s pred c (length (chunks s ! c)))"

definition deleted_upto ::
  "'a chunkStore \<Rightarrow> ('a \<Rightarrow> bool) \<Rightarrow> nat \<Rightarrow> 'a chunkStore \<Rightarrow> 'a list \<Rightarrow> bool" where
  "deleted_upto s pred m t r \<longleftrightarrow>
     chunks t = chunks s \<and> store_n t = store_n s \<and> length (tomb t) = length (tomb s) \<and>
     length (dirty t) = length (dirty s) \<and>
     (\<forall>c < length (chunks s). tomb t ! c = (if c < m then killed_tomb s pred c else tomb s ! c)) \<and>
     (\<forall>c < length (chunks s). dirty t ! c = (dirty s ! c \<or> c < m \<and> block_hits s pred c \<noteq> [])) \<and>
     r = concat (map (block_hits s pred) [0 ..< m]) \<and> dead t = dead s + length r"

lemma deleteBlock_step:
  assumes wf: "store_wf s" and m: "m < length (chunks s)" and up: "deleted_upto s pred m t r"
  shows "\<exists>t'. deleteBlock pred (t, r) m = (t', r @ block_hits s pred m) \<and>
    deleted_upto s pred (Suc m) t' (r @ block_hits s pred m)"
proof -
  have same: "chunks t = chunks s" "tomb t ! m = tomb s ! m" "length (tomb t) = length (tomb s)"
    "length (dirty t) = length (dirty s)"
    using up m by (auto simp: deleted_upto_def)
  have len: "length (tomb s ! m) = length (chunks s ! m)" "m < length (tomb s)" "m < length (dirty s)"
    using wf m by auto
  have h: "hits t pred m k = hits s pred m k" for k using same by (simp add: hits_def)
  let ?k = "length (chunks s ! m)"
  have "deleteBlock pred (t, r) m = (killed t pred m ?k, r @ block_hits s pred m)"
    using fold_deleteSlot[of m t ?k pred r] same len h by (simp add: deleteBlock_def block_hits_def)
  moreover have "tomb (killed t pred m ?k) = (tomb t)[m := killed_tomb s pred m]"
    using same len by (auto simp: killed_def killed_tomb_def intro!: arg_cong[where f = "list_update (tomb t) m"])
  moreover have "length (hits t pred m ?k) = length (block_hits s pred m)"
    by (simp add: h block_hits_def)
  moreover have "(hits t pred m ?k = []) = (block_hits s pred m = [])" by (simp add: h block_hits_def)
  ultimately show ?thesis
    using up m len same
    by (auto simp: deleted_upto_def killed_def nth_list_update less_Suc_eq)
qed

lemma fold_deleteBlock:
  assumes wf: "store_wf s" and "m \<le> length (chunks s)"
  shows "\<exists>t r. foldl (deleteBlock pred) (s, []) [0 ..< m] = (t, r) \<and> deleted_upto s pred m t r"
  using assms(2)
proof (induction m)
  case 0
  then show ?case by (simp add: deleted_upto_def)
next
  case (Suc m)
  then obtain t r where "foldl (deleteBlock pred) (s, []) [0 ..< m] = (t, r)" "deleted_upto s pred m t r"
    by auto
  then show ?case using deleteBlock_step[OF wf _ \<open>deleted_upto s pred m t r\<close>] Suc.prems by auto
qed

lemma DeleteFunc_upto:
  assumes "store_wf s" and "DeleteFunc s pred = (t, r)"
  shows "deleted_upto s pred (length (chunks s)) t r"
  using fold_deleteBlock[OF assms(1) order_refl, of pred] assms(2) by (auto simp: DeleteFunc_def)

lemma block_hits_filter:
  assumes "length (tomb s ! c) = length (chunks s ! c)"
  shows "block_hits s pred c = filter pred (chunkLive s c)"
  using assms by (simp add: block_hits_def hits_def chunkLive_conv filter_map o_def conj_commute)

lemma length_filter_disj:
  "length (filter (\<lambda>x. f x \<or> g x) xs) =
   length (filter f xs) + length (filter (\<lambda>x. \<not> f x \<and> g x) xs)"
  by (induction xs) auto

lemma length_filter_map_bool: "length (filter (\<lambda>b. b) (map f xs)) = length (filter f xs)"
  by (induction xs) auto

lemma killed_tomb_filter:
  "length (filter (\<lambda>b. b) (killed_tomb s pred c)) =
   length (filter (\<lambda>b. b) (tomb s ! c)) + length (hits s pred c (length (tomb s ! c)))"
proof -
  let ?t = "tomb s ! c"
  have "length (filter (\<lambda>o'. ?t ! o') [0 ..< length ?t]) = length (filter (\<lambda>b. b) ?t)"
    using length_filter_map_bool[of "(!) ?t" "[0 ..< length ?t]"] by (simp add: map_nth)
  then show ?thesis
    unfolding killed_tomb_def length_filter_map_bool length_filter_disj hits_def by simp
qed

lemma DeleteFunc_wf:
  assumes wf: "store_wf s" and "DeleteFunc s pred = (t, r)"
  shows "store_wf t"
proof -
  note up = DeleteFunc_upto[OF assms, unfolded deleted_upto_def]
  let ?n = "length (chunks s)"
  have tb: "tomb t ! c = killed_tomb s pred c" if "c < ?n" for c using up that by simp
  have hit: "length (hits s pred c (length (tomb s ! c))) = length (block_hits s pred c)" if "c < ?n" for c
    using store_wfD(3)[OF wf that] by (simp add: block_hits_def)
  have "sum_list (map (\<lambda>tb. length (filter (\<lambda>b. b) tb)) (tomb t)) =
      (\<Sum>c \<leftarrow> [0 ..< ?n]. length (filter (\<lambda>b. b) (tomb s ! c)) + length (block_hits s pred c))"
    using store_wfD(1)[OF wf] up tb hit
    by (intro sum_list_cong_idx) (auto simp: killed_tomb_filter)
  also have "\<dots> = (\<Sum>c \<leftarrow> [0 ..< ?n]. length (filter (\<lambda>b. b) (tomb s ! c))) + length r"
    using up by (simp add: sum_list_addf length_concat o_def)
  also have "(\<Sum>c \<leftarrow> [0 ..< ?n]. length (filter (\<lambda>b. b) (tomb s ! c))) = dead s"
    using wf store_wfD(1)[OF wf]
    by (simp add: store_wf_def) (rule sum_list_cong_idx, auto)
  finally have "dead t = sum_list (map (\<lambda>tb. length (filter (\<lambda>b. b) tb)) (tomb t))" using up by simp
  then show ?thesis
    using wf up tb by (auto simp: store_wf_def block_wf_def killed_tomb_def)
qed

text \<open>
  \<open>DeleteFunc\<close> keeps the survivors in their order, returns the rest in store order, and
  moves nothing: every slot keeps its address and content.
\<close>

lemma chunkLive_deleted:
  assumes wf: "store_wf s" and "DeleteFunc s pred = (t, r)" and c: "c < length (chunks s)"
  shows "chunkLive t c = filter (\<lambda>x. \<not> pred x) (chunkLive s c)"
proof -
  note up = DeleteFunc_upto[OF assms(1,2), unfolded deleted_upto_def]
  have len: "length (tomb s ! c) = length (chunks s ! c)" using wf c by auto
  have tb: "tomb t ! c = killed_tomb s pred c" "chunks t = chunks s" using up c by auto
  then have "length (tomb t ! c) = length (chunks t ! c)" using len by (simp add: killed_tomb_def)
  then show ?thesis
    using len tb by (simp add: chunkLive_conv filter_map o_def)
      (auto simp: killed_tomb_def intro!: arg_cong[where f = "map _"] filter_cong)
qed

lemma DeleteFunc_StorePointers:
  assumes wf: "store_wf s" and "DeleteFunc s pred = (t, r)"
  shows "StorePointers t = filter (\<lambda>x. \<not> pred x) (StorePointers s)"
    and "r = filter pred (StorePointers s)"
proof -
  note up = DeleteFunc_upto[OF assms, unfolded deleted_upto_def]
  have "map (chunkLive t) [0 ..< length (chunks s)] =
      map (\<lambda>c. filter (\<lambda>x. \<not> pred x) (chunkLive s c)) [0 ..< length (chunks s)]"
    using chunkLive_deleted[OF assms] by simp
  then show "StorePointers t = filter (\<lambda>x. \<not> pred x) (StorePointers s)"
    using up by (simp add: StorePointers_conv[OF wf] StorePointers_conv[OF DeleteFunc_wf[OF assms]]
        filter_concat o_def del: map_eq_conv)
  have "map (block_hits s pred) [0 ..< length (chunks s)] =
      map (\<lambda>c. filter pred (chunkLive s c)) [0 ..< length (chunks s)]"
    using wf by (auto simp: block_hits_filter)
  then show "r = filter pred (StorePointers s)"
    using up by (simp add: StorePointers_conv[OF wf] filter_concat o_def del: map_eq_conv)
qed

lemma DeleteFunc_addr:
  assumes "store_wf s" and "DeleteFunc s pred = (t, r)" and "valid_addr s a"
  shows "valid_addr t a" "slotAt t a = slotAt s a"
    and "live_addr t a \<longleftrightarrow> live_addr s a \<and> \<not> pred (item (slotAt s a))"
  using DeleteFunc_upto[OF assms(1,2)] assms store_wfD(3)[OF assms(1), of "slot_chunk a"]
  by (auto simp: deleted_upto_def valid_addr_def slotAt_def live_addr_def killed_tomb_def)

section \<open>Writing through a slot\<close>

lemma writeItem_slots:
  assumes "valid_addr s a"
  shows "valid_addr (writeItem b s a v) c \<longleftrightarrow> valid_addr s c"
    and "live_addr (writeItem b s a v) c \<longleftrightarrow> live_addr s c"
    and "slotAt (writeItem b s a v) c =
      (if c = a then (slotAt s a)\<lparr>item := v, version := version (slotAt s a) + b\<rparr> else slotAt s c)"
  using assms by (auto simp: writeItem_def Let_def valid_addr_def live_addr_def slotAt_def nth_list_update slot_addr.expand)

lemma writeItem_wf:
  assumes "store_wf s" and "valid_addr s a"
  shows "store_wf (writeItem b s a v)"
proof -
  obtain c o' where a: "a = Slot c o'" by (cases a)
  have c: "c < length (chunks s)" "o' < length (chunks s ! c)" using assms(2) by (auto simp: a valid_addr_def)
  then have "chunk (slotAt s a) = c" using assms(1) by (auto simp: a store_wf_def block_wf_def slotAt_def)
  moreover have "sum_list (map length ((chunks s)[c := (chunks s ! c)[o' := x]])) = sum_list (map length (chunks s))" for x
    using sum_list_map_update[OF c(1), of length "(chunks s ! c)[o' := x]"] by simp
  moreover have "block_wf c ((chunks s ! c)[o' := (slotAt s a)\<lparr>item := v, version := n\<rparr>]) (tomb s ! c)" for n
    using assms(1) c calculation(1) by (auto simp: store_wf_def block_wf_def dest!: set_update_subset_insert[THEN subsetD])
  ultimately show ?thesis
    using assms(1) c by (auto simp: writeItem_def Let_def a store_wf_def nth_list_update markDirty_def)
qed

section \<open>Sequences of operations\<close>

text \<open>
  What the engine does to a table's arena: append a new entity, write through the slot an
  id index points at (\<open>applyWrite\<close>, which bumps the version), delete by predicate.
\<close>

datatype 'a storeOp = OpAppend 'a | OpWrite slot_addr 'a | OpDelete "'a \<Rightarrow> bool"

definition runOp :: "'a chunkStore \<Rightarrow> 'a storeOp \<Rightarrow> 'a chunkStore" where
  "runOp s op =
     (case op of
        OpAppend v \<Rightarrow> fst (Append s v)
      | OpWrite a v \<Rightarrow> if live_addr s a then writeItem 1 s a v else s
      | OpDelete pred \<Rightarrow> fst (DeleteFunc s pred))"

text \<open>
  The abstract store: the live elements in order, each under its address, and the set of
  addresses ever handed out. An append takes an address never used before; a write changes
  one element in place; a delete removes elements and frees no address.
\<close>

type_synonym 'a abstractStore = "(slot_addr \<times> 'a) list \<times> slot_addr set"

inductive store_spec :: "'a storeOp \<Rightarrow> 'a abstractStore \<Rightarrow> 'a abstractStore \<Rightarrow> bool" where
  spec_append: "a \<notin> used \<Longrightarrow> store_spec (OpAppend v) (xs, used) (xs @ [(a, v)], insert a used)"
| spec_write: "store_spec (OpWrite a v) (xs, used) (map (\<lambda>p. if fst p = a then (a, v) else p) xs, used)"
| spec_delete: "store_spec (OpDelete pred) (xs, used) (filter (\<lambda>p. \<not> pred (snd p)) xs, used)"

definition contents :: "'a chunkStore \<Rightarrow> (slot_addr \<times> 'a) list" where
  "contents s = map (\<lambda>a. (a, item (slotAt s a))) (rangeResources s)"

definition abstractStore :: "'a chunkStore \<Rightarrow> 'a abstractStore" where
  "abstractStore s = (contents s, {a. valid_addr s a})"

definition chunkAddrs :: "'a chunkStore \<Rightarrow> nat \<Rightarrow> slot_addr list" where
  "chunkAddrs s c = map (Slot c) (filter (\<lambda>o'. \<not> tomb s ! c ! o') [0 ..< length (chunks s ! c)])"

lemma rangeResources_conv: "rangeResources s = concat (map (chunkAddrs s) [0 ..< length (chunks s)])"
  by (simp add: rangeResources_def chunkAddrs_def[abs_def])

lemma rangeResources_grow:
  assumes "store_wf s"
  shows "rangeResources (growStore s) = rangeResources s"
proof -
  have "chunkAddrs (growStore s) c = chunkAddrs s c" if "c < length (chunks s)" for c
    using store_wfD(1)[OF assms] that by (auto simp: growStore_def chunkAddrs_def nth_append)
  moreover have "chunkAddrs (s\<lparr>chunks := chunks s @ [[]], tomb := tomb s @ [[]], dirty := d\<rparr>) (length (chunks s)) = []" for d
    by (simp add: chunkAddrs_def nth_append)
  ultimately show ?thesis
    unfolding rangeResources_conv by (auto simp: growStore_def intro!: arg_cong[where f = concat])
qed

lemma Append_rangeResources:
  assumes "store_wf s" and "Append s v = (s', a)"
  shows "rangeResources s' = rangeResources s @ [a]"
proof -
  note g = growStore_wf(1)[OF assms(1)]
  let ?g = "growStore s"
  define ci where "ci = length (chunks ?g) - 1"
  note p = Append_parts[OF assms, folded ci_def]
  have len: "length (chunks s') = Suc ci" "length (chunks ?g) = Suc ci"
    using p(1,4) by (auto simp: ci_def)
  have ci: "ci < length (tomb ?g)" using store_wfD(1)[OF g] p(1) by simp
  have tl: "length (tomb ?g ! ci) = length (chunks ?g ! ci)" using store_wfD(3)[OF g p(1)] .
  have "map (chunkAddrs s') [0 ..< ci] = map (chunkAddrs ?g) [0 ..< ci]"
    by (simp add: chunkAddrs_def p(4,5))
  moreover have "filter (\<lambda>o'. \<not> (tomb ?g ! ci @ [False]) ! o') [0 ..< length (chunks ?g ! ci)] =
      filter (\<lambda>o'. \<not> tomb ?g ! ci ! o') [0 ..< length (chunks ?g ! ci)]"
    using tl by (intro filter_cong) (auto simp: nth_append)
  then have "chunkAddrs s' ci = chunkAddrs ?g ci @ [a]"
    using p(1,2,3) ci tl by (simp add: chunkAddrs_def p(4,5) nth_append)
  ultimately have "rangeResources s' = rangeResources ?g @ [a]"
    unfolding rangeResources_conv len by (simp del: map_eq_conv)
  then show ?thesis by (simp add: rangeResources_grow[OF assms(1)])
qed

lemma DeleteFunc_rangeResources:
  assumes wf: "store_wf s" and d: "DeleteFunc s pred = (t, r)"
  shows "rangeResources t = filter (\<lambda>a. \<not> pred (item (slotAt s a))) (rangeResources s)"
proof -
  note up = DeleteFunc_upto[OF assms, unfolded deleted_upto_def]
  have "chunkAddrs t c = filter (\<lambda>a. \<not> pred (item (slotAt s a))) (chunkAddrs s c)" if "c < length (chunks s)" for c
  proof -
    have "tomb t ! c = killed_tomb s pred c" "length (tomb s ! c) = length (chunks s ! c)"
      using up that wf by auto
    then show ?thesis
      using up by (auto simp: chunkAddrs_def slotAt_def filter_map o_def killed_tomb_def
          intro!: arg_cong[where f = "map _"] filter_cong)
  qed
  then show ?thesis
    using up unfolding rangeResources_conv filter_concat
    by (intro arg_cong[where f = concat]) auto
qed

lemma writeItem_rangeResources:
  assumes "valid_addr s a"
  shows "rangeResources (writeItem b s a v) = rangeResources s"
proof -
  have "length (chunks (writeItem b s a v)) = length (chunks s)" "tomb (writeItem b s a v) = tomb s"
    "length (chunks (writeItem b s a v) ! c) = length (chunks s ! c)" for c
    using assms by (auto simp: writeItem_def Let_def nth_list_update valid_addr_def)
  then show ?thesis by (simp add: rangeResources_def)
qed

lemma runOp_wf: "store_wf s \<Longrightarrow> store_wf (runOp s op)"
  by (cases op)
     (auto simp: runOp_def live_addr_def writeItem_wf intro: Append_wf[OF _ prod.collapse[symmetric]]
        DeleteFunc_wf[OF _ prod.collapse[symmetric]])

text \<open>After an operation a block that is not dirty is one that was there, not dirty, and holds what it held.\<close>

lemma runOp_clean:
  assumes wf: "store_wf s" and c: "c < length (chunks (runOp s op))" and clean: "\<not> dirty (runOp s op) ! c"
  shows "c < length (chunks s) \<and> \<not> dirty s ! c \<and> chunkLive (runOp s op) c = chunkLive s c"
proof (cases op)
  case (OpAppend v)
  obtain s' a where ap: "Append s v = (s', a)" by (cases "Append s v")
  then have s': "runOp s op = s'" by (simp add: runOp_def OpAppend)
  note g = growStore_wf(1)[OF wf]
  define ci where "ci = length (chunks (growStore s)) - 1"
  note p = Append_parts[OF wf ap, folded ci_def]
  have ci: "ci < length (tomb (growStore s))" "ci < length (dirty (growStore s))" using g p(1) by auto
  have ne: "c \<noteq> ci" using clean p(8) ci by (auto simp: s')
  then have "c < length (chunks s)" using c p(1,4) ci_def by (auto simp: s' growStore_def split: if_splits)
  then show ?thesis
    using ne clean p wf by (auto simp: s' chunkLive_def growStore_def nth_append split: if_splits)
next
  case (OpWrite a v)
  show ?thesis
  proof (cases "live_addr s a")
    case False
    then show ?thesis using assms OpWrite by (simp add: runOp_def)
  next
    case True
    then have a: "slot_chunk a < length (chunks s)" "slot_off a < length (chunks s ! slot_chunk a)"
      by (auto simp: live_addr_def valid_addr_def)
    then have "chunk (slotAt s a) = slot_chunk a"
      using wf by (auto simp: store_wf_def block_wf_def slotAt_def)
    then show ?thesis
      using assms True a by (auto simp: OpWrite runOp_def writeItem_def Let_def chunkLive_def dirty_markDirty store_wf_def)
  qed
next
  case (OpDelete pred)
  obtain t r where d: "DeleteFunc s pred = (t, r)" by (cases "DeleteFunc s pred")
  then have t: "runOp s op = t" by (simp add: runOp_def OpDelete)
  note up = DeleteFunc_upto[OF wf d, unfolded deleted_upto_def]
  have c': "c < length (chunks s)" using c up by (simp add: t)
  then have "block_hits s pred c = []" "\<not> dirty s ! c" using clean up by (auto simp: t)
  moreover have "block_hits s pred c = filter pred (chunkLive s c)"
    using wf c' by (auto simp: block_hits_filter)
  ultimately show ?thesis
    using chunkLive_deleted[OF wf d c'] c' by (auto simp: t filter_empty_conv intro!: filter_True)
qed

lemma runOp_spec:
  assumes wf: "store_wf s"
  shows "store_spec op (abstractStore s) (abstractStore (runOp s op))"
proof (cases op)
  case (OpAppend v)
  obtain s' a where ap: "Append s v = (s', a)" by (cases "Append s v")
  note A = Append_addr[OF wf ap]
  have "contents s' = contents s @ [(a, v)]"
    using A by (auto simp: contents_def Append_rangeResources[OF wf ap] set_rangeResources live_addr_def)
  moreover have "{b. valid_addr s' b} = insert a {b. valid_addr s b}"
  proof -
    note g = growStore_wf(1)[OF wf]
    note p = Append_parts[OF wf ap]
    have "valid_addr s' b \<longleftrightarrow> b = a \<or> valid_addr (growStore s) b" for b
      using p(1,3,4) by (cases b) (auto simp: valid_addr_def nth_list_update less_Suc_eq)
    moreover have "valid_addr (growStore s) b \<longleftrightarrow> valid_addr s b" for b
      by (cases b) (auto simp: valid_addr_def growStore_def nth_append less_Suc_eq split: if_splits)
    ultimately show ?thesis by auto
  qed
  ultimately show ?thesis
    using store_spec.spec_append[of a "{b. valid_addr s b}" v "contents s"] A(3) ap
    by (simp add: OpAppend abstractStore_def runOp_def)
next
  case (OpWrite a v)
  have "contents (runOp s op) = map (\<lambda>p. if fst p = a then (a, v) else p) (contents s)"
  proof (cases "live_addr s a")
    case True
    then have "valid_addr s a" by (simp add: live_addr_def)
    then show ?thesis
      using True by (auto simp: OpWrite runOp_def contents_def writeItem_rangeResources writeItem_slots)
  next
    case False
    then have "a \<notin> fst ` set (contents s)" by (auto simp: contents_def set_rangeResources)
    then have "map (\<lambda>p. if fst p = a then (a, v) else p) (contents s) = contents s"
      by (intro map_idI) auto
    then show ?thesis using False by (simp add: OpWrite runOp_def)
  qed
  moreover have "valid_addr (runOp s op) b \<longleftrightarrow> valid_addr s b" for b
    by (auto simp: OpWrite runOp_def live_addr_def writeItem_slots)
  ultimately show ?thesis
    using store_spec.spec_write[of a v "contents s"] by (simp add: OpWrite abstractStore_def)
next
  case (OpDelete pred)
  obtain t r where d: "DeleteFunc s pred = (t, r)" by (cases "DeleteFunc s pred")
  have same: "chunks t = chunks s" using DeleteFunc_upto[OF wf d] by (simp add: deleted_upto_def)
  then have "contents t = filter (\<lambda>p. \<not> pred (snd p)) (contents s)"
    by (simp add: contents_def DeleteFunc_rangeResources[OF wf d] slotAt_def filter_map o_def)
  moreover have "{b. valid_addr t b} = {b. valid_addr s b}" using same by (simp add: valid_addr_def)
  ultimately show ?thesis
    using store_spec.spec_delete[of pred "contents s"] d by (simp add: OpDelete abstractStore_def runOp_def)
qed

fun store_specs :: "'a storeOp list \<Rightarrow> 'a abstractStore \<Rightarrow> 'a abstractStore \<Rightarrow> bool" where
  "store_specs [] x y = (x = y)"
| "store_specs (op # ops) x z = (\<exists>y. store_spec op x y \<and> store_specs ops y z)"

definition runOps :: "'a chunkStore \<Rightarrow> 'a storeOp list \<Rightarrow> 'a chunkStore" where
  "runOps s ops = foldl runOp s ops"

lemma runOps_simps [simp]:
  "runOps s [] = s" "runOps s (op # ops) = runOps (runOp s op) ops"
  by (simp_all add: runOps_def)

lemma runOps_wf: "store_wf s \<Longrightarrow> store_wf (runOps s ops)"
  by (induction ops arbitrary: s) (auto intro: runOp_wf)

lemma runOps_clean:
  assumes "store_wf s" and "c < length (chunks (runOps s ops))" and "\<not> dirty (runOps s ops) ! c"
  shows "c < length (chunks s) \<and> \<not> dirty s ! c \<and> chunkLive (runOps s ops) c = chunkLive s c"
  using assms
proof (induction ops arbitrary: s)
  case Nil
  then show ?case by simp
next
  case (Cons op ops)
  have "store_wf (runOp s op)" using Cons.prems(1) by (rule runOp_wf)
  from Cons.IH[OF this] Cons.prems runOp_clean[OF Cons.prems(1), of c op]
  show ?case by auto
qed

section \<open>Properties\<close>

text \<open>
  C6. Any sequence of appends, writes and deletes on a well-formed arena keeps it well
  formed and behaves as the abstract store: live elements stay in insertion order under the
  addresses they were given, a write changes one of them in place, a delete removes exactly
  the matching ones, and no address is ever handed out twice.
\<close>

theorem arena_refines_spec:
  assumes "store_wf s"
  shows "store_wf (runOps s ops) \<and> store_specs ops (abstractStore s) (abstractStore (runOps s ops))"
  using assms
proof (induction ops arbitrary: s)
  case Nil
  then show ?case by simp
next
  case (Cons op ops)
  show ?case
    using Cons.IH[OF runOp_wf[OF Cons.prems, of op]] runOp_spec[OF Cons.prems, of op]
    unfolding store_specs.simps runOps_simps by blast
qed

theorem arena_refines_spec_witness:
  "store_wf (runOps (newChunkStore :: nat chunkStore) [OpAppend 7, OpAppend 8, OpDelete (\<lambda>x. x = 7), OpWrite (Slot 0 1) 9]) \<and>
   contents (runOps (newChunkStore :: nat chunkStore) [OpAppend 7, OpAppend 8, OpDelete (\<lambda>x. x = 7), OpWrite (Slot 0 1) 9])
     = [(Slot 0 1, 9)]"
proof
  show "store_wf (runOps (newChunkStore :: nat chunkStore) [OpAppend 7, OpAppend 8, OpDelete (\<lambda>x. x = 7), OpWrite (Slot 0 1) 9])"
    using arena_refines_spec[of "newChunkStore :: nat chunkStore"] store_wf_new by blast
qed code_simp

text \<open>
  Pointer stability: after any operations, an address that was valid is still valid; if
  nothing deleted or wrote it, it is live with the same element.
\<close>

theorem pointers_stay_valid:
  assumes "store_wf s" and "live_addr s a"
    and "\<And>op. op \<in> set ops \<Longrightarrow>
      (case op of OpDelete pred \<Rightarrow> \<not> pred (item (slotAt s a)) | OpWrite b v \<Rightarrow> b \<noteq> a | OpAppend v \<Rightarrow> True)"
  shows "live_addr (runOps s ops) a \<and> slotAt (runOps s ops) a = slotAt s a"
  using assms
proof (induction ops arbitrary: s)
  case Nil
  then show ?case by simp
next
  case (Cons op ops)
  have va: "valid_addr s a" using Cons.prems(2) by (simp add: live_addr_def)
  have step: "live_addr (runOp s op) a \<and> slotAt (runOp s op) a = slotAt s a"
  proof (cases op)
    case (OpAppend v)
    obtain s' b where ap: "Append s v = (s', b)" by (cases "Append s v")
    then show ?thesis
      using Append_addr(4)[OF Cons.prems(1) ap va] Cons.prems(2) by (simp add: OpAppend runOp_def)
  next
    case (OpWrite b v)
    have "b \<noteq> a" using Cons.prems(3)[of op] by (simp add: OpWrite)
    then show ?thesis
      using Cons.prems(2) writeItem_slots[of s b 1 v] by (auto simp: OpWrite runOp_def live_addr_def)
  next
    case (OpDelete pred)
    have keep: "\<not> pred (item (slotAt s a))" using Cons.prems(3)[of op] by (simp add: OpDelete)
    obtain t r where d: "DeleteFunc s pred = (t, r)" by (cases "DeleteFunc s pred")
    show ?thesis
      using keep Cons.prems(2) DeleteFunc_addr(2,3)[OF Cons.prems(1) d va] by (simp add: OpDelete runOp_def d)
  qed
  have "live_addr (runOps (runOp s op) ops) a \<and> slotAt (runOps (runOp s op) ops) a = slotAt (runOp s op) a"
    by (rule Cons.IH[OF runOp_wf[OF Cons.prems(1)]])
       (use step Cons.prems(3) in \<open>simp_all only: list.set_intros\<close>)
  then show ?case using step by simp
qed

theorem pointers_stay_valid_witness:
  "live_addr (runOps (runOps newChunkStore [OpAppend (7 :: nat)]) [OpAppend 8, OpDelete (\<lambda>x. x = 8)]) (Slot 0 0) \<and>
   item (slotAt (runOps (runOps newChunkStore [OpAppend (7 :: nat)]) [OpAppend 8, OpDelete (\<lambda>x. x = 8)]) (Slot 0 0)) = 7"
proof -
  let ?s = "runOps newChunkStore [OpAppend (7 :: nat)]"
  have wf: "store_wf ?s" by (rule runOps_wf) simp
  have live: "live_addr ?s (Slot 0 0)" by code_simp
  have seven: "item (slotAt ?s (Slot 0 0)) = 7" by code_simp
  have "live_addr (runOps ?s [OpAppend 8, OpDelete (\<lambda>x. x = 8)]) (Slot 0 0) \<and>
      slotAt (runOps ?s [OpAppend 8, OpDelete (\<lambda>x. x = 8)]) (Slot 0 0) = slotAt ?s (Slot 0 0)"
  proof (rule pointers_stay_valid[OF wf live])
    fix op :: "nat storeOp"
    assume "op \<in> set [OpAppend 8, OpDelete (\<lambda>x. x = 8)]"
    then show "case op of OpDelete pred \<Rightarrow> \<not> pred (item (slotAt ?s (Slot 0 0)))
        | OpWrite b v \<Rightarrow> b \<noteq> Slot 0 0 | OpAppend v \<Rightarrow> True"
      unfolding seven by auto
  qed
  then show ?thesis by (simp only: seven simp_thms)
qed

end
