(* ===== verification/Go_Bytes.thy ===== *)
theory Go_Bytes
  imports Nestory_Prelude
begin

text \<open>
  Go's \<open>encoding/binary\<close> big-endian reads and writes as the logs and the index keys use
  them, and slicing. \<open>put_be k n\<close> is what \<open>PutUint32\<close> (\<open>k = 4\<close>) and \<open>PutUint64\<close> (\<open>k = 8\<close>)
  store for the unsigned value \<open>n\<close>, truncated to the width as the conversion to \<open>uint32\<close>
  or \<open>uint64\<close> does; \<open>get_be\<close> is \<open>Uint32\<close> and \<open>Uint64\<close>.
\<close>

primrec put_be :: "nat \<Rightarrow> nat \<Rightarrow> bytes" where
  "put_be 0 n = []"
| "put_be (Suc k) n = word_of_nat (n div 256 ^ k) # put_be k n"

primrec get_be :: "bytes \<Rightarrow> nat" where
  "get_be [] = 0"
| "get_be (b # bs) = unat b * 256 ^ length bs + get_be bs"

definition subslice :: "bytes \<Rightarrow> nat \<Rightarrow> nat \<Rightarrow> bytes" where
  "subslice body i j = take (j - i) (drop i body)"

definition max_uint32 :: nat where "max_uint32 = 2 ^ 32 - 1"
definition max_int :: nat where "max_int = 2 ^ 63 - 1"

lemma unat_byte_bound: "unat (b :: byte) < 256"
proof -
  have "(unsigned b :: nat) < 2 ^ LENGTH(8)" by (rule unsigned_less)
  then show ?thesis by simp
qed

lemma unat_word64_bound: "unat (w :: 64 word) < 2 ^ 64"
proof -
  have "(unsigned w :: nat) < 2 ^ LENGTH(64)" by (rule unsigned_less)
  then show ?thesis by simp
qed

lemma unat_eqI_byte: "unat a = unat b \<Longrightarrow> a = (b :: byte)"
  by (rule unsigned_word_eqI)

lemma length_put_be [simp]: "length (put_be k n) = k"
  by (induction k) auto

lemma get_be_bound: "get_be bs < 256 ^ length bs"
proof (induction bs)
  case Nil
  then show ?case by simp
next
  case (Cons b bs)
  have "unat b < 256" using unat_byte_bound[of b] .
  then have "unat b * 256 ^ length bs + get_be bs < unat b * 256 ^ length bs + 256 ^ length bs"
    using Cons by simp
  also have "\<dots> = (unat b + 1) * 256 ^ length bs" by simp
  also have "\<dots> \<le> 256 * 256 ^ length bs" using \<open>unat b < 256\<close> by (intro mult_right_mono) auto
  finally show ?case by simp
qed

lemma get_put_be: "get_be (put_be k n) = n mod 256 ^ k"
proof (induction k)
  case 0
  then show ?case by simp
next
  case (Suc k)
  have "n mod 256 ^ Suc k = 256 ^ k * (n div 256 ^ k mod 256) + n mod 256 ^ k"
    using mod_mult2_eq[of n "256 ^ k" 256] by (simp add: mult.commute)
  then show ?case using Suc by (simp add: unat_of_nat mult.commute)
qed

lemma get_put_be_id [simp]: "n < 256 ^ k \<Longrightarrow> get_be (put_be k n) = n"
  by (simp add: get_put_be)

lemma put_be_mult_add: "put_be k (x * 256 ^ k + r) = put_be k r"
proof -
  have "put_be j (x * 256 ^ k + r) = put_be j r" if "j \<le> k" for j
    using that
  proof (induction j)
    case 0
    then show ?case by simp
  next
    case (Suc j)
    then obtain i where k: "k = Suc j + i" by (metis le_Suc_ex)
    have "x * 256 ^ k + r = (x * 256 ^ i * 256) * 256 ^ j + r"
      by (simp add: k power_add)
    then have "(x * 256 ^ k + r) div 256 ^ j = (x * 256 ^ i * 256) + r div 256 ^ j"
      by (simp only: div_mult_self3 power_not_zero zero_neq_numeral not_False_eq_True simp_thms)
    then have "word_of_nat ((x * 256 ^ k + r) div 256 ^ j) = (word_of_nat (r div 256 ^ j) :: byte)"
    proof -
      have "word_of_nat (y * 256 + z) = (word_of_nat z :: byte)" for y z :: nat
        by (rule unat_eqI_byte) (simp add: unat_of_nat del: of_nat_add of_nat_mult)
      then show ?thesis using \<open>(x * 256 ^ k + r) div 256 ^ j = _\<close> by (simp only:)
    qed
    then show ?case using Suc by simp
  qed
  then show ?thesis by simp
qed

lemma put_get_be: "put_be (length bs) (get_be bs) = bs"
proof (induction bs)
  case Nil
  then show ?case by simp
next
  case (Cons b bs)
  have "(unat b * 256 ^ length bs + get_be bs) div 256 ^ length bs = unat b"
    using get_be_bound[of bs] by simp
  then show ?case using Cons by (simp add: put_be_mult_add)
qed

lemma get_put_word64 [simp]: "word_of_nat (get_be (put_be 8 (unat w))) = (w :: 64 word)"
proof -
  have "unat w < 256 ^ 8" using unat_word64_bound[of w] by simp
  then show ?thesis by simp
qed

lemma put_be_word64: "length bs = 8 \<Longrightarrow> put_be 8 (unat (word_of_nat (get_be bs) :: 64 word)) = bs"
proof -
  assume "length bs = 8"
  then have "get_be bs < 2 ^ 64" using get_be_bound[of bs] by simp
  then have "unat (word_of_nat (get_be bs) :: 64 word) = get_be bs" by (simp add: unat_of_nat)
  then show ?thesis using put_get_be[of bs] \<open>length bs = 8\<close> by simp
qed

lemma subslice_simps [simp]:
  "subslice body i i = []"
  "length (subslice body i j) = min (j - i) (length body - i)"
  by (simp_all add: subslice_def)

lemma subslice_append_mid:
  "i = length a \<Longrightarrow> j = i + length b \<Longrightarrow> subslice (a @ b @ c) i j = b"
  by (simp add: subslice_def)

lemma subslice_append:
  "i \<le> j \<Longrightarrow> j \<le> k \<Longrightarrow> subslice body i j @ subslice body j k = subslice body i k"
proof -
  assume "i \<le> j" "j \<le> k"
  then have "k - i = (j - i) + (k - j)" by simp
  then have "subslice body i k = take (j - i) (drop i body) @ take (k - j) (drop (j - i) (drop i body))"
    by (simp only: subslice_def take_add)
  then show ?thesis using \<open>i \<le> j\<close> by (simp add: subslice_def)
qed

lemma subslice_all: "subslice body 0 (length body) = body"
  by (simp add: subslice_def)

end
