(* ===== verification/Wal_Frames.thy ===== *)
theory Wal_Frames
  imports Go_Bytes
begin

text \<open>
  \<open>wal.go\<close> and \<open>transaction_wal.go\<close>: the binary frames of the per-type log and of the
  shared transaction log, appending to a log file and replaying one. A log file is its
  bytes, \<open>None\<close> when it does not exist. Row ids are 64-bit words read as signed. The
  payload of a row is opaque here; \<open>decodeRow\<close> is the argument \<open>dec\<close> of the replays
  and is modelled in \<open>Row_Codec\<close>.
\<close>

type_synonym int64 = "64 word"

record walRow =
  Id :: int64
  Row :: bytes

record transactionWALRow = walRow +
  Type :: bytes

section \<open>Frames\<close>

text \<open>
  \<open>encodeWALFrame\<close>: length prefix, row count, then id, size and payload of each row. The
  preallocated buffer is filled front to back, so it is written as the concatenation.
\<close>

definition encodeRowEntry :: "walRow \<Rightarrow> bytes" where
  "encodeRowEntry row = put_be 8 (unat (Id row)) @ put_be 4 (length (Row row)) @ Row row"

definition frameSize :: "walRow list \<Rightarrow> nat" where
  "frameSize rows = 4 + sum_list (map (\<lambda>row. 12 + length (Row row)) rows)"

definition encodeWALFrame :: "walRow list \<Rightarrow> bytes result" where
  "encodeWALFrame rows =
     (if max_uint32 < frameSize rows \<or> max_uint32 < length rows
      then Inl (ErrFmt ''WAL frame is too large'')
      else Inr (put_be 4 (frameSize rows) @ put_be 4 (length rows) @ concat (map encodeRowEntry rows)))"

text \<open>The row loop of \<open>decodeWALFrame\<close>: rows still to read, read offset, rows read so far.\<close>

fun decodeRows :: "bytes \<Rightarrow> nat \<Rightarrow> nat \<Rightarrow> walRow list \<Rightarrow> (walRow list \<times> nat) option" where
  "decodeRows body 0 offset rows = Some (rows, offset)"
| "decodeRows body (Suc cnt) offset rows =
     (if length body - offset < 12 then None
      else
        let id = word_of_nat (get_be (subslice body offset (offset + 8)));
            rowSize = get_be (subslice body (offset + 8) (offset + 12));
            offset = offset + 12
        in if length body - offset < rowSize then None
           else decodeRows body cnt (offset + rowSize)
                  (rows @ [\<lparr>Id = id, Row = subslice body offset (offset + rowSize)\<rparr>]))"

definition decodeWALFrame :: "bytes \<Rightarrow> walRow list option" where
  "decodeWALFrame body =
     (if length body < 4 then None
      else
        let cnt = get_be (subslice body 0 4) in
        if (length body - 4) div 12 < cnt then None
        else (case decodeRows body cnt 4 [] of
                None \<Rightarrow> None
              | Some (rows, offset) \<Rightarrow> if offset = length body then Some rows else None))"

definition encodeTransactionRowEntry :: "transactionWALRow \<Rightarrow> bytes" where
  "encodeTransactionRowEntry row =
     put_be 4 (length (Type row)) @ put_be 8 (unat (Id row)) @ put_be 4 (length (Row row)) @
     Type row @ Row row"

definition transactionFrameSize :: "transactionWALRow list \<Rightarrow> nat" where
  "transactionFrameSize rows = 4 + sum_list (map (\<lambda>row. 16 + length (Type row) + length (Row row)) rows)"

definition encodeTransactionWALFrame :: "transactionWALRow list \<Rightarrow> bytes result" where
  "encodeTransactionWALFrame rows =
     (if max_uint32 < transactionFrameSize rows \<or> max_uint32 < length rows
      then Inl (ErrFmt ''transaction WAL frame is too large'')
      else Inr (put_be 4 (transactionFrameSize rows) @ put_be 4 (length rows) @
                concat (map encodeTransactionRowEntry rows)))"

fun decodeTransactionRows ::
  "bytes \<Rightarrow> nat \<Rightarrow> nat \<Rightarrow> transactionWALRow list \<Rightarrow> (transactionWALRow list \<times> nat) option" where
  "decodeTransactionRows body 0 offset rows = Some (rows, offset)"
| "decodeTransactionRows body (Suc cnt) offset rows =
     (if length body - offset < 16 then None
      else
        let typeSize = get_be (subslice body offset (offset + 4));
            id = word_of_nat (get_be (subslice body (offset + 4) (offset + 12)));
            rowSize = get_be (subslice body (offset + 12) (offset + 16));
            offset = offset + 16
        in if length body - offset < typeSize \<or> length body - offset - typeSize < rowSize then None
           else decodeTransactionRows body cnt (offset + typeSize + rowSize)
                  (rows @ [\<lparr>Id = id,
                            Row = subslice body (offset + typeSize) (offset + typeSize + rowSize),
                            Type = subslice body offset (offset + typeSize)\<rparr>]))"

definition decodeTransactionWALFrame :: "bytes \<Rightarrow> transactionWALRow list option" where
  "decodeTransactionWALFrame body =
     (if length body < 4 then None
      else
        let cnt = get_be (subslice body 0 4) in
        if (length body - 4) div 16 < cnt then None
        else (case decodeTransactionRows body cnt 4 [] of
                None \<Rightarrow> None
              | Some (rows, offset) \<Rightarrow> if offset = length body then Some rows else None))"

section \<open>Log files\<close>

text \<open>
  \<open>appendFrame\<close>. What the operating system makes of the write is its argument: the write
  and the fsync succeed, the process dies or the write fails after some bytes reached the
  file, or the frame is in the file and the fsync fails.
\<close>

datatype write_outcome = Written | Cut nat | SyncFailed

definition appendBytes :: "bytes option \<Rightarrow> bytes \<Rightarrow> bytes option" where
  "appendBytes file bs = Some (case file of None \<Rightarrow> bs | Some old \<Rightarrow> old @ bs)"

definition appendFrame ::
  "('r list \<Rightarrow> bytes result) \<Rightarrow> write_outcome \<Rightarrow> bytes option \<Rightarrow> 'r list \<Rightarrow> bytes option \<times> unit result" where
  "appendFrame enc out file rows =
     (case enc rows of
        Inl e \<Rightarrow> (appendBytes file [], Inl e)
      | Inr frame \<Rightarrow>
          (case out of
             Written \<Rightarrow> (appendBytes file frame, Inr ())
           | Cut k \<Rightarrow> (appendBytes file (take k frame), Inl (ErrIO ''write''))
           | SyncFailed \<Rightarrow> (appendBytes file frame, Inl (ErrIO ''fsync''))))"

text \<open>
  The frame loop of both replays: read four bytes, read that many more, decode; a short
  read or an invalid body ends the durable region.
\<close>

function scanFrames :: "(bytes \<Rightarrow> 'r list option) \<Rightarrow> bytes \<Rightarrow> 'r list list" where
  "scanFrames dec f =
     (if length f < 4 then []
      else
        let n = get_be (take 4 f); rest = drop 4 f in
        if length rest < n then []
        else (case dec (take n rest) of
                None \<Rightarrow> []
              | Some rows \<Rightarrow> rows # scanFrames dec (drop n rest)))"
  by pat_completeness auto
termination
  by (relation "measure (\<lambda>(dec, f). length f)") auto

declare scanFrames.simps [simp del]

datatype 'r recoveredRow = Recovered (rec_id: int) (rec_row: 'r) | RecoveredDelete (rec_id: int)

text \<open>
  One row of a replayed frame: \<open>-int(p.Id)\<close> is the 64-bit negation, so the most negative
  id stays negative.
\<close>

definition recoverRow :: "(bytes \<Rightarrow> 'r result) \<Rightarrow> ('x) walRow_scheme \<Rightarrow> 'r recoveredRow result" where
  "recoverRow dec p =
     (if sint (Id p) < 0 \<and> Row p = [] then Inr (RecoveredDelete (sint (- Id p)))
      else if sint (Id p) \<le> 0 then Inl (ErrFmt ''malformed WAL row id'')
      else (case dec (Row p) of Inl e \<Rightarrow> Inl e | Inr row \<Rightarrow> Inr (Recovered (sint (Id p)) row)))"

definition recoverRows ::
  "(bytes \<Rightarrow> 'r result) \<Rightarrow> ('x) walRow_scheme list \<Rightarrow> 'r recoveredRow list result" where
  "recoverRows dec rows =
     fold_result (\<lambda>out p. case recoverRow dec p of Inl e \<Rightarrow> Inl e | Inr r \<Rightarrow> Inr (out @ [r])) rows []"

definition replayWAL :: "(bytes \<Rightarrow> 'r result) \<Rightarrow> bytes option \<Rightarrow> 'r recoveredRow list result" where
  "replayWAL dec file =
     (case file of
        None \<Rightarrow> Inr []
      | Some f \<Rightarrow> recoverRows dec (concat (scanFrames decodeWALFrame f)))"

definition replayTransactionWAL ::
  "(bytes \<Rightarrow> 'r result) \<Rightarrow> bytes \<Rightarrow> bytes option \<Rightarrow> 'r recoveredRow list result" where
  "replayTransactionWAL dec typeName file =
     (case file of
        None \<Rightarrow> Inr []
      | Some f \<Rightarrow>
          recoverRows dec (filter (\<lambda>row. Type row = typeName)
            (concat (scanFrames decodeTransactionWALFrame f))))"

text \<open>\<open>truncate\<close> removes the file.\<close>

definition truncateWAL :: "bytes option \<Rightarrow> bytes option" where
  "truncateWAL file = None"

section \<open>The interface of a frame format\<close>

text \<open>
  What a log needs of its frame format: an encoded frame is a length prefix and a body of
  that length, the decoder gives back the encoded rows, and it accepts nothing but such
  bodies. Both formats are instances; the facts about logs are proved once.
\<close>

locale frame_codec =
  fixes enc :: "'r list \<Rightarrow> bytes result" and dec :: "bytes \<Rightarrow> 'r list option"
  assumes enc_shape: "enc rows = Inr frame \<Longrightarrow>
      \<exists>body. frame = put_be 4 (length body) @ body \<and> length body < 2 ^ 32 \<and> dec body = Some rows"
    and dec_canonical: "dec body = Some rows \<Longrightarrow> length body < 2 ^ 32 \<Longrightarrow>
      enc rows = Inr (put_be 4 (length body) @ body)"
begin

lemma scan_nil: "scanFrames dec [] = []"
  by (simp add: scanFrames.simps)

text \<open>A complete frame at the front of a log is read back, and scanning goes on behind it.\<close>

lemma scan_frame:
  assumes "enc rows = Inr frame"
  shows "scanFrames dec (frame @ rest) = rows # scanFrames dec rest"
proof -
  obtain body where b: "frame = put_be 4 (length body) @ body" "length body < 2 ^ 32" "dec body = Some rows"
    using enc_shape[OF assms] by blast
  then have "length body < 256 ^ 4" by simp
  then show ?thesis
    by (subst scanFrames.simps) (simp add: b Let_def)
qed

lemma scan_frames:
  assumes "list_all2 (\<lambda>rows frame. enc rows = Inr frame) frames encs"
  shows "scanFrames dec (concat encs @ rest) = frames @ scanFrames dec rest"
  using assms by (induction frames encs rule: list_all2_induct) (auto simp: scan_frame)

text \<open>A strict prefix of a frame contributes nothing: the torn tail is dropped whole.\<close>

lemma scan_torn:
  assumes "enc rows = Inr frame" and "k < length frame"
  shows "scanFrames dec (take k frame) = []"
proof -
  obtain body where b: "frame = put_be 4 (length body) @ body" "length body < 2 ^ 32"
    using enc_shape[OF assms(1)] by blast
  then have small: "length body < 256 ^ 4" by simp
  show ?thesis
  proof (cases "k < 4")
    case True
    then have "length (take k frame) < 4" by simp
    then show ?thesis by (subst scanFrames.simps) (simp only: if_True)
  next
    case False
    then have "take k frame = put_be 4 (length body) @ take (k - 4) body" by (simp add: b(1))
    moreover have "k - 4 < length body" using assms(2) False by (simp add: b(1))
    ultimately show ?thesis using small by (subst scanFrames.simps) (simp add: Let_def)
  qed
qed

lemma scan_log:
  assumes "list_all2 (\<lambda>rows frame. enc rows = Inr frame) frames encs"
    and "enc rows = Inr frame" and "k < length frame"
  shows "scanFrames dec (concat encs @ take k frame) = frames"
  by (simp add: scan_frames[OF assms(1)] scan_torn[OF assms(2,3)])

text \<open>Whatever a scan returns, the log starts with exactly those frames, encoded.\<close>

lemma scan_sound:
  "\<exists>encs rest. list_all2 (\<lambda>rows frame. enc rows = Inr frame) (scanFrames dec f) encs \<and>
     f = concat encs @ rest"
proof (induction "length f" arbitrary: f rule: less_induct)
  case less
  define n where "n = get_be (take 4 f)"
  show ?case
  proof (cases "length f < 4 \<or> length (drop 4 f) < n \<or> dec (take n (drop 4 f)) = None")
    case True
    then have "scanFrames dec f = []"
      by (subst scanFrames.simps) (auto simp: Let_def n_def)
    then show ?thesis by (intro exI[of _ "[]"] exI[of _ f]) simp
  next
    case False
    then obtain rows where rows: "dec (take n (drop 4 f)) = Some rows" by auto
    have scan: "scanFrames dec f = rows # scanFrames dec (drop n (drop 4 f))"
      using False rows by (subst scanFrames.simps) (auto simp: Let_def n_def)
    have "n < 256 ^ 4" using get_be_bound[of "take 4 f"] False by (simp add: n_def)
    then have "length (take n (drop 4 f)) < 2 ^ 32" by simp
    moreover have len: "length (take n (drop 4 f)) = n" using False by simp
    ultimately have e: "enc rows = Inr (put_be 4 n @ take n (drop 4 f))"
      using dec_canonical[OF rows] by simp
    have hd: "put_be 4 n = take 4 f"
      using put_get_be[of "take 4 f"] False by (simp add: n_def)
    obtain encs rest where tail:
      "list_all2 (\<lambda>rows frame. enc rows = Inr frame) (scanFrames dec (drop n (drop 4 f))) encs"
      "drop n (drop 4 f) = concat encs @ rest"
    proof -
      have "length (drop n (drop 4 f)) < length f" using False by auto
      then show thesis using less[of "drop n (drop 4 f)"] that by blast
    qed
    have "f = take 4 f @ take n (drop 4 f) @ drop n (drop 4 f)"
      by (metis append_take_drop_id)
    then have "f = concat ((put_be 4 n @ take n (drop 4 f)) # encs) @ rest"
      by (simp only: hd tail(2) concat.simps append_assoc)
    then show ?thesis
      using e tail(1) scan by (intro exI[of _ "(put_be 4 n @ take n (drop 4 f)) # encs"] exI[of _ rest]) simp
  qed
qed

end

section \<open>Both formats implement the interface\<close>

lemma subslice_append_left: "j \<le> length a \<Longrightarrow> subslice (a @ b) i j = subslice a i j"
  by (simp add: subslice_def)

lemma subslice_take: "j \<le> n \<Longrightarrow> subslice (take n body) i j = subslice body i j"
  by (simp add: subslice_def drop_take min_def)

lemma length_encodeRowEntry [simp]: "length (encodeRowEntry row) = 12 + length (Row row)"
  by (simp add: encodeRowEntry_def)

lemma length_concat_entries: "length (concat (map encodeRowEntry rows)) + 4 = frameSize rows"
  by (induction rows) (simp_all add: frameSize_def)

lemma decodeRows_step:
  assumes "subslice B off (off + 8) = put_be 8 (unat (Id row))"
    and "subslice B (off + 8) (off + 12) = put_be 4 (length (Row row))"
    and "subslice B (off + 12) (off + 12 + length (Row row)) = Row row"
    and "length (Row row) < 2 ^ 32" "off + 12 + length (Row row) \<le> length B"
  shows "decodeRows B (Suc cnt) off acc = decodeRows B cnt (off + 12 + length (Row row)) (acc @ [row])"
proof -
  have "length (Row row) < 256 ^ 4" using assms(4) by simp
  moreover have "\<not> length B - off < 12" "\<not> length B - (off + 12) < length (Row row)"
    using assms(5) by auto
  moreover obtain i r where "row = \<lparr>Id = i, Row = r\<rparr>" by (cases row)
  ultimately show ?thesis using assms(1-3) by (simp add: Let_def)
qed

lemma decodeRows_encode:
  assumes "\<And>row. row \<in> set rows \<Longrightarrow> length (Row row) < 2 ^ 32"
  shows "decodeRows (pre @ concat (map encodeRowEntry rows) @ post) (length rows) (length pre) acc =
    Some (acc @ rows, length pre + length (concat (map encodeRowEntry rows)))"
  using assms
proof (induction rows arbitrary: pre acc)
  case Nil
  then show ?case by simp
next
  case (Cons row rows)
  let ?body = "pre @ concat (map encodeRowEntry (row # rows)) @ post"
  let ?rest = "concat (map encodeRowEntry rows) @ post"
  let ?p8 = "put_be 8 (unat (Id row))" and ?p4 = "put_be 4 (length (Row row))"
  have body: "?body = pre @ ?p8 @ ?p4 @ Row row @ ?rest" by (simp add: encodeRowEntry_def)
  have id: "subslice ?body (length pre) (length pre + 8) = ?p8"
    unfolding body by (rule subslice_append_mid) simp_all
  have size: "subslice ?body (length pre + 8) (length pre + 12) = ?p4"
  proof -
    have "?body = (pre @ ?p8) @ ?p4 @ (Row row @ ?rest)" by (simp add: encodeRowEntry_def)
    then show ?thesis by (simp only:) (rule subslice_append_mid; simp)
  qed
  have pay: "subslice ?body (length pre + 12) (length pre + 12 + length (Row row)) = Row row"
  proof -
    have "?body = (pre @ ?p8 @ ?p4) @ Row row @ ?rest" by (simp add: encodeRowEntry_def)
    then show ?thesis by (simp only:) (rule subslice_append_mid; simp)
  qed
  have "length pre + 12 + length (Row row) \<le> length ?body" by (simp add: encodeRowEntry_def)
  then have "decodeRows ?body (length (row # rows)) (length pre) acc =
      decodeRows ?body (length rows) (length pre + 12 + length (Row row)) (acc @ [row])"
    unfolding length_Cons by (intro decodeRows_step[OF id size pay] Cons.prems) simp
  also have "\<dots> = decodeRows ((pre @ encodeRowEntry row) @ concat (map encodeRowEntry rows) @ post)
      (length rows) (length (pre @ encodeRowEntry row)) (acc @ [row])"
    by (simp add: add.assoc)
  also have "\<dots> = Some ((acc @ [row]) @ rows,
      length (pre @ encodeRowEntry row) + length (concat (map encodeRowEntry rows)))"
    by (rule Cons.IH) (use Cons.prems in auto)
  finally show ?case by (simp add: add.assoc)
qed

lemma frameSize_ge: "row \<in> set rows \<Longrightarrow> length (Row row) + 16 \<le> frameSize rows"
  by (induction rows) (auto simp: frameSize_def)

lemma frameSize_rows: "12 * length rows + 4 \<le> frameSize rows"
  by (induction rows) (auto simp: frameSize_def)

lemma encodeWALFrame_shape:
  assumes "encodeWALFrame rows = Inr frame"
  shows "\<exists>body. frame = put_be 4 (length body) @ body \<and> length body < 2 ^ 32 \<and> decodeWALFrame body = Some rows"
proof -
  have ok: "frameSize rows \<le> max_uint32" "length rows \<le> max_uint32"
    and frame: "frame = put_be 4 (frameSize rows) @ put_be 4 (length rows) @ concat (map encodeRowEntry rows)"
    using assms by (auto simp: encodeWALFrame_def split: if_splits)
  let ?body = "put_be 4 (length rows) @ concat (map encodeRowEntry rows)"
  have len: "length ?body = frameSize rows" using length_concat_entries[of rows] by simp
  have cnt: "length rows < 256 ^ 4" using ok by (simp add: max_uint32_def)
  have rows: "decodeRows ?body (length rows) 4 [] = Some (rows, length ?body)"
    using decodeRows_encode[of rows "put_be 4 (length rows)" "[]" "[]"] frameSize_ge[of _ rows] ok
    by (fastforce simp: max_uint32_def)
  have "subslice ?body 0 4 = put_be 4 (length rows)" by (simp add: subslice_def)
  moreover have "length rows \<le> (frameSize rows - 4) div 12"
    using frameSize_rows[of rows] by (simp add: less_eq_div_iff_mult_less_eq)
  ultimately have "decodeWALFrame ?body = Some rows"
    using cnt rows len frameSize_rows[of rows] by (simp add: decodeWALFrame_def Let_def)
  then show ?thesis
    using frame len ok by (intro exI[of _ ?body]) (simp add: max_uint32_def)
qed

text \<open>The decoder's loop reads off exactly the encoding of the rows it returns.\<close>

lemma decodeRows_sound:
  assumes "decodeRows body cnt offset acc = Some (rows, end')" and "offset \<le> length body" and "length body < 2 ^ 32"
  shows "\<exists>new. rows = acc @ new \<and> length new = cnt \<and> end' \<le> length body \<and> offset \<le> end' \<and>
     subslice body offset end' = concat (map encodeRowEntry new)"
  using assms(1,2)
proof (induction body cnt offset acc rule: decodeRows.induct)
  case (1 body offset rows)
  then show ?case by simp
next
  case (2 body cnt offset acc)
  define id where "id = (word_of_nat (get_be (subslice body offset (offset + 8))) :: int64)"
  define n where "n = get_be (subslice body (offset + 8) (offset + 12))"
  let ?row = "\<lparr>Id = id, Row = subslice body (offset + 12) (offset + 12 + n)\<rparr>"
  have room: "offset + 12 \<le> length body" "offset + 12 + n \<le> length body"
    and rec: "decodeRows body cnt (offset + 12 + n) (acc @ [?row]) = Some (rows, end')"
    using "2.prems" by (auto simp: Let_def id_def n_def split: if_splits)
  have ih: "\<exists>new. rows = (acc @ [?row]) @ new \<and> length new = cnt \<and> end' \<le> length body \<and>
      offset + 12 + n \<le> end' \<and> subslice body (offset + 12 + n) end' = concat (map encodeRowEntry new)"
    using "2.IH"[of id n "offset + 12"] "2.prems" room rec by (simp add: id_def n_def)
  then obtain new where new: "rows = (acc @ [?row]) @ new" "length new = cnt" "end' \<le> length body"
    "offset + 12 + n \<le> end'" "subslice body (offset + 12 + n) end' = concat (map encodeRowEntry new)"
    by blast
  have "put_be 8 (unat id) = subslice body offset (offset + 8)"
    unfolding id_def by (rule put_be_word64) (use room in simp)
  moreover have "put_be 4 n = subslice body (offset + 8) (offset + 12)"
    using put_get_be[of "subslice body (offset + 8) (offset + 12)"] room by (simp add: n_def)
  moreover have "length (subslice body (offset + 12) (offset + 12 + n)) = n" using room by simp
  ultimately have "encodeRowEntry ?row = subslice body offset (offset + 12 + n)"
    by (simp add: encodeRowEntry_def subslice_append)
  then have "subslice body offset end' = concat (map encodeRowEntry (?row # new))"
    using new(4,5) subslice_append[of offset "offset + 12 + n" end' body] by simp
  then show ?case using new by (intro exI[of _ "?row # new"]) auto
qed

lemma decodeWALFrame_canonical:
  assumes "decodeWALFrame body = Some rows" and "length body < 2 ^ 32"
  shows "encodeWALFrame rows = Inr (put_be 4 (length body) @ body)"
proof -
  define cnt where "cnt = get_be (subslice body 0 4)"
  have len: "4 \<le> length body" and rows: "decodeRows body cnt 4 [] = Some (rows, length body)"
    using assms(1) by (auto simp: decodeWALFrame_def Let_def cnt_def split: if_splits option.splits)
  from decodeRows_sound[OF rows len assms(2)]
  have new: "length rows = cnt" "subslice body 4 (length body) = concat (map encodeRowEntry rows)" by auto
  have "put_be 4 cnt = subslice body 0 4"
    using put_get_be[of "subslice body 0 4"] len by (simp add: cnt_def)
  then have body: "body = put_be 4 (length rows) @ concat (map encodeRowEntry rows)"
    using new subslice_append[of 0 4 "length body" body] len by (simp add: subslice_all)
  then have "frameSize rows = length body" using length_concat_entries[of rows] by simp
  moreover have "length rows \<le> max_uint32" using frameSize_rows[of rows] calculation assms(2)
    by (simp add: max_uint32_def)
  ultimately show ?thesis
    using body assms(2) by (simp add: encodeWALFrame_def max_uint32_def)
qed

interpretation wal: frame_codec encodeWALFrame decodeWALFrame
  by (unfold_locales; (rule encodeWALFrame_shape | rule decodeWALFrame_canonical); assumption)

lemma length_encodeTransactionRowEntry [simp]:
  "length (encodeTransactionRowEntry row) = 16 + length (Type row) + length (Row row)"
  by (simp add: encodeTransactionRowEntry_def)

lemma length_concat_transactionEntries:
  "length (concat (map encodeTransactionRowEntry rows)) + 4 = transactionFrameSize rows"
  by (induction rows) (simp_all add: transactionFrameSize_def)

lemma decodeTransactionRows_step:
  assumes "subslice B off (off + 4) = put_be 4 (length (Type row))"
    and "subslice B (off + 4) (off + 12) = put_be 8 (unat (Id row))"
    and "subslice B (off + 12) (off + 16) = put_be 4 (length (Row row))"
    and "subslice B (off + 16) (off + 16 + length (Type row)) = Type row"
    and "subslice B (off + 16 + length (Type row)) (off + 16 + length (Type row) + length (Row row)) = Row row"
    and "length (Type row) < 2 ^ 32" "length (Row row) < 2 ^ 32"
    and "off + 16 + length (Type row) + length (Row row) \<le> length B"
  shows "decodeTransactionRows B (Suc cnt) off acc =
    decodeTransactionRows B cnt (off + 16 + length (Type row) + length (Row row)) (acc @ [row])"
proof -
  have "length (Type row) < 256 ^ 4" "length (Row row) < 256 ^ 4" using assms(6,7) by simp_all
  moreover have "\<not> length B - off < 16" "\<not> length B - (off + 16) < length (Type row)"
    "\<not> length B - (off + 16) - length (Type row) < length (Row row)"
    using assms(8) by auto
  moreover obtain i r t where "row = \<lparr>Id = i, Row = r, Type = t\<rparr>" by (cases row)
  ultimately show ?thesis using assms(1-5) by (simp add: Let_def)
qed

lemma decodeTransactionRows_encode:
  assumes "\<And>row. row \<in> set rows \<Longrightarrow> length (Type row) < 2 ^ 32 \<and> length (Row row) < 2 ^ 32"
  shows "decodeTransactionRows (pre @ concat (map encodeTransactionRowEntry rows) @ post) (length rows) (length pre) acc =
    Some (acc @ rows, length pre + length (concat (map encodeTransactionRowEntry rows)))"
  using assms
proof (induction rows arbitrary: pre acc)
  case Nil
  then show ?case by simp
next
  case (Cons row rows)
  let ?body = "pre @ concat (map encodeTransactionRowEntry (row # rows)) @ post"
  let ?rest = "concat (map encodeTransactionRowEntry rows) @ post"
  let ?t = "put_be 4 (length (Type row))" and ?i = "put_be 8 (unat (Id row))" and ?n = "put_be 4 (length (Row row))"
  have parts: "?body = pre @ ?t @ ?i @ ?n @ Type row @ Row row @ ?rest"
    "?body = (pre @ ?t) @ ?i @ (?n @ Type row @ Row row @ ?rest)"
    "?body = (pre @ ?t @ ?i) @ ?n @ (Type row @ Row row @ ?rest)"
    "?body = (pre @ ?t @ ?i @ ?n) @ Type row @ (Row row @ ?rest)"
    "?body = (pre @ ?t @ ?i @ ?n @ Type row) @ Row row @ ?rest"
    by (simp_all add: encodeTransactionRowEntry_def)
  have "decodeTransactionRows ?body (length (row # rows)) (length pre) acc =
      decodeTransactionRows ?body (length rows) (length pre + 16 + length (Type row) + length (Row row)) (acc @ [row])"
    unfolding length_Cons
  proof (rule decodeTransactionRows_step)
    show "subslice ?body (length pre) (length pre + 4) = ?t"
      by (simp only: parts(1)) (rule subslice_append_mid; simp)
    show "subslice ?body (length pre + 4) (length pre + 12) = ?i"
      by (simp only: parts(2)) (rule subslice_append_mid; simp)
    show "subslice ?body (length pre + 12) (length pre + 16) = ?n"
      by (simp only: parts(3)) (rule subslice_append_mid; simp)
    show "subslice ?body (length pre + 16) (length pre + 16 + length (Type row)) = Type row"
      by (simp only: parts(4)) (rule subslice_append_mid; simp)
    show "subslice ?body (length pre + 16 + length (Type row))
        (length pre + 16 + length (Type row) + length (Row row)) = Row row"
      by (simp only: parts(5)) (rule subslice_append_mid; simp)
  qed (use Cons.prems in \<open>auto\<close>)
  also have "\<dots> = decodeTransactionRows ((pre @ encodeTransactionRowEntry row) @ concat (map encodeTransactionRowEntry rows) @ post)
      (length rows) (length (pre @ encodeTransactionRowEntry row)) (acc @ [row])"
    by (simp add: add.assoc)
  also have "\<dots> = Some ((acc @ [row]) @ rows,
      length (pre @ encodeTransactionRowEntry row) + length (concat (map encodeTransactionRowEntry rows)))"
    by (rule Cons.IH) (use Cons.prems in auto)
  finally show ?case by (simp add: add.assoc)
qed

lemma transactionFrameSize_ge:
  "row \<in> set rows \<Longrightarrow> length (Type row) + length (Row row) + 20 \<le> transactionFrameSize rows"
  by (induction rows) (auto simp: transactionFrameSize_def)

lemma transactionFrameSize_rows: "16 * length rows + 4 \<le> transactionFrameSize rows"
  by (induction rows) (auto simp: transactionFrameSize_def)

lemma encodeTransactionWALFrame_shape:
  assumes "encodeTransactionWALFrame rows = Inr frame"
  shows "\<exists>body. frame = put_be 4 (length body) @ body \<and> length body < 2 ^ 32 \<and>
    decodeTransactionWALFrame body = Some rows"
proof -
  have ok: "transactionFrameSize rows \<le> max_uint32" "length rows \<le> max_uint32"
    and frame: "frame = put_be 4 (transactionFrameSize rows) @ put_be 4 (length rows) @
      concat (map encodeTransactionRowEntry rows)"
    using assms by (auto simp: encodeTransactionWALFrame_def split: if_splits)
  let ?body = "put_be 4 (length rows) @ concat (map encodeTransactionRowEntry rows)"
  have len: "length ?body = transactionFrameSize rows" using length_concat_transactionEntries[of rows] by simp
  have cnt: "length rows < 256 ^ 4" using ok by (simp add: max_uint32_def)
  have rows: "decodeTransactionRows ?body (length rows) 4 [] = Some (rows, length ?body)"
    using decodeTransactionRows_encode[of rows "put_be 4 (length rows)" "[]" "[]"]
      transactionFrameSize_ge[of _ rows] ok
    by (fastforce simp: max_uint32_def)
  have "subslice ?body 0 4 = put_be 4 (length rows)" by (simp add: subslice_def)
  moreover have "length rows \<le> (transactionFrameSize rows - 4) div 16"
    using transactionFrameSize_rows[of rows] by (simp add: less_eq_div_iff_mult_less_eq)
  ultimately have "decodeTransactionWALFrame ?body = Some rows"
    using cnt rows len transactionFrameSize_rows[of rows] by (simp add: decodeTransactionWALFrame_def Let_def)
  then show ?thesis
    using frame len ok by (intro exI[of _ ?body]) (simp add: max_uint32_def)
qed

lemma decodeTransactionRows_sound:
  assumes "decodeTransactionRows body cnt offset acc = Some (rows, end')" and "offset \<le> length body"
    and "length body < 2 ^ 32"
  shows "\<exists>new. rows = acc @ new \<and> length new = cnt \<and> end' \<le> length body \<and> offset \<le> end' \<and>
     subslice body offset end' = concat (map encodeTransactionRowEntry new)"
  using assms(1,2)
proof (induction body cnt offset acc rule: decodeTransactionRows.induct)
  case (1 body offset rows)
  then show ?case by simp
next
  case (2 body cnt offset acc)
  define tn where "tn = get_be (subslice body offset (offset + 4))"
  define id where "id = (word_of_nat (get_be (subslice body (offset + 4) (offset + 12))) :: int64)"
  define n where "n = get_be (subslice body (offset + 12) (offset + 16))"
  let ?row = "\<lparr>Id = id, Row = subslice body (offset + 16 + tn) (offset + 16 + tn + n),
               Type = subslice body (offset + 16) (offset + 16 + tn)\<rparr>"
  have room: "offset + 16 + tn + n \<le> length body"
    and rec: "decodeTransactionRows body cnt (offset + 16 + tn + n) (acc @ [?row]) = Some (rows, end')"
    using "2.prems" by (auto simp: Let_def id_def n_def tn_def split: if_splits)
  have ih: "\<exists>new. rows = (acc @ [?row]) @ new \<and> length new = cnt \<and> end' \<le> length body \<and>
      offset + 16 + tn + n \<le> end' \<and>
      subslice body (offset + 16 + tn + n) end' = concat (map encodeTransactionRowEntry new)"
    by (rule "2.IH"[OF _ tn_def id_def n_def refl _ rec]) (use room in auto)
  then obtain new where new: "rows = (acc @ [?row]) @ new" "length new = cnt" "end' \<le> length body"
    "offset + 16 + tn + n \<le> end'"
    "subslice body (offset + 16 + tn + n) end' = concat (map encodeTransactionRowEntry new)"
    by blast
  have "put_be 8 (unat id) = subslice body (offset + 4) (offset + 12)"
    unfolding id_def by (rule put_be_word64) (use room in simp)
  moreover have "put_be 4 tn = subslice body offset (offset + 4)"
    using put_get_be[of "subslice body offset (offset + 4)"] room by (simp add: tn_def)
  moreover have "put_be 4 n = subslice body (offset + 12) (offset + 16)"
    using put_get_be[of "subslice body (offset + 12) (offset + 16)"] room by (simp add: n_def)
  moreover have "length (subslice body (offset + 16 + tn) (offset + 16 + tn + n)) = n"
    "length (subslice body (offset + 16) (offset + 16 + tn)) = tn" using room by simp_all
  ultimately have "encodeTransactionRowEntry ?row = subslice body offset (offset + 16 + tn + n)"
    by (simp add: encodeTransactionRowEntry_def subslice_append)
  then have "subslice body offset end' = concat (map encodeTransactionRowEntry (?row # new))"
    using new(4,5) subslice_append[of offset "offset + 16 + tn + n" end' body] by simp
  then show ?case using new by (intro exI[of _ "?row # new"]) auto
qed

lemma decodeTransactionWALFrame_canonical:
  assumes "decodeTransactionWALFrame body = Some rows" and "length body < 2 ^ 32"
  shows "encodeTransactionWALFrame rows = Inr (put_be 4 (length body) @ body)"
proof -
  define cnt where "cnt = get_be (subslice body 0 4)"
  have len: "4 \<le> length body" and rows: "decodeTransactionRows body cnt 4 [] = Some (rows, length body)"
    using assms(1) by (auto simp: decodeTransactionWALFrame_def Let_def cnt_def split: if_splits option.splits)
  from decodeTransactionRows_sound[OF rows len assms(2)]
  have new: "length rows = cnt" "subslice body 4 (length body) = concat (map encodeTransactionRowEntry rows)" by auto
  have "put_be 4 cnt = subslice body 0 4"
    using put_get_be[of "subslice body 0 4"] len by (simp add: cnt_def)
  then have body: "body = put_be 4 (length rows) @ concat (map encodeTransactionRowEntry rows)"
    using new subslice_append[of 0 4 "length body" body] len by (simp add: subslice_all)
  then have "transactionFrameSize rows = length body" using length_concat_transactionEntries[of rows] by simp
  moreover have "length rows \<le> max_uint32" using transactionFrameSize_rows[of rows] calculation assms(2)
    by (simp add: max_uint32_def)
  ultimately show ?thesis
    using body assms(2) by (simp add: encodeTransactionWALFrame_def max_uint32_def)
qed

interpretation transaction_wal: frame_codec encodeTransactionWALFrame decodeTransactionWALFrame
  by (unfold_locales; (rule encodeTransactionWALFrame_shape | rule decodeTransactionWALFrame_canonical); assumption)

section \<open>Properties\<close>

text \<open>
  A log made of committed frames followed by a strict prefix of one more frame replays
  to exactly the committed frames, in order.
\<close>

theorem wal_replays_committed_frames:
  assumes "list_all2 (\<lambda>rows frame. encodeWALFrame rows = Inr frame) frames encs"
    and "encodeWALFrame rows = Inr frame" and "k < length frame"
  shows "scanFrames decodeWALFrame (concat encs @ take k frame) = frames"
  by (rule wal.scan_log[OF assms])

definition sampleRow :: walRow where "sampleRow = \<lparr>Id = 1, Row = [7, 7]\<rparr>"

theorem wal_replays_committed_frames_witness:
  "scanFrames decodeWALFrame
     (concat [put_be 4 18 @ put_be 4 1 @ encodeRowEntry sampleRow] @
      take 5 (put_be 4 18 @ put_be 4 1 @ encodeRowEntry sampleRow)) = [[sampleRow]]"
proof -
  have e: "encodeWALFrame [sampleRow] = Inr (put_be 4 18 @ put_be 4 1 @ encodeRowEntry sampleRow)"
    by (simp add: encodeWALFrame_def frameSize_def sampleRow_def max_uint32_def)
  show ?thesis
    by (rule wal_replays_committed_frames[OF _ e]) (simp_all add: e)
qed

text \<open>
  Whatever bytes a log holds, the rows a replay of the shared transaction log sees are
  the encodings of the log's own prefix: nothing but complete frames is ever accepted.
\<close>

theorem transaction_wal_replay_is_a_prefix:
  "\<exists>encs rest.
     list_all2 (\<lambda>rows frame. encodeTransactionWALFrame rows = Inr frame)
       (scanFrames decodeTransactionWALFrame f) encs \<and> f = concat encs @ rest"
  by (rule transaction_wal.scan_sound)

text \<open>
  A frame of the shared transaction log decodes to the rows it was made of, and the
  decoder accepts no other body of that length: encoding is the inverse of decoding.
\<close>

theorem transaction_frame_canonical:
  assumes "length body < 2 ^ 32"
  shows "decodeTransactionWALFrame body = Some rows \<longleftrightarrow>
    encodeTransactionWALFrame rows = Inr (put_be 4 (length body) @ body)"
proof
  assume "decodeTransactionWALFrame body = Some rows"
  then show "encodeTransactionWALFrame rows = Inr (put_be 4 (length body) @ body)"
    using transaction_wal.dec_canonical assms by blast
next
  assume e: "encodeTransactionWALFrame rows = Inr (put_be 4 (length body) @ body)"
  then obtain b where b: "put_be 4 (length body) @ body = put_be 4 (length b) @ b"
    "decodeTransactionWALFrame b = Some rows"
    using transaction_wal.enc_shape by blast
  then have "body = b" by simp
  then show "decodeTransactionWALFrame body = Some rows" using b(2) by simp
qed

theorem transaction_frame_canonical_witness:
  "decodeTransactionWALFrame (put_be 4 0) = Some []"
proof -
  have "encodeTransactionWALFrame [] = Inr (put_be 4 (length (put_be 4 0)) @ put_be 4 0)"
    by (simp add: encodeTransactionWALFrame_def transactionFrameSize_def max_uint32_def)
  then show ?thesis using transaction_frame_canonical[of "put_be 4 0" "[]"] by simp
qed

end
