(* ===== verification/Row_Codec.thy ===== *)
theory Row_Codec
  imports Go_Bytes
begin

text \<open>
  The Go values a row is made of, and the scalar row codec of \<open>wal.go\<close>
  (\<open>scalarRowSize\<close> to \<open>decodeScalarAggregate\<close>, \<open>encodeRow\<close>, \<open>decodeRow\<close>). A value is
  what reflection reads from it: integers as the 64-bit word of \<open>Value.Int\<close> or
  \<open>Value.Uint\<close>, floats as the bits of \<open>math.Float64bits(Value.Float())\<close>, strings and byte
  slices as bytes. Types carry the widths, a defined type of kind \<open>uint8\<close> is told from \<open>uint8\<close>
  itself, which \<open>reflect.Copy\<close> does as well, and a struct type says of each field whether it
  is exported. The gob encoding of the other rows is the standard library's and a pair of
  arguments of \<open>encodeRow\<close> and \<open>decodeRow\<close>.
\<close>

datatype gtype =
    TBool
  | TInt nat
  | TUint nat
  | TNamedByte string
  | TFloat32
  | TFloat64
  | TString
  | TSlice gtype
  | TArray nat gtype
  | TStruct "(string \<times> bool \<times> gtype) list"
  | TPtr string
  | TOther string

datatype gval =
    VBool bool
  | VInt "64 word"
  | VUint "64 word"
  | VFloat "64 word"
  | VString bytes
  | VBytes "bytes option"
  | VSlice "gval list option"
  | VArray "gval list"
  | VStruct "gval list"
  | VPtr "nat option"
  | VOther nat

text \<open>
  \<open>SetFloat\<close> on a \<open>float32\<close> stores \<open>float32(x)\<close>; these are the bits \<open>Float\<close> reads back.
  Round to nearest, ties to even, on the bits of the double: exponent and fraction together
  as one number, the low 29 bits rounded away, more of them below the normal range.
\<close>

definition round_at :: "nat \<Rightarrow> nat \<Rightarrow> nat" where
  "round_at shift x =
     (let q = x div 2 ^ shift; r = x mod 2 ^ shift; half = 2 ^ (shift - 1) in
      (if r < half \<or> (r = half \<and> even q) then q else q + 1) * 2 ^ shift)"

definition float32_bits :: "64 word \<Rightarrow> 64 word" where
  "float32_bits w =
     (let x = unat w; sign = (x div 2 ^ 63) * 2 ^ 63; mag = x mod 2 ^ 63;
          e = mag div 2 ^ 52; frac = mag mod 2 ^ 52
      in word_of_nat (sign +
        (if e = 2047 \<and> frac \<noteq> 0 then 2047 * 2 ^ 52 + 2 ^ 51 + (frac mod 2 ^ 51 div 2 ^ 29) * 2 ^ 29
         else if e = 2047 then mag
         else if 897 \<le> e then
           (let r = round_at 29 mag in if 1151 * 2 ^ 52 \<le> r then 2047 * 2 ^ 52 else r)
         else if 874 \<le> e then round_at (926 - e) mag
         else if e = 873 \<and> frac \<noteq> 0 then 874 * 2 ^ 52
         else 0)))"

text \<open>\<open>SetInt\<close> and \<open>SetUint\<close> truncate to the width of the field.\<close>

definition setInt :: "nat \<Rightarrow> 64 word \<Rightarrow> 64 word" where
  "setInt w x = signed_take_bit (w - 1) x"

definition setUint :: "nat \<Rightarrow> 64 word \<Rightarrow> 64 word" where
  "setUint w x = take_bit w x"

text \<open>The element types of kind \<open>uint8\<close>.\<close>

definition is_byte :: "gtype \<Rightarrow> bool" where
  "is_byte t = (case t of TUint w \<Rightarrow> w = 8 | TNamedByte n \<Rightarrow> True | _ \<Rightarrow> False)"

text \<open>No slice with elements of a defined byte type stands anywhere in the type.\<close>

fun plain_bytes :: "gtype \<Rightarrow> bool" where
  "plain_bytes (TSlice t) = (case t of TNamedByte n \<Rightarrow> False | _ \<Rightarrow> plain_bytes t)"
| "plain_bytes (TArray n t) = plain_bytes t"
| "plain_bytes (TStruct fs) = (\<forall>f \<in> set fs. plain_bytes (snd (snd f)))"
| "plain_bytes _ = True"

text \<open>The values a variable of a type can hold.\<close>

fun has_type :: "gtype \<Rightarrow> gval \<Rightarrow> bool"
  and has_types :: "gtype \<Rightarrow> gval list \<Rightarrow> bool"
  and has_fields :: "(string \<times> bool \<times> gtype) list \<Rightarrow> gval list \<Rightarrow> bool" where
  "has_type t (VBool b) = (t = TBool)"
| "has_type t (VInt x) = (case t of TInt w \<Rightarrow> setInt w x = x | _ \<Rightarrow> False)"
| "has_type t (VUint x) = (case t of TUint w \<Rightarrow> setUint w x = x | TNamedByte n \<Rightarrow> setUint 8 x = x | _ \<Rightarrow> False)"
| "has_type t (VFloat x) = (t = TFloat64 \<or> t = TFloat32 \<and> float32_bits x = x)"
| "has_type t (VString s) = (t = TString)"
| "has_type t (VBytes bs) = (case t of TSlice e \<Rightarrow> is_byte e | _ \<Rightarrow> False)"
| "has_type t (VSlice None) = (case t of TSlice e \<Rightarrow> \<not> is_byte e | _ \<Rightarrow> False)"
| "has_type t (VSlice (Some vs)) = (case t of TSlice e \<Rightarrow> \<not> is_byte e \<and> has_types e vs | _ \<Rightarrow> False)"
| "has_type t (VArray vs) = (case t of TArray n e \<Rightarrow> length vs = n \<and> has_types e vs | _ \<Rightarrow> False)"
| "has_type t (VStruct vs) = (case t of TStruct fs \<Rightarrow> has_fields fs vs | _ \<Rightarrow> False)"
| "has_type t (VPtr p) = (case t of TPtr tn \<Rightarrow> True | _ \<Rightarrow> False)"
| "has_type t (VOther n) = (case t of TOther s \<Rightarrow> True | _ \<Rightarrow> False)"
| "has_types t [] = True"
| "has_types t (v # vs) = (has_type t v \<and> has_types t vs)"
| "has_fields fs [] = (fs = [])"
| "has_fields fs (v # vs) =
     (case fs of [] \<Rightarrow> False | f # fs' \<Rightarrow> has_type (snd (snd f)) v \<and> has_fields fs' vs)"

section \<open>Sizes\<close>

text \<open>
  \<open>scalarValueSize\<close>, \<open>None\<close> for its \<open>(0, false)\<close>; the aggregates carry the running size, whose
  overflow of \<open>int\<close> they refuse.
\<close>

fun scalarValueSize :: "gtype \<Rightarrow> gval \<Rightarrow> nat option"
  and scalarArraySize :: "gtype \<Rightarrow> gval list \<Rightarrow> nat \<Rightarrow> nat option"
  and scalarStructSize :: "(string \<times> bool \<times> gtype) list \<Rightarrow> gval list \<Rightarrow> nat \<Rightarrow> nat option" where
  "scalarValueSize TBool v = Some 1"
| "scalarValueSize (TInt w) v = Some 8"
| "scalarValueSize (TUint w) v = Some 8"
| "scalarValueSize (TNamedByte n) v = Some 8"
| "scalarValueSize TFloat32 v = Some 8"
| "scalarValueSize TFloat64 v = Some 8"
| "scalarValueSize TString v =
     (case v of VString s \<Rightarrow> if max_uint32 < length s then None else Some (4 + length s) | _ \<Rightarrow> None)"
| "scalarValueSize (TSlice t) v =
     (let n = (case v of VBytes (Some xs) \<Rightarrow> length xs | _ \<Rightarrow> 0) in
      if \<not> is_byte t \<or> max_uint32 \<le> n then None else Some (4 + n))"
| "scalarValueSize (TArray n t) v = (case v of VArray vs \<Rightarrow> scalarArraySize t vs 0 | _ \<Rightarrow> None)"
| "scalarValueSize (TStruct fs) v =
     (if \<exists>f \<in> set fs. \<not> fst (snd f) then None
      else case v of VStruct vs \<Rightarrow> scalarStructSize fs vs 0 | _ \<Rightarrow> None)"
| "scalarValueSize (TPtr tn) v = None"
| "scalarValueSize (TOther s) v = None"
| "scalarArraySize t [] sz = Some sz"
| "scalarArraySize t (v # vs) sz =
     (case scalarValueSize t v of
        None \<Rightarrow> None
      | Some n \<Rightarrow> if max_int - n < sz then None else scalarArraySize t vs (sz + n))"
| "scalarStructSize fs [] sz = Some sz"
| "scalarStructSize fs (v # vs) sz =
     (case fs of
        [] \<Rightarrow> Some sz
      | f # fs' \<Rightarrow>
          (case scalarValueSize (snd (snd f)) v of
             None \<Rightarrow> None
           | Some n \<Rightarrow> if max_int - n < sz then None else scalarStructSize fs' vs (sz + n)))"

section \<open>Encoding\<close>

text \<open>
  \<open>encodeScalarValue\<close> as the bytes it stores into the zeroed buffer; the number it returns
  is their length.
\<close>

fun encodeScalarValue :: "gtype \<Rightarrow> gval \<Rightarrow> bytes"
  and encodeScalarArray :: "gtype \<Rightarrow> gval list \<Rightarrow> bytes"
  and encodeScalarStruct :: "(string \<times> bool \<times> gtype) list \<Rightarrow> gval list \<Rightarrow> bytes" where
  "encodeScalarValue TBool v = (case v of VBool b \<Rightarrow> [if b then 1 else 0] | _ \<Rightarrow> [])"
| "encodeScalarValue (TInt w) v = (case v of VInt x \<Rightarrow> put_be 8 (unat x) | _ \<Rightarrow> [])"
| "encodeScalarValue (TUint w) v = (case v of VUint x \<Rightarrow> put_be 8 (unat x) | _ \<Rightarrow> [])"
| "encodeScalarValue (TNamedByte n) v = (case v of VUint x \<Rightarrow> put_be 8 (unat x) | _ \<Rightarrow> [])"
| "encodeScalarValue TFloat32 v = (case v of VFloat x \<Rightarrow> put_be 8 (unat x) | _ \<Rightarrow> [])"
| "encodeScalarValue TFloat64 v = (case v of VFloat x \<Rightarrow> put_be 8 (unat x) | _ \<Rightarrow> [])"
| "encodeScalarValue TString v = (case v of VString s \<Rightarrow> put_be 4 (length s) @ s | _ \<Rightarrow> [])"
| "encodeScalarValue (TSlice t) v =
     (case v of
        VBytes None \<Rightarrow> put_be 4 0
      | VBytes (Some bs) \<Rightarrow> put_be 4 (length bs + 1) @ bs
      | _ \<Rightarrow> [])"
| "encodeScalarValue (TArray n t) v = (case v of VArray vs \<Rightarrow> encodeScalarArray t vs | _ \<Rightarrow> [])"
| "encodeScalarValue (TStruct fs) v = (case v of VStruct vs \<Rightarrow> encodeScalarStruct fs vs | _ \<Rightarrow> [])"
| "encodeScalarValue (TPtr tn) v = []"
| "encodeScalarValue (TOther s) v = []"
| "encodeScalarArray t [] = []"
| "encodeScalarArray t (v # vs) = encodeScalarValue t v @ encodeScalarArray t vs"
| "encodeScalarStruct fs [] = []"
| "encodeScalarStruct fs (v # vs) =
     (case fs of [] \<Rightarrow> [] | f # fs' \<Rightarrow> encodeScalarValue (snd (snd f)) v @ encodeScalarStruct fs' vs)"

section \<open>Decoding\<close>

definition malformedRow :: go_error where "malformedRow = ErrFmt ''malformed scalar WAL row''"

text \<open>\<open>decodeScalarValue\<close>: the value read and the bytes consumed, into a fresh zero value.\<close>

fun decodeScalarValue :: "gtype \<Rightarrow> bytes \<Rightarrow> (gval \<times> nat) result"
  and decodeScalarArray :: "nat \<Rightarrow> gtype \<Rightarrow> bytes \<Rightarrow> nat \<Rightarrow> (gval list \<times> nat) result"
  and decodeScalarStruct :: "(string \<times> bool \<times> gtype) list \<Rightarrow> bytes \<Rightarrow> nat \<Rightarrow> (gval list \<times> nat) result" where
  "decodeScalarValue TBool data =
     (case data of
        [] \<Rightarrow> Inl malformedRow
      | b # _ \<Rightarrow> if 1 < b then Inl malformedRow else Inr (VBool (b = 1), 1))"
| "decodeScalarValue (TInt w) data =
     (if length data < 8 then Inl malformedRow
      else Inr (VInt (setInt w (word_of_nat (get_be (take 8 data)))), 8))"
| "decodeScalarValue (TUint w) data =
     (if length data < 8 then Inl malformedRow
      else Inr (VUint (setUint w (word_of_nat (get_be (take 8 data)))), 8))"
| "decodeScalarValue (TNamedByte n) data =
     (if length data < 8 then Inl malformedRow
      else Inr (VUint (setUint 8 (word_of_nat (get_be (take 8 data)))), 8))"
| "decodeScalarValue TFloat32 data =
     (if length data < 8 then Inl malformedRow
      else Inr (VFloat (float32_bits (word_of_nat (get_be (take 8 data)))), 8))"
| "decodeScalarValue TFloat64 data =
     (if length data < 8 then Inl malformedRow
      else Inr (VFloat (word_of_nat (get_be (take 8 data))), 8))"
| "decodeScalarValue TString data =
     (if length data < 4 then Inl malformedRow
      else
        let sz = get_be (take 4 data) in
        if length data - 4 < sz then Inl malformedRow
        else Inr (VString (subslice data 4 (4 + sz)), 4 + sz))"
| "decodeScalarValue (TSlice t) data =
     (if length data < 4 \<or> \<not> is_byte t then Inl malformedRow
      else
        let encodedSize = get_be (take 4 data) in
        if encodedSize = 0 then Inr (VBytes None, 4)
        else
          let sz = encodedSize - 1 in
          if length data - 4 < sz then Inl malformedRow
          else if t \<noteq> TUint 8 then Inl (Panic ''reflect.Copy: types do not match'')
          else Inr (VBytes (Some (subslice data 4 (4 + sz))), 4 + sz))"
| "decodeScalarValue (TArray n t) data =
     (case decodeScalarArray n t data 0 of Inl e \<Rightarrow> Inl e | Inr (vs, m) \<Rightarrow> Inr (VArray vs, m))"
| "decodeScalarValue (TStruct fs) data =
     (case decodeScalarStruct fs data 0 of Inl e \<Rightarrow> Inl e | Inr (vs, m) \<Rightarrow> Inr (VStruct vs, m))"
| "decodeScalarValue (TPtr tn) data = Inl (ErrFmt ''scalar WAL row contains'')"
| "decodeScalarValue (TOther s) data = Inl (ErrFmt ''scalar WAL row contains'')"
| "decodeScalarArray 0 t data offset = Inr ([], offset)"
| "decodeScalarArray (Suc n) t data offset =
     (case decodeScalarValue t (drop offset data) of
        Inl e \<Rightarrow> Inl e
      | Inr (v, read) \<Rightarrow>
          (case decodeScalarArray n t data (offset + read) of
             Inl e \<Rightarrow> Inl e
           | Inr (vs, m) \<Rightarrow> Inr (v # vs, m)))"
| "decodeScalarStruct [] data offset = Inr ([], offset)"
| "decodeScalarStruct (f # fs) data offset =
     (case decodeScalarValue (snd (snd f)) (drop offset data) of
        Inl e \<Rightarrow> Inl e
      | Inr (v, read) \<Rightarrow>
          (case decodeScalarStruct fs data (offset + read) of
             Inl e \<Rightarrow> Inl e
           | Inr (vs, m) \<Rightarrow> Inr (v # vs, m)))"

definition decodeScalarRow :: "gtype \<Rightarrow> bytes \<Rightarrow> gval result" where
  "decodeScalarRow t data =
     (case decodeScalarValue t data of
        Inl e \<Rightarrow> Inl e
      | Inr (v, offset) \<Rightarrow> if offset \<noteq> length data then Inl malformedRow else Inr v)"

definition scalarRowSize :: "gtype \<Rightarrow> gval \<Rightarrow> nat option" where
  "scalarRowSize t row =
     (case t of
        TStruct _ \<Rightarrow>
          (case scalarValueSize t row of
             None \<Rightarrow> None
           | Some sz \<Rightarrow> if sz = max_int then None else Some (sz + 1))
      | _ \<Rightarrow> None)"

definition encodeRow :: "(gtype \<Rightarrow> gval \<Rightarrow> bytes result) \<Rightarrow> gtype \<Rightarrow> gval \<Rightarrow> bytes result" where
  "encodeRow gob t v =
     (case scalarRowSize t v of
        Some sz \<Rightarrow> Inr (1 # encodeScalarValue t v)
      | None \<Rightarrow> (case gob t v of Inl e \<Rightarrow> Inl e | Inr bs \<Rightarrow> Inr (0 # bs)))"

definition decodeRow :: "(gtype \<Rightarrow> bytes \<Rightarrow> gval result) \<Rightarrow> gtype \<Rightarrow> bytes \<Rightarrow> gval result" where
  "decodeRow ungob t data =
     (case data of
        [] \<Rightarrow> Inl (ErrFmt ''empty WAL row'')
      | b # rest \<Rightarrow>
          if b = 0 then ungob t rest
          else if b = 1 then decodeScalarRow t rest
          else Inl (ErrFmt ''unknown WAL row encoding''))"

section \<open>The scalar codec is a round trip\<close>

lemma has_type_VSlice [simp]:
  "has_type t (VSlice x) =
     (case t of TSlice e \<Rightarrow> \<not> is_byte e \<and> (case x of None \<Rightarrow> True | Some vs \<Rightarrow> has_types e vs) | _ \<Rightarrow> False)"
  by (cases x) (auto split: gtype.split)

lemma get_be_put_be_take [simp]:
  "length (put_be k n) = k \<Longrightarrow> take k (put_be k n @ rest) = put_be k n"
  by simp

definition value_round_trip :: "gtype \<Rightarrow> gval \<Rightarrow> bool" where
  "value_round_trip t v \<longleftrightarrow> (\<forall>n. has_type t v \<longrightarrow> plain_bytes t \<longrightarrow> scalarValueSize t v = Some n \<longrightarrow>
     length (encodeScalarValue t v) = n \<and>
     (\<forall>rest. decodeScalarValue t (encodeScalarValue t v @ rest) = Inr (v, n)))"

definition array_round_trip :: "gtype \<Rightarrow> gval list \<Rightarrow> nat \<Rightarrow> bool" where
  "array_round_trip t vs sz \<longleftrightarrow> (\<forall>n. has_types t vs \<longrightarrow> plain_bytes t \<longrightarrow> scalarArraySize t vs sz = Some n \<longrightarrow>
     sz + length (encodeScalarArray t vs) = n \<and>
     (\<forall>pre rest. decodeScalarArray (length vs) t (pre @ encodeScalarArray t vs @ rest) (length pre) =
        Inr (vs, length pre + length (encodeScalarArray t vs))))"

definition struct_round_trip :: "(string \<times> bool \<times> gtype) list \<Rightarrow> gval list \<Rightarrow> nat \<Rightarrow> bool" where
  "struct_round_trip fs vs sz \<longleftrightarrow> (\<forall>n. has_fields fs vs \<longrightarrow> (\<forall>f \<in> set fs. plain_bytes (snd (snd f))) \<longrightarrow> scalarStructSize fs vs sz = Some n \<longrightarrow>
     sz + length (encodeScalarStruct fs vs) = n \<and>
     (\<forall>pre rest. decodeScalarStruct fs (pre @ encodeScalarStruct fs vs @ rest) (length pre) =
        Inr (vs, length pre + length (encodeScalarStruct fs vs))))"

lemma array_round_trip_Cons:
  assumes "value_round_trip t v"
    and "\<And>n. scalarValueSize t v = Some n \<Longrightarrow> \<not> max_int - n < sz \<Longrightarrow> array_round_trip t vs (sz + n)"
  shows "array_round_trip t (v # vs) sz"
  unfolding array_round_trip_def
proof (intro allI impI)
  fix m assume ty: "has_types t (v # vs)" "plain_bytes t" and sz: "scalarArraySize t (v # vs) sz = Some m"
  then obtain n where n: "scalarValueSize t v = Some n" "scalarArraySize t vs (sz + n) = Some m"
    and fits: "\<not> max_int - n < sz"
    by (auto split: option.splits if_splits)
  have v: "length (encodeScalarValue t v) = n" "\<And>rest. decodeScalarValue t (encodeScalarValue t v @ rest) = Inr (v, n)"
    using assms(1) ty n(1) by (auto simp: value_round_trip_def)
  have tail: "sz + n + length (encodeScalarArray t vs) = m"
    "\<And>pre rest. decodeScalarArray (length vs) t (pre @ encodeScalarArray t vs @ rest) (length pre) =
        Inr (vs, length pre + length (encodeScalarArray t vs))"
    using assms(2)[OF n(1) fits] ty n(2) by (auto simp: array_round_trip_def)
  have "decodeScalarArray (length (v # vs)) t (pre @ encodeScalarArray t (v # vs) @ rest) (length pre) =
      Inr (v # vs, length pre + length (encodeScalarArray t (v # vs)))" for pre rest
    using v tail(2)[of "pre @ encodeScalarValue t v" rest] by simp
  then show "sz + length (encodeScalarArray t (v # vs)) = m \<and>
      (\<forall>pre rest. decodeScalarArray (length (v # vs)) t (pre @ encodeScalarArray t (v # vs) @ rest) (length pre) =
        Inr (v # vs, length pre + length (encodeScalarArray t (v # vs))))"
    using v(1) tail(1) by simp
qed

lemma struct_round_trip_Cons:
  assumes "value_round_trip (snd (snd f)) v"
    and "\<And>n. scalarValueSize (snd (snd f)) v = Some n \<Longrightarrow> \<not> max_int - n < sz \<Longrightarrow>
        struct_round_trip fs vs (sz + n)"
  shows "struct_round_trip (f # fs) (v # vs) sz"
  unfolding struct_round_trip_def
proof (intro allI impI)
  let ?t = "snd (snd f)"
  fix m assume ty: "has_fields (f # fs) (v # vs)" "\<forall>f \<in> set (f # fs). plain_bytes (snd (snd f))" and sz: "scalarStructSize (f # fs) (v # vs) sz = Some m"
  then obtain n where n: "scalarValueSize ?t v = Some n" "scalarStructSize fs vs (sz + n) = Some m"
    and fits: "\<not> max_int - n < sz"
    by (auto split: option.splits if_splits)
  have v: "length (encodeScalarValue ?t v) = n" "\<And>rest. decodeScalarValue ?t (encodeScalarValue ?t v @ rest) = Inr (v, n)"
    using assms(1) ty n(1) by (auto simp: value_round_trip_def)
  have tail: "sz + n + length (encodeScalarStruct fs vs) = m"
    "\<And>pre rest. decodeScalarStruct fs (pre @ encodeScalarStruct fs vs @ rest) (length pre) =
        Inr (vs, length pre + length (encodeScalarStruct fs vs))"
    using assms(2)[OF n(1) fits] ty n(2) by (auto simp: struct_round_trip_def)
  have "decodeScalarStruct (f # fs) (pre @ encodeScalarStruct (f # fs) (v # vs) @ rest) (length pre) =
      Inr (v # vs, length pre + length (encodeScalarStruct (f # fs) (v # vs)))" for pre rest
    using v tail(2)[of "pre @ encodeScalarValue ?t v" rest] by simp
  then show "sz + length (encodeScalarStruct (f # fs) (v # vs)) = m \<and>
      (\<forall>pre rest. decodeScalarStruct (f # fs) (pre @ encodeScalarStruct (f # fs) (v # vs) @ rest) (length pre) =
        Inr (v # vs, length pre + length (encodeScalarStruct (f # fs) (v # vs))))"
    using v(1) tail(1) by simp
qed

lemma codec_round_trip:
  "value_round_trip t v"
  "array_round_trip t vs sz"
  "struct_round_trip fs vs sz"
proof (induction t v and t vs sz and fs vs sz rule: scalarValueSize_scalarArraySize_scalarStructSize.induct)
  case (1 v)
  show ?case by (cases v) (auto simp: value_round_trip_def)
next
  case (2 w v)
  show ?case by (cases v) (auto simp: value_round_trip_def)
next
  case (3 w v)
  show ?case by (cases v) (auto simp: value_round_trip_def)
next
  case (4 n v)
  show ?case by (cases v) (auto simp: value_round_trip_def)
next
  case (5 v)
  show ?case by (cases v) (auto simp: value_round_trip_def)
next
  case (6 v)
  show ?case by (cases v) (auto simp: value_round_trip_def)
next
  case (7 v)
  show ?case
    by (cases v) (auto simp: value_round_trip_def Let_def max_uint32_def subslice_def split: if_splits)
next
  case (8 t v)
  have byte: "t = TUint 8" if "plain_bytes (TSlice t)" "is_byte t" using that by (cases t) (auto simp: is_byte_def)
  show ?case
  proof (cases v)
    case (VBytes bs)
    show ?thesis
    proof (cases "plain_bytes (TSlice t) \<and> is_byte t")
      case True
      then have t: "t = TUint 8" using byte by blast
      show ?thesis
        by (cases bs) (auto simp: VBytes t is_byte_def value_round_trip_def Let_def max_uint32_def subslice_def split: if_splits)
    next
      case False
      then show ?thesis by (auto simp: value_round_trip_def Let_def)
    qed
  qed (auto simp: value_round_trip_def Let_def split: option.splits)
next
  case (9 n t v)
  show ?case
  proof (cases v)
    case (VArray vs)
    have "array_round_trip t vs 0" using 9 VArray by simp
    then show ?thesis using VArray
      by (fastforce simp: value_round_trip_def array_round_trip_def dest: spec[where x = "[]"])
  qed (auto simp: value_round_trip_def)
next
  case (10 fs v)
  show ?case
  proof (cases v)
    case (VStruct vs)
    show ?thesis
    proof (cases "\<exists>f \<in> set fs. \<not> fst (snd f)")
      case True
      then show ?thesis by (simp add: value_round_trip_def)
    next
      case False
      then have "struct_round_trip fs vs 0" using 10 VStruct by simp
      then show ?thesis using VStruct
        by (fastforce simp: value_round_trip_def struct_round_trip_def dest: spec[where x = "[]"] split: if_splits)
    qed
  qed (auto simp: value_round_trip_def)
next
  case (11 tn v)
  show ?case by (simp add: value_round_trip_def)
next
  case (12 s v)
  show ?case by (simp add: value_round_trip_def)
next
  case (13 t sz)
  show ?case by (simp add: array_round_trip_def)
next
  case (14 t v vs sz)
  then show ?case by (intro array_round_trip_Cons) auto
next
  case (15 fs sz)
  show ?case by (cases fs) (auto simp: struct_round_trip_def)
next
  case (16 fs v vs sz)
  show ?case
  proof (cases fs)
    case Nil
    then show ?thesis by (simp add: struct_round_trip_def)
  next
    case (Cons f fs')
    then show ?thesis using 16 by (simp only: Cons) (intro struct_round_trip_Cons; auto)
  qed
qed

lemma scalar_round_trip:
  assumes "has_type t v" and "plain_bytes t" and "scalarValueSize t v = Some n"
  shows "length (encodeScalarValue t v) = n"
    and "decodeScalarValue t (encodeScalarValue t v @ rest) = Inr (v, n)"
  using codec_round_trip(1)[of t v] assms by (auto simp: value_round_trip_def)

section \<open>Properties\<close>

text \<open>
  C9. A row of a scalar schema survives the log: the row encoder writes as many bytes as
  \<open>scalarRowSize\<close> announces, and the row decoder reads the same value back, for every field
  type the scalar codec accepts, nested arrays and structs included, but for slices whose
  element type is a defined byte type (\<open>named_bytes_panic_on_replay\<close>).
\<close>

theorem scalar_row_round_trip:
  assumes "has_type t v" and "plain_bytes t" and "scalarRowSize t v = Some n"
  shows "\<exists>bs. encodeRow gob t v = Inr bs \<and> length bs = n \<and> decodeRow ungob t bs = Inr v"
proof -
  obtain m where m: "scalarValueSize t v = Some m" and n: "n = m + 1"
    using assms(3) by (auto simp: scalarRowSize_def split: gtype.splits option.splits if_splits)
  have "length (encodeScalarValue t v) = m" by (rule scalar_round_trip(1)[OF assms(1,2) m])
  moreover have "decodeScalarValue t (encodeScalarValue t v @ []) = Inr (v, m)"
    by (rule scalar_round_trip(2)[OF assms(1,2) m])
  ultimately show ?thesis
    using assms(3) n by (simp add: encodeRow_def decodeRow_def decodeScalarRow_def)
qed

theorem scalar_row_round_trip_witness:
  "\<exists>bs. encodeRow (\<lambda>_ _. Inl ErrConflict) (TStruct [(''Id'', True, TInt 64), (''Name'', True, TString)])
      (VStruct [VInt 5, VString [104, 105]]) = Inr bs \<and> length bs = 15 \<and>
    decodeRow (\<lambda>_ _. Inl ErrConflict) (TStruct [(''Id'', True, TInt 64), (''Name'', True, TString)]) bs =
      Inr (VStruct [VInt 5, VString [104, 105]])"
  by (rule scalar_row_round_trip)
     (simp_all add: scalarRowSize_def max_uint32_def max_int_def setInt_def signed_take_bit_eq_if_positive)

section \<open>Slices of a defined byte type\<close>

lemma encodeScalarStruct_append:
  "length vs = length fs \<Longrightarrow> encodeScalarStruct (fs @ gs) (vs @ ws) = encodeScalarStruct fs vs @ encodeScalarStruct gs ws"
  by (induction vs fs rule: list_induct2) auto

lemma scalarStructSize_prefix:
  "length vs = length fs \<Longrightarrow> scalarStructSize (fs @ gs) (vs @ ws) sz = Some n \<Longrightarrow> \<exists>m. scalarStructSize fs vs sz = Some m"
  by (induction vs fs arbitrary: sz rule: list_induct2) (auto split: option.splits if_splits)

lemma has_fields_prefix: "length vs = length fs \<Longrightarrow> has_fields (fs @ gs) (vs @ ws) \<Longrightarrow> has_fields fs vs"
  by (induction vs fs rule: list_induct2) auto

lemma decodeScalarStruct_append:
  "decodeScalarStruct (fs @ gs) data offset =
     (case decodeScalarStruct fs data offset of
        Inl e \<Rightarrow> Inl e
      | Inr (vs, m) \<Rightarrow>
          (case decodeScalarStruct gs data m of Inl e \<Rightarrow> Inl e | Inr (ws, k) \<Rightarrow> Inr (vs @ ws, k)))"
  by (induction fs arbitrary: offset) (auto split: sum.splits prod.splits)

lemma decode_struct:
  assumes "has_fields fs vs" "\<forall>f \<in> set fs. plain_bytes (snd (snd f))" "scalarStructSize fs vs sz = Some n"
  shows "decodeScalarStruct fs (pre @ encodeScalarStruct fs vs @ rest) (length pre) = Inr (vs, length pre + length (encodeScalarStruct fs vs))"
  using codec_round_trip(3)[of fs vs sz, unfolded struct_round_trip_def, rule_format, OF assms(1) bspec[OF assms(2)] assms(3)] by simp

lemma last_bytes_short:
  assumes "length vs = length fs" "\<exists>k. scalarStructSize (fs @ [(name, True, TSlice t)]) (vs @ [VBytes (Some bs)]) sz = Some k"
  shows "length bs < max_uint32"
  using assms
proof (induction vs fs arbitrary: sz rule: list_induct2)
  case Nil
  then show ?case by (cases "max_uint32 \<le> length bs") (simp_all add: Let_def)
next
  case (Cons v vs f fs)
  then obtain m where "scalarValueSize (snd (snd f)) v = Some m" by (auto split: option.splits)
  then show ?case using Cons by (auto split: if_splits)
qed

lemma decode_stuck:
  "decodeScalarStruct fs data k = Inr (vs, m) \<Longrightarrow> decodeScalarValue (snd (snd f)) (drop m data) = Inl e \<Longrightarrow>
   decodeScalarStruct (fs @ f # gs) data k = Inl e"
  by (simp add: decodeScalarStruct_append)

lemma decode_named_bytes:
  assumes "length bs < max_uint32"
  shows "decodeScalarValue (TSlice (TNamedByte b)) (encodeScalarValue (TSlice (TNamedByte b)) (VBytes (Some bs)) @ rest) =
    Inl (Panic ''reflect.Copy: types do not match'')"
  using assms by (simp add: is_byte_def Let_def max_uint32_def)

text \<open>
  A logged row can make the replay panic. The scalar codec takes every slice whose elements have
  the kind \<open>uint8\<close>, but \<open>reflect.Copy\<close> wants the type \<open>uint8\<close> itself: a row whose first such
  field of a defined byte type is not nil is encoded without an error, so that its commit is
  acknowledged, and the decoder that every restart runs on it panics.
\<close>

theorem named_bytes_panic_on_replay:
  assumes "length vs = length fs" and "\<forall>f \<in> set fs. plain_bytes (snd (snd f))"
    and "has_type (TStruct (fs @ (name, True, TSlice (TNamedByte b)) # gs)) (VStruct (vs @ VBytes (Some bs) # ws))"
    and "scalarRowSize (TStruct (fs @ (name, True, TSlice (TNamedByte b)) # gs)) (VStruct (vs @ VBytes (Some bs) # ws)) = Some n"
  shows "\<exists>row. encodeRow gob (TStruct (fs @ (name, True, TSlice (TNamedByte b)) # gs)) (VStruct (vs @ VBytes (Some bs) # ws)) = Inr row \<and>
    decodeRow ungob (TStruct (fs @ (name, True, TSlice (TNamedByte b)) # gs)) row = Inl (Panic ''reflect.Copy: types do not match'')"
proof -
  let ?f = "(name, True, TSlice (TNamedByte b))" and ?v = "VBytes (Some bs)"
  have size: "\<exists>m. scalarStructSize (fs @ ?f # gs) (vs @ ?v # ws) 0 = Some m"
    using assms(4) unfolding scalarRowSize_def gtype.case scalarValueSize.simps gval.case
    by (cases "scalarStructSize (fs @ ?f # gs) (vs @ ?v # ws) 0") (simp_all split: if_splits)
  then obtain m where m: "scalarStructSize fs vs 0 = Some m" using scalarStructSize_prefix[OF assms(1)] by blast
  have one: "\<exists>k. scalarStructSize (fs @ [?f]) (vs @ [?v]) 0 = Some k"
    using size scalarStructSize_prefix[of "vs @ [?v]" "fs @ [?f]" gs ws 0] assms(1) by (simp only: append.simps append_assoc length_append list.size) blast
  have ty: "has_fields fs vs" using has_fields_prefix[OF assms(1)] assms(3) by simp
  let ?rest = "encodeScalarValue (snd (snd ?f)) ?v @ encodeScalarStruct gs ws"
  have enc: "encodeScalarStruct (fs @ ?f # gs) (vs @ ?v # ws) = encodeScalarStruct fs vs @ ?rest"
    by (simp add: encodeScalarStruct_append[OF assms(1)])
  have pre: "decodeScalarStruct fs (encodeScalarStruct fs vs @ ?rest) 0 = Inr (vs, length (encodeScalarStruct fs vs))"
    using decode_struct[OF ty assms(2) m, of "[]" ?rest] by (simp only: append.simps list.size add_0)
  have "decodeScalarStruct (fs @ ?f # gs) (encodeScalarStruct fs vs @ ?rest) 0 = Inl (Panic ''reflect.Copy: types do not match'')"
  proof (rule decode_stuck[OF pre])
    have "drop (length (encodeScalarStruct fs vs)) (encodeScalarStruct fs vs @ ?rest) = ?rest"
      by (simp only: drop_append drop_all diff_self_eq_0 diff_0_eq_0 drop_0 append.simps order_refl)
    then show "decodeScalarValue (snd (snd ?f)) (drop (length (encodeScalarStruct fs vs)) (encodeScalarStruct fs vs @ ?rest)) =
        Inl (Panic ''reflect.Copy: types do not match'')"
      by (simp only: snd_conv decode_named_bytes[OF last_bytes_short[OF assms(1) one]])
  qed
  then have "decodeScalarValue (TStruct (fs @ ?f # gs)) (encodeScalarValue (TStruct (fs @ ?f # gs)) (VStruct (vs @ ?v # ws))) =
      Inl (Panic ''reflect.Copy: types do not match'')"
    by (simp only: decodeScalarValue.simps encodeScalarValue.simps gval.case enc sum.case)
  then show ?thesis unfolding encodeRow_def assms(4) by (simp only: option.case) (simp add: decodeRow_def decodeScalarRow_def)
qed

theorem named_bytes_panic_on_replay_witness:
  "\<exists>row. encodeRow (\<lambda>_ _. Inl ErrConflict) (TStruct [(''Id'', True, TInt 64), (''Flags'', True, TSlice (TNamedByte ''Flag''))])
      (VStruct [VInt 5, VBytes (Some [1])]) = Inr row \<and>
    decodeRow (\<lambda>_ _. Inl ErrConflict) (TStruct [(''Id'', True, TInt 64), (''Flags'', True, TSlice (TNamedByte ''Flag''))]) row =
      Inl (Panic ''reflect.Copy: types do not match'')"
proof -
  let ?t = "TStruct ([(''Id'', True, TInt 64)] @ (''Flags'', True, TSlice (TNamedByte ''Flag'')) # [])"
    and ?v = "VStruct ([VInt 5] @ VBytes (Some [1]) # [])"
  have "has_type ?t ?v" by (simp add: is_byte_def setInt_def signed_take_bit_eq_if_positive)
  moreover have "scalarRowSize ?t ?v = Some 14" by (simp add: scalarRowSize_def max_uint32_def max_int_def is_byte_def)
  ultimately show ?thesis
    using named_bytes_panic_on_replay[of "[VInt 5]" "[(''Id'', True, TInt 64)]" "''Flags''" "''Flag''" "[]" "[1]" "[]"]
    by (simp only: append.simps) simp
qed

end
