(* ===== verification/Recovery.thy ===== *)
theory Recovery
  imports Chunk_Store Wal_Frames Row_Codec
begin

text \<open>
  Durability of one table: \<open>encodeWrites\<close> and \<open>logWrites\<close> (\<open>db.go\<close>), the recovery loop
  \<open>applyRecoveredRows\<close> and the replay half of \<open>loadStore\<close> (\<open>storage.go\<close>), and the id index
  and counter \<open>Open\<close> derives from a loaded store (\<open>syncResById\<close>, \<open>seedCounter\<close>). An entity
  is any value with an id, \<open>gid\<close> being its \<open>GetId\<close>; \<open>encR\<close> is \<open>encodeRow\<close> of the flattened
  entity, \<open>decR\<close> is \<open>decodeRow\<close>, \<open>inflate\<close> is \<open>inflateSlice\<close> on one row.
\<close>

definition encodeWrite :: "('a \<Rightarrow> bytes result) \<Rightarrow> 'a pendingWrite \<Rightarrow> walRow result" where
  "encodeWrite encR it =
     (if deleted it then Inr \<lparr>Id = - word_of_int (pw_id it), Row = []\<rparr>
      else (case work it of
              None \<Rightarrow> Inl (Panic ''nil entity'')
            | Some e \<Rightarrow>
                (case encR e of
                   Inl err \<Rightarrow> Inl err
                 | Inr bs \<Rightarrow> Inr \<lparr>Id = word_of_int (pw_id it), Row = bs\<rparr>)))"

definition encodeWrites :: "('a \<Rightarrow> bytes result) \<Rightarrow> 'a pendingWrite list \<Rightarrow> walRow list result" where
  "encodeWrites encR items =
     fold_result (\<lambda>rows it. case encodeWrite encR it of Inl e \<Rightarrow> Inl e | Inr row \<Rightarrow> Inr (rows @ [row])) items []"

definition logWrites ::
  "('a \<Rightarrow> bytes result) \<Rightarrow> write_outcome \<Rightarrow> bytes option \<Rightarrow> 'a pendingWrite list \<Rightarrow> bytes option \<times> unit result" where
  "logWrites encR out file items =
     (case encodeWrites encR items of
        Inl e \<Rightarrow> (file, Inl e)
      | Inr rows \<Rightarrow> appendFrame encodeWALFrame out file rows)"

section \<open>Applying recovered rows\<close>

record 'a recovery =
  rstore :: "'a chunkStore"
  byID :: "int \<Rightarrow> slot_addr option"
  rdeleted :: "int set"

definition indexByID :: "('a \<Rightarrow> int) \<Rightarrow> 'a chunkStore \<Rightarrow> int \<Rightarrow> slot_addr option" where
  "indexByID gid s =
     foldl (\<lambda>m a. m(gid (item (slotAt s a)) := Some a)) (\<lambda>_. None) (rangeResources s)"

definition applyRecoveredRow ::
  "('a \<Rightarrow> int) \<Rightarrow> ('r \<Rightarrow> 'a result) \<Rightarrow> 'a recovery \<Rightarrow> 'r recoveredRow \<Rightarrow> 'a recovery result" where
  "applyRecoveredRow gid inflate st recovered =
     (case recovered of
        RecoveredDelete i \<Rightarrow> Inr (st\<lparr>rdeleted := insert i (rdeleted st)\<rparr>)
      | Recovered i row \<Rightarrow>
          (case inflate row of
             Inl e \<Rightarrow> Inl e
           | Inr v \<Rightarrow>
               if gid v \<noteq> i then Inl (ErrFmt ''WAL row id'')
               else
                 let st = st\<lparr>rdeleted := rdeleted st - {i}\<rparr> in
                 (case byID st i of
                    Some a \<Rightarrow> Inr (st\<lparr>rstore := writeItem 0 (rstore st) a v\<rparr>)
                  | None \<Rightarrow>
                      let r = Append (rstore st) v in
                      Inr (st\<lparr>rstore := fst r, byID := (byID st)(i := Some (snd r))\<rparr>))))"

definition applyRecoveredRows ::
  "('a \<Rightarrow> int) \<Rightarrow> ('r \<Rightarrow> 'a result) \<Rightarrow> 'a chunkStore \<Rightarrow> 'r recoveredRow list \<Rightarrow> 'a chunkStore result" where
  "applyRecoveredRows gid inflate s rows =
     (case fold_result (applyRecoveredRow gid inflate) rows
             \<lparr>rstore = s, byID = indexByID gid s, rdeleted = {}\<rparr> of
        Inl e \<Rightarrow> Inl e
      | Inr st \<Rightarrow>
          Inr (if rdeleted st = {} then rstore st
               else fst (DeleteFunc (rstore st) (\<lambda>e. gid e \<in> rdeleted st))))"

text \<open>
  The replay half of \<open>loadStore\<close>, after the chunk files have been loaded into \<open>s\<close>: the
  rows of the table's own log, then those of the shared transaction log.
\<close>

definition recoverStore ::
  "('a \<Rightarrow> int) \<Rightarrow> (bytes \<Rightarrow> 'r result) \<Rightarrow> ('r \<Rightarrow> 'a result) \<Rightarrow> bytes \<Rightarrow>
   'a chunkStore \<Rightarrow> bytes option \<Rightarrow> bytes option \<Rightarrow> 'a chunkStore result" where
  "recoverStore gid decR inflate typeName s walFile txFile =
     (case replayWAL decR walFile of
        Inl e \<Rightarrow> Inl e
      | Inr walRows \<Rightarrow>
          (case replayTransactionWAL decR typeName txFile of
             Inl e \<Rightarrow> Inl e
           | Inr transactionRows \<Rightarrow> applyRecoveredRows gid inflate s (walRows @ transactionRows)))"

text \<open>\<open>seedCounter\<close>: the largest id, at least zero.\<close>

definition seedCounter :: "('a \<Rightarrow> int) \<Rightarrow> 'a chunkStore \<Rightarrow> int" where
  "seedCounter gid s = foldl (\<lambda>maxId p. if maxId < gid p then gid p else maxId) 0 (StorePointers s)"

section \<open>The table a store represents\<close>

definition table_of :: "('a \<Rightarrow> int) \<Rightarrow> 'a chunkStore \<Rightarrow> int \<Rightarrow> 'a option" where
  "table_of gid s = map_of (map (\<lambda>x. (gid x, x)) (StorePointers s))"

definition unique_ids :: "('a \<Rightarrow> int) \<Rightarrow> 'a chunkStore \<Rightarrow> bool" where
  "unique_ids gid s \<longleftrightarrow> distinct (map gid (StorePointers s))"

text \<open>What a logged write means for the table: the reference semantics of recovery.\<close>

definition apply_row ::
  "('r \<Rightarrow> 'a result) \<Rightarrow> (int \<Rightarrow> 'a option) \<Rightarrow> 'r recoveredRow \<Rightarrow> (int \<Rightarrow> 'a option)" where
  "apply_row inflate m r =
     (case r of
        Recovered i row \<Rightarrow> m(i := (case inflate row of Inl e \<Rightarrow> None | Inr v \<Rightarrow> Some v))
      | RecoveredDelete i \<Rightarrow> m(i := None))"

definition apply_write :: "(int \<Rightarrow> 'a option) \<Rightarrow> 'a pendingWrite \<Rightarrow> (int \<Rightarrow> 'a option)" where
  "apply_write m it = m(pw_id it := (if deleted it then None else work it))"

lemma unique_ids_addr:
  assumes "unique_ids gid s" "live_addr s a" "live_addr s b"
    and "gid (item (slotAt s a)) = gid (item (slotAt s b))"
  shows "a = b"
proof -
  have "distinct (map (\<lambda>a. gid (item (slotAt s a))) (rangeResources s))"
    using assms(1) by (simp add: unique_ids_def StorePointers_def o_def)
  then show ?thesis using assms(2-) by (auto simp: distinct_map set_rangeResources dest: inj_onD)
qed

lemma unique_idsI:
  assumes "\<And>a b. live_addr s a \<Longrightarrow> live_addr s b \<Longrightarrow>
      gid (item (slotAt s a)) = gid (item (slotAt s b)) \<Longrightarrow> a = b"
  shows "unique_ids gid s"
proof -
  have "distinct (map (\<lambda>a. gid (item (slotAt s a))) (rangeResources s))"
    using assms distinct_rangeResources[of s] by (auto simp: distinct_map set_rangeResources inj_on_def)
  then show ?thesis by (simp add: unique_ids_def StorePointers_def o_def)
qed

lemma table_of_Some:
  assumes "unique_ids gid s"
  shows "table_of gid s i = Some v \<longleftrightarrow> (\<exists>a. live_addr s a \<and> item (slotAt s a) = v \<and> gid v = i)"
proof -
  have "distinct (map fst (map (\<lambda>x. (gid x, x)) (StorePointers s)))"
    using assms by (simp add: unique_ids_def o_def)
  then have "table_of gid s i = Some v \<longleftrightarrow> (i, v) \<in> set (map (\<lambda>x. (gid x, x)) (StorePointers s))"
    by (simp add: table_of_def map_of_eq_Some_iff)
  also have "\<dots> \<longleftrightarrow> (\<exists>a. live_addr s a \<and> item (slotAt s a) = v \<and> gid v = i)"
    by (auto simp: StorePointers_def set_rangeResources)
  finally show ?thesis .
qed

lemma indexByID_Some:
  assumes "unique_ids gid s"
  shows "indexByID gid s i = Some a \<longleftrightarrow> live_addr s a \<and> gid (item (slotAt s a)) = i"
proof -
  let ?g = "\<lambda>a. gid (item (slotAt s a))"
  have gen: "foldl (\<lambda>m a. m(?g a := Some a)) m as i = Some a \<longleftrightarrow>
      (a \<in> set as \<and> ?g a = i) \<or> (i \<notin> ?g ` set as \<and> m i = Some a)"
    if "distinct (map ?g as)" for m as
    using that by (induction as arbitrary: m) (auto simp: image_iff)
  have "distinct (map ?g (rangeResources s))"
    using assms by (simp add: unique_ids_def StorePointers_def o_def)
  from gen[OF this, of "\<lambda>_. None"] show ?thesis
    by (auto simp: indexByID_def set_rangeResources)
qed

section \<open>The recovery loop computes the reference semantics\<close>

definition recovery_inv :: "('a \<Rightarrow> int) \<Rightarrow> 'a recovery \<Rightarrow> (int \<Rightarrow> 'a option) \<Rightarrow> bool" where
  "recovery_inv gid st m \<longleftrightarrow>
     store_wf (rstore st) \<and> unique_ids gid (rstore st) \<and>
     (\<forall>i a. byID st i = Some a \<longleftrightarrow> live_addr (rstore st) a \<and> gid (item (slotAt (rstore st) a)) = i) \<and>
     (\<forall>i. m i = (if i \<in> rdeleted st then None else table_of gid (rstore st) i))"

lemma table_eqI:
  assumes "\<And>v. m i = Some v \<longleftrightarrow> m' i = Some v"
  shows "m i = m' i"
  using assms[of "the (m i)"] assms[of "the (m' i)"] by (cases "m i"; cases "m' i") auto

lemma table_of_writeItem:
  assumes wf: "store_wf s" and u: "unique_ids gid s" and a: "live_addr s a" and g: "gid v = gid (item (slotAt s a))"
  shows "unique_ids gid (writeItem b s a v)"
    and "table_of gid (writeItem b s a v) = (table_of gid s)(gid v := Some v)"
proof -
  have va: "valid_addr s a" using a by (simp add: live_addr_def)
  note w = writeItem_slots[OF va]
  show u': "unique_ids gid (writeItem b s a v)"
    by (rule unique_idsI) (use unique_ids_addr[OF u] a g in \<open>auto simp: w split: if_splits\<close>)
  show "table_of gid (writeItem b s a v) = (table_of gid s)(gid v := Some v)"
  proof (rule ext, rule table_eqI)
    fix i x
    have slot: "item (slotAt (writeItem b s a v) c) = (if c = a then v else item (slotAt s c))" for c
      by (simp add: w(3))
    have only: "c = a" if "live_addr s c" "gid (item (slotAt s c)) = gid v" for c
      using unique_ids_addr[OF u that(1) a] that(2) g by simp
    have "(\<exists>c. live_addr s c \<and> item (slotAt (writeItem b s a v) c) = x \<and> gid x = i) \<longleftrightarrow>
        (if i = gid v then x = v else \<exists>c. live_addr s c \<and> item (slotAt s c) = x \<and> gid x = i)"
      unfolding slot using a only g by (cases "i = gid v") (force, metis)
    then show "table_of gid (writeItem b s a v) i = Some x \<longleftrightarrow> ((table_of gid s)(gid v := Some v)) i = Some x"
      by (auto simp: table_of_Some[OF u'] table_of_Some[OF u] w(2))
  qed
qed

lemma table_of_Append:
  assumes wf: "store_wf s" and u: "unique_ids gid s" and ap: "Append s v = (s', a)"
    and new: "\<And>b. live_addr s b \<Longrightarrow> gid (item (slotAt s b)) \<noteq> gid v"
  shows "unique_ids gid s'" and "table_of gid s' = (table_of gid s)(gid v := Some v)"
proof -
  have sp: "StorePointers s' = StorePointers s @ [v]" by (rule Append_StorePointers[OF wf ap])
  have fresh: "gid v \<notin> gid ` set (StorePointers s)"
  proof
    assume "gid v \<in> gid ` set (StorePointers s)"
    then obtain b where "live_addr s b" "gid (item (slotAt s b)) = gid v"
      by (auto simp: StorePointers_def set_rangeResources)
    then show False using new by blast
  qed
  show "unique_ids gid s'" using u fresh by (auto simp: unique_ids_def sp)
  have "map_of (map (\<lambda>x. (gid x, x)) (StorePointers s)) (gid v) = None"
    using fresh by (auto simp: map_of_eq_None_iff)
  then show "table_of gid s' = (table_of gid s)(gid v := Some v)"
    by (auto simp: table_of_def sp map_add_def fun_eq_iff split: option.splits)
qed

lemma live_after_Append:
  assumes wf: "store_wf s" and ap: "Append s v = (s', a)"
  shows "live_addr s' b \<longleftrightarrow> b = a \<or> live_addr s b"
    and "live_addr s b \<Longrightarrow> slotAt s' b = slotAt s b"
proof -
  note A = Append_addr[OF assms]
  have "set (rangeResources s') \<subseteq> insert a (set (rangeResources s))"
  proof -
    have "length (rangeResources s') = Suc (length (rangeResources s))"
      using Append_StorePointers[OF assms] by (metis StorePointers_def length_append_singleton length_map)
    moreover have "insert a (set (rangeResources s)) \<subseteq> set (rangeResources s')"
      using A(1,4) by (auto simp: set_rangeResources live_addr_def[of s])
    moreover have "a \<notin> set (rangeResources s)" using A(3) by (simp add: set_rangeResources live_addr_def)
    ultimately have "card (insert a (set (rangeResources s))) = card (set (rangeResources s'))"
      by (simp add: distinct_card distinct_rangeResources)
    then show ?thesis
      using \<open>insert a (set (rangeResources s)) \<subseteq> set (rangeResources s')\<close>
      by (metis List.finite_set card_subset_eq subset_refl)
  qed
  then show "live_addr s' b \<longleftrightarrow> b = a \<or> live_addr s b"
    using A(1) A(4)[of b] by (auto simp: set_rangeResources live_addr_def[of s])
  show "live_addr s b \<Longrightarrow> slotAt s' b = slotAt s b" using A(4) by (simp add: live_addr_def)
qed

lemma applyRecoveredRow_inv:
  assumes inv: "recovery_inv gid st m" and step: "applyRecoveredRow gid inflate st r = Inr st'"
  shows "recovery_inv gid st' (apply_row inflate m r)"
proof (cases r)
  case (RecoveredDelete i)
  then show ?thesis using inv step
    by (auto simp: applyRecoveredRow_def recovery_inv_def apply_row_def)
next
  case (Recovered i row)
  then obtain v where v: "inflate row = Inr v" "gid v = i"
    using step by (auto simp: applyRecoveredRow_def split: sum.splits if_splits)
  have wf: "store_wf (rstore st)" and u: "unique_ids gid (rstore st)"
    and idx: "\<And>i a. byID st i = Some a \<longleftrightarrow> live_addr (rstore st) a \<and> gid (item (slotAt (rstore st) a)) = i"
    and m: "\<And>i. m i = (if i \<in> rdeleted st then None else table_of gid (rstore st) i)"
    using inv by (auto simp: recovery_inv_def)
  show ?thesis
  proof (cases "byID st i")
    case (Some a)
    have a: "live_addr (rstore st) a" "gid v = gid (item (slotAt (rstore st) a))" using idx Some v by auto
    have va: "valid_addr (rstore st) a" using a by (simp add: live_addr_def)
    have st': "st' = st\<lparr>rdeleted := rdeleted st - {i}, rstore := writeItem 0 (rstore st) a v\<rparr>"
      using step Recovered v Some by (simp add: applyRecoveredRow_def Let_def)
    note T = table_of_writeItem[OF wf u a]
    show ?thesis
      using T(1)[of 0] T(2)[of 0] writeItem_wf[OF wf va, of 0 v] writeItem_slots[OF va, of 0 v] idx m v a
      by (auto simp: recovery_inv_def st' apply_row_def Recovered)
  next
    case None
    obtain s' a where ap: "Append (rstore st) v = (s', a)" by (cases "Append (rstore st) v")
    have st': "st' = st\<lparr>rdeleted := rdeleted st - {i}, rstore := s', byID := (byID st)(i := Some a)\<rparr>"
      using step Recovered v None ap by (simp add: applyRecoveredRow_def Let_def)
    have new: "gid (item (slotAt (rstore st) b)) \<noteq> gid v" if "live_addr (rstore st) b" for b
      using idx[of i b] None that v by auto
    note T = table_of_Append[OF wf u ap new]
    show ?thesis
      using T Append_wf[OF wf ap] live_after_Append[OF wf ap] Append_addr(2)[OF wf ap] idx m v new
      by (auto simp: recovery_inv_def st' apply_row_def Recovered split: if_splits)
  qed
qed

lemma fold_apply_inv:
  assumes "recovery_inv gid st m" and "fold_result (applyRecoveredRow gid inflate) rows st = Inr st'"
  shows "recovery_inv gid st' (foldl (apply_row inflate) m rows)"
  using assms
proof (induction rows arbitrary: st m)
  case Nil
  then show ?case by simp
next
  case (Cons r rows)
  then show ?case by (auto split: sum.splits dest: applyRecoveredRow_inv)
qed

lemma table_of_DeleteFunc:
  assumes wf: "store_wf s" and u: "unique_ids gid s" and d: "DeleteFunc s (\<lambda>e. gid e \<in> D) = (t, r)"
  shows "unique_ids gid t" and "table_of gid t i = (if i \<in> D then None else table_of gid s i)"
proof -
  have sp: "StorePointers t = filter (\<lambda>x. gid x \<notin> D) (StorePointers s)"
    using DeleteFunc_StorePointers(1)[OF wf d] .
  show "unique_ids gid t" using u by (simp add: unique_ids_def sp distinct_map_filter)
  have "map_of (map (\<lambda>x. (gid x, x)) (filter (\<lambda>x. gid x \<notin> D) xs)) i =
      (if i \<in> D then None else map_of (map (\<lambda>x. (gid x, x)) xs) i)" for xs
    by (induction xs) auto
  then show "table_of gid t i = (if i \<in> D then None else table_of gid s i)"
    by (simp add: table_of_def sp)
qed

lemma applyRecoveredRows_table:
  assumes wf: "store_wf s" and u: "unique_ids gid s" and ap: "applyRecoveredRows gid inflate s rows = Inr t"
  shows "store_wf t" "unique_ids gid t" "table_of gid t = foldl (apply_row inflate) (table_of gid s) rows"
proof -
  obtain st where st: "fold_result (applyRecoveredRow gid inflate) rows
      \<lparr>rstore = s, byID = indexByID gid s, rdeleted = {}\<rparr> = Inr st"
    and t: "t = (if rdeleted st = {} then rstore st
               else fst (DeleteFunc (rstore st) (\<lambda>e. gid e \<in> rdeleted st)))"
    using ap by (auto simp: applyRecoveredRows_def split: sum.splits)
  have "recovery_inv gid \<lparr>rstore = s, byID = indexByID gid s, rdeleted = {}\<rparr> (table_of gid s)"
    using wf u by (simp add: recovery_inv_def indexByID_Some)
  from fold_apply_inv[OF this st]
  have inv: "store_wf (rstore st)" "unique_ids gid (rstore st)"
    and m: "\<And>i. foldl (apply_row inflate) (table_of gid s) rows i =
      (if i \<in> rdeleted st then None else table_of gid (rstore st) i)"
    by (auto simp: recovery_inv_def)
  obtain t' r where d: "DeleteFunc (rstore st) (\<lambda>e. gid e \<in> rdeleted st) = (t', r)"
    by (cases "DeleteFunc (rstore st) (\<lambda>e. gid e \<in> rdeleted st)")
  note D = table_of_DeleteFunc[OF inv d] DeleteFunc_wf[OF inv(1) d]
  show "store_wf t" "unique_ids gid t" using inv D by (auto simp: t d)
  show "table_of gid t = foldl (apply_row inflate) (table_of gid s) rows"
    by (rule ext) (auto simp: t d D(2) m)
qed

section \<open>Properties\<close>

text \<open>
  Recovery computes the last write of every id: after the chunk files gave the store
  \<open>s\<close> and the logs were read, the recovered store is well formed, holds every id once, and
  its table is the snapshot's table with the rows of the two logs applied in the order read.
\<close>

theorem recovery_is_last_write_wins:
  assumes "store_wf s" and "unique_ids gid s"
    and "replayWAL decR walFile = Inr own" and "replayTransactionWAL decR n txFile = Inr shared"
    and "recoverStore gid decR inflate n s walFile txFile = Inr t"
  shows "store_wf t \<and> unique_ids gid t \<and>
    table_of gid t = foldl (apply_row inflate) (table_of gid s) (own @ shared)"
proof -
  have "applyRecoveredRows gid inflate s (own @ shared) = Inr t"
    using assms(3-) by (simp add: recoverStore_def)
  then show ?thesis using applyRecoveredRows_table[OF assms(1,2)] by blast
qed

definition sampleRows :: "walRow list" where
  "sampleRows = [\<lparr>Id = 1, Row = [5]\<rparr>, \<lparr>Id = 2, Row = [6, 6]\<rparr>]"

definition sampleLog :: bytes where
  "sampleLog = put_be 4 31 @ put_be 4 2 @ concat (map encodeRowEntry sampleRows)"

definition sampleInflate :: "nat \<Rightarrow> (int \<times> nat) result" where
  "sampleInflate k = Inr (int k, k)"

theorem recovery_is_last_write_wins_witness:
  "\<exists>t. recoverStore fst (\<lambda>bs. Inr (length bs)) sampleInflate [1] newChunkStore (Some sampleLog) None = Inr t \<and>
     table_of fst t 1 = Some (1, 1)"
proof -
  have "encodeWALFrame sampleRows = Inr sampleLog"
    by (simp add: encodeWALFrame_def frameSize_def sampleRows_def sampleLog_def max_uint32_def flip: numeral_2_eq_2)
  from wal.scan_frame[OF this, of "[]"] have "scanFrames decodeWALFrame sampleLog = [sampleRows]"
    by (simp add: wal.scan_nil)
  then have own: "replayWAL (\<lambda>bs. Inr (length bs)) (Some sampleLog) = Inr [Recovered 1 1, Recovered 2 2]"
    by (simp add: replayWAL_def recoverRows_def recoverRow_def sampleRows_def)
  have shared: "replayTransactionWAL (\<lambda>bs. Inr (length bs)) [1] None = Inr []"
    by (simp add: replayTransactionWAL_def)
  have "\<not> isl (applyRecoveredRows fst sampleInflate newChunkStore [Recovered 1 1, Recovered 2 2])"
    by code_simp
  then obtain t where "applyRecoveredRows fst sampleInflate newChunkStore [Recovered 1 1, Recovered 2 2] = Inr t"
    by (cases "applyRecoveredRows fst sampleInflate newChunkStore [Recovered 1 1, Recovered 2 2]") auto
  then have t: "recoverStore fst (\<lambda>bs. Inr (length bs)) sampleInflate [1] newChunkStore (Some sampleLog) None = Inr t"
    by (simp add: recoverStore_def own shared)
  have u: "unique_ids fst (newChunkStore :: (int \<times> nat) chunkStore)" by code_simp
  show ?thesis
    using recovery_is_last_write_wins[OF store_wf_new u own shared t] t
    by (auto simp: apply_row_def sampleInflate_def)
qed

end
