(* ===== verification/Durability.thy ===== *)
theory Durability
  imports Recovery
begin

text \<open>
  What reaches the logs and what a restart makes of it. \<open>logTransactionChanges\<close>
  (\<open>engine.go\<close>) writes a commit of one table to that table's own log and any other commit
  as one frame of the shared transaction log; \<open>recoverStore\<close> reads both. A commit is the
  list of its tables' pending writes. The locale states what the recovery of a table needs
  of its row encoding; it is interpreted on \<open>encodeRow\<close> and \<open>decodeRow\<close>.
\<close>

type_synonym 'a changes = "(bytes \<times> 'a pendingWrite list) list"

record durable =
  walFiles :: "bytes \<Rightarrow> bytes option"
  txFile :: "bytes option"

definition encodeTransactionRows ::
  "(bytes \<Rightarrow> 'a \<Rightarrow> bytes result) \<Rightarrow> 'a changes \<Rightarrow> transactionWALRow list result" where
  "encodeTransactionRows encR changes =
     fold_result (\<lambda>frame c.
        case encodeWrites (encR (fst c)) (snd c) of
          Inl e \<Rightarrow> Inl e
        | Inr rows \<Rightarrow> Inr (frame @ map (\<lambda>row. \<lparr>Id = Id row, Row = Row row, Type = fst c\<rparr>) rows)) changes []"

definition logTransactionChanges ::
  "(bytes \<Rightarrow> 'a \<Rightarrow> bytes result) \<Rightarrow> write_outcome \<Rightarrow> durable \<Rightarrow> 'a changes \<Rightarrow> durable \<times> unit result" where
  "logTransactionChanges encR out d byDBName =
     (if byDBName = [] then (d, Inr ())
      else
        let dbNames = sort_key fst byDBName in
        case dbNames of
          [(n, items)] \<Rightarrow>
            (let r = logWrites (encR n) out (walFiles d n) items in
             (d\<lparr>walFiles := (walFiles d)(n := fst r)\<rparr>, snd r))
        | _ \<Rightarrow>
            (case encodeTransactionRows encR dbNames of
               Inl e \<Rightarrow> (d, Inl e)
             | Inr rows \<Rightarrow>
                 (let r = appendFrame encodeTransactionWALFrame out (txFile d) rows in
                  (d\<lparr>txFile := fst r\<rparr>, snd r))))"

section \<open>The interface of a row encoding\<close>

locale row_codec =
  fixes valid :: "'a \<Rightarrow> bool"
    and encR :: "'a \<Rightarrow> bytes result"
    and decR :: "bytes \<Rightarrow> 'r result"
    and inflate :: "'r \<Rightarrow> 'a result"
    and gid :: "'a \<Rightarrow> int"
    and restored :: "'a \<Rightarrow> 'a"
  assumes row_round_trip: "valid e \<Longrightarrow> encR e = Inr bs \<Longrightarrow> \<exists>row. decR bs = Inr row \<and> inflate row = Inr (restored e)"
    and restored_id: "valid e \<Longrightarrow> gid (restored e) = gid e"
    and row_nonempty: "encR e = Inr bs \<Longrightarrow> bs \<noteq> []"

text \<open>A write the engine may log: a positive id that fits, and a valid entity carrying it.\<close>

definition write_ok :: "('a \<Rightarrow> bool) \<Rightarrow> ('a \<Rightarrow> int) \<Rightarrow> 'a pendingWrite \<Rightarrow> bool" where
  "write_ok valid gid it \<longleftrightarrow>
     0 < pw_id it \<and> pw_id it < 2 ^ 63 \<and>
     (deleted it \<or> (\<exists>e. work it = Some e \<and> valid e \<and> gid e = pw_id it))"

text \<open>A write with its entity as it comes back from its row.\<close>

definition restoredWrite :: "('a \<Rightarrow> 'a) \<Rightarrow> 'a pendingWrite \<Rightarrow> 'a pendingWrite" where
  "restoredWrite f it = it\<lparr>work := map_option f (work it)\<rparr>"

lemma restoredWrite_simps [simp]:
  "pw_id (restoredWrite f it) = pw_id it" "deleted (restoredWrite f it) = deleted it" "work (restoredWrite f it) = map_option f (work it)"
  by (simp_all add: restoredWrite_def)

text \<open>Recovered rows that stand for these writes.\<close>

definition rows_match ::
  "('a \<Rightarrow> int) \<Rightarrow> ('r \<Rightarrow> 'a result) \<Rightarrow> 'a pendingWrite \<Rightarrow> 'r recoveredRow \<Rightarrow> bool" where
  "rows_match gid inflate it r =
     (if deleted it then r = RecoveredDelete (pw_id it)
      else (\<exists>row e. r = Recovered (pw_id it) row \<and> inflate row = Inr e \<and> work it = Some e \<and> gid e = pw_id it))"

lemma sint_id:
  assumes "0 < i" "i < 2 ^ 63"
  shows "sint (word_of_int i :: int64) = i" and "sint (- word_of_int i :: int64) = - i"
proof -
  show "sint (word_of_int i :: int64) = i"
    using assms by (simp only: signed_of_int) (simp add: signed_take_bit_int_eq_self)
  have "- word_of_int i = (word_of_int (- i) :: int64)" by simp
  then show "sint (- word_of_int i :: int64) = - i"
    using assms by (simp only: signed_of_int) (simp add: signed_take_bit_int_eq_self)
qed

context row_codec
begin

lemma encodeWrite_recover:
  assumes "write_ok valid gid it" and "encodeWrite encR it = Inr row" and "Id row = Id row'" "Row row = Row row'"
  shows "\<exists>r. recoverRow decR row' = Inr r \<and> rows_match gid inflate (restoredWrite restored it) r"
proof (cases "deleted it")
  case True
  then have "Id row' = - word_of_int (pw_id it)" "Row row' = []"
    using assms by (auto simp: encodeWrite_def)
  then show ?thesis
    using True assms(1) sint_id[of "pw_id it"]
    by (simp add: recoverRow_def rows_match_def write_ok_def)
next
  case False
  then obtain e bs where e: "work it = Some e" "valid e" "gid e = pw_id it" "encR e = Inr bs"
    and row: "Id row = word_of_int (pw_id it)" "Row row = bs"
    using assms by (auto simp: write_ok_def encodeWrite_def split: sum.splits)
  obtain x where x: "decR bs = Inr x" "inflate x = Inr (restored e)" using row_round_trip[OF e(2,4)] by blast
  show ?thesis
    using False e x row assms sint_id[of "pw_id it"] restored_id[OF e(2)]
    by (auto simp: recoverRow_def rows_match_def write_ok_def)
qed

lemma recoverRows_encode:
  assumes "\<And>it. it \<in> set items \<Longrightarrow> write_ok valid gid it"
    and "list_all2 (\<lambda>it row. \<exists>w. encodeWrite encR it = Inr w \<and> Id w = Id row \<and> Row w = Row row) items rows"
  shows "\<exists>rs. recoverRows decR rows = Inr rs \<and> list_all2 (rows_match gid inflate) (map (restoredWrite restored) items) rs"
proof -
  have gen: "\<exists>rs. fold_result (\<lambda>out p. case recoverRow decR p of Inl e \<Rightarrow> Inl e | Inr r \<Rightarrow> Inr (out @ [r])) rows acc
      = Inr (acc @ rs) \<and> list_all2 (rows_match gid inflate) (map (restoredWrite restored) items) rs" for acc
    using assms(2,1)
  proof (induction items rows arbitrary: acc rule: list_all2_induct)
    case Nil
    then show ?case by simp
  next
    case (Cons it items row rows)
    then obtain w where "encodeWrite encR it = Inr w" "Id w = Id row" "Row w = Row row" by auto
    then obtain r where r: "recoverRow decR row = Inr r" "rows_match gid inflate (restoredWrite restored it) r"
      using encodeWrite_recover[of it w row] Cons.prems by auto
    obtain rs where "fold_result (\<lambda>out p. case recoverRow decR p of Inl e \<Rightarrow> Inl e | Inr r \<Rightarrow> Inr (out @ [r])) rows
        (acc @ [r]) = Inr ((acc @ [r]) @ rs)" "list_all2 (rows_match gid inflate) (map (restoredWrite restored) items) rs"
      using Cons.IH[of "acc @ [r]"] Cons.prems by auto
    then show ?case using r by (intro exI[of _ "r # rs"]) simp
  qed
  show ?thesis using gen[of "[]"] by (simp add: recoverRows_def)
qed

end

section \<open>Applying the recovered rows of a log\<close>

lemma rows_match_apply:
  "list_all2 (rows_match gid inflate) items rs \<Longrightarrow>
   foldl (apply_row inflate) m rs = foldl apply_write m items"
proof (induction items rs arbitrary: m rule: list_all2_induct)
  case Nil
  then show ?case by simp
next
  case (Cons it items r rs)
  have "apply_row inflate m r = apply_write m it"
    using Cons.hyps(1) by (auto simp: rows_match_def apply_row_def apply_write_def split: if_splits)
  then show ?case using Cons.IH by simp
qed

lemma rows_match_fold:
  assumes "list_all2 (rows_match gid inflate) items rs"
  shows "\<exists>st'. fold_result (applyRecoveredRow gid inflate) rs st = Inr st'"
  using assms
proof (induction items rs arbitrary: st rule: list_all2_induct)
  case Nil
  then show ?case by simp
next
  case (Cons it items r rs)
  have "\<exists>u. applyRecoveredRow gid inflate st r = Inr u"
    using Cons.hyps(1)
    by (auto simp: rows_match_def applyRecoveredRow_def Let_def split: if_splits option.splits)
  then show ?case using Cons.IH by auto
qed

lemma applyRecoveredRows_match:
  assumes wf: "store_wf s" and u: "unique_ids gid s" and m: "list_all2 (rows_match gid inflate) items rs"
  shows "\<exists>t. applyRecoveredRows gid inflate s rs = Inr t \<and> store_wf t \<and> unique_ids gid t \<and>
    table_of gid t = foldl apply_write (table_of gid s) items"
proof -
  obtain st where "fold_result (applyRecoveredRow gid inflate) rs
      \<lparr>rstore = s, byID = indexByID gid s, rdeleted = {}\<rparr> = Inr st"
    using rows_match_fold[OF m] by blast
  then obtain t where t: "applyRecoveredRows gid inflate s rs = Inr t"
    by (simp add: applyRecoveredRows_def)
  then show ?thesis
    using applyRecoveredRows_table[OF wf u t] rows_match_apply[OF m] by simp
qed

section \<open>Logs and the frames they hold\<close>

definition fileBytes :: "bytes option \<Rightarrow> bytes" where
  "fileBytes file = (case file of None \<Rightarrow> [] | Some f \<Rightarrow> f)"

definition log_holds :: "('r list \<Rightarrow> bytes result) \<Rightarrow> bytes option \<Rightarrow> 'r list list \<Rightarrow> bool" where
  "log_holds enc file frames \<longleftrightarrow>
     (\<exists>encs. list_all2 (\<lambda>rows frame. enc rows = Inr frame) frames encs \<and> fileBytes file = concat encs)"

lemma log_holds_empty [simp]: "log_holds enc None []"
  by (simp add: log_holds_def fileBytes_def)

lemma log_holds_append:
  assumes "log_holds enc file frames" and "appendFrame enc Written file rows = (file', Inr u)"
  shows "log_holds enc file' (frames @ [rows])"
proof -
  obtain frame where f: "enc rows = Inr frame" "file' = appendBytes file frame"
    using assms(2) by (auto simp: appendFrame_def split: sum.splits)
  obtain encs where e: "list_all2 (\<lambda>rows frame. enc rows = Inr frame) frames encs" "fileBytes file = concat encs"
    using assms(1) by (auto simp: log_holds_def)
  have "fileBytes file' = concat (encs @ [frame])"
    using e(2) by (simp add: f(2) appendBytes_def fileBytes_def split: option.splits)
  then show ?thesis
    using e(1) f(1) unfolding log_holds_def by (intro exI[of _ "encs @ [frame]"]) (simp add: list_all2_appendI)
qed

context frame_codec
begin

lemma scan_log_holds:
  assumes "log_holds enc file frames"
  shows "scanFrames dec (fileBytes file) = frames"
proof -
  obtain encs where "list_all2 (\<lambda>rows frame. enc rows = Inr frame) frames encs" "fileBytes file = concat encs"
    using assms by (auto simp: log_holds_def)
  then show ?thesis using scan_frames[of frames encs "[]"] by (simp add: scan_nil)
qed

text \<open>A crash or a failed write in the middle of a frame leaves what was committed before.\<close>

lemma scan_cut:
  assumes "log_holds enc file frames" and "appendFrame enc (Cut k) file rows = (file', r)"
    and "\<And>frame. enc rows = Inr frame \<Longrightarrow> k < length frame"
  shows "scanFrames dec (fileBytes file') = frames"
proof -
  obtain encs where e: "list_all2 (\<lambda>rows frame. enc rows = Inr frame) frames encs" "fileBytes file = concat encs"
    using assms(1) by (auto simp: log_holds_def)
  show ?thesis
  proof (cases "enc rows")
    case (Inl err)
    then have "fileBytes file' = fileBytes file"
      using assms(2) by (auto simp: appendFrame_def appendBytes_def fileBytes_def split: option.splits)
    then show ?thesis using scan_log_holds[OF assms(1)] by simp
  next
    case (Inr frame)
    then have "fileBytes file' = concat encs @ take k frame"
      using assms(2) e(2) by (auto simp: appendFrame_def appendBytes_def fileBytes_def split: option.splits)
    then show ?thesis using scan_log[OF e(1) Inr assms(3)[OF Inr]] by simp
  qed
qed

end

lemma replayWAL_bytes:
  "replayWAL dec f = recoverRows dec (concat (scanFrames decodeWALFrame (fileBytes f)))"
  by (cases f) (simp_all add: replayWAL_def fileBytes_def wal.scan_nil recoverRows_def)

lemma replayTransactionWAL_bytes:
  "replayTransactionWAL dec n f =
     recoverRows dec (filter (\<lambda>row. Type row = n)
       (concat (scanFrames decodeTransactionWALFrame (fileBytes f))))"
  by (cases f) (simp_all add: replayTransactionWAL_def fileBytes_def transaction_wal.scan_nil recoverRows_def)

section \<open>Histories of commits\<close>

fun runCommits :: "(bytes \<Rightarrow> 'a \<Rightarrow> bytes result) \<Rightarrow> durable \<Rightarrow> 'a changes list \<Rightarrow> durable result" where
  "runCommits encR d [] = Inr d"
| "runCommits encR d (c # cs) =
     (case logTransactionChanges encR Written d c of
        (d', Inl e) \<Rightarrow> Inl e
      | (d', Inr u) \<Rightarrow> runCommits encR d' cs)"

definition emptyLogs :: durable where
  "emptyLogs = \<lparr>walFiles = (\<lambda>_. None), txFile = None\<rparr>"

definition writesOf :: "bytes \<Rightarrow> 'a changes \<Rightarrow> 'a pendingWrite list" where
  "writesOf n c = concat (map snd (filter (\<lambda>p. fst p = n) (sort_key fst c)))"

text \<open>The writes to table \<open>n\<close> by commits of one table, and by commits of several.\<close>

definition ownWrites :: "bytes \<Rightarrow> 'a changes list \<Rightarrow> 'a pendingWrite list" where
  "ownWrites n h = concat (map (\<lambda>c. if length c = 1 then writesOf n c else []) h)"

definition sharedWrites :: "bytes \<Rightarrow> 'a changes list \<Rightarrow> 'a pendingWrite list" where
  "sharedWrites n h = concat (map (\<lambda>c. if length c = 1 then [] else writesOf n c) h)"

text \<open>These rows are what \<open>encodeWrites\<close> made of these writes.\<close>

definition encodes :: "('a \<Rightarrow> bytes result) \<Rightarrow> 'a pendingWrite list \<Rightarrow> ('x) walRow_scheme list \<Rightarrow> bool" where
  "encodes encR items rows \<longleftrightarrow>
     list_all2 (\<lambda>it row. \<exists>w. encodeWrite encR it = Inr w \<and> Id w = Id row \<and> Row w = Row row) items rows"

lemma encodes_append: "encodes encR a x \<Longrightarrow> encodes encR b y \<Longrightarrow> encodes encR (a @ b) (x @ y)"
  by (simp add: encodes_def list_all2_appendI)

lemma encodes_nil [simp]: "encodes encR [] []"
  by (simp add: encodes_def)

lemma fold_collect:
  assumes "fold_result (\<lambda>out x. case f x of Inl e \<Rightarrow> Inl e | Inr y \<Rightarrow> Inr (out @ g x y)) xs acc = Inr out"
  shows "\<exists>ys. list_all2 (\<lambda>x y. f x = Inr y) xs ys \<and> out = acc @ concat (map2 g xs ys)"
  using assms
proof (induction xs arbitrary: acc)
  case Nil
  then show ?case by simp
next
  case (Cons x xs)
  then obtain y where y: "f x = Inr y"
    and "fold_result (\<lambda>out x. case f x of Inl e \<Rightarrow> Inl e | Inr y \<Rightarrow> Inr (out @ g x y)) xs (acc @ g x y) = Inr out"
    by (auto split: sum.splits)
  then obtain ys where "list_all2 (\<lambda>x y. f x = Inr y) xs ys" "out = (acc @ g x y) @ concat (map2 g xs ys)"
    using Cons.IH by blast
  then show ?case using y by (intro exI[of _ "y # ys"]) simp
qed

lemma encodeWrites_encodes:
  assumes "encodeWrites encR items = Inr rows"
  shows "encodes encR items rows"
proof -
  obtain ys where "list_all2 (\<lambda>x y. encodeWrite encR x = Inr y) items ys" "rows = concat (map2 (\<lambda>x y. [y]) items ys)"
    using fold_collect[where f = "encodeWrite encR" and g = "\<lambda>x y. [y]" and xs = items and acc = "[]" and out = rows] assms
    by (auto simp: encodeWrites_def)
  moreover have "concat (map2 (\<lambda>x y. [y]) items ys) = ys" if "length items = length ys"
    using that by (induction items ys rule: list_induct2) auto
  ultimately show ?thesis
    by (auto simp: encodes_def list_all2_conv_all_nth)
qed

lemma encodeTransactionRows_encodes:
  assumes "encodeTransactionRows encR cs = Inr rows"
  shows "encodes (encR n) (concat (map snd (filter (\<lambda>p. fst p = n) cs))) (filter (\<lambda>row. Type row = n) rows)"
proof -
  let ?g = "\<lambda>c ys. map (\<lambda>row. \<lparr>Id = Id row, Row = Row row, Type = fst c\<rparr>) ys :: transactionWALRow list"
  obtain ys where ys: "list_all2 (\<lambda>c y. encodeWrites (encR (fst c)) (snd c) = Inr y) cs ys"
    and rows: "rows = concat (map2 ?g cs ys)"
    using fold_collect[where f = "\<lambda>c. encodeWrites (encR (fst c)) (snd c)" and g = ?g and xs = cs and acc = "[]" and out = rows]
      assms by (auto simp: encodeTransactionRows_def)
  have "encodes (encR n) (concat (map snd (filter (\<lambda>p. fst p = n) cs)))
      (filter (\<lambda>row. Type row = n) (concat (map2 ?g cs ys)))"
    using ys
  proof (induction cs ys rule: list_all2_induct)
    case Nil
    then show ?case by simp
  next
    case (Cons c cs y ys)
    have one: "encodes (encR (fst c)) (snd c) (?g c y)"
      using encodeWrites_encodes[OF Cons.hyps(1)] by (simp add: encodes_def list_all2_conv_all_nth)
    have f: "filter (\<lambda>row. Type row = n) (?g c y) = (if fst c = n then ?g c y else [])"
      by (auto simp: filter_empty_conv)
    show ?case
    proof (cases "fst c = n")
      case True
      then show ?thesis using encodes_append[OF one[unfolded True] Cons.IH] by (simp add: o_def)
    next
      case False
      then have "filter (\<lambda>row. Type row = n) (?g c y) = []" using f by simp
      then show ?thesis using False Cons.IH by simp
    qed
  qed
  then show ?thesis by (simp add: rows)
qed

text \<open>The logs hold exactly what a history of commits wrote.\<close>

definition logs_of :: "(bytes \<Rightarrow> 'a \<Rightarrow> bytes result) \<Rightarrow> durable \<Rightarrow> 'a changes list \<Rightarrow> bool" where
  "logs_of encR d h \<longleftrightarrow>
     (\<exists>own shared.
        (\<forall>n. log_holds encodeWALFrame (walFiles d n) (own n) \<and> encodes (encR n) (ownWrites n h) (concat (own n))) \<and>
        log_holds encodeTransactionWALFrame (txFile d) shared \<and>
        (\<forall>n. encodes (encR n) (sharedWrites n h) (filter (\<lambda>row. Type row = n) (concat shared))))"

lemma logs_of_empty: "logs_of encR emptyLogs []"
  unfolding logs_of_def
  by (rule exI[of _ "\<lambda>_. []"], rule exI[of _ "[]"]) (simp add: emptyLogs_def ownWrites_def sharedWrites_def)

lemma logTransactionChanges_shared:
  assumes "2 \<le> length c"
  shows "logTransactionChanges encR out d c =
    (case encodeTransactionRows encR (sort_key fst c) of
       Inl e \<Rightarrow> (d, Inl e)
     | Inr rows \<Rightarrow>
         (d\<lparr>txFile := fst (appendFrame encodeTransactionWALFrame out (txFile d) rows)\<rparr>,
          snd (appendFrame encodeTransactionWALFrame out (txFile d) rows)))"
proof -
  have "2 \<le> length (sort_key fst c)" using assms by simp
  then obtain a b cs where "sort_key fst c = a # b # cs"
    by (metis One_nat_def Suc_1 Suc_le_length_iff)
  then show ?thesis using assms by (cases a) (auto simp: logTransactionChanges_def Let_def split: sum.splits)
qed

lemma logs_of_step:
  assumes L: "logs_of encR d h" and step: "logTransactionChanges encR Written d c = (d', Inr u)"
  shows "logs_of encR d' (h @ [c])"
proof -
  obtain own shared where
    own: "\<And>n. log_holds encodeWALFrame (walFiles d n) (own n)" "\<And>n. encodes (encR n) (ownWrites n h) (concat (own n))"
    and shared: "log_holds encodeTransactionWALFrame (txFile d) shared"
      "\<And>n. encodes (encR n) (sharedWrites n h) (filter (\<lambda>row. Type row = n) (concat shared))"
    using L by (auto simp: logs_of_def)
  consider "c = []" | m items where "c = [(m, items)]" | "2 \<le> length c"
    by (cases c rule: remdups_adj.cases) auto
  then show ?thesis
  proof cases
    case 1
    then show ?thesis using L step
      by (simp add: logTransactionChanges_def logs_of_def ownWrites_def sharedWrites_def writesOf_def)
  next
    case 2
    then obtain rows where rows: "encodeWrites (encR m) items = Inr rows"
      and ap: "appendFrame encodeWALFrame Written (walFiles d m) rows = (walFiles d' m, Inr u)"
      and d': "d' = d\<lparr>walFiles := (walFiles d)(m := walFiles d' m)\<rparr>"
      using step by (auto simp: logTransactionChanges_def Let_def logWrites_def prod_eq_iff split: sum.splits)
    have "log_holds encodeWALFrame (walFiles d' m) (own m @ [rows])" by (rule log_holds_append[OF own(1) ap])
    moreover have "walFiles d' n = walFiles d n" if "n \<noteq> m" for n
      using that by (subst d') simp
    moreover have "txFile d' = txFile d" by (subst d') simp
    moreover have "writesOf n c = (if n = m then items else [])" for n by (auto simp: writesOf_def 2)
    ultimately show ?thesis
      unfolding logs_of_def using own shared encodes_append[OF own(2) encodeWrites_encodes[OF rows]]
      by (intro exI[of _ "own(m := own m @ [rows])"] exI[of _ shared])
         (auto simp: ownWrites_def sharedWrites_def 2)
  next
    case 3
    obtain rows where rows: "encodeTransactionRows encR (sort_key fst c) = Inr rows"
      and ap: "appendFrame encodeTransactionWALFrame Written (txFile d) rows = (txFile d', Inr u)"
      and d': "d' = d\<lparr>txFile := txFile d'\<rparr>"
      using step by (auto simp: logTransactionChanges_shared[OF 3] prod_eq_iff split: sum.splits)
    have "walFiles d' = walFiles d" by (subst d') simp
    then show ?thesis
      unfolding logs_of_def
      using own shared log_holds_append[OF shared(1) ap]
        encodes_append[OF shared(2) encodeTransactionRows_encodes[OF rows]] 3
      by (intro exI[of _ own] exI[of _ "shared @ [rows]"])
         (auto simp: ownWrites_def sharedWrites_def writesOf_def)
  qed
qed

lemma logs_of_run:
  "runCommits encR d cs = Inr d' \<Longrightarrow> logs_of encR d h \<Longrightarrow> logs_of encR d' (h @ cs)"
proof (induction cs arbitrary: d h)
  case Nil
  then show ?case by simp
next
  case (Cons c cs)
  obtain d1 r where s: "logTransactionChanges encR Written d c = (d1, r)" by fastforce
  with Cons.prems(1) obtain u where "r = Inr u" "runCommits encR d1 cs = Inr d'"
    by (auto split: sum.splits)
  then show ?case using Cons.IH logs_of_step[OF Cons.prems(2)] s by fastforce
qed

section \<open>What a restart recovers\<close>

context row_codec
begin

lemma recoverStore_logs:
  assumes wf: "store_wf s" and u: "unique_ids gid s"
    and own: "log_holds encodeWALFrame w own" "encodes encR a (concat own)"
    and shared: "log_holds encodeTransactionWALFrame tf shared"
      "encodes encR b (filter (\<lambda>row. Type row = n) (concat shared))"
    and ok: "\<And>it. it \<in> set a \<union> set b \<Longrightarrow> write_ok valid gid it"
  shows "\<exists>t. recoverStore gid decR inflate n s w tf = Inr t \<and> store_wf t \<and> unique_ids gid t \<and>
    table_of gid t = foldl apply_write (table_of gid s) (map (restoredWrite restored) (a @ b))"
proof -
  obtain ra where ra: "recoverRows decR (concat own) = Inr ra" "list_all2 (rows_match gid inflate) (map (restoredWrite restored) a) ra"
    using recoverRows_encode[of a, OF _ own(2)[unfolded encodes_def]] ok by auto
  obtain rb where rb: "recoverRows decR (filter (\<lambda>row. Type row = n) (concat shared)) = Inr rb"
      "list_all2 (rows_match gid inflate) (map (restoredWrite restored) b) rb"
    using recoverRows_encode[of b, OF _ shared(2)[unfolded encodes_def]] ok by auto
  have "recoverStore gid decR inflate n s w tf = applyRecoveredRows gid inflate s (ra @ rb)"
    by (simp add: recoverStore_def replayWAL_bytes replayTransactionWAL_bytes
        wal.scan_log_holds[OF own(1)] transaction_wal.scan_log_holds[OF shared(1)] ra(1) rb(1))
  then show ?thesis
    using applyRecoveredRows_match[OF wf u list_all2_appendI[OF ra(2) rb(2)]] by simp
qed

lemma recover_history:
  assumes run: "runCommits encs emptyLogs h = Inr d" and enc: "encs n = encR"
    and wf: "store_wf s" and u: "unique_ids gid s"
    and ok: "\<And>it. it \<in> set (ownWrites n h @ sharedWrites n h) \<Longrightarrow> write_ok valid gid it"
  shows "\<exists>t. recoverStore gid decR inflate n s (walFiles d n) (txFile d) = Inr t \<and> store_wf t \<and> unique_ids gid t \<and>
    table_of gid t = foldl apply_write (table_of gid s) (map (restoredWrite restored) (ownWrites n h @ sharedWrites n h))"
proof -
  have "logs_of encs d h" using logs_of_run[OF run logs_of_empty] by simp
  then obtain own shared where
    "log_holds encodeWALFrame (walFiles d n) own" "encodes encR (ownWrites n h) (concat own)"
    "log_holds encodeTransactionWALFrame (txFile d) shared"
    "encodes encR (sharedWrites n h) (filter (\<lambda>row. Type row = n) (concat shared))"
    unfolding logs_of_def enc[symmetric] by blast
  then show ?thesis using recoverStore_logs[OF wf u] ok by simp
qed

end

text \<open>
  The order of writes that matters: two lists of writes to different ids commute, and when
  no write of a one-table commit follows a write of a cross-table commit to the same id,
  what the logs give back is the commit order.
\<close>

definition allWrites :: "bytes \<Rightarrow> 'a changes list \<Rightarrow> 'a pendingWrite list" where
  "allWrites n h = concat (map (writesOf n) h)"

fun own_follows_shared :: "bytes \<Rightarrow> 'a changes list \<Rightarrow> bool" where
  "own_follows_shared n [] = False"
| "own_follows_shared n (c # h) =
     ((length c \<noteq> 1 \<and> pw_id ` set (writesOf n c) \<inter> pw_id ` set (ownWrites n h) \<noteq> {}) \<or>
      own_follows_shared n h)"

lemma apply_writes_commute:
  assumes "pw_id ` set a \<inter> pw_id ` set b = {}"
  shows "foldl apply_write m (a @ b) = foldl apply_write m (b @ a)"
proof -
  have one: "foldl apply_write (apply_write m w) b = apply_write (foldl apply_write m b) w"
    if "pw_id w \<notin> pw_id ` set b" for w m and b :: "'a pendingWrite list"
    using that by (induction b arbitrary: m) (auto simp: apply_write_def fun_upd_twist)
  show ?thesis using assms
    by (induction a arbitrary: m) (auto simp: one)
qed

lemma log_order_is_commit_order:
  "\<not> own_follows_shared n h \<Longrightarrow>
   foldl apply_write m (map (restoredWrite f) (ownWrites n h @ sharedWrites n h)) = foldl apply_write m (map (restoredWrite f) (allWrites n h))"
proof (induction h arbitrary: m)
  case Nil
  then show ?case by (simp add: ownWrites_def sharedWrites_def allWrites_def)
next
  case (Cons c h)
  let ?r = "map (restoredWrite f)"
  have IH: "foldl apply_write m (?r (ownWrites n h @ sharedWrites n h)) = foldl apply_write m (?r (allWrites n h))" for m
    using Cons by simp
  have all: "allWrites n (c # h) = writesOf n c @ allWrites n h" by (simp add: allWrites_def)
  show ?case
  proof (cases "length c = 1")
    case True
    then show ?thesis using IH by (simp add: all ownWrites_def sharedWrites_def)
  next
    case False
    then have "pw_id ` set (?r (ownWrites n h)) \<inter> pw_id ` set (?r (writesOf n c)) = {}" using Cons.prems by (auto simp: image_image)
    from apply_writes_commute[OF this, of m]
    have "foldl apply_write m (?r ((ownWrites n h @ writesOf n c) @ sharedWrites n h)) =
        foldl apply_write (foldl apply_write m (?r (writesOf n c))) (?r (ownWrites n h @ sharedWrites n h))" by simp
    also have "\<dots> = foldl apply_write m (?r (allWrites n (c # h)))" by (subst IH) (simp add: all)
    finally show ?thesis using False by (simp add: ownWrites_def sharedWrites_def)
  qed
qed

text \<open>
  \<open>encodeRow\<close> and \<open>decodeRow\<close> implement the interface on every value whose row the code can
  store: a scalar row always, another one when the gob package returns it unchanged.
  \<open>flatten\<close> is \<open>normalizeToSchema\<close>. An entity with relations comes back from its row with hollow
  pointers (\<open>Schema_Rows\<close>), so that \<open>inflate\<close> need not give the same entity, only one with its id.
\<close>

definition loggable ::
  "(gtype \<Rightarrow> gval \<Rightarrow> bytes result) \<Rightarrow> (gtype \<Rightarrow> bytes \<Rightarrow> gval result) \<Rightarrow> gtype \<Rightarrow>
   ('a \<Rightarrow> gval) \<Rightarrow> (gval \<Rightarrow> 'a result) \<Rightarrow> ('a \<Rightarrow> int) \<Rightarrow> 'a \<Rightarrow> bool" where
  "loggable gob ungob t flatten inflate gid e \<longleftrightarrow>
     has_type t (flatten e) \<and> plain_bytes t \<and> (\<exists>e'. inflate (flatten e) = Inr e' \<and> gid e' = gid e) \<and>
     (scalarRowSize t (flatten e) = None \<longrightarrow>
        (case gob t (flatten e) of Inl err \<Rightarrow> True | Inr bs \<Rightarrow> ungob t bs = Inr (flatten e)))"

definition fromRow :: "('a \<Rightarrow> gval) \<Rightarrow> (gval \<Rightarrow> 'a result) \<Rightarrow> 'a \<Rightarrow> 'a" where
  "fromRow flatten inflate e = (case inflate (flatten e) of Inl err \<Rightarrow> e | Inr e' \<Rightarrow> e')"

text \<open>Without relations the entity itself comes back.\<close>

definition storable ::
  "(gtype \<Rightarrow> gval \<Rightarrow> bytes result) \<Rightarrow> (gtype \<Rightarrow> bytes \<Rightarrow> gval result) \<Rightarrow> gtype \<Rightarrow>
   ('a \<Rightarrow> gval) \<Rightarrow> (gval \<Rightarrow> 'a result) \<Rightarrow> 'a \<Rightarrow> bool" where
  "storable gob ungob t flatten inflate e \<longleftrightarrow>
     has_type t (flatten e) \<and> plain_bytes t \<and> inflate (flatten e) = Inr e \<and>
     (scalarRowSize t (flatten e) = None \<longrightarrow>
        (case gob t (flatten e) of Inl err \<Rightarrow> True | Inr bs \<Rightarrow> ungob t bs = Inr (flatten e)))"

lemma storable_loggable: "storable gob ungob t flatten inflate e \<Longrightarrow> loggable gob ungob t flatten inflate gid e \<and> fromRow flatten inflate e = e"
  by (simp add: storable_def loggable_def fromRow_def)

lemma row_round_trip_gob:
  assumes "loggable gob ungob t flatten inflate gid e" and "encodeRow gob t (flatten e) = Inr bs"
  shows "decodeRow ungob t bs = Inr (flatten e)"
proof (cases "scalarRowSize t (flatten e)")
  case None
  then show ?thesis using assms by (auto simp: loggable_def encodeRow_def decodeRow_def split: sum.splits)
next
  case (Some sz)
  then obtain n where "scalarValueSize t (flatten e) = Some n" and bs: "bs = 1 # encodeScalarValue t (flatten e)"
    using assms by (auto simp: encodeRow_def scalarRowSize_def split: gtype.splits option.splits if_splits)
  have ty: "has_type t (flatten e)" "plain_bytes t" using assms(1) by (simp_all add: loggable_def)
  have "length (encodeScalarValue t (flatten e)) = n"
    "decodeScalarValue t (encodeScalarValue t (flatten e) @ []) = Inr (flatten e, n)"
    by (rule scalar_round_trip[OF ty \<open>scalarValueSize t (flatten e) = Some n\<close>])+
  then have "decodeScalarValue t (encodeScalarValue t (flatten e)) = Inr (flatten e, n)" by simp
  then show ?thesis using \<open>length (encodeScalarValue t (flatten e)) = n\<close>
    by (simp add: bs decodeRow_def decodeScalarRow_def)
qed

interpretation row: row_codec "loggable gob ungob t flatten inflate gid" "\<lambda>e. encodeRow gob t (flatten e)"
    "decodeRow ungob t" inflate gid "fromRow flatten inflate" for gob ungob t flatten inflate gid
proof
  fix e bs
  assume "loggable gob ungob t flatten inflate gid e" "encodeRow gob t (flatten e) = Inr bs"
  then show "\<exists>row. decodeRow ungob t bs = Inr row \<and> inflate row = Inr (fromRow flatten inflate e)"
    using row_round_trip_gob[of gob ungob t flatten inflate gid e bs] by (auto simp: loggable_def fromRow_def)
next
  fix e
  assume "loggable gob ungob t flatten inflate gid e"
  then show "gid (fromRow flatten inflate e) = gid e" by (auto simp: loggable_def fromRow_def)
next
  fix e bs
  assume "encodeRow gob t (flatten e) = Inr bs"
  then show "bs \<noteq> []" by (auto simp: encodeRow_def split: option.splits sum.splits)
qed

lemma storable_write:
  "write_ok (storable gob ungob t flatten inflate) gid it \<Longrightarrow>
   write_ok (loggable gob ungob t flatten inflate gid) gid it \<and>
   (\<not> deleted it \<longrightarrow> map_option (fromRow flatten inflate) (work it) = work it)"
  using storable_loggable[of gob ungob t flatten inflate] by (auto simp: write_ok_def)

section \<open>Crashes\<close>

text \<open>The bytes one commit adds to its log.\<close>

definition commitFrame :: "(bytes \<Rightarrow> 'a \<Rightarrow> bytes result) \<Rightarrow> 'a changes \<Rightarrow> bytes result" where
  "commitFrame encR c =
     (case sort_key fst c of
        [(n, items)] \<Rightarrow> bind_result (encodeWrites (encR n) items) encodeWALFrame
      | dbNames \<Rightarrow> bind_result (encodeTransactionRows encR dbNames) encodeTransactionWALFrame)"

lemma commitFrame_shared:
  assumes "2 \<le> length c"
  shows "commitFrame encR c = bind_result (encodeTransactionRows encR (sort_key fst c)) encodeTransactionWALFrame"
proof -
  have "2 \<le> length (sort_key fst c)" using assms by simp
  then obtain a b cs where "sort_key fst c = a # b # cs"
    by (metis One_nat_def Suc_1 Suc_le_length_iff)
  then show ?thesis by (cases a) (simp add: commitFrame_def)
qed

lemma cut_commit_recovers:
  assumes L: "logs_of encR d h" and step: "logTransactionChanges encR (Cut k) d c = (d', r)"
    and cut: "commitFrame encR c = Inr frame" "k < length frame"
  shows "replayWAL dec (walFiles d' n) = replayWAL dec (walFiles d n)"
    and "replayTransactionWAL dec n (txFile d') = replayTransactionWAL dec n (txFile d)"
proof -
  obtain own shared where own: "\<And>n. log_holds encodeWALFrame (walFiles d n) (own n)"
    and shared: "log_holds encodeTransactionWALFrame (txFile d) shared"
    using L by (auto simp: logs_of_def)
  consider "c = []" | m items where "c = [(m, items)]" | "2 \<le> length c"
    by (cases c rule: remdups_adj.cases) auto
  then have "replayWAL dec (walFiles d' n) = replayWAL dec (walFiles d n) \<and>
      replayTransactionWAL dec n (txFile d') = replayTransactionWAL dec n (txFile d)"
  proof cases
    case 1
    then show ?thesis using step by (simp add: logTransactionChanges_def)
  next
    case 2
    then obtain rows where rows: "encodeWrites (encR m) items = Inr rows" "encodeWALFrame rows = Inr frame"
      using cut(1) by (auto simp: commitFrame_def bind_result_Inr_iff)
    then obtain r' where ap: "appendFrame encodeWALFrame (Cut k) (walFiles d m) rows = (walFiles d' m, r')"
      and d': "d' = d\<lparr>walFiles := (walFiles d)(m := walFiles d' m)\<rparr>"
      using step 2 by (auto simp: logTransactionChanges_def Let_def logWrites_def prod_eq_iff split: sum.splits)
    have "scanFrames decodeWALFrame (fileBytes (walFiles d' m)) = own m"
      by (rule wal.scan_cut[OF own ap]) (use rows cut in auto)
    moreover have "walFiles d' n = walFiles d n" if "n \<noteq> m"
      using that by (subst d') simp
    moreover have "txFile d' = txFile d" by (subst d') simp
    ultimately show ?thesis
      by (cases "n = m") (simp_all add: replayWAL_bytes wal.scan_log_holds[OF own])
  next
    case 3
    then obtain rows where rows: "encodeTransactionRows encR (sort_key fst c) = Inr rows"
        "encodeTransactionWALFrame rows = Inr frame"
      using cut(1) by (auto simp: commitFrame_shared bind_result_Inr_iff)
    then obtain r' where ap: "appendFrame encodeTransactionWALFrame (Cut k) (txFile d) rows = (txFile d', r')"
      and d': "d' = d\<lparr>txFile := txFile d'\<rparr>"
      using step by (auto simp: logTransactionChanges_shared[OF 3] prod_eq_iff split: sum.splits)
    have "scanFrames decodeTransactionWALFrame (fileBytes (txFile d')) = shared"
      by (rule transaction_wal.scan_cut[OF shared ap]) (use rows cut in auto)
    moreover have "walFiles d' = walFiles d" by (subst d') simp
    ultimately show ?thesis
      by (simp add: replayTransactionWAL_bytes transaction_wal.scan_log_holds[OF shared])
  qed
  then show "replayWAL dec (walFiles d' n) = replayWAL dec (walFiles d n)"
    and "replayTransactionWAL dec n (txFile d') = replayTransactionWAL dec n (txFile d)" by auto
qed

text \<open>
  A frame that was cut stays in the file, and its header announces more bytes than are
  there: a frame appended later lies inside that announced body.
\<close>

context frame_codec
begin

lemma scan_buried:
  assumes L: "log_holds enc f frames" and frame: "enc rows = Inr frame" and k: "4 \<le> k"
    and short: "k + length later < length frame"
  shows "scanFrames dec (fileBytes (appendBytes (appendBytes f (take k frame)) later)) = frames"
proof -
  obtain encs where e: "list_all2 (\<lambda>rows frame. enc rows = Inr frame) frames encs" "fileBytes f = concat encs"
    using L by (auto simp: log_holds_def)
  obtain body where b: "frame = put_be 4 (length body) @ body" "length body < 2 ^ 32"
    using enc_shape[OF frame] by blast
  have "take k frame = put_be 4 (length body) @ take (k - 4) body" using k by (simp add: b(1))
  then have bytes: "fileBytes (appendBytes (appendBytes f (take k frame)) later) =
      concat encs @ put_be 4 (length body) @ take (k - 4) body @ later"
    using e(2) by (auto simp: appendBytes_def fileBytes_def split: option.splits)
  have "scanFrames dec (put_be 4 (length body) @ take (k - 4) body @ later) = []"
  proof -
    have "k - 4 + length later < length body" using short k b(1) by auto
    then show ?thesis using b(2) by (subst scanFrames.simps) (simp add: Let_def)
  qed
  then show ?thesis by (simp add: bytes scan_frames[OF e(1)])
qed

end

section \<open>Properties\<close>


text \<open>
  C8. A crash, or a failed write, in the middle of a commit's frame leaves every table
  recoverable to exactly the state before that commit, the tables of a cross-table commit
  together.
\<close>

theorem interrupted_commit_is_atomic:
  assumes "runCommits encs emptyLogs h = Inr d"
    and "logTransactionChanges encs (Cut k) d c = (d', r)"
    and "commitFrame encs c = Inr frame" and "k < length frame"
  shows "recoverStore gid decR inflate n s (walFiles d' n) (txFile d') =
    recoverStore gid decR inflate n s (walFiles d n) (txFile d)"
proof -
  have L: "logs_of encs d h" using logs_of_run[OF assms(1) logs_of_empty] by simp
  show ?thesis by (simp add: recoverStore_def cut_commit_recovers[OF L assms(2-4)] cong: sum.case_cong)
qed

text \<open>
  C10. What recovery does to a one-table commit that follows a cross-table commit to the same
  id: the shared log is applied after the table's own log whatever the commit order was, so
  the older write comes back and the newer commit is undone.
\<close>

theorem older_transaction_overrides_newer_commit:
  assumes "runCommits (\<lambda>n e. encodeRow gob (layout n) (flatten e)) emptyLogs [[(n, [w1]), (m, [w2])], [(n, [w3])]] = Inr d"
    and "m \<noteq> n" and "store_wf s" and "unique_ids gid s"
    and "write_ok (storable gob ungob (layout n) flatten inflate) gid w1"
    and "write_ok (storable gob ungob (layout n) flatten inflate) gid w3"
    and "pw_id w1 = pw_id w3"
  shows "\<exists>t. recoverStore gid (decodeRow ungob (layout n)) inflate n s (walFiles d n) (txFile d) = Inr t \<and>
    table_of gid t (pw_id w3) = (if deleted w1 then None else work w1)"
proof -
  let ?h = "[[(n, [w1]), (m, [w2])], [(n, [w3])]]"
  have own: "ownWrites n ?h = [w3]" by (simp add: ownWrites_def writesOf_def)
  have shared: "sharedWrites n ?h = [w1]"
    using assms(2) by (simp add: sharedWrites_def writesOf_def insort_key.simps)
  show ?thesis
    using row.recover_history[OF assms(1) refl assms(3,4), where inflate = inflate and ungob = ungob and n = n]
      assms(5-7) storable_write[OF assms(5)] storable_write[OF assms(6)]
    by (fastforce simp: own shared apply_write_def)
qed

text \<open>
  C11. What an interrupted append does to later commits: when a frame was cut after its length
  prefix, nothing removes it, and a later frame that fits into the missing part is never read
  although its commit was acknowledged: a replay gives the rows before the cut and no more.
\<close>

theorem commits_behind_a_cut_frame_are_lost:
  assumes "log_holds encodeWALFrame f frames"
    and "encodeWALFrame rows = Inr frame" and "4 \<le> k"
    and "appendFrame encodeWALFrame (Cut k) f rows = (f1, r1)"
    and "encodeWALFrame later = Inr laterFrame" and "k + length laterFrame < length frame"
    and "appendFrame encodeWALFrame Written f1 later = (f2, Inr ())"
  shows "replayWAL dec f2 = replayWAL dec f"
proof -
  have "f1 = appendBytes f (take k frame)" "f2 = appendBytes f1 laterFrame"
    using assms(2,4,5,7) by (auto simp: appendFrame_def)
  then show ?thesis
    using wal.scan_buried[OF assms(1,2,3,6)] wal.scan_log_holds[OF assms(1)]
    by (simp add: replayWAL_bytes)
qed

section \<open>The hypotheses can hold\<close>

definition sampleLayout :: gtype where
  "sampleLayout = TStruct [(''Id'', True, TInt 64), (''Name'', True, TString)]"

definition sampleEntity :: "nat \<Rightarrow> bytes \<Rightarrow> gval" where
  "sampleEntity i name = VStruct [VInt (word_of_nat i), VString name]"

fun sampleId :: "gval \<Rightarrow> int" where
  "sampleId (VStruct (VInt x # _)) = sint x"
| "sampleId _ = 0"

definition noGob :: "gtype \<Rightarrow> 'a \<Rightarrow> 'b result" where
  "noGob t x = Inl ErrConflict"

definition sampleWrite :: "nat \<Rightarrow> bytes \<Rightarrow> gval pendingWrite" where
  "sampleWrite i name = \<lparr>pw_id = int i, work = Some (sampleEntity i name), deleted = False\<rparr>"

abbreviation sampleEncs :: "bytes \<Rightarrow> gval \<Rightarrow> bytes result" where
  "sampleEncs \<equiv> (\<lambda>n e. encodeRow noGob sampleLayout e)"

lemma setInt_64 [simp]: "setInt 64 (x :: 64 word) = x"
proof (rule bit_word_eqI)
  fix i assume "i < LENGTH(64)"
  then have "min 63 i = i" "i < 64" by simp_all
  then show "bit (setInt 64 x) i \<longleftrightarrow> bit x i" by (simp add: setInt_def bit_signed_take_bit_iff)
qed

lemma sample_fits: "length name < 2 ^ 16 \<Longrightarrow> \<not> 9223372036854775803 - length (name :: bytes) < 8"
  by simp

lemma sampleWrite_ok:
  assumes "0 < i" "i < 2 ^ 63" "length name < 2 ^ 16"
  shows "write_ok (storable noGob noGob sampleLayout (\<lambda>e. e) Inr) sampleId (sampleWrite i name)"
    and "write_ok (loggable noGob noGob sampleLayout (\<lambda>e. e) Inr sampleId) sampleId (sampleWrite i name)"
proof -
  show *: "write_ok (storable noGob noGob sampleLayout (\<lambda>e. e) Inr) sampleId (sampleWrite i name)"
    using assms sint_id[of "int i"] sample_fits[of name]
    by (simp add: write_ok_def storable_def sampleWrite_def sampleEntity_def sampleLayout_def
        scalarRowSize_def max_uint32_def max_int_def noGob_def)
  show "write_ok (loggable noGob noGob sampleLayout (\<lambda>e. e) Inr sampleId) sampleId (sampleWrite i name)"
    using storable_write[OF *] by blast
qed

lemma sampleWrite_encoded:
  assumes "length name < 2 ^ 16"
  shows "encodeWrite (encodeRow noGob sampleLayout) (sampleWrite i name) =
    Inr \<lparr>Id = word_of_nat i, Row = 1 # put_be 8 (unat (word_of_nat i :: 64 word)) @ put_be 4 (length name) @ name\<rparr>"
  using assms sample_fits[of name]
  by (simp add: encodeWrite_def sampleWrite_def sampleEntity_def sampleLayout_def encodeRow_def
      scalarRowSize_def max_uint32_def max_int_def)


theorem interrupted_commit_is_atomic_witness:
  "\<exists>d' r. logTransactionChanges sampleEncs (Cut 7) emptyLogs [([1], [sampleWrite 1 [9]]), ([2], [sampleWrite 4 [9]])] = (d', r) \<and>
     recoverStore sampleId (decodeRow noGob sampleLayout) Inr [2] newChunkStore (walFiles d' [2]) (txFile d') =
     recoverStore sampleId (decodeRow noGob sampleLayout) Inr [2] newChunkStore None None"
proof -
  let ?c = "[([1], [sampleWrite 1 [9]]), ([2], [sampleWrite 4 [9]])]"
  obtain d' r where step: "logTransactionChanges sampleEncs (Cut 7) emptyLogs ?c = (d', r)" by fastforce
  have "\<exists>frame. commitFrame sampleEncs ?c = Inr frame \<and> 7 < length frame"
    by (simp add: commitFrame_def insort_key.simps encodeTransactionRows_def encodeWrites_def
        sampleWrite_encoded encodeTransactionWALFrame_def transactionFrameSize_def max_uint32_def)
  then obtain frame where f: "commitFrame sampleEncs ?c = Inr frame" "7 < length frame" by blast
  have run: "runCommits sampleEncs emptyLogs [] = Inr emptyLogs" by simp
  show ?thesis
    using interrupted_commit_is_atomic[OF run step f] step by (auto simp: emptyLogs_def)
qed

theorem older_transaction_overrides_newer_commit_witness:
  "\<exists>d t. runCommits sampleEncs emptyLogs
        [[([1], [sampleWrite 1 [9]]), ([2], [sampleWrite 4 [9]])], [([1], [sampleWrite 1 [8]])]] = Inr d \<and>
     recoverStore sampleId (decodeRow noGob sampleLayout) Inr [1] newChunkStore (walFiles d [1]) (txFile d) = Inr t \<and>
     table_of sampleId t 1 = Some (sampleEntity 1 [9])"
proof -
  let ?h = "[[([1], [sampleWrite 1 [9]]), ([2], [sampleWrite 4 [9]])], [([1], [sampleWrite 1 [8]])]]"
  have "\<exists>d. runCommits sampleEncs emptyLogs ?h = Inr d"
    by (simp add: logTransactionChanges_def Let_def logWrites_def encodeWrites_def sampleWrite_encoded
        appendFrame_def encodeWALFrame_def frameSize_def max_uint32_def insort_key.simps
        encodeTransactionRows_def encodeTransactionWALFrame_def transactionFrameSize_def)
  then obtain d where d: "runCommits sampleEncs emptyLogs ?h = Inr d" by blast
  have u: "unique_ids sampleId newChunkStore" by (simp add: unique_ids_def newChunkStore_def StorePointers_def rangeResources_def)
  have "\<exists>t. recoverStore sampleId (decodeRow noGob sampleLayout) Inr [1] newChunkStore (walFiles d [1]) (txFile d) = Inr t \<and>
      table_of sampleId t (pw_id (sampleWrite 1 [8])) =
        (if deleted (sampleWrite 1 [9]) then None else work (sampleWrite 1 [9]))"
    by (rule older_transaction_overrides_newer_commit[OF d _ store_wf_new u])
       (simp_all add: sampleWrite_ok, simp add: sampleWrite_def)
  then obtain t where t: "recoverStore sampleId (decodeRow noGob sampleLayout) Inr [1] newChunkStore (walFiles d [1]) (txFile d) = Inr t"
    and tab: "table_of sampleId t (pw_id (sampleWrite 1 [8])) =
        (if deleted (sampleWrite 1 [9]) then None else work (sampleWrite 1 [9]))" by blast
  have "table_of sampleId t 1 = Some (sampleEntity 1 [9])" using tab by (simp add: sampleWrite_def)
  then show ?thesis using d t by blast
qed

theorem commits_behind_a_cut_frame_are_lost_witness:
  "\<exists>f1 r1 f2. appendFrame encodeWALFrame (Cut 4) None [\<lparr>Id = 1, Row = replicate 50 7\<rparr>] = (f1, r1) \<and>
     appendFrame encodeWALFrame Written f1 [\<lparr>Id = 2, Row = [7]\<rparr>] = (f2, Inr ()) \<and>
     replayWAL (\<lambda>bs. Inr bs) f2 = Inr ([] :: bytes recoveredRow list)"
proof -
  let ?frame = "put_be 4 66 @ put_be 4 1 @ encodeRowEntry \<lparr>Id = 1, Row = replicate 50 7\<rparr>"
  let ?later = "put_be 4 17 @ put_be 4 1 @ encodeRowEntry \<lparr>Id = 2, Row = [7]\<rparr>"
  have e1: "encodeWALFrame [\<lparr>Id = 1, Row = replicate 50 7\<rparr>] = Inr ?frame"
    by (simp add: encodeWALFrame_def frameSize_def max_uint32_def)
  have e2: "encodeWALFrame [\<lparr>Id = 2, Row = [7]\<rparr>] = Inr ?later"
    by (simp add: encodeWALFrame_def frameSize_def max_uint32_def)
  obtain f1 r1 where a1: "appendFrame encodeWALFrame (Cut 4) None [\<lparr>Id = 1, Row = replicate 50 7\<rparr>] = (f1, r1)"
    by fastforce
  obtain f2 where a2: "appendFrame encodeWALFrame Written f1 [\<lparr>Id = 2, Row = [7]\<rparr>] = (f2, Inr ())"
    by (simp add: appendFrame_def e2)
  have "replayWAL (\<lambda>bs. Inr bs) f2 = (replayWAL (\<lambda>bs. Inr bs) None :: bytes recoveredRow list result)"
    by (rule commits_behind_a_cut_frame_are_lost[OF log_holds_empty e1 _ a1 e2 _ a2]) simp_all
  then show ?thesis using a1 a2 by (auto simp: replayWAL_def)
qed

end
