(* ===== verification/Go_Strings.thy ===== *)
theory Go_Strings
  imports Nestory_Prelude
begin

text \<open>
  The string routines of Go's library that file names and struct tags go through: decimal
  formatting and parsing of integers, suffixes, and splitting at a separator.
\<close>

fun itoa :: "nat \<Rightarrow> string" where
  "itoa n = (if n < 10 then [char_of (48 + n)] else itoa (n div 10) @ [char_of (48 + n mod 10)])"

declare itoa.simps [simp del]

definition digitValue :: "char \<Rightarrow> nat option" where
  "digitValue c = (let n = of_char c :: nat in if 48 \<le> n \<and> n \<le> 57 then Some (n - 48) else None)"

fun parseDigits :: "nat \<Rightarrow> string \<Rightarrow> nat option" where
  "parseDigits acc [] = Some acc"
| "parseDigits acc (c # cs) =
     (case digitValue c of None \<Rightarrow> None | Some d \<Rightarrow> parseDigits (10 * acc + d) cs)"

text \<open>\<open>strconv.Atoi\<close>: an optional sign, at least one digit, a value that fits 64 bits.\<close>

definition Atoi :: "string \<Rightarrow> int option" where
  "Atoi s =
     (let neg = (s \<noteq> [] \<and> hd s = CHR ''-'');
          body = (if s \<noteq> [] \<and> (hd s = CHR ''-'' \<or> hd s = CHR ''+'') then tl s else s)
      in if body = [] then None
         else (case parseDigits 0 body of
                 None \<Rightarrow> None
               | Some n \<Rightarrow>
                   if neg then (if n \<le> 2 ^ 63 then Some (- int n) else None)
                   else (if n < 2 ^ 63 then Some (int n) else None)))"

definition HasSuffix :: "string \<Rightarrow> string \<Rightarrow> bool" where
  "HasSuffix s suffix = (length suffix \<le> length s \<and> drop (length s - length suffix) s = suffix)"

definition TrimSuffix :: "string \<Rightarrow> string \<Rightarrow> string" where
  "TrimSuffix s suffix = (if HasSuffix s suffix then take (length s - length suffix) s else s)"

text \<open>\<open>strings.Split\<close> with a one-byte separator.\<close>

fun Split :: "char \<Rightarrow> string \<Rightarrow> string list" where
  "Split sep [] = [[]]"
| "Split sep (c # cs) =
     (if c = sep then [] # Split sep cs
      else (case Split sep cs of [] \<Rightarrow> [[c]] | p # ps \<Rightarrow> (c # p) # ps))"

lemma parseDigits_append:
  "parseDigits acc (xs @ ys) = (case parseDigits acc xs of None \<Rightarrow> None | Some n \<Rightarrow> parseDigits n ys)"
  by (induction xs arbitrary: acc) (auto split: option.splits)

lemma digitValue_digit: "d < 10 \<Longrightarrow> digitValue (char_of (48 + d)) = Some d"
  by (simp add: digitValue_def Let_def)

lemma parseDigits_itoa: "parseDigits 0 (itoa n) = Some n"
proof (induction n rule: itoa.induct)
  case (1 n)
  show ?case
  proof (cases "n < 10")
    case True
    then show ?thesis by (subst itoa.simps) (simp add: digitValue_digit)
  next
    case False
    then show ?thesis using 1 by (subst itoa.simps) (simp add: parseDigits_append digitValue_digit)
  qed
qed

lemma itoa_digit: "itoa n \<noteq> [] \<and> digitValue (hd (itoa n)) \<noteq> None"
proof (induction n rule: itoa.induct)
  case (1 n)
  show ?case
  proof (cases "n < 10")
    case True
    then have "itoa n = [char_of (48 + n)]" by (subst itoa.simps) simp
    then show ?thesis using True by (simp add: digitValue_digit)
  next
    case False
    then have "itoa n = itoa (n div 10) @ [char_of (48 + n mod 10)]" by (subst itoa.simps) simp
    then show ?thesis using 1[OF False] by simp
  qed
qed

lemma itoa_head: "itoa n \<noteq> [] \<and> hd (itoa n) \<noteq> CHR ''-'' \<and> hd (itoa n) \<noteq> CHR ''+''"
proof -
  have "digitValue CHR ''-'' = None" "digitValue CHR ''+'' = None" by (simp_all add: digitValue_def Let_def)
  then show ?thesis using itoa_digit[of n] by metis
qed

lemma Atoi_itoa: "n < 2 ^ 63 \<Longrightarrow> Atoi (itoa n) = Some (int n)"
  using itoa_head[of n] by (simp add: Atoi_def Let_def parseDigits_itoa)

lemma itoa_inject [simp]: "itoa m = itoa n \<longleftrightarrow> m = n"
  using parseDigits_itoa by (metis option.inject)

lemma Split_nonempty [simp]: "Split sep s \<noteq> []"
  by (induction s) (auto split: list.splits)

end
