(* ===== verification/Snapshot_Files.thy ===== *)
theory Snapshot_Files
  imports Recovery Go_Strings "HOL-Library.AList"
begin

text \<open>
  \<open>storage.go\<close>: the chunk files of one table. The directory of a table is an association
  list from file names to entries. File names are written with \<open>%d.gob\<close> and read back with
  \<open>strconv.Atoi\<close>, both modelled. The gob format of a chunk is the pair of functions
  \<open>enc\<close>/\<open>dec\<close> on row slices; \<open>inflate\<close> is \<open>inflateSlice\<close> on one row, \<open>toRow\<close> is
  \<open>normalizeToSchema\<close>. What the operating system makes of each chunk write is an argument.
\<close>

datatype entry = File bytes | Directory

type_synonym directory = "(string \<times> entry) list"

section \<open>File names\<close>

definition chunkFile :: "nat \<Rightarrow> string" where
  "chunkFile ci = itoa ci @ ''.gob''"

definition tmpFile :: "nat \<Rightarrow> string" where
  "tmpFile ci = chunkFile ci @ ''.tmp''"

text \<open>The index \<open>sortedChunkFiles\<close> gives a directory entry, \<open>None\<close> when it skips the entry.\<close>

definition chunkIndex :: "string \<times> entry \<Rightarrow> int option" where
  "chunkIndex e =
     (case snd e of
        Directory \<Rightarrow> None
      | File _ \<Rightarrow> if HasSuffix (fst e) ''.gob'' then Atoi (TrimSuffix (fst e) ''.gob'') else None)"

text \<open>
  \<open>sort.Slice\<close> on the indices. It is not stable, so the order of two files with the same
  index (as \<open>1.gob\<close> and \<open>01.gob\<close>) is not determined by the code; the model keeps theirs.
\<close>

definition sortedChunkFiles :: "directory \<Rightarrow> string list" where
  "sortedChunkFiles dir =
     map snd (sort_key fst (List.map_filter (\<lambda>e. map_option (\<lambda>idx. (idx, fst e)) (chunkIndex e)) dir))"

section \<open>Loading\<close>

definition decodeSlice :: "(bytes \<Rightarrow> 'r list result) \<Rightarrow> bytes \<Rightarrow> 'r list result" where
  "decodeSlice dec content = (if content = [] then Inr [] else dec content)"

definition inflateSlice :: "('r \<Rightarrow> 'a result) \<Rightarrow> 'r list \<Rightarrow> 'a list result" where
  "inflateSlice inflate rows =
     fold_result (\<lambda>out row. case inflate row of Inl e \<Rightarrow> Inl e | Inr v \<Rightarrow> Inr (out @ [v])) rows []"

definition readChunk ::
  "(bytes \<Rightarrow> 'r list result) \<Rightarrow> ('r \<Rightarrow> 'a result) \<Rightarrow> bytes \<Rightarrow> 'a list result" where
  "readChunk dec inflate content = bind_result (decodeSlice dec content) (inflateSlice inflate)"

definition readChunkFile ::
  "(bytes \<Rightarrow> 'r list result) \<Rightarrow> ('r \<Rightarrow> 'a result) \<Rightarrow> directory \<Rightarrow> string \<Rightarrow> 'a list result" where
  "readChunkFile dec inflate dir path =
     (case map_of dir path of
        Some (File content) \<Rightarrow> readChunk dec inflate content
      | _ \<Rightarrow> Inl (ErrIO ''open''))"

text \<open>
  The first half of \<open>loadStore\<close>: read every file (each goroutine fills its own slot, the
  first error in file order is returned), then append the blocks in file order.
\<close>

definition loadChunks ::
  "(bytes \<Rightarrow> 'r list result) \<Rightarrow> ('r \<Rightarrow> 'a result) \<Rightarrow> directory \<Rightarrow> 'a chunkStore result" where
  "loadChunks dec inflate dir =
     bind_result
       (fold_result (\<lambda>results p. case readChunkFile dec inflate dir p of
                       Inl e \<Rightarrow> Inl e | Inr vals \<Rightarrow> Inr (results @ [vals])) (sortedChunkFiles dir) [])
       (\<lambda>results. fold_result loadChunk results newChunkStore)"

definition loadStore ::
  "('a \<Rightarrow> int) \<Rightarrow> (bytes \<Rightarrow> 'r list result) \<Rightarrow> (bytes \<Rightarrow> 'r result) \<Rightarrow> ('r \<Rightarrow> 'a result) \<Rightarrow> bytes \<Rightarrow>
   directory \<Rightarrow> bytes option \<Rightarrow> bytes option \<Rightarrow> 'a chunkStore result" where
  "loadStore gid dec decR inflate typeName dir walFile txFile =
     bind_result (loadChunks dec inflate dir)
       (\<lambda>s. recoverStore gid decR inflate typeName s walFile txFile)"

section \<open>Saving\<close>

text \<open>
  The outcomes of writing one chunk: success, an error of each system call (the file is
  removed again), or a crash with \<open>k\<close> bytes of the temporary file written.
\<close>

datatype save_outcome =
  Saved | CreateFailed | EncodeFailed | FsyncFailed | CloseFailed | RenameFailed | Crashed nat

definition chunkContents ::
  "bool \<Rightarrow> ('a list \<Rightarrow> bytes result) \<Rightarrow> ('r list \<Rightarrow> bytes result) \<Rightarrow> ('a \<Rightarrow> 'r) \<Rightarrow> 'a list \<Rightarrow> bytes result" where
  "chunkContents directSchema encT enc toRow live =
     (if directSchema then encT live else enc (map toRow live))"

definition saveChunk ::
  "('a list \<Rightarrow> bytes result) \<Rightarrow> save_outcome \<Rightarrow> 'a chunkStore \<Rightarrow> directory \<Rightarrow> nat \<Rightarrow> directory \<times> unit result" where
  "saveChunk encodeChunk out s dir ci =
     (let tmp = tmpFile ci; final = chunkFile ci;
          removed = AList.delete tmp dir in
      if out = CreateFailed then (dir, Inl (ErrIO ''create''))
      else case encodeChunk (chunkLive s ci) of
        Inl e \<Rightarrow> (removed, Inl e)
      | Inr content \<Rightarrow>
          (case out of
             EncodeFailed \<Rightarrow> (removed, Inl (ErrIO ''encode''))
           | FsyncFailed \<Rightarrow> (removed, Inl (ErrIO ''fsync''))
           | CloseFailed \<Rightarrow> (removed, Inl (ErrIO ''close''))
           | RenameFailed \<Rightarrow> (removed, Inl (ErrIO ''rename''))
           | Crashed k \<Rightarrow> (AList.update tmp (File (take k content)) dir, Inl (ErrIO ''crash''))
           | _ \<Rightarrow> (AList.update final (File content) removed, Inr ())))"

definition saveStep ::
  "('a list \<Rightarrow> bytes result) \<Rightarrow> (nat \<Rightarrow> save_outcome) \<Rightarrow> 'a chunkStore \<Rightarrow> directory \<times> unit result \<Rightarrow> nat \<Rightarrow>
   directory \<times> unit result" where
  "saveStep encodeChunk out s st ci =
     (let w = saveChunk encodeChunk (out ci) s (fst st) ci in
      (fst w, case snd st of Inl e \<Rightarrow> Inl e | Inr u \<Rightarrow> snd w))"

text \<open>
  \<open>save\<close>: the goroutines touch different files, so their order does not matter; the error
  returned is the one of the lowest chunk, and the flags are cleared only when there is none.
\<close>

definition save ::
  "('a list \<Rightarrow> bytes result) \<Rightarrow> (nat \<Rightarrow> save_outcome) \<Rightarrow> 'a chunkStore \<Rightarrow> directory \<Rightarrow>
   'a chunkStore \<times> directory \<times> unit result" where
  "save encodeChunk out s dir =
     (let idxs = dirtyIndices s;
          r = foldl (saveStep encodeChunk out s) (dir, Inr ()) idxs
      in if idxs = [] then (s, dir, Inr ())
         else (case snd r of
                 Inl e \<Rightarrow> (s, fst r, Inl e)
               | Inr u \<Rightarrow> (clearDirty s idxs, fst r, Inr ())))"

section \<open>Names\<close>

lemma chunkFile_inject [simp]: "chunkFile m = chunkFile n \<longleftrightarrow> m = n"
  by (simp add: chunkFile_def)

lemma suffix_gob: "HasSuffix (xs @ ''.gob'') ''.gob''" "TrimSuffix (xs @ ''.gob'') ''.gob'' = xs"
  by (simp_all add: HasSuffix_def TrimSuffix_def)

lemma chunkIndex_chunkFile: "c < 2 ^ 63 \<Longrightarrow> chunkIndex (chunkFile c, File bs) = Some (int c)"
  by (simp add: chunkIndex_def chunkFile_def suffix_gob Atoi_itoa)

lemma tmpFile_not_chunk: "chunkIndex (tmpFile c, e) = None" and tmpFile_neq: "tmpFile c \<noteq> chunkFile d"
proof -
  have "last (tmpFile c) = CHR ''p''" "last (chunkFile d) = CHR ''b''" by (simp_all add: tmpFile_def chunkFile_def)
  then show "tmpFile c \<noteq> chunkFile d" by auto
  have "\<not> HasSuffix (tmpFile c) ''.gob''" by (simp add: tmpFile_def HasSuffix_def)
  then show "chunkIndex (tmpFile c, e) = None" by (simp add: chunkIndex_def split: entry.split)
qed

section \<open>What a directory holds\<close>

text \<open>
  The invariant between a table's directory and its store: every chunk file belongs to a
  block, and the file of a block that is not dirty decodes to the block's live elements.
\<close>

definition disk_ok ::
  "(bytes \<Rightarrow> 'r list result) \<Rightarrow> ('r \<Rightarrow> 'a result) \<Rightarrow> directory \<Rightarrow> 'a chunkStore \<Rightarrow> bool" where
  "disk_ok dec inflate dir s \<longleftrightarrow>
     distinct (map fst dir) \<and>
     (\<forall>e \<in> set dir. \<forall>idx. chunkIndex e = Some idx \<longrightarrow> (\<exists>c < length (chunks s). fst e = chunkFile c)) \<and>
     (\<forall>c < length (chunks s). \<not> dirty s ! c \<longrightarrow>
        readChunkFile dec inflate dir (chunkFile c) = Inr (chunkLive s c))"

lemma disk_ok_new: "disk_ok dec inflate [] newChunkStore"
  by (simp add: disk_ok_def newChunkStore_def)

lemma length_chunks_mono: "length (chunks s) \<le> length (chunks (runOp s op))"
proof (cases op)
  case (OpDelete pred)
  have same: "chunks (fst (deleteSlot pred c st k)) = chunks (fst st)" for c st k
    by (simp add: deleteSlot_def Let_def)
  have block: "chunks (fst (foldl (deleteSlot pred c) st ks)) = chunks (fst st)" for c st ks
    by (induction ks arbitrary: st) (simp_all add: same)
  have "chunks (fst (foldl (deleteBlock pred) st cs)) = chunks (fst st)" for st cs
    by (induction cs arbitrary: st) (simp_all add: deleteBlock_def block)
  then show ?thesis by (simp add: OpDelete runOp_def DeleteFunc_def)
qed (simp_all add: runOp_def Append_def growStore_def Let_def writeItem_def)

lemma disk_ok_runOp:
  assumes "store_wf s" and "disk_ok dec inflate dir s"
  shows "disk_ok dec inflate dir (runOp s op)"
  unfolding disk_ok_def
proof (intro conjI ballI allI impI)
  show "distinct (map fst dir)" using assms(2) by (simp add: disk_ok_def)
next
  fix e idx
  assume "e \<in> set dir" "chunkIndex e = Some idx"
  then obtain c where "c < length (chunks s)" "fst e = chunkFile c" using assms(2) by (auto simp: disk_ok_def)
  then show "\<exists>c < length (chunks (runOp s op)). fst e = chunkFile c"
    using length_chunks_mono[of s op] by (intro exI[of _ c]) simp
next
  fix c assume "c < length (chunks (runOp s op))" "\<not> dirty (runOp s op) ! c"
  then show "readChunkFile dec inflate dir (chunkFile c) = Inr (chunkLive (runOp s op) c)"
    using runOp_clean[OF assms(1)] assms(2) by (auto simp: disk_ok_def)
qed

lemma map_of_update_entry:
  "distinct (map fst dir) \<Longrightarrow> map_of (AList.update k v dir) x = (if x = k then Some v else map_of dir x)"
  by (simp add: update_conv')

lemma map_of_delete_entry: "map_of (AList.delete k dir) x = (if x = k then None else map_of dir x)"
  by (simp add: delete_conv')

lemma distinct_entries:
  "distinct (map fst dir) \<Longrightarrow> distinct (map fst (AList.update k v dir))"
  "distinct (map fst dir) \<Longrightarrow> distinct (map fst (AList.delete k dir))"
  by (rule distinct_update, assumption) (rule distinct_delete, assumption)

lemma entries_iff: "distinct (map fst dir) \<Longrightarrow> e \<in> set dir \<longleftrightarrow> map_of dir (fst e) = Some (snd e)"
  by (cases e) simp

text \<open>
  One chunk write, whatever its outcome: it touches its own two names only, the final name
  keeps its old entry unless the write succeeded, and then it holds the whole new contents.
\<close>

lemma saveChunk_effect:
  assumes d: "distinct (map fst dir)" and r: "saveChunk encodeChunk out s dir ci = (dir', res)"
  shows "distinct (map fst dir')"
    and "x \<noteq> chunkFile ci \<Longrightarrow> x \<noteq> tmpFile ci \<Longrightarrow> map_of dir' x = map_of dir x"
    and "isl res \<Longrightarrow> map_of dir' (chunkFile ci) = map_of dir (chunkFile ci)"
    and "res = Inr u \<Longrightarrow> \<exists>content. encodeChunk (chunkLive s ci) = Inr content \<and>
          map_of dir' (chunkFile ci) = Some (File content)"
proof -
  note D = distinct_entries[OF d] distinct_entries(1)[OF distinct_entries(2)[OF d]]
    map_of_update_entry[OF d] map_of_update_entry[OF distinct_entries(2)[OF d]] map_of_delete_entry
    tmpFile_neq tmpFile_neq[symmetric]
  show "distinct (map fst dir')" "isl res \<Longrightarrow> map_of dir' (chunkFile ci) = map_of dir (chunkFile ci)"
    "x \<noteq> chunkFile ci \<Longrightarrow> x \<noteq> tmpFile ci \<Longrightarrow> map_of dir' x = map_of dir x"
    "res = Inr u \<Longrightarrow> \<exists>content. encodeChunk (chunkLive s ci) = Inr content \<and>
          map_of dir' (chunkFile ci) = Some (File content)"
    using r d D by (auto simp: saveChunk_def Let_def split: if_splits sum.splits save_outcome.splits)
qed

lemma saveChunk_names:
  assumes d: "distinct (map fst dir)" and r: "saveChunk encodeChunk out s dir ci = (dir', res)"
    and e: "e \<in> set dir'" "chunkIndex e = Some idx"
  shows "e \<in> set dir \<or> fst e = chunkFile ci"
proof (rule disjCI)
  assume n: "fst e \<noteq> chunkFile ci"
  note E = saveChunk_effect[OF d r]
  have "fst e \<noteq> tmpFile ci" using e(2) tmpFile_not_chunk by (metis option.distinct(1) prod.collapse)
  then have "map_of dir' (fst e) = map_of dir (fst e)" using E(2) n by simp
  then show "e \<in> set dir" using e(1) entries_iff[OF d] entries_iff[OF E(1)] by simp
qed

text \<open>The loop over the dirty blocks, blocks done so far \<open>done\<close>.\<close>

definition saving ::
  "('a list \<Rightarrow> bytes result) \<Rightarrow> 'a chunkStore \<Rightarrow> directory \<Rightarrow> nat list \<Rightarrow> directory \<Rightarrow> unit result \<Rightarrow> bool" where
  "saving encodeChunk s dir idxs dir' res \<longleftrightarrow>
     distinct (map fst dir') \<and>
     (\<forall>x. (\<forall>c \<in> set idxs. x \<noteq> chunkFile c \<and> x \<noteq> tmpFile c) \<longrightarrow> map_of dir' x = map_of dir x) \<and>
     (\<forall>e \<in> set dir'. chunkIndex e \<noteq> None \<longrightarrow> e \<in> set dir \<or> (\<exists>c \<in> set idxs. fst e = chunkFile c)) \<and>
     (\<forall>c \<in> set idxs. map_of dir' (chunkFile c) = map_of dir (chunkFile c) \<or>
        (\<exists>content. encodeChunk (chunkLive s c) = Inr content \<and> map_of dir' (chunkFile c) = Some (File content))) \<and>
     (\<not> isl res \<longrightarrow> (\<forall>c \<in> set idxs. \<exists>content. encodeChunk (chunkLive s c) = Inr content \<and>
        map_of dir' (chunkFile c) = Some (File content)))"

lemma saving_step:
  assumes S: "saving encodeChunk s dir idxs d1 res1" and d: "distinct (map fst dir)" and ci: "ci \<notin> set idxs"
    and r: "saveChunk encodeChunk out s d1 ci = (d2, res2)"
  shows "saving encodeChunk s dir (idxs @ [ci]) d2 (case res1 of Inl e \<Rightarrow> Inl e | Inr u \<Rightarrow> res2)"
proof -
  have d1: "distinct (map fst d1)" using S by (simp add: saving_def)
  note E = saveChunk_effect[OF d1 r]
  have old: "map_of d2 (chunkFile c) = map_of d1 (chunkFile c)" if "c \<in> set idxs" for c
    using E(2)[of "chunkFile c"] that ci by (metis chunkFile_inject tmpFile_neq)
  have mine: "map_of d1 (chunkFile ci) = map_of dir (chunkFile ci)"
  proof -
    have "\<forall>c \<in> set idxs. chunkFile ci \<noteq> chunkFile c \<and> chunkFile ci \<noteq> tmpFile c"
      using ci tmpFile_neq by (metis chunkFile_inject)
    then show ?thesis using S unfolding saving_def by blast
  qed
  have names: "e \<in> set dir \<or> (\<exists>c \<in> set (idxs @ [ci]). fst e = chunkFile c)"
    if "e \<in> set d2" "chunkIndex e \<noteq> None" for e
    using saveChunk_names[OF d1 r that(1)] that(2) S by (fastforce simp: saving_def)
  have new: "map_of d2 (chunkFile ci) = map_of dir (chunkFile ci) \<or>
      (\<exists>content. encodeChunk (chunkLive s ci) = Inr content \<and> map_of d2 (chunkFile ci) = Some (File content))"
    using E(3,4) mine by (cases res2) auto
  have saved: "\<exists>content. encodeChunk (chunkLive s c) = Inr content \<and> map_of d2 (chunkFile c) = Some (File content)"
    if good: "\<not> isl (case res1 of Inl e \<Rightarrow> Inl e | Inr u \<Rightarrow> res2)" and c: "c \<in> set (idxs @ [ci])" for c
  proof -
    obtain u v where "res1 = Inr u" "res2 = Inr v" using good by (cases res1; cases res2) auto
    then show ?thesis using c old E(4) S by (auto simp: saving_def)
  qed
  show ?thesis
    unfolding saving_def
  proof (intro conjI)
    show "\<forall>x. (\<forall>c \<in> set (idxs @ [ci]). x \<noteq> chunkFile c \<and> x \<noteq> tmpFile c) \<longrightarrow> map_of d2 x = map_of dir x"
      using E(2) S by (auto simp: saving_def)
    show "\<forall>c \<in> set (idxs @ [ci]). map_of d2 (chunkFile c) = map_of dir (chunkFile c) \<or>
        (\<exists>content. encodeChunk (chunkLive s c) = Inr content \<and> map_of d2 (chunkFile c) = Some (File content))"
      using new old S by (auto simp: saving_def)
  qed (use E(1) names saved in auto)
qed

lemma fold_saveChunk:
  assumes d: "distinct (map fst dir)" and "distinct idxs"
    and "foldl (saveStep encodeChunk out s) (dir, Inr ()) idxs = (dir', res)"
  shows "saving encodeChunk s dir idxs dir' res"
  using assms(2,3)
proof (induction idxs arbitrary: dir' res rule: rev_induct)
  case Nil
  then show ?case using d by (auto simp: saving_def)
next
  case (snoc ci idxs)
  obtain d1 res1 where one: "foldl (saveStep encodeChunk out s) (dir, Inr ()) idxs = (d1, res1)"
    by fastforce
  have S: "saving encodeChunk s dir idxs d1 res1" using snoc.IH[OF _ one] snoc.prems(1) by simp
  have "saveStep encodeChunk out s (d1, res1) ci = (dir', res)" using snoc.prems(2) one by simp
  then obtain res2 where two: "saveChunk encodeChunk (out ci) s d1 ci = (dir', res2)"
    and "res = (case res1 of Inl e \<Rightarrow> Inl e | Inr u \<Rightarrow> res2)"
    by (cases "saveChunk encodeChunk (out ci) s d1 ci") (auto simp: saveStep_def Let_def split: sum.splits)
  then show ?case using saving_step[OF S d _ two] snoc.prems(1) by simp
qed

lemma dirtyIndices_conv: "c \<in> set (dirtyIndices s) \<longleftrightarrow> c < length (dirty s) \<and> dirty s ! c" "distinct (dirtyIndices s)"
  by (auto simp: dirtyIndices_def)

lemma dirty_clearDirty:
  "length (dirty (clearDirty s idxs)) = length (dirty s)"
  "c < length (dirty s) \<Longrightarrow> dirty (clearDirty s idxs) ! c \<longleftrightarrow> dirty s ! c \<and> c \<notin> set idxs"
proof -
  have gen: "length (foldl (\<lambda>d i. if i < length d then d[i := False] else d) ds idxs) = length ds \<and>
      (c < length ds \<longrightarrow> foldl (\<lambda>d i. if i < length d then d[i := False] else d) ds idxs ! c \<longleftrightarrow> ds ! c \<and> c \<notin> set idxs)" for ds
    by (induction idxs arbitrary: ds) (auto simp: nth_list_update)
  show "length (dirty (clearDirty s idxs)) = length (dirty s)"
    "c < length (dirty s) \<Longrightarrow> dirty (clearDirty s idxs) ! c \<longleftrightarrow> dirty s ! c \<and> c \<notin> set idxs"
    using gen[of "dirty s"] by (auto simp: clearDirty_def)
qed

lemma clearDirty_simps [simp]:
  "chunks (clearDirty s idxs) = chunks s" "tomb (clearDirty s idxs) = tomb s"
  "store_n (clearDirty s idxs) = store_n s" "dead (clearDirty s idxs) = dead s"
  "chunkLive (clearDirty s idxs) = chunkLive s"
  by (simp_all add: clearDirty_def chunkLive_def fun_eq_iff)

lemma store_wf_clearDirty: "store_wf (clearDirty s idxs) = store_wf s"
  by (simp add: store_wf_def dirty_clearDirty(1))

text \<open>The chunk codec gives back these elements.\<close>

definition chunk_codec ::
  "('a list \<Rightarrow> bytes result) \<Rightarrow> (bytes \<Rightarrow> 'r list result) \<Rightarrow> ('r \<Rightarrow> 'a result) \<Rightarrow> 'a list \<Rightarrow> bool" where
  "chunk_codec encodeChunk dec inflate live \<longleftrightarrow>
     (case encodeChunk live of Inl e \<Rightarrow> True | Inr content \<Rightarrow> readChunk dec inflate content = Inr live)"

lemma save_disk_ok:
  assumes wf: "store_wf s" and ok: "disk_ok dec inflate dir s"
    and codec: "\<forall>c < length (chunks s). chunk_codec encodeChunk dec inflate (chunkLive s c)"
    and r: "save encodeChunk out s dir = (s', dir', res)"
  shows "store_wf s'" "chunks s' = chunks s" "tomb s' = tomb s" "disk_ok dec inflate dir' s'"
    and "res = Inr u \<Longrightarrow> c < length (chunks s') \<Longrightarrow> \<not> dirty s' ! c"
proof -
  let ?idxs = "dirtyIndices s"
  obtain d1 res1 where fold: "foldl (saveStep encodeChunk out s) (dir, Inr ()) ?idxs = (d1, res1)"
    by fastforce
  have len: "length (dirty s) = length (chunks s)" using wf by auto
  have dist: "distinct (map fst dir)" using ok by (simp add: disk_ok_def)
  have S: "saving encodeChunk s dir ?idxs d1 res1" by (rule fold_saveChunk[OF dist dirtyIndices_conv(2) fold])
  have s': "s' = s \<or> s' = clearDirty s ?idxs"
    using r fold by (auto simp: save_def Let_def split: if_splits sum.splits)
  then show "store_wf s'" "chunks s' = chunks s" "tomb s' = tomb s" using wf by (auto simp: store_wf_clearDirty)
  have clean: "\<not> dirty s' ! c" if "res = Inr u" "c < length (chunks s)" for u c
    using r fold that len by (auto simp: save_def Let_def dirty_clearDirty dirtyIndices_conv filter_empty_conv dirtyIndices_def split: if_splits sum.splits)
  then show "res = Inr u \<Longrightarrow> c < length (chunks s') \<Longrightarrow> \<not> dirty s' ! c"
    using \<open>chunks s' = chunks s\<close> by simp
  have live: "chunkLive s' = chunkLive s" using s' by auto
  have onDisk: "readChunkFile dec inflate dir' (chunkFile c) = Inr (chunkLive s c)"
    if c: "c < length (chunks s)" and cl: "\<not> dirty s' ! c" for c
  proof (cases "dirty s ! c")
    case False
    then have "c \<notin> set ?idxs" by (simp add: dirtyIndices_conv)
    then have "map_of d1 (chunkFile c) = map_of dir (chunkFile c)"
      using S tmpFile_neq unfolding saving_def by (metis chunkFile_inject)
    then have "map_of dir' (chunkFile c) = map_of dir (chunkFile c)"
      using r fold by (auto simp: save_def Let_def split: if_splits sum.splits)
    then show ?thesis using ok c False by (simp add: disk_ok_def readChunkFile_def)
  next
    case True
    then have mem: "c \<in> set ?idxs" using c len by (simp add: dirtyIndices_conv)
    then have "s' \<noteq> s" using cl True by auto
    then have "dir' = d1" "\<not> isl res1"
      using r fold by (auto simp: save_def Let_def split: if_splits sum.splits)
    then obtain content where "encodeChunk (chunkLive s c) = Inr content" "map_of dir' (chunkFile c) = Some (File content)"
      using S mem unfolding saving_def by blast
    then show ?thesis using codec[rule_format, OF c] by (simp add: chunk_codec_def readChunkFile_def)
  qed
  have dir': "dir' = dir \<or> dir' = d1"
    using r fold by (auto simp: save_def Let_def split: if_splits sum.splits)
  have names: "\<exists>c < length (chunks s). fst e = chunkFile c" if e: "e \<in> set dir'" "chunkIndex e = Some idx" for e idx
  proof -
    have "e \<in> set dir \<or> (\<exists>c \<in> set ?idxs. fst e = chunkFile c)"
      using e dir' S unfolding saving_def by blast
    then show ?thesis using ok e(2) len by (auto simp: disk_ok_def dirtyIndices_conv)
  qed
  have "distinct (map fst dir')" using dir' dist S unfolding saving_def by blast
  then show "disk_ok dec inflate dir' s'"
    using names onDisk \<open>chunks s' = chunks s\<close> live by (auto simp: disk_ok_def)
qed

section \<open>Loading what was saved\<close>

lemma loadChunk_parts:
  assumes wf: "store_wf s" and r: "loadChunk s vals = Inr t"
  shows "store_wf t" "length (chunks t) = Suc (length (chunks s))"
    and "c < length (chunks s) \<Longrightarrow> chunkLive t c = chunkLive s c \<and> dirty t ! c = dirty s ! c"
    and "chunkLive t (length (chunks s)) = vals" "\<not> dirty t ! length (chunks s)"
proof -
  have len: "length (tomb s) = length (chunks s)" "length (dirty s) = length (chunks s)" using wf by auto
  let ?ch = "map (\<lambda>v. \<lparr>item = v, version = 0, chunk = length (chunks s)\<rparr>) vals"
  have t: "t = s\<lparr>chunks := chunks s @ [?ch], tomb := tomb s @ [map (\<lambda>_. False) vals],
      dirty := dirty s @ [False], store_n := store_n s + length vals\<rparr>" and lim: "length vals \<le> chunkLimit"
    using r by (auto simp: loadChunk_def Let_def split: if_splits)
  have no: "filter (\<lambda>b. b) (map (\<lambda>_. False) xs) = []" for xs :: "'b list" by (induction xs) auto
  show "store_wf t"
    using wf lim len no unfolding store_wf_def block_wf_def
    by (auto simp: t nth_append less_Suc_eq)
  show "length (chunks t) = Suc (length (chunks s))" "\<not> dirty t ! length (chunks s)"
    using len by (simp_all add: t nth_append)
  show "c < length (chunks s) \<Longrightarrow> chunkLive t c = chunkLive s c \<and> dirty t ! c = dirty s ! c"
    using len by (simp add: t chunkLive_def nth_append)
  have "map (\<lambda>q. item (fst q)) (filter (\<lambda>q. \<not> snd q) (zip (map (\<lambda>v. \<lparr>item = v, version = 0, chunk = k\<rparr>) xs) (map (\<lambda>_. False) xs))) = xs"
    for xs :: "'a list" and k by (induction xs) auto
  then show "chunkLive t (length (chunks s)) = vals" using len by (simp add: t chunkLive_def nth_append)
qed

lemma load_lists:
  assumes "\<And>vals. vals \<in> set ls \<Longrightarrow> length vals \<le> chunkLimit"
  shows "\<exists>t. fold_result loadChunk ls newChunkStore = Inr t \<and> store_wf t \<and> length (chunks t) = length ls \<and>
    (\<forall>c < length ls. chunkLive t c = ls ! c \<and> \<not> dirty t ! c)"
  using assms
proof (induction ls rule: rev_induct)
  case Nil
  then show ?case by (simp add: newChunkStore_def) (simp add: store_wf_def)
next
  case (snoc vals ls)
  then obtain s where s: "fold_result loadChunk ls newChunkStore = Inr s" "store_wf s" "length (chunks s) = length ls"
    "\<forall>c < length ls. chunkLive s c = ls ! c \<and> \<not> dirty s ! c" by auto
  have "\<exists>t. loadChunk s vals = Inr t" using snoc.prems[of vals] by (simp add: loadChunk_def Let_def)
  then obtain t where t: "loadChunk s vals = Inr t" by blast
  note P = loadChunk_parts[OF s(2) t]
  show ?case
    using P s t by (intro exI[of _ t]) (auto simp: fold_result_append nth_append less_Suc_eq)
qed

lemma sorted_files:
  assumes wf: "store_wf s" and ok: "disk_ok dec inflate dir s"
    and clean: "\<And>c. c < length (chunks s) \<Longrightarrow> \<not> dirty s ! c" and small: "length (chunks s) \<le> 2 ^ 63"
  shows "sortedChunkFiles dir = map chunkFile [0 ..< length (chunks s)]"
proof -
  let ?n = "length (chunks s)"
  define L where "L = List.map_filter (\<lambda>e. map_option (\<lambda>idx. (idx, fst e)) (chunkIndex e)) dir"
  have dist: "distinct (map fst dir)" using ok by (simp add: disk_ok_def)
  have form: "\<exists>c < ?n. p = (int c, chunkFile c)" if p: "p \<in> set L" for p
  proof -
    obtain e idx where e: "e \<in> set dir" "chunkIndex e = Some idx" "p = (idx, fst e)"
      using p by (auto simp: L_def List.map_filter_def)
    then obtain c where c: "c < ?n" "fst e = chunkFile c" using ok by (auto simp: disk_ok_def)
    obtain bs where "snd e = File bs" using e(2) by (auto simp: chunkIndex_def split: entry.splits)
    then have "e = (chunkFile c, File bs)" using c(2) by (cases e) simp
    then show ?thesis using e c small chunkIndex_chunkFile[of c bs] by auto
  qed
  have mem: "(int c, chunkFile c) \<in> set L" if c: "c < ?n" for c
  proof -
    have "readChunkFile dec inflate dir (chunkFile c) = Inr (chunkLive s c)"
      using ok clean c by (simp add: disk_ok_def)
    then obtain bs where "map_of dir (chunkFile c) = Some (File bs)"
      by (auto simp: readChunkFile_def split: option.splits entry.splits)
    then have "(chunkFile c, File bs) \<in> set dir" by (rule map_of_SomeD)
    then show ?thesis using chunkIndex_chunkFile[of c bs] c small
      by (force simp: L_def List.map_filter_def)
  qed
  have "map snd L = map fst (filter (\<lambda>e. chunkIndex e \<noteq> None) dir)"
    by (auto simp: L_def List.map_filter_def filter_map o_def intro!: map_cong)
  then have "distinct (map snd L)" using dist by (simp add: distinct_map_filter)
  then have "distinct L" by (simp add: distinct_map)
  moreover have "inj_on fst (set L)"
    using form by (auto simp: inj_on_def) (metis fst_conv nat_int snd_conv)+
  ultimately have "distinct (map fst (sort_key fst L))" by (simp add: distinct_map)
  moreover have "set (map fst (sort_key fst L)) = set (map int [0 ..< ?n])"
    using form mem by (force simp: image_iff)
  moreover have "sorted (map int [0 ..< ?n])" by (simp add: sorted_map sorted_wrt_upt)
  ultimately have fsts: "map fst (sort_key fst L) = map int [0 ..< ?n]"
    by (intro sorted_distinct_set_unique) (simp_all add: distinct_map)
  have "map snd (sort_key fst L) = map (\<lambda>p. chunkFile (nat (fst p))) (sort_key fst L)"
    using form by (intro map_cong) (auto dest!: form)
  also have "\<dots> = map (\<lambda>i. chunkFile (nat i)) (map fst (sort_key fst L))" by simp
  also have "\<dots> = map chunkFile [0 ..< ?n]" unfolding fsts by simp
  finally show ?thesis by (simp add: sortedChunkFiles_def L_def)
qed

lemma load_saved:
  assumes wf: "store_wf s" and ok: "disk_ok dec inflate dir s"
    and clean: "\<And>c. c < length (chunks s) \<Longrightarrow> \<not> dirty s ! c" and small: "length (chunks s) \<le> 2 ^ 63"
  shows "\<exists>t. loadChunks dec inflate dir = Inr t \<and> store_wf t \<and> disk_ok dec inflate dir t \<and>
    length (chunks t) = length (chunks s) \<and> (\<forall>c < length (chunks s). chunkLive t c = chunkLive s c \<and> \<not> dirty t ! c) \<and>
    StorePointers t = StorePointers s"
proof -
  let ?n = "length (chunks s)" and ?ls = "map (chunkLive s) [0 ..< length (chunks s)]"
  have read: "readChunkFile dec inflate dir (chunkFile c) = Inr (chunkLive s c)" if "c < ?n" for c
    using ok clean that by (simp add: disk_ok_def)
  have "fold_result (\<lambda>results p. case readChunkFile dec inflate dir p of
           Inl e \<Rightarrow> Inl e | Inr vals \<Rightarrow> Inr (results @ [vals])) (map chunkFile cs) acc
      = Inr (acc @ map (chunkLive s) cs)" if "set cs \<subseteq> {..< ?n}" for cs acc
    using that by (induction cs arbitrary: acc) (auto simp: read)
  then have files: "fold_result (\<lambda>results p. case readChunkFile dec inflate dir p of
           Inl e \<Rightarrow> Inl e | Inr vals \<Rightarrow> Inr (results @ [vals])) (sortedChunkFiles dir) [] = Inr ?ls"
    by (simp add: sorted_files[OF assms] atLeast_upt)
  have "length vals \<le> chunkLimit" if v: "vals \<in> set ?ls" for vals
  proof -
    obtain c where c: "c < ?n" "vals = chunkLive s c" using v by auto
    have "length (chunkLive s c) \<le> length (chunks s ! c)"
      using wf c by (auto simp: chunkLive_def intro: order_trans[OF length_filter_le])
    then show ?thesis using wf c by (auto intro: order_trans)
  qed
  from load_lists[of ?ls, OF this] obtain t where t: "fold_result loadChunk ?ls newChunkStore = Inr t" "store_wf t"
    "length (chunks t) = ?n" "\<forall>c < ?n. chunkLive t c = chunkLive s c \<and> \<not> dirty t ! c" by auto
  have "StorePointers t = StorePointers s"
    using t(3,4) by (auto simp: StorePointers_conv[OF wf] StorePointers_conv[OF t(2)] intro!: arg_cong[where f = concat])
  moreover have "disk_ok dec inflate dir t" using ok t(3,4) clean by (auto simp: disk_ok_def)
  ultimately show ?thesis using t files by (simp add: loadChunks_def)
qed

section \<open>Properties\<close>

lemma recover_no_logs: "recoverStore gid decR inflate n s (truncateWAL w) (truncateWAL tx) = Inr s"
  by (simp add: recoverStore_def replayWAL_def replayTransactionWAL_def truncateWAL_def applyRecoveredRows_def)

text \<open>
  C3. Saving and loading are inverse: if the files of the clean blocks match their blocks and gob
  gives back the rows it was given, a save of any subset of dirty blocks that reports success leaves
  a directory from which \<open>loadStore\<close>, with both logs truncated, rebuilds a well-formed store with
  the same blocks: each block holds the same live elements in the same order and is clean, and its
  file matches it again.
\<close>

theorem save_then_load:
  assumes "store_wf s" and "disk_ok dec inflate dir s"
    and "\<forall>c < length (chunks s). chunk_codec encodeChunk dec inflate (chunkLive s c)"
    and "save encodeChunk out s dir = (s', dir', Inr u)" and "length (chunks s) \<le> 2 ^ 63"
  shows "\<exists>t. loadStore gid dec decR inflate n dir' (truncateWAL w) (truncateWAL tx) = Inr t \<and> store_wf t \<and> disk_ok dec inflate dir' t \<and>
    length (chunks t) = length (chunks s) \<and> (\<forall>c < length (chunks s). chunkLive t c = chunkLive s c \<and> \<not> dirty t ! c) \<and>
    StorePointers t = StorePointers s"
proof -
  note S = save_disk_ok[OF assms(1-4)]
  have "\<not> dirty s' ! c" if "c < length (chunks s')" for c using S(5)[OF refl that] .
  from load_saved[OF S(1,4) this] assms(5) S(2)
  obtain t where t: "loadChunks dec inflate dir' = Inr t" "store_wf t" "disk_ok dec inflate dir' t"
    "length (chunks t) = length (chunks s)" "\<forall>c < length (chunks s'). chunkLive t c = chunkLive s' c \<and> \<not> dirty t ! c"
    "StorePointers t = StorePointers s'" by auto
  have "StorePointers s' = StorePointers s" "chunkLive s' c = chunkLive s c" for c
    using S(2,3) by (simp_all add: StorePointers_def rangeResources_def slotAt_def chunkLive_def)
  then show ?thesis using t S(2) by (simp add: loadStore_def recover_no_logs)
qed

text \<open>
  C4. Dirty tracking is complete: any operations and any saves, with any errors or crashes
  of single chunk writes, keep the file of every block that is not dirty equal to the block.
\<close>

theorem clean_blocks_are_on_disk:
  assumes "store_wf s" and "disk_ok dec inflate dir s"
    and "\<forall>live. chunk_codec encodeChunk dec inflate live"
    and "save encodeChunk out (runOps s ops) dir = (s', dir', res)"
  shows "store_wf s' \<and> disk_ok dec inflate dir' s' \<and> StorePointers s' = StorePointers (runOps s ops)"
proof -
  have "disk_ok dec inflate dir (runOps s ops) \<and> store_wf (runOps s ops)"
    using assms(1,2) by (induction ops arbitrary: s) (auto intro: disk_ok_runOp runOp_wf)
  then have wf: "store_wf (runOps s ops)" and ok: "disk_ok dec inflate dir (runOps s ops)" by auto
  have "\<forall>c < length (chunks (runOps s ops)). chunk_codec encodeChunk dec inflate (chunkLive (runOps s ops) c)"
    using assms(3) by simp
  note S = save_disk_ok(1-4)[OF wf ok this assms(4)]
  have "StorePointers s' = StorePointers (runOps s ops)"
    using S(2,3) by (simp add: StorePointers_def rangeResources_def slotAt_def)
  then show ?thesis using S by simp
qed

text \<open>
  One chunk write is atomic: whatever goes wrong, and wherever a crash stops it, the
  chunk's file is the old one or the complete new one, and no other chunk's file changes.
\<close>

theorem chunk_write_is_atomic:
  assumes "distinct (map fst dir)" and "saveChunk encodeChunk out s dir ci = (dir', res)"
  shows "(map_of dir' (chunkFile ci) = map_of dir (chunkFile ci) \<or>
      (\<exists>content. encodeChunk (chunkLive s ci) = Inr content \<and> map_of dir' (chunkFile ci) = Some (File content))) \<and>
    (\<forall>c. c \<noteq> ci \<longrightarrow> map_of dir' (chunkFile c) = map_of dir (chunkFile c))"
proof -
  note E = saveChunk_effect[OF assms]
  have "map_of dir' (chunkFile c) = map_of dir (chunkFile c)" if "c \<noteq> ci" for c
    using E(2)[of "chunkFile c"] that tmpFile_neq[of ci c] by simp
  then show ?thesis using E(3,4) by (cases res) auto
qed

text \<open>The gob codec of the examples: one byte per row, which is the element's name.\<close>

definition byteEncode :: "byte list \<Rightarrow> bytes result" where
  "byteEncode rows = Inr (0 # rows)"

definition byteDecode :: "bytes \<Rightarrow> byte list result" where
  "byteDecode content = Inr (tl content)"

lemma byte_codec: "chunk_codec byteEncode byteDecode Inr live"
proof -
  have "fold_result (\<lambda>out row. Inr (out @ [row])) rows acc = Inr (acc @ rows)" for rows acc :: bytes
    by (induction rows arbitrary: acc) auto
  then show ?thesis
    by (simp add: chunk_codec_def byteEncode_def byteDecode_def readChunk_def decodeSlice_def inflateSlice_def)
qed

definition int_of_byte :: "byte \<Rightarrow> int" where "int_of_byte b = uint b"

definition noRow :: "bytes \<Rightarrow> byte result" where "noRow b = Inl ErrConflict"

theorem save_then_load_witness:
  "\<exists>s' dir' t. save byteEncode (\<lambda>_. Saved) (runOps newChunkStore [OpAppend 7, OpAppend 8, OpDelete (\<lambda>x. x = 7)]) [] = (s', dir', Inr ()) \<and>
     loadStore int_of_byte byteDecode noRow Inr [] dir' (truncateWAL None) (truncateWAL (Some [1])) = Inr t \<and> StorePointers t = [8 :: byte] \<and> chunkLive t 0 = [8]"
proof -
  let ?s = "runOps newChunkStore [OpAppend (7 :: byte), OpAppend 8, OpDelete (\<lambda>x. x = 7)]"
  have wf: "store_wf ?s" by (rule runOps_wf) simp
  have e: "?s = \<lparr>chunks = [[\<lparr>item = 7, version = 0, chunk = 0\<rparr>, \<lparr>item = 8, version = 0, chunk = 0\<rparr>]],
      tomb = [[True, False]], store_n = 2, dead = 1, dirty = [True]\<rparr>"
    by (simp add: runOp_def Append_def growStore_def newChunkStore_def Push_def chunkLimit_def markDirty_def Let_def
        DeleteFunc_def deleteBlock_def deleteSlot_def upt_rec)
  have ok: "disk_ok byteDecode Inr [] ?s" unfolding e by (simp add: disk_ok_def)
  obtain s' dir' where sv: "save byteEncode (\<lambda>_. Saved) ?s [] = (s', dir', Inr ())"
    unfolding e by (simp add: save_def dirtyIndices_def saveStep_def saveChunk_def byteEncode_def Let_def)
  have "\<exists>t. loadStore int_of_byte byteDecode noRow Inr [] dir' (truncateWAL None) (truncateWAL (Some [1])) = Inr t \<and> store_wf t \<and> disk_ok byteDecode Inr dir' t \<and>
      length (chunks t) = length (chunks ?s) \<and> (\<forall>c < length (chunks ?s). chunkLive t c = chunkLive ?s c \<and> \<not> dirty t ! c) \<and>
      StorePointers t = StorePointers ?s"
    by (rule save_then_load[OF wf ok _ sv]) (simp only: byte_codec simp_thms, simp only: e, simp)
  then obtain t where t: "loadStore int_of_byte byteDecode noRow Inr [] dir' (truncateWAL None) (truncateWAL (Some [1])) = Inr t" "StorePointers t = StorePointers ?s"
    "\<forall>c < length (chunks ?s). chunkLive t c = chunkLive ?s c" by blast
  have "StorePointers ?s = [8]" "chunkLive ?s 0 = [8]" "0 < length (chunks ?s)"
    unfolding e by (simp_all add: StorePointers_def rangeResources_def slotAt_def chunkLive_def)
  then show ?thesis using t(3) by (intro exI conjI) (rule sv, rule t(1), simp only: t(2), simp)
qed

theorem clean_blocks_are_on_disk_witness:
  "\<exists>s' dir' res. save byteEncode (\<lambda>_. Crashed 1) (runOps newChunkStore [OpAppend 7]) [] = (s', dir', res) \<and>
     disk_ok byteDecode Inr dir' s'"
proof -
  obtain s' dir' res where sv: "save byteEncode (\<lambda>_. Crashed 1) (runOps newChunkStore [OpAppend 7]) [] = (s', dir', res)"
    using prod_cases3 by blast
  show ?thesis
    using clean_blocks_are_on_disk[OF store_wf_new disk_ok_new _ sv] byte_codec sv by blast
qed

theorem chunk_write_is_atomic_witness:
  "\<exists>dir' res. saveChunk byteEncode (Crashed 1) (runOps newChunkStore [OpAppend 7]) [(chunkFile 0, File [9])] 0 = (dir', res) \<and>
     (map_of dir' (chunkFile 0) = Some (File [9]) \<or>
      (\<exists>content. byteEncode (chunkLive (runOps newChunkStore [OpAppend 7]) 0) = Inr content \<and>
         map_of dir' (chunkFile 0) = Some (File content)))"
proof -
  obtain dir' res where r: "saveChunk byteEncode (Crashed 1) (runOps newChunkStore [OpAppend 7]) [(chunkFile 0, File [9])] 0 = (dir', res)"
    by fastforce
  have d: "distinct (map fst [(chunkFile 0, File [9])])" by simp
  from chunk_write_is_atomic[OF d r] r show ?thesis by auto
qed

section \<open>A gap in the chunk files\<close>

lemma sorted_files_gap:
  "sortedChunkFiles [(tmpFile 0, File junk), (chunkFile 1, File content)] = [chunkFile 1]"
proof -
  have "chunkIndex (chunkFile 1, File content) = Some 1" using chunkIndex_chunkFile[of 1 content] by simp
  then show ?thesis by (simp add: sortedChunkFiles_def List.map_filter_def tmpFile_not_chunk)
qed

lemma load_gap:
  assumes "readChunk dec inflate content = Inr vals" and "length vals \<le> chunkLimit"
  shows "loadChunks dec inflate [(tmpFile 0, File junk), (chunkFile 1, File content)] =
    Inr \<lparr>chunks = [map (\<lambda>v. \<lparr>item = v, version = 0, chunk = 0\<rparr>) vals], tomb = [map (\<lambda>_. False) vals],
         store_n = length vals, dead = 0, dirty = [False]\<rparr>"
proof -
  have "readChunkFile dec inflate [(tmpFile 0, File junk), (chunkFile 1, File content)] (chunkFile 1) = Inr vals"
    using assms(1) tmpFile_neq[of 0 1] by (simp add: readChunkFile_def)
  then show ?thesis
    using assms(2) by (simp add: loadChunks_def sorted_files_gap[unfolded One_nat_def] loadChunk_def newChunkStore_def Let_def)
qed

text \<open>
  C13. What a crash between the parallel chunk writes can cost: when the file of block 1 was
  renamed into place and the one of block 0 was not, the next load takes the only file for
  block 0. That block is clean, so if it is full, a later insert goes to a new block 1, whose
  save overwrites the very file the clean block came from: its rows are gone on the next load.
\<close>

theorem gap_in_chunk_files_loses_rows:
  assumes "dirtyIndices s0 = [0, 1]"
    and "encodeChunk (chunkLive s0 0) = Inr content0" and "encodeChunk (chunkLive s0 1) = Inr content1"
    and "readChunk dec inflate content1 = Inr (chunkLive s0 1)" and "length (chunkLive s0 1) = chunkLimit"
    and "encodeChunk [v] = Inr content2" and "readChunk dec inflate content2 = Inr [v]"
    and "save encodeChunk (\<lambda>c. if c = 0 then Crashed k else Saved) s0 [] = (s1, dir1, r1)"
    and "loadChunks dec inflate dir1 = Inr s"
    and "save encodeChunk (\<lambda>_. Saved) (fst (Append s v)) dir1 = (s2, dir2, r2)"
  shows "StorePointers s = chunkLive s0 1 \<and> r2 = Inr () \<and>
    (\<exists>t. loadChunks dec inflate dir2 = Inr t \<and> StorePointers t = [v])"
proof -
  let ?vals = "chunkLive s0 1"
  let ?slots = "map (\<lambda>v. \<lparr>item = v, version = 0, chunk = 0\<rparr>) ?vals"
  have dir1: "dir1 = [(tmpFile 0, File (take k content0)), (chunkFile 1, File content1)]"
    using assms(1-3,8) tmpFile_neq[of 0 1] tmpFile_neq[of 0 0]
    by (auto simp: save_def saveStep_def saveChunk_def Let_def tmpFile_def)
  have s: "s = \<lparr>chunks = [?slots], tomb = [map (\<lambda>_. False) ?vals], store_n = length ?vals, dead = 0, dirty = [False]\<rparr>"
    using assms(9) load_gap[OF assms(4)] assms(5) by (simp add: dir1)
  have wf: "store_wf s"
    unfolding s using assms(5) by (auto simp: store_wf_def block_wf_def filter_empty_conv)
  have live: "chunkLive s 0 = ?vals"
    unfolding s chunkLive_def by (simp add: zip_map1 zip_map2 filter_map o_def zip_same_conv_map)
  then have sp: "StorePointers s = ?vals" using StorePointers_conv[OF wf] by (simp add: s)
  have ap: "fst (Append s v) = \<lparr>chunks = [?slots, [\<lparr>item = v, version = 0, chunk = 1\<rparr>]],
      tomb = [map (\<lambda>_. False) ?vals, [False]], store_n = Suc (length ?vals), dead = 0, dirty = [False, True]\<rparr>"
    using assms(5) by (simp add: s Append_def growStore_def Push_def markDirty_def Let_def chunkLimit_def)
  have "dir2 = [(tmpFile 0, File (take k content0)), (chunkFile 1, File content2)] \<and> r2 = Inr ()"
    using assms(6,10) tmpFile_neq[of 0 1] unfolding ap
    by (auto simp: save_def saveStep_def saveChunk_def Let_def tmpFile_def dirtyIndices_def dir1 chunkLive_def)
  moreover have "loadChunks dec inflate [(tmpFile 0, File (take k content0)), (chunkFile 1, File content2)] =
      Inr \<lparr>chunks = [[\<lparr>item = v, version = 0, chunk = 0\<rparr>]], tomb = [[False]], store_n = 1, dead = 0, dirty = [False]\<rparr>"
    using load_gap[OF assms(7)] by (simp add: chunkLimit_def)
  ultimately show ?thesis
    using sp by (auto simp: StorePointers_def rangeResources_def slotAt_def)
qed

theorem gap_in_chunk_files_loses_rows_witness:
  "\<exists>s0 s1 dir1 r1 s s2 dir2 r2 t.
     save byteEncode (\<lambda>c. if c = 0 then Crashed 3 else Saved) s0 [] = (s1, dir1, r1) \<and>
     loadChunks byteDecode Inr dir1 = Inr s \<and> StorePointers s = replicate 512 (7 :: byte) \<and>
     save byteEncode (\<lambda>_. Saved) (fst (Append s 9)) dir1 = (s2, dir2, r2) \<and>
     loadChunks byteDecode Inr dir2 = Inr t \<and> StorePointers t = [9]"
proof -
  define s0 where "s0 = \<lparr>chunks = [replicate 512 \<lparr>item = 7 :: byte, version = 0, chunk = 0\<rparr>, replicate 512 \<lparr>item = 7, version = 0, chunk = 1\<rparr>],
      tomb = [replicate 512 False, replicate 512 False], store_n = 1024, dead = 0, dirty = [True, True]\<rparr>"
  have d: "dirtyIndices s0 = [0, 1]" by (simp add: dirtyIndices_def s0_def)
  have live: "chunkLive s0 0 = replicate 512 7" "chunkLive s0 1 = replicate 512 7"
    by (simp_all add: chunkLive_def s0_def)
  have rd: "readChunk byteDecode Inr (0 # vals) = Inr vals" for vals
    using byte_codec[of vals] by (simp add: chunk_codec_def byteEncode_def)
  obtain s1 dir1 r1 where c: "save byteEncode (\<lambda>c. if c = 0 then Crashed 3 else Saved) s0 [] = (s1, dir1, r1)"
    using prod_cases3 by blast
  have "dir1 = [(tmpFile 0, File (take 3 (0 # replicate 512 7))), (chunkFile 1, File (0 # replicate 512 7))]"
    using c d live tmpFile_neq[of 0 1] tmpFile_neq[of 0 0]
    by (auto simp: save_def saveStep_def saveChunk_def Let_def tmpFile_def byteEncode_def)
  then have "\<exists>s. loadChunks byteDecode Inr dir1 = Inr s"
    using load_gap[of byteDecode Inr "0 # replicate 512 7" "replicate 512 7"] rd by (simp add: chunkLimit_def)
  then obtain s where l: "loadChunks byteDecode Inr dir1 = Inr s" by blast
  obtain s2 dir2 r2 where sv: "save byteEncode (\<lambda>_. Saved) (fst (Append s 9)) dir1 = (s2, dir2, r2)"
    using prod_cases3 by blast
  have "StorePointers s = chunkLive s0 1 \<and> r2 = Inr () \<and>
    (\<exists>t. loadChunks byteDecode Inr dir2 = Inr t \<and> StorePointers t = [9])"
    by (rule gap_in_chunk_files_loses_rows[OF d byteEncode_def byteEncode_def _ _ byteEncode_def _ c l sv])
       (simp_all only: live rd, simp add: chunkLimit_def)
  then show ?thesis using c l sv live(2) by metis
qed

end
