(* ===== verification/Index_Specs.thy ===== *)
theory Index_Specs
  imports Go_Strings Go_Bytes "HOL-Library.Product_Lexorder"
begin

text \<open>
  The first half of \<open>secondary_index.go\<close>: the declared indexes of an entity type, parsed
  from its struct tags, and the order and the byte keys of indexed values. An entity type
  is the list of its fields with the two tags the parser reads.
\<close>

datatype goKind = BoolKind | IntKind | UintKind | StringKind | OtherKind string

text \<open>A Go type as far as indexes look at it: its kind and its identity.\<close>

record goType =
  Kind :: goKind
  typeId :: string

record structField =
  Name :: string
  FieldType :: goType
  keyTag :: string
  indexTag :: string

record secondaryIndexField =
  if_name :: string
  if_index :: nat
  if_typ :: goType
  if_order :: int

record secondaryIndexSpec =
  is_name :: string
  is_fields :: "secondaryIndexField list"
  is_unique :: bool
  lookupField :: string

record secondaryIndexBuilder =
  b_fields :: "(int \<times> secondaryIndexField) list"
  b_unique :: bool

section \<open>Parsing the tags\<close>

definition validateSecondaryIndexField :: "structField \<Rightarrow> unit result" where
  "validateSecondaryIndexField f =
     (case Kind (FieldType f) of OtherKind _ \<Rightarrow> Inl (ErrFmt ''cannot be indexed'') | _ \<Rightarrow> Inr ())"

type_synonym specState = "(string \<times> secondaryIndexBuilder) list \<times> secondaryIndexSpec list"

text \<open>One turn of the loop over the fields: the \<open>key:"unique"\<close> tag, then the \<open>index\<close> tag.\<close>

definition parseKeyTag :: "nat \<Rightarrow> structField \<Rightarrow> specState \<Rightarrow> specState result" where
  "parseKeyTag i f st =
     (if keyTag f = ''unique'' then
        (case validateSecondaryIndexField f of
           Inl e \<Rightarrow> Inl e
         | Inr _ \<Rightarrow>
             Inr (fst st, snd st @
               [\<lparr>is_name = Name f,
                 is_fields = [\<lparr>if_name = Name f, if_index = i, if_typ = FieldType f, if_order = 1\<rparr>],
                 is_unique = True, lookupField = Name f\<rparr>]))
      else Inr st)"

definition parseIndexTag :: "nat \<Rightarrow> structField \<Rightarrow> specState \<Rightarrow> specState result" where
  "parseIndexTag i f st =
     (let raw = indexTag f; parts = Split (CHR '','') raw in
      if raw = [] then Inr st
      else if length parts < 2 \<or> 3 < length parts \<or> parts ! 0 = [] then Inl (ErrFmt ''has invalid index tag'')
      else
        (case Atoi (parts ! 1) of
           None \<Rightarrow> Inl (ErrFmt ''has invalid index position'')
         | Some position \<Rightarrow>
             if position < 1 then Inl (ErrFmt ''has invalid index position'')
             else
               (case validateSecondaryIndexField f of
                  Inl e \<Rightarrow> Inl e
                | Inr _ \<Rightarrow>
                    let unique = (length parts = 3 \<and> parts ! 2 = ''unique'') in
                    if length parts = 3 \<and> \<not> unique then Inl (ErrFmt ''has invalid index option'')
                    else
                      let known = map_of (fst st) (parts ! 0);
                          old = (case known of None \<Rightarrow> [] | Some b \<Rightarrow> b_fields b);
                          field = \<lparr>if_name = Name f, if_index = i, if_typ = FieldType f, if_order = position\<rparr>
                      in if map_of old position \<noteq> None then Inl (ErrFmt ''repeats position'')
                         else if (case known of None \<Rightarrow> False | Some b \<Rightarrow> b_unique b \<noteq> unique)
                         then Inl (ErrFmt ''has inconsistent unique options'')
                         else Inr ((parts ! 0, \<lparr>b_fields = old @ [(position, field)], b_unique = unique\<rparr>) #
                                     filter (\<lambda>p. fst p \<noteq> parts ! 0) (fst st), snd st))))"

definition parseField :: "specState \<Rightarrow> nat \<times> structField \<Rightarrow> specState result" where
  "parseField st p = bind_result (parseKeyTag (fst p) (snd p) st) (parseIndexTag (fst p) (snd p))"

text \<open>The specification a builder becomes once every field is read.\<close>

definition buildSpec :: "string \<times> secondaryIndexBuilder \<Rightarrow> secondaryIndexSpec result" where
  "buildSpec p =
     (let fields = sort_key if_order (map snd (b_fields (snd p))) in
      if \<exists>i < length fields. if_order (fields ! i) \<noteq> int i + 1 then Inl (ErrFmt ''is missing position'')
      else Inr \<lparr>is_name = fst p, is_fields = fields, is_unique = b_unique (snd p),
                lookupField = (if b_unique (snd p) \<and> length fields = 1 then if_name (fields ! 0) else [])\<rparr>)"

text \<open>
  \<open>parseSecondaryIndexSpecs\<close>. The builders are a map in the code, so with several faulty
  indexes the one reported is not determined; the result without a fault is.
\<close>

definition parseSecondaryIndexSpecs :: "structField list \<Rightarrow> secondaryIndexSpec list result" where
  "parseSecondaryIndexSpecs typ =
     bind_result (fold_result parseField (zip [0 ..< length typ] typ) ([], []))
       (\<lambda>st. bind_result
          (fold_result (\<lambda>specs b. bind_result (buildSpec b) (\<lambda>s. Inr (specs @ [s]))) (fst st) (snd st))
          (\<lambda>specs.
             let sorted = sort_key is_name specs in
             if \<exists>i < length sorted - 1. is_name (sorted ! i) = is_name (sorted ! (i + 1))
             then Inl (ErrFmt ''repeats index name'')
             else Inr sorted))"

section \<open>Indexed values\<close>

text \<open>The value of an indexed field: its kind and the value read through reflection.\<close>

datatype indexValue = KeyBool bool | KeyInt "64 word" | KeyUint "64 word" | KeyString bytes

fun kindOf :: "indexValue \<Rightarrow> goKind" where
  "kindOf (KeyBool _) = BoolKind"
| "kindOf (KeyInt _) = IntKind"
| "kindOf (KeyUint _) = UintKind"
| "kindOf (KeyString _) = StringKind"

definition cmpCompare :: "'k :: linorder \<Rightarrow> 'k \<Rightarrow> int" where
  "cmpCompare a b = (if a < b then -1 else if b < a then 1 else 0)"

definition boolByte :: "bool \<Rightarrow> byte" where
  "boolByte b = (if b then 1 else 0)"

text \<open>
  Both arguments come from the same field of two rows, or from a row and a value checked to
  have the field's type, so their kinds agree; the last equation is never reached.
\<close>

fun compareIndexValues :: "indexValue \<Rightarrow> indexValue \<Rightarrow> int" where
  "compareIndexValues (KeyBool a) (KeyBool b) = cmpCompare (boolByte a) (boolByte b)"
| "compareIndexValues (KeyInt a) (KeyInt b) = cmpCompare (sint a) (sint b)"
| "compareIndexValues (KeyUint a) (KeyUint b) = cmpCompare a b"
| "compareIndexValues (KeyString a) (KeyString b) = cmpCompare a b"
| "compareIndexValues _ _ = 0"

fun writeIndexKey :: "indexValue \<Rightarrow> bytes" where
  "writeIndexKey (KeyBool b) = [boolByte b]"
| "writeIndexKey (KeyInt x) = put_be 8 (unat x)"
| "writeIndexKey (KeyUint x) = put_be 8 (unat x)"
| "writeIndexKey (KeyString s) = put_be 8 (length s) @ s"

text \<open>Indexed values are ordered as the index compares them; kinds are kept apart.\<close>

fun orderKey :: "indexValue \<Rightarrow> nat \<times> int \<times> bytes" where
  "orderKey (KeyBool b) = (0, if b then 1 else 0, [])"
| "orderKey (KeyInt x) = (1, sint x, [])"
| "orderKey (KeyUint x) = (2, uint x, [])"
| "orderKey (KeyString s) = (3, 0, s)"

lemma orderKey_inject: "orderKey a = orderKey b \<longleftrightarrow> a = b"
  by (cases a; cases b) (auto intro: signed_word_eqI word_uint_eqI)

instantiation indexValue :: linorder
begin

definition less_eq_indexValue :: "indexValue \<Rightarrow> indexValue \<Rightarrow> bool" where
  "less_eq_indexValue a b \<longleftrightarrow> orderKey a \<le> orderKey b"

definition less_indexValue :: "indexValue \<Rightarrow> indexValue \<Rightarrow> bool" where
  "less_indexValue a b \<longleftrightarrow> orderKey a < orderKey b"

instance
proof
  fix a b c :: indexValue
  show "a < b \<longleftrightarrow> a \<le> b \<and> \<not> b \<le> a"
    unfolding less_eq_indexValue_def less_indexValue_def by (rule less_le_not_le)
  show "a \<le> a" unfolding less_eq_indexValue_def by (rule order_refl)
  show "a \<le> b \<Longrightarrow> b \<le> c \<Longrightarrow> a \<le> c" unfolding less_eq_indexValue_def by (rule order_trans)
  show "a \<le> b \<Longrightarrow> b \<le> a \<Longrightarrow> a = b"
    unfolding less_eq_indexValue_def by (metis order_antisym orderKey_inject)
  show "a \<le> b \<or> b \<le> a" unfolding less_eq_indexValue_def by (rule linear)
qed

end

lemma compareIndexValues_cmp:
  "kindOf a = kindOf b \<Longrightarrow> compareIndexValues a b = cmpCompare a b"
  by (cases a; cases b)
     (auto simp: cmpCompare_def less_indexValue_def boolByte_def word_less_def)

section \<open>Byte keys\<close>

text \<open>Lengths of Go strings are below \<open>2 ^ 63\<close>.\<close>

definition key_fits :: "indexValue \<Rightarrow> bool" where
  "key_fits v = (case v of KeyString s \<Rightarrow> length s < 2 ^ 63 | _ \<Rightarrow> True)"

lemma writeIndexKey_inject:
  assumes "kindOf a = kindOf b" and "key_fits a" and "key_fits b"
  shows "writeIndexKey a @ x = writeIndexKey b @ y \<longleftrightarrow> a = b \<and> x = y"
proof -
  have put: "put_be 8 m = put_be 8 n \<longleftrightarrow> m = n" if "m < 256 ^ 8" "n < 256 ^ 8" for m n
    using that by (metis get_put_be_id)
  have w: "put_be 8 (unat c) = put_be 8 (unat d) \<longleftrightarrow> c = d" for c d :: "64 word"
    by (metis get_put_word64)
  show ?thesis
    using assms
    by (cases a; cases b) (auto simp: boolByte_def w put key_fits_def split: if_splits)
qed

lemma concat_keys_inject:
  "map kindOf as = map kindOf bs \<Longrightarrow> \<forall>v \<in> set as \<union> set bs. key_fits v \<Longrightarrow>
   concat (map writeIndexKey as) = concat (map writeIndexKey bs) \<longleftrightarrow> as = bs"
proof (induction as bs rule: list_induct2')
  case (4 a as b bs)
  then show ?case using writeIndexKey_inject[of a b] by auto
qed auto

section \<open>What the parser accepts\<close>

definition indexable :: "goType \<Rightarrow> bool" where
  "indexable t = (case Kind t of OtherKind _ \<Rightarrow> False | _ \<Rightarrow> True)"

definition field_ok :: "structField list \<Rightarrow> secondaryIndexField \<Rightarrow> bool" where
  "field_ok typ f \<longleftrightarrow>
     if_index f < length typ \<and> if_name f = Name (typ ! if_index f) \<and>
     if_typ f = FieldType (typ ! if_index f) \<and> indexable (if_typ f)"

definition spec_ok :: "structField list \<Rightarrow> secondaryIndexSpec \<Rightarrow> bool" where
  "spec_ok typ s \<longleftrightarrow>
     is_fields s \<noteq> [] \<and>
     (\<forall>i < length (is_fields s). field_ok typ (is_fields s ! i) \<and> if_order (is_fields s ! i) = int i + 1) \<and>
     (lookupField s \<noteq> [] \<longrightarrow> is_unique s \<and> length (is_fields s) = 1 \<and> lookupField s = if_name (is_fields s ! 0))"

definition builder_ok :: "structField list \<Rightarrow> secondaryIndexBuilder \<Rightarrow> bool" where
  "builder_ok typ b \<longleftrightarrow>
     b_fields b \<noteq> [] \<and> (\<forall>q \<in> set (b_fields b). if_order (snd q) = fst q \<and> field_ok typ (snd q))"

definition builders_ok :: "structField list \<Rightarrow> specState \<Rightarrow> bool" where
  "builders_ok typ st \<longleftrightarrow>
     (\<forall>p \<in> set (fst st). builder_ok typ (snd p)) \<and>
     (\<forall>s \<in> set (snd st). spec_ok typ s)"

lemma parseField_ok:
  assumes "builders_ok typ st" and "i < length typ" and "parseField st (i, typ ! i) = Inr st'"
  shows "builders_ok typ st'"
proof -
  let ?f = "typ ! i"
  have kind: "indexable (FieldType ?f)" if "validateSecondaryIndexField ?f = Inr u" for u
    using that by (auto simp: validateSecondaryIndexField_def indexable_def split: goKind.splits)
  obtain st1 where st1: "parseKeyTag i ?f st = Inr st1" "parseIndexTag i ?f st1 = Inr st'"
    using assms(3) by (auto simp: parseField_def bind_result_Inr_iff)
  have one: "builders_ok typ st1"
  proof (cases "keyTag ?f = ''unique''")
    case True
    let ?s = "\<lparr>is_name = Name ?f,
        is_fields = [\<lparr>if_name = Name ?f, if_index = i, if_typ = FieldType ?f, if_order = 1\<rparr>],
        is_unique = True, lookupField = Name ?f\<rparr>"
    obtain u where "validateSecondaryIndexField ?f = Inr u" and eq: "st1 = (fst st, snd st @ [?s])"
      using st1(1) True by (auto simp: parseKeyTag_def split: sum.splits)
    then have "spec_ok typ ?s" using kind assms(2) by (simp add: spec_ok_def field_ok_def)
    then show ?thesis using assms(1) by (simp add: eq builders_ok_def)
  next
    case False
    then show ?thesis using st1(1) assms(1) by (simp add: parseKeyTag_def)
  qed
  let ?parts = "Split (CHR '','') (indexTag ?f)"
  show ?thesis
  proof (cases "indexTag ?f = []")
    case True
    then show ?thesis using st1(2) one by (simp add: parseIndexTag_def Let_def)
  next
    case False
    then obtain position u where p: "validateSecondaryIndexField ?f = Inr u"
      and st': "st' = ((?parts ! 0, \<lparr>b_fields = (case map_of (fst st1) (?parts ! 0) of None \<Rightarrow> [] | Some b \<Rightarrow> b_fields b) @
          [(position, \<lparr>if_name = Name ?f, if_index = i, if_typ = FieldType ?f, if_order = position\<rparr>)],
          b_unique = (length ?parts = 3 \<and> ?parts ! 2 = ''unique'')\<rparr>) # filter (\<lambda>p. fst p \<noteq> ?parts ! 0) (fst st1), snd st1)"
      using st1(2) by (auto simp: parseIndexTag_def Let_def split: if_splits option.splits sum.splits)
    have old: "\<forall>q \<in> set (case map_of (fst st1) (?parts ! 0) of None \<Rightarrow> [] | Some b \<Rightarrow> b_fields b).
        if_order (snd q) = fst q \<and> field_ok typ (snd q)"
    proof (cases "map_of (fst st1) (?parts ! 0)")
      case (Some b)
      then have "(?parts ! 0, b) \<in> set (fst st1)" by (rule map_of_SomeD)
      then show ?thesis using one Some by (auto simp: builders_ok_def builder_ok_def)
    qed simp
    have "field_ok typ \<lparr>if_name = Name ?f, if_index = i, if_typ = FieldType ?f, if_order = position\<rparr>"
      using kind[OF p] assms(2) by (simp add: field_ok_def)
    then have "builder_ok typ (snd (hd (fst st')))"
      using old by (auto simp: st' builder_ok_def simp del: split_paired_All)
    then show ?thesis using one by (auto simp: st' builders_ok_def)
  qed
qed

lemma buildSpec_ok:
  assumes "builder_ok typ b" and "buildSpec (n, b) = Inr s"
  shows "spec_ok typ s" "is_name s = n"
proof -
  let ?fields = "sort_key if_order (map snd (b_fields b))"
  have s: "s = \<lparr>is_name = n, is_fields = ?fields, is_unique = b_unique b,
      lookupField = (if b_unique b \<and> length ?fields = 1 then if_name (?fields ! 0) else [])\<rparr>"
    and order: "\<forall>i < length ?fields. if_order (?fields ! i) = int i + 1"
    using assms(2) by (auto simp: buildSpec_def Let_def split: if_splits)
  have "\<forall>f \<in> set ?fields. field_ok typ f" using assms(1) by (auto simp: builder_ok_def)
  then have "\<forall>i < length ?fields. field_ok typ (?fields ! i)" by (meson nth_mem)
  moreover have "?fields \<noteq> []" using assms(1) unfolding builder_ok_def by (metis Nil_is_map_conv length_0_conv length_sort)
  ultimately show "spec_ok typ s" "is_name s = n" using order by (auto simp: s spec_ok_def)
qed

section \<open>Properties\<close>

text \<open>
  C12. The parser accepts only well-formed index sets: names strictly increasing, every index
  has at least one field, its fields are fields of the type with an indexable kind at
  positions 1, 2, 3 without gaps, and only a unique index of one field answers lookups.
\<close>

theorem parsed_specs_are_well_formed:
  assumes "parseSecondaryIndexSpecs typ = Inr specs"
  shows "sorted_wrt (<) (map is_name specs) \<and> (\<forall>s \<in> set specs. spec_ok typ s)"
proof -
  obtain st raw where st: "fold_result parseField (zip [0 ..< length typ] typ) ([], []) = Inr st"
    and raw: "fold_result (\<lambda>specs b. bind_result (buildSpec b) (\<lambda>s. Inr (specs @ [s]))) (fst st) (snd st) = Inr raw"
    and specs: "specs = sort_key is_name raw"
    and no: "\<not> (\<exists>i < length specs - 1. is_name (specs ! i) = is_name (specs ! (i + 1)))"
    using assms by (auto simp: parseSecondaryIndexSpecs_def bind_result_Inr_iff Let_def split: if_splits)
  have "builders_ok typ st"
  proof (rule fold_result_invariant[OF _ _ st])
    show "builders_ok typ ([], [])" by (simp add: builders_ok_def)
    fix s p s'
    assume "builders_ok typ s" "p \<in> set (zip [0 ..< length typ] typ)" "parseField s p = Inr s'"
    then show "builders_ok typ s'" using parseField_ok[of _ s "fst p" s'] by (auto simp: set_zip)
  qed
  then have b: "\<forall>p \<in> set (fst st). builder_ok typ (snd p)"
    and s: "\<forall>s \<in> set (snd st). spec_ok typ s" by (auto simp: builders_ok_def)
  have "\<forall>s \<in> set raw. spec_ok typ s"
  proof (rule fold_result_invariant[where I = "\<lambda>acc. \<forall>s \<in> set acc. spec_ok _ s", OF _ s raw])
    fix acc :: "secondaryIndexSpec list" and p acc'
    assume "\<forall>s \<in> set acc. spec_ok typ s" "p \<in> set (fst st)"
      "bind_result (buildSpec p) (\<lambda>s. Inr (acc @ [s])) = Inr acc'"
    then show "\<forall>s \<in> set acc'. spec_ok typ s"
      using b buildSpec_ok(1)[of _ "snd p" "fst p"] by (auto simp: bind_result_Inr_iff)
  qed
  then have "\<forall>s \<in> set specs. spec_ok typ s" by (simp add: specs)
  moreover have "sorted (map is_name specs)" by (simp add: specs)
  then have "sorted_wrt (<) (map is_name specs)"
  proof (clarsimp simp: sorted_wrt_iff_nth_less)
    fix i j
    assume mono: "\<forall>i j. i < j \<longrightarrow> j < length specs \<longrightarrow> is_name (specs ! i) \<le> is_name (specs ! j)"
      and ij: "i < j" "j < length specs"
    then have "is_name (specs ! i) < is_name (specs ! Suc i)"
    proof -
      have "Suc i < length specs" using ij by simp
      then have "is_name (specs ! i) \<le> is_name (specs ! Suc i)" "is_name (specs ! i) \<noteq> is_name (specs ! Suc i)"
        using mono no by auto
      then show ?thesis by simp
    qed
    also have "\<dots> \<le> is_name (specs ! j)" using mono ij by (cases "Suc i = j") auto
    finally show "is_name (specs ! i) < is_name (specs ! j)" .
  qed
  ultimately show ?thesis by simp
qed

definition sampleType :: "structField list" where
  "sampleType =
     [\<lparr>Name = ''I'', FieldType = \<lparr>Kind = IntKind, typeId = ''int''\<rparr>, keyTag = [], indexTag = []\<rparr>,
      \<lparr>Name = ''E'', FieldType = \<lparr>Kind = StringKind, typeId = ''string''\<rparr>, keyTag = ''unique'', indexTag = ''m,2''\<rparr>,
      \<lparr>Name = ''T'', FieldType = \<lparr>Kind = UintKind, typeId = ''uint''\<rparr>, keyTag = [], indexTag = ''m,1''\<rparr>]"

theorem parsed_specs_are_well_formed_witness:
  "\<exists>specs. parseSecondaryIndexSpecs sampleType = Inr specs \<and> map is_name specs = [''E'', ''m''] \<and>
     (\<forall>s \<in> set specs. spec_ok sampleType s)"
proof -
  have ex: "\<exists>specs. parseSecondaryIndexSpecs sampleType = Inr specs \<and> map is_name specs = [''E'', ''m'']"
    by (simp add: parseSecondaryIndexSpecs_def sampleType_def parseField_def parseKeyTag_def parseIndexTag_def
        validateSecondaryIndexField_def Atoi_def digitValue_def buildSpec_def Let_def All_less_Suc)
  then obtain specs where specs: "parseSecondaryIndexSpecs sampleType = Inr specs" "map is_name specs = [''E'', ''m'']"
    by (elim exE conjE)
  show ?thesis
    by (intro exI[of _ specs] conjI, rule specs(1), rule specs(2),
        rule conjunct2[OF parsed_specs_are_well_formed[OF specs(1)]])
qed

end
