(* ===== verification/Secondary_Index.thy ===== *)
theory Secondary_Index
  imports Index_Specs
begin

text \<open>
  The second half of \<open>secondary_index.go\<close>: the ordered entries and unique lookups of one
  index, their maintenance around a commit, and range reads. Entries are pointers, as in the
  code. What a pointer refers to at the moment of a call is the argument \<open>R\<close>: \<open>GetId\<close> and
  the fields read through reflection. A commit changes rows in place between
  \<open>prepareIndexes\<close> and \<open>finishIndexes\<close>, so these run under different \<open>R\<close>.
\<close>

record 'p reflection =
  Field :: "'p \<Rightarrow> nat \<Rightarrow> indexValue"
  GetId :: "'p \<Rightarrow> int"

record 'p secondaryIndex =
  spec :: secondaryIndexSpec
  entries :: "'p list"
  compositeKeys :: "bytes \<Rightarrow> int option"
  stringKeys :: "bytes \<Rightarrow> int option"
  signedKeys :: "64 word \<Rightarrow> int option"
  unsignedKeys :: "64 word \<Rightarrow> int option"
  boolKeys :: "bool \<Rightarrow> int"

text \<open>The indexes of a table and the id index they are maintained with.\<close>

record 'p indexedTable =
  secondary :: "(string \<times> 'p secondaryIndex) list"
  resById :: "int \<Rightarrow> 'p option"

definition newSecondaryIndex :: "secondaryIndexSpec \<Rightarrow> 'p secondaryIndex" where
  "newSecondaryIndex s =
     \<lparr>spec = s, entries = [], compositeKeys = (\<lambda>_. None), stringKeys = (\<lambda>_. None),
      signedKeys = (\<lambda>_. None), unsignedKeys = (\<lambda>_. None), boolKeys = (\<lambda>_. 0)\<rparr>"

section \<open>Comparing and keying rows\<close>

fun compareFields :: "'p reflection \<Rightarrow> secondaryIndexField list \<Rightarrow> 'p \<Rightarrow> 'p \<Rightarrow> int" where
  "compareFields R [] l r = 0"
| "compareFields R (f # fs) l r =
     (let order = compareIndexValues (Field R l (if_index f)) (Field R r (if_index f)) in
      if order \<noteq> 0 then order else compareFields R fs l r)"

definition compare :: "'p reflection \<Rightarrow> 'p secondaryIndex \<Rightarrow> 'p \<Rightarrow> 'p \<Rightarrow> int" where
  "compare R index l r =
     (let order = compareFields R (is_fields (spec index)) l r in
      if order \<noteq> 0 then order else cmpCompare (GetId R l) (GetId R r))"

definition indexKey :: "'p reflection \<Rightarrow> 'p secondaryIndex \<Rightarrow> 'p \<Rightarrow> bytes" where
  "indexKey R index p = concat (map (\<lambda>f. writeIndexKey (Field R p (if_index f))) (is_fields (spec index)))"

definition firstValue :: "'p reflection \<Rightarrow> 'p secondaryIndex \<Rightarrow> 'p \<Rightarrow> indexValue" where
  "firstValue R index p = Field R p (if_index (is_fields (spec index) ! 0))"

section \<open>Unique lookups\<close>

fun uniqueValueID :: "'p secondaryIndex \<Rightarrow> indexValue \<Rightarrow> int option" where
  "uniqueValueID index (KeyBool b) = (if boolKeys index b \<noteq> 0 then Some (boolKeys index b) else None)"
| "uniqueValueID index (KeyInt x) = signedKeys index x"
| "uniqueValueID index (KeyUint x) = unsignedKeys index x"
| "uniqueValueID index (KeyString s) = stringKeys index s"

definition uniqueID :: "'p reflection \<Rightarrow> 'p secondaryIndex \<Rightarrow> 'p \<Rightarrow> int option" where
  "uniqueID R index p =
     (if lookupField (spec index) = [] then compositeKeys index (indexKey R index p)
      else uniqueValueID index (firstValue R index p))"

fun setUniqueValue :: "'p secondaryIndex \<Rightarrow> indexValue \<Rightarrow> int \<Rightarrow> 'p secondaryIndex" where
  "setUniqueValue index (KeyBool b) i = index\<lparr>boolKeys := (boolKeys index)(b := i)\<rparr>"
| "setUniqueValue index (KeyInt x) i = index\<lparr>signedKeys := (signedKeys index)(x \<mapsto> i)\<rparr>"
| "setUniqueValue index (KeyUint x) i = index\<lparr>unsignedKeys := (unsignedKeys index)(x \<mapsto> i)\<rparr>"
| "setUniqueValue index (KeyString s) i = index\<lparr>stringKeys := (stringKeys index)(s \<mapsto> i)\<rparr>"

definition setUnique :: "'p reflection \<Rightarrow> 'p secondaryIndex \<Rightarrow> 'p \<Rightarrow> int \<Rightarrow> 'p secondaryIndex" where
  "setUnique R index p i =
     (if lookupField (spec index) = []
      then index\<lparr>compositeKeys := (compositeKeys index)(indexKey R index p \<mapsto> i)\<rparr>
      else setUniqueValue index (firstValue R index p) i)"

fun deleteUniqueValue :: "'p secondaryIndex \<Rightarrow> indexValue \<Rightarrow> 'p secondaryIndex" where
  "deleteUniqueValue index (KeyBool b) = index\<lparr>boolKeys := (boolKeys index)(b := 0)\<rparr>"
| "deleteUniqueValue index (KeyInt x) = index\<lparr>signedKeys := (signedKeys index)(x := None)\<rparr>"
| "deleteUniqueValue index (KeyUint x) = index\<lparr>unsignedKeys := (unsignedKeys index)(x := None)\<rparr>"
| "deleteUniqueValue index (KeyString s) = index\<lparr>stringKeys := (stringKeys index)(s := None)\<rparr>"

definition deleteUnique :: "'p reflection \<Rightarrow> 'p secondaryIndex \<Rightarrow> 'p \<Rightarrow> 'p secondaryIndex" where
  "deleteUnique R index p =
     (if lookupField (spec index) = []
      then index\<lparr>compositeKeys := (compositeKeys index)(indexKey R index p := None)\<rparr>
      else deleteUniqueValue index (firstValue R index p))"

text \<open>\<open>lookup\<close>: the raw value carries its own type, \<open>None\<close> is an untyped nil.\<close>

definition lookup :: "'p secondaryIndex \<Rightarrow> (goType \<times> indexValue) option \<Rightarrow> int option" where
  "lookup index raw =
     (case raw of
        None \<Rightarrow> None
      | Some (t, v) \<Rightarrow>
          if lookupField (spec index) = [] then None
          else if t \<noteq> if_typ (is_fields (spec index) ! 0) then None
          else uniqueValueID index v)"

section \<open>Building and rebuilding\<close>

text \<open>
  \<open>slices.SortFunc\<close>: with a comparison that is a total order every sorting algorithm gives
  the same slice; this one inserts.
\<close>

fun insertFunc :: "('p \<Rightarrow> 'p \<Rightarrow> int) \<Rightarrow> 'p \<Rightarrow> 'p list \<Rightarrow> 'p list" where
  "insertFunc cmp x [] = [x]"
| "insertFunc cmp x (y # ys) = (if cmp x y \<le> 0 then x # y # ys else y # insertFunc cmp x ys)"

definition SortFunc :: "('p \<Rightarrow> 'p \<Rightarrow> int) \<Rightarrow> 'p list \<Rightarrow> 'p list" where
  "SortFunc cmp xs = foldr (insertFunc cmp) xs []"

definition rebuildKey :: "'p reflection \<Rightarrow> 'p secondaryIndex \<Rightarrow> 'p \<Rightarrow> 'p secondaryIndex result" where
  "rebuildKey R index p =
     (case uniqueID R index p of
        None \<Rightarrow> Inr (setUnique R index p (GetId R p))
      | Some existing \<Rightarrow>
          if existing \<noteq> GetId R p then Inl (ErrUniqueViolation (is_name (spec index)))
          else Inr (setUnique R index p (GetId R p)))"

definition rebuildKeys :: "'p reflection \<Rightarrow> 'p secondaryIndex \<Rightarrow> 'p secondaryIndex result" where
  "rebuildKeys R index =
     (if \<not> is_unique (spec index) then Inr index
      else fold_result (rebuildKey R) (entries index) index)"

definition rebuildIndex :: "'p reflection \<Rightarrow> 'p list \<Rightarrow> secondaryIndexSpec \<Rightarrow> 'p secondaryIndex result" where
  "rebuildIndex R live s =
     (let index = newSecondaryIndex s in
      rebuildKeys R (index\<lparr>entries := SortFunc (compare R index) live\<rparr>))"

definition rebuildSecondaryIndices ::
  "'p reflection \<Rightarrow> 'p list \<Rightarrow> 'p indexedTable \<Rightarrow> 'p indexedTable result" where
  "rebuildSecondaryIndices R live db =
     bind_result
       (fold_result (\<lambda>out p. bind_result (rebuildIndex R live (spec (snd p))) (\<lambda>index. Inr (out @ [(fst p, index)])))
          (secondary db) [])
       (\<lambda>indices. Inr (db\<lparr>secondary := indices\<rparr>))"

section \<open>Validation\<close>

definition pendingKey :: "'p reflection \<Rightarrow> 'p secondaryIndex \<Rightarrow> 'p \<Rightarrow> bytes" where
  "pendingKey R index p =
     (case firstValue R index p of
        KeyString s \<Rightarrow> if lookupField (spec index) \<noteq> [] then s else indexKey R index p
      | _ \<Rightarrow> indexKey R index p)"

definition uniqueIDForValidation :: "'p reflection \<Rightarrow> 'p secondaryIndex \<Rightarrow> 'p \<Rightarrow> bytes \<Rightarrow> int option" where
  "uniqueIDForValidation R index p key =
     (if lookupField (spec index) = [] then compositeKeys index key else uniqueID R index p)"

definition validateItem ::
  "'p reflection \<Rightarrow> int set \<Rightarrow> 'p secondaryIndex \<Rightarrow> (bytes \<Rightarrow> int option) \<Rightarrow> 'p pendingWrite \<Rightarrow>
   (bytes \<Rightarrow> int option) result" where
  "validateItem R changed index pending it =
     (if deleted it then Inr pending
      else case work it of
        None \<Rightarrow> Inl (Panic ''nil entity'')
      | Some p \<Rightarrow>
          let key = pendingKey R index p; violation = Inl (ErrUniqueViolation (is_name (spec index))) in
          if (case uniqueIDForValidation R index p key of
                None \<Rightarrow> False | Some existing \<Rightarrow> existing \<noteq> pw_id it \<and> existing \<notin> changed)
          then violation
          else if (case pending key of None \<Rightarrow> False | Some existing \<Rightarrow> existing \<noteq> pw_id it)
          then violation
          else Inr (pending(key \<mapsto> pw_id it)))"

definition validateIndexes :: "'p reflection \<Rightarrow> 'p indexedTable \<Rightarrow> 'p pendingWrite list \<Rightarrow> unit result" where
  "validateIndexes R db items =
     fold_result (\<lambda>_ p.
        if \<not> is_unique (spec (snd p)) then Inr ()
        else bind_result (fold_result (validateItem R (pw_id ` set items) (snd p)) items (\<lambda>_. None)) (\<lambda>_. Inr ()))
       (secondary db) ()"

section \<open>Maintenance\<close>

definition secondaryIndexBatchThreshold :: nat where
  "secondaryIndexBatchThreshold = 64"

text \<open>The loop over equal entries of \<open>removeSecondaryIndices\<close>, on the entries from the found position.\<close>

fun removeEqual :: "'p reflection \<Rightarrow> 'p secondaryIndex \<Rightarrow> 'p \<Rightarrow> 'p list \<Rightarrow> 'p list" where
  "removeEqual R index p [] = []"
| "removeEqual R index p (q # qs) =
     (if compare R index q p \<noteq> 0 then q # qs
      else if GetId R q = GetId R p then qs
      else q # removeEqual R index p qs)"

definition searchEntry :: "'p reflection \<Rightarrow> 'p secondaryIndex \<Rightarrow> 'p \<Rightarrow> nat" where
  "searchEntry R index p =
     sort_search (length (entries index)) (\<lambda>i. compare R index (entries index ! i) p \<ge> 0)"

definition removeEntry :: "'p reflection \<Rightarrow> 'p secondaryIndex \<Rightarrow> 'p \<Rightarrow> 'p secondaryIndex" where
  "removeEntry R index p =
     (let position = searchEntry R index p in
      index\<lparr>entries := take position (entries index) @ removeEqual R index p (drop position (entries index))\<rparr>)"

definition insertEntry :: "'p reflection \<Rightarrow> 'p secondaryIndex \<Rightarrow> 'p \<Rightarrow> 'p secondaryIndex" where
  "insertEntry R index p =
     (let position = searchEntry R index p in
      index\<lparr>entries := take position (entries index) @ [p] @ drop position (entries index)\<rparr>)"

definition removeLookup :: "'p reflection \<Rightarrow> 'p secondaryIndex \<Rightarrow> 'p \<Rightarrow> 'p secondaryIndex" where
  "removeLookup R index p = (if is_unique (spec index) then deleteUnique R index p else index)"

definition addLookup :: "'p reflection \<Rightarrow> 'p secondaryIndex \<Rightarrow> 'p \<Rightarrow> 'p secondaryIndex" where
  "addLookup R index p = (if is_unique (spec index) then setUnique R index p (GetId R p) else index)"

definition mapIndexes :: "('p secondaryIndex \<Rightarrow> 'p secondaryIndex) \<Rightarrow> 'p indexedTable \<Rightarrow> 'p indexedTable" where
  "mapIndexes f db = db\<lparr>secondary := map (\<lambda>q. (fst q, f (snd q))) (secondary db)\<rparr>"

definition removeSecondaryIndices :: "'p reflection \<Rightarrow> 'p indexedTable \<Rightarrow> 'p \<Rightarrow> 'p indexedTable" where
  "removeSecondaryIndices R db p =
     mapIndexes (\<lambda>index. removeEntry R index p) (mapIndexes (\<lambda>index. removeLookup R index p) db)"

definition addSecondaryIndices :: "'p reflection \<Rightarrow> 'p indexedTable \<Rightarrow> 'p \<Rightarrow> 'p indexedTable" where
  "addSecondaryIndices R db p =
     mapIndexes (\<lambda>index. insertEntry R index p) (mapIndexes (\<lambda>index. addLookup R index p) db)"

text \<open>The rows of a commit that are live: before the writes, and the surviving ones after.\<close>

definition touchedRows :: "'p indexedTable \<Rightarrow> 'p pendingWrite list \<Rightarrow> 'p list" where
  "touchedRows db items = List.map_filter (\<lambda>it. resById db (pw_id it)) items"

definition writtenRows :: "'p indexedTable \<Rightarrow> 'p pendingWrite list \<Rightarrow> 'p list" where
  "writtenRows db items = List.map_filter (\<lambda>it. resById db (pw_id it)) (filter (\<lambda>it. \<not> deleted it) items)"

definition prepareIndexBatch :: "'p reflection \<Rightarrow> 'p indexedTable \<Rightarrow> 'p pendingWrite list \<Rightarrow> 'p indexedTable" where
  "prepareIndexBatch R db items =
     (let removed = touchedRows db items;
          changed = {i \<in> pw_id ` set items. resById db i \<noteq> None} in
      if removed = [] then db
      else mapIndexes (\<lambda>index. index\<lparr>entries := filter (\<lambda>p. GetId R p \<notin> changed) (entries index)\<rparr>)
             (foldl (\<lambda>db p. mapIndexes (\<lambda>index. removeLookup R index p) db) db removed))"

definition prepareIndexes :: "'p reflection \<Rightarrow> 'p indexedTable \<Rightarrow> 'p pendingWrite list \<Rightarrow> 'p indexedTable" where
  "prepareIndexes R db items =
     (if secondary db = [] then db
      else if secondaryIndexBatchThreshold \<le> length items then prepareIndexBatch R db items
      else foldl (removeSecondaryIndices R) db (touchedRows db items))"

fun mergeEntries :: "('p \<Rightarrow> 'p \<Rightarrow> int) \<Rightarrow> 'p list \<Rightarrow> 'p list \<Rightarrow> 'p list" where
  "mergeEntries cmp [] ys = ys"
| "mergeEntries cmp xs [] = xs"
| "mergeEntries cmp (x # xs) (y # ys) =
     (if cmp x y \<le> 0 then x # mergeEntries cmp xs (y # ys) else y # mergeEntries cmp (x # xs) ys)"

definition mergeSecondaryIndexEntries :: "'p reflection \<Rightarrow> 'p secondaryIndex \<Rightarrow> 'p list \<Rightarrow> 'p list" where
  "mergeSecondaryIndexEntries R index additions =
     (if additions = [] then entries index
      else if entries index = [] then additions
      else mergeEntries (compare R index) (entries index) additions)"

definition finishIndexBatch :: "'p reflection \<Rightarrow> 'p indexedTable \<Rightarrow> 'p pendingWrite list \<Rightarrow> 'p indexedTable" where
  "finishIndexBatch R db items =
     (let additions = writtenRows db items;
          merged = map (\<lambda>q. mergeSecondaryIndexEntries R (snd q) (SortFunc (compare R (snd q)) additions)) (secondary db);
          looked = foldl (\<lambda>db p. mapIndexes (\<lambda>index. addLookup R index p) db) db additions
      in looked\<lparr>secondary := map2 (\<lambda>q es. (fst q, (snd q)\<lparr>entries := es\<rparr>)) (secondary looked) merged\<rparr>)"

definition finishIndexes :: "'p reflection \<Rightarrow> 'p indexedTable \<Rightarrow> 'p pendingWrite list \<Rightarrow> 'p indexedTable" where
  "finishIndexes R db items =
     (if secondary db = [] then db
      else if secondaryIndexBatchThreshold \<le> length items then finishIndexBatch R db items
      else foldl (addSecondaryIndices R) db (writtenRows db items))"

section \<open>Range reads\<close>

definition indexValueArg ::
  "'p secondaryIndex \<Rightarrow> (goType \<times> indexValue) option \<Rightarrow> nat \<Rightarrow> indexValue result" where
  "indexValueArg index raw position =
     (case raw of
        None \<Rightarrow> Inl (ErrFmt ''is nil'')
      | Some (t, v) \<Rightarrow>
          if t \<noteq> if_typ (is_fields (spec index) ! position) then Inl (ErrFmt ''has type'') else Inr v)"

fun comparePrefix :: "'p reflection \<Rightarrow> secondaryIndexField list \<Rightarrow> indexValue list \<Rightarrow> 'p \<Rightarrow> int" where
  "comparePrefix R fs [] p = 0"
| "comparePrefix R [] vs p = 0"
| "comparePrefix R (f # fs) (v # vs) p =
     (let order = compareIndexValues (Field R p (if_index f)) v in
      if order \<noteq> 0 then order else comparePrefix R fs vs p)"

definition prefixValues ::
  "'p secondaryIndex \<Rightarrow> (goType \<times> indexValue) option list \<Rightarrow> indexValue list result" where
  "prefixValues index prefix =
     fold_result (\<lambda>values q. bind_result (indexValueArg index (snd q) (fst q)) (\<lambda>v. Inr (values @ [v])))
       (zip [0 ..< length prefix] prefix) []"

definition prefixBounds ::
  "'p reflection \<Rightarrow> 'p secondaryIndex \<Rightarrow> (goType \<times> indexValue) option list \<Rightarrow> (nat \<times> nat) result" where
  "prefixBounds R index prefix =
     (if length (is_fields (spec index)) < length prefix then Inl (ErrFmt ''accepts at most'')
      else bind_result (prefixValues index prefix)
        (\<lambda>values.
           let cmp = (\<lambda>i. comparePrefix R (is_fields (spec index)) values (entries index ! i));
               n = length (entries index)
           in Inr (sort_search n (\<lambda>i. cmp i \<ge> 0), sort_search n (\<lambda>i. cmp i > 0))))"

definition subrange :: "'p list \<Rightarrow> nat \<Rightarrow> nat \<Rightarrow> 'p list" where
  "subrange xs i j = take (j - i) (drop i xs)"

definition rangePrefix ::
  "'p reflection \<Rightarrow> 'p secondaryIndex \<Rightarrow> (goType \<times> indexValue) option list \<Rightarrow> 'p list result" where
  "rangePrefix R index prefix =
     bind_result (prefixBounds R index prefix) (\<lambda>b. Inr (subrange (entries index) (fst b) (snd b)))"

definition rangeAfter ::
  "'p reflection \<Rightarrow> 'p secondaryIndex \<Rightarrow> (goType \<times> indexValue) option list \<Rightarrow> (goType \<times> indexValue) option \<Rightarrow>
   'p list result" where
  "rangeAfter R index prefix after =
     (if length (is_fields (spec index)) \<le> length prefix then Inl (ErrFmt ''has no cursor field'')
      else bind_result (indexValueArg index after (length prefix))
        (\<lambda>cursor. bind_result (prefixBounds R index prefix)
          (\<lambda>b.
             let f = is_fields (spec index) ! length prefix;
                 offset = sort_search (snd b - fst b)
                   (\<lambda>i. compareIndexValues (Field R (entries index ! (fst b + i)) (if_index f)) cursor > 0)
             in Inr (subrange (entries index) (fst b + offset) (snd b)))))"

section \<open>The interface of an ordering\<close>

text \<open>
  What the ordered entries need of \<open>compare\<close>: on the rows of one index it is the three-way
  comparison of a key in a linear order. Searching, inserting, sorting and merging are
  proved here once; \<open>compare\<close> implements it below.
\<close>

locale ordering_cmp =
  fixes cmp :: "'p \<Rightarrow> 'p \<Rightarrow> int" and key :: "'p \<Rightarrow> 'k :: linorder" and ok :: "'p \<Rightarrow> bool"
  assumes cmp_key: "ok p \<Longrightarrow> ok q \<Longrightarrow> cmp p q = cmpCompare (key p) (key q)"
begin

lemma cmp_signs:
  assumes "ok p" "ok q"
  shows "cmp p q \<le> 0 \<longleftrightarrow> key p \<le> key q" "cmp p q \<ge> 0 \<longleftrightarrow> key q \<le> key p"
    "cmp p q = 0 \<longleftrightarrow> key p = key q" "cmp p q > 0 \<longleftrightarrow> key q < key p"
  using cmp_key[OF assms] by (auto simp: cmpCompare_def)

lemma search_split:
  assumes es: "sorted (map key es)" "\<forall>q \<in> set es. ok q" and p: "ok p"
  defines "n \<equiv> sort_search (length es) (\<lambda>i. cmp (es ! i) p \<ge> 0)"
  shows "\<forall>q \<in> set (take n es). key q < key p" and "\<forall>q \<in> set (drop n es). key p \<le> key q"
proof -
  have c: "cmp (es ! i) p \<ge> 0 \<longleftrightarrow> key p \<le> key (es ! i)" if "i < length es" for i
    using cmp_signs(2)[of "es ! i" p] es(2) p that by simp
  have mono: "cmp (es ! b) p \<ge> 0" if "a \<le> b" "b < length es" "cmp (es ! a) p \<ge> 0" for a b
    using es(1) that c[of a] c[of b] by (auto simp: sorted_iff_nth_mono intro: order_trans)
  note split = sort_search_split[of "length es" "\<lambda>i. cmp (es ! i) p \<ge> 0", OF mono, folded n_def]
  have n: "n \<le> length es" by (simp add: n_def)
  show "\<forall>q \<in> set (take n es). key q < key p"
    using split(1) c n by (fastforce simp: in_set_conv_nth)
  show "\<forall>q \<in> set (drop n es). key p \<le> key q"
  proof
    fix q assume "q \<in> set (drop n es)"
    then obtain i where "i < length es - n" "q = es ! (n + i)" by (auto simp: in_set_conv_nth)
    then show "key p \<le> key q" using split(2)[where k = "n + i"] c[of "n + i"] by simp
  qed
qed

lemma sorted_insert:
  assumes es: "sorted (map key es)" "\<forall>q \<in> set es. ok q" and p: "ok p"
  defines "n \<equiv> sort_search (length es) (\<lambda>i. cmp (es ! i) p \<ge> 0)"
  shows "sorted (map key (take n es @ [p] @ drop n es))" "mset (take n es @ [p] @ drop n es) = add_mset p (mset es)"
proof -
  note S = search_split[OF es p, folded n_def]
  have "sorted (map key (take n es @ drop n es))" using es(1) by simp
  then have "sorted (map key (take n es))" "sorted (map key (drop n es))"
    by (auto simp: sorted_append take_map[symmetric] drop_map[symmetric] sorted_wrt_take sorted_wrt_drop simp del: append_take_drop_id)
  moreover have "key x \<le> key y" if "x \<in> set (take n es)" "y \<in> set (drop n es)" for x y
    using S that by fastforce
  ultimately show "sorted (map key (take n es @ [p] @ drop n es))"
    using S by (auto simp: sorted_append intro: less_imp_le)
  have "mset (take n es) + mset (drop n es) = mset es" by (metis append_take_drop_id mset_append)
  then show "mset (take n es @ [p] @ drop n es) = add_mset p (mset es)" by simp
qed

lemma insertFunc_sorted:
  assumes "sorted (map key ys)" "\<forall>q \<in> set ys. ok q" "ok x"
  shows "sorted (map key (insertFunc cmp x ys)) \<and> mset (insertFunc cmp x ys) = add_mset x (mset ys)"
  using assms
proof (induction ys)
  case Nil
  then show ?case by simp
next
  case (Cons y ys)
  have c: "cmp x y \<le> 0 \<longleftrightarrow> key x \<le> key y" using cmp_signs(1) Cons.prems by simp
  have IH: "sorted (map key (insertFunc cmp x ys))" "mset (insertFunc cmp x ys) = add_mset x (mset ys)"
    using Cons by auto
  then have "set (insertFunc cmp x ys) = insert x (set ys)" by (metis set_mset_add_mset_insert set_mset_mset)
  then show ?case using IH c Cons.prems by (auto intro: order_trans)
qed

lemma SortFunc_sorted:
  assumes "\<forall>q \<in> set xs. ok q"
  shows "sorted (map key (SortFunc cmp xs))" "mset (SortFunc cmp xs) = mset xs"
proof -
  have "sorted (map key (SortFunc cmp xs)) \<and> mset (SortFunc cmp xs) = mset xs"
    using assms
  proof (induction xs)
    case Nil
    then show ?case by (simp add: SortFunc_def)
  next
    case (Cons x xs)
    then have IH: "sorted (map key (SortFunc cmp xs))" "mset (SortFunc cmp xs) = mset xs" by auto
    then have "set (SortFunc cmp xs) = set xs" by (metis set_mset_mset)
    then have "\<forall>q \<in> set (SortFunc cmp xs). ok q" using Cons.prems by simp
    from insertFunc_sorted[OF IH(1) this, of x] show ?case
      using IH(2) Cons.prems by (simp add: SortFunc_def)
  qed
  then show "sorted (map key (SortFunc cmp xs))" "mset (SortFunc cmp xs) = mset xs" by auto
qed

lemma mergeEntries_sorted:
  assumes "sorted (map key xs)" "sorted (map key ys)" "\<forall>q \<in> set xs \<union> set ys. ok q"
  shows "sorted (map key (mergeEntries cmp xs ys))" "mset (mergeEntries cmp xs ys) = mset xs + mset ys"
proof -
  have "sorted (map key (mergeEntries cmp xs ys)) \<and> mset (mergeEntries cmp xs ys) = mset xs + mset ys"
    using assms
  proof (induction xs arbitrary: ys)
    case Nil
    then show ?case by simp
  next
    case (Cons x xs)
    note outer = Cons.IH and xs = Cons.prems(1)
    show ?case using Cons.prems
    proof (induction ys)
      case Nil
      then show ?case by simp
    next
      case (Cons y ys)
      have okx: "ok x" "ok y" using Cons.prems(3) by auto
      show ?case
      proof (cases "key x \<le> key y")
        case True
        then have m: "mergeEntries cmp (x # xs) (y # ys) = x # mergeEntries cmp xs (y # ys)"
          using cmp_signs(1)[OF okx] by simp
        have IH: "sorted (map key (mergeEntries cmp xs (y # ys)))"
            "mset (mergeEntries cmp xs (y # ys)) = mset xs + mset (y # ys)"
          using outer[of "y # ys"] Cons.prems by auto
        then have "set (mergeEntries cmp xs (y # ys)) = set xs \<union> set (y # ys)"
          by (metis set_mset_mset set_mset_union)
        then show ?thesis using IH True Cons.prems unfolding m by (auto intro: order_trans)
      next
        case False
        then have m: "mergeEntries cmp (x # xs) (y # ys) = y # mergeEntries cmp (x # xs) ys"
          using cmp_signs(1)[OF okx] by simp
        have IH: "sorted (map key (mergeEntries cmp (x # xs) ys))"
            "mset (mergeEntries cmp (x # xs) ys) = mset (x # xs) + mset ys"
          using Cons by auto
        then have "set (mergeEntries cmp (x # xs) ys) = set (x # xs) \<union> set ys"
          by (metis set_mset_mset set_mset_union)
        then show ?thesis using IH False Cons.prems unfolding m by (auto intro: order_trans)
      qed
    qed
  qed
  then show "sorted (map key (mergeEntries cmp xs ys))" "mset (mergeEntries cmp xs ys) = mset xs + mset ys" by auto
qed

end

text \<open>Two sorted arrangements of the same rows are equal when the rows' keys differ.\<close>

lemma sorted_unique:
  assumes "sorted (map key xs)" "sorted (map (key :: 'p \<Rightarrow> 'k :: linorder) ys)" "mset xs = mset ys" "inj_on key (set xs)"
  shows "xs = ys"
proof -
  have "sort_key key ys = xs" by (rule sort_key_inj_key_eq) (use assms in \<open>auto dest: mset_eq_setD\<close>)
  moreover have "sort_key key ys = ys" using assms(2) by (simp add: sort_key_id_if_sorted)
  ultimately show ?thesis by simp
qed

section \<open>\<open>compare\<close> implements the interface\<close>

definition rowValues :: "'p reflection \<Rightarrow> secondaryIndexSpec \<Rightarrow> 'p \<Rightarrow> indexValue list" where
  "rowValues R s p = map (\<lambda>f. Field R p (if_index f)) (is_fields s)"

definition sortKey :: "'p reflection \<Rightarrow> secondaryIndexSpec \<Rightarrow> 'p \<Rightarrow> indexValue list \<times> int" where
  "sortKey R s p = (rowValues R s p, GetId R p)"

text \<open>A value list of the index's field types, and a row read through them.\<close>

definition values_typed :: "secondaryIndexSpec \<Rightarrow> indexValue list \<Rightarrow> bool" where
  "values_typed s vs \<longleftrightarrow> map kindOf vs = map (\<lambda>f. Kind (if_typ f)) (is_fields s) \<and> (\<forall>v \<in> set vs. key_fits v)"

definition row_typed :: "'p reflection \<Rightarrow> secondaryIndexSpec \<Rightarrow> 'p \<Rightarrow> bool" where
  "row_typed R s p \<longleftrightarrow> values_typed s (rowValues R s p)"

lemma cmpCompare_zero: "cmpCompare a b = 0 \<longleftrightarrow> a = b"
  by (auto simp: cmpCompare_def)

lemma cmpCompare_Cons:
  "cmpCompare (a # as) (b # bs) = (if a = b then cmpCompare as bs else cmpCompare a (b :: 'k :: linorder))"
  by (auto simp: cmpCompare_def)

lemma cmpCompare_Pair:
  "cmpCompare (a, i) (b, j) = (if a = b then cmpCompare i j else cmpCompare a (b :: 'k :: linorder))"
  for i j :: "'l :: linorder"
  by (auto simp: cmpCompare_def less_prod_def' simp del: less_prod_simp)

lemma compareFields_key:
  assumes "map (\<lambda>f. kindOf (Field R p (if_index f))) fs = map (\<lambda>f. kindOf (Field R q (if_index f))) fs"
  shows "compareFields R fs p q =
    cmpCompare (map (\<lambda>f. Field R p (if_index f)) fs) (map (\<lambda>f. Field R q (if_index f)) fs)"
  using assms
proof (induction fs)
  case Nil
  then show ?case by (simp add: cmpCompare_def)
next
  case (Cons f fs)
  have c: "compareIndexValues (Field R p (if_index f)) (Field R q (if_index f)) =
      cmpCompare (Field R p (if_index f)) (Field R q (if_index f))"
    using Cons.prems by (simp add: compareIndexValues_cmp)
  have IH: "compareFields R fs p q =
      cmpCompare (map (\<lambda>f. Field R p (if_index f)) fs) (map (\<lambda>f. Field R q (if_index f)) fs)"
    using Cons by simp
  show ?case unfolding compareFields.simps list.map cmpCompare_Cons Let_def c cmpCompare_zero IH by simp
qed

lemma compare_key:
  assumes "row_typed R (spec index) p" "row_typed R (spec index) q"
  shows "compare R index p q = cmpCompare (sortKey R (spec index) p) (sortKey R (spec index) q)"
proof -
  have "map (\<lambda>f. kindOf (Field R p (if_index f))) (is_fields (spec index)) =
      map (\<lambda>f. kindOf (Field R q (if_index f))) (is_fields (spec index))"
    using assms by (simp add: row_typed_def values_typed_def rowValues_def o_def)
  from compareFields_key[OF this]
  have "compareFields R (is_fields (spec index)) p q = cmpCompare (rowValues R (spec index) p) (rowValues R (spec index) q)"
    by (simp add: rowValues_def)
  then show ?thesis unfolding compare_def Let_def sortKey_def cmpCompare_Pair by (simp add: cmpCompare_zero)
qed

interpretation cmp: ordering_cmp "compare R index" "sortKey R (spec index)" "row_typed R (spec index)" for R index
  by standard (rule compare_key)

section \<open>The invariant of an index\<close>

text \<open>The ordered entries are the rows, each once, in the index's order.\<close>

definition entries_ok :: "'p reflection \<Rightarrow> 'p set \<Rightarrow> 'p secondaryIndex \<Rightarrow> bool" where
  "entries_ok R rows index \<longleftrightarrow>
     sorted (map (sortKey R (spec index)) (entries index)) \<and> distinct (entries index) \<and> set (entries index) = rows"

text \<open>What rows must satisfy: fields of the declared kinds, ids that differ and are not zero.\<close>

definition rows_ok :: "'p reflection \<Rightarrow> secondaryIndexSpec \<Rightarrow> 'p set \<Rightarrow> bool" where
  "rows_ok R s rows \<longleftrightarrow>
     (\<forall>p \<in> rows. row_typed R s p \<and> GetId R p \<noteq> 0) \<and> inj_on (GetId R) rows"

lemma sortKey_inj: "rows_ok R s rows \<Longrightarrow> inj_on (sortKey R s) rows"
  by (auto simp: rows_ok_def sortKey_def inj_on_def)

lemma removeEntry_entries:
  assumes e: "entries_ok R rows index" and r: "rows_ok R (spec index) rows" and p: "p \<in> rows"
  shows "entries (removeEntry R index p) = remove1 p (entries index)"
proof -
  let ?es = "entries index" and ?key = "sortKey R (spec index)"
  define n where "n = searchEntry R index p"
  have typed: "\<forall>q \<in> set ?es. row_typed R (spec index) q" "row_typed R (spec index) p"
    using e r p by (auto simp: entries_ok_def rows_ok_def)
  have srt: "sorted (map ?key ?es)" using e by (simp add: entries_ok_def)
  note S = cmp.search_split[OF srt typed, folded searchEntry_def n_def]
  have "p \<in> set ?es" using e p by (simp add: entries_ok_def)
  then have p_in: "p \<in> set (drop n ?es)" "p \<notin> set (take n ?es)"
    using S(1) by (metis UnE append_take_drop_id less_irrefl set_append, blast)
  then obtain h rest where d: "drop n ?es = h # rest" by (cases "drop n ?es") auto
  have "sorted (map ?key (take n ?es @ drop n ?es))" using srt by simp
  then have "sorted (map ?key (h # rest))" unfolding d by (simp only: map_append sorted_append)
  then have "?key h \<le> ?key p" using p_in(1) d by auto
  then have "?key h = ?key p" using S(2) d by auto
  moreover have "h \<in> rows" using d e by (metis entries_ok_def in_set_dropD list.set_intros(1))
  ultimately have h: "h = p" using sortKey_inj[OF r] p by (meson inj_onD)
  have "compare R index p p = 0" using cmp.cmp_signs(3)[of R index p p] typed(2) by simp
  then have "entries (removeEntry R index p) = take n ?es @ rest"
    unfolding removeEntry_def Let_def n_def[symmetric] d h by simp
  also have "\<dots> = remove1 p (take n ?es @ drop n ?es)" using p_in(2) by (simp add: d h remove1_append)
  finally show ?thesis by simp
qed

lemma removeEntry_ok:
  assumes e: "entries_ok R rows index" and r: "rows_ok R (spec index) rows" and p: "p \<in> rows"
  shows "entries_ok R (rows - {p}) (removeEntry R index p)"
proof -
  have s: "spec (removeEntry R index p) = spec index" by (simp add: removeEntry_def Let_def)
  have "sorted (map (sortKey R (spec index)) (remove1 p (entries index)))"
    using e sorted_map_remove1 by (fastforce simp: entries_ok_def)
  then show ?thesis
    using e by (auto simp: entries_ok_def s removeEntry_entries[OF assms])
qed

lemma insertEntry_ok:
  assumes e: "entries_ok R rows index" and r: "rows_ok R (spec index) (insert p rows)" and p: "p \<notin> rows"
  shows "entries_ok R (insert p rows) (insertEntry R index p)"
proof -
  have typed: "\<forall>q \<in> set (entries index). row_typed R (spec index) q" "row_typed R (spec index) p"
    using e r by (auto simp: entries_ok_def rows_ok_def)
  have srt: "sorted (map (sortKey R (spec index)) (entries index))" using e by (simp add: entries_ok_def)
  note S = cmp.sorted_insert[OF srt typed, folded searchEntry_def]
  have "mset (entries (insertEntry R index p)) = add_mset p (mset (entries index))"
    using S(2) by (simp add: insertEntry_def Let_def)
  then have "set (entries (insertEntry R index p)) = insert p rows" "distinct (entries (insertEntry R index p))"
    using e p by (metis entries_ok_def set_mset_add_mset_insert set_mset_mset,
        metis (no_types, lifting) distinct.simps(2) e entries_ok_def mset.simps(2) mset_eq_imp_distinct_iff)
  then show ?thesis
    using S(1) by (auto simp: entries_ok_def insertEntry_def Let_def)
qed

text \<open>The lookups of a unique index as one map from value lists to ids.\<close>

definition idOf :: "'p secondaryIndex \<Rightarrow> indexValue list \<Rightarrow> int option" where
  "idOf index vs =
     (if lookupField (spec index) = [] then compositeKeys index (concat (map writeIndexKey vs))
      else uniqueValueID index (vs ! 0))"

text \<open>A specification as the parser makes them: one field when the index answers lookups.\<close>

definition lookup_spec :: "secondaryIndexSpec \<Rightarrow> bool" where
  "lookup_spec s \<longleftrightarrow> is_fields s \<noteq> [] \<and> (lookupField s \<noteq> [] \<longrightarrow> length (is_fields s) = 1)"

definition lookups_ok :: "'p reflection \<Rightarrow> 'p set \<Rightarrow> 'p secondaryIndex \<Rightarrow> bool" where
  "lookups_ok R rows index \<longleftrightarrow>
     (is_unique (spec index) \<longrightarrow>
        inj_on (rowValues R (spec index)) rows \<and>
        (\<forall>vs i. values_typed (spec index) vs \<longrightarrow>
           (idOf index vs = Some i \<longleftrightarrow> (\<exists>p \<in> rows. rowValues R (spec index) p = vs \<and> GetId R p = i))))"

lemma uniqueID_idOf:
  assumes "lookup_spec (spec index)"
  shows "uniqueID R index p = idOf index (rowValues R (spec index) p)"
  using assms by (auto simp: uniqueID_def idOf_def indexKey_def rowValues_def firstValue_def o_def lookup_spec_def)

lemma values_typed_inject:
  assumes "values_typed s vs" "values_typed s ws"
  shows "concat (map writeIndexKey vs) = concat (map writeIndexKey ws) \<longleftrightarrow> vs = ws"
  using assms by (intro concat_keys_inject) (auto simp: values_typed_def)

lemma values_typed_single:
  assumes "lookup_spec s" "lookupField s \<noteq> []" "values_typed s vs" "values_typed s ws"
  shows "vs ! 0 = ws ! 0 \<longleftrightarrow> vs = ws" and "kindOf (vs ! 0) = kindOf (ws ! 0)"
proof -
  have "length vs = 1" "length ws = 1"
    using assms by (auto simp: values_typed_def lookup_spec_def dest!: arg_cong[where f = length])
  then obtain v w where "vs = [v]" "ws = [w]" by (metis One_nat_def length_0_conv length_Suc_conv)
  then show "vs ! 0 = ws ! 0 \<longleftrightarrow> vs = ws" "kindOf (vs ! 0) = kindOf (ws ! 0)"
    using assms(3,4) by (auto simp: values_typed_def)
qed

lemma uniqueValue_updates:
  assumes "kindOf v = kindOf w"
  shows "i \<noteq> 0 \<Longrightarrow> uniqueValueID (setUniqueValue index v i) w = (if v = w then Some i else uniqueValueID index w)"
    and "uniqueValueID (deleteUniqueValue index v) w = (if v = w then None else uniqueValueID index w)"
  using assms by (cases v; cases w; simp)+

lemma unique_simps [simp]:
  "spec (setUniqueValue index v i) = spec index" "entries (setUniqueValue index v i) = entries index"
  "spec (deleteUniqueValue index v) = spec index" "entries (deleteUniqueValue index v) = entries index"
  "spec (setUnique R index p i) = spec index" "entries (setUnique R index p i) = entries index"
  "spec (deleteUnique R index p) = spec index" "entries (deleteUnique R index p) = entries index"
proof -
  show a: "spec (setUniqueValue index v i) = spec index" "entries (setUniqueValue index v i) = entries index"
    "spec (deleteUniqueValue index v) = spec index" "entries (deleteUniqueValue index v) = entries index"
    for v by (cases v; simp)+
  show "spec (setUnique R index p i) = spec index" "entries (setUnique R index p i) = entries index"
    "spec (deleteUnique R index p) = spec index" "entries (deleteUnique R index p) = entries index"
    by (simp_all add: setUnique_def deleteUnique_def a)
qed

lemma idOf_updates:
  assumes "lookup_spec (spec index)" "row_typed R (spec index) p" "values_typed (spec index) vs"
  shows "i \<noteq> 0 \<Longrightarrow> idOf (setUnique R index p i) vs = (if rowValues R (spec index) p = vs then Some i else idOf index vs)"
    and "idOf (deleteUnique R index p) vs = (if rowValues R (spec index) p = vs then None else idOf index vs)"
proof -
  have key: "indexKey R index p = concat (map writeIndexKey (rowValues R (spec index) p))"
    by (simp add: indexKey_def rowValues_def o_def)
  have ty: "values_typed (spec index) (rowValues R (spec index) p)" using assms(2) by (simp add: row_typed_def)
  note inj = values_typed_inject[OF ty assms(3)]
  have hd: "firstValue R index p = rowValues R (spec index) p ! 0"
    using assms(1) by (simp add: firstValue_def rowValues_def lookup_spec_def)
  note one = values_typed_single[OF assms(1) _ ty assms(3)]
  show "i \<noteq> 0 \<Longrightarrow> idOf (setUnique R index p i) vs = (if rowValues R (spec index) p = vs then Some i else idOf index vs)"
  proof (cases "lookupField (spec index) = []")
    case False
    then show "i \<noteq> 0 \<Longrightarrow> ?thesis"
      using one[OF False] by (simp add: idOf_def setUnique_def hd uniqueValue_updates(1))
  qed (use inj in \<open>auto simp: idOf_def setUnique_def key\<close>)
  show "idOf (deleteUnique R index p) vs = (if rowValues R (spec index) p = vs then None else idOf index vs)"
  proof (cases "lookupField (spec index) = []")
    case False
    then show ?thesis
      using one[OF False] by (simp add: idOf_def deleteUnique_def hd uniqueValue_updates(2))
  qed (use inj in \<open>auto simp: idOf_def deleteUnique_def key\<close>)
qed

definition index_ok :: "'p reflection \<Rightarrow> 'p set \<Rightarrow> 'p secondaryIndex \<Rightarrow> bool" where
  "index_ok R rows index \<longleftrightarrow>
     lookup_spec (spec index) \<and> rows_ok R (spec index) rows \<and> entries_ok R rows index \<and> lookups_ok R rows index"

definition removeBoth :: "'p reflection \<Rightarrow> 'p secondaryIndex \<Rightarrow> 'p \<Rightarrow> 'p secondaryIndex" where
  "removeBoth R index p = removeEntry R (removeLookup R index p) p"

definition addBoth :: "'p reflection \<Rightarrow> 'p secondaryIndex \<Rightarrow> 'p \<Rightarrow> 'p secondaryIndex" where
  "addBoth R index p = insertEntry R (addLookup R index p) p"

lemma lookup_simps [simp]:
  "spec (removeLookup R index p) = spec index" "entries (removeLookup R index p) = entries index"
  "spec (addLookup R index p) = spec index" "entries (addLookup R index p) = entries index"
  "spec (removeEntry R index p) = spec index" "spec (insertEntry R index p) = spec index"
  "idOf (removeEntry R index p) vs = idOf index vs" "idOf (insertEntry R index p) vs = idOf index vs"
  "spec (removeBoth R index p) = spec index" "spec (addBoth R index p) = spec index"
  by (cases "vs ! 0"; simp add: removeLookup_def addLookup_def removeEntry_def insertEntry_def Let_def idOf_def removeBoth_def addBoth_def)+

lemma entries_ok_cong:
  "spec index = spec index' \<Longrightarrow> entries index = entries index' \<Longrightarrow> entries_ok R rows index = entries_ok R rows index'"
  by (simp add: entries_ok_def)

lemma lookups_ok_cong:
  "spec index = spec index' \<Longrightarrow> (\<And>vs. idOf index vs = idOf index' vs) \<Longrightarrow> lookups_ok R rows index = lookups_ok R rows index'"
  by (simp add: lookups_ok_def)

lemma removeLookup_ok:
  assumes "lookup_spec (spec index)" "rows_ok R (spec index) rows" "lookups_ok R rows index" "p \<in> rows"
  shows "lookups_ok R (rows - {p}) (removeLookup R index p)"
proof (cases "is_unique (spec index)")
  case True
  have typed: "row_typed R (spec index) p" using assms(2,4) by (simp add: rows_ok_def)
  have inj: "inj_on (rowValues R (spec index)) rows" using assms(3) True by (simp add: lookups_ok_def)
  show ?thesis
    using assms(3,4) True inj idOf_updates(2)[OF assms(1) typed]
    by (auto simp: lookups_ok_def removeLookup_def inj_on_diff dest: inj_onD)
qed (simp add: lookups_ok_def)

lemma addLookup_ok:
  assumes "lookup_spec (spec index)" "rows_ok R (spec index) (insert p rows)" "lookups_ok R rows index" "p \<notin> rows"
    and "is_unique (spec index) \<Longrightarrow> inj_on (rowValues R (spec index)) (insert p rows)"
  shows "lookups_ok R (insert p rows) (addLookup R index p)"
proof (cases "is_unique (spec index)")
  case True
  have typed: "row_typed R (spec index) p" "GetId R p \<noteq> 0" using assms(2) by (auto simp: rows_ok_def)
  have inj: "inj_on (rowValues R (spec index)) (insert p rows)" using assms(5) True by simp
  have fresh: "rowValues R (spec index) q \<noteq> rowValues R (spec index) p" if "q \<in> rows" for q
    using inj that assms(4) by (auto simp: inj_on_def)
  show ?thesis
    using assms(3) True inj fresh idOf_updates(1)[OF assms(1) typed(1) _ typed(2)]
    by (auto simp: lookups_ok_def addLookup_def)
qed (simp add: lookups_ok_def)

lemma removeBoth_ok:
  assumes ok: "index_ok R rows index" and p: "p \<in> rows"
  shows "index_ok R (rows - {p}) (removeBoth R index p)"
proof -
  have r: "rows_ok R (spec index) (rows - {p})" using ok by (auto simp: index_ok_def rows_ok_def inj_on_diff)
  have "entries_ok R rows (removeLookup R index p)"
    using ok by (subst entries_ok_cong[of _ index]) (auto simp: index_ok_def)
  then have e: "entries_ok R (rows - {p}) (removeBoth R index p)"
    unfolding removeBoth_def using ok p by (intro removeEntry_ok) (auto simp: index_ok_def)
  have "lookups_ok R (rows - {p}) (removeLookup R index p)"
    using ok p by (intro removeLookup_ok) (auto simp: index_ok_def)
  then have "lookups_ok R (rows - {p}) (removeBoth R index p)"
    by (subst lookups_ok_cong[of _ "removeLookup R index p"]) (auto simp: removeBoth_def)
  then show ?thesis using ok r e by (simp add: index_ok_def)
qed

lemma addBoth_ok:
  assumes ok: "index_ok R rows index" and p: "p \<notin> rows" and r: "rows_ok R (spec index) (insert p rows)"
    and inj: "is_unique (spec index) \<Longrightarrow> inj_on (rowValues R (spec index)) (insert p rows)"
  shows "index_ok R (insert p rows) (addBoth R index p)"
proof -
  have "entries_ok R rows (addLookup R index p)"
    using ok by (subst entries_ok_cong[of _ index]) (auto simp: index_ok_def)
  then have e: "entries_ok R (insert p rows) (addBoth R index p)"
    unfolding addBoth_def using p r by (intro insertEntry_ok) auto
  have "lookups_ok R (insert p rows) (addLookup R index p)"
    using ok p r inj by (intro addLookup_ok) (auto simp: index_ok_def)
  then have "lookups_ok R (insert p rows) (addBoth R index p)"
    by (subst lookups_ok_cong[of _ "addLookup R index p"]) (auto simp: addBoth_def)
  then show ?thesis using ok r e by (simp add: index_ok_def)
qed

lemma fold_spec [simp]:
  "spec (foldl (removeBoth R) index ps) = spec index" "spec (foldl (addBoth R) index ps) = spec index"
  "spec (foldl (removeLookup R) index ps) = spec index" "entries (foldl (removeLookup R) index ps) = entries index"
  "spec (foldl (addLookup R) index ps) = spec index" "entries (foldl (addLookup R) index ps) = entries index"
  by (induction ps arbitrary: index) simp_all

lemma removed_ok:
  "index_ok R rows index \<Longrightarrow> distinct ps \<Longrightarrow> set ps \<subseteq> rows \<Longrightarrow>
   index_ok R (rows - set ps) (foldl (removeBoth R) index ps)"
proof (induction ps arbitrary: index rows)
  case Nil
  then show ?case by simp
next
  case (Cons p ps)
  have "index_ok R (rows - {p}) (removeBoth R index p)" using Cons.prems by (intro removeBoth_ok) auto
  from Cons.IH[OF this] Cons.prems have "index_ok R (rows - {p} - set ps) (foldl (removeBoth R) (removeBoth R index p) ps)"
    by auto
  moreover have "rows - {p} - set ps = rows - set (p # ps)" by auto
  ultimately show ?case by simp
qed

lemma added_ok:
  "index_ok R rows index \<Longrightarrow> distinct ps \<Longrightarrow> set ps \<inter> rows = {} \<Longrightarrow> rows_ok R (spec index) (rows \<union> set ps) \<Longrightarrow>
   (is_unique (spec index) \<Longrightarrow> inj_on (rowValues R (spec index)) (rows \<union> set ps)) \<Longrightarrow>
   index_ok R (rows \<union> set ps) (foldl (addBoth R) index ps)"
proof (induction ps arbitrary: index rows)
  case Nil
  then show ?case by simp
next
  case (Cons p ps)
  have "rows_ok R (spec index) (insert p rows)"
    using Cons.prems(4) by (auto simp: rows_ok_def intro: inj_on_subset)
  moreover have "is_unique (spec index) \<Longrightarrow> inj_on (rowValues R (spec index)) (insert p rows)"
    using Cons.prems(5) by (auto intro: inj_on_subset)
  ultimately have "index_ok R (insert p rows) (addBoth R index p)"
    using Cons.prems by (intro addBoth_ok) auto
  from Cons.IH[OF this] Cons.prems show ?case by auto
qed

section \<open>The batch paths do what the one-by-one paths do\<close>

lemma removeLookup_entries: "removeLookup R (index\<lparr>entries := es\<rparr>) p = (removeLookup R index p)\<lparr>entries := es\<rparr>"
proof -
  have "deleteUniqueValue (index\<lparr>entries := es\<rparr>) v = (deleteUniqueValue index v)\<lparr>entries := es\<rparr>" for v
    by (cases v) simp_all
  then show ?thesis by (simp add: removeLookup_def deleteUnique_def indexKey_def firstValue_def)
qed

lemma addLookup_entries: "addLookup R (index\<lparr>entries := es\<rparr>) p = (addLookup R index p)\<lparr>entries := es\<rparr>"
proof -
  have "setUniqueValue (index\<lparr>entries := es\<rparr>) v i = (setUniqueValue index v i)\<lparr>entries := es\<rparr>" for v i
    by (cases v) simp_all
  then show ?thesis by (simp add: addLookup_def setUnique_def indexKey_def firstValue_def)
qed

lemma fold_removeBoth:
  "foldl (removeBoth R) index ps = (foldl (removeLookup R) index ps)\<lparr>entries := entries (foldl (removeBoth R) index ps)\<rparr>"
proof (induction ps rule: rev_induct)
  case Nil
  then show ?case by simp
next
  case (snoc p ps)
  let ?x = "foldl (removeBoth R) index ps"
  have a: "removeBoth R ?x p = (removeLookup R ?x p)\<lparr>entries := entries (removeBoth R ?x p)\<rparr>"
    by (simp add: removeBoth_def removeEntry_def Let_def)
  have b: "removeLookup R ?x p = (removeLookup R (foldl (removeLookup R) index ps) p)\<lparr>entries := entries ?x\<rparr>"
    by (subst snoc) (rule removeLookup_entries)
  have "removeBoth R ?x p = (removeLookup R (foldl (removeLookup R) index ps) p)\<lparr>entries := entries (removeBoth R ?x p)\<rparr>"
    by (rule trans[OF a]) (subst b, simp)
  then show ?case unfolding foldl_append foldl.simps .
qed

lemma fold_addBoth:
  "foldl (addBoth R) index ps = (foldl (addLookup R) index ps)\<lparr>entries := entries (foldl (addBoth R) index ps)\<rparr>"
proof (induction ps rule: rev_induct)
  case Nil
  then show ?case by simp
next
  case (snoc p ps)
  let ?x = "foldl (addBoth R) index ps"
  have a: "addBoth R ?x p = (addLookup R ?x p)\<lparr>entries := entries (addBoth R ?x p)\<rparr>"
    by (simp add: addBoth_def insertEntry_def Let_def)
  have b: "addLookup R ?x p = (addLookup R (foldl (addLookup R) index ps) p)\<lparr>entries := entries ?x\<rparr>"
    by (subst snoc) (rule addLookup_entries)
  have "addBoth R ?x p = (addLookup R (foldl (addLookup R) index ps) p)\<lparr>entries := entries (addBoth R ?x p)\<rparr>"
    by (rule trans[OF a]) (subst b, simp)
  then show ?case unfolding foldl_append foldl.simps .
qed

lemma entries_determined:
  assumes "entries_ok R rows x" "entries_ok R rows y" "spec x = spec y" "rows_ok R (spec x) rows"
  shows "entries x = entries y"
proof (rule sorted_unique)
  show "sorted (map (sortKey R (spec x)) (entries x))" "sorted (map (sortKey R (spec x)) (entries y))"
    using assms(1-3) by (auto simp: entries_ok_def)
  show "mset (entries x) = mset (entries y)"
    using assms(1,2) set_eq_iff_mset_eq_distinct[of "entries x" "entries y"] by (simp add: entries_ok_def)
  show "inj_on (sortKey R (spec x)) (set (entries x))"
    using assms(1) sortKey_inj[OF assms(4)] by (simp add: entries_ok_def)
qed

lemma batch_remove_index:
  assumes ok: "index_ok R rows index" and ps: "distinct ps" "set ps \<subseteq> rows"
  shows "(foldl (removeLookup R) index ps)\<lparr>entries := filter (\<lambda>p. GetId R p \<notin> GetId R ` set ps) (entries index)\<rparr> =
    foldl (removeBoth R) index ps"
proof -
  let ?batch = "(foldl (removeLookup R) index ps)\<lparr>entries := filter (\<lambda>p. GetId R p \<notin> GetId R ` set ps) (entries index)\<rparr>"
  have seq: "index_ok R (rows - set ps) (foldl (removeBoth R) index ps)" by (rule removed_ok[OF assms])
  have inj: "inj_on (GetId R) rows" using ok by (simp add: index_ok_def rows_ok_def)
  have "set (filter (\<lambda>p. GetId R p \<notin> GetId R ` set ps) (entries index)) = rows - set ps"
    using ok ps(2) inj by (auto simp: index_ok_def entries_ok_def dest: inj_onD)
  moreover have "sorted (map (sortKey R (spec index)) (filter (\<lambda>p. GetId R p \<notin> GetId R ` set ps) (entries index)))"
    using ok by (simp add: index_ok_def entries_ok_def sorted_filter)
  ultimately have "entries_ok R (rows - set ps) ?batch"
    using ok by (auto simp: entries_ok_def index_ok_def)
  then have "entries ?batch = entries (foldl (removeBoth R) index ps)"
    using seq by (intro entries_determined) (auto simp: index_ok_def)
  then show ?thesis using fold_removeBoth[of R index ps] by simp
qed

lemma batch_add_index:
  assumes ok: "index_ok R rows index" and ps: "distinct ps" "set ps \<inter> rows = {}"
    and r: "rows_ok R (spec index) (rows \<union> set ps)"
    and inj: "is_unique (spec index) \<Longrightarrow> inj_on (rowValues R (spec index)) (rows \<union> set ps)"
  shows "(foldl (addLookup R) index ps)\<lparr>entries :=
      mergeSecondaryIndexEntries R index (SortFunc (compare R index) ps)\<rparr> = foldl (addBoth R) index ps"
proof -
  let ?srt = "SortFunc (compare R index) ps"
  let ?batch = "(foldl (addLookup R) index ps)\<lparr>entries := mergeSecondaryIndexEntries R index ?srt\<rparr>"
  have seq: "index_ok R (rows \<union> set ps) (foldl (addBoth R) index ps)" by (rule added_ok[OF assms])
  have typed: "\<forall>q \<in> set ps. row_typed R (spec index) q" using r by (auto simp: rows_ok_def)
  note S = cmp.SortFunc_sorted[OF typed]
  have es: "sorted (map (sortKey R (spec index)) (entries index))" "set (entries index) = rows" "distinct (entries index)"
    using ok by (auto simp: index_ok_def entries_ok_def)
  have all: "\<forall>q \<in> set (entries index) \<union> set ?srt. row_typed R (spec index) q"
    using r es(2) mset_eq_setD[OF S(2)] by (auto simp: rows_ok_def)
  have M: "sorted (map (sortKey R (spec index)) (mergeSecondaryIndexEntries R index ?srt)) \<and>
      mset (mergeSecondaryIndexEntries R index ?srt) = mset (entries index) + mset ps"
    using S es(1) cmp.mergeEntries_sorted[OF es(1) S(1) all] by (auto simp: mergeSecondaryIndexEntries_def)
  then have "set (mergeSecondaryIndexEntries R index ?srt) = rows \<union> set ps"
    by (metis es(2) set_mset_mset set_mset_union)
  moreover have "distinct (entries index @ ps)" using ps es by auto
  then have "distinct (mergeSecondaryIndexEntries R index ?srt)"
    using M by (metis mset_append mset_eq_imp_distinct_iff)
  ultimately have "entries_ok R (rows \<union> set ps) ?batch" using M by (simp add: entries_ok_def)
  then have "entries ?batch = entries (foldl (addBoth R) index ps)"
    using seq by (intro entries_determined) (auto simp: index_ok_def)
  then show ?thesis using fold_addBoth[of R index ps] by simp
qed

section \<open>Validation decides uniqueness\<close>

lemma pendingKey_eq:
  assumes "lookup_spec (spec index)" "row_typed R (spec index) p" "row_typed R (spec index) q"
  shows "pendingKey R index p = pendingKey R index q \<longleftrightarrow> rowValues R (spec index) p = rowValues R (spec index) q"
proof -
  let ?s = "spec index"
  have ty: "values_typed ?s (rowValues R ?s p)" "values_typed ?s (rowValues R ?s q)"
    using assms(2,3) by (auto simp: row_typed_def)
  have keys: "indexKey R index x = concat (map writeIndexKey (rowValues R ?s x))" for x
    by (simp add: indexKey_def rowValues_def o_def)
  have hd: "firstValue R index x = rowValues R ?s x ! 0" for x
    using assms(1) by (simp add: firstValue_def rowValues_def lookup_spec_def)
  show ?thesis
  proof (cases "lookupField ?s = []")
    case True
    then have "pendingKey R index x = indexKey R index x" for x
      by (simp add: pendingKey_def split: indexValue.split)
    then show ?thesis using values_typed_inject[OF ty] by (simp add: keys)
  next
    case False
    note one = values_typed_single[OF assms(1) False ty]
    have "length (rowValues R ?s x) = 1" for x using False assms(1) by (simp add: rowValues_def lookup_spec_def)
    then have "indexKey R index x = writeIndexKey (firstValue R index x)" for x
      unfolding keys hd by (metis One_nat_def append_Nil2 concat.simps length_0_conv length_Suc_conv list.simps(8,9) nth_Cons_0)
    then have "pendingKey R index x = (case rowValues R ?s x ! 0 of KeyString s \<Rightarrow> s | v \<Rightarrow> writeIndexKey v)" for x
      using False by (simp add: pendingKey_def hd split: indexValue.split)
    moreover have fits: "key_fits (rowValues R ?s x ! 0)" if "values_typed ?s (rowValues R ?s x)" for x
      using that \<open>\<And>x. length (rowValues R ?s x) = 1\<close> by (auto simp: values_typed_def)
    ultimately show ?thesis
      using one writeIndexKey_inject[OF one(2) fits[OF ty(1)] fits[OF ty(2)], of "[]" "[]"]
      by (cases "rowValues R ?s p ! 0"; cases "rowValues R ?s q ! 0") auto
  qed
qed

lemma uniqueIDForValidation_conv:
  "uniqueIDForValidation R index p (pendingKey R index p) = uniqueID R index p"
  by (auto simp: uniqueIDForValidation_def uniqueID_def pendingKey_def split: indexValue.split)

definition written :: "'p pendingWrite \<Rightarrow> bool" where
  "written it \<longleftrightarrow> \<not> deleted it"

definition stays_free :: "'p reflection \<Rightarrow> int set \<Rightarrow> 'p secondaryIndex \<Rightarrow> 'p pendingWrite \<Rightarrow> bool" where
  "stays_free R changed index it \<longleftrightarrow>
     (\<forall>e. uniqueID R index (the (work it)) = Some e \<longrightarrow> e = pw_id it \<or> e \<in> changed)"

lemma validateItem_conv:
  assumes "written it \<longrightarrow> work it \<noteq> None"
  shows "validateItem R changed index pending it = Inr pending' \<longleftrightarrow>
    (if written it
     then stays_free R changed index it \<and> (\<forall>e. pending (pendingKey R index (the (work it))) = Some e \<longrightarrow> e = pw_id it) \<and>
          pending' = pending(pendingKey R index (the (work it)) \<mapsto> pw_id it)
     else pending' = pending)"
  using assms
  by (auto simp: validateItem_def written_def stays_free_def Let_def uniqueIDForValidation_conv
      split: option.splits if_splits)

lemma validate_fold:
  assumes "\<forall>it \<in> set items. written it \<longrightarrow> work it \<noteq> None"
  shows "(\<exists>m. fold_result (validateItem R changed index) items pending = Inr m) \<longleftrightarrow>
    (\<forall>it \<in> set items. written it \<longrightarrow> stays_free R changed index it \<and>
       (\<forall>e. pending (pendingKey R index (the (work it))) = Some e \<longrightarrow> e = pw_id it)) \<and>
    (\<forall>it \<in> set items. \<forall>it' \<in> set items. written it \<longrightarrow> written it' \<longrightarrow>
       pendingKey R index (the (work it)) = pendingKey R index (the (work it')) \<longrightarrow> pw_id it = pw_id it')"
  using assms
proof (induction items arbitrary: pending)
  case Nil
  then show ?case by simp
next
  case (Cons it items)
  have w: "written it \<longrightarrow> work it \<noteq> None" using Cons.prems by simp
  have ws: "\<forall>it \<in> set items. written it \<longrightarrow> work it \<noteq> None" using Cons.prems by simp
  have "(\<exists>m. fold_result (validateItem R changed index) (it # items) pending = Inr m) \<longleftrightarrow>
      (\<exists>p'. validateItem R changed index pending it = Inr p' \<and>
        (\<exists>m. fold_result (validateItem R changed index) items p' = Inr m))"
    by (auto split: sum.splits)
  also have "\<dots> \<longleftrightarrow>
    (\<forall>it \<in> set (it # items). written it \<longrightarrow> stays_free R changed index it \<and>
       (\<forall>e. pending (pendingKey R index (the (work it))) = Some e \<longrightarrow> e = pw_id it)) \<and>
    (\<forall>x \<in> set (it # items). \<forall>y \<in> set (it # items). written x \<longrightarrow> written y \<longrightarrow>
       pendingKey R index (the (work x)) = pendingKey R index (the (work y)) \<longrightarrow> pw_id x = pw_id y)"
  proof (cases "written it")
    case False
    then show ?thesis unfolding validateItem_conv[OF w] Cons.IH[OF ws] by simp
  next
    case True
    define F where "F = stays_free R changed index"
    define K where "K = (\<lambda>x. pendingKey R index (the (work (x :: _ pendingWrite))))"
    define Q where "Q = (\<lambda>it. \<forall>e. pending (K it) = Some e \<longrightarrow> e = pw_id it)"
    have upd: "(\<forall>e. (pending(K it \<mapsto> pw_id it)) (K x) = Some e \<longrightarrow> e = pw_id x) \<longleftrightarrow>
        (if K x = K it then pw_id it = pw_id x else Q x)" for x by (simp add: Q_def)
    have same: "K x = K it \<Longrightarrow> pw_id it = pw_id x \<Longrightarrow> Q it \<Longrightarrow> Q x" for x by (simp add: Q_def)
    have "(\<exists>p'. validateItem R changed index pending it = Inr p' \<and>
        (\<exists>m. fold_result (validateItem R changed index) items p' = Inr m)) \<longleftrightarrow>
      F it \<and> Q it \<and> (\<forall>x \<in> set items. written x \<longrightarrow> F x \<and> (if K x = K it then pw_id it = pw_id x else Q x)) \<and>
      (\<forall>x \<in> set items. \<forall>y \<in> set items. written x \<longrightarrow> written y \<longrightarrow> K x = K y \<longrightarrow> pw_id x = pw_id y)"
      unfolding validateItem_conv[OF w] Cons.IH[OF ws] upd[symmetric]
      using True by (simp add: F_def K_def Q_def)
    also have "\<dots> \<longleftrightarrow> (\<forall>x \<in> set (it # items). written x \<longrightarrow> F x \<and> Q x) \<and>
      (\<forall>x \<in> set (it # items). \<forall>y \<in> set (it # items). written x \<longrightarrow> written y \<longrightarrow> K x = K y \<longrightarrow> pw_id x = pw_id y)"
      (is "?l \<longleftrightarrow> ?r")
    proof
      assume l: ?l
      have each: "F x \<and> (if K x = K it then pw_id it = pw_id x else Q x)" if "x \<in> set items" "written x" for x
        using l that by blast
      have pair: "pw_id x = pw_id y" if "x \<in> set items" "y \<in> set items" "written x" "written y" "K x = K y" for x y
        using l that by blast
      have l0: "F it" "Q it" using l by blast+
      have q: "F x \<and> Q x \<and> (K x = K it \<longrightarrow> pw_id it = pw_id x)" if "x \<in> set (it # items)" "written x" for x
      proof (cases "x = it")
        case True
        then show ?thesis using l0 by blast
      next
        case False
        then have e: "F x \<and> (if K x = K it then pw_id it = pw_id x else Q x)" using each that by simp
        show ?thesis
        proof (cases "K x = K it")
          case True
          then have i: "pw_id it = pw_id x" using e by metis
          then show ?thesis using e same[OF True i l0(2)] by blast
        next
          case False
          then show ?thesis using e by metis
        qed
      qed
      show ?r
      proof (intro conjI ballI impI)
        fix x y assume xy: "x \<in> set (it # items)" "y \<in> set (it # items)" "written x" "written y" "K x = K y"
        consider "x = it" | "y = it" | "x \<in> set items" "y \<in> set items" using xy(1,2) by auto
        then show "pw_id x = pw_id y"
        proof cases
          case 1
          then show ?thesis using q[OF xy(2,4)] xy(5) by metis
        next
          case 2
          then show ?thesis using q[OF xy(1,3)] xy(5) by metis
        next
          case 3
          then show ?thesis using pair xy by blast
        qed
      qed (use q in \<open>blast+\<close>)
    next
      assume r: ?r
      have r1: "F x \<and> Q x" if "x \<in> set (it # items)" "written x" for x
        using bspec[OF conjunct1[OF r] that(1)] that(2) by blast
      have r2: "pw_id x = pw_id y" if "x \<in> set (it # items)" "y \<in> set (it # items)" "written x" "written y" "K x = K y" for x y
        using bspec[OF bspec[OF conjunct2[OF r] that(1)] that(2)] that(3-) by blast
      have it: "it \<in> set (it # items)" and mem: "\<And>x. x \<in> set items \<Longrightarrow> x \<in> set (it # items)" by simp_all
      have first: "F it" "Q it" using r1[OF it True] by blast+
      have "F x \<and> (if K x = K it then pw_id it = pw_id x else Q x)" if x: "x \<in> set items" "written x" for x
        using r1[OF mem[OF x(1)] x(2)] r2[OF it mem[OF x(1)] True x(2)] by (cases "K x = K it") metis+
      moreover have "pw_id x = pw_id y" if "x \<in> set items" "y \<in> set items" "written x" "written y" "K x = K y" for x y
        by (rule r2[OF mem[OF that(1)] mem[OF that(2)] that(3-5)])
      ultimately show ?l using first by blast
    qed
    finally show ?thesis by (simp add: F_def K_def Q_def)
  qed
  finally show ?case .
qed

text \<open>The value lists of the rows a commit would leave, with their ids.\<close>

definition rows_after :: "'p reflection \<Rightarrow> secondaryIndexSpec \<Rightarrow> 'p indexedTable \<Rightarrow> 'p pendingWrite list \<Rightarrow> (indexValue list \<times> int) set" where
  "rows_after R s db items =
     {(rowValues R s p, i) |p i. resById db i = Some p \<and> i \<notin> pw_id ` set items} \<union>
     {(rowValues R s (the (work it)), pw_id it) |it. it \<in> set items \<and> written it}"

definition table_ok :: "'p reflection \<Rightarrow> 'p indexedTable \<Rightarrow> bool" where
  "table_ok R db \<longleftrightarrow>
     (\<forall>i p. resById db i = Some p \<longrightarrow> GetId R p = i) \<and>
     (\<forall>q \<in> set (secondary db). index_ok R (ran (resById db)) (snd q))"

definition items_ok :: "'p reflection \<Rightarrow> 'p indexedTable \<Rightarrow> 'p pendingWrite list \<Rightarrow> bool" where
  "items_ok R db items \<longleftrightarrow>
     distinct (map pw_id items) \<and>
     (\<forall>it \<in> set items. written it \<longrightarrow> work it \<noteq> None \<and> pw_id it \<noteq> 0 \<and>
        (\<forall>q \<in> set (secondary db). row_typed R (spec (snd q)) (the (work it))))"

lemma validate_index:
  assumes ids: "\<forall>i p. resById db i = Some p \<longrightarrow> GetId R p = i"
    and ok: "index_ok R (ran (resById db)) index" and u: "is_unique (spec index)"
    and works: "\<And>it. it \<in> set items \<Longrightarrow> written it \<Longrightarrow> work it \<noteq> None \<and> row_typed R (spec index) (the (work it))"
  shows "(\<exists>m. fold_result (validateItem R (pw_id ` set items) index) items (\<lambda>_. None) = Inr m) \<longleftrightarrow>
    single_valued (rows_after R (spec index) db items)"
proof -
  let ?v = "rowValues R (spec index)" and ?ids = "pw_id ` set items"
  have spec: "lookup_spec (spec index)" and inj: "inj_on ?v (ran (resById db))"
    and look: "\<And>vs i. values_typed (spec index) vs \<Longrightarrow>
        idOf index vs = Some i \<longleftrightarrow> (\<exists>p \<in> ran (resById db). ?v p = vs \<and> GetId R p = i)"
    using ok u by (auto simp: index_ok_def lookups_ok_def)
  have held: "uniqueID R index (the (work it)) = Some e \<longleftrightarrow> (\<exists>p. resById db e = Some p \<and> ?v p = ?v (the (work it)))"
    if "it \<in> set items" "written it" for it e
  proof -
    have "values_typed (spec index) (?v (the (work it)))" using works[OF that] by (simp add: row_typed_def)
    then show ?thesis
      using look[of "?v (the (work it))" e] ids by (auto simp: uniqueID_idOf[OF spec] ran_def)
  qed
  have keys: "pendingKey R index (the (work it)) = pendingKey R index (the (work it')) \<longleftrightarrow> ?v (the (work it)) = ?v (the (work it'))"
    if "it \<in> set items" "written it" "it' \<in> set items" "written it'" for it it'
    using pendingKey_eq[OF spec] works that by blast
  have "(\<exists>m. fold_result (validateItem R ?ids index) items (\<lambda>_. None) = Inr m) \<longleftrightarrow>
      (\<forall>it \<in> set items. written it \<longrightarrow> stays_free R ?ids index it) \<and>
      (\<forall>it \<in> set items. \<forall>it' \<in> set items. written it \<longrightarrow> written it' \<longrightarrow>
         ?v (the (work it)) = ?v (the (work it')) \<longrightarrow> pw_id it = pw_id it')"
    using validate_fold[of items R ?ids index "\<lambda>_. None"] works keys by auto
  also have "\<dots> \<longleftrightarrow> single_valued (rows_after R (spec index) db items)"
  proof
    assume V: "(\<forall>it \<in> set items. written it \<longrightarrow> stays_free R ?ids index it) \<and>
      (\<forall>it \<in> set items. \<forall>it' \<in> set items. written it \<longrightarrow> written it' \<longrightarrow>
         ?v (the (work it)) = ?v (the (work it')) \<longrightarrow> pw_id it = pw_id it')"
    have both: "pw_id it = pw_id it'" if "it \<in> set items" "it' \<in> set items" "written it" "written it'"
        "?v (the (work it)) = ?v (the (work it'))" for it it'
      using V that by blast
    have kept: "i = j" if "resById db i = Some p" "resById db j = Some q" "?v p = ?v q" for i j p q
      using that inj ids by (metis inj_onD ranI)
    have mixed: False if "resById db i = Some p" "i \<notin> ?ids" "it \<in> set items" "written it" "?v p = ?v (the (work it))" for i p it
      using V that held[of it i] by (auto simp: stays_free_def)
    show "single_valued (rows_after R (spec index) db items)"
    proof (rule single_valuedI)
      fix vs i j
      assume "(vs, i) \<in> rows_after R (spec index) db items" "(vs, j) \<in> rows_after R (spec index) db items"
      then have "(\<exists>p. resById db i = Some p \<and> i \<notin> ?ids \<and> vs = ?v p) \<or>
            (\<exists>it \<in> set items. written it \<and> i = pw_id it \<and> vs = ?v (the (work it)))"
          "(\<exists>p. resById db j = Some p \<and> j \<notin> ?ids \<and> vs = ?v p) \<or>
            (\<exists>it \<in> set items. written it \<and> j = pw_id it \<and> vs = ?v (the (work it)))"
        by (auto simp: rows_after_def)
      then show "i = j"
      proof (elim disjE exE bexE conjE)
        fix p q assume "resById db i = Some p" "resById db j = Some q" "vs = ?v p" "vs = ?v q"
        then show ?thesis using kept by simp
      next
        fix p it assume "resById db i = Some p" "i \<notin> ?ids" "it \<in> set items" "written it" "vs = ?v p" "vs = ?v (the (work it))"
        then show ?thesis using mixed[of i p it] by simp
      next
        fix p it assume "resById db j = Some p" "j \<notin> ?ids" "it \<in> set items" "written it" "vs = ?v p" "vs = ?v (the (work it))"
        then show ?thesis using mixed[of j p it] by simp
      next
        fix it it' assume "it \<in> set items" "it' \<in> set items" "written it" "written it'"
            "vs = ?v (the (work it))" "vs = ?v (the (work it'))" "i = pw_id it" "j = pw_id it'"
        then show ?thesis using both[of it it'] by simp
      qed
    qed
  next
    assume sv: "single_valued (rows_after R (spec index) db items)"
    have new: "(?v (the (work it)), pw_id it) \<in> rows_after R (spec index) db items" if "it \<in> set items" "written it" for it
      using that by (auto simp: rows_after_def)
    have "e = pw_id it \<or> e \<in> ?ids" if w: "it \<in> set items" "written it" and u: "uniqueID R index (the (work it)) = Some e" for it e
    proof (rule disjCI)
      assume "e \<notin> ?ids"
      moreover obtain p where p: "resById db e = Some p" "?v p = ?v (the (work it))"
        using held[OF w, of e] u by blast
      ultimately have "(?v p, e) \<in> rows_after R (spec index) db items"
        unfolding rows_after_def by blast
      then have "(?v (the (work it)), e) \<in> rows_after R (spec index) db items" by (simp only: p(2))
      then show "e = pw_id it" by (rule single_valuedD[OF sv _ new[OF w]])
    qed
    then show "(\<forall>it \<in> set items. written it \<longrightarrow> stays_free R ?ids index it) \<and>
      (\<forall>it \<in> set items. \<forall>it' \<in> set items. written it \<longrightarrow> written it' \<longrightarrow>
         ?v (the (work it)) = ?v (the (work it')) \<longrightarrow> pw_id it = pw_id it')"
    proof (intro conjI ballI impI)
      fix it it' assume a: "it \<in> set items" "it' \<in> set items" "written it" "written it'"
        "?v (the (work it)) = ?v (the (work it'))"
      have "(?v (the (work it)), pw_id it') \<in> rows_after R (spec index) db items"
        using new[OF a(2,4)] a(5) by simp
      then show "pw_id it = pw_id it'" using single_valuedD[OF sv new[OF a(1,3)]] by blast
    qed (simp add: stays_free_def)
  qed
  finally show ?thesis .
qed

section \<open>Whole tables\<close>

lemma mapIndexes_simps [simp]:
  "resById (mapIndexes f db) = resById db"
  "secondary (mapIndexes f db) = map (\<lambda>q. (fst q, f (snd q))) (secondary db)"
  by (simp_all add: mapIndexes_def)

lemma fold_mapIndexes:
  "foldl (\<lambda>db p. mapIndexes (\<lambda>index. f index p) db) db ps = mapIndexes (\<lambda>index. foldl f index ps) db"
proof (induction ps arbitrary: db)
  case Nil
  then show ?case by (simp add: mapIndexes_def)
next
  case (Cons p ps)
  then show ?case by (simp add: mapIndexes_def)
qed

lemma removeSecondaryIndices_conv: "removeSecondaryIndices R = (\<lambda>db p. mapIndexes (\<lambda>index. removeBoth R index p) db)"
  by (simp add: removeSecondaryIndices_def mapIndexes_def removeBoth_def fun_eq_iff)

lemma addSecondaryIndices_conv: "addSecondaryIndices R = (\<lambda>db p. mapIndexes (\<lambda>index. addBoth R index p) db)"
  by (simp add: addSecondaryIndices_def mapIndexes_def addBoth_def fun_eq_iff)

lemma mapIndexes_cong:
  "(\<And>q. q \<in> set (secondary db) \<Longrightarrow> f (snd q) = g (snd q)) \<Longrightarrow> mapIndexes f db = mapIndexes g db"
  by (simp add: mapIndexes_def)

text \<open>The rows a commit does not touch.\<close>

definition keptRows :: "'p indexedTable \<Rightarrow> 'p pendingWrite list \<Rightarrow> 'p set" where
  "keptRows db items = {p. \<exists>i. resById db i = Some p \<and> i \<notin> pw_id ` set items}"

lemma map_filter_rows:
  assumes "distinct (map pw_id items)" and "\<forall>i p. res i = Some p \<longrightarrow> gid p = i"
  shows "set (List.map_filter (\<lambda>it. res (pw_id it)) items) = {p. \<exists>it \<in> set items. res (pw_id it) = Some p}"
    and "distinct (List.map_filter (\<lambda>it. res (pw_id it)) items)"
proof -
  show "set (List.map_filter (\<lambda>it. res (pw_id it)) items) = {p. \<exists>it \<in> set items. res (pw_id it) = Some p}"
    by (induction items) (auto simp: List.map_filter_simps split: option.splits)
  show "distinct (List.map_filter (\<lambda>it. res (pw_id it)) items)"
    using assms
  proof (induction items)
    case Nil
    then show ?case by (simp add: List.map_filter_def)
  next
    case (Cons it items)
    have IH: "distinct (List.map_filter (\<lambda>it. res (pw_id it)) items)" using Cons by simp
    show ?case
    proof (cases "res (pw_id it)")
      case None
      then show ?thesis using IH by (simp add: List.map_filter_simps)
    next
      case (Some p)
      have "p \<notin> set (List.map_filter (\<lambda>it. res (pw_id it)) items)"
      proof
        assume "p \<in> set (List.map_filter (\<lambda>it. res (pw_id it)) items)"
        then obtain it' where "it' \<in> set items" "res (pw_id it') = Some p"
          by (auto simp: List.map_filter_def)
        then have "pw_id it' = pw_id it" using Cons.prems(2) Some by metis
        then show False using Cons.prems(1) \<open>it' \<in> set items\<close> by (metis distinct.simps(2) image_eqI list.set_map list.simps(9))
      qed
      then show ?thesis using IH Some by (simp add: List.map_filter_simps)
    qed
  qed
qed

lemma touched_kept:
  assumes "table_ok R db" "distinct (map pw_id items)"
  shows "distinct (touchedRows db items)" "set (touchedRows db items) \<subseteq> ran (resById db)"
    and "ran (resById db) - set (touchedRows db items) = keptRows db items"
    and "{i \<in> pw_id ` set items. resById db i \<noteq> None} = GetId R ` set (touchedRows db items)"
proof -
  have ids: "\<forall>i p. resById db i = Some p \<longrightarrow> GetId R p = i" using assms(1) by (simp add: table_ok_def)
  note M = map_filter_rows[OF assms(2) ids, folded touchedRows_def]
  show "distinct (touchedRows db items)" by (rule M(2))
  show "set (touchedRows db items) \<subseteq> ran (resById db)" by (auto simp: M(1) ran_def)
  show "ran (resById db) - set (touchedRows db items) = keptRows db items"
    unfolding M(1)
  proof (rule set_eqI)
    fix p
    show "p \<in> ran (resById db) - {p. \<exists>it \<in> set items. resById db (pw_id it) = Some p} \<longleftrightarrow> p \<in> keptRows db items"
    proof
      assume "p \<in> ran (resById db) - {p. \<exists>it \<in> set items. resById db (pw_id it) = Some p}"
      then obtain i where "resById db i = Some p" "\<forall>it \<in> set items. resById db (pw_id it) \<noteq> Some p"
        by (auto simp: ran_def)
      then show "p \<in> keptRows db items" by (auto simp: keptRows_def)
    next
      assume "p \<in> keptRows db items"
      then obtain i where i: "resById db i = Some p" "i \<notin> pw_id ` set items" by (auto simp: keptRows_def)
      have "resById db (pw_id it) \<noteq> Some p" if "it \<in> set items" for it
        using ids[rule_format, of i p] ids[rule_format, of "pw_id it" p] i that by auto
      then show "p \<in> ran (resById db) - {p. \<exists>it \<in> set items. resById db (pw_id it) = Some p}"
        using i(1) by (auto simp: ran_def)
    qed
  qed
  show "{i \<in> pw_id ` set items. resById db i \<noteq> None} = GetId R ` set (touchedRows db items)"
    using ids by (force simp: M(1) image_iff)
qed

lemma prepare_conv:
  assumes "table_ok R db" "distinct (map pw_id items)"
  shows "prepareIndexBatch R db items = foldl (removeSecondaryIndices R) db (touchedRows db items)"
    and "prepareIndexes R db items = mapIndexes (\<lambda>index. foldl (removeBoth R) index (touchedRows db items)) db"
proof -
  note T = touched_kept[OF assms]
  let ?ps = "touchedRows db items"
  have seq: "foldl (removeSecondaryIndices R) db ?ps = mapIndexes (\<lambda>index. foldl (removeBoth R) index ?ps) db"
    unfolding removeSecondaryIndices_conv by (rule fold_mapIndexes)
  have batch: "prepareIndexBatch R db items = mapIndexes (\<lambda>index. foldl (removeBoth R) index ?ps) db"
  proof (cases "?ps = []")
    case True
    then show ?thesis by (simp add: prepareIndexBatch_def mapIndexes_def)
  next
    case False
    then have "prepareIndexBatch R db items =
        mapIndexes (\<lambda>index. index\<lparr>entries := filter (\<lambda>p. GetId R p \<notin> GetId R ` set ?ps) (entries index)\<rparr>)
          (mapIndexes (\<lambda>index. foldl (removeLookup R) index ?ps) db)"
      unfolding prepareIndexBatch_def T(4) Let_def fold_mapIndexes by simp
    also have "\<dots> = mapIndexes (\<lambda>index. (foldl (removeLookup R) index ?ps)
          \<lparr>entries := filter (\<lambda>p. GetId R p \<notin> GetId R ` set ?ps) (entries index)\<rparr>) db"
      by (simp add: mapIndexes_def)
    also have "\<dots> = mapIndexes (\<lambda>index. foldl (removeBoth R) index ?ps) db"
      using assms(1) T by (intro mapIndexes_cong batch_remove_index) (auto simp: table_ok_def)
    finally show ?thesis .
  qed
  show "prepareIndexBatch R db items = foldl (removeSecondaryIndices R) db ?ps" using batch seq by simp
  show "prepareIndexes R db items = mapIndexes (\<lambda>index. foldl (removeBoth R) index ?ps) db"
    using batch seq by (simp add: prepareIndexes_def mapIndexes_def)
qed

text \<open>What the commit did to the rows between \<open>prepareIndexes\<close> and \<open>finishIndexes\<close>.\<close>

definition rows_written ::
  "'p reflection \<Rightarrow> 'p indexedTable \<Rightarrow> 'p pendingWrite list \<Rightarrow> 'p reflection \<Rightarrow> (int \<Rightarrow> 'p option) \<Rightarrow> bool" where
  "rows_written R db items R' res' \<longleftrightarrow>
     (\<forall>i p. res' i = Some p \<longrightarrow> GetId R' p = i) \<and>
     (\<forall>it \<in> set items. \<not> written it \<longrightarrow> res' (pw_id it) = None) \<and>
     (\<forall>it \<in> set items. written it \<longrightarrow>
        (\<exists>p. res' (pw_id it) = Some p \<and> Field R' p = Field R (the (work it)))) \<and>
     (\<forall>i. i \<notin> pw_id ` set items \<longrightarrow> res' i = resById db i) \<and>
     (\<forall>p \<in> keptRows db items. Field R' p = Field R p)"

lemma index_ok_cong:
  assumes "index_ok R rows index" and "\<And>p. p \<in> rows \<Longrightarrow> GetId R' p = GetId R p \<and> Field R' p = Field R p"
  shows "index_ok R' rows index"
proof -
  let ?s = "spec index"
  have v: "rowValues R' ?s p = rowValues R ?s p" "sortKey R' ?s p = sortKey R ?s p" "row_typed R' ?s p = row_typed R ?s p"
    "GetId R' p = GetId R p" if "p \<in> rows" for p
    using assms(2)[OF that] by (simp_all add: rowValues_def sortKey_def row_typed_def)
  have m: "map (sortKey R' ?s) (entries index) = map (sortKey R ?s) (entries index)"
    using assms(1) v(2) by (intro map_cong) (auto simp: index_ok_def entries_ok_def)
  have "entries_ok R' rows index" using assms(1) unfolding index_ok_def entries_ok_def m by blast
  moreover have "rows_ok R' ?s rows" using assms(1) v by (auto simp: index_ok_def rows_ok_def inj_on_def)
  moreover have "lookups_ok R' rows index"
    using assms(1) v by (auto simp: index_ok_def lookups_ok_def inj_on_def)
  ultimately show ?thesis using assms(1) by (simp add: index_ok_def)
qed

lemma written_rows:
  assumes t: "table_ok R db" and i: "items_ok R db items" and w: "rows_written R db items R' res'"
  defines "W \<equiv> List.map_filter (\<lambda>it. res' (pw_id it)) (filter (\<lambda>it. \<not> deleted it) items)"
  shows "distinct W" "set W \<inter> keptRows db items = {}" "keptRows db items \<union> set W = ran res'"
proof -
  have d: "distinct (map pw_id (filter (\<lambda>it. \<not> deleted it) items))"
    using i by (simp add: items_ok_def distinct_map_filter)
  have ids: "\<forall>i p. res' i = Some p \<longrightarrow> GetId R' p = i" using w by (simp add: rows_written_def)
  note M = map_filter_rows[OF d ids, folded W_def]
  show "distinct W" by (rule M(2))
  have W: "set W = {p. \<exists>it \<in> set items. written it \<and> res' (pw_id it) = Some p}"
    by (auto simp: M(1) written_def)
  have kept: "keptRows db items = {p. \<exists>i. i \<notin> pw_id ` set items \<and> res' i = Some p}"
    using w by (auto simp: keptRows_def rows_written_def)
  show "set W \<inter> keptRows db items = {}"
  proof (rule ccontr)
    assume "set W \<inter> keptRows db items \<noteq> {}"
    then obtain p it i where "it \<in> set items" "res' (pw_id it) = Some p" "i \<notin> pw_id ` set items" "res' i = Some p"
      by (auto simp: W kept)
    then show False using ids by (metis image_eqI)
  qed
  show "keptRows db items \<union> set W = ran res'"
  proof (rule set_eqI)
    fix p
    show "p \<in> keptRows db items \<union> set W \<longleftrightarrow> p \<in> ran res'"
    proof
      assume "p \<in> ran res'"
      then obtain i where i: "res' i = Some p" by (auto simp: ran_def)
      show "p \<in> keptRows db items \<union> set W"
      proof (cases "i \<in> pw_id ` set items")
        case True
        then obtain it where it: "it \<in> set items" "i = pw_id it" by auto
        then have "written it" using w i by (fastforce simp: rows_written_def)
        then show ?thesis using it i by (auto simp: W)
      qed (use i in \<open>auto simp: kept\<close>)
    qed (auto simp: W kept ran_def)
  qed
qed

lemma rows_after_values:
  assumes w: "rows_written R db items R' res'" and t: "table_ok R db" and r: "res' i = Some p"
  shows "(rowValues R' s p, i) \<in> rows_after R s db items"
proof (cases "i \<in> pw_id ` set items")
  case True
  then obtain it where it: "it \<in> set items" "i = pw_id it" by auto
  then have wr: "written it" using w r by (fastforce simp: rows_written_def)
  then have "Field R' p = Field R (the (work it))" using w it r by (fastforce simp: rows_written_def)
  then show ?thesis using it wr by (auto simp: rows_after_def rowValues_def)
next
  case False
  then have res: "resById db i = Some p" using w r by (simp add: rows_written_def)
  then have "p \<in> keptRows db items" using False by (auto simp: keptRows_def)
  then have "Field R' p = Field R p" using w by (simp add: rows_written_def)
  then show ?thesis using res False by (auto simp: rows_after_def rowValues_def)
qed

lemma validate_conv:
  assumes "table_ok R db" and "items_ok R db items"
  shows "validateIndexes R db items = Inr () \<longleftrightarrow>
    (\<forall>q \<in> set (secondary db). is_unique (spec (snd q)) \<longrightarrow> single_valued (rows_after R (spec (snd q)) db items))"
proof -
  have one: "(\<exists>m. fold_result (validateItem R (pw_id ` set items) (snd q)) items (\<lambda>_. None) = Inr m) \<longleftrightarrow>
      single_valued (rows_after R (spec (snd q)) db items)"
    if "q \<in> set (secondary db)" "is_unique (spec (snd q))" for q
    using assms that by (intro validate_index) (auto simp: table_ok_def items_ok_def)
  have all: "fold_result (\<lambda>_ q. if \<not> is_unique (spec (snd q)) then Inr ()
        else bind_result (fold_result (validateItem R (pw_id ` set items) (snd q)) items (\<lambda>_. None)) (\<lambda>_. Inr ())) qs () = Inr () \<longleftrightarrow>
      (\<forall>q \<in> set qs. is_unique (spec (snd q)) \<longrightarrow>
         (\<exists>m. fold_result (validateItem R (pw_id ` set items) (snd q)) items (\<lambda>_. None) = Inr m))" for qs
    by (induction qs) (auto simp: bind_result_Inr_iff split: sum.splits)
  show ?thesis unfolding validateIndexes_def all using one by blast
qed

lemma zip_map: "map2 (\<lambda>q es. (fst q, (snd q)\<lparr>entries := es\<rparr>)) (map (\<lambda>q. (fst q, f (snd q))) qs) (map g qs) =
    map (\<lambda>q. (fst q, (f (snd q))\<lparr>entries := g q\<rparr>)) qs"
  by (induction qs) auto

lemma finish_conv:
  assumes ok: "\<And>q. q \<in> set (secondary db) \<Longrightarrow> index_ok R rows (snd q)"
    and ps: "distinct (writtenRows db items)" "set (writtenRows db items) \<inter> rows = {}"
    and r: "\<And>q. q \<in> set (secondary db) \<Longrightarrow> rows_ok R (spec (snd q)) (rows \<union> set (writtenRows db items))"
    and inj: "\<And>q. q \<in> set (secondary db) \<Longrightarrow> is_unique (spec (snd q)) \<Longrightarrow>
        inj_on (rowValues R (spec (snd q))) (rows \<union> set (writtenRows db items))"
  shows "finishIndexBatch R db items = foldl (addSecondaryIndices R) db (writtenRows db items)"
    and "finishIndexes R db items = mapIndexes (\<lambda>index. foldl (addBoth R) index (writtenRows db items)) db"
proof -
  let ?ps = "writtenRows db items"
  have seq: "foldl (addSecondaryIndices R) db ?ps = mapIndexes (\<lambda>index. foldl (addBoth R) index ?ps) db"
    unfolding addSecondaryIndices_conv by (rule fold_mapIndexes)
  have "finishIndexBatch R db items = db\<lparr>secondary := map (\<lambda>q. (fst q, (foldl (addLookup R) (snd q) ?ps)
        \<lparr>entries := mergeSecondaryIndexEntries R (snd q) (SortFunc (compare R (snd q)) ?ps)\<rparr>)) (secondary db)\<rparr>"
    unfolding finishIndexBatch_def Let_def fold_mapIndexes mapIndexes_simps
    by (subst zip_map[where f = "\<lambda>index. foldl (addLookup R) index ?ps"]) (simp add: mapIndexes_def)
  also have "\<dots> = mapIndexes (\<lambda>index. foldl (addBoth R) index ?ps) db"
    using batch_add_index[OF ok ps r inj] by (simp add: mapIndexes_def)
  finally have batch: "finishIndexBatch R db items = mapIndexes (\<lambda>index. foldl (addBoth R) index ?ps) db" .
  show "finishIndexBatch R db items = foldl (addSecondaryIndices R) db ?ps" using batch seq by simp
  show "finishIndexes R db items = mapIndexes (\<lambda>index. foldl (addBoth R) index ?ps) db"
    using batch seq by (simp add: finishIndexes_def mapIndexes_def)
qed

text \<open>The state between \<open>prepareIndexes\<close> and \<open>finishIndexes\<close>, with the rows already written.\<close>

lemma mid_commit:
  assumes t: "table_ok R db" and i: "items_ok R db items" and v: "validateIndexes R db items = Inr ()"
    and w: "rows_written R db items R' res'"
  defines "mid \<equiv> (prepareIndexes R db items)\<lparr>resById := res'\<rparr>"
  shows "\<And>q. q \<in> set (secondary mid) \<Longrightarrow> index_ok R' (keptRows db items) (snd q)"
    and "distinct (writtenRows mid items)" and "set (writtenRows mid items) \<inter> keptRows db items = {}"
    and "keptRows db items \<union> set (writtenRows mid items) = ran res'"
    and "\<And>q. q \<in> set (secondary mid) \<Longrightarrow> rows_ok R' (spec (snd q)) (ran res')"
    and "\<And>q. q \<in> set (secondary mid) \<Longrightarrow> is_unique (spec (snd q)) \<Longrightarrow> inj_on (rowValues R' (spec (snd q))) (ran res')"
proof -
  have d: "distinct (map pw_id items)" using i by (simp add: items_ok_def)
  note T = touched_kept[OF t d]
  note P = prepare_conv(2)[OF t d]
  have Wdef: "writtenRows mid items = List.map_filter (\<lambda>it. res' (pw_id it)) (filter (\<lambda>it. \<not> deleted it) items)"
    by (simp add: writtenRows_def mid_def)
  show "distinct (writtenRows mid items)" "set (writtenRows mid items) \<inter> keptRows db items = {}"
    "keptRows db items \<union> set (writtenRows mid items) = ran res'"
    unfolding Wdef by (rule written_rows[OF t i w])+
  have ids: "\<forall>i p. resById db i = Some p \<longrightarrow> GetId R p = i" using t by (simp add: table_ok_def)
  have ids': "\<forall>i p. res' i = Some p \<longrightarrow> GetId R' p = i" using w by (simp add: rows_written_def)
  have secs: "secondary mid = map (\<lambda>q. (fst q, foldl (removeBoth R) (snd q) (touchedRows db items))) (secondary db)"
    by (simp add: mid_def P)
  have same: "GetId R' p = GetId R p \<and> Field R' p = Field R p" if p: "p \<in> keptRows db items" for p
  proof -
    obtain i where i: "resById db i = Some p" "i \<notin> pw_id ` set items" using p unfolding keptRows_def by blast
    then have "res' i = Some p" using w by (simp add: rows_written_def)
    then show ?thesis using i ids ids' w p by (simp add: rows_written_def)
  qed
  show "index_ok R' (keptRows db items) (snd q)" if q: "q \<in> set (secondary mid)" for q
  proof -
    obtain q0 where q0: "q0 \<in> set (secondary db)" "snd q = foldl (removeBoth R) (snd q0) (touchedRows db items)"
      using q by (auto simp: secs)
    have "index_ok R (ran (resById db)) (snd q0)" using t q0(1) by (simp add: table_ok_def)
    from removed_ok[OF this T(1,2)] have "index_ok R (keptRows db items) (snd q)" by (simp add: T(3) q0(2))
    then show ?thesis by (rule index_ok_cong) (rule same)
  qed
  have specs: "\<exists>q0 \<in> set (secondary db). spec (snd q0) = spec (snd q)" if "q \<in> set (secondary mid)" for q
    using that by (auto simp: secs) (metis snd_conv)
  show "rows_ok R' (spec (snd q)) (ran res')" if q: "q \<in> set (secondary mid)" for q
  proof -
    obtain q0 where q0: "q0 \<in> set (secondary db)" "spec (snd q0) = spec (snd q)" using specs[OF q] by blast
    have old: "row_typed R (spec (snd q)) p \<and> GetId R p \<noteq> 0" if "resById db j = Some p" for j p
    proof -
      have "index_ok R (ran (resById db)) (snd q0)" using t q0(1) by (simp add: table_ok_def)
      then have "rows_ok R (spec (snd q)) (ran (resById db))" by (simp add: index_ok_def q0(2))
      then show ?thesis using that by (auto simp: rows_ok_def ran_def)
    qed
    have "row_typed R' (spec (snd q)) p \<and> GetId R' p \<noteq> 0" if p: "res' j = Some p" for j p
    proof (cases "j \<in> pw_id ` set items")
      case True
      then obtain it where it: "it \<in> set items" "j = pw_id it" by auto
      then have wr: "written it" using w p by (fastforce simp: rows_written_def)
      then have f: "Field R' p = Field R (the (work it))" using w it p by (fastforce simp: rows_written_def)
      have "row_typed R (spec (snd q)) (the (work it))" "pw_id it \<noteq> 0"
        using i it wr q0 by (auto simp: items_ok_def) (metis q0(2))
      then show ?thesis using f it ids' p by (simp add: row_typed_def rowValues_def)
    next
      case False
      then have r: "resById db j = Some p" using w p by (simp add: rows_written_def)
      then have "p \<in> keptRows db items" using False by (auto simp: keptRows_def)
      from same[OF this] show ?thesis using old[OF r] by (simp add: row_typed_def rowValues_def)
    qed
    moreover have "inj_on (GetId R') (ran res')" using ids' by (auto simp: inj_on_def ran_def)
    ultimately show ?thesis by (auto simp: rows_ok_def ran_def)
  qed
  show "inj_on (rowValues R' (spec (snd q))) (ran res')" if q: "q \<in> set (secondary mid)" "is_unique (spec (snd q))" for q
  proof (rule inj_onI)
    obtain q0 where q0: "q0 \<in> set (secondary db)" "spec (snd q0) = spec (snd q)" using specs[OF q(1)] by blast
    have sv: "single_valued (rows_after R (spec (snd q)) db items)"
      using validate_conv[OF t i] v q0 q(2) by metis
    fix x y assume "x \<in> ran res'" "y \<in> ran res'" and e: "rowValues R' (spec (snd q)) x = rowValues R' (spec (snd q)) y"
    then obtain j k where jk: "res' j = Some x" "res' k = Some y" by (auto simp: ran_def)
    have "j = k"
      using single_valuedD[OF sv rows_after_values[OF w t jk(1)]] rows_after_values[OF w t jk(2)] e by metis
    then show "x = y" using jk by simp
  qed
qed

lemma newSecondaryIndex_lookups: "lookup_spec s \<Longrightarrow> lookups_ok R {} (newSecondaryIndex s\<lparr>entries := es\<rparr>)"
proof -
  have "uniqueValueID (newSecondaryIndex s\<lparr>entries := es\<rparr>) v = None" for v
    by (cases v) (simp_all add: newSecondaryIndex_def)
  then show ?thesis by (simp add: lookups_ok_def idOf_def) (simp add: newSecondaryIndex_def)
qed

section \<open>A concrete table\<close>

text \<open>
  Two rows at the pointers 1 and 2 under a unique index over one string field; pointer 3 is
  the working copy of a transaction that moves row 1 to a new key.
\<close>

definition demoSpec :: secondaryIndexSpec where
  "demoSpec = \<lparr>is_name = ''Email'',
     is_fields = [\<lparr>if_name = ''Email'', if_index = 1, if_typ = \<lparr>Kind = StringKind, typeId = ''string''\<rparr>, if_order = 0\<rparr>],
     is_unique = True, lookupField = ''Email''\<rparr>"

definition demoR :: "nat reflection" where
  "demoR = \<lparr>Field = (\<lambda>p _. KeyString [of_nat p]), GetId = (\<lambda>p. if p = 3 then 1 else int p)\<rparr>"

definition demoR' :: "nat reflection" where
  "demoR' = \<lparr>Field = (\<lambda>p _. KeyString [if p = 1 then 3 else of_nat p]), GetId = (\<lambda>p. if p = 3 then 1 else int p)\<rparr>"

definition demoTable :: "nat indexedTable" where
  "demoTable = \<lparr>secondary = [(''Email'', foldl (addBoth demoR) (newSecondaryIndex demoSpec) [1, 2])],
     resById = [1 \<mapsto> 1, 2 \<mapsto> 2]\<rparr>"

definition demoItems :: "nat pendingWrite list" where
  "demoItems = [\<lparr>pw_id = 1, work = Some 3, deleted = False\<rparr>]"

lemma demo_values [simp]:
  "rowValues demoR demoSpec p = [KeyString [of_nat p]]" "lookup_spec demoSpec" "row_typed demoR demoSpec p"
  "is_unique demoSpec" "lookupField demoSpec = ''Email''" "length (is_fields demoSpec) = 1"
  "spec (newSecondaryIndex demoSpec) = demoSpec" "GetId demoR p = (if p = 3 then 1 else int p)"
  by (simp_all add: rowValues_def demoSpec_def demoR_def lookup_spec_def row_typed_def values_typed_def
      newSecondaryIndex_def key_fits_def)

lemma demo_ran: "ran (resById demoTable) = {1, 2}"
proof -
  have "ran (resById demoTable) = (\<lambda>i. the (resById demoTable i)) ` dom (resById demoTable)"
    by (force simp: ran_def dom_def)
  also have "\<dots> = {1, 2}" by (auto simp: demoTable_def)
  finally show ?thesis .
qed

lemma demo_table: "table_ok demoR demoTable"
proof -
  have "index_ok demoR {} (newSecondaryIndex demoSpec)"
    using newSecondaryIndex_lookups[of demoSpec demoR "[]"]
    by (simp add: index_ok_def rows_ok_def entries_ok_def) (simp add: newSecondaryIndex_def)
  then have "index_ok demoR ({} \<union> set [1, 2]) (foldl (addBoth demoR) (newSecondaryIndex demoSpec) [1, 2])"
    by (rule added_ok) (auto simp: rows_ok_def inj_on_def)
  moreover have "{} \<union> set [1, 2] = {1, 2 :: nat}" by auto
  ultimately show ?thesis
    unfolding table_ok_def demo_ran by (auto simp: demoTable_def split: if_splits)
qed

lemma demo_secondary: "q \<in> set (secondary demoTable) \<Longrightarrow> spec (snd q) = demoSpec"
  by (auto simp: demoTable_def)

lemma demo_items: "items_ok demoR demoTable demoItems"
  by (auto simp: items_ok_def demoItems_def written_def demo_secondary)

lemma demo_valid: "validateIndexes demoR demoTable demoItems = Inr ()"
proof -
  have "single_valued (rows_after demoR demoSpec demoTable demoItems)"
    by (auto simp: single_valued_def rows_after_def demoTable_def demoItems_def written_def split: if_splits)
  then show ?thesis
    unfolding validate_conv[OF demo_table demo_items] by (auto simp: demo_secondary)
qed

lemma demo_written: "rows_written demoR demoTable demoItems demoR' (resById demoTable)"
  by (auto simp: rows_written_def demoItems_def written_def demoTable_def demoR_def demoR'_def keptRows_def fun_eq_iff
      split: if_splits)

section \<open>Properties\<close>

text \<open>
  C2. Validation is exact: on a table whose indexes are in order, \<open>validateIndexes\<close> accepts a
  commit if and only if no unique index would then hold one key for two different ids,
  whatever ids the commit changes, moves or deletes.
\<close>

theorem validation_decides_uniqueness:
  assumes "table_ok R db" and "items_ok R db items"
  shows "validateIndexes R db items = Inr () \<longleftrightarrow>
    (\<forall>q \<in> set (secondary db). is_unique (spec (snd q)) \<longrightarrow> single_valued (rows_after R (spec (snd q)) db items))"
  by (rule validate_conv[OF assms])

theorem validation_decides_uniqueness_witness:
  "validateIndexes demoR demoTable demoItems = Inr () \<longleftrightarrow>
    (\<forall>q \<in> set (secondary demoTable). is_unique (spec (snd q)) \<longrightarrow>
      single_valued (rows_after demoR (spec (snd q)) demoTable demoItems))"
  by (rule validation_decides_uniqueness[OF demo_table demo_items])

lemma commit_indexes:
  assumes "table_ok R db" and "items_ok R db items" and "validateIndexes R db items = Inr ()"
    and "rows_written R db items R' res'"
  shows "table_ok R' (finishIndexes R' ((prepareIndexes R db items)\<lparr>resById := res'\<rparr>) items)"
proof -
  define mid where "mid = (prepareIndexes R db items)\<lparr>resById := res'\<rparr>"
  note M = mid_commit[OF assms, folded mid_def]
  have F: "finishIndexes R' mid items = mapIndexes (\<lambda>index. foldl (addBoth R') index (writtenRows mid items)) mid"
    using M by (intro finish_conv(2)) auto
  have "index_ok R' (ran res') (foldl (addBoth R') (snd q) (writtenRows mid items))" if "q \<in> set (secondary mid)" for q
    using added_ok[OF M(1)[OF that] M(2,3)] M(4-6) that by auto
  moreover have "resById mid = res'" by (simp add: mid_def)
  ultimately show ?thesis
    unfolding mid_def[symmetric] F using assms(4) by (auto simp: table_ok_def rows_written_def)
qed

text \<open>
  The batch paths taken from 64 writes on compute exactly what the one-by-one paths
  compute: the same ordered entries and the same lookups, before and after the writes.
\<close>

theorem batch_paths_equal_single_paths:
  assumes "table_ok R db" and "items_ok R db items" and "validateIndexes R db items = Inr ()"
    and "rows_written R db items R' res'"
  defines "mid \<equiv> (prepareIndexes R db items)\<lparr>resById := res'\<rparr>"
  shows "prepareIndexBatch R db items = foldl (removeSecondaryIndices R) db (touchedRows db items) \<and>
    finishIndexBatch R' mid items = foldl (addSecondaryIndices R') mid (writtenRows mid items)"
proof
  show "prepareIndexBatch R db items = foldl (removeSecondaryIndices R) db (touchedRows db items)"
    using assms(1,2) by (intro prepare_conv(1)) (auto simp: items_ok_def)
  note M = mid_commit[OF assms(1-4), folded mid_def]
  show "finishIndexBatch R' mid items = foldl (addSecondaryIndices R') mid (writtenRows mid items)"
    using M by (intro finish_conv(1)) auto
qed

theorem batch_paths_equal_single_paths_witness:
  "prepareIndexBatch demoR demoTable demoItems = foldl (removeSecondaryIndices demoR) demoTable (touchedRows demoTable demoItems) \<and>
   finishIndexBatch demoR' ((prepareIndexes demoR demoTable demoItems)\<lparr>resById := resById demoTable\<rparr>) demoItems =
     foldl (addSecondaryIndices demoR') ((prepareIndexes demoR demoTable demoItems)\<lparr>resById := resById demoTable\<rparr>)
       (writtenRows ((prepareIndexes demoR demoTable demoItems)\<lparr>resById := resById demoTable\<rparr>) demoItems)"
  by (rule batch_paths_equal_single_paths[OF demo_table demo_items demo_valid demo_written])

end
