(* ===== verification/Index_Reads.thy ===== *)
theory Index_Reads
  imports Secondary_Index
begin

text \<open>
  What the indexes of \<open>secondary_index.go\<close> promise their readers: the slices that range
  reads return, the answers of lookups, and the outcome of a rebuild after a load.
\<close>

section \<open>Ranges of the ordered entries\<close>

lemma search_filter:
  assumes "\<And>a b. a \<le> b \<Longrightarrow> b < length xs \<Longrightarrow> P (xs ! a) \<Longrightarrow> P (xs ! b)"
  defines "n \<equiv> sort_search (length xs) (\<lambda>i. P (xs ! i))"
  shows "take n xs = filter (\<lambda>x. \<not> P x) xs" "drop n xs = filter P xs" "n = length (filter (\<lambda>x. \<not> P x) xs)"
proof -
  note S = sort_search_split[of "length xs" "\<lambda>i. P (xs ! i)", OF assms(1), folded n_def]
  have n: "n \<le> length xs" by (simp add: n_def)
  have t: "\<forall>x \<in> set (take n xs). \<not> P x" using S(1) n by (auto simp: in_set_conv_nth)
  have d: "\<forall>x \<in> set (drop n xs). P x"
  proof
    fix x assume "x \<in> set (drop n xs)"
    then obtain i where "i < length xs - n" "x = xs ! (n + i)" by (auto simp: in_set_conv_nth)
    then show "P x" using S(2)[where k = "n + i"] by simp
  qed
  have "filter (\<lambda>x. \<not> P x) (take n xs @ drop n xs) = take n xs"
    using t d by (simp only: filter_append) (simp add: filter_empty_conv)
  then show "take n xs = filter (\<lambda>x. \<not> P x) xs" by simp
  then show "n = length (filter (\<lambda>x. \<not> P x) xs)" using n by (metis length_take min.absorb2)
  have "filter P (take n xs @ drop n xs) = drop n xs"
    using t d by (simp only: filter_append) (simp add: filter_empty_conv)
  then show "drop n xs = filter P xs" by simp
qed

lemma sorted_parts:
  assumes "sorted (map k xs)"
  shows "xs = filter (\<lambda>x. k x < c) xs @ filter (\<lambda>x. k x = c) xs @ filter (\<lambda>x. c < k x) xs"
  using assms
proof (induction xs)
  case Nil
  then show ?case by simp
next
  case (Cons x xs)
  have IH: "xs = filter (\<lambda>x. k x < c) xs @ filter (\<lambda>x. k x = c) xs @ filter (\<lambda>x. c < k x) xs" using Cons by simp
  consider "k x < c" | "k x = c" | "c < k x" by fastforce
  then show ?case
  proof cases
    case 1
    then have "k x \<noteq> c" "\<not> c < k x" by auto
    then show ?thesis using IH 1 by simp
  next
    case 2
    then have "filter (\<lambda>x. k x < c) xs = []" using Cons.prems by (auto simp: filter_empty_conv)
    then show ?thesis using IH 2 by simp
  next
    case 3
    then have "filter (\<lambda>x. k x < c) xs = []" "filter (\<lambda>x. k x = c) xs = []" "k x \<noteq> c" "\<not> k x < c"
      using Cons.prems by (auto simp: filter_empty_conv)
    then show ?thesis using IH 3 by simp
  qed
qed

text \<open>The two searches of \<open>prefixBounds\<close> delimit exactly the entries whose key is the sought one.\<close>

lemma search_range:
  assumes srt: "sorted (map k xs)"
    and sgn: "\<And>x. x \<in> set xs \<Longrightarrow> (f x \<ge> 0 \<longleftrightarrow> c \<le> k x) \<and> (f x > (0 :: int) \<longleftrightarrow> c < k x)"
  defines "i \<equiv> sort_search (length xs) (\<lambda>i. f (xs ! i) \<ge> 0)" and "j \<equiv> sort_search (length xs) (\<lambda>i. f (xs ! i) > 0)"
  shows "subrange xs i j = filter (\<lambda>x. k x = c) xs" "i \<le> j" "j \<le> length xs"
proof -
  have mono: "k (xs ! a) \<le> k (xs ! b)" if "a \<le> b" "b < length xs" for a b
    using srt that by (simp add: sorted_iff_nth_mono)
  have i: "i = length (filter (\<lambda>x. k x < c) xs)"
  proof -
    have "i = length (filter (\<lambda>x. \<not> f x \<ge> 0) xs)" unfolding i_def
      by (rule search_filter(3)) (use mono sgn in \<open>auto intro: order_trans\<close>)
    moreover have "filter (\<lambda>x. \<not> f x \<ge> 0) xs = filter (\<lambda>x. k x < c) xs"
      using sgn by (intro filter_cong) auto
    ultimately show ?thesis by simp
  qed
  have j: "j = length (filter (\<lambda>x. k x \<le> c) xs)"
  proof -
    have "j = length (filter (\<lambda>x. \<not> f x > 0) xs)" unfolding j_def
      by (rule search_filter(3)) (use mono sgn in \<open>auto intro: less_le_trans\<close>)
    moreover have "filter (\<lambda>x. \<not> f x > 0) xs = filter (\<lambda>x. k x \<le> c) xs"
      using sgn by (intro filter_cong) auto
    ultimately show ?thesis by simp
  qed
  let ?A = "filter (\<lambda>x. k x < c) xs" and ?B = "filter (\<lambda>x. k x = c) xs" and ?C = "filter (\<lambda>x. c < k x) xs"
  have parts: "xs = ?A @ ?B @ ?C" by (rule sorted_parts[OF srt])
  have "length (filter (\<lambda>x. k x \<le> c) xs) = length ?A + length ?B"
    by (induction xs) auto
  then have jj: "j = i + length ?B" by (simp add: i j)
  show "i \<le> j" "j \<le> length xs" by (auto simp: jj) (simp add: jj[symmetric] j_def)
  have "subrange (?A @ ?B @ ?C) i j = ?B" by (simp add: subrange_def jj i)
  then show "subrange xs i j = ?B" using parts by simp
qed

lemma take_mono_lex:
  "length xs = length ys \<Longrightarrow> (xs :: 'k :: linorder list) \<le> ys \<Longrightarrow> take n xs \<le> take n ys"
proof (induction xs ys arbitrary: n rule: list_induct2)
  case Nil
  then show ?case by simp
next
  case (Cons x xs y ys)
  then show ?case by (cases n) (auto simp: take_Cons split: nat.split)
qed

lemma comparePrefix_cmp:
  "length vs \<le> length fs \<Longrightarrow> map kindOf vs = map (\<lambda>f. kindOf (Field R p (if_index f))) (take (length vs) fs) \<Longrightarrow>
   comparePrefix R fs vs p = cmpCompare (map (\<lambda>f. Field R p (if_index f)) (take (length vs) fs)) vs"
proof (induction R fs vs p rule: comparePrefix.induct)
  case (3 R f fs v vs p)
  have c: "compareIndexValues (Field R p (if_index f)) v = cmpCompare (Field R p (if_index f)) v"
    using 3(3) by (simp add: compareIndexValues_cmp)
  have IH: "comparePrefix R fs vs p = cmpCompare (map (\<lambda>f. Field R p (if_index f)) (take (length vs) fs)) vs"
    if "cmpCompare (Field R p (if_index f)) v = 0"
    using 3(1)[OF refl] 3(2,3) that by (simp add: c)
  show ?case
    using IH by (simp add: Let_def c cmpCompare_Cons cmpCompare_zero)
qed (simp_all add: cmpCompare_def)

text \<open>Arguments of a range read: as many raw values as the prefix has, of the fields' types.\<close>

definition prefix_args :: "'p secondaryIndex \<Rightarrow> (goType \<times> indexValue) option list \<Rightarrow> indexValue list \<Rightarrow> bool" where
  "prefix_args index prefix vs \<longleftrightarrow>
     length vs = length prefix \<and> length prefix \<le> length (is_fields (spec index)) \<and>
     (\<forall>i < length prefix. prefix ! i = Some (if_typ (is_fields (spec index) ! i), vs ! i) \<and>
        kindOf (vs ! i) = Kind (if_typ (is_fields (spec index) ! i)))"

lemma prefixValues_args:
  assumes "prefix_args index prefix vs"
  shows "prefixValues index prefix = Inr vs"
proof -
  have gen: "fold_result (\<lambda>values q. bind_result (indexValueArg index (snd q) (fst q)) (\<lambda>v. Inr (values @ [v])))
      (zip [m ..< length prefix] (drop m prefix)) acc = Inr (acc @ drop m vs)" if "m \<le> length prefix" for m acc
    using that
  proof (induction "length prefix - m" arbitrary: m acc)
    case 0
    then show ?case using assms by (simp add: prefix_args_def)
  next
    case (Suc k)
    then have m: "m < length prefix" by simp
    then have v: "indexValueArg index (prefix ! m) m = Inr (vs ! m)"
      using assms by (simp add: prefix_args_def indexValueArg_def)
    have "zip [m ..< length prefix] (drop m prefix) = (m, prefix ! m) # zip [Suc m ..< length prefix] (drop (Suc m) prefix)"
      using m by (simp add: upt_conv_Cons Cons_nth_drop_Suc[symmetric])
    moreover have "drop m vs = vs ! m # drop (Suc m) vs"
      using m assms by (simp add: prefix_args_def Cons_nth_drop_Suc)
    ultimately show ?case using Suc(1)[of "Suc m" "acc @ [vs ! m]"] Suc(2) m v by simp
  qed
  show ?thesis using gen[of 0 "[]"] by (simp add: prefixValues_def)
qed

lemma prefixBounds_range:
  assumes ok: "index_ok R rows index" and a: "prefix_args index prefix vs"
  defines "k \<equiv> \<lambda>p. take (length vs) (rowValues R (spec index) p)"
  obtains i j where "prefixBounds R index prefix = Inr (i, j)"
    and "subrange (entries index) i j = filter (\<lambda>p. k p = vs) (entries index)" "i \<le> j" "j \<le> length (entries index)"
proof -
  let ?s = "spec index" and ?es = "entries index"
  let ?f = "comparePrefix R (is_fields ?s) vs"
  have len: "length vs \<le> length (is_fields ?s)" "length prefix \<le> length (is_fields ?s)" "length vs = length prefix"
    using a by (auto simp: prefix_args_def)
  have typed: "row_typed R ?s p" if "p \<in> set ?es" for p
    using ok that by (auto simp: index_ok_def entries_ok_def rows_ok_def)
  have cmp: "?f p = cmpCompare (k p) vs" if "p \<in> set ?es" for p
  proof -
    have kinds: "map (\<lambda>f. kindOf (Field R p (if_index f))) (is_fields ?s) = map (\<lambda>f. Kind (if_typ f)) (is_fields ?s)"
      using typed[OF that] by (simp add: row_typed_def values_typed_def rowValues_def o_def)
    have "map kindOf vs = map (\<lambda>f. Kind (if_typ f)) (take (length vs) (is_fields ?s))"
      using a by (intro nth_equalityI) (auto simp: prefix_args_def)
    also have "\<dots> = map (\<lambda>f. kindOf (Field R p (if_index f))) (take (length vs) (is_fields ?s))"
      using kinds by (metis take_map)
    finally have eq: "map kindOf vs = map (\<lambda>f. kindOf (Field R p (if_index f))) (take (length vs) (is_fields ?s))" .
    show ?thesis
      using comparePrefix_cmp[OF len(1) eq] by (simp add: k_def rowValues_def take_map)
  qed
  have "sorted (map (\<lambda>p. fst (sortKey R ?s p)) ?es)"
    using ok by (simp add: index_ok_def entries_ok_def sorted_iff_nth_mono sortKey_def less_eq_prod_simp)
      (meson less_imp_le)
  then have srt: "sorted (map k ?es)"
    by (auto simp: sorted_iff_nth_mono sortKey_def k_def rowValues_def intro!: take_mono_lex)
  have sgn: "(?f x \<ge> 0 \<longleftrightarrow> vs \<le> k x) \<and> (?f x > 0 \<longleftrightarrow> vs < k x)" if "x \<in> set ?es" for x
    using cmp[OF that] by (auto simp: cmpCompare_def)
  note S = search_range[OF srt sgn]
  have "prefixBounds R index prefix =
      Inr (sort_search (length ?es) (\<lambda>i. ?f (?es ! i) \<ge> 0), sort_search (length ?es) (\<lambda>i. ?f (?es ! i) > 0))"
    using len by (simp add: prefixBounds_def prefixValues_args[OF a] Let_def)
  then show thesis using that S by blast
qed


lemma subrange_nth: "k < j - i \<Longrightarrow> j \<le> length xs \<Longrightarrow> subrange xs i j ! k = xs ! (i + k)"
  by (simp add: subrange_def)

lemma subrange_tail: "subrange xs (i + d) j = drop d (subrange xs i j)"
  by (simp add: subrange_def drop_take add.commute)

lemma append_mono_lex: "(zs :: 'k :: linorder list) @ [a] \<le> zs @ [b] \<Longrightarrow> a \<le> b"
  by (induction zs) auto

lemma nth_mono_lex:
  assumes "(xs :: 'k :: linorder list) \<le> ys" "length xs = length ys" "n < length xs" "take n xs = take n ys"
  shows "xs ! n \<le> ys ! n"
proof -
  have "take (Suc n) xs \<le> take (Suc n) ys" using assms(1,2) by (rule take_mono_lex[rotated])
  then have "take n xs @ [xs ! n] \<le> take n xs @ [ys ! n]"
    using assms by (simp add: take_Suc_conv_app_nth)
  then show ?thesis by (rule append_mono_lex)
qed

lemma rangePrefix_exact:
  assumes "index_ok R rows index" and "prefix_args index prefix vs"
  shows "rangePrefix R index prefix =
    Inr (filter (\<lambda>p. take (length vs) (rowValues R (spec index) p) = vs) (entries index))"
  by (rule prefixBounds_range[OF assms]) (simp add: rangePrefix_def)

lemma rangeAfter_exact:
  assumes ok: "index_ok R rows index" and a: "prefix_args index prefix vs"
    and n: "length prefix < length (is_fields (spec index))"
    and c: "t = if_typ (is_fields (spec index) ! length prefix)" "kindOf c = Kind t"
  shows "rangeAfter R index prefix (Some (t, c)) =
    Inr (filter (\<lambda>p. take (length vs) (rowValues R (spec index) p) = vs \<and> c < rowValues R (spec index) p ! length vs)
      (entries index))"
proof (rule prefixBounds_range[OF ok a])
  let ?s = "spec index" and ?es = "entries index" and ?n = "length vs"
  fix i j
  assume B: "prefixBounds R index prefix = Inr (i, j)"
    and sub: "subrange ?es i j = filter (\<lambda>p. take ?n (rowValues R ?s p) = vs) ?es" and ij: "i \<le> j" "j \<le> length ?es"
  let ?f = "is_fields ?s ! length prefix" and ?ys = "subrange ?es i j"
  let ?P = "\<lambda>p. compareIndexValues (Field R p (if_index ?f)) c > 0"
  have len: "length ?ys = j - i" using ij by (simp add: subrange_def)
  have nv: "?n = length prefix" using a by (simp add: prefix_args_def)
  have val: "Field R p (if_index ?f) = rowValues R ?s p ! ?n" for p
    using n nv by (simp add: rowValues_def)
  have kind: "kindOf (rowValues R ?s p ! ?n) = kindOf c" if "p \<in> set ?es" for p
  proof -
    have "row_typed R ?s p" using ok that by (auto simp: index_ok_def entries_ok_def rows_ok_def)
    then have eq: "map kindOf (rowValues R ?s p) = map (\<lambda>f. Kind (if_typ f)) (is_fields ?s)"
      by (simp add: row_typed_def values_typed_def)
    have "map kindOf (rowValues R ?s p) ! ?n = map (\<lambda>f. Kind (if_typ f)) (is_fields ?s) ! ?n"
      by (simp only: eq)
    then show ?thesis using n nv c by (simp add: rowValues_def)
  qed
  have less: "(0 < (if x < y then - 1 else if y < x then 1 else (0 :: int))) = (y < x)" for x y :: indexValue
    by auto
  have P: "?P p \<longleftrightarrow> c < rowValues R ?s p ! ?n" if "p \<in> set ?es" for p
    using kind[OF that] by (simp add: val compareIndexValues_cmp cmpCompare_def less)
  have inn: "x \<in> set ?ys \<Longrightarrow> x \<in> set ?es" for x unfolding sub by simp
  have mono: "?P (?ys ! y)" if "x \<le> y" "y < length ?ys" "?P (?ys ! x)" for x y
  proof -
    have mem: "?ys ! x \<in> set ?ys" "?ys ! y \<in> set ?ys" using that by auto
    have "rowValues R ?s (?ys ! x) \<le> rowValues R ?s (?ys ! y)"
    proof -
      have "sortKey R ?s (?es ! (i + x)) \<le> sortKey R ?s (?es ! (i + y))"
        using ok that len ij by (auto simp: index_ok_def entries_ok_def sorted_iff_nth_mono)
      then have "rowValues R ?s (?es ! (i + x)) \<le> rowValues R ?s (?es ! (i + y))"
        by (auto simp: sortKey_def less_eq_prod_simp)
      then show ?thesis using that len ij by (simp add: subrange_nth)
    qed
    moreover have "take ?n (rowValues R ?s (?ys ! x)) = vs" "take ?n (rowValues R ?s (?ys ! y)) = vs"
      using mem unfolding sub by auto
    ultimately have "rowValues R ?s (?ys ! x) ! ?n \<le> rowValues R ?s (?ys ! y) ! ?n"
      using n nv by (intro nth_mono_lex) (auto simp: rowValues_def)
    then show ?thesis using that(3) P[OF inn[OF mem(1)]] P[OF inn[OF mem(2)]] by auto
  qed
  define d where "d = sort_search (length ?ys) (\<lambda>k. ?P (?ys ! k))"
  have "drop d ?ys = filter ?P ?ys"
    unfolding d_def by (rule search_filter(2)) (rule mono)
  also have "\<dots> = filter (\<lambda>p. c < rowValues R ?s p ! ?n) ?ys"
    by (rule filter_cong[OF refl]) (use P inn in blast)
  also have "\<dots> = filter (\<lambda>p. take ?n (rowValues R ?s p) = vs \<and> c < rowValues R ?s p ! ?n) ?es"
    unfolding sub by (simp add: conj_commute)
  finally have tl: "drop d ?ys = filter (\<lambda>p. take ?n (rowValues R ?s p) = vs \<and> c < rowValues R ?s p ! ?n) ?es" .
  have "sort_search (j - i) (\<lambda>k. ?P (?es ! (i + k))) = d"
    unfolding d_def len by (rule sort_search_cong) (use ij in \<open>simp add: subrange_nth\<close>)
  then show ?thesis
    using n c(1) by (simp add: rangeAfter_def indexValueArg_def B Let_def subrange_tail tl)
qed


section \<open>Rebuilding\<close>

lemma rebuild_fold:
  assumes "lookup_spec (spec index)" "is_unique (spec index)" "rows_ok R (spec index) (seen \<union> set ps)"
    and "lookups_ok R seen index" "distinct ps" "set ps \<inter> seen = {}"
  shows "if inj_on (rowValues R (spec index)) (seen \<union> set ps)
    then \<exists>index'. fold_result (rebuildKey R) ps index = Inr index' \<and> spec index' = spec index \<and>
      entries index' = entries index \<and> lookups_ok R (seen \<union> set ps) index'
    else fold_result (rebuildKey R) ps index = Inl (ErrUniqueViolation (is_name (spec index)))"
  using assms
proof (induction ps arbitrary: index seen)
  case Nil
  then have "inj_on (rowValues R (spec index)) seen" by (simp add: lookups_ok_def)
  then show ?case using Nil by auto
next
  case (Cons p ps)
  let ?s = "spec index"
  have p: "p \<notin> seen" "row_typed R ?s p" using Cons.prems by (auto simp: rows_ok_def)
  have seen: "inj_on (rowValues R ?s) seen" using Cons.prems by (simp add: lookups_ok_def)
  have ids: "GetId R q \<noteq> GetId R p" if "q \<in> seen" for q
    using Cons.prems(3) that p(1) by (auto simp: rows_ok_def inj_on_def)
  have known: "uniqueID R index p = Some i \<longleftrightarrow> (\<exists>q \<in> seen. rowValues R ?s q = rowValues R ?s p \<and> GetId R q = i)" for i
    using Cons.prems(1,2,4) p(2) by (simp add: uniqueID_idOf lookups_ok_def row_typed_def)
  show ?case
  proof (cases "\<exists>q \<in> seen. rowValues R ?s q = rowValues R ?s p")
    case True
    then obtain q where q: "q \<in> seen" "rowValues R ?s q = rowValues R ?s p" by blast
    then have "uniqueID R index p = Some (GetId R q)" using known by blast
    then have "rebuildKey R index p = Inl (ErrUniqueViolation (is_name ?s))"
      using ids[OF q(1)] by (simp add: rebuildKey_def)
    moreover have "\<not> inj_on (rowValues R ?s) (seen \<union> set (p # ps))"
      using q p(1) by (auto simp: inj_on_def)
    ultimately show ?thesis by simp
  next
    case False
    then have "uniqueID R index p = None" using known by (cases "uniqueID R index p") auto
    then have step: "rebuildKey R index p = Inr (addLookup R index p)"
      using Cons.prems(2) by (simp add: rebuildKey_def addLookup_def)
    have "lookups_ok R (insert p seen) (addLookup R index p)"
    proof (rule addLookup_ok)
      show "rows_ok R ?s (insert p seen)" using Cons.prems(3) by (auto simp: rows_ok_def intro: inj_on_subset)
      show "inj_on (rowValues R ?s) (insert p seen)" using seen False by (auto simp: inj_on_insert)
    qed (use Cons.prems p in auto)
    moreover have U: "insert p seen \<union> set ps = seen \<union> set (p # ps)" by auto
    moreover have "rows_ok R ?s (seen \<union> set (p # ps))" "distinct ps" "set ps \<inter> insert p seen = {}"
      using Cons.prems by auto
    ultimately have "if inj_on (rowValues R ?s) (seen \<union> set (p # ps))
      then \<exists>index'. fold_result (rebuildKey R) ps (addLookup R index p) = Inr index' \<and> spec index' = ?s \<and>
        entries index' = entries index \<and> lookups_ok R (seen \<union> set (p # ps)) index'
      else fold_result (rebuildKey R) ps (addLookup R index p) = Inl (ErrUniqueViolation (is_name ?s))"
      using Cons.IH[of "addLookup R index p" "insert p seen"] Cons.prems(1,2) unfolding lookup_simps U by blast
    moreover have "fold_result (rebuildKey R) (p # ps) index = fold_result (rebuildKey R) ps (addLookup R index p)"
      by (simp add: step)
    ultimately show ?thesis by (simp only:)
  qed
qed

lemma rebuildIndex_conv:
  assumes "lookup_spec s" "rows_ok R s (set live)" "distinct live"
  shows "if is_unique s \<longrightarrow> inj_on (rowValues R s) (set live)
    then \<exists>index. rebuildIndex R live s = Inr index \<and> spec index = s \<and> index_ok R (set live) index
    else rebuildIndex R live s = Inl (ErrUniqueViolation (is_name s))"
proof -
  define es where "es = SortFunc (compare R (newSecondaryIndex s)) live"
  define index where "index = newSecondaryIndex s\<lparr>entries := es\<rparr>"
  have sp: "spec (newSecondaryIndex s) = s" "spec index = s" "entries index = es"
    by (simp_all add: newSecondaryIndex_def index_def)
  have "\<forall>q \<in> set live. row_typed R (spec (newSecondaryIndex s)) q" using assms(2) by (simp add: sp rows_ok_def)
  note S = cmp.SortFunc_sorted[OF this, folded es_def]
  have es: "distinct es" "set es = set live"
    using S(2) assms(3) by (metis mset_eq_imp_distinct_iff, metis set_mset_mset)
  have e: "entries_ok R (set live) index" using S(1) es by (simp add: entries_ok_def sp)
  have R: "rebuildIndex R live s = (if is_unique s then fold_result (rebuildKey R) es index else Inr index)"
    using sp(2,3) by (auto simp: rebuildIndex_def rebuildKeys_def Let_def es_def index_def)
  show ?thesis
  proof (cases "is_unique s")
    case True
    have "if inj_on (rowValues R s) (set live)
      then \<exists>index'. fold_result (rebuildKey R) es index = Inr index' \<and> spec index' = s \<and>
        entries index' = es \<and> lookups_ok R (set live) index'
      else fold_result (rebuildKey R) es index = Inl (ErrUniqueViolation (is_name s))"
      using rebuild_fold[of index R "{}" es] assms es True newSecondaryIndex_lookups[OF assms(1), of R es]
      unfolding index_def[symmetric] sp es(2) Un_empty_left by blast
    moreover have "index_ok R (set live) index'"
      if "spec index' = s" "entries index' = es" "lookups_ok R (set live) index'" for index'
      using that assms e entries_ok_cong[of index' index R "set live"] by (simp add: index_ok_def sp)
    ultimately show ?thesis using True R by (cases "inj_on (rowValues R s) (set live)") auto
  next
    case False
    then have "index_ok R (set live) index" using assms e by (simp add: index_ok_def sp lookups_ok_def)
    then show ?thesis using False R sp(2) by simp
  qed
qed

text \<open>What a rebuilt table looks like: the same indexes, each exact for the live rows.\<close>

definition rebuilt_from :: "'p reflection \<Rightarrow> 'p list \<Rightarrow> (string \<times> 'p secondaryIndex) \<Rightarrow> (string \<times> 'p secondaryIndex) \<Rightarrow> bool" where
  "rebuilt_from R live q q' \<longleftrightarrow>
     fst q' = fst q \<and> spec (snd q') = spec (snd q) \<and> index_ok R (set live) (snd q')"

definition no_duplicates :: "'p reflection \<Rightarrow> 'p list \<Rightarrow> secondaryIndexSpec \<Rightarrow> bool" where
  "no_duplicates R live s \<longleftrightarrow> is_unique s \<longrightarrow> inj_on (rowValues R s) (set live)"

lemma rebuild_all:
  assumes "\<forall>q \<in> set qs. lookup_spec (spec (snd q)) \<and> rows_ok R (spec (snd q)) (set live)" "distinct live"
  defines "step \<equiv> \<lambda>out q. bind_result (rebuildIndex R live (spec (snd q))) (\<lambda>index. Inr (out @ [(fst q, index)]))"
  shows "if \<forall>q \<in> set qs. no_duplicates R live (spec (snd q))
    then \<exists>qs'. fold_result step qs out = Inr (out @ qs') \<and> list_all2 (rebuilt_from R live) qs qs'
    else \<exists>q \<in> set qs. fold_result step qs out = Inl (ErrUniqueViolation (is_name (spec (snd q))))"
  using assms(1)
proof (induction qs arbitrary: out)
  case Nil
  then show ?case by simp
next
  case (Cons q qs)
  have C: "if no_duplicates R live (spec (snd q))
    then \<exists>index. rebuildIndex R live (spec (snd q)) = Inr index \<and> spec index = spec (snd q) \<and> index_ok R (set live) index
    else rebuildIndex R live (spec (snd q)) = Inl (ErrUniqueViolation (is_name (spec (snd q))))"
    using rebuildIndex_conv[OF _ _ assms(2), of "spec (snd q)" R] Cons.prems by (simp add: no_duplicates_def)
  show ?case
  proof (cases "no_duplicates R live (spec (snd q))")
    case True
    with C obtain index where I: "rebuildIndex R live (spec (snd q)) = Inr index" "rebuilt_from R live q (fst q, index)"
      by (auto simp: rebuilt_from_def)
    have "fold_result step (q # qs) out = fold_result step qs (out @ [(fst q, index)])"
      by (simp add: step_def I(1))
    moreover have "if \<forall>q \<in> set qs. no_duplicates R live (spec (snd q))
      then \<exists>qs'. fold_result step qs (out @ [(fst q, index)]) = Inr ((out @ [(fst q, index)]) @ qs') \<and>
        list_all2 (rebuilt_from R live) qs qs'
      else \<exists>r \<in> set qs. fold_result step qs (out @ [(fst q, index)]) = Inl (ErrUniqueViolation (is_name (spec (snd r))))"
    proof -
      have "\<forall>q \<in> set qs. lookup_spec (spec (snd q)) \<and> rows_ok R (spec (snd q)) (set live)"
        using Cons.prems by simp
      from Cons.IH[OF this, of "out @ [(fst q, index)]"] show ?thesis .
    qed
    moreover have "list_all2 (rebuilt_from R live) (q # qs) ((fst q, index) # qs')"
      if "list_all2 (rebuilt_from R live) qs qs'" for qs'
      using that I(2) by simp
    ultimately show ?thesis
    proof (cases "\<forall>q \<in> set qs. no_duplicates R live (spec (snd q))", goal_cases)
      case 1
      then have all: "\<forall>r \<in> set (q # qs). no_duplicates R live (spec (snd r))" using True by simp
      from 1 obtain qs' where "fold_result step (q # qs) out = Inr (out @ (fst q, index) # qs')"
        "list_all2 (rebuilt_from R live) (q # qs) ((fst q, index) # qs')"
        by (auto simp del: fold_result.simps)
      then show ?case unfolding if_P[OF all] by blast
    next
      case 2
      then have some: "\<not> (\<forall>r \<in> set (q # qs). no_duplicates R live (spec (snd r)))" by simp
      from 2 obtain r where "r \<in> set qs"
        "fold_result step (q # qs) out = Inl (ErrUniqueViolation (is_name (spec (snd r))))"
        by (auto simp del: fold_result.simps)
      then show ?case unfolding if_not_P[OF some] by (auto simp del: fold_result.simps)
    qed
  next
    case False
    then have "fold_result step (q # qs) out = Inl (ErrUniqueViolation (is_name (spec (snd q))))"
      using C by (simp add: step_def)
    then show ?thesis using False by auto
  qed
qed

section \<open>Properties of the reads\<close>

text \<open>
  Rebuilding after a load is exact: \<open>rebuildSecondaryIndices\<close> succeeds if and only if no unique
  index would hold one key twice, then every index holds exactly the live rows in order with
  exact lookups; otherwise it names a violated index and changes nothing.
\<close>

theorem rebuild_is_exact:
  assumes "\<forall>q \<in> set (secondary db). lookup_spec (spec (snd q)) \<and> rows_ok R (spec (snd q)) (set live)"
    and "distinct live"
  shows "if \<forall>q \<in> set (secondary db). is_unique (spec (snd q)) \<longrightarrow> inj_on (rowValues R (spec (snd q))) (set live)
    then \<exists>db'. rebuildSecondaryIndices R live db = Inr db' \<and> resById db' = resById db \<and>
      list_all2 (rebuilt_from R live) (secondary db) (secondary db')
    else \<exists>q \<in> set (secondary db). rebuildSecondaryIndices R live db = Inl (ErrUniqueViolation (is_name (spec (snd q))))"
proof -
  note A = rebuild_all[OF assms, of "[]", unfolded no_duplicates_def]
  show ?thesis
  proof (cases "\<forall>q \<in> set (secondary db). is_unique (spec (snd q)) \<longrightarrow> inj_on (rowValues R (spec (snd q))) (set live)")
    case True
    from A[unfolded if_P[OF True]] obtain qs' where
      "fold_result (\<lambda>out q. bind_result (rebuildIndex R live (spec (snd q))) (\<lambda>index. Inr (out @ [(fst q, index)])))
         (secondary db) [] = Inr qs'" "list_all2 (rebuilt_from R live) (secondary db) qs'"
      by auto
    then show ?thesis unfolding if_P[OF True] by (simp add: rebuildSecondaryIndices_def)
  next
    case False
    from A[unfolded if_not_P[OF False]] show ?thesis
      unfolding if_not_P[OF False] rebuildSecondaryIndices_def
      by (elim bexE) (rule bexI, simp_all)
  qed
qed

theorem rebuild_is_exact_witness:
  "\<exists>db'. rebuildSecondaryIndices demoR [1, 2] demoTable = Inr db' \<and> resById db' = resById demoTable \<and>
     list_all2 (rebuilt_from demoR [1, 2]) (secondary demoTable) (secondary db')"
proof -
  have ok: "\<forall>q \<in> set (secondary demoTable). lookup_spec (spec (snd q)) \<and> rows_ok demoR (spec (snd q)) (set [1, 2])"
    by (auto simp: demo_secondary rows_ok_def)
  have inj: "\<forall>q \<in> set (secondary demoTable). is_unique (spec (snd q)) \<longrightarrow>
      inj_on (rowValues demoR (spec (snd q))) (set [1, 2])"
    by (auto simp: demo_secondary)
  show ?thesis using rebuild_is_exact[OF ok, unfolded if_P[OF inj]] by simp
qed

text \<open>
  C5. Range reads are exact: on a table in order \<open>rangePrefix\<close> returns all live rows whose first fields
  equal the prefix, and \<open>rangeAfter\<close> those whose next field is also greater than the
  cursor, each row once and in the order of the index.
\<close>

theorem range_reads_are_exact:
  assumes "table_ok R db" and "(name, index) \<in> set (secondary db)" and "prefix_args index prefix vs"
  shows "(\<exists>ps. rangePrefix R index prefix = Inr ps \<and> distinct ps \<and> sorted (map (sortKey R (spec index)) ps) \<and>
      set ps = {p \<in> ran (resById db). take (length vs) (rowValues R (spec index) p) = vs}) \<and>
    (length prefix < length (is_fields (spec index)) \<longrightarrow>
     (\<forall>c. kindOf c = Kind (if_typ (is_fields (spec index) ! length prefix)) \<longrightarrow>
      (\<exists>ps. rangeAfter R index prefix (Some (if_typ (is_fields (spec index) ! length prefix), c)) = Inr ps \<and>
        distinct ps \<and> sorted (map (sortKey R (spec index)) ps) \<and>
        set ps = {p \<in> ran (resById db). take (length vs) (rowValues R (spec index) p) = vs \<and>
          c < rowValues R (spec index) p ! length vs})))"
proof -
  have ok: "index_ok R (ran (resById db)) index" using assms(1,2) by (auto simp: table_ok_def)
  have E: "sorted (map (sortKey R (spec index)) (entries index))" "distinct (entries index)"
    "set (entries index) = ran (resById db)"
    using ok by (auto simp: index_ok_def entries_ok_def)
  have filt: "distinct (filter P (entries index)) \<and> sorted (map (sortKey R (spec index)) (filter P (entries index))) \<and>
      set (filter P (entries index)) = {p \<in> ran (resById db). P p}" for P
    using E by (auto intro: sorted_filter)
  show ?thesis
    using rangePrefix_exact[OF ok assms(3)] rangeAfter_exact[OF ok assms(3) _ refl] filt by auto
qed

theorem range_reads_are_exact_witness:
  "\<exists>ps. rangePrefix demoR (snd (hd (secondary demoTable)))
      [Some (\<lparr>Kind = StringKind, typeId = ''string''\<rparr>, KeyString [2])] = Inr ps \<and> set ps = {2}"
proof -
  have q: "(''Email'', snd (hd (secondary demoTable))) \<in> set (secondary demoTable)"
    by (simp add: demoTable_def)
  from demo_secondary[OF q] have sp: "spec (snd (hd (secondary demoTable))) = demoSpec" by simp
  have a: "prefix_args (snd (hd (secondary demoTable)))
      [Some (\<lparr>Kind = StringKind, typeId = ''string''\<rparr>, KeyString [2])] [KeyString [2]]"
    by (simp add: prefix_args_def sp) (simp add: demoSpec_def)
  have "{p \<in> ran (resById demoTable). take (length [KeyString [2]]) (rowValues demoR demoSpec p) = [KeyString [2]]} = {2}"
    by (auto simp: demo_ran)
  then show ?thesis using range_reads_are_exact[OF demo_table q a] unfolding sp by auto
qed

text \<open>
  A lookup through a single-field unique index finds an id exactly when the live row
  with that id has the value, and finds nothing for a value no live row has.
\<close>

theorem lookup_finds_the_live_row:
  assumes "table_ok R db" and "(name, index) \<in> set (secondary db)" and "is_unique (spec index)"
    and "lookupField (spec index) \<noteq> []" and "values_typed (spec index) [v]"
  shows "lookup index (Some (if_typ (is_fields (spec index) ! 0), v)) = Some i \<longleftrightarrow>
    (\<exists>p. resById db i = Some p \<and> rowValues R (spec index) p = [v])"
proof -
  have L: "lookups_ok R (ran (resById db)) index" using assms(1,2) by (auto simp: table_ok_def index_ok_def)
  have "lookup index (Some (if_typ (is_fields (spec index) ! 0), v)) = idOf index [v]"
    using assms(4) by (simp add: lookup_def idOf_def)
  also have "\<dots> = Some i \<longleftrightarrow> (\<exists>p \<in> ran (resById db). rowValues R (spec index) p = [v] \<and> GetId R p = i)"
    using L assms(3,5) by (simp add: lookups_ok_def)
  also have "\<dots> \<longleftrightarrow> (\<exists>p. resById db i = Some p \<and> rowValues R (spec index) p = [v])"
    using assms(1) by (auto simp: table_ok_def ran_def)
  finally show ?thesis .
qed

theorem lookup_finds_the_live_row_witness:
  "lookup (snd (hd (secondary demoTable))) (Some (\<lparr>Kind = StringKind, typeId = ''string''\<rparr>, KeyString [2])) = Some 2"
proof -
  have q: "(''Email'', snd (hd (secondary demoTable))) \<in> set (secondary demoTable)"
    by (simp add: demoTable_def)
  from demo_secondary[OF q] have sp: "spec (snd (hd (secondary demoTable))) = demoSpec" by simp
  have ty: "if_typ (is_fields demoSpec ! 0) = \<lparr>Kind = StringKind, typeId = ''string''\<rparr>"
    by (simp add: demoSpec_def)
  have v: "values_typed demoSpec [KeyString [2]]"
    by (simp add: demoSpec_def values_typed_def key_fits_def)
  show ?thesis
    using lookup_finds_the_live_row[OF demo_table q, unfolded sp, of "KeyString [2]" 2] v
    by (simp add: ty demoTable_def)
qed

end
