(* ===== verification/Relation_Schema.thy ===== *)
theory Relation_Schema
  imports Nestory_Prelude Go_Strings "HOL-Library.AList"
begin

text \<open>
  The first half of \<open>relations.go\<close>: reading \<open>rel\<close> tags, checking one relation against the
  type it points to, and \<open>buildRelationSchema\<close>, which visits every type reachable from an
  entity and rejects cycles of mandatory relations. A program's types are an environment of
  struct declarations, as reflection shows them; which types implement \<open>Entity\<close> is part of it.
\<close>

section \<open>Types as reflection shows them\<close>

datatype reflectType =
    ScalarType string
  | StructType string
  | PointerType reflectType
  | SliceType reflectType
  | OtherType string

record relField =
  rf_name :: string
  rf_type :: reflectType
  rf_tag :: "string option"

record typeEnv =
  structs :: "(string \<times> relField list) list"
  entityTypes :: "string list"

datatype relationKind = OwnRelation | OwnedByRelation | BorrowRelation | OptionRelation | InverseRelation

record relationSpec =
  owner :: string
  fieldIndex :: nat
  fieldName :: string
  target :: string
  kind :: relationKind
  matchField :: string
  many :: bool

record relationPoint =
  rp_FieldName :: string
  rp_FieldType :: string
  rp_Field :: string
  rp_Many :: bool
  rp_RelationType :: relationKind
  rp_To :: string

definition isScalarKey :: "reflectType \<Rightarrow> bool" where
  "isScalarKey t = (case t of ScalarType _ \<Rightarrow> True | _ \<Rightarrow> False)"

text \<open>\<open>strings.TrimSpace\<close> on the ASCII text of a tag.\<close>

definition isSpace :: "char \<Rightarrow> bool" where
  "isSpace c = (c \<in> {CHR '' '', CHR 0x09, CHR 0x0A, CHR 0x0B, CHR 0x0C, CHR 0x0D})"

definition TrimSpace :: "string \<Rightarrow> string" where
  "TrimSpace s = rev (dropWhile isSpace (rev (dropWhile isSpace s)))"

text \<open>
  \<open>FieldByName\<close>: the first field of the name, with its index. The structs of the model have no
  embedded structs, whose promoted fields Go's reflection would find too.
\<close>

fun findField :: "nat \<Rightarrow> string \<Rightarrow> relField list \<Rightarrow> (nat \<times> relField) option" where
  "findField i name [] = None"
| "findField i name (f # fs) = (if rf_name f = name then Some (i, f) else findField (Suc i) name fs)"

definition structFields :: "typeEnv \<Rightarrow> string \<Rightarrow> relField list" where
  "structFields env t = (case map_of (structs env) t of None \<Rightarrow> [] | Some fs \<Rightarrow> fs)"

definition FieldByName :: "typeEnv \<Rightarrow> string \<Rightarrow> string \<Rightarrow> (nat \<times> relField) option" where
  "FieldByName env t name = findField 0 name (structFields env t)"

section \<open>Parsing one field\<close>

text \<open>\<open>relationTarget\<close>: the struct type a \<open>*T\<close> or \<open>[]*T\<close> field points to.\<close>

fun relationTarget :: "reflectType \<Rightarrow> (string \<times> bool) option" where
  "relationTarget (PointerType (StructType t)) = Some (t, False)"
| "relationTarget (SliceType (PointerType (StructType t))) = Some (t, True)"
| "relationTarget _ = None"

definition isEntityType :: "typeEnv \<Rightarrow> string \<Rightarrow> bool" where
  "isEntityType env t = (t \<in> set (entityTypes env))"

definition parseKind :: "string \<Rightarrow> relationKind option" where
  "parseKind s =
     (if s = ''own'' then Some OwnRelation
      else if s = ''ownedby'' then Some OwnedByRelation
      else if s = ''borrow'' then Some BorrowRelation
      else if s = ''option'' then Some OptionRelation
      else if s = ''inverse'' then Some InverseRelation
      else None)"

text \<open>\<open>Inr None\<close> is a field that is no relation.\<close>

definition parseRelationField :: "typeEnv \<Rightarrow> string \<Rightarrow> nat \<Rightarrow> relationSpec option result" where
  "parseRelationField env own i =
     (let f = structFields env own ! i in
      case rf_tag f of
        None \<Rightarrow>
          (case relationTarget (rf_type f) of
             None \<Rightarrow> Inr None
           | Some (t, m) \<Rightarrow> if isEntityType env t then Inl (ErrRelationSchema ''has no rel tag'') else Inr None)
      | Some raw \<Rightarrow>
          (case relationTarget (rf_type f) of
             None \<Rightarrow> Inl (ErrRelationSchema ''rel is only valid on *T or []*T'')
           | Some (t, m) \<Rightarrow>
               if \<not> isEntityType env t then Inl (ErrRelationSchema ''does not implement Entity'')
               else let parts = Split (CHR '','') raw in
                 if length parts \<noteq> 2 \<or> TrimSpace (parts ! 0) = [] \<or> TrimSpace (parts ! 1) = []
                 then Inl (ErrRelationSchema ''rel must have the form role,field'')
                 else (case parseKind (TrimSpace (parts ! 0)) of
                         None \<Rightarrow> Inl (ErrRelationSchema ''unknown role'')
                       | Some k \<Rightarrow>
                           if k = OwnedByRelation \<and> m then Inl (ErrRelationSchema ''ownedby requires *T'')
                           else if k = InverseRelation \<and> \<not> m then Inl (ErrRelationSchema ''inverse requires []*T'')
                           else Inr (Some \<lparr>owner = own, fieldIndex = i, fieldName = rf_name f, target = t,
                                           kind = k, matchField = TrimSpace (parts ! 1), many = m\<rparr>))))"

definition relationSpecs :: "typeEnv \<Rightarrow> string \<Rightarrow> relationSpec list result" where
  "relationSpecs env t =
     (case map_of (structs env) t of
        None \<Rightarrow> Inl (ErrRelationSchema ''is not a struct'')
      | Some fs \<Rightarrow>
          fold_result
            (\<lambda>out i. bind_result (parseRelationField env t i)
               (\<lambda>r. Inr (case r of None \<Rightarrow> out | Some s \<Rightarrow> out @ [s])))
            [0 ..< length fs] [])"

section \<open>Checking one relation\<close>

definition validateScalarMatchField :: "relField \<Rightarrow> unit result" where
  "validateScalarMatchField f =
     (if isScalarKey (rf_type f) then Inr () else Inl (ErrRelationSchema ''must be a scalar key''))"

definition validateOwnBackField :: "typeEnv \<Rightarrow> relationSpec \<Rightarrow> nat \<times> relField \<Rightarrow> unit result" where
  "validateOwnBackField env r back =
     (case rf_type (snd back) of
        PointerType _ \<Rightarrow>
          bind_result (parseRelationField env (target r) (fst back))
            (\<lambda>c. case c of
               Some complement \<Rightarrow>
                 if kind complement = OwnedByRelation \<and> target complement = owner r then Inr ()
                 else Inl (ErrRelationSchema ''must be a raw scalar FK or ownedby pointer'')
             | None \<Rightarrow> Inl (ErrRelationSchema ''must be a raw scalar FK or ownedby pointer''))
      | t \<Rightarrow> if isScalarKey t then Inr ()
             else Inl (ErrRelationSchema ''back field must be a scalar FK or ownedby pointer''))"

definition validateInverseBackField :: "typeEnv \<Rightarrow> relationSpec \<Rightarrow> nat \<times> relField \<Rightarrow> unit result" where
  "validateInverseBackField env r back =
     bind_result (parseRelationField env (target r) (fst back))
       (\<lambda>c. case c of
          Some complement \<Rightarrow>
            if (kind complement = BorrowRelation \<or> kind complement = OptionRelation) \<and> target complement = owner r
            then Inr () else Inl (ErrRelationSchema ''inverse must name a borrow/option field'')
        | None \<Rightarrow> Inl (ErrRelationSchema ''inverse must name a borrow/option field''))"

definition validateRelationSpec :: "typeEnv \<Rightarrow> relationSpec \<Rightarrow> unit result" where
  "validateRelationSpec env r =
     (case FieldByName env (target r) (matchField r) of
        None \<Rightarrow> Inl (ErrRelationSchema ''names missing field'')
      | Some back \<Rightarrow>
          if \<not> many r \<or> (kind r \<noteq> OwnRelation \<and> kind r \<noteq> InverseRelation) then validateScalarMatchField (snd back)
          else if kind r = OwnRelation then validateOwnBackField env r back
          else validateInverseBackField env r back)"

definition countRelationKind :: "relationSpec list \<Rightarrow> relationKind \<Rightarrow> nat" where
  "countRelationKind specs k = length (filter (\<lambda>s. kind s = k) specs)"

section \<open>Visiting the reachable types\<close>

text \<open>
  The builder. \<open>roots\<close> keeps the children of every type visited; a pointer to a root of the
  code is the type's name. \<open>roots\<close> holds a type from the moment its visit starts.
\<close>

record schemaBuilder =
  roots :: "(string \<times> relationPoint list) list"
  specsByType :: "(string \<times> relationSpec list) list"

definition newRelationSchemaBuilder :: schemaBuilder where
  "newRelationSchemaBuilder = \<lparr>roots = [], specsByType = []\<rparr>"

definition relationPointOf :: "relationSpec \<Rightarrow> relationPoint" where
  "relationPointOf s =
     \<lparr>rp_FieldName = fieldName s, rp_FieldType = target s, rp_Field = matchField s, rp_Many = many s,
      rp_RelationType = kind s, rp_To = target s\<rparr>"

definition appendChild :: "string \<Rightarrow> relationPoint \<Rightarrow> schemaBuilder \<Rightarrow> schemaBuilder" where
  "appendChild t p b =
     b\<lparr>roots := AList.update t ((case map_of (roots b) t of None \<Rightarrow> [] | Some ps \<Rightarrow> ps) @ [p]) (roots b)\<rparr>"

definition startVisit :: "string \<Rightarrow> relationSpec list \<Rightarrow> schemaBuilder \<Rightarrow> schemaBuilder" where
  "startVisit t specs b = b\<lparr>roots := (t, []) # roots b, specsByType := (t, specs) # specsByType b\<rparr>"

text \<open>\<open>visit\<close> and its loop over the fields, which calls \<open>buildPoint\<close> (written out) for each.\<close>

function visit :: "typeEnv \<Rightarrow> schemaBuilder \<Rightarrow> string \<Rightarrow> schemaBuilder result"
  and visitPoints :: "typeEnv \<Rightarrow> schemaBuilder \<Rightarrow> string \<Rightarrow> relationSpec list \<Rightarrow> schemaBuilder result"
where
  "visit env b t =
     (if map_of (roots b) t \<noteq> None then Inr b
      else case relationSpecs env t of
        Inl e \<Rightarrow> Inl e
      | Inr specs \<Rightarrow>
          if 1 < countRelationKind specs OwnedByRelation
          then Inl (ErrRelationSchema ''declares more than one ownedby field'')
          else visitPoints env (startVisit t specs b) t specs)"
| "visitPoints env b t [] = Inr b"
| "visitPoints env b t (s # ss) =
     (case validateRelationSpec env s of
        Inl e \<Rightarrow> Inl e
      | Inr _ \<Rightarrow>
          (case visit env b (target s) of
             Inl e \<Rightarrow> Inl e
           | Inr b' \<Rightarrow> visitPoints env (appendChild t (relationPointOf s) b') t ss))"
  by pat_completeness auto

definition visited :: "schemaBuilder \<Rightarrow> string set" where
  "visited b = fst ` set (roots b)"

lemma map_of_roots: "map_of (roots b) t = None \<longleftrightarrow> t \<notin> visited b"
  by (simp add: visited_def map_of_eq_None_iff)

lemma visited_start [simp]: "visited (startVisit t specs b) = insert t (visited b)"
  by (simp add: visited_def startVisit_def)

lemma visited_append [simp]: "visited (appendChild t p b) = insert t (visited b)"
  by (auto simp: visited_def appendChild_def dom_update)

lemma visit_grows:
  "visit_visitPoints_dom (Inl (env, b, t)) \<Longrightarrow> visit env b t = Inr b' \<Longrightarrow> visited b \<subseteq> visited b'"
  "visit_visitPoints_dom (Inr (env, b, t, ss)) \<Longrightarrow> visitPoints env b t ss = Inr b' \<Longrightarrow> visited b \<subseteq> visited b'"
proof (induction env b t and env b t ss arbitrary: b' and b' rule: visit_visitPoints.pinduct)
  case (1 env b t)
  then show ?case by (fastforce simp: visit.psimps split: if_splits sum.splits)
next
  case (2 env b t)
  then show ?case by (simp add: visitPoints.psimps)
next
  case (3 env b t s ss)
  then show ?case by (fastforce simp: visitPoints.psimps split: sum.splits)
qed

definition unvisited :: "typeEnv \<Rightarrow> schemaBuilder \<Rightarrow> nat" where
  "unvisited env b = card (fst ` set (structs env) - visited b)"

lemma unvisited_mono: "visited b \<subseteq> visited b' \<Longrightarrow> unvisited env b' \<le> unvisited env b"
  unfolding unvisited_def by (rule card_mono) auto

lemma relationSpecs_declared: "relationSpecs env t = Inr specs \<Longrightarrow> t \<in> fst ` set (structs env)"
  by (auto simp: relationSpecs_def dest: map_of_SomeD split: option.splits intro: image_eqI[rotated])

lemma unvisited_start:
  "relationSpecs env t = Inr specs \<Longrightarrow> t \<notin> visited b \<Longrightarrow> unvisited env (startVisit t specs b) < unvisited env b"
  unfolding unvisited_def by (rule psubset_card_mono) (auto dest: relationSpecs_declared)

termination visit
proof (relation "measures [
    \<lambda>x. case x of Inl (env, b, t) \<Rightarrow> unvisited env b | Inr (env, b, t, ss) \<Rightarrow> unvisited env b,
    \<lambda>x. case x of Inl _ \<Rightarrow> 0 | Inr (env, b, t, ss) \<Rightarrow> Suc (length ss)]", goal_cases)
  case 1
  then show ?case by simp
next
  case (2 env b t specs)
  then show ?case using unvisited_start[of env t specs b] by (simp add: map_of_roots)
next
  case (3 env b t s ss)
  then show ?case by simp
next
  case (4 env b t s ss u b')
  then have "visited b \<subseteq> visited b'" by (intro visit_grows(1)) auto
  then have "unvisited env (appendChild t (relationPointOf s) b') \<le> unvisited env b"
    by (intro unvisited_mono) auto
  then show ?case by auto
qed

section \<open>Cycles of mandatory relations\<close>

definition isRequiredTypeEdge :: "relationSpec \<Rightarrow> relationKind \<Rightarrow> bool" where
  "isRequiredTypeEdge s k = (if kind s \<noteq> k then False else k \<noteq> OwnRelation \<or> \<not> many s)"

definition specsOf :: "(string \<times> relationSpec list) list \<Rightarrow> string \<Rightarrow> relationSpec list" where
  "specsOf byType t = (case map_of byType t of None \<Rightarrow> [] | Some ss \<Rightarrow> ss)"

text \<open>States of the walk: 0 unseen, 1 on the path, 2 done, as in the code.\<close>

function visitRequiredType ::
    "(string \<times> relationSpec list) list \<Rightarrow> relationKind \<Rightarrow> string \<Rightarrow> (string \<Rightarrow> nat) \<Rightarrow> (string \<Rightarrow> nat) result"
  and visitRequiredEdges ::
    "(string \<times> relationSpec list) list \<Rightarrow> relationKind \<Rightarrow> relationSpec list \<Rightarrow> (string \<Rightarrow> nat) \<Rightarrow> (string \<Rightarrow> nat) result"
where
  "visitRequiredType byType k t state =
     (if state t = 1 then Inl (ErrRelationSchema ''unsatisfiable cycle'')
      else if state t = 2 then Inr state
      else case visitRequiredEdges byType k (specsOf byType t) (state(t := 1)) of
        Inl e \<Rightarrow> Inl e
      | Inr state' \<Rightarrow> Inr (state'(t := 2)))"
| "visitRequiredEdges byType k [] state = Inr state"
| "visitRequiredEdges byType k (s # ss) state =
     (if \<not> isRequiredTypeEdge s k then visitRequiredEdges byType k ss state
      else case visitRequiredType byType k (target s) state of
        Inl e \<Rightarrow> Inl e
      | Inr state' \<Rightarrow> visitRequiredEdges byType k ss state')"
  by pat_completeness auto

definition unseen :: "(string \<times> relationSpec list) list \<Rightarrow> (string \<Rightarrow> nat) \<Rightarrow> nat" where
  "unseen byType state = card {t \<in> fst ` set byType. state t \<notin> {1, 2}}"

lemma unseen_mono:
  "(\<And>t. state t \<in> {1, 2} \<Longrightarrow> state' t \<in> {1, 2}) \<Longrightarrow> unseen byType state' \<le> unseen byType state"
  unfolding unseen_def by (rule card_mono) auto

lemma unseen_mark:
  assumes "specsOf byType t \<noteq> []" and "state t \<notin> {1, 2}"
  shows "unseen byType (state(t := 1)) < unseen byType state"
proof -
  have "t \<in> fst ` set byType"
    using assms(1) by (auto simp: specsOf_def split: option.splits dest!: map_of_SomeD intro: image_eqI[rotated])
  then show ?thesis unfolding unseen_def using assms(2) by (intro psubset_card_mono) auto
qed

lemma required_grows:
  "visitRequiredType_visitRequiredEdges_dom (Inl (byType, k, t, state)) \<Longrightarrow>
   visitRequiredType byType k t state = Inr state' \<Longrightarrow> state u \<in> {1, 2} \<Longrightarrow> state' u \<in> {1, 2}"
  "visitRequiredType_visitRequiredEdges_dom (Inr (byType, k, ss, state)) \<Longrightarrow>
   visitRequiredEdges byType k ss state = Inr state' \<Longrightarrow> state u \<in> {1, 2} \<Longrightarrow> state' u \<in> {1, 2}"
proof (induction byType k t state and byType k ss state arbitrary: state' and state'
    rule: visitRequiredType_visitRequiredEdges.pinduct)
  case (1 byType k t state)
  then show ?case
    by (fastforce simp: visitRequiredType.psimps split: if_splits sum.splits)
next
  case (2 byType k state)
  then show ?case by (simp add: visitRequiredEdges.psimps)
next
  case (3 byType k s ss state)
  then show ?case by (fastforce simp: visitRequiredEdges.psimps split: if_splits sum.splits)
qed

termination visitRequiredType
proof (relation "measures [
    \<lambda>x. case x of Inl (byType, k, t, state) \<Rightarrow> unseen byType state | Inr (byType, k, ss, state) \<Rightarrow> unseen byType state,
    \<lambda>x. case x of Inl _ \<Rightarrow> 1 | Inr (byType, k, ss, state) \<Rightarrow> 2 * length ss]", goal_cases)
  case 1
  then show ?case by simp
next
  case (2 byType k t state)
  show ?case
  proof (cases "specsOf byType t = []")
    case True
    have "unseen byType (state(t := 1)) \<le> unseen byType state" by (rule unseen_mono) simp
    then show ?thesis using True by auto
  next
    case False
    then show ?thesis using unseen_mark[OF False, of state] 2 by simp
  qed
next
  case (3 byType k s ss state)
  then show ?case by simp
next
  case (4 byType k s ss state)
  then show ?case by simp
next
  case (5 byType k s ss state state')
  have "unseen byType state' \<le> unseen byType state"
    by (rule unseen_mono) (rule required_grows(1)[OF 5(3) 5(2)])
  then show ?case by (auto simp: less_Suc_eq_le)
qed

text \<open>The loop over the map of types, in any order \<open>order\<close> of its keys.\<close>

definition validateRequiredCycles :: "(string \<times> relationSpec list) list \<Rightarrow> string list \<Rightarrow> relationKind \<Rightarrow> unit result" where
  "validateRequiredCycles byType order k =
     bind_result (fold_result (\<lambda>state t. visitRequiredType byType k t state) order (\<lambda>_. 0)) (\<lambda>_. Inr ())"

text \<open>The struct type of the root argument, one pointer stripped.\<close>

fun rootType :: "reflectType \<Rightarrow> string option" where
  "rootType (PointerType (StructType t)) = Some t"
| "rootType (StructType t) = Some t"
| "rootType _ = None"

definition buildRelationSchema ::
  "typeEnv \<Rightarrow> (schemaBuilder \<Rightarrow> string list) \<Rightarrow> reflectType \<Rightarrow> (string \<times> relationPoint list) list result" where
  "buildRelationSchema env order root =
     (case rootType root of
        None \<Rightarrow> Inl (ErrRelationSchema ''is not a struct'')
      | Some t \<Rightarrow>
          bind_result (visit env newRelationSchemaBuilder t)
            (\<lambda>b. bind_result
               (fold_result (\<lambda>_ k. validateRequiredCycles (specsByType b) (order b) k) [OwnedByRelation, OwnRelation] ())
               (\<lambda>_. Inr (roots b))))"

section \<open>What a valid schema is\<close>

definition type_ok :: "typeEnv \<Rightarrow> string \<Rightarrow> bool" where
  "type_ok env t \<longleftrightarrow>
     (\<exists>specs. relationSpecs env t = Inr specs \<and> countRelationKind specs OwnedByRelation \<le> 1 \<and>
        (\<forall>s \<in> set specs. validateRelationSpec env s = Inr ()))"

definition typeEdges :: "typeEnv \<Rightarrow> (string \<times> string) set" where
  "typeEdges env = {(t, u). \<exists>specs. relationSpecs env t = Inr specs \<and> u \<in> target ` set specs}"

definition requiredEdges :: "typeEnv \<Rightarrow> relationKind \<Rightarrow> (string \<times> string) set" where
  "requiredEdges env k =
     {(t, u). \<exists>specs s. relationSpecs env t = Inr specs \<and> s \<in> set specs \<and> isRequiredTypeEdge s k \<and> u = target s}"

definition childrenOf :: "schemaBuilder \<Rightarrow> string \<Rightarrow> relationPoint list" where
  "childrenOf b t = (case map_of (roots b) t of None \<Rightarrow> [] | Some ps \<Rightarrow> ps)"

text \<open>A visited type whose visit is complete: valid, its targets visited, one child per relation.\<close>

definition complete :: "typeEnv \<Rightarrow> schemaBuilder \<Rightarrow> string \<Rightarrow> bool" where
  "complete env b t \<longleftrightarrow>
     type_ok env t \<and> typeEdges env `` {t} \<subseteq> visited b \<and>
     (\<forall>specs. relationSpecs env t = Inr specs \<longrightarrow> childrenOf b t = map relationPointOf specs)"

text \<open>Both maps of the builder hold the same types, with the specifications of each.\<close>

definition builder_agrees :: "typeEnv \<Rightarrow> schemaBuilder \<Rightarrow> bool" where
  "builder_agrees env b \<longleftrightarrow>
     fst ` set (specsByType b) = visited b \<and>
     (\<forall>t \<in> visited b. \<exists>specs. map_of (specsByType b) t = Some specs \<and> relationSpecs env t = Inr specs)"

lemma agrees_start:
  "builder_agrees env b \<Longrightarrow> relationSpecs env t = Inr specs \<Longrightarrow> builder_agrees env (startVisit t specs b)"
  by (auto simp: builder_agrees_def startVisit_def visited_def)

lemma agrees_append:
  "builder_agrees env b \<Longrightarrow> t \<in> visited b \<Longrightarrow> builder_agrees env (appendChild t p b)"
proof -
  assume a: "builder_agrees env b" "t \<in> visited b"
  then have "visited (appendChild t p b) = visited b" by auto
  moreover have "specsByType (appendChild t p b) = specsByType b" by (simp add: appendChild_def)
  ultimately show ?thesis using a(1) by (simp add: builder_agrees_def)
qed

lemma children_start [simp]:
  "childrenOf (startVisit t specs b) u = (if u = t then [] else childrenOf b u)"
  by (simp add: childrenOf_def startVisit_def)

lemma children_append [simp]:
  "childrenOf (appendChild t p b) u = (if u = t then childrenOf b t @ [p] else childrenOf b u)"
  by (simp add: childrenOf_def appendChild_def update_conv')

lemma complete_mono:
  "complete env b u \<Longrightarrow> visited b \<subseteq> visited b' \<Longrightarrow> childrenOf b' u = childrenOf b u \<Longrightarrow> complete env b' u"
  by (auto simp: complete_def)

definition visit_post :: "typeEnv \<Rightarrow> schemaBuilder \<Rightarrow> schemaBuilder \<Rightarrow> string set \<Rightarrow> bool" where
  "visit_post env b b' from \<longleftrightarrow>
     builder_agrees env b' \<and> visited b \<subseteq> visited b' \<and>
     (\<forall>u \<in> visited b' - visited b. complete env b' u \<and> u \<in> (typeEdges env)\<^sup>* `` from)"

lemma visit_sound:
  "visit env b t = Inr b' \<Longrightarrow> builder_agrees env b \<Longrightarrow>
     visit_post env b b' {t} \<and> t \<in> visited b' \<and> (\<forall>u \<in> visited b. childrenOf b' u = childrenOf b u)"
  "visitPoints env b t ss = Inr b' \<Longrightarrow> builder_agrees env b \<Longrightarrow> t \<in> visited b \<Longrightarrow>
     visit_post env b b' (target ` set ss) \<and>
     (\<forall>s \<in> set ss. validateRelationSpec env s = Inr () \<and> target s \<in> visited b') \<and>
     childrenOf b' t = childrenOf b t @ map relationPointOf ss \<and>
     (\<forall>u \<in> visited b - {t}. childrenOf b' u = childrenOf b u)"
proof (induction env b t and env b t ss arbitrary: b' and b' rule: visit_visitPoints.induct)
  case (1 env b t)
  show ?case
  proof (cases "map_of (roots b) t = None")
    case False
    then show ?thesis using 1(2,3) map_of_roots[of b t] by (auto simp: visit_post_def)
  next
    case True
    then obtain specs where specs: "relationSpecs env t = Inr specs" "countRelationKind specs OwnedByRelation \<le> 1"
      "visitPoints env (startVisit t specs b) t specs = Inr b'"
      using 1(2) by (auto split: sum.splits if_splits)
    have fresh: "t \<notin> visited b" using True map_of_roots by blast
    have P: "visit_post env (startVisit t specs b) b' (target ` set specs)"
      "\<forall>s \<in> set specs. validateRelationSpec env s = Inr () \<and> target s \<in> visited b'"
      "childrenOf b' t = map relationPointOf specs" "\<forall>u \<in> visited b. childrenOf b' u = childrenOf b u"
      using 1(1)[OF _ specs(1) _ specs(3)] True specs(2) agrees_start[OF 1(3) specs(1)] fresh by auto
    have t: "t \<in> visited b'" using P(1) by (auto simp: visit_post_def)
    have "complete env b' t"
      using specs P(2,3) by (auto simp: complete_def type_ok_def typeEdges_def)
    moreover have "u \<in> (typeEdges env)\<^sup>* `` {t}" if "u \<in> (typeEdges env)\<^sup>* `` (target ` set specs)" for u
      using that specs(1) by (auto simp: typeEdges_def intro: converse_rtrancl_into_rtrancl)
    ultimately have "complete env b' u \<and> u \<in> (typeEdges env)\<^sup>* `` {t}" if "u \<in> visited b' - visited b" for u
      using P(1) that by (cases "u = t") (auto simp: visit_post_def)
    then have "visit_post env b b' {t}" using P(1) by (auto simp: visit_post_def)
    then show ?thesis using t P(4) by blast
  qed
next
  case (2 env b t)
  then show ?case by (auto simp: visit_post_def)
next
  case (3 env b t s ss)
  from 3(3) obtain c where v: "validateRelationSpec env s = Inr ()" "visit env b (target s) = Inr c"
    "visitPoints env (appendChild t (relationPointOf s) c) t ss = Inr b'"
    by (auto split: sum.splits)
  have A: "visit_post env b c {target s}" "target s \<in> visited c" "\<forall>u \<in> visited b. childrenOf c u = childrenOf b u"
    using 3(1)[OF v(1,2) 3(4)] by auto
  have tc: "t \<in> visited c" using A(1) 3(5) by (auto simp: visit_post_def)
  have vis: "visited (appendChild t (relationPointOf s) c) = visited c" using tc by auto
  have "builder_agrees env (appendChild t (relationPointOf s) c)"
    using A(1) tc by (intro agrees_append) (auto simp: visit_post_def)
  from 3(2)[OF v(1,2,3) this] vis tc
  have B: "visit_post env (appendChild t (relationPointOf s) c) b' (target ` set ss)"
    "\<forall>s \<in> set ss. validateRelationSpec env s = Inr () \<and> target s \<in> visited b'"
    "childrenOf b' t = childrenOf c t @ relationPointOf s # map relationPointOf ss"
    "\<forall>u \<in> visited c - {t}. childrenOf b' u = childrenOf c u"
    by auto
  have sub: "visited b \<subseteq> visited c" "visited c \<subseteq> visited b'" using A(1) B(1) vis by (auto simp: visit_post_def)
  have "visit_post env b b' (target ` set (s # ss))"
    unfolding visit_post_def
  proof (intro conjI ballI)
    fix u assume u: "u \<in> visited b' - visited b"
    show "complete env b' u"
    proof (cases "u \<in> visited c")
      case True
      then have "complete env c u" "u \<noteq> t" using u A(1) 3(5) by (auto simp: visit_post_def)
      then show ?thesis using complete_mono sub(2) B(4) True by blast
    qed (use u B(1) vis in \<open>auto simp: visit_post_def\<close>)
    show "u \<in> (typeEdges env)\<^sup>* `` (target ` set (s # ss))"
    proof (cases "u \<in> visited c")
      case True
      then show ?thesis using u A(1) by (auto simp: visit_post_def)
    next
      case False
      then have "u \<in> (typeEdges env)\<^sup>* `` (target ` set ss)" using u B(1) vis by (auto simp: visit_post_def)
      then show ?thesis by auto
    qed
  qed (use B(1) sub in \<open>auto simp: visit_post_def\<close>)
  moreover have "childrenOf b' u = childrenOf b u" if "u \<in> visited b - {t}" for u
    using that A(3) B(4) sub(1) by auto
  ultimately show ?case using v(1) A(2,3) B(2,3) sub 3(5) by auto
qed

lemma visit_error:
  "visit env b t = Inl e \<Longrightarrow> \<exists>u. (t, u) \<in> (typeEdges env)\<^sup>* \<and> \<not> type_ok env u"
  "visitPoints env b t ss = Inl e \<Longrightarrow>
     (\<exists>s \<in> set ss. validateRelationSpec env s \<noteq> Inr () \<or>
        (\<exists>u. (target s, u) \<in> (typeEdges env)\<^sup>* \<and> \<not> type_ok env u))"
proof (induction env b t and env b t ss rule: visit_visitPoints.induct)
  case (1 env b t)
  show ?case
  proof (cases "type_ok env t")
    case False
    then show ?thesis by blast
  next
    case True
    then obtain specs where specs: "relationSpecs env t = Inr specs" "countRelationKind specs OwnedByRelation \<le> 1"
      "\<forall>s \<in> set specs. validateRelationSpec env s = Inr ()"
      by (auto simp: type_ok_def)
    then obtain s u where "s \<in> set specs" "(target s, u) \<in> (typeEdges env)\<^sup>*" "\<not> type_ok env u"
      using 1 by (fastforce split: if_splits)
    moreover have "(t, target s) \<in> typeEdges env" using specs(1) \<open>s \<in> set specs\<close> by (auto simp: typeEdges_def)
    ultimately show ?thesis by (meson converse_rtrancl_into_rtrancl)
  qed
next
  case (3 env b t s ss)
  then show ?case by (fastforce split: sum.splits)
qed simp

section \<open>The cycle check decides acyclicity\<close>

definition mapEdges :: "(string \<times> relationSpec list) list \<Rightarrow> relationKind \<Rightarrow> (string \<times> string) set" where
  "mapEdges byType k = {(t, u). \<exists>s \<in> set (specsOf byType t). isRequiredTypeEdge s k \<and> u = target s}"

lemma acyclic_add_top:
  assumes "acyclic r" and "r \<subseteq> B \<times> B" and "t \<notin> B" and "S \<subseteq> B"
  shows "acyclic (r \<union> {t} \<times> S)"
proof -
  have inB: "y \<in> B" if "(x, y) \<in> (r \<union> {t} \<times> S)\<^sup>+" for x y
    using that by (induction rule: trancl_induct) (use assms in auto)
  have inr: "(x, y) \<in> r\<^sup>+" if "(x, y) \<in> (r \<union> {t} \<times> S)\<^sup>+" "x \<in> B" for x y
    using that
  proof (induction rule: trancl_induct)
    case (base y)
    then show ?case using assms(3) by auto
  next
    case (step y z)
    then have "y \<noteq> t" using inB[OF step(1)] assms(3) by auto
    then show ?case using step by (auto intro: trancl_into_trancl)
  qed
  show ?thesis unfolding acyclic_def using inB inr assms(1) by (meson acyclic_def)
qed

text \<open>The done types are closed and acyclic; the types on the path reach the current one.\<close>

definition doneTypes :: "(string \<Rightarrow> nat) \<Rightarrow> string set" where "doneTypes state = {t. state t = 2}"
definition pathTypes :: "(string \<Rightarrow> nat) \<Rightarrow> string set" where "pathTypes state = {t. state t = 1}"

definition done_ok :: "(string \<times> string) set \<Rightarrow> (string \<Rightarrow> nat) \<Rightarrow> bool" where
  "done_ok E state \<longleftrightarrow> E `` doneTypes state \<subseteq> doneTypes state \<and> acyclic (E \<inter> doneTypes state \<times> doneTypes state)"

lemma required_sound:
  "visitRequiredType byType k t state = Inr state' \<Longrightarrow> done_ok (mapEdges byType k) state \<Longrightarrow>
     done_ok (mapEdges byType k) state' \<and> t \<in> doneTypes state' \<and> doneTypes state \<subseteq> doneTypes state' \<and>
     pathTypes state' = pathTypes state"
  "visitRequiredEdges byType k ss state = Inr state' \<Longrightarrow> done_ok (mapEdges byType k) state \<Longrightarrow>
     done_ok (mapEdges byType k) state' \<and> (\<forall>s \<in> set ss. isRequiredTypeEdge s k \<longrightarrow> target s \<in> doneTypes state') \<and>
     doneTypes state \<subseteq> doneTypes state' \<and> pathTypes state' = pathTypes state"
proof (induction byType k t state and byType k ss state arbitrary: state' and state'
    rule: visitRequiredType_visitRequiredEdges.induct)
  case (1 byType k t state)
  let ?E = "mapEdges byType k"
  show ?case
  proof (cases "state t = 2")
    case True
    then show ?thesis using 1(2,3) by (auto simp: doneTypes_def)
  next
    case False
    then obtain s1 where s1: "state t \<noteq> 1" "visitRequiredEdges byType k (specsOf byType t) (state(t := 1)) = Inr s1"
      "state' = s1(t := 2)"
      using 1(2) by (auto split: sum.splits if_splits)
    have d: "doneTypes (state(t := 1)) = doneTypes state" "pathTypes (state(t := 1)) = insert t (pathTypes state)"
      using False by (auto simp: doneTypes_def pathTypes_def)
    have A: "done_ok ?E s1" "\<forall>s \<in> set (specsOf byType t). isRequiredTypeEdge s k \<longrightarrow> target s \<in> doneTypes s1"
      "doneTypes state \<subseteq> doneTypes s1" "pathTypes s1 = insert t (pathTypes state)"
    proof -
      have "done_ok ?E (state(t := 1))" using 1(3) unfolding done_ok_def d .
      note R = 1(1)[OF s1(1) False s1(2) this, unfolded d]
      show "done_ok ?E s1" "\<forall>s \<in> set (specsOf byType t). isRequiredTypeEdge s k \<longrightarrow> target s \<in> doneTypes s1"
        "doneTypes state \<subseteq> doneTypes s1" "pathTypes s1 = insert t (pathTypes state)"
        using R by blast+
    qed
    have t: "t \<notin> doneTypes s1" "t \<notin> pathTypes state" using A(4) s1(1) by (auto simp: doneTypes_def pathTypes_def)
    have d2: "doneTypes state' = insert t (doneTypes s1)" "pathTypes state' = pathTypes state"
      using A(4) t s1(3) by (auto simp: doneTypes_def pathTypes_def)
    have S: "?E `` {t} \<subseteq> doneTypes s1" using A(2) by (auto simp: mapEdges_def)
    have "?E \<inter> doneTypes state' \<times> doneTypes state' = (?E \<inter> doneTypes s1 \<times> doneTypes s1) \<union> {t} \<times> (?E `` {t})"
      using A(1) t(1) S by (auto simp: d2 done_ok_def)
    moreover have "acyclic ((?E \<inter> doneTypes s1 \<times> doneTypes s1) \<union> {t} \<times> (?E `` {t}))"
      by (rule acyclic_add_top[OF _ _ t(1) S]) (use A(1) in \<open>auto simp: done_ok_def\<close>)
    ultimately have "done_ok ?E state'" using A(1) S by (auto simp: done_ok_def d2)
    then show ?thesis using d2 A(3) by auto
  qed
next
  case (2 byType k state)
  then show ?case by auto
next
  case (3 byType k s ss state)
  show ?case
  proof (cases "isRequiredTypeEdge s k")
    case False
    then show ?thesis using 3 by auto
  next
    case True
    then obtain s1 where s1: "visitRequiredType byType k (target s) state = Inr s1"
      "visitRequiredEdges byType k ss s1 = Inr state'"
      using 3(4) by (auto split: sum.splits)
    have A: "done_ok (mapEdges byType k) s1" "target s \<in> doneTypes s1" "doneTypes state \<subseteq> doneTypes s1"
      "pathTypes s1 = pathTypes state"
      using 3(2)[OF _ s1(1) 3(5)] True by auto
    show ?thesis using 3(3)[OF _ s1(1,2) A(1)] True A by auto
  qed
qed

lemma required_error:
  "visitRequiredType byType k t state = Inl e \<Longrightarrow> done_ok (mapEdges byType k) state \<Longrightarrow>
     (\<forall>g \<in> pathTypes state. (g, t) \<in> (mapEdges byType k)\<^sup>+) \<Longrightarrow> \<not> acyclic (mapEdges byType k)"
  "visitRequiredEdges byType k ss state = Inl e \<Longrightarrow> done_ok (mapEdges byType k) state \<Longrightarrow>
     (\<forall>g \<in> pathTypes state. \<forall>s \<in> set ss. isRequiredTypeEdge s k \<longrightarrow> (g, target s) \<in> (mapEdges byType k)\<^sup>+) \<Longrightarrow>
     \<not> acyclic (mapEdges byType k)"
proof (induction byType k t state and byType k ss state rule: visitRequiredType_visitRequiredEdges.induct)
  case (1 byType k t state)
  let ?E = "mapEdges byType k"
  show ?case
  proof (cases "state t = 1")
    case True
    then show ?thesis using 1(4) by (auto simp: acyclic_def pathTypes_def)
  next
    case False
    then have e: "state t \<noteq> 2" "visitRequiredEdges byType k (specsOf byType t) (state(t := 1)) = Inl e"
      using 1(2) by (auto split: sum.splits if_splits)
    have d: "doneTypes (state(t := 1)) = doneTypes state" "pathTypes (state(t := 1)) = insert t (pathTypes state)"
      using e(1) by (auto simp: doneTypes_def pathTypes_def)
    have "(g, target s) \<in> ?E\<^sup>+" if "g \<in> pathTypes (state(t := 1))" "s \<in> set (specsOf byType t)" "isRequiredTypeEdge s k" for g s
    proof -
      have "(t, target s) \<in> ?E" using that by (auto simp: mapEdges_def)
      then show ?thesis using that(1) 1(4) d(2) by (auto intro: trancl_into_trancl)
    qed
    moreover have "done_ok ?E (state(t := 1))" using 1(3) unfolding done_ok_def d .
    ultimately show ?thesis using 1(1)[OF False e(1,2)] by blast
  qed
next
  case (3 byType k s ss state)
  show ?case
  proof (cases "isRequiredTypeEdge s k")
    case False
    then show ?thesis using 3 by auto
  next
    case req: True
    show ?thesis
    proof (cases "visitRequiredType byType k (target s) state")
      case (Inl e')
      then show ?thesis using 3(2)[OF _ _ 3(5)] req 3(4,6) by auto
    next
      case (Inr s1)
      then have e: "visitRequiredEdges byType k ss s1 = Inl e" using 3(4) req by simp
      have A: "done_ok (mapEdges byType k) s1" "pathTypes s1 = pathTypes state"
        using required_sound(1)[OF Inr 3(5)] by auto
      show ?thesis using 3(3)[OF _ Inr e A(1)] req 3(6) A(2) by auto
    qed
  qed
qed simp

lemma validateRequiredCycles_conv:
  assumes "fst ` set byType \<subseteq> set order"
  shows "validateRequiredCycles byType order k = Inr () \<longleftrightarrow> acyclic (mapEdges byType k)"
proof -
  let ?E = "mapEdges byType k" and ?f = "\<lambda>state t. visitRequiredType byType k t state"
  have run: "(\<forall>st'. fold_result ?f ts st = Inr st' \<longrightarrow>
        done_ok ?E st' \<and> set ts \<subseteq> doneTypes st' \<and> doneTypes st \<subseteq> doneTypes st' \<and> pathTypes st' = {}) \<and>
      (\<forall>e. fold_result ?f ts st = Inl e \<longrightarrow> \<not> acyclic ?E)"
    if "done_ok ?E st" "pathTypes st = {}" for ts st
    using that
  proof (induction ts arbitrary: st)
    case (Cons t ts)
    show ?case
    proof (cases "?f st t")
      case (Inl e)
      then show ?thesis using required_error(1)[OF Inl Cons.prems(1)] Cons.prems(2) by auto
    next
      case (Inr s1)
      have A: "done_ok ?E s1" "t \<in> doneTypes s1" "doneTypes st \<subseteq> doneTypes s1" "pathTypes s1 = {}"
        using required_sound(1)[OF Inr Cons.prems(1)] Cons.prems(2) by auto
      from Cons.IH[OF A(1,4)] show ?thesis using A(2,3) Inr by auto
    qed
  qed simp
  have ini: "done_ok ?E (\<lambda>_. 0)" "pathTypes (\<lambda>_. 0) = {}" by (auto simp: done_ok_def doneTypes_def pathTypes_def acyclic_def)
  note R = run[OF ini, of order]
  show ?thesis
  proof (cases "fold_result ?f order (\<lambda>_. 0)")
    case (Inl e)
    then show ?thesis using R by (auto simp: validateRequiredCycles_def)
  next
    case (Inr st)
    then have "done_ok ?E st" "set order \<subseteq> doneTypes st" using R by auto
    moreover have "u \<in> set order \<and> v \<in> ?E `` doneTypes st" if e: "(u, v) \<in> ?E" for u v
    proof -
      have "specsOf byType u \<noteq> []" using e by (auto simp: mapEdges_def)
      then have "u \<in> fst ` set byType" by (force simp: specsOf_def split: option.splits dest: map_of_SomeD)
      then have "u \<in> set order" using assms by blast
      then show ?thesis using e \<open>set order \<subseteq> doneTypes st\<close> by blast
    qed
    ultimately have "(u, v) \<in> doneTypes st \<times> doneTypes st" if "(u, v) \<in> ?E" for u v
      using that unfolding done_ok_def by blast
    then have "?E \<inter> doneTypes st \<times> doneTypes st = ?E" by auto
    then have "acyclic ?E" using \<open>done_ok ?E st\<close> unfolding done_ok_def by simp
    then show ?thesis using Inr by (simp add: validateRequiredCycles_def)
  qed
qed

section \<open>The schema is accepted exactly when it is valid\<close>

declare visit.simps [simp del] visitRequiredType.simps [simp del]

definition reachableTypes :: "typeEnv \<Rightarrow> string \<Rightarrow> string set" where
  "reachableTypes env t = (typeEdges env)\<^sup>* `` {t}"

lemma visit_root:
  assumes "visit env newRelationSchemaBuilder t = Inr b"
  shows "visited b = reachableTypes env t" and "\<forall>u \<in> visited b. complete env b u" and "builder_agrees env b"
proof -
  have "builder_agrees env newRelationSchemaBuilder"
    by (simp add: builder_agrees_def newRelationSchemaBuilder_def visited_def)
  note P = visit_sound(1)[OF assms this]
  have empty: "visited newRelationSchemaBuilder = {}" by (simp add: visited_def newRelationSchemaBuilder_def)
  show c: "\<forall>u \<in> visited b. complete env b u" and "builder_agrees env b"
    using P by (auto simp: visit_post_def empty)
  have "typeEdges env `` visited b \<subseteq> visited b" using c by (auto simp: complete_def)
  then have "(typeEdges env)\<^sup>* `` visited b = visited b" by (rule Image_closed_trancl)
  then show "visited b = reachableTypes env t"
    using P by (auto simp: visit_post_def empty reachableTypes_def)
qed

lemma mapEdges_required:
  assumes "builder_agrees env b"
  shows "mapEdges (specsByType b) k = requiredEdges env k \<inter> visited b \<times> UNIV"
proof -
  have "specsOf (specsByType b) t = []" if "t \<notin> visited b" for t
  proof -
    have "map_of (specsByType b) t = None" using that assms by (simp add: builder_agrees_def map_of_eq_None_iff)
    then show ?thesis by (simp add: specsOf_def)
  qed
  moreover have "\<exists>specs. specsOf (specsByType b) t = specs \<and> relationSpecs env t = Inr specs" if "t \<in> visited b" for t
    using that assms by (fastforce simp: builder_agrees_def specsOf_def)
  ultimately show ?thesis unfolding mapEdges_def requiredEdges_def by (fastforce split: if_splits)
qed

lemma buildRelationSchema_run:
  assumes "\<forall>b. fst ` set (specsByType b) \<subseteq> set (order b)" and b: "visit env newRelationSchemaBuilder t = Inr b"
  shows "buildRelationSchema env order (StructType t) = Inr schema \<longleftrightarrow>
      schema = roots b \<and> acyclic (requiredEdges env OwnedByRelation \<inter> reachableTypes env t \<times> UNIV) \<and>
      acyclic (requiredEdges env OwnRelation \<inter> reachableTypes env t \<times> UNIV)"
proof -
    have "validateRequiredCycles (specsByType b) (order b) k = Inr () \<longleftrightarrow>
        acyclic (requiredEdges env k \<inter> reachableTypes env t \<times> UNIV)" for k
      unfolding validateRequiredCycles_conv[OF assms(1)[rule_format]] mapEdges_required[OF visit_root(3)[OF b]]
        visit_root(1)[OF b] ..
    then have "fold_result (\<lambda>_ k. validateRequiredCycles (specsByType b) (order b) k) [OwnedByRelation, OwnRelation] () =
        Inr () \<longleftrightarrow> acyclic (requiredEdges env OwnedByRelation \<inter> reachableTypes env t \<times> UNIV) \<and>
      acyclic (requiredEdges env OwnRelation \<inter> reachableTypes env t \<times> UNIV)"
      unfolding fold_result_unit by simp
    then show ?thesis
      unfolding buildRelationSchema_def
      by (cases "fold_result (\<lambda>_ k. validateRequiredCycles (specsByType b) (order b) k) [OwnedByRelation, OwnRelation] ()")
        (simp_all add: b del: fold_result.simps, blast?)
qed

text \<open>
  C17. \<open>buildRelationSchema\<close> decides validity: whatever order the type map is iterated in, it
  succeeds if and only if every type reachable from the root is valid on its own and neither
  the mandatory \<open>ownedby\<close> edges nor the to-one \<open>own\<close> edges among them form a cycle. It always
  returns, and on success the schema holds exactly the reachable types, each with one child
  per relation field, in field order.
\<close>

theorem schema_accepted_iff_valid:
  assumes "\<forall>b. fst ` set (specsByType b) \<subseteq> set (order b)"
  shows "((\<exists>schema. buildRelationSchema env order (StructType t) = Inr schema) \<longleftrightarrow>
      (\<forall>u \<in> reachableTypes env t. type_ok env u) \<and>
      acyclic (requiredEdges env OwnedByRelation \<inter> reachableTypes env t \<times> UNIV) \<and>
      acyclic (requiredEdges env OwnRelation \<inter> reachableTypes env t \<times> UNIV)) \<and>
    (\<forall>schema. buildRelationSchema env order (StructType t) = Inr schema \<longrightarrow>
      fst ` set schema = reachableTypes env t \<and>
      (\<forall>u \<in> reachableTypes env t. \<exists>specs. relationSpecs env u = Inr specs \<and>
         map_of schema u = Some (map relationPointOf specs)))"
proof (intro conjI allI impI ballI)
  show "(\<exists>schema. buildRelationSchema env order (StructType t) = Inr schema) \<longleftrightarrow>
      (\<forall>u \<in> reachableTypes env t. type_ok env u) \<and>
      acyclic (requiredEdges env OwnedByRelation \<inter> reachableTypes env t \<times> UNIV) \<and>
      acyclic (requiredEdges env OwnRelation \<inter> reachableTypes env t \<times> UNIV)"
  proof (cases "visit env newRelationSchemaBuilder t")
    case (Inl e)
    then have "\<exists>u \<in> reachableTypes env t. \<not> type_ok env u"
      using visit_error(1)[OF Inl] by (auto simp: reachableTypes_def)
    then show ?thesis using Inl by (auto simp: buildRelationSchema_def)
  next
    case (Inr b)
    then have "\<forall>u \<in> reachableTypes env t. type_ok env u"
      using visit_root[OF Inr] by (auto simp: complete_def)
    then show ?thesis using buildRelationSchema_run[OF assms Inr] by auto
  qed
next
  fix schema assume S: "buildRelationSchema env order (StructType t) = Inr schema"
  then obtain b where b: "visit env newRelationSchemaBuilder t = Inr b"
    by (cases "visit env newRelationSchemaBuilder t") (auto simp: buildRelationSchema_def)
  then have sch: "schema = roots b" using buildRelationSchema_run[OF assms b] S by blast
  have "\<exists>specs. relationSpecs env u = Inr specs \<and> map_of schema u = Some (map relationPointOf specs)"
    if u: "u \<in> reachableTypes env t" for u
  proof -
    have "complete env b u" using visit_root[OF b] u by auto
    then obtain specs where "relationSpecs env u = Inr specs" "childrenOf b u = map relationPointOf specs"
      by (auto simp: complete_def type_ok_def)
    moreover have "map_of (roots b) u \<noteq> None" using u visit_root(1)[OF b] map_of_roots by blast
    ultimately show ?thesis by (auto simp: sch childrenOf_def)
  qed
  then show "\<exists>specs. relationSpecs env u = Inr specs \<and> map_of schema u = Some (map relationPointOf specs)"
    if "u \<in> reachableTypes env t" for u using that by blast
  show "fst ` set schema = reachableTypes env t"
    using visit_root(1)[OF b] by (simp add: sch visited_def)
qed

text \<open>An order that owns its items, each item naming its order back.\<close>

definition orderTypes :: typeEnv where
  "orderTypes = \<lparr>structs =
     [(''Order'', [\<lparr>rf_name = ''Id'', rf_type = ScalarType ''int'', rf_tag = None\<rparr>,
        \<lparr>rf_name = ''Items'', rf_type = SliceType (PointerType (StructType ''Item'')), rf_tag = Some ''own,Order''\<rparr>]),
      (''Item'', [\<lparr>rf_name = ''Id'', rf_type = ScalarType ''int'', rf_tag = None\<rparr>,
        \<lparr>rf_name = ''Order'', rf_type = PointerType (StructType ''Order''), rf_tag = Some ''ownedby, Id''\<rparr>])],
     entityTypes = [''Order'', ''Item'']\<rparr>"

lemma orderTypes_specs:
  "relationSpecs orderTypes ''Order'' = Inr [\<lparr>owner = ''Order'', fieldIndex = 1, fieldName = ''Items'', target = ''Item'',
     kind = OwnRelation, matchField = ''Order'', many = True\<rparr>]"
  "relationSpecs orderTypes ''Item'' = Inr [\<lparr>owner = ''Item'', fieldIndex = 1, fieldName = ''Order'', target = ''Order'',
     kind = OwnedByRelation, matchField = ''Id'', many = False\<rparr>]"
  by (simp_all add: relationSpecs_def orderTypes_def parseRelationField_def structFields_def upt_rec isEntityType_def
      TrimSpace_def isSpace_def parseKind_def Let_def)

theorem schema_accepted_iff_valid_witness:
  "(\<exists>schema. buildRelationSchema orderTypes (\<lambda>b. map fst (specsByType b)) (StructType ''Order'') = Inr schema) \<and>
   acyclic (requiredEdges orderTypes OwnedByRelation \<inter> reachableTypes orderTypes ''Order'' \<times> UNIV)"
proof -
  have parse: "parseRelationField orderTypes ''Item'' 1 = Inr (Some \<lparr>owner = ''Item'', fieldIndex = 1, fieldName = ''Order'',
      target = ''Order'', kind = OwnedByRelation, matchField = ''Id'', many = False\<rparr>)"
    by (simp add: orderTypes_def parseRelationField_def structFields_def isEntityType_def
        TrimSpace_def isSpace_def parseKind_def Let_def)
  have valid: "validateRelationSpec orderTypes \<lparr>owner = ''Order'', fieldIndex = 1, fieldName = ''Items'', target = ''Item'',
     kind = OwnRelation, matchField = ''Order'', many = True\<rparr> = Inr ()"
    "validateRelationSpec orderTypes \<lparr>owner = ''Item'', fieldIndex = 1, fieldName = ''Order'', target = ''Order'',
     kind = OwnedByRelation, matchField = ''Id'', many = False\<rparr> = Inr ()"
    using parse
    by (simp_all add: validateRelationSpec_def FieldByName_def structFields_def orderTypes_def validateOwnBackField_def
        validateScalarMatchField_def isScalarKey_def)
  have "\<exists>schema. buildRelationSchema orderTypes (\<lambda>b. map fst (specsByType b)) (StructType ''Order'') = Inr schema"
    by (simp add: buildRelationSchema_def visit.simps orderTypes_specs[unfolded One_nat_def] valid[unfolded One_nat_def] newRelationSchemaBuilder_def startVisit_def
        appendChild_def relationPointOf_def countRelationKind_def validateRequiredCycles_def visitRequiredType.simps
        specsOf_def isRequiredTypeEdge_def)
  moreover have "\<forall>b. fst ` set (specsByType b) \<subseteq> set (map fst (specsByType b))" by simp
  ultimately show ?thesis using schema_accepted_iff_valid[of "\<lambda>b. map fst (specsByType b)" orderTypes "''Order''"] by blast
qed

end
