(* ===== verification/Entity_Graph.thy ===== *)
theory Entity_Graph
  imports Relation_Schema
begin

text \<open>
  The relation graph of \<open>relation_runtime.go\<close>: the live entities of all tables as nodes, the
  relation fields resolved into edges, and the ownership forest over them
  (\<open>buildRelationModel\<close>). Entities live in a heap, because relation fields are pointers: an
  address may be a live row, a transaction's copy or a hollow key holder. Maps the code
  ranges over are association lists here; the order of their entries stands for the
  iteration order, which Go leaves open, so every statement holds for every order.
\<close>

section \<open>Entities in memory\<close>

text \<open>A row's identity: its type and id, ordered as the code sorts them.\<close>

datatype nodeKey = NodeKey (nk_type: string) (nk_id: int)

instantiation nodeKey :: linorder
begin

definition less_eq_nodeKey :: "nodeKey \<Rightarrow> nodeKey \<Rightarrow> bool" where
  "less_eq_nodeKey a b \<longleftrightarrow> nk_type a < nk_type b \<or> (nk_type a = nk_type b \<and> nk_id a \<le> nk_id b)"

definition less_nodeKey :: "nodeKey \<Rightarrow> nodeKey \<Rightarrow> bool" where
  "less_nodeKey a b \<longleftrightarrow> nk_type a < nk_type b \<or> (nk_type a = nk_type b \<and> nk_id a < nk_id b)"

instance
  by standard (auto simp: less_eq_nodeKey_def less_nodeKey_def nodeKey.expand)

end

text \<open>A key value with its Go type: \<open>Interface()\<close> values of different types differ.\<close>

datatype scalar = IntValue string int | StringValue string string

datatype 'p fieldValue = Pointer "'p option" | Slice "'p option list"

record 'p entity =
  getId :: int
  scalars :: "string \<Rightarrow> scalar option"
  pointers :: "nat \<Rightarrow> 'p fieldValue"

type_synonym 'p heap = "'p \<Rightarrow> 'p entity"

fun isZero :: "scalar \<Rightarrow> bool" where
  "isZero (IntValue t i) = (i = 0)"
| "isZero (StringValue t s) = (s = [])"

definition entityIDField :: string where "entityIDField = ''Id''"

text \<open>\<open>relationKey\<close> and \<open>valueID\<close> on a pointer, nil being \<open>None\<close>.\<close>

definition relationKey :: "'p heap \<Rightarrow> 'p option \<Rightarrow> string \<Rightarrow> scalar option" where
  "relationKey h p field =
     (case p of
        None \<Rightarrow> None
      | Some a \<Rightarrow>
          (case scalars (h a) field of
             None \<Rightarrow> None
           | Some v \<Rightarrow> if isZero v then None else Some v))"

definition valueID :: "'p heap \<Rightarrow> 'p option \<Rightarrow> int option" where
  "valueID h p = (case p of None \<Rightarrow> None | Some a \<Rightarrow> Some (getId (h a)))"

text \<open>The pointers a relation field holds, one for a to-one field.\<close>

definition fieldPointers :: "'p heap \<Rightarrow> 'p \<Rightarrow> relationSpec \<Rightarrow> 'p option list" where
  "fieldPointers h a spec =
     (case pointers (h a) (fieldIndex spec) of Pointer p \<Rightarrow> [p] | Slice ps \<Rightarrow> ps)"

section \<open>Collecting nodes\<close>

type_synonym 'p nodes = "(nodeKey \<times> 'p) list"

definition addGraphNode :: "'p heap \<Rightarrow> string \<Rightarrow> bool \<Rightarrow> 'p nodes \<Rightarrow> 'p \<Rightarrow> 'p nodes result" where
  "addGraphNode h typ replace nodes a =
     (let i = getId (h a) in
      if i \<le> 0 then Inl (ErrRelationInvariant ''has invalid Id'')
      else if map_of nodes (NodeKey typ i) \<noteq> None \<and> \<not> replace then Inl (ErrRelationInvariant ''duplicate entity'')
      else Inr (AList.update (NodeKey typ i) a nodes))"

definition collectStoreNodes :: "'p heap \<Rightarrow> 'p nodes \<Rightarrow> string \<times> 'p list \<Rightarrow> 'p nodes result" where
  "collectStoreNodes h nodes store = fold_result (addGraphNode h (fst store) False) (snd store) nodes"

definition collectPendingNodes :: "'p heap \<Rightarrow> (string \<times> 'p list) list \<Rightarrow> 'p nodes \<Rightarrow> 'p nodes result" where
  "collectPendingNodes h pending nodes =
     fold_result (\<lambda>nodes q. fold_result (addGraphNode h (fst q) True) (snd q) nodes) pending nodes"

definition collectRelationNodesWithOverrides ::
  "'p heap \<Rightarrow> (string \<times> 'p list) list \<Rightarrow> bool \<Rightarrow> (string \<times> 'p list) list \<Rightarrow> 'p nodes \<Rightarrow> 'p nodes result" where
  "collectRelationNodesWithOverrides h stores includePending pending overrides =
     bind_result (fold_result (collectStoreNodes h) stores [])
       (\<lambda>nodes. bind_result (if includePending then collectPendingNodes h pending nodes else Inr nodes)
          (\<lambda>nodes. Inr (foldl (\<lambda>ns q. AList.update (fst q) (snd q) ns) nodes overrides)))"

section \<open>The target index\<close>

text \<open>A lookup key: type, field and value. An indexed target remembers a collision.\<close>

type_synonym relationTargetKey = "string \<times> string \<times> scalar"
type_synonym targetIndex = "relationTargetKey \<Rightarrow> (nodeKey \<times> bool) option"

definition lookupField :: "relationSpec \<Rightarrow> string" where
  "lookupField r = (if kind r = OwnRelation \<and> many r then entityIDField else matchField r)"

definition graphRelationTargetKey :: "'p heap \<Rightarrow> relationSpec \<Rightarrow> 'p option \<Rightarrow> relationTargetKey option" where
  "graphRelationTargetKey h r p = map_option (\<lambda>v. (target r, lookupField r, v)) (relationKey h p (lookupField r))"

text \<open>\<open>relationTargetFields\<close>: the (type, field) pairs some relation of a present type looks up.\<close>

definition targetFieldsOf :: "relationSpec list \<Rightarrow> (string \<times> string) list \<Rightarrow> (string \<times> string) list" where
  "targetFieldsOf specs tfs =
     foldl (\<lambda>fs s. if kind s = InverseRelation \<or> (target s, lookupField s) \<in> set fs then fs
                   else fs @ [(target s, lookupField s)]) tfs specs"

definition relationTargetFields :: "typeEnv \<Rightarrow> 'p nodes \<Rightarrow> (string \<times> string) list result" where
  "relationTargetFields env nodes =
     bind_result
       (fold_result
          (\<lambda>st n. if nk_type (fst n) \<in> set (fst st) then Inr st
                  else bind_result (relationSpecs env (nk_type (fst n)))
                    (\<lambda>specs. Inr (nk_type (fst n) # fst st, targetFieldsOf specs (snd st))))
          nodes ([], []))
       (\<lambda>st. Inr (snd st))"

definition indexRelationNodeTarget :: "'p heap \<Rightarrow> nodeKey \<times> 'p \<Rightarrow> targetIndex \<Rightarrow> string \<Rightarrow> targetIndex" where
  "indexRelationNodeTarget h node targets field =
     (case relationKey h (Some (snd node)) field of
        None \<Rightarrow> targets
      | Some v \<Rightarrow>
          let key = (nk_type (fst node), field, v) in
          targets(key \<mapsto> (case targets key of None \<Rightarrow> (fst node, False) | Some t \<Rightarrow> (fst t, True))))"

definition indexRelationNodeTargets :: "'p heap \<Rightarrow> (string \<times> string) list \<Rightarrow> targetIndex \<Rightarrow> nodeKey \<times> 'p \<Rightarrow> targetIndex" where
  "indexRelationNodeTargets h tfs targets node =
     foldl (indexRelationNodeTarget h node) targets (map snd (filter (\<lambda>f. fst f = nk_type (fst node)) tfs))"

definition buildRelationTargetIndexFromFields :: "'p heap \<Rightarrow> 'p nodes \<Rightarrow> (string \<times> string) list \<Rightarrow> targetIndex" where
  "buildRelationTargetIndexFromFields h nodes tfs = foldl (indexRelationNodeTargets h tfs) (\<lambda>_. None) nodes"

section \<open>The model\<close>

record resolvedRelation =
  rr_holder :: nodeKey
  rr_target :: nodeKey
  rr_spec :: relationSpec

record incomingOwns =
  io_first :: nodeKey
  io_count :: nat

record 'p relationModel =
  rm_nodes :: "'p nodes"
  rm_targets :: targetIndex
  rm_targetFields :: "(string \<times> string) list"
  refs :: "resolvedRelation list"
  unresolved :: "(nodeKey \<times> relationSpec \<times> relationTargetKey) list"
  missing :: "(nodeKey \<times> relationSpec) list"
  owners :: "(nodeKey \<times> nodeKey) list"
  outgoing :: "(nodeKey \<times> nodeKey list) list"

text \<open>The state of a scan: the model, the incoming own edges and the \<open>ownedby\<close> edges.\<close>

record 'p scanState =
  scanned :: "'p relationModel"
  incoming :: "nodeKey \<Rightarrow> incomingOwns"
  ownedBy :: "nodeKey \<Rightarrow> nodeKey option"

definition resolveGraphTarget :: "'p heap \<Rightarrow> targetIndex \<Rightarrow> relationSpec \<Rightarrow> 'p option \<Rightarrow> nodeKey option result" where
  "resolveGraphTarget h targets r p =
     (case graphRelationTargetKey h r p of
        None \<Rightarrow> Inr None
      | Some key \<Rightarrow>
          (case targets key of
             None \<Rightarrow> Inr None
           | Some (n, duplicate) \<Rightarrow>
               if duplicate then Inl (ErrRelationInvariant ''does not uniquely identify a target'') else Inr (Some n)))"

definition relationMayBeMissing :: "relationSpec \<Rightarrow> bool" where
  "relationMayBeMissing spec =
     (if kind spec = OptionRelation then True else many spec \<and> (kind spec = BorrowRelation \<or> kind spec = OwnRelation))"

definition addOwn :: "incomingOwns \<Rightarrow> nodeKey \<Rightarrow> incomingOwns" where
  "addOwn owns e = (if io_count owns = 0 then owns\<lparr>io_first := e, io_count := 1\<rparr> else owns\<lparr>io_count := io_count owns + 1\<rparr>)"

definition recordResolvedRelation :: "nodeKey \<Rightarrow> nodeKey \<Rightarrow> relationSpec \<Rightarrow> 'p scanState \<Rightarrow> 'p scanState" where
  "recordResolvedRelation holder t spec st =
     (let m = scanned st in
      \<lparr>scanned = m\<lparr>refs := refs m @ [\<lparr>rr_holder = holder, rr_target = t, rr_spec = spec\<rparr>]\<rparr>,
       incoming = (if kind spec = OwnRelation then (incoming st)(t := addOwn (incoming st t) holder) else incoming st),
       ownedBy = (if kind spec = OwnedByRelation then (ownedBy st)(holder \<mapsto> t) else ownedBy st)\<rparr>)"

definition recordUnresolved :: "'p heap \<Rightarrow> nodeKey \<Rightarrow> relationSpec \<Rightarrow> 'p option \<Rightarrow> 'p relationModel \<Rightarrow> 'p relationModel" where
  "recordUnresolved h holder spec p m =
     (let m1 = (case graphRelationTargetKey h spec p of
                  None \<Rightarrow> m | Some l \<Rightarrow> m\<lparr>unresolved := unresolved m @ [(holder, spec, l)]\<rparr>)
      in if relationMayBeMissing spec then m1 else m1\<lparr>missing := missing m1 @ [(holder, spec)]\<rparr>)"

text \<open>\<open>seen\<close> is \<open>None\<close> where the code passes a nil map.\<close>

definition scanRelationPointer ::
  "'p heap \<Rightarrow> nodeKey \<Rightarrow> relationSpec \<Rightarrow> nodeKey set option \<times> 'p scanState \<Rightarrow> 'p option \<Rightarrow>
   (nodeKey set option \<times> 'p scanState) result" where
  "scanRelationPointer h holder spec st p =
     (let seen = fst st; s = snd st; m = scanned s in
      case resolveGraphTarget h (rm_targets m) spec p of
        Inl e \<Rightarrow> Inl e
      | Inr None \<Rightarrow>
          Inr (seen, s\<lparr>scanned := recordUnresolved h holder spec p m\<rparr>)
      | Inr (Some t) \<Rightarrow>
          if (case seen of None \<Rightarrow> False | Some ts \<Rightarrow> t \<in> ts) \<and> kind spec = OwnRelation
          then Inl (ErrRelationInvariant ''contains owned child more than once'')
          else Inr (map_option (insert t) seen, recordResolvedRelation holder t spec s))"

definition scanRelationField :: "'p heap \<Rightarrow> nodeKey \<times> 'p \<Rightarrow> 'p scanState \<Rightarrow> relationSpec \<Rightarrow> 'p scanState result" where
  "scanRelationField h node st spec =
     (let seen = (if many spec \<and> kind spec = OwnRelation then Some {} else None) in
      bind_result (fold_result (scanRelationPointer h (fst node) spec) (fieldPointers h (snd node) spec) (seen, st))
        (\<lambda>r. Inr (snd r)))"

definition scanNodeRelations :: "typeEnv \<Rightarrow> 'p heap \<Rightarrow> 'p scanState \<Rightarrow> nodeKey \<times> 'p \<Rightarrow> 'p scanState result" where
  "scanNodeRelations env h st node =
     bind_result (relationSpecs env (nk_type (fst node)))
       (\<lambda>specs. fold_result (\<lambda>st spec. if kind spec = InverseRelation then Inr st else scanRelationField h node st spec) specs st)"

definition resolvedOwner :: "incomingOwns \<Rightarrow> nodeKey option \<Rightarrow> nodeKey option" where
  "resolvedOwner raw back = (if io_count raw = 1 then Some (io_first raw) else back)"

definition addChild :: "nodeKey \<Rightarrow> nodeKey \<Rightarrow> (nodeKey \<times> nodeKey list) list \<Rightarrow> (nodeKey \<times> nodeKey list) list" where
  "addChild w c out = AList.update w ((case map_of out w of None \<Rightarrow> [] | Some cs \<Rightarrow> cs) @ [c]) out"

definition attachNodeOwner ::
  "(nodeKey \<Rightarrow> incomingOwns) \<Rightarrow> (nodeKey \<Rightarrow> nodeKey option) \<Rightarrow> 'p relationModel \<Rightarrow> nodeKey \<Rightarrow> 'p relationModel result" where
  "attachNodeOwner inc back m child =
     (let raw = inc child in
      if 1 < io_count raw then Inl (ErrRelationInvariant ''has more than one owner'')
      else if io_count raw = 1 \<and> back child \<noteq> None \<and> back child \<noteq> Some (io_first raw)
      then Inl (ErrRelationInvariant ''own and ownedby disagree'')
      else case resolvedOwner raw (back child) of
        None \<Rightarrow> Inr m
      | Some w \<Rightarrow> Inr (m\<lparr>owners := AList.update child w (owners m), outgoing := addChild w child (outgoing m)\<rparr>))"

section \<open>Cycles of ownership\<close>

text \<open>
  The walk of \<open>validateOwnershipCycles\<close>: up the owners from one node, marking the nodes of
  the walk 1, until a node without owner, a done node (2), or a node of this walk. The second
  component of the result is the walk, to be marked done.
\<close>

function ownerWalk ::
  "(nodeKey \<times> nodeKey) list \<Rightarrow> (nodeKey \<Rightarrow> nat) \<Rightarrow> nodeKey list \<Rightarrow> nodeKey \<Rightarrow> ((nodeKey \<Rightarrow> nat) \<times> nodeKey list) result" where
  "ownerWalk os state path at =
     (if state at = 1 then Inl (ErrRelationInvariant ''ownership cycle'')
      else if state at = 2 then Inr (state, path)
      else case map_of os at of
        Some w \<Rightarrow> ownerWalk os (state(at := 1)) (path @ [at]) w
      | None \<Rightarrow> Inr (state(at := 1), path @ [at]))"
  by pat_completeness auto

termination
proof (relation "measure (\<lambda>(os, state, path, at). card {k \<in> fst ` set os. state k \<notin> {1, 2}})", goal_cases)
  case (2 os state path at w)
  then have "at \<in> fst ` set os" by (auto dest: map_of_SomeD intro: image_eqI[rotated])
  then show ?case using 2 by (auto intro!: psubset_card_mono)
qed simp

definition validateOwnershipCycles :: "nodeKey list \<Rightarrow> (nodeKey \<times> nodeKey) list \<Rightarrow> unit result" where
  "validateOwnershipCycles keys os =
     bind_result
       (fold_result
          (\<lambda>state start. if state start \<noteq> 0 then Inr state
             else bind_result (ownerWalk os state [] start)
               (\<lambda>r. Inr (foldl (\<lambda>s k. s(k := 2)) (fst r) (snd r))))
          keys (\<lambda>_. 0))
       (\<lambda>_. Inr ())"

definition emptyModel :: "'p nodes \<Rightarrow> targetIndex \<Rightarrow> (string \<times> string) list \<Rightarrow> 'p relationModel" where
  "emptyModel nodes targets tfs =
     \<lparr>rm_nodes = nodes, rm_targets = targets, rm_targetFields = tfs, refs = [], unresolved = [], missing = [],
      owners = [], outgoing = []\<rparr>"

definition noIncoming :: "nodeKey \<Rightarrow> incomingOwns" where
  "noIncoming = (\<lambda>_. \<lparr>io_first = NodeKey [] 0, io_count = 0\<rparr>)"

definition scanRelations ::
  "typeEnv \<Rightarrow> 'p heap \<Rightarrow> 'p nodes \<Rightarrow> targetIndex \<Rightarrow> (string \<times> string) list \<Rightarrow> 'p scanState result" where
  "scanRelations env h nodes targets tfs =
     fold_result (scanNodeRelations env h) nodes
       \<lparr>scanned = emptyModel nodes targets tfs, incoming = noIncoming, ownedBy = (\<lambda>_. None)\<rparr>"

definition buildRelationModelFromTargets ::
  "typeEnv \<Rightarrow> 'p heap \<Rightarrow> 'p nodes \<Rightarrow> targetIndex \<Rightarrow> (string \<times> string) list \<Rightarrow> 'p relationModel result" where
  "buildRelationModelFromTargets env h nodes targets tfs =
     bind_result (scanRelations env h nodes targets tfs)
       (\<lambda>st. bind_result
          (fold_result (attachNodeOwner (incoming st) (ownedBy st)) (map fst nodes) (scanned st))
          (\<lambda>m. bind_result (validateOwnershipCycles (map fst nodes) (owners m)) (\<lambda>_. Inr m)))"

definition buildRelationModel :: "typeEnv \<Rightarrow> 'p heap \<Rightarrow> 'p nodes \<Rightarrow> 'p relationModel result" where
  "buildRelationModel env h nodes =
     bind_result (relationTargetFields env nodes)
       (\<lambda>tfs. buildRelationModelFromTargets env h nodes (buildRelationTargetIndexFromFields h nodes tfs) tfs)"

section \<open>What a scan collects\<close>

definition fieldTargets :: "'p heap \<Rightarrow> targetIndex \<Rightarrow> 'p \<Rightarrow> relationSpec \<Rightarrow> nodeKey list" where
  "fieldTargets h targets a spec =
     List.map_filter (\<lambda>p. case resolveGraphTarget h targets spec p of Inl _ \<Rightarrow> None | Inr t \<Rightarrow> t) (fieldPointers h a spec)"

definition fieldRefs :: "'p heap \<Rightarrow> targetIndex \<Rightarrow> nodeKey \<times> 'p \<Rightarrow> relationSpec \<Rightarrow> resolvedRelation list" where
  "fieldRefs h targets node spec =
     map (\<lambda>t. \<lparr>rr_holder = fst node, rr_target = t, rr_spec = spec\<rparr>) (fieldTargets h targets (snd node) spec)"

definition nodeRefs :: "typeEnv \<Rightarrow> 'p heap \<Rightarrow> targetIndex \<Rightarrow> nodeKey \<times> 'p \<Rightarrow> resolvedRelation list" where
  "nodeRefs env h targets node =
     (case relationSpecs env (nk_type (fst node)) of
        Inl _ \<Rightarrow> []
      | Inr specs \<Rightarrow> concat (map (fieldRefs h targets node) (filter (\<lambda>s. kind s \<noteq> InverseRelation) specs)))"

definition graphRefs :: "typeEnv \<Rightarrow> 'p heap \<Rightarrow> targetIndex \<Rightarrow> 'p nodes \<Rightarrow> resolvedRelation list" where
  "graphRefs env h targets nodes = concat (map (nodeRefs env h targets) nodes)"

text \<open>The owners the \<open>own\<close> edges give a node, and the ones its \<open>ownedby\<close> edges name.\<close>

definition ownHolders :: "resolvedRelation list \<Rightarrow> nodeKey \<Rightarrow> nodeKey list" where
  "ownHolders rs c = map rr_holder (filter (\<lambda>r. kind (rr_spec r) = OwnRelation \<and> rr_target r = c) rs)"

definition backTargets :: "resolvedRelation list \<Rightarrow> nodeKey \<Rightarrow> nodeKey list" where
  "backTargets rs c = map rr_target (filter (\<lambda>r. kind (rr_spec r) = OwnedByRelation \<and> rr_holder r = c) rs)"

definition scan_ok :: "'p scanState \<Rightarrow> bool" where
  "scan_ok st \<longleftrightarrow>
     (\<forall>c. let hs = ownHolders (refs (scanned st)) c; bs = backTargets (refs (scanned st)) c in
        incoming st c = \<lparr>io_first = (if hs = [] then NodeKey [] 0 else hd hs), io_count = length hs\<rparr> \<and>
        ownedBy st c = (if bs = [] then None else Some (last bs)))"

definition same_frame :: "'p relationModel \<Rightarrow> 'p relationModel \<Rightarrow> bool" where
  "same_frame m m' \<longleftrightarrow>
     rm_nodes m' = rm_nodes m \<and> rm_targets m' = rm_targets m \<and> rm_targetFields m' = rm_targetFields m \<and>
     owners m' = owners m \<and> outgoing m' = outgoing m"

lemma same_frame_trans: "same_frame a b \<Longrightarrow> same_frame b c \<Longrightarrow> same_frame a c"
  by (simp add: same_frame_def)

lemma holders_append [simp]:
  "ownHolders (rs @ qs) c = ownHolders rs c @ ownHolders qs c" "backTargets (rs @ qs) c = backTargets rs c @ backTargets qs c"
  "ownHolders [] c = []" "backTargets [] c = []"
  by (simp_all add: ownHolders_def backTargets_def)

lemma record_ok:
  assumes "scan_ok st"
  shows "scan_ok (recordResolvedRelation holder t spec st)"
    and "refs (scanned (recordResolvedRelation holder t spec st)) =
      refs (scanned st) @ [\<lparr>rr_holder = holder, rr_target = t, rr_spec = spec\<rparr>]"
    and "same_frame (scanned st) (scanned (recordResolvedRelation holder t spec st))"
  using assms
  by (auto simp: scan_ok_def recordResolvedRelation_def same_frame_def Let_def addOwn_def ownHolders_def backTargets_def
      intro!: arg_cong[where f = hd])

lemma recordUnresolved_frame:
  "refs (recordUnresolved h holder spec p m) = refs m \<and> same_frame m (recordUnresolved h holder spec p m)"
  by (simp add: recordUnresolved_def same_frame_def Let_def split: option.split)

lemma scan_ok_refs: "refs m = refs (scanned st) \<Longrightarrow> scan_ok (st\<lparr>scanned := m\<rparr>) \<longleftrightarrow> scan_ok st"
  by (simp add: scan_ok_def)

lemma scanRelationPointer_step:
  assumes "scanRelationPointer h holder spec (seen, st) p = Inr (seen', st')" and "scan_ok st"
  shows "scan_ok st' \<and> same_frame (scanned st) (scanned st') \<and>
    refs (scanned st') = refs (scanned st) @ map (\<lambda>t. \<lparr>rr_holder = holder, rr_target = t, rr_spec = spec\<rparr>)
      (List.map_filter (\<lambda>p. case resolveGraphTarget h (rm_targets (scanned st)) spec p of Inl _ \<Rightarrow> None | Inr t \<Rightarrow> t) [p])"
proof (cases "resolveGraphTarget h (rm_targets (scanned st)) spec p")
  case (Inl e)
  then show ?thesis using assms(1) by (simp add: scanRelationPointer_def)
next
  case (Inr r)
  show ?thesis
  proof (cases r)
    case None
    then have "st' = st\<lparr>scanned := recordUnresolved h holder spec p (scanned st)\<rparr>"
      using assms(1) Inr by (simp add: scanRelationPointer_def Let_def)
    then show ?thesis using assms(2) Inr None recordUnresolved_frame[of h holder spec p "scanned st"]
      by (simp add: scan_ok_refs map_filter_simps)
  next
    case (Some t)
    then have "st' = recordResolvedRelation holder t spec st"
      using assms(1) Inr by (auto simp: scanRelationPointer_def Let_def split: if_splits)
    then show ?thesis using record_ok[OF assms(2), of holder t spec] Inr Some by (simp add: map_filter_simps)
  qed
qed

lemma scanRelationPointers:
  "fold_result (scanRelationPointer h holder spec) ps (seen, st) = Inr (seen', st') \<Longrightarrow> scan_ok st \<Longrightarrow>
   scan_ok st' \<and> same_frame (scanned st) (scanned st') \<and>
   refs (scanned st') = refs (scanned st) @ map (\<lambda>t. \<lparr>rr_holder = holder, rr_target = t, rr_spec = spec\<rparr>)
     (List.map_filter (\<lambda>p. case resolveGraphTarget h (rm_targets (scanned st)) spec p of Inl _ \<Rightarrow> None | Inr t \<Rightarrow> t) ps)"
proof (induction ps arbitrary: seen st)
  case Nil
  then show ?case by (simp add: same_frame_def map_filter_simps)
next
  case (Cons p ps)
  then obtain seen1 st1 where one: "scanRelationPointer h holder spec (seen, st) p = Inr (seen1, st1)"
    and rest: "fold_result (scanRelationPointer h holder spec) ps (seen1, st1) = Inr (seen', st')"
    by (auto split: sum.splits)
  note A = scanRelationPointer_step[OF one Cons.prems(2)]
  note B = Cons.IH[OF rest conjunct1[OF A]]
  have "rm_targets (scanned st1) = rm_targets (scanned st)" using A by (simp add: same_frame_def)
  then show ?case using A B by (auto simp: map_filter_simps intro: same_frame_trans split: sum.splits option.splits)
qed

lemma scanRelationField_step:
  assumes "scanRelationField h node st spec = Inr st'" and "scan_ok st"
  shows "scan_ok st' \<and> same_frame (scanned st) (scanned st') \<and>
    refs (scanned st') = refs (scanned st) @ fieldRefs h (rm_targets (scanned st)) node spec"
proof -
  obtain seen' where "fold_result (scanRelationPointer h (fst node) spec) (fieldPointers h (snd node) spec)
      (if many spec \<and> kind spec = OwnRelation then Some {} else None, st) = Inr (seen', st')"
    using assms(1) by (auto simp: scanRelationField_def Let_def bind_result_def split: sum.splits)
  from scanRelationPointers[OF this assms(2)] show ?thesis by (simp add: fieldRefs_def fieldTargets_def)
qed

lemma scanNodeRelations_step:
  assumes "scanNodeRelations env h st node = Inr st'" and "scan_ok st"
  shows "scan_ok st' \<and> same_frame (scanned st) (scanned st') \<and>
    refs (scanned st') = refs (scanned st) @ nodeRefs env h (rm_targets (scanned st)) node"
proof -
  obtain specs where specs: "relationSpecs env (nk_type (fst node)) = Inr specs"
    and run: "fold_result (\<lambda>st spec. if kind spec = InverseRelation then Inr st else scanRelationField h node st spec) specs st = Inr st'"
    using assms(1) by (cases "relationSpecs env (nk_type (fst node))") (auto simp: scanNodeRelations_def)
  have "scan_ok st' \<and> same_frame (scanned st) (scanned st') \<and>
      refs (scanned st') = refs (scanned st) @
        concat (map (fieldRefs h (rm_targets (scanned st)) node) (filter (\<lambda>s. kind s \<noteq> InverseRelation) specs))"
    using run assms(2)
  proof (induction specs arbitrary: st)
    case Nil
    then show ?case by (simp add: same_frame_def)
  next
    case (Cons s specs)
    show ?case
    proof (cases "kind s = InverseRelation")
      case True
      then show ?thesis using Cons by simp
    next
      case False
      then obtain st1 where one: "scanRelationField h node st s = Inr st1"
        and rest: "fold_result (\<lambda>st spec. if kind spec = InverseRelation then Inr st else scanRelationField h node st spec) specs st1 = Inr st'"
        using Cons.prems(1) by (auto split: sum.splits)
      note A = scanRelationField_step[OF one Cons.prems(2)]
      note B = Cons.IH[OF rest conjunct1[OF A]]
      have "rm_targets (scanned st1) = rm_targets (scanned st)" using A by (simp add: same_frame_def)
      then show ?thesis using A B False by (auto intro: same_frame_trans)
    qed
  qed
  then show ?thesis by (simp add: nodeRefs_def specs)
qed

lemma scan_nodes:
  "fold_result (scanNodeRelations env h) nodes st = Inr st' \<Longrightarrow> scan_ok st \<Longrightarrow>
   scan_ok st' \<and> same_frame (scanned st) (scanned st') \<and>
   refs (scanned st') = refs (scanned st) @ graphRefs env h (rm_targets (scanned st)) nodes"
proof (induction nodes arbitrary: st)
  case Nil
  then show ?case by (simp add: same_frame_def graphRefs_def)
next
  case (Cons n nodes)
  then obtain st1 where one: "scanNodeRelations env h st n = Inr st1"
    and rest: "fold_result (scanNodeRelations env h) nodes st1 = Inr st'"
    by (auto split: sum.splits)
  note A = scanNodeRelations_step[OF one Cons.prems(2)]
  note B = Cons.IH[OF rest conjunct1[OF A]]
  have "rm_targets (scanned st1) = rm_targets (scanned st)" using A by (simp add: same_frame_def)
  then show ?case using A B by (auto simp: graphRefs_def intro: same_frame_trans)
qed

section \<open>What attaching owners accepts\<close>

definition ownerOf :: "resolvedRelation list \<Rightarrow> nodeKey \<Rightarrow> nodeKey option" where
  "ownerOf rs c =
     (if ownHolders rs c \<noteq> [] then Some (hd (ownHolders rs c))
      else if backTargets rs c \<noteq> [] then Some (last (backTargets rs c)) else None)"

definition owner_agrees :: "resolvedRelation list \<Rightarrow> nodeKey \<Rightarrow> bool" where
  "owner_agrees rs c \<longleftrightarrow>
     length (ownHolders rs c) \<le> 1 \<and>
     (ownHolders rs c \<noteq> [] \<and> backTargets rs c \<noteq> [] \<longrightarrow> last (backTargets rs c) = hd (ownHolders rs c))"

lemma attachNodeOwner_conv:
  assumes "scan_ok st"
  shows "attachNodeOwner (incoming st) (ownedBy st) m c =
    (if \<not> owner_agrees (refs (scanned st)) c
     then Inl (ErrRelationInvariant (if 1 < length (ownHolders (refs (scanned st)) c) then ''has more than one owner''
                                     else ''own and ownedby disagree''))
     else case ownerOf (refs (scanned st)) c of
       None \<Rightarrow> Inr m
     | Some w \<Rightarrow> Inr (m\<lparr>owners := AList.update c w (owners m), outgoing := addChild w c (outgoing m)\<rparr>))"
proof -
  let ?hs = "ownHolders (refs (scanned st)) c" and ?bs = "backTargets (refs (scanned st)) c"
  have inc: "incoming st c = \<lparr>io_first = (if ?hs = [] then NodeKey [] 0 else hd ?hs), io_count = length ?hs\<rparr>"
    and bk: "ownedBy st c = (if ?bs = [] then None else Some (last ?bs))"
    using assms unfolding scan_ok_def Let_def by blast+
  consider "?hs = []" | h where "?hs = [h]" | "1 < length ?hs"
    by (cases ?hs; cases "tl ?hs") auto
  then show ?thesis
    by cases (auto simp: attachNodeOwner_def inc bk owner_agrees_def ownerOf_def resolvedOwner_def Let_def)
qed

definition attached :: "resolvedRelation list \<Rightarrow> nodeKey list \<Rightarrow> 'p relationModel \<Rightarrow> 'p relationModel \<Rightarrow> bool" where
  "attached rs keys m m' \<longleftrightarrow>
     rm_nodes m' = rm_nodes m \<and> rm_targets m' = rm_targets m \<and> rm_targetFields m' = rm_targetFields m \<and>
     refs m' = refs m \<and> unresolved m' = unresolved m \<and> missing m' = missing m \<and>
     (\<forall>c. map_of (owners m') c = (if c \<in> set keys \<and> ownerOf rs c \<noteq> None then ownerOf rs c else map_of (owners m) c)) \<and>
     (\<forall>w. case_option [] id (map_of (outgoing m') w) =
        case_option [] id (map_of (outgoing m) w) @ filter (\<lambda>c. ownerOf rs c = Some w) keys)"

lemma attach_nodes:
  assumes "scan_ok st"
  shows "if \<forall>c \<in> set keys. owner_agrees (refs (scanned st)) c
    then \<exists>m'. fold_result (attachNodeOwner (incoming st) (ownedBy st)) keys m = Inr m' \<and>
      attached (refs (scanned st)) keys m m'
    else \<exists>e. fold_result (attachNodeOwner (incoming st) (ownedBy st)) keys m = Inl e"
proof (induction keys arbitrary: m)
  case Nil
  then show ?case by (simp add: attached_def)
next
  case (Cons c keys)
  let ?rs = "refs (scanned st)"
  show ?case
  proof (cases "owner_agrees ?rs c")
    case False
    then show ?thesis by (auto simp: attachNodeOwner_conv[OF assms])
  next
    case True
    define m1 where "m1 = (case ownerOf ?rs c of None \<Rightarrow> m
      | Some w \<Rightarrow> m\<lparr>owners := AList.update c w (owners m), outgoing := addChild w c (outgoing m)\<rparr>)"
    have step: "fold_result (attachNodeOwner (incoming st) (ownedBy st)) (c # keys) m =
        fold_result (attachNodeOwner (incoming st) (ownedBy st)) keys m1"
      using True by (cases "ownerOf ?rs c") (simp_all add: attachNodeOwner_conv[OF assms] m1_def)
    have "attached ?rs (c # keys) m m'" if "attached ?rs keys m1 m'" for m'
      using that
      by (cases "ownerOf ?rs c")
        (auto simp: attached_def m1_def update_conv' addChild_def split: option.splits)
    then show ?thesis
      using Cons.IH[of m1] True unfolding step by (auto split: if_splits)
  qed
qed

section \<open>The cycle check decides acyclicity of ownership\<close>

definition ownerEdges :: "(nodeKey \<times> nodeKey) list \<Rightarrow> (nodeKey \<times> nodeKey) set" where
  "ownerEdges os = {(c, w). map_of os c = Some w}"

definition doneNodes :: "(nodeKey \<Rightarrow> nat) \<Rightarrow> nodeKey set" where "doneNodes state = {k. state k = 2}"
definition walkNodes :: "(nodeKey \<Rightarrow> nat) \<Rightarrow> nodeKey set" where "walkNodes state = {k. state k = 1}"

definition closed_acyclic :: "(nodeKey \<times> nodeKey) set \<Rightarrow> nodeKey set \<Rightarrow> bool" where
  "closed_acyclic E D \<longleftrightarrow> E `` D \<subseteq> D \<and> acyclic (E \<inter> D \<times> D)"

lemma closed_acyclic_insert:
  assumes "closed_acyclic E D" "t \<notin> D" "E `` {t} \<subseteq> D"
  shows "closed_acyclic E (insert t D)"
proof -
  have "E \<inter> insert t D \<times> insert t D = (E \<inter> D \<times> D) \<union> {t} \<times> (E `` {t})"
    using assms by (auto simp: closed_acyclic_def)
  moreover have "acyclic ((E \<inter> D \<times> D) \<union> {t} \<times> (E `` {t}))"
    by (rule acyclic_add_top[OF _ _ assms(2,3)]) (use assms(1) in \<open>auto simp: closed_acyclic_def\<close>)
  ultimately show ?thesis using assms by (auto simp: closed_acyclic_def)
qed

declare ownerWalk.simps [simp del]

lemma marks:
  "state k \<noteq> 2 \<Longrightarrow> doneNodes (state(k := 1)) = doneNodes state" "walkNodes (state(k := 1)) = insert k (walkNodes state)"
  by (auto simp: doneNodes_def walkNodes_def)

lemma ownerWalk_sound:
  "ownerWalk os state path at = Inr (state', path') \<Longrightarrow> closed_acyclic (ownerEdges os) (doneNodes state) \<Longrightarrow>
   set path = walkNodes state \<Longrightarrow>
   \<exists>ext. path' = path @ ext \<and> set ext \<inter> (set path \<union> doneNodes state) = {} \<and> at \<in> set ext \<union> doneNodes state \<and>
     closed_acyclic (ownerEdges os) (set ext \<union> doneNodes state) \<and>
     doneNodes state' = doneNodes state \<and> walkNodes state' = set path'"
proof (induction os state path at arbitrary: state' path' rule: ownerWalk.induct)
  case (1 os state path at)
  let ?E = "ownerEdges os" and ?D = "doneNodes state"
  from 1(2) have n1: "state at \<noteq> 1" by (auto simp: ownerWalk.simps[of os state path at] split: if_splits)
  show ?case
  proof (cases "state at = 2")
    case True
    then have r: "state' = state" "path' = path" using 1(2) by (simp_all add: ownerWalk.simps[of os state path at])
    have "at \<in> ?D" using True by (simp add: doneNodes_def)
    then show ?thesis using 1(3,4) unfolding r by (intro exI[of _ "[]"]) simp
  next
    case n2: False
    have fresh: "at \<notin> ?D" "at \<notin> set path" using n1 n2 1(4) by (auto simp: doneNodes_def walkNodes_def)
    have mark: "doneNodes (state(at := 1)) = ?D" "walkNodes (state(at := 1)) = set (path @ [at])"
      using marks(1)[of state at, OF n2] marks(2)[of state at] 1(4) by auto
    show ?thesis
    proof (cases "map_of os at")
      case None
      then have r: "state' = state(at := 1)" "path' = path @ [at]"
        using 1(2) n1 n2 by (simp_all add: ownerWalk.simps[of os state path at])
      have "closed_acyclic ?E (insert at ?D)"
        by (rule closed_acyclic_insert[OF 1(3) fresh(1)]) (use None in \<open>auto simp: ownerEdges_def\<close>)
      then show ?thesis using r mark fresh by (intro exI[of _ "[at]"]) (simp del: fun_upd_apply One_nat_def)
    next
      case (Some w)
      then have rec: "ownerWalk os (state(at := 1)) (path @ [at]) w = Inr (state', path')"
        using 1(2) n1 n2 by (simp add: ownerWalk.simps[of os state path at])
      from 1(1)[OF n1 n2 Some rec] mark 1(3) obtain ext where ext: "path' = path @ at # ext"
        "set ext \<inter> (insert at (set path) \<union> ?D) = {}" "w \<in> set ext \<union> ?D" "closed_acyclic ?E (set ext \<union> ?D)"
        "doneNodes state' = ?D" "walkNodes state' = set path'"
        by (auto simp del: fun_upd_apply)
      have "closed_acyclic ?E (insert at (set ext \<union> ?D))"
        by (rule closed_acyclic_insert[OF ext(4)]) (use fresh ext(2,3) Some in \<open>auto simp: ownerEdges_def\<close>)
      then show ?thesis using ext fresh by (intro exI[of _ "at # ext"]) auto
    qed
  qed
qed

lemma ownerWalk_error:
  "ownerWalk os state path at = Inl e \<Longrightarrow> \<forall>k \<in> walkNodes state. (k, at) \<in> (ownerEdges os)\<^sup>+ \<Longrightarrow>
   \<not> acyclic (ownerEdges os)"
proof (induction os state path at rule: ownerWalk.induct)
  case (1 os state path at)
  show ?case
  proof (cases "state at = 1")
    case True
    then show ?thesis using 1(3) by (auto simp: acyclic_def walkNodes_def)
  next
    case n1: False
    then have n2: "state at \<noteq> 2" using 1(2) by (auto simp: ownerWalk.simps[of os state path at])
    then obtain w where w: "map_of os at = Some w" "ownerWalk os (state(at := 1)) (path @ [at]) w = Inl e"
      using 1(2) n1 by (auto simp: ownerWalk.simps[of os state path at] split: option.splits)
    have "(at, w) \<in> ownerEdges os" using w(1) by (simp add: ownerEdges_def)
    moreover have "walkNodes (state(at := 1)) = insert at (walkNodes state)" by (rule marks)
    ultimately have "\<forall>k \<in> walkNodes (state(at := 1)). (k, w) \<in> (ownerEdges os)\<^sup>+"
      using 1(3) by (auto intro: trancl_into_trancl)
    then show ?thesis using 1(1)[OF n1 n2 w] by blast
  qed
qed

lemma ownerWalk_states:
  "ownerWalk os state path at = Inr (state', path') \<Longrightarrow> \<forall>k. state k \<noteq> 0 \<longrightarrow> state k = 1 \<or> state k = 2 \<Longrightarrow>
   \<forall>k. state' k \<noteq> 0 \<longrightarrow> state' k = 1 \<or> state' k = 2"
proof (induction os state path at arbitrary: state' path' rule: ownerWalk.induct)
  case (1 os state path at)
  from 1(2) have n1: "state at \<noteq> 1" by (auto simp: ownerWalk.simps[of os state path at] split: if_splits)
  have mark: "\<forall>k. (state(at := 1)) k \<noteq> 0 \<longrightarrow> (state(at := 1)) k = 1 \<or> (state(at := 1)) k = 2" using 1(3) by simp
  show ?case
  proof (cases "state at = 2")
    case True
    then show ?thesis using 1(2,3) by (simp add: ownerWalk.simps[of os state path at])
  next
    case n2: False
    show ?thesis
    proof (cases "map_of os at")
      case None
      then have "state' = state(at := 1)" using 1(2) n1 n2 by (simp add: ownerWalk.simps[of os state path at])
      then show ?thesis using mark by simp
    next
      case (Some w)
      then have "ownerWalk os (state(at := 1)) (path @ [at]) w = Inr (state', path')"
        using 1(2) n1 n2 by (simp add: ownerWalk.simps[of os state path at])
      from 1(1)[OF n1 n2 Some this mark] show ?thesis .
    qed
  qed
qed

lemma mark_done: "foldl (\<lambda>s k. s(k := 2)) state ks k = (if k \<in> set ks then 2 else state k)"
  by (induction ks arbitrary: state) auto

lemma validateOwnershipCycles_conv:
  assumes "fst ` set os \<subseteq> set keys"
  shows "validateOwnershipCycles keys os = Inr () \<longleftrightarrow> acyclic (ownerEdges os)"
proof -
  let ?E = "ownerEdges os"
  let ?f = "\<lambda>state start. if state start \<noteq> 0 then Inr state
      else bind_result (ownerWalk os state [] start) (\<lambda>r. Inr (foldl (\<lambda>s k. s(k := 2)) (fst r) (snd r)))"
  have run: "(\<forall>st'. fold_result ?f ks st = Inr st' \<longrightarrow>
        closed_acyclic ?E (doneNodes st') \<and> set ks \<union> doneNodes st \<subseteq> doneNodes st') \<and>
      (\<forall>e. fold_result ?f ks st = Inl e \<longrightarrow> \<not> acyclic ?E)"
    if "closed_acyclic ?E (doneNodes st)" "walkNodes st = {}" "\<forall>k. st k \<noteq> 0 \<longrightarrow> st k = 2" for ks st
    using that
  proof (induction ks arbitrary: st)
    case (Cons k ks)
    show ?case
    proof (cases "st k = 0")
      case False
      then have "k \<in> doneNodes st" using Cons.prems(3) by (simp add: doneNodes_def)
      moreover have "fold_result ?f (k # ks) st = fold_result ?f ks st" using False by simp
      ultimately show ?thesis using Cons.IH[OF Cons.prems] by auto
    next
      case zero: True
      show ?thesis
      proof (cases "ownerWalk os st [] k")
        case (Inl e)
        then show ?thesis using zero ownerWalk_error[OF Inl] Cons.prems(2) by simp
      next
        case (Inr r)
        obtain st1 path where r: "r = (st1, path)" by fastforce
        from ownerWalk_sound[OF Inr[unfolded r] Cons.prems(1)] Cons.prems(2)
        have S: "k \<in> set path \<union> doneNodes st" "closed_acyclic ?E (set path \<union> doneNodes st)"
          "doneNodes st1 = doneNodes st" "walkNodes st1 = set path"
          by auto
        define st2 where "st2 = foldl (\<lambda>s k. s(k := 2)) st1 path"
        have d2: "doneNodes st2 = set path \<union> doneNodes st" "walkNodes st2 = {}"
          using S(3,4) by (auto simp: st2_def mark_done doneNodes_def walkNodes_def)
        have step: "fold_result ?f (k # ks) st = fold_result ?f ks st2"
          using zero by (simp add: Inr r st2_def)
        have z: "\<forall>k. st2 k \<noteq> 0 \<longrightarrow> st2 k = 2"
        proof (intro allI impI)
          fix x assume "st2 x \<noteq> 0"
          show "st2 x = 2"
            using \<open>st2 x \<noteq> 0\<close> ownerWalk_states[OF Inr[unfolded r]] Cons.prems(3) S(4)
            by (auto simp: st2_def mark_done walkNodes_def split: if_splits)
        qed
        show ?thesis unfolding step using Cons.IH[OF _ d2(2) z] S d2(1) by auto
      qed
    qed
  qed simp
  have "doneNodes (\<lambda>_. 0) = {}" by (simp add: doneNodes_def)
  then have ini: "closed_acyclic ?E (doneNodes (\<lambda>_. 0))" "walkNodes (\<lambda>_. 0) = {}" "\<forall>k. (0 :: nat) \<noteq> 0 \<longrightarrow> 0 = 2"
    by (auto simp: closed_acyclic_def walkNodes_def acyclic_def)
  note R = run[OF ini, of keys]
  show ?thesis
  proof (cases "fold_result ?f keys (\<lambda>_. 0)")
    case (Inl e)
    then show ?thesis using R by (auto simp: validateOwnershipCycles_def)
  next
    case (Inr st)
    then have D: "closed_acyclic ?E (doneNodes st)" "set keys \<subseteq> doneNodes st" using R by auto
    have "?E \<subseteq> doneNodes st \<times> doneNodes st"
    proof
      fix e assume e: "e \<in> ?E"
      then have "fst e \<in> fst ` set os"
        by (auto simp: ownerEdges_def dest!: map_of_SomeD intro: image_eqI[rotated])
      then have "fst e \<in> doneNodes st" using assms D(2) by blast
      moreover have "snd e \<in> doneNodes st" using D(1) e calculation unfolding closed_acyclic_def
        by (metis ImageI prod.collapse subsetD)
      ultimately show "e \<in> doneNodes st \<times> doneNodes st" by (simp add: mem_Times_iff)
    qed
    then have "?E \<inter> doneNodes st \<times> doneNodes st = ?E" by blast
    then have "acyclic ?E" using D(1) by (simp add: closed_acyclic_def)
    then show ?thesis using Inr by (simp add: validateOwnershipCycles_def)
  qed
qed

end
