(* ===== verification/Index_Counts.thy ===== *)
theory Index_Counts
  imports Entity_Graph
begin

text \<open>
  The small tables of \<open>relation_index.go\<close>: reference counts per referring field
  (\<open>incomingCounts\<close>), pending fields and owner changes of a delta (\<open>relationFieldDeltas\<close>,
  \<open>setOwnerChange\<close>), and the set of affected rows (\<open>nodeKeySet\<close>). Each is a list that is
  searched from the front while it is short and through a map of positions once it is long.
  That the two ways of searching agree is the contract \<open>scan_table\<close>.
\<close>

section \<open>Positions of keys\<close>

fun indexOf :: "'k \<Rightarrow> 'k list \<Rightarrow> nat option" where
  "indexOf k [] = None"
| "indexOf k (x # xs) = (if x = k then Some 0 else map_option Suc (indexOf k xs))"

text \<open>The loop that fills a map of positions from a list.\<close>

definition positionsOf :: "'k list \<Rightarrow> 'k \<Rightarrow> nat option" where
  "positionsOf ks = foldl (\<lambda>m i. m(ks ! i \<mapsto> i)) (\<lambda>_. None) [0 ..< length ks]"

lemma indexOf_None: "indexOf k ks = None \<longleftrightarrow> k \<notin> set ks"
  by (induction ks) auto

lemma indexOf_SomeD: "indexOf k ks = Some i \<Longrightarrow> i < length ks \<and> ks ! i = k"
  by (induction ks arbitrary: i) (auto split: if_splits)

lemma indexOf_nth: "distinct ks \<Longrightarrow> i < length ks \<Longrightarrow> indexOf (ks ! i) ks = Some i"
proof (induction ks arbitrary: i)
  case (Cons x xs)
  then show ?case by (cases i) auto
qed simp

lemma indexOf_append: "indexOf k (xs @ [y]) =
    (case indexOf k xs of Some i \<Rightarrow> Some i | None \<Rightarrow> if y = k then Some (length xs) else None)"
  by (induction xs) (auto split: option.splits)

lemma positionsOf_snoc: "positionsOf (ks @ [k]) = (positionsOf ks)(k \<mapsto> length ks)"
proof -
  have "foldl (\<lambda>m i. m((ks @ [k]) ! i \<mapsto> i)) (\<lambda>_. None) [0 ..< length ks] =
      foldl (\<lambda>m i. m(ks ! i \<mapsto> i)) (\<lambda>_. None) [0 ..< length ks]"
    by (rule foldl_cong) (simp_all add: nth_append)
  then show ?thesis by (simp add: positionsOf_def)
qed

lemma positionsOf_conv: "distinct ks \<Longrightarrow> positionsOf ks = (\<lambda>k. indexOf k ks)"
proof (induction ks rule: rev_induct)
  case (snoc k ks)
  have "k \<notin> set ks" using snoc.prems by simp
  then have "indexOf k ks = None" by (simp add: indexOf_None)
  then have "((\<lambda>q. indexOf q ks)(k \<mapsto> length ks)) q = indexOf q (ks @ [k])" for q
    by (auto simp: indexOf_append split: option.split)
  then show ?case using snoc by (auto simp: positionsOf_snoc)
qed (simp add: positionsOf_def)

section \<open>The interface of a table\<close>

locale scan_table =
  fixes keys :: "'s \<Rightarrow> 'k list"
    and position :: "'s \<Rightarrow> 'k \<Rightarrow> nat option"
    and valid :: "'s \<Rightarrow> bool"
  assumes position_scan: "valid s \<Longrightarrow> position s k = indexOf k (keys s)"
    and keys_distinct: "valid s \<Longrightarrow> distinct (keys s)"
begin

lemma position_None: "valid s \<Longrightarrow> position s k = None \<longleftrightarrow> k \<notin> set (keys s)"
  by (simp add: position_scan indexOf_None)

lemma position_Some: "valid s \<Longrightarrow> position s k = Some i \<longleftrightarrow> i < length (keys s) \<and> keys s ! i = k"
  using indexOf_SomeD[of k "keys s" i] indexOf_nth[OF keys_distinct, of s i] position_scan by metis

end

section \<open>Incoming counts\<close>

datatype relationHolderField = HolderField (hf_holder: nodeKey) (hf_field: nat)

record incomingCounts =
  entries :: "(relationHolderField \<times> int) list"
  ic_lookup :: "(relationHolderField \<Rightarrow> nat option) option"

definition incomingLookupThreshold :: nat where "incomingLookupThreshold = 8"

definition emptyCounts :: incomingCounts where "emptyCounts = \<lparr>entries = [], ic_lookup = None\<rparr>"

definition position :: "incomingCounts \<Rightarrow> relationHolderField \<Rightarrow> nat option" where
  "position counts field =
     (case ic_lookup counts of
        Some m \<Rightarrow> m field
      | None \<Rightarrow> indexOf field (map fst (entries counts)))"

definition increment :: "incomingCounts \<Rightarrow> relationHolderField \<Rightarrow> incomingCounts" where
  "increment counts field =
     (case position counts field of
        Some i \<Rightarrow> counts\<lparr>entries := (entries counts)[i := (fst (entries counts ! i), snd (entries counts ! i) + 1)]\<rparr>
      | None \<Rightarrow>
          let es = entries counts @ [(field, 1)] in
          (case ic_lookup counts of
             Some m \<Rightarrow> \<lparr>entries = es, ic_lookup = Some (m(field \<mapsto> length es - 1))\<rparr>
           | None \<Rightarrow>
               \<lparr>entries = es,
                ic_lookup = (if incomingLookupThreshold < length es then Some (positionsOf (map fst es)) else None)\<rparr>))"

text \<open>An exhausted entry is replaced by the last one.\<close>

definition decrement :: "incomingCounts \<Rightarrow> relationHolderField \<Rightarrow> incomingCounts" where
  "decrement counts field =
     (case position counts field of
        None \<Rightarrow> counts
      | Some i \<Rightarrow>
          let n = snd (entries counts ! i) - 1;
              es = (entries counts)[i := (fst (entries counts ! i), n)] in
          if 0 < n then counts\<lparr>entries := es\<rparr>
          else
            let final = length es - 1; moved = es ! final in
            \<lparr>entries = take final (es[i := moved]),
             ic_lookup = map_option (\<lambda>m. let m' = m(field := None) in
                           if i \<noteq> final then m'(fst moved \<mapsto> i) else m') (ic_lookup counts)\<rparr>)"

definition counts_ok :: "incomingCounts \<Rightarrow> bool" where
  "counts_ok counts \<longleftrightarrow>
     distinct (map fst (entries counts)) \<and> (\<forall>e \<in> set (entries counts). 0 < snd e) \<and>
     (\<forall>m. ic_lookup counts = Some m \<longrightarrow> m = (\<lambda>k. indexOf k (map fst (entries counts)))) \<and>
     (ic_lookup counts = None \<longrightarrow> length (entries counts) \<le> incomingLookupThreshold)"

interpretation incoming: scan_table "\<lambda>s. map fst (entries s)" position counts_ok
proof
  fix s k
  assume "counts_ok s"
  then show "position s k = indexOf k (map fst (entries s))" "distinct (map fst (entries s))"
    by (auto simp: counts_ok_def position_def split: option.split)
qed

text \<open>What the counts stand for: how often each field refers to the row.\<close>

definition countOf :: "incomingCounts \<Rightarrow> relationHolderField \<Rightarrow> int" where
  "countOf counts field = (case map_of (entries counts) field of None \<Rightarrow> 0 | Some n \<Rightarrow> n)"

lemma empty_counts: "counts_ok emptyCounts" "countOf emptyCounts f = 0"
  by (simp_all add: counts_ok_def emptyCounts_def countOf_def)

lemma countOf_nth:
  "counts_ok s \<Longrightarrow> i < length (entries s) \<Longrightarrow> countOf s (fst (entries s ! i)) = snd (entries s ! i)"
  unfolding countOf_def counts_ok_def
  by (simp add: map_of_eq_Some_iff[THEN iffD2, of "entries s" "fst (entries s ! i)" "snd (entries s ! i)"])

lemma indexOf_Some_iff: "distinct ks \<Longrightarrow> indexOf k ks = Some i \<longleftrightarrow> i < length ks \<and> ks ! i = k"
  using indexOf_SomeD[of k ks i] indexOf_nth[of ks i] by metis

lemma indexOf_update:
  assumes "distinct ks" and "i < length ks" and "y \<notin> set ks"
  shows "indexOf k (ks[i := y]) = (if k = y then Some i else if k = ks ! i then None else indexOf k ks)"
proof -
  have d: "distinct (ks[i := y])" using assms by (simp add: distinct_list_update)
  show ?thesis
  proof (cases "k = y \<or> k = ks ! i")
    case True
    have "k = ks ! i \<Longrightarrow> k \<noteq> y \<Longrightarrow> k \<notin> set (ks[i := y])"
      using assms by (auto simp: in_set_conv_nth nth_list_update distinct_conv_nth)
    then show ?thesis using True assms(2) indexOf_Some_iff[OF d, of k i] by (auto simp: indexOf_None)
  next
    case False
    have "indexOf k (ks[i := y]) = Some j \<longleftrightarrow> indexOf k ks = Some j" for j
      using False unfolding indexOf_Some_iff[OF d] indexOf_Some_iff[OF assms(1)]
      by (cases "j = i") (auto simp: nth_list_update)
    then have "indexOf k (ks[i := y]) = indexOf k ks" by (cases "indexOf k ks") (metis not_None_eq)+
    then show ?thesis using False by simp
  qed
qed

lemma map_of_update:
  assumes "distinct (map fst es)" and "i < length es" and "fst (es ! i) = k"
  shows "map_of (es[i := (k, v)]) = (map_of es)(k \<mapsto> v)"
  using assms
proof (induction es arbitrary: i)
  case (Cons e es)
  show ?case
  proof (cases i)
    case 0
    then show ?thesis using Cons.prems by (auto simp: fun_eq_iff)
  next
    case (Suc j)
    have "fst (es ! j) \<in> fst ` set es" using Suc Cons.prems(2) by simp
    then have "fst e \<noteq> k" using Cons.prems Suc by auto
    then show ?thesis using Cons.IH[of j] Cons.prems Suc by (auto simp: fun_eq_iff)
  qed
qed simp

lemma same_keys_update: "fst (es ! i) = k \<Longrightarrow> map fst (es[i := (k, v)]) = map fst es"
proof (cases "i < length es")
  case True
  assume "fst (es ! i) = k"
  then have "map fst (es[i := (k, v)]) = (map fst es)[i := map fst es ! i]" using True by (simp add: map_update)
  then show ?thesis by simp
qed (simp add: list_update_beyond)

lemma countOf_absent: "f \<notin> set (map fst (entries s)) \<Longrightarrow> countOf s f = 0"
proof -
  assume "f \<notin> set (map fst (entries s))"
  then have "map_of (entries s) f = None" by (simp add: map_of_eq_None_iff)
  then show ?thesis by (simp add: countOf_def)
qed

lemma counts_ok_entries:
  assumes "counts_ok s" and "map fst es = map fst (entries s)" and "\<forall>e \<in> set es. 0 < snd e"
  shows "counts_ok (s\<lparr>entries := es\<rparr>)"
proof -
  have "length es = length (entries s)" using arg_cong[OF assms(2), of length] by simp
  then show ?thesis using assms unfolding counts_ok_def by auto
qed

lemma increment_counts:
  assumes "counts_ok s"
  shows "counts_ok (increment s f) \<and> countOf (increment s f) = (countOf s)(f := countOf s f + 1)"
proof (cases "position s f")
  case None
  have new: "f \<notin> set (map fst (entries s))" using incoming.position_None[OF assms] None by blast
  then have m: "map_of (entries s @ [(f, 1)]) = (map_of (entries s))(f \<mapsto> 1)"
    by (simp add: map_of_eq_None_iff fun_eq_iff map_add_def split: option.split)
      (metis map_of_eq_None_iff option.distinct(1))
  have d: "distinct (map fst (entries s @ [(f, 1)]))" using assms new by (auto simp: counts_ok_def)
  have es: "entries (increment s f) = entries s @ [(f, 1)]"
    by (simp add: increment_def None Let_def split: option.split)
  have "countOf s f = 0" by (rule countOf_absent[OF new])
  then have c: "countOf (increment s f) = (countOf s)(f := countOf s f + 1)"
    unfolding countOf_def es m by (simp add: fun_eq_iff)
  have pos: "(\<lambda>k. indexOf k (map fst (entries s)))(f \<mapsto> length (entries s)) = (\<lambda>k. indexOf k (map fst (entries s @ [(f, 1)])))"
    using new indexOf_None[of f "map fst (entries s)"] by (auto simp: fun_eq_iff indexOf_append split: option.split)
  have "ic_lookup (increment s f) = Some m \<Longrightarrow> m = (\<lambda>k. indexOf k (map fst (entries s @ [(f, 1)])))" for m
  proof (cases "ic_lookup s")
    case (Some m0)
    assume "ic_lookup (increment s f) = Some m"
    moreover have "m0 = (\<lambda>k. indexOf k (map fst (entries s)))" using assms Some by (simp add: counts_ok_def)
    ultimately show ?thesis using pos None Some by (simp add: increment_def Let_def)
  next
    case lin: None
    assume "ic_lookup (increment s f) = Some m"
    then show ?thesis using positionsOf_conv[OF d] None lin by (simp add: increment_def Let_def split: if_splits)
  qed
  moreover have "ic_lookup (increment s f) = None \<Longrightarrow> length (entries s @ [(f, 1)]) \<le> incomingLookupThreshold"
    using None by (auto simp: increment_def Let_def split: option.splits if_splits)
  ultimately have "counts_ok (increment s f)" using assms d unfolding counts_ok_def es by auto
  then show ?thesis using c by blast
next
  case (Some i)
  then have i: "i < length (entries s)" "fst (entries s ! i) = f" using incoming.position_Some[OF assms] by auto
  have n: "countOf s f = snd (entries s ! i)" using countOf_nth[OF assms i(1)] i(2) by simp
  have es: "increment s f = s\<lparr>entries := (entries s)[i := (f, countOf s f + 1)]\<rparr>"
    using Some i n by (simp add: increment_def)
  have "0 < countOf s f" using assms nth_mem[OF i(1)] unfolding counts_ok_def n by blast
  then have "0 < countOf s f + 1" by simp
  then have pos: "\<forall>e \<in> set ((entries s)[i := (f, countOf s f + 1)]). 0 < snd e"
    using assms by (auto simp: counts_ok_def dest!: set_update_subset_insert[THEN subsetD])
  moreover have "distinct (map fst (entries s))" using assms by (simp add: counts_ok_def)
  ultimately have "countOf (increment s f) = (countOf s)(f := countOf s f + 1)"
    using map_of_update[of "entries s" i f "countOf s f + 1"] i by (simp add: es countOf_def fun_eq_iff)
  moreover have "counts_ok (increment s f)"
    using counts_ok_entries[OF assms _ pos] i(2) by (simp add: es same_keys_update)
  ultimately show ?thesis by blast
qed

text \<open>The entries after the swap: those of the front, with the last one in the freed place.\<close>

lemma swap_out:
  assumes "i < length es" and "es = ys @ [z]"
  shows "take (length es - 1) (es[i := es ! (length es - 1)]) = (if i = length ys then ys else ys[i := z])"
  using assms by (auto simp: list_update_append nth_append)

lemma map_of_swap_out:
  assumes "distinct (map fst (ys @ [z]))" and "i \<le> length ys"
  shows "map_of (if i = length ys then ys else ys[i := z]) = (map_of (ys @ [z]))(fst ((ys @ [z]) ! i) := None)"
proof
  fix k
  let ?es = "ys @ [z]" and ?r = "if i = length ys then ys else ys[i := z]"
  have d: "distinct (map fst ?r)" using assms by (auto simp: map_update distinct_list_update)
  have m: "(k, v) \<in> set ?r \<longleftrightarrow> (k, v) \<in> set ?es \<and> k \<noteq> fst (?es ! i)" for v
  proof (cases "i = length ys")
    case True
    have "fst z \<notin> fst ` set ys" using assms(1) by simp
    then have "(k, v) \<in> set ys \<Longrightarrow> k \<noteq> fst z" by (metis fst_conv image_eqI)
    then show ?thesis using True by (auto simp: nth_append)
  next
    case False
    then have i: "i < length ys" using assms(2) by simp
    have ysd: "distinct (map fst ys)" using assms(1) by simp
    have "set (ys[i := z]) = insert z (set ys - {ys ! i})"
      using i ysd by (intro set_update_distinct) (auto simp: distinct_map)
    moreover have "q \<in> set ys \<Longrightarrow> fst q = fst (ys ! i) \<Longrightarrow> q = ys ! i" for q
      using ysd i eq_key_imp_eq_value[of ys "fst q" "snd q" "snd (ys ! i)"] nth_mem[OF i]
      by (metis prod.collapse)
    moreover have "fst z \<notin> fst ` set ys" using assms(1) by simp
    then have "fst (ys ! i) \<noteq> fst z" using nth_mem[OF i] by (metis image_eqI)
    moreover have "(k, v) = ys ! i \<Longrightarrow> k = fst (ys ! i)" by (metis fst_conv)
    ultimately show ?thesis using i False by (auto simp: nth_append)
  qed
  have iff: "map_of ?r k = Some v \<longleftrightarrow> ((map_of ?es)(fst (?es ! i) := None)) k = Some v" for v
    using m[of v] map_of_eq_Some_iff[OF d, of k v] map_of_eq_Some_iff[OF assms(1), of k v] by simp
  show "map_of ?r k = ((map_of ?es)(fst (?es ! i) := None)) k"
    by (rule option.expand) (use iff in \<open>metis option.exhaust_sel option.distinct(1)\<close>, use iff in \<open>metis option.sel option.exhaust\<close>)
qed

lemma decrement_counts:
  assumes "counts_ok s"
  shows "counts_ok (decrement s f) \<and> countOf (decrement s f) = (countOf s)(f := max 0 (countOf s f - 1))"
proof (cases "position s f")
  case None
  have "f \<notin> set (map fst (entries s))" using incoming.position_None[OF assms] None by blast
  then have "countOf s f = 0" by (rule countOf_absent)
  then show ?thesis using assms None by (auto simp: decrement_def fun_eq_iff)
next
  case (Some i)
  then have i: "i < length (entries s)" "fst (entries s ! i) = f" using incoming.position_Some[OF assms] by auto
  have n: "countOf s f = snd (entries s ! i)" using countOf_nth[OF assms i(1)] i(2) by simp
  have d: "distinct (map fst (entries s))" using assms by (simp add: counts_ok_def)
  have pos: "0 < countOf s f" using assms nth_mem[OF i(1)] unfolding counts_ok_def n by blast
  let ?n = "countOf s f - 1"
  show ?thesis
  proof (cases "0 < ?n")
    case True
    have e: "decrement s f = s\<lparr>entries := (entries s)[i := (f, ?n)]\<rparr>"
      using Some i n True by (simp add: decrement_def Let_def)
    have "\<forall>e \<in> set ((entries s)[i := (f, ?n)]). 0 < snd e"
      using assms True by (auto simp: counts_ok_def dest!: set_update_subset_insert[THEN subsetD])
    then have "counts_ok (decrement s f)" using counts_ok_entries[OF assms] i(2) by (simp add: e same_keys_update)
    moreover have "countOf (decrement s f) = (countOf s)(f := max 0 ?n)"
      using map_of_update[OF d i, of ?n] True by (simp add: e countOf_def fun_eq_iff)
    ultimately show ?thesis by blast
  next
    case False
    then have one: "countOf s f = 1" using pos by simp
    let ?es = "(entries s)[i := (f, 0)]"
    obtain ys z where yz: "?es = ys @ [z]" using i(1) by (metis length_0_conv length_list_update not_less0 rev_exhaust)
    have len: "length ys = length (entries s) - 1" "i \<le> length ys"
      using arg_cong[OF yz, of length] i(1) by auto
    have keys: "map fst (entries s) = map fst (ys @ [z])"
      unfolding yz[symmetric] using i(2) by (simp add: same_keys_update)
    have dz: "distinct (map fst (ys @ [z]))" using d keys by simp
    let ?r = "if i = length ys then ys else ys[i := z]"
    have fi: "fst ((ys @ [z]) ! i) = f" unfolding yz[symmetric] using i by simp
    have sw: "take (length ?es - 1) (?es[i := ?es ! (length ?es - 1)]) = ?r"
      by (rule swap_out) (use i yz len in simp_all)
    have ze: "?es ! (length ?es - 1) = z" unfolding yz by simp
    have e: "entries (decrement s f) = ?r"
      using Some i n one sw by (simp add: decrement_def Let_def)
    have l: "ic_lookup (decrement s f) =
        map_option (\<lambda>m. if i \<noteq> length ys then (m(f := None))(fst z \<mapsto> i) else m(f := None)) (ic_lookup s)"
    proof -
      have "i \<noteq> length ys \<Longrightarrow> entries s ! (length (entries s) - Suc 0) = z" using ze len by simp
      then show ?thesis using Some i n one len
        by (cases "i = length ys") (simp_all add: decrement_def Let_def)
    qed
    have dr: "distinct (map fst ?r)" using dz by (auto simp: map_update distinct_list_update)
    have mr: "map_of ?r = (map_of (entries s))(f := None)"
    proof -
      have "map_of (ys @ [z]) = (map_of (entries s))(f \<mapsto> 0)"
        unfolding yz[symmetric] by (rule map_of_update[OF d i])
      then show ?thesis using map_of_swap_out[OF dz len(2)] fi by simp
    qed
    have lk: "(if i \<noteq> length ys then ((\<lambda>k. indexOf k (map fst (ys @ [z])))(f := None))(fst z \<mapsto> i)
        else (\<lambda>k. indexOf k (map fst (ys @ [z])))(f := None)) = (\<lambda>k. indexOf k (map fst ?r))"
    proof (cases "i = length ys")
      case True
      then have "f = fst z" using fi by (simp add: nth_append)
      moreover have "fst z \<notin> set (map fst ys)" using dz by simp
      ultimately show ?thesis using True indexOf_None[of "fst z" "map fst ys"]
        by (auto simp: fun_eq_iff indexOf_append split: option.split)
    next
      case False
      then have il: "i < length (map fst ys)" using len by simp
      have fy: "f = map fst ys ! i" using fi il by (simp add: nth_append)
      have nz: "fst z \<notin> set (map fst ys)" "distinct (map fst ys)" using dz by auto
      have "f \<noteq> fst z" using fy nz il nth_mem by metis
      then show ?thesis using False indexOf_update[OF nz(2) il nz(1)] fy
        by (auto simp: fun_eq_iff map_update indexOf_append split: option.split)
    qed
    have "ic_lookup (decrement s f) = Some m \<Longrightarrow> m = (\<lambda>k. indexOf k (map fst ?r))" for m
      using assms lk keys unfolding l counts_ok_def by auto
    moreover have "ic_lookup (decrement s f) = None \<Longrightarrow> length ?r \<le> incomingLookupThreshold"
      using assms len unfolding l counts_ok_def by auto
    moreover have "\<forall>q \<in> set ?r. 0 < snd q"
    proof
      fix q assume "q \<in> set ?r"
      then have "map_of ?r (fst q) = Some (snd q)" using map_of_eq_Some_iff[OF dr] by simp
      then have "map_of (entries s) (fst q) = Some (snd q)" unfolding mr by (simp split: if_splits)
      then have "q \<in> set (entries s)" using map_of_SomeD by fastforce
      then show "0 < snd q" using assms by (auto simp: counts_ok_def)
    qed
    ultimately have "counts_ok (decrement s f)" using dr unfolding counts_ok_def e by blast
    moreover have "countOf (decrement s f) = (countOf s)(f := max 0 (countOf s f - 1))"
      unfolding countOf_def e mr using one by (auto simp: fun_eq_iff countOf_def)
    ultimately show ?thesis by blast
  qed
qed

text \<open>A run of operations, and the multiset of referring fields it stands for.\<close>

datatype countOp = Increment relationHolderField | Decrement relationHolderField

fun runCount :: "incomingCounts \<Rightarrow> countOp \<Rightarrow> incomingCounts" where
  "runCount s (Increment f) = increment s f"
| "runCount s (Decrement f) = decrement s f"

fun specCount :: "relationHolderField multiset \<Rightarrow> countOp \<Rightarrow> relationHolderField multiset" where
  "specCount M (Increment f) = add_mset f M"
| "specCount M (Decrement f) = M - {#f#}"

lemma runCount_step:
  assumes "counts_ok s" and "\<And>f. countOf s f = int (count M f)"
  shows "counts_ok (runCount s op) \<and> (\<forall>f. countOf (runCount s op) f = int (count (specCount M op) f))"
proof (cases op)
  case (Increment f)
  then show ?thesis using increment_counts[OF assms(1), of f] assms(2) by simp
next
  case (Decrement f)
  have "max 0 (int (count M f) - 1) = int (count M f - 1)" by linarith
  then show ?thesis using decrement_counts[OF assms(1), of f] assms(2) Decrement by simp
qed

lemma runCounts:
  "counts_ok s \<Longrightarrow> (\<And>f. countOf s f = int (count M f)) \<Longrightarrow>
     counts_ok (foldl runCount s ops) \<and> (\<forall>f. countOf (foldl runCount s ops) f = int (count (foldl specCount M ops) f))"
proof (induction ops arbitrary: s M)
  case (Cons op ops)
  then show ?case using runCount_step[OF Cons.prems(1), of M op] Cons.IH[of "runCount s op" "specCount M op"] by simp
qed simp

text \<open>
  C22. Reference counts are exact through any sequence of increments and decrements, across
  the switch from scanning to the lookup map and back through removals: a field has an entry
  exactly when it still refers to the row, with its exact multiplicity, and \<open>position\<close>
  finds that entry.
\<close>

theorem incoming_counts_are_exact:
  fixes ops :: "countOp list"
  defines "s \<equiv> foldl runCount emptyCounts ops" and "M \<equiv> foldl specCount {#} ops"
  shows "(\<forall>f. map_of (entries s) f = (if f \<in># M then Some (int (count M f)) else None)) \<and>
    distinct (map fst (entries s)) \<and>
    (\<forall>f i. position s f = Some i \<longleftrightarrow> i < length (entries s) \<and> fst (entries s ! i) = f)"
proof -
  have R: "counts_ok s" "\<And>f. countOf s f = int (count M f)"
    using runCounts[of emptyCounts "{#}" ops] by (auto simp: empty_counts s_def M_def)
  have "map_of (entries s) f = (if f \<in># M then Some (int (count M f)) else None)" for f
  proof (cases "map_of (entries s) f")
    case None
    then have "count M f = 0" using R(2)[of f] by (simp add: countOf_def)
    then show ?thesis using None by (simp add: count_eq_zero_iff)
  next
    case (Some n)
    then have n: "n = int (count M f)" using R(2)[of f] by (simp add: countOf_def)
    have "0 < snd (f, n)" using R(1) map_of_SomeD[OF Some] unfolding counts_ok_def by blast
    then have "0 < n" by simp
    then have "0 < count M f" using n by simp
    then have "f \<in># M" by (simp only: count_greater_zero_iff)
    then show ?thesis using Some n by simp
  qed
  moreover have "position s f = Some i \<longleftrightarrow> i < length (entries s) \<and> fst (entries s ! i) = f" for f i
    unfolding incoming.position_Some[OF R(1), of f i] by (rule iffI; elim conjE; simp)
  moreover have "distinct (map fst (entries s))" using incoming.keys_distinct[OF R(1)] .
  ultimately show ?thesis by blast
qed

section \<open>The set of affected rows\<close>

record nodeKeySet =
  inline :: "nodeKey list"
  overflow :: "nodeKey list"
  ks_index :: "nodeKey set option"
  ks_count :: nat

text \<open>The zero value: eight zero keys in the array, nothing counted.\<close>

definition emptyKeySet :: nodeKeySet where
  "emptyKeySet = \<lparr>inline = replicate 8 (NodeKey [] 0), overflow = [], ks_index = None, ks_count = 0\<rparr>"

definition addKey :: "nodeKeySet \<Rightarrow> nodeKey \<Rightarrow> nodeKeySet \<times> bool" where
  "addKey keys key =
     (case ks_index keys of
        Some ix \<Rightarrow>
          if key \<in> ix then (keys, False)
          else (keys\<lparr>ks_index := Some (insert key ix), overflow := overflow keys @ [key], ks_count := ks_count keys + 1\<rparr>, True)
      | None \<Rightarrow>
          if \<exists>i \<in> set [0 ..< ks_count keys]. inline keys ! i = key then (keys, False)
          else if ks_count keys < length (inline keys)
          then (keys\<lparr>inline := (inline keys)[ks_count keys := key], ks_count := ks_count keys + 1\<rparr>, True)
          else (keys\<lparr>ks_index := Some (insert key (set (inline keys))), overflow := overflow keys @ [key],
                     ks_count := ks_count keys + 1\<rparr>, True))"

definition keyAt :: "nodeKeySet \<Rightarrow> nat \<Rightarrow> nodeKey" where
  "keyAt keys i = (if i < length (inline keys) then inline keys ! i else overflow keys ! (i - length (inline keys)))"

definition keyList :: "nodeKeySet \<Rightarrow> nodeKey list" where
  "keyList keys = map (keyAt keys) [0 ..< ks_count keys]"

text \<open>The keys held, in the order they were added.\<close>

definition keyset_ok :: "nodeKeySet \<Rightarrow> nodeKey list \<Rightarrow> bool" where
  "keyset_ok s ks \<longleftrightarrow> distinct ks \<and> ks_count s = length ks \<and> length (inline s) = 8 \<and>
     (case ks_index s of
        None \<Rightarrow> length ks \<le> 8 \<and> take (length ks) (inline s) = ks \<and> overflow s = []
      | Some ix \<Rightarrow> 8 \<le> length ks \<and> ks = inline s @ overflow s \<and> ix = set ks)"

lemma keyset_empty: "keyset_ok emptyKeySet []"
  by (simp add: keyset_ok_def emptyKeySet_def)

lemma keyset_list: "keyset_ok s ks \<Longrightarrow> keyList s = ks"
proof (rule nth_equalityI)
  assume ok: "keyset_ok s ks"
  then show len: "length (keyList s) = length ks" by (simp add: keyList_def keyset_ok_def)
  fix i assume "i < length (keyList s)"
  then have i: "i < length ks" using len by simp
  then have "keyList s ! i = keyAt s i" using ok by (simp add: keyList_def keyset_ok_def)
  also have "keyAt s i = ks ! i"
  proof (cases "ks_index s")
    case None
    then have "take (length ks) (inline s) = ks" "i < 8" "length (inline s) = 8" using ok i by (auto simp: keyset_ok_def)
    moreover from this(1) have "inline s ! i = ks ! i" using i nth_take[of i "length ks" "inline s"] by simp
    ultimately show ?thesis by (simp add: keyAt_def)
  next
    case (Some ix)
    then have "ks = inline s @ overflow s" using ok by (simp add: keyset_ok_def)
    then show ?thesis by (simp add: keyAt_def nth_append)
  qed
  finally show "keyList s ! i = ks ! i" .
qed

lemma keyset_add:
  assumes "keyset_ok s ks"
  shows "keyset_ok (fst (addKey s k)) (if k \<in> set ks then ks else ks @ [k]) \<and> snd (addKey s k) = (k \<notin> set ks)"
proof (cases "ks_index s")
  case (Some ix)
  then show ?thesis using assms by (auto simp: addKey_def keyset_ok_def)
next
  case None
  then have s: "distinct ks" "ks_count s = length ks" "length (inline s) = 8" "length ks \<le> 8"
    "take (length ks) (inline s) = ks" "overflow s = []"
    using assms by (auto simp: keyset_ok_def)
  have nth: "i < length ks \<Longrightarrow> inline s ! i = ks ! i" for i using s(5) nth_take[of i "length ks" "inline s"] by simp
  then have mem: "(\<exists>i \<in> set [0 ..< ks_count s]. inline s ! i = k) \<longleftrightarrow> k \<in> set ks"
    using s(2) by (auto simp: in_set_conv_nth)
  show ?thesis
  proof (cases "k \<in> set ks")
    case True
    then have "addKey s k = (s, False)" using None mem by (simp only: addKey_def option.case if_True)
    then show ?thesis using True assms by simp
  next
    case False
    show ?thesis
    proof (cases "length ks < 8")
      case True
      then have add: "addKey s k = (s\<lparr>inline := (inline s)[length ks := k], ks_count := length ks + 1\<rparr>, True)"
        using None mem False s(2,3) by (simp only: addKey_def option.case if_False if_True)
      have "take (Suc (length ks)) ((inline s)[length ks := k]) = ks @ [k]"
        using s(3,5) True by (simp add: take_Suc_conv_app_nth)
      then show ?thesis using False None True s add by (simp add: keyset_ok_def)
    next
      case full: False
      then have "inline s = ks" using s by simp
      moreover have "addKey s k = (s\<lparr>ks_index := Some (insert k (set (inline s))), overflow := overflow s @ [k],
          ks_count := length ks + 1\<rparr>, True)"
        using None mem False full s(2,3) by (simp only: addKey_def option.case if_False)
      ultimately show ?thesis using False s full by (simp add: keyset_ok_def)
    qed
  qed
qed

definition addKeys :: "nodeKeySet \<Rightarrow> nodeKey list \<Rightarrow> nodeKeySet" where
  "addKeys s ks = foldl (\<lambda>s k. fst (addKey s k)) s ks"

lemma keyset_addKeys: "keyset_ok s ks \<Longrightarrow> keyset_ok (addKeys s new) (foldl (\<lambda>ks k. if k \<in> set ks then ks else ks @ [k]) ks new)"
proof (induction new arbitrary: s ks)
  case (Cons k new)
  have "keyset_ok (fst (addKey s k)) (if k \<in> set ks then ks else ks @ [k])" using keyset_add[OF Cons.prems] by blast
  then show ?case using Cons.IH by (simp add: addKeys_def)
qed (simp add: addKeys_def)

lemma foldl_insert_set: "set (foldl (\<lambda>ks k. if k \<in> set ks then ks else ks @ [k]) ks new) = set ks \<union> set new"
  by (induction new arbitrary: ks) auto

lemma keyList_addKeys: "distinct (keyList (addKeys emptyKeySet new)) \<and> set (keyList (addKeys emptyKeySet new)) = set new"
  using keyset_addKeys[OF keyset_empty, of new] keyset_list foldl_insert_set[of "[]" new] by (fastforce simp: keyset_ok_def)

section \<open>The fields and owners a delta replaces\<close>

text \<open>
  Both tables are appended to and read by key; the map of positions is built with the ninth
  entry. \<open>add\<close> does not look for an entry of the same key, so it is for new keys only.
\<close>

record ('k, 'v) deltaTable =
  dt_values :: "('k \<times> 'v) list"
  dt_positions :: "('k \<Rightarrow> nat option) option"

definition emptyDelta :: "('k, 'v) deltaTable" where
  "emptyDelta = \<lparr>dt_values = [], dt_positions = None\<rparr>"

definition addDelta :: "('k, 'v) deltaTable \<Rightarrow> 'k \<Rightarrow> 'v \<Rightarrow> ('k, 'v) deltaTable" where
  "addDelta t k v =
     (let vs = dt_values t @ [(k, v)] in
      if length vs = 9 then \<lparr>dt_values = vs, dt_positions = Some (positionsOf (map fst vs))\<rparr>
      else \<lparr>dt_values = vs, dt_positions = map_option (\<lambda>m. m(k \<mapsto> length vs - 1)) (dt_positions t)\<rparr>)"

definition deltaPosition :: "('k, 'v) deltaTable \<Rightarrow> 'k \<Rightarrow> nat option" where
  "deltaPosition t k =
     (case dt_positions t of
        Some m \<Rightarrow> m k
      | None \<Rightarrow> indexOf k (map fst (dt_values t)))"

definition findDelta :: "('k, 'v) deltaTable \<Rightarrow> 'k \<Rightarrow> 'v option" where
  "findDelta t k = map_option (\<lambda>i. snd (dt_values t ! i)) (deltaPosition t k)"

text \<open>A write through the pointer \<open>find\<close> returns.\<close>

definition writeDelta :: "('k, 'v) deltaTable \<Rightarrow> 'k \<Rightarrow> 'v \<Rightarrow> ('k, 'v) deltaTable" where
  "writeDelta t k v =
     (case deltaPosition t k of
        None \<Rightarrow> t
      | Some i \<Rightarrow> t\<lparr>dt_values := (dt_values t)[i := (fst (dt_values t ! i), v)]\<rparr>)"

text \<open>\<open>setOwnerChange\<close> replaces an entry only once the map of positions exists.\<close>

definition setOwnerChange :: "('k, 'v) deltaTable \<Rightarrow> 'k \<Rightarrow> 'v \<Rightarrow> ('k, 'v) deltaTable" where
  "setOwnerChange t child change =
     (case dt_positions t of
        None \<Rightarrow> addDelta t child change
      | Some m \<Rightarrow>
          (case m child of
             Some i \<Rightarrow> t\<lparr>dt_values := (dt_values t)[i := (fst (dt_values t ! i), change)]\<rparr>
           | None \<Rightarrow> addDelta t child change))"

definition delta_ok :: "('k, 'v) deltaTable \<Rightarrow> bool" where
  "delta_ok t \<longleftrightarrow> distinct (map fst (dt_values t)) \<and>
     (\<forall>m. dt_positions t = Some m \<longrightarrow> m = (\<lambda>k. indexOf k (map fst (dt_values t)))) \<and>
     (dt_positions t = None \<longrightarrow> length (dt_values t) \<le> 8)"

interpretation pending: scan_table "\<lambda>t. map fst (dt_values t)" deltaPosition delta_ok
proof
  fix s :: "('k, 'v) deltaTable" and k
  assume "delta_ok s"
  then show "deltaPosition s k = indexOf k (map fst (dt_values s))" "distinct (map fst (dt_values s))"
    by (auto simp: delta_ok_def deltaPosition_def split: option.split)
qed

lemma delta_empty: "delta_ok emptyDelta" "dt_values emptyDelta = []"
  by (simp_all add: delta_ok_def emptyDelta_def)

lemma findDelta_conv:
  assumes "delta_ok t"
  shows "findDelta t k = map_of (dt_values t) k"
proof (cases "deltaPosition t k")
  case None
  then have "map_of (dt_values t) k = None" using pending.position_None[OF assms] by (simp add: map_of_eq_None_iff)
  then show ?thesis using None by (simp add: findDelta_def)
next
  case (Some i)
  then have i: "i < length (dt_values t)" "fst (dt_values t ! i) = k" using pending.position_Some[OF assms] by auto
  have "map_of (dt_values t) k = Some (snd (dt_values t ! i))"
    using map_of_eq_Some_iff[OF pending.keys_distinct[OF assms]] i nth_mem[OF i(1)] by (metis prod.collapse)
  then show ?thesis using Some by (simp add: findDelta_def)
qed

lemma addDelta_ok:
  assumes "delta_ok t" and "k \<notin> set (map fst (dt_values t))"
  shows "delta_ok (addDelta t k v) \<and> dt_values (addDelta t k v) = dt_values t @ [(k, v)]"
proof -
  have d: "distinct (map fst (dt_values t @ [(k, v)]))" using pending.keys_distinct[OF assms(1)] assms(2) by simp
  have pos: "(\<lambda>q. indexOf q (map fst (dt_values t)))(k \<mapsto> length (dt_values t)) = (\<lambda>q. indexOf q (map fst (dt_values t @ [(k, v)])))"
    using assms(2) indexOf_None[of k "map fst (dt_values t)"] by (auto simp: fun_eq_iff indexOf_append split: option.split)
  show ?thesis
  proof (cases "length (dt_values t @ [(k, v)]) = 9")
    case True
    have "addDelta t k v = \<lparr>dt_values = dt_values t @ [(k, v)], dt_positions = Some (positionsOf (map fst (dt_values t @ [(k, v)])))\<rparr>"
      unfolding addDelta_def Let_def if_P[OF True] ..
    then show ?thesis using d positionsOf_conv[OF d] by (simp only: delta_ok_def deltaTable.simps) simp
  next
    case False
    have e: "addDelta t k v = \<lparr>dt_values = dt_values t @ [(k, v)],
        dt_positions = map_option (\<lambda>m. m(k \<mapsto> length (dt_values t))) (dt_positions t)\<rparr>"
      unfolding addDelta_def Let_def if_not_P[OF False] by simp
    have "map_option (\<lambda>m. m(k \<mapsto> length (dt_values t))) (dt_positions t) = Some m \<Longrightarrow>
        m = (\<lambda>q. indexOf q (map fst (dt_values t @ [(k, v)])))" for m
      using assms(1) pos unfolding delta_ok_def by auto
    moreover have "dt_positions t = None \<Longrightarrow> length (dt_values t @ [(k, v)]) \<le> 8"
      using assms(1) False unfolding delta_ok_def by auto
    ultimately show ?thesis using d unfolding delta_ok_def e by simp
  qed
qed

lemma writeDelta_ok:
  assumes "delta_ok t" and "map_of (dt_values t) k \<noteq> None"
  shows "delta_ok (writeDelta t k v) \<and> map_of (dt_values (writeDelta t k v)) = (map_of (dt_values t))(k \<mapsto> v) \<and>
    map fst (dt_values (writeDelta t k v)) = map fst (dt_values t)"
proof -
  obtain i where pi: "deltaPosition t k = Some i"
    using pending.position_None[OF assms(1), of k] assms(2) by (auto simp: map_of_eq_None_iff)
  then have i: "i < length (dt_values t)" "fst (dt_values t ! i) = k" using pending.position_Some[OF assms(1)] by auto
  then have w: "writeDelta t k v = t\<lparr>dt_values := (dt_values t)[i := (k, v)]\<rparr>" by (simp add: writeDelta_def pi)
  have k: "map fst ((dt_values t)[i := (k, v)]) = map fst (dt_values t)" by (rule same_keys_update[OF i(2)])
  have "delta_ok (writeDelta t k v)" using assms(1) unfolding delta_ok_def w by (simp add: k)
  then show ?thesis using map_of_update[OF pending.keys_distinct[OF assms(1)] i, of v] k by (simp add: w)
qed

lemma setOwnerChange_ok:
  assumes "delta_ok t" and "k \<notin> set (map fst (dt_values t))"
  shows "setOwnerChange t k v = addDelta t k v"
proof (cases "dt_positions t")
  case (Some m)
  then have "m k = None" using assms indexOf_None[of k "map fst (dt_values t)"] by (simp add: delta_ok_def)
  then show ?thesis using Some by (simp add: setOwnerChange_def)
qed (simp add: setOwnerChange_def)

end
