(* ===== verification/Owner_Chain.thy ===== *)
theory Owner_Chain
  imports Entity_Graph
begin

text \<open>
  \<open>validateOwnerChain\<close> of \<open>relation_index.go\<close>: two walkers go up the owners of a row, one
  twice as fast, until one finds no owner or they meet. The walk has no bound of its own, so it
  is a \<open>partial_function\<close>; that it returns is a theorem, for any owner map with finitely many
  owned rows.
\<close>

partial_function (option) ownerChain :: "('k \<Rightarrow> 'k option) \<Rightarrow> 'k \<Rightarrow> 'k \<Rightarrow> unit result option" where
  "ownerChain effectiveOwner slow fast =
     (case effectiveOwner slow of
        None \<Rightarrow> Some (Inr ())
      | Some slow' \<Rightarrow>
          (case effectiveOwner fast of
             None \<Rightarrow> Some (Inr ())
           | Some once \<Rightarrow>
               (case effectiveOwner once of
                  None \<Rightarrow> Some (Inr ())
                | Some fast' \<Rightarrow>
                    if slow' = fast' then Some (Inl (ErrRelationInvariant ''ownership cycle''))
                    else ownerChain effectiveOwner slow' fast')))"

definition validateOwnerChain :: "('k \<Rightarrow> 'k option) \<Rightarrow> 'k \<Rightarrow> unit result option" where
  "validateOwnerChain effectiveOwner start = ownerChain effectiveOwner start start"

text \<open>The row \<open>n\<close> steps up.\<close>

fun ancestor :: "('k \<Rightarrow> 'k option) \<Rightarrow> nat \<Rightarrow> 'k \<Rightarrow> 'k option" where
  "ancestor nxt 0 k = Some k"
| "ancestor nxt (Suc n) k = (case ancestor nxt n k of None \<Rightarrow> None | Some a \<Rightarrow> nxt a)"

lemma ancestor_add: "ancestor nxt (m + n) k = (case ancestor nxt m k of None \<Rightarrow> None | Some a \<Rightarrow> ancestor nxt n a)"
  by (induction n) (auto split: option.splits)

lemma ancestor_None_mono: "ancestor nxt m k = None \<Longrightarrow> m \<le> n \<Longrightarrow> ancestor nxt n k = None"
  using ancestor_add[of nxt m "n - m" k] by simp

text \<open>A repeated row repeats for ever.\<close>

lemma ancestor_loop:
  assumes "ancestor nxt i k = ancestor nxt (i + p) k"
  shows "ancestor nxt (i + m) k = ancestor nxt (i + m + q * p) k"
proof (induction q)
  case (Suc q)
  have "ancestor nxt (i + (m + q * p)) k = ancestor nxt ((i + p) + (m + q * p)) k"
    using assms ancestor_add[of nxt i "m + q * p" k] ancestor_add[of nxt "i + p" "m + q * p" k] by simp
  then show ?case using Suc by (simp add: algebra_simps)
qed simp

lemma ancestor_repeats:
  assumes "finite (dom nxt)" and "\<And>n. ancestor nxt n k \<noteq> None"
  obtains n where "0 < n" "ancestor nxt n k = ancestor nxt (2 * n) k"
proof -
  have "ancestor nxt n k \<in> Some ` dom nxt" for n
    using assms(2)[of n] assms(2)[of "Suc n"] by (auto split: option.splits)
  then have "finite (range (\<lambda>n. ancestor nxt n k))"
    by (intro finite_subset[OF _ finite_imageI[OF assms(1), of Some]]) auto
  then have "\<not> inj (\<lambda>n. ancestor nxt n k)" using finite_imageD infinite_UNIV_nat by blast
  then obtain i j where ij: "i < j" "ancestor nxt i k = ancestor nxt j k"
    by (auto simp: inj_def) (metis linorder_neqE_nat)
  define p where "p = j - i"
  have p: "0 < p" "ancestor nxt i k = ancestor nxt (i + p) k" using ij by (auto simp: p_def)
  let ?n = "Suc i * p"
  have "i \<le> ?n" using p(1) by (cases p) auto
  then have "ancestor nxt ?n k = ancestor nxt (?n + Suc i * p) k"
    using ancestor_loop[OF p(2), of "?n - i" "Suc i"] by simp
  then have "ancestor nxt ?n k = ancestor nxt (2 * ?n) k" by (simp only: mult_2)
  then show thesis using that[of ?n] p(1) by simp
qed

lemma ownerChain_unfold:
  assumes "ancestor nxt n k = Some slow" and "ancestor nxt (2 * n) k = Some fast"
  shows "ownerChain nxt slow fast =
     (if ancestor nxt (2 * Suc n) k = None then Some (Inr ())
      else if ancestor nxt (Suc n) k = ancestor nxt (2 * Suc n) k then Some (Inl (ErrRelationInvariant ''ownership cycle''))
      else ownerChain nxt (the (ancestor nxt (Suc n) k)) (the (ancestor nxt (2 * Suc n) k)))"
proof -
  have s: "ancestor nxt (Suc n) k = nxt slow" using assms(1) by simp
  have f: "ancestor nxt (2 * Suc n) k = (case nxt fast of None \<Rightarrow> None | Some x \<Rightarrow> nxt x)" using assms(2) by simp
  have "nxt slow = None \<Longrightarrow> ancestor nxt (2 * Suc n) k = None"
    using ancestor_None_mono[of nxt "Suc n" k "2 * Suc n"] s by simp
  then show ?thesis unfolding s f by (subst ownerChain.simps) (auto split: option.splits)
qed

lemma ownerChain_ends:
  assumes "ancestor nxt N k = None"
  shows "ancestor nxt n k = Some slow \<Longrightarrow> ancestor nxt (2 * n) k = Some fast \<Longrightarrow> ownerChain nxt slow fast = Some (Inr ())"
proof (induction "N - n" arbitrary: n slow fast rule: less_induct)
  case less
  have "\<not> N \<le> n" using ancestor_None_mono[OF assms, of n] less.prems(1) by auto
  show ?case
  proof (cases "ancestor nxt (2 * Suc n) k")
    case None
    then show ?thesis by (simp only: ownerChain_unfold[OF less.prems]) simp
  next
    case (Some fast')
    obtain slow' where slow': "ancestor nxt (Suc n) k = Some slow'"
      using ancestor_None_mono[of nxt "Suc n" k "2 * Suc n"] Some by (cases "ancestor nxt (Suc n) k") auto
    have "slow' \<noteq> fast'"
    proof
      assume "slow' = fast'"
      then have "ancestor nxt (Suc n) k = ancestor nxt (Suc n + Suc n) k" using Some slow' by (simp add: mult_2)
      from ancestor_loop[OF this, of 0 N]
      have "ancestor nxt (Suc n + N * Suc n) k = Some slow'" using slow' by simp
      moreover have "N \<le> Suc n + N * Suc n" by simp
      ultimately show False using ancestor_None_mono[OF assms] by (metis option.distinct(1))
    qed
    then have "ownerChain nxt slow fast = ownerChain nxt slow' fast'"
      by (simp only: ownerChain_unfold[OF less.prems] Some slow') simp
    then show ?thesis using less.hyps[OF _ slow' Some] \<open>\<not> N \<le> n\<close> by simp
  qed
qed

lemma ownerChain_meets:
  assumes "\<And>n. ancestor nxt n k \<noteq> None" and "0 < M" "ancestor nxt M k = ancestor nxt (2 * M) k"
  shows "n < M \<Longrightarrow> ancestor nxt n k = Some slow \<Longrightarrow> ancestor nxt (2 * n) k = Some fast \<Longrightarrow>
    ownerChain nxt slow fast = Some (Inl (ErrRelationInvariant ''ownership cycle''))"
proof (induction "M - n" arbitrary: n slow fast rule: less_induct)
  case less
  obtain slow' fast' where next_rows: "ancestor nxt (Suc n) k = Some slow'" "ancestor nxt (2 * Suc n) k = Some fast'"
    using assms(1) by blast
  show ?case
  proof (cases "slow' = fast'")
    case True
    then show ?thesis by (simp only: ownerChain_unfold[OF less.prems(2,3)] next_rows) simp
  next
    case False
    then have "Suc n \<noteq> M" using assms(3) next_rows by auto
    then have "Suc n < M" using less.prems(1) by simp
    moreover have "ownerChain nxt slow fast = ownerChain nxt slow' fast'"
      using False by (simp only: ownerChain_unfold[OF less.prems(2,3)] next_rows) simp
    ultimately show ?thesis using less.hyps[OF _ _ next_rows] less.prems(1) by simp
  qed
qed

lemma owner_chain:
  assumes "finite (dom nxt)"
  shows "validateOwnerChain nxt k =
    Some (if \<exists>n. ancestor nxt n k = None then Inr () else Inl (ErrRelationInvariant ''ownership cycle''))"
proof (cases "\<exists>n. ancestor nxt n k = None")
  case True
  then obtain N where "ancestor nxt N k = None" by blast
  then show ?thesis using ownerChain_ends[of nxt N k 0 k k] True by (simp add: validateOwnerChain_def)
next
  case False
  then obtain M where "0 < M" "ancestor nxt M k = ancestor nxt (2 * M) k"
    using ancestor_repeats[OF assms, of k] by metis
  then show ?thesis using ownerChain_meets[of nxt k M 0 k k] False by (simp add: validateOwnerChain_def)
qed

section \<open>Chains and cycles\<close>

definition ownerRel :: "('k \<Rightarrow> 'k option) \<Rightarrow> ('k \<times> 'k) set" where
  "ownerRel nxt = {(c, w). nxt c = Some w}"

lemma ancestor_in: "ancestor nxt n k = Some a \<Longrightarrow> (k, a) \<in> (ownerRel nxt)\<^sup>*"
proof (induction n arbitrary: a)
  case (Suc n)
  then obtain b where "ancestor nxt n k = Some b" "nxt b = Some a" by (auto split: option.splits)
  then show ?case using Suc.IH by (auto simp: ownerRel_def intro: rtrancl_into_rtrancl)
qed simp

lemma in_ancestor: "(k, a) \<in> (ownerRel nxt)\<^sup>* \<Longrightarrow> \<exists>n. ancestor nxt n k = Some a"
proof (induction rule: rtrancl_induct)
  case base
  have "ancestor nxt 0 k = Some k" by simp
  then show ?case by blast
next
  case (step a b)
  then obtain n where "ancestor nxt n k = Some a" by blast
  then have "ancestor nxt (Suc n) k = Some b" using step.hyps by (simp add: ownerRel_def)
  then show ?case by blast
qed

lemma on_cycle_endless:
  assumes "(k, k) \<in> (ownerRel nxt)\<^sup>+"
  shows "ancestor nxt n k \<noteq> None"
proof
  assume none: "ancestor nxt n k = None"
  from assms obtain a where a: "nxt k = Some a" "(a, k) \<in> (ownerRel nxt)\<^sup>*"
    by (auto simp: ownerRel_def dest: tranclD)
  from in_ancestor[OF a(2)] obtain m where m: "ancestor nxt m a = Some k" by blast
  have "ancestor nxt (Suc m) k = Some k" using ancestor_add[of nxt 1 m k] a(1) m by simp
  then have "ancestor nxt (n * Suc m) k = Some k" using ancestor_loop[of nxt 0 k "Suc m" 0 n] by simp
  moreover have "n \<le> n * Suc m" by simp
  ultimately show False using ancestor_None_mono[OF none] by (metis option.distinct(1))
qed

lemma acyclic_chain_ends:
  assumes "finite (dom effectiveOwner)" and "acyclic (ownerRel effectiveOwner)"
  shows "\<exists>n. ancestor effectiveOwner n k = None"
proof (rule ccontr)
  assume "\<nexists>n. ancestor effectiveOwner n k = None"
  then have all: "ancestor effectiveOwner n k \<noteq> None" for n by simp
  obtain n where "0 < n" "ancestor effectiveOwner n k = ancestor effectiveOwner (2 * n) k"
    by (rule ancestor_repeats[OF assms(1) all])
  then have n: "0 < n" "ancestor effectiveOwner n k = ancestor effectiveOwner (n + n) k" by (simp_all only: mult_2)
  obtain a where a: "ancestor effectiveOwner n k = Some a" using all[of n] by auto
  have "ancestor effectiveOwner (n + n) k = ancestor effectiveOwner n a" by (simp add: ancestor_add a)
  then have "ancestor effectiveOwner n a = Some a" using n(2)[symmetric] a by (rule trans[OF trans, OF sym])
  moreover obtain m where m: "n = Suc m" using n(1) by (cases n) auto
  ultimately obtain b where "ancestor effectiveOwner m a = Some b" "effectiveOwner b = Some a"
    by (auto split: option.splits)
  then have "(a, a) \<in> (ownerRel effectiveOwner)\<^sup>+"
    using ancestor_in[of effectiveOwner m a b] by (auto simp: ownerRel_def intro: rtrancl_into_trancl1)
  then show False using assms(2) by (simp add: acyclic_def)
qed

text \<open>
  C23. The check of one owner chain always returns, on any owner map with finitely many owned
  rows, and it reports a cycle exactly when the chain from the row never reaches a row without
  owner. So when the chain of every owned row passes, ownership has no cycle at all.
\<close>

theorem owner_chain_check_decides_cycles:
  assumes "finite (dom effectiveOwner)"
  shows "validateOwnerChain effectiveOwner start =
      Some (if \<exists>n. ancestor effectiveOwner n start = None then Inr ()
            else Inl (ErrRelationInvariant ''ownership cycle'')) \<and>
    ((\<forall>k. effectiveOwner k \<noteq> None \<longrightarrow> validateOwnerChain effectiveOwner k = Some (Inr ())) \<longleftrightarrow>
       acyclic (ownerRel effectiveOwner))"
proof (intro conjI iffI)
  show "validateOwnerChain effectiveOwner start =
      Some (if \<exists>n. ancestor effectiveOwner n start = None then Inr ()
            else Inl (ErrRelationInvariant ''ownership cycle''))" by (rule owner_chain[OF assms])
next
  assume ok: "\<forall>k. effectiveOwner k \<noteq> None \<longrightarrow> validateOwnerChain effectiveOwner k = Some (Inr ())"
  show "acyclic (ownerRel effectiveOwner)" unfolding acyclic_def
  proof (intro allI notI)
    fix k assume c: "(k, k) \<in> (ownerRel effectiveOwner)\<^sup>+"
    then have "effectiveOwner k \<noteq> None" by (auto simp: ownerRel_def dest: tranclD)
    then have "\<exists>n. ancestor effectiveOwner n k = None" using ok owner_chain[OF assms, of k] by (auto split: if_splits)
    then show False using on_cycle_endless[OF c] by blast
  qed
next
  assume acyc: "acyclic (ownerRel effectiveOwner)"
  have "\<exists>n. ancestor effectiveOwner n k = None" for k by (rule acyclic_chain_ends[OF assms acyc])
  then show "\<forall>k. effectiveOwner k \<noteq> None \<longrightarrow> validateOwnerChain effectiveOwner k = Some (Inr ())"
    using owner_chain[OF assms] by auto
qed

theorem owner_chain_check_decides_cycles_witness:
  "validateOwnerChain ((\<lambda>_. None)(1 := Some 2, 2 := Some (3 :: nat))) 1 = Some (Inr ()) \<and>
   validateOwnerChain ((\<lambda>_. None)(1 := Some 2, 2 := Some (3 :: nat), 3 := Some 2)) 1 \<noteq> Some (Inr ())"
proof
  let ?up = "(\<lambda>_. None)(1 := Some 2, 2 := Some (3 :: nat))"
  have "ancestor ?up 3 1 = None" by (simp add: numeral_3_eq_3)
  then show "validateOwnerChain ?up 1 = Some (Inr ())"
    using owner_chain_check_decides_cycles[of ?up 1] by auto
  let ?loop = "(\<lambda>_. None)(1 := Some 2, 2 := Some (3 :: nat), 3 := Some 2)"
  have "ancestor ?loop (Suc n) 1 \<in> {Some 2, Some 3}" for n by (induction n) auto
  then have "ancestor ?loop n 1 \<noteq> None" for n by (cases n) (auto simp del: ancestor.simps(2))
  then show "validateOwnerChain ?loop 1 \<noteq> Some (Inr ())"
    using owner_chain_check_decides_cycles[of ?loop 1] by auto
qed

end
