(* ===== verification/Ownership.thy ===== *)
theory Ownership
  imports Entity_Graph
begin

text \<open>
  The ownership forest of a relation model and what the package does with it: which models
  \<open>buildRelationModel\<close> accepts, the closure of a deletion with its vetoes, the required
  relations of the rows that stay, and the committed forest that transactions copy and lock
  branches of (\<open>committedOwnershipRoot\<close>, \<open>committedOwnershipKeys\<close>).
\<close>

section \<open>Ownership as a relation\<close>

definition owns :: "resolvedRelation list \<Rightarrow> (nodeKey \<times> nodeKey) set" where
  "owns rs = {(w, c). w \<in> set (ownHolders rs c) \<or> w \<in> set (backTargets rs c)}"

text \<open>What the schema and Go's types guarantee of the rows of a graph.\<close>

definition typed_graph :: "typeEnv \<Rightarrow> 'p heap \<Rightarrow> 'p nodes \<Rightarrow> bool" where
  "typed_graph env h nodes \<longleftrightarrow>
     distinct (map fst nodes) \<and>
     (\<forall>n \<in> set nodes. \<forall>specs. relationSpecs env (nk_type (fst n)) = Inr specs \<longrightarrow>
        countRelationKind specs OwnedByRelation \<le> 1 \<and>
        (\<forall>s \<in> set specs. \<not> many s \<longrightarrow> (\<exists>p. pointers (h (snd n)) (fieldIndex s) = Pointer p)))"

lemma ownedby_to_one:
  assumes "relationSpecs env t = Inr specs" "s \<in> set specs" "kind s = OwnedByRelation"
  shows "\<not> many s"
proof -
  have parsed: "\<not> many r" if "parseRelationField env t i = Inr (Some r)" "kind r = OwnedByRelation" for i r
    using that by (auto simp: parseRelationField_def Let_def split: option.splits if_splits)
  have "\<forall>s \<in> set out'. kind s = OwnedByRelation \<longrightarrow> \<not> many s"
    if "fold_result (\<lambda>out i. bind_result (parseRelationField env t i)
        (\<lambda>r. Inr (case r of None \<Rightarrow> out | Some s \<Rightarrow> out @ [s]))) is out = Inr out'"
      "\<forall>s \<in> set out. kind s = OwnedByRelation \<longrightarrow> \<not> many s" for "is" out out'
    using that
  proof (induction "is" arbitrary: out)
    case (Cons i "is")
    then obtain r where r: "parseRelationField env t i = Inr r" by (cases "parseRelationField env t i") auto
    show ?case
      by (rule Cons.IH[of "case r of None \<Rightarrow> out | Some s \<Rightarrow> out @ [s]"])
        (use Cons.prems r parsed[of i] in \<open>auto split: option.splits\<close>)
  qed simp
  then show ?thesis using assms unfolding relationSpecs_def by (auto split: option.splits)
qed

lemma concat_holders:
  "ownHolders (concat rss) c = concat (map (\<lambda>rs. ownHolders rs c) rss)"
  "backTargets (concat rss) c = concat (map (\<lambda>rs. backTargets rs c) rss)"
  by (induction rss) simp_all

lemma backTargets_field:
  assumes "\<not> many s \<longrightarrow> (\<exists>p. pointers (h (snd n)) (fieldIndex s) = Pointer p)" "kind s = OwnedByRelation \<longrightarrow> \<not> many s"
  shows "length (backTargets (fieldRefs h T n s) c) \<le> (if kind s = OwnedByRelation \<and> fst n = c then 1 else 0)"
proof (cases "kind s = OwnedByRelation \<and> fst n = c")
  case True
  then obtain p where "fieldPointers h (snd n) s = [p]" using assms by (auto simp: fieldPointers_def)
  then have "length (fieldTargets h T (snd n) s) \<le> 1"
    by (auto simp: fieldTargets_def map_filter_simps split: sum.splits option.splits)
  then have "length (fieldRefs h T n s) \<le> 1" by (simp add: fieldRefs_def)
  moreover have "length (backTargets rs c) \<le> length rs" for rs by (simp add: backTargets_def)
  ultimately show ?thesis using True order_trans by fastforce
next
  case False
  then have "backTargets (fieldRefs h T n s) c = []" by (auto simp: backTargets_def fieldRefs_def filter_empty_conv)
  then show ?thesis by simp
qed

lemma backTargets_node:
  assumes "typed_graph env h nodes" "n \<in> set nodes"
  shows "length (backTargets (nodeRefs env h T n) c) \<le> (if fst n = c then 1 else 0)"
proof (cases "relationSpecs env (nk_type (fst n))")
  case (Inl e)
  then show ?thesis by (simp add: nodeRefs_def)
next
  case (Inr specs)
  have field: "length (backTargets (fieldRefs h T n s) c) \<le> (if kind s = OwnedByRelation \<and> fst n = c then 1 else 0)"
    if "s \<in> set specs" for s
    using assms that Inr ownedby_to_one[OF Inr that] by (intro backTargets_field) (auto simp: typed_graph_def)
  have "length (backTargets (concat (map (fieldRefs h T n) (filter (\<lambda>s. kind s \<noteq> InverseRelation) ss))) c)
      \<le> (if fst n = c then countRelationKind ss OwnedByRelation else 0)" if "set ss \<subseteq> set specs" for ss
    using that
  proof (induction ss)
    case (Cons s ss)
    then show ?case using field[of s] by (auto simp: countRelationKind_def split: if_splits)
  qed simp
  from this[of specs] show ?thesis
    using assms Inr by (fastforce simp: nodeRefs_def typed_graph_def split: if_splits)
qed

lemma backTargets_graph:
  assumes "typed_graph env h nodes"
  shows "length (backTargets (graphRefs env h T nodes) c) \<le> 1"
proof -
  have "length (backTargets (graphRefs env h T ns) c) \<le> (if c \<in> fst ` set ns then 1 else 0)"
    if "set ns \<subseteq> set nodes" "distinct (map fst ns)" for ns
    using that
  proof (induction ns)
    case Nil
    then show ?case by (simp add: graphRefs_def)
  next
    case (Cons n ns)
    have "length (backTargets (nodeRefs env h T n) c) \<le> (if fst n = c then 1 else 0)"
      using Cons.prems by (intro backTargets_node[OF assms]) auto
    moreover have "length (backTargets (graphRefs env h T ns) c) \<le> (if c \<in> fst ` set ns then 1 else 0)"
      using Cons by simp
    moreover have "fst n \<notin> fst ` set ns" using Cons.prems by simp
    ultimately show ?case by (auto simp: graphRefs_def split: if_splits)
  qed
  from this[of nodes] show ?thesis using assms by (auto simp: typed_graph_def split: if_splits)
qed

lemma agrees_conv:
  assumes "length (ownHolders rs c) \<le> 1" "length (backTargets rs c) \<le> 1"
  shows "owner_agrees rs c \<longleftrightarrow> (\<forall>w w'. (w, c) \<in> owns rs \<longrightarrow> (w', c) \<in> owns rs \<longrightarrow> w = w')"
    and "ownerOf rs c = Some w \<Longrightarrow> (w, c) \<in> owns rs"
    and "owner_agrees rs c \<Longrightarrow> (w, c) \<in> owns rs \<Longrightarrow> ownerOf rs c = Some w"
proof -
  consider "ownHolders rs c = []" | h where "ownHolders rs c = [h]"
    using assms(1) by (cases "ownHolders rs c") auto
  note hs = this
  consider "backTargets rs c = []" | b where "backTargets rs c = [b]"
    using assms(2) by (cases "backTargets rs c") auto
  note bs = this
  show "owner_agrees rs c \<longleftrightarrow> (\<forall>w w'. (w, c) \<in> owns rs \<longrightarrow> (w', c) \<in> owns rs \<longrightarrow> w = w')"
    by (cases rule: hs; cases rule: bs) (auto simp: owner_agrees_def owns_def)
  show "ownerOf rs c = Some w \<Longrightarrow> (w, c) \<in> owns rs"
    by (cases rule: hs; cases rule: bs) (auto simp: ownerOf_def owns_def)
  show "owner_agrees rs c \<Longrightarrow> (w, c) \<in> owns rs \<Longrightarrow> ownerOf rs c = Some w"
    by (cases rule: hs; cases rule: bs) (auto simp: ownerOf_def owns_def owner_agrees_def)
qed

section \<open>Indexed targets are nodes\<close>

definition targets_in :: "targetIndex \<Rightarrow> nodeKey set \<Rightarrow> bool" where
  "targets_in T K \<longleftrightarrow> (\<forall>t \<in> ran T. fst t \<in> K)"

lemma targets_in_upd: "targets_in T K \<Longrightarrow> fst v \<in> K \<Longrightarrow> targets_in (T(k \<mapsto> v)) K"
  unfolding targets_in_def ran_def by (force split: if_splits)

lemma targets_inD: "targets_in T K \<Longrightarrow> T k = Some v \<Longrightarrow> fst v \<in> K"
  by (auto simp: targets_in_def intro: ranI)

lemma targets_in_fold:
  "(\<And>T x. x \<in> set xs \<Longrightarrow> targets_in T K \<Longrightarrow> targets_in (f T x) K) \<Longrightarrow> targets_in T K \<Longrightarrow> targets_in (foldl f T xs) K"
  by (induction xs arbitrary: T) auto

lemma targets_are_nodes: "targets_in (buildRelationTargetIndexFromFields h nodes tfs) (fst ` set nodes)"
proof -
  have one: "targets_in (indexRelationNodeTarget h node T f) K" if "targets_in T K" "fst node \<in> K" for node T f K
  proof (cases "relationKey h (Some (snd node)) f")
    case None
    then show ?thesis using that by (simp add: indexRelationNodeTarget_def)
  next
    case (Some v)
    then show ?thesis using that
      by (auto simp: indexRelationNodeTarget_def Let_def intro!: targets_in_upd split: option.split dest: targets_inD)
  qed
  show ?thesis
    unfolding buildRelationTargetIndexFromFields_def indexRelationNodeTargets_def
    by (intro targets_in_fold one) (auto simp: targets_in_def)
qed

lemma refs_are_nodes:
  assumes "r \<in> set (graphRefs env h T nodes)"
  shows "rr_holder r \<in> fst ` set nodes" and "targets_in T K \<Longrightarrow> rr_target r \<in> K"
proof -
  obtain n specs s where n: "n \<in> set nodes" "r \<in> set (fieldRefs h T n s)"
    using assms(1) by (auto simp: graphRefs_def nodeRefs_def split: sum.splits)
  then show "rr_holder r \<in> fst ` set nodes" by (auto simp: fieldRefs_def)
  assume T: "targets_in T K"
  have "rr_target r \<in> set (fieldTargets h T (snd n) s)" using n(2) by (auto simp: fieldRefs_def)
  then obtain p where "(case resolveGraphTarget h T s p of Inl _ \<Rightarrow> None | Inr t \<Rightarrow> t) = Some (rr_target r)"
    unfolding fieldTargets_def in_map_filter by blast
  then have "resolveGraphTarget h T s p = Inr (Some (rr_target r))"
    by (cases "resolveGraphTarget h T s p") auto
  then obtain k where "T k = Some (rr_target r, False)"
    by (auto simp: resolveGraphTarget_def split: option.splits if_splits)
  then show "rr_target r \<in> K" using targets_inD[OF T] by fastforce
qed

lemma owns_conv:
  "(w, c) \<in> owns rs \<longleftrightarrow> (\<exists>r \<in> set rs. (kind (rr_spec r) = OwnRelation \<and> rr_holder r = w \<and> rr_target r = c) \<or>
     (kind (rr_spec r) = OwnedByRelation \<and> rr_holder r = c \<and> rr_target r = w))"
  by (auto simp: owns_def ownHolders_def backTargets_def)

lemma owns_nodes:
  assumes "(w, c) \<in> owns (graphRefs env h (buildRelationTargetIndexFromFields h nodes tfs) nodes)"
  shows "w \<in> fst ` set nodes" "c \<in> fst ` set nodes"
  using assms refs_are_nodes(1) refs_are_nodes(2)[OF _ targets_are_nodes] unfolding owns_conv by metis+

section \<open>Accepted models are forests\<close>

lemma model_conv:
  assumes "typed_graph env h nodes" and "relationTargetFields env nodes = Inr tfs"
    and "T = buildRelationTargetIndexFromFields h nodes tfs" and "scanRelations env h nodes T tfs = Inr st"
    and "rs = graphRefs env h T nodes"
  shows "((\<exists>m. buildRelationModel env h nodes = Inr m) \<longleftrightarrow>
      (\<forall>c. length (ownHolders rs c) \<le> 1) \<and> single_valued ((owns rs)\<inverse>) \<and> acyclic (owns rs)) \<and>
    (\<forall>m. buildRelationModel env h nodes = Inr m \<longrightarrow>
      refs m = rs \<and> ownerEdges (owners m) = (owns rs)\<inverse> \<and>
      (\<forall>w. case_option [] id (map_of (outgoing m) w) = filter (\<lambda>c. (w, c) \<in> owns rs) (map fst nodes)))"
proof -
  let ?keys = "map fst nodes"
  define ini where "ini = \<lparr>scanned = emptyModel nodes T tfs, incoming = noIncoming, ownedBy = (\<lambda>_. None)\<rparr>"
  have "scan_ok ini" by (simp add: scan_ok_def ini_def emptyModel_def noIncoming_def)
  from scan_nodes[OF assms(4)[unfolded scanRelations_def, folded ini_def] this]
  have st: "scan_ok st" "refs (scanned st) = rs" "owners (scanned st) = []" "outgoing (scanned st) = []"
    using assms(5) by (auto simp: same_frame_def ini_def emptyModel_def)
  have few: "length (backTargets rs c) \<le> 1" for c
    using backTargets_graph[OF assms(1)] by (simp add: assms(5))
  have keys: "w \<in> set ?keys" "c \<in> set ?keys" if "(w, c) \<in> owns rs" for w c
    using owns_nodes[of w c env h nodes tfs] that assms(3,5) by auto
  have none: "ownHolders rs c = []" if "c \<notin> set ?keys" for c
  proof -
    have "(hd (ownHolders rs c), c) \<in> owns rs" if "ownHolders rs c \<noteq> []" using that by (simp add: owns_def)
    then show ?thesis using keys(2) that by blast
  qed
  have build: "buildRelationModel env h nodes =
      bind_result (fold_result (attachNodeOwner (incoming st) (ownedBy st)) ?keys (scanned st))
        (\<lambda>m. bind_result (validateOwnershipCycles ?keys (owners m)) (\<lambda>_. Inr m))"
    using assms(2,4) by (simp add: buildRelationModel_def buildRelationModelFromTargets_def assms(3)[symmetric])
  show ?thesis
  proof (cases "\<forall>c \<in> set ?keys. owner_agrees rs c")
    case False
    then obtain c where c: "c \<in> set ?keys" "\<not> owner_agrees rs c" by blast
    have "\<not> ((\<forall>c. length (ownHolders rs c) \<le> 1) \<and> single_valued ((owns rs)\<inverse>))"
    proof
      assume a: "(\<forall>c. length (ownHolders rs c) \<le> 1) \<and> single_valued ((owns rs)\<inverse>)"
      then have "owner_agrees rs c"
        unfolding agrees_conv(1)[OF a[THEN conjunct1, rule_format] few] by (auto simp: single_valued_def)
      then show False using c(2) by blast
    qed
    moreover have "\<nexists>m. buildRelationModel env h nodes = Inr m"
      using attach_nodes[OF st(1), of ?keys "scanned st"] False unfolding build st(2) by (auto split: if_splits)
    ultimately show ?thesis by blast
  next
    case True
    then have one: "length (ownHolders rs c) \<le> 1" for c
      using none[of c] by (cases "c \<in> set ?keys") (auto simp: owner_agrees_def)
    have agrees: "owner_agrees rs c" for c
      using True none[of c] by (cases "c \<in> set ?keys") (auto simp: owner_agrees_def)
    have own: "ownerOf rs c = Some w \<longleftrightarrow> (w, c) \<in> owns rs" for w c
      using agrees_conv(2,3)[OF one few] agrees by blast
    have sv: "single_valued ((owns rs)\<inverse>)"
      using agrees_conv(1)[OF one few] agrees by (auto simp: single_valued_def)
    obtain m where m: "fold_result (attachNodeOwner (incoming st) (ownedBy st)) ?keys (scanned st) = Inr m"
      "attached rs ?keys (scanned st) m"
      using attach_nodes[OF st(1), of ?keys "scanned st"] True unfolding st(2) by auto
    have "map_of (owners m) c = ownerOf rs c" for c
      using m(2) own keys(2) by (cases "ownerOf rs c") (auto simp: attached_def st(3))
    then have edges: "ownerEdges (owners m) = (owns rs)\<inverse>" by (auto simp: ownerEdges_def own)
    have "fst ` set (owners m) \<subseteq> set ?keys"
    proof
      fix c assume "c \<in> fst ` set (owners m)"
      then obtain w where "map_of (owners m) c = Some w" by (metis map_of_eq_None_iff not_None_eq)
      then have "(w, c) \<in> owns rs" using edges by (auto simp: ownerEdges_def)
      then show "c \<in> set ?keys" by (rule keys(2))
    qed
    from validateOwnershipCycles_conv[OF this]
    have "validateOwnershipCycles ?keys (owners m) = Inr () \<longleftrightarrow> acyclic (owns rs)" by (simp add: edges acyclic_converse)
    then have res: "buildRelationModel env h nodes = Inr m' \<longleftrightarrow> acyclic (owns rs) \<and> m' = m" for m'
      unfolding build m(1) by (cases "validateOwnershipCycles ?keys (owners m)") auto
    have "case_option [] id (map_of (outgoing m) w) = filter (\<lambda>c. (w, c) \<in> owns rs) ?keys" for w
      using m(2) by (simp add: attached_def st(4) own)
    moreover have "refs m = rs" using m(2) st(2) by (simp add: attached_def)
    ultimately show ?thesis using res edges one sv by auto
  qed
qed

section \<open>Deletion\<close>

definition childList :: "(nodeKey \<times> nodeKey list) list \<Rightarrow> nodeKey \<Rightarrow> nodeKey list" where
  "childList out w = (case map_of out w of None \<Rightarrow> [] | Some cs \<Rightarrow> cs)"

text \<open>
  The children a deletion cascades to: the model's, then the committed ones that still exist
  and were not moved to another owner. \<open>committed\<close> is the published \<open>outgoing\<close> map.
\<close>

definition deletionChildren :: "'p relationModel \<Rightarrow> (nodeKey \<times> nodeKey list) list \<Rightarrow> nodeKey \<Rightarrow> nodeKey list" where
  "deletionChildren m committed w =
     foldl (\<lambda>cs c. if map_of (rm_nodes m) c = None then cs
                   else if (case map_of (owners m) c of None \<Rightarrow> False | Some proposed \<Rightarrow> proposed \<noteq> w) then cs
                   else if c \<in> set cs then cs else cs @ [c])
       (childList (outgoing m) w) (childList committed w)"

definition enqueue :: "nodeKey list \<times> nodeKey list \<Rightarrow> nodeKey \<Rightarrow> nodeKey list \<times> nodeKey list" where
  "enqueue dq c = (if c \<in> set (fst dq) then dq else (fst dq @ [c], snd dq @ [c]))"

definition allChildren :: "'p relationModel \<Rightarrow> (nodeKey \<times> nodeKey list) list \<Rightarrow> nodeKey set" where
  "allChildren m committed = \<Union> (set ` snd ` (set (outgoing m) \<union> set committed))"

lemma finite_allChildren [simp]: "finite (allChildren m committed)"
  by (simp add: allChildren_def)

lemma childList_in: "c \<in> set (childList out w) \<Longrightarrow> c \<in> \<Union> (set ` snd ` set out)"
proof -
  assume c: "c \<in> set (childList out w)"
  show ?thesis
  proof (cases "map_of out w")
    case None
    then show ?thesis using c by (simp add: childList_def)
  next
    case (Some cs)
    then show ?thesis using c by (force simp: childList_def dest: map_of_SomeD)
  qed
qed

lemma foldl_keep:
  "(\<And>cs c. set (f cs c) = set cs \<union> (if P c then {c} else {})) \<Longrightarrow> set (foldl f cs ds) = set cs \<union> {c \<in> set ds. P c}"
  by (induction ds arbitrary: cs) auto

lemma deletionChildren_set:
  "set (deletionChildren m committed w) = set (childList (outgoing m) w) \<union>
     {c \<in> set (childList committed w). map_of (rm_nodes m) c \<noteq> None \<and>
        (\<forall>p. map_of (owners m) c = Some p \<longrightarrow> p = w)}"
proof -
  let ?keep = "\<lambda>c. map_of (rm_nodes m) c \<noteq> None \<and> (\<forall>p. map_of (owners m) c = Some p \<longrightarrow> p = w)"
  have one: "set (if map_of (rm_nodes m) c = None then cs
        else if (case map_of (owners m) c of None \<Rightarrow> False | Some proposed \<Rightarrow> proposed \<noteq> w) then cs
        else if c \<in> set cs then cs else cs @ [c]) = set cs \<union> (if ?keep c then {c} else {})" for cs c
    by (cases "map_of (owners m) c"; cases "map_of (rm_nodes m) c"; simp add: insert_absorb)
  show ?thesis unfolding deletionChildren_def by (rule foldl_keep) (rule one)
qed

lemma deletionChildren_in: "set (deletionChildren m committed w) \<subseteq> allChildren m committed"
  using childList_in by (fastforce simp: deletionChildren_set allChildren_def)

lemma enqueue_all:
  "\<exists>new. foldl enqueue (dead, queue) cs = (dead @ new, queue @ new) \<and> set new = set cs - set dead \<and> distinct new"
proof (induction cs arbitrary: dead queue)
  case Nil
  then show ?case by simp
next
  case (Cons c cs)
  show ?case
  proof (cases "c \<in> set dead")
    case True
    then have "set (c # cs) - set dead = set cs - set dead" by auto
    then show ?thesis using Cons.IH[of dead queue] True by (simp add: enqueue_def)
  next
    case False
    obtain new where "foldl enqueue (dead @ [c], queue @ [c]) cs = ((dead @ [c]) @ new, (queue @ [c]) @ new)"
      "set new = set cs - set (dead @ [c])" "distinct new"
      using Cons.IH by blast
    moreover from this have "set (c # new) = set (c # cs) - set dead" "distinct (c # new)" using False by auto
    moreover have "enqueue (dead, queue) c = (dead @ [c], queue @ [c])" using False by (simp add: enqueue_def)
    ultimately show ?thesis by (intro exI[of _ "c # new"]) simp
  qed
qed

function deletionLoop ::
  "'p relationModel \<Rightarrow> (nodeKey \<times> nodeKey list) list \<Rightarrow> nodeKey list \<Rightarrow> nodeKey list \<Rightarrow> nodeKey list" where
  "deletionLoop m committed dead [] = dead"
| "deletionLoop m committed dead (w # queue) =
     (let dq = foldl enqueue (dead, queue) (deletionChildren m committed w) in
      deletionLoop m committed (fst dq) (snd dq))"
  by pat_completeness auto

termination
proof (relation "measures [\<lambda>(m, committed, dead, queue). card (allChildren m committed - set dead),
    \<lambda>(m, committed, dead, queue). length queue]", goal_cases)
  case 1
  then show ?case by simp
next
  case (2 m committed dead w queue dq)
  obtain new where new: "dq = (dead @ new, queue @ new)" "set new = set (deletionChildren m committed w) - set dead"
    using enqueue_all 2 by metis
  show ?case
  proof (cases "new = []")
    case True
    then show ?thesis using new by simp
  next
    case False
    have "set new \<subseteq> allChildren m committed - set dead" using new(2) deletionChildren_in by fastforce
    then have "allChildren m committed - set (dead @ new) \<subset> allChildren m committed - set dead"
      using False by (cases new) auto
    then have "card (allChildren m committed - set (dead @ new)) < card (allChildren m committed - set dead)"
      by (intro psubset_card_mono) auto
    then show ?thesis using new(1) by simp
  qed
qed

text \<open>The veto: a surviving borrow or to-one own of a row that dies.\<close>

definition restrictRef :: "nodeKey list \<Rightarrow> resolvedRelation \<Rightarrow> unit result" where
  "restrictRef dead r =
     (if rr_holder r \<in> set dead \<or> rr_target r \<notin> set dead then Inr ()
      else case kind (rr_spec r) of
        BorrowRelation \<Rightarrow> Inl (ErrDeleteRestricted ''borrows doomed'')
      | OwnRelation \<Rightarrow> if many (rr_spec r) then Inr () else Inl (ErrDeleteRestricted ''owns doomed through required to-one field'')
      | _ \<Rightarrow> Inr ())"

definition deletionClosure ::
  "'p relationModel \<Rightarrow> (nodeKey \<times> nodeKey list) list \<Rightarrow> nodeKey list \<Rightarrow> nodeKey list result" where
  "deletionClosure m committed explicit =
     bind_result
       (fold_result (\<lambda>_ k. if map_of (rm_nodes m) k = None then Inl (ErrRelationInvariant ''cannot delete missing'') else Inr ())
          explicit ())
       (\<lambda>_. let dead = deletionLoop m committed explicit explicit in
          bind_result (fold_result (\<lambda>_ r. restrictRef dead r) (refs m) ()) (\<lambda>_. Inr dead))"

definition validateRequiredRelations :: "'p relationModel \<Rightarrow> nodeKey list \<Rightarrow> unit result" where
  "validateRequiredRelations m dead =
     fold_result (\<lambda>_ q. if fst q \<in> set dead then Inr ()
                        else Inl (ErrRelationInvariant ''required relation is nil or has no live target''))
       (missing m) ()"

definition childRel :: "'p relationModel \<Rightarrow> (nodeKey \<times> nodeKey list) list \<Rightarrow> (nodeKey \<times> nodeKey) set" where
  "childRel m committed = {(w, c). c \<in> set (deletionChildren m committed w)}"

lemma deletionLoop_set:
  "set queue \<subseteq> set dead \<Longrightarrow> childRel m committed `` (set dead - set queue) \<subseteq> set dead \<Longrightarrow>
   set (deletionLoop m committed dead queue) = (childRel m committed)\<^sup>* `` set dead"
proof (induction m committed dead queue rule: deletionLoop.induct)
  case (1 m committed dead)
  then have "childRel m committed `` set dead \<subseteq> set dead" by simp
  from Image_closed_trancl[OF this] show ?case by simp
next
  case (2 m committed dead w queue)
  let ?R = "childRel m committed"
  obtain new where new: "foldl enqueue (dead, queue) (deletionChildren m committed w) = (dead @ new, queue @ new)"
    "set new = set (deletionChildren m committed w) - set dead"
    using enqueue_all by metis
  have "?R `` {w} \<subseteq> set (dead @ new)" using new(2) by (auto simp: childRel_def)
  then have "?R `` (set (dead @ new) - set (queue @ new)) \<subseteq> set (dead @ new)"
    using 2(3) by auto
  moreover have "set (queue @ new) \<subseteq> set (dead @ new)" using 2(2) by auto
  ultimately have "set (deletionLoop m committed dead (w # queue)) = ?R\<^sup>* `` set (dead @ new)"
    using 2(1)[OF refl] by (simp add: new(1))
  also have "\<dots> = ?R\<^sup>* `` set dead"
  proof -
    have "x \<in> ?R\<^sup>* `` set dead" if "x \<in> set new" for x
    proof -
      have "(w, x) \<in> ?R" "w \<in> set dead" using that new(2) 2(2) by (auto simp: childRel_def)
      then show ?thesis by blast
    qed
    then have "set (dead @ new) \<subseteq> ?R\<^sup>* `` set dead" by auto
    then have "?R\<^sup>* `` set (dead @ new) \<subseteq> ?R\<^sup>* `` (?R\<^sup>* `` set dead)" by (rule Image_mono[OF subset_refl])
    also have "\<dots> = ?R\<^sup>* `` set dead" by (simp flip: relcomp_Image)
    finally show ?thesis by auto
  qed
  finally show ?case .
qed

text \<open>The references a deletion must not leave behind.\<close>

definition vetoes :: "nodeKey set \<Rightarrow> resolvedRelation \<Rightarrow> bool" where
  "vetoes D r \<longleftrightarrow> rr_holder r \<notin> D \<and> rr_target r \<in> D \<and>
     (kind (rr_spec r) = BorrowRelation \<or> (kind (rr_spec r) = OwnRelation \<and> \<not> many (rr_spec r)))"

lemma restrictRef_conv: "restrictRef dead r = Inr () \<longleftrightarrow> \<not> vetoes (set dead) r"
  by (cases "kind (rr_spec r)") (auto simp: restrictRef_def vetoes_def)

lemma deletionClosure_conv:
  "deletionClosure m committed explicit = Inr dead \<longleftrightarrow>
     set explicit \<subseteq> dom (map_of (rm_nodes m)) \<and> dead = deletionLoop m committed explicit explicit \<and>
     (\<forall>r \<in> set (refs m). \<not> vetoes (set dead) r)"
proof -
  let ?f = "\<lambda>_ k. if map_of (rm_nodes m) k = None then Inl (ErrRelationInvariant ''cannot delete missing'') else Inr ()"
  let ?D = "deletionLoop m committed explicit explicit"
  have a: "fold_result ?f explicit () = Inr () \<longleftrightarrow> set explicit \<subseteq> dom (map_of (rm_nodes m))"
    unfolding fold_result_unit by auto
  have b: "fold_result (\<lambda>_ r. restrictRef ?D r) (refs m) () = Inr () \<longleftrightarrow> (\<forall>r \<in> set (refs m). \<not> vetoes (set ?D) r)"
    unfolding fold_result_unit restrictRef_conv ..
  show ?thesis
    unfolding deletionClosure_def Let_def
    by (cases "fold_result ?f explicit ()"; cases "fold_result (\<lambda>_ r. restrictRef ?D r) (refs m) ()")
      (use a b in auto)
qed

lemma deletionClosure_set:
  "deletionClosure m committed explicit = Inr dead \<Longrightarrow> set dead = (childRel m committed)\<^sup>* `` set explicit"
  unfolding deletionClosure_conv using deletionLoop_set[of explicit explicit m committed] by auto

text \<open>
  C15. The closure of a deletion is exact: \<open>deletionClosure\<close> succeeds if and only if every row to
  delete exists and no row that stays borrows, or owns through a to-one field, a row that the
  cascade reaches; then the rows it deletes are exactly those the cascade reaches.
\<close>

theorem deletion_closure_exact:
  "((\<exists>dead. deletionClosure m committed explicit = Inr dead) \<longleftrightarrow>
      set explicit \<subseteq> dom (map_of (rm_nodes m)) \<and>
      (\<forall>r \<in> set (refs m). \<not> vetoes ((childRel m committed)\<^sup>* `` set explicit) r)) \<and>
   (\<forall>dead. deletionClosure m committed explicit = Inr dead \<longrightarrow>
      set dead = (childRel m committed)\<^sup>* `` set explicit)"
proof -
  have "set (deletionLoop m committed explicit explicit) = (childRel m committed)\<^sup>* `` set explicit"
    by (rule deletionLoop_set) auto
  then show ?thesis using deletionClosure_set[of m committed explicit] unfolding deletionClosure_conv by simp
qed

lemma childList_conv: "childList out w = case_option [] id (map_of out w)"
  by (simp add: childList_def split: option.split)

lemma model_facts:
  assumes "typed_graph env h nodes" and "buildRelationModel env h nodes = Inr m"
  obtains T where "refs m = graphRefs env h T nodes" "ownerEdges (owners m) = (owns (refs m))\<inverse>"
    "\<And>w. childList (outgoing m) w = filter (\<lambda>c. (w, c) \<in> owns (refs m)) (map fst nodes)"
    "\<And>w c. (w, c) \<in> owns (refs m) \<Longrightarrow> w \<in> fst ` set nodes \<and> c \<in> fst ` set nodes"
    "single_valued ((owns (refs m))\<inverse>)" "acyclic (owns (refs m))"
proof -
  obtain tfs where tfs: "relationTargetFields env nodes = Inr tfs"
    using assms(2) by (cases "relationTargetFields env nodes") (auto simp: buildRelationModel_def)
  define T where "T = buildRelationTargetIndexFromFields h nodes tfs"
  obtain st where st: "scanRelations env h nodes T tfs = Inr st"
    using assms(2) by (cases "scanRelations env h nodes T tfs")
      (auto simp: buildRelationModel_def buildRelationModelFromTargets_def tfs T_def)
  note M = model_conv[OF assms(1) tfs T_def st refl]
  have m: "refs m = graphRefs env h T nodes" using M assms(2) by blast
  show thesis
  proof (rule that[OF m])
    show "w \<in> fst ` set nodes \<and> c \<in> fst ` set nodes" if "(w, c) \<in> owns (refs m)" for w c
      using owns_nodes that unfolding m T_def by blast
    show "childList (outgoing m) w = filter (\<lambda>c. (w, c) \<in> owns (refs m)) (map fst nodes)" for w
      unfolding m childList_conv using M assms(2) by blast
  qed (use M assms(2) m in auto)
qed

lemma model_targets:
  assumes "buildRelationModel env h nodes = Inr m" "r \<in> set (refs m)"
  shows "rr_target r \<in> fst ` set nodes"
proof -
  obtain tfs where tfs: "relationTargetFields env nodes = Inr tfs"
    using assms(1) by (cases "relationTargetFields env nodes") (auto simp: buildRelationModel_def)
  define T where "T = buildRelationTargetIndexFromFields h nodes tfs"
  define ini where "ini = \<lparr>scanned = emptyModel nodes T tfs, incoming = noIncoming, ownedBy = (\<lambda>_. None)\<rparr>"
  obtain st where st: "scanRelations env h nodes T tfs = Inr st"
    and att: "\<exists>m0. fold_result (attachNodeOwner (incoming st) (ownedBy st)) (map fst nodes) (scanned st) = Inr m0 \<and> m = m0"
    using assms(1)
    by (cases "scanRelations env h nodes T tfs")
      (auto simp: buildRelationModel_def buildRelationModelFromTargets_def tfs T_def bind_result_def split: sum.splits)
  have "scan_ok ini" by (simp add: scan_ok_def ini_def emptyModel_def noIncoming_def)
  from scan_nodes[OF st[unfolded scanRelations_def, folded ini_def] this]
  have S: "scan_ok st" "refs (scanned st) = graphRefs env h T nodes" by (auto simp: ini_def emptyModel_def)
  have "refs m = graphRefs env h T nodes"
    using attach_nodes[OF S(1), of "map fst nodes" "scanned st"] att S(2) by (auto simp: attached_def split: if_splits)
  then show ?thesis using refs_are_nodes(2)[OF _ targets_are_nodes] assms(2) unfolding T_def by metis
qed

text \<open>
  C16. A deletion leaves no broken mandatory relation: in an accepted model, after a closure that
  succeeds and a check of the required relations, every row that stays keeps a live target in
  each of its borrows, its \<open>ownedby\<close> field and its to-one owns, and none of its required
  to-one fields is unresolved.
\<close>

theorem survivors_keep_required_targets:
  assumes "typed_graph env h nodes" and "buildRelationModel env h nodes = Inr m"
    and "deletionClosure m committed explicit = Inr dead" and "validateRequiredRelations m dead = Inr ()"
  shows "(\<forall>r \<in> set (refs m). rr_holder r \<notin> set dead \<longrightarrow>
      kind (rr_spec r) = BorrowRelation \<or> kind (rr_spec r) = OwnedByRelation \<or>
      (kind (rr_spec r) = OwnRelation \<and> \<not> many (rr_spec r)) \<longrightarrow>
      rr_target r \<in> fst ` set nodes - set dead) \<and>
    (\<forall>q \<in> set (missing m). fst q \<in> set dead)"
proof (intro conjI ballI impI)
  obtain T where F: "refs m = graphRefs env h T nodes"
    "\<And>w. childList (outgoing m) w = filter (\<lambda>c. (w, c) \<in> owns (refs m)) (map fst nodes)"
    "\<And>w c. (w, c) \<in> owns (refs m) \<Longrightarrow> w \<in> fst ` set nodes \<and> c \<in> fst ` set nodes"
    using model_facts[OF assms(1,2)] by metis
  fix r assume r: "r \<in> set (refs m)" "rr_holder r \<notin> set dead" "kind (rr_spec r) = BorrowRelation \<or>
    kind (rr_spec r) = OwnedByRelation \<or> (kind (rr_spec r) = OwnRelation \<and> \<not> many (rr_spec r))"
  have closed: "childRel m committed `` set dead \<subseteq> set dead"
    unfolding deletionClosure_set[OF assms(3)] by (auto intro: rtrancl_into_rtrancl)
  show "rr_target r \<in> fst ` set nodes - set dead"
  proof
    show "rr_target r \<in> fst ` set nodes"
      using model_targets[OF assms(2)] r(1) by blast
    show "rr_target r \<notin> set dead"
    proof
      assume dies: "rr_target r \<in> set dead"
      have "\<not> vetoes (set dead) r" using assms(3) r(1) unfolding deletionClosure_conv by blast
      then have k: "kind (rr_spec r) = OwnedByRelation" using r(2,3) dies by (auto simp: vetoes_def)
      then have "(rr_target r, rr_holder r) \<in> owns (refs m)" using r(1) by (auto simp: owns_conv)
      then have "rr_holder r \<in> set (childList (outgoing m) (rr_target r))" using F(2,3) by auto
      then have "(rr_target r, rr_holder r) \<in> childRel m committed" by (simp add: childRel_def deletionChildren_set)
      then show False using closed dies r(2) by blast
    qed
  qed
next
  fix q assume "q \<in> set (missing m)"
  then show "fst q \<in> set dead"
    using assms(4) unfolding validateRequiredRelations_def fold_result_unit by (auto split: if_splits)
qed

section \<open>The committed forest\<close>

text \<open>What \<open>storeCommittedOwnership\<close> keeps of the children of the rows that stay.\<close>

definition survivingOutgoing :: "(nodeKey \<times> nodeKey list) list \<Rightarrow> nodeKey list \<Rightarrow> (nodeKey \<times> nodeKey list) list" where
  "survivingOutgoing out dead =
     filter (\<lambda>q. snd q \<noteq> [])
       (map (\<lambda>q. (fst q, filter (\<lambda>c. c \<notin> set dead) (snd q))) (filter (\<lambda>q. fst q \<notin> set dead) out))"

text \<open>\<open>committedOwnershipRoot\<close>: up the owners of the committed index, at most one step per owned row and one more.\<close>

fun climbOwners :: "nat \<Rightarrow> (nodeKey \<times> nodeKey) list \<Rightarrow> nodeKey \<Rightarrow> nodeKey" where
  "climbOwners 0 os node = node"
| "climbOwners (Suc n) os node = (case map_of os node of None \<Rightarrow> node | Some w \<Rightarrow> climbOwners n os w)"

definition committedOwnershipRoot :: "(nodeKey \<times> nodeKey) list option \<Rightarrow> nodeKey \<Rightarrow> nodeKey" where
  "committedOwnershipRoot index node =
     (case index of None \<Rightarrow> node | Some os \<Rightarrow> climbOwners (length os + 1) os node)"

text \<open>
  \<open>committedOwnershipKeys\<close>: the branch of a root, breadth first, then sorted. The loop has no
  check for rows it has seen, so on a graph that is no forest it may not end: then it is \<open>None\<close>.
\<close>

partial_function (option) keysLoop :: "(nodeKey \<times> nodeKey list) list \<Rightarrow> nodeKey list \<Rightarrow> nat \<Rightarrow> nodeKey list option" where
  "keysLoop out keys position =
     (if position < length keys then keysLoop out (keys @ childList out (keys ! position)) (position + 1)
      else Some keys)"

definition committedOwnershipKeys ::
  "(nodeKey \<Rightarrow> nodeKey list option) \<Rightarrow> (nodeKey \<times> nodeKey list) list \<Rightarrow> nodeKey \<Rightarrow>
   (nodeKey list \<times> (nodeKey \<Rightarrow> nodeKey list option)) option" where
  "committedOwnershipKeys branches out root =
     (case branches root of
        Some keys \<Rightarrow> Some (keys, branches)
      | None \<Rightarrow>
          (case keysLoop out [root] 0 of
             None \<Rightarrow> None
           | Some keys \<Rightarrow> let sorted = (if 1 < length keys then sort keys else keys) in Some (sorted, branches(root \<mapsto> sorted))))"

lemma climbOwners_root:
  assumes "acyclic (ownerEdges os)"
  shows "card {k. (node, k) \<in> (ownerEdges os)\<^sup>* \<and> map_of os k \<noteq> None} \<le> n \<Longrightarrow>
    (node, climbOwners n os node) \<in> (ownerEdges os)\<^sup>* \<and> map_of os (climbOwners n os node) = None"
proof (induction n arbitrary: node)
  case 0
  have "finite {k. (node, k) \<in> (ownerEdges os)\<^sup>* \<and> map_of os k \<noteq> None}"
    by (rule finite_subset[of _ "dom (map_of os)"]) (auto simp: finite_dom_map_of)
  then show ?case using 0 by auto
next
  case (Suc n)
  let ?E = "ownerEdges os"
  show ?case
  proof (cases "map_of os node")
    case None
    then show ?thesis by simp
  next
    case (Some w)
    then have e: "(node, w) \<in> ?E" by (simp add: ownerEdges_def)
    let ?S = "\<lambda>x. {k. (x, k) \<in> ?E\<^sup>* \<and> map_of os k \<noteq> None}"
    have "?S w \<subset> ?S node"
    proof
      show "?S w \<subseteq> ?S node" using e by (auto intro: converse_rtrancl_into_rtrancl)
      have "node \<notin> ?S w" using e assms by (auto simp: acyclic_def dest: rtrancl_into_trancl2)
      then show "?S w \<noteq> ?S node" using Some by auto
    qed
    moreover have "finite (?S node)"
      by (rule finite_subset[of _ "dom (map_of os)"]) (auto simp: finite_dom_map_of)
    ultimately have "card (?S w) \<le> n" using Suc.prems psubset_card_mono[of "?S node" "?S w"] by simp
    from Suc.IH[OF this] e show ?thesis by (auto simp: Some intro: converse_rtrancl_into_rtrancl)
  qed
qed

lemma root_reached:
  assumes "acyclic (ownerEdges os)"
  shows "(node, committedOwnershipRoot (Some os) node) \<in> (ownerEdges os)\<^sup>*"
    "map_of os (committedOwnershipRoot (Some os) node) = None"
proof -
  have "card {k. (node, k) \<in> (ownerEdges os)\<^sup>* \<and> map_of os k \<noteq> None} \<le> card (fst ` set os)"
    by (rule card_mono) (auto dest: map_of_SomeD intro: image_eqI[rotated])
  also have "\<dots> \<le> length os" by (metis card_image_le card_length finite_set order_trans)
  finally have "card {k. (node, k) \<in> (ownerEdges os)\<^sup>* \<and> map_of os k \<noteq> None} \<le> length os + 1" by simp
  from climbOwners_root[OF assms this]
  show "(node, committedOwnershipRoot (Some os) node) \<in> (ownerEdges os)\<^sup>*"
    "map_of os (committedOwnershipRoot (Some os) node) = None"
    by (simp_all add: committedOwnershipRoot_def)
qed

lemma functional_confluent:
  assumes "(a, r) \<in> (ownerEdges os)\<^sup>*" "map_of os r = None" "(a, z) \<in> (ownerEdges os)\<^sup>*"
  shows "(z, r) \<in> (ownerEdges os)\<^sup>*"
  using assms(1,3)
proof (induction arbitrary: z rule: converse_rtrancl_induct)
  case base
  then have "z = r" using assms(2) by (auto simp: ownerEdges_def elim: converse_rtranclE)
  then show ?case by simp
next
  case (step a b)
  from step.prems show ?case
  proof (cases rule: converse_rtranclE)
    case base
    then show ?thesis using step(1,2) by (meson converse_rtrancl_into_rtrancl)
  next
    case (step y)
    then have "y = b" using \<open>(a, b) \<in> ownerEdges os\<close> by (simp add: ownerEdges_def)
    then show ?thesis using step \<open>\<And>z. (b, z) \<in> (ownerEdges os)\<^sup>* \<Longrightarrow> (z, r) \<in> (ownerEdges os)\<^sup>*\<close> by blast
  qed
qed

text \<open>
  The bound of \<open>committedOwnershipRoot\<close> is enough: on an acyclic ownership it returns the
  ancestor without owner, and two rows get the same root exactly when they have a common
  ancestor, so that branches of rows with different roots are disjoint.
\<close>

theorem roots_separate_branches:
  assumes "acyclic (ownerEdges os)"
  shows "(a, committedOwnershipRoot (Some os) a) \<in> (ownerEdges os)\<^sup>* \<and>
    map_of os (committedOwnershipRoot (Some os) a) = None \<and>
    (committedOwnershipRoot (Some os) a = committedOwnershipRoot (Some os) b \<longleftrightarrow>
       (\<exists>z. (a, z) \<in> (ownerEdges os)\<^sup>* \<and> (b, z) \<in> (ownerEdges os)\<^sup>*))"
proof (intro conjI iffI)
  let ?r = "committedOwnershipRoot (Some os)"
  note R = root_reached[OF assms]
  show "(a, ?r a) \<in> (ownerEdges os)\<^sup>*" "map_of os (?r a) = None" using R by auto
  show "\<exists>z. (a, z) \<in> (ownerEdges os)\<^sup>* \<and> (b, z) \<in> (ownerEdges os)\<^sup>*" if "?r a = ?r b"
    using R[of a] R[of b] that by metis
  assume "\<exists>z. (a, z) \<in> (ownerEdges os)\<^sup>* \<and> (b, z) \<in> (ownerEdges os)\<^sup>*"
  then obtain z where z: "(a, z) \<in> (ownerEdges os)\<^sup>*" "(b, z) \<in> (ownerEdges os)\<^sup>*" by blast
  have "(z, ?r a) \<in> (ownerEdges os)\<^sup>*" by (rule functional_confluent[OF R(1) R(2) z(1)])
  from functional_confluent[OF this R(2)] functional_confluent[OF R(1) R(2) z(2)]
  have "(?r b, ?r a) \<in> (ownerEdges os)\<^sup>*" by blast
  then show "?r a = ?r b" using R(2)[of b] by (auto simp: ownerEdges_def elim: converse_rtranclE)
qed

section \<open>Branches\<close>

definition outEdges :: "(nodeKey \<times> nodeKey list) list \<Rightarrow> (nodeKey \<times> nodeKey) set" where
  "outEdges out = {(w, c). c \<in> set (childList out w)}"

definition forest :: "(nodeKey \<times> nodeKey list) list \<Rightarrow> bool" where
  "forest out \<longleftrightarrow> single_valued ((outEdges out)\<inverse>) \<and> acyclic (outEdges out) \<and> (\<forall>w. distinct (childList out w))"

lemma finite_branch: "finite ((outEdges out)\<^sup>* `` {root})"
proof (rule finite_subset)
  show "(outEdges out)\<^sup>* `` {root} \<subseteq> insert root (\<Union> (set ` snd ` set out))"
  proof
    fix x assume "x \<in> (outEdges out)\<^sup>* `` {root}"
    then have "(root, x) \<in> (outEdges out)\<^sup>*" by simp
    then show "x \<in> insert root (\<Union> (set ` snd ` set out))"
      by (cases rule: rtranclE) (auto simp: outEdges_def dest: childList_in)
  qed
qed simp

text \<open>The state of the loop: the rows before \<open>position\<close> have their children in the list, each once.\<close>

definition branch_inv :: "(nodeKey \<times> nodeKey list) list \<Rightarrow> nodeKey \<Rightarrow> nodeKey list \<Rightarrow> nat \<Rightarrow> bool" where
  "branch_inv out root keys position \<longleftrightarrow>
     distinct keys \<and> position \<le> length keys \<and> root \<in> set keys \<and> set keys \<subseteq> (outEdges out)\<^sup>* `` {root} \<and>
     (\<forall>c \<in> set keys. c = root \<or> (\<exists>i < position. (keys ! i, c) \<in> outEdges out)) \<and>
     (\<forall>i < position. set (childList out (keys ! i)) \<subseteq> set keys)"

lemma branch_step:
  assumes "forest out" "branch_inv out root keys position" "position < length keys"
  shows "branch_inv out root (keys @ childList out (keys ! position)) (position + 1)"
proof -
  let ?E = "outEdges out" and ?w = "keys ! position"
  let ?cs = "childList out ?w"
  have I: "distinct keys" "root \<in> set keys" "set keys \<subseteq> ?E\<^sup>* `` {root}"
    "\<forall>c \<in> set keys. c = root \<or> (\<exists>i < position. (keys ! i, c) \<in> ?E)"
    "\<forall>i < position. set (childList out (keys ! i)) \<subseteq> set keys"
    using assms(2) by (auto simp: branch_inv_def)
  have w: "(root, ?w) \<in> ?E\<^sup>*" using I(3) assms(3) by (auto dest: nth_mem)
  have fresh: "c \<notin> set keys" if "c \<in> set ?cs" for c
  proof
    assume c: "c \<in> set keys"
    have e: "(?w, c) \<in> ?E" using that by (simp add: outEdges_def)
    have "c \<noteq> root"
    proof
      assume "c = root"
      then have "(root, root) \<in> ?E\<^sup>+" using w e by (meson rtrancl_into_trancl1)
      then show False using assms(1) by (auto simp: forest_def acyclic_def)
    qed
    then obtain i where i: "i < position" "(keys ! i, c) \<in> ?E" using I(4) c by blast
    then have "keys ! i = ?w" using e assms(1) by (auto simp: forest_def single_valued_def)
    then show False using i(1) assms(3) I(1) nth_eq_iff_index_eq by fastforce
  qed
  have old: "(keys @ ?cs) ! i = keys ! i" if "i < length keys" for i using that by (simp add: nth_append)
  show ?thesis
    unfolding branch_inv_def
  proof (intro conjI)
    show "distinct (keys @ ?cs)" using I(1) fresh assms(1) by (auto simp: forest_def)
    show "set (keys @ ?cs) \<subseteq> ?E\<^sup>* `` {root}"
      using I(3) w by (auto simp: outEdges_def intro: rtrancl_into_rtrancl)
    show "\<forall>c \<in> set (keys @ ?cs). c = root \<or> (\<exists>i < position + 1. ((keys @ ?cs) ! i, c) \<in> ?E)"
    proof
      fix c assume c: "c \<in> set (keys @ ?cs)"
      show "c = root \<or> (\<exists>i < position + 1. ((keys @ ?cs) ! i, c) \<in> ?E)"
      proof (cases "c \<in> set keys")
        case True
        then show ?thesis using I(4) old assms(3) by (metis less_trans trans_less_add1)
      next
        case False
        then have "(?w, c) \<in> ?E" using c by (simp add: outEdges_def)
        then show ?thesis using old[OF assms(3)] by (metis less_add_one)
      qed
    qed
    show "\<forall>i < position + 1. set (childList out ((keys @ ?cs) ! i)) \<subseteq> set (keys @ ?cs)"
    proof (intro allI impI)
      fix i assume "i < position + 1"
      then consider "i < position" | "i = position" by linarith
      then show "set (childList out ((keys @ ?cs) ! i)) \<subseteq> set (keys @ ?cs)"
        using I(5) old assms(3) by cases fastforce+
    qed
  qed (use assms(3) I(2) in auto)
qed

lemma keysLoop_returns:
  assumes "forest out" "branch_inv out root keys position"
  shows "\<exists>keys'. keysLoop out keys position = Some keys' \<and> branch_inv out root keys' (length keys')"
  using assms(2)
proof (induction "card ((outEdges out)\<^sup>* `` {root}) - position" arbitrary: keys position rule: less_induct)
  case less
  show ?case
  proof (cases "position < length keys")
    case False
    then have "position = length keys" using less.prems by (simp add: branch_inv_def)
    then show ?thesis using less.prems by (subst keysLoop.simps) simp
  next
    case True
    have "length keys = card (set keys)" using less.prems by (simp add: branch_inv_def distinct_card)
    also have "\<dots> \<le> card ((outEdges out)\<^sup>* `` {root})"
      using less.prems by (intro card_mono finite_branch) (simp add: branch_inv_def)
    finally have "position < card ((outEdges out)\<^sup>* `` {root})" using True by simp
    then have "card ((outEdges out)\<^sup>* `` {root}) - (position + 1) < card ((outEdges out)\<^sup>* `` {root}) - position" by simp
    from less.hyps[OF this branch_step[OF assms(1) less.prems True]] show ?thesis
      using True by (subst keysLoop.simps) simp
  qed
qed

lemma branch_complete:
  assumes "branch_inv out root keys (length keys)"
  shows "set keys = (outEdges out)\<^sup>* `` {root}"
proof
  show "set keys \<subseteq> (outEdges out)\<^sup>* `` {root}" using assms by (simp add: branch_inv_def)
  have "outEdges out `` set keys \<subseteq> set keys"
  proof
    fix c assume "c \<in> outEdges out `` set keys"
    then obtain w where "w \<in> set keys" "c \<in> set (childList out w)" by (auto simp: outEdges_def)
    then obtain i where "i < length keys" "c \<in> set (childList out (keys ! i))" by (auto simp: in_set_conv_nth)
    then show "c \<in> set keys" using assms unfolding branch_inv_def by blast
  qed
  then have "(outEdges out)\<^sup>* `` set keys = set keys" by (rule Image_closed_trancl)
  then show "(outEdges out)\<^sup>* `` {root} \<subseteq> set keys" using assms by (auto simp: branch_inv_def)
qed

definition is_branch :: "(nodeKey \<times> nodeKey list) list \<Rightarrow> nodeKey \<Rightarrow> nodeKey list \<Rightarrow> bool" where
  "is_branch out root keys \<longleftrightarrow> set keys = (outEdges out)\<^sup>* `` {root} \<and> distinct keys \<and> sorted keys"

definition branches_ok :: "(nodeKey \<times> nodeKey list) list \<Rightarrow> (nodeKey \<Rightarrow> nodeKey list option) \<Rightarrow> bool" where
  "branches_ok out branches \<longleftrightarrow> (\<forall>r keys. branches r = Some keys \<longrightarrow> is_branch out r keys)"

lemma branch_keys:
  assumes "forest out" and "branches_ok out branches"
  shows "\<exists>keys. committedOwnershipKeys branches out root = Some (keys, branches(root \<mapsto> keys)) \<and>
    is_branch out root keys \<and> branches_ok out (branches(root \<mapsto> keys)) \<and>
    (branches root \<noteq> None \<longrightarrow> branches root = Some keys)"
proof (cases "branches root")
  case (Some keys)
  then have "branches(root \<mapsto> keys) = branches" by (simp add: fun_upd_idem)
  then have "committedOwnershipKeys branches out root = Some (keys, branches(root \<mapsto> keys))"
    using Some by (simp add: committedOwnershipKeys_def)
  moreover have "is_branch out root keys" using assms(2) Some unfolding branches_ok_def by blast
  ultimately show ?thesis using assms(2) Some \<open>branches(root \<mapsto> keys) = branches\<close> by auto
next
  case None
  have "branch_inv out root [root] 0" by (simp add: branch_inv_def)
  from keysLoop_returns[OF assms(1) this] obtain keys where keys: "keysLoop out [root] 0 = Some keys"
    "branch_inv out root keys (length keys)" by blast
  define s where "s = (if 1 < length keys then sort keys else keys)"
  have "sorted keys" if "\<not> 1 < length keys" using that by (cases keys) auto
  then have s: "is_branch out root s"
    using branch_complete[OF keys(2)] keys(2) by (auto simp: s_def branch_inv_def is_branch_def)
  have run: "committedOwnershipKeys branches out root = Some (s, branches(root \<mapsto> s))"
    by (simp add: committedOwnershipKeys_def None keys(1) s_def Let_def)
  have "branches_ok out (branches(root \<mapsto> s))"
    unfolding branches_ok_def
  proof (intro allI impI)
    fix r ks assume "(branches(root \<mapsto> s)) r = Some ks"
    then show "is_branch out r ks" using s assms(2) by (cases "r = root") (auto simp: branches_ok_def)
  qed
  then show ?thesis using s run None by blast
qed

text \<open>
  C18. The branch a transaction copies and locks is complete and cached: on a forest the loop of
  \<open>committedOwnershipKeys\<close> ends, and returns exactly the rows the root transitively owns, the
  root included, each once and sorted by type and id. Afterwards the cache maps the root to these
  keys and every other row to what it had before, so that the next call returns the same keys
  without a change, and a cache of complete branches stays one.
\<close>

theorem branch_keys_are_the_descendants:
  assumes "forest out" and "branches_ok out branches"
  shows "\<exists>keys branches'. committedOwnershipKeys branches out root = Some (keys, branches') \<and>
    set keys = (outEdges out)\<^sup>* `` {root} \<and> distinct keys \<and> sorted keys \<and>
    branches' = branches(root \<mapsto> keys) \<and> branches_ok out branches' \<and>
    committedOwnershipKeys branches' out root = Some (keys, branches')"
proof -
  obtain keys where k: "committedOwnershipKeys branches out root = Some (keys, branches(root \<mapsto> keys))"
    "is_branch out root keys" "branches_ok out (branches(root \<mapsto> keys))"
    using branch_keys[OF assms, of root] by blast
  then show ?thesis by (auto simp: is_branch_def committedOwnershipKeys_def[of "branches(root \<mapsto> keys)"])
qed

text \<open>An accepted model, and what of it survives a deletion, is such a forest.\<close>

lemma model_forest:
  assumes "typed_graph env h nodes" and "buildRelationModel env h nodes = Inr m"
  shows "forest (outgoing m)"
proof -
  obtain T where F: "\<And>w. childList (outgoing m) w = filter (\<lambda>c. (w, c) \<in> owns (refs m)) (map fst nodes)"
    "\<And>w c. (w, c) \<in> owns (refs m) \<Longrightarrow> w \<in> fst ` set nodes \<and> c \<in> fst ` set nodes"
    "single_valued ((owns (refs m))\<inverse>)" "acyclic (owns (refs m))"
    using model_facts[OF assms] by metis
  have "outEdges (outgoing m) = owns (refs m)" using F(2) by (auto simp: outEdges_def F(1))
  moreover have "distinct (childList (outgoing m) w)" for w
    using assms(1) unfolding F(1) by (simp add: typed_graph_def)
  ultimately show ?thesis using F(3,4) by (simp add: forest_def)
qed

lemma surviving_children:
  assumes "distinct (map fst out)"
  shows "childList (survivingOutgoing out dead) w =
    (if w \<in> set dead then [] else filter (\<lambda>c. c \<notin> set dead) (childList out w))"
  using assms
proof (induction out)
  case Nil
  then show ?case by (simp add: survivingOutgoing_def childList_def)
next
  case (Cons q out)
  have gone: "childList (survivingOutgoing out dead) w = []" if "w = fst q"
  proof -
    have "w \<notin> fst ` set (survivingOutgoing out dead)" using that Cons.prems by (force simp: survivingOutgoing_def)
    then have "map_of (survivingOutgoing out dead) w = None" by (simp add: map_of_eq_None_iff)
    then show ?thesis by (simp add: childList_def)
  qed
  show ?case
  proof (cases "fst q = w")
    case True
    then show ?thesis using gone by (auto simp: survivingOutgoing_def childList_def)
  next
    case False
    then show ?thesis using Cons by (simp add: survivingOutgoing_def childList_def)
  qed
qed

end
