(* ===== verification/Relation_Index.thy ===== *)
theory Relation_Index
  imports Index_Counts Owner_Chain Ownership
begin

text \<open>
  The committed relation index and its incremental maintenance (\<open>relation_index.go\<close>): a commit
  builds a delta against the published index, checks the new ownership on it, and publishes it
  without rebuilding the graph. Where the code declines an incremental commit and the caller
  rebuilds the whole graph, the result here is \<open>Inr None\<close>. Slices are values: that a replaced
  field reuses the old slice's spare capacity is not modelled.
\<close>

section \<open>The index\<close>

record indexedRelationField =
  irf_spec :: "relationSpec option"
  irf_targets :: "nodeKey list"

text \<open>\<open>ix_addr\<close> is the identity of the index object.\<close>

record 'p committedRelationIndex =
  ix_addr :: nat
  ix_nodes :: "nodeKey \<Rightarrow> 'p option"
  ix_targets :: targetIndex
  ix_targetFields :: "(string \<times> string) list"
  ix_backFields :: "(string \<times> nat) list"
  ix_fields :: "relationHolderField \<Rightarrow> indexedRelationField option"
  ix_incoming :: "nodeKey \<Rightarrow> incomingCounts option"
  ix_owners :: "(nodeKey \<times> nodeKey) list"

record relationOwnerChange =
  before :: "nodeKey option"
  after :: "nodeKey option"

text \<open>The value of an absent map entry.\<close>

definition fieldOf :: "'p committedRelationIndex \<Rightarrow> relationHolderField \<Rightarrow> indexedRelationField" where
  "fieldOf ix f = (case ix_fields ix f of None \<Rightarrow> \<lparr>irf_spec = None, irf_targets = []\<rparr> | Some x \<Rightarrow> x)"

definition countsOf :: "'p committedRelationIndex \<Rightarrow> nodeKey \<Rightarrow> incomingCounts" where
  "countsOf ix t = (case ix_incoming ix t of None \<Rightarrow> emptyCounts | Some c \<Rightarrow> c)"

definition incrementIncoming :: "nodeKey \<Rightarrow> relationHolderField \<Rightarrow> 'p committedRelationIndex \<Rightarrow> 'p committedRelationIndex" where
  "incrementIncoming t f ix = ix\<lparr>ix_incoming := (ix_incoming ix)(t \<mapsto> increment (countsOf ix t) f)\<rparr>"

definition decrementIncoming :: "nodeKey \<Rightarrow> relationHolderField \<Rightarrow> 'p committedRelationIndex \<Rightarrow> 'p committedRelationIndex" where
  "decrementIncoming t f ix =
     (case ix_incoming ix t of
        None \<Rightarrow> ix
      | Some c \<Rightarrow> ix\<lparr>ix_incoming := (ix_incoming ix)(t \<mapsto> decrement c f)\<rparr>)"

section \<open>Building it from a model\<close>

definition indexRelationFields :: "typeEnv \<Rightarrow> 'p nodes \<Rightarrow> 'p committedRelationIndex \<Rightarrow> 'p committedRelationIndex" where
  "indexRelationFields env nodes ix =
     foldl
       (\<lambda>ix n. case relationSpecs env (nk_type (fst n)) of
          Inl _ \<Rightarrow> ix
        | Inr specs \<Rightarrow>
            ix\<lparr>ix_fields := foldl (\<lambda>fs s. if kind s = InverseRelation then fs
                               else fs(HolderField (fst n) (fieldIndex s) \<mapsto> \<lparr>irf_spec = Some s, irf_targets = []\<rparr>))
                             (ix_fields ix) specs,
               ix_backFields := foldl (\<lambda>bs s. if kind s \<noteq> OwnRelation \<or> \<not> many s then bs
                                 else (case FieldByName env (target s) (matchField s) of
                                         None \<Rightarrow> bs
                                       | Some (i, f) \<Rightarrow> List.insert (target s, i) bs))
                               (ix_backFields ix) specs\<rparr>)
       ix nodes"

definition indexRef :: "nodeKey list \<Rightarrow> 'p committedRelationIndex \<Rightarrow> resolvedRelation \<Rightarrow> 'p committedRelationIndex" where
  "indexRef dead ix r =
     (if rr_holder r \<in> set dead \<or> rr_target r \<in> set dead then ix
      else
        let f = HolderField (rr_holder r) (fieldIndex (rr_spec r)); fld = fieldOf ix f in
        incrementIncoming (rr_target r) f
          (ix\<lparr>ix_fields := (ix_fields ix)(f \<mapsto> fld\<lparr>irf_targets := irf_targets fld @ [rr_target r]\<rparr>)\<rparr>))"

definition buildCommittedRelationIndex ::
  "typeEnv \<Rightarrow> 'p heap \<Rightarrow> nat \<Rightarrow> 'p relationModel \<Rightarrow> nodeKey list \<Rightarrow> 'p committedRelationIndex" where
  "buildCommittedRelationIndex env h addr m dead =
     (let nodes = (if dead = [] then rm_nodes m else filter (\<lambda>n. fst n \<notin> set dead) (rm_nodes m));
          targets = (if dead = [] then rm_targets m else buildRelationTargetIndexFromFields h nodes (rm_targetFields m));
          ix0 = \<lparr>ix_addr = addr, ix_nodes = map_of nodes, ix_targets = targets, ix_targetFields = rm_targetFields m,
                 ix_backFields = [], ix_fields = (\<lambda>_. None), ix_incoming = (\<lambda>_. None), ix_owners = []\<rparr>;
          ix = foldl (indexRef dead) (indexRelationFields env nodes ix0) (refs m)
      in ix\<lparr>ix_owners := filter (\<lambda>(c, w). c \<notin> set dead \<and> w \<notin> set dead) (owners m)\<rparr>)"

section \<open>A delta\<close>

record 'p touchedResource =
  tr_dbName :: string
  tr_id :: int
  tr_ver :: int
  tr_work :: 'p
  tr_original :: 'p

type_synonym 'p override = "nodeKey \<times> 'p \<times> relationSpec list"

record 'p relationIndexDelta =
  d_index :: "'p committedRelationIndex"
  d_created :: "(nodeKey \<times> 'p) list"
  d_targets :: targetIndex
  d_overrides :: "'p override list"
  d_fields :: "(relationHolderField, indexedRelationField) deltaTable"
  d_ownerChanges :: "(nodeKey, relationOwnerChange) deltaTable"
  d_inverseTargets :: "nodeKey list"

text \<open>
  A loop that may also decline (the code's \<open>return nil, nil\<close>): the first \<open>None\<close> ends it.
\<close>

fun fold_supported :: "('s \<Rightarrow> 'x \<Rightarrow> 's option result) \<Rightarrow> 'x list \<Rightarrow> 's \<Rightarrow> 's option result" where
  "fold_supported f [] s = Inr (Some s)"
| "fold_supported f (x # xs) s =
     (case f s x of
        Inl e \<Rightarrow> Inl e
      | Inr None \<Rightarrow> Inr None
      | Inr (Some s') \<Rightarrow> fold_supported f xs s')"

definition bind_supported :: "'a option result \<Rightarrow> ('a \<Rightarrow> 'b option result) \<Rightarrow> 'b option result" where
  "bind_supported r f = (case r of Inl e \<Rightarrow> Inl e | Inr None \<Rightarrow> Inr None | Inr (Some x) \<Rightarrow> f x)"

text \<open>
  \<open>relationFieldEqual\<close> on one field of two rows of a type: key values are compared as values,
  pointers by identity.
\<close>

definition fieldUnchanged :: "typeEnv \<Rightarrow> 'p heap \<Rightarrow> string \<Rightarrow> nat \<Rightarrow> 'p \<Rightarrow> 'p \<Rightarrow> bool" where
  "fieldUnchanged env h t i a b =
     (let f = structFields env t ! i in
      case rf_type f of
        PointerType _ \<Rightarrow> pointers (h a) i = pointers (h b) i
      | _ \<Rightarrow> scalars (h a) (rf_name f) = scalars (h b) (rf_name f))"

definition relationIndexKeyChanged :: "typeEnv \<Rightarrow> 'p heap \<Rightarrow> 'p committedRelationIndex \<Rightarrow> nodeKey \<Rightarrow> 'p \<Rightarrow> 'p \<Rightarrow> bool" where
  "relationIndexKeyChanged env h ix key old new \<longleftrightarrow>
     (\<exists>f \<in> set (ix_targetFields ix). fst f = nk_type key \<and> scalars (h old) (snd f) \<noteq> scalars (h new) (snd f)) \<or>
     (\<exists>f \<in> set (ix_backFields ix). fst f = nk_type key \<and> \<not> fieldUnchanged env h (nk_type key) (snd f) old new)"

definition touchedOverride ::
  "typeEnv \<Rightarrow> 'p heap \<Rightarrow> (string \<Rightarrow> bool) \<Rightarrow> 'p committedRelationIndex \<Rightarrow> 'p override list \<Rightarrow> 'p touchedResource \<Rightarrow> 'p override list option result" where
  "touchedOverride env h registered ix out r =
     (let key = NodeKey (tr_dbName r) (tr_id r) in
      if \<not> registered (tr_dbName r) then Inr None
      else case ix_nodes ix key of
        None \<Rightarrow> Inr None
      | Some old \<Rightarrow>
          if relationIndexKeyChanged env h ix key old (tr_work r) then Inr None
          else (case relationSpecs env (nk_type key) of
                  Inl e \<Rightarrow> Inl e
                | Inr specs \<Rightarrow> Inr (Some (out @ [(key, tr_work r, specs)]))))"

definition createdOverride ::
  "typeEnv \<Rightarrow> 'p committedRelationIndex \<Rightarrow> 'p override list \<Rightarrow> nodeKey \<times> 'p \<Rightarrow> 'p override list option result" where
  "createdOverride env ix out c =
     (if ix_nodes ix (fst c) \<noteq> None then Inr None
      else case relationSpecs env (nk_type (fst c)) of
        Inl e \<Rightarrow> Inl e
      | Inr specs \<Rightarrow> Inr (Some (out @ [(fst c, snd c, specs)])))"

text \<open>\<open>indexCreatedTargets\<close>: every field a created row looks targets up by is indexed, and its own keys are new.\<close>

definition createdFieldsIndexed :: "typeEnv \<Rightarrow> 'p committedRelationIndex \<Rightarrow> unit \<Rightarrow> nodeKey \<times> 'p \<Rightarrow> unit option result" where
  "createdFieldsIndexed env ix u c =
     (case relationSpecs env (nk_type (fst c)) of
        Inl e \<Rightarrow> Inl e
      | Inr specs \<Rightarrow>
          Inr (if \<forall>s \<in> set specs. kind s = InverseRelation \<or> (target s, lookupField s) \<in> set (ix_targetFields ix)
               then Some () else None))"

definition addCreatedTarget ::
  "'p heap \<Rightarrow> 'p committedRelationIndex \<Rightarrow> nodeKey \<times> 'p \<Rightarrow> targetIndex \<Rightarrow> string \<Rightarrow> targetIndex result" where
  "addCreatedTarget h ix c ts field =
     (case relationKey h (Some (snd c)) field of
        None \<Rightarrow> Inr ts
      | Some v \<Rightarrow>
          let l = (nk_type (fst c), field, v) in
          if ix_targets ix l \<noteq> None then Inl (ErrRelationInvariant ''duplicate relation target'')
          else if ts l \<noteq> None then Inl (ErrRelationInvariant ''duplicate relation target'')
          else Inr (ts(l \<mapsto> (fst c, False))))"

definition indexCreatedTargets ::
  "typeEnv \<Rightarrow> 'p heap \<Rightarrow> 'p committedRelationIndex \<Rightarrow> (nodeKey \<times> 'p) list \<Rightarrow> targetIndex option result" where
  "indexCreatedTargets env h ix creates =
     (if creates = [] then Inr (Some (\<lambda>_. None))
      else bind_supported (fold_supported (createdFieldsIndexed env ix) creates ())
        (\<lambda>_. case fold_result
            (\<lambda>ts c. fold_result (addCreatedTarget h ix c) (map snd (filter (\<lambda>f. fst f = nk_type (fst c)) (ix_targetFields ix))) ts)
            creates (\<lambda>_. None) of
            Inl e \<Rightarrow> Inl e
          | Inr ts \<Rightarrow> Inr (Some ts)))"

section \<open>Resolving the fields of a delta\<close>

definition resolveIndexedRelationTarget ::
  "'p heap \<Rightarrow> 'p relationIndexDelta \<Rightarrow> nodeKey \<Rightarrow> relationSpec \<Rightarrow> 'p option \<Rightarrow> nodeKey option result" where
  "resolveIndexedRelationTarget h d holder spec p =
     (let l = graphRelationTargetKey h spec p;
          t = (case l of
                 None \<Rightarrow> None
               | Some key \<Rightarrow> (case d_targets d key of None \<Rightarrow> ix_targets (d_index d) key | Some t \<Rightarrow> Some t))
      in case t of
        None \<Rightarrow>
          if relationMayBeMissing spec then Inr None
          else Inl (ErrRelationInvariant ''required relation is nil or has no live target'')
      | Some (key, duplicate) \<Rightarrow>
          if duplicate then Inl (ErrRelationInvariant ''does not uniquely identify a target'') else Inr (Some key))"

text \<open>\<open>seen\<close> is \<open>None\<close> where the code keeps no set.\<close>

definition scanIndexedPointer ::
  "'p heap \<Rightarrow> 'p relationIndexDelta \<Rightarrow> nodeKey \<Rightarrow> relationSpec \<Rightarrow> nodeKey set option \<times> nodeKey list \<Rightarrow> 'p option \<Rightarrow>
   (nodeKey set option \<times> nodeKey list) result" where
  "scanIndexedPointer h d holder spec st p =
     (case resolveIndexedRelationTarget h d holder spec p of
        Inl e \<Rightarrow> Inl e
      | Inr None \<Rightarrow> Inr st
      | Inr (Some t) \<Rightarrow>
          (case fst st of
             None \<Rightarrow> Inr (None, snd st @ [t])
           | Some seen \<Rightarrow>
               if t \<in> seen then Inl (ErrRelationInvariant ''contains owned child more than once'')
               else Inr (Some (insert t seen), snd st @ [t])))"

definition scanIndexedRelationField ::
  "'p heap \<Rightarrow> 'p relationIndexDelta \<Rightarrow> nodeKey \<Rightarrow> 'p \<Rightarrow> relationSpec \<Rightarrow> nodeKey list result" where
  "scanIndexedRelationField h d holder a spec =
     (let ps = fieldPointers h a spec;
          seen = (if many spec \<and> kind spec = OwnRelation \<and> 1 < length ps then Some {} else None) in
      bind_result (fold_result (scanIndexedPointer h d holder spec) ps (seen, [])) (\<lambda>st. Inr (snd st)))"

definition scanOverrideSpec ::
  "'p heap \<Rightarrow> (nodeKey \<times> 'p) list \<Rightarrow> nodeKey \<Rightarrow> 'p \<Rightarrow> 'p relationIndexDelta \<Rightarrow> relationSpec \<Rightarrow> 'p relationIndexDelta option result" where
  "scanOverrideSpec h creates key a d spec =
     (if kind spec = InverseRelation then Inr (Some (d\<lparr>d_inverseTargets := List.insert key (d_inverseTargets d)\<rparr>))
      else
        let f = HolderField key (fieldIndex spec) in
        case (case ix_fields (d_index d) f of
                Some c \<Rightarrow> Some c
              | None \<Rightarrow> if map_of creates key \<noteq> None then Some \<lparr>irf_spec = Some spec, irf_targets = []\<rparr> else None) of
          None \<Rightarrow> Inr None
        | Some committed \<Rightarrow>
            if irf_spec committed = None then Inr None
            else
              let fields' = addDelta (d_fields d) f \<lparr>irf_spec = Some spec, irf_targets = []\<rparr> in
              (case scanIndexedRelationField h d key a spec of
                 Inl e \<Rightarrow> Inl e
               | Inr ts \<Rightarrow> Inr (Some (d\<lparr>d_fields := writeDelta fields' f \<lparr>irf_spec = Some spec, irf_targets = ts\<rparr>\<rparr>))))"

definition scanOverride ::
  "'p heap \<Rightarrow> (nodeKey \<times> 'p) list \<Rightarrow> 'p relationIndexDelta \<Rightarrow> 'p override \<Rightarrow> 'p relationIndexDelta option result" where
  "scanOverride h creates d q = fold_supported (scanOverrideSpec h creates (fst q) (fst (snd q))) (snd (snd q)) d"

section \<open>Checking the new ownership\<close>

definition affectedKeys :: "'p relationIndexDelta \<Rightarrow> relationHolderField \<times> indexedRelationField \<Rightarrow> nodeKey list" where
  "affectedKeys d entry =
     (case irf_spec (snd entry) of
        None \<Rightarrow> []
      | Some s \<Rightarrow>
          (if kind s = OwnRelation then irf_targets (fieldOf (d_index d) (fst entry)) @ irf_targets (snd entry) else []) @
          (if kind s = OwnedByRelation then [hf_holder (fst entry)] else []))"

definition affected :: "'p relationIndexDelta \<Rightarrow> nodeKeySet" where
  "affected d = foldl (\<lambda>s e. addKeys s (affectedKeys d e)) emptyKeySet (dt_values (d_fields d))"

definition countCommittedOwn ::
  "'p relationIndexDelta \<Rightarrow> nodeKey option \<times> int \<Rightarrow> relationHolderField \<times> int \<Rightarrow> (nodeKey option \<times> int) result" where
  "countCommittedOwn d acc e =
     (if findDelta (d_fields d) (fst e) \<noteq> None then Inr acc
      else case irf_spec (fieldOf (d_index d) (fst e)) of
        None \<Rightarrow> Inl (Panic ''nil spec'')
      | Some s \<Rightarrow>
          Inr (if kind s = OwnRelation \<and> 0 < snd e
               then (if snd acc = 0 then Some (hf_holder (fst e)) else fst acc, snd acc + snd e) else acc))"

definition countPendingOwn ::
  "nodeKey \<Rightarrow> nodeKey option \<times> int \<Rightarrow> relationHolderField \<times> indexedRelationField \<Rightarrow> nodeKey option \<times> int" where
  "countPendingOwn child acc e =
     (case irf_spec (snd e) of
        None \<Rightarrow> acc
      | Some s \<Rightarrow>
          if kind s \<noteq> OwnRelation then acc
          else foldl (\<lambda>acc t. if t = child then (if snd acc = 0 then Some (hf_holder (fst e)) else fst acc, snd acc + 1) else acc)
                 acc (irf_targets (snd e)))"

definition effectiveIncomingOwn :: "'p relationIndexDelta \<Rightarrow> nodeKey \<Rightarrow> (nodeKey option \<times> int) result" where
  "effectiveIncomingOwn d child =
     bind_result (fold_result (countCommittedOwn d) (entries (countsOf (d_index d) child)) (None, 0))
       (\<lambda>acc. Inr (foldl (countPendingOwn child) acc (dt_values (d_fields d))))"

definition currentField :: "'p relationIndexDelta \<Rightarrow> relationHolderField \<Rightarrow> indexedRelationField" where
  "currentField d f = (case findDelta (d_fields d) f of Some x \<Rightarrow> x | None \<Rightarrow> fieldOf (d_index d) f)"

definition effectiveOwnedBy :: "typeEnv \<Rightarrow> 'p relationIndexDelta \<Rightarrow> nodeKey \<Rightarrow> nodeKey option" where
  "effectiveOwnedBy env d child =
     (case relationSpecs env (nk_type child) of
        Inl _ \<Rightarrow> None
      | Inr specs \<Rightarrow>
          (case filter (\<lambda>s. kind s = OwnedByRelation \<and>
                   length (irf_targets (currentField d (HolderField child (fieldIndex s)))) = 1) specs of
             [] \<Rightarrow> None
           | s # _ \<Rightarrow> Some (irf_targets (currentField d (HolderField child (fieldIndex s))) ! 0)))"

definition validateOwner :: "typeEnv \<Rightarrow> 'p relationIndexDelta \<Rightarrow> nodeKey \<Rightarrow> 'p relationIndexDelta result" where
  "validateOwner env d child =
     bind_result (effectiveIncomingOwn d child)
       (\<lambda>(raw, n).
          let back = effectiveOwnedBy env d child in
          if 1 < n then Inl (ErrRelationInvariant ''has more than one owner'')
          else if n = 1 \<and> back \<noteq> None \<and> raw \<noteq> back then Inl (ErrRelationInvariant ''own and ownedby disagree'')
          else
            let new = (if n = 1 then raw else back); old = map_of (ix_owners (d_index d)) child in
            if old = new then Inr d
            else Inr (d\<lparr>d_ownerChanges := setOwnerChange (d_ownerChanges d) child \<lparr>before = old, after = new\<rparr>\<rparr>))"

definition effectiveOwner :: "'p relationIndexDelta \<Rightarrow> nodeKey \<Rightarrow> nodeKey option" where
  "effectiveOwner d child =
     (case findDelta (d_ownerChanges d) child of
        Some c \<Rightarrow> after c
      | None \<Rightarrow> map_of (ix_owners (d_index d)) child)"

text \<open>Divergence of a chain check would be \<open>None\<close>.\<close>

fun validateOwnerChains :: "('k \<Rightarrow> 'k option) \<Rightarrow> 'k list \<Rightarrow> unit result option" where
  "validateOwnerChains up [] = Some (Inr ())"
| "validateOwnerChains up (k # ks) =
     (case validateOwnerChain up k of
        None \<Rightarrow> None
      | Some (Inl e) \<Rightarrow> Some (Inl e)
      | Some (Inr _) \<Rightarrow> validateOwnerChains up ks)"

definition validateOwnership :: "typeEnv \<Rightarrow> 'p relationIndexDelta \<Rightarrow> 'p relationIndexDelta result option" where
  "validateOwnership env d =
     (let ks = keyList (affected d) in
      case fold_result (validateOwner env) ks d of
        Inl e \<Rightarrow> Some (Inl e)
      | Inr d' \<Rightarrow>
          (case validateOwnerChains (effectiveOwner d') ks of
             None \<Rightarrow> None
           | Some (Inl e) \<Rightarrow> Some (Inl e)
           | Some (Inr _) \<Rightarrow> Some (Inr d')))"

definition supportsOwnershipChanges :: "'p relationIndexDelta \<Rightarrow> bool" where
  "supportsOwnershipChanges d \<longleftrightarrow>
     (\<forall>e \<in> set (dt_values (d_ownerChanges d)). \<not> (before (snd e) \<noteq> None \<and> after (snd e) = None))"

definition collectInverseTargets :: "'p relationIndexDelta \<Rightarrow> 'p relationIndexDelta" where
  "collectInverseTargets d =
     foldl (\<lambda>d e. case irf_spec (snd e) of
          None \<Rightarrow> d
        | Some s \<Rightarrow>
            if kind s \<noteq> BorrowRelation \<and> kind s \<noteq> OptionRelation then d
            else d\<lparr>d_inverseTargets := fold List.insert (irf_targets (fieldOf (d_index d) (fst e)) @ irf_targets (snd e)) (d_inverseTargets d)\<rparr>)
       d (dt_values (d_fields d))"

definition scanDelta ::
  "typeEnv \<Rightarrow> 'p heap \<Rightarrow> (string \<Rightarrow> bool) \<Rightarrow> 'p committedRelationIndex \<Rightarrow> 'p touchedResource list \<Rightarrow> (nodeKey \<times> 'p) list \<Rightarrow>
   'p relationIndexDelta option result" where
  "scanDelta env h registered ix resources creates =
     bind_supported (fold_supported (touchedOverride env h registered ix) resources [])
       (\<lambda>os. bind_supported (indexCreatedTargets env h ix creates)
          (\<lambda>ts. bind_supported (fold_supported (createdOverride env ix) creates os)
             (\<lambda>os'. fold_supported (scanOverride h creates) os'
                \<lparr>d_index = ix, d_created = creates, d_targets = ts, d_overrides = os', d_fields = emptyDelta,
                 d_ownerChanges = emptyDelta, d_inverseTargets = []\<rparr>)))"

definition buildRelationIndexDelta ::
  "typeEnv \<Rightarrow> 'p heap \<Rightarrow> (string \<Rightarrow> bool) \<Rightarrow> 'p committedRelationIndex option \<Rightarrow> 'p touchedResource list \<Rightarrow>
   (nodeKey \<times> 'p) list \<Rightarrow> 'p relationIndexDelta option result option" where
  "buildRelationIndexDelta env h registered index resources creates =
     (case index of
        None \<Rightarrow> Some (Inr None)
      | Some ix \<Rightarrow>
          (case scanDelta env h registered ix resources creates of
             Inl e \<Rightarrow> Some (Inl e)
           | Inr None \<Rightarrow> Some (Inr None)
           | Inr (Some d) \<Rightarrow>
               (case validateOwnership env d of
                  None \<Rightarrow> None
                | Some (Inl e) \<Rightarrow> Some (Inl e)
                | Some (Inr d') \<Rightarrow>
                    Some (Inr (if supportsOwnershipChanges d' then Some (collectInverseTargets d') else None)))))"

end
