(* ===== verification/Index_Ownership.thy ===== *)
theory Index_Ownership
  imports Relation_Index
begin

text \<open>
  Correctness of the ownership check of an incremental commit: what \<open>effectiveIncomingOwn\<close> and
  \<open>effectiveOwnedBy\<close> read from the published index and the pending fields is the graph with
  those fields replaced, and the check accepts exactly the graphs that are ownership forests.
\<close>

section \<open>Ownership as the fields say it\<close>

definition ownField :: "indexedRelationField \<Rightarrow> bool" where
  "ownField x \<longleftrightarrow> (\<exists>s. irf_spec x = Some s \<and> kind s = OwnRelation)"

definition ownCount :: "(relationHolderField \<Rightarrow> indexedRelationField) \<Rightarrow> nodeKey \<Rightarrow> relationHolderField \<Rightarrow> nat" where
  "ownCount F c f = (if ownField (F f) then count_list (irf_targets (F f)) c else 0)"

definition backOwner :: "typeEnv \<Rightarrow> (relationHolderField \<Rightarrow> indexedRelationField) \<Rightarrow> nodeKey \<Rightarrow> nodeKey option" where
  "backOwner env F c =
     (case relationSpecs env (nk_type c) of
        Inl _ \<Rightarrow> None
      | Inr specs \<Rightarrow>
          (case filter (\<lambda>s. kind s = OwnedByRelation \<and> length (irf_targets (F (HolderField c (fieldIndex s)))) = 1) specs of
             [] \<Rightarrow> None
           | s # _ \<Rightarrow> Some (irf_targets (F (HolderField c (fieldIndex s))) ! 0)))"

text \<open>
  \<open>w\<close> is the owner of \<open>c\<close>: at most one own edge in the whole graph points to \<open>c\<close>, it agrees
  with what \<open>c\<close> itself names by \<open>ownedby\<close>, and \<open>w\<close> is the one or else the other.
\<close>

definition owned_by :: "typeEnv \<Rightarrow> (relationHolderField \<Rightarrow> indexedRelationField) \<Rightarrow> nodeKey \<Rightarrow> nodeKey option \<Rightarrow> bool" where
  "owned_by env F c w \<longleftrightarrow>
     (\<forall>f g. 0 < ownCount F c f \<longrightarrow> 0 < ownCount F c g \<longrightarrow> f = g) \<and> (\<forall>f. ownCount F c f \<le> 1) \<and>
     (\<forall>f. 0 < ownCount F c f \<longrightarrow> (\<forall>b. backOwner env F c = Some b \<longrightarrow> b = hf_holder f) \<and> w = Some (hf_holder f)) \<and>
     ((\<forall>f. ownCount F c f = 0) \<longrightarrow> w = backOwner env F c)"

text \<open>A field graph is a forest with these owners.\<close>

definition ownership_forest :: "typeEnv \<Rightarrow> (relationHolderField \<Rightarrow> indexedRelationField) \<Rightarrow> (nodeKey \<Rightarrow> nodeKey option) \<Rightarrow> bool" where
  "ownership_forest env F up \<longleftrightarrow> (\<forall>c. owned_by env F c (up c)) \<and> acyclic (ownerRel up)"

definition spec_of :: "typeEnv \<Rightarrow> relationHolderField \<Rightarrow> relationSpec \<Rightarrow> bool" where
  "spec_of env f s \<longleftrightarrow>
     (\<exists>specs. relationSpecs env (nk_type (hf_holder f)) = Inr specs \<and> s \<in> set specs) \<and>
     fieldIndex s = hf_field f \<and> kind s \<noteq> InverseRelation"

text \<open>What holds of every published index.\<close>

definition counts_agree :: "'p committedRelationIndex \<Rightarrow> bool" where
  "counts_agree ix \<longleftrightarrow>
     (\<forall>t. counts_ok (countsOf ix t) \<and> (\<forall>f. countOf (countsOf ix t) f = int (count_list (irf_targets (fieldOf ix f)) t)))"

definition index_ok :: "typeEnv \<Rightarrow> 'p committedRelationIndex \<Rightarrow> bool" where
  "index_ok env ix \<longleftrightarrow>
     counts_agree ix \<and>
     (\<forall>f x. ix_fields ix f = Some x \<longrightarrow> (\<exists>s. irf_spec x = Some s \<and> spec_of env f s)) \<and>
     ownership_forest env (fieldOf ix) (map_of (ix_owners ix))"

definition delta_wf :: "typeEnv \<Rightarrow> 'p relationIndexDelta \<Rightarrow> bool" where
  "delta_wf env d \<longleftrightarrow>
     index_ok env (d_index d) \<and> delta_ok (d_fields d) \<and> d_ownerChanges d = emptyDelta \<and>
     (\<forall>q \<in> set (dt_values (d_fields d)). \<exists>s. irf_spec (snd q) = Some s \<and> spec_of env (fst q) s)"

section \<open>Fields of a type have distinct indices\<close>

lemma parsed_index: "parseRelationField env t i = Inr (Some s) \<Longrightarrow> fieldIndex s = i"
  by (auto simp: parseRelationField_def Let_def split: option.splits if_splits)

lemma specs_distinct:
  assumes "relationSpecs env t = Inr specs"
  shows "distinct (map fieldIndex specs)"
proof -
  have "distinct (map fieldIndex out')"
    if "fold_result (\<lambda>out i. bind_result (parseRelationField env t i)
        (\<lambda>r. Inr (case r of None \<Rightarrow> out | Some s \<Rightarrow> out @ [s]))) is out = Inr out'"
      "distinct is" "distinct (map fieldIndex out)" "\<forall>s \<in> set out. fieldIndex s \<notin> set is" for "is" out out'
    using that
  proof (induction "is" arbitrary: out)
    case (Cons i "is")
    then obtain r where r: "parseRelationField env t i = Inr r" by (cases "parseRelationField env t i") auto
    show ?case
      by (rule Cons.IH[of "case r of None \<Rightarrow> out | Some s \<Rightarrow> out @ [s]"])
        (use Cons.prems r parsed_index[of env t i] in \<open>auto split: option.splits\<close>)
  qed simp
  then show ?thesis using assms unfolding relationSpecs_def
    by (auto split: option.splits)
qed

lemma spec_of_unique: "spec_of env f s \<Longrightarrow> spec_of env f s' \<Longrightarrow> s = s'"
  using specs_distinct by (fastforce simp: spec_of_def distinct_map inj_on_def)

section \<open>Counting own edges\<close>

text \<open>The own edges to a row, one entry each, in the order the code meets them.\<close>

definition committedOcc :: "'p relationIndexDelta \<Rightarrow> relationHolderField \<times> int \<Rightarrow> relationHolderField list" where
  "committedOcc d e =
     (if findDelta (d_fields d) (fst e) = None \<and> ownField (fieldOf (d_index d) (fst e)) then replicate (nat (snd e)) (fst e) else [])"

definition pendingOcc :: "nodeKey \<Rightarrow> relationHolderField \<times> indexedRelationField \<Rightarrow> relationHolderField list" where
  "pendingOcc c e = (if ownField (snd e) then replicate (count_list (irf_targets (snd e)) c) (fst e) else [])"

definition tally :: "relationHolderField list \<Rightarrow> nodeKey option \<times> int" where
  "tally fs = (case fs of [] \<Rightarrow> None | f # _ \<Rightarrow> Some (hf_holder f), int (length fs))"

lemma tally_snoc: "tally (fs @ [f]) = (if snd (tally fs) = 0 then Some (hf_holder f) else fst (tally fs), snd (tally fs) + 1)"
  by (cases fs) (simp_all add: tally_def)

lemma tally_replicate:
  "0 < n \<Longrightarrow> tally (fs @ replicate n f) = (if snd (tally fs) = 0 then Some (hf_holder f) else fst (tally fs), snd (tally fs) + int n)"
  by (cases fs; cases n) (auto simp: tally_def)

lemma count_committed:
  assumes "\<forall>e \<in> set es. 0 < snd e \<and> irf_spec (fieldOf (d_index d) (fst e)) \<noteq> None"
  shows "fold_result (countCommittedOwn d) es (tally fs) = Inr (tally (fs @ concat (map (committedOcc d) es)))"
  using assms
proof (induction es arbitrary: fs)
  case (Cons e es)
  then obtain s where s: "irf_spec (fieldOf (d_index d) (fst e)) = Some s" "0 < snd e" by auto
  have own: "ownField (fieldOf (d_index d) (fst e)) \<longleftrightarrow> kind s = OwnRelation" using s by (simp add: ownField_def)
  have "countCommittedOwn d (tally fs) e = Inr (tally (fs @ committedOcc d e))"
    using s tally_replicate[of "nat (snd e)" fs "fst e"] by (auto simp: countCommittedOwn_def committedOcc_def own)
  then show ?case using Cons by simp
qed simp

lemma count_pending_targets:
  "foldl (\<lambda>acc t. if t = child then (if snd acc = 0 then Some (hf_holder f) else fst acc, snd acc + 1) else acc) (tally fs) ts =
     tally (fs @ replicate (count_list ts child) f)"
proof (induction ts arbitrary: fs)
  case (Cons t ts)
  have "fs @ f # replicate n f = (fs @ [f]) @ replicate n f" for n by simp
  then show ?case using Cons[of "fs @ [f]"] Cons[of fs] by (simp add: tally_snoc)
qed simp

lemma count_pending:
  "foldl (countPendingOwn child) (tally fs) vs = tally (fs @ concat (map (pendingOcc child) vs))"
proof (induction vs arbitrary: fs)
  case (Cons e vs)
  have "countPendingOwn child (tally fs) e = tally (fs @ pendingOcc child e)"
    by (auto simp: countPendingOwn_def pendingOcc_def ownField_def count_pending_targets split: option.split)
  then show ?case using Cons[of "fs @ pendingOcc child e"] by simp
qed simp

lemma count_list_concat: "count_list (concat xss) x = sum_list (map (\<lambda>xs. count_list xs x) xss)"
  by (induction xss) simp_all

lemma count_list_replicate: "count_list (replicate n y) x = (if x = y then n else 0)"
  by (induction n) auto

lemma sum_at_key:
  assumes "distinct (map fst es)"
  shows "sum_list (map (\<lambda>e. if f = fst e then g (snd e) else 0) es) = (case map_of es f of None \<Rightarrow> 0 | Some v \<Rightarrow> (g v :: nat))"
  using assms
proof (induction es)
  case (Cons e es)
  have "f = fst e \<Longrightarrow> map_of es f = None" using Cons.prems by (simp add: map_of_eq_None_iff)
  then show ?case using Cons by (cases e) auto
qed simp

definition ownOcc :: "'p relationIndexDelta \<Rightarrow> nodeKey \<Rightarrow> relationHolderField list" where
  "ownOcc d c = concat (map (committedOcc d) (entries (countsOf (d_index d) c))) @
     concat (map (pendingOcc c) (dt_values (d_fields d)))"

lemma incoming_tally:
  assumes "delta_wf env d"
  shows "effectiveIncomingOwn d c = Inr (tally (ownOcc d c))"
proof -
  let ?es = "entries (countsOf (d_index d) c)"
  have ok: "counts_ok (countsOf (d_index d) c)"
    "\<And>f. countOf (countsOf (d_index d) c) f = int (count_list (irf_targets (fieldOf (d_index d) f)) c)"
    using assms by (auto simp: delta_wf_def index_ok_def counts_agree_def)
  have "0 < snd e \<and> irf_spec (fieldOf (d_index d) (fst e)) \<noteq> None" if e: "e \<in> set ?es" for e
  proof
    show pos: "0 < snd e" using ok(1) e by (simp add: counts_ok_def)
    have "countOf (countsOf (d_index d) c) (fst e) = snd e"
      using e map_of_eq_Some_iff[OF incoming.keys_distinct[OF ok(1)], of "fst e" "snd e"] by (simp add: countOf_def)
    then have "irf_targets (fieldOf (d_index d) (fst e)) \<noteq> []" using ok(2)[of "fst e"] pos by auto
    then obtain x where "ix_fields (d_index d) (fst e) = Some x" "fieldOf (d_index d) (fst e) = x"
      by (auto simp: fieldOf_def split: option.splits)
    moreover have "\<And>f x. ix_fields (d_index d) f = Some x \<Longrightarrow> irf_spec x \<noteq> None"
      using assms unfolding delta_wf_def index_ok_def by (metis option.distinct(1))
    ultimately show "irf_spec (fieldOf (d_index d) (fst e)) \<noteq> None" by simp
  qed
  then have "fold_result (countCommittedOwn d) ?es (tally []) = Inr (tally ([] @ concat (map (committedOcc d) ?es)))"
    by (intro count_committed) blast
  moreover have "(None, 0) = tally []" by (simp add: tally_def)
  ultimately show ?thesis by (simp add: effectiveIncomingOwn_def ownOcc_def count_pending)
qed

lemma own_occurrences:
  assumes "delta_wf env d"
  shows "count_list (ownOcc d c) f = ownCount (currentField d) c f"
proof -
  let ?es = "entries (countsOf (d_index d) c)" and ?vs = "dt_values (d_fields d)"
  have ok: "counts_ok (countsOf (d_index d) c)"
    "countOf (countsOf (d_index d) c) f = int (count_list (irf_targets (fieldOf (d_index d) f)) c)"
    and dok: "delta_ok (d_fields d)"
    using assms by (auto simp: delta_wf_def index_ok_def counts_agree_def)
  have find: "findDelta (d_fields d) f = map_of ?vs f" by (rule findDelta_conv[OF dok])
  define g where "g n = (if findDelta (d_fields d) f = None \<and> ownField (fieldOf (d_index d) f) then nat n else 0)" for n :: int
  have "count_list (concat (map (committedOcc d) ?es)) f = sum_list (map (\<lambda>e. if f = fst e then g (snd e) else 0) ?es)"
    unfolding count_list_concat map_map
    by (intro arg_cong[of _ _ sum_list] map_cong) (auto simp: committedOcc_def count_list_replicate g_def)
  also have "\<dots> = (case map_of ?es f of None \<Rightarrow> 0 | Some v \<Rightarrow> g v)"
    by (rule sum_at_key[OF incoming.keys_distinct[OF ok(1)]])
  also have "\<dots> = (if findDelta (d_fields d) f = None \<and> ownField (fieldOf (d_index d) f)
      then count_list (irf_targets (fieldOf (d_index d) f)) c else 0)"
    using ok(2) by (cases "map_of ?es f") (simp_all add: countOf_def g_def)
  finally have committed: "count_list (concat (map (committedOcc d) ?es)) f = \<dots>" .
  have "count_list (concat (map (pendingOcc c) ?vs)) f =
      sum_list (map (\<lambda>e. if f = fst e then (\<lambda>x. if ownField x then count_list (irf_targets x) c else 0) (snd e) else 0) ?vs)"
    unfolding count_list_concat map_map
    by (intro arg_cong[of _ _ sum_list] map_cong) (auto simp: pendingOcc_def count_list_replicate)
  also have "\<dots> = (case map_of ?vs f of None \<Rightarrow> 0 | Some x \<Rightarrow> if ownField x then count_list (irf_targets x) c else 0)"
    by (rule sum_at_key[OF pending.keys_distinct[OF dok]])
  finally have "count_list (concat (map (pendingOcc c) ?vs)) f = \<dots>" .
  then show ?thesis using committed unfolding ownOcc_def count_list_append
    by (auto simp: ownCount_def currentField_def find split: option.splits)
qed

section \<open>Checking one row\<close>

definition newOwner :: "typeEnv \<Rightarrow> 'p relationIndexDelta \<Rightarrow> nodeKey \<Rightarrow> nodeKey option" where
  "newOwner env d c =
     (if length (ownOcc d c) = 1 then Some (hf_holder (hd (ownOcc d c))) else backOwner env (currentField d) c)"

lemma length_le_1_iff:
  "length L \<le> 1 \<longleftrightarrow> (\<forall>f g. 0 < count_list L f \<longrightarrow> 0 < count_list L g \<longrightarrow> f = g) \<and> (\<forall>f. count_list L f \<le> 1)"
proof
  assume "length L \<le> 1"
  then consider "L = []" | x where "L = [x]" by (cases L) auto
  then show "(\<forall>f g. 0 < count_list L f \<longrightarrow> 0 < count_list L g \<longrightarrow> f = g) \<and> (\<forall>f. count_list L f \<le> 1)" by cases auto
next
  assume A: "(\<forall>f g. 0 < count_list L f \<longrightarrow> 0 < count_list L g \<longrightarrow> f = g) \<and> (\<forall>f. count_list L f \<le> 1)"
  show "length L \<le> 1"
  proof (cases L)
    case (Cons x xs)
    have "xs = []"
    proof (cases xs)
      case (Cons y ys)
      have "0 < count_list L x" "0 < count_list L y" using \<open>L = x # xs\<close> Cons by auto
      then have "x = y" using A by blast
      then have "count_list L x \<ge> 2" using \<open>L = x # xs\<close> Cons by simp
      then show ?thesis using A by (metis not_less_eq_eq numeral_2_eq_2 One_nat_def)
    qed
    then show ?thesis using Cons by simp
  qed simp
qed

lemma owned_by_conv:
  assumes "delta_wf env d"
  shows "owned_by env (currentField d) c w \<longleftrightarrow>
    length (ownOcc d c) \<le> 1 \<and>
    (length (ownOcc d c) = 1 \<longrightarrow> (\<forall>b. backOwner env (currentField d) c = Some b \<longrightarrow> b = hf_holder (hd (ownOcc d c)))) \<and>
    w = newOwner env d c"
proof -
  let ?L = "ownOcc d c" and ?F = "currentField d"
  have cnt: "ownCount ?F c f = count_list ?L f" for f by (rule own_occurrences[OF assms, symmetric])
  have le: "length ?L \<le> 1 \<longleftrightarrow> (\<forall>f g. 0 < ownCount ?F c f \<longrightarrow> 0 < ownCount ?F c g \<longrightarrow> f = g) \<and> (\<forall>f. ownCount ?F c f \<le> 1)"
    unfolding cnt by (rule length_le_1_iff)
  consider "?L = []" | x where "?L = [x]" | "1 < length ?L"
    by (cases ?L; cases "tl ?L") auto
  then show ?thesis
  proof cases
    case 1
    then have "\<forall>f. ownCount ?F c f = 0" by (simp add: cnt)
    then show ?thesis using 1 by (simp add: owned_by_def newOwner_def)
  next
    case (2 x)
    then have "ownCount ?F c f = (if f = x then 1 else 0)" for f by (simp add: cnt)
    then show ?thesis using 2 by (auto simp: owned_by_def newOwner_def)
  next
    case 3
    then have "\<not> owned_by env ?F c w" using le unfolding owned_by_def by (meson linorder_not_less)
    then show ?thesis using 3 by simp
  qed
qed

definition recordOwner :: "typeEnv \<Rightarrow> 'p relationIndexDelta \<Rightarrow> nodeKey \<Rightarrow> (nodeKey, relationOwnerChange) deltaTable \<Rightarrow> (nodeKey, relationOwnerChange) deltaTable" where
  "recordOwner env d c chg =
     (let old = map_of (ix_owners (d_index d)) c; new = newOwner env d c in
      if old = new then chg else setOwnerChange chg c \<lparr>before = old, after = new\<rparr>)"

lemma currentField_changes: "currentField (d\<lparr>d_ownerChanges := chg\<rparr>) = currentField d"
  by (intro ext) (simp add: currentField_def split: option.split)

lemma validateOwner_conv:
  assumes "delta_wf env d"
  shows "validateOwner env (d\<lparr>d_ownerChanges := chg\<rparr>) c =
    (if owned_by env (currentField d) c (newOwner env d c)
     then Inr (d\<lparr>d_ownerChanges := recordOwner env d c chg\<rparr>)
     else Inl (ErrRelationInvariant (if 1 < length (ownOcc d c) then ''has more than one owner'' else ''own and ownedby disagree'')))"
proof -
  let ?d = "d\<lparr>d_ownerChanges := chg\<rparr>"
  have "countCommittedOwn ?d = countCommittedOwn d"
    by (intro ext) (simp add: countCommittedOwn_def cong: if_cong)
  then have inc: "effectiveIncomingOwn ?d c = Inr (tally (ownOcc d c))"
    using incoming_tally[OF assms, of c] by (simp add: effectiveIncomingOwn_def)
  have bk: "effectiveOwnedBy env ?d c = backOwner env (currentField d) c"
    by (simp only: effectiveOwnedBy_def backOwner_def currentField_changes)
  consider "ownOcc d c = []" | x where "ownOcc d c = [x]" | "1 < length (ownOcc d c)"
    by (cases "ownOcc d c"; cases "tl (ownOcc d c)") auto
  then show ?thesis
    unfolding validateOwner_def inc bk owned_by_conv[OF assms]
    by cases (auto simp: tally_def newOwner_def recordOwner_def Let_def split: list.split)
qed

lemma recordOwner_ok:
  assumes "delta_ok chg" and "c \<notin> set (map fst (dt_values chg))"
  shows "delta_ok (recordOwner env d c chg) \<and>
    map_of (dt_values (recordOwner env d c chg)) =
      (if map_of (ix_owners (d_index d)) c = newOwner env d c then map_of (dt_values chg)
       else (map_of (dt_values chg))(c \<mapsto> \<lparr>before = map_of (ix_owners (d_index d)) c, after = newOwner env d c\<rparr>)) \<and>
    set (map fst (dt_values (recordOwner env d c chg))) \<subseteq> insert c (set (map fst (dt_values chg)))"
proof -
  have "map_of (dt_values chg) c = None" using assms(2) by (simp add: map_of_eq_None_iff)
  then have "map_of (dt_values chg @ [(c, v)]) = (map_of (dt_values chg))(c \<mapsto> v)" for v
    by (auto simp: fun_eq_iff map_add_def split: option.split)
  then show ?thesis
    using addDelta_ok[OF assms] setOwnerChange_ok[OF assms] assms(1) by (auto simp: recordOwner_def Let_def)
qed

lemma validateOwner_fold:
  assumes "delta_wf env d"
  shows "delta_ok chg \<Longrightarrow> distinct ks \<Longrightarrow> set ks \<inter> set (map fst (dt_values chg)) = {} \<Longrightarrow>
    (if \<forall>c \<in> set ks. owned_by env (currentField d) c (newOwner env d c)
     then \<exists>chg'. fold_result (validateOwner env) ks (d\<lparr>d_ownerChanges := chg\<rparr>) = Inr (d\<lparr>d_ownerChanges := chg'\<rparr>) \<and> delta_ok chg' \<and>
       map_of (dt_values chg') = (\<lambda>c. if c \<in> set ks \<and> map_of (ix_owners (d_index d)) c \<noteq> newOwner env d c
         then Some \<lparr>before = map_of (ix_owners (d_index d)) c, after = newOwner env d c\<rparr> else map_of (dt_values chg) c)
     else \<exists>e. fold_result (validateOwner env) ks (d\<lparr>d_ownerChanges := chg\<rparr>) = Inl e)"
proof (induction ks arbitrary: chg)
  case Nil
  then show ?case by auto
next
  case (Cons c ks)
  show ?case
  proof (cases "owned_by env (currentField d) c (newOwner env d c)")
    case False
    then show ?thesis by (simp add: validateOwner_conv[OF assms])
  next
    case True
    let ?chg = "recordOwner env d c chg"
    have c: "c \<notin> set (map fst (dt_values chg))" using Cons.prems by auto
    note R = recordOwner_ok[OF Cons.prems(1) c, of env d]
    have "set ks \<inter> insert c (set (map fst (dt_values chg))) = {}" using Cons.prems(2,3) by auto
    then have fresh: "set ks \<inter> set (map fst (dt_values ?chg)) = {}" using R by blast
    have step: "fold_result (validateOwner env) (c # ks) (d\<lparr>d_ownerChanges := chg\<rparr>) =
        fold_result (validateOwner env) ks (d\<lparr>d_ownerChanges := ?chg\<rparr>)"
      using True by (simp add: validateOwner_conv[OF assms])
    note IH = Cons.IH[OF _ _ fresh]
    show ?thesis
    proof (cases "\<forall>c \<in> set ks. owned_by env (currentField d) c (newOwner env d c)")
      case True
      then obtain chg' where chg': "fold_result (validateOwner env) ks (d\<lparr>d_ownerChanges := ?chg\<rparr>) = Inr (d\<lparr>d_ownerChanges := chg'\<rparr>)"
        "delta_ok chg'"
        "map_of (dt_values chg') = (\<lambda>c. if c \<in> set ks \<and> map_of (ix_owners (d_index d)) c \<noteq> newOwner env d c
           then Some \<lparr>before = map_of (ix_owners (d_index d)) c, after = newOwner env d c\<rparr> else map_of (dt_values ?chg) c)"
        using IH R Cons.prems(2) by auto
      have "map_of (dt_values chg') = (\<lambda>q. if q \<in> set (c # ks) \<and> map_of (ix_owners (d_index d)) q \<noteq> newOwner env d q
           then Some \<lparr>before = map_of (ix_owners (d_index d)) q, after = newOwner env d q\<rparr> else map_of (dt_values chg) q)"
        unfolding chg'(3) using R Cons.prems(2) by (auto simp: fun_eq_iff)
      then show ?thesis using chg' step True \<open>owned_by env (currentField d) c (newOwner env d c)\<close> by auto
    next
      case False
      then have "\<exists>e. fold_result (validateOwner env) ks (d\<lparr>d_ownerChanges := ?chg\<rparr>) = Inl e"
        using IH R Cons.prems(2) by auto
      then show ?thesis using step False by auto
    qed
  qed
qed

section \<open>The rows a delta affects\<close>

lemma addKeys_concat: "foldl (\<lambda>s e. addKeys s (g e)) s es = addKeys s (concat (map g es))"
  by (induction es arbitrary: s) (simp_all add: addKeys_def)

lemma affected_keys:
  "distinct (keyList (affected d)) \<and> set (keyList (affected d)) = (\<Union>e \<in> set (dt_values (d_fields d)). set (affectedKeys d e))"
  using keyList_addKeys[of "concat (map (affectedKeys d) (dt_values (d_fields d)))"]
  by (simp add: affected_def addKeys_concat)

lemma owned_by_unique: "owned_by env F c w \<Longrightarrow> owned_by env F c w' \<Longrightarrow> w = w'"
proof -
  assume A: "owned_by env F c w" "owned_by env F c w'"
  show "w = w'"
  proof (cases "\<forall>f. ownCount F c f = 0")
    case True
    then show ?thesis using A unfolding owned_by_def by (metis less_irrefl)
  next
    case False
    then obtain f where "0 < ownCount F c f" by auto
    then show ?thesis using A unfolding owned_by_def by (metis option.inject)
  qed
qed

lemma owned_by_cong:
  assumes "\<And>f. ownCount F c f = ownCount G c f" and "backOwner env F c = backOwner env G c"
  shows "owned_by env F c w \<longleftrightarrow> owned_by env G c w"
  unfolding owned_by_def assms ..

lemma unaffected_owner:
  assumes "delta_wf env d" and "c \<notin> set (keyList (affected d))"
  shows "owned_by env (currentField d) c w \<longleftrightarrow> owned_by env (fieldOf (d_index d)) c w"
proof (rule owned_by_cong)
  have dok: "delta_ok (d_fields d)" using assms(1) by (simp add: delta_wf_def)
  have find: "findDelta (d_fields d) f = Some x \<Longrightarrow> (f, x) \<in> set (dt_values (d_fields d))" for f x
    by (simp add: findDelta_conv[OF dok] map_of_SomeD)
  have out: "e \<in> set (dt_values (d_fields d)) \<Longrightarrow> c \<notin> set (affectedKeys d e)" for e
    using assms(2) affected_keys[of d] by blast
  have old: "ix_fields (d_index d) f = Some x \<Longrightarrow> \<exists>s. irf_spec x = Some s \<and> spec_of env f s" for f x
    using assms(1) unfolding delta_wf_def index_ok_def by blast
  show "ownCount (currentField d) c f = ownCount (fieldOf (d_index d)) c f" for f
  proof (cases "findDelta (d_fields d) f")
    case None
    then show ?thesis by (simp add: ownCount_def currentField_def)
  next
    case (Some x)
    then have e: "(f, x) \<in> set (dt_values (d_fields d))" by (rule find)
    then obtain s where s: "irf_spec x = Some s" "spec_of env f s" using assms(1) unfolding delta_wf_def by force
    show ?thesis
    proof (cases "kind s = OwnRelation")
      case True
      then have "c \<notin> set (irf_targets (fieldOf (d_index d) f))" "c \<notin> set (irf_targets x)"
        using out[OF e] s(1) by (auto simp: affectedKeys_def)
      then show ?thesis using Some by (simp add: ownCount_def currentField_def count_list_0_iff)
    next
      case False
      have "\<not> ownField (fieldOf (d_index d) f)"
      proof (cases "ix_fields (d_index d) f")
        case None
        then show ?thesis by (simp add: fieldOf_def ownField_def)
      next
        case (Some y)
        then obtain s' where "irf_spec y = Some s'" "spec_of env f s'" using old by blast
        then have "irf_spec y = Some s" using spec_of_unique s(2) by metis
        then show ?thesis using False Some by (simp add: fieldOf_def ownField_def)
      qed
      moreover have "\<not> ownField x" using False s(1) by (simp add: ownField_def)
      ultimately show ?thesis using Some by (simp add: ownCount_def currentField_def)
    qed
  qed
  have same: "currentField d (HolderField c (fieldIndex s)) = fieldOf (d_index d) (HolderField c (fieldIndex s))"
    if s: "relationSpecs env (nk_type c) = Inr specs" "s \<in> set specs" "kind s = OwnedByRelation" for s specs
  proof (cases "findDelta (d_fields d) (HolderField c (fieldIndex s))")
    case None
    then show ?thesis by (simp add: currentField_def)
  next
    case (Some x)
    then have e: "(HolderField c (fieldIndex s), x) \<in> set (dt_values (d_fields d))" by (rule find)
    then obtain s' where s': "irf_spec x = Some s'" "spec_of env (HolderField c (fieldIndex s)) s'"
      using assms(1) unfolding delta_wf_def by force
    moreover have "spec_of env (HolderField c (fieldIndex s)) s" using s by (auto simp: spec_of_def)
    ultimately have "s' = s" using spec_of_unique by blast
    then have "c \<in> set (affectedKeys d (HolderField c (fieldIndex s), x))" using s' s by (simp add: affectedKeys_def)
    then show ?thesis using out[OF e] by blast
  qed
  show "backOwner env (currentField d) c = backOwner env (fieldOf (d_index d)) c"
  proof (cases "relationSpecs env (nk_type c)")
    case (Inr specs)
    let ?p = "\<lambda>F s. kind s = OwnedByRelation \<and> length (irf_targets (F (HolderField c (fieldIndex s)))) = 1"
    have "filter (?p (currentField d)) specs = filter (?p (fieldOf (d_index d))) specs"
      using same[OF Inr] by (intro filter_cong) auto
    moreover have "s # ss = filter (?p (fieldOf (d_index d))) specs \<Longrightarrow>
        currentField d (HolderField c (fieldIndex s)) = fieldOf (d_index d) (HolderField c (fieldIndex s))" for s ss
    proof -
      assume "s # ss = filter (?p (fieldOf (d_index d))) specs"
      then have "s \<in> set (filter (?p (fieldOf (d_index d))) specs)" by (metis list.set_intros(1))
      then show ?thesis using same[OF Inr, of s] by simp
    qed
    ultimately show ?thesis by (auto simp: backOwner_def Inr split: list.split)
  qed (simp add: backOwner_def)
qed

section \<open>The whole check\<close>

lemma validateOwnerChains_conv:
  assumes "finite (dom up)"
  shows "(\<exists>r. validateOwnerChains up ks = Some r) \<and>
    (validateOwnerChains up ks = Some (Inr ()) \<longleftrightarrow> (\<forall>k \<in> set ks. \<exists>n. ancestor up n k = None))"
proof (induction ks)
  case (Cons k ks)
  then show ?case by (auto simp: owner_chain[OF assms])
qed simp

lemma cycle_stays_old:
  assumes "(a, b) \<in> (ownerRel up)\<^sup>+" and "\<And>y. (a, y) \<in> (ownerRel up)\<^sup>* \<Longrightarrow> up y = old y"
  shows "(a, b) \<in> (ownerRel old)\<^sup>+"
  using assms(1)
proof (induction rule: trancl_induct)
  case (base b)
  then show ?case using assms(2)[of a] by (auto simp: ownerRel_def)
next
  case (step b c)
  then have "up b = old b" using assms(2)[of b] by (simp add: trancl_into_rtrancl)
  then show ?case using step by (auto simp: ownerRel_def intro: trancl_into_trancl)
qed

lemma changed_chains_suffice:
  assumes "acyclic (ownerRel old)" and "\<And>c. c \<notin> K \<Longrightarrow> up c = old c" and "\<And>k. k \<in> K \<Longrightarrow> \<exists>n. ancestor up n k = None"
  shows "acyclic (ownerRel up)"
  unfolding acyclic_def
proof (intro allI notI)
  fix k assume c: "(k, k) \<in> (ownerRel up)\<^sup>+"
  have "y \<notin> K" if y: "(k, y) \<in> (ownerRel up)\<^sup>*" for y
  proof
    assume "y \<in> K"
    then obtain n where "ancestor up n y = None" using assms(3) by blast
    moreover obtain m where "ancestor up m k = Some y" using in_ancestor[OF y] by blast
    ultimately have "ancestor up (m + n) k = None" by (simp add: ancestor_add)
    then show False using on_cycle_endless[OF c] by blast
  qed
  then have "(k, k) \<in> (ownerRel old)\<^sup>+" by (intro cycle_stays_old[OF c]) (use assms(2) in blast)
  then show False using assms(1) by (simp add: acyclic_def)
qed

lemma ownership_check:
  assumes "delta_wf env d"
  shows "\<exists>r. validateOwnership env d = Some r \<and>
    ((\<exists>d'. r = Inr d') \<longleftrightarrow> (\<exists>up. ownership_forest env (currentField d) up)) \<and>
    (\<forall>d'. r = Inr d' \<longrightarrow> ownership_forest env (currentField d) (effectiveOwner d') \<and>
       delta_ok (d_ownerChanges d') \<and> d' = d\<lparr>d_ownerChanges := d_ownerChanges d'\<rparr> \<and>
       (\<forall>q \<in> set (dt_values (d_ownerChanges d')). before (snd q) = map_of (ix_owners (d_index d)) (fst q)))"
proof -
  let ?ks = "keyList (affected d)" and ?F = "currentField d" and ?old = "map_of (ix_owners (d_index d))"
  have keys: "distinct ?ks" using affected_keys by blast
  have forest: "\<And>c. owned_by env (fieldOf (d_index d)) c (?old c)" "acyclic (ownerRel ?old)"
    using assms by (auto simp: delta_wf_def index_ok_def ownership_forest_def)
  have d: "d\<lparr>d_ownerChanges := emptyDelta\<rparr> = d" using assms by (simp add: delta_wf_def)
  have "set ?ks \<inter> set (map fst (dt_values emptyDelta)) = {}" by (simp add: delta_empty)
  note fold = validateOwner_fold[OF assms delta_empty(1) keys this]
  define U where "U c = (if c \<in> set ?ks then newOwner env d c else ?old c)" for c
  have rest: "c \<notin> set ?ks \<Longrightarrow> owned_by env ?F c w \<longleftrightarrow> w = ?old c" for c w
    using unaffected_owner[OF assms, of c w] forest(1)[of c] owned_by_unique by blast
  have unique: "owned_by env ?F c w \<Longrightarrow> w = U c" for c w
    using rest[of c w] owned_by_conv[OF assms, of c w] by (simp add: U_def split: if_splits)
  show ?thesis
  proof (cases "\<forall>c \<in> set ?ks. owned_by env ?F c (newOwner env d c)")
    case False
    obtain e where "fold_result (validateOwner env) ?ks d = Inl e"
      using fold[unfolded if_not_P[OF False]] unfolding d by blast
    then have "validateOwnership env d = Some (Inl e)" by (simp add: validateOwnership_def Let_def)
    moreover have "\<not> ownership_forest env ?F up" for up
      using False owned_by_conv[OF assms] unfolding ownership_forest_def by blast
    ultimately show ?thesis by blast
  next
    case True
    then obtain chg where chg: "fold_result (validateOwner env) ?ks d = Inr (d\<lparr>d_ownerChanges := chg\<rparr>)" "delta_ok chg"
      "map_of (dt_values chg) = (\<lambda>c. if c \<in> set ?ks \<and> ?old c \<noteq> newOwner env d c
         then Some \<lparr>before = ?old c, after = newOwner env d c\<rparr> else None)"
      using fold[unfolded if_P[OF True] d delta_empty(2) map_of.simps] by blast
    let ?d = "d\<lparr>d_ownerChanges := chg\<rparr>"
    have U: "effectiveOwner ?d = U"
      by (auto simp: fun_eq_iff effectiveOwner_def findDelta_conv[OF chg(2)] chg(3) U_def)
    have owned: "owned_by env ?F c (U c)" for c using True rest by (simp add: U_def)
    have "dom U \<subseteq> set ?ks \<union> dom ?old" by (auto simp: U_def split: if_splits)
    then have fin: "finite (dom U)" by (rule finite_subset) (simp add: finite_dom_map_of)
    have chains: "validateOwnerChains U ?ks = Some (Inr ()) \<longleftrightarrow> acyclic (ownerRel U)"
      using validateOwnerChains_conv[OF fin, of ?ks] acyclic_chain_ends[OF fin]
        changed_chains_suffice[OF forest(2), of "set ?ks" U] by (auto simp: U_def)
    obtain r where r: "validateOwnerChains U ?ks = Some r" using validateOwnerChains_conv[OF fin, of ?ks] by blast
    have v: "validateOwnership env d = Some (case r of Inl e \<Rightarrow> Inl e | Inr _ \<Rightarrow> Inr ?d)"
      using chg(1) r by (auto simp: validateOwnership_def Let_def U split: sum.split)
    have "(\<exists>up. ownership_forest env ?F up) \<longleftrightarrow> acyclic (ownerRel U)"
    proof
      assume "\<exists>up. ownership_forest env ?F up"
      then obtain up where up: "\<And>c. owned_by env ?F c (up c)" "acyclic (ownerRel up)" by (auto simp: ownership_forest_def)
      have "up = U" using unique[OF up(1)] by (rule ext)
      then show "acyclic (ownerRel U)" using up(2) by simp
    next
      assume "acyclic (ownerRel U)"
      then show "\<exists>up. ownership_forest env ?F up" using owned by (auto simp: ownership_forest_def)
    qed
    moreover have "before (snd q) = ?old (fst q)" if "q \<in> set (dt_values chg)" for q
    proof -
      have "map_of (dt_values chg) (fst q) = Some (snd q)"
        using that map_of_eq_Some_iff[OF pending.keys_distinct[OF chg(2)]] by simp
      then show ?thesis unfolding chg(3) by (simp split: if_splits) (metis relationOwnerChange.select_convs(1))
    qed
    ultimately show ?thesis
      using v r chains owned chg(2) U by (cases r) (auto simp: ownership_forest_def)
  qed
qed

section \<open>Deltas the scan builds\<close>

definition scan_state_ok :: "typeEnv \<Rightarrow> 'p committedRelationIndex \<Rightarrow> 'p relationIndexDelta \<Rightarrow> bool" where
  "scan_state_ok env ix d \<longleftrightarrow>
     d_index d = ix \<and> delta_ok (d_fields d) \<and> d_ownerChanges d = emptyDelta \<and>
     (\<forall>q \<in> set (dt_values (d_fields d)). \<exists>s. irf_spec (snd q) = Some s \<and> spec_of env (fst q) s)"

definition deltaKeys :: "'p relationIndexDelta \<Rightarrow> relationHolderField set" where
  "deltaKeys d = set (map fst (dt_values (d_fields d)))"

lemma scan_spec:
  assumes "scan_state_ok env ix d" and "relationSpecs env (nk_type key) = Inr specs" and "s \<in> set specs"
    and "HolderField key (fieldIndex s) \<notin> deltaKeys d"
    and "scanOverrideSpec h creates key a d s = Inr (Some d')"
  shows "scan_state_ok env ix d' \<and> deltaKeys d' \<subseteq> insert (HolderField key (fieldIndex s)) (deltaKeys d) \<and>
    d_created d' = d_created d \<and> d_targets d' = d_targets d \<and> d_overrides d' = d_overrides d"
proof (cases "kind s = InverseRelation")
  case True
  then show ?thesis using assms(1,5) by (auto simp: scanOverrideSpec_def scan_state_ok_def deltaKeys_def)
next
  case False
  let ?f = "HolderField key (fieldIndex s)"
  have spec: "spec_of env ?f s" using assms(2,3) False by (auto simp: spec_of_def)
  let ?fs = "addDelta (d_fields d) ?f \<lparr>irf_spec = Some s, irf_targets = []\<rparr>"
  obtain ts where d': "d' = d\<lparr>d_fields := writeDelta ?fs ?f \<lparr>irf_spec = Some s, irf_targets = ts\<rparr>\<rparr>"
    using assms(5) False by (auto simp: scanOverrideSpec_def Let_def split: option.splits if_splits sum.splits)
  have ok: "delta_ok (d_fields d)" using assms(1) by (simp add: scan_state_ok_def)
  have add: "delta_ok ?fs" "dt_values ?fs = dt_values (d_fields d) @ [(?f, \<lparr>irf_spec = Some s, irf_targets = []\<rparr>)]"
    using addDelta_ok[OF ok] assms(4) by (auto simp: deltaKeys_def)
  have "map_of (dt_values ?fs) ?f \<noteq> None" unfolding add(2) by (simp add: map_of_eq_None_iff)
  from writeDelta_ok[OF add(1) this, of "\<lparr>irf_spec = Some s, irf_targets = ts\<rparr>"]
  have w: "delta_ok (d_fields d')"
    "map_of (dt_values (d_fields d')) = (map_of (dt_values ?fs))(?f \<mapsto> \<lparr>irf_spec = Some s, irf_targets = ts\<rparr>)"
    "map fst (dt_values (d_fields d')) = map fst (dt_values ?fs)" by (auto simp: d')
  have "\<exists>s. irf_spec (snd q) = Some s \<and> spec_of env (fst q) s" if q: "q \<in> set (dt_values (d_fields d'))" for q
  proof (cases "fst q = ?f")
    case True
    have "map_of (dt_values (d_fields d')) (fst q) = Some (snd q)"
      using q map_of_eq_Some_iff[OF pending.keys_distinct[OF w(1)]] by simp
    then have "snd q = \<lparr>irf_spec = Some s, irf_targets = ts\<rparr>" using True w(2) by simp
    then show ?thesis using spec True by simp
  next
    case False
    have "map_of (dt_values (d_fields d')) (fst q) = Some (snd q)"
      using q map_of_eq_Some_iff[OF pending.keys_distinct[OF w(1)]] by simp
    then have "map_of (dt_values ?fs) (fst q) = Some (snd q)" using False w(2) by simp
    then have "(fst q, snd q) \<in> set (dt_values ?fs)" by (rule map_of_SomeD)
    then have "q \<in> set (dt_values (d_fields d))" using False by (auto simp: add(2))
    then show ?thesis using assms(1) unfolding scan_state_ok_def by blast
  qed
  moreover have "deltaKeys d' \<subseteq> insert ?f (deltaKeys d)" using w(3) by (auto simp: deltaKeys_def add(2))
  ultimately show ?thesis using w(1) assms(1) unfolding scan_state_ok_def by (auto simp: d')
qed

lemma fold_supported_Cons:
  "fold_supported f (x # xs) s = Inr (Some t) \<longleftrightarrow> (\<exists>u. f s x = Inr (Some u) \<and> fold_supported f xs u = Inr (Some t))"
  by (auto split: sum.splits option.splits)

declare fold_supported.simps(2) [simp del]

lemma scan_specs:
  assumes "relationSpecs env (nk_type key) = Inr specs"
  shows "scan_state_ok env ix d \<Longrightarrow> set ss \<subseteq> set specs \<Longrightarrow> distinct (map fieldIndex ss) \<Longrightarrow>
    (\<forall>s \<in> set ss. HolderField key (fieldIndex s) \<notin> deltaKeys d) \<Longrightarrow>
    fold_supported (scanOverrideSpec h creates key a) ss d = Inr (Some d') \<Longrightarrow>
    scan_state_ok env ix d' \<and> (\<forall>f \<in> deltaKeys d'. f \<in> deltaKeys d \<or> hf_holder f = key) \<and>
    d_created d' = d_created d \<and> d_targets d' = d_targets d \<and> d_overrides d' = d_overrides d"
proof (induction ss arbitrary: d)
  case Nil
  then show ?case by simp
next
  case (Cons s ss)
  then obtain u where u: "scanOverrideSpec h creates key a d s = Inr (Some u)"
    "fold_supported (scanOverrideSpec h creates key a) ss u = Inr (Some d')" by (auto simp: fold_supported_Cons)
  have s: "s \<in> set specs" "HolderField key (fieldIndex s) \<notin> deltaKeys d" using Cons.prems by auto
  note step = scan_spec[OF Cons.prems(1) assms s u(1)]
  have "\<forall>t \<in> set ss. HolderField key (fieldIndex t) \<notin> deltaKeys u"
  proof
    fix t assume t: "t \<in> set ss"
    have "fieldIndex s \<notin> fieldIndex ` set ss" using Cons.prems(3) by simp
    then have "fieldIndex t \<noteq> fieldIndex s" using t by (metis image_eqI)
    then show "HolderField key (fieldIndex t) \<notin> deltaKeys u" using step Cons.prems(4) t by auto
  qed
  then have "scan_state_ok env ix d' \<and> (\<forall>f \<in> deltaKeys d'. f \<in> deltaKeys u \<or> hf_holder f = key) \<and>
      d_created d' = d_created u \<and> d_targets d' = d_targets u \<and> d_overrides d' = d_overrides u"
    using Cons.IH[OF _ _ _ _ u(2)] step Cons.prems by auto
  then show ?case using step by auto
qed

lemma scan_overrides:
  assumes "\<And>q. q \<in> set os \<Longrightarrow> relationSpecs env (nk_type (fst q)) = Inr (snd (snd q))"
  shows "scan_state_ok env ix d \<Longrightarrow> distinct (map fst os) \<Longrightarrow> (\<forall>f \<in> deltaKeys d. hf_holder f \<notin> fst ` set os) \<Longrightarrow>
    fold_supported (scanOverride h creates) os d = Inr (Some d') \<Longrightarrow>
    scan_state_ok env ix d' \<and> (\<forall>f \<in> deltaKeys d'. f \<in> deltaKeys d \<or> hf_holder f \<in> fst ` set os) \<and>
    d_created d' = d_created d \<and> d_targets d' = d_targets d \<and> d_overrides d' = d_overrides d"
  using assms
proof (induction os arbitrary: d)
  case Nil
  then show ?case by simp
next
  case (Cons q os)
  then obtain u where u: "scanOverride h creates d q = Inr (Some u)"
    "fold_supported (scanOverride h creates) os u = Inr (Some d')" by (auto simp: fold_supported_Cons)
  have specs: "relationSpecs env (nk_type (fst q)) = Inr (snd (snd q))" using Cons.prems(5) by simp
  have new: "\<forall>s \<in> set (snd (snd q)). HolderField (fst q) (fieldIndex s) \<notin> deltaKeys d" using Cons.prems(3) by auto
  note step = scan_specs[OF specs Cons.prems(1) subset_refl specs_distinct[OF specs] new u(1)[unfolded scanOverride_def]]
  have "fst q \<notin> fst ` set os" "\<forall>f \<in> deltaKeys d. hf_holder f \<notin> fst ` set os" using Cons.prems(2,3) by auto
  then have "\<forall>f \<in> deltaKeys u. hf_holder f \<notin> fst ` set os" using step by metis
  then have "scan_state_ok env ix d' \<and> (\<forall>f \<in> deltaKeys d'. f \<in> deltaKeys u \<or> hf_holder f \<in> fst ` set os) \<and>
      d_created d' = d_created u \<and> d_targets d' = d_targets u \<and> d_overrides d' = d_overrides u"
    using Cons.IH[OF _ _ _ u(2)] step Cons.prems(2,5) by auto
  then show ?case using step by auto
qed

lemma bind_supported_Some:
  "bind_supported r f = Inr (Some y) \<longleftrightarrow> (\<exists>x. r = Inr (Some x) \<and> f x = Inr (Some y))"
  by (auto simp: bind_supported_def split: sum.splits option.splits)

definition resourceKey :: "'p touchedResource \<Rightarrow> nodeKey" where
  "resourceKey r = NodeKey (tr_dbName r) (tr_id r)"

lemma touched_overrides:
  "fold_supported (touchedOverride env h registered ix) rs out = Inr (Some os) \<Longrightarrow>
   \<exists>new. os = out @ new \<and> map fst new = map resourceKey rs \<and> map (\<lambda>q. fst (snd q)) new = map tr_work rs \<and>
     (\<forall>q \<in> set new. ix_nodes ix (fst q) \<noteq> None \<and> relationSpecs env (nk_type (fst q)) = Inr (snd (snd q)))"
proof (induction rs arbitrary: out)
  case Nil
  then show ?case by simp
next
  case (Cons r rs)
  then obtain u where u: "touchedOverride env h registered ix out r = Inr (Some u)"
    "fold_supported (touchedOverride env h registered ix) rs u = Inr (Some os)" by (auto simp: fold_supported_Cons)
  obtain specs where specs: "relationSpecs env (nk_type (resourceKey r)) = Inr specs" "ix_nodes ix (resourceKey r) \<noteq> None"
    "u = out @ [(resourceKey r, tr_work r, specs)]"
    using u(1) by (auto simp: touchedOverride_def resourceKey_def Let_def split: option.splits if_splits sum.splits)
  obtain new where "os = u @ new" "map fst new = map resourceKey rs" "map (\<lambda>q. fst (snd q)) new = map tr_work rs"
    "\<forall>q \<in> set new. ix_nodes ix (fst q) \<noteq> None \<and> relationSpecs env (nk_type (fst q)) = Inr (snd (snd q))"
    using Cons.IH[OF u(2)] by blast
  then show ?case using specs by (intro exI[of _ "(resourceKey r, tr_work r, specs) # new"]) simp
qed

lemma created_overrides:
  "fold_supported (createdOverride env ix) cs out = Inr (Some os) \<Longrightarrow>
   \<exists>new. os = out @ new \<and> map fst new = map fst cs \<and> map (\<lambda>q. fst (snd q)) new = map snd cs \<and>
     (\<forall>q \<in> set new. ix_nodes ix (fst q) = None \<and> relationSpecs env (nk_type (fst q)) = Inr (snd (snd q)))"
proof (induction cs arbitrary: out)
  case Nil
  then show ?case by simp
next
  case (Cons c cs)
  then obtain u where u: "createdOverride env ix out c = Inr (Some u)"
    "fold_supported (createdOverride env ix) cs u = Inr (Some os)" by (auto simp: fold_supported_Cons)
  obtain specs where specs: "relationSpecs env (nk_type (fst c)) = Inr specs" "ix_nodes ix (fst c) = None"
    "u = out @ [(fst c, snd c, specs)]"
    using u(1) by (auto simp: createdOverride_def split: option.splits if_splits sum.splits)
  obtain new where "os = u @ new" "map fst new = map fst cs" "map (\<lambda>q. fst (snd q)) new = map snd cs"
    "\<forall>q \<in> set new. ix_nodes ix (fst q) = None \<and> relationSpecs env (nk_type (fst q)) = Inr (snd (snd q))"
    using Cons.IH[OF u(2)] by blast
  then show ?case using specs by (intro exI[of _ "(fst c, snd c, specs) # new"]) simp
qed

lemma scanDelta_wf:
  assumes "index_ok env ix" and "distinct (map resourceKey resources)" and "distinct (map fst creates)"
    and "scanDelta env h registered ix resources creates = Inr (Some d)"
  shows "delta_wf env d \<and> d_index d = ix \<and> d_created d = creates \<and>
    (\<forall>q \<in> set (dt_values (d_fields d)). hf_holder (fst q) \<in> resourceKey ` set resources \<union> fst ` set creates)"
proof -
  from assms(4) obtain os ts os' where os:
    "fold_supported (touchedOverride env h registered ix) resources [] = Inr (Some os)"
    "fold_supported (createdOverride env ix) creates os = Inr (Some os')"
    "fold_supported (scanOverride h creates) os'
       \<lparr>d_index = ix, d_created = creates, d_targets = ts, d_overrides = os', d_fields = emptyDelta,
        d_ownerChanges = emptyDelta, d_inverseTargets = []\<rparr> = Inr (Some d)"
    by (auto simp: scanDelta_def bind_supported_Some)
  obtain new where os': "os' = os @ new" "map fst new = map fst creates"
    "\<forall>q \<in> set new. ix_nodes ix (fst q) = None \<and> relationSpecs env (nk_type (fst q)) = Inr (snd (snd q))"
    using created_overrides[OF os(2)] by blast
  have old: "map fst os = map resourceKey resources"
    "\<forall>q \<in> set os. ix_nodes ix (fst q) \<noteq> None \<and> relationSpecs env (nk_type (fst q)) = Inr (snd (snd q))"
    using touched_overrides[OF os(1)] by auto
  have specs: "q \<in> set os' \<Longrightarrow> relationSpecs env (nk_type (fst q)) = Inr (snd (snd q))" for q
    using os' old(2) by auto
  have "fst ` set os \<inter> fst ` set new = {}" using os'(3) old(2) by force
  moreover have "distinct (map fst os)" unfolding old(1) by (rule assms(2))
  moreover have "distinct (map fst new)" unfolding os'(2) by (rule assms(3))
  ultimately have d': "distinct (map fst os')" by (simp add: os'(1))
  let ?d0 = "\<lparr>d_index = ix, d_created = creates, d_targets = ts, d_overrides = os', d_fields = emptyDelta,
        d_ownerChanges = emptyDelta, d_inverseTargets = []\<rparr>"
  have ok0: "scan_state_ok env ix ?d0" by (simp add: scan_state_ok_def delta_empty)
  have k0: "\<forall>f \<in> deltaKeys ?d0. hf_holder f \<notin> fst ` set os'" by (simp add: deltaKeys_def delta_empty)
  from scan_overrides[OF specs ok0 d' k0 os(3)]
  have R: "scan_state_ok env ix d" "\<forall>f \<in> deltaKeys d. f \<in> deltaKeys ?d0 \<or> hf_holder f \<in> fst ` set os'" "d_created d = creates"
    by auto
  have "fst ` set os' = resourceKey ` set resources \<union> fst ` set creates"
    using arg_cong[OF old(1), of set] arg_cong[OF os'(2), of set] os'(1) by (simp add: image_Un)
  then have "\<forall>q \<in> set (dt_values (d_fields d)). hf_holder (fst q) \<in> resourceKey ` set resources \<union> fst ` set creates"
    using R(2) by (auto simp: deltaKeys_def delta_empty)
  then show ?thesis using R assms(1) unfolding delta_wf_def scan_state_ok_def by blast
qed

text \<open>
  C20. The ownership check of an incremental commit always returns, and its verdict is exact:
  with the published index standing for a forest, and the scanned fields replaced, it accepts
  if and only if the resulting graph is an ownership forest again (at most one own edge to a
  row, agreement with \<open>ownedby\<close>, no cycle), and the owner changes it leaves give every row
  its owner in that forest.
\<close>

theorem incremental_ownership_check_is_exact:
  assumes "index_ok env ix" and "distinct (map resourceKey resources)" and "distinct (map fst creates)"
    and "scanDelta env h registered ix resources creates = Inr (Some d)"
  shows "\<exists>r. validateOwnership env d = Some r \<and>
    ((\<exists>d'. r = Inr d') \<longleftrightarrow> (\<exists>up. ownership_forest env (currentField d) up)) \<and>
    (\<forall>d'. r = Inr d' \<longrightarrow> ownership_forest env (currentField d) (effectiveOwner d'))"
  using ownership_check[of env d] scanDelta_wf[OF assms] by blast

end
