(* ===== verification/Index_Publish.thy ===== *)
theory Index_Publish
  imports Index_Ownership
begin

text \<open>
  Publishing a delta (\<open>publishAndRewire\<close> of \<open>relation_index.go\<close>): the index, the committed
  children and the relation pointers of the live rows after an incremental commit, and the
  invariant of the index that it keeps.
\<close>

section \<open>The committed state\<close>

record 'p committedOwnership =
  co_ready :: bool
  co_outgoing :: "(nodeKey \<times> nodeKey list) list"
  co_branches :: "nodeKey \<Rightarrow> nodeKey list option"
  co_graph :: "'p relationModel option"
  co_index :: "'p committedRelationIndex option"

definition bindCreatedNode :: "nodeKey \<Rightarrow> 'p \<Rightarrow> 'p relationIndexDelta \<Rightarrow> 'p relationIndexDelta" where
  "bindCreatedNode key live d = d\<lparr>d_created := AList.update key live (d_created d)\<rparr>"

definition removeCommittedChild :: "nodeKey \<Rightarrow> nodeKey \<Rightarrow> (nodeKey \<times> nodeKey list) list \<Rightarrow> (nodeKey \<times> nodeKey list) list" where
  "removeCommittedChild w c out =
     (let cs = childList out w in if c \<in> set cs then AList.update w (remove1 c cs) out else out)"

definition addCommittedChild :: "nodeKey \<Rightarrow> nodeKey \<Rightarrow> (nodeKey \<times> nodeKey list) list \<Rightarrow> (nodeKey \<times> nodeKey list) list" where
  "addCommittedChild w c out =
     (let cs = childList out w in if c \<in> set cs then out else AList.update w (cs @ [c]) out)"

definition publishField ::
  "'p committedRelationIndex \<Rightarrow> relationHolderField \<times> indexedRelationField \<Rightarrow> 'p committedRelationIndex" where
  "publishField ix e =
     (let f = fst e;
          ix1 = foldl (\<lambda>ix t. decrementIncoming t f ix) ix (irf_targets (fieldOf ix f))
      in foldl (\<lambda>ix t. incrementIncoming t f ix) (ix1\<lparr>ix_fields := (ix_fields ix1)(f \<mapsto> snd e)\<rparr>) (irf_targets (snd e)))"

definition publishOwner ::
  "(nodeKey \<times> nodeKey) list \<times> (nodeKey \<times> nodeKey list) list \<Rightarrow> nodeKey \<times> relationOwnerChange \<Rightarrow>
   (nodeKey \<times> nodeKey) list \<times> (nodeKey \<times> nodeKey list) list" where
  "publishOwner st e =
     (let st1 = (case before (snd e) of
                   None \<Rightarrow> st
                 | Some b \<Rightarrow> (AList.delete (fst e) (fst st), removeCommittedChild b (fst e) (snd st)))
      in case after (snd e) of
           None \<Rightarrow> st1
         | Some w \<Rightarrow> (AList.update (fst e) w (fst st1), addCommittedChild w (fst e) (snd st1)))"

definition publishRows :: "'p relationIndexDelta \<Rightarrow> 'p committedRelationIndex \<Rightarrow> 'p committedRelationIndex" where
  "publishRows d ix =
     ix\<lparr>ix_nodes := foldl (\<lambda>m c. m(fst c \<mapsto> snd c)) (ix_nodes ix) (d_created d),
        ix_targets := (\<lambda>l. case d_targets d l of None \<Rightarrow> ix_targets ix l | Some t \<Rightarrow> Some t)\<rparr>"

section \<open>Rewiring\<close>

text \<open>Setting a field to a nil \<open>reflect.Value\<close>, the entry of an unknown row, panics.\<close>

definition setIndexedRelationField :: "'p heap \<Rightarrow> 'p \<Rightarrow> nat \<Rightarrow> nodeKey list \<Rightarrow> (nodeKey \<Rightarrow> 'p option) \<Rightarrow> 'p heap result" where
  "setIndexedRelationField h a i ts nodes =
     (case pointers (h a) i of
        Pointer _ \<Rightarrow>
          (case ts of
             [] \<Rightarrow> Inr (h(a := (h a)\<lparr>pointers := (pointers (h a))(i := Pointer None)\<rparr>))
           | t # _ \<Rightarrow>
               (case nodes t of
                  None \<Rightarrow> Inl (Panic ''Set of a zero Value'')
                | Some b \<Rightarrow> Inr (h(a := (h a)\<lparr>pointers := (pointers (h a))(i := Pointer (Some b))\<rparr>))))
      | Slice _ \<Rightarrow>
          if \<exists>t \<in> set ts. nodes t = None then Inl (Panic ''Set of a zero Value'')
          else Inr (h(a := (h a)\<lparr>pointers := (pointers (h a))(i := Slice (map nodes ts))\<rparr>)))"

definition inverseHolders :: "'p committedRelationIndex \<Rightarrow> nodeKey \<Rightarrow> relationSpec \<Rightarrow> nodeKey list" where
  "inverseHolders ix t point =
     sort (remdups (map (\<lambda>e. hf_holder (fst e))
       (filter (\<lambda>e. case irf_spec (fieldOf ix (fst e)) of
            None \<Rightarrow> False
          | Some s \<Rightarrow> 0 < snd e \<and> owner s = target point \<and> fieldName s = matchField point \<and>
                      (kind s = BorrowRelation \<or> kind s = OptionRelation))
          (entries (countsOf ix t)))))"

definition rewireField :: "'p committedRelationIndex \<Rightarrow> 'p heap \<Rightarrow> relationHolderField \<times> indexedRelationField \<Rightarrow> 'p heap result" where
  "rewireField ix h e =
     (case ix_nodes ix (hf_holder (fst e)) of
        None \<Rightarrow> Inl (Panic ''Elem of a zero Value'')
      | Some a \<Rightarrow>
          (case irf_spec (snd e) of
             None \<Rightarrow> Inl (Panic ''nil spec'')
           | Some s \<Rightarrow> setIndexedRelationField h a (fieldIndex s) (irf_targets (snd e)) (ix_nodes ix)))"

definition rewireInverse :: "typeEnv \<Rightarrow> 'p committedRelationIndex \<Rightarrow> 'p heap \<Rightarrow> nodeKey \<Rightarrow> 'p heap result" where
  "rewireInverse env ix h t =
     (case ix_nodes ix t of
        None \<Rightarrow> Inr h
      | Some a \<Rightarrow>
          (case relationSpecs env (nk_type t) of
             Inl _ \<Rightarrow> Inr h
           | Inr specs \<Rightarrow>
               fold_result (\<lambda>h s. if kind s \<noteq> InverseRelation then Inr h
                              else setIndexedRelationField h a (fieldIndex s) (inverseHolders ix t s) (ix_nodes ix))
                 specs h))"

definition rewire :: "typeEnv \<Rightarrow> 'p relationIndexDelta \<Rightarrow> 'p committedRelationIndex \<Rightarrow> 'p heap \<Rightarrow> 'p heap result" where
  "rewire env d ix h =
     bind_result (fold_result (rewireField ix) (dt_values (d_fields d)) h)
       (\<lambda>h1. fold_result (rewireInverse env ix) (d_inverseTargets d) h1)"

definition publishIndex ::
  "'p relationIndexDelta \<Rightarrow> 'p committedRelationIndex \<Rightarrow> (nodeKey \<times> nodeKey list) list \<Rightarrow>
   'p committedRelationIndex \<times> (nodeKey \<times> nodeKey list) list" where
  "publishIndex d ix out =
     (let ix1 = foldl publishField (publishRows d ix) (dt_values (d_fields d));
          own = foldl publishOwner (ix_owners ix1, out) (dt_values (d_ownerChanges d))
      in (ix1\<lparr>ix_owners := fst own\<rparr>, snd own))"

definition publishAndRewire ::
  "typeEnv \<Rightarrow> 'p heap \<Rightarrow> 'p relationIndexDelta \<Rightarrow> 'p committedOwnership \<Rightarrow> ('p committedOwnership \<times> 'p heap) result" where
  "publishAndRewire env h d st =
     (case co_index st of
        None \<Rightarrow> Inl (Panic ''committed relation index changed under graph lock'')
      | Some ix \<Rightarrow>
          if ix_addr ix \<noteq> ix_addr (d_index d) then Inl (Panic ''committed relation index changed under graph lock'')
          else
            let p = publishIndex d ix (co_outgoing st) in
            bind_result (rewire env d (fst p) h)
              (\<lambda>h'. Inr (st\<lparr>co_index := Some (fst p), co_outgoing := snd p, co_graph := None, co_branches := (\<lambda>_. None)\<rparr>, h')))"

section \<open>The counts follow the fields\<close>

lemma countsOf_increment:
  "countsOf (incrementIncoming t f ix) u = (if u = t then increment (countsOf ix t) f else countsOf ix u)"
  by (simp add: countsOf_def incrementIncoming_def)

lemma decrement_empty: "decrement emptyCounts f = emptyCounts"
  by (simp add: decrement_def emptyCounts_def position_def)

lemma countsOf_decrement:
  "countsOf (decrementIncoming t f ix) u = (if u = t then decrement (countsOf ix t) f else countsOf ix u)"
  by (simp add: countsOf_def decrementIncoming_def decrement_empty split: option.split)

lemma counts_frame:
  "fieldOf (incrementIncoming t f ix) = fieldOf ix" "fieldOf (decrementIncoming t f ix) = fieldOf ix"
  "ix_fields (incrementIncoming t f ix) = ix_fields ix" "ix_fields (decrementIncoming t f ix) = ix_fields ix"
  "ix_nodes (incrementIncoming t f ix) = ix_nodes ix" "ix_nodes (decrementIncoming t f ix) = ix_nodes ix"
  "ix_owners (incrementIncoming t f ix) = ix_owners ix" "ix_owners (decrementIncoming t f ix) = ix_owners ix"
  "ix_targets (incrementIncoming t f ix) = ix_targets ix" "ix_targets (decrementIncoming t f ix) = ix_targets ix"
  "ix_addr (incrementIncoming t f ix) = ix_addr ix" "ix_addr (decrementIncoming t f ix) = ix_addr ix"
  by (simp_all add: fun_eq_iff fieldOf_def incrementIncoming_def decrementIncoming_def split: option.split)

definition counts_are :: "'p committedRelationIndex \<Rightarrow> (nodeKey \<Rightarrow> relationHolderField \<Rightarrow> int) \<Rightarrow> bool" where
  "counts_are ix N \<longleftrightarrow> (\<forall>t. counts_ok (countsOf ix t) \<and> countOf (countsOf ix t) = N t)"

lemma counts_increments:
  "counts_are ix N \<Longrightarrow> counts_are (foldl (\<lambda>ix t. incrementIncoming t f ix) ix ts)
     (\<lambda>t. (N t)(f := N t f + int (count_list ts t)))"
proof (induction ts arbitrary: ix N)
  case (Cons t ts)
  have "counts_are (incrementIncoming t f ix) (\<lambda>u. if u = t then (N t)(f := N t f + 1) else N u)"
    using Cons.prems increment_counts by (auto simp: counts_are_def countsOf_increment)
  from Cons.IH[OF this] show ?case by (auto simp: counts_are_def fun_eq_iff algebra_simps)
qed (simp add: counts_are_def)

lemma counts_decrements:
  "counts_are ix N \<Longrightarrow> (\<And>t. int (count_list ts t) \<le> N t f) \<Longrightarrow>
     counts_are (foldl (\<lambda>ix t. decrementIncoming t f ix) ix ts) (\<lambda>t. (N t)(f := N t f - int (count_list ts t)))"
proof (induction ts arbitrary: ix N)
  case (Cons t ts)
  have pos: "1 \<le> N t f" using Cons.prems(2)[of t] by simp
  let ?N = "\<lambda>u. if u = t then (N t)(f := N t f - 1) else N u"
  have "counts_are (decrementIncoming t f ix) ?N"
    using Cons.prems(1) decrement_counts pos by (auto simp: counts_are_def countsOf_decrement fun_eq_iff)
  moreover have "int (count_list ts u) \<le> ?N u f" for u using Cons.prems(2)[of u] by (simp split: if_splits)
  ultimately show ?case using Cons.IH[of "decrementIncoming t f ix" ?N] by (auto simp: counts_are_def fun_eq_iff algebra_simps)
qed (simp add: counts_are_def)

lemma counts_agree_are: "counts_agree ix \<longleftrightarrow> counts_are ix (\<lambda>t f. int (count_list (irf_targets (fieldOf ix f)) t))"
  by (auto simp: counts_agree_def counts_are_def fun_eq_iff)

lemma foldl_counts_frame:
  "fieldOf (foldl (\<lambda>ix t. incrementIncoming t f ix) ix ts) = fieldOf ix"
  "fieldOf (foldl (\<lambda>ix t. decrementIncoming t f ix) ix ts) = fieldOf ix"
  "ix_fields (foldl (\<lambda>ix t. incrementIncoming t f ix) ix ts) = ix_fields ix"
  "ix_fields (foldl (\<lambda>ix t. decrementIncoming t f ix) ix ts) = ix_fields ix"
  "ix_nodes (foldl (\<lambda>ix t. incrementIncoming t f ix) ix ts) = ix_nodes ix"
  "ix_nodes (foldl (\<lambda>ix t. decrementIncoming t f ix) ix ts) = ix_nodes ix"
  "ix_owners (foldl (\<lambda>ix t. incrementIncoming t f ix) ix ts) = ix_owners ix"
  "ix_owners (foldl (\<lambda>ix t. decrementIncoming t f ix) ix ts) = ix_owners ix"
  "ix_targets (foldl (\<lambda>ix t. incrementIncoming t f ix) ix ts) = ix_targets ix"
  "ix_targets (foldl (\<lambda>ix t. decrementIncoming t f ix) ix ts) = ix_targets ix"
  "ix_addr (foldl (\<lambda>ix t. incrementIncoming t f ix) ix ts) = ix_addr ix"
  "ix_addr (foldl (\<lambda>ix t. decrementIncoming t f ix) ix ts) = ix_addr ix"
  by (induction ts arbitrary: ix) (simp_all add: counts_frame)

lemma publishField_ok:
  assumes "counts_agree ix"
  shows "counts_agree (publishField ix e) \<and> ix_fields (publishField ix e) = (ix_fields ix)(fst e \<mapsto> snd e) \<and>
    ix_nodes (publishField ix e) = ix_nodes ix \<and> ix_owners (publishField ix e) = ix_owners ix \<and>
    ix_targets (publishField ix e) = ix_targets ix \<and> ix_addr (publishField ix e) = ix_addr ix"
proof -
  let ?f = "fst e" and ?old = "irf_targets (fieldOf ix (fst e))"
  let ?ix1 = "foldl (\<lambda>ix t. decrementIncoming t ?f ix) ix ?old"
  let ?ix2 = "?ix1\<lparr>ix_fields := (ix_fields ?ix1)(?f \<mapsto> snd e)\<rparr>"
  let ?N = "\<lambda>t f. int (count_list (irf_targets (fieldOf ix f)) t)"
  have "counts_are ?ix1 (\<lambda>t. (?N t)(?f := ?N t ?f - int (count_list ?old t)))"
    using assms by (intro counts_decrements) (simp_all add: counts_agree_are)
  then have "counts_are ?ix2 (\<lambda>t. (?N t)(?f := 0))" by (simp add: counts_are_def countsOf_def)
  from counts_increments[OF this, of ?f "irf_targets (snd e)"]
  have c: "counts_are (publishField ix e) (\<lambda>t. (?N t)(?f := int (count_list (irf_targets (snd e)) t)))"
    by (simp add: publishField_def Let_def)
  have fs: "ix_fields (publishField ix e) = (ix_fields ix)(?f \<mapsto> snd e)"
    by (simp add: publishField_def Let_def foldl_counts_frame)
  then have fo: "fieldOf (publishField ix e) = (fieldOf ix)(?f := snd e)" by (simp add: fun_eq_iff fieldOf_def)
  have "(\<lambda>t. (?N t)(?f := int (count_list (irf_targets (snd e)) t))) =
      (\<lambda>t f. int (count_list (irf_targets (((fieldOf ix)(?f := snd e)) f)) t))" by (auto simp: fun_eq_iff)
  then have "counts_agree (publishField ix e)" using c unfolding counts_agree_are fo by simp
  then show ?thesis using fs by (simp add: publishField_def Let_def foldl_counts_frame)
qed

lemma publishFields_ok:
  "counts_agree ix \<Longrightarrow> distinct (map fst es) \<Longrightarrow>
   counts_agree (foldl publishField ix es) \<and>
   ix_fields (foldl publishField ix es) = (\<lambda>f. case map_of es f of None \<Rightarrow> ix_fields ix f | Some x \<Rightarrow> Some x) \<and>
   ix_nodes (foldl publishField ix es) = ix_nodes ix \<and> ix_owners (foldl publishField ix es) = ix_owners ix \<and>
   ix_targets (foldl publishField ix es) = ix_targets ix \<and> ix_addr (foldl publishField ix es) = ix_addr ix"
proof (induction es arbitrary: ix)
  case (Cons e es)
  have "map_of es (fst e) = None" using Cons.prems(2) by (simp add: map_of_eq_None_iff)
  then show ?case using Cons.IH[of "publishField ix e"] publishField_ok[OF Cons.prems(1), of e] Cons.prems(2)
    by (cases e) (auto simp: fun_eq_iff split: option.split)
qed simp

section \<open>The children follow the owners\<close>

definition children_agree :: "(nodeKey \<times> nodeKey) list \<Rightarrow> (nodeKey \<times> nodeKey list) list \<Rightarrow> bool" where
  "children_agree os out \<longleftrightarrow> (\<forall>w c. count_list (childList out w) c = (if map_of os c = Some w then 1 else 0))"

lemma childList_update: "childList (AList.update w cs out) = (childList out)(w := cs)"
  by (simp add: fun_eq_iff childList_def update_conv')

lemma count_list_remove1: "count_list (remove1 x xs) y = (if x = y then count_list xs y - 1 else count_list xs y)"
  by (induction xs) auto

lemma childList_member:
  "children_agree os out \<Longrightarrow> c \<in> set (childList out w) \<longleftrightarrow> map_of os c = Some w"
  unfolding children_agree_def using count_list_0_iff[of "childList out w" c] by (metis zero_neq_one)

lemma removeChild_ok:
  assumes "children_agree os out" and "map_of os c = Some b"
  shows "children_agree (AList.delete c os) (removeCommittedChild b c out)"
proof -
  have "c \<in> set (childList out b)" using childList_member[OF assms(1)] assms(2) by simp
  then have "childList (removeCommittedChild b c out) = (childList out)(b := remove1 c (childList out b))"
    by (simp add: removeCommittedChild_def childList_update)
  then show ?thesis using assms by (auto simp: children_agree_def count_list_remove1 delete_conv')
qed

lemma addChild_ok:
  assumes "children_agree os out" and "map_of os c = None"
  shows "children_agree (AList.update c w os) (addCommittedChild w c out)"
proof -
  have "c \<notin> set (childList out w)" using childList_member[OF assms(1)] assms(2) by simp
  then have "childList (addCommittedChild w c out) = (childList out)(w := childList out w @ [c])"
    by (simp add: addCommittedChild_def childList_update)
  then show ?thesis using assms by (auto simp: children_agree_def update_conv')
qed

lemma publishOwner_ok:
  assumes "children_agree os out" and "before (snd e) = map_of os (fst e)"
  shows "map_of (fst (publishOwner (os, out) e)) = (map_of os)(fst e := after (snd e)) \<and>
    children_agree (fst (publishOwner (os, out) e)) (snd (publishOwner (os, out) e))"
proof -
  define st where "st = (case before (snd e) of
      None \<Rightarrow> (os, out) | Some b \<Rightarrow> (AList.delete (fst e) os, removeCommittedChild b (fst e) out))"
  have st: "children_agree (fst st) (snd st)" "map_of (fst st) = (map_of os)(fst e := None)"
    using assms removeChild_ok[OF assms(1), of "fst e"] by (auto simp: st_def delete_conv' fun_eq_iff split: option.splits)
  have "publishOwner (os, out) e = (case after (snd e) of
      None \<Rightarrow> st | Some w \<Rightarrow> (AList.update (fst e) w (fst st), addCommittedChild w (fst e) (snd st)))"
    by (simp add: publishOwner_def st_def Let_def split: option.split)
  then show ?thesis using st addChild_ok[OF st(1), of "fst e"]
    by (auto simp: update_conv' fun_eq_iff split: option.split)
qed

lemma publishOwners_ok:
  "children_agree os out \<Longrightarrow> distinct (map fst es) \<Longrightarrow> (\<And>e. e \<in> set es \<Longrightarrow> before (snd e) = map_of os (fst e)) \<Longrightarrow>
   map_of (fst (foldl publishOwner (os, out) es)) =
     (\<lambda>c. case map_of es c of None \<Rightarrow> map_of os c | Some ch \<Rightarrow> after ch) \<and>
   children_agree (fst (foldl publishOwner (os, out) es)) (snd (foldl publishOwner (os, out) es))"
proof (induction es arbitrary: os out)
  case (Cons e es)
  obtain os' out' where st: "publishOwner (os, out) e = (os', out')" by fastforce
  have step: "map_of os' = (map_of os)(fst e := after (snd e))" "children_agree os' out'"
    using publishOwner_ok[OF Cons.prems(1), of e] Cons.prems(3)[of e] st by auto
  have fresh: "fst e \<notin> fst ` set es" using Cons.prems(2) by simp
  have "before (snd q) = map_of os' (fst q)" if "q \<in> set es" for q
  proof -
    have "fst q \<noteq> fst e" using that fresh by (metis image_eqI)
    then show ?thesis using Cons.prems(3)[of q] that step(1) by simp
  qed
  moreover have "map_of es (fst e) = None" using fresh by (simp add: map_of_eq_None_iff)
  ultimately show ?case using Cons.IH[OF step(2)] Cons.prems(2) st step(1)
    by (cases e) (auto simp: fun_eq_iff split: option.split)
qed simp

section \<open>The invariant is kept\<close>

lemma publishIndex_ok:
  assumes "delta_wf env d" and "validateOwnership env d = Some (Inr d')"
    and "children_agree (ix_owners (d_index d)) out"
    and "d_fields e = d_fields d" and "d_ownerChanges e = d_ownerChanges d'" and "d_targets e = d_targets d"
  shows "index_ok env (fst (publishIndex e (d_index d) out)) \<and>
    fieldOf (fst (publishIndex e (d_index d) out)) = currentField d \<and>
    map_of (ix_owners (fst (publishIndex e (d_index d) out))) = effectiveOwner d' \<and>
    children_agree (ix_owners (fst (publishIndex e (d_index d) out))) (snd (publishIndex e (d_index d) out)) \<and>
    ix_nodes (fst (publishIndex e (d_index d) out)) = foldl (\<lambda>m c. m(fst c \<mapsto> snd c)) (ix_nodes (d_index d)) (d_created e) \<and>
    ix_fields (fst (publishIndex e (d_index d) out)) =
      (\<lambda>f. case map_of (dt_values (d_fields d)) f of None \<Rightarrow> ix_fields (d_index d) f | Some x \<Rightarrow> Some x) \<and>
    ix_targets (fst (publishIndex e (d_index d) out)) =
      (\<lambda>l. case d_targets d l of None \<Rightarrow> ix_targets (d_index d) l | Some t \<Rightarrow> Some t)"
proof -
  let ?ix = "d_index d"
  have d': "ownership_forest env (currentField d) (effectiveOwner d')" "delta_ok (d_ownerChanges d')"
    "d' = d\<lparr>d_ownerChanges := d_ownerChanges d'\<rparr>"
    "\<And>q. q \<in> set (dt_values (d_ownerChanges d')) \<Longrightarrow> before (snd q) = map_of (ix_owners ?ix) (fst q)"
    using ownership_check[OF assms(1)] assms(2) by auto
  have same: "d_index d' = ?ix" by (subst d'(3), simp)
  have dok: "delta_ok (d_fields d)" and ok: "counts_agree ?ix"
    using assms(1) by (auto simp: delta_wf_def index_ok_def)
  let ?r = "publishRows e ?ix"
  have r: "counts_agree ?r" "ix_fields ?r = ix_fields ?ix" "ix_owners ?r = ix_owners ?ix"
    using ok by (simp_all add: publishRows_def counts_agree_def countsOf_def fieldOf_def)
  let ?ix1 = "foldl publishField ?r (dt_values (d_fields d))"
  note P = publishFields_ok[OF r(1) pending.keys_distinct[OF dok]]
  have own: "ix_owners ?ix1 = ix_owners ?ix" using P r(3) by simp
  note O = publishOwners_ok[OF assms(3) pending.keys_distinct[OF d'(2)] d'(4)]
  let ?p = "publishIndex e ?ix out"
  have p: "fst ?p = ?ix1\<lparr>ix_owners := fst (foldl publishOwner (ix_owners ?ix, out) (dt_values (d_ownerChanges d')))\<rparr>"
    "snd ?p = snd (foldl publishOwner (ix_owners ?ix, out) (dt_values (d_ownerChanges d')))"
    by (simp_all add: publishIndex_def Let_def assms(4,5) own)
  have fields: "ix_fields (fst ?p) = (\<lambda>f. case map_of (dt_values (d_fields d)) f of None \<Rightarrow> ix_fields ?ix f | Some x \<Rightarrow> Some x)"
    using P[unfolded r(2)] by (simp add: p)
  then have fo: "fieldOf (fst ?p) = currentField d"
    by (auto simp: fun_eq_iff fieldOf_def currentField_def findDelta_conv[OF dok] split: option.split)
  have owners: "map_of (ix_owners (fst ?p)) = effectiveOwner d'"
    using O by (auto simp: p fun_eq_iff effectiveOwner_def findDelta_conv[OF d'(2)] same split: option.split)
  have "counts_agree (fst ?p)" using P by (simp add: p counts_agree_def countsOf_def fieldOf_def)
  moreover have "\<exists>s. irf_spec x = Some s \<and> spec_of env f s" if x: "ix_fields (fst ?p) f = Some x" for f x
  proof (cases "map_of (dt_values (d_fields d)) f")
    case None
    then have "ix_fields ?ix f = Some x" using x by (simp add: fields)
    then show ?thesis using assms(1) unfolding delta_wf_def index_ok_def by blast
  next
    case (Some y)
    then have "(f, x) \<in> set (dt_values (d_fields d))" using x map_of_SomeD[OF Some] by (simp add: fields)
    then show ?thesis using assms(1) unfolding delta_wf_def by force
  qed
  ultimately have "index_ok env (fst ?p)" using d'(1) unfolding index_ok_def fo owners by blast
  moreover have "children_agree (ix_owners (fst ?p)) (snd ?p)" using O by (simp add: p)
  moreover have "ix_nodes (fst ?p) = foldl (\<lambda>m c. m(fst c \<mapsto> snd c)) (ix_nodes ?ix) (d_created e)"
    using P by (simp add: p publishRows_def)
  moreover have "ix_targets (fst ?p) = (\<lambda>l. case d_targets d l of None \<Rightarrow> ix_targets ?ix l | Some t \<Rightarrow> Some t)"
    using P by (simp add: p publishRows_def assms(6))
  ultimately show ?thesis using fo owners fields by blast
qed

section \<open>Every row named by the index is in it\<close>

definition index_closed :: "'p committedRelationIndex \<Rightarrow> bool" where
  "index_closed ix \<longleftrightarrow>
     (\<forall>f x. ix_fields ix f = Some x \<longrightarrow> ix_nodes ix (hf_holder f) \<noteq> None \<and> (\<forall>t \<in> set (irf_targets x). ix_nodes ix t \<noteq> None)) \<and>
     targets_in (ix_targets ix) (dom (ix_nodes ix))"

definition delta_closed :: "nodeKey set \<Rightarrow> 'p relationIndexDelta \<Rightarrow> bool" where
  "delta_closed K d \<longleftrightarrow>
     targets_in (d_targets d) K \<and> targets_in (ix_targets (d_index d)) K \<and>
     (\<forall>q \<in> set (dt_values (d_fields d)). set (irf_targets (snd q)) \<subseteq> K)"

lemma scan_pointer_closed:
  assumes "delta_closed K d" and "scanIndexedPointer h d holder s st p = Inr st'" and "set (snd st) \<subseteq> K"
  shows "set (snd st') \<subseteq> K"
proof (cases "resolveIndexedRelationTarget h d holder s p")
  case (Inl e)
  then show ?thesis using assms(2) by (simp add: scanIndexedPointer_def)
next
  case (Inr r)
  show ?thesis
  proof (cases r)
    case None
    then show ?thesis using Inr assms(2,3) by (simp add: scanIndexedPointer_def)
  next
    case (Some t)
    obtain l where l: "graphRelationTargetKey h s p = Some l"
      using Inr Some by (cases "graphRelationTargetKey h s p") (auto simp: resolveIndexedRelationTarget_def split: if_splits)
    then have "(case d_targets d l of None \<Rightarrow> ix_targets (d_index d) l | Some t \<Rightarrow> Some t) = Some (t, False)"
      using Inr Some by (cases "d_targets d l"; cases "ix_targets (d_index d) l")
        (auto simp: resolveIndexedRelationTarget_def split: if_splits)
    then consider "d_targets d l = Some (t, False)" | "ix_targets (d_index d) l = Some (t, False)"
      by (cases "d_targets d l") auto
    then have "t \<in> K" using assms(1) unfolding delta_closed_def by cases (use targets_inD in fastforce)+
    then show ?thesis using Inr Some assms(2,3) by (auto simp: scanIndexedPointer_def split: option.splits if_splits)
  qed
qed

lemma scan_field_closed:
  assumes "delta_closed K d" and "scanIndexedRelationField h d holder a s = Inr ts"
  shows "set ts \<subseteq> K"
proof -
  obtain seen st where st: "fold_result (scanIndexedPointer h d holder s) (fieldPointers h a s) (seen, []) = Inr st" "ts = snd st"
    using assms(2) by (auto simp: scanIndexedRelationField_def Let_def bind_result_Inr_iff)
  have "set (snd st) \<subseteq> K"
    by (rule fold_result_invariant[where I = "\<lambda>st. set (snd st) \<subseteq> K", OF _ _ st(1)])
      (use scan_pointer_closed[OF assms(1)] in auto)
  then show ?thesis by (simp add: st(2))
qed

lemma addDelta_values: "dt_values (addDelta t k v) = dt_values t @ [(k, v)]"
  by (simp add: addDelta_def Let_def)

lemma writeDelta_values: "q \<in> set (dt_values (writeDelta t k v)) \<Longrightarrow> q \<in> set (dt_values t) \<or> snd q = v"
  by (auto simp: writeDelta_def split: option.splits dest!: set_update_subset_insert[THEN subsetD])

lemma scan_spec_closed:
  assumes "delta_closed K d" and "scanOverrideSpec h creates key a d s = Inr (Some d')"
  shows "delta_closed K d'"
proof (cases "kind s = InverseRelation")
  case True
  then show ?thesis using assms by (auto simp: scanOverrideSpec_def delta_closed_def)
next
  case False
  let ?f = "HolderField key (fieldIndex s)"
  obtain ts where ts: "scanIndexedRelationField h d key a s = Inr ts"
    "d' = d\<lparr>d_fields := writeDelta (addDelta (d_fields d) ?f \<lparr>irf_spec = Some s, irf_targets = []\<rparr>) ?f \<lparr>irf_spec = Some s, irf_targets = ts\<rparr>\<rparr>"
    using assms(2) False by (auto simp: scanOverrideSpec_def Let_def split: option.splits if_splits sum.splits)
  have "set ts \<subseteq> K" by (rule scan_field_closed[OF assms(1) ts(1)])
  have "set (irf_targets (snd q)) \<subseteq> K" if q: "q \<in> set (dt_values (d_fields d'))" for q
  proof -
    from q have "q \<in> set (dt_values (d_fields d)) \<or> irf_targets (snd q) = [] \<or> snd q = \<lparr>irf_spec = Some s, irf_targets = ts\<rparr>"
      using writeDelta_values[of q "addDelta (d_fields d) ?f \<lparr>irf_spec = Some s, irf_targets = []\<rparr>" ?f
          "\<lparr>irf_spec = Some s, irf_targets = ts\<rparr>"]
      by (auto simp: ts(2) addDelta_values)
    then show ?thesis
    proof (elim disjE)
      assume "q \<in> set (dt_values (d_fields d))"
      then show ?thesis using assms(1) unfolding delta_closed_def by blast
    qed (simp_all add: \<open>set ts \<subseteq> K\<close>)
  qed
  then show ?thesis using assms(1) by (simp add: delta_closed_def ts(2))
qed

lemma fold_supported_invariant:
  assumes "\<And>s x s'. I s \<Longrightarrow> f s x = Inr (Some s') \<Longrightarrow> I s'"
  shows "I s \<Longrightarrow> fold_supported f xs s = Inr (Some s') \<Longrightarrow> I s'"
  by (induction xs arbitrary: s) (auto simp: fold_supported_Cons intro: assms)

lemma created_targets_closed:
  assumes "indexCreatedTargets env h ix creates = Inr (Some ts)"
  shows "targets_in ts (fst ` set creates)"
proof -
  let ?I = "\<lambda>ts. targets_in ts (fst ` set creates)"
  have none: "?I (\<lambda>_. None)" by (simp add: targets_in_def)
  have one: "?I ts'" if I: "?I ts" "c \<in> set creates" and add: "addCreatedTarget h ix c ts f = Inr ts'" for ts ts' c f
  proof -
    have "?I (ts(l \<mapsto> (fst c, False)))" for l by (rule targets_in_upd[OF I(1)]) (use I(2) in auto)
    then show ?thesis using add I(1) by (auto simp: addCreatedTarget_def Let_def split: option.splits if_splits)
  qed
  have "?I ts'" if "?I ts" "c \<in> set creates"
    "fold_result (addCreatedTarget h ix c) (map snd (filter (\<lambda>f. fst f = nk_type (fst c)) (ix_targetFields ix))) ts = Inr ts'" for ts ts' c
    by (rule fold_result_invariant[where I = ?I, OF _ that(1,3)]) (use one that(2) in blast)
  note row = this
  show ?thesis
  proof (cases "creates = []")
    case True
    then show ?thesis using assms none by (auto simp: indexCreatedTargets_def)
  next
    case False
    have fr: "fold_result (\<lambda>ts c. fold_result (addCreatedTarget h ix c) (map snd (filter (\<lambda>f. fst f = nk_type (fst c)) (ix_targetFields ix))) ts)
        creates (\<lambda>_. None) = Inr ts"
      using assms unfolding indexCreatedTargets_def if_not_P[OF False] bind_supported_Some by (auto split: sum.splits)
    show ?thesis by (rule fold_result_invariant[where I = ?I, OF _ none fr]) (use row in blast)
  qed
qed

lemma scanDelta_closed:
  assumes "index_closed ix" and "scanDelta env h registered ix resources creates = Inr (Some d)"
  shows "delta_closed (dom (ix_nodes ix) \<union> fst ` set creates) d"
proof -
  let ?K = "dom (ix_nodes ix) \<union> fst ` set creates"
  from assms(2) obtain ts os' where
    ts: "indexCreatedTargets env h ix creates = Inr (Some ts)" and
    os: "fold_supported (scanOverride h creates) os'
       \<lparr>d_index = ix, d_created = creates, d_targets = ts, d_overrides = os', d_fields = emptyDelta,
        d_ownerChanges = emptyDelta, d_inverseTargets = []\<rparr> = Inr (Some d)"
    by (auto simp: scanDelta_def bind_supported_Some)
  have start: "delta_closed ?K \<lparr>d_index = ix, d_created = creates, d_targets = ts, d_overrides = os', d_fields = emptyDelta,
        d_ownerChanges = emptyDelta, d_inverseTargets = []\<rparr>"
    using created_targets_closed[OF ts] assms(1)
    by (auto simp: delta_closed_def delta_empty index_closed_def targets_in_def)
  have step: "delta_closed ?K u'" if "delta_closed ?K u" "scanOverride h creates u q = Inr (Some u')"
    for u u' :: "'a relationIndexDelta" and q
    by (rule fold_supported_invariant[of "delta_closed ?K", OF _ that(1) that(2)[unfolded scanOverride_def]]) (rule scan_spec_closed)
  show ?thesis by (rule fold_supported_invariant[of "delta_closed ?K", OF step start os])
qed

section \<open>What rewiring writes\<close>

definition is_slice :: "'p fieldValue \<Rightarrow> bool" where
  "is_slice v = (case v of Slice _ \<Rightarrow> True | Pointer _ \<Rightarrow> False)"

definition wiredValue :: "(nodeKey \<Rightarrow> 'p option) \<Rightarrow> bool \<Rightarrow> nodeKey list \<Rightarrow> 'p fieldValue" where
  "wiredValue nodes m ts = (if m then Slice (map nodes ts) else Pointer (case ts of [] \<Rightarrow> None | t # _ \<Rightarrow> nodes t))"

definition setField :: "'p heap \<Rightarrow> 'p \<Rightarrow> nat \<Rightarrow> 'p fieldValue \<Rightarrow> 'p heap" where
  "setField h a i v = h(a := (h a)\<lparr>pointers := (pointers (h a))(i := v)\<rparr>)"

text \<open>Go's typing of the rows: a relation field is a slice exactly when its relation is to many.\<close>

definition typed_rows :: "typeEnv \<Rightarrow> (nodeKey \<Rightarrow> 'p option) \<Rightarrow> 'p heap \<Rightarrow> bool" where
  "typed_rows env nodes h \<longleftrightarrow>
     (\<forall>k a specs s. nodes k = Some a \<longrightarrow> relationSpecs env (nk_type k) = Inr specs \<longrightarrow> s \<in> set specs \<longrightarrow>
        is_slice (pointers (h a) (fieldIndex s)) = many s)"

lemma setField_pointers: "pointers (setField h a i v b) j = (if b = a \<and> j = i then v else pointers (h b) j)"
  by (simp add: setField_def)

lemma set_conv:
  assumes "is_slice (pointers (h a) i) = m" and "\<forall>t \<in> set ts. nodes t \<noteq> None"
  shows "setIndexedRelationField h a i ts nodes = Inr (setField h a i (wiredValue nodes m ts))"
  using assms by (cases "pointers (h a) i"; cases ts) (auto simp: setIndexedRelationField_def wiredValue_def setField_def is_slice_def)

type_synonym job = "nodeKey \<times> relationSpec \<times> nodeKey list"

definition runJob :: "(nodeKey \<Rightarrow> 'p option) \<Rightarrow> 'p heap \<Rightarrow> job \<Rightarrow> 'p heap result" where
  "runJob nodes h j = setIndexedRelationField h (the (nodes (fst j))) (fieldIndex (fst (snd j))) (snd (snd j)) nodes"

definition job_ok :: "typeEnv \<Rightarrow> (nodeKey \<Rightarrow> 'p option) \<Rightarrow> job \<Rightarrow> bool" where
  "job_ok env nodes j \<longleftrightarrow>
     nodes (fst j) \<noteq> None \<and> (\<exists>specs. relationSpecs env (nk_type (fst j)) = Inr specs \<and> fst (snd j) \<in> set specs) \<and>
     (\<forall>t \<in> set (snd (snd j)). nodes t \<noteq> None)"

definition at_place :: "job \<Rightarrow> nodeKey \<Rightarrow> nat \<Rightarrow> bool" where
  "at_place j k i \<longleftrightarrow> fst j = k \<and> fieldIndex (fst (snd j)) = i"

lemma run_job:
  assumes "typed_rows env nodes h" and "job_ok env nodes j" and "inj_on nodes (dom nodes)"
  shows "\<exists>h'. runJob nodes h j = Inr h' \<and> typed_rows env nodes h' \<and>
    (\<forall>k a i. nodes k = Some a \<longrightarrow> pointers (h' a) i =
       (if at_place j k i then wiredValue nodes (many (fst (snd j))) (snd (snd j)) else pointers (h a) i))"
proof -
  obtain k s ts where j: "j = (k, s, ts)" by (cases j)
  obtain a specs where a: "nodes k = Some a" "relationSpecs env (nk_type k) = Inr specs" "s \<in> set specs" "\<forall>t \<in> set ts. nodes t \<noteq> None"
    using assms(2) by (auto simp: job_ok_def j)
  let ?v = "wiredValue nodes (many s) ts"
  have shape: "is_slice (pointers (h a) (fieldIndex s)) = many s" using assms(1) a unfolding typed_rows_def by blast
  have run: "runJob nodes h j = Inr (setField h a (fieldIndex s) ?v)"
    using set_conv[of h a "fieldIndex s", OF shape a(4)] by (simp add: runJob_def j a(1))
  have v: "is_slice ?v = many s" by (simp add: wiredValue_def is_slice_def)
  have "typed_rows env nodes (setField h a (fieldIndex s) ?v)"
    unfolding typed_rows_def
  proof (intro allI impI)
    fix q b specs' s' assume s': "nodes q = Some b" "relationSpecs env (nk_type q) = Inr specs'" "s' \<in> set specs'"
    then have "is_slice (pointers (h b) (fieldIndex s')) = many s'" using assms(1) unfolding typed_rows_def by blast
    then show "is_slice (pointers (setField h a (fieldIndex s) ?v b) (fieldIndex s')) = many s'"
      using shape v by (auto simp: setField_pointers)
  qed
  moreover have "b = a \<longleftrightarrow> q = k" if "nodes q = Some b" for q b
    using that a(1) inj_onD[OF assms(3), of q k] by auto
  then have "pointers (setField h a (fieldIndex s) ?v b) i = (if at_place j q i then ?v else pointers (h b) i)"
    if "nodes q = Some b" for q b i using that by (auto simp: setField_pointers at_place_def j)
  ultimately show ?thesis using run by (simp add: j)
qed

definition written :: "(nodeKey \<Rightarrow> 'p option) \<Rightarrow> 'p heap \<Rightarrow> job \<Rightarrow> bool" where
  "written nodes h j \<longleftrightarrow>
     (\<forall>a. nodes (fst j) = Some a \<longrightarrow> pointers (h a) (fieldIndex (fst (snd j))) = wiredValue nodes (many (fst (snd j))) (snd (snd j)))"

definition untouched :: "(nodeKey \<Rightarrow> 'p option) \<Rightarrow> job set \<Rightarrow> 'p heap \<Rightarrow> 'p heap \<Rightarrow> bool" where
  "untouched nodes J h h' \<longleftrightarrow>
     (\<forall>k a i. nodes k = Some a \<longrightarrow> (\<forall>j \<in> J. \<not> at_place j k i) \<longrightarrow> pointers (h' a) i = pointers (h a) i)"

definition places_differ :: "job set \<Rightarrow> bool" where
  "places_differ J \<longleftrightarrow> (\<forall>j \<in> J. \<forall>j' \<in> J. at_place j (fst j') (fieldIndex (fst (snd j'))) \<longrightarrow> j = j')"

lemma run_jobs:
  assumes "inj_on nodes (dom nodes)"
  shows "places_differ (set J) \<Longrightarrow> typed_rows env nodes h \<Longrightarrow> (\<forall>j \<in> set J. job_ok env nodes j) \<Longrightarrow>
    \<exists>h'. fold_result (runJob nodes) J h = Inr h' \<and> typed_rows env nodes h' \<and>
      (\<forall>j \<in> set J. written nodes h' j) \<and> untouched nodes (set J) h h'"
proof (induction J arbitrary: h)
  case Nil
  then show ?case by (simp add: untouched_def)
next
  case (Cons j J)
  have "job_ok env nodes j" using Cons.prems(3) by simp
  from run_job[OF Cons.prems(2) this assms]
  obtain h1 where h1: "runJob nodes h j = Inr h1" "typed_rows env nodes h1"
    "\<And>k a i. nodes k = Some a \<Longrightarrow> pointers (h1 a) i =
       (if at_place j k i then wiredValue nodes (many (fst (snd j))) (snd (snd j)) else pointers (h a) i)"
    by blast
  have "places_differ (set J)" using Cons.prems(1) unfolding places_differ_def by simp
  moreover have "\<forall>q \<in> set J. job_ok env nodes q" using Cons.prems(3) by simp
  ultimately obtain h' where h': "fold_result (runJob nodes) J h1 = Inr h'" "typed_rows env nodes h'"
    "\<forall>q \<in> set J. written nodes h' q" "untouched nodes (set J) h1 h'"
    using Cons.IH[OF _ h1(2)] by blast
  have "written nodes h' j"
  proof (cases "j \<in> set J")
    case True
    then show ?thesis using h'(3) by blast
  next
    case False
    then have "\<not> at_place q (fst j) (fieldIndex (fst (snd j)))" if "q \<in> set J" for q
      using Cons.prems(1) that unfolding places_differ_def by (metis list.set_intros)
    then have "pointers (h' a) (fieldIndex (fst (snd j))) = pointers (h1 a) (fieldIndex (fst (snd j)))"
      if "nodes (fst j) = Some a" for a using h'(4) that unfolding untouched_def by blast
    then show ?thesis using h1(3) unfolding written_def by (simp add: at_place_def)
  qed
  moreover have "untouched nodes (set (j # J)) h h'"
    using h'(4) h1(3) unfolding untouched_def by simp
  moreover have "fold_result (runJob nodes) (j # J) h = Inr h'" using h1(1) h'(1) by simp
  ultimately show ?case using h'(2,3) by auto
qed

section \<open>Both loops of rewire are such writes\<close>

lemma fold_result_concat:
  "fold_result (\<lambda>s x. fold_result f (g x) s) xs s = fold_result f (concat (map g xs)) s"
proof (induction xs arbitrary: s)
  case (Cons x xs)
  then show ?case by (simp add: fold_result_append bind_result_def split: sum.split)
qed simp

lemma fold_result_cong: "(\<And>s x. x \<in> set xs \<Longrightarrow> f s x = g s x) \<Longrightarrow> fold_result f xs s = fold_result g xs s"
  by (induction xs arbitrary: s) (auto split: sum.split)

lemma fold_result_map: "fold_result f (map g xs) s = fold_result (\<lambda>s x. f s (g x)) xs s"
  by (induction xs arbitrary: s) (auto split: sum.split)

lemma fold_result_filter: "fold_result (\<lambda>s x. if P x then Inr s else f s x) xs s = fold_result f (filter (\<lambda>x. \<not> P x) xs) s"
  by (induction xs arbitrary: s) (auto split: sum.split)

definition fieldJob :: "relationHolderField \<times> indexedRelationField \<Rightarrow> job" where
  "fieldJob e = (hf_holder (fst e), the (irf_spec (snd e)), irf_targets (snd e))"

definition inverseJobs :: "typeEnv \<Rightarrow> 'p committedRelationIndex \<Rightarrow> nodeKey \<Rightarrow> job list" where
  "inverseJobs env ix t =
     (case ix_nodes ix t of
        None \<Rightarrow> []
      | Some _ \<Rightarrow>
          (case relationSpecs env (nk_type t) of
             Inl _ \<Rightarrow> []
           | Inr specs \<Rightarrow> map (\<lambda>s. (t, s, inverseHolders ix t s)) (filter (\<lambda>s. kind s = InverseRelation) specs)))"

lemma rewireInverse_conv: "rewireInverse env ix h t = fold_result (runJob (ix_nodes ix)) (inverseJobs env ix t) h"
  using fold_result_filter[of "\<lambda>s. kind s \<noteq> InverseRelation"
      "\<lambda>h s. setIndexedRelationField h a (fieldIndex s) (inverseHolders ix t s) (ix_nodes ix)" for a]
  by (auto simp: rewireInverse_def inverseJobs_def fold_result_map runJob_def split: option.split sum.split)

lemma rewire_conv:
  assumes "\<And>e. e \<in> set (dt_values (d_fields d)) \<Longrightarrow> ix_nodes ix (hf_holder (fst e)) \<noteq> None \<and> irf_spec (snd e) \<noteq> None"
  shows "rewire env d ix h = fold_result (runJob (ix_nodes ix))
    (map fieldJob (dt_values (d_fields d)) @ concat (map (inverseJobs env ix) (d_inverseTargets d))) h"
proof -
  have "fold_result (rewireField ix) (dt_values (d_fields d)) h =
      fold_result (runJob (ix_nodes ix)) (map fieldJob (dt_values (d_fields d))) h"
    unfolding fold_result_map
    by (rule fold_result_cong) (use assms in \<open>force simp: rewireField_def runJob_def fieldJob_def\<close>)
  then show ?thesis
    unfolding rewire_def fold_result_append rewireInverse_conv[abs_def] fold_result_concat by simp
qed

section \<open>Publishing keeps the index and the rows in step\<close>

lemma collectInverseTargets_frame:
  "d_index (collectInverseTargets d) = d_index d \<and> d_fields (collectInverseTargets d) = d_fields d \<and>
   d_ownerChanges (collectInverseTargets d) = d_ownerChanges d \<and> d_targets (collectInverseTargets d) = d_targets d \<and>
   d_created (collectInverseTargets d) = d_created d"
proof -
  let ?step = "\<lambda>d' e. case irf_spec (snd e) of
      None \<Rightarrow> d'
    | Some s \<Rightarrow>
        if kind s \<noteq> BorrowRelation \<and> kind s \<noteq> OptionRelation then d'
        else d'\<lparr>d_inverseTargets := fold List.insert (irf_targets (fieldOf (d_index d') (fst e)) @ irf_targets (snd e)) (d_inverseTargets d')\<rparr>"
  have "d_index (foldl ?step d es) = d_index d \<and> d_fields (foldl ?step d es) = d_fields d \<and>
     d_ownerChanges (foldl ?step d es) = d_ownerChanges d \<and> d_targets (foldl ?step d es) = d_targets d \<and>
     d_created (foldl ?step d es) = d_created d" for es
    by (induction es rule: rev_induct) (auto split: option.split)
  then show ?thesis unfolding collectInverseTargets_def .
qed

lemma built_delta:
  assumes "index_ok env ix" and "distinct (map resourceKey resources)" and "distinct (map fst creates)"
    and "buildRelationIndexDelta env h0 registered (Some ix) resources creates = Some (Inr (Some d))"
  obtains d0 d1 where "scanDelta env h0 registered ix resources creates = Inr (Some d0)" "delta_wf env d0" "d_index d0 = ix"
    "validateOwnership env d0 = Some (Inr d1)" "d_fields d = d_fields d0" "d_ownerChanges d = d_ownerChanges d1"
    "d_targets d = d_targets d0" "d_index d = ix"
proof -
  from assms(4) obtain d0 d1 where d: "scanDelta env h0 registered ix resources creates = Inr (Some d0)"
    "validateOwnership env d0 = Some (Inr d1)" "d = collectInverseTargets d1"
    by (auto simp: buildRelationIndexDelta_def split: sum.splits option.splits if_splits)
  have wf: "delta_wf env d0" "d_index d0 = ix" using scanDelta_wf[OF assms(1-3) d(1)] by auto
  have "d1 = d0\<lparr>d_ownerChanges := d_ownerChanges d1\<rparr>" using ownership_check[OF wf(1)] d(2) by auto
  then have "d_fields d1 = d_fields d0" "d_targets d1 = d_targets d0" "d_index d1 = ix"
    by (metis relationIndexDelta.ext_inject relationIndexDelta.surjective relationIndexDelta.update_convs(6))
      (metis \<open>d1 = d0\<lparr>d_ownerChanges := d_ownerChanges d1\<rparr>\<close> relationIndexDelta.ext_inject relationIndexDelta.surjective relationIndexDelta.update_convs(6) wf(2))+
  then show thesis using that[OF d(1) wf d(2)] d(3) collectInverseTargets_frame[of d1] by simp
qed

lemma resources_known:
  assumes "scanDelta env h registered ix resources creates = Inr (Some d)" and "r \<in> set resources"
  shows "ix_nodes ix (resourceKey r) \<noteq> None"
proof -
  obtain os where os: "fold_supported (touchedOverride env h registered ix) resources [] = Inr (Some os)"
    using assms(1) by (auto simp: scanDelta_def bind_supported_Some)
  obtain new :: "'a override list" where "map fst new = map resourceKey resources" "\<forall>q \<in> set new. ix_nodes ix (fst q) \<noteq> None"
    using touched_overrides[OF os] by meson
  then show ?thesis using assms(2) by (metis (no_types, lifting) image_eqI image_iff list.set_map)
qed

lemma inverseHolders_known:
  assumes "counts_agree ix" and "index_closed ix" and "k \<in> set (inverseHolders ix t s)"
  shows "ix_nodes ix k \<noteq> None"
proof -
  obtain e where e: "e \<in> set (entries (countsOf ix t))" "0 < snd e" "k = hf_holder (fst e)"
    using assms(3) by (auto simp: inverseHolders_def split: option.splits)
  have ok: "counts_ok (countsOf ix t)" "countOf (countsOf ix t) (fst e) = int (count_list (irf_targets (fieldOf ix (fst e))) t)"
    using assms(1) by (auto simp: counts_agree_def)
  have "countOf (countsOf ix t) (fst e) = snd e"
    using e(1) map_of_eq_Some_iff[OF incoming.keys_distinct[OF ok(1)], of "fst e" "snd e"] by (simp add: countOf_def)
  then have "irf_targets (fieldOf ix (fst e)) \<noteq> []" using ok(2) e(2) by auto
  then obtain x where "ix_fields ix (fst e) = Some x" by (auto simp: fieldOf_def split: option.splits)
  then show ?thesis using assms(2) e(3) unfolding index_closed_def by blast
qed

lemma foldl_upd_dom: "dom (foldl (\<lambda>m c. m(fst c \<mapsto> snd c)) m cs) = dom m \<union> fst ` set cs"
  by (induction cs arbitrary: m) auto

lemma publish_jobs:
  assumes "delta_wf env d0" and "d_fields e = d_fields d0" and "index_closed ix'" and "counts_agree ix'"
    and "ix_fields ix' = (\<lambda>f. case map_of (dt_values (d_fields d0)) f of None \<Rightarrow> ix_fields (d_index d0) f | Some x \<Rightarrow> Some x)"
  defines "J \<equiv> map fieldJob (dt_values (d_fields e)) @ concat (map (inverseJobs env ix') (d_inverseTargets e))"
  shows "places_differ (set J)" and "\<forall>j \<in> set J. job_ok env (ix_nodes ix') j"
proof -
  let ?vs = "dt_values (d_fields d0)"
  have dist: "distinct (map fst ?vs)" by (rule pending.keys_distinct) (use assms(1) in \<open>simp add: delta_wf_def\<close>)
  have spec: "\<exists>s. irf_spec (snd q) = Some s \<and> spec_of env (fst q) s" if "q \<in> set ?vs" for q
    using assms(1) that unfolding delta_wf_def by blast
  have J: "j \<in> set J \<longleftrightarrow> (\<exists>q \<in> set ?vs. j = fieldJob q) \<or> (\<exists>t \<in> set (d_inverseTargets e). j \<in> set (inverseJobs env ix' t))" for j
    by (auto simp: J_def assms(2))
  have inv: "\<exists>specs. relationSpecs env (nk_type (fst j)) = Inr specs \<and> fst (snd j) \<in> set specs \<and> kind (fst (snd j)) = InverseRelation \<and>
      ix_nodes ix' (fst j) \<noteq> None \<and> snd (snd j) = inverseHolders ix' (fst j) (fst (snd j))" if "j \<in> set (inverseJobs env ix' t)" for j t
    using that by (cases "ix_nodes ix' t"; cases "relationSpecs env (nk_type t)") (auto simp: inverseJobs_def)
  have fld: "spec_of env (fst q) (fst (snd (fieldJob q))) \<and> fst (fieldJob q) = hf_holder (fst q) \<and>
      fieldIndex (fst (snd (fieldJob q))) = hf_field (fst q)" if "q \<in> set ?vs" for q
    using spec[OF that] by (auto simp: fieldJob_def spec_of_def)
  show "places_differ (set J)" unfolding places_differ_def
  proof (intro ballI impI)
    fix j j' assume j: "j \<in> set J" "j' \<in> set J" "at_place j (fst j') (fieldIndex (fst (snd j')))"
    then have same: "fst j = fst j'" "fieldIndex (fst (snd j)) = fieldIndex (fst (snd j'))" by (auto simp: at_place_def)
    consider (ff) q q' where "q \<in> set ?vs" "j = fieldJob q" "q' \<in> set ?vs" "j' = fieldJob q'"
      | (fi) q t where "q \<in> set ?vs" "j = fieldJob q" "j' \<in> set (inverseJobs env ix' t)"
      | (jf) q t where "q \<in> set ?vs" "j' = fieldJob q" "j \<in> set (inverseJobs env ix' t)"
      | (ii) t t' where "j \<in> set (inverseJobs env ix' t)" "j' \<in> set (inverseJobs env ix' t')"
      using j(1,2) unfolding J by blast
    then show "j = j'"
    proof cases
      case ff
      then have "fst q = fst q'" using fld[of q] fld[of q'] same by (simp add: relationHolderField.expand)
      then have "q = q'" using ff(1,3) dist by (metis eq_key_imp_eq_value prod.collapse)
      then show ?thesis using ff by simp
    next
      case fi
      have "spec_of env (fst q) (fst (snd j))" "spec_of env (fst q) (fst (snd j'))" if "kind (fst (snd j')) \<noteq> InverseRelation"
        using fld[OF fi(1)] fi(2) inv[OF fi(3)] same that by (auto simp: spec_of_def)
      moreover obtain specs where "relationSpecs env (nk_type (fst j')) = Inr specs" "fst (snd j') \<in> set specs" "fst (snd j) \<in> set specs"
        using fld[OF fi(1)] fi(2) inv[OF fi(3)] same by (auto simp: spec_of_def)
      then have "fst (snd j) = fst (snd j')" using specs_distinct same(2) by (metis distinct_map inj_onD)
      ultimately show ?thesis using fld[OF fi(1)] fi(2) inv[OF fi(3)] by (auto simp: spec_of_def)
    next
      case jf
      obtain specs where "relationSpecs env (nk_type (fst j')) = Inr specs" "fst (snd j') \<in> set specs" "fst (snd j) \<in> set specs"
        using fld[OF jf(1)] jf(2) inv[OF jf(3)] same by (auto simp: spec_of_def)
      then have "fst (snd j) = fst (snd j')" using specs_distinct same(2) by (metis distinct_map inj_onD)
      then show ?thesis using fld[OF jf(1)] jf(2) inv[OF jf(3)] by (auto simp: spec_of_def)
    next
      case ii
      obtain specs where "relationSpecs env (nk_type (fst j')) = Inr specs" "fst (snd j') \<in> set specs" "fst (snd j) \<in> set specs"
        using inv[OF ii(1)] inv[OF ii(2)] same by auto
      then have "fst (snd j) = fst (snd j')" using specs_distinct same(2) by (metis distinct_map inj_onD)
      then show ?thesis using inv[OF ii(1)] inv[OF ii(2)] same(1) by (auto intro!: prod_eqI)
    qed
  qed
  show "\<forall>j \<in> set J. job_ok env (ix_nodes ix') j"
  proof
    fix j assume "j \<in> set J"
    then consider q where "q \<in> set ?vs" "j = fieldJob q" | t where "j \<in> set (inverseJobs env ix' t)" unfolding J by blast
    then show "job_ok env (ix_nodes ix') j"
    proof cases
      case 1
      have "map_of ?vs (fst q) = Some (snd q)" using 1(1) dist by simp
      then have "ix_fields ix' (fst q) = Some (snd q)" by (simp add: assms(5))
      then have "ix_nodes ix' (hf_holder (fst q)) \<noteq> None" "\<forall>t \<in> set (irf_targets (snd q)). ix_nodes ix' t \<noteq> None"
        using assms(3) unfolding index_closed_def by blast+
      then show ?thesis using fld[OF 1(1)] 1(2) by (auto simp: job_ok_def fieldJob_def spec_of_def)
    next
      case 2
      then show ?thesis using inv[OF 2] inverseHolders_known[OF assms(4,3)] by (auto simp: job_ok_def)
    qed
  qed
qed

lemma targets_in_override:
  assumes "targets_in A K" and "targets_in B K"
  shows "targets_in (\<lambda>l. case A l of None \<Rightarrow> B l | Some t \<Rightarrow> Some t) K"
  unfolding targets_in_def
proof
  fix t assume "t \<in> ran (\<lambda>l. case A l of None \<Rightarrow> B l | Some t \<Rightarrow> Some t)"
  then obtain l where l: "(case A l of None \<Rightarrow> B l | Some t \<Rightarrow> Some t) = Some t" unfolding ran_def by blast
  show "fst t \<in> K"
  proof (cases "A l")
    case None
    then show ?thesis using l targets_inD[OF assms(2)] by simp
  next
    case (Some t')
    then show ?thesis using l targets_inD[OF assms(1) Some] by simp
  qed
qed

lemma publish:
  assumes "index_ok env ix" and "index_closed ix" and "distinct (map resourceKey resources)" and "distinct (map fst creates)"
    and "buildRelationIndexDelta env h0 registered (Some ix) resources creates = Some (Inr (Some d))"
    and "co_index st = Some ix" and "children_agree (ix_owners ix) (co_outgoing st)"
    and "map fst bound = map fst creates"
    and "N = foldl (\<lambda>m c. m(fst c \<mapsto> snd c)) (ix_nodes ix) bound"
    and "inj_on N (dom N)" and "typed_rows env N h"
  shows "\<exists>st' h' ix'. publishAndRewire env h (d\<lparr>d_created := bound\<rparr>) st = Inr (st', h') \<and>
    co_index st' = Some ix' \<and> ix_nodes ix' = N \<and>
    index_ok env ix' \<and> index_closed ix' \<and> children_agree (ix_owners ix') (co_outgoing st') \<and>
    fieldOf ix' = currentField d \<and>
    (\<forall>q \<in> set (dt_values (d_fields d)). \<forall>a s. N (hf_holder (fst q)) = Some a \<longrightarrow> irf_spec (snd q) = Some s \<longrightarrow>
       pointers (h' a) (hf_field (fst q)) = wiredValue N (many s) (irf_targets (snd q))) \<and>
    (\<forall>t \<in> set (d_inverseTargets d). \<forall>a specs. \<forall>s \<in> set specs. N t = Some a \<longrightarrow> relationSpecs env (nk_type t) = Inr specs \<longrightarrow>
       kind s = InverseRelation \<longrightarrow> pointers (h' a) (fieldIndex s) = wiredValue N (many s) (inverseHolders ix' t s))"
proof -
  obtain d0 d1 where d: "scanDelta env h0 registered ix resources creates = Inr (Some d0)" "delta_wf env d0" "d_index d0 = ix"
    "validateOwnership env d0 = Some (Inr d1)" "d_fields d = d_fields d0" "d_ownerChanges d = d_ownerChanges d1"
    "d_targets d = d_targets d0" "d_index d = ix"
    by (rule built_delta[OF assms(1,3,4,5)])
  let ?e = "d\<lparr>d_created := bound\<rparr>" and ?vs = "dt_values (d_fields d0)"
  define ix' where "ix' = fst (publishIndex ?e ix (co_outgoing st))"
  have e: "d_fields ?e = d_fields d0" "d_ownerChanges ?e = d_ownerChanges d1" "d_targets ?e = d_targets d0"
    using d by simp_all
  note P = publishIndex_ok[OF d(2,4) _ e, unfolded d(3), OF assms(7), folded ix'_def]
  have N: "ix_nodes ix' = N" using P assms(9) by simp
  have ok: "index_ok env ix'" and fo: "fieldOf ix' = currentField d0" and ch: "children_agree (ix_owners ix') (snd (publishIndex ?e ix (co_outgoing st)))"
    and flds: "ix_fields ix' = (\<lambda>f. case map_of ?vs f of None \<Rightarrow> ix_fields ix f | Some x \<Rightarrow> Some x)"
    and tgts: "ix_targets ix' = (\<lambda>l. case d_targets d0 l of None \<Rightarrow> ix_targets ix l | Some t \<Rightarrow> Some t)"
    using P by blast+
  have K: "dom N = dom (ix_nodes ix) \<union> fst ` set creates"
    using arg_cong[OF assms(8), of set] by (simp add: assms(9) foldl_upd_dom)
  have closed0: "delta_closed (dom N) d0" unfolding K by (rule scanDelta_closed[OF assms(2) d(1)])
  have holder: "hf_holder (fst q) \<in> dom N" if "q \<in> set ?vs" for q
  proof -
    have "resourceKey ` set resources \<subseteq> dom (ix_nodes ix)" using resources_known[OF d(1)] by auto
    then show ?thesis using scanDelta_wf[OF assms(1,3,4) d(1)] that unfolding K by blast
  qed
  have closed: "index_closed ix'" unfolding index_closed_def
  proof (intro conjI allI impI)
    show "targets_in (ix_targets ix') (dom (ix_nodes ix'))"
      unfolding N tgts by (rule targets_in_override) (use closed0 in \<open>simp_all add: delta_closed_def d(3)\<close>)
    fix f x assume x: "ix_fields ix' f = Some x"
    have "hf_holder f \<in> dom N \<and> set (irf_targets x) \<subseteq> dom N"
    proof (cases "map_of ?vs f")
      case None
      then have "ix_fields ix f = Some x" using x by (simp add: flds)
      then show ?thesis using assms(2) unfolding index_closed_def K by blast
    next
      case (Some y)
      then have "(f, x) \<in> set ?vs" using x map_of_SomeD[OF Some] by (simp add: flds)
      then show ?thesis using holder[of "(f, x)"] closed0 unfolding delta_closed_def by force
    qed
    then show "ix_nodes ix' (hf_holder f) \<noteq> None" "\<forall>t \<in> set (irf_targets x). ix_nodes ix' t \<noteq> None"
      unfolding N by (auto simp: dom_def)
  qed
  have counts: "counts_agree ix'" using ok by (simp add: index_ok_def)
  let ?J = "map fieldJob (dt_values (d_fields ?e)) @ concat (map (inverseJobs env ix') (d_inverseTargets ?e))"
  note J = publish_jobs[OF d(2) e(1) closed counts, unfolded d(3), OF flds]
  have inj: "inj_on (ix_nodes ix') (dom (ix_nodes ix'))" "typed_rows env (ix_nodes ix') h" using assms(10,11) by (simp_all add: N)
  obtain h' where h': "fold_result (runJob N) ?J h = Inr h'" "\<forall>j \<in> set ?J. written N h' j"
    using run_jobs[OF inj(1) J(1) inj(2) J(2)] unfolding N by blast
  have vals: "ix_nodes ix' (hf_holder (fst q)) \<noteq> None \<and> irf_spec (snd q) \<noteq> None" if "q \<in> set (dt_values (d_fields ?e))" for q
    using holder[of q] that d(2) unfolding N delta_wf_def by (auto simp: d(5))
  have rw: "rewire env ?e ix' h = Inr h'" using rewire_conv[of ?e ix' env h, OF vals] h'(1) by (simp add: N)
  let ?st = "st\<lparr>co_index := Some ix', co_outgoing := snd (publishIndex ?e ix (co_outgoing st)), co_graph := None, co_branches := (\<lambda>_. None)\<rparr>"
  have "publishAndRewire env h ?e st = Inr (?st, h')"
    using rw by (simp add: publishAndRewire_def assms(6) d(8) Let_def ix'_def)
  moreover have "pointers (h' a) (hf_field (fst q)) = wiredValue N (many s) (irf_targets (snd q))"
    if q: "q \<in> set (dt_values (d_fields d))" "N (hf_holder (fst q)) = Some a" "irf_spec (snd q) = Some s" for q a s
  proof -
    have "written N h' (fieldJob q)" using h'(2) q(1) by simp
    moreover have "\<exists>s'. irf_spec (snd q) = Some s' \<and> spec_of env (fst q) s'"
      using d(2) q(1) unfolding delta_wf_def d(5) by blast
    then have "fieldIndex s = hf_field (fst q)" using q(3) by (auto simp: spec_of_def)
    ultimately show ?thesis using q by (auto simp: written_def fieldJob_def)
  qed
  moreover have "pointers (h' a) (fieldIndex s) = wiredValue N (many s) (inverseHolders ix' t s)"
    if t: "t \<in> set (d_inverseTargets d)" "N t = Some a" "relationSpecs env (nk_type t) = Inr specs" "s \<in> set specs" "kind s = InverseRelation"
    for t a specs s
  proof -
    have "(t, s, inverseHolders ix' t s) \<in> set (inverseJobs env ix' t)" using t by (auto simp: inverseJobs_def N)
    then have "written N h' (t, s, inverseHolders ix' t s)" using h'(2) t(1) by auto
    then show ?thesis using t(2) by (simp add: written_def)
  qed
  moreover have "currentField d0 = currentField d" by (simp add: fun_eq_iff currentField_def d(3,5,8) split: option.split)
  ultimately show ?thesis using N ok closed ch fo
    by (intro exI[of _ ?st] exI[of _ h'] exI[of _ ix']) auto
qed

text \<open>
  C19. An incremental commit keeps the published index exact. Whenever the delta of a commit is
  built against a correct index, publishing it succeeds (no panic), leaves an index that is
  correct again (reference counts equal to the fields, owners those of an ownership forest,
  every named row present), keeps the committed children equal to the owners, changes exactly
  the pending fields, and leaves every replaced field of every row, and every affected inverse
  slice, pointing to exactly the rows the index names, in its order.
\<close>

theorem publish_keeps_index_and_rows:
  assumes "index_ok env ix" and "index_closed ix" and "distinct (map resourceKey resources)" and "distinct (map fst creates)"
    and "buildRelationIndexDelta env h0 registered (Some ix) resources creates = Some (Inr (Some d))"
    and "co_index st = Some ix" and "children_agree (ix_owners ix) (co_outgoing st)"
    and "map fst bound = map fst creates"
    and "N = foldl (\<lambda>m c. m(fst c \<mapsto> snd c)) (ix_nodes ix) bound"
    and "inj_on N (dom N)" and "typed_rows env N h"
  shows "\<exists>st' h' ix'. publishAndRewire env h (d\<lparr>d_created := bound\<rparr>) st = Inr (st', h') \<and>
    co_index st' = Some ix' \<and> ix_nodes ix' = N \<and>
    index_ok env ix' \<and> index_closed ix' \<and> children_agree (ix_owners ix') (co_outgoing st') \<and>
    fieldOf ix' = currentField d \<and>
    (\<forall>q \<in> set (dt_values (d_fields d)). \<forall>a s. N (hf_holder (fst q)) = Some a \<longrightarrow> irf_spec (snd q) = Some s \<longrightarrow>
       pointers (h' a) (hf_field (fst q)) = wiredValue N (many s) (irf_targets (snd q))) \<and>
    (\<forall>t \<in> set (d_inverseTargets d). \<forall>a specs. \<forall>s \<in> set specs. N t = Some a \<longrightarrow> relationSpecs env (nk_type t) = Inr specs \<longrightarrow>
       kind s = InverseRelation \<longrightarrow> pointers (h' a) (fieldIndex s) = wiredValue N (many s) (inverseHolders ix' t s))"
  by (rule publish[OF assms])

end
