(* ===== verification/Index_Build.thy ===== *)
theory Index_Build
  imports Index_Publish
begin

text \<open>
  \<open>buildCommittedRelationIndex\<close> and \<open>storeCommittedOwnership\<close>: the index made from an accepted
  model and what a deletion leaves of it satisfies the invariant that incremental commits keep.
\<close>

definition storeCommittedOwnership ::
  "typeEnv \<Rightarrow> 'p heap \<Rightarrow> nat \<Rightarrow> 'p relationModel \<Rightarrow> nodeKey list \<Rightarrow> 'p committedOwnership \<Rightarrow> 'p committedOwnership" where
  "storeCommittedOwnership env h addr m dead st =
     st\<lparr>co_outgoing := survivingOutgoing (outgoing m) dead, co_branches := (\<lambda>_. None),
        co_graph := (if dead = [] then Some m else None),
        co_index := Some (buildCommittedRelationIndex env h addr m dead), co_ready := True\<rparr>"

section \<open>The frame of a model\<close>

lemma model_frame:
  assumes "buildRelationModel env h nodes = Inr m"
  shows "rm_nodes m = nodes \<and> rm_targets m = buildRelationTargetIndexFromFields h nodes (rm_targetFields m) \<and>
    refs m = graphRefs env h (rm_targets m) nodes \<and> distinct (map fst (owners m)) \<and>
    distinct (map fst (outgoing m))"
proof -
  obtain tfs where tfs: "relationTargetFields env nodes = Inr tfs"
    using assms(1) by (cases "relationTargetFields env nodes") (auto simp: buildRelationModel_def)
  define T where "T = buildRelationTargetIndexFromFields h nodes tfs"
  define ini where "ini = \<lparr>scanned = emptyModel nodes T tfs, incoming = noIncoming, ownedBy = (\<lambda>_. None)\<rparr>"
  obtain st where st: "scanRelations env h nodes T tfs = Inr st"
    and att: "fold_result (attachNodeOwner (incoming st) (ownedBy st)) (map fst nodes) (scanned st) = Inr m"
    using assms(1)
    by (cases "scanRelations env h nodes T tfs")
      (auto simp: buildRelationModel_def buildRelationModelFromTargets_def tfs T_def bind_result_def split: sum.splits)
  have "scan_ok ini" by (simp add: scan_ok_def ini_def emptyModel_def noIncoming_def)
  from scan_nodes[OF st[unfolded scanRelations_def, folded ini_def] this]
  have S: "scan_ok st" "refs (scanned st) = graphRefs env h T nodes" "owners (scanned st) = []" "outgoing (scanned st) = []"
    "rm_nodes (scanned st) = nodes" "rm_targets (scanned st) = T" "rm_targetFields (scanned st) = tfs"
    by (auto simp: ini_def emptyModel_def same_frame_def)
  have "attached (refs (scanned st)) (map fst nodes) (scanned st) m"
    using attach_nodes[OF S(1), of "map fst nodes" "scanned st"] att by (auto split: if_splits)
  then have "rm_nodes m = nodes" "rm_targets m = T" "rm_targetFields m = tfs" "refs m = graphRefs env h T nodes"
    using S by (auto simp: attached_def)
  moreover have "distinct (map fst (owners m)) \<and> distinct (map fst (outgoing m))"
    by (rule fold_result_invariant[where I = "\<lambda>m. distinct (map fst (owners m)) \<and> distinct (map fst (outgoing m))", OF _ _ att])
      (auto simp: S(3,4) attachNodeOwner_def addChild_def Let_def distinct_update split: if_splits option.splits)
  ultimately show ?thesis by (simp add: T_def)
qed

definition refField :: "resolvedRelation \<Rightarrow> relationHolderField" where
  "refField r = HolderField (rr_holder r) (fieldIndex (rr_spec r))"

lemma ref_spec:
  assumes "r \<in> set (graphRefs env h T nodes)"
  shows "spec_of env (refField r) (rr_spec r) \<and> rr_holder r \<in> fst ` set nodes"
proof -
  obtain n where n: "n \<in> set nodes" "r \<in> set (nodeRefs env h T n)" using assms by (auto simp: graphRefs_def)
  then obtain specs where specs: "relationSpecs env (nk_type (fst n)) = Inr specs"
    by (cases "relationSpecs env (nk_type (fst n))") (auto simp: nodeRefs_def)
  then obtain s where "s \<in> set specs" "kind s \<noteq> InverseRelation" "rr_holder r = fst n" "rr_spec r = s"
    using n(2) by (auto simp: nodeRefs_def fieldRefs_def)
  then show ?thesis using n(1) specs by (auto simp: spec_of_def refField_def)
qed

section \<open>The empty fields\<close>

definition specFields :: "nodeKey \<Rightarrow> relationSpec list \<Rightarrow> (relationHolderField \<Rightarrow> indexedRelationField option) \<Rightarrow> relationHolderField \<Rightarrow> indexedRelationField option" where
  "specFields k specs fs = foldl (\<lambda>fs s. if kind s = InverseRelation then fs
       else fs(HolderField k (fieldIndex s) \<mapsto> \<lparr>irf_spec = Some s, irf_targets = []\<rparr>)) fs specs"

lemma specFields_conv:
  "specFields k specs fs f = Some x \<Longrightarrow> fs f = Some x \<or>
     (\<exists>s \<in> set specs. kind s \<noteq> InverseRelation \<and> f = HolderField k (fieldIndex s) \<and> x = \<lparr>irf_spec = Some s, irf_targets = []\<rparr>)"
proof (induction specs rule: rev_induct)
  case (snoc s specs)
  then show ?case by (auto simp: specFields_def split: if_splits)
qed (simp add: specFields_def)

lemma specFields_mono: "fs f \<noteq> None \<Longrightarrow> specFields k specs fs f \<noteq> None"
  by (induction specs rule: rev_induct) (auto simp: specFields_def)

lemma specFields_dom: "s \<in> set specs \<Longrightarrow> kind s \<noteq> InverseRelation \<Longrightarrow> specFields k specs fs (HolderField k (fieldIndex s)) \<noteq> None"
  by (induction specs rule: rev_induct) (auto simp: specFields_def)

lemma indexRelationFields_frame:
  "ix_nodes (indexRelationFields env ns ix) = ix_nodes ix" "ix_targets (indexRelationFields env ns ix) = ix_targets ix"
  "ix_incoming (indexRelationFields env ns ix) = ix_incoming ix"
  "ix_addr (indexRelationFields env ns ix) = ix_addr ix"
  by (induction ns rule: rev_induct) (auto simp: indexRelationFields_def split: sum.split)

lemma indexRelationFields_snoc:
  "ix_fields (indexRelationFields env (ns @ [n]) ix) =
     (case relationSpecs env (nk_type (fst n)) of
        Inl _ \<Rightarrow> ix_fields (indexRelationFields env ns ix)
      | Inr specs \<Rightarrow> specFields (fst n) specs (ix_fields (indexRelationFields env ns ix)))"
  by (auto simp: indexRelationFields_def specFields_def split: sum.split)

lemma indexed_fields:
  "ix_fields (indexRelationFields env ns ix) f = Some x \<Longrightarrow> ix_fields ix f = Some x \<or>
     (hf_holder f \<in> fst ` set ns \<and> (\<exists>s. spec_of env f s \<and> x = \<lparr>irf_spec = Some s, irf_targets = []\<rparr>))"
proof (induction ns rule: rev_induct)
  case (snoc n ns)
  show ?case
  proof (cases "relationSpecs env (nk_type (fst n))")
    case (Inr specs)
    then show ?thesis using snoc specFields_conv[of "fst n" specs "ix_fields (indexRelationFields env ns ix)" f x]
      by (fastforce simp: indexRelationFields_snoc spec_of_def)
  qed (use snoc in \<open>auto simp: indexRelationFields_snoc\<close>)
qed (simp add: indexRelationFields_def)

lemma indexed_fields_dom:
  "hf_holder f \<in> fst ` set ns \<Longrightarrow> spec_of env f s \<Longrightarrow> ix_fields (indexRelationFields env ns ix) f \<noteq> None"
proof (induction ns rule: rev_induct)
  case (snoc n ns)
  show ?case
  proof (cases "hf_holder f = fst n")
    case True
    then obtain specs where "relationSpecs env (nk_type (fst n)) = Inr specs" "s \<in> set specs" "kind s \<noteq> InverseRelation"
      "f = HolderField (fst n) (fieldIndex s)"
      using snoc.prems(2) by (cases f) (auto simp: spec_of_def)
    then show ?thesis using specFields_dom by (simp add: indexRelationFields_snoc)
  next
    case False
    then have "ix_fields (indexRelationFields env ns ix) f \<noteq> None" using snoc by auto
    then show ?thesis using specFields_mono by (auto simp: indexRelationFields_snoc split: sum.split)
  qed
qed simp

section \<open>Adding the references\<close>

definition alive :: "nodeKey list \<Rightarrow> resolvedRelation \<Rightarrow> bool" where
  "alive dead r \<longleftrightarrow> rr_holder r \<notin> set dead \<and> rr_target r \<notin> set dead"

definition refsIn :: "nodeKey list \<Rightarrow> resolvedRelation list \<Rightarrow> relationHolderField \<Rightarrow> resolvedRelation list" where
  "refsIn dead rs f = filter (\<lambda>r. alive dead r \<and> refField r = f) rs"

lemma indexRef_step:
  assumes "counts_agree ix" and "ix_fields ix (refField r) \<noteq> None"
  shows "counts_agree (indexRef dead ix r) \<and>
    ix_fields (indexRef dead ix r) = (if alive dead r
       then (ix_fields ix)(refField r \<mapsto> (fieldOf ix (refField r))\<lparr>irf_targets := irf_targets (fieldOf ix (refField r)) @ [rr_target r]\<rparr>)
       else ix_fields ix) \<and>
    ix_nodes (indexRef dead ix r) = ix_nodes ix \<and> ix_targets (indexRef dead ix r) = ix_targets ix"
proof (cases "alive dead r")
  case False
  then show ?thesis using assms(1) by (auto simp: indexRef_def alive_def)
next
  case True
  let ?f = "refField r" and ?N = "\<lambda>t f. int (count_list (irf_targets (fieldOf ix f)) t)"
  let ?x = "(fieldOf ix ?f)\<lparr>irf_targets := irf_targets (fieldOf ix ?f) @ [rr_target r]\<rparr>"
  let ?ix = "ix\<lparr>ix_fields := (ix_fields ix)(?f \<mapsto> ?x)\<rparr>"
  have e: "indexRef dead ix r = incrementIncoming (rr_target r) ?f ?ix"
    using True by (simp add: indexRef_def alive_def refField_def Let_def)
  have fo: "fieldOf (incrementIncoming (rr_target r) ?f ?ix) = (fieldOf ix)(?f := ?x)"
    by (simp add: fun_eq_iff fieldOf_def incrementIncoming_def)
  have "counts_are ?ix ?N" using assms(1) by (simp add: counts_agree_are counts_are_def countsOf_def)
  from counts_increments[OF this, of ?f "[rr_target r]"]
  have "counts_are (incrementIncoming (rr_target r) ?f ?ix) (\<lambda>t. (?N t)(?f := ?N t ?f + int (count_list [rr_target r] t)))" by simp
  moreover have "(\<lambda>t. (?N t)(?f := ?N t ?f + int (count_list [rr_target r] t))) =
      (\<lambda>t f. int (count_list (irf_targets (((fieldOf ix)(?f := ?x)) f)) t))" by (auto simp: fun_eq_iff)
  ultimately have "counts_agree (indexRef dead ix r)" unfolding e counts_agree_are fo by simp
  then show ?thesis using True by (simp add: e counts_frame)
qed

lemma indexRefs:
  "counts_agree ix \<Longrightarrow> (\<And>r. r \<in> set rs \<Longrightarrow> ix_fields ix (refField r) \<noteq> None) \<Longrightarrow>
   counts_agree (foldl (indexRef dead) ix rs) \<and>
   (\<forall>f. ix_fields (foldl (indexRef dead) ix rs) f =
      map_option (\<lambda>x. x\<lparr>irf_targets := irf_targets x @ map rr_target (refsIn dead rs f)\<rparr>) (ix_fields ix f)) \<and>
   ix_nodes (foldl (indexRef dead) ix rs) = ix_nodes ix \<and> ix_targets (foldl (indexRef dead) ix rs) = ix_targets ix"
proof (induction rs arbitrary: ix)
  case Nil
  then show ?case by (simp add: refsIn_def option.map_ident)
next
  case (Cons r rs)
  have r: "ix_fields ix (refField r) \<noteq> None" using Cons.prems(2)[of r] by simp
  note step = indexRef_step[OF Cons.prems(1) r, of dead]
  have dom: "ix_fields (indexRef dead ix r) (refField q) \<noteq> None" if "q \<in> set rs" for q
    using step Cons.prems(2)[of q] that by auto
  note IH = Cons.IH[OF conjunct1[OF step] dom]
  have "ix_fields (foldl (indexRef dead) ix (r # rs)) f =
      map_option (\<lambda>x. x\<lparr>irf_targets := irf_targets x @ map rr_target (refsIn dead (r # rs) f)\<rparr>) (ix_fields ix f)" for f
  proof (cases "alive dead r \<and> refField r = f")
    case True
    then have "ix_fields (indexRef dead ix r) f = Some ((fieldOf ix f)\<lparr>irf_targets := irf_targets (fieldOf ix f) @ [rr_target r]\<rparr>)"
      using step by auto
    moreover obtain x where "ix_fields ix f = Some x" "fieldOf ix f = x" using r True by (auto simp: fieldOf_def)
    ultimately show ?thesis using IH True by (simp add: refsIn_def)
  next
    case False
    then have "ix_fields (indexRef dead ix r) f = ix_fields ix f" using step by auto
    moreover have "refsIn dead (r # rs) f = refsIn dead rs f" using False by (simp add: refsIn_def)
    ultimately show ?thesis using IH by simp
  qed
  then show ?case using IH step by simp
qed

section \<open>The index of a model is correct\<close>

lemma refs_of_field:
  assumes "\<And>r. r \<in> set rs \<Longrightarrow> spec_of env (refField r) (rr_spec r)" and "spec_of env f s"
  shows "r \<in> set (refsIn dead rs f) \<longleftrightarrow> r \<in> set rs \<and> alive dead r \<and> rr_holder r = hf_holder f \<and> rr_spec r = s"
proof -
  have "refField r = f \<longleftrightarrow> rr_holder r = hf_holder f \<and> rr_spec r = s" if "r \<in> set rs"
  proof
    assume f: "refField r = f"
    then have "rr_spec r = s" using spec_of_unique[OF assms(1)[OF that], of s] assms(2) by simp
    then show "rr_holder r = hf_holder f \<and> rr_spec r = s" using f by (auto simp: refField_def)
  next
    assume "rr_holder r = hf_holder f \<and> rr_spec r = s"
    then show "refField r = f" using assms(2) by (cases f) (simp add: refField_def spec_of_def)
  qed
  then show ?thesis unfolding refsIn_def set_filter mem_Collect_eq by blast
qed

lemma count_targets: "count_list (map rr_target rs) c = length (filter (\<lambda>r. rr_target r = c) rs)"
  by (induction rs) auto

text \<open>A list of which at most one element satisfies a property, counted through a weaker filter.\<close>

lemma length_filter_mono: "(\<And>x. P x \<Longrightarrow> Q x) \<Longrightarrow> length (filter P xs) \<le> length (filter Q xs)"
  by (induction xs) auto

lemma filter_one:
  assumes "length (filter P xs) \<le> 1" and "x \<in> set xs" "P x" and "y \<in> set xs" "P y"
  shows "x = y"
proof -
  have "x \<in> set (filter P xs)" "y \<in> set (filter P xs)" using assms by auto
  then show ?thesis using assms(1) by (cases "filter P xs"; cases "tl (filter P xs)") auto
qed

definition surviving :: "nodeKey list \<Rightarrow> (nodeKey \<times> nodeKey) list \<Rightarrow> (nodeKey \<times> nodeKey) list" where
  "surviving dead os = filter (\<lambda>(c, w). c \<notin> set dead \<and> w \<notin> set dead) os"

lemma map_of_surviving:
  "distinct (map fst os) \<Longrightarrow> map_of (surviving dead os) c = Some w \<longleftrightarrow> map_of os c = Some w \<and> c \<notin> set dead \<and> w \<notin> set dead"
proof -
  assume d: "distinct (map fst os)"
  then have d': "distinct (map fst (surviving dead os))" by (simp add: surviving_def distinct_map_filter)
  show ?thesis unfolding map_of_eq_Some_iff[OF d] map_of_eq_Some_iff[OF d'] by (auto simp: surviving_def)
qed

lemma singleton_list: "length xs \<le> 1 \<Longrightarrow> x \<in> set xs \<Longrightarrow> xs = [x]"
  by (cases xs) auto

lemma owned_by_model:
  assumes spec: "\<And>r. r \<in> set rs \<Longrightarrow> spec_of env (refField r) (rr_spec r)"
    and F: "\<And>f s. irf_spec (F f) = Some s \<Longrightarrow> spec_of env f s \<and> irf_targets (F f) = map rr_target (refsIn dead rs f)"
    and dom: "\<And>r. r \<in> set rs \<Longrightarrow> alive dead r \<Longrightarrow> irf_spec (F (refField r)) = Some (rr_spec r)"
    and none: "\<And>f. irf_spec (F f) = None \<Longrightarrow> irf_targets (F f) = []"
    and one: "length (ownHolders rs c) \<le> 1" "length (backTargets rs c) \<le> 1"
    and single: "single_valued ((owns rs)\<inverse>)"
    and few: "\<And>specs. relationSpecs env (nk_type c) = Inr specs \<Longrightarrow> countRelationKind specs OwnedByRelation \<le> 1"
    and w: "\<And>u. up c = Some u \<longleftrightarrow> (u, c) \<in> owns rs \<and> c \<notin> set dead \<and> u \<notin> set dead"
  shows "owned_by env F c (up c)"
proof -
  let ?own = "\<lambda>r. kind (rr_spec r) = OwnRelation \<and> rr_target r = c"
  let ?ret = "\<lambda>r. kind (rr_spec r) = OwnedByRelation \<and> rr_holder r = c"
  have few_own: "length (filter ?own rs) \<le> 1" using one(1) by (simp add: ownHolders_def)
  have few_back: "length (filter ?ret rs) \<le> 1" using one(2) by (simp add: backTargets_def)
  have count: "ownCount F c f = length (filter (\<lambda>r. ?own r \<and> alive dead r \<and> refField r = f) rs)" for f
  proof (cases "ownField (F f)")
    case True
    then obtain s where s: "irf_spec (F f) = Some s" "kind s = OwnRelation" by (auto simp: ownField_def)
    have "rr_spec r = s" if "r \<in> set rs" "refField r = f" for r
      using spec[OF that(1)] that(2) F[OF s(1)] spec_of_unique by blast
    then have "filter (\<lambda>r. rr_target r = c) (refsIn dead rs f) = filter (\<lambda>r. ?own r \<and> alive dead r \<and> refField r = f) rs"
      unfolding refsIn_def filter_filter by (intro filter_cong) (use s(2) in auto)
    then show ?thesis using True F[OF s(1)] by (simp add: ownCount_def count_targets)
  next
    case False
    have "\<not> (?own r \<and> alive dead r \<and> refField r = f)" if "r \<in> set rs" for r
      using dom[OF that] False by (auto simp: ownField_def)
    then show ?thesis using False by (simp add: ownCount_def filter_empty_conv)
  qed
  have pos: "0 < ownCount F c f \<longleftrightarrow> (\<exists>r \<in> set rs. ?own r \<and> alive dead r \<and> refField r = f)" for f
    unfolding count by (auto simp: filter_empty_conv)
  have bk: "backOwner env F c = Some b \<longleftrightarrow> (\<exists>r \<in> set rs. ?ret r \<and> alive dead r \<and> rr_target r = b)" for b
  proof
    assume "backOwner env F c = Some b"
    then obtain specs s ss where s: "relationSpecs env (nk_type c) = Inr specs"
      "filter (\<lambda>s. kind s = OwnedByRelation \<and> length (irf_targets (F (HolderField c (fieldIndex s)))) = 1) specs = s # ss"
      "b = irf_targets (F (HolderField c (fieldIndex s))) ! 0"
      by (auto simp: backOwner_def split: sum.splits list.splits)
    let ?f = "HolderField c (fieldIndex s)"
    have "s \<in> set (s # ss)" by simp
    then have s': "s \<in> set specs" "kind s = OwnedByRelation" "length (irf_targets (F ?f)) = 1" unfolding s(2)[symmetric] by auto
    then obtain s2 where s2: "irf_spec (F ?f) = Some s2" using none[of ?f] by (cases "irf_spec (F ?f)") auto
    have so: "spec_of env ?f s" using s(1) s' by (auto simp: spec_of_def)
    have "irf_targets (F ?f) = map rr_target (refsIn dead rs ?f)" using F[OF s2] by blast
    then obtain r where r: "refsIn dead rs ?f = [r]" "rr_target r = b" using s'(3) s(3) by (cases "refsIn dead rs ?f") auto
    have "r \<in> set (refsIn dead rs ?f)" by (simp add: r)
    then have "r \<in> set rs" "alive dead r" "rr_holder r = c" "rr_spec r = s" using refs_of_field[OF spec so] by auto
    then show "\<exists>r \<in> set rs. ?ret r \<and> alive dead r \<and> rr_target r = b" using r(2) s'(2) by blast
  next
    assume "\<exists>r \<in> set rs. ?ret r \<and> alive dead r \<and> rr_target r = b"
    then obtain r where r: "r \<in> set rs" "?ret r" "alive dead r" "rr_target r = b" by blast
    let ?s = "rr_spec r" and ?f = "refField r"
    have f: "?f = HolderField c (fieldIndex ?s)" using r(2) by (simp add: refField_def)
    obtain specs where specs: "relationSpecs env (nk_type c) = Inr specs" "?s \<in> set specs"
      using spec[OF r(1)] r(2) by (auto simp: spec_of_def refField_def)
    have tg: "irf_targets (F ?f) = map rr_target (refsIn dead rs ?f)" using F[OF dom[OF r(1,3)]] by blast
    have "length (refsIn dead rs ?f) \<le> length (filter ?ret rs)"
    proof -
      have "refsIn dead rs ?f = filter (\<lambda>q. alive dead q \<and> refField q = ?f) (filter ?ret rs)"
        unfolding refsIn_def filter_filter
      proof (rule filter_cong[OF refl])
        fix q assume q: "q \<in> set rs"
        have "?ret q" if "refField q = ?f"
        proof -
          have "rr_spec q = ?s" using spec[OF q] that spec[OF r(1)] spec_of_unique by metis
          moreover have "rr_holder q = rr_holder r" using that by (simp add: refField_def)
          ultimately show ?thesis using r(2) by simp
        qed
        then show "(alive dead q \<and> refField q = ?f) = (?ret q \<and> alive dead q \<and> refField q = ?f)" by blast
      qed
      then show ?thesis by (metis length_filter_le)
    qed
    then have "length (refsIn dead rs ?f) \<le> 1" using few_back by (rule order_trans)
    moreover have "r \<in> set (refsIn dead rs ?f)" using r by (simp add: refsIn_def)
    ultimately have "refsIn dead rs ?f = [r]" by (cases "refsIn dead rs ?f") auto
    then have len: "irf_targets (F ?f) = [b]" using tg r(4) by simp
    let ?P = "\<lambda>s. kind s = OwnedByRelation \<and> length (irf_targets (F (HolderField c (fieldIndex s)))) = 1"
    have "length (filter ?P specs) \<le> 1"
      using few[OF specs(1)] length_filter_mono[of ?P "\<lambda>s. kind s = OwnedByRelation" specs] by (simp add: countRelationKind_def)
    moreover have "?s \<in> set (filter ?P specs)" using specs(2) r(2) len f by simp
    ultimately have "filter ?P specs = [?s]" by (rule singleton_list)
    then show "backOwner env F c = Some b" using specs(1) len f by (simp add: backOwner_def)
  qed
  have owns_own: "(rr_holder r, c) \<in> owns rs" if "r \<in> set rs" "?own r" for r using that unfolding owns_conv by blast
  have owns_back: "(rr_target r, c) \<in> owns rs" if "r \<in> set rs" "?ret r" for r using that unfolding owns_conv by blast
  have holder: "refField r = f \<Longrightarrow> rr_holder r = hf_holder f" for r f by (auto simp: refField_def)
  show ?thesis unfolding owned_by_def
  proof (intro conjI allI impI)
    show "f = g" if "0 < ownCount F c f" "0 < ownCount F c g" for f g
      using that filter_one[OF few_own] unfolding pos by metis
    show "ownCount F c f \<le> 1" for f
      unfolding count using few_own length_filter_mono[of "\<lambda>r. ?own r \<and> alive dead r \<and> refField r = f" ?own rs] by simp
  next
    fix f assume "0 < ownCount F c f"
    then obtain r where r: "r \<in> set rs" "?own r" "alive dead r" "refField r = f" unfolding pos by blast
    have own: "(hf_holder f, c) \<in> owns rs" using owns_own[OF r(1,2)] holder[OF r(4)] by simp
    show "up c = Some (hf_holder f)" unfolding w using own r(2,3) holder[OF r(4)] by (auto simp: alive_def)
    fix b assume "backOwner env F c = Some b"
    then obtain q where "q \<in> set rs" "?ret q" "rr_target q = b" unfolding bk by blast
    then have "(b, c) \<in> owns rs" using owns_back by blast
    then show "b = hf_holder f" using single own unfolding single_valued_def by blast
  next
    assume zero: "\<forall>f. ownCount F c f = 0"
    show "up c = backOwner env F c"
    proof (cases "backOwner env F c")
      case (Some b)
      then obtain q where q: "q \<in> set rs" "?ret q" "alive dead q" "rr_target q = b" unfolding bk by blast
      then have "up c = Some b" unfolding w using owns_back[OF q(1,2)] by (auto simp: alive_def)
      then show ?thesis using Some by simp
    next
      case None
      have "up c \<noteq> Some u" for u
      proof
        assume u: "up c = Some u"
        then obtain r where r: "r \<in> set rs" "(?own r \<and> rr_holder r = u) \<or> (?ret r \<and> rr_target r = u)"
          unfolding w owns_conv by blast
        have "alive dead r" using r(2) u unfolding w by (auto simp: alive_def)
        then show False using r zero bk[of u] None pos[of "refField r"] by auto
      qed
      then show ?thesis using None by (cases "up c") auto
    qed
  qed
qed

lemma model_single:
  assumes "typed_graph env h nodes" and "buildRelationModel env h nodes = Inr m"
  shows "length (ownHolders (refs m) c) \<le> 1 \<and> length (backTargets (refs m) c) \<le> 1"
proof -
  obtain tfs where tfs: "relationTargetFields env nodes = Inr tfs"
    using assms(2) by (cases "relationTargetFields env nodes") (auto simp: buildRelationModel_def)
  define T where "T = buildRelationTargetIndexFromFields h nodes tfs"
  obtain st where st: "scanRelations env h nodes T tfs = Inr st"
    using assms(2) by (cases "scanRelations env h nodes T tfs")
      (auto simp: buildRelationModel_def buildRelationModelFromTargets_def tfs T_def)
  note M = model_conv[OF assms(1) tfs T_def st refl]
  have "refs m = graphRefs env h T nodes" using M assms(2) by blast
  then show ?thesis using M assms(2) backTargets_graph[OF assms(1)] by auto
qed

definition aliveNodes :: "nodeKey list \<Rightarrow> 'p nodes \<Rightarrow> 'p nodes" where
  "aliveNodes dead nodes = (if dead = [] then nodes else filter (\<lambda>n. fst n \<notin> set dead) nodes)"

lemma aliveNodes_keys: "fst ` set (aliveNodes dead nodes) = fst ` set nodes - set dead"
  by (auto simp: aliveNodes_def)

lemma counts_agree_empty: "ix_incoming ix = (\<lambda>_. None) \<Longrightarrow> (\<And>f x. ix_fields ix f = Some x \<Longrightarrow> irf_targets x = []) \<Longrightarrow> counts_agree ix"
  unfolding counts_agree_def countsOf_def fieldOf_def using empty_counts by (auto split: option.split)

lemma foldl_alive: "foldl (indexRef dead) ix (filter (alive dead) rs) = foldl (indexRef dead) ix rs"
  by (induction rs arbitrary: ix) (auto simp: indexRef_def alive_def)

text \<open>The fields of the built index: those of the surviving rows, with the surviving references.\<close>

lemma built_fields:
  fixes m :: "'p relationModel"
  assumes "typed_graph env h nodes" and "buildRelationModel env h nodes = Inr m"
    and ix: "ix = buildCommittedRelationIndex env h addr m dead"
  shows "counts_agree ix \<and>
    (\<forall>f x. ix_fields ix f = Some x \<longrightarrow> hf_holder f \<in> fst ` set (aliveNodes dead nodes) \<and>
       (\<exists>s. spec_of env f s \<and> x = \<lparr>irf_spec = Some s, irf_targets = map rr_target (refsIn dead (refs m) f)\<rparr>)) \<and>
    (\<forall>r \<in> set (refs m). alive dead r \<longrightarrow> ix_fields ix (refField r) \<noteq> None) \<and>
    ix_nodes ix = map_of (aliveNodes dead nodes) \<and> ix_owners ix = surviving dead (owners m) \<and>
    targets_in (ix_targets ix) (fst ` set (aliveNodes dead nodes))"
proof -
  define rs where "rs = filter (alive dead) (refs m)"
  define ns where "ns = aliveNodes dead nodes"
  have fr: "rm_nodes m = nodes" "rm_targets m = buildRelationTargetIndexFromFields h nodes (rm_targetFields m)"
    "refs m = graphRefs env h (rm_targets m) nodes" using model_frame[OF assms(2)] by blast+
  define ts where "ts = (if dead = [] then rm_targets m else buildRelationTargetIndexFromFields h ns (rm_targetFields m))"
  define ix0 :: "'p committedRelationIndex" where
    "ix0 = \<lparr>ix_addr = addr, ix_nodes = map_of ns, ix_targets = ts, ix_targetFields = rm_targetFields m,
       ix_backFields = [], ix_fields = (\<lambda>_. None), ix_incoming = (\<lambda>_. None), ix_owners = []\<rparr>"
  define ix1 where "ix1 = indexRelationFields env ns ix0"
  define ix2 where "ix2 = foldl (indexRef dead) ix1 rs"
  have e: "ix = ix2\<lparr>ix_owners := surviving dead (owners m)\<rparr>"
    unfolding ix ix2_def rs_def foldl_alive ix1_def ix0_def ts_def ns_def
    by (simp add: buildCommittedRelationIndex_def Let_def aliveNodes_def surviving_def fr(1))
  have f1: "hf_holder f \<in> fst ` set ns \<and> (\<exists>s. spec_of env f s \<and> x = \<lparr>irf_spec = Some s, irf_targets = []\<rparr>)"
    if "ix_fields ix1 f = Some x" for f x
    using indexed_fields[OF that[unfolded ix1_def]] by (auto simp: ix0_def)
  have "counts_agree ix1"
  proof (rule counts_agree_empty)
    show "ix_incoming ix1 = (\<lambda>_. None)" by (simp add: ix1_def indexRelationFields_frame ix0_def)
    show "irf_targets x = []" if "ix_fields ix1 f = Some x" for f x using f1[OF that] by auto
  qed
  moreover have dom: "ix_fields ix1 (refField r) \<noteq> None" if "r \<in> set rs" for r
  proof -
    have r: "r \<in> set (graphRefs env h (rm_targets m) nodes)" "alive dead r" using that fr(3) by (auto simp: rs_def)
    then have "hf_holder (refField r) \<in> fst ` set ns" using ref_spec[OF r(1)]
      by (auto simp: ns_def aliveNodes_keys alive_def refField_def)
    then show ?thesis unfolding ix1_def by (rule indexed_fields_dom) (use ref_spec[OF r(1)] in blast)
  qed
  ultimately have R: "counts_agree ix2"
    "\<And>f. ix_fields ix2 f = map_option (\<lambda>x. x\<lparr>irf_targets := irf_targets x @ map rr_target (refsIn dead rs f)\<rparr>) (ix_fields ix1 f)"
    "ix_nodes ix2 = ix_nodes ix1" "ix_targets ix2 = ix_targets ix1"
    using indexRefs[of ix1 rs dead] unfolding ix2_def by blast+
  have same: "refsIn dead rs f = refsIn dead (refs m) f" for f by (auto simp: refsIn_def rs_def intro: filter_cong)
  have "ts = buildRelationTargetIndexFromFields h ns (rm_targetFields m)"
    using fr(2) by (simp add: ts_def ns_def aliveNodes_def)
  then have "targets_in ts (fst ` set ns)" by (simp only: targets_are_nodes)
  then have ts: "targets_in (ix_targets ix) (fst ` set ns)" "ix_nodes ix = map_of ns"
    by (simp_all add: e R(3,4) ix1_def indexRelationFields_frame ix0_def)
  have "counts_agree ix" using R(1) by (simp add: e counts_agree_def countsOf_def fieldOf_def)
  moreover have "hf_holder f \<in> fst ` set ns \<and> (\<exists>s. spec_of env f s \<and> x = \<lparr>irf_spec = Some s, irf_targets = map rr_target (refsIn dead (refs m) f)\<rparr>)"
    if "ix_fields ix f = Some x" for f x
    using that f1[of f] by (auto simp: e R(2) same)
  moreover have "ix_fields ix (refField r) \<noteq> None" if "r \<in> set (refs m)" "alive dead r" for r
    using dom[of r] that by (simp add: e R(2) rs_def)
  ultimately show ?thesis using ts unfolding ns_def by (auto simp: e)
qed

lemma built_owners:
  assumes "typed_graph env h nodes" and "buildRelationModel env h nodes = Inr m"
  shows "map_of (surviving dead (owners m)) c = Some w \<longleftrightarrow> (w, c) \<in> owns (refs m) \<and> c \<notin> set dead \<and> w \<notin> set dead"
proof -
  have "distinct (map fst (owners m))" using model_frame[OF assms(2)] by blast
  moreover obtain T where "ownerEdges (owners m) = (owns (refs m))\<inverse>" using model_facts[OF assms] by metis
  then have "map_of (owners m) c = Some w \<longleftrightarrow> (w, c) \<in> owns (refs m)" by (auto simp: ownerEdges_def)
  ultimately show ?thesis by (simp add: map_of_surviving)
qed

lemma count_distinct: "distinct xs \<Longrightarrow> count_list xs x = (if x \<in> set xs then 1 else 0)"
  by (induction xs) auto

lemma built_children:
  assumes "typed_graph env h nodes" and "buildRelationModel env h nodes = Inr m"
  shows "children_agree (surviving dead (owners m)) (survivingOutgoing (outgoing m) dead)"
proof -
  have d: "distinct (map fst (outgoing m))" using model_frame[OF assms(2)] by blast
  obtain T where F: "\<And>w. childList (outgoing m) w = filter (\<lambda>c. (w, c) \<in> owns (refs m)) (map fst nodes)"
    "\<And>w c. (w, c) \<in> owns (refs m) \<Longrightarrow> w \<in> fst ` set nodes \<and> c \<in> fst ` set nodes"
    using model_facts[OF assms] by metis
  have dist: "distinct (map fst nodes)" using assms(1) by (simp add: typed_graph_def)
  have "count_list (childList (survivingOutgoing (outgoing m) dead) w) c =
      (if (w, c) \<in> owns (refs m) \<and> c \<notin> set dead \<and> w \<notin> set dead then 1 else 0)" for w c
  proof -
    let ?L = "childList (survivingOutgoing (outgoing m) dead) w"
    have "distinct ?L" using dist by (simp add: surviving_children[OF d] F(1))
    moreover have "c \<in> set ?L \<longleftrightarrow> (w, c) \<in> owns (refs m) \<and> c \<notin> set dead \<and> w \<notin> set dead"
      using F(2)[of w c] by (auto simp: surviving_children[OF d] F(1))
    ultimately show ?thesis using count_distinct[of ?L c] by simp
  qed
  then show ?thesis unfolding children_agree_def using built_owners[OF assms, of dead] by simp
qed

lemma built_index_ok:
  fixes m :: "'p relationModel"
  assumes G: "typed_graph env h nodes" "buildRelationModel env h nodes = Inr m"
    and ix: "ix = buildCommittedRelationIndex env h addr m dead"
  shows "index_ok env ix \<and> index_closed ix \<and> ix_nodes ix = map_of (aliveNodes dead nodes) \<and>
    ix_owners ix = surviving dead (owners m)"
proof -
  note B = built_fields[OF G ix]
  obtain T where rs: "refs m = graphRefs env h T nodes"
    and own: "\<And>w c. (w, c) \<in> owns (refs m) \<Longrightarrow> w \<in> fst ` set nodes \<and> c \<in> fst ` set nodes"
    and single: "single_valued ((owns (refs m))\<inverse>)" and acyc: "acyclic (owns (refs m))"
    using model_facts[OF G] by metis
  have spec: "spec_of env (refField r) (rr_spec r)" if "r \<in> set (refs m)" for r
    using ref_spec that unfolding rs by blast
  have FX: "hf_holder f \<in> fst ` set (aliveNodes dead nodes) \<and>
      (\<exists>s. spec_of env f s \<and> x = \<lparr>irf_spec = Some s, irf_targets = map rr_target (refsIn dead (refs m) f)\<rparr>)"
    if "ix_fields ix f = Some x" for f x using B that by blast
  have F: "spec_of env f s \<and> irf_targets (fieldOf ix f) = map rr_target (refsIn dead (refs m) f)"
    if "irf_spec (fieldOf ix f) = Some s" for f s
    using that FX[of f] by (auto simp: fieldOf_def split: option.splits)
  have none: "irf_targets (fieldOf ix f) = []" if "irf_spec (fieldOf ix f) = None" for f
    using that FX[of f] by (auto simp: fieldOf_def split: option.splits)
  have dom: "irf_spec (fieldOf ix (refField r)) = Some (rr_spec r)" if r: "r \<in> set (refs m)" "alive dead r" for r
  proof -
    obtain x where x: "ix_fields ix (refField r) = Some x" using B r by blast
    then obtain s where "spec_of env (refField r) s" "irf_spec x = Some s" using FX by fastforce
    then show ?thesis using spec_of_unique[OF spec[OF r(1)]] x by (simp add: fieldOf_def)
  qed
  define up where "up = map_of (surviving dead (owners m))"
  have up: "up c = Some w \<longleftrightarrow> (w, c) \<in> owns (refs m) \<and> c \<notin> set dead \<and> w \<notin> set dead" for c w
    unfolding up_def by (rule built_owners[OF G])
  have "owned_by env (fieldOf ix) c (up c)" for c
  proof (cases "c \<in> fst ` set nodes")
    case True
    then have few: "countRelationKind specs OwnedByRelation \<le> 1" if "relationSpecs env (nk_type c) = Inr specs" for specs
      using G(1) that by (auto simp: typed_graph_def)
    show ?thesis
      by (rule owned_by_model[of "refs m", OF spec F dom none _ _ single few up]) (use model_single[OF G] in blast)+
  next
    case False
    have "ownCount (fieldOf ix) c f = 0" for f
    proof -
      have "rr_target r \<noteq> c" if "r \<in> set (refs m)" for r using model_targets[OF G(2) that] False by blast
      then have "c \<notin> set (irf_targets (fieldOf ix f))"
        using F[of f] none[of f] by (cases "irf_spec (fieldOf ix f)") (auto simp: refsIn_def)
      then show ?thesis by (simp add: ownCount_def)
    qed
    moreover have "ix_fields ix (HolderField c i) = None" for i
      using FX[of "HolderField c i"] False by (cases "ix_fields ix (HolderField c i)") (auto simp: aliveNodes_keys)
    then have "backOwner env (fieldOf ix) c = None" by (simp add: backOwner_def fieldOf_def split: sum.split)
    moreover have "up c = None" using up[of c] own False by (cases "up c") auto
    ultimately show ?thesis by (simp add: owned_by_def)
  qed
  moreover have "ownerRel up \<subseteq> (owns (refs m))\<inverse>" by (auto simp: ownerRel_def up)
  then have "acyclic (ownerRel up)" using acyc acyclic_subset acyclic_converse by metis
  ultimately have forest: "ownership_forest env (fieldOf ix) up" by (simp add: ownership_forest_def)
  have ok: "index_ok env ix"
    unfolding index_ok_def
  proof (intro conjI allI impI)
    show "counts_agree ix" using B by blast
    show "\<exists>s. irf_spec x = Some s \<and> spec_of env f s" if "ix_fields ix f = Some x" for f x using FX[OF that] by auto
    show "ownership_forest env (fieldOf ix) (map_of (ix_owners ix))" using forest B unfolding up_def by simp
  qed
  have nodes: "dom (ix_nodes ix) = fst ` set (aliveNodes dead nodes)" using B by (simp add: dom_map_of_conv_image_fst)
  then have known: "ix_nodes ix k \<noteq> None" if "k \<in> fst ` set (aliveNodes dead nodes)" for k using that by blast
  have tg: "t \<in> fst ` set (aliveNodes dead nodes)" if "t \<in> set (map rr_target (refsIn dead (refs m) f))" for t f
    using that model_targets[OF G(2)] by (auto simp: refsIn_def alive_def aliveNodes_keys)
  have "index_closed ix"
    unfolding index_closed_def
  proof (intro conjI allI impI ballI)
    fix f x assume x: "ix_fields ix f = Some x"
    show "ix_nodes ix (hf_holder f) \<noteq> None" using known FX[OF x] by blast
    fix t assume "t \<in> set (irf_targets x)"
    then have "t \<in> set (map rr_target (refsIn dead (refs m) f))" using FX[OF x] by auto
    then show "ix_nodes ix t \<noteq> None" using known tg by blast
  qed (use B nodes in simp)
  then show ?thesis using ok B by blast
qed

text \<open>
  C21. What a full rebuild publishes is correct. The index built from an accepted model and the
  rows a deletion removed from it satisfies the invariant that incremental commits keep: its
  reference counts are those of its fields, its owners are those of an ownership forest, it
  names only surviving rows and contains exactly them, and the published children are the
  children of these owners.
\<close>

theorem built_index_is_correct:
  assumes "typed_graph env h nodes" and "buildRelationModel env h nodes = Inr m"
    and "st' = storeCommittedOwnership env h addr m dead st"
  shows "\<exists>ix. co_index st' = Some ix \<and> co_ready st' \<and> index_ok env ix \<and> index_closed ix \<and>
    children_agree (ix_owners ix) (co_outgoing st') \<and>
    dom (ix_nodes ix) = fst ` set nodes - set dead \<and>
    (\<forall>f s. irf_spec (fieldOf ix f) = Some s \<longrightarrow> irf_targets (fieldOf ix f) =
       map rr_target (filter (\<lambda>r. rr_holder r \<notin> set dead \<and> rr_target r \<notin> set dead \<and> rr_holder r = hf_holder f \<and>
         fieldIndex (rr_spec r) = hf_field f) (refs m)))"
proof -
  define ix where "ix = buildCommittedRelationIndex env h addr m dead"
  have st': "co_index st' = Some ix" "co_ready st'" "co_outgoing st' = survivingOutgoing (outgoing m) dead"
    by (simp_all add: assms(3) storeCommittedOwnership_def ix_def)
  note ok = built_index_ok[OF assms(1,2) ix_def] and B = built_fields[OF assms(1,2) ix_def]
  have "irf_targets (fieldOf ix f) = map rr_target (refsIn dead (refs m) f)" if "irf_spec (fieldOf ix f) = Some s" for f s
    using that B by (cases "ix_fields ix f") (fastforce simp: fieldOf_def)+
  moreover have "refsIn dead (refs m) f = filter (\<lambda>r. rr_holder r \<notin> set dead \<and> rr_target r \<notin> set dead \<and>
      rr_holder r = hf_holder f \<and> fieldIndex (rr_spec r) = hf_field f) (refs m)" for f
    unfolding refsIn_def by (intro filter_cong) (cases f, auto simp: alive_def refField_def)
  moreover have "dom (ix_nodes ix) = fst ` set nodes - set dead"
    using ok by (simp add: dom_map_of_conv_image_fst aliveNodes_keys)
  moreover have "children_agree (ix_owners ix) (co_outgoing st')"
    using built_children[OF assms(1,2)] ok st'(3) by simp
  ultimately show ?thesis using ok st' by auto
qed

end
