(* ===== verification/Ownership_Examples.thy ===== *)
theory Ownership_Examples
  imports Ownership
begin

text \<open>
  One order with two items, as a concrete graph on which the theorems of \<open>Ownership\<close> are
  applied: it is typed, its model is accepted, and deleting the order takes its items along.
\<close>

definition orderHeap :: "nat heap" where
  "orderHeap p =
     (if p = 1 then \<lparr>getId = 1, scalars = [''Id'' \<mapsto> IntValue ''int'' 1], pointers = (\<lambda>_. Slice [Some 2, Some 3])\<rparr>
      else \<lparr>getId = int p - 1, scalars = [''Id'' \<mapsto> IntValue ''int'' (int p - 1)], pointers = (\<lambda>_. Pointer (Some 1))\<rparr>)"

definition orderNodes :: "nat nodes" where
  "orderNodes = [(NodeKey ''Order'' 1, 1), (NodeKey ''Item'' 1, 2), (NodeKey ''Item'' 2, 3)]"

lemma order_typed: "typed_graph orderTypes orderHeap orderNodes"
  by (auto simp: typed_graph_def orderNodes_def orderTypes_specs countRelationKind_def orderHeap_def)

lemma order_fields: "relationTargetFields orderTypes orderNodes = Inr [(''Item'', ''Id''), (''Order'', ''Id'')]"
  by (simp add: relationTargetFields_def orderNodes_def orderTypes_specs targetFieldsOf_def lookupField_def entityIDField_def)

definition orderTargets :: targetIndex where
  "orderTargets = buildRelationTargetIndexFromFields orderHeap orderNodes [(''Item'', ''Id''), (''Order'', ''Id'')]"

lemma orderTargets_conv:
  "orderTargets = [(''Order'', ''Id'', IntValue ''int'' 1) \<mapsto> (NodeKey ''Order'' 1, False),
     (''Item'', ''Id'', IntValue ''int'' 1) \<mapsto> (NodeKey ''Item'' 1, False),
     (''Item'', ''Id'', IntValue ''int'' 2) \<mapsto> (NodeKey ''Item'' 2, False)]"
  by (simp add: orderTargets_def buildRelationTargetIndexFromFields_def orderNodes_def indexRelationNodeTargets_def
      indexRelationNodeTarget_def relationKey_def orderHeap_def)

lemma order_scan: "\<exists>st. scanRelations orderTypes orderHeap orderNodes orderTargets [(''Item'', ''Id''), (''Order'', ''Id'')] = Inr st"
  by (simp add: scanRelations_def orderNodes_def scanNodeRelations_def orderTypes_specs scanRelationField_def
      fieldPointers_def orderHeap_def scanRelationPointer_def resolveGraphTarget_def graphRelationTargetKey_def
      relationKey_def lookupField_def entityIDField_def emptyModel_def orderTargets_conv recordResolvedRelation_def Let_def)

definition itemsSpec :: relationSpec where
  "itemsSpec = \<lparr>owner = ''Order'', fieldIndex = 1, fieldName = ''Items'', target = ''Item'',
     kind = OwnRelation, matchField = ''Order'', many = True\<rparr>"

definition backSpec :: relationSpec where
  "backSpec = \<lparr>owner = ''Item'', fieldIndex = 1, fieldName = ''Order'', target = ''Order'',
     kind = OwnedByRelation, matchField = ''Id'', many = False\<rparr>"

definition orderModel :: "nat relationModel" where
  "orderModel = \<lparr>rm_nodes = orderNodes, rm_targets = orderTargets,
     rm_targetFields = [(''Item'', ''Id''), (''Order'', ''Id'')],
     refs = [\<lparr>rr_holder = NodeKey ''Order'' 1, rr_target = NodeKey ''Item'' 1, rr_spec = itemsSpec\<rparr>,
       \<lparr>rr_holder = NodeKey ''Order'' 1, rr_target = NodeKey ''Item'' 2, rr_spec = itemsSpec\<rparr>,
       \<lparr>rr_holder = NodeKey ''Item'' 1, rr_target = NodeKey ''Order'' 1, rr_spec = backSpec\<rparr>,
       \<lparr>rr_holder = NodeKey ''Item'' 2, rr_target = NodeKey ''Order'' 1, rr_spec = backSpec\<rparr>],
     unresolved = [], missing = [],
     owners = [(NodeKey ''Item'' 1, NodeKey ''Order'' 1), (NodeKey ''Item'' 2, NodeKey ''Order'' 1)],
     outgoing = [(NodeKey ''Order'' 1, [NodeKey ''Item'' 1, NodeKey ''Item'' 2])]\<rparr>"

lemma order_model: "buildRelationModel orderTypes orderHeap orderNodes = Inr orderModel"
proof -
  note T = orderTargets_def[symmetric]
  define h where "h = orderHeap"
  have scan: "scanRelations orderTypes orderHeap orderNodes orderTargets [(''Item'', ''Id''), (''Order'', ''Id'')] =
      Inr \<lparr>scanned = orderModel\<lparr>owners := [], outgoing := []\<rparr>,
        incoming = noIncoming(NodeKey ''Item'' 1 := \<lparr>io_first = NodeKey ''Order'' 1, io_count = 1\<rparr>,
          NodeKey ''Item'' 2 := \<lparr>io_first = NodeKey ''Order'' 1, io_count = 1\<rparr>),
        ownedBy = [NodeKey ''Item'' 1 \<mapsto> NodeKey ''Order'' 1, NodeKey ''Item'' 2 \<mapsto> NodeKey ''Order'' 1]\<rparr>"
    by (simp add: scanRelations_def orderNodes_def scanNodeRelations_def orderTypes_specs scanRelationField_def
        fieldPointers_def orderHeap_def scanRelationPointer_def resolveGraphTarget_def graphRelationTargetKey_def
        relationKey_def lookupField_def entityIDField_def emptyModel_def orderTargets_conv recordResolvedRelation_def Let_def
        orderModel_def itemsSpec_def backSpec_def noIncoming_def addOwn_def fun_eq_iff)
  show ?thesis
    unfolding buildRelationModel_def order_fields bind_result_simps buildRelationModelFromTargets_def T scan
    by (simp add: orderNodes_def attachNodeOwner_def noIncoming_def resolvedOwner_def addChild_def
        orderModel_def Let_def validateOwnershipCycles_def ownerWalk.simps)
qed

lemma order_children: "childRel orderModel [] = {(NodeKey ''Order'' 1, NodeKey ''Item'' 1), (NodeKey ''Order'' 1, NodeKey ''Item'' 2)}"
  by (auto simp: childRel_def deletionChildren_def orderModel_def childList_def split: if_splits)

lemma order_cascade:
  "(childRel orderModel [])\<^sup>* `` {NodeKey ''Order'' 1} = {NodeKey ''Order'' 1, NodeKey ''Item'' 1, NodeKey ''Item'' 2}"
proof
  let ?D = "{NodeKey ''Order'' 1, NodeKey ''Item'' 1, NodeKey ''Item'' 2}"
  have "(childRel orderModel [])\<^sup>* `` ?D = ?D"
    by (rule Image_closed_trancl) (auto simp: order_children)
  then show "(childRel orderModel [])\<^sup>* `` {NodeKey ''Order'' 1} \<subseteq> ?D" by blast
  show "?D \<subseteq> (childRel orderModel [])\<^sup>* `` {NodeKey ''Order'' 1}"
    by (auto simp: order_children)
qed

theorem deletion_closure_exact_witness:
  "\<exists>dead. deletionClosure orderModel [] [NodeKey ''Order'' 1] = Inr dead \<and>
     set dead = {NodeKey ''Order'' 1, NodeKey ''Item'' 1, NodeKey ''Item'' 2}"
proof -
  have nodes: "set [NodeKey ''Order'' 1] \<subseteq> dom (map_of (rm_nodes orderModel))"
    by (simp add: orderModel_def orderNodes_def)
  have vetoes: "\<forall>r \<in> set (refs orderModel). \<not> vetoes ((childRel orderModel [])\<^sup>* `` set [NodeKey ''Order'' 1]) r"
  proof -
    have "kind (rr_spec r) = OwnedByRelation \<or> many (rr_spec r) \<and> kind (rr_spec r) = OwnRelation"
      if "r \<in> set (refs orderModel)" for r
      using that by (auto simp: orderModel_def itemsSpec_def backSpec_def)
    then show ?thesis by (fastforce simp: vetoes_def)
  qed
  show ?thesis
    using deletion_closure_exact[of orderModel "[]" "[NodeKey ''Order'' 1]"] nodes vetoes
    by (auto simp: order_cascade)
qed

theorem survivors_keep_required_targets_witness:
  "\<exists>dead. deletionClosure orderModel [] [NodeKey ''Item'' 2] = Inr dead \<and>
     NodeKey ''Order'' 1 \<in> fst ` set orderNodes - set dead"
proof -
  have "\<exists>dead. deletionClosure orderModel [] [NodeKey ''Item'' 2] = Inr dead \<and> set dead = {NodeKey ''Item'' 2}"
    by (simp add: deletionClosure_def orderModel_def orderNodes_def deletionChildren_def childList_def restrictRef_def
        itemsSpec_def backSpec_def)
  then obtain dead where dead: "deletionClosure orderModel [] [NodeKey ''Item'' 2] = Inr dead" "set dead = {NodeKey ''Item'' 2}"
    by blast
  have req: "validateRequiredRelations orderModel dead = Inr ()" by (simp add: validateRequiredRelations_def orderModel_def)
  have r: "\<lparr>rr_holder = NodeKey ''Item'' 1, rr_target = NodeKey ''Order'' 1, rr_spec = backSpec\<rparr> \<in> set (refs orderModel)"
    by (simp add: orderModel_def)
  have "NodeKey ''Order'' 1 \<in> fst ` set orderNodes - set dead"
    using survivors_keep_required_targets[OF order_typed order_model dead(1) req, THEN conjunct1, rule_format, OF r] dead(2)
    by (simp add: backSpec_def)
  then show ?thesis using dead(1) by blast
qed

theorem roots_separate_branches_witness:
  "committedOwnershipRoot (Some (owners orderModel)) (NodeKey ''Item'' 1) =
   committedOwnershipRoot (Some (owners orderModel)) (NodeKey ''Item'' 2)"
proof -
  have E: "ownerEdges (owners orderModel) = {(NodeKey ''Item'' 1, NodeKey ''Order'' 1), (NodeKey ''Item'' 2, NodeKey ''Order'' 1)}"
    by (auto simp: ownerEdges_def orderModel_def split: if_splits)
  have "acyclic {(NodeKey ''Item'' 1, NodeKey ''Order'' 1)}"
    using acyclic_add_top[of "{}" "{NodeKey ''Order'' 1}" "NodeKey ''Item'' 1" "{NodeKey ''Order'' 1}"]
    by (simp add: acyclic_def)
  then have "acyclic {(NodeKey ''Item'' 1, NodeKey ''Order'' 1), (NodeKey ''Item'' 2, NodeKey ''Order'' 1)}"
    using acyclic_add_top[of "{(NodeKey ''Item'' 1, NodeKey ''Order'' 1)}" "{NodeKey ''Item'' 1, NodeKey ''Order'' 1}"
        "NodeKey ''Item'' 2" "{NodeKey ''Order'' 1}"]
    by (simp add: insert_commute)
  then have "acyclic (ownerEdges (owners orderModel))" by (simp only: E)
  moreover have "(NodeKey ''Item'' 1, NodeKey ''Order'' 1) \<in> (ownerEdges (owners orderModel))\<^sup>*"
    "(NodeKey ''Item'' 2, NodeKey ''Order'' 1) \<in> (ownerEdges (owners orderModel))\<^sup>*"
    by (auto simp: E)
  ultimately show ?thesis
    using roots_separate_branches[of "owners orderModel" "NodeKey ''Item'' 1" "NodeKey ''Item'' 2"] by blast
qed

theorem branch_keys_are_the_descendants_witness:
  "\<exists>keys branches'. committedOwnershipKeys (\<lambda>_. None) (outgoing orderModel) (NodeKey ''Order'' 1) = Some (keys, branches') \<and>
     NodeKey ''Item'' 2 \<in> set keys \<and> sorted keys \<and> branches' (NodeKey ''Order'' 1) = Some keys"
proof -
  have "branches_ok (outgoing orderModel) (\<lambda>_. None)" by (simp add: branches_ok_def)
  from branch_keys_are_the_descendants[OF model_forest[OF order_typed order_model] this, of "NodeKey ''Order'' 1"]
  obtain keys branches' where "committedOwnershipKeys (\<lambda>_. None) (outgoing orderModel) (NodeKey ''Order'' 1) = Some (keys, branches')"
    "set keys = (outEdges (outgoing orderModel))\<^sup>* `` {NodeKey ''Order'' 1}" "sorted keys"
    "branches' (NodeKey ''Order'' 1) = Some keys" by fastforce
  moreover have "(NodeKey ''Order'' 1, NodeKey ''Item'' 2) \<in> outEdges (outgoing orderModel)"
    by (simp add: outEdges_def childList_def orderModel_def)
  ultimately show ?thesis by blast
qed

end
