(* ===== verification/Index_Examples.thy ===== *)
theory Index_Examples
  imports Index_Build Ownership_Examples
begin

text \<open>
  The order of \<open>Ownership_Examples\<close> with its index, and a transaction that takes one item out
  of the order's slice: the theorems on incremental commits applied to it.
\<close>

abbreviation "order1 \<equiv> NodeKey ''Order'' 1"
abbreviation "item1 \<equiv> NodeKey ''Item'' 1"
abbreviation "item2 \<equiv> NodeKey ''Item'' 2"

definition orderIndex :: "nat committedRelationIndex" where
  "orderIndex = buildCommittedRelationIndex orderTypes orderHeap 7 orderModel []"

lemma indexRef_frame:
  "ix_targetFields (indexRef dead ix r) = ix_targetFields ix"
  "ix_backFields (indexRef dead ix r) = ix_backFields ix"
  "ix_nodes (indexRef dead ix r) = ix_nodes ix"
  "ix_targets (indexRef dead ix r) = ix_targets ix"
  by (simp_all add: indexRef_def incrementIncoming_def Let_def)

lemma indexRelationFields_targetFields: "ix_targetFields (indexRelationFields env ns ix) = ix_targetFields ix"
  by (induction ns rule: rev_induct) (auto simp: indexRelationFields_def split: sum.split)

lemma orderIndex_frame:
  "ix_nodes orderIndex = map_of orderNodes" "ix_targets orderIndex = orderTargets"
  "ix_targetFields orderIndex = [(''Item'', ''Id''), (''Order'', ''Id'')]"
  by (simp_all add: orderIndex_def buildCommittedRelationIndex_def orderModel_def indexRef_frame
      indexRelationFields_frame indexRelationFields_targetFields Let_def)

lemma orderIndex_back: "fst ` set (ix_backFields orderIndex) \<subseteq> {''Item''}"
  by (auto simp: orderIndex_def buildCommittedRelationIndex_def orderModel_def indexRef_frame
      indexRelationFields_def orderNodes_def orderTypes_specs[unfolded One_nat_def] Let_def split: option.splits)

lemma spec_of_items: "spec_of orderTypes (HolderField order1 1) itemsSpec"
  by (simp add: spec_of_def orderTypes_specs[unfolded One_nat_def] itemsSpec_def)

lemma spec_of_back: "spec_of orderTypes (HolderField item2 1) backSpec"
  by (simp add: spec_of_def orderTypes_specs[unfolded One_nat_def] backSpec_def)

lemma orderIndex_field:
  assumes "r \<in> set (refs orderModel)" and "spec_of orderTypes (refField r) s"
  shows "ix_fields orderIndex (refField r) = Some \<lparr>irf_spec = Some s, irf_targets = map rr_target (refsIn [] (refs orderModel) (refField r))\<rparr>"
proof -
  note B = built_fields[OF order_typed order_model orderIndex_def]
  have "ix_fields orderIndex (refField r) \<noteq> None" using B assms(1) by (fastforce simp: alive_def)
  then obtain x where x: "ix_fields orderIndex (refField r) = Some x" by blast
  then obtain s' where "spec_of orderTypes (refField r) s'"
    "x = \<lparr>irf_spec = Some s', irf_targets = map rr_target (refsIn [] (refs orderModel) (refField r))\<rparr>"
    using B by blast
  moreover have "s' = s" using spec_of_unique[OF calculation(1) assms(2)] .
  ultimately show ?thesis using x by simp
qed

lemma orderIndex_items:
  "ix_fields orderIndex (HolderField order1 1) = Some \<lparr>irf_spec = Some itemsSpec, irf_targets = [item1, item2]\<rparr>"
  using orderIndex_field[of "\<lparr>rr_holder = order1, rr_target = item1, rr_spec = itemsSpec\<rparr>" itemsSpec] spec_of_items
  by (simp add: orderModel_def refField_def refsIn_def alive_def itemsSpec_def backSpec_def)

lemma orderIndex_item2:
  "ix_fields orderIndex (HolderField item2 1) = Some \<lparr>irf_spec = Some backSpec, irf_targets = [order1]\<rparr>"
  using orderIndex_field[of "\<lparr>rr_holder = item2, rr_target = order1, rr_spec = backSpec\<rparr>" backSpec] spec_of_back
  by (simp add: orderModel_def refField_def refsIn_def alive_def itemsSpec_def backSpec_def)

lemma orderIndex_ok: "index_ok orderTypes orderIndex" "index_closed orderIndex"
  "ix_owners orderIndex = [(item1, order1), (item2, order1)]"
  using built_index_ok[OF order_typed order_model orderIndex_def] by (simp_all add: surviving_def orderModel_def)

text \<open>The transaction's copy of the order, row 4, lists only its first item.\<close>

definition editedHeap :: "nat heap" where
  "editedHeap = orderHeap(4 := (orderHeap 1)\<lparr>pointers := (\<lambda>_. Slice [Some 2])\<rparr>)"

definition orderEdit :: "nat touchedResource" where
  "orderEdit = \<lparr>tr_dbName = ''Order'', tr_id = 1, tr_ver = 1, tr_work = 4, tr_original = 1\<rparr>"

definition editFields :: "(relationHolderField, indexedRelationField) deltaTable" where
  "editFields = writeDelta (addDelta emptyDelta (HolderField order1 1) \<lparr>irf_spec = Some itemsSpec, irf_targets = []\<rparr>)
     (HolderField order1 1) \<lparr>irf_spec = Some itemsSpec, irf_targets = [item1]\<rparr>"

lemma editFields_values: "dt_values editFields = [(HolderField order1 1, \<lparr>irf_spec = Some itemsSpec, irf_targets = [item1]\<rparr>)]"
  by (simp add: editFields_def writeDelta_def addDelta_def emptyDelta_def deltaPosition_def Let_def)

definition editDelta :: "nat relationIndexDelta" where
  "editDelta = \<lparr>d_index = orderIndex, d_created = [], d_targets = (\<lambda>_. None), d_overrides = [(order1, 4, [itemsSpec])],
     d_fields = editFields, d_ownerChanges = emptyDelta, d_inverseTargets = []\<rparr>"

lemma edit_keys_kept: "\<not> relationIndexKeyChanged orderTypes editedHeap orderIndex order1 1 4"
  using orderIndex_back by (auto simp: relationIndexKeyChanged_def orderIndex_frame editedHeap_def orderHeap_def)

lemma edit_touched: "touchedOverride orderTypes editedHeap (\<lambda>_. True) orderIndex [] orderEdit = Inr (Some [(order1, 4, [itemsSpec])])"
  using edit_keys_kept
  by (simp add: touchedOverride_def orderEdit_def orderIndex_frame orderNodes_def orderTypes_specs[unfolded One_nat_def] itemsSpec_def Let_def)

lemma edit_target:
  "resolveIndexedRelationTarget editedHeap \<lparr>d_index = orderIndex, d_created = [], d_targets = (\<lambda>_. None), d_overrides = os,
     d_fields = fs, d_ownerChanges = emptyDelta, d_inverseTargets = []\<rparr> order1 itemsSpec (Some 2) = Inr (Some item1)"
  by (simp add: resolveIndexedRelationTarget_def graphRelationTargetKey_def relationKey_def lookupField_def entityIDField_def
      itemsSpec_def editedHeap_def orderHeap_def orderIndex_frame orderTargets_conv Let_def)

lemma edit_field:
  "scanIndexedRelationField editedHeap \<lparr>d_index = orderIndex, d_created = [], d_targets = (\<lambda>_. None), d_overrides = os,
     d_fields = fs, d_ownerChanges = emptyDelta, d_inverseTargets = []\<rparr> order1 4 itemsSpec = Inr [item1]"
proof -
  have "fieldPointers editedHeap 4 itemsSpec = [Some 2]" by (simp add: fieldPointers_def editedHeap_def itemsSpec_def)
  then show ?thesis by (simp add: scanIndexedRelationField_def scanIndexedPointer_def edit_target Let_def)
qed

lemma edit_scanned: "scanDelta orderTypes editedHeap (\<lambda>_. True) orderIndex [orderEdit] [] = Inr (Some editDelta)"
proof -
  have "kind itemsSpec \<noteq> InverseRelation" "fieldIndex itemsSpec = 1" by (simp_all add: itemsSpec_def)
  then show ?thesis
    by (simp add: scanDelta_def edit_touched fold_supported.simps(2) bind_supported_def indexCreatedTargets_def scanOverride_def scanOverrideSpec_def
        orderIndex_items[unfolded One_nat_def] edit_field editDelta_def editFields_def Let_def)
qed

lemma edit_current:
  "currentField editDelta f = (if f = HolderField order1 1 then \<lparr>irf_spec = Some itemsSpec, irf_targets = [item1]\<rparr> else fieldOf orderIndex f)"
proof -
  have "delta_ok (d_fields editDelta)"
    using scanDelta_wf[OF orderIndex_ok(1) _ _ edit_scanned] by (simp add: delta_wf_def)
  then show ?thesis by (simp add: currentField_def findDelta_conv) (simp add: editDelta_def editFields_values)
qed

section \<open>The theorems at this example\<close>

definition noOwnership :: "nat committedOwnership" where
  "noOwnership = \<lparr>co_ready = False, co_outgoing = [], co_branches = (\<lambda>_. None), co_graph = None, co_index = None\<rparr>"

theorem built_index_is_correct_witness:
  "\<exists>ix. co_index (storeCommittedOwnership orderTypes orderHeap 7 orderModel [item2] noOwnership) = Some ix \<and>
     index_ok orderTypes ix \<and> dom (ix_nodes ix) = {order1, item1}"
proof -
  have "fst ` set orderNodes - set [item2] = {order1, item1}" by (auto simp: orderNodes_def)
  then show ?thesis using built_index_is_correct[OF order_typed order_model refl, of 7 "[item2]" noOwnership] by auto
qed

text \<open>Both items keep their owner: the first by the slice, the second by its own \<open>ownedby\<close> field.\<close>

theorem incremental_ownership_check_is_exact_witness:
  "\<exists>r. validateOwnership orderTypes editDelta = Some r \<and>
    ((\<exists>d'. r = Inr d') \<longleftrightarrow> (\<exists>up. ownership_forest orderTypes (currentField editDelta) up))"
  using incremental_ownership_check_is_exact[OF orderIndex_ok(1) _ _ edit_scanned] by auto

text \<open>Both items keep their owner: the first by the slice, the second by its own \<open>ownedby\<close> field.\<close>

lemma edit_forest: "ownership_forest orderTypes (currentField editDelta) (map_of (ix_owners orderIndex))"
proof -
  let ?F = "currentField editDelta" and ?G = "fieldOf orderIndex" and ?up = "map_of (ix_owners orderIndex)"
  have old: "owned_by orderTypes ?G c (?up c)" for c
    using orderIndex_ok(1) by (simp add: index_ok_def ownership_forest_def)
  have items: "?G (HolderField order1 1) = \<lparr>irf_spec = Some itemsSpec, irf_targets = [item1, item2]\<rparr>"
    by (simp only: fieldOf_def orderIndex_items option.case)
  have count: "ownCount ?F c f = (if f = HolderField order1 1 \<and> c = item2 then 0 else ownCount ?G c f)" for c f
    by (auto simp: ownCount_def edit_current ownField_def items[unfolded One_nat_def])
  have "backOwner orderTypes ?F c = backOwner orderTypes ?G c" for c
  proof (cases "c = order1")
    case True
    then show ?thesis by (simp add: backOwner_def orderTypes_specs[unfolded One_nat_def])
  next
    case False
    then have "currentField editDelta (HolderField c i) = fieldOf orderIndex (HolderField c i)" for i by (simp add: edit_current)
    then show ?thesis by (simp only: backOwner_def)
  qed
  note bo = this
  have item2: "ownCount ?G item2 (HolderField order1 1) = 1"
    unfolding ownCount_def items by (simp add: ownField_def itemsSpec_def)
  have b2: "backOwner orderTypes ?G item2 = Some order1"
    by (simp add: backOwner_def orderTypes_specs[unfolded One_nat_def] fieldOf_def orderIndex_item2[unfolded One_nat_def])
  have zero: "ownCount ?F item2 f = 0" for f
    using old[of item2] item2 by (auto simp: count owned_by_def)
  have "owned_by orderTypes ?F c (?up c)" for c
  proof (cases "c = item2")
    case True
    have "?up item2 = Some order1" by (simp add: orderIndex_ok(3))
    then show ?thesis using zero by (simp add: True owned_by_def bo b2)
  next
    case False
    then show ?thesis using old[of c] by (simp add: owned_by_def count bo)
  qed
  then show ?thesis using orderIndex_ok(1) by (simp add: ownership_forest_def index_ok_def)
qed

lemma edit_built: "\<exists>d. buildRelationIndexDelta orderTypes editedHeap (\<lambda>_. True) (Some orderIndex) [orderEdit] [] = Some (Inr (Some d))"
proof -
  have wf: "delta_wf orderTypes editDelta" using scanDelta_wf[OF orderIndex_ok(1) _ _ edit_scanned] by simp
  from ownership_check[OF wf] edit_forest obtain d' where d': "validateOwnership orderTypes editDelta = Some (Inr d')"
    "ownership_forest orderTypes (currentField editDelta) (effectiveOwner d')" "delta_ok (d_ownerChanges d')"
    "\<And>q. q \<in> set (dt_values (d_ownerChanges d')) \<Longrightarrow> before (snd q) = map_of (ix_owners orderIndex) (fst q)"
    by (auto simp: editDelta_def)
  have "after (snd q) = before (snd q)" if q: "q \<in> set (dt_values (d_ownerChanges d'))" for q
  proof -
    have "findDelta (d_ownerChanges d') (fst q) = Some (snd q)"
      unfolding findDelta_conv[OF d'(3)] using q map_of_eq_Some_iff[OF pending.keys_distinct[OF d'(3)]] by simp
    then have "after (snd q) = effectiveOwner d' (fst q)" by (simp add: effectiveOwner_def)
    moreover have "effectiveOwner d' (fst q) = map_of (ix_owners orderIndex) (fst q)"
      using d'(2) edit_forest owned_by_unique unfolding ownership_forest_def by blast
    ultimately show ?thesis using d'(4)[OF q] by simp
  qed
  then have "supportsOwnershipChanges d'" by (auto simp: supportsOwnershipChanges_def)
  then show ?thesis using edit_scanned d'(1) by (simp add: buildRelationIndexDelta_def)
qed

theorem publish_keeps_index_and_rows_witness:
  "\<exists>d st' h'. buildRelationIndexDelta orderTypes editedHeap (\<lambda>_. True) (Some orderIndex) [orderEdit] [] = Some (Inr (Some d)) \<and>
     publishAndRewire orderTypes orderHeap (d\<lparr>d_created := []\<rparr>) (storeCommittedOwnership orderTypes orderHeap 7 orderModel [] noOwnership) = Inr (st', h') \<and>
     pointers (h' 1) 1 = Slice [Some 2]"
proof -
  obtain d where d: "buildRelationIndexDelta orderTypes editedHeap (\<lambda>_. True) (Some orderIndex) [orderEdit] [] = Some (Inr (Some d))"
    using edit_built by blast
  define s0 where "s0 = storeCommittedOwnership orderTypes orderHeap 7 orderModel [] noOwnership"
  have s0: "co_index s0 = Some orderIndex" "co_outgoing s0 = survivingOutgoing (outgoing orderModel) []"
    by (simp_all add: s0_def storeCommittedOwnership_def orderIndex_def)
  have ch: "children_agree (ix_owners orderIndex) (co_outgoing s0)"
    using built_children[OF order_typed order_model, of "[]"] built_index_ok[OF order_typed order_model orderIndex_def] s0(2) by simp
  have inj: "inj_on (ix_nodes orderIndex) (dom (ix_nodes orderIndex))"
    by (auto simp: inj_on_def orderIndex_frame orderNodes_def split: if_splits)
  have typed: "typed_rows orderTypes (ix_nodes orderIndex) orderHeap"
    by (auto simp: typed_rows_def orderIndex_frame orderNodes_def orderTypes_specs orderHeap_def is_slice_def split: if_splits)
  have N: "ix_nodes orderIndex = foldl (\<lambda>m c. m(fst c \<mapsto> snd c)) (ix_nodes orderIndex) []" by simp
  from publish_keeps_index_and_rows[OF orderIndex_ok(1,2) _ _ d s0(1) ch _ N inj typed]
  obtain st' h' where p: "publishAndRewire orderTypes orderHeap (d\<lparr>d_created := []\<rparr>) s0 = Inr (st', h')"
    "\<forall>q \<in> set (dt_values (d_fields d)). \<forall>a s. ix_nodes orderIndex (hf_holder (fst q)) = Some a \<longrightarrow> irf_spec (snd q) = Some s \<longrightarrow>
       pointers (h' a) (hf_field (fst q)) = wiredValue (ix_nodes orderIndex) (many s) (irf_targets (snd q))"
    by auto
  obtain d0 where "scanDelta orderTypes editedHeap (\<lambda>_. True) orderIndex [orderEdit] [] = Inr (Some d0)" "d_fields d = d_fields d0"
    using built_delta[OF orderIndex_ok(1) _ _ d] by auto
  then have "d_fields d = editFields" using edit_scanned by (auto simp: editDelta_def)
  then have "pointers (h' 1) 1 = Slice [Some 2]"
    using p(2) by (simp add: editFields_values orderIndex_frame orderNodes_def wiredValue_def itemsSpec_def)
  then show ?thesis using d p(1) unfolding s0_def by blast
qed

end
