(* ===== verification/Transaction_State.thy ===== *)
theory Transaction_State
  imports Relation_Index
begin

text \<open>
  The working set of a transaction (\<open>engine.go\<close>): the detached copies it has read, found by
  table and id, its staged creates and deletes, and the engine's map from a detached root to
  the transaction that owns it.
\<close>

section \<open>A transaction\<close>

text \<open>\<open>hasResource\<close> and \<open>resource\<close> are one option. The map of positions is built from eight copies on.\<close>

record 'p transactionState =
  tx_active :: bool
  tx_resource :: "'p touchedResource option"
  tx_resources :: "'p touchedResource list"
  resourcePos :: "(string \<times> int \<Rightarrow> nat option) option"
  tx_bindings :: "'p list"
  tx_creates :: "(nodeKey \<times> 'p) list"
  tx_deletes :: "(nodeKey \<times> int) list"

definition txKey :: "'p touchedResource \<Rightarrow> string \<times> int" where
  "txKey r = (tr_dbName r, tr_id r)"

definition begin_tx :: "'p transactionState" where
  "begin_tx = \<lparr>tx_active = True, tx_resource = None, tx_resources = [], resourcePos = None, tx_bindings = [], tx_creates = [], tx_deletes = []\<rparr>"

definition copyResources :: "'p transactionState \<Rightarrow> 'p touchedResource list" where
  "copyResources tx = (case tx_resource tx of None \<Rightarrow> [] | Some r \<Rightarrow> r # tx_resources tx)"

definition stageCreate :: "nodeKey \<Rightarrow> 'p \<Rightarrow> 'p transactionState \<Rightarrow> 'p transactionState result" where
  "stageCreate key w tx =
     (if \<not> tx_active tx then Inl ErrExpiredSnapshot
      else if map_of (tx_creates tx) key \<noteq> None then Inl ErrAlreadyExists
      else Inr (tx\<lparr>tx_creates := AList.update key w (tx_creates tx)\<rparr>))"

definition stageDelete :: "nodeKey \<Rightarrow> int \<Rightarrow> 'p transactionState \<Rightarrow> 'p transactionState result" where
  "stageDelete key ver tx =
     (if \<not> tx_active tx then Inl ErrExpiredSnapshot else Inr (tx\<lparr>tx_deletes := AList.update key ver (tx_deletes tx)\<rparr>))"

definition buildPositions :: "'p transactionState \<Rightarrow> string \<times> int \<Rightarrow> nat option" where
  "buildPositions tx =
     foldl (\<lambda>m i. m(txKey (tx_resources tx ! i) \<mapsto> i + 1))
       (case tx_resource tx of None \<Rightarrow> (\<lambda>_. None) | Some r \<Rightarrow> [txKey r \<mapsto> 0])
       [0 ..< length (tx_resources tx)]"

definition recordOne :: "'p transactionState \<Rightarrow> 'p touchedResource \<Rightarrow> 'p transactionState" where
  "recordOne tx r =
     (let k = txKey r in
      if (case resourcePos tx of
            Some m \<Rightarrow> m k \<noteq> None
          | None \<Rightarrow> (case tx_resource tx of None \<Rightarrow> False | Some r0 \<Rightarrow> txKey r0 = k) \<or> (\<exists>e \<in> set (tx_resources tx). txKey e = k))
      then tx
      else case tx_resource tx of
        None \<Rightarrow> tx\<lparr>tx_resource := Some r, resourcePos := map_option (\<lambda>m. m(k \<mapsto> 0)) (resourcePos tx)\<rparr>
      | Some _ \<Rightarrow> tx\<lparr>tx_resources := tx_resources tx @ [r],
                     resourcePos := map_option (\<lambda>m. m(k \<mapsto> length (tx_resources tx) + 1)) (resourcePos tx)\<rparr>)"

definition recordResources :: "'p transactionState \<Rightarrow> 'p touchedResource list \<Rightarrow> 'p transactionState" where
  "recordResources tx resources =
     foldl recordOne
       (if resources \<noteq> [] \<and> resourcePos tx = None \<and> 8 \<le> 1 + length (tx_resources tx) + length resources
        then tx\<lparr>resourcePos := Some (buildPositions tx)\<rparr> else tx)
       resources"

definition txWork :: "'p transactionState \<Rightarrow> string \<Rightarrow> int \<Rightarrow> 'p option" where
  "txWork tx n i =
     (case resourcePos tx of
        Some m \<Rightarrow>
          (case m (n, i) of
             None \<Rightarrow> None
           | Some 0 \<Rightarrow> map_option tr_work (tx_resource tx)
           | Some (Suc p) \<Rightarrow> Some (tr_work (tx_resources tx ! p)))
      | None \<Rightarrow>
          (case tx_resource tx of
             Some r \<Rightarrow> if txKey r = (n, i) then Some (tr_work r) else map_option tr_work (find (\<lambda>r. txKey r = (n, i)) (tx_resources tx))
           | None \<Rightarrow> map_option tr_work (find (\<lambda>r. txKey r = (n, i)) (tx_resources tx))))"

section \<open>The engine\<close>

text \<open>Contexts are named by numbers in the order of \<open>begin\<close>.\<close>

record 'p transactionEngine =
  en_bind :: "'p \<Rightarrow> nat option"
  en_txs :: "'p transactionState list"

definition beginTransaction :: "'p transactionEngine \<Rightarrow> 'p transactionEngine \<times> nat" where
  "beginTransaction en = (en\<lparr>en_txs := en_txs en @ [begin_tx]\<rparr>, length (en_txs en))"

definition recordBatch :: "'p transactionEngine \<Rightarrow> nat \<Rightarrow> 'p touchedResource list \<Rightarrow> 'p option \<Rightarrow> 'p transactionEngine" where
  "recordBatch en t resources bindWork =
     (let tx = recordResources (en_txs en ! t) resources in
      case bindWork of
        None \<Rightarrow> en\<lparr>en_txs := (en_txs en)[t := tx]\<rparr>
      | Some p \<Rightarrow> en\<lparr>en_bind := (en_bind en)(p \<mapsto> t), en_txs := (en_txs en)[t := tx\<lparr>tx_bindings := tx_bindings tx @ [p]\<rparr>]\<rparr>)"

definition record_resource :: "'p transactionEngine \<Rightarrow> nat \<Rightarrow> 'p touchedResource \<Rightarrow> 'p transactionEngine" where
  "record_resource en t r = recordBatch en t [r] (Some (tr_work r))"

definition evict_tx :: "'p transactionState \<Rightarrow> 'p transactionState" where
  "evict_tx tx = tx\<lparr>tx_active := False, tx_resource := None, tx_resources := [], resourcePos := None, tx_bindings := [],
     tx_creates := [], tx_deletes := []\<rparr>"

definition evict :: "'p transactionEngine \<Rightarrow> nat \<Rightarrow> 'p transactionEngine" where
  "evict en t =
     (let tx = en_txs en ! t in
      en\<lparr>en_bind := foldl (\<lambda>b p. b(p := None)) (en_bind en) (tx_bindings tx), en_txs := (en_txs en)[t := evict_tx tx]\<rparr>)"

text \<open>The lookup of \<open>commitByPtr\<close>: whose commit a detached root asks for.\<close>

definition transactionOf :: "'p transactionEngine \<Rightarrow> 'p \<Rightarrow> nat result" where
  "transactionOf en p = (case en_bind en p of None \<Rightarrow> Inl ErrExpiredSnapshot | Some t \<Rightarrow> Inr t)"

section \<open>The working set keeps the first copy of every row\<close>

definition firstCopies :: "'p touchedResource list \<Rightarrow> 'p touchedResource list" where
  "firstCopies rs = foldl (\<lambda>out r. if txKey r \<in> txKey ` set out then out else out @ [r]) [] rs"

definition tx_ok :: "'p transactionState \<Rightarrow> bool" where
  "tx_ok tx \<longleftrightarrow>
     (tx_resource tx = None \<longrightarrow> tx_resources tx = []) \<and> distinct (map txKey (copyResources tx)) \<and>
     (\<forall>m. resourcePos tx = Some m \<longrightarrow>
        (\<forall>k i. m k = Some i \<longleftrightarrow> i < length (copyResources tx) \<and> txKey (copyResources tx ! i) = k))"

lemma find_key: "(find (\<lambda>r. txKey r = k) rs = None \<longleftrightarrow> k \<notin> txKey ` set rs)"
  by (auto simp: find_None_iff)

lemma find_at:
  "distinct (map txKey rs) \<Longrightarrow> i < length rs \<Longrightarrow> find (\<lambda>r. txKey r = txKey (rs ! i)) rs = Some (rs ! i)"
  by (auto simp: find_Some_iff distinct_conv_nth intro!: exI[of _ i])

lemma key_at: "k \<in> txKey ` set rs \<longleftrightarrow> (\<exists>i < length rs. txKey (rs ! i) = k)"
  by (metis (no_types, lifting) image_iff in_set_conv_nth)

lemma buildPositions_prefix:
  assumes "distinct (map txKey (r # rs))" and "n \<le> length rs"
  shows "foldl (\<lambda>m i. m(txKey (rs ! i) \<mapsto> i + 1)) [txKey r \<mapsto> 0] [0 ..< n] k = Some i \<longleftrightarrow> i \<le> n \<and> txKey ((r # rs) ! i) = k"
  using assms(2)
proof (induction n arbitrary: i)
  case (Suc n)
  define g where "g = foldl (\<lambda>m i. m(txKey (rs ! i) \<mapsto> i + 1)) [txKey r \<mapsto> 0] [0 ..< n]"
  have IH: "g k = Some i \<longleftrightarrow> i \<le> n \<and> txKey ((r # rs) ! i) = k" for i
    unfolding g_def by (rule Suc.IH[OF Suc_leD[OF Suc.prems]])
  have step: "foldl (\<lambda>m i. m(txKey (rs ! i) \<mapsto> i + 1)) [txKey r \<mapsto> 0] [0 ..< Suc n] = g(txKey (rs ! n) \<mapsto> Suc n)"
    by (simp add: g_def)
  have uniq: "txKey ((r # rs) ! i) \<noteq> txKey (rs ! n)" if "i \<le> n" for i
  proof -
    have "map txKey (r # rs) ! i \<noteq> map txKey (r # rs) ! Suc n"
      using nth_eq_iff_index_eq[OF assms(1), of i "Suc n"] that Suc.prems by simp
    then show ?thesis using that Suc.prems by (simp add: nth_map del: list.map)
  qed
  have "(g(txKey (rs ! n) \<mapsto> Suc n)) k = Some i \<longleftrightarrow> i \<le> Suc n \<and> txKey ((r # rs) ! i) = k"
  proof (cases "txKey (rs ! n) = k")
    case True
    then show ?thesis using uniq by (auto simp: le_Suc_eq)
  next
    case False
    then show ?thesis using IH[of i] by (auto simp: le_Suc_eq)
  qed
  then show ?case unfolding step .
qed (auto simp: fun_upd_def)

lemma buildPositions_ok:
  assumes "tx_ok tx"
  shows "tx_ok (tx\<lparr>resourcePos := Some (buildPositions tx)\<rparr>)"
proof (cases "tx_resource tx")
  case None
  then show ?thesis using assms by (simp add: tx_ok_def copyResources_def buildPositions_def)
next
  case (Some r)
  have d: "distinct (map txKey (r # tx_resources tx))" using assms Some by (simp add: tx_ok_def copyResources_def)
  show ?thesis using assms buildPositions_prefix[OF d order_refl]
    by (simp add: tx_ok_def copyResources_def buildPositions_def Some less_Suc_eq_le del: distinct.simps)
qed

lemma recordOne_ok:
  assumes "tx_ok tx"
  shows "tx_ok (recordOne tx r) \<and>
    copyResources (recordOne tx r) = (if txKey r \<in> txKey ` set (copyResources tx) then copyResources tx else copyResources tx @ [r]) \<and>
    tx_active (recordOne tx r) = tx_active tx"
proof -
  let ?L = "copyResources tx" and ?k = "txKey r"
  have known: "(case resourcePos tx of
            Some m \<Rightarrow> m ?k \<noteq> None
          | None \<Rightarrow> (case tx_resource tx of None \<Rightarrow> False | Some r0 \<Rightarrow> txKey r0 = ?k) \<or> (\<exists>e \<in> set (tx_resources tx). txKey e = ?k))
      \<longleftrightarrow> ?k \<in> txKey ` set ?L"
  proof (cases "resourcePos tx")
    case None
    then show ?thesis using assms by (auto simp: tx_ok_def copyResources_def image_iff split: option.splits)
  next
    case (Some m)
    then have m: "m ?k = Some i \<longleftrightarrow> i < length ?L \<and> txKey (?L ! i) = ?k" for i
      using assms unfolding tx_ok_def by blast
    show ?thesis unfolding Some option.case key_at using m by (metis not_None_eq)
  qed
  show ?thesis
  proof (cases "?k \<in> txKey ` set ?L")
    case True
    then show ?thesis using known assms by (simp add: recordOne_def Let_def)
  next
    case False
    have e: "recordOne tx r = (case tx_resource tx of
        None \<Rightarrow> tx\<lparr>tx_resource := Some r, resourcePos := map_option (\<lambda>m. m(?k \<mapsto> 0)) (resourcePos tx)\<rparr>
      | Some _ \<Rightarrow> tx\<lparr>tx_resources := tx_resources tx @ [r],
                     resourcePos := map_option (\<lambda>m. m(?k \<mapsto> length (tx_resources tx) + 1)) (resourcePos tx)\<rparr>)"
      using known False by (simp add: recordOne_def Let_def)
    have L: "copyResources (recordOne tx r) = ?L @ [r]"
      using assms by (auto simp: e copyResources_def tx_ok_def split: option.split)
    have pos: "resourcePos (recordOne tx r) = map_option (\<lambda>m. m(?k \<mapsto> length ?L)) (resourcePos tx)"
      using assms by (auto simp: e copyResources_def tx_ok_def split: option.split)
    have "\<And>m k i. resourcePos tx = Some m \<Longrightarrow> (m(?k \<mapsto> length ?L)) k = Some i \<longleftrightarrow> i < length (?L @ [r]) \<and> txKey ((?L @ [r]) ! i) = k"
    proof -
      fix m k i assume "resourcePos tx = Some m"
      then have m: "m k = Some i \<longleftrightarrow> i < length ?L \<and> txKey (?L ! i) = k" for k i using assms unfolding tx_ok_def by blast
      show "(m(?k \<mapsto> length ?L)) k = Some i \<longleftrightarrow> i < length (?L @ [r]) \<and> txKey ((?L @ [r]) ! i) = k"
        using m[of k i] False unfolding key_at by (auto simp: nth_append less_Suc_eq)
    qed
    then have "tx_ok (recordOne tx r)"
      using assms False L pos by (auto simp: tx_ok_def e split: option.splits)
    moreover have "tx_active (recordOne tx r) = tx_active tx" by (auto simp: e split: option.split)
    ultimately show ?thesis using L False by simp
  qed
qed

lemma firstCopies_snoc:
  "firstCopies (rs @ [r]) = (if txKey r \<in> txKey ` set (firstCopies rs) then firstCopies rs else firstCopies rs @ [r])"
  by (simp add: firstCopies_def)

lemma firstCopies_keys: "txKey ` set (firstCopies rs) = txKey ` set rs"
  by (induction rs rule: rev_induct) (auto simp: firstCopies_snoc firstCopies_def)

lemma firstCopies_find: "find (\<lambda>r. txKey r = k) (firstCopies rs) = find (\<lambda>r. txKey r = k) rs"
proof (induction rs rule: rev_induct)
  case (snoc r rs)
  have app: "find P (xs @ [x]) = (case find P xs of None \<Rightarrow> if P x then Some x else None | Some y \<Rightarrow> Some y)"
    for P and xs :: "'a touchedResource list" and x by (induction xs) auto
  show ?case
  proof (cases "txKey r \<in> txKey ` set (firstCopies rs)")
    case True
    then have "find (\<lambda>q. txKey q = txKey r) rs \<noteq> None" unfolding find_key by (simp add: firstCopies_keys)
    then have "find (\<lambda>r. txKey r = k) (rs @ [r]) = find (\<lambda>r. txKey r = k) rs"
      unfolding app by (cases "find (\<lambda>r. txKey r = k) rs") auto
    then show ?thesis using True snoc by (simp add: firstCopies_snoc)
  qed (simp add: firstCopies_snoc app snoc)
qed (simp add: firstCopies_def)

lemma record_resources:
  assumes "tx_ok tx" and "copyResources tx = firstCopies L"
  shows "tx_ok (recordResources tx rs) \<and> copyResources (recordResources tx rs) = firstCopies (L @ rs)"
proof -
  have "tx_ok (foldl recordOne tx rs) \<and> copyResources (foldl recordOne tx rs) = firstCopies (L @ rs)"
    if "tx_ok tx" "copyResources tx = firstCopies L" for tx and rs :: "'a touchedResource list"
    using that
  proof (induction rs arbitrary: tx L)
    case (Cons r rs)
    have "copyResources (recordOne tx r) = firstCopies (L @ [r])"
      using recordOne_ok[OF Cons.prems(1), of r] Cons.prems(2) by (simp add: firstCopies_snoc)
    from Cons.IH[OF conjunct1[OF recordOne_ok[OF Cons.prems(1), of r]] this] show ?case by simp
  qed simp
  note step = this
  have "copyResources (tx\<lparr>resourcePos := Some (buildPositions tx)\<rparr>) = firstCopies L"
    using assms(2) by (cases "tx_resource tx") (simp_all add: copyResources_def)
  then show ?thesis using step[of tx rs] step[of "tx\<lparr>resourcePos := Some (buildPositions tx)\<rparr>" rs] assms buildPositions_ok[OF assms(1)]
    by (simp add: recordResources_def)
qed

lemma work_conv:
  assumes "tx_ok tx"
  shows "txWork tx n i = map_option tr_work (find (\<lambda>r. txKey r = (n, i)) (copyResources tx))"
proof (cases "resourcePos tx")
  case None
  then show ?thesis using assms by (auto simp: txWork_def copyResources_def tx_ok_def split: option.split)
next
  case (Some m)
  let ?L = "copyResources tx"
  have m: "m (n, i) = Some p \<longleftrightarrow> p < length ?L \<and> txKey (?L ! p) = (n, i)" for p
    using assms Some unfolding tx_ok_def by blast
  have d: "distinct (map txKey ?L)" using assms by (simp add: tx_ok_def)
  show ?thesis
  proof (cases "m (n, i)")
    case None
    then have "(n, i) \<notin> txKey ` set ?L" unfolding key_at using m by (metis option.distinct(1))
    then have "find (\<lambda>r. txKey r = (n, i)) ?L = None" by (rule find_key[THEN iffD2])
    then show ?thesis using None Some by (simp add: txWork_def)
  next
    case p: (Some p)
    then have p': "p < length ?L" "txKey (?L ! p) = (n, i)" using m by auto
    then have "find (\<lambda>r. txKey r = (n, i)) ?L = Some (?L ! p)" using find_at[OF d p'(1)] by simp
    moreover obtain r where "tx_resource tx = Some r" "?L = r # tx_resources tx"
      using p'(1) by (cases "tx_resource tx") (auto simp: copyResources_def)
    ultimately show ?thesis using p Some by (cases p) (auto simp: txWork_def)
  qed
qed

text \<open>
  C24. The working set of a transaction keeps the first copy of every row: after any batches of
  copies, whatever their sizes and whenever the map of positions was built, the recorded copies
  are the first ones of each table and id in the order recorded, without repetition, and looking
  up a row gives exactly that first copy. So repeated reads in a transaction see one object.
\<close>

theorem working_set_keeps_first_copies:
  fixes batches :: "'p touchedResource list list"
  defines "tx \<equiv> foldl recordResources begin_tx batches"
  shows "copyResources tx = firstCopies (concat batches) \<and> distinct (map txKey (copyResources tx)) \<and>
    txWork tx n i = map_option tr_work (find (\<lambda>r. txKey r = (n, i)) (concat batches))"
proof -
  have "tx_ok (foldl recordResources t bs) \<and> copyResources (foldl recordResources t bs) = firstCopies (L @ concat bs)"
    if "tx_ok t" "copyResources t = firstCopies L" for t and bs :: "'p touchedResource list list" and L
    using that
  proof (induction bs arbitrary: t L)
    case (Cons b bs)
    from Cons.IH[OF conjunct1[OF record_resources[OF Cons.prems]] conjunct2[OF record_resources[OF Cons.prems]], of b]
    show ?case by simp
  qed simp
  moreover have "tx_ok begin_tx" "copyResources begin_tx = firstCopies []"
    by (simp_all add: tx_ok_def begin_tx_def copyResources_def firstCopies_def)
  ultimately have "tx_ok tx" "copyResources tx = firstCopies ([] @ concat batches)" unfolding tx_def by blast+
  then show ?thesis using work_conv[of tx n i] by (simp add: tx_ok_def firstCopies_find)
qed

end
