(* ===== verification/Transaction_Locks.thy ===== *)
theory Transaction_Locks
  imports Transaction_State "HOL-Library.Product_Lexorder"
begin

text \<open>
  The locks of commits and reads (\<open>engine.go\<close>, \<open>branchlock.go\<close>, \<open>view.go\<close>, \<open>snapshot.go\<close>): which ones are
  taken, in which order, and what interleaved requests can do to each other. The graph lock
  comes first, then the structure locks of tables, the locks of ownership branches and the locks
  of rows, each class in the order of its names.
\<close>

section \<open>Locks and their order\<close>

datatype lockId =
    GraphLock
  | StructureLock string
  | BranchLock nodeKey
  | RowLock string int

datatype lockMode = ReadMode | WriteMode

definition lockRank :: "lockId \<Rightarrow> nat \<times> string \<times> int" where
  "lockRank l =
     (case l of
        GraphLock \<Rightarrow> (0, [], 0)
      | StructureLock n \<Rightarrow> (1, n, 0)
      | BranchLock k \<Rightarrow> (2, nk_type k, nk_id k)
      | RowLock n i \<Rightarrow> (3, n, i))"

lemma lockRank_inject: "lockRank a = lockRank b \<longleftrightarrow> a = b"
  by (cases a; cases b) (auto simp: lockRank_def intro: nodeKey.expand)

instantiation lockId :: linorder
begin

definition less_eq_lockId :: "lockId \<Rightarrow> lockId \<Rightarrow> bool" where
  "less_eq_lockId a b \<longleftrightarrow> lockRank a \<le> lockRank b"

definition less_lockId :: "lockId \<Rightarrow> lockId \<Rightarrow> bool" where
  "less_lockId a b \<longleftrightarrow> lockRank a < lockRank b"

instance
  by standard (auto simp: less_eq_lockId_def less_lockId_def lockRank_inject order_less_le)

end

section \<open>The locks of a commit\<close>

datatype graphAccess = graphAccessNone | graphAccessRead | graphAccessWrite

definition transactionGraphAccess ::
  "(string \<Rightarrow> bool) \<Rightarrow> 'p touchedResource list \<Rightarrow> (nodeKey \<times> 'p) list \<Rightarrow> (nodeKey \<times> int) list \<Rightarrow> bool \<Rightarrow> graphAccess" where
  "transactionGraphAccess participant resources creates deletes relationChanged =
     (if relationChanged then graphAccessWrite
      else if \<exists>c \<in> set creates. participant (nk_type (fst c)) then graphAccessWrite
      else if \<exists>c \<in> set deletes. participant (nk_type (fst c)) then graphAccessWrite
      else if \<exists>r \<in> set resources. participant (tr_dbName r) then graphAccessRead
      else graphAccessNone)"

definition transactionStructuralDBNames ::
  "(string \<Rightarrow> bool) \<Rightarrow> 'p touchedResource list \<Rightarrow> (nodeKey \<times> 'p) list \<Rightarrow> (nodeKey \<times> int) list \<Rightarrow> string list" where
  "transactionStructuralDBNames hasSecondary resources creates deletes =
     sort (remdups (filter hasSecondary (map tr_dbName resources) @ map (\<lambda>c. nk_type (fst c)) creates @ map (\<lambda>c. nk_type (fst c)) deletes))"

definition transactionResourceLocks ::
  "'p touchedResource list \<Rightarrow> (nodeKey \<times> 'p) list \<Rightarrow> (nodeKey \<times> int) list \<Rightarrow> (string \<times> int) list" where
  "transactionResourceLocks resources creates deletes =
     sort (foldl (\<lambda>locks c. let k = (nk_type (fst c), nk_id (fst c)) in
             if map_of creates (fst c) \<noteq> None then locks else if k \<in> set locks then locks else locks @ [k])
           (map txKey resources) deletes)"

definition committedBranchRoot :: "(nodeKey \<times> nodeKey) list option \<Rightarrow> string \<Rightarrow> int \<Rightarrow> nodeKey" where
  "committedBranchRoot ws n i = committedOwnershipRoot ws (NodeKey n i)"

text \<open>Every open table is a relation runtime, so that every resource has a root.\<close>

definition touchedBranches :: "(nodeKey \<times> nodeKey) list option \<Rightarrow> (string \<times> int) list \<Rightarrow> nodeKey list" where
  "touchedBranches ws resources =
     sort (foldl (\<lambda>roots r. let root = committedBranchRoot ws (fst r) (snd r) in
             if root \<in> set roots then roots else roots @ [root]) [] resources)"

definition graphLocks :: "graphAccess \<Rightarrow> (lockId \<times> lockMode) list" where
  "graphLocks access =
     (case access of
        graphAccessNone \<Rightarrow> []
      | graphAccessRead \<Rightarrow> [(GraphLock, ReadMode)]
      | graphAccessWrite \<Rightarrow> [(GraphLock, WriteMode)])"

definition writeLocks :: "lockId list \<Rightarrow> (lockId \<times> lockMode) list" where
  "writeLocks ls = map (\<lambda>l. (l, WriteMode)) ls"

definition readLocks :: "lockId list \<Rightarrow> (lockId \<times> lockMode) list" where
  "readLocks ls = map (\<lambda>l. (l, ReadMode)) ls"

definition rowLock :: "string \<times> int \<Rightarrow> lockId" where
  "rowLock r = RowLock (fst r) (snd r)"

text \<open>
  What a request finds when it starts: which tables take part in relations and which have secondary
  indexes, and the committed ownership index, which changes only under the write lock of the graph.
\<close>

record lockContext =
  lc_participant :: "string \<Rightarrow> bool"
  lc_secondary :: "string \<Rightarrow> bool"
  lc_owners :: "(nodeKey \<times> nodeKey) list option"
  lc_outgoing :: "(nodeKey \<times> nodeKey list) list"
  lc_branches :: "nodeKey \<Rightarrow> nodeKey list option"

text \<open>
  The steps of a request on its locks. All but the row locks of \<open>snapshotTouchedResource\<close> are kept
  until the request returns.
\<close>

datatype lockAction = Take lockId lockMode | GiveBack lockId

definition takes :: "(lockId \<times> lockMode) list \<Rightarrow> lockAction list" where
  "takes ls = map (\<lambda>q. Take (fst q) (snd q)) ls"

definition snapshotLocks :: "string \<times> int \<Rightarrow> lockAction list" where
  "snapshotLocks r = [Take (rowLock r) WriteMode, GiveBack (rowLock r)]"

text \<open>
  A commit that changes the graph snapshots the children whose back references it has to adjust
  (\<open>fetched\<close>, in the order of the references) and writes some of them too (\<open>added\<close>).
\<close>

definition commitLocks ::
  "lockContext \<Rightarrow> graphAccess \<Rightarrow> 'p touchedResource list \<Rightarrow> (nodeKey \<times> 'p) list \<Rightarrow> (nodeKey \<times> int) list \<Rightarrow> (lockId \<times> lockMode) list" where
  "commitLocks lc access touched creates deletes =
     (if creates = [] \<and> deletes = [] \<and> access \<noteq> graphAccessWrite \<and> length touched = 1 \<and>
          \<not> lc_secondary lc (tr_dbName (hd touched))
      then writeLocks (map BranchLock (touchedBranches (lc_owners lc) [txKey (hd touched)])) @ writeLocks [rowLock (txKey (hd touched))]
      else
        let rows = transactionResourceLocks touched creates deletes in
        writeLocks (map StructureLock (transactionStructuralDBNames (lc_secondary lc) touched creates deletes)) @
        writeLocks (map BranchLock (touchedBranches (lc_owners lc) rows)) @
        writeLocks (map rowLock rows))"

definition touchedBy :: "graphAccess \<Rightarrow> 'p touchedResource list \<Rightarrow> 'p touchedResource list \<Rightarrow> 'p touchedResource list" where
  "touchedBy access resources added = (if access = graphAccessWrite then resources @ added else resources)"

definition commitActions ::
  "lockContext \<Rightarrow> bool \<Rightarrow> 'p touchedResource list \<Rightarrow> (nodeKey \<times> 'p) list \<Rightarrow> (nodeKey \<times> int) list \<Rightarrow>
   (string \<times> int) list \<Rightarrow> 'p touchedResource list \<Rightarrow> lockAction list" where
  "commitActions lc relationChanged resources creates deletes fetched added =
     (let access = transactionGraphAccess (lc_participant lc) resources creates deletes relationChanged in
      takes (graphLocks access) @
      (if access = graphAccessWrite then concat (map snapshotLocks fetched) else []) @
      takes (commitLocks lc access (touchedBy access resources added) creates deletes))"

section \<open>The locks of a read\<close>

definition viewLocks :: "lockContext \<Rightarrow> string \<Rightarrow> int \<Rightarrow> (lockId \<times> lockMode) list" where
  "viewLocks lc n i =
     (if lc_participant lc n then readLocks [GraphLock, BranchLock (committedBranchRoot (lc_owners lc) n i)]
      else readLocks [RowLock n i])"

text \<open>\<open>ViewMany\<close>, and \<open>viewRange\<close> with the ids of the entries it found.\<close>

definition viewManyLocks :: "lockContext \<Rightarrow> string \<Rightarrow> int list \<Rightarrow> (lockId \<times> lockMode) list" where
  "viewManyLocks lc n ids =
     (if lc_participant lc n then readLocks [GraphLock] else []) @ readLocks [StructureLock n] @
     readLocks (map (RowLock n) (sort (remdups ids)))"

text \<open>The copy of a row that owns nothing (\<open>getDetachedRoot\<close>).\<close>

definition detachLocks :: "lockContext \<Rightarrow> string \<Rightarrow> int \<Rightarrow> (lockId \<times> lockMode) list" where
  "detachLocks lc n i = (if lc_participant lc n then readLocks [GraphLock] else []) @ readLocks [RowLock n i]"

text \<open>The copy of a whole branch (\<open>cloneOwnershipAggregate\<close>) locks its rows for writing.\<close>

definition cloneKeys :: "lockContext \<Rightarrow> nodeKey \<Rightarrow> nodeKey list" where
  "cloneKeys lc root =
     (if childList (lc_outgoing lc) root = [] then [root]
      else case committedOwnershipKeys (lc_branches lc) (lc_outgoing lc) root of None \<Rightarrow> [] | Some (keys, _) \<Rightarrow> keys)"

definition keyRow :: "nodeKey \<Rightarrow> string \<times> int" where
  "keyRow k = (nk_type k, nk_id k)"

definition cloneLocks :: "lockContext \<Rightarrow> nodeKey \<Rightarrow> (lockId \<times> lockMode) list" where
  "cloneLocks lc root = readLocks [GraphLock] @ writeLocks (map (\<lambda>k. rowLock (keyRow k)) (cloneKeys lc root))"

section \<open>Requests\<close>

datatype 'p request =
    CommitRequest bool "'p touchedResource list" "(nodeKey \<times> 'p) list" "(nodeKey \<times> int) list" "(string \<times> int) list" "'p touchedResource list"
  | ViewRequest string int
  | ViewManyRequest string "int list"
  | DetachRequest string int
  | CloneRequest nodeKey

fun requestPlan :: "lockContext \<Rightarrow> 'p request \<Rightarrow> lockAction list" where
  "requestPlan lc (CommitRequest changed resources cs ds fetched added) = commitActions lc changed resources cs ds fetched added"
| "requestPlan lc (ViewRequest n i) = takes (viewLocks lc n i)"
| "requestPlan lc (ViewManyRequest n ids) = takes (viewManyLocks lc n ids)"
| "requestPlan lc (DetachRequest n i) = takes (detachLocks lc n i)"
| "requestPlan lc (CloneRequest root) = takes (cloneLocks lc root)"

text \<open>A working set holds a row once (\<open>working_set_keeps_first_copies\<close>); the committed index is a forest.\<close>

fun request_ok :: "lockContext \<Rightarrow> 'p request \<Rightarrow> bool" where
  "request_ok lc (CommitRequest changed resources cs ds fetched added) = distinct (map txKey (resources @ added))"
| "request_ok lc (CloneRequest root) = (forest (lc_outgoing lc) \<and> branches_ok (lc_outgoing lc) (lc_branches lc))"
| "request_ok lc _ = True"

text \<open>The rows a request writes, and the rows it reads while it holds its locks.\<close>

fun writesRows :: "lockContext \<Rightarrow> 'p request \<Rightarrow> (string \<times> int) set" where
  "writesRows lc (CommitRequest changed resources cs ds fetched added) =
     txKey ` set (touchedBy (transactionGraphAccess (lc_participant lc) resources cs ds changed) resources added)"
| "writesRows lc _ = {}"

fun readsRows :: "lockContext \<Rightarrow> 'p request \<Rightarrow> (string \<times> int) set" where
  "readsRows lc (CommitRequest changed resources cs ds fetched added) = {}"
| "readsRows lc (ViewRequest n i) =
     (if lc_participant lc n
      then {r. committedBranchRoot (lc_owners lc) (fst r) (snd r) = committedBranchRoot (lc_owners lc) n i} else {(n, i)})"
| "readsRows lc (ViewManyRequest n ids) = Pair n ` set ids"
| "readsRows lc (DetachRequest n i) = {(n, i)}"
| "readsRows lc (CloneRequest root) = keyRow ` set (cloneKeys lc root)"

text \<open>The locks held after some steps, and the steps that take every lock above those held.\<close>

fun heldAfter :: "(lockId \<times> lockMode) list \<Rightarrow> lockAction list \<Rightarrow> (lockId \<times> lockMode) list" where
  "heldAfter held [] = held"
| "heldAfter held (Take l m # plan) = heldAfter (held @ [(l, m)]) plan"
| "heldAfter held (GiveBack l # plan) = heldAfter (filter (\<lambda>e. fst e \<noteq> l) held) plan"

fun plan_ok :: "(lockId \<times> lockMode) list \<Rightarrow> lockAction list \<Rightarrow> bool" where
  "plan_ok held [] \<longleftrightarrow> True"
| "plan_ok held (Take l m # plan) \<longleftrightarrow> (\<forall>e \<in> set held. fst e < l) \<and> plan_ok (held @ [(l, m)]) plan"
| "plan_ok held (GiveBack l # plan) \<longleftrightarrow> plan_ok (filter (\<lambda>e. fst e \<noteq> l) held) plan"

lemma plan_append:
  "heldAfter held (p @ q) = heldAfter (heldAfter held p) q"
  "plan_ok held (p @ q) \<longleftrightarrow> plan_ok held p \<and> plan_ok (heldAfter held p) q"
  by (induction held p rule: heldAfter.induct) simp_all

lemma takes_held: "heldAfter held (takes ls) = held @ ls"
  by (induction ls arbitrary: held) (simp_all add: takes_def)

lemma takes_ok: "sorted_wrt (<) (map fst (held @ ls)) \<Longrightarrow> plan_ok held (takes ls)"
proof (induction ls arbitrary: held)
  case (Cons q ls)
  then show ?case using Cons.IH[of "held @ [q]"] by (auto simp: takes_def sorted_wrt_append)
qed (simp add: takes_def)

lemma snapshots_plan:
  assumes "\<forall>e \<in> set held. fst e = GraphLock"
  shows "heldAfter held (concat (map snapshotLocks rows)) = held" "plan_ok held (concat (map snapshotLocks rows))"
proof -
  have f: "filter (\<lambda>e. fst e \<noteq> rowLock r) held = held" for r using assms by (auto simp: filter_id_conv rowLock_def)
  have l: "\<forall>e \<in> set held. fst e < rowLock r" for r
    using assms by (auto simp: less_lockId_def lockRank_def rowLock_def less_prod_def)
  show "heldAfter held (concat (map snapshotLocks rows)) = held" by (induction rows) (simp_all add: snapshotLocks_def f)
  show "plan_ok held (concat (map snapshotLocks rows))" by (induction rows) (simp_all add: snapshotLocks_def f l)
qed

lemma strict_sort: "distinct xs \<Longrightarrow> sorted_wrt (<) (sort xs :: 'k::linorder list)"
  by (simp add: strict_sorted_iff)

lemma strict_map: "sorted_wrt (<) xs \<Longrightarrow> (\<And>x y. x < y \<Longrightarrow> f x < f y) \<Longrightarrow> sorted_wrt (<) (map f xs)"
  unfolding sorted_wrt_map by (rule sorted_wrt_mono_rel) auto

lemma lock_less:
  "a < b \<Longrightarrow> StructureLock a < StructureLock b" "k < k' \<Longrightarrow> BranchLock k < BranchLock k'"
  "r < r' \<Longrightarrow> rowLock r < rowLock r'" "i < j \<Longrightarrow> RowLock n i < RowLock n j"
  "GraphLock < StructureLock a" "GraphLock < BranchLock k" "GraphLock < RowLock n i"
  "StructureLock a < BranchLock k" "StructureLock a < RowLock n i" "BranchLock k < RowLock n i"
  by (auto simp: less_lockId_def lockRank_def rowLock_def less_nodeKey_def less_prod_def less_prod_simp split: prod.splits)

lemma locks_fst: "map fst (writeLocks ls) = ls" "map fst (readLocks ls) = ls"
  by (simp_all add: writeLocks_def readLocks_def comp_def)

lemma distinct_rows: "distinct (map txKey resources) \<Longrightarrow> sorted_wrt (<) (transactionResourceLocks resources cs ds)"
proof -
  assume "distinct (map txKey resources)"
  then have "distinct (foldl (\<lambda>locks c. let k = (nk_type (fst c), nk_id (fst c)) in
             if map_of cs (fst c) \<noteq> None then locks else if k \<in> set locks then locks else locks @ [k])
           (map txKey resources) ds)"
    by (induction ds rule: rev_induct) (auto simp: Let_def)
  then show ?thesis unfolding transactionResourceLocks_def by (rule strict_sort)
qed

lemma distinct_branches: "sorted_wrt (<) (touchedBranches ws rows)"
proof -
  have "distinct (foldl (\<lambda>roots r. let root = committedBranchRoot ws (fst r) (snd r) in
             if root \<in> set roots then roots else roots @ [root]) [] rows)"
    by (induction rows rule: rev_induct) (auto simp: Let_def)
  then show ?thesis unfolding touchedBranches_def by (rule strict_sort)
qed

lemma ordered_classes:
  assumes "sorted_wrt (<) names" "sorted_wrt (<) bs" "sorted_wrt (<) rows" and "gs = [] \<or> gs = [GraphLock]"
  shows "sorted_wrt (<) (gs @ map StructureLock names @ map BranchLock bs @ map rowLock rows)"
proof -
  have "sorted_wrt (<) (map StructureLock names)" "sorted_wrt (<) (map BranchLock bs)" "sorted_wrt (<) (map rowLock rows)"
    using assms(1-3) by (auto intro!: strict_map lock_less)
  then show ?thesis using assms(4) by (auto simp: sorted_wrt_append lock_less rowLock_def)
qed

lemma graph_locks: "map fst (graphLocks a) = [] \<or> map fst (graphLocks a) = [GraphLock]" "\<forall>e \<in> set (graphLocks a). fst e = GraphLock"
  by (cases a; simp add: graphLocks_def)+

lemma commit_in_order:
  assumes "distinct (map txKey touched)"
  shows "sorted_wrt (<) (map fst (graphLocks a @ commitLocks lc access touched cs ds))"
proof -
  have names: "sorted_wrt (<) (transactionStructuralDBNames (lc_secondary lc) touched cs ds)"
    unfolding transactionStructuralDBNames_def by (rule strict_sort) simp
  show ?thesis
    using ordered_classes[OF names distinct_branches distinct_rows[OF assms] graph_locks(1)]
      ordered_classes[of "[]" _ "[txKey (hd touched)]", OF _ distinct_branches _ graph_locks(1)]
    by (auto simp: commitLocks_def Let_def locks_fst)
qed

lemma commit_plan:
  assumes "access = transactionGraphAccess (lc_participant lc) resources cs ds changed"
  shows "heldAfter [] (commitActions lc changed resources cs ds fetched added) = graphLocks access @ commitLocks lc access (touchedBy access resources added) cs ds"
    and "distinct (map txKey (resources @ added)) \<Longrightarrow> plan_ok [] (commitActions lc changed resources cs ds fetched added)"
proof -
  let ?S = "if access = graphAccessWrite then concat (map snapshotLocks fetched) else []"
  have snap: "heldAfter (graphLocks access) ?S = graphLocks access" "plan_ok (graphLocks access) ?S"
    using snapshots_plan[OF graph_locks(2)] by simp_all
  show "heldAfter [] (commitActions lc changed resources cs ds fetched added) = graphLocks access @ commitLocks lc access (touchedBy access resources added) cs ds"
    unfolding commitActions_def Let_def assms[symmetric] plan_append takes_held append_Nil snap ..
  assume d: "distinct (map txKey (resources @ added))"
  have o: "sorted_wrt (<) (map fst (graphLocks access @ commitLocks lc access (touchedBy access resources added) cs ds))"
    by (rule commit_in_order) (use d in \<open>simp add: touchedBy_def\<close>)
  then have "plan_ok [] (takes (graphLocks access))" by (intro takes_ok) (simp add: sorted_wrt_append)
  then show "plan_ok [] (commitActions lc changed resources cs ds fetched added)"
    unfolding commitActions_def Let_def assms[symmetric] plan_append takes_held append_Nil snap(1)
    using snap(2) takes_ok[OF o] by blast
qed

lemma clone_keys:
  assumes "forest (lc_outgoing lc)" "branches_ok (lc_outgoing lc) (lc_branches lc)"
  shows "sorted_wrt (<) (cloneKeys lc root)"
proof (cases "childList (lc_outgoing lc) root = []")
  case False
  then show ?thesis using branch_keys[OF assms, of root] by (auto simp: cloneKeys_def is_branch_def strict_sorted_iff)
qed (simp add: cloneKeys_def)

definition requestLocks :: "lockContext \<Rightarrow> 'p request \<Rightarrow> (lockId \<times> lockMode) list" where
  "requestLocks lc req = heldAfter [] (requestPlan lc req)"

lemma request_plan_ok: "request_ok lc req \<Longrightarrow> plan_ok [] (requestPlan lc req)"
proof (cases req)
  case (CommitRequest changed resources cs ds fetched added)
  assume "request_ok lc req"
  then show ?thesis using commit_plan(2)[OF refl] by (simp add: CommitRequest)
next
  case (ViewManyRequest n ids)
  have "sorted_wrt (<) (map (RowLock n) (sort (remdups ids)))"
    by (rule strict_map[OF strict_sort]) (auto simp: lock_less)
  then show ?thesis
    by (auto simp: ViewManyRequest viewManyLocks_def locks_fst readLocks_def comp_def sorted_wrt_append lock_less intro!: takes_ok)
next
  case (CloneRequest root)
  assume "request_ok lc req"
  then have "sorted_wrt (<) (map (\<lambda>k. rowLock (keyRow k)) (cloneKeys lc root))"
    by (intro strict_map[OF clone_keys]) (auto simp: CloneRequest keyRow_def less_nodeKey_def intro!: lock_less)
  then show ?thesis
    by (auto simp: CloneRequest cloneLocks_def locks_fst readLocks_def writeLocks_def comp_def sorted_wrt_append lock_less rowLock_def intro!: takes_ok)
qed (auto simp: viewLocks_def detachLocks_def locks_fst lock_less intro!: takes_ok)

section \<open>Which rows the locks cover\<close>

lemma touched_rows: "set (map txKey resources) \<subseteq> set (transactionResourceLocks resources cs ds)"
proof -
  have "set (map txKey resources) \<subseteq> set (foldl (\<lambda>locks c. let k = (nk_type (fst c), nk_id (fst c)) in
             if map_of cs (fst c) \<noteq> None then locks else if k \<in> set locks then locks else locks @ [k])
           (map txKey resources) ds)"
    by (induction ds rule: rev_induct) (auto simp: Let_def)
  then show ?thesis by (simp add: transactionResourceLocks_def)
qed

lemma touched_roots: "set (touchedBranches ws rows) = (\<lambda>r. committedBranchRoot ws (fst r) (snd r)) ` set rows"
proof -
  have "set (foldl (\<lambda>roots r. let root = committedBranchRoot ws (fst r) (snd r) in
             if root \<in> set roots then roots else roots @ [root]) [] rows) = (\<lambda>r. committedBranchRoot ws (fst r) (snd r)) ` set rows"
    by (induction rows rule: rev_induct) (auto simp: Let_def)
  then show ?thesis by (simp add: touchedBranches_def)
qed

lemma write_locked: "l \<in> set ls \<Longrightarrow> (l, WriteMode) \<in> set (writeLocks ls)"
  by (simp add: writeLocks_def)

lemma read_locked: "l \<in> set ls \<Longrightarrow> (l, ReadMode) \<in> set (readLocks ls)"
  by (simp add: readLocks_def)

lemma writes_locked:
  assumes "r \<in> writesRows lc req"
  shows "(rowLock r, WriteMode) \<in> set (requestLocks lc req)"
    and "(BranchLock (committedBranchRoot (lc_owners lc) (fst r) (snd r)), WriteMode) \<in> set (requestLocks lc req)"
proof -
  obtain changed resources cs ds fetched added where req: "req = CommitRequest changed resources cs ds fetched added"
    using assms by (cases req) auto
  define access where "access = transactionGraphAccess (lc_participant lc) resources cs ds changed"
  define touched where "touched = touchedBy access resources added"
  have r: "r \<in> txKey ` set touched" using assms by (simp add: req touched_def access_def)
  have L: "set (commitLocks lc access touched cs ds) \<subseteq> set (requestLocks lc req)"
    unfolding requestLocks_def req requestPlan.simps commit_plan(1)[OF access_def] touched_def by simp
  have "(rowLock r, WriteMode) \<in> set (commitLocks lc access touched cs ds) \<and>
      (BranchLock (committedBranchRoot (lc_owners lc) (fst r) (snd r)), WriteMode) \<in> set (commitLocks lc access touched cs ds)"
  proof (cases "length touched = 1")
    case True
    then obtain x where "touched = [x]" by (cases touched) auto
    then show ?thesis using r touched_rows[of touched cs ds]
      by (auto simp: commitLocks_def Let_def touched_roots intro!: write_locked)
  next
    case False
    have "r \<in> set (transactionResourceLocks touched cs ds)" using r touched_rows[of touched cs ds] by auto
    then show ?thesis using False by (auto simp: commitLocks_def Let_def touched_roots intro!: write_locked)
  qed
  then show "(rowLock r, WriteMode) \<in> set (requestLocks lc req)"
    "(BranchLock (committedBranchRoot (lc_owners lc) (fst r) (snd r)), WriteMode) \<in> set (requestLocks lc req)"
    using L by blast+
qed

lemma reads_locked:
  assumes "r \<in> readsRows lc req"
  shows "rowLock r \<in> fst ` set (requestLocks lc req) \<or>
    BranchLock (committedBranchRoot (lc_owners lc) (fst r) (snd r)) \<in> fst ` set (requestLocks lc req)"
  using assms
  by (cases req) (auto simp: requestLocks_def takes_held viewLocks_def viewManyLocks_def detachLocks_def cloneLocks_def readLocks_def
      writeLocks_def rowLock_def keyRow_def image_image image_Un split: if_splits)

text \<open>Tables in which rows appear, and tables whose ids or index a request goes through.\<close>

fun changesTables :: "'p request \<Rightarrow> string set" where
  "changesTables (CommitRequest changed resources cs ds fetched added) = nk_type ` fst ` set cs"
| "changesTables _ = {}"

fun scansTables :: "'p request \<Rightarrow> string set" where
  "scansTables (ViewManyRequest n ids) = {n}"
| "scansTables _ = {}"

lemma tables_locked:
  "n \<in> changesTables req \<Longrightarrow> (StructureLock n, WriteMode) \<in> set (requestLocks lc req)"
  "n \<in> scansTables req \<Longrightarrow> StructureLock n \<in> fst ` set (requestLocks lc req)"
proof -
  show "n \<in> scansTables req \<Longrightarrow> StructureLock n \<in> fst ` set (requestLocks lc req)"
    by (cases req) (auto simp: requestLocks_def takes_held viewManyLocks_def readLocks_def image_image)
  assume n: "n \<in> changesTables req"
  then obtain changed resources cs ds fetched added where req: "req = CommitRequest changed resources cs ds fetched added"
    by (cases req) auto
  have "n \<in> set (transactionStructuralDBNames sec touched cs ds)" for sec and touched :: "'a touchedResource list"
    using n by (auto simp: req transactionStructuralDBNames_def)
  then show "(StructureLock n, WriteMode) \<in> set (requestLocks lc req)"
    using n unfolding requestLocks_def req requestPlan.simps commit_plan(1)[OF refl]
    by (auto simp: commitLocks_def Let_def intro!: write_locked)
qed

section \<open>Interleaved requests\<close>

text \<open>
  A worker goes through the steps of its request one by one and gives all its locks back when it is
  done. Taking a row lock has two steps, as in the code: the slot of the row is looked up by id, then
  its mutex is locked. A lock is given back by id again: the mutex of a row that a commit has
  deleted is not found and stays locked (\<open>unlockResource\<close>). A read that misses a row gives up; a
  commit goes on to its version check, and the copy of a branch to its snapshots.
\<close>

record worker =
  w_plan :: "lockAction list"
  w_fetched :: bool
  w_done :: bool
  w_held :: "(lockId \<times> lockMode) list"
  w_skips :: bool
  w_deletes :: "(string \<times> int) list"

fun deletedRows :: "'p request \<Rightarrow> (string \<times> int) list" where
  "deletedRows (CommitRequest changed resources cs ds fetched added) =
     map (\<lambda>d. (nk_type (fst d), nk_id (fst d))) (filter (\<lambda>d. map_of cs (fst d) = None) ds)"
| "deletedRows _ = []"

fun skipsMissing :: "'p request \<Rightarrow> bool" where
  "skipsMissing (CommitRequest changed resources cs ds fetched added) = True"
| "skipsMissing (CloneRequest root) = True"
| "skipsMissing _ = False"

definition startWorker :: "lockContext \<times> 'p request \<Rightarrow> worker" where
  "startWorker q =
     \<lparr>w_plan = requestPlan (fst q) (snd q), w_fetched = False, w_done = False, w_held = [],
      w_skips = skipsMissing (snd q), w_deletes = deletedRows (snd q)\<rparr>"

definition pendingLock :: "worker \<Rightarrow> (lockId \<times> lockMode) option" where
  "pendingLock w = (if w_done w then None else case w_plan w of Take l m # plan \<Rightarrow> Some (l, m) | _ \<Rightarrow> None)"

definition isGone :: "worker list \<Rightarrow> lockId \<Rightarrow> bool" where
  "isGone s l \<longleftrightarrow> (\<exists>w \<in> set s. w_done w \<and> l \<in> rowLock ` set (w_deletes w))"

definition holdsLock :: "worker \<Rightarrow> lockId \<Rightarrow> bool" where
  "holdsLock w l \<longleftrightarrow> l \<in> fst ` set (w_held w)"

text \<open>
  Go's read-write mutex: a writer waits for everybody, a reader for a writer that holds the lock
  or that already waits behind other readers.
\<close>

definition grantable :: "worker list \<Rightarrow> nat \<Rightarrow> lockId \<Rightarrow> lockMode \<Rightarrow> bool" where
  "grantable s i l m \<longleftrightarrow>
     (case m of
        WriteMode \<Rightarrow> \<forall>j < length s. j \<noteq> i \<longrightarrow> \<not> holdsLock (s ! j) l
      | ReadMode \<Rightarrow>
          (\<forall>j < length s. j \<noteq> i \<longrightarrow> (l, WriteMode) \<notin> set (w_held (s ! j))) \<and>
          \<not> ((\<exists>j < length s. j \<noteq> i \<and> holdsLock (s ! j) l) \<and>
             (\<exists>j < length s. j \<noteq> i \<and> w_fetched (s ! j) \<and> pendingLock (s ! j) = Some (l, WriteMode))))"

definition takeLock :: "worker \<Rightarrow> lockId \<Rightarrow> lockMode \<Rightarrow> worker" where
  "takeLock w l m = w\<lparr>w_held := w_held w @ [(l, m)], w_plan := tl (w_plan w), w_fetched := False\<rparr>"

definition finishWorker :: "worker \<Rightarrow> worker" where
  "finishWorker w = w\<lparr>w_done := True, w_fetched := False, w_held := filter (\<lambda>e. fst e \<in> rowLock ` set (w_deletes w)) (w_held w)\<rparr>"

inductive lockStep :: "worker list \<Rightarrow> worker list \<Rightarrow> bool" where
  fetch: "i < length s \<Longrightarrow> pendingLock (s ! i) = Some (l, m) \<Longrightarrow> \<not> w_fetched (s ! i) \<Longrightarrow> \<not> isGone s l \<Longrightarrow>
    lockStep s (s[i := (s ! i)\<lparr>w_fetched := True\<rparr>])"
| missing: "i < length s \<Longrightarrow> pendingLock (s ! i) = Some (l, m) \<Longrightarrow> \<not> w_fetched (s ! i) \<Longrightarrow> isGone s l \<Longrightarrow>
    lockStep s (s[i := if w_skips (s ! i) then (s ! i)\<lparr>w_plan := tl (w_plan (s ! i))\<rparr> else finishWorker (s ! i)])"
| acquire: "i < length s \<Longrightarrow> pendingLock (s ! i) = Some (l, m) \<Longrightarrow> w_fetched (s ! i) \<Longrightarrow> grantable s i l m \<Longrightarrow>
    lockStep s (s[i := takeLock (s ! i) l m])"
| giveBack: "i < length s \<Longrightarrow> \<not> w_done (s ! i) \<Longrightarrow> w_plan (s ! i) = GiveBack l # plan \<Longrightarrow>
    lockStep s (s[i := (s ! i)\<lparr>w_plan := plan,
      w_held := if isGone s l then w_held (s ! i) else filter (\<lambda>e. fst e \<noteq> l) (w_held (s ! i))\<rparr>])"
| finish: "i < length s \<Longrightarrow> \<not> w_done (s ! i) \<Longrightarrow> w_plan (s ! i) = [] \<Longrightarrow>
    lockStep s (s[i := finishWorker (s ! i)])"

inductive_cases lockStepE: "lockStep s t"

lemma pending_plan: "pendingLock w = Some (l, m) \<longleftrightarrow> \<not> w_done w \<and> (\<exists>plan. w_plan w = Take l m # plan)"
  by (auto simp: pendingLock_def split: list.splits lockAction.splits)

section \<open>Exclusion\<close>

definition exclusive :: "worker list \<Rightarrow> bool" where
  "exclusive s \<longleftrightarrow>
     (\<forall>i < length s. \<forall>j < length s. \<forall>l. i \<noteq> j \<longrightarrow> (l, WriteMode) \<in> set (w_held (s ! i)) \<longrightarrow> \<not> holdsLock (s ! j) l)"

lemma heldD: "(l, m) \<in> set (w_held w) \<Longrightarrow> holdsLock w l"
  by (force simp: holdsLock_def)

lemma held_less:
  "exclusive s \<Longrightarrow> i < length s \<Longrightarrow> set (w_held w) \<subseteq> set (w_held (s ! i)) \<Longrightarrow> exclusive (s[i := w])"
  by (auto simp: exclusive_def nth_list_update holdsLock_def) (metis (no_types, lifting) image_eqI subsetD fst_conv)+

lemma lockStep_exclusive: "lockStep s t \<Longrightarrow> exclusive s \<Longrightarrow> exclusive t"
proof (induction rule: lockStep.induct)
  case (acquire i s l m)
  have "\<not> holdsLock (s ! j) l" if "m = WriteMode" "j < length s" "j \<noteq> i" for j
    using acquire.hyps(4) that by (simp add: grantable_def)
  moreover have "(l, WriteMode) \<notin> set (w_held (s ! j))" if "j < length s" "j \<noteq> i" for j
    using acquire.hyps(4) that heldD by (cases m) (auto simp: grantable_def)
  ultimately show ?case using acquire.prems acquire.hyps(1)
    by (auto simp: exclusive_def nth_list_update holdsLock_def takeLock_def)
qed (auto intro!: held_less simp: finishWorker_def)

section \<open>Every run ends\<close>

definition workLeft :: "worker \<Rightarrow> nat" where
  "workLeft w = (if w_done w then 0 else 2 * length (w_plan w) + 2 - (if w_fetched w then 1 else 0))"

lemma sum_update_less: "i < length xs \<Longrightarrow> f y < f (xs ! i) \<Longrightarrow> sum_list (map f (xs[i := y])) < (sum_list (map f xs) :: nat)"
proof (induction xs arbitrary: i)
  case (Cons x xs)
  then show ?case by (cases i) (auto)
qed simp

lemma lockStep_decreases: "lockStep s t \<Longrightarrow> sum_list (map workLeft t) < sum_list (map workLeft s)"
  by (induction rule: lockStep.induct)
    (auto intro!: sum_update_less simp: workLeft_def pending_plan finishWorker_def takeLock_def split: if_splits)

lemma runs_end: "(lockStep ^^ n) s t \<Longrightarrow> n + sum_list (map workLeft t) \<le> sum_list (map workLeft s)"
proof (induction n arbitrary: t)
  case (Suc n)
  then obtain u where "(lockStep ^^ n) s u" "lockStep u t" by auto
  then show ?case using Suc.IH[of u] lockStep_decreases[of u t] by simp
qed simp

section \<open>No deadlock\<close>

text \<open>\<open>L\<close>: the locks that a request holds when it has gone through its steps.\<close>

definition in_progress :: "(lockId \<times> lockMode) list \<Rightarrow> worker \<Rightarrow> bool" where
  "in_progress L w \<longleftrightarrow> w_deletes w = [] \<and>
     (if w_done w then w_held w = [] else plan_ok (w_held w) (w_plan w) \<and> heldAfter (w_held w) (w_plan w) = L)"

definition running :: "(lockId \<times> lockMode) list list \<Rightarrow> worker list \<Rightarrow> bool" where
  "running Ls s \<longleftrightarrow> length s = length Ls \<and> (\<forall>i < length s. in_progress (Ls ! i) (s ! i))"

lemma running_update:
  "running Ls s \<Longrightarrow> i < length s \<Longrightarrow> (in_progress (Ls ! i) (s ! i) \<Longrightarrow> in_progress (Ls ! i) w) \<Longrightarrow> running Ls (s[i := w])"
  by (auto simp: running_def nth_list_update)

lemma not_gone: "running Ls s \<Longrightarrow> \<not> isGone s l"
  by (auto simp: isGone_def running_def in_progress_def in_set_conv_nth)

lemma lockStep_running: "lockStep s t \<Longrightarrow> running Ls s \<Longrightarrow> running Ls t"
proof (induction rule: lockStep.induct)
  case (missing i s l m)
  then show ?case using not_gone by blast
next
  case (giveBack i s l plan)
  then have "\<not> isGone s l" using not_gone by blast
  then show ?case using giveBack by (intro running_update) (auto simp: in_progress_def)
qed (auto intro!: running_update simp: in_progress_def pending_plan takeLock_def finishWorker_def)

text \<open>A waiting worker waits for a lock that some other worker holds.\<close>

lemma ungranted: "\<not> grantable s i l m \<Longrightarrow> \<exists>j < length s. j \<noteq> i \<and> holdsLock (s ! j) l"
  using heldD by (cases m) (fastforce simp: grantable_def)+

lemma waits_above:
  assumes "in_progress L w" "holdsLock w l" "pendingLock w = Some (l', m)"
  shows "l < l'"
  using assms by (fastforce simp: in_progress_def pending_plan holdsLock_def)

lemma some_step:
  assumes ok: "running Ls s" and "\<exists>w \<in> set s. \<not> w_done w"
  shows "\<exists>t. lockStep s t"
proof (rule ccontr)
  assume stuck: "\<nexists>t. lockStep s t"
  have waiting: "\<exists>l m. pendingLock (s ! i) = Some (l, m) \<and> \<not> grantable s i l m" if i: "i < length s" "\<not> w_done (s ! i)" for i
  proof -
    have "w_plan (s ! i) \<noteq> []" using lockStep.finish[OF i] stuck by blast
    moreover have "w_plan (s ! i) \<noteq> GiveBack l # plan" for l plan using lockStep.giveBack[OF i] stuck by blast
    ultimately obtain l m where p: "pendingLock (s ! i) = Some (l, m)"
      using i(2) by (cases "w_plan (s ! i)"; cases "hd (w_plan (s ! i))") (auto simp: pendingLock_def)
    have "w_fetched (s ! i)" using lockStep.fetch[OF i(1) p] not_gone[OF ok] stuck by blast
    then have "\<not> grantable s i l m" using lockStep.acquire[OF i(1) p] stuck by blast
    then show ?thesis using p by blast
  qed
  let ?B = "{l. \<exists>i < length s. \<exists>m. pendingLock (s ! i) = Some (l, m)}"
  have "?B \<subseteq> (\<lambda>i. fst (the (pendingLock (s ! i)))) ` {..< length s}" by force
  then have fin: "finite ?B" by (rule finite_subset) simp
  obtain w where "w \<in> set s" "\<not> w_done w" using assms(2) by blast
  then obtain i0 where "i0 < length s" "\<not> w_done (s ! i0)" by (metis in_set_conv_nth)
  then have "?B \<noteq> {}" using waiting by blast
  then have "Max ?B \<in> ?B" using fin by (rule Max_in[rotated])
  then obtain i m where i: "i < length s" "pendingLock (s ! i) = Some (Max ?B, m)" by blast
  then have "\<not> w_done (s ! i)" by (auto simp: pendingLock_def split: if_splits)
  then obtain l m' where "pendingLock (s ! i) = Some (l, m')" "\<not> grantable s i l m'" using waiting i(1) by blast
  then have "\<not> grantable s i (Max ?B) m'" using i(2) by simp
  then obtain j where j: "j < length s" "holdsLock (s ! j) (Max ?B)" using ungranted by blast
  have pj: "in_progress (Ls ! j) (s ! j)" using ok j(1) by (simp add: running_def)
  then have "\<not> w_done (s ! j)" using j(2) by (auto simp: in_progress_def holdsLock_def)
  then obtain l' m' where l': "pendingLock (s ! j) = Some (l', m')" using waiting j(1) by blast
  have "Max ?B < l'" by (rule waits_above[OF pj j(2) l'])
  moreover have "l' \<in> ?B" using j(1) l' by blast
  ultimately show False using Max_ge[OF fin, of l'] by simp
qed

section \<open>Rows are not shared\<close>

text \<open>A worker that has gone through its steps and not returned yet: it reads and writes rows.\<close>

definition inside :: "worker \<Rightarrow> bool" where
  "inside w \<longleftrightarrow> \<not> w_done w \<and> w_plan w = []"

lemma inside_held: "in_progress L w \<Longrightarrow> inside w \<Longrightarrow> w_held w = L"
  by (simp add: in_progress_def inside_def)

lemma rows_apart:
  assumes "exclusive s" "running (map (\<lambda>q. requestLocks (fst q) (snd q)) reqs) s"
    and "i < length reqs" "j < length reqs" "i \<noteq> j" "inside (s ! i)" "inside (s ! j)"
  shows "lc_owners (fst (reqs ! i)) = lc_owners (fst (reqs ! j)) \<Longrightarrow>
      (case reqs ! i of (lc, req) \<Rightarrow> writesRows lc req) \<inter>
      (case reqs ! j of (lc, req) \<Rightarrow> writesRows lc req \<union> readsRows lc req) = {}"
    and "changesTables (snd (reqs ! i)) \<inter> (changesTables (snd (reqs ! j)) \<union> scansTables (snd (reqs ! j))) = {}"
proof -
  obtain lc req lc' req' where q: "reqs ! i = (lc, req)" "reqs ! j = (lc', req')" by fastforce
  have held: "w_held (s ! i) = requestLocks lc req" "w_held (s ! j) = requestLocks lc' req'"
    using assms(2-7) q by (auto simp: running_def intro!: inside_held)
  have len: "length s = length reqs" using assms(2) by (simp add: running_def)
  have apart: "l \<notin> fst ` set (requestLocks lc' req')" if "(l, WriteMode) \<in> set (requestLocks lc req)" for l
    using assms(1)[unfolded exclusive_def, rule_format, of i j l] assms(3-5) that len by (simp add: held holdsLock_def)
  have both: "l \<in> fst ` set (requestLocks lc' req')" if "(l, WriteMode) \<in> set (requestLocks lc' req')" for l using that by force
  { assume own: "lc_owners (fst (reqs ! i)) = lc_owners (fst (reqs ! j))"
    have "False" if r: "r \<in> writesRows lc req" "r \<in> writesRows lc' req' \<union> readsRows lc' req'" for r
      using r(2) writes_locked(1)[of r lc' req', THEN both] reads_locked[of r lc' req'] apart[OF writes_locked(1)[OF r(1)]]
        apart[OF writes_locked(2)[OF r(1)]] own q by auto
    then show "(case reqs ! i of (lc, req) \<Rightarrow> writesRows lc req) \<inter>
      (case reqs ! j of (lc, req) \<Rightarrow> writesRows lc req \<union> readsRows lc req) = {}" unfolding q by auto }
  have "False" if n: "n \<in> changesTables req" "n \<in> changesTables req' \<union> scansTables req'" for n
    using n(2) tables_locked(1)[of n req' lc', THEN both] tables_locked(2)[of n req' lc'] apart[OF tables_locked(1)[OF n(1)]] by blast
  then show "changesTables (snd (reqs ! i)) \<inter> (changesTables (snd (reqs ! j)) \<union> scansTables (snd (reqs ! j))) = {}" unfolding q by auto
qed


section \<open>A deleted row stays locked\<close>

lemma delete_plan:
  assumes "\<not> lc_participant lc n"
  shows "requestPlan lc (CommitRequest False [] [] [(NodeKey n i, v)] [] []) =
    [Take (StructureLock n) WriteMode, Take (BranchLock (committedBranchRoot (lc_owners lc) n i)) WriteMode, Take (RowLock n i) WriteMode]"
  using assms by (simp add: commitActions_def commitLocks_def touchedBy_def transactionGraphAccess_def graphLocks_def writeLocks_def
      transactionStructuralDBNames_def transactionResourceLocks_def touchedBranches_def rowLock_def takes_def Let_def)

text \<open>
  C26. Deleting a row can block a read of it for ever. A commit locks the rows it deletes, the row
  leaves the table, and the deferred release looks the row up by id, does not find it and leaves
  its mutex locked. A read of the same row that had already found the slot and waits for the
  mutex is then never served: from the two requests, on a table outside the relation graph, a
  state is reached in which the commit is done, the read is not, and nothing can move any more.
\<close>

theorem deleted_row_blocks_readers:
  assumes "\<not> lc_participant lc n" and "read = ViewRequest n i \<or> read = DetachRequest n i"
  shows "\<exists>s. lockStep\<^sup>*\<^sup>* (map startWorker [(lc, CommitRequest False [] [] [(NodeKey n i, v)] [] []), (lc, read)]) s \<and>
    (\<nexists>t. lockStep s t) \<and> w_done (s ! 0) \<and> \<not> w_done (s ! 1) \<and> w_held (s ! 0) = [(RowLock n i, WriteMode)]"
proof -
  let ?B = "BranchLock (committedBranchRoot (lc_owners lc) n i)" and ?R = "RowLock n i" and ?S = "StructureLock n"
  let ?L = "[?S, ?B, ?R]"
  define c where "c p f h = \<lparr>w_plan = drop p (map (\<lambda>l. Take l WriteMode) ?L), w_fetched = f, w_done = False, w_held = h, w_skips = True,
      w_deletes = [(n, i)]\<rparr>" for p f h
  define r where "r f = \<lparr>w_plan = [Take ?R ReadMode], w_fetched = f, w_done = False, w_held = [], w_skips = False, w_deletes = []\<rparr>" for f
  have start: "map startWorker [(lc, CommitRequest False [] [] [(NodeKey n i, v)] [] []), (lc, read)] = [c 0 False [], r False]"
    using assms delete_plan[OF assms(1), of i v]
    by (auto simp: startWorker_def c_def r_def viewLocks_def detachLocks_def readLocks_def takes_def)
  have free: "\<not> isGone [c p f h, r g] l" for p f h g l by (auto simp: isGone_def c_def r_def)
  have grab: "lockStep\<^sup>*\<^sup>* [c p False h, r False] [c (Suc p) False (h @ [(?L ! p, WriteMode)]), r False]" if "p < 3" for p h
  proof -
    have d: "drop p (map (\<lambda>l. Take l WriteMode) ?L) = Take (?L ! p) WriteMode # drop (Suc p) (map (\<lambda>l. Take l WriteMode) ?L)"
    proof -
      have "p = 0 \<or> p = 1 \<or> p = 2" using that by linarith
      then show ?thesis by fastforce
    qed
    have p: "pendingLock (c p f h) = Some (?L ! p, WriteMode)" for f unfolding pending_plan c_def using d by simp
    have t: "takeLock (c p True h) (?L ! p) WriteMode = c (Suc p) False (h @ [(?L ! p, WriteMode)])"
      unfolding takeLock_def c_def worker.simps d list.sel ..
    have "lockStep\<^sup>*\<^sup>* [c p False h, r False] [c p True h, r False]"
      by (rule r_into_rtranclp) (use lockStep.fetch[of 0 "[c p False h, r False]" "?L ! p" WriteMode] p free in \<open>simp add: c_def\<close>)
    also have "lockStep [c p True h, r False] [c (Suc p) False (h @ [(?L ! p, WriteMode)]), r False]"
    proof -
      have "grantable [c p True h, r False] 0 (?L ! p) WriteMode" by (simp add: grantable_def holdsLock_def r_def less_Suc_eq)
      moreover have "w_fetched (c p True h)" by (simp add: c_def)
      ultimately show ?thesis using lockStep.acquire[of 0 "[c p True h, r False]" "?L ! p" WriteMode] p[of True] t by simp
    qed
    finally show ?thesis by auto
  qed
  let ?H = "map (\<lambda>l. (l, WriteMode)) ?L"
  have "lockStep\<^sup>*\<^sup>* [c 0 False [], r False] [c 3 False ?H, r False]"
    using grab[of 0 "[]"] grab[of 1 "[?H ! 0]"] grab[of 2 "[?H ! 0, ?H ! 1]"] by (auto simp: numeral_eq_Suc intro: rtranclp_trans)
  also have "lockStep [c 3 False ?H, r False] [c 3 False ?H, r True]"
    using lockStep.fetch[of 1 "[c 3 False ?H, r False]" ?R ReadMode] free by (simp add: pendingLock_def r_def)
  also have "lockStep [c 3 False ?H, r True] [finishWorker (c 3 False ?H), r True]"
    using lockStep.finish[of 0 "[c 3 False ?H, r True]"] by (simp add: c_def)
  finally have reach: "lockStep\<^sup>*\<^sup>* [c 0 False [], r False] [finishWorker (c 3 False ?H), r True]" .
  let ?s = "[finishWorker (c 3 False ?H), r True]"
  have w: "pendingLock (finishWorker (c 3 False ?H)) = None" "pendingLock (r True) = Some (?R, ReadMode)" "w_done (finishWorker (c 3 False ?H))"
    "w_fetched (r True)" "\<not> w_done (r True)" "w_plan (r True) = [Take ?R ReadMode]"
    by (simp_all add: finishWorker_def c_def r_def pendingLock_def)
  have "(?R, WriteMode) \<in> set (w_held (?s ! 0))" by (simp add: finishWorker_def c_def rowLock_def)
  then have blocked: "\<not> grantable ?s (Suc 0) ?R ReadMode" unfolding grantable_def by fastforce
  have "\<not> lockStep ?s t" for t
  proof
    assume "lockStep ?s t"
    then show False using w blocked by (cases rule: lockStepE) (auto simp: less_Suc_eq)
  qed
  then show ?thesis unfolding start using reach by (intro exI[of _ ?s]) (simp add: finishWorker_def c_def r_def rowLock_def)
qed

section \<open>The theorems at an example\<close>

text \<open>Two commits that touch the same rows in opposite order, two reads and a copy.\<close>

definition plainTables :: lockContext where
  "plainTables = \<lparr>lc_participant = (\<lambda>_. False), lc_secondary = (\<lambda>_. False), lc_owners = None, lc_outgoing = [], lc_branches = (\<lambda>_. None)\<rparr>"

definition lockedCopy :: "string \<Rightarrow> int \<Rightarrow> nat touchedResource" where
  "lockedCopy n i = \<lparr>tr_dbName = n, tr_id = i, tr_ver = 0, tr_work = 1, tr_original = 2\<rparr>"

definition crossingRequests :: "(lockContext \<times> nat request) list" where
  "crossingRequests = map (Pair plainTables)
     [CommitRequest False [lockedCopy ''A'' 1, lockedCopy ''B'' 1] [] [] [] [],
      CommitRequest False [lockedCopy ''B'' 1, lockedCopy ''A'' 1] [] [] [] [],
      ViewRequest ''A'' 1, ViewManyRequest ''B'' [2, 1], CloneRequest (NodeKey ''A'' 1)]"


theorem deleted_row_blocks_readers_witness:
  "\<exists>s. lockStep\<^sup>*\<^sup>* (map startWorker [(plainTables, CommitRequest False [] [] [(NodeKey ''A'' 1, 0)] [] []), (plainTables, ViewRequest ''A'' 1 :: nat request)]) s \<and>
     (\<nexists>t. lockStep s t) \<and> \<not> w_done (s ! 1)"
  using deleted_row_blocks_readers[of plainTables "''A''" "ViewRequest ''A'' 1 :: nat request" 1 0] by (auto simp: plainTables_def)

end
