(* ===== verification/Transaction_Commit.thy ===== *)
theory Transaction_Commit
  imports Transaction_State Secondary_Index Durability
begin

text \<open>
  A commit of tables outside the relation graph (\<open>engine.go\<close>): the conflict check against the
  versions seen by the transaction, validation of the indexes, the log, and the writes, creates
  and deletes on the live tables with their indexes. A row is its value here, so that an index
  entry of a row is the value it was entered with: between \<open>prepareIndexes\<close> and \<open>finishIndexes\<close> no
  index holds a row that the commit changes. What relations add to a commit is the subject of
  the index theories.
\<close>

section \<open>The live tables\<close>

record 'v table =
  tb_index :: "'v indexedTable"
  tb_version :: "int \<Rightarrow> int"

type_synonym 'v tables = "string \<Rightarrow> 'v table"

record 'v database =
  db_tables :: "'v tables"
  db_durable :: durable

definition liveRow :: "'v tables \<Rightarrow> string \<Rightarrow> int \<Rightarrow> 'v option" where
  "liveRow ts n i = resById (tb_index (ts n)) i"

definition resourceVersion :: "'v tables \<Rightarrow> string \<Rightarrow> int \<Rightarrow> int option" where
  "resourceVersion ts n i = (case liveRow ts n i of None \<Rightarrow> None | Some _ \<Rightarrow> Some (tb_version (ts n) i))"

definition setRow :: "string \<Rightarrow> int \<Rightarrow> 'v option \<Rightarrow> int \<Rightarrow> 'v tables \<Rightarrow> 'v tables" where
  "setRow n i v ver ts =
     ts(n := (ts n)\<lparr>tb_index := (tb_index (ts n))\<lparr>resById := (resById (tb_index (ts n)))(i := v)\<rparr>,
                    tb_version := (tb_version (ts n))(i := ver)\<rparr>)"

definition mapTable :: "('v indexedTable \<Rightarrow> 'v indexedTable) \<Rightarrow> string \<Rightarrow> 'v tables \<Rightarrow> 'v tables" where
  "mapTable f n ts = ts(n := (ts n)\<lparr>tb_index := f (tb_index (ts n))\<rparr>)"

section \<open>The writes of a transaction\<close>

text \<open>The loop keeps the slice it was given when every copy changed.\<close>

definition changedResources :: "'v touchedResource list \<Rightarrow> 'v touchedResource list" where
  "changedResources rs =
     (let k = length (takeWhile (\<lambda>r. tr_original r \<noteq> tr_work r) rs) in
      if k = length rs then rs
      else take k rs @ filter (\<lambda>r. tr_original r \<noteq> tr_work r) (drop (k + 1) rs))"

definition addWrite :: "string \<Rightarrow> 'v pendingWrite \<Rightarrow> (string \<times> 'v pendingWrite list) list \<Rightarrow> (string \<times> 'v pendingWrite list) list" where
  "addWrite n w m = AList.update n ((case map_of m n of None \<Rightarrow> [] | Some ws \<Rightarrow> ws) @ [w]) m"

definition transactionChanges ::
  "'v touchedResource list \<Rightarrow> (nodeKey \<times> 'v) list \<Rightarrow> nodeKey list \<Rightarrow> (string \<times> 'v pendingWrite list) list" where
  "transactionChanges resources created removed =
     (let m1 = foldl (\<lambda>m r. if NodeKey (tr_dbName r) (tr_id r) \<in> set removed then m
                            else addWrite (tr_dbName r) \<lparr>pw_id = tr_id r, work = Some (tr_work r), deleted = False\<rparr> m) [] resources;
          m2 = foldl (\<lambda>m c. if fst c \<in> set removed then m
                            else addWrite (nk_type (fst c)) \<lparr>pw_id = nk_id (fst c), work = Some (snd c), deleted = False\<rparr> m) m1 created
      in foldl (\<lambda>m d. if map_of created d \<noteq> None then m
                      else addWrite (nk_type d) \<lparr>pw_id = nk_id d, work = None, deleted = True\<rparr> m) m2 removed)"

definition validateTransactionIndexes :: "'v reflection \<Rightarrow> 'v tables \<Rightarrow> (string \<times> 'v pendingWrite list) list \<Rightarrow> unit result" where
  "validateTransactionIndexes R ts changes =
     fold_result (\<lambda>_ c. validateIndexes R (tb_index (ts (fst c))) (snd c)) changes ()"

definition prepareTransactionIndexes :: "'v reflection \<Rightarrow> (string \<times> 'v pendingWrite list) list \<Rightarrow> 'v tables \<Rightarrow> 'v tables" where
  "prepareTransactionIndexes R changes ts =
     foldl (\<lambda>ts c. mapTable (\<lambda>t. prepareIndexes R t (snd c)) (fst c) ts) ts changes"

definition finishTransactionIndexes :: "'v reflection \<Rightarrow> (string \<times> 'v pendingWrite list) list \<Rightarrow> 'v tables \<Rightarrow> 'v tables" where
  "finishTransactionIndexes R changes ts =
     foldl (\<lambda>ts c. mapTable (\<lambda>t. finishIndexes R t (snd c)) (fst c) ts) ts changes"

definition applyWrite :: "'v tables \<Rightarrow> 'v touchedResource \<Rightarrow> 'v tables" where
  "applyWrite ts r =
     (case liveRow ts (tr_dbName r) (tr_id r) of
        None \<Rightarrow> ts
      | Some _ \<Rightarrow> setRow (tr_dbName r) (tr_id r) (Some (tr_work r)) (tb_version (ts (tr_dbName r)) (tr_id r) + 1) ts)"

definition relationApplyCreate :: "'v reflection \<Rightarrow> 'v tables \<Rightarrow> nodeKey \<times> 'v \<Rightarrow> 'v tables" where
  "relationApplyCreate R ts c = setRow (nk_type (fst c)) (GetId R (snd c)) (Some (snd c)) 0 ts"

definition deleteNode :: "'v reflection \<Rightarrow> 'v tables \<Rightarrow> nodeKey \<Rightarrow> 'v tables" where
  "deleteNode R ts d =
     (case liveRow ts (nk_type d) (nk_id d) of
        None \<Rightarrow> ts
      | Some p \<Rightarrow>
          setRow (nk_type d) (nk_id d) None (tb_version (ts (nk_type d)) (nk_id d))
            (mapTable (\<lambda>t. removeSecondaryIndices R t p) (nk_type d) ts))"

definition applyDeletedNodes :: "'v reflection \<Rightarrow> nodeKey list \<Rightarrow> 'v tables \<Rightarrow> 'v tables" where
  "applyDeletedNodes R removed ts = foldl (deleteNode R) ts removed"

section \<open>The commit\<close>

text \<open>The check of \<open>resourcesChangeRelationGraph\<close> that applies to every table.\<close>

definition keepsPrimaryKeys :: "'v reflection \<Rightarrow> 'v touchedResource list \<Rightarrow> bool" where
  "keepsPrimaryKeys R rs \<longleftrightarrow> (\<forall>r \<in> set rs. GetId R (tr_original r) = GetId R (tr_work r))"

definition refreshResource :: "'v tables \<Rightarrow> 'v touchedResource \<Rightarrow> 'v touchedResource" where
  "refreshResource ts r =
     (case liveRow ts (tr_dbName r) (tr_id r) of
        None \<Rightarrow> r
      | Some v \<Rightarrow> r\<lparr>tr_work := v, tr_original := v, tr_ver := tb_version (ts (tr_dbName r)) (tr_id r)\<rparr>)"

definition refresh :: "'v tables \<Rightarrow> 'v transactionState \<Rightarrow> 'v transactionState" where
  "refresh ts tx =
     (case tx_resource tx of
        None \<Rightarrow> tx
      | Some r \<Rightarrow> tx\<lparr>tx_resource := Some (refreshResource ts r), tx_resources := map (refreshResource ts) (tx_resources tx)\<rparr>)"

definition staleResource :: "'v tables \<Rightarrow> 'v touchedResource \<Rightarrow> bool" where
  "staleResource ts r \<longleftrightarrow> resourceVersion ts (tr_dbName r) (tr_id r) \<noteq> Some (tr_ver r)"

definition staleDelete :: "'v tables \<Rightarrow> (nodeKey \<times> 'v) list \<Rightarrow> nodeKey \<times> int \<Rightarrow> bool" where
  "staleDelete ts created d \<longleftrightarrow>
     map_of created (fst d) = None \<and> resourceVersion ts (nk_type (fst d)) (nk_id (fst d)) \<noteq> Some (snd d)"

definition nameBytes :: "string \<Rightarrow> bytes" where
  "nameBytes n = map of_char n"

definition snapshotTouchedResource :: "'v tables \<Rightarrow> string \<Rightarrow> int \<Rightarrow> 'v touchedResource result" where
  "snapshotTouchedResource ts n i =
     (case liveRow ts n i of
        None \<Rightarrow> Inl ErrNotFound
      | Some v \<Rightarrow> Inr \<lparr>tr_dbName = n, tr_id = i, tr_ver = tb_version (ts n) i, tr_work = v, tr_original = v\<rparr>)"

type_synonym 'v commitResult = "('v database \<times> 'v transactionState) \<times> unit result"

definition commitSingleWrite ::
  "(bytes \<Rightarrow> 'v \<Rightarrow> bytes result) \<Rightarrow> write_outcome \<Rightarrow> 'v database \<Rightarrow> 'v transactionState \<Rightarrow> 'v touchedResource \<Rightarrow> 'v commitResult" where
  "commitSingleWrite encR out db tx r =
     (if staleResource (db_tables db) r then ((db, refresh (db_tables db) tx), Inl ErrConflict)
      else
        let n = nameBytes (tr_dbName r);
            l = logWrites (encR n) out (walFiles (db_durable db) n) [\<lparr>pw_id = tr_id r, work = Some (tr_work r), deleted = False\<rparr>];
            db1 = db\<lparr>db_durable := (db_durable db)\<lparr>walFiles := (walFiles (db_durable db))(n := fst l)\<rparr>\<rparr>
        in case snd l of
             Inl e \<Rightarrow> ((db1, tx), Inl e)
           | Inr _ \<Rightarrow> ((db1\<lparr>db_tables := applyWrite (db_tables db1) r\<rparr>, evict_tx tx), Inr ()))"

definition commitChanges ::
  "'v reflection \<Rightarrow> (string \<times> 'v pendingWrite list) list \<Rightarrow> 'v touchedResource list \<Rightarrow> (nodeKey \<times> 'v) list \<Rightarrow> nodeKey list \<Rightarrow> 'v tables \<Rightarrow> 'v tables" where
  "commitChanges R changes touched created removed ts =
     (let prepared = prepareTransactionIndexes R changes ts;
          written = foldl applyWrite prepared touched;
          added = foldl (relationApplyCreate R) written created
      in finishTransactionIndexes R changes (applyDeletedNodes R removed added))"

text \<open>The part of \<open>commit\<close> behind the graph locks, for a commit that leaves the graph alone.\<close>

definition commitPlain ::
  "'v reflection \<Rightarrow> (bytes \<Rightarrow> 'v \<Rightarrow> bytes result) \<Rightarrow> write_outcome \<Rightarrow> 'v database \<Rightarrow> 'v transactionState \<Rightarrow> 'v touchedResource list \<Rightarrow> 'v commitResult" where
  "commitPlain R encR out db tx touched =
     (let ts = db_tables db; created = tx_creates tx; removed = tx_deletes tx in
      if created = [] \<and> removed = [] \<and> length touched = 1 \<and> secondary (tb_index (ts (tr_dbName (hd touched)))) = []
      then commitSingleWrite encR out db tx (hd touched)
      else if \<exists>c \<in> set created. resourceVersion ts (nk_type (fst c)) (nk_id (fst c)) \<noteq> None then ((db, tx), Inl ErrAlreadyExists)
      else if \<exists>r \<in> set touched. staleResource ts r then ((db, refresh ts tx), Inl ErrConflict)
      else if \<exists>d \<in> set removed. staleDelete ts created d then ((db, tx), Inl ErrConflict)
      else
        let changes = transactionChanges touched created (map fst removed) in
        case validateTransactionIndexes R ts changes of
          Inl e \<Rightarrow> ((db, tx), Inl e)
        | Inr _ \<Rightarrow>
            (let l = logTransactionChanges encR out (db_durable db) (map (\<lambda>c. (nameBytes (fst c), snd c)) changes) in
             case snd l of
               Inl e \<Rightarrow> ((db\<lparr>db_durable := fst l\<rparr>, tx), Inl e)
             | Inr _ \<Rightarrow>
                 ((\<lparr>db_tables = commitChanges R changes touched created (map fst removed) ts, db_durable = fst l\<rparr>, evict_tx tx), Inr ())))"

definition commit ::
  "'v reflection \<Rightarrow> (bytes \<Rightarrow> 'v \<Rightarrow> bytes result) \<Rightarrow> write_outcome \<Rightarrow> 'v database \<Rightarrow> 'v transactionState \<Rightarrow> 'v commitResult" where
  "commit R encR out db tx =
     (let touched = changedResources (copyResources tx) in
      if \<not> tx_active tx then ((db, tx), Inl ErrExpiredSnapshot)
      else if touched = [] \<and> tx_creates tx = [] \<and> tx_deletes tx = [] then ((db, evict_tx tx), Inr ())
      else if \<not> keepsPrimaryKeys R touched then ((db, tx), Inl (ErrRelationInvariant ''primary key changed''))
      else commitPlain R encR out db tx touched)"

lemma changedResources_filter: "changedResources rs = filter (\<lambda>r. tr_original r \<noteq> tr_work r) rs"
proof (induction rs)
  case (Cons r rs)
  then show ?case by (auto simp: changedResources_def Let_def)
qed (simp add: changedResources_def)

section \<open>Deleting a row whose index entries are already gone\<close>

text \<open>
  \<open>relationDelete\<close> takes the row out of the indexes once more. That is harmless when the row has
  its committed value, because no other row has its keys.
\<close>

lemma deleteUniqueValue_absent: "uniqueValueID index v = None \<Longrightarrow> deleteUniqueValue index v = index"
  by (cases v) (auto simp: fun_upd_idem split: if_splits)

lemma deleteUnique_absent:
  assumes "lookup_spec (spec index)" "idOf index (rowValues R (spec index) p) = None"
  shows "deleteUnique R index p = index"
proof -
  have "uniqueID R index p = None" using assms by (simp add: uniqueID_idOf)
  then show ?thesis by (simp add: uniqueID_def deleteUnique_def deleteUniqueValue_absent fun_upd_idem split: if_splits)
qed

lemma removeEntry_absent:
  assumes e: "entries_ok R rows index" and r: "rows_ok R (spec index) (insert p rows)" and p: "p \<notin> rows"
  shows "removeEntry R index p = index"
proof -
  define rest where "rest = drop (searchEntry R index p) (entries index)"
  have "removeEqual R index p rest = rest"
  proof (cases rest)
    case (Cons q qs)
    then have q: "q \<in> rows" using e unfolding entries_ok_def rest_def by (metis in_set_dropD list.set_intros(1))
    have "sortKey R (spec index) q \<noteq> sortKey R (spec index) p" using sortKey_inj[OF r] q p by (auto simp: inj_on_def)
    then have "compare R index q p \<noteq> 0" using r q cmp.cmp_signs(3)[of R index q p] by (simp add: rows_ok_def)
    then show ?thesis by (simp add: Cons)
  qed simp
  then show ?thesis by (simp add: removeEntry_def Let_def rest_def[symmetric]) (simp add: rest_def)
qed

lemma removeBoth_absent:
  assumes ok: "index_ok R rows index" and all: "index_ok R all index'" "spec index' = spec index" "rows \<subseteq> all"
    and p: "p \<in> all" "p \<notin> rows"
  shows "removeBoth R index p = index"
proof -
  have r: "rows_ok R (spec index) (insert p rows)"
    using all p(1) by (auto simp: index_ok_def rows_ok_def inj_on_def)
  have "removeLookup R index p = index"
  proof (cases "is_unique (spec index)")
    case True
    have inj: "inj_on (rowValues R (spec index)) all" using all True by (auto simp: index_ok_def lookups_ok_def)
    have "values_typed (spec index) (rowValues R (spec index) p)" using r by (simp add: rows_ok_def row_typed_def)
    moreover have "\<nexists>q. q \<in> rows \<and> rowValues R (spec index) q = rowValues R (spec index) p"
      using inj p all(3) by (metis inj_onD subsetD)
    ultimately have "idOf index (rowValues R (spec index) p) = None"
      using ok True unfolding index_ok_def lookups_ok_def by (metis not_None_eq)
    then show ?thesis using ok True by (simp add: removeLookup_def deleteUnique_absent index_ok_def)
  qed (simp add: removeLookup_def)
  moreover have "removeEntry R index p = index"
    using ok r p by (intro removeEntry_absent) (auto simp: index_ok_def)
  ultimately show ?thesis by (simp add: removeBoth_def)
qed

lemma prepared_remove_absent:
  assumes t: "table_ok R db" and d: "distinct (map pw_id items)"
    and p: "resById db (pw_id it) = Some p" "it \<in> set items"
    and m: "secondary mid = secondary (prepareIndexes R db items)"
  shows "removeSecondaryIndices R mid p = mid"
proof -
  note T = touched_kept[OF t d]
  have "i = pw_id it" if "resById db i = Some p" for i using that p(1) t unfolding table_ok_def by metis
  then have p2: "p \<in> ran (resById db)" "p \<notin> keptRows db items"
    using p by (auto simp: ran_def keptRows_def)
  have "removeBoth R (snd q) p = snd q" if q: "q \<in> set (secondary mid)" for q
  proof -
    obtain q0 where q0: "q0 \<in> set (secondary db)" "snd q = foldl (removeBoth R) (snd q0) (touchedRows db items)"
      using q unfolding m prepare_conv(2)[OF t d] by auto
    have all: "index_ok R (ran (resById db)) (snd q0)" using t q0(1) by (simp add: table_ok_def)
    have "index_ok R (keptRows db items) (snd q)" using removed_ok[OF all T(1,2)] by (simp add: T(3) q0(2))
    then show ?thesis by (rule removeBoth_absent[OF _ all]) (use q0(2) T(3) p2 in auto)
  qed
  then show ?thesis by (simp add: removeSecondaryIndices_conv mapIndexes_def map_idI)
qed

section \<open>The writes of a commit, table by table\<close>

definition writesTo :: "(string \<times> 'v pendingWrite list) list \<Rightarrow> string \<Rightarrow> 'v pendingWrite list" where
  "writesTo m n = (case map_of m n of None \<Rightarrow> [] | Some ws \<Rightarrow> ws)"

lemma writesTo_addWrite: "writesTo (addWrite n w m) n' = (if n' = n then writesTo m n @ [w] else writesTo m n')"
  by (simp add: writesTo_def addWrite_def update_conv')

lemma distinct_addWrite: "distinct (map fst m) \<Longrightarrow> distinct (map fst (addWrite n w m))"
  by (simp add: addWrite_def distinct_update)

lemma writesTo_fold:
  "writesTo (foldl (\<lambda>m x. if skip x then m else addWrite (nm x) (wr x) m) m xs) n =
     writesTo m n @ map wr (filter (\<lambda>x. \<not> skip x \<and> nm x = n) xs)"
  by (induction xs arbitrary: m) (auto simp: writesTo_addWrite)

lemma distinct_fold:
  "distinct (map fst m) \<Longrightarrow> distinct (map fst (foldl (\<lambda>m x. if skip x then m else addWrite (nm x) (wr x) m) m xs))"
  by (induction xs arbitrary: m) (auto simp: distinct_addWrite)

lemma writesTo_changes:
  "writesTo (transactionChanges touched created removed) n =
     map (\<lambda>r. \<lparr>pw_id = tr_id r, work = Some (tr_work r), deleted = False\<rparr>)
       (filter (\<lambda>r. NodeKey (tr_dbName r) (tr_id r) \<notin> set removed \<and> tr_dbName r = n) touched) @
     map (\<lambda>c. \<lparr>pw_id = nk_id (fst c), work = Some (snd c), deleted = False\<rparr>)
       (filter (\<lambda>c. fst c \<notin> set removed \<and> nk_type (fst c) = n) created) @
     map (\<lambda>d. \<lparr>pw_id = nk_id d, work = None, deleted = True\<rparr>)
       (filter (\<lambda>d. map_of created d = None \<and> nk_type d = n) removed)"
  by (simp add: transactionChanges_def Let_def writesTo_fold writesTo_def[of "[]"])

lemma distinct_changes: "distinct (map fst (transactionChanges touched created removed))"
  unfolding transactionChanges_def Let_def by (intro distinct_fold) simp

lemma fold_mapTable:
  assumes "distinct (map fst changes)" and empty: "\<And>t. f t [] = t"
  shows "foldl (\<lambda>ts c. mapTable (\<lambda>t. f t (snd c)) (fst c) ts) ts changes n =
    (ts n)\<lparr>tb_index := f (tb_index (ts n)) (writesTo changes n)\<rparr>"
  using assms(1)
proof (induction changes arbitrary: ts)
  case Nil
  then show ?case by (simp add: writesTo_def empty)
next
  case (Cons c changes)
  then have "fst c = n \<Longrightarrow> writesTo changes n = []" by (auto simp: writesTo_def map_of_eq_None_iff[symmetric] split: option.split)
  then show ?case using Cons by (cases c) (auto simp: mapTable_def writesTo_def empty)
qed

lemma prepare_empty: "prepareIndexes R t [] = t"
  by (simp add: prepareIndexes_def prepareIndexBatch_def touchedRows_def Let_def)

lemma finish_empty: "finishIndexes R t [] = t"
  by (simp add: finishIndexes_def secondaryIndexBatchThreshold_def writtenRows_def)

lemma prepare_keeps_rows: "table_ok R t \<Longrightarrow> distinct (map pw_id ws) \<Longrightarrow> resById (prepareIndexes R t ws) = resById t"
  by (simp add: prepare_conv(2))

lemma finish_keeps_rows: "resById (finishIndexes R t ws) = resById t"
proof -
  have a: "resById (foldl (\<lambda>db p. mapIndexes (\<lambda>index. addLookup R index p) db) t ps) = resById t" for ps
    by (induction ps arbitrary: t) auto
  have b: "resById (foldl (addSecondaryIndices R) t ps) = resById t" for ps
    by (induction ps arbitrary: t) (auto simp: addSecondaryIndices_def)
  show ?thesis by (simp add: finishIndexes_def finishIndexBatch_def Let_def a b)
qed

section \<open>Writes between the two index passes touch the rows only\<close>

definition onlyRows :: "'v tables \<Rightarrow> 'v tables \<Rightarrow> bool" where
  "onlyRows ts ts' \<longleftrightarrow> (\<forall>n. secondary (tb_index (ts' n)) = secondary (tb_index (ts n)))"

lemma setRow_simps [simp]:
  "liveRow (setRow n i v ver ts) n' i' = (if n' = n \<and> i' = i then v else liveRow ts n' i')"
  "tb_version (setRow n i v ver ts n') i' = (if n' = n \<and> i' = i then ver else tb_version (ts n') i')"
  "secondary (tb_index (setRow n i v ver ts n')) = secondary (tb_index (ts n'))"
  by (auto simp: setRow_def liveRow_def)

lemma applyWrite_simps:
  "liveRow (applyWrite ts r) n i =
     (if n = tr_dbName r \<and> i = tr_id r \<and> liveRow ts n i \<noteq> None then Some (tr_work r) else liveRow ts n i)"
  "tb_version (applyWrite ts r n) i =
     (if n = tr_dbName r \<and> i = tr_id r \<and> liveRow ts n i \<noteq> None then tb_version (ts n) i + 1 else tb_version (ts n) i)"
  "secondary (tb_index (applyWrite ts r n)) = secondary (tb_index (ts n))"
  by (auto simp: applyWrite_def split: option.splits)

lemma fold_applyWrite_live:
  "distinct (map txKey rs) \<Longrightarrow> liveRow (foldl applyWrite ts rs) n i =
      (case find (\<lambda>r. txKey r = (n, i)) rs of
         Some r \<Rightarrow> if liveRow ts n i = None then None else Some (tr_work r) | None \<Rightarrow> liveRow ts n i)"
proof (induction rs arbitrary: ts)
  case (Cons r rs)
  have absent: "find (\<lambda>r. txKey r = (n, i)) rs = None" if "txKey r = (n, i)"
    using Cons.prems that by (auto simp: find_None_iff image_iff)
  show ?case
    using Cons absent by (cases "txKey r = (n, i)") (auto simp: applyWrite_simps txKey_def split: option.splits)
qed simp

lemma fold_applyWrite_version:
  "distinct (map txKey rs) \<Longrightarrow> tb_version (foldl applyWrite ts rs n) i =
     tb_version (ts n) i + (if (n, i) \<in> txKey ` set rs \<and> liveRow ts n i \<noteq> None then 1 else 0)"
proof (induction rs arbitrary: ts)
  case (Cons r rs)
  have absent: "(n, i) \<notin> txKey ` set rs" if "txKey r = (n, i)" using Cons.prems that by auto
  show ?case
    using Cons absent by (cases "txKey r = (n, i)") (auto simp: applyWrite_simps txKey_def)
qed simp

lemma fold_applyWrite_secondary: "secondary (tb_index (foldl applyWrite ts rs n)) = secondary (tb_index (ts n))"
  by (induction rs arbitrary: ts) (simp_all add: applyWrite_simps)

lemma fold_create:
  assumes "distinct (map fst cs)" "\<forall>c \<in> set cs. GetId R (snd c) = nk_id (fst c)"
  shows "liveRow (foldl (relationApplyCreate R) ts cs) n i =
           (case map_of cs (NodeKey n i) of None \<Rightarrow> liveRow ts n i | Some v \<Rightarrow> Some v) \<and>
         tb_version (foldl (relationApplyCreate R) ts cs n) i =
           (case map_of cs (NodeKey n i) of None \<Rightarrow> tb_version (ts n) i | Some v \<Rightarrow> 0) \<and>
         secondary (tb_index (foldl (relationApplyCreate R) ts cs n)) = secondary (tb_index (ts n))"
  using assms
proof (induction cs arbitrary: ts)
  case (Cons c cs)
  have absent: "map_of cs (fst c) = None" using Cons.prems by (simp add: map_of_eq_None_iff)
  have key: "fst c = NodeKey (nk_type (fst c)) (nk_id (fst c))" by simp
  show ?case
    using Cons absent by (cases "fst c = NodeKey n i") (auto simp: relationApplyCreate_def split: option.splits)
qed simp

lemma fold_delete:
  assumes "distinct ds"
    and "\<And>d p (ts' :: 'v tables). d \<in> set ds \<Longrightarrow> liveRow ts (nk_type d) (nk_id d) = Some p \<Longrightarrow>
           (\<And>n. secondary (tb_index (ts' n)) = secondary (tb_index (ts n))) \<Longrightarrow>
           removeSecondaryIndices R (tb_index (ts' (nk_type d))) p = tb_index (ts' (nk_type d))"
  shows "liveRow (foldl (deleteNode R) (ts :: 'v tables) ds) n i = (if NodeKey n i \<in> set ds then None else liveRow ts n i) \<and>
         tb_version (foldl (deleteNode R) ts ds n) i = tb_version (ts n) i \<and>
         secondary (tb_index (foldl (deleteNode R) ts ds n)) = secondary (tb_index (ts n))"
  using assms
proof (induction ds arbitrary: ts)
  case (Cons d ds)
  have key: "d = NodeKey n i \<longleftrightarrow> nk_type d = n \<and> nk_id d = i" by (cases d) auto
  have step: "deleteNode R ts d =
      (if liveRow ts (nk_type d) (nk_id d) = None then ts
       else setRow (nk_type d) (nk_id d) None (tb_version (ts (nk_type d)) (nk_id d)) ts)"
    using Cons.prems(2)[of d _ ts] by (auto simp: deleteNode_def mapTable_def split: option.splits)
  have "liveRow (foldl (deleteNode R) (deleteNode R ts d) ds) n i =
          (if NodeKey n i \<in> set ds then None else liveRow (deleteNode R ts d) n i) \<and>
        tb_version (foldl (deleteNode R) (deleteNode R ts d) ds n) i = tb_version (deleteNode R ts d n) i \<and>
        secondary (tb_index (foldl (deleteNode R) (deleteNode R ts d) ds n)) = secondary (tb_index (deleteNode R ts d n))"
  proof (rule Cons.IH)
    show "distinct ds" using Cons.prems(1) by simp
    fix d' p and ts' :: "'v tables"
    assume d': "d' \<in> set ds" "liveRow (deleteNode R ts d) (nk_type d') (nk_id d') = Some p"
      "\<And>n. secondary (tb_index (ts' n)) = secondary (tb_index (deleteNode R ts d n))"
    then show "removeSecondaryIndices R (tb_index (ts' (nk_type d'))) p = tb_index (ts' (nk_type d'))"
      by (intro Cons.prems(2)) (auto simp: step split: if_splits)
  qed
  then show ?case using key by (auto simp: step)
qed simp

section \<open>What a commit leaves\<close>

definition databaseOk :: "'v reflection \<Rightarrow> 'v tables \<Rightarrow> bool" where
  "databaseOk R ts \<longleftrightarrow> (\<forall>n. table_ok R (tb_index (ts n)))"

text \<open>A value that may stand in a table under an id, and a working set whose parts do not overlap.\<close>

definition rowFits :: "'v reflection \<Rightarrow> 'v tables \<Rightarrow> string \<Rightarrow> int \<Rightarrow> 'v \<Rightarrow> bool" where
  "rowFits R ts n i v \<longleftrightarrow>
     GetId R v = i \<and> i \<noteq> 0 \<and> (\<forall>q \<in> set (secondary (tb_index (ts n))). row_typed R (spec (snd q)) v)"

definition writtenKeys :: "'v touchedResource list \<Rightarrow> (nodeKey \<times> 'v) list \<Rightarrow> nodeKey list \<Rightarrow> nodeKey list" where
  "writtenKeys touched created removed =
     map (\<lambda>r. NodeKey (tr_dbName r) (tr_id r)) touched @ map fst created @ removed"

definition writesFit :: "'v reflection \<Rightarrow> 'v tables \<Rightarrow> 'v touchedResource list \<Rightarrow> (nodeKey \<times> 'v) list \<Rightarrow> nodeKey list \<Rightarrow> bool" where
  "writesFit R ts touched created removed \<longleftrightarrow>
     distinct (writtenKeys touched created removed) \<and>
     (\<forall>r \<in> set touched. rowFits R ts (tr_dbName r) (tr_id r) (tr_work r)) \<and>
     (\<forall>c \<in> set created. rowFits R ts (nk_type (fst c)) (nk_id (fst c)) (snd c))"

definition rowAfter :: "'v touchedResource list \<Rightarrow> (nodeKey \<times> 'v) list \<Rightarrow> nodeKey list \<Rightarrow> 'v tables \<Rightarrow> string \<Rightarrow> int \<Rightarrow> 'v option" where
  "rowAfter touched created removed ts n i =
     (if NodeKey n i \<in> set removed then None
      else case map_of created (NodeKey n i) of
        Some v \<Rightarrow> Some v
      | None \<Rightarrow> (case find (\<lambda>r. txKey r = (n, i)) touched of Some r \<Rightarrow> Some (tr_work r) | None \<Rightarrow> liveRow ts n i))"

definition versionAfter :: "'v touchedResource list \<Rightarrow> (nodeKey \<times> 'v) list \<Rightarrow> 'v tables \<Rightarrow> string \<Rightarrow> int \<Rightarrow> int" where
  "versionAfter touched created ts n i =
     (if map_of created (NodeKey n i) \<noteq> None then 0
      else if (n, i) \<in> txKey ` set touched then tb_version (ts n) i + 1 else tb_version (ts n) i)"

lemma find_key_Some: "find (\<lambda>r. txKey r = (n, i)) rs = Some r \<Longrightarrow> r \<in> set rs \<and> tr_dbName r = n \<and> tr_id r = i"
  by (auto simp: find_Some_iff txKey_def)

lemma find_key_distinct:
  assumes "distinct (map txKey rs)" "r \<in> set rs"
  shows "find (\<lambda>e. txKey e = (tr_dbName r, tr_id r)) rs = Some r"
  using assms by (induction rs) (auto simp: txKey_def image_iff)

lemma validate_empty: "validateIndexes R db [] = Inr ()"
proof -
  have "fold_result (\<lambda>_ p. if \<not> is_unique (spec (snd p)) then Inr ()
        else bind_result (fold_result (validateItem R (pw_id ` set []) (snd p)) [] (\<lambda>_. None)) (\<lambda>_. Inr ())) qs () = Inr ()" for qs
    by (induction qs) auto
  then show ?thesis by (simp add: validateIndexes_def)
qed

lemma validate_tables:
  assumes "validateTransactionIndexes R ts changes = Inr ()"
  shows "validateIndexes R (tb_index (ts n)) (writesTo changes n) = Inr ()"
proof -
  have all: "\<forall>c \<in> set changes. validateIndexes R (tb_index (ts (fst c))) (snd c) = Inr ()"
    using assms unfolding validateTransactionIndexes_def by (induction changes) (auto simp: bind_result_def split: sum.splits)
  then show ?thesis
    by (cases "map_of changes n") (auto simp: writesTo_def validate_empty dest!: map_of_SomeD)
qed

lemma writesFit_keys:
  assumes "writesFit R ts touched created removed"
  shows "distinct (map txKey touched)" and "distinct (map fst created)" and "distinct removed"
    and "\<And>r. r \<in> set touched \<Longrightarrow> NodeKey (tr_dbName r) (tr_id r) \<notin> set removed \<and> map_of created (NodeKey (tr_dbName r) (tr_id r)) = None"
    and "\<And>c. c \<in> set created \<Longrightarrow> fst c \<notin> set removed" and "\<And>d. d \<in> set removed \<Longrightarrow> map_of created d = None"
proof -
  note d = assms[unfolded writesFit_def writtenKeys_def distinct_append]
  have "map (\<lambda>r. NodeKey (tr_dbName r) (tr_id r)) touched = map (\<lambda>k. NodeKey (fst k) (snd k)) (map txKey touched)"
    by (simp add: txKey_def)
  then show "distinct (map txKey touched)" using d by (metis distinct_map)
  show "distinct (map fst created)" "distinct removed" using d by blast+
  show "NodeKey (tr_dbName r) (tr_id r) \<notin> set removed \<and> map_of created (NodeKey (tr_dbName r) (tr_id r)) = None"
    if "r \<in> set touched" for r using d that by (force simp: map_of_eq_None_iff)
  show "fst c \<notin> set removed" if "c \<in> set created" for c using d that by force
  show "map_of created d = None" if "d \<in> set removed" for d using d that by (force simp: map_of_eq_None_iff)
qed

lemma writesTo_fit:
  assumes "writesFit R ts touched created removed"
  shows "writesTo (transactionChanges touched created removed) n =
    map (\<lambda>r. \<lparr>pw_id = tr_id r, work = Some (tr_work r), deleted = False\<rparr>) (filter (\<lambda>r. tr_dbName r = n) touched) @
    map (\<lambda>c. \<lparr>pw_id = nk_id (fst c), work = Some (snd c), deleted = False\<rparr>) (filter (\<lambda>c. nk_type (fst c) = n) created) @
    map (\<lambda>d. \<lparr>pw_id = nk_id d, work = None, deleted = True\<rparr>) (filter (\<lambda>d. nk_type d = n) removed)"
proof -
  note K = writesFit_keys[OF assms]
  have "filter (\<lambda>r. NodeKey (tr_dbName r) (tr_id r) \<notin> set removed \<and> tr_dbName r = n) touched = filter (\<lambda>r. tr_dbName r = n) touched"
    "filter (\<lambda>c. fst c \<notin> set removed \<and> nk_type (fst c) = n) created = filter (\<lambda>c. nk_type (fst c) = n) created"
    "filter (\<lambda>d. map_of created d = None \<and> nk_type d = n) removed = filter (\<lambda>d. nk_type d = n) removed"
    using K by (auto intro!: filter_cong)
  then show ?thesis by (simp add: writesTo_changes)
qed

lemma writes_set:
  assumes "writesFit R ts touched created removed"
  shows "it \<in> set (writesTo (transactionChanges touched created removed) n) \<longleftrightarrow>
    (\<exists>r \<in> set touched. tr_dbName r = n \<and> it = \<lparr>pw_id = tr_id r, work = Some (tr_work r), deleted = False\<rparr>) \<or>
    (\<exists>c \<in> set created. nk_type (fst c) = n \<and> it = \<lparr>pw_id = nk_id (fst c), work = Some (snd c), deleted = False\<rparr>) \<or>
    (\<exists>d \<in> set removed. nk_type d = n \<and> it = \<lparr>pw_id = nk_id d, work = None, deleted = True\<rparr>)"
  unfolding writesTo_fit[OF assms] set_append set_map set_filter Un_iff image_iff by blast

lemma writes_ids:
  assumes "writesFit R ts touched created removed"
  shows "map pw_id (writesTo (transactionChanges touched created removed) n) =
    map nk_id (filter (\<lambda>k. nk_type k = n) (writtenKeys touched created removed))"
  by (simp add: writesTo_fit[OF assms] writtenKeys_def filter_map o_def)

lemma writes_distinct:
  assumes "writesFit R ts touched created removed"
  shows "distinct (map pw_id (writesTo (transactionChanges touched created removed) n))"
  unfolding writes_ids[OF assms] using assms
  by (auto simp: writesFit_def distinct_map inj_on_def intro: nodeKey.expand)

lemma writes_items_ok:
  assumes "writesFit R ts touched created removed"
  shows "items_ok R (tb_index (ts n)) (writesTo (transactionChanges touched created removed) n)"
  unfolding items_ok_def
proof (intro conjI ballI)
  show "distinct (map pw_id (writesTo (transactionChanges touched created removed) n))" by (rule writes_distinct[OF assms])
  show "written it \<longrightarrow> work it \<noteq> None \<and> pw_id it \<noteq> 0 \<and>
      (\<forall>q \<in> set (secondary (tb_index (ts n))). row_typed R (spec (snd q)) (the (work it)))"
    if "it \<in> set (writesTo (transactionChanges touched created removed) n)" for it
    using that assms unfolding writes_set[OF assms] writesFit_def rowFits_def by (elim disjE bexE conjE) (simp_all add: written_def)
qed

text \<open>The tables just before \<open>finishTransactionIndexes\<close>.\<close>

definition writtenTables :: "'v reflection \<Rightarrow> 'v touchedResource list \<Rightarrow> (nodeKey \<times> 'v) list \<Rightarrow> nodeKey list \<Rightarrow> 'v tables \<Rightarrow> 'v tables" where
  "writtenTables R touched created removed ts =
     applyDeletedNodes R removed
       (foldl (relationApplyCreate R)
         (foldl applyWrite (prepareTransactionIndexes R (transactionChanges touched created removed) ts) touched) created)"

lemma prepared_table:
  "prepareTransactionIndexes R (transactionChanges touched created removed) ts n =
     (ts n)\<lparr>tb_index := prepareIndexes R (tb_index (ts n)) (writesTo (transactionChanges touched created removed) n)\<rparr>"
  unfolding prepareTransactionIndexes_def by (rule fold_mapTable[where f = "prepareIndexes R", OF distinct_changes prepare_empty])

lemma finished_table:
  "finishTransactionIndexes R (transactionChanges touched created removed) ts n =
     (ts n)\<lparr>tb_index := finishIndexes R (tb_index (ts n)) (writesTo (transactionChanges touched created removed) n)\<rparr>"
  unfolding finishTransactionIndexes_def by (rule fold_mapTable[where f = "finishIndexes R", OF distinct_changes finish_empty])

definition addedTables :: "'v reflection \<Rightarrow> 'v touchedResource list \<Rightarrow> (nodeKey \<times> 'v) list \<Rightarrow> nodeKey list \<Rightarrow> 'v tables \<Rightarrow> 'v tables" where
  "addedTables R touched created removed ts =
     foldl (relationApplyCreate R)
       (foldl applyWrite (prepareTransactionIndexes R (transactionChanges touched created removed) ts) touched) created"

lemma addedTables_exact:
  assumes ok: "databaseOk R ts" and W: "writesFit R ts touched created removed"
    and live: "\<forall>r \<in> set touched. liveRow ts (tr_dbName r) (tr_id r) \<noteq> None"
  defines "added \<equiv> addedTables R touched created removed ts"
  shows "liveRow added m j = (case map_of created (NodeKey m j) of Some v \<Rightarrow> Some v
      | None \<Rightarrow> (case find (\<lambda>r. txKey r = (m, j)) touched of Some r \<Rightarrow> Some (tr_work r) | None \<Rightarrow> liveRow ts m j))"
    and "tb_version (added m) j = versionAfter touched created ts m j"
    and "secondary (tb_index (added m)) =
      secondary (prepareIndexes R (tb_index (ts m)) (writesTo (transactionChanges touched created removed) m))"
proof -
  let ?ws = "writesTo (transactionChanges touched created removed)"
  note K = writesFit_keys[OF W]
  have tab: "table_ok R (tb_index (ts m))" for m using ok by (simp add: databaseOk_def)
  have dist: "distinct (map pw_id (?ws m))" for m by (rule writes_distinct[OF W])
  define prepared where "prepared = prepareTransactionIndexes R (transactionChanges touched created removed) ts"
  have P: "liveRow prepared m j = liveRow ts m j" "tb_version (prepared m) j = tb_version (ts m) j"
    "secondary (tb_index (prepared m)) = secondary (prepareIndexes R (tb_index (ts m)) (?ws m))" for m j
    using prepare_keeps_rows[OF tab dist] by (simp_all add: prepared_def prepared_table liveRow_def)
  have C: "\<forall>c \<in> set created. GetId R (snd c) = nk_id (fst c)" using W by (simp add: writesFit_def rowFits_def)
  note A = fold_create[OF K(2) C, of "foldl applyWrite prepared touched", folded addedTables_def prepared_def]
  have eq: "added = foldl (relationApplyCreate R) (foldl applyWrite prepared touched) created"
    by (simp add: added_def addedTables_def prepared_def)
  show "liveRow added m j = (case map_of created (NodeKey m j) of Some v \<Rightarrow> Some v
      | None \<Rightarrow> (case find (\<lambda>r. txKey r = (m, j)) touched of Some r \<Rightarrow> Some (tr_work r) | None \<Rightarrow> liveRow ts m j))"
    using A[of m j] fold_applyWrite_live[OF K(1), of prepared m j] live find_key_Some[of m j touched] P(1)
    by (auto simp: eq split: option.splits)
  show "tb_version (added m) j = versionAfter touched created ts m j"
    using A[of m j] fold_applyWrite_version[OF K(1), of prepared m j] live P
    by (auto simp: eq versionAfter_def txKey_def split: option.splits)
  show "secondary (tb_index (added m)) = secondary (prepareIndexes R (tb_index (ts m)) (?ws m))"
    using A[of m j] by (simp add: eq fold_applyWrite_secondary P(3))
qed

text \<open>A deleted row is not in the indexes any more when \<open>relationDelete\<close> reaches it.\<close>

lemma removed_noop:
  assumes ok: "databaseOk R ts" and W: "writesFit R ts touched created removed"
    and live: "\<forall>r \<in> set touched. liveRow ts (tr_dbName r) (tr_id r) \<noteq> None"
    and d: "NodeKey n i \<in> set removed" "liveRow (addedTables R touched created removed ts) n i = Some p"
    and X: "secondary X = secondary (tb_index (addedTables R touched created removed ts n))"
  shows "removeSecondaryIndices R X p = X"
proof -
  note K = writesFit_keys[OF W] and A = addedTables_exact[OF ok W live]
  have "find (\<lambda>r. txKey r = (n, i)) touched = None"
    using K(4) d(1) by (force simp: find_None_iff txKey_def)
  then have "liveRow ts n i = Some p"
    using d(2) K(6)[OF d(1)] by (simp add: A(1))
  then have p: "resById (tb_index (ts n)) i = Some p" by (simp add: liveRow_def)
  have it: "\<lparr>pw_id = i, work = None, deleted = True\<rparr> \<in> set (writesTo (transactionChanges touched created removed) n)"
    unfolding writes_set[OF W] using d(1) by (auto intro!: bexI[of _ "NodeKey n i"])
  show ?thesis
    by (rule prepared_remove_absent[OF _ writes_distinct[OF W] _ it])
      (use ok p X A(3) in \<open>simp_all add: databaseOk_def\<close>)
qed

lemma applyDeleted_exact:
  assumes ok: "databaseOk R ts" and W: "writesFit R ts touched created removed"
    and live: "\<forall>r \<in> set touched. liveRow ts (tr_dbName r) (tr_id r) \<noteq> None"
  defines "added \<equiv> addedTables R touched created removed ts"
  shows "liveRow (applyDeletedNodes R removed added) n i = (if NodeKey n i \<in> set removed then None else liveRow added n i) \<and>
         tb_version (applyDeletedNodes R removed added n) i = tb_version (added n) i \<and>
         secondary (tb_index (applyDeletedNodes R removed added n)) = secondary (tb_index (added n))"
  unfolding applyDeletedNodes_def
proof (rule fold_delete)
  show "distinct removed" by (rule writesFit_keys(3)[OF W])
  fix d p and ts' :: "'a tables"
  assume d: "d \<in> set removed" "liveRow added (nk_type d) (nk_id d) = Some p"
    "\<And>n. secondary (tb_index (ts' n)) = secondary (tb_index (added n))"
  then show "removeSecondaryIndices R (tb_index (ts' (nk_type d))) p = tb_index (ts' (nk_type d))"
    unfolding added_def by (intro removed_noop[OF ok W live, of "nk_type d" "nk_id d"]) simp_all
qed

lemma writtenTables_exact:
  assumes ok: "databaseOk R ts" and W: "writesFit R ts touched created removed"
    and live: "\<forall>r \<in> set touched. liveRow ts (tr_dbName r) (tr_id r) \<noteq> None"
  defines "ws \<equiv> writesTo (transactionChanges touched created removed)"
  shows "liveRow (writtenTables R touched created removed ts) n i = rowAfter touched created removed ts n i \<and>
    tb_version (writtenTables R touched created removed ts n) i = versionAfter touched created ts n i \<and>
    secondary (tb_index (writtenTables R touched created removed ts n)) = secondary (prepareIndexes R (tb_index (ts n)) (ws n))"
proof -
  have eq: "writtenTables R touched created removed ts = applyDeletedNodes R removed (addedTables R touched created removed ts)"
    by (simp add: writtenTables_def addedTables_def)
  show ?thesis
    unfolding eq ws_def using applyDeleted_exact[OF ok W live, of n i] addedTables_exact[OF ok W live]
    by (simp add: rowAfter_def)
qed

lemma rows_written_after:
  assumes ok: "databaseOk R ts" and W: "writesFit R ts touched created removed"
  shows "rows_written R (tb_index (ts n)) (writesTo (transactionChanges touched created removed) n) R
    (rowAfter touched created removed ts n)"
proof -
  note K = writesFit_keys[OF W]
  let ?ws = "writesTo (transactionChanges touched created removed) n" and ?after = "rowAfter touched created removed ts n"
  have tab: "table_ok R (tb_index (ts n))" using ok by (simp add: databaseOk_def)
  have ids: "GetId R p = i" if "?after i = Some p" for i p
    using that tab W find_key_Some[of n i touched]
    by (auto simp: rowAfter_def writesFit_def rowFits_def liveRow_def table_ok_def split: if_splits option.splits dest!: map_of_SomeD)
  have gone: "?after (pw_id it) = None" if "it \<in> set ?ws" "\<not> written it" for it
    using that unfolding writes_set[OF W] by (auto simp: written_def rowAfter_def)
  have wrote: "?after (pw_id it) = Some (the (work it))" if it: "it \<in> set ?ws" "written it" for it
    using it unfolding writes_set[OF W]
  proof (elim disjE bexE conjE)
    fix r assume "r \<in> set touched" "tr_dbName r = n" "it = \<lparr>pw_id = tr_id r, work = Some (tr_work r), deleted = False\<rparr>"
    then show ?thesis using K(4)[of r] find_key_distinct[OF K(1), of r] by (auto simp: rowAfter_def)
  next
    fix c assume c: "c \<in> set created" "nk_type (fst c) = n" "it = \<lparr>pw_id = nk_id (fst c), work = Some (snd c), deleted = False\<rparr>"
    then have "map_of created (fst c) = Some (snd c)" using map_of_is_SomeI[OF K(2), of "fst c" "snd c"] by simp
    moreover have "fst c = NodeKey n (nk_id (fst c))" using c(2) by (metis nodeKey.collapse)
    ultimately show ?thesis using c K(5)[of c] by (simp add: rowAfter_def)
  qed (simp add: written_def)
  have kept: "?after i = resById (tb_index (ts n)) i" if i: "i \<notin> pw_id ` set ?ws" for i
  proof -
    have ids: "pw_id ` set ?ws = nk_id ` set (filter (\<lambda>k. nk_type k = n) (writtenKeys touched created removed))"
      unfolding set_map[symmetric] writes_ids[OF W] ..
    have "NodeKey n i \<notin> set (writtenKeys touched created removed)" using i unfolding ids by force
    then have "NodeKey n i \<notin> set removed" "map_of created (NodeKey n i) = None" "find (\<lambda>r. txKey r = (n, i)) touched = None"
      by (auto simp: writtenKeys_def map_of_eq_None_iff find_None_iff txKey_def)
    then show ?thesis by (simp add: rowAfter_def liveRow_def)
  qed
  show ?thesis
    unfolding rows_written_def using ids gone wrote kept by auto
qed

lemma commitChanges_exact:
  assumes ok: "databaseOk R ts" and W: "writesFit R ts touched created removed"
    and live: "\<forall>r \<in> set touched. liveRow ts (tr_dbName r) (tr_id r) \<noteq> None"
    and v: "validateTransactionIndexes R ts (transactionChanges touched created removed) = Inr ()"
  defines "ts' \<equiv> commitChanges R (transactionChanges touched created removed) touched created removed ts"
  shows "databaseOk R ts'" and "liveRow ts' n i = rowAfter touched created removed ts n i"
    and "tb_version (ts' n) i = versionAfter touched created ts n i"
proof -
  let ?mid = "writtenTables R touched created removed ts" and ?ws = "writesTo (transactionChanges touched created removed)"
  have eq: "ts' = finishTransactionIndexes R (transactionChanges touched created removed) ?mid"
    by (simp add: ts'_def commitChanges_def writtenTables_def Let_def)
  note M = writtenTables_exact[OF ok W live]
  have mid: "tb_index (?mid m) = (prepareIndexes R (tb_index (ts m)) (?ws m))\<lparr>resById := rowAfter touched created removed ts m\<rparr>" for m
  proof (rule indexedTable.equality)
    show "resById (tb_index (?mid m)) = resById ((prepareIndexes R (tb_index (ts m)) (?ws m))\<lparr>resById := rowAfter touched created removed ts m\<rparr>)"
      using M[of m] by (simp add: fun_eq_iff liveRow_def)
  qed (use M[of m] in simp_all)
  have tab: "table_ok R (tb_index (ts m))" for m using ok by (simp add: databaseOk_def)
  have fin: "tb_index (ts' m) = finishIndexes R (tb_index (?mid m)) (?ws m)" for m
    by (simp add: eq finished_table)
  have "table_ok R (tb_index (ts' m))" for m
    unfolding fin mid by (rule commit_indexes[OF tab writes_items_ok[OF W] validate_tables[OF v] rows_written_after[OF ok W]])
  then show "databaseOk R ts'" by (simp add: databaseOk_def)
  show "liveRow ts' n i = rowAfter touched created removed ts n i"
    by (simp add: liveRow_def fin finish_keeps_rows) (simp add: mid)
  show "tb_version (ts' n) i = versionAfter touched created ts n i"
    using M[of n i] by (simp add: eq finished_table)
qed

section \<open>Every path of a commit\<close>

lemma commitSingleWrite_cases:
  assumes "commitSingleWrite encR out db tx r = ((db', tx'), res)"
  shows "case res of
      Inl e \<Rightarrow> db_tables db' = db_tables db
    | Inr u \<Rightarrow> \<not> staleResource (db_tables db) r \<and> db_tables db' = applyWrite (db_tables db) r"
  using assms by (auto simp: commitSingleWrite_def Let_def split: if_splits sum.splits)

lemma commitPlain_cases:
  assumes "commitPlain R encR out db tx touched = ((db', tx'), res)"
  defines "ts \<equiv> db_tables db" and "changes \<equiv> transactionChanges touched (tx_creates tx) (map fst (tx_deletes tx))"
  shows "case res of
      Inl e \<Rightarrow> db_tables db' = ts
    | Inr u \<Rightarrow>
        (\<forall>r \<in> set touched. \<not> staleResource ts r) \<and> (\<forall>c \<in> set (tx_creates tx). liveRow ts (nk_type (fst c)) (nk_id (fst c)) = None) \<and>
        ((\<exists>r. touched = [r] \<and> tx_creates tx = [] \<and> tx_deletes tx = [] \<and> secondary (tb_index (ts (tr_dbName r))) = [] \<and>
            db_tables db' = applyWrite ts r) \<or>
         (validateTransactionIndexes R ts changes = Inr () \<and>
          db_tables db' = commitChanges R changes touched (tx_creates tx) (map fst (tx_deletes tx)) ts))"
proof (cases "tx_creates tx = [] \<and> tx_deletes tx = [] \<and> length touched = 1 \<and> secondary (tb_index (ts (tr_dbName (hd touched)))) = []")
  case True
  then obtain r where r: "touched = [r]" by (metis One_nat_def length_0_conv length_Suc_conv)
  have "commitSingleWrite encR out db tx r = ((db', tx'), res)"
    using assms(1) True by (simp add: commitPlain_def ts_def r)
  from commitSingleWrite_cases[OF this] show ?thesis using True by (auto simp: r ts_def split: sum.splits)
next
  case False
  note rest = assms(1)[unfolded commitPlain_def Let_def, folded ts_def, folded changes_def, unfolded if_not_P[OF False]]
  have same: "ts = db_tables db" by (simp add: ts_def)
  show ?thesis
  proof (cases "(\<exists>c \<in> set (tx_creates tx). resourceVersion ts (nk_type (fst c)) (nk_id (fst c)) \<noteq> None) \<or>
      (\<exists>r \<in> set touched. staleResource ts r) \<or> (\<exists>d \<in> set (tx_deletes tx). staleDelete ts (tx_creates tx) d)")
    case True
    then have "db' = db \<and> (\<exists>e. res = Inl e)" using rest by (auto split: if_splits)
    then show ?thesis by (auto simp: ts_def)
  next
    case False
    then have no: "\<not> (\<exists>c \<in> set (tx_creates tx). resourceVersion ts (nk_type (fst c)) (nk_id (fst c)) \<noteq> None)"
      "\<not> (\<exists>r \<in> set touched. staleResource ts r)" "\<not> (\<exists>d \<in> set (tx_deletes tx). staleDelete ts (tx_creates tx) d)"
      by blast+
    then have fresh: "\<forall>c \<in> set (tx_creates tx). liveRow ts (nk_type (fst c)) (nk_id (fst c)) = None"
      by (auto simp: resourceVersion_def split: option.splits)
    show ?thesis
      using rest[unfolded if_not_P[OF no(1)] if_not_P[OF no(2)] if_not_P[OF no(3)]] no(2) fresh
      by (auto simp: same split: sum.splits)
  qed
qed

lemma single_exact:
  assumes ok: "databaseOk R ts" and fit: "rowFits R ts (tr_dbName r) (tr_id r) (tr_work r)"
    and s: "secondary (tb_index (ts (tr_dbName r))) = []" and live: "liveRow ts (tr_dbName r) (tr_id r) \<noteq> None"
  shows "databaseOk R (applyWrite ts r)" and "liveRow (applyWrite ts r) n i = rowAfter [r] [] [] ts n i"
    and "tb_version (applyWrite ts r n) i = versionAfter [r] [] ts n i"
proof -
  show row: "liveRow (applyWrite ts r) n i = rowAfter [r] [] [] ts n i" for n i
    using live by (auto simp: applyWrite_simps rowAfter_def txKey_def)
  show "tb_version (applyWrite ts r n) i = versionAfter [r] [] ts n i"
    using live by (auto simp: applyWrite_simps versionAfter_def txKey_def)
  have "table_ok R (tb_index (applyWrite ts r m))" for m
  proof (cases "m = tr_dbName r")
    case True
    have "GetId R p = i" if "resById (tb_index (applyWrite ts r m)) i = Some p" for i p
      using row[of m i] that ok fit
      by (auto simp: liveRow_def rowAfter_def rowFits_def databaseOk_def table_ok_def txKey_def split: if_splits)
    then show ?thesis using s by (simp add: table_ok_def applyWrite_simps True)
  next
    case False
    then have "applyWrite ts r m = ts m" by (simp add: applyWrite_def setRow_def split: option.split)
    then show ?thesis using ok by (simp add: databaseOk_def)
  qed
  then show "databaseOk R (applyWrite ts r)" by (simp add: databaseOk_def)
qed

text \<open>The contract of a commit, on the rows a client can see.\<close>

definition commit_spec ::
  "'v reflection \<Rightarrow> 'v touchedResource list \<Rightarrow> (nodeKey \<times> 'v) list \<Rightarrow> nodeKey list \<Rightarrow> 'v tables \<Rightarrow> 'v tables \<Rightarrow> unit result \<Rightarrow> bool" where
  "commit_spec R touched created removed ts ts' res \<longleftrightarrow>
     (case res of
        Inl e \<Rightarrow> ts' = ts
      | Inr u \<Rightarrow>
          (\<forall>r \<in> set touched. resourceVersion ts (tr_dbName r) (tr_id r) = Some (tr_ver r)) \<and>
          (\<forall>c \<in> set created. liveRow ts (nk_type (fst c)) (nk_id (fst c)) = None) \<and>
          databaseOk R ts' \<and>
          (\<forall>n i. liveRow ts' n i = rowAfter touched created removed ts n i \<and>
                 tb_version (ts' n) i = versionAfter touched created ts n i))"

lemma commit_meets_spec:
  assumes ok: "databaseOk R (db_tables db)"
    and W: "writesFit R (db_tables db) (changedResources (copyResources tx)) (tx_creates tx) (map fst (tx_deletes tx))"
    and step: "commit R encR out db tx = ((db', tx'), res)"
  shows "commit_spec R (changedResources (copyResources tx)) (tx_creates tx) (map fst (tx_deletes tx)) (db_tables db) (db_tables db') res"
proof -
  let ?ts = "db_tables db" and ?touched = "changedResources (copyResources tx)"
    and ?changes = "transactionChanges (changedResources (copyResources tx)) (tx_creates tx) (map fst (tx_deletes tx))"
  consider (plain) "commitPlain R encR out db tx ?touched = ((db', tx'), res)"
    | (empty) "res = Inr ()" "db' = db" "?touched = []" "tx_creates tx = []" "tx_deletes tx = []"
    | (refused) e where "res = Inl e" "db' = db"
    using step by (auto simp: commit_def Let_def split: if_splits)
  then show ?thesis
  proof cases
    case plain
    note C = commitPlain_cases[OF plain]
    show ?thesis
    proof (cases res)
      case (Inr u)
      from C[unfolded Inr, simplified] have live: "\<forall>r \<in> set ?touched. resourceVersion ?ts (tr_dbName r) (tr_id r) = Some (tr_ver r)"
        and fresh: "\<forall>c \<in> set (tx_creates tx). liveRow ?ts (nk_type (fst c)) (nk_id (fst c)) = None"
        by (auto simp: staleResource_def)
      have live': "\<forall>r \<in> set ?touched. liveRow ?ts (tr_dbName r) (tr_id r) \<noteq> None"
        using live by (fastforce simp: resourceVersion_def split: option.splits)
      consider (single) r where "?touched = [r]" "tx_creates tx = []" "tx_deletes tx = []"
          "secondary (tb_index (?ts (tr_dbName r))) = []" "db_tables db' = applyWrite ?ts r"
        | (all) "validateTransactionIndexes R ?ts ?changes = Inr ()"
          "db_tables db' = commitChanges R ?changes ?touched (tx_creates tx) (map fst (tx_deletes tx)) ?ts"
        using C[unfolded Inr] by auto
      then show ?thesis
      proof cases
        case single
        then have "rowFits R ?ts (tr_dbName r) (tr_id r) (tr_work r)" "liveRow ?ts (tr_dbName r) (tr_id r) \<noteq> None"
          using W live' by (auto simp: writesFit_def)
        from single_exact[OF ok this(1) single(4) this(2)] show ?thesis
          using live by (simp add: commit_spec_def Inr single)
      next
        case all
        from commitChanges_exact[OF ok W live' all(1)] show ?thesis
          using live fresh by (simp add: commit_spec_def Inr all(2))
      qed
    qed (use C in \<open>simp add: commit_spec_def\<close>)
  next
    case empty
    then show ?thesis using ok by (simp add: commit_spec_def rowAfter_def versionAfter_def)
  qed (simp add: commit_spec_def)
qed

end
