(* ===== verification/Commit_Conflicts.thy ===== *)
theory Commit_Conflicts
  imports Transaction_Commit
begin

text \<open>
  What the version check of \<open>commit\<close> is for: a transaction that changes a row it has read commits
  only when the row is still as it was read. It rests on every write raising the version of its
  row, which holds until a deleted id is created again. The last section applies the theorems to
  a table with one unique index.
\<close>

section \<open>A history of commits\<close>

definition runTransactions ::
  "'v reflection \<Rightarrow> (bytes \<Rightarrow> 'v \<Rightarrow> bytes result) \<Rightarrow> 'v database \<Rightarrow> ('v transactionState \<times> write_outcome) list \<Rightarrow> 'v database" where
  "runTransactions R encR db txs = foldl (\<lambda>db t. fst (fst (commit R encR (snd t) db (fst t)))) db txs"

text \<open>How a row may move while nobody creates its id.\<close>

definition moves :: "string \<Rightarrow> int \<Rightarrow> 'v tables \<Rightarrow> 'v tables \<Rightarrow> bool" where
  "moves n i ts ts' \<longleftrightarrow>
     (liveRow ts n i = None \<longrightarrow> liveRow ts' n i = None) \<and> tb_version (ts n) i \<le> tb_version (ts' n) i \<and>
     (liveRow ts' n i \<noteq> None \<longrightarrow> tb_version (ts' n) i = tb_version (ts n) i \<longrightarrow> liveRow ts' n i = liveRow ts n i)"

lemma moves_refl [simp]: "moves n i ts ts"
  by (simp add: moves_def)

lemma moves_trans:
  assumes a: "moves n i ts ts'" and b: "moves n i ts' ts''"
  shows "moves n i ts ts''"
  unfolding moves_def
proof (intro conjI impI)
  show "liveRow ts'' n i = None" if "liveRow ts n i = None" using that a b by (simp add: moves_def)
  show "tb_version (ts n) i \<le> tb_version (ts'' n) i" using a b by (simp add: moves_def)
  assume live: "liveRow ts'' n i \<noteq> None" and ver: "tb_version (ts'' n) i = tb_version (ts n) i"
  then have "tb_version (ts' n) i = tb_version (ts n) i" "tb_version (ts'' n) i = tb_version (ts' n) i"
    using a b by (simp_all add: moves_def)
  moreover have "liveRow ts' n i \<noteq> None" using live b by (auto simp: moves_def)
  ultimately show "liveRow ts'' n i = liveRow ts n i" using a b live by (simp add: moves_def)
qed

lemma moves_fold: "(\<And>x ts. x \<in> set xs \<Longrightarrow> moves n i ts (f ts x)) \<Longrightarrow> moves n i ts (foldl f ts xs)"
proof (induction xs arbitrary: ts)
  case (Cons x xs)
  have "moves n i ts (f ts x)" "moves n i (f ts x) (foldl f (f ts x) xs)" using Cons by simp_all
  then show ?case by (simp add: moves_trans)
qed simp

text \<open>An index pass leaves rows and versions alone.\<close>

lemma moves_mapTable:
  assumes "\<And>t. resById (f t) = resById t"
  shows "moves n i ts (mapTable f m ts)"
  by (simp add: moves_def mapTable_def liveRow_def assms)

lemma remove_keeps_rows: "resById (removeSecondaryIndices R t p) = resById t"
  by (simp add: removeSecondaryIndices_def)

lemma prepareIndexes_rows: "resById (prepareIndexes R t ws) = resById t"
proof -
  have a: "resById (foldl (\<lambda>db p. mapIndexes (\<lambda>index. removeLookup R index p) db) t ps) = resById t" for ps
    by (induction ps arbitrary: t) auto
  have b: "resById (foldl (removeSecondaryIndices R) t ps) = resById t" for ps
    by (induction ps arbitrary: t) (auto simp: remove_keeps_rows)
  show ?thesis by (simp add: prepareIndexes_def prepareIndexBatch_def Let_def a b)
qed

lemma moves_applyWrite: "moves n i ts (applyWrite ts r)"
  by (auto simp: moves_def applyWrite_simps)

lemma moves_create: "\<not> (nk_type (fst c) = n \<and> GetId R (snd c) = i) \<Longrightarrow> moves n i ts (relationApplyCreate R ts c)"
  by (auto simp: moves_def relationApplyCreate_def)

lemma moves_delete: "moves n i ts (deleteNode R ts d)"
proof (cases "liveRow ts (nk_type d) (nk_id d)")
  case (Some p)
  let ?ts = "mapTable (\<lambda>t. removeSecondaryIndices R t p) (nk_type d) ts"
  have "moves n i ts ?ts" by (rule moves_mapTable) (rule remove_keeps_rows)
  moreover have "tb_version (?ts m) j = tb_version (ts m) j" for m j by (simp add: mapTable_def)
  then have "moves n i ?ts (setRow (nk_type d) (nk_id d) None (tb_version (ts (nk_type d)) (nk_id d)) ?ts)"
    by (auto simp: moves_def)
  ultimately show ?thesis by (auto simp: deleteNode_def Some intro: moves_trans)
qed (simp add: deleteNode_def)

lemma moves_commitChanges:
  assumes "\<forall>c \<in> set created. \<not> (nk_type (fst c) = n \<and> GetId R (snd c) = i)"
  shows "moves n i ts (commitChanges R changes touched created removed ts)"
proof -
  define prepared where "prepared = prepareTransactionIndexes R changes ts"
  define written where "written = foldl applyWrite prepared touched"
  define added where "added = foldl (relationApplyCreate R) written created"
  define gone where "gone = applyDeletedNodes R removed added"
  have "moves n i ts prepared"
    unfolding prepared_def prepareTransactionIndexes_def by (intro moves_fold moves_mapTable prepareIndexes_rows)
  moreover have "moves n i prepared written" unfolding written_def by (intro moves_fold moves_applyWrite)
  moreover have "moves n i written added" unfolding added_def using assms by (intro moves_fold moves_create) auto
  moreover have "moves n i added gone" unfolding gone_def applyDeletedNodes_def by (intro moves_fold moves_delete)
  moreover have "moves n i gone (finishTransactionIndexes R changes gone)"
    unfolding finishTransactionIndexes_def by (intro moves_fold moves_mapTable finish_keeps_rows)
  ultimately show ?thesis
    unfolding commitChanges_def Let_def prepared_def written_def added_def gone_def by (meson moves_trans)
qed

lemma moves_commit:
  assumes "\<forall>c \<in> set (tx_creates tx). \<not> (nk_type (fst c) = n \<and> GetId R (snd c) = i)"
  shows "moves n i (db_tables db) (db_tables (fst (fst (commit R encR out db tx))))"
proof -
  obtain db' tx' res where step: "commit R encR out db tx = ((db', tx'), res)" by (metis prod.collapse)
  consider (plain) "commitPlain R encR out db tx (changedResources (copyResources tx)) = ((db', tx'), res)" | (same) "db' = db"
    using step by (auto simp: commit_def Let_def split: if_splits)
  then have "moves n i (db_tables db) (db_tables db')"
  proof cases
    case plain
    from commitPlain_cases[OF plain] show ?thesis
      using moves_commitChanges[OF assms] moves_applyWrite by (auto split: sum.splits)
  qed simp
  then show ?thesis by (simp add: step)
qed

lemma moves_run:
  assumes "\<forall>t \<in> set txs. \<forall>c \<in> set (tx_creates (fst t)). \<not> (nk_type (fst c) = n \<and> GetId R (snd c) = i)"
  shows "moves n i (db_tables db) (db_tables (runTransactions R encR db txs))"
  using assms
proof (induction txs arbitrary: db)
  case (Cons t txs)
  let ?db = "fst (fst (commit R encR (snd t) db (fst t)))"
  have "moves n i (db_tables db) (db_tables ?db)" using Cons.prems by (intro moves_commit) simp
  moreover have "moves n i (db_tables ?db) (db_tables (runTransactions R encR ?db txs))" using Cons by simp
  ultimately show ?case by (simp add: runTransactions_def moves_trans)
qed (simp add: runTransactions_def)

lemma committed_resources_current:
  assumes "commit R encR out db tx = ((db', tx'), Inr ())" and "r \<in> set (changedResources (copyResources tx))"
  shows "resourceVersion (db_tables db) (tr_dbName r) (tr_id r) = Some (tr_ver r)"
proof -
  have "commitPlain R encR out db tx (changedResources (copyResources tx)) = ((db', tx'), Inr ())"
    using assms by (auto simp: commit_def Let_def split: if_splits)
  from commitPlain_cases[OF this] show ?thesis using assms(2) by (auto simp: staleResource_def)
qed

section \<open>A table of people\<close>

text \<open>
  Two rows, each an id with an email address, under the unique index of \<open>demoSpec\<close>, and a table
  of notes without an index.
\<close>

type_synonym person = "int \<times> bytes"

definition personR :: "person reflection" where
  "personR = \<lparr>Field = (\<lambda>p _. KeyString (snd p)), GetId = fst\<rparr>"

definition emailIndex :: "person list \<Rightarrow> person secondaryIndex" where
  "emailIndex ps = foldl (addBoth personR) (newSecondaryIndex demoSpec) ps"

definition people :: "person tables" where
  "people n =
     (if n = ''Person'' then
        \<lparr>tb_index = \<lparr>secondary = [(''Email'', emailIndex [(1, [1]), (2, [2])])], resById = [1 \<mapsto> (1, [1]), 2 \<mapsto> (2, [2])]\<rparr>,
         tb_version = (\<lambda>_. 0)\<rparr>
      else if n = ''Note'' then
        \<lparr>tb_index = \<lparr>secondary = [], resById = [5 \<mapsto> (5, [5]), 6 \<mapsto> (6, [6])]\<rparr>, tb_version = (\<lambda>_. 0)\<rparr>
      else \<lparr>tb_index = \<lparr>secondary = [], resById = Map.empty\<rparr>, tb_version = (\<lambda>_. 0)\<rparr>)"

definition peopleDb :: "person database" where
  "peopleDb = \<lparr>db_tables = people, db_durable = emptyLogs\<rparr>"

definition encodePerson :: "bytes \<Rightarrow> person \<Rightarrow> bytes result" where
  "encodePerson n p = Inr (snd p)"

definition personCopy :: "int \<Rightarrow> int \<Rightarrow> bytes \<Rightarrow> bytes \<Rightarrow> person touchedResource" where
  "personCopy i ver old new = \<lparr>tr_dbName = ''Person'', tr_id = i, tr_ver = ver, tr_work = (i, new), tr_original = (i, old)\<rparr>"

text \<open>Move row 1 to a new address, create row 3 under the old one, and delete row 2.\<close>

definition movingTx :: "person transactionState" where
  "movingTx = begin_tx\<lparr>tx_resource := Some (personCopy 1 0 [1] [9]), tx_creates := [(NodeKey ''Person'' 3, (3, [1]))],
     tx_deletes := [(NodeKey ''Person'' 2, 0)]\<rparr>"

lemma person_values [simp]:
  "rowValues personR demoSpec p = [KeyString (snd p)]" "row_typed personR demoSpec p \<longleftrightarrow> length (snd p) < 9223372036854775808"
  "GetId personR p = fst p"
  by (simp_all add: rowValues_def demoSpec_def personR_def row_typed_def values_typed_def key_fits_def)

lemma email_index_ok:
  assumes "distinct (map fst ps)" "distinct (map snd ps)" "\<forall>p \<in> set ps. fst p \<noteq> 0 \<and> length (snd p) = 1"
  shows "index_ok personR (set ps) (emailIndex ps)"
proof -
  have "index_ok personR {} (newSecondaryIndex demoSpec)"
    using newSecondaryIndex_lookups[of demoSpec personR "[]"]
    by (simp add: index_ok_def rows_ok_def entries_ok_def) (simp add: newSecondaryIndex_def)
  then have "index_ok personR ({} \<union> set ps) (foldl (addBoth personR) (newSecondaryIndex demoSpec) ps)"
    using assms by (intro added_ok) (auto simp: rows_ok_def distinct_map inj_on_def)
  then show ?thesis by (simp add: emailIndex_def)
qed

lemma email_spec [simp]: "spec (emailIndex ps) = demoSpec"
  by (simp add: emailIndex_def)

lemma people_ok: "databaseOk personR people"
proof -
  have "ran [1 :: int \<mapsto> (1, [1]), 2 \<mapsto> (2, [2])] = set [(1 :: int, [1 :: byte]), (2, [2])]"
    by (simp add: ran_map_upd insert_commute)
  then show ?thesis
    using email_index_ok[of "[(1, [1]), (2, [2])]"] by (auto simp: databaseOk_def table_ok_def people_def split: if_splits)
qed

lemma moving_fits:
  "writesFit personR people (changedResources (copyResources movingTx)) (tx_creates movingTx) (map fst (tx_deletes movingTx))"
  by (simp add: writesFit_def writtenKeys_def changedResources_filter copyResources_def movingTx_def personCopy_def
      begin_tx_def rowFits_def people_def)

section \<open>Properties\<close>



lemma logged_row: "snd (logWrites (encodePerson n) Written f [\<lparr>pw_id = i, work = Some (i', [x]), deleted = False\<rparr>]) = Inr ()"
  by (simp add: logWrites_def encodeWrites_def encodeWrite_def encodePerson_def appendFrame_def encodeWALFrame_def
      frameSize_def max_uint32_def)

lemma logged_delete: "snd (logWrites (encodePerson n) Written f [\<lparr>pw_id = i, work = None, deleted = True\<rparr>]) = Inr ()"
  by (simp add: logWrites_def encodeWrites_def encodeWrite_def appendFrame_def encodeWALFrame_def frameSize_def max_uint32_def)

definition noteTx :: "int \<Rightarrow> int \<Rightarrow> byte \<Rightarrow> byte \<Rightarrow> person transactionState" where
  "noteTx i ver old new = begin_tx\<lparr>tx_resource :=
     Some \<lparr>tr_dbName = ''Note'', tr_id = i, tr_ver = ver, tr_work = (i, [new]), tr_original = (i, [old])\<rparr>\<rparr>"

lemma noteTx_simps:
  "copyResources (noteTx i ver old new) = [\<lparr>tr_dbName = ''Note'', tr_id = i, tr_ver = ver, tr_work = (i, [new]), tr_original = (i, [old])\<rparr>]"
  "tx_active (noteTx i ver old new)" "tx_creates (noteTx i ver old new) = []" "tx_deletes (noteTx i ver old new) = []"
  by (simp_all add: noteTx_def begin_tx_def copyResources_def)

lemma noteTx_commits:
  assumes "old \<noteq> new" "secondary (tb_index (db_tables db ''Note'')) = []" "resourceVersion (db_tables db) ''Note'' i = Some ver"
  defines "r \<equiv> \<lparr>tr_dbName = ''Note'', tr_id = i, tr_ver = ver, tr_work = (i, [new]), tr_original = (i, [old])\<rparr>"
  shows "\<exists>db'. commit personR encodePerson Written db (noteTx i ver old new) = ((db', evict_tx (noteTx i ver old new)), Inr ()) \<and>
    db_tables db' = applyWrite (db_tables db) r"
proof -
  have changed: "changedResources [r] = [r]" using assms(1) by (simp add: changedResources_filter r_def)
  have step: "commit personR encodePerson Written db (noteTx i ver old new) =
      commitSingleWrite encodePerson Written db (noteTx i ver old new) r"
    unfolding commit_def noteTx_simps(1) r_def[symmetric] changed Let_def
    using assms(2) by (simp add: noteTx_simps keepsPrimaryKeys_def r_def commitPlain_def)
  show ?thesis
    unfolding step commitSingleWrite_def Let_def
    using assms(3) by (simp add: staleResource_def logged_row r_def split: sum.split)
qed

definition dropNote :: "person transactionState" where
  "dropNote = begin_tx\<lparr>tx_deletes := [(NodeKey ''Note'' 5, 0)]\<rparr>"

definition makeNote :: "person transactionState" where
  "makeNote = begin_tx\<lparr>tx_creates := [(NodeKey ''Note'' 5, (5, [8]))]\<rparr>"

lemma one_table_log:
  "logTransactionChanges encR out d [(n, items)] =
     (d\<lparr>walFiles := (walFiles d)(n := fst (logWrites (encR n) out (walFiles d n) items))\<rparr>, snd (logWrites (encR n) out (walFiles d n) items))"
  by (simp add: logTransactionChanges_def Let_def)

lemma no_index:
  "secondary t = [] \<Longrightarrow> prepareIndexes R t ws = t" "secondary t = [] \<Longrightarrow> finishIndexes R t ws = t"
  "secondary t = [] \<Longrightarrow> removeSecondaryIndices R t p = t" "secondary t = [] \<Longrightarrow> validateIndexes R t ws = Inr ()"
  by (simp_all add: prepareIndexes_def finishIndexes_def removeSecondaryIndices_def mapIndexes_def validateIndexes_def)

lemma dropNote_commits:
  assumes "secondary (tb_index (db_tables db ''Note'')) = []" "liveRow (db_tables db) ''Note'' 5 = Some p" "tb_version (db_tables db ''Note'') 5 = 0"
  shows "\<exists>d. commit personR encodePerson Written db dropNote =
    ((\<lparr>db_tables = setRow ''Note'' 5 None 0 (db_tables db), db_durable = d\<rparr>, evict_tx dropNote), Inr ())"
proof -
  have changes: "transactionChanges [] [] [NodeKey ''Note'' 5] = [(''Note'', [\<lparr>pw_id = 5, work = None, deleted = True\<rparr> :: person pendingWrite])]"
    by (simp add: transactionChanges_def addWrite_def)
  have tables: "commitChanges personR [(''Note'', [\<lparr>pw_id = 5, work = None, deleted = True\<rparr>])] [] [] [NodeKey ''Note'' 5] (db_tables db) =
      setRow ''Note'' 5 None 0 (db_tables db)"
    using assms by (simp add: commitChanges_def prepareTransactionIndexes_def finishTransactionIndexes_def mapTable_def
        applyDeletedNodes_def deleteNode_def no_index)
  show ?thesis
    using assms by (simp add: commit_def dropNote_def begin_tx_def copyResources_def changedResources_def keepsPrimaryKeys_def commitPlain_def
        staleDelete_def resourceVersion_def changes validateTransactionIndexes_def no_index one_table_log logged_delete tables)
qed

lemma makeNote_commits:
  assumes "secondary (tb_index (db_tables db ''Note'')) = []" "liveRow (db_tables db) ''Note'' 5 = None"
  shows "\<exists>d. commit personR encodePerson Written db makeNote =
    ((\<lparr>db_tables = setRow ''Note'' 5 (Some (5, [8])) 0 (db_tables db), db_durable = d\<rparr>, evict_tx makeNote), Inr ())"
proof -
  have changes: "transactionChanges [] [(NodeKey ''Note'' 5, (5, [8]))] [] =
      [(''Note'', [\<lparr>pw_id = 5, work = Some (5, [8]), deleted = False\<rparr> :: person pendingWrite])]"
    by (simp add: transactionChanges_def addWrite_def)
  have tables: "commitChanges personR [(''Note'', [\<lparr>pw_id = 5, work = Some (5, [8]), deleted = False\<rparr>])] []
      [(NodeKey ''Note'' 5, (5, [8]))] [] (db_tables db) = setRow ''Note'' 5 (Some (5, [8])) 0 (db_tables db)"
    using assms by (simp add: commitChanges_def prepareTransactionIndexes_def finishTransactionIndexes_def mapTable_def
        applyDeletedNodes_def relationApplyCreate_def no_index)
  show ?thesis
    using assms by (simp add: commit_def makeNote_def begin_tx_def copyResources_def changedResources_def keepsPrimaryKeys_def commitPlain_def
        resourceVersion_def changes validateTransactionIndexes_def no_index one_table_log logged_row tables)
qed

lemma peopleDb_notes:
  "secondary (tb_index (db_tables peopleDb ''Note'')) = []" "tb_version (db_tables peopleDb n) i = 0"
  "liveRow (db_tables peopleDb) ''Note'' 5 = Some (5, [5])" "liveRow (db_tables peopleDb) ''Note'' 6 = Some (6, [6])"
  by (simp_all add: peopleDb_def people_def liveRow_def)


text \<open>
  C29. The version check is not enough when an id is deleted and created again. The new row
  starts at version 0 like the first one, so that a transaction that read the first row commits
  over the second one and its content is lost without a conflict.
\<close>

theorem recreated_row_is_overwritten_by_a_stale_commit:
  "let db1 = runTransactions personR encodePerson peopleDb [(dropNote, Written), (makeNote, Written)];
       stale = noteTx 5 0 5 9 in
   snapshotTouchedResource (db_tables peopleDb) ''Note'' 5 =
     Inr ((hd (copyResources stale))\<lparr>tr_work := (5, [5])\<rparr>) \<and>
   liveRow (db_tables db1) ''Note'' 5 = Some (5, [8]) \<and>
   (\<exists>db2. commit personR encodePerson Written db1 stale = ((db2, evict_tx stale), Inr ()) \<and>
      liveRow (db_tables db2) ''Note'' 5 = Some (5, [9]))"
proof -
  let ?db1 = "runTransactions personR encodePerson peopleDb [(dropNote, Written), (makeNote, Written)]"
  obtain d where drop: "commit personR encodePerson Written peopleDb dropNote =
      ((\<lparr>db_tables = setRow ''Note'' 5 None 0 (db_tables peopleDb), db_durable = d\<rparr>, evict_tx dropNote), Inr ())"
    using dropNote_commits[of peopleDb] by (auto simp: peopleDb_notes)
  let ?db0 = "\<lparr>db_tables = setRow ''Note'' 5 None 0 (db_tables peopleDb), db_durable = d\<rparr>"
  obtain d' where make: "commit personR encodePerson Written ?db0 makeNote =
      ((\<lparr>db_tables = setRow ''Note'' 5 (Some (5, [8])) 0 (db_tables ?db0), db_durable = d'\<rparr>, evict_tx makeNote), Inr ())"
    using makeNote_commits[of ?db0] by (auto simp: peopleDb_notes)
  have db1: "db_tables ?db1 = setRow ''Note'' 5 (Some (5, [8])) 0 (setRow ''Note'' 5 None 0 (db_tables peopleDb))"
    by (simp add: runTransactions_def drop make)
  then have s: "secondary (tb_index (db_tables ?db1 ''Note'')) = []" "resourceVersion (db_tables ?db1) ''Note'' 5 = Some 0"
    by (simp_all add: peopleDb_notes resourceVersion_def)
  then obtain db2 where "commit personR encodePerson Written ?db1 (noteTx 5 0 5 9) = ((db2, evict_tx (noteTx 5 0 5 9)), Inr ())"
      "liveRow (db_tables db2) ''Note'' 5 = Some (5, [9])"
    using noteTx_commits[of 5 9 ?db1 5 0] by (auto simp: applyWrite_simps db1)
  then show ?thesis
    by (simp add: Let_def db1 noteTx_simps snapshotTouchedResource_def peopleDb_notes)
qed

definition renamedAndDeleted :: "person transactionState" where
  "renamedAndDeleted = begin_tx\<lparr>tx_resource := Some (personCopy 1 0 [1] [2]), tx_deletes := [(NodeKey ''Person'' 1, 0)]\<rparr>"

abbreviation emailType :: goType where
  "emailType \<equiv> \<lparr>Kind = StringKind, typeId = ''string''\<rparr>"

lemma personCopy_simps:
  "tr_dbName (personCopy i ver old new) = ''Person''" "tr_id (personCopy i ver old new) = i" "tr_ver (personCopy i ver old new) = ver"
  "tr_work (personCopy i ver old new) = (i, new)" "tr_original (personCopy i ver old new) = (i, old)"
  by (simp_all add: personCopy_def)

lemma renamedAndDeleted_simps:
  "copyResources renamedAndDeleted = [personCopy 1 0 [1] [2]]" "tx_active renamedAndDeleted = True"
  "tx_creates renamedAndDeleted = []" "tx_deletes renamedAndDeleted = [(NodeKey ''Person'' 1, 0)]"
  by (simp_all add: renamedAndDeleted_def begin_tx_def copyResources_def)

lemma people_person:
  "liveRow people ''Person'' 1 = Some (1, [1])" "tb_version (people n) i = 0" "secondary (tb_index (people ''Person'')) \<noteq> []"
  "db_tables peopleDb = people" "db_durable peopleDb = emptyLogs"
  by (simp_all add: people_def liveRow_def peopleDb_def)

lemma keys_simps:
  "stringKeys (removeEntry R index p) = stringKeys index" "stringKeys (insertEntry R index p) = stringKeys index"
  by (simp_all add: removeEntry_def insertEntry_def Let_def)

lemma email_lookup:
  assumes "spec index = demoSpec"
  shows "lookup index (Some (emailType, KeyString s)) = stringKeys index s"
    and "stringKeys (removeBoth personR index p) = (stringKeys index)(snd p := None)"
    and "stringKeys (addBoth personR index p) = (stringKeys index)(snd p \<mapsto> fst p)"
  using assms by (simp_all add: lookup_def demoSpec_def removeBoth_def addBoth_def removeLookup_def addLookup_def keys_simps
      deleteUnique_def setUnique_def firstValue_def personR_def)

lemma email_keys: "stringKeys (emailIndex [(1, [1]), (2, [2])]) = [[1] \<mapsto> 1, [2] \<mapsto> 2]"
  by (simp add: emailIndex_def email_lookup newSecondaryIndex_def)

text \<open>The table after the two index passes and the delete: the entry of row 2 goes with row 1.\<close>

lemma renamed_table:
  defines "ts \<equiv> commitChanges personR [(''Person'', [\<lparr>pw_id = 1, work = None, deleted = True\<rparr>])]
    [personCopy 1 0 [1] [2]] [] [NodeKey ''Person'' 1] people"
  shows "secondary (tb_index (ts ''Person'')) =
      [(''Email'', removeBoth personR (removeBoth personR (emailIndex [(1, [1]), (2, [2])]) (1, [1])) (1, [2]))]"
    and "liveRow ts ''Person'' 2 = Some (2, [2])"
  by (simp_all add: ts_def commitChanges_def prepareTransactionIndexes_def finishTransactionIndexes_def mapTable_def people_def
      prepareIndexes_def secondaryIndexBatchThreshold_def touchedRows_def map_filter_simps finishIndexes_def writtenRows_def
      applyWrite_def personCopy_def liveRow_def setRow_def applyDeletedNodes_def deleteNode_def removeSecondaryIndices_conv mapIndexes_def)

text \<open>
  Deleting a changed row can erase the index entry of another row. When a transaction has
  moved a row to a key that another live row owns and deletes the moved row too, validation skips the
  row because it is deleted, but \<open>relationDelete\<close> removes the lookup of the moved value. The commit
  succeeds, row 2 is live under its address, and no lookup finds it any more.
\<close>

theorem deleting_a_changed_row_breaks_the_index:
  "map (\<lambda>q. lookup (snd q) (Some (emailType, KeyString [2]))) (secondary (tb_index (people ''Person''))) = [Some 2] \<and>
   (\<exists>db'. commit personR encodePerson Written peopleDb renamedAndDeleted = ((db', evict_tx renamedAndDeleted), Inr ()) \<and>
      liveRow (db_tables db') ''Person'' 2 = Some (2, [2]) \<and>
      map (\<lambda>q. lookup (snd q) (Some (emailType, KeyString [2]))) (secondary (tb_index (db_tables db' ''Person''))) = [None])"
proof
  show "map (\<lambda>q. lookup (snd q) (Some (emailType, KeyString [2]))) (secondary (tb_index (people ''Person''))) = [Some 2]"
    by (simp add: people_def email_lookup email_keys)
  have changes: "transactionChanges [personCopy 1 0 [1] [2]] [] [NodeKey ''Person'' 1] =
      [(''Person'', [\<lparr>pw_id = 1, work = None, deleted = True\<rparr>])]"
    by (simp add: transactionChanges_def addWrite_def personCopy_def)
  have touched: "changedResources [personCopy 1 0 [1] [2]] = [personCopy 1 0 [1] [2]]"
    by (simp add: changedResources_filter personCopy_def)
  have valid: "validateTransactionIndexes personR people [(''Person'', [\<lparr>pw_id = 1, work = None, deleted = True\<rparr>])] = Inr ()"
    by (simp add: validateTransactionIndexes_def people_def validateIndexes_def validateItem_def bind_result_def)
  obtain d where "commit personR encodePerson Written peopleDb renamedAndDeleted =
      ((\<lparr>db_tables = commitChanges personR [(''Person'', [\<lparr>pw_id = 1, work = None, deleted = True\<rparr>])]
          [personCopy 1 0 [1] [2]] [] [NodeKey ''Person'' 1] people, db_durable = d\<rparr>, evict_tx renamedAndDeleted), Inr ())"
  proof
    show "commit personR encodePerson Written peopleDb renamedAndDeleted =
      ((\<lparr>db_tables = commitChanges personR [(''Person'', [\<lparr>pw_id = 1, work = None, deleted = True\<rparr>])]
          [personCopy 1 0 [1] [2]] [] [NodeKey ''Person'' 1] people,
         db_durable = emptyLogs\<lparr>walFiles := (walFiles emptyLogs)(nameBytes ''Person'' := fst (logWrites (encodePerson (nameBytes ''Person''))
           Written (walFiles emptyLogs (nameBytes ''Person'')) [\<lparr>pw_id = 1, work = None, deleted = True\<rparr>]))\<rparr>\<rparr>, evict_tx renamedAndDeleted), Inr ())"
      unfolding commit_def commitPlain_def Let_def renamedAndDeleted_simps touched
      by (simp add: keepsPrimaryKeys_def staleDelete_def staleResource_def resourceVersion_def personCopy_simps people_person
          changes one_table_log logged_delete valid)
  qed
  then show "\<exists>db'. commit personR encodePerson Written peopleDb renamedAndDeleted = ((db', evict_tx renamedAndDeleted), Inr ()) \<and>
      liveRow (db_tables db') ''Person'' 2 = Some (2, [2]) \<and>
      map (\<lambda>q. lookup (snd q) (Some (emailType, KeyString [2]))) (secondary (tb_index (db_tables db' ''Person''))) = [None]"
    by (simp add: renamed_table email_lookup)
qed

section \<open>A commit that succeeds\<close>

lemma moving_simps:
  "copyResources movingTx = [personCopy 1 0 [1] [9]]" "changedResources [personCopy 1 0 [1] [9]] = [personCopy 1 0 [1] [9]]"
  "tx_active movingTx" "tx_creates movingTx = [(NodeKey ''Person'' 3, (3, [1]))]" "tx_deletes movingTx = [(NodeKey ''Person'' 2, 0)]"
  by (simp_all add: movingTx_def begin_tx_def copyResources_def changedResources_filter personCopy_def)

definition movingWrites :: "person pendingWrite list" where
  "movingWrites = [\<lparr>pw_id = 1, work = Some (1, [9]), deleted = False\<rparr>, \<lparr>pw_id = 3, work = Some (3, [1]), deleted = False\<rparr>,
     \<lparr>pw_id = 2, work = None, deleted = True\<rparr>]"

lemma moving_changes:
  "transactionChanges [personCopy 1 0 [1] [9]] [(NodeKey ''Person'' 3, (3, [1]))] [NodeKey ''Person'' 2] = [(''Person'', movingWrites)]"
  by (simp add: transactionChanges_def addWrite_def personCopy_def movingWrites_def)

text \<open>Row 3 may take the address that row 1 gives up in the same commit.\<close>

lemma moving_valid: "validateTransactionIndexes personR people [(''Person'', movingWrites)] = Inr ()"
proof -
  have k: "table_ok personR (tb_index (people ''Person''))" using people_ok by (simp add: databaseOk_def)
  have "items_ok personR (tb_index (people ''Person'')) movingWrites"
    using writes_items_ok[OF moving_fits, of "''Person''"] by (simp add: moving_simps moving_changes writesTo_def)
  note V = validate_conv[OF k this]
  have "single_valued (rows_after personR demoSpec (tb_index (people ''Person'')) movingWrites)"
    by (auto simp: single_valued_def rows_after_def people_def movingWrites_def written_def split: if_splits)
  then have "validateIndexes personR (tb_index (people ''Person'')) movingWrites = Inr ()"
    unfolding V by (simp add: people_def)
  then show ?thesis by (simp add: validateTransactionIndexes_def)
qed

lemma moving_logged: "snd (logWrites (encodePerson n) Written f movingWrites) = Inr ()"
  by (simp add: movingWrites_def logWrites_def encodeWrites_def encodeWrite_def encodePerson_def appendFrame_def encodeWALFrame_def
      frameSize_def max_uint32_def)

lemma moving_commits: "snd (commit personR encodePerson Written peopleDb movingTx) = Inr ()"
proof -
  have "snd (logTransactionChanges encodePerson Written emptyLogs [(nameBytes ''Person'', movingWrites)]) = Inr ()"
    by (simp add: one_table_log moving_logged)
  moreover have "liveRow people ''Person'' 3 = None" "liveRow people ''Person'' 2 = Some (2, [2])"
    by (simp_all add: people_def liveRow_def)
  ultimately show ?thesis
    unfolding commit_def commitPlain_def Let_def moving_simps
    by (simp add: keepsPrimaryKeys_def staleDelete_def staleResource_def resourceVersion_def personCopy_simps people_person
          moving_simps(3) moving_changes moving_valid split: sum.split)
qed


section \<open>Indexes along a history\<close>

text \<open>The working set of each transaction fits the tables that it meets.\<close>

definition transactionsFit ::
  "'v reflection \<Rightarrow> (bytes \<Rightarrow> 'v \<Rightarrow> bytes result) \<Rightarrow> 'v database \<Rightarrow> ('v transactionState \<times> write_outcome) list \<Rightarrow> bool" where
  "transactionsFit R encR db txs \<longleftrightarrow>
     (\<forall>k < length txs.
        let tx = fst (txs ! k) in
        writesFit R (db_tables (runTransactions R encR db (take k txs)))
          (changedResources (copyResources tx)) (tx_creates tx) (map fst (tx_deletes tx)))"

lemma run_snoc: "runTransactions R encR db (txs @ [t]) = fst (fst (commit R encR (snd t) (runTransactions R encR db txs) (fst t)))"
  by (simp add: runTransactions_def)

lemma fit_snoc:
  "transactionsFit R encR db (txs @ [t]) \<longleftrightarrow> transactionsFit R encR db txs \<and>
     writesFit R (db_tables (runTransactions R encR db txs)) (changedResources (copyResources (fst t))) (tx_creates (fst t)) (map fst (tx_deletes (fst t)))"
  by (auto simp: transactionsFit_def nth_append less_Suc_eq Let_def)

lemma history_keeps_ok:
  "databaseOk R (db_tables db) \<Longrightarrow> transactionsFit R encR db txs \<Longrightarrow> databaseOk R (db_tables (runTransactions R encR db txs))"
proof (induction txs rule: rev_induct)
  case (snoc t txs)
  let ?db = "runTransactions R encR db txs"
  obtain db' tx' res where step: "commit R encR (snd t) ?db (fst t) = ((db', tx'), res)" by (metis prod.collapse)
  have ok: "databaseOk R (db_tables ?db)" using snoc by (simp add: fit_snoc)
  from commit_meets_spec[OF this _ step] snoc.prems(2) have "databaseOk R (db_tables db')"
    using ok by (auto simp: fit_snoc commit_spec_def split: sum.splits)
  then show ?case by (simp add: run_snoc step)
qed (simp add: runTransactions_def)

lemma databaseOk_index:
  assumes "databaseOk R ts" "q \<in> set (secondary (tb_index (ts n)))"
  shows "set (entries (snd q)) = {p. \<exists>i. liveRow ts n i = Some p}" "distinct (entries (snd q))"
    "sorted (map (sortKey R (spec (snd q))) (entries (snd q)))"
    "is_unique (spec (snd q)) \<Longrightarrow> values_typed (spec (snd q)) vs \<Longrightarrow>
       idOf (snd q) vs = Some i \<longleftrightarrow> (\<exists>p. liveRow ts n i = Some p \<and> rowValues R (spec (snd q)) p = vs)"
proof -
  have t: "table_ok R (tb_index (ts n))" using assms(1) by (simp add: databaseOk_def)
  then have ix: "index_ok R (ran (resById (tb_index (ts n)))) (snd q)" using assms(2) by (simp add: table_ok_def)
  then show "set (entries (snd q)) = {p. \<exists>i. liveRow ts n i = Some p}" "distinct (entries (snd q))"
    "sorted (map (sortKey R (spec (snd q))) (entries (snd q)))"
    by (simp_all add: index_ok_def entries_ok_def liveRow_def ran_def)
  assume "is_unique (spec (snd q))" "values_typed (spec (snd q)) vs"
  then have "idOf (snd q) vs = Some i \<longleftrightarrow> (\<exists>p \<in> ran (resById (tb_index (ts n))). rowValues R (spec (snd q)) p = vs \<and> GetId R p = i)"
    using ix by (simp add: index_ok_def lookups_ok_def)
  then show "idOf (snd q) vs = Some i \<longleftrightarrow> (\<exists>p. liveRow ts n i = Some p \<and> rowValues R (spec (snd q)) p = vs)"
    using t unfolding table_ok_def liveRow_def ran_def by blast
qed


lemma moving_history_fits:
  "transactionsFit personR encodePerson peopleDb [(noteTx 6 0 6 7, Written), (movingTx, Written)]"
proof -
  let ?r6 = "\<lparr>tr_dbName = ''Note'', tr_id = 6, tr_ver = 0, tr_work = (6, [7]), tr_original = (6, [6])\<rparr> :: person touchedResource"
  have "db_tables (runTransactions personR encodePerson peopleDb [(noteTx 6 0 6 7, Written)]) = applyWrite people ?r6"
    using noteTx_commits[of 6 7 peopleDb 6 0] by (auto simp: runTransactions_def peopleDb_notes resourceVersion_def people_person(4)[symmetric])
  then have "writesFit personR (db_tables (runTransactions personR encodePerson peopleDb [(noteTx 6 0 6 7, Written)]))
      (changedResources (copyResources movingTx)) (tx_creates movingTx) (map fst (tx_deletes movingTx))"
    using moving_fits by (simp add: writesFit_def rowFits_def applyWrite_simps)
  moreover have "writesFit personR people (changedResources (copyResources (noteTx 6 0 6 7))) [] []"
    by (simp add: writesFit_def writtenKeys_def noteTx_simps changedResources_filter rowFits_def people_def)
  ultimately show ?thesis
    using fit_snoc[of personR encodePerson peopleDb "[(noteTx 6 0 6 7, Written)]" "(movingTx, Written)"]
      fit_snoc[of personR encodePerson peopleDb "[]" "(noteTx 6 0 6 7, Written)"]
    by (simp add: transactionsFit_def runTransactions_def noteTx_simps people_person)
qed


end
