(* ===== verification/Index_Pointers.thy ===== *)
theory Index_Pointers
  imports Secondary_Index
begin

text \<open>
  An index holds pointers and compares the rows behind them. Reading every pointer turns it into
  an index of rows, and every operation of \<open>secondary_index.go\<close> commutes with that reading, so
  that what is proved about indexes of rows holds for indexes of pointers.
\<close>

definition via :: "'v reflection \<Rightarrow> ('p \<Rightarrow> 'v) \<Rightarrow> 'p reflection" where
  "via R g = \<lparr>Field = (\<lambda>p. Field R (g p)), GetId = (\<lambda>p. GetId R (g p))\<rparr>"

definition readIndex :: "('p \<Rightarrow> 'v) \<Rightarrow> 'p secondaryIndex \<Rightarrow> 'v secondaryIndex" where
  "readIndex g index =
     \<lparr>spec = spec index, entries = map g (entries index), compositeKeys = compositeKeys index, stringKeys = stringKeys index,
      signedKeys = signedKeys index, unsignedKeys = unsignedKeys index, boolKeys = boolKeys index\<rparr>"

definition readTable :: "('p \<Rightarrow> 'v) \<Rightarrow> 'p indexedTable \<Rightarrow> 'v indexedTable" where
  "readTable g t =
     \<lparr>secondary = map (\<lambda>q. (fst q, readIndex g (snd q))) (secondary t), resById = (\<lambda>i. map_option g (resById t i))\<rparr>"

lemma via_simps [simp]: "Field (via R g) p = Field R (g p)" "GetId (via R g) p = GetId R (g p)"
  by (simp_all add: via_def)

lemma readIndex_simps [simp]:
  "spec (readIndex g index) = spec index" "entries (readIndex g index) = map g (entries index)"
  "readIndex g (index\<lparr>entries := es\<rparr>) = (readIndex g index)\<lparr>entries := map g es\<rparr>"
  by (simp_all add: readIndex_def)

lemma readTable_simps [simp]:
  "secondary (readTable g t) = map (\<lambda>q. (fst q, readIndex g (snd q))) (secondary t)"
  "resById (readTable g t) i = map_option g (resById t i)"
  by (simp_all add: readTable_def)

lemma readIndex_cong: "(\<And>p. p \<in> set (entries index) \<Longrightarrow> g p = h p) \<Longrightarrow> readIndex g index = readIndex h index"
  by (simp add: readIndex_def)

section \<open>One entry\<close>

lemma read_compare [simp]: "compare R (readIndex g index) (g p) (g q) = compare (via R g) index p q"
proof -
  have "compareFields R fs (g p) (g q) = compareFields (via R g) fs p q" for fs
    by (induction fs) (simp_all add: Let_def)
  then show ?thesis by (simp add: compare_def Let_def)
qed

lemma read_values:
  "firstValue (via R g) index p = firstValue R (readIndex g index) (g p)"
  "indexKey (via R g) index p = indexKey R (readIndex g index) (g p)"
  by (simp_all add: firstValue_def indexKey_def)

lemma read_removeEqual: "map g (removeEqual (via R g) index p qs) = removeEqual R (readIndex g index) (g p) (map g qs)"
  by (induction qs) simp_all

lemma read_searchEntry: "searchEntry R (readIndex g index) (g p) = searchEntry (via R g) index p"
proof -
  have "sort_search n (\<lambda>i. compare R (readIndex g index) (map g (entries index) ! i) (g p) \<ge> 0) =
      sort_search n (\<lambda>i. compare (via R g) index (entries index ! i) p \<ge> 0)" if "n = length (entries index)" for n
    using that by (intro sort_search_cong) simp
  then show ?thesis by (simp add: searchEntry_def)
qed

lemma read_removeEntry: "readIndex g (removeEntry (via R g) index p) = removeEntry R (readIndex g index) (g p)"
  by (simp add: removeEntry_def Let_def read_searchEntry read_removeEqual take_map drop_map)

lemma read_insertEntry: "readIndex g (insertEntry (via R g) index p) = insertEntry R (readIndex g index) (g p)"
  by (simp add: insertEntry_def Let_def read_searchEntry take_map drop_map)

lemma read_uniqueValue:
  "readIndex g (setUniqueValue index v i) = setUniqueValue (readIndex g index) v i"
  "readIndex g (deleteUniqueValue index v) = deleteUniqueValue (readIndex g index) v"
  by (cases v; simp add: readIndex_def)+

lemma read_removeLookup: "readIndex g (removeLookup (via R g) index p) = removeLookup R (readIndex g index) (g p)"
  by (simp add: removeLookup_def deleteUnique_def read_values read_uniqueValue) (simp add: readIndex_def)

lemma read_addLookup: "readIndex g (addLookup (via R g) index p) = addLookup R (readIndex g index) (g p)"
  by (simp add: addLookup_def setUnique_def read_values read_uniqueValue) (simp add: readIndex_def)

section \<open>A table\<close>

lemma read_mapIndexes:
  assumes "\<And>index. readIndex g (f index) = f' (readIndex g index)"
  shows "readTable g (mapIndexes f t) = mapIndexes f' (readTable g t)"
  by (simp add: readTable_def mapIndexes_def assms)

lemma read_removeSecondaryIndices:
  "readTable g (removeSecondaryIndices (via R g) t p) = removeSecondaryIndices R (readTable g t) (g p)"
  unfolding removeSecondaryIndices_def
  by (subst read_mapIndexes[where f' = "\<lambda>index. removeEntry R index (g p)"], rule read_removeEntry,
      subst read_mapIndexes[where f' = "\<lambda>index. removeLookup R index (g p)"], rule read_removeLookup, rule refl)

lemma read_addSecondaryIndices:
  "readTable g (addSecondaryIndices (via R g) t p) = addSecondaryIndices R (readTable g t) (g p)"
  unfolding addSecondaryIndices_def
  by (subst read_mapIndexes[where f' = "\<lambda>index. insertEntry R index (g p)"], rule read_insertEntry,
      subst read_mapIndexes[where f' = "\<lambda>index. addLookup R index (g p)"], rule read_addLookup, rule refl)

lemma read_fold:
  assumes "\<And>t p. readTable g (f t p) = f' (readTable g t) (g p)"
  shows "readTable g (foldl f t ps) = foldl f' (readTable g t) (map g ps)"
  using assms by (induction ps arbitrary: t) simp_all

text \<open>The two passes read the id and the deleted flag of a write only.\<close>

definition sameWrites :: "'p pendingWrite list \<Rightarrow> 'v pendingWrite list \<Rightarrow> bool" where
  "sameWrites ws vs \<longleftrightarrow> map (\<lambda>w. (pw_id w, deleted w)) ws = map (\<lambda>w. (pw_id w, deleted w)) vs"

lemma sameWrites_filter:
  "sameWrites ws vs \<Longrightarrow> sameWrites (filter (\<lambda>w. \<not> deleted w) ws) (filter (\<lambda>w. \<not> deleted w) vs)"
  unfolding sameWrites_def by (induction ws arbitrary: vs) auto

lemma read_map_filter:
  "sameWrites ws vs \<Longrightarrow>
   map g (List.map_filter (\<lambda>w. resById t (pw_id w)) ws) = List.map_filter (\<lambda>w. resById (readTable g t) (pw_id w)) vs"
  unfolding sameWrites_def
  by (induction ws arbitrary: vs) (auto simp: map_filter_simps split: option.split)

lemma read_touchedRows: "sameWrites ws vs \<Longrightarrow> map g (touchedRows t ws) = touchedRows (readTable g t) vs"
  unfolding touchedRows_def by (rule read_map_filter)

lemma read_writtenRows: "sameWrites ws vs \<Longrightarrow> map g (writtenRows t ws) = writtenRows (readTable g t) vs"
  unfolding writtenRows_def by (intro read_map_filter sameWrites_filter)

lemma sameWrites_ids: "sameWrites ws vs \<Longrightarrow> pw_id ` set ws = pw_id ` set vs \<and> length ws = length vs"
proof -
  assume s: "sameWrites ws vs"
  have "map pw_id ws = map pw_id vs" using arg_cong[OF s[unfolded sameWrites_def], of "map fst"] by (simp add: o_def)
  then show ?thesis by (metis length_map list.set_map)
qed

lemma read_prepareIndexes:
  assumes "sameWrites ws vs"
  shows "readTable g (prepareIndexes (via R g) t ws) = prepareIndexes R (readTable g t) vs"
proof -
  note T = read_touchedRows[OF assms, where g = g and t = t] and I = sameWrites_ids[OF assms]
  have none: "touchedRows (readTable g t) vs = [] \<longleftrightarrow> touchedRows t ws = []" by (simp add: T[symmetric])
  have lookups: "readTable g (foldl (\<lambda>db p. mapIndexes (\<lambda>index. removeLookup (via R g) index p) db) t ps) =
      foldl (\<lambda>db p. mapIndexes (\<lambda>index. removeLookup R index p) db) (readTable g t) (map g ps)" for t and ps
    by (rule read_fold[where f' = "\<lambda>db p. mapIndexes (\<lambda>index. removeLookup R index p) db"])
      (rule read_mapIndexes, rule read_removeLookup)
  have filtered: "readTable g (mapIndexes (\<lambda>index. index\<lparr>entries := filter (\<lambda>p. GetId (via R g) p \<notin> S) (entries index)\<rparr>) t) =
      mapIndexes (\<lambda>index. index\<lparr>entries := filter (\<lambda>p. GetId R p \<notin> S) (entries index)\<rparr>) (readTable g t)" for S t
    by (rule read_mapIndexes) (simp add: filter_map o_def)
  have ids: "{i \<in> pw_id ` set vs. resById (readTable g t) i \<noteq> None} = {i \<in> pw_id ` set ws. resById t i \<noteq> None}"
    using I by auto
  have batch: "readTable g (prepareIndexBatch (via R g) t ws) = prepareIndexBatch R (readTable g t) vs"
    unfolding prepareIndexBatch_def Let_def none ids if_distrib[where f = "readTable g"] filtered lookups T by simp
  have single: "readTable g (foldl (removeSecondaryIndices (via R g)) t (touchedRows t ws)) =
      foldl (removeSecondaryIndices R) (readTable g t) (touchedRows (readTable g t) vs)"
    by (simp add: read_fold[where f' = "removeSecondaryIndices R", OF read_removeSecondaryIndices] T)
  show ?thesis using batch single I by (simp add: prepareIndexes_def)
qed

lemma read_SortFunc: "map g (SortFunc (compare (via R g) index) ps) = SortFunc (compare R (readIndex g index)) (map g ps)"
proof -
  have "map g (insertFunc (compare (via R g) index) p qs) = insertFunc (compare R (readIndex g index)) (g p) (map g qs)" for p qs
    by (induction qs) simp_all
  then show ?thesis unfolding SortFunc_def by (induction ps) simp_all
qed

lemma read_merge:
  "map g (mergeEntries (compare (via R g) index) ps qs) = mergeEntries (compare R (readIndex g index)) (map g ps) (map g qs)"
  by (induction "compare (via R g) index" ps qs rule: mergeEntries.induct) auto

lemma read_mergeSecondary:
  "map g (mergeSecondaryIndexEntries (via R g) index ps) = mergeSecondaryIndexEntries R (readIndex g index) (map g ps)"
  by (simp add: mergeSecondaryIndexEntries_def read_merge)

lemma read_finishIndexes:
  assumes "sameWrites ws vs"
  shows "readTable g (finishIndexes (via R g) t ws) = finishIndexes R (readTable g t) vs"
proof -
  note T = read_writtenRows[OF assms, where g = g and t = t] and I = sameWrites_ids[OF assms]
  define looked where "looked = foldl (\<lambda>db p. mapIndexes (\<lambda>index. addLookup (via R g) index p) db) t (writtenRows t ws)"
  have lookups: "readTable g looked = foldl (\<lambda>db p. mapIndexes (\<lambda>index. addLookup R index p) db) (readTable g t) (map g (writtenRows t ws))"
    unfolding looked_def
    by (rule read_fold[where f' = "\<lambda>db p. mapIndexes (\<lambda>index. addLookup R index p) db"]) (rule read_mapIndexes, rule read_addLookup)
  define merged where "merged = map (\<lambda>q. mergeSecondaryIndexEntries (via R g) (snd q) (SortFunc (compare (via R g) (snd q)) (writtenRows t ws))) (secondary t)"
  have m: "map (map g) merged = map (\<lambda>q. mergeSecondaryIndexEntries R (snd q) (SortFunc (compare R (snd q)) (writtenRows (readTable g t) vs))) (secondary (readTable g t))"
    by (simp add: merged_def read_mergeSecondary read_SortFunc T)
  have z: "readTable g (looked\<lparr>secondary := map2 (\<lambda>q es. (fst q, (snd q)\<lparr>entries := es\<rparr>)) (secondary looked) ess\<rparr>) =
      (readTable g looked)\<lparr>secondary := map2 (\<lambda>q es. (fst q, (snd q)\<lparr>entries := es\<rparr>)) (secondary (readTable g looked)) (map (map g) ess)\<rparr>" for ess
    by (simp add: readTable_def zip_map_map o_def split_beta)
  have batch: "readTable g (finishIndexBatch (via R g) t ws) = finishIndexBatch R (readTable g t) vs"
    unfolding finishIndexBatch_def Let_def T[symmetric] lookups[symmetric] looked_def[symmetric] merged_def[symmetric] z m[symmetric]
    by (simp add: m[unfolded T[symmetric]] lookups[symmetric])
  have single: "readTable g (foldl (addSecondaryIndices (via R g)) t (writtenRows t ws)) =
      foldl (addSecondaryIndices R) (readTable g t) (writtenRows (readTable g t) vs)"
    by (simp add: read_fold[where f' = "addSecondaryIndices R", OF read_addSecondaryIndices] T)
  show ?thesis using batch single I by (simp add: finishIndexes_def)
qed

end
