(* ===== verification/Open_Table.thy ===== *)
theory Open_Table
  imports Commit_Conflicts Index_Reads Index_Pointers
begin

text \<open>
  A table as \<open>Open\<close> builds it (\<open>db.go\<close>): the arena of \<open>chunkstore.go\<close>, the id map and the
  indexes, which both hold pointers into the arena, and the id counter. The commit of
  \<open>Transaction_Commit\<close> works on rows; here it works on the arena through pointers, and the main
  lemma shows that the two agree on every table. Types with relations are wired by
  \<open>fillRelation\<close>, which is not part of this theory.
\<close>

section \<open>The table\<close>

record 'v openTable =
  ot_store :: "'v chunkStore"
  ot_index :: "slot_addr indexedTable"
  ot_counter :: int
  ot_persist :: "'v list"
  ot_deletes :: "slot_addr list"

definition rowAt :: "'v openTable \<Rightarrow> slot_addr \<Rightarrow> 'v" where
  "rowAt t a = item (slotAt (ot_store t) a)"

definition resource :: "'v openTable \<Rightarrow> int \<Rightarrow> slot_addr option" where
  "resource t i = resById (ot_index t) i"

definition initIndices :: "secondaryIndexSpec list \<Rightarrow> slot_addr indexedTable" where
  "initIndices specs = \<lparr>secondary = map (\<lambda>s. (is_name s, newSecondaryIndex s)) specs, resById = (\<lambda>_. None)\<rparr>"

definition openTable :: "'v reflection \<Rightarrow> secondaryIndexSpec list \<Rightarrow> 'v chunkStore \<Rightarrow> 'v openTable result" where
  "openTable R specs s =
     (case rebuildSecondaryIndices (via R (\<lambda>a. item (slotAt s a))) (rangeResources s) (initIndices specs) of
        Inl e \<Rightarrow> Inl e
      | Inr indices \<Rightarrow>
          Inr \<lparr>ot_store = s, ot_index = indices\<lparr>resById := indexByID (GetId R) s\<rparr>, ot_counter = seedCounter (GetId R) s,
               ot_persist = [], ot_deletes = []\<rparr>)"

definition add :: "'v reflection \<Rightarrow> 'v openTable \<Rightarrow> 'v \<Rightarrow> 'v openTable" where
  "add R t v =
     (let r = Append (ot_store t) v in
      t\<lparr>ot_store := fst r, ot_index := (ot_index t)\<lparr>resById := (resById (ot_index t))(GetId R v \<mapsto> snd r)\<rparr>\<rparr>)"

text \<open>\<open>setId\<close> is \<open>setID\<close>: it writes the field \<open>Id\<close> by reflection.\<close>

definition relationPrepareCreate :: "'v reflection \<Rightarrow> (int \<Rightarrow> 'v \<Rightarrow> 'v) \<Rightarrow> 'v openTable \<Rightarrow> 'v \<Rightarrow> ('v openTable \<times> 'v) result" where
  "relationPrepareCreate R setId t v =
     (let i = GetId R v in
      if i = 0 then Inr (t\<lparr>ot_counter := ot_counter t + 1\<rparr>, setId (ot_counter t + 1) v)
      else if resource t i \<noteq> None then Inl ErrAlreadyExists
      else Inr (if i > ot_counter t then t\<lparr>ot_counter := i\<rparr> else t, v))"

definition writeRow :: "'v openTable \<Rightarrow> int \<Rightarrow> 'v \<Rightarrow> 'v openTable" where
  "writeRow t i v =
     (case resource t i of None \<Rightarrow> t | Some a \<Rightarrow> t\<lparr>ot_store := writeItem 1 (ot_store t) a v\<rparr>)"

text \<open>\<open>relationDelete\<close>; the removed pointers are the live slots with one of the ids, in slot order.\<close>

definition forgetRow :: "'v reflection \<Rightarrow> 'v openTable \<Rightarrow> slot_addr \<Rightarrow> 'v openTable" where
  "forgetRow R t a =
     (let indices = removeSecondaryIndices (via R (rowAt t)) (ot_index t) a in
      t\<lparr>ot_index := indices\<lparr>resById := (resById indices)(GetId R (rowAt t a) := None)\<rparr>\<rparr>)"

definition deleteRows :: "'v reflection \<Rightarrow> int set \<Rightarrow> 'v openTable \<Rightarrow> 'v openTable" where
  "deleteRows R ids t =
     (if ids = {} then t
      else
        let removed = filter (\<lambda>a. GetId R (rowAt t a) \<in> ids) (rangeResources (ot_store t))
        in foldl (forgetRow R) (t\<lparr>ot_store := fst (DeleteFunc (ot_store t) (\<lambda>v. GetId R v \<in> ids))\<rparr>) removed)"

section \<open>The commit on the arenas\<close>

type_synonym 'v base = "string \<Rightarrow> 'v openTable"

text \<open>The index passes read only the ids of the pending writes and whether they delete.\<close>

definition idsOnly :: "'v pendingWrite list \<Rightarrow> slot_addr pendingWrite list" where
  "idsOnly ws = map (\<lambda>w. \<lparr>pw_id = pw_id w, work = None, deleted = deleted w\<rparr>) ws"

definition prepareTable :: "'v reflection \<Rightarrow> 'v pendingWrite list \<Rightarrow> 'v openTable \<Rightarrow> 'v openTable" where
  "prepareTable R ws t = t\<lparr>ot_index := prepareIndexes (via R (rowAt t)) (ot_index t) (idsOnly ws)\<rparr>"

definition finishTable :: "'v reflection \<Rightarrow> 'v pendingWrite list \<Rightarrow> 'v openTable \<Rightarrow> 'v openTable" where
  "finishTable R ws t = t\<lparr>ot_index := finishIndexes (via R (rowAt t)) (ot_index t) (idsOnly ws)\<rparr>"

definition onTable :: "('v openTable \<Rightarrow> 'v openTable) \<Rightarrow> string \<Rightarrow> 'v base \<Rightarrow> 'v base" where
  "onTable f n b = b(n := f (b n))"

definition deleteKeys :: "'v reflection \<Rightarrow> nodeKey list \<Rightarrow> 'v base \<Rightarrow> 'v base" where
  "deleteKeys R removed b = (\<lambda>n. deleteRows R {i. NodeKey n i \<in> set removed} (b n))"

definition commitArenas ::
  "'v reflection \<Rightarrow> (string \<times> 'v pendingWrite list) list \<Rightarrow> 'v touchedResource list \<Rightarrow> (nodeKey \<times> 'v) list \<Rightarrow> nodeKey list \<Rightarrow> 'v base \<Rightarrow> 'v base" where
  "commitArenas R changes touched created removed b =
     (let prepared = foldl (\<lambda>b c. onTable (prepareTable R (snd c)) (fst c) b) b changes;
          written = foldl (\<lambda>b r. onTable (\<lambda>t. writeRow t (tr_id r) (tr_work r)) (tr_dbName r) b) prepared touched;
          added = foldl (\<lambda>b c. onTable (\<lambda>t. add R t (snd c)) (nk_type (fst c)) b) written created
      in foldl (\<lambda>b c. onTable (finishTable R (snd c)) (fst c) b) (deleteKeys R removed added) changes)"

section \<open>What an arena stands for\<close>

definition table_wf :: "'v reflection \<Rightarrow> 'v openTable \<Rightarrow> bool" where
  "table_wf R t \<longleftrightarrow>
     store_wf (ot_store t) \<and>
     (\<forall>i a. resource t i = Some a \<longleftrightarrow> live_addr (ot_store t) a \<and> GetId R (rowAt t a) = i) \<and>
     (\<forall>q \<in> set (secondary (ot_index t)). \<forall>a \<in> set (entries (snd q)). live_addr (ot_store t) a)"

definition stands_for :: "'v openTable \<Rightarrow> 'v table \<Rightarrow> bool" where
  "stands_for t T \<longleftrightarrow>
     readTable (rowAt t) (ot_index t) = tb_index T \<and>
     (\<forall>i a. resource t i = Some a \<longrightarrow> tb_version T i = int (version (slotAt (ot_store t) a)))"

text \<open>The rows with these ids are not in any index.\<close>

definition unindexed :: "'v reflection \<Rightarrow> int set \<Rightarrow> 'v openTable \<Rightarrow> bool" where
  "unindexed R ids t \<longleftrightarrow>
     (\<forall>q \<in> set (secondary (ot_index t)). \<forall>a \<in> set (entries (snd q)). GetId R (rowAt t a) \<notin> ids)"

definition between :: "'v reflection \<Rightarrow> int set \<Rightarrow> 'v openTable \<Rightarrow> 'v table \<Rightarrow> bool" where
  "between R ids t T \<longleftrightarrow> table_wf R t \<and> stands_for t T \<and> unindexed R ids t"

section \<open>What an index pass does to the entries\<close>

definition shrinks :: "('p secondaryIndex \<Rightarrow> 'p secondaryIndex) \<Rightarrow> bool" where
  "shrinks f \<longleftrightarrow> (\<forall>index. set (entries (f index)) \<subseteq> set (entries index))"

lemma shrinks_fold: "(\<And>p. shrinks (\<lambda>index. f index p)) \<Longrightarrow> shrinks (\<lambda>index. foldl f index ps)"
proof (induction ps)
  case (Cons p ps)
  have "set (entries (foldl f (f index p) ps)) \<subseteq> set (entries index)" for index
    using Cons by (meson shrinks_def order_trans)
  then show ?case by (simp add: shrinks_def)
qed (simp add: shrinks_def)

lemma shrinks_comp: "shrinks f \<Longrightarrow> shrinks h \<Longrightarrow> shrinks (\<lambda>index. f (h index))"
  unfolding shrinks_def by (meson order_trans)

lemma removeEqual_subset: "set (removeEqual R index p qs) \<subseteq> set qs"
  by (induction qs) auto

lemma removeEntry_shrinks: "shrinks (\<lambda>index. removeEntry R index p)"
  unfolding shrinks_def removeEntry_def Let_def
  using removeEqual_subset by (fastforce dest: in_set_takeD in_set_dropD)

lemma removeBoth_shrinks: "shrinks (\<lambda>index. removeBoth R index p)"
  unfolding removeBoth_def by (rule shrinks_comp[OF removeEntry_shrinks]) (simp add: shrinks_def)

lemma remove_mapIndexes: "removeSecondaryIndices R db p = mapIndexes (\<lambda>index. removeBoth R index p) db"
  by (simp add: removeSecondaryIndices_conv)

lemma mapIndexes_id: "mapIndexes (\<lambda>index. index) db = db"
  by (simp add: mapIndexes_def)

lemma mapIndexes_comp: "mapIndexes f (mapIndexes h db) = mapIndexes (\<lambda>index. f (h index)) db"
  by (simp add: mapIndexes_def)

lemma prepare_shrinks: "\<exists>f. shrinks f \<and> prepareIndexes R db ws = mapIndexes f db"
proof -
  have id: "shrinks (\<lambda>index. index) \<and> db = mapIndexes (\<lambda>index. index) db" by (simp add: shrinks_def mapIndexes_id)
  have single: "shrinks (\<lambda>index. foldl (removeBoth R) index ps) \<and>
      foldl (removeSecondaryIndices R) db ps = mapIndexes (\<lambda>index. foldl (removeBoth R) index ps) db" for ps
    unfolding removeSecondaryIndices_conv by (simp add: shrinks_fold removeBoth_shrinks fold_mapIndexes)
  have batch: "\<exists>f. shrinks f \<and> prepareIndexBatch R db ws = mapIndexes f db"
  proof (cases "touchedRows db ws = []")
    case False
    have "shrinks (\<lambda>index. (foldl (removeLookup R) index (touchedRows db ws))\<lparr>entries := filter P (entries (foldl (removeLookup R) index (touchedRows db ws)))\<rparr>)" for P
      by (auto simp: shrinks_def)
    then show ?thesis
      unfolding prepareIndexBatch_def Let_def fold_mapIndexes mapIndexes_comp if_not_P[OF False] by blast
  qed (use id in \<open>auto simp: prepareIndexBatch_def\<close>)
  show ?thesis unfolding prepareIndexes_def using id single batch by auto
qed

definition grows :: "'p set \<Rightarrow> ('p secondaryIndex \<Rightarrow> 'p secondaryIndex) \<Rightarrow> bool" where
  "grows ps f \<longleftrightarrow> (\<forall>index. set (entries (f index)) \<subseteq> set (entries index) \<union> ps)"

lemma addBoth_grows: "grows {p} (\<lambda>index. addBoth R index p)"
  unfolding grows_def addBoth_def insertEntry_def Let_def by (auto dest: in_set_takeD in_set_dropD)

lemma addBoth_fold_grows: "set (entries (foldl (addBoth R) index ps)) \<subseteq> set (entries index) \<union> set ps"
proof (induction ps arbitrary: index)
  case (Cons p ps)
  have "set (entries (addBoth R index p)) \<subseteq> set (entries index) \<union> {p}" using addBoth_grows[of p R] by (simp add: grows_def)
  then show ?case using Cons[of "addBoth R index p"] by auto
qed simp

lemma mergeEntries_set: "set (mergeEntries cmp xs ys) = set xs \<union> set ys"
  by (induction cmp xs ys rule: mergeEntries.induct) auto

lemma SortFunc_set: "set (SortFunc cmp xs) = set xs"
proof -
  have "set (insertFunc cmp x ys) = insert x (set ys)" for x ys by (induction ys) auto
  then show ?thesis unfolding SortFunc_def by (induction xs) auto
qed

lemma finish_entries:
  assumes "q \<in> set (secondary (finishIndexes R db ws))"
  shows "\<exists>q0 \<in> set (secondary db). set (entries (snd q)) \<subseteq> set (entries (snd q0)) \<union> set (writtenRows db ws)"
proof (cases "secondaryIndexBatchThreshold \<le> length ws \<and> secondary db \<noteq> []")
  case True
  have merged: "set (mergeSecondaryIndexEntries R index (SortFunc (compare R index) (writtenRows db ws))) \<subseteq>
      set (entries index) \<union> set (writtenRows db ws)" for index
    by (auto simp: mergeSecondaryIndexEntries_def mergeEntries_set SortFunc_set)
  have "secondary (finishIndexes R db ws) = map (\<lambda>q. (fst q, (foldl (addLookup R) (snd q) (writtenRows db ws))
      \<lparr>entries := mergeSecondaryIndexEntries R (snd q) (SortFunc (compare R (snd q)) (writtenRows db ws))\<rparr>)) (secondary db)"
    using True unfolding finishIndexes_def finishIndexBatch_def Let_def fold_mapIndexes mapIndexes_simps
    by (subst Secondary_Index.zip_map[where f = "\<lambda>index. foldl (addLookup R) index (writtenRows db ws)"]) simp
  then obtain q0 where "q0 \<in> set (secondary db)"
    "entries (snd q) = mergeSecondaryIndexEntries R (snd q0) (SortFunc (compare R (snd q0)) (writtenRows db ws))"
    using assms by auto
  then show ?thesis using merged by (intro bexI[of _ q0]) simp_all
next
  case False
  then have "finishIndexes R db ws = db \<and> secondary db = [] \<or>
      finishIndexes R db ws = mapIndexes (\<lambda>index. foldl (addBoth R) index (writtenRows db ws)) db"
    by (auto simp: finishIndexes_def addSecondaryIndices_conv fold_mapIndexes)
  then show ?thesis
  proof
    assume "finishIndexes R db ws = mapIndexes (\<lambda>index. foldl (addBoth R) index (writtenRows db ws)) db"
    then obtain q0 where "q0 \<in> set (secondary db)" "snd q = foldl (addBoth R) (snd q0) (writtenRows db ws)"
      using assms by auto
    then show ?thesis using addBoth_fold_grows[of R "snd q0" "writtenRows db ws"] by (intro bexI[of _ q0]) simp_all
  qed (use assms in auto)
qed

lemma writtenRows_subset: "set (writtenRows db ws) \<subseteq> ran (resById db)"
  unfolding writtenRows_def by (auto simp: List.map_filter_def ran_def)

section \<open>Every step keeps the arena and the rows together\<close>

lemma idsOnly_same: "sameWrites (idsOnly ws) ws"
  by (simp add: sameWrites_def idsOnly_def o_def)

lemma table_wf_inj: "table_wf R t \<Longrightarrow> resource t i = Some a \<Longrightarrow> resource t j = Some a \<Longrightarrow> i = j"
  unfolding table_wf_def by metis

lemma between_prepare:
  assumes b: "between R {} t T" and ok: "table_ok R (tb_index T)" and d: "distinct (map pw_id ws)"
  shows "between R (pw_id ` set ws) (prepareTable R ws t) (T\<lparr>tb_index := prepareIndexes R (tb_index T) ws\<rparr>)"
proof -
  let ?t = "prepareTable R ws t"
  have read: "readTable (rowAt t) (ot_index ?t) = prepareIndexes R (tb_index T) ws"
    using b read_prepareIndexes[OF idsOnly_same, where g = "rowAt t"] by (simp add: prepareTable_def between_def stands_for_def)
  have same: "rowAt ?t = rowAt t" "ot_store ?t = ot_store t" "resource ?t = resource t"
    by (simp_all add: prepareTable_def rowAt_def resource_def prepareIndexes_rows fun_eq_iff)
  obtain f where f: "shrinks f" "ot_index ?t = mapIndexes f (ot_index t)"
    using prepare_shrinks[of "via R (rowAt t)" "ot_index t"] by (auto simp: prepareTable_def)
  have "table_wf R ?t"
    using b f(1) by (fastforce simp: between_def table_wf_def same f(2) shrinks_def)
  moreover have "stands_for ?t (T\<lparr>tb_index := prepareIndexes R (tb_index T) ws\<rparr>)"
    using b read by (simp add: between_def stands_for_def same)
  moreover have "GetId R (rowAt t a) \<notin> pw_id ` set ws" if q: "q \<in> set (secondary (ot_index ?t))" and a: "a \<in> set (entries (snd q))" for q a
  proof -
    note T = touched_kept[OF ok d]
    have "(fst q, readIndex (rowAt t) (snd q)) \<in> set (secondary (prepareIndexes R (tb_index T) ws))"
      using q unfolding read[symmetric] by auto
    then obtain q0 where q0: "q0 \<in> set (secondary (tb_index T))"
      "readIndex (rowAt t) (snd q) = foldl (removeBoth R) (snd q0) (touchedRows (tb_index T) ws)"
      unfolding prepare_conv(2)[OF ok d] by auto
    have "index_ok R (ran (resById (tb_index T))) (snd q0)" using ok q0(1) by (simp add: table_ok_def)
    from removed_ok[OF this T(1,2)] have "entries_ok R (keptRows (tb_index T) ws) (readIndex (rowAt t) (snd q))"
      by (simp add: T(3) q0(2) index_ok_def)
    then have "rowAt t a \<in> keptRows (tb_index T) ws" using a by (auto simp: entries_ok_def)
    then show ?thesis using ok by (auto simp: keptRows_def table_ok_def)
  qed
  ultimately show ?thesis by (auto simp: between_def unindexed_def same)
qed

text \<open>The writes of \<open>Transaction_Commit\<close> on the one table they touch.\<close>

definition putRow :: "int \<Rightarrow> 'v option \<Rightarrow> int \<Rightarrow> 'v table \<Rightarrow> 'v table" where
  "putRow i v ver T =
     T\<lparr>tb_index := (tb_index T)\<lparr>resById := (resById (tb_index T))(i := v)\<rparr>, tb_version := (tb_version T)(i := ver)\<rparr>"

lemma readTable_write:
  assumes "\<And>q a. q \<in> set (secondary t) \<Longrightarrow> a \<in> set (entries (snd q)) \<Longrightarrow> h a = g a"
    and "\<And>j a. resById t j = Some a \<Longrightarrow> j \<noteq> i \<Longrightarrow> h a = g a" and "map_option h r = v"
  shows "readTable h (t\<lparr>resById := (resById t)(i := r)\<rparr>) =
    (readTable g t)\<lparr>resById := (resById (readTable g t))(i := v)\<rparr>"
proof -
  have "map (\<lambda>q. (fst q, readIndex h (snd q))) (secondary t) = map (\<lambda>q. (fst q, readIndex g (snd q))) (secondary t)"
    using assms(1) by (auto intro!: readIndex_cong)
  moreover have "(\<lambda>j. map_option h (((resById t)(i := r)) j)) = (\<lambda>j. map_option g (resById t j))(i := v)"
    using assms(2,3) by (auto simp: fun_eq_iff split: option.splits intro!: option.map_cong)
  ultimately show ?thesis by (simp add: readTable_def)
qed

lemma between_write:
  assumes b: "between R ids t T" and a: "resource t i = Some a" and i: "i \<in> ids" and v: "GetId R v = i"
  shows "between R ids (writeRow t i v) (putRow i (Some v) (tb_version T i + 1) T)"
proof -
  let ?t = "writeRow t i v"
  have wf: "table_wf R t" using b by (simp add: between_def)
  then have live: "live_addr (ot_store t) a" "GetId R (rowAt t a) = i" using a by (simp_all add: table_wf_def)
  then have valid: "valid_addr (ot_store t) a" by (simp add: live_addr_def)
  note W = writeItem_slots[OF valid, of 1 v, unfolded One_nat_def]
  have t: "ot_store ?t = writeItem (Suc 0) (ot_store t) a v" "ot_index ?t = ot_index t" by (simp_all add: writeRow_def a)
  have row: "rowAt ?t c = (if c = a then v else rowAt t c)" for c by (simp add: rowAt_def t W(3))
  have res: "resource ?t = resource t" by (simp add: resource_def t fun_eq_iff)
  have entry: "c \<noteq> a" if "q \<in> set (secondary (ot_index t))" "c \<in> set (entries (snd q))" for q c
    using b that i live(2) unfolding between_def unindexed_def by blast
  have "store_wf (ot_store ?t)" using wf valid by (simp add: t writeItem_wf table_wf_def)
  then have "table_wf R ?t"
    using wf live v unfolding table_wf_def res row t W(2) by auto
  moreover have "readTable (rowAt ?t) ((ot_index t)\<lparr>resById := (resById (ot_index t))(i := Some a)\<rparr>) =
      (readTable (rowAt t) (ot_index t))\<lparr>resById := (resById (readTable (rowAt t) (ot_index t)))(i := Some v)\<rparr>"
  proof (rule readTable_write)
    show "rowAt ?t c = rowAt t c" if "q \<in> set (secondary (ot_index t))" "c \<in> set (entries (snd q))" for q c
      using entry[OF that] by (simp add: row)
    show "rowAt ?t c = rowAt t c" if "resById (ot_index t) j = Some c" "j \<noteq> i" for j c
      using that table_wf_inj[OF wf, of j a i] a by (auto simp: row resource_def)
  qed (simp add: row)
  moreover have "(ot_index t)\<lparr>resById := (resById (ot_index t))(i := Some a)\<rparr> = ot_index t"
    using a by (simp add: resource_def fun_upd_idem)
  ultimately have read: "readTable (rowAt ?t) (ot_index ?t) = tb_index (putRow i (Some v) (tb_version T i + 1) T)"
    using b by (simp add: between_def stands_for_def putRow_def t)
  have "tb_version (putRow i (Some v) (tb_version T i + 1) T) j = int (version (slotAt (ot_store ?t) c))"
    if "resource t j = Some c" for j c
  proof (cases "j = i")
    case True
    then have c: "c = a" using that a by simp
    have "tb_version T i = int (version (slotAt (ot_store t) a))" using a b by (simp add: between_def stands_for_def)
    then show ?thesis unfolding c True by (simp add: putRow_def t W(3))
  next
    case False
    then have "c \<noteq> a" using that table_wf_inj[OF wf _ a] by blast
    then show ?thesis using that False b by (simp add: between_def stands_for_def putRow_def t W(3))
  qed
  then have "stands_for ?t (putRow i (Some v) (tb_version T i + 1) T)"
    using read by (simp add: stands_for_def res)
  moreover have "unindexed R ids ?t" using b entry by (auto simp: between_def unindexed_def t row)
  ultimately show ?thesis using \<open>table_wf R ?t\<close> by (simp add: between_def)
qed

lemma Append_version:
  assumes "store_wf s" "Append s v = (s', a)"
  shows "version (slotAt s' a) = 0"
  using Append_parts[OF assms] by (auto simp: slotAt_def nth_append)

lemma between_create:
  assumes b: "between R ids t T" and fresh: "resById (tb_index T) (GetId R v) = None"
  shows "between R ids (add R t v) (putRow (GetId R v) (Some v) 0 T)"
proof -
  obtain s' a where ap: "Append (ot_store t) v = (s', a)" by (metis prod.collapse)
  let ?t = "add R t v"
  have wf: "table_wf R t" using b by (simp add: between_def)
  then have swf: "store_wf (ot_store t)" by (simp add: table_wf_def)
  note A = Append_addr[OF swf ap]
  have none: "resource t (GetId R v) = None"
    using b fresh by (auto simp: between_def stands_for_def resource_def dest: arg_cong[where f = "\<lambda>x. resById x (GetId R v)"])
  have t: "ot_store ?t = s'" "ot_index ?t = (ot_index t)\<lparr>resById := (resById (ot_index t))(GetId R v \<mapsto> a)\<rparr>"
    by (simp_all add: add_def Let_def ap)
  have keep: "live_addr s' c \<and> slotAt s' c = slotAt (ot_store t) c \<and> rowAt ?t c = rowAt t c \<and> c \<noteq> a"
    if "live_addr (ot_store t) c" for c
    using A(3) A(4)[of c] that by (auto simp: live_addr_def rowAt_def t)
  have older: "c = a \<or> live_addr (ot_store t) c" if "live_addr s' c" for c
    using that Append_rangeResources[OF swf ap] set_rangeResources[of c s'] set_rangeResources[of c "ot_store t"] by auto
  have res: "resource ?t j = (if j = GetId R v then Some a else resource t j)" for j by (simp add: resource_def t)
  have new: "rowAt ?t a = v" by (simp add: rowAt_def t A(2))
  have live: "resource t j = Some c \<longleftrightarrow> live_addr (ot_store t) c \<and> GetId R (rowAt t c) = j" for j c
    using wf by (simp add: table_wf_def)
  have entry: "live_addr (ot_store t) c" if "q \<in> set (secondary (ot_index t))" "c \<in> set (entries (snd q))" for q c
    using wf that unfolding table_wf_def by blast
  have "resource ?t j = Some c \<longleftrightarrow> live_addr s' c \<and> GetId R (rowAt ?t c) = j" for j c
  proof (cases "c = a")
    case True
    have "resource t j \<noteq> Some a" using live A(3) by (auto simp: live_addr_def)
    then show ?thesis using True A(1) new by (auto simp: res)
  next
    case False
    then show ?thesis using live[of j c] live[of "GetId R v" c] older[of c] keep[of c] none by (auto simp: res)
  qed
  then have "table_wf R ?t"
    using Append_wf[OF swf ap] entry keep by (auto simp: table_wf_def t)
  moreover have "readTable (rowAt ?t) (ot_index ?t) = tb_index (putRow (GetId R v) (Some v) 0 T)"
  proof -
    have "readTable (rowAt ?t) ((ot_index t)\<lparr>resById := (resById (ot_index t))(GetId R v := Some a)\<rparr>) =
        (readTable (rowAt t) (ot_index t))\<lparr>resById := (resById (readTable (rowAt t) (ot_index t)))(GetId R v := Some v)\<rparr>"
      using entry keep live new by (intro readTable_write) (auto simp: resource_def)
    then show ?thesis using b by (simp add: t putRow_def between_def stands_for_def)
  qed
  moreover have "tb_version (putRow (GetId R v) (Some v) 0 T) j = int (version (slotAt (ot_store ?t) c))"
    if "resource ?t j = Some c" for j c
  proof (cases "j = GetId R v")
    case True
    have "version (slotAt s' a) = 0" by (rule Append_version[OF swf ap])
    then show ?thesis using that True by (simp add: res putRow_def t)
  next
    case False
    then have "resource t j = Some c" using that by (simp add: res)
    moreover from this have "slotAt s' c = slotAt (ot_store t) c" using live keep by blast
    ultimately show ?thesis using False b by (simp add: putRow_def t between_def stands_for_def)
  qed
  moreover have "unindexed R ids ?t" using b entry keep by (auto simp: between_def unindexed_def t)
  ultimately show ?thesis by (simp add: between_def stands_for_def)
qed

definition clearRows :: "int set \<Rightarrow> 'v indexedTable \<Rightarrow> 'v indexedTable" where
  "clearRows D X = X\<lparr>resById := (\<lambda>i. if i \<in> D then None else resById X i)\<rparr>"

lemma clearRows_simps [simp]:
  "resById (clearRows D X) i = (if i \<in> D then None else resById X i)" "secondary (clearRows D X) = secondary X"
  by (simp_all add: clearRows_def)

lemma clearRows_clear: "clearRows D (clearRows E X) = clearRows (D \<union> E) X"
  by (simp add: clearRows_def fun_eq_iff)

text \<open>The rows are already out of the indexes, so that forgetting them changes the id map only.\<close>

lemma forget_fold:
  assumes "rowAt t1 = g"
    and "\<And>a (X :: 'a indexedTable). a \<in> set as \<Longrightarrow> secondary X = secondary (readTable g (ot_index t1)) \<Longrightarrow> removeSecondaryIndices R X (g a) = X"
  shows "ot_store (foldl (forgetRow (R :: 'a reflection)) t1 as) = ot_store t1 \<and>
    (\<forall>i. resource (foldl (forgetRow R) t1 as) i = (if i \<in> (\<lambda>a. GetId R (g a)) ` set as then None else resource t1 i)) \<and>
    readTable g (ot_index (foldl (forgetRow R) t1 as)) = clearRows ((\<lambda>a. GetId R (g a)) ` set as) (readTable g (ot_index t1)) \<and>
    (\<forall>q \<in> set (secondary (ot_index (foldl (forgetRow R) t1 as))).
       \<exists>q0 \<in> set (secondary (ot_index t1)). set (entries (snd q)) \<subseteq> set (entries (snd q0)))"
  using assms
proof (induction as arbitrary: t1)
  case Nil
  then show ?case by (auto simp: clearRows_def readTable_def)
next
  case (Cons a as)
  let ?t2 = "forgetRow R t1 a"
  have store: "ot_store ?t2 = ot_store t1" by (simp add: forgetRow_def Let_def)
  then have g: "rowAt ?t2 = g" using Cons.prems(1) by (simp add: rowAt_def fun_eq_iff)
  have res: "resource ?t2 i = (if i = GetId R (g a) then None else resource t1 i)" for i
    by (simp add: forgetRow_def Let_def resource_def Cons.prems(1)[symmetric] removeSecondaryIndices_conv)
  have "readTable g (removeSecondaryIndices (via R g) (ot_index t1) a) = readTable g (ot_index t1)"
    unfolding read_removeSecondaryIndices using Cons.prems(2)[of a "readTable g (ot_index t1)"] by simp
  then have read: "readTable g (ot_index ?t2) = clearRows {GetId R (g a)} (readTable g (ot_index t1))"
    unfolding forgetRow_def Let_def Cons.prems(1)
    by (simp add: readTable_def clearRows_def fun_eq_iff)
  have small: "\<exists>q0 \<in> set (secondary (ot_index t1)). set (entries (snd q)) \<subseteq> set (entries (snd q0))"
    if q: "q \<in> set (secondary (ot_index ?t2))" for q
  proof -
    obtain q0 where "q0 \<in> set (secondary (ot_index t1))" "snd q = removeBoth (via R (rowAt t1)) (snd q0) a"
      using q by (auto simp: forgetRow_def Let_def removeSecondaryIndices_conv)
    then show ?thesis
      using removeBoth_shrinks[of "via R (rowAt t1)" a] by (intro bexI[of _ q0]) (simp_all add: shrinks_def)
  qed
  have IH: "ot_store (foldl (forgetRow R) ?t2 as) = ot_store ?t2 \<and>
    (\<forall>i. resource (foldl (forgetRow R) ?t2 as) i = (if i \<in> (\<lambda>a. GetId R (g a)) ` set as then None else resource ?t2 i)) \<and>
    readTable g (ot_index (foldl (forgetRow R) ?t2 as)) = clearRows ((\<lambda>a. GetId R (g a)) ` set as) (readTable g (ot_index ?t2)) \<and>
    (\<forall>q \<in> set (secondary (ot_index (foldl (forgetRow R) ?t2 as))).
       \<exists>q0 \<in> set (secondary (ot_index ?t2)). set (entries (snd q)) \<subseteq> set (entries (snd q0)))"
    using Cons.prems(2) by (intro Cons.IH[OF g]) (simp add: read)
  have chain: "\<exists>q0 \<in> set (secondary (ot_index t1)). set (entries (snd q)) \<subseteq> set (entries (snd q0))"
    if "q \<in> set (secondary (ot_index (foldl (forgetRow R) ?t2 as)))" for q
    using IH small that by (meson order_trans)
  show ?case using IH chain by (auto simp: store res read clearRows_clear insert_is_Un[symmetric])
qed

lemma between_delete:
  assumes b: "between (R :: 'a reflection) ids t T" and D: "D \<subseteq> ids"
    and noop: "\<And>i p (X :: 'a indexedTable). i \<in> D \<Longrightarrow> resById (tb_index T) i = Some p \<Longrightarrow> secondary X = secondary (tb_index T) \<Longrightarrow>
      removeSecondaryIndices R X p = X"
  shows "between R ids (deleteRows R D t) (T\<lparr>tb_index := clearRows D (tb_index T)\<rparr>)"
proof (cases "D = {}")
  case True
  then show ?thesis using b by (simp add: deleteRows_def clearRows_def)
next
  case False
  have wf: "table_wf R t" and st: "stands_for t T" using b by (simp_all add: between_def)
  then have swf: "store_wf (ot_store t)" by (simp add: table_wf_def)
  obtain s' r where del: "DeleteFunc (ot_store t) (\<lambda>v. GetId R v \<in> D) = (s', r)" by (metis prod.collapse)
  note A = DeleteFunc_addr[OF swf del]
  let ?as = "filter (\<lambda>a. GetId R (rowAt t a) \<in> D) (rangeResources (ot_store t))" and ?t1 = "t\<lparr>ot_store := s'\<rparr>"
  have live: "resource t i = Some a \<longleftrightarrow> live_addr (ot_store t) a \<and> GetId R (rowAt t a) = i" for i a
    using wf by (simp add: table_wf_def)
  have row: "rowAt ?t1 a = rowAt t a" if "live_addr (ot_store t) a" for a
    using A(2)[of a] that by (simp add: rowAt_def live_addr_def)
  have entry: "live_addr (ot_store t) a" if "q \<in> set (secondary (ot_index t))" "a \<in> set (entries (snd q))" for q a
    using wf that unfolding table_wf_def by blast
  have read1: "readTable (rowAt ?t1) (ot_index t) = tb_index T"
  proof -
    have "readTable (rowAt ?t1) (ot_index t) = readTable (rowAt t) (ot_index t)"
      using row entry live
      by (auto simp: readTable_def fun_eq_iff resource_def intro!: readIndex_cong option.map_cong)
    then show ?thesis using st by (simp add: stands_for_def)
  qed
  have ids: "(\<lambda>a. GetId R (rowAt ?t1 a)) ` set ?as = {i \<in> D. resource t i \<noteq> None}"
    using live row by (auto simp: set_rangeResources image_iff)
  have F: "ot_store (foldl (forgetRow R) ?t1 ?as) = ot_store ?t1 \<and>
    (\<forall>i. resource (foldl (forgetRow R) ?t1 ?as) i = (if i \<in> (\<lambda>a. GetId R (rowAt ?t1 a)) ` set ?as then None else resource ?t1 i)) \<and>
    readTable (rowAt ?t1) (ot_index (foldl (forgetRow R) ?t1 ?as)) =
      clearRows ((\<lambda>a. GetId R (rowAt ?t1 a)) ` set ?as) (readTable (rowAt ?t1) (ot_index ?t1)) \<and>
    (\<forall>q \<in> set (secondary (ot_index (foldl (forgetRow R) ?t1 ?as))).
       \<exists>q0 \<in> set (secondary (ot_index ?t1)). set (entries (snd q)) \<subseteq> set (entries (snd q0)))"
  proof (rule forget_fold[OF refl])
    fix a and X :: "'a indexedTable" assume a: "a \<in> set ?as" and X: "secondary X = secondary (readTable (rowAt ?t1) (ot_index ?t1))"
    then have la: "live_addr (ot_store t) a" "GetId R (rowAt t a) \<in> D" by (simp_all add: set_rangeResources)
    then have "resource t (GetId R (rowAt t a)) = Some a" by (simp add: live)
    then have "resById (tb_index T) (GetId R (rowAt t a)) = Some (rowAt t a)"
      using st by (auto simp: stands_for_def resource_def dest: arg_cong[where f = "\<lambda>x. resById x (GetId R (rowAt t a))"])
    from noop[OF la(2) this, of X] show "removeSecondaryIndices R X (rowAt ?t1 a) = X"
      using X row[OF la(1)] read1 by simp
  qed
  let ?t = "deleteRows R D t"
  have t: "?t = foldl (forgetRow R) ?t1 ?as" using False by (simp add: deleteRows_def del Let_def)
  note F = F[folded t, unfolded ids]
  have res: "resource ?t i = (if i \<in> D then None else resource t i)" for i
  proof -
    have "resource ?t i = (if i \<in> {i \<in> D. resource t i \<noteq> None} then None else resource ?t1 i)" using F by blast
    moreover have "resource ?t1 i = resource t i" by (simp add: resource_def)
    ultimately show ?thesis by auto
  qed
  have index: "readTable (rowAt ?t1) (ot_index ?t) = clearRows D (tb_index T)"
  proof -
    have "resById (tb_index T) i = None" if "resource t i = None" for i
      using that read1[symmetric] by (simp add: resource_def)
    then show ?thesis using F read1 by (auto simp: clearRows_def fun_eq_iff)
  qed
  have rows: "rowAt ?t = rowAt ?t1" using F by (simp add: rowAt_def fun_eq_iff)
  have came: "live_addr s' a \<longleftrightarrow> live_addr (ot_store t) a \<and> GetId R (rowAt t a) \<notin> D" for a
    using set_rangeResources[of a s'] set_rangeResources[of a "ot_store t"]
    unfolding DeleteFunc_rangeResources[OF swf del] by (auto simp: rowAt_def)
  have entry': "live_addr (ot_store t) a \<and> GetId R (rowAt t a) \<notin> ids"
    if q: "q \<in> set (secondary (ot_index ?t))" and a: "a \<in> set (entries (snd q))" for q a
  proof -
    have "\<exists>q0 \<in> set (secondary (ot_index ?t1)). set (entries (snd q)) \<subseteq> set (entries (snd q0))" using F q by blast
    then obtain q0 where "q0 \<in> set (secondary (ot_index t))" "a \<in> set (entries (snd q0))" using a by auto
    then show ?thesis using entry b by (auto simp: between_def unindexed_def)
  qed
  have store: "ot_store ?t = s'" using F by simp
  have "resource ?t i = Some a \<longleftrightarrow> live_addr s' a \<and> GetId R (rowAt ?t1 a) = i" for i a
    using live[of i a] came[of a] row[of a] by (auto simp: res)
  moreover have "live_addr s' a" if "q \<in> set (secondary (ot_index ?t))" "a \<in> set (entries (snd q))" for q a
    using entry'[OF that] D came[of a] by blast
  ultimately have "table_wf R ?t"
    using DeleteFunc_wf[OF swf del] unfolding table_wf_def rows store by blast
  moreover have "tb_version T i = int (version (slotAt s' a))" if "resource ?t i = Some a" for i a
  proof -
    have "resource t i = Some a" using that by (simp add: res split: if_splits)
    moreover from this have "slotAt s' a = slotAt (ot_store t) a" using live A(2) by (simp add: live_addr_def)
    ultimately show ?thesis using st by (simp add: stands_for_def)
  qed
  then have "stands_for ?t (T\<lparr>tb_index := clearRows D (tb_index T)\<rparr>)"
    by (simp add: stands_for_def rows index store)
  moreover have "unindexed R ids ?t" unfolding unindexed_def rows using entry' row by auto
  ultimately show ?thesis by (simp add: between_def)
qed

lemma between_finish:
  assumes b: "between R ids t T"
  shows "between R {} (finishTable R ws t) (T\<lparr>tb_index := finishIndexes R (tb_index T) ws\<rparr>)"
proof -
  let ?t = "finishTable R ws t"
  have wf: "table_wf R t" and st: "stands_for t T" using b by (simp_all add: between_def)
  have same: "rowAt ?t = rowAt t" "ot_store ?t = ot_store t" "resource ?t = resource t"
    by (simp_all add: finishTable_def rowAt_def resource_def finish_keeps_rows fun_eq_iff)
  have read: "readTable (rowAt t) (ot_index ?t) = finishIndexes R (tb_index T) ws"
    using st read_finishIndexes[OF idsOnly_same, where g = "rowAt t"] by (simp add: finishTable_def stands_for_def)
  have "live_addr (ot_store t) a" if q: "q \<in> set (secondary (ot_index ?t))" and a: "a \<in> set (entries (snd q))" for q a
  proof -
    obtain q0 where "q0 \<in> set (secondary (ot_index t))"
      "set (entries (snd q)) \<subseteq> set (entries (snd q0)) \<union> set (writtenRows (ot_index t) (idsOnly ws))"
      using finish_entries[of q "via R (rowAt t)" "ot_index t" "idsOnly ws"] q by (auto simp: finishTable_def)
    then have "a \<in> set (entries (snd q0)) \<or> (\<exists>i. resource t i = Some a)"
      using a writtenRows_subset[of "ot_index t" "idsOnly ws"] by (auto simp: ran_def resource_def)
    then show ?thesis using wf \<open>q0 \<in> _\<close> unfolding table_wf_def by blast
  qed
  then have "table_wf R ?t" using wf unfolding table_wf_def same by blast
  moreover have "stands_for ?t (T\<lparr>tb_index := finishIndexes R (tb_index T) ws\<rparr>)"
    using st by (simp add: stands_for_def same read)
  ultimately show ?thesis by (simp add: between_def unindexed_def)
qed

section \<open>The commit on all tables\<close>

lemma fold_onTable:
  assumes "distinct (map fst changes)" and empty: "\<And>t. f [] t = t"
  shows "foldl (\<lambda>b c. onTable (f (snd c)) (fst c) b) b changes n = f (writesTo changes n) (b n)"
  using assms(1)
proof (induction changes arbitrary: b)
  case (Cons c changes)
  then have "fst c = n \<Longrightarrow> writesTo changes n = []" by (auto simp: writesTo_def map_of_eq_None_iff[symmetric] split: option.split)
  then show ?case using Cons by (cases c) (auto simp: onTable_def writesTo_def empty)
qed (simp add: writesTo_def empty)

lemma applyWrite_table:
  "applyWrite ts r n =
     (if n = tr_dbName r \<and> liveRow ts n (tr_id r) \<noteq> None
      then putRow (tr_id r) (Some (tr_work r)) (tb_version (ts n) (tr_id r) + 1) (ts n) else ts n)"
  by (auto simp: applyWrite_def setRow_def putRow_def split: option.split)

lemma between_live: "between R ids t T \<Longrightarrow> (resource t i = None) = (resById (tb_index T) i = None)"
  by (auto simp: between_def stands_for_def resource_def dest: arg_cong[where f = "\<lambda>x. resById x i"])

lemma between_writes:
  assumes "\<And>n. between R (ids n) (b n) (ts n)"
    and "\<forall>r \<in> set rs. tr_id r \<in> ids (tr_dbName r) \<and> GetId R (tr_work r) = tr_id r"
  shows "between R (ids n) (foldl (\<lambda>b r. onTable (\<lambda>t. writeRow t (tr_id r) (tr_work r)) (tr_dbName r) b) b rs n) (foldl applyWrite ts rs n)"
  using assms
proof (induction rs arbitrary: b ts)
  case (Cons r rs)
  have "between R (ids m) (onTable (\<lambda>t. writeRow t (tr_id r) (tr_work r)) (tr_dbName r) b m) (applyWrite ts r m)" for m
  proof (cases "m = tr_dbName r")
    case True
    have bm: "between R (ids m) (b m) (ts m)" by (rule Cons.prems(1))
    show ?thesis
    proof (cases "resource (b m) (tr_id r)")
      case None
      then have "liveRow ts m (tr_id r) = None" using between_live[OF bm] by (simp add: liveRow_def)
      then show ?thesis using bm None by (simp add: True[symmetric] onTable_def writeRow_def applyWrite_table)
    next
      case (Some a)
      then have "liveRow ts m (tr_id r) \<noteq> None" using between_live[OF bm, of "tr_id r"] by (auto simp: liveRow_def)
      then show ?thesis
        using between_write[OF bm Some] Cons.prems(2) by (simp add: True onTable_def applyWrite_table)
    qed
  next
    case False
    then show ?thesis using Cons.prems(1)[of m] by (simp add: onTable_def applyWrite_table)
  qed
  then show ?case using Cons by simp
qed simp

lemma create_table:
  "relationApplyCreate R ts c n = (if n = nk_type (fst c) then putRow (GetId R (snd c)) (Some (snd c)) 0 (ts n) else ts n)"
  by (simp add: relationApplyCreate_def setRow_def putRow_def)

lemma between_creates:
  assumes "\<And>n. between R (ids n) (b n) (ts n)" and "distinct (map fst cs)"
    and "\<forall>c \<in> set cs. GetId R (snd c) = nk_id (fst c) \<and> liveRow ts (nk_type (fst c)) (nk_id (fst c)) = None"
  shows "between R (ids n) (foldl (\<lambda>b c. onTable (\<lambda>t. add R t (snd c)) (nk_type (fst c)) b) b cs n) (foldl (relationApplyCreate R) ts cs n)"
  using assms
proof (induction cs arbitrary: b ts)
  case (Cons c cs)
  have "between R (ids m) (onTable (\<lambda>t. add R t (snd c)) (nk_type (fst c)) b m) (relationApplyCreate R ts c m)" for m
    using Cons.prems(1)[of m] Cons.prems(3) between_create[of R "ids m" "b m" "ts m" "snd c"]
    by (auto simp: onTable_def create_table liveRow_def)
  moreover have "liveRow (relationApplyCreate R ts c) (nk_type (fst c')) (nk_id (fst c')) = None" if "c' \<in> set cs" for c'
  proof -
    have "fst c' \<noteq> fst c" using Cons.prems(2) that by (auto simp: image_iff)
    then have "\<not> (nk_type (fst c') = nk_type (fst c) \<and> nk_id (fst c') = nk_id (fst c))" by (metis nodeKey.expand)
    then show ?thesis using Cons.prems(3) that by (auto simp: relationApplyCreate_def)
  qed
  ultimately show ?case using Cons by simp
qed simp

lemma arenas_commit:
  assumes b: "\<And>n. between R {} (b n) (ts n)" and ok: "databaseOk R ts" and W: "writesFit R ts touched created removed"
    and live: "\<forall>r \<in> set touched. liveRow ts (tr_dbName r) (tr_id r) \<noteq> None"
    and fresh: "\<forall>c \<in> set created. liveRow ts (nk_type (fst c)) (nk_id (fst c)) = None"
  defines "changes \<equiv> transactionChanges touched created removed"
  shows "between R {} (commitArenas R changes touched created removed b n) (commitChanges R changes touched created removed ts n)"
proof -
  let ?ids = "\<lambda>n. pw_id ` set (writesTo changes n)"
  have tab: "table_ok R (tb_index (ts m))" for m using ok by (simp add: databaseOk_def)
  have dist: "distinct (map pw_id (writesTo changes m))" for m unfolding changes_def by (rule writes_distinct[OF W])
  note K = writesFit_keys[OF W] and A = addedTables_exact[OF ok W live]
  define b1 where "b1 = foldl (\<lambda>b c. onTable (prepareTable R (snd c)) (fst c) b) b changes"
  define ts1 where "ts1 = prepareTransactionIndexes R changes ts"
  define b2 where "b2 = foldl (\<lambda>b r. onTable (\<lambda>t. writeRow t (tr_id r) (tr_work r)) (tr_dbName r) b) b1 touched"
  define ts2 where "ts2 = foldl applyWrite ts1 touched"
  define b3 where "b3 = foldl (\<lambda>b c. onTable (\<lambda>t. add R t (snd c)) (nk_type (fst c)) b) b2 created"
  define ts3 where "ts3 = foldl (relationApplyCreate R) ts2 created"
  have added: "ts3 = addedTables R touched created removed ts"
    by (simp add: ts3_def ts2_def ts1_def addedTables_def changes_def)
  have prep_empty: "prepareTable R [] t = t" for t by (simp add: prepareTable_def idsOnly_def prepare_empty)
  have "b1 m = prepareTable R (writesTo changes m) (b m)" for m
    unfolding b1_def changes_def by (rule fold_onTable[where f = "prepareTable R", OF distinct_changes prep_empty])
  then have B1: "between R (?ids m) (b1 m) (ts1 m)" for m
    using between_prepare[OF b tab dist, of m] by (simp add: ts1_def prepared_table changes_def)
  have "\<forall>r \<in> set touched. tr_id r \<in> ?ids (tr_dbName r) \<and> GetId R (tr_work r) = tr_id r"
  proof
    fix r assume r: "r \<in> set touched"
    have "\<lparr>pw_id = tr_id r, work = Some (tr_work r), deleted = False\<rparr> \<in> set (writesTo changes (tr_dbName r))"
      unfolding changes_def writes_set[OF W] using r by blast
    then have "tr_id r \<in> ?ids (tr_dbName r)" by force
    then show "tr_id r \<in> ?ids (tr_dbName r) \<and> GetId R (tr_work r) = tr_id r"
      using W r by (simp add: writesFit_def rowFits_def)
  qed
  then have B2: "between R (?ids m) (b2 m) (ts2 m)" for m
    unfolding b2_def ts2_def by (intro between_writes B1)
  have ids_fit: "\<forall>c \<in> set created. GetId R (snd c) = nk_id (fst c) \<and> liveRow ts2 (nk_type (fst c)) (nk_id (fst c)) = None"
  proof
    fix c assume c: "c \<in> set created"
    have "liveRow ts1 (nk_type (fst c)) (nk_id (fst c)) = None"
      using fresh c by (simp add: ts1_def changes_def prepared_table liveRow_def prepareIndexes_rows)
    then have "liveRow ts2 (nk_type (fst c)) (nk_id (fst c)) = None"
      unfolding ts2_def by (simp add: fold_applyWrite_live[OF K(1)] split: option.split)
    then show "GetId R (snd c) = nk_id (fst c) \<and> liveRow ts2 (nk_type (fst c)) (nk_id (fst c)) = None"
      using W c by (simp add: writesFit_def rowFits_def)
  qed
  have B3: "between R (?ids m) (b3 m) (ts3 m)" for m
    unfolding b3_def ts3_def by (rule between_creates[OF B2 K(2) ids_fit])
  have B4: "between R (?ids m) (deleteKeys R removed b3 m) (applyDeletedNodes R removed ts3 m)" for m
  proof -
    let ?D = "{i. NodeKey m i \<in> set removed}"
    have "i \<in> ?ids m" if "i \<in> ?D" for i
    proof -
      have "\<lparr>pw_id = i, work = None, deleted = True\<rparr> \<in> set (writesTo changes m)"
        unfolding changes_def writes_set[OF W] using that by (auto intro!: bexI[of _ "NodeKey m i"])
      then show ?thesis by force
    qed
    then have "between R (?ids m) (deleteRows R ?D (b3 m)) ((ts3 m)\<lparr>tb_index := clearRows ?D (tb_index (ts3 m))\<rparr>)"
      using removed_noop[OF ok W live] by (intro between_delete[OF B3]) (auto simp: added liveRow_def)
    moreover have "applyDeletedNodes R removed ts3 m = (ts3 m)\<lparr>tb_index := clearRows ?D (tb_index (ts3 m))\<rparr>"
    proof (rule table.equality)
      note D = applyDeleted_exact[OF ok W live, folded added, of m]
      show "tb_version (applyDeletedNodes R removed ts3 m) = tb_version ((ts3 m)\<lparr>tb_index := clearRows ?D (tb_index (ts3 m))\<rparr>)"
        using D by (simp add: fun_eq_iff)
      show "tb_index (applyDeletedNodes R removed ts3 m) = tb_index ((ts3 m)\<lparr>tb_index := clearRows ?D (tb_index (ts3 m))\<rparr>)"
        by (rule indexedTable.equality) (use D in \<open>auto simp: fun_eq_iff liveRow_def\<close>)
    qed simp
    ultimately show ?thesis by (simp add: deleteKeys_def)
  qed
  have fin_empty: "finishTable R [] t = t" for t by (simp add: finishTable_def idsOnly_def finish_empty)
  have "commitArenas R changes touched created removed b n = finishTable R (writesTo changes n) (deleteKeys R removed b3 n)"
    unfolding commitArenas_def Let_def b1_def[symmetric] b2_def[symmetric] b3_def[symmetric]
    unfolding changes_def by (rule fold_onTable[where f = "finishTable R", OF distinct_changes fin_empty])
  moreover have "commitChanges R changes touched created removed ts n =
      (applyDeletedNodes R removed ts3 n)\<lparr>tb_index := finishIndexes R (tb_index (applyDeletedNodes R removed ts3 n)) (writesTo changes n)\<rparr>"
    unfolding commitChanges_def Let_def ts1_def[symmetric] ts2_def[symmetric] ts3_def[symmetric]
    by (simp add: changes_def finished_table)
  ultimately show ?thesis using between_finish[OF B4[of n], of "writesTo changes n"] by simp
qed

section \<open>Opening a table\<close>

lemma read_rowValues: "rowValues (via R g) sp p = rowValues R sp (g p)"
  by (simp add: rowValues_def)

lemma via_GetId: "GetId (via R g) = (\<lambda>p. GetId R (g p))"
  by (simp add: fun_eq_iff)

lemma read_index_ok:
  assumes ok: "index_ok (via R g) rows index"
  shows "index_ok R (g ` rows) (readIndex g index)"
proof -
  have r: "rows_ok (via R g) (spec index) rows" using ok by (simp add: index_ok_def)
  then have inj: "inj_on g rows" by (auto simp: rows_ok_def inj_on_def)
  have key: "sortKey R (spec index) (g p) = sortKey (via R g) (spec index) p" for p
    by (simp add: sortKey_def read_rowValues)
  have "rows_ok R (spec index) (g ` rows)"
    using r by (auto simp: rows_ok_def row_typed_def read_rowValues inj_on_def)
  moreover have "entries_ok R (g ` rows) (readIndex g index)"
    using ok inj by (auto simp: index_ok_def entries_ok_def key o_def distinct_map)
  moreover have "idOf (readIndex g index) vs = idOf index vs" for vs
  proof -
    have "uniqueValueID (readIndex g index) v = uniqueValueID index v" for v by (cases v) (simp_all add: readIndex_def)
    then show ?thesis by (simp add: idOf_def) (simp add: readIndex_def)
  qed
  then have "lookups_ok R (g ` rows) (readIndex g index)"
    using ok by (auto simp: index_ok_def lookups_ok_def read_rowValues inj_on_def)
  ultimately show ?thesis using ok by (simp add: index_ok_def)
qed

lemma seedCounter_bound: "v \<in> set (StorePointers s) \<Longrightarrow> gid v \<le> seedCounter gid s"
proof -
  have step: "m \<le> foldl (\<lambda>maxId p. if maxId < gid p then gid p else maxId) m ps \<and>
      (\<forall>p \<in> set ps. gid p \<le> foldl (\<lambda>maxId p. if maxId < gid p then gid p else maxId) m ps)" for m ps
  proof (induction ps arbitrary: m)
    case (Cons p ps)
    show ?case using Cons[of "if m < gid p then gid p else m"] by (auto split: if_splits)
  qed simp
  then show "v \<in> set (StorePointers s) \<Longrightarrow> gid v \<le> seedCounter gid s" unfolding seedCounter_def by blast
qed

lemma opened:
  assumes wf: "store_wf s" and ids: "unique_ids (GetId R) s"
    and specs: "\<forall>sp \<in> set specs. lookup_spec sp \<and> rows_ok R sp (set (StorePointers s))"
  shows "if \<forall>sp \<in> set specs. is_unique sp \<longrightarrow> inj_on (rowValues R sp) (set (StorePointers s))
    then \<exists>t. openTable R specs s = Inr t \<and> ot_store t = s \<and> table_wf R t \<and>
      table_ok R (readTable (rowAt t) (ot_index t)) \<and> map (\<lambda>q. spec (snd q)) (secondary (ot_index t)) = specs \<and>
      ot_counter t = seedCounter (GetId R) s
    else \<exists>sp \<in> set specs. openTable R specs s = Inl (ErrUniqueViolation (is_name sp))"
proof -
  let ?g = "\<lambda>a. item (slotAt s a)" and ?live = "rangeResources s"
  have rows: "set (StorePointers s) = ?g ` set ?live" by (simp add: StorePointers_def)
  have dist: "distinct (map (\<lambda>a. GetId R (?g a)) ?live)" using ids by (simp add: unique_ids_def StorePointers_def o_def)
  then have inj: "inj_on (\<lambda>a. GetId R (?g a)) (set ?live)" by (simp add: distinct_map)
  have inj_g: "inj_on ?g (set ?live)" using inj by (auto simp: inj_on_def)
  let ?qs = "secondary (initIndices specs)"
  have spec_at: "spec (snd q) \<in> set specs" if "q \<in> set ?qs" for q
    using that by (auto simp: initIndices_def newSecondaryIndex_def)
  have ok: "\<forall>q \<in> set ?qs. lookup_spec (spec (snd q)) \<and> rows_ok (via R ?g) (spec (snd q)) (set ?live)"
  proof
    fix q assume q: "q \<in> set ?qs"
    have "lookup_spec (spec (snd q)) \<and> rows_ok R (spec (snd q)) (?g ` set ?live)" using specs spec_at[OF q] rows by auto
    then show "lookup_spec (spec (snd q)) \<and> rows_ok (via R ?g) (spec (snd q)) (set ?live)"
      using inj by (auto simp: rows_ok_def row_typed_def read_rowValues via_GetId)
  qed
  have dup: "no_duplicates (via R ?g) ?live sp \<longleftrightarrow> (is_unique sp \<longrightarrow> inj_on (rowValues R sp) (set (StorePointers s)))" for sp
    using inj_g by (auto simp: no_duplicates_def rows read_rowValues inj_on_def)
  have all: "(\<forall>q \<in> set ?qs. no_duplicates (via R ?g) ?live (spec (snd q))) \<longleftrightarrow>
      (\<forall>sp \<in> set specs. is_unique sp \<longrightarrow> inj_on (rowValues R sp) (set (StorePointers s)))"
    by (auto simp: dup initIndices_def newSecondaryIndex_def)
  note A = rebuild_all[OF ok distinct_rangeResources, of "[]", unfolded all append_Nil]
  show ?thesis
  proof (cases "\<forall>sp \<in> set specs. is_unique sp \<longrightarrow> inj_on (rowValues R sp) (set (StorePointers s))")
    case True
    then obtain qs where qs: "rebuildSecondaryIndices (via R ?g) ?live (initIndices specs) = Inr ((initIndices specs)\<lparr>secondary := qs\<rparr>)"
        "list_all2 (rebuilt_from (via R ?g) ?live) ?qs qs"
      using A by (auto simp: rebuildSecondaryIndices_def)
    define t where "t = \<lparr>ot_store = s, ot_index = ((initIndices specs)\<lparr>secondary := qs\<rparr>)\<lparr>resById := indexByID (GetId R) s\<rparr>,
      ot_counter = seedCounter (GetId R) s, ot_persist = [], ot_deletes = []\<rparr>"
    have opens: "openTable R specs s = Inr t" by (simp add: openTable_def qs(1) t_def)
    have index: "index_ok (via R ?g) (set ?live) (snd q)" if "q \<in> set qs" for q
      using qs(2) that by (auto simp: list_all2_conv_all_nth in_set_conv_nth rebuilt_from_def)
    have row: "rowAt t = ?g" by (simp add: rowAt_def t_def fun_eq_iff)
    have res: "resource t i = Some a \<longleftrightarrow> live_addr s a \<and> GetId R (?g a) = i" for i a
      using indexByID_Some[OF ids] by (simp add: resource_def t_def)
    have parts: "ot_store t = s" "secondary (ot_index t) = qs" "ot_counter t = seedCounter (GetId R) s" by (simp_all add: t_def)
    have "live_addr s a" if "q \<in> set qs" "a \<in> set (entries (snd q))" for q a
      using index[OF that(1)] that(2) by (auto simp: index_ok_def entries_ok_def set_rangeResources)
    then have "table_wf R t"
      unfolding table_wf_def row parts using wf res by blast
    moreover have ran: "ran (\<lambda>i. map_option ?g (resource t i)) = ?g ` set ?live"
      using res by (auto simp: ran_def set_rangeResources image_iff)
    have "table_ok R (readTable (rowAt t) (ot_index t))"
    proof -
      have "ran (resById (readTable (rowAt t) (ot_index t))) = ?g ` set ?live"
        using ran by (simp add: readTable_def row resource_def)
      moreover have "index_ok R (?g ` set ?live) (readIndex ?g (snd q))" if "q \<in> set qs" for q
        by (rule read_index_ok[OF index[OF that]])
      moreover have "GetId R p = i" if "resById (readTable (rowAt t) (ot_index t)) i = Some p" for i p
        using that res by (auto simp: row resource_def)
      ultimately show ?thesis by (auto simp: table_ok_def row parts)
    qed
    moreover have "map (\<lambda>q. spec (snd q)) qs = specs"
    proof -
      have "map (\<lambda>q. spec (snd q)) qs = map (\<lambda>q. spec (snd q)) ?qs"
        using qs(2) by (induction rule: list_all2_induct) (auto simp: rebuilt_from_def)
      then show ?thesis by (simp add: initIndices_def newSecondaryIndex_def o_def)
    qed
    ultimately show ?thesis using True opens by (auto simp: parts)
  next
    case False
    with A obtain q where q: "q \<in> set ?qs" "rebuildSecondaryIndices (via R ?g) ?live (initIndices specs) = Inl (ErrUniqueViolation (is_name (spec (snd q))))"
      unfolding if_not_P[OF False] by (auto simp: rebuildSecondaryIndices_def)
    have "openTable R specs s = Inl (ErrUniqueViolation (is_name (spec (snd q))))" by (simp add: openTable_def q(2))
    then show ?thesis unfolding if_not_P[OF False] using spec_at[OF q(1)] by blast
  qed
qed

section \<open>A table with two people\<close>

definition peopleStore :: "person chunkStore" where
  "peopleStore = fst (Append (fst (Append newChunkStore (1, [1]))) (2, [2]))"

lemma peopleStore_rows: "store_wf peopleStore" "StorePointers peopleStore = [(1, [1]), (2, [2])]"
proof -
  obtain s1 a1 where s1: "Append newChunkStore (1 :: int, [1 :: byte]) = (s1, a1)" by (metis prod.collapse)
  obtain s2 a2 where s2: "Append s1 (2 :: int, [2 :: byte]) = (s2, a2)" by (metis prod.collapse)
  have eq: "peopleStore = s2" by (simp add: peopleStore_def s1 s2)
  have w1: "store_wf s1" by (rule Append_wf[OF store_wf_new s1])
  have "StorePointers newChunkStore = ([] :: person list)"
    by (simp add: StorePointers_def rangeResources_def newChunkStore_def)
  then show "store_wf peopleStore" "StorePointers peopleStore = [(1, [1]), (2, [2])]"
    using Append_StorePointers[OF store_wf_new s1] Append_StorePointers[OF w1 s2] Append_wf[OF w1 s2] by (simp_all add: eq)
qed

lemma peopleStore_specs:
  "unique_ids (GetId personR) peopleStore"
  "\<forall>sp \<in> set [demoSpec]. lookup_spec sp \<and> rows_ok personR sp (set (StorePointers peopleStore))"
  "\<forall>sp \<in> set [demoSpec]. is_unique sp \<longrightarrow> inj_on (rowValues personR sp) (set (StorePointers peopleStore))"
  by (simp_all add: unique_ids_def peopleStore_rows rows_ok_def inj_on_def)

text \<open>
  C31. Opening a table makes it ready for commits. On a well-formed arena without duplicate ids
  \<open>Open\<close> succeeds exactly when no unique index would hold one key twice; then the id map finds
  exactly the live rows, every index is exact, and the counter is at least every id, so that
  automatic ids do not collide. Otherwise it reports a violated index.
\<close>

theorem open_builds_a_ready_table:
  assumes "store_wf s" and "unique_ids (GetId R) s"
    and "\<forall>sp \<in> set specs. lookup_spec sp \<and> rows_ok R sp (set (StorePointers s))"
  shows "if \<forall>sp \<in> set specs. is_unique sp \<longrightarrow> inj_on (rowValues R sp) (set (StorePointers s))
    then \<exists>t. openTable R specs s = Inr t \<and> ot_store t = s \<and> table_wf R t \<and>
      table_ok R (readTable (rowAt t) (ot_index t)) \<and> map (\<lambda>q. spec (snd q)) (secondary (ot_index t)) = specs \<and>
      (\<forall>v \<in> set (StorePointers s). GetId R v \<le> ot_counter t)
    else \<exists>sp \<in> set specs. openTable R specs s = Inl (ErrUniqueViolation (is_name sp))"
  using opened[OF assms] seedCounter_bound[of _ s "GetId R"] by (auto split: if_splits)

theorem open_builds_a_ready_table_witness:
  "\<exists>t. openTable personR [demoSpec] peopleStore = Inr t \<and> ot_store t = peopleStore \<and> table_wf personR t \<and>
     table_ok personR (readTable (rowAt t) (ot_index t)) \<and> map (\<lambda>q. spec (snd q)) (secondary (ot_index t)) = [demoSpec] \<and>
     (\<forall>v \<in> set (StorePointers peopleStore). GetId personR v \<le> ot_counter t)"
  using open_builds_a_ready_table[OF peopleStore_rows(1) peopleStore_specs(1,2), unfolded if_P[OF peopleStore_specs(3)]] .

text \<open>
  C30. The commit on the arenas computes the commit on the rows. When every table's arena, id map
  and pointer indexes stand for a table of rows, then after preparing the indexes, writing through
  the slots, appending the created rows, tombstoning the deleted ones and finishing the
  indexes, they stand for the tables that the same commit of rows computes, versions included. The
  written, created and deleted rows are different rows, written rows are live and created ids are free.
\<close>

theorem arena_commit_agrees_with_rows:
  assumes "\<forall>n. table_wf R (b n) \<and> stands_for (b n) (ts n)" and "databaseOk R ts" and "writesFit R ts touched created removed"
    and "\<forall>r \<in> set touched. liveRow ts (tr_dbName r) (tr_id r) \<noteq> None"
    and "\<forall>c \<in> set created. liveRow ts (nk_type (fst c)) (nk_id (fst c)) = None"
  shows "table_wf R (commitArenas R (transactionChanges touched created removed) touched created removed b n) \<and>
    stands_for (commitArenas R (transactionChanges touched created removed) touched created removed b n)
      (commitChanges R (transactionChanges touched created removed) touched created removed ts n)"
proof -
  have "between R {} (b n) (ts n)" for n using assms(1) by (simp add: between_def unindexed_def)
  from arenas_commit[OF this assms(2-5)] show ?thesis by (simp add: between_def)
qed

definition rowsOf :: "'v openTable \<Rightarrow> 'v table" where
  "rowsOf t = \<lparr>tb_index = readTable (rowAt t) (ot_index t),
     tb_version = (\<lambda>i. case resource t i of None \<Rightarrow> 0 | Some a \<Rightarrow> int (version (slotAt (ot_store t) a)))\<rparr>"

lemma rowsOf_stands: "stands_for t (rowsOf t)"
  by (simp add: stands_for_def rowsOf_def)

text \<open>Create person 3, change person 1 and delete person 2 on the arena.\<close>

theorem arena_commit_agrees_with_rows_witness:
  "\<exists>t. openTable personR [demoSpec] peopleStore = Inr t \<and>
     (let touched = [personCopy 1 0 [1] [9]]; created = [(NodeKey ''Person'' 3, (3, [1]))]; removed = [NodeKey ''Person'' 2];
          changes = transactionChanges touched created removed in
      stands_for (commitArenas personR changes touched created removed (\<lambda>_. t) ''Person'')
        (commitChanges personR changes touched created removed (\<lambda>_. rowsOf t) ''Person''))"
proof -
  obtain t where t: "openTable personR [demoSpec] peopleStore = Inr t" "ot_store t = peopleStore" "table_wf personR t"
    "table_ok personR (readTable (rowAt t) (ot_index t))" "map (\<lambda>q. spec (snd q)) (secondary (ot_index t)) = [demoSpec]"
    using opened[OF peopleStore_rows(1) peopleStore_specs(1,2), unfolded if_P[OF peopleStore_specs(3)]]
    by (elim exE conjE) (rule that)
  have specs: "spec (snd q) = demoSpec" if "q \<in> set (secondary (ot_index t))" for q
    using t(5) that by (cases "secondary (ot_index t)") auto
  have ids: "resource t i = None \<longleftrightarrow> i \<notin> {1, 2}" for i
  proof -
    have "resource t i \<noteq> None \<longleftrightarrow> (\<exists>a \<in> set (rangeResources peopleStore). fst (item (slotAt peopleStore a)) = i)"
      using t(3) by (auto simp: table_wf_def t(2) rowAt_def set_rangeResources)
    also have "\<dots> \<longleftrightarrow> i \<in> fst ` set (StorePointers peopleStore)" by (auto simp: StorePointers_def image_iff)
    finally show ?thesis by (auto simp: peopleStore_rows)
  qed
  let ?touched = "[personCopy 1 0 [1] [9]]" and ?created = "[(NodeKey ''Person'' 3, (3 :: int, [1 :: byte]))]" and ?removed = "[NodeKey ''Person'' 2]"
  have fit: "writesFit personR (\<lambda>_. rowsOf t) ?touched ?created ?removed"
    using specs by (auto simp: writesFit_def writtenKeys_def personCopy_def rowFits_def rowsOf_def)
  have live: "\<forall>r \<in> set ?touched. liveRow (\<lambda>_. rowsOf t) (tr_dbName r) (tr_id r) \<noteq> None"
    and fresh: "\<forall>c \<in> set ?created. liveRow (\<lambda>_. rowsOf t) (nk_type (fst c)) (nk_id (fst c)) = None"
    using ids[of 1] ids[of 3] by (auto simp: liveRow_def rowsOf_def personCopy_def resource_def)
  have all: "\<forall>n. table_wf personR ((\<lambda>_. t) n) \<and> stands_for ((\<lambda>_. t) n) ((\<lambda>_. rowsOf t) n)"
    using t(3) rowsOf_stands by blast
  have ok: "databaseOk personR (\<lambda>_. rowsOf t)" using t(4) by (simp add: databaseOk_def rowsOf_def)
  show ?thesis
    using arena_commit_agrees_with_rows[OF all ok fit live fresh, of "''Person''"] t(1) by (auto simp: Let_def)
qed

end
