(* ===== verification/Schema_Rows.thy ===== *)
theory Schema_Rows
  imports Index_Ownership
begin

text \<open>
  Entities as persisted rows (\<open>schema.go\<close>): which columns a type has, how a row is taken from an
  entity, and how an entity is built from a row at load, with hollow pointers that carry only the
  key of their target until \<open>fillRelation\<close> replaces them.
\<close>

section \<open>Allocation\<close>

text \<open>Addresses from \<open>brk\<close> on are free; \<open>reflect.New\<close> takes the next one.\<close>

record memory =
  cells :: "nat heap"
  brk :: nat

definition newEntity :: "nat entity \<Rightarrow> memory \<Rightarrow> memory \<times> nat" where
  "newEntity e m = (\<lparr>cells = (cells m)(brk m := e), brk = brk m + 1\<rparr>, brk m)"

text \<open>
  What reflection knows beyond the declarations: the zero value of each scalar type, and the
  method \<open>GetId\<close> of a type as a function of the scalar fields.
\<close>

record rowTypes =
  zeroOf :: "string \<Rightarrow> scalar"
  idOf :: "string \<Rightarrow> (string \<Rightarrow> scalar option) \<Rightarrow> int"

definition zeroScalars :: "typeEnv \<Rightarrow> rowTypes \<Rightarrow> string \<Rightarrow> string \<Rightarrow> scalar option" where
  "zeroScalars env T t name =
     (case FieldByName env t name of
        None \<Rightarrow> None
      | Some (i, f) \<Rightarrow> (case rf_type f of ScalarType s \<Rightarrow> Some (zeroOf T s) | _ \<Rightarrow> None))"

definition zeroPointer :: "typeEnv \<Rightarrow> string \<Rightarrow> nat \<Rightarrow> 'p fieldValue" where
  "zeroPointer env t i =
     (if i < length (structFields env t)
      then (case rf_type (structFields env t ! i) of SliceType _ \<Rightarrow> Slice [] | _ \<Rightarrow> Pointer None)
      else Pointer None)"

definition zeroEntity :: "typeEnv \<Rightarrow> rowTypes \<Rightarrow> string \<Rightarrow> 'p entity" where
  "zeroEntity env T t =
     \<lparr>getId = idOf T t (zeroScalars env T t), scalars = zeroScalars env T t, pointers = zeroPointer env t\<rparr>"

section \<open>The columns of a type\<close>

definition specsByField :: "typeEnv \<Rightarrow> string \<Rightarrow> (string \<times> relationSpec) list result" where
  "specsByField env t =
     bind_result (relationSpecs env t) (\<lambda>specs. Inr (foldl (\<lambda>out r. AList.update (fieldName r) r out) [] specs))"

definition persistedRelation :: "relationSpec \<Rightarrow> bool" where
  "persistedRelation r \<longleftrightarrow> \<not> many r \<or> kind r = BorrowRelation \<or> kind r = OptionRelation"

definition relationColumnName :: "relationSpec \<Rightarrow> string" where
  "relationColumnName r = fieldName r @ matchField r"

definition relationColumnType :: "typeEnv \<Rightarrow> relationSpec \<Rightarrow> reflectType result" where
  "relationColumnType env r =
     (case FieldByName env (target r) (matchField r) of
        None \<Rightarrow> Inl (Panic ''relation target field does not exist'')
      | Some (i, f) \<Rightarrow> Inr (if many r then SliceType (rf_type f) else rf_type f))"

text \<open>\<open>reflect.StructOf\<close> panics on unexported and on duplicate names.\<close>

definition exportedName :: "string \<Rightarrow> bool" where
  "exportedName n = (case n of [] \<Rightarrow> False | c # _ \<Rightarrow> CHR ''A'' \<le> c \<and> c \<le> CHR ''Z'')"

definition StructOf :: "(string \<times> reflectType) list \<Rightarrow> unit result" where
  "StructOf columns =
     (if \<not> (\<forall>c \<in> set columns. exportedName (fst c)) then Inl (Panic ''field is unexported'')
      else if \<not> distinct (map fst columns) then Inl (Panic ''duplicate field'')
      else Inr ())"

text \<open>The fields that are persisted, each with the name of its column, and the columns with their types.\<close>

definition schemaField ::
  "typeEnv \<Rightarrow> (string \<times> relationSpec) list \<Rightarrow> (string \<times> string) list \<times> (string \<times> reflectType) list \<Rightarrow> relField \<Rightarrow>
   ((string \<times> string) list \<times> (string \<times> reflectType) list) result" where
  "schemaField env specs st f =
     (case map_of specs (rf_name f) of
        Some r \<Rightarrow>
          if \<not> persistedRelation r then Inr st
          else bind_result (relationColumnType env r)
            (\<lambda>typ. Inr (fst st @ [(rf_name f, relationColumnName r)], snd st @ [(relationColumnName r, typ)]))
      | None \<Rightarrow> Inr (fst st @ [(rf_name f, rf_name f)], snd st @ [(rf_name f, rf_type f)]))"

definition schemaFor :: "typeEnv \<Rightarrow> string \<Rightarrow> (string \<times> string) list result" where
  "schemaFor env t =
     (case specsByField env t of
        Inl e \<Rightarrow> Inl (Panic ''relation schema'')
      | Inr specs \<Rightarrow>
          bind_result (fold_result (schemaField env specs) (structFields env t) ([], []))
            (\<lambda>st. bind_result (StructOf (snd st)) (\<lambda>_. Inr (fst st))))"

section \<open>Taking a row from an entity\<close>

text \<open>
  The value of a column: a scalar field, a field of any other type, the key of a to-one relation
  (\<open>None\<close> is the zero value) or the keys of a slice of references. \<open>vals\<close> are the fields of an
  entity that are neither scalars nor relations.
\<close>

datatype 'v column = ScalarColumn scalar | OtherColumn 'v | KeyColumn "scalar option" | KeysColumn "scalar list"

definition normalizeField ::
  "(string \<times> relationSpec) list \<Rightarrow> 'p heap \<Rightarrow> 'p \<Rightarrow> (string \<Rightarrow> 'v) \<Rightarrow> string \<times> string \<Rightarrow> string \<times> 'v column" where
  "normalizeField specs h a vals pair =
     (snd pair,
      case map_of specs (fst pair) of
        None \<Rightarrow> (case scalars (h a) (fst pair) of Some v \<Rightarrow> ScalarColumn v | None \<Rightarrow> OtherColumn (vals (fst pair)))
      | Some r \<Rightarrow>
          if \<not> many r then KeyColumn (case fieldPointers h a r of [] \<Rightarrow> None | p # _ \<Rightarrow> relationKey h p (matchField r))
          else KeysColumn (List.map_filter (\<lambda>p. relationKey h p (matchField r)) (fieldPointers h a r)))"

definition normalizeToSchema ::
  "typeEnv \<Rightarrow> string \<Rightarrow> 'p heap \<Rightarrow> 'p \<Rightarrow> (string \<Rightarrow> 'v) \<Rightarrow> (string \<times> 'v column) list result" where
  "normalizeToSchema env t h a vals =
     bind_result (specsByField env t)
       (\<lambda>specs. bind_result (schemaFor env t) (\<lambda>cols. Inr (map (normalizeField specs h a vals) cols)))"

section \<open>Building an entity from a row\<close>

definition hollow :: "typeEnv \<Rightarrow> rowTypes \<Rightarrow> relationSpec \<Rightarrow> scalar \<Rightarrow> 'p entity" where
  "hollow env T r v =
     (let sc = (zeroScalars env T (target r))(matchField r \<mapsto> v)
      in (zeroEntity env T (target r))\<lparr>scalars := sc, getId := idOf T (target r) sc\<rparr>)"

definition newHollow :: "typeEnv \<Rightarrow> rowTypes \<Rightarrow> relationSpec \<Rightarrow> memory \<times> nat option list \<Rightarrow> scalar \<Rightarrow> memory \<times> nat option list" where
  "newHollow env T r st v = (let q = newEntity (hollow env T r v) (fst st) in (fst q, snd st @ [Some (snd q)]))"

definition setPointers :: "nat \<Rightarrow> 'p fieldValue \<Rightarrow> 'p entity \<Rightarrow> 'p entity" where
  "setPointers i v e = e\<lparr>pointers := (pointers e)(i := v)\<rparr>"

definition setScalar :: "string \<Rightarrow> scalar \<Rightarrow> 'p entity \<Rightarrow> 'p entity" where
  "setScalar n v e = e\<lparr>scalars := (scalars e)(n \<mapsto> v)\<rparr>"

type_synonym 'v inflateState = "memory \<times> nat entity \<times> (string \<Rightarrow> 'v)"

definition inflateRelation :: "typeEnv \<Rightarrow> rowTypes \<Rightarrow> relationSpec \<Rightarrow> 'v column \<Rightarrow> 'v inflateState \<Rightarrow> 'v inflateState result" where
  "inflateRelation env T r c st =
     (let m = fst st; e = fst (snd st); vals = snd (snd st) in
      if \<not> many r then
        (case c of
           KeyColumn None \<Rightarrow> Inr st
         | KeyColumn (Some v) \<Rightarrow>
             if isZero v then Inr st
             else let q = newEntity (hollow env T r v) m in Inr (fst q, setPointers (fieldIndex r) (Pointer (Some (snd q))) e, vals)
         | _ \<Rightarrow> Inl (Panic ''reflect.Set''))
      else
        (case c of
           KeysColumn ks \<Rightarrow>
             let q = foldl (newHollow env T r) (m, []) ks in Inr (fst q, setPointers (fieldIndex r) (Slice (snd q)) e, vals)
         | _ \<Rightarrow> Inl (Panic ''reflect.Set'')))"

definition inflateField ::
  "typeEnv \<Rightarrow> rowTypes \<Rightarrow> string \<Rightarrow> (string \<times> relationSpec) list \<Rightarrow> (string \<times> 'v column) list \<Rightarrow> 'v inflateState \<Rightarrow> string \<times> string \<Rightarrow>
   'v inflateState result" where
  "inflateField env T t specs row st pair =
     (case map_of row (snd pair) of
        None \<Rightarrow> Inl (ErrFmt ''persisted column is missing'')
      | Some c \<Rightarrow>
          if FieldByName env t (fst pair) = None then Inl (ErrFmt ''entity field is missing or unsettable'')
          else (case map_of specs (fst pair) of
             None \<Rightarrow>
               (case c of
                  ScalarColumn v \<Rightarrow> Inr (fst st, setScalar (fst pair) v (fst (snd st)), snd (snd st))
                | OtherColumn x \<Rightarrow> Inr (fst st, fst (snd st), (snd (snd st))(fst pair := x))
                | _ \<Rightarrow> Inl (Panic ''reflect.Set''))
           | Some r \<Rightarrow> if \<not> persistedRelation r then Inr st else inflateRelation env T r c st))"

text \<open>\<open>noVals\<close> are the zero values of the other fields.\<close>

definition inflateRow ::
  "typeEnv \<Rightarrow> rowTypes \<Rightarrow> string \<Rightarrow> (string \<times> relationSpec) list \<Rightarrow> (string \<times> string) list \<Rightarrow> (string \<Rightarrow> 'v) \<Rightarrow> memory \<Rightarrow>
   (string \<times> 'v column) list \<Rightarrow> 'v inflateState result" where
  "inflateRow env T t specs cols noVals m row =
     bind_result (fold_result (inflateField env T t specs row) cols (m, zeroEntity env T t, noVals))
       (\<lambda>st. Inr (fst st, (fst (snd st))\<lparr>getId := idOf T t (scalars (fst (snd st)))\<rparr>, snd (snd st)))"

definition inflateRows ::
  "typeEnv \<Rightarrow> rowTypes \<Rightarrow> string \<Rightarrow> (string \<Rightarrow> 'v) \<Rightarrow> memory \<Rightarrow> (string \<times> 'v column) list list \<Rightarrow>
   (memory \<times> (nat entity \<times> (string \<Rightarrow> 'v)) list) result" where
  "inflateRows env T t noVals m rows =
     bind_result (specsByField env t)
       (\<lambda>specs. bind_result (schemaFor env t)
          (\<lambda>cols. fold_result
             (\<lambda>st row. bind_result (inflateRow env T t specs cols noVals (fst st) row) (\<lambda>r. Inr (fst r, snd st @ [snd r]))) rows (m, [])))"

section \<open>The columns of an accepted type\<close>

lemma parsed_parts:
  "parseRelationField env t i = Inr (Some s) \<Longrightarrow>
   fieldIndex s = i \<and> fieldName s = rf_name (structFields env t ! i) \<and> relationTarget (rf_type (structFields env t ! i)) = Some (target s, many s)"
  by (auto simp: parseRelationField_def Let_def split: option.splits if_splits)

lemma spec_parts:
  assumes "relationSpecs env t = Inr specs" and "s \<in> set specs"
  shows "fieldIndex s < length (structFields env t)" "fieldName s = rf_name (structFields env t ! fieldIndex s)"
    "relationTarget (rf_type (structFields env t ! fieldIndex s)) = Some (target s, many s)"
proof -
  obtain fs where fs: "map_of (structs env) t = Some fs" using assms(1) by (auto simp: relationSpecs_def split: option.splits)
  let ?ok = "\<lambda>s. fieldIndex s < length fs \<and> fieldName s = rf_name (structFields env t ! fieldIndex s) \<and>
    relationTarget (rf_type (structFields env t ! fieldIndex s)) = Some (target s, many s)"
  have "\<forall>s \<in> set specs. ?ok s"
    by (rule fold_result_invariant[where I = "\<lambda>out. \<forall>s \<in> set out. ?ok s"
          and f = "\<lambda>out i. bind_result (parseRelationField env t i) (\<lambda>r. Inr (case r of None \<Rightarrow> out | Some s \<Rightarrow> out @ [s]))"
          and xs = "[0 ..< length fs]" and s = "[]"])
      (use assms(1) fs in \<open>auto simp: relationSpecs_def bind_result_def structFields_def dest!: parsed_parts split: sum.splits option.splits\<close>)
  then show "fieldIndex s < length (structFields env t)" "fieldName s = rf_name (structFields env t ! fieldIndex s)"
    "relationTarget (rf_type (structFields env t ! fieldIndex s)) = Some (target s, many s)"
    using assms(2) fs by (auto simp: structFields_def)
qed

definition namedFields :: "typeEnv \<Rightarrow> string \<Rightarrow> bool" where
  "namedFields env t \<longleftrightarrow> distinct (map rf_name (structFields env t))"

lemma findField_nth: "distinct (map rf_name fs) \<Longrightarrow> i < length fs \<Longrightarrow> findField j (rf_name (fs ! i)) fs = Some (j + i, fs ! i)"
proof (induction fs arbitrary: i j)
  case (Cons f fs)
  then show ?case
  proof (cases i)
    case (Suc k)
    then have "rf_name (fs ! k) \<in> rf_name ` set fs" using Cons.prems(2) by simp
    then have "rf_name f \<noteq> rf_name (fs ! k)" using Cons.prems(1) by auto
    then show ?thesis using Suc Cons by simp
  qed simp
qed simp

lemma findField_None: "findField j n fs = None \<longleftrightarrow> n \<notin> rf_name ` set fs"
  by (induction fs arbitrary: j) auto

lemma FieldByName_nth:
  "namedFields env t \<Longrightarrow> i < length (structFields env t) \<Longrightarrow>
   FieldByName env t (rf_name (structFields env t ! i)) = Some (i, structFields env t ! i)"
  unfolding namedFields_def FieldByName_def using findField_nth[of "structFields env t" i 0] by simp

lemma FieldByName_None: "FieldByName env t n = None \<longleftrightarrow> n \<notin> rf_name ` set (structFields env t)"
  by (simp add: FieldByName_def findField_None)

lemma specs_named:
  assumes "relationSpecs env t = Inr specs" "namedFields env t" "r \<in> set specs" "s \<in> set specs" "fieldName r = fieldName s"
  shows "r = s"
proof -
  have "fieldIndex r = fieldIndex s"
    using spec_parts(1,2)[OF assms(1,3)] spec_parts(1,2)[OF assms(1,4)] assms(2,5)
      nth_eq_iff_index_eq[of "map rf_name (structFields env t)" "fieldIndex r" "fieldIndex s"] by (simp add: namedFields_def)
  then show ?thesis using specs_distinct[OF assms(1)] assms(3,4) by (auto simp: distinct_map inj_on_def)
qed

lemma specs_by_field:
  assumes s: "relationSpecs env t = Inr specs" and n: "namedFields env t"
  obtains sb where "specsByField env t = Inr sb" "\<And>name r. map_of sb name = Some r \<longleftrightarrow> r \<in> set specs \<and> fieldName r = name"
proof -
  let ?f = "foldl (\<lambda>out r. AList.update (fieldName r) r out) []"
  have "map_of (?f rs) name = Some r \<longleftrightarrow> r \<in> set rs \<and> fieldName r = name" if "set rs \<subseteq> set specs" for rs name r
    using that
  proof (induction rs rule: rev_induct)
    case (snoc q rs)
    then have IH: "map_of (?f rs) name = Some r \<longleftrightarrow> r \<in> set rs \<and> fieldName r = name" by simp
    have "r = q" if "r \<in> set rs" "fieldName r = fieldName q" using specs_named[OF s n, of r q] that snoc.prems by auto
    then show ?case using IH by (auto simp: update_conv')
  qed simp
  then show thesis using that[of "?f specs"] s by (simp add: specsByField_def)
qed

definition columnFor :: "(string \<times> relationSpec) list \<Rightarrow> string \<Rightarrow> string" where
  "columnFor sb n = (case map_of sb n of None \<Rightarrow> n | Some r \<Rightarrow> relationColumnName r)"

definition keptField :: "(string \<times> relationSpec) list \<Rightarrow> string \<Rightarrow> bool" where
  "keptField sb n \<longleftrightarrow> (case map_of sb n of None \<Rightarrow> True | Some r \<Rightarrow> persistedRelation r)"

lemma schema_fields:
  assumes "schemaFor env t = Inr cols" and sb: "specsByField env t = Inr sb"
  shows "cols = map (\<lambda>n. (n, columnFor sb n)) (filter (keptField sb) (map rf_name (structFields env t)))"
    and "distinct (map snd cols)"
proof -
  have fold: "fst st' = fst st @ map (\<lambda>n. (n, columnFor sb n)) (filter (keptField sb) (map rf_name fs)) \<and>
      map fst (snd st') = map snd (fst st) @ map (columnFor sb) (filter (keptField sb) (map rf_name fs))"
    if "fold_result (schemaField env sb) fs st = Inr st'" "map fst (snd st) = map snd (fst st)" for fs st st'
    using that
  proof (induction fs arbitrary: st)
    case (Cons f fs)
    then obtain st1 where st1: "schemaField env sb st f = Inr st1" "fold_result (schemaField env sb) fs st1 = Inr st'"
      by (auto split: sum.splits)
    have step: "fst st1 = fst st @ map (\<lambda>n. (n, columnFor sb n)) (filter (keptField sb) [rf_name f]) \<and> map fst (snd st1) = map snd (fst st1)"
      using st1(1) Cons.prems(2)
      by (auto simp: schemaField_def bind_result_def columnFor_def keptField_def split: option.splits if_splits sum.splits)
    then show ?case using Cons.IH[OF st1(2)] by auto
  qed simp
  obtain st where st: "fold_result (schemaField env sb) (structFields env t) ([], []) = Inr st" "StructOf (snd st) = Inr ()" "cols = fst st"
    using assms by (auto simp: schemaFor_def bind_result_def split: sum.splits)
  note F = fold[OF st(1)]
  show "cols = map (\<lambda>n. (n, columnFor sb n)) (filter (keptField sb) (map rf_name (structFields env t)))"
    using F by (simp add: st(3))
  have "distinct (map fst (snd st))" using st(2) by (auto simp: StructOf_def split: if_splits)
  then show "distinct (map snd cols)" using F by (simp add: st(3) o_def)
qed

section \<open>From an entity to a row and back\<close>

definition pointersOf :: "'p entity \<Rightarrow> relationSpec \<Rightarrow> 'p option list" where
  "pointersOf e r = (case pointers e (fieldIndex r) of Pointer p \<Rightarrow> [p] | Slice ps \<Rightarrow> ps)"

text \<open>
  An entity as its type declares it. \<open>T\<close> only describes the zero values and \<open>GetId\<close>.
\<close>

definition entityOf ::
  "typeEnv \<Rightarrow> rowTypes \<Rightarrow> string \<Rightarrow> relationSpec list \<Rightarrow> (string \<Rightarrow> 'v) \<Rightarrow> 'p entity \<Rightarrow> (string \<Rightarrow> 'v) \<Rightarrow> bool" where
  "entityOf env T t specs noVals e vals \<longleftrightarrow>
     getId e = idOf T t (scalars e) \<and>
     (\<forall>n. scalars e n = None \<longleftrightarrow> zeroScalars env T t n = None) \<and>
     (\<forall>n. zeroScalars env T t n \<noteq> None \<or> n \<in> fieldName ` set specs \<or> FieldByName env t n = None \<longrightarrow> vals n = noVals n) \<and>
     (\<forall>r \<in> set specs. if many r then \<exists>ps. pointers e (fieldIndex r) = Slice ps else \<exists>p. pointers e (fieldIndex r) = Pointer p)"

text \<open>The keys a persisted relation field of an entity holds, nil and zero keys left out.\<close>

definition fieldKeys :: "'p heap \<Rightarrow> 'p entity \<Rightarrow> relationSpec \<Rightarrow> scalar list" where
  "fieldKeys h e r = List.map_filter (\<lambda>p. relationKey h p (matchField r)) (pointersOf e r)"

text \<open>What a relation field is after inflating: hollow pointers with these keys.\<close>

definition inflatedField :: "memory \<Rightarrow> nat entity \<Rightarrow> relationSpec \<Rightarrow> scalar list \<Rightarrow> bool" where
  "inflatedField m e r ks \<longleftrightarrow>
     (\<forall>a. Some a \<in> set (pointersOf e r) \<longrightarrow> a < brk m) \<and>
     (if many r then \<exists>ps. pointers e (fieldIndex r) = Slice ps \<and> map (\<lambda>p. relationKey (cells m) p (matchField r)) ps = map Some ks
      else \<exists>p. pointers e (fieldIndex r) = Pointer p \<and> relationKey (cells m) p (matchField r) = (case ks of [] \<Rightarrow> None | k # _ \<Rightarrow> Some k))"

lemma relationKey_some: "relationKey h p n = Some v \<Longrightarrow> \<not> isZero v"
  by (auto simp: relationKey_def split: option.splits if_splits)

lemma fieldKeys_nonzero: "v \<in> set (fieldKeys h e r) \<Longrightarrow> \<not> isZero v"
  by (auto simp: fieldKeys_def map_filter_def dest: relationKey_some)

lemma inflatedField_grow:
  assumes "inflatedField m e r ks" and "brk m \<le> brk m'" "\<forall>x < brk m. cells m' x = cells m x"
    and "pointers e' (fieldIndex r) = pointers e (fieldIndex r)"
  shows "inflatedField m' e' r ks"
proof -
  have same: "pointersOf e' r = pointersOf e r" using assms(4) by (simp add: pointersOf_def)
  have key: "relationKey (cells m') p n = relationKey (cells m) p n" if "p \<in> set (pointersOf e r)" for p n
    using assms(1,3) that by (cases p) (auto simp: inflatedField_def relationKey_def)
  have "map (\<lambda>p. relationKey (cells m') p (matchField r)) (pointersOf e r) = map (\<lambda>p. relationKey (cells m) p (matchField r)) (pointersOf e r)"
    using key by simp
  then have all: "map (\<lambda>p. relationKey (cells m') p (matchField r)) ps = map (\<lambda>p. relationKey (cells m) p (matchField r)) ps"
    if "pointersOf e r = ps" for ps using that by blast
  show ?thesis
  proof (cases "many r")
    case True
    then obtain ps where "pointers e (fieldIndex r) = Slice ps" using assms(1) by (auto simp: inflatedField_def)
    then show ?thesis using True assms all[of ps] unfolding inflatedField_def same by (auto simp: pointersOf_def)
  next
    case False
    then obtain p where "pointers e (fieldIndex r) = Pointer p" using assms(1) by (auto simp: inflatedField_def)
    then show ?thesis using False assms all[of "[p]"] unfolding inflatedField_def same by (auto simp: pointersOf_def)
  qed
qed

lemma newEntity_grow: "newEntity e m = (m', a) \<Longrightarrow> a = brk m \<and> brk m' = Suc (brk m) \<and> cells m' a = e \<and> (\<forall>x < brk m. cells m' x = cells m x)"
  by (auto simp: newEntity_def)

lemma hollow_key: "\<not> isZero v \<Longrightarrow> cells m a = hollow env T r v \<Longrightarrow> relationKey (cells m) (Some a) (matchField r) = Some v"
  by (simp add: relationKey_def hollow_def Let_def)

lemma newHollows:
  assumes "\<forall>k \<in> set ks. \<not> isZero k" and "foldl (newHollow env T r) (m, ps) ks = (m', qs)"
  shows "brk m \<le> brk m' \<and> (\<forall>x < brk m. cells m' x = cells m x) \<and>
    (\<exists>new. qs = ps @ new \<and> map (\<lambda>p. relationKey (cells m') p (matchField r)) new = map Some ks \<and> (\<forall>a. Some a \<in> set new \<longrightarrow> a < brk m'))"
  using assms
proof (induction ks arbitrary: m ps)
  case (Cons k ks)
  let ?m1 = "\<lparr>cells = (cells m)(brk m := hollow env T r k), brk = brk m + 1\<rparr>"
  have f: "foldl (newHollow env T r) (?m1, ps @ [Some (brk m)]) ks = (m', qs)"
    using Cons.prems(2) by (simp add: newHollow_def[of env T r "(m, ps)" k] newEntity_def)
  from Cons.IH[OF _ f] Cons.prems(1) obtain new where IH: "brk ?m1 \<le> brk m'" "\<forall>x < brk ?m1. cells m' x = cells ?m1 x"
    "qs = ps @ Some (brk m) # new" "map (\<lambda>p. relationKey (cells m') p (matchField r)) new = map Some ks" "\<forall>a. Some a \<in> set new \<longrightarrow> a < brk m'"
    by auto
  have "cells m' (brk m) = hollow env T r k" using IH(2) by simp
  then have "relationKey (cells m') (Some (brk m)) (matchField r) = Some k"
    using Cons.prems(1) by (intro hollow_key[where env = env and T = T]) simp_all
  then show ?case using IH by (intro conjI exI[of _ "Some (brk m) # new"]) auto
qed auto

lemma inflate_relation:
  assumes p: "persistedRelation r" and nz: "\<forall>k \<in> set ks. \<not> isZero k" and one: "\<not> many r \<longrightarrow> length ks \<le> 1"
    and start: "pointers e (fieldIndex r) = (if many r then Slice [] else Pointer None)"
    and c: "c = (if many r then KeysColumn ks else KeyColumn (case ks of [] \<Rightarrow> None | k # _ \<Rightarrow> Some k))"
  shows "\<exists>m' fv. inflateRelation env T r c (m, e, vals) = Inr (m', setPointers (fieldIndex r) fv e, vals) \<and>
    brk m \<le> brk m' \<and> (\<forall>x < brk m. cells m' x = cells m x) \<and> inflatedField m' (setPointers (fieldIndex r) fv e) r ks"
proof (cases "many r")
  case True
  obtain m' qs where q: "foldl (newHollow env T r) (m, []) ks = (m', qs)" by fastforce
  from newHollows[OF nz q] True show ?thesis
    by (auto simp: inflateRelation_def c q Let_def inflatedField_def pointersOf_def setPointers_def)
next
  case False
  show ?thesis
  proof (cases ks)
    case Nil
    have "setPointers (fieldIndex r) (Pointer None) e = e"
      using start False by (simp add: setPointers_def fun_upd_idem)
    then show ?thesis using False Nil
      by (intro exI[of _ m] exI[of _ "Pointer None"])
        (auto simp: inflateRelation_def c Let_def inflatedField_def pointersOf_def relationKey_def start)
  next
    case (Cons k rest)
    then have k: "ks = [k]" "\<not> isZero k" using one False nz by (auto simp: Suc_le_eq)
    let ?m = "\<lparr>cells = (cells m)(brk m := hollow env T r k), brk = brk m + 1\<rparr>"
    have "relationKey (cells ?m) (Some (brk m)) (matchField r) = Some k" by (rule hollow_key[OF k(2)]) simp
    then show ?thesis using False k
      by (intro exI[of _ ?m] exI[of _ "Pointer (Some (brk m))"])
        (auto simp: inflateRelation_def c Let_def newEntity_def inflatedField_def pointersOf_def setPointers_def)
  qed
qed

text \<open>The state of a loop over the columns after the fields in \<open>seen\<close>.\<close>

definition inflating ::
  "typeEnv \<Rightarrow> rowTypes \<Rightarrow> string \<Rightarrow> relationSpec list \<Rightarrow> (string \<Rightarrow> 'v) \<Rightarrow> memory \<Rightarrow> 'p heap \<Rightarrow> 'p entity \<Rightarrow> (string \<Rightarrow> 'v) \<Rightarrow>
   string set \<Rightarrow> 'v inflateState \<Rightarrow> bool" where
  "inflating env T t specs noVals m h e vals seen st \<longleftrightarrow>
     brk m \<le> brk (fst st) \<and> (\<forall>x < brk m. cells (fst st) x = cells m x) \<and>
     (\<forall>n. scalars (fst (snd st)) n = (if n \<in> seen \<and> n \<notin> fieldName ` set specs then scalars e n else zeroScalars env T t n)) \<and>
     (\<forall>n. snd (snd st) n = (if n \<in> seen \<and> n \<notin> fieldName ` set specs \<and> scalars e n = None then vals n else noVals n)) \<and>
     (\<forall>r \<in> set specs. if fieldName r \<in> seen \<and> persistedRelation r then inflatedField (fst st) (fst (snd st)) r (fieldKeys h e r)
        else pointers (fst (snd st)) (fieldIndex r) = (if many r then Slice [] else Pointer None))"

lemma zeroPointer_spec:
  "relationSpecs env t = Inr specs \<Longrightarrow> r \<in> set specs \<Longrightarrow> zeroPointer env t (fieldIndex r) = (if many r then Slice [] else Pointer None)"
  using spec_parts[of env t specs r] by (auto simp: zeroPointer_def elim!: relationTarget.elims)

lemma zeroScalars_spec:
  assumes "relationSpecs env t = Inr specs" "namedFields env t" "r \<in> set specs"
  shows "zeroScalars env T t (fieldName r) = None"
  using spec_parts[OF assms(1,3)] FieldByName_nth[OF assms(2), of "fieldIndex r"]
  by (auto simp: zeroScalars_def elim!: relationTarget.elims)

lemma inflate_step:
  assumes s: "relationSpecs env t = Inr specs" and nm: "namedFields env t"
    and sb: "\<And>name r. map_of sb name = Some r \<longleftrightarrow> r \<in> set specs \<and> fieldName r = name"
    and e: "entityOf env T t specs noVals (h a) vals"
    and n: "n \<in> rf_name ` set (structFields env t)" "keptField sb n" "n \<notin> seen"
    and col: "map_of row c = Some (snd (normalizeField sb h a vals (n, c)))"
    and st: "inflating env T t specs noVals m h (h a) vals seen st"
  shows "\<exists>st'. inflateField env T t sb row st (n, c) = Inr st' \<and> inflating env T t specs noVals m h (h a) vals (insert n seen) st'"
proof (cases "map_of sb n")
  case None
  then have plain: "n \<notin> fieldName ` set specs" using sb by (metis imageE option.distinct(1))
  have field: "FieldByName env t n \<noteq> None" using n(1) by (simp add: FieldByName_None)
  have same: "inflating env T t specs noVals m h (h a) vals (insert n seen) (fst st, e', v')"
    if "scalars e' = (scalars (fst (snd st)))(n := scalars (h a) n)" "pointers e' = pointers (fst (snd st))"
      "v' = (if scalars (h a) n = None then (snd (snd st))(n := vals n) else snd (snd st))" for e' v'
  proof -
    have "if fieldName r \<in> insert n seen \<and> persistedRelation r then inflatedField (fst st) e' r (fieldKeys h (h a) r)
        else pointers e' (fieldIndex r) = (if many r then Slice [] else Pointer None)" if "r \<in> set specs" for r
    proof -
      have "fieldName r \<noteq> n" using plain that by auto
      moreover have "inflatedField (fst st) e' r ks = inflatedField (fst st) (fst (snd st)) r ks" for ks
        using \<open>pointers e' = _\<close> by (simp add: inflatedField_def pointersOf_def)
      ultimately show ?thesis using st \<open>pointers e' = _\<close> that by (auto simp: inflating_def)
    qed
    then show ?thesis using st that plain n(3) by (auto simp: inflating_def)
  qed
  show ?thesis
  proof (cases "scalars (h a) n")
    case (Some v)
    have "inflateField env T t sb row st (n, c) = Inr (fst st, setScalar n v (fst (snd st)), snd (snd st))"
      using col field None Some by (auto simp: inflateField_def normalizeField_def)
    moreover have "inflating env T t specs noVals m h (h a) vals (insert n seen) (fst st, setScalar n v (fst (snd st)), snd (snd st))"
      by (rule same) (simp_all add: setScalar_def Some)
    ultimately show ?thesis by blast
  next
    case N: None
    have "inflateField env T t sb row st (n, c) = Inr (fst st, fst (snd st), (snd (snd st))(n := vals n))"
      using col field None N by (auto simp: inflateField_def normalizeField_def)
    moreover have "scalars (fst (snd st)) n = None"
      using st n(3) N e by (auto simp: inflating_def entityOf_def)
    then have "inflating env T t specs noVals m h (h a) vals (insert n seen) (fst st, fst (snd st), (snd (snd st))(n := vals n))"
      by (intro same) (auto simp: N fun_upd_idem)
    ultimately show ?thesis by blast
  qed
next
  case (Some r)
  then have r: "r \<in> set specs" "fieldName r = n" using sb by auto
  have p: "persistedRelation r" using n(2) Some by (simp add: keptField_def)
  have field: "FieldByName env t n \<noteq> None" using n(1) by (simp add: FieldByName_None)
  let ?ks = "fieldKeys h (h a) r"
  have shape: "if many r then \<exists>ps. pointers (h a) (fieldIndex r) = Slice ps else \<exists>p. pointers (h a) (fieldIndex r) = Pointer p"
    using e r(1) by (auto simp: entityOf_def)
  have start: "pointers (fst (snd st)) (fieldIndex r) = (if many r then Slice [] else Pointer None)"
    using st r n(3) by (auto simp: inflating_def)
  have one: "\<not> many r \<longrightarrow> length ?ks \<le> 1"
    using shape by (auto simp: fieldKeys_def pointersOf_def map_filter_def)
  have c: "snd (normalizeField sb h a vals (n, c)) = (if many r then KeysColumn ?ks else KeyColumn (case ?ks of [] \<Rightarrow> None | k # _ \<Rightarrow> Some k))"
    using shape by (auto simp: normalizeField_def Some fieldKeys_def fieldPointers_def pointersOf_def map_filter_def split: option.splits)
  have nz: "\<forall>k \<in> set ?ks. \<not> isZero k" using fieldKeys_nonzero by blast
  obtain m' fv where R: "inflateRelation env T r (snd (normalizeField sb h a vals (n, c))) (fst st, fst (snd st), snd (snd st)) =
      Inr (m', setPointers (fieldIndex r) fv (fst (snd st)), snd (snd st))"
    "brk (fst st) \<le> brk m'" "\<forall>x < brk (fst st). cells m' x = cells (fst st) x"
    "inflatedField m' (setPointers (fieldIndex r) fv (fst (snd st))) r ?ks"
    using inflate_relation[OF p nz one start c] by blast
  let ?e = "setPointers (fieldIndex r) fv (fst (snd st))"
  have "inflateField env T t sb row st (n, c) = Inr (m', ?e, snd (snd st))"
    using R(1) p col field Some by (auto simp: inflateField_def)
  moreover have "inflating env T t specs noVals m h (h a) vals (insert n seen) (m', ?e, snd (snd st))"
  proof -
    have other: "pointers ?e (fieldIndex q) = pointers (fst (snd st)) (fieldIndex q)" if "q \<in> set specs" "q \<noteq> r" for q
      using that r(1) specs_distinct[OF s] by (auto simp: setPointers_def distinct_map inj_on_def)
    have "if fieldName q \<in> insert n seen \<and> persistedRelation q then inflatedField m' ?e q (fieldKeys h (h a) q)
        else pointers ?e (fieldIndex q) = (if many q then Slice [] else Pointer None)" if q: "q \<in> set specs" for q
    proof (cases "q = r")
      case True
      then show ?thesis using R(4) p r(2) by simp
    next
      case False
      then have "fieldName q \<noteq> n" using specs_named[OF s nm q r(1)] r(2) by auto
      then show ?thesis using st q other[OF q False] R(2,3) inflatedField_grow[of "fst st" "fst (snd st)" q _ m' ?e]
        by (auto simp: inflating_def)
    qed
    moreover have "n \<in> fieldName ` set specs" "scalars ?e = scalars (fst (snd st))" using r by (auto simp: setPointers_def)
    ultimately show ?thesis using st R(2,3) unfolding inflating_def by (auto simp del: if_split)
  qed
  ultimately show ?thesis by blast
qed

lemma inflate_fold:
  assumes s: "relationSpecs env t = Inr specs" and nm: "namedFields env t"
    and sb: "\<And>name r. map_of sb name = Some r \<longleftrightarrow> r \<in> set specs \<and> fieldName r = name"
    and e: "entityOf env T t specs noVals (h a) vals"
    and ns: "\<forall>p \<in> set ps. fst p \<in> rf_name ` set (structFields env t) \<and> keptField sb (fst p) \<and>
      map_of row (snd p) = Some (snd (normalizeField sb h a vals p))" "distinct (map fst ps)" "\<forall>p \<in> set ps. fst p \<notin> seen"
    and st: "inflating env T t specs noVals m h (h a) vals seen st"
  shows "\<exists>st'. fold_result (inflateField env T t sb row) ps st = Inr st' \<and>
    inflating env T t specs noVals m h (h a) vals (seen \<union> fst ` set ps) st'"
  using ns st
proof (induction ps arbitrary: seen st)
  case (Cons p ps)
  obtain n c where p: "p = (n, c)" by fastforce
  obtain st1 where st1: "inflateField env T t sb row st (n, c) = Inr st1" "inflating env T t specs noVals m h (h a) vals (insert n seen) st1"
    using inflate_step[OF s nm sb e _ _ _ _ Cons.prems(4), where n = n and c = c and row = row] Cons.prems(1,3) by (auto simp: p)
  have "\<forall>q \<in> set ps. fst q \<notin> insert n seen" using Cons.prems(2,3) by (auto simp: p)
  from Cons.IH[OF _ _ this st1(2)] Cons.prems(1,2) show ?case by (auto simp: p st1(1))
qed auto

text \<open>What an entity built from a row of \<open>e\<close> is.\<close>

definition restored ::
  "relationSpec list \<Rightarrow> 'p heap \<Rightarrow> 'p entity \<Rightarrow> memory \<Rightarrow> nat entity \<Rightarrow> bool" where
  "restored specs h e m e' \<longleftrightarrow>
     getId e' = getId e \<and> scalars e' = scalars e \<and>
     (\<forall>r \<in> set specs. if persistedRelation r then inflatedField m e' r (fieldKeys h e r) else pointers e' (fieldIndex r) = Slice [])"

lemma restored_grow:
  assumes "restored specs h e m e'" "brk m \<le> brk m'" "\<forall>x < brk m. cells m' x = cells m x"
  shows "restored specs h e m' e'"
  using assms inflatedField_grow[OF _ assms(2,3)] unfolding restored_def by (metis (full_types))

lemma row_restored:
  assumes s: "relationSpecs env t = Inr specs" and nm: "namedFields env t" and cols: "schemaFor env t = Inr cols"
    and e: "entityOf env T t specs noVals (h a) vals" and b: "specsByField env t = Inr sb"
  shows "\<exists>m' e'. normalizeToSchema env t h a vals = Inr (map (normalizeField sb h a vals) cols) \<and>
    inflateRow env T t sb cols noVals m (map (normalizeField sb h a vals) cols) = Inr (m', e', vals) \<and>
    brk m \<le> brk m' \<and> (\<forall>x < brk m. cells m' x = cells m x) \<and> restored specs h (h a) m' e'"
proof -
  obtain sb' where sb': "specsByField env t = Inr sb'" "\<And>name r. map_of sb' name = Some r \<longleftrightarrow> r \<in> set specs \<and> fieldName r = name"
    by (rule specs_by_field[OF s nm]) blast
  have sb: "map_of sb name = Some r \<longleftrightarrow> r \<in> set specs \<and> fieldName r = name" for name r using sb' b by simp
  note F = schema_fields[OF cols b]
  let ?row = "map (normalizeField sb h a vals) cols"
  have key: "map fst ?row = map snd cols" by (simp add: normalizeField_def)
  have names: "map fst cols = filter (keptField sb) (map rf_name (structFields env t))" by (simp add: F(1) comp_def)
  have ns: "\<forall>p \<in> set cols. fst p \<in> rf_name ` set (structFields env t) \<and> keptField sb (fst p) \<and>
      map_of ?row (snd p) = Some (snd (normalizeField sb h a vals p))"
  proof
    fix p assume p: "p \<in> set cols"
    then have "fst p \<in> set (map fst cols)" by simp
    then have "fst p \<in> rf_name ` set (structFields env t)" "keptField sb (fst p)" unfolding names by auto
    moreover have "map_of ?row (snd p) = Some (snd (normalizeField sb h a vals p))"
    proof (rule map_of_is_SomeI)
      show "distinct (map fst ?row)" unfolding key by (rule F(2))
      show "(snd p, snd (normalizeField sb h a vals p)) \<in> set ?row" using p by (force simp: normalizeField_def)
    qed
    ultimately show "fst p \<in> rf_name ` set (structFields env t) \<and> keptField sb (fst p) \<and>
      map_of ?row (snd p) = Some (snd (normalizeField sb h a vals p))" by blast
  qed
  have d: "distinct (map fst cols)" using nm by (simp add: names namedFields_def)
  have "inflating env T t specs noVals m h (h a) vals {} (m, zeroEntity env T t, noVals)"
    by (auto simp: inflating_def zeroEntity_def zeroPointer_spec[OF s])
  from inflate_fold[OF s nm sb e ns d _ this]
  obtain st where st: "fold_result (inflateField env T t sb ?row) cols (m, zeroEntity env T t, noVals) = Inr st"
    "inflating env T t specs noVals m h (h a) vals (fst ` set cols) st" by auto
  have mem: "n \<in> fst ` set cols \<longleftrightarrow> keptField sb n \<and> n \<in> rf_name ` set (structFields env t)" for n
    using arg_cong[OF names, of set] by auto
  have rel: "zeroScalars env T t n = None" if "n \<in> fieldName ` set specs" for n
    using that zeroScalars_spec[OF s nm] by auto
  have absent: "zeroScalars env T t n = None" if "n \<notin> rf_name ` set (structFields env t)" for n
    using that FieldByName_None[of env t n] by (simp add: zeroScalars_def)
  have plain: "keptField sb n" if "n \<notin> fieldName ` set specs" for n
    using that sb by (auto simp: keptField_def split: option.split)
  have sc: "scalars (fst (snd st)) = scalars (h a)"
  proof
    fix n
    have eq: "scalars (fst (snd st)) n = (if n \<in> fst ` set cols \<and> n \<notin> fieldName ` set specs then scalars (h a) n else zeroScalars env T t n)"
      using st(2) unfolding inflating_def by blast
    show "scalars (fst (snd st)) n = scalars (h a) n"
    proof (cases "n \<in> fst ` set cols \<and> n \<notin> fieldName ` set specs")
      case False
      then consider "n \<in> fieldName ` set specs" | "n \<notin> fieldName ` set specs" "n \<notin> fst ` set cols" by blast
      then have "zeroScalars env T t n = None"
        by cases (rule rel, assumption, rule absent, use plain mem in metis)
      moreover have "scalars (h a) n = None" using e calculation by (simp add: entityOf_def)
      ultimately show ?thesis using False eq by simp
    qed (use eq in simp)
  qed
  have vs: "snd (snd st) = vals"
  proof
    fix n show "snd (snd st) n = vals n"
    proof (cases "zeroScalars env T t n \<noteq> None \<or> n \<in> fieldName ` set specs \<or> FieldByName env t n = None")
      case True
      then have "vals n = noVals n" using e by (auto simp: entityOf_def)
      then show ?thesis using st(2) by (auto simp: inflating_def)
    next
      case False
      then have "n \<in> fst ` set cols" using plain[of n] mem[of n] FieldByName_None[of env t n] by auto
      moreover have "scalars (h a) n = None" using False e by (auto simp: entityOf_def)
      ultimately show ?thesis using st(2) False by (auto simp: inflating_def)
    qed
  qed
  let ?e = "(fst (snd st))\<lparr>getId := idOf T t (scalars (fst (snd st)))\<rparr>"
  have inflated: "inflateRow env T t sb cols noVals m ?row = Inr (fst st, ?e, vals)"
    by (simp add: inflateRow_def st(1) vs)
  have "if persistedRelation r then inflatedField (fst st) ?e r (fieldKeys h (h a) r) else pointers ?e (fieldIndex r) = Slice []"
    if r: "r \<in> set specs" for r
  proof -
    have "fieldName r \<in> rf_name ` set (structFields env t)" using spec_parts(1,2)[OF s r] by auto
    moreover have "keptField sb (fieldName r) \<longleftrightarrow> persistedRelation r" using sb[of "fieldName r" r] r by (simp add: keptField_def)
    moreover have "inflatedField (fst st) ?e r ks = inflatedField (fst st) (fst (snd st)) r ks" for ks
      by (simp add: inflatedField_def pointersOf_def)
    moreover have "\<not> persistedRelation r \<Longrightarrow> many r" by (simp add: persistedRelation_def)
    ultimately show ?thesis using st(2) r mem[of "fieldName r"] by (auto simp: inflating_def)
  qed
  moreover have "getId ?e = getId (h a)" "scalars ?e = scalars (h a)" using sc e by (simp_all add: entityOf_def)
  ultimately have "restored specs h (h a) (fst st) ?e" unfolding restored_def by blast
  then show ?thesis using inflated st(2) b cols by (auto simp: normalizeToSchema_def inflating_def)
qed

section \<open>A table's rows survive a restart\<close>

definition orderRowTypes :: rowTypes where
  "orderRowTypes = \<lparr>zeroOf = (\<lambda>_. IntValue ''int'' 0), idOf = (\<lambda>_ sc. case sc ''Id'' of Some (IntValue t i) \<Rightarrow> i | _ \<Rightarrow> 0)\<rparr>"

text \<open>Order 1 at address 1 and its item 5 at address 2.\<close>

definition savedHeap :: "nat heap" where
  "savedHeap a =
     (if a = 1 then \<lparr>getId = 1, scalars = [''Id'' \<mapsto> IntValue ''int'' 1], pointers = (\<lambda>i. if i = 1 then Slice [Some 2] else Pointer None)\<rparr>
      else \<lparr>getId = 5, scalars = [''Id'' \<mapsto> IntValue ''int'' 5], pointers = (\<lambda>i. if i = 1 then Pointer (Some 1) else Pointer None)\<rparr>)"

lemma item_schema:
  "namedFields orderTypes ''Item''"
  "schemaFor orderTypes ''Item'' = Inr [(''Id'', ''Id''), (''Order'', ''OrderId'')]"
proof -
  show "namedFields orderTypes ''Item''" by (simp add: namedFields_def structFields_def orderTypes_def)
  have "specsByField orderTypes ''Item'' = Inr [(''Order'', \<lparr>owner = ''Item'', fieldIndex = 1, fieldName = ''Order'', target = ''Order'',
     kind = OwnedByRelation, matchField = ''Id'', many = False\<rparr>)]"
    by (simp add: specsByField_def orderTypes_specs)
  then show "schemaFor orderTypes ''Item'' = Inr [(''Id'', ''Id''), (''Order'', ''OrderId'')]"
    by (simp add: schemaFor_def schemaField_def structFields_def orderTypes_def persistedRelation_def relationColumnName_def
        relationColumnType_def FieldByName_def StructOf_def exportedName_def)
qed

lemma item_entity: "entityOf orderTypes orderRowTypes ''Item'' [\<lparr>owner = ''Item'', fieldIndex = 1, fieldName = ''Order'', target = ''Order'',
     kind = OwnedByRelation, matchField = ''Id'', many = False\<rparr>] (\<lambda>_. ()) (savedHeap 2) (\<lambda>_. ())"
  by (simp add: entityOf_def orderRowTypes_def savedHeap_def zeroScalars_def FieldByName_def structFields_def orderTypes_def)

text \<open>
  C32. Rows survive a restart. Rows taken from any entities of a type whose columns are accepted are
  inflated to entities with the same id, the same plain fields and, in every persisted relation
  field, hollow pointers with exactly the keys of the targets the field held, in order; nil
  pointers of a slice are dropped, computed slices start empty, and no old entity changes.
\<close>

theorem persisted_rows_restore_entities:
  assumes "relationSpecs env t = Inr specs" and "namedFields env t" and "schemaFor env t = Inr cols"
    and "\<forall>q \<in> set rows. entityOf env T t specs noVals (h (fst q)) (snd q)"
  shows "\<exists>ps m' es. map (\<lambda>q. normalizeToSchema env t h (fst q) (snd q)) rows = map Inr ps \<and>
    inflateRows env T t noVals m ps = Inr (m', es) \<and> map snd es = map snd rows \<and>
    list_all2 (\<lambda>q e. restored specs h (h (fst q)) m' (fst e)) rows es \<and> (\<forall>x < brk m. cells m' x = cells m x)"
proof -
  obtain sb where sb: "specsByField env t = Inr sb" by (rule specs_by_field[OF assms(1,2)]) blast
  let ?step = "\<lambda>st row. bind_result (inflateRow env T t sb cols noVals (fst st) row) (\<lambda>r. Inr (fst r, snd st @ [snd r]))"
  have "\<exists>ps m' es. map (\<lambda>q. normalizeToSchema env t h (fst q) (snd q)) rows = map Inr ps \<and>
      fold_result ?step ps (m, []) = Inr (m', es) \<and> map snd es = map snd rows \<and>
      list_all2 (\<lambda>q e. restored specs h (h (fst q)) m' (fst e)) rows es \<and> brk m \<le> brk m' \<and> (\<forall>x < brk m. cells m' x = cells m x)"
    using assms(4)
  proof (induction rows rule: rev_induct)
    case Nil
    then show ?case by simp
  next
    case (snoc q rows)
    then obtain ps m1 es where IH: "map (\<lambda>q. normalizeToSchema env t h (fst q) (snd q)) rows = map Inr ps"
      "fold_result ?step ps (m, []) = Inr (m1, es)" "map snd es = map snd rows"
      "list_all2 (\<lambda>q e. restored specs h (h (fst q)) m1 (fst e)) rows es" "brk m \<le> brk m1" "\<forall>x < brk m. cells m1 x = cells m x"
      by auto
    obtain a vals where q: "q = (a, vals)" by fastforce
    have e: "entityOf env T t specs noVals (h a) vals" using snoc.prems q by simp
    obtain m' e' where R: "normalizeToSchema env t h a vals = Inr (map (normalizeField sb h a vals) cols)"
      "inflateRow env T t sb cols noVals m1 (map (normalizeField sb h a vals) cols) = Inr (m', e', vals)"
      "brk m1 \<le> brk m'" "\<forall>x < brk m1. cells m' x = cells m1 x" "restored specs h (h a) m' e'"
      using row_restored[where h = h and a = a, OF assms(1-3) e sb] by blast
    have "list_all2 (\<lambda>q e. restored specs h (h (fst q)) m' (fst e)) rows es"
      using IH(4) by (rule list_all2_mono) (rule restored_grow[OF _ R(3,4)])
    then have "list_all2 (\<lambda>q e. restored specs h (h (fst q)) m' (fst e)) (rows @ [q]) (es @ [(e', vals)])"
      using R(5) by (simp add: q list_all2_appendI)
    moreover have "fold_result ?step (ps @ [map (normalizeField sb h a vals) cols]) (m, []) = Inr (m', es @ [(e', vals)])"
      using IH(2) R(2) by (simp add: fold_result_append)
    ultimately show ?case using IH R
      by (intro exI[of _ "ps @ [map (normalizeField sb h a vals) cols]"] exI[of _ m'] exI[of _ "es @ [(e', vals)]"]) (simp add: q)
  qed
  then show ?thesis using sb assms(3) by (simp add: inflateRows_def) blast
qed

theorem persisted_rows_restore_entities_witness:
  "\<exists>row m' e. normalizeToSchema orderTypes ''Item'' savedHeap 2 (\<lambda>_. ()) = Inr row \<and>
     inflateRows orderTypes orderRowTypes ''Item'' (\<lambda>_. ()) \<lparr>cells = savedHeap, brk = 10\<rparr> [row] = Inr (m', [(e, \<lambda>_. ())]) \<and>
     getId e = 5 \<and> (\<exists>a. pointers e 1 = Pointer (Some a) \<and> relationKey (cells m') (Some a) ''Id'' = Some (IntValue ''int'' 1))"
proof -
  let ?spec = "\<lparr>owner = ''Item'', fieldIndex = 1, fieldName = ''Order'', target = ''Order'',
     kind = OwnedByRelation, matchField = ''Id'', many = False\<rparr>"
  have keys: "fieldKeys savedHeap (savedHeap 2) ?spec = [IntValue ''int'' 1]"
    by (simp add: fieldKeys_def pointersOf_def savedHeap_def map_filter_def relationKey_def)
  obtain ps m' es where R: "map (\<lambda>q. normalizeToSchema orderTypes ''Item'' savedHeap (fst q) (snd q)) [(2, \<lambda>_. ())] = map Inr ps"
    "inflateRows orderTypes orderRowTypes ''Item'' (\<lambda>_. ()) \<lparr>cells = savedHeap, brk = 10\<rparr> ps = Inr (m', es)"
    "map snd es = map snd [(2 :: nat, \<lambda>_ :: string. ())]"
    "list_all2 (\<lambda>q e. restored [?spec] savedHeap (savedHeap (fst q)) m' (fst e)) [(2, \<lambda>_ :: string. ())] es"
    using persisted_rows_restore_entities[OF orderTypes_specs(2) item_schema, of "[(2, \<lambda>_. ())]" orderRowTypes "\<lambda>_. ()" savedHeap
        "\<lparr>cells = savedHeap, brk = 10\<rparr>"] item_entity by (simp del: list.map) blast
  obtain row where ps: "ps = [row]" "normalizeToSchema orderTypes ''Item'' savedHeap 2 (\<lambda>_. ()) = Inr row"
    using R(1) by (cases ps) auto
  obtain e where es: "es = [(e, \<lambda>_. ())]" using R(3) by (cases es) auto
  have r: "restored [?spec] savedHeap (savedHeap 2) m' e" using R(4) by (simp add: es)
  then obtain p where "pointers e 1 = Pointer p" "relationKey (cells m') p ''Id'' = Some (IntValue ''int'' 1)"
    by (auto simp: restored_def persistedRelation_def inflatedField_def keys[unfolded One_nat_def])
  moreover have "getId e = 5" using r by (simp add: restored_def savedHeap_def)
  moreover have "p \<noteq> None" using calculation(2) by (auto simp: relationKey_def split: option.splits)
  ultimately show ?thesis using ps R(2) es by auto
qed

section \<open>Columns that collide\<close>

text \<open>
  A task with a plain field \<open>OwnerId\<close>, by which a list may own it, and a reference \<open>Owner\<close> by \<open>Id\<close>.
  The schema check accepts the type, but both fields are stored in a column \<open>OwnerId\<close>, and
  \<open>reflect.StructOf\<close> panics on it when the table is opened.
\<close>

definition taskTypes :: typeEnv where
  "taskTypes = \<lparr>structs =
     [(''Task'', [\<lparr>rf_name = ''Id'', rf_type = ScalarType ''int'', rf_tag = None\<rparr>,
        \<lparr>rf_name = ''OwnerId'', rf_type = ScalarType ''int'', rf_tag = None\<rparr>,
        \<lparr>rf_name = ''Owner'', rf_type = PointerType (StructType ''User''), rf_tag = Some ''borrow,Id''\<rparr>]),
      (''User'', [\<lparr>rf_name = ''Id'', rf_type = ScalarType ''int'', rf_tag = None\<rparr>])],
     entityTypes = [''Task'', ''User'']\<rparr>"

theorem accepted_type_whose_columns_collide:
  "(\<exists>schema. buildRelationSchema taskTypes (\<lambda>b. map fst (specsByType b)) (StructType ''Task'') = Inr schema) \<and>
   schemaFor taskTypes ''Task'' = Inl (Panic ''duplicate field'')"
proof -
  let ?spec = "\<lparr>owner = ''Task'', fieldIndex = 2, fieldName = ''Owner'', target = ''User'',
     kind = BorrowRelation, matchField = ''Id'', many = False\<rparr>"
  have specs: "relationSpecs taskTypes ''Task'' = Inr [?spec]" "relationSpecs taskTypes ''User'' = Inr []"
    by (simp_all add: relationSpecs_def taskTypes_def parseRelationField_def structFields_def upt_rec isEntityType_def
        TrimSpace_def isSpace_def parseKind_def Let_def)
  have valid: "validateRelationSpec taskTypes ?spec = Inr ()"
    by (simp add: validateRelationSpec_def FieldByName_def structFields_def taskTypes_def validateScalarMatchField_def isScalarKey_def)
  have "\<exists>schema. buildRelationSchema taskTypes (\<lambda>b. map fst (specsByType b)) (StructType ''Task'') = Inr schema"
    by (simp add: buildRelationSchema_def visit.simps specs valid newRelationSchemaBuilder_def startVisit_def
        appendChild_def relationPointOf_def countRelationKind_def validateRequiredCycles_def visitRequiredType.simps
        specsOf_def isRequiredTypeEdge_def)
  moreover have "specsByField taskTypes ''Task'' = Inr [(''Owner'', ?spec)]" by (simp add: specsByField_def specs)
  then have "schemaFor taskTypes ''Task'' = Inl (Panic ''duplicate field'')"
    by (simp add: schemaFor_def schemaField_def structFields_def taskTypes_def persistedRelation_def relationColumnName_def
        relationColumnType_def FieldByName_def StructOf_def exportedName_def)
  ultimately show ?thesis by blast
qed

end
