(* ===== verification/Relation_Wiring.thy ===== *)
theory Relation_Wiring
  imports Schema_Rows
begin

text \<open>
  Wiring of loaded rows (\<open>fillRelation\<close>, second half of \<open>relations.go\<close>): hollow pointers are
  replaced by the live rows with their keys, and the computed slices are filled. Every \<open>Open\<close>
  wires the rows of its own type against the tables as they are at that moment.
\<close>

section \<open>The wire index\<close>

text \<open>The registered tables with their live rows in slot order.\<close>

type_synonym 'p stores = "(string \<times> 'p list) list"

record 'p relationWireIndex =
  wi_targets :: "relationTargetKey \<Rightarrow> 'p option"
  wi_slices :: "string \<times> nat \<Rightarrow> scalar \<Rightarrow> 'p list"

definition namedRelationSpec :: "typeEnv \<Rightarrow> string \<Rightarrow> string \<Rightarrow> relationSpec option" where
  "namedRelationSpec env t name =
     (case relationSpecs env t of Inl e \<Rightarrow> None | Inr specs \<Rightarrow> find (\<lambda>s. fieldName s = name) specs)"

definition indexEntityTargets :: "'p heap \<Rightarrow> (string \<times> string) list \<Rightarrow> string \<Rightarrow> (relationTargetKey \<Rightarrow> 'p option) \<Rightarrow> 'p \<Rightarrow> (relationTargetKey \<Rightarrow> 'p option)" where
  "indexEntityTargets h tfs t targets a =
     foldl (\<lambda>targets f.
         case relationKey h (Some a) f of
           None \<Rightarrow> targets
         | Some v \<Rightarrow> if targets (t, f, v) = None then targets((t, f, v) \<mapsto> a) else targets)
       targets (map snd (filter (\<lambda>q. fst q = t) tfs))"

text \<open>The key of its owner that a candidate of an owned slice names: an id behind a pointer, or a raw key.\<close>

definition ownKey :: "typeEnv \<Rightarrow> 'p heap \<Rightarrow> relationSpec \<Rightarrow> 'p \<Rightarrow> scalar option" where
  "ownKey env h spec c =
     (case FieldByName env (target spec) (matchField spec) of
        None \<Rightarrow> None
      | Some (i, f) \<Rightarrow>
          (case rf_type f of
             PointerType _ \<Rightarrow> (case pointers (h c) i of Pointer p \<Rightarrow> relationKey h p entityIDField | Slice _ \<Rightarrow> None)
           | _ \<Rightarrow> relationKey h (Some c) (rf_name f)))"

definition ownCandidate :: "typeEnv \<Rightarrow> 'p heap \<Rightarrow> relationSpec \<Rightarrow> (scalar \<Rightarrow> 'p list) \<Rightarrow> 'p \<Rightarrow> (scalar \<Rightarrow> 'p list)" where
  "ownCandidate env h spec byOwner c =
     (case ownKey env h spec c of None \<Rightarrow> byOwner | Some v \<Rightarrow> byOwner(v := byOwner v @ [c]))"

definition indexOwnSlice :: "typeEnv \<Rightarrow> 'p heap \<Rightarrow> 'p stores \<Rightarrow> relationSpec \<Rightarrow> 'p relationWireIndex \<Rightarrow> 'p relationWireIndex" where
  "indexOwnSlice env h stores spec wi =
     (case map_of stores (target spec) of
        None \<Rightarrow> wi
      | Some foreign \<Rightarrow>
          wi\<lparr>wi_slices := (wi_slices wi)((owner spec, fieldIndex spec) := foldl (ownCandidate env h spec) (\<lambda>_. []) foreign)\<rparr>)"

text \<open>The keys a holder names in the mirrored field; a slice names a repeated key once.\<close>

definition backKeys :: "'p heap \<Rightarrow> relationSpec \<Rightarrow> 'p \<Rightarrow> scalar list" where
  "backKeys h back c =
     (if \<not> many back then List.map_filter (\<lambda>p. relationKey h p (matchField back)) (fieldPointers h c back)
      else foldl (\<lambda>seen p. case relationKey h p (matchField back) of
                   None \<Rightarrow> seen | Some v \<Rightarrow> if v \<in> set seen then seen else seen @ [v]) [] (fieldPointers h c back))"

definition indexInverseReference :: "(scalar \<Rightarrow> 'p list) \<Rightarrow> 'p \<Rightarrow> scalar list \<Rightarrow> (scalar \<Rightarrow> 'p list)" where
  "indexInverseReference byTarget c ks = foldl (\<lambda>m v. m(v := m v @ [c])) byTarget ks"

definition indexInverseSlice :: "typeEnv \<Rightarrow> 'p heap \<Rightarrow> 'p stores \<Rightarrow> relationSpec \<Rightarrow> 'p relationWireIndex \<Rightarrow> 'p relationWireIndex" where
  "indexInverseSlice env h stores spec wi =
     (case map_of stores (target spec) of
        None \<Rightarrow> wi
      | Some foreign \<Rightarrow>
          (case namedRelationSpec env (target spec) (matchField spec) of
             None \<Rightarrow> wi
           | Some back \<Rightarrow>
               wi\<lparr>wi_slices := (wi_slices wi)((owner spec, fieldIndex spec) :=
                   foldl (\<lambda>m c. indexInverseReference m c (backKeys h back c)) (\<lambda>_. []) foreign)\<rparr>))"

text \<open>The first pass collects the computed slices and the fields that targets are looked up by.\<close>

definition indexSpec ::
  "typeEnv \<Rightarrow> 'p heap \<Rightarrow> 'p stores \<Rightarrow> 'p relationWireIndex \<times> (string \<times> string) list \<Rightarrow> relationSpec \<Rightarrow>
   'p relationWireIndex \<times> (string \<times> string) list" where
  "indexSpec env h stores st spec =
     (if kind spec = OwnRelation \<and> many spec then (indexOwnSlice env h stores spec (fst st), snd st)
      else if kind spec = InverseRelation then (indexInverseSlice env h stores spec (fst st), snd st)
      else if FieldByName env (target spec) (matchField spec) = None then st
      else (fst st, List.insert (target spec, matchField spec) (snd st)))"

definition buildRelationWireIndex :: "typeEnv \<Rightarrow> 'p heap \<Rightarrow> 'p stores \<Rightarrow> 'p relationWireIndex result" where
  "buildRelationWireIndex env h stores =
     bind_result
       (fold_result
          (\<lambda>st s. bind_result (relationSpecs env (fst s)) (\<lambda>specs. Inr (foldl (indexSpec env h stores) st specs)))
          stores (\<lparr>wi_targets = (\<lambda>_. None), wi_slices = (\<lambda>_ _. [])\<rparr>, []))
       (\<lambda>st. Inr ((fst st)\<lparr>wi_targets :=
          foldl (\<lambda>targets s. foldl (indexEntityTargets h (snd st) (fst s)) targets (snd s)) (wi_targets (fst st)) stores\<rparr>))"

section \<open>Wiring a row\<close>

definition wireToOne :: "'p heap \<Rightarrow> 'p relationWireIndex \<Rightarrow> relationSpec \<Rightarrow> 'p option \<Rightarrow> 'p option" where
  "wireToOne h wi spec p =
     (case relationKey h p (matchField spec) of
        None \<Rightarrow> None
      | Some v \<Rightarrow> wi_targets wi (target spec, matchField spec, v))"

definition canonicalSliceElement :: "'p heap \<Rightarrow> 'p relationWireIndex \<Rightarrow> relationSpec \<Rightarrow> 'p option \<Rightarrow> 'p option" where
  "canonicalSliceElement h wi spec p =
     (case relationKey h p (matchField spec) of
        None \<Rightarrow> None
      | Some v \<Rightarrow> wi_targets wi (target spec, matchField spec, v))"

definition wireReferenceSlice :: "'p heap \<Rightarrow> 'p relationWireIndex \<Rightarrow> relationSpec \<Rightarrow> 'p option list \<Rightarrow> 'p option list" where
  "wireReferenceSlice h wi spec ps = map Some (List.map_filter (canonicalSliceElement h wi spec) ps)"

text \<open>Members come from the index; those that the field lists already keep their order and come first.\<close>

definition listedMember ::
  "'p heap \<Rightarrow> (int \<Rightarrow> 'p option) \<Rightarrow> int list \<times> 'p list \<Rightarrow> 'p option \<Rightarrow> int list \<times> 'p list" where
  "listedMember h byID st p =
     (case valueID h p of
        None \<Rightarrow> st
      | Some i \<Rightarrow>
          (case byID i of
             None \<Rightarrow> st
           | Some c \<Rightarrow> if i \<in> set (fst st) then st else (fst st @ [i], snd st @ [c])))"

definition memberByID :: "'p heap \<Rightarrow> 'p list \<Rightarrow> int \<Rightarrow> 'p option" where
  "memberByID h members = foldl (\<lambda>m c. m(getId (h c) \<mapsto> c)) (\<lambda>_. None) members"

definition wireIndexedSlice :: "'p heap \<Rightarrow> 'p relationWireIndex \<Rightarrow> relationSpec \<Rightarrow> 'p \<Rightarrow> 'p option list \<Rightarrow> 'p option list" where
  "wireIndexedSlice h wi spec a ps =
     (case relationKey h (Some a) entityIDField of
        None \<Rightarrow> []
      | Some k \<Rightarrow>
          let members = wi_slices wi (owner spec, fieldIndex spec) k;
              listed = foldl (listedMember h (memberByID h members)) ([], []) ps
          in map Some (snd listed @ filter (\<lambda>c. getId (h c) \<notin> set (fst listed)) members))"

definition wiredField :: "'p heap \<Rightarrow> 'p relationWireIndex \<Rightarrow> 'p \<Rightarrow> relationSpec \<Rightarrow> 'p fieldValue \<Rightarrow> 'p fieldValue" where
  "wiredField h wi a spec v =
     (let ps = (case v of Pointer p \<Rightarrow> [p] | Slice ps \<Rightarrow> ps) in
      if \<not> many spec then Pointer (case v of Pointer p \<Rightarrow> wireToOne h wi spec p | Slice _ \<Rightarrow> None)
      else case kind spec of
        BorrowRelation \<Rightarrow> Slice (wireReferenceSlice h wi spec ps)
      | OptionRelation \<Rightarrow> Slice (wireReferenceSlice h wi spec ps)
      | OwnRelation \<Rightarrow> Slice (wireIndexedSlice h wi spec a ps)
      | InverseRelation \<Rightarrow> Slice (wireIndexedSlice h wi spec a ps)
      | OwnedByRelation \<Rightarrow> v)"

definition wireRelation :: "'p relationWireIndex \<Rightarrow> 'p \<Rightarrow> 'p heap \<Rightarrow> relationSpec \<Rightarrow> 'p heap" where
  "wireRelation wi a h spec =
     h(a := setPointers (fieldIndex spec) (wiredField h wi a spec (pointers (h a) (fieldIndex spec))) (h a))"

definition wireEntityRelations :: "relationSpec list \<Rightarrow> 'p relationWireIndex \<Rightarrow> 'p heap \<Rightarrow> 'p \<Rightarrow> 'p heap" where
  "wireEntityRelations specs wi h a = foldl (wireRelation wi a) h specs"

definition fillRelationFrom :: "typeEnv \<Rightarrow> 'p stores \<Rightarrow> 'p relationWireIndex \<Rightarrow> string \<Rightarrow> 'p heap \<Rightarrow> 'p heap result" where
  "fillRelationFrom env stores wi t h =
     (case relationSpecs env t of
        Inl e \<Rightarrow> Inl (Panic ''relation schema'')
      | Inr specs \<Rightarrow> Inr (foldl (wireEntityRelations specs wi) h (case map_of stores t of None \<Rightarrow> [] | Some rows \<Rightarrow> rows)))"

definition fillRelation :: "typeEnv \<Rightarrow> 'p stores \<Rightarrow> 'p heap \<Rightarrow> string \<Rightarrow> 'p heap result" where
  "fillRelation env stores h t =
     (case buildRelationWireIndex env h stores of
        Inl e \<Rightarrow> Inl (Panic ''relation schema'')
      | Inr wi \<Rightarrow> fillRelationFrom env stores wi t h)"

text \<open>One index for all tables, after a flush.\<close>

definition rewireRelations :: "typeEnv \<Rightarrow> 'p stores \<Rightarrow> 'p heap \<Rightarrow> string list \<Rightarrow> 'p heap result" where
  "rewireRelations env stores h ts =
     (case buildRelationWireIndex env h stores of
        Inl e \<Rightarrow> Inl (Panic ''relation schema'')
      | Inr wi \<Rightarrow> fold_result (\<lambda>h t. fillRelationFrom env stores wi t h) ts h)"

section \<open>What the wire index holds\<close>

definition declaredSpecs :: "typeEnv \<Rightarrow> string \<Rightarrow> relationSpec list" where
  "declaredSpecs env t = (case relationSpecs env t of Inl e \<Rightarrow> [] | Inr specs \<Rightarrow> specs)"

definition allSpecs :: "typeEnv \<Rightarrow> 'p stores \<Rightarrow> relationSpec list" where
  "allSpecs env stores = concat (map (\<lambda>s. declaredSpecs env (fst s)) stores)"

definition storeRows :: "'p stores \<Rightarrow> string \<Rightarrow> 'p list" where
  "storeRows stores t = (case map_of stores t of None \<Rightarrow> [] | Some rows \<Rightarrow> rows)"

text \<open>The rows that belong into a computed slice under a key.\<close>

definition isMember :: "typeEnv \<Rightarrow> 'p heap \<Rightarrow> relationSpec \<Rightarrow> scalar \<Rightarrow> 'p \<Rightarrow> bool" where
  "isMember env h spec k c \<longleftrightarrow>
     (if kind spec = OwnRelation then ownKey env h spec c = Some k
      else \<exists>back. namedRelationSpec env (target spec) (matchField spec) = Some back \<and> k \<in> set (backKeys h back c))"

definition computedSlice :: "relationSpec \<Rightarrow> bool" where
  "computedSlice spec \<longleftrightarrow> kind spec = OwnRelation \<and> many spec \<or> kind spec = InverseRelation"

definition rowShape :: "relationSpec list \<Rightarrow> 'p entity \<Rightarrow> bool" where
  "rowShape specs e \<longleftrightarrow>
     (\<forall>r \<in> set specs. if many r then \<exists>ps. pointers e (fieldIndex r) = Slice ps else \<exists>p. pointers e (fieldIndex r) = Pointer p)"

text \<open>Every table is registered once, no row is in two tables, ids are unique, and rows have the shape of their type.\<close>

definition storesOk :: "typeEnv \<Rightarrow> 'p heap \<Rightarrow> 'p stores \<Rightarrow> bool" where
  "storesOk env h stores \<longleftrightarrow>
     distinct (map fst stores) \<and> distinct (concat (map snd stores)) \<and>
     (\<forall>s \<in> set stores. distinct (map (\<lambda>a. getId (h a)) (snd s)) \<and>
        (\<exists>specs. relationSpecs env (fst s) = Inr specs \<and> (\<forall>a \<in> set (snd s). rowShape specs (h a))))"

lemma own_slice_conv: "foldl (ownCandidate env h spec) m cs k = m k @ filter (\<lambda>c. ownKey env h spec c = Some k) cs"
  by (induction cs arbitrary: m) (auto simp: ownCandidate_def split: option.splits)

lemma distinct_backKeys:
  assumes "many back \<or> (\<exists>p. pointers (h c) (fieldIndex back) = Pointer p)"
  shows "distinct (backKeys h back c)"
proof -
  have "distinct (foldl (\<lambda>seen p. case relationKey h p (matchField back) of
                   None \<Rightarrow> seen | Some v \<Rightarrow> if v \<in> set seen then seen else seen @ [v]) seen ps)" if "distinct seen" for seen ps
    using that by (induction ps arbitrary: seen) (auto split: option.splits)
  then show ?thesis using assms by (auto simp: backKeys_def fieldPointers_def map_filter_def)
qed

lemma set_backKeys: "v \<in> set (backKeys h back c) \<longleftrightarrow> (\<exists>p \<in> set (fieldPointers h c back). relationKey h p (matchField back) = Some v)"
proof -
  have "v \<in> set (foldl (\<lambda>seen p. case relationKey h p (matchField back) of
                   None \<Rightarrow> seen | Some v \<Rightarrow> if v \<in> set seen then seen else seen @ [v]) seen ps) \<longleftrightarrow>
      v \<in> set seen \<or> (\<exists>p \<in> set ps. relationKey h p (matchField back) = Some v)" for seen ps
    by (induction ps arbitrary: seen) (auto split: option.splits)
  then show ?thesis by (simp add: backKeys_def in_map_filter)
qed

lemma inverse_slice_conv:
  assumes "\<forall>c \<in> set cs. distinct (ks c)"
  shows "foldl (\<lambda>m c. indexInverseReference m c (ks c)) m cs k = m k @ filter (\<lambda>c. k \<in> set (ks c)) cs"
proof -
  have one: "indexInverseReference m c vs k = m k @ (if k \<in> set vs then [c] else [])" if "distinct vs" for m c vs
    using that by (induction vs arbitrary: m) (auto simp: indexInverseReference_def)
  show ?thesis using assms by (induction cs arbitrary: m) (simp_all add: one)
qed

definition sliceOf :: "typeEnv \<Rightarrow> 'p heap \<Rightarrow> 'p stores \<Rightarrow> relationSpec \<Rightarrow> scalar \<Rightarrow> 'p list" where
  "sliceOf env h stores spec k = (if computedSlice spec then filter (isMember env h spec k) (storeRows stores (target spec)) else [])"

lemma named_in: "namedRelationSpec env t n = Some r \<Longrightarrow> r \<in> set (declaredSpecs env t)"
  by (auto simp: namedRelationSpec_def declaredSpecs_def find_Some_iff split: sum.splits)

lemma rows_shape:
  "storesOk env h stores \<Longrightarrow> a \<in> set (storeRows stores t) \<Longrightarrow> rowShape (declaredSpecs env t) (h a)"
  by (fastforce simp: storesOk_def storeRows_def declaredSpecs_def split: option.splits dest: map_of_SomeD)

lemma indexSpec_slices:
  assumes "storesOk env h stores" and "wi_slices (fst st) (owner s, fieldIndex s) = (\<lambda>_. [])"
  shows "wi_slices (fst (indexSpec env h stores st s)) = (wi_slices (fst st))((owner s, fieldIndex s) := sliceOf env h stores s)"
proof -
  have bk: "distinct (backKeys h b c)" if "namedRelationSpec env (target s) (matchField s) = Some b" "c \<in> set (storeRows stores (target s))" for b c
    using rows_shape[OF assms(1) that(2)] named_in[OF that(1)] by (intro distinct_backKeys) (auto simp: rowShape_def split: if_splits)
  have same: "f((owner s, fieldIndex s) := g) = f" if "f (owner s, fieldIndex s) = g" for f :: "string \<times> nat \<Rightarrow> scalar \<Rightarrow> 'a list" and g
    using that by auto
  have none: "sliceOf env h stores s = (\<lambda>_. [])" if "map_of stores (target s) = None"
    using that by (simp add: sliceOf_def storeRows_def fun_eq_iff)
  consider "kind s = OwnRelation \<and> many s" | "kind s = InverseRelation" | "\<not> computedSlice s" by (auto simp: computedSlice_def)
  then show ?thesis
  proof cases
    case 1
    then have "sliceOf env h stores s = foldl (ownCandidate env h s) (\<lambda>_. []) foreign" if "map_of stores (target s) = Some foreign" for foreign
      using that by (auto simp: sliceOf_def computedSlice_def storeRows_def isMember_def[abs_def] own_slice_conv fun_eq_iff)
    then show ?thesis using 1 none assms(2)
      by (cases "map_of stores (target s)") (simp_all add: indexSpec_def indexOwnSlice_def same)
  next
    case 2
    show ?thesis
    proof (cases "namedRelationSpec env (target s) (matchField s)")
      case None
      then have "sliceOf env h stores s = (\<lambda>_. [])" using 2 by (simp add: sliceOf_def isMember_def[abs_def] fun_eq_iff)
      then show ?thesis using 2 None assms(2) by (simp add: indexSpec_def indexInverseSlice_def same split: option.split)
    next
      case (Some bk_spec)
      have "sliceOf env h stores s = foldl (\<lambda>m c. indexInverseReference m c (backKeys h bk_spec c)) (\<lambda>_. []) foreign"
        if "map_of stores (target s) = Some foreign" for foreign
      proof -
        have "\<forall>c \<in> set foreign. distinct (backKeys h bk_spec c)" using bk[OF Some] that by (simp add: storeRows_def)
        then show ?thesis using 2 that Some by (auto simp: sliceOf_def computedSlice_def storeRows_def isMember_def[abs_def] inverse_slice_conv fun_eq_iff)
      qed
      then show ?thesis using 2 Some none assms(2)
        by (cases "map_of stores (target s)") (simp_all add: indexSpec_def indexInverseSlice_def same)
    qed
  next
    case 3
    then have "sliceOf env h stores s = (\<lambda>_. [])" by (simp add: sliceOf_def fun_eq_iff)
    moreover have "wi_slices (fst (indexSpec env h stores st s)) = wi_slices (fst st)"
      using 3 by (auto simp: indexSpec_def computedSlice_def)
    ultimately show ?thesis using assms(2) by (simp add: same)
  qed
qed

definition slotKey :: "relationSpec \<Rightarrow> string \<times> nat" where
  "slotKey s = (owner s, fieldIndex s)"

lemma spec_owner: "relationSpecs env t = Inr specs \<Longrightarrow> s \<in> set specs \<Longrightarrow> owner s = t"
proof -
  assume a: "relationSpecs env t = Inr specs" "s \<in> set specs"
  have own: "parseRelationField env t i = Inr (Some s) \<Longrightarrow> owner s = t" for i s
    by (auto simp: parseRelationField_def Let_def split: option.splits if_splits)
  obtain fs where fs: "map_of (structs env) t = Some fs" using a(1) by (auto simp: relationSpecs_def split: option.splits)
  have "\<forall>s \<in> set specs. owner s = t"
    by (rule fold_result_invariant[where I = "\<lambda>out. \<forall>s \<in> set out. owner s = t"
          and f = "\<lambda>out i. bind_result (parseRelationField env t i) (\<lambda>r. Inr (case r of None \<Rightarrow> out | Some s \<Rightarrow> out @ [s]))"
          and xs = "[0 ..< length fs]" and s = "[]"])
      (use a fs in \<open>auto simp: relationSpecs_def bind_result_def dest!: own split: sum.splits option.splits\<close>)
  then show ?thesis using a(2) by blast
qed

lemma slotKeys_distinct:
  assumes "distinct (map fst stores)"
  shows "distinct (map slotKey (allSpecs env stores))"
  using assms
proof (induction stores)
  case Nil
  then show ?case by (simp add: allSpecs_def)
next
  case (Cons s stores)
  have own: "owner r = u" if "r \<in> set (declaredSpecs env u)" for r u
  proof (cases "relationSpecs env u")
    case (Inr specs)
    then show ?thesis using spec_owner[OF Inr] that by (simp add: declaredSpecs_def)
  qed (use that in \<open>simp add: declaredSpecs_def\<close>)
  have "distinct (map slotKey (declaredSpecs env (fst s)))"
  proof (cases "relationSpecs env (fst s)")
    case (Inr specs)
    then show ?thesis using specs_distinct[OF Inr] by (auto simp: declaredSpecs_def distinct_map slotKey_def inj_on_def)
  qed (simp add: declaredSpecs_def)
  moreover have "slotKey r \<noteq> slotKey q" if rq: "r \<in> set (declaredSpecs env (fst s))" "q \<in> set (allSpecs env stores)" for r q
  proof -
    obtain u where "u \<in> set stores" "q \<in> set (declaredSpecs env (fst u))" using rq(2) by (auto simp: allSpecs_def)
    then have "owner q \<in> fst ` set stores" using own[of q "fst u"] by (metis image_eqI)
    moreover have "owner r \<notin> fst ` set stores" using own[OF rq(1)] Cons.prems by simp
    ultimately have "owner q \<noteq> owner r" by metis
    then show ?thesis by (simp add: slotKey_def)
  qed
  ultimately show ?case using Cons by (fastforce simp: allSpecs_def)
qed

lemma index_slices:
  assumes "storesOk env h stores" and "distinct (map slotKey ss)"
    and "\<forall>s \<in> set ss. wi_slices (fst st) (slotKey s) = (\<lambda>_. [])"
  shows "\<forall>s \<in> set ss. wi_slices (fst (foldl (indexSpec env h stores) st ss)) (slotKey s) = sliceOf env h stores s"
proof -
  have "wi_slices (fst (foldl (indexSpec env h stores) st ss)) k =
      (case find (\<lambda>s. slotKey s = k) ss of None \<Rightarrow> wi_slices (fst st) k | Some s \<Rightarrow> sliceOf env h stores s)" for k
    using assms(2,3)
  proof (induction ss arbitrary: st)
    case (Cons s ss)
    have step: "wi_slices (fst (indexSpec env h stores st s)) = (wi_slices (fst st))(slotKey s := sliceOf env h stores s)"
      using indexSpec_slices[OF assms(1)] Cons.prems(2) by (simp add: slotKey_def)
    have "\<forall>q \<in> set ss. wi_slices (fst (indexSpec env h stores st s)) (slotKey q) = (\<lambda>_. [])"
    proof
      fix q assume q: "q \<in> set ss"
      then have "slotKey q \<in> slotKey ` set ss" by simp
      then have "slotKey q \<noteq> slotKey s" using Cons.prems(1) by auto
      then show "wi_slices (fst (indexSpec env h stores st s)) (slotKey q) = (\<lambda>_. [])" using Cons.prems(2) q by (simp add: step)
    qed
    then have "wi_slices (fst (foldl (indexSpec env h stores) (indexSpec env h stores st s) ss)) k =
        (case find (\<lambda>s. slotKey s = k) ss of None \<Rightarrow> wi_slices (fst (indexSpec env h stores st s)) k | Some q \<Rightarrow> sliceOf env h stores q)"
      using Cons.IH Cons.prems(1) by simp
    moreover have "find (\<lambda>q. slotKey q = k) ss = None" if "slotKey s = k"
      unfolding find_None_iff using that Cons.prems(1) by (metis distinct.simps(2) image_eqI image_set list.simps(9))
    ultimately show ?case by (auto simp: step split: option.splits)
  qed simp
  moreover have "find (\<lambda>q. slotKey q = slotKey s) ss = Some s" if "s \<in> set ss" for s
    using assms(2) that by (induction ss) (auto intro: image_eqI[OF sym])
  ultimately show ?thesis by simp
qed

text \<open>The fields some relation of a registered type finds its targets by.\<close>

definition lookedUp :: "typeEnv \<Rightarrow> 'p stores \<Rightarrow> (string \<times> string) set" where
  "lookedUp env stores =
     {(target s, matchField s) | s. s \<in> set (allSpecs env stores) \<and> \<not> computedSlice s \<and> FieldByName env (target s) (matchField s) \<noteq> None}"

lemma index_fields:
  "set (snd (foldl (indexSpec env h stores) st ss)) =
   set (snd st) \<union> {(target s, matchField s) | s. s \<in> set ss \<and> \<not> computedSlice s \<and> FieldByName env (target s) (matchField s) \<noteq> None}"
  "wi_targets (fst (foldl (indexSpec env h stores) st ss)) = wi_targets (fst st)"
proof (induction ss arbitrary: st)
  case (Cons s ss)
  case 1
  have "set (snd (indexSpec env h stores st s)) =
      set (snd st) \<union> (if \<not> computedSlice s \<and> FieldByName env (target s) (matchField s) \<noteq> None then {(target s, matchField s)} else {})"
    by (auto simp: indexSpec_def computedSlice_def)
  then show ?case by (auto simp: Cons(1))
next
  case (Cons s ss)
  case 2
  have "wi_targets (fst (indexSpec env h stores st s)) = wi_targets (fst st)"
    by (simp add: indexSpec_def indexOwnSlice_def indexInverseSlice_def split: option.split)
  then show ?case by (simp add: Cons(2))
qed auto

lemma entity_targets:
  "indexEntityTargets h tfs t targets a (u, f, v) =
     (if u = t \<and> (t, f) \<in> set tfs \<and> relationKey h (Some a) f = Some v \<and> targets (u, f, v) = None then Some a else targets (u, f, v))"
proof -
  have "foldl (\<lambda>targets f.
         case relationKey h (Some a) f of
           None \<Rightarrow> targets
         | Some v \<Rightarrow> if targets (t, f, v) = None then targets((t, f, v) \<mapsto> a) else targets) targets fs (u, f, v) =
      (if u = t \<and> f \<in> set fs \<and> relationKey h (Some a) f = Some v \<and> targets (u, f, v) = None then Some a else targets (u, f, v))" for fs
    by (induction fs arbitrary: targets) (auto split: option.split)
  then show ?thesis by (force simp: indexEntityTargets_def)
qed

lemma table_targets:
  "foldl (indexEntityTargets h tfs t) targets rows (u, f, v) =
     (if u = t \<and> (t, f) \<in> set tfs \<and> targets (u, f, v) = None then find (\<lambda>a. relationKey h (Some a) f = Some v) rows else targets (u, f, v))"
  by (induction rows arbitrary: targets) (auto simp: entity_targets)

text \<open>A lookup finds the first row of the table with the key.\<close>

definition firstTarget :: "typeEnv \<Rightarrow> 'p heap \<Rightarrow> 'p stores \<Rightarrow> relationTargetKey \<Rightarrow> 'p option" where
  "firstTarget env h stores key =
     (case key of (t, f, v) \<Rightarrow>
        if (t, f) \<in> lookedUp env stores then find (\<lambda>a. relationKey h (Some a) f = Some v) (storeRows stores t) else None)"

lemma wire_index:
  assumes "storesOk env h stores"
  obtains wi where "buildRelationWireIndex env h stores = Inr wi"
    "wi_targets wi = firstTarget env h stores"
    "\<And>s. s \<in> set (allSpecs env stores) \<Longrightarrow> wi_slices wi (owner s, fieldIndex s) = sliceOf env h stores s"
proof -
  let ?st0 = "(\<lparr>wi_targets = (\<lambda>_. None), wi_slices = (\<lambda>_ _. [])\<rparr>, []) :: 'a relationWireIndex \<times> (string \<times> string) list"
  define st where "st = foldl (indexSpec env h stores) ?st0 (allSpecs env stores)"
  have ok: "relationSpecs env (fst s) = Inr (declaredSpecs env (fst s))" if "s \<in> set stores" for s
    using assms that by (fastforce simp: storesOk_def declaredSpecs_def)
  have flat: "fold_result (\<lambda>st s. bind_result (relationSpecs env (fst s)) (\<lambda>specs. Inr (foldl (indexSpec env h stores) st specs))) ss st0 =
      Inr (foldl (indexSpec env h stores) st0 (allSpecs env ss))" if "set ss \<subseteq> set stores" for ss st0
    using that by (induction ss arbitrary: st0) (auto simp: ok allSpecs_def)
  have built: "buildRelationWireIndex env h stores = Inr ((fst st)\<lparr>wi_targets :=
      foldl (\<lambda>targets s. foldl (indexEntityTargets h (snd st) (fst s)) targets (snd s)) (wi_targets (fst st)) stores\<rparr>)"
    using flat[of stores ?st0] by (simp add: buildRelationWireIndex_def st_def)
  have tfs: "set (snd st) = lookedUp env stores" by (auto simp: st_def index_fields lookedUp_def)
  have none: "wi_targets (fst st) = (\<lambda>_. None)" by (simp add: st_def index_fields)
  have d: "distinct (map fst stores)" using assms by (simp add: storesOk_def)
  have "foldl (\<lambda>targets s. foldl (indexEntityTargets h (snd st) (fst s)) targets (snd s)) targets ss (t, f, v) =
      (if targets (t, f, v) = None \<and> (t, f) \<in> lookedUp env stores then find (\<lambda>a. relationKey h (Some a) f = Some v) (storeRows ss t) else targets (t, f, v))"
    if "distinct (map fst ss)" for ss targets t f v
    using that
  proof (induction ss arbitrary: targets)
    case Nil
    then show ?case by (simp add: storeRows_def)
  next
    case (Cons s ss)
    have "t = fst s \<Longrightarrow> storeRows ss t = []" using Cons.prems by (auto simp: storeRows_def split: option.split dest!: map_of_SomeD intro: rev_image_eqI)
    then show ?case using Cons by (auto simp: table_targets tfs storeRows_def split: option.splits)
  qed
  from this[OF d] have "foldl (\<lambda>targets s. foldl (indexEntityTargets h (snd st) (fst s)) targets (snd s)) (wi_targets (fst st)) stores = firstTarget env h stores"
    by (auto simp: none firstTarget_def fun_eq_iff)
  moreover have "wi_slices (fst st) (owner s, fieldIndex s) = sliceOf env h stores s" if "s \<in> set (allSpecs env stores)" for s
    using index_slices[OF assms slotKeys_distinct[OF d], where st = ?st0 and env1 = env] that by (simp add: st_def slotKey_def)
  ultimately show thesis using that built by simp
qed

section \<open>Wiring only moves pointers\<close>

definition sameRows :: "'p heap \<Rightarrow> 'p heap \<Rightarrow> bool" where
  "sameRows h h' \<longleftrightarrow> (\<forall>a. scalars (h' a) = scalars (h a) \<and> getId (h' a) = getId (h a))"

lemma sameRows_reads:
  assumes "sameRows h h'"
  shows "relationKey h' = relationKey h" "valueID h' = valueID h" "getId (h' a) = getId (h a)"
  using assms by (simp_all add: sameRows_def relationKey_def valueID_def fun_eq_iff split: option.splits)

lemma sameRows_trans: "sameRows h h' \<Longrightarrow> sameRows h' h'' \<Longrightarrow> sameRows h h''"
  by (simp add: sameRows_def)

lemma wiredField_same:
  assumes "sameRows h h'"
  shows "wiredField h' = wiredField h"
proof -
  note reads = sameRows_reads[OF assms]
  have one: "canonicalSliceElement h' = canonicalSliceElement h" "wireToOne h' = wireToOne h" "listedMember h' = listedMember h"
    by (intro ext, simp add: canonicalSliceElement_def wireToOne_def listedMember_def reads)+
  have "memberByID h' = memberByID h" unfolding memberByID_def[abs_def] reads by (rule refl)
  note one = one this
  have two: "wireReferenceSlice h' = wireReferenceSlice h" "wireIndexedSlice h' = wireIndexedSlice h"
    unfolding wireReferenceSlice_def[abs_def] wireIndexedSlice_def[abs_def] one reads by simp_all
  show ?thesis unfolding wiredField_def[abs_def] one two by (rule refl)
qed

lemma firstTarget_same: "sameRows h h' \<Longrightarrow> firstTarget env h' stores = firstTarget env h stores"
  by (simp add: fun_eq_iff firstTarget_def sameRows_reads)

text \<open>A row with all its relation fields wired.\<close>

definition wiredRow :: "'p heap \<Rightarrow> 'p relationWireIndex \<Rightarrow> relationSpec list \<Rightarrow> 'p \<Rightarrow> 'p entity" where
  "wiredRow h wi specs a =
     (h a)\<lparr>pointers := (\<lambda>i. case find (\<lambda>s. fieldIndex s = i) specs of
        None \<Rightarrow> pointers (h a) i | Some s \<Rightarrow> wiredField h wi a s (pointers (h a) i))\<rparr>"

lemma find_index: "distinct (map fieldIndex specs) \<Longrightarrow> s \<in> set specs \<Longrightarrow> find (\<lambda>q. fieldIndex q = fieldIndex s) specs = Some s"
  by (induction specs) (auto intro: rev_image_eqI)

lemma wiredRow_field:
  "distinct (map fieldIndex specs) \<Longrightarrow> s \<in> set specs \<Longrightarrow>
   pointers (wiredRow h wi specs a) (fieldIndex s) = wiredField h wi a s (pointers (h a) (fieldIndex s))"
  by (simp add: wiredRow_def find_index)

lemma sameRows_upd: "scalars e = scalars (h a) \<Longrightarrow> getId e = getId (h a) \<Longrightarrow> sameRows h (h(a := e))"
  by (simp add: sameRows_def)

lemma wire_entity:
  assumes "distinct (map fieldIndex specs)"
  shows "wireEntityRelations specs wi h a = h(a := wiredRow h wi specs a)"
  using assms
proof (induction specs arbitrary: h)
  case Nil
  then show ?case by (simp add: wireEntityRelations_def wiredRow_def)
next
  case (Cons s specs)
  let ?h = "wireRelation wi a h s"
  have same: "sameRows h ?h" by (simp add: wireRelation_def sameRows_upd setPointers_def)
  have none: "find (\<lambda>q. fieldIndex q = fieldIndex s) specs = None" 
    unfolding find_None_iff using Cons.prems by (metis distinct.simps(2) image_eqI image_set list.simps(9))
  have "wiredRow ?h wi specs a = wiredRow h wi (s # specs) a"
  proof -
    have "pointers (wiredRow ?h wi specs a) i = pointers (wiredRow h wi (s # specs) a) i" for i
      unfolding wiredRow_def wiredField_same[OF same]
      using none by (cases "fieldIndex s = i") (auto simp: wireRelation_def setPointers_def split: option.split)
    then show ?thesis by (intro entity.equality) (auto simp: wiredRow_def wireRelation_def setPointers_def)
  qed
  moreover have "wireEntityRelations (s # specs) wi h a = ?h(a := wiredRow ?h wi specs a)"
    using Cons.IH[of ?h] Cons.prems by (simp only: wireEntityRelations_def foldl_Cons list.map distinct.simps)
  ultimately show ?case by (simp add: wireRelation_def)
qed

lemma wire_rows:
  assumes "distinct (map fieldIndex specs)" and "distinct rows"
  shows "foldl (wireEntityRelations specs wi) h rows = (\<lambda>a. if a \<in> set rows then wiredRow h wi specs a else h a)"
  using assms(2)
proof (induction rows arbitrary: h)
  case (Cons a rows)
  let ?h = "h(a := wiredRow h wi specs a)"
  have same: "sameRows h ?h" by (rule sameRows_upd) (simp_all add: wiredRow_def)
  have "wiredRow ?h wi specs b = wiredRow h wi specs b" if "b \<noteq> a" for b
    using that unfolding wiredRow_def[of ?h] wiredRow_def[of h wi specs b] wiredField_same[OF same] by (simp cong: option.case_cong)
  moreover have "foldl (wireEntityRelations specs wi) h (a # rows) = (\<lambda>b. if b \<in> set rows then wiredRow ?h wi specs b else ?h b)"
  proof -
    have "foldl (wireEntityRelations specs wi) h (a # rows) = foldl (wireEntityRelations specs wi) ?h rows"
      by (simp only: foldl_Cons wire_entity[OF assms(1), of wi h a])
    also have "\<dots> = (\<lambda>b. if b \<in> set rows then wiredRow ?h wi specs b else ?h b)"
      by (rule Cons.IH) (use Cons.prems in simp)
    finally show ?thesis .
  qed
  ultimately show ?case
  proof (intro ext)
    fix b show "foldl (wireEntityRelations specs wi) h (a # rows) b = (if b \<in> set (a # rows) then wiredRow h wi specs b else h b)"
      using \<open>\<And>b. b \<noteq> a \<Longrightarrow> _\<close> \<open>foldl _ _ _ = _\<close> Cons.prems by (cases "b = a") auto
  qed
qed auto

lemma stores_specs: "storesOk env h stores \<Longrightarrow> s \<in> set stores \<Longrightarrow> relationSpecs env (fst s) = Inr (declaredSpecs env (fst s))"
  by (fastforce simp: storesOk_def declaredSpecs_def)

lemma declared_distinct: "distinct (map fieldIndex (declaredSpecs env t))"
  using specs_distinct by (auto simp: declaredSpecs_def split: sum.split)

lemma storeRows_in: "distinct (map fst stores) \<Longrightarrow> s \<in> set stores \<Longrightarrow> storeRows stores (fst s) = snd s"
  by (cases s) (simp add: storeRows_def)

lemma storeRows_some: "a \<in> set (storeRows stores t) \<Longrightarrow> \<exists>rows. (t, rows) \<in> set stores \<and> a \<in> set rows"
  by (cases "map_of stores t") (auto simp: storeRows_def dest: map_of_SomeD)

lemma storeRows_distinct: "storesOk env h stores \<Longrightarrow> distinct (storeRows stores t)"
  by (auto simp: storesOk_def storeRows_def distinct_concat_iff split: option.split dest!: map_of_SomeD)

lemma fill_rows:
  assumes ok: "storesOk env h stores" and t: "t \<in> fst ` set stores" and wi: "buildRelationWireIndex env h stores = Inr wi"
  shows "fillRelation env stores h t =
    Inr (\<lambda>a. if a \<in> set (storeRows stores t) then wiredRow h wi (declaredSpecs env t) a else h a)"
proof -
  have "relationSpecs env t = Inr (declaredSpecs env t)" using stores_specs[OF ok] t by auto
  then show ?thesis
    using wire_rows[OF declared_distinct storeRows_distinct[OF ok], of env t wi h t]
    by (simp add: fillRelation_def wi fillRelationFrom_def storeRows_def[symmetric])
qed

section \<open>Wiring an already wired graph\<close>

lemma canonical_key:
  assumes "canonicalSliceElement h wi spec p = Some b" and "wi_targets wi = firstTarget env h stores"
  shows "relationKey h (Some b) (matchField spec) = relationKey h p (matchField spec)" "b \<in> set (storeRows stores (target spec))"
  using assms by (auto simp: canonicalSliceElement_def firstTarget_def find_Some_iff split: option.splits if_splits)

lemma canonical_again:
  "canonicalSliceElement h wi spec p = Some b \<Longrightarrow> wi_targets wi = firstTarget env h stores \<Longrightarrow>
   canonicalSliceElement h wi spec (Some b) = Some b"
  using canonical_key(1)[of h wi spec p b env stores] by (simp add: canonicalSliceElement_def)

lemma canonical_found:
  assumes "relationKey h p (matchField spec) = Some k" and "wi_targets wi = firstTarget env h stores"
    and "(target spec, matchField spec) \<in> lookedUp env stores"
    and "a \<in> set (storeRows stores (target spec))" "relationKey h (Some a) (matchField spec) = Some k"
  shows "\<exists>b. canonicalSliceElement h wi spec p = Some b"
proof -
  have "find (\<lambda>a. relationKey h (Some a) (matchField spec) = Some k) (storeRows stores (target spec)) \<noteq> None"
    using assms(4,5) by (auto simp: find_None_iff)
  then show ?thesis using assms(1-3) by (auto simp: canonicalSliceElement_def firstTarget_def)
qed

lemma wireToOne_canonical: "wireToOne = canonicalSliceElement"
  by (intro ext) (simp add: wireToOne_def canonicalSliceElement_def)

lemma wired_reference_again:
  assumes "wi_targets wi = firstTarget env h stores"
  shows "wireReferenceSlice h wi spec (wireReferenceSlice h wi spec ps) = wireReferenceSlice h wi spec ps"
proof -
  have "\<forall>b \<in> set bs. canonicalSliceElement h wi spec (Some b) = Some b \<Longrightarrow>
      List.map_filter (canonicalSliceElement h wi spec) (map Some bs) = bs" for bs
    by (induction bs) (auto simp: map_filter_simps)
  moreover have "\<forall>b \<in> set (List.map_filter (canonicalSliceElement h wi spec) ps). canonicalSliceElement h wi spec (Some b) = Some b"
    using canonical_again[OF _ assms, of spec] by (auto simp: in_map_filter)
  ultimately show ?thesis by (simp add: wireReferenceSlice_def)
qed

text \<open>The members a field lists, in its order, then the others in slot order.\<close>

definition arranged :: "'p heap \<Rightarrow> 'p list \<Rightarrow> 'p option list \<Rightarrow> 'p list" where
  "arranged h members ps =
     (let listed = foldl (listedMember h (memberByID h members)) ([], []) ps
      in snd listed @ filter (\<lambda>c. getId (h c) \<notin> set (fst listed)) members)"

lemma byID_conv:
  assumes "distinct (map (\<lambda>c. getId (h c)) members)"
  shows "memberByID h members i = Some c \<longleftrightarrow> c \<in> set members \<and> getId (h c) = i"
  using assms
proof (induction members rule: rev_induct)
  case (snoc d members)
  then have "getId (h d) \<notin> (\<lambda>c. getId (h c)) ` set members" by auto
  then have "c \<in> set members \<Longrightarrow> getId (h c) \<noteq> getId (h d)" by (metis imageI)
  then show ?case using snoc by (auto simp: memberByID_def)
qed (simp add: memberByID_def)

lemma listed_inv:
  assumes "distinct (map (\<lambda>c. getId (h c)) members)"
  defines "byID \<equiv> memberByID h members"
  assumes "fst st = map (\<lambda>c. getId (h c)) (snd st)" "distinct (fst st)" "set (snd st) \<subseteq> set members"
  shows "fst (foldl (listedMember h byID) st ps) = map (\<lambda>c. getId (h c)) (snd (foldl (listedMember h byID) st ps)) \<and>
    distinct (fst (foldl (listedMember h byID) st ps)) \<and> set (snd (foldl (listedMember h byID) st ps)) \<subseteq> set members"
  using assms(3-5)
proof (induction ps arbitrary: st)
  case (Cons p ps)
  have "fst (listedMember h byID st p) = map (\<lambda>c. getId (h c)) (snd (listedMember h byID st p)) \<and>
      distinct (fst (listedMember h byID st p)) \<and> set (snd (listedMember h byID st p)) \<subseteq> set members"
    using Cons.prems byID_conv[OF assms(1)] by (auto simp: listedMember_def byID_def split: option.splits)
  then have "fst (foldl (listedMember h byID) (listedMember h byID st p) ps) =
        map (\<lambda>c. getId (h c)) (snd (foldl (listedMember h byID) (listedMember h byID st p) ps)) \<and>
      distinct (fst (foldl (listedMember h byID) (listedMember h byID st p) ps)) \<and>
      set (snd (foldl (listedMember h byID) (listedMember h byID st p) ps)) \<subseteq> set members"
    by (intro Cons.IH) blast+
  then show ?case unfolding foldl_Cons .
qed simp

lemma arranged_members:
  assumes "distinct (map (\<lambda>c. getId (h c)) members)"
  shows "distinct (map (\<lambda>c. getId (h c)) (arranged h members ps)) \<and> set (arranged h members ps) = set members"
proof -
  define L where "L = foldl (listedMember h (memberByID h members)) ([], []) ps"
  have "fst L = map (\<lambda>c. getId (h c)) (snd L) \<and> distinct (fst L) \<and> set (snd L) \<subseteq> set members"
    unfolding L_def by (rule listed_inv[OF assms]) simp_all
  then have L: "fst L = map (\<lambda>c. getId (h c)) (snd L)" "distinct (fst L)" "set (snd L) \<subseteq> set members" by blast+
  have A: "arranged h members ps = snd L @ filter (\<lambda>c. getId (h c) \<notin> set (fst L)) members" by (simp add: arranged_def L_def Let_def)
  have inj: "c = d" if "c \<in> set members" "d \<in> set members" "getId (h c) = getId (h d)" for c d
    using assms that by (auto simp: distinct_map inj_on_def)
  have "c \<in> set (snd L)" if "c \<in> set members" "getId (h c) \<in> set (fst L)" for c
    using that L inj by auto
  then have "set (arranged h members ps) = set members" using L by (auto simp: A)
  moreover have "distinct (map (\<lambda>c. getId (h c)) (arranged h members ps))"
  proof -
    have "distinct (map (\<lambda>c. getId (h c)) (snd L))" using L by simp
    moreover have "distinct (map (\<lambda>c. getId (h c)) (filter (\<lambda>c. getId (h c) \<notin> set (fst L)) members))"
      using assms by (rule distinct_map_filter)
    ultimately show ?thesis using L(1) by (auto simp: A) (metis imageI)
  qed
  ultimately show ?thesis by blast
qed

lemma arranged_again:
  assumes "distinct (map (\<lambda>c. getId (h c)) members)"
  shows "arranged h members (map Some (arranged h members ps)) = arranged h members ps"
proof -
  let ?byID = "memberByID h members"
  have run: "foldl (listedMember h ?byID) (map (\<lambda>c. getId (h c)) cs, cs) (map Some ds) = (map (\<lambda>c. getId (h c)) (cs @ ds), cs @ ds)"
    if "set ds \<subseteq> set members" "distinct (map (\<lambda>c. getId (h c)) (cs @ ds))" for cs ds
    using that
  proof (induction ds arbitrary: cs)
    case (Cons d ds)
    have "?byID (getId (h d)) = Some d" using byID_conv[OF assms] Cons.prems(1) by simp
    then have "listedMember h ?byID (map (\<lambda>c. getId (h c)) cs, cs) (Some d) = (map (\<lambda>c. getId (h c)) (cs @ [d]), cs @ [d])"
      using Cons.prems(2) by (auto simp: listedMember_def valueID_def)
    moreover have "foldl (listedMember h ?byID) (map (\<lambda>c. getId (h c)) (cs @ [d]), cs @ [d]) (map Some ds) =
        (map (\<lambda>c. getId (h c)) ((cs @ [d]) @ ds), (cs @ [d]) @ ds)"
      by (rule Cons.IH) (use Cons.prems in auto)
    ultimately show ?case by (simp del: map_append)
  qed simp
  let ?A = "arranged h members ps"
  have A: "set ?A = set members" "distinct (map (\<lambda>c. getId (h c)) ?A)" using arranged_members[OF assms, of ps] by auto
  have "foldl (listedMember h ?byID) ([], []) (map Some ?A) = (map (\<lambda>c. getId (h c)) ?A, ?A)"
    using run[of ?A "[]"] A by simp
  moreover have "filter (\<lambda>c. getId (h c) \<notin> (\<lambda>c. getId (h c)) ` set ?A) members = []" using A(1) by (auto simp: filter_empty_conv)
  ultimately show ?thesis unfolding arranged_def[of h members "map Some ?A"] by (simp add: Let_def)
qed

lemma wireIndexedSlice_conv:
  "wireIndexedSlice h wi spec a ps =
     (case relationKey h (Some a) entityIDField of
        None \<Rightarrow> [] | Some k \<Rightarrow> map Some (arranged h (wi_slices wi (owner spec, fieldIndex spec) k) ps))"
  by (simp add: wireIndexedSlice_def arranged_def Let_def split: option.split)

lemma wiredField_again:
  assumes "wi_targets wi = firstTarget env h stores"
    and "\<And>k. distinct (map (\<lambda>c. getId (h c)) (wi_slices wi (owner s, fieldIndex s) k))"
  shows "wiredField h wi a s (wiredField h wi a s v) = wiredField h wi a s v"
proof -
  have nil: "wireToOne h wi s None = None" by (simp add: wireToOne_def relationKey_def)
  have one: "wireToOne h wi s (wireToOne h wi s p) = wireToOne h wi s p" for p
    unfolding wireToOne_canonical using canonical_again[OF _ assms(1), of s p]
    by (cases "canonicalSliceElement h wi s p") (simp_all add: canonicalSliceElement_def relationKey_def)
  have slice: "wireIndexedSlice h wi s a (wireIndexedSlice h wi s a ps) = wireIndexedSlice h wi s a ps" for ps
    using arranged_again[OF assms(2)] by (simp add: wireIndexedSlice_conv split: option.split)
  show ?thesis
    by (cases "many s"; cases "kind s"; cases v) (simp_all add: wiredField_def Let_def nil one slice wired_reference_again[OF assms(1)])
qed

lemma sliceOf_ids: "storesOk env h stores \<Longrightarrow> distinct (map (\<lambda>c. getId (h c)) (sliceOf env h stores s k))"
  by (cases "map_of stores (target s)")
    (fastforce simp: sliceOf_def storeRows_def storesOk_def distinct_map_filter dest: map_of_SomeD)+

section \<open>Opening the tables in any order\<close>

text \<open>
  The computed slices look their members up by the id of the row, so the fields they mirror must
  carry ids.
\<close>

definition mirrorOf :: "typeEnv \<Rightarrow> relationSpec \<Rightarrow> relationSpec \<Rightarrow> bool" where
  "mirrorOf env s r \<longleftrightarrow>
     r \<in> set (declaredSpecs env (target s)) \<and> target r = owner s \<and> matchField r = entityIDField \<and> \<not> computedSlice r \<and>
     kind r \<noteq> InverseRelation \<and> (many r \<longrightarrow> kind r = BorrowRelation \<or> kind r = OptionRelation)"

definition mirroredByID :: "typeEnv \<Rightarrow> 'p stores \<Rightarrow> bool" where
  "mirroredByID env stores \<longleftrightarrow>
     (\<forall>s \<in> set (allSpecs env stores). computedSlice s \<longrightarrow>
        FieldByName env (owner s) entityIDField \<noteq> None \<and>
        (if kind s = OwnRelation
         then \<forall>i f t. FieldByName env (target s) (matchField s) = Some (i, f) \<and> rf_type f = PointerType t \<longrightarrow>
                (\<exists>r. mirrorOf env s r \<and> fieldIndex r = i \<and> \<not> many r)
         else \<forall>r. namedRelationSpec env (target s) (matchField s) = Some r \<longrightarrow> mirrorOf env s r))"

definition wireIndexOf :: "typeEnv \<Rightarrow> 'p stores \<Rightarrow> 'p heap \<Rightarrow> 'p relationWireIndex \<Rightarrow> bool" where
  "wireIndexOf env stores h wi \<longleftrightarrow>
     wi_targets wi = firstTarget env h stores \<and>
     (\<forall>s \<in> set (allSpecs env stores). wi_slices wi (owner s, fieldIndex s) = sliceOf env h stores s)"

text \<open>A heap in which some tables are wired against \<open>h\<close> and the others are as in \<open>h\<close>.\<close>

definition wiredTables :: "typeEnv \<Rightarrow> 'p stores \<Rightarrow> 'p heap \<Rightarrow> 'p relationWireIndex \<Rightarrow> string set \<Rightarrow> 'p heap" where
  "wiredTables env stores h wi ts a =
     (case find (\<lambda>t. a \<in> set (storeRows stores t)) (map fst stores) of
        None \<Rightarrow> h a
      | Some t \<Rightarrow> if t \<in> ts then wiredRow h wi (declaredSpecs env t) a else h a)"

lemma storeRows_Cons: "storeRows (s # stores) t = (if fst s = t then snd s else storeRows stores t)"
  by (auto simp: storeRows_def)

lemma storeRows_concat: "set (storeRows stores t) \<subseteq> set (concat (map snd stores))"
  by (induction stores) (auto simp: storeRows_Cons, simp add: storeRows_def)

lemma rows_disjoint:
  "distinct (concat (map snd stores)) \<Longrightarrow> a \<in> set (storeRows stores t) \<Longrightarrow> a \<in> set (storeRows stores u) \<Longrightarrow> t = u"
proof (induction stores)
  case (Cons s stores)
  have "a \<notin> set (snd s)" if "a \<in> set (storeRows stores v)" for v
    using that storeRows_concat[of stores v] Cons.prems(1) by auto
  then show ?case using Cons by (auto simp: storeRows_Cons split: if_splits)
qed (simp add: storeRows_def)

lemma wiredTables_row:
  assumes "storesOk env h stores" and "a \<in> set (storeRows stores t)"
  shows "wiredTables env stores h wi ts a = (if t \<in> ts then wiredRow h wi (declaredSpecs env t) a else h a)"
proof -
  have t: "t \<in> fst ` set stores" using storeRows_some[OF assms(2)] by force
  then obtain u where u: "find (\<lambda>t. a \<in> set (storeRows stores t)) (map fst stores) = Some u"
    using assms(2) by (cases "find (\<lambda>t. a \<in> set (storeRows stores t)) (map fst stores)") (auto simp: find_None_iff)
  then have "a \<in> set (storeRows stores u)" by (auto simp: find_Some_iff)
  then have "u = t" using assms rows_disjoint[of stores a u t] by (simp add: storesOk_def)
  then show ?thesis using u by (simp add: wiredTables_def)
qed

lemma wiredTables_other:
  assumes "\<forall>t. a \<notin> set (storeRows stores t)"
  shows "wiredTables env stores h wi ts a = h a"
proof -
  have "find (\<lambda>t. a \<in> set (storeRows stores t)) (map fst stores) = None" using assms by (simp add: find_None_iff)
  then show ?thesis by (simp add: wiredTables_def)
qed

lemma wiredTables_same: "sameRows h (wiredTables env stores h wi ts)"
  by (auto simp: sameRows_def wiredTables_def wiredRow_def split: option.split)

lemma wiredRow_shape:
  assumes "distinct (map fieldIndex specs)" and "rowShape specs (h a)"
  shows "rowShape specs (wiredRow h wi specs a)"
proof -
  have "if many r then \<exists>ps. pointers (wiredRow h wi specs a) (fieldIndex r) = Slice ps else \<exists>p. pointers (wiredRow h wi specs a) (fieldIndex r) = Pointer p"
    if r: "r \<in> set specs" for r
  proof -
    have "if many r then \<exists>ps. pointers (h a) (fieldIndex r) = Slice ps else \<exists>p. pointers (h a) (fieldIndex r) = Pointer p"
      using assms(2) r by (simp add: rowShape_def)
    then show ?thesis unfolding wiredRow_field[OF assms(1) r]
      by (cases "many r"; cases "kind r") (auto simp: wiredField_def Let_def)
  qed
  then show ?thesis by (simp add: rowShape_def)
qed

lemma wiredTables_ok:
  assumes "storesOk env h stores"
  shows "storesOk env (wiredTables env stores h wi ts) stores"
proof -
  let ?h = "wiredTables env stores h wi ts"
  have ids: "getId (?h a) = getId (h a)" for a using sameRows_reads(3)[OF wiredTables_same] .
  have "rowShape (declaredSpecs env (fst s)) (?h a)" if s: "s \<in> set stores" "a \<in> set (snd s)" for s a
  proof -
    have a: "a \<in> set (storeRows stores (fst s))" using assms s by (simp add: storesOk_def storeRows_in)
    show ?thesis
      using wiredTables_row[OF assms a, of wi ts] rows_shape[OF assms a] wiredRow_shape[OF declared_distinct, where h = h and a = a and wi = wi] by simp
  qed
  then show ?thesis using assms stores_specs[OF assms] by (fastforce simp: storesOk_def ids)
qed

lemma mirror_keys:
  fixes ts :: "string set"
  assumes ok: "storesOk env h stores" and wi: "wireIndexOf env stores h wi" and r: "mirrorOf env s r"
    and f: "FieldByName env (owner s) entityIDField \<noteq> None"
    and a: "a \<in> set (storeRows stores (owner s))" "relationKey h (Some a) entityIDField = Some k"
    and c: "c \<in> set (storeRows stores (target s))"
  defines "h' \<equiv> wiredTables env stores h wi ts"
  shows "(\<exists>p \<in> set (fieldPointers h' c r). relationKey h' p entityIDField = Some k) \<longleftrightarrow>
    (\<exists>p \<in> set (fieldPointers h c r). relationKey h p entityIDField = Some k)"
proof -
  have key: "relationKey h' = relationKey h" unfolding h'_def by (rule sameRows_reads(1)[OF wiredTables_same])
  have row: "h' c = (if target s \<in> ts then wiredRow h wi (declaredSpecs env (target s)) c else h c)"
    unfolding h'_def by (rule wiredTables_row[OF ok c])
  have R: "r \<in> set (declaredSpecs env (target s))" "target r = owner s" "matchField r = entityIDField" using r by (simp_all add: mirrorOf_def)
  have looked: "(target r, matchField r) \<in> lookedUp env stores"
  proof -
    have "r \<in> set (allSpecs env stores)" using R(1) storeRows_some[OF c] by (force simp: allSpecs_def)
    moreover have "\<not> computedSlice r" "FieldByName env (target r) (matchField r) \<noteq> None" using r f R by (auto simp: mirrorOf_def)
    ultimately show ?thesis by (auto simp: lookedUp_def)
  qed
  have tg: "wi_targets wi = firstTarget env h stores" using wi by (simp add: wireIndexOf_def)
  have found: "\<exists>b. canonicalSliceElement h wi r p = Some b" if "relationKey h p entityIDField = Some k" for p
    using canonical_found[OF _ tg looked, of p k a] that a R by simp
  have kept: "relationKey h (Some b) entityIDField = relationKey h p entityIDField" if "canonicalSliceElement h wi r p = Some b" for p b
    using canonical_key(1)[OF that tg] R(3) by simp
  have shape: "if many r then \<exists>ps. pointers (h c) (fieldIndex r) = Slice ps else \<exists>p. pointers (h c) (fieldIndex r) = Pointer p"
    using rows_shape[OF ok c] R(1) by (simp add: rowShape_def)
  have none: "relationKey h None n = None" for n by (simp add: relationKey_def)
  show ?thesis
  proof (cases "target s \<in> ts")
    case True
    then have v: "pointers (h' c) (fieldIndex r) = wiredField h wi c r (pointers (h c) (fieldIndex r))"
      using wiredRow_field[OF declared_distinct R(1)] row by simp
    show ?thesis
    proof (cases "many r")
      case True
      then obtain ps where ps: "pointers (h c) (fieldIndex r) = Slice ps" using shape by auto
      have "pointers (h' c) (fieldIndex r) = Slice (wireReferenceSlice h wi r ps)"
        using r True ps by (auto simp: v wiredField_def Let_def mirrorOf_def)
      moreover have "(\<exists>b \<in> set (List.map_filter (canonicalSliceElement h wi r) ps). relationKey h (Some b) entityIDField = Some k) \<longleftrightarrow>
          (\<exists>p \<in> set ps. relationKey h p entityIDField = Some k)"
      proof
        assume "\<exists>b \<in> set (List.map_filter (canonicalSliceElement h wi r) ps). relationKey h (Some b) entityIDField = Some k"
        then obtain b p where "p \<in> set ps" "canonicalSliceElement h wi r p = Some b" "relationKey h (Some b) entityIDField = Some k"
          by (auto simp: in_map_filter)
        then show "\<exists>p \<in> set ps. relationKey h p entityIDField = Some k" using kept by auto
      next
        assume "\<exists>p \<in> set ps. relationKey h p entityIDField = Some k"
        then obtain p where p: "p \<in> set ps" "relationKey h p entityIDField = Some k" by blast
        then obtain b where b: "canonicalSliceElement h wi r p = Some b" using found by blast
        then have "b \<in> set (List.map_filter (canonicalSliceElement h wi r) ps)" using p by (auto simp: in_map_filter)
        then show "\<exists>b \<in> set (List.map_filter (canonicalSliceElement h wi r) ps). relationKey h (Some b) entityIDField = Some k"
          using kept[OF b] p by auto
      qed
      ultimately show ?thesis using ps by (simp add: fieldPointers_def key wireReferenceSlice_def)
    next
      case False
      then obtain p where p: "pointers (h c) (fieldIndex r) = Pointer p" using shape by auto
      have "pointers (h' c) (fieldIndex r) = Pointer (canonicalSliceElement h wi r p)"
        using False p by (simp add: v wiredField_def wireToOne_canonical)
      then show ?thesis using p found[of p] kept[of p] none
        by (cases "canonicalSliceElement h wi r p") (auto simp: fieldPointers_def key)
    qed
  qed (simp add: key row fieldPointers_def)
qed

lemma members_agree:
  assumes ok: "storesOk env h stores" and wi: "wireIndexOf env stores h wi" and m: "mirroredByID env stores"
    and s: "s \<in> set (allSpecs env stores)" "computedSlice s"
    and a: "a \<in> set (storeRows stores (owner s))" "relationKey h (Some a) entityIDField = Some k"
  shows "sliceOf env (wiredTables env stores h wi ts) stores s k = sliceOf env h stores s k"
proof -
  let ?h = "wiredTables env stores h wi ts"
  have key: "relationKey ?h = relationKey h" by (rule sameRows_reads(1)[OF wiredTables_same])
  have f: "FieldByName env (owner s) entityIDField \<noteq> None" using m s by (auto simp: mirroredByID_def)
  have "isMember env ?h s k c = isMember env h s k c" if c: "c \<in> set (storeRows stores (target s))" for c
  proof (cases "kind s = OwnRelation")
    case True
    show ?thesis
    proof (cases "FieldByName env (target s) (matchField s)")
      case (Some q)
      obtain i fd where q: "q = (i, fd)" by fastforce
      show ?thesis
      proof (cases "\<exists>t. rf_type fd = PointerType t")
        case ptr: True
        then obtain t where t: "rf_type fd = PointerType t" by blast
        then obtain r where r: "mirrorOf env s r" "fieldIndex r = i" "\<not> many r"
          using m s True Some q by (fastforce simp: mirroredByID_def)
        have R: "r \<in> set (declaredSpecs env (target s))" using r by (simp add: mirrorOf_def)
        have "\<exists>p. pointers (g c) i = Pointer p" if "storesOk env g stores" for g
          using rows_shape[OF that c] R r by (auto simp: rowShape_def)
        then have own: "ownKey env g s c = Some k \<longleftrightarrow> (\<exists>p \<in> set (fieldPointers g c r). relationKey g p entityIDField = Some k)"
          if "storesOk env g stores" for g
          using that t r by (fastforce simp: ownKey_def Some q fieldPointers_def)
        show ?thesis using mirror_keys[OF ok wi r(1) f a c, of ts] own[OF ok] own[OF wiredTables_ok[OF ok]] True
          by (simp add: isMember_def)
      next
        case False
        then show ?thesis by (simp add: isMember_def True ownKey_def Some q key split: reflectType.split)
      qed
    qed (simp add: isMember_def True ownKey_def)
  next
    case False
    have "mirrorOf env s r" if "namedRelationSpec env (target s) (matchField s) = Some r" for r
      using that m s False by (auto simp: mirroredByID_def)
    moreover have "k \<in> set (backKeys g r c) \<longleftrightarrow> (\<exists>p \<in> set (fieldPointers g c r). relationKey g p entityIDField = Some k)"
      if "mirrorOf env s r" for g r using that by (simp add: set_backKeys mirrorOf_def)
    ultimately show ?thesis using mirror_keys[OF ok wi _ f a c, of _ ts] False by (auto simp: isMember_def)
  qed
  then show ?thesis by (auto simp: sliceOf_def intro: filter_cong)
qed

lemma wired_values_agree:
  assumes ok: "storesOk env h stores" and m: "mirroredByID env stores"
    and wi: "wireIndexOf env stores h wi" and wi': "wireIndexOf env stores (wiredTables env stores h wi ts) wi'"
    and s: "s \<in> set (allSpecs env stores)" and a: "a \<in> set (storeRows stores (owner s))"
  shows "wiredField (wiredTables env stores h wi ts) wi' a s v = wiredField h wi a s v"
proof -
  let ?h = "wiredTables env stores h wi ts"
  have same: "sameRows h ?h" by (rule wiredTables_same)
  have tg: "wi_targets wi' = wi_targets wi" using wi wi' firstTarget_same[OF same] by (simp add: wireIndexOf_def)
  have slice: "wireIndexedSlice h wi' s a ps = wireIndexedSlice h wi s a ps" if "computedSlice s" for ps
    using members_agree[OF ok wi m s that a] wi wi' s by (simp add: wireIndexedSlice_conv wireIndexOf_def split: option.split)
  have refs: "wireToOne h wi' = wireToOne h wi" "wireReferenceSlice h wi' = wireReferenceSlice h wi"
    unfolding wireToOne_def[abs_def] wireReferenceSlice_def[abs_def] canonicalSliceElement_def[abs_def] tg by (rule refl)+
  show ?thesis unfolding wiredField_same[OF same]
    by (cases "kind s") (auto simp: wiredField_def Let_def refs slice computedSlice_def split: fieldValue.split)
qed

lemma wire_index_of: "storesOk env h stores \<Longrightarrow> \<exists>wi. buildRelationWireIndex env h stores = Inr wi \<and> wireIndexOf env stores h wi"
  by (rule wire_index) (auto simp: wireIndexOf_def)

lemma wiredTables_insert:
  assumes ok: "storesOk env h stores" and row: "\<And>a. a \<in> set (storeRows stores t) \<Longrightarrow> g a = wiredRow h wi (declaredSpecs env t) a"
  shows "(\<lambda>a. if a \<in> set (storeRows stores t) then g a else wiredTables env stores h wi ts a) = wiredTables env stores h wi (insert t ts)"
proof
  fix a
  show "(if a \<in> set (storeRows stores t) then g a else wiredTables env stores h wi ts a) = wiredTables env stores h wi (insert t ts) a"
  proof (cases "\<exists>u. a \<in> set (storeRows stores u)")
    case True
    then obtain u where u: "a \<in> set (storeRows stores u)" by blast
    have "a \<in> set (storeRows stores t) \<longleftrightarrow> u = t" using u rows_disjoint[of stores a] ok by (auto simp: storesOk_def)
    then show ?thesis using row u wiredTables_row[OF ok u] by auto
  next
    case False
    then have "wiredTables env stores h wi us a = h a" for us by (auto intro: wiredTables_other)
    then show ?thesis using False by auto
  qed
qed

lemma fill_wired:
  assumes ok: "storesOk env h stores" and m: "mirroredByID env stores" and wi: "wireIndexOf env stores h wi" and t: "t \<in> fst ` set stores"
  shows "fillRelation env stores (wiredTables env stores h wi ts) t = Inr (wiredTables env stores h wi (insert t ts))"
proof -
  let ?h = "wiredTables env stores h wi ts"
  have ok': "storesOk env ?h stores" by (rule wiredTables_ok[OF ok])
  obtain wi' where wi': "buildRelationWireIndex env ?h stores = Inr wi'" "wireIndexOf env stores ?h wi'"
    using wire_index_of[OF ok'] by blast
  have row: "wiredRow ?h wi' (declaredSpecs env t) a = wiredRow h wi (declaredSpecs env t) a" if a: "a \<in> set (storeRows stores t)" for a
  proof -
    have val: "wiredField ?h wi' a s v = wiredField h wi a s v" if s: "s \<in> set (declaredSpecs env t)" for s v
    proof -
      have "owner s = t" using s spec_owner[of env t] by (cases "relationSpecs env t") (auto simp: declaredSpecs_def)
      moreover have "s \<in> set (allSpecs env stores)" using s t by (force simp: allSpecs_def)
      ultimately show ?thesis using wired_values_agree[OF ok m wi wi'(2)] a by simp
    qed
    have again: "wiredField h wi a s (wiredField h wi a s v) = wiredField h wi a s v" if s: "s \<in> set (declaredSpecs env t)" for s v
    proof -
      have "s \<in> set (allSpecs env stores)" using s t by (force simp: allSpecs_def)
      then show ?thesis using wi sliceOf_ids[OF ok] by (intro wiredField_again) (auto simp: wireIndexOf_def)
    qed
    have old: "?h a = (if t \<in> ts then wiredRow h wi (declaredSpecs env t) a else h a)" by (rule wiredTables_row[OF ok a])
    have "pointers (wiredRow ?h wi' (declaredSpecs env t) a) i = pointers (wiredRow h wi (declaredSpecs env t) a) i" for i
    proof (cases "find (\<lambda>s. fieldIndex s = i) (declaredSpecs env t)")
      case (Some s)
      then have "s \<in> set (declaredSpecs env t)" by (auto simp: find_Some_iff)
      then show ?thesis using val again old by (simp add: wiredRow_def Some)
    qed (simp add: wiredRow_def old)
    moreover have "scalars (?h a) = scalars (h a)" "getId (?h a) = getId (h a)"
      using wiredTables_same[of h env stores wi ts] by (simp_all add: sameRows_def)
    ultimately show ?thesis by (intro entity.equality) (auto simp: wiredRow_def)
  qed
  from wiredTables_insert[OF ok, where g = "wiredRow ?h wi' (declaredSpecs env t)", OF this] show ?thesis
    using fill_rows[OF ok' t wi'(1)] by simp
qed

end
