(* ===== verification/Restart_Wiring.thy ===== *)
theory Restart_Wiring
  imports Relation_Wiring
begin

text \<open>
  What \<open>Open\<close> makes of the loaded tables: the order of the opens does not matter, and a wired graph
  comes back from its rows as it was, except that computed slices come back in slot order. Two
  accepted declarations for which this fails are at the end.
\<close>

section \<open>The order of the opens\<close>

lemma wiredTables_none: "wiredTables env stores h wi {} = h"
  by (auto simp: wiredTables_def fun_eq_iff split: option.split)

lemma fill_tables:
  assumes "storesOk env h stores" "mirroredByID env stores" "wireIndexOf env stores h wi" "set ts \<subseteq> fst ` set stores"
  shows "fold_result (fillRelation env stores) ts (wiredTables env stores h wi us) = Inr (wiredTables env stores h wi (us \<union> set ts))"
  using assms(4)
proof (induction ts arbitrary: us)
  case (Cons t ts)
  then show ?case using fill_wired[OF assms(1-3), of t us] by simp
qed simp

lemma fill_from_start:
  assumes "storesOk env h stores" "mirroredByID env stores" "wireIndexOf env stores h wi" "set ts \<subseteq> fst ` set stores"
  shows "fold_result (fillRelation env stores) ts h = Inr (wiredTables env stores h wi (set ts))"
  using fill_tables[OF assms, of "{}"] by (simp add: wiredTables_none)

lemma fill_from_wired:
  assumes ok: "storesOk env h stores" and wi: "wireIndexOf env stores h wi" and t: "t \<in> fst ` set stores"
  shows "fillRelationFrom env stores wi t (wiredTables env stores h wi ts) = Inr (wiredTables env stores h wi (insert t ts))"
proof -
  let ?h = "wiredTables env stores h wi ts"
  have row: "wiredRow ?h wi (declaredSpecs env t) a = wiredRow h wi (declaredSpecs env t) a" if a: "a \<in> set (storeRows stores t)" for a
  proof -
    have again: "wiredField h wi a s (wiredField h wi a s v) = wiredField h wi a s v" if s: "s \<in> set (declaredSpecs env t)" for s v
    proof -
      have "s \<in> set (allSpecs env stores)" using s t by (force simp: allSpecs_def)
      then show ?thesis using wi sliceOf_ids[OF ok] by (intro wiredField_again) (auto simp: wireIndexOf_def)
    qed
    have old: "?h a = (if t \<in> ts then wiredRow h wi (declaredSpecs env t) a else h a)" by (rule wiredTables_row[OF ok a])
    have "pointers (wiredRow ?h wi (declaredSpecs env t) a) i = pointers (wiredRow h wi (declaredSpecs env t) a) i" for i
    proof (cases "find (\<lambda>s. fieldIndex s = i) (declaredSpecs env t)")
      case (Some s)
      then have "s \<in> set (declaredSpecs env t)" by (auto simp: find_Some_iff)
      then show ?thesis using again old by (simp add: wiredRow_def Some wiredField_same[OF wiredTables_same])
    qed (simp add: wiredRow_def old)
    moreover have "scalars (?h a) = scalars (h a)" "getId (?h a) = getId (h a)"
      using wiredTables_same[of h env stores wi ts] by (simp_all add: sameRows_def)
    ultimately show ?thesis by (intro entity.equality) (auto simp: wiredRow_def)
  qed
  from wiredTables_insert[OF ok, where g = "wiredRow ?h wi (declaredSpecs env t)", OF this]
  show ?thesis
    using wire_rows[OF declared_distinct storeRows_distinct[OF ok], of env t wi ?h t] stores_specs[OF ok] t
    by (auto simp: fillRelationFrom_def storeRows_def[symmetric])
qed

lemma rewire_tables:
  assumes "storesOk env h stores" "buildRelationWireIndex env h stores = Inr wi" "wireIndexOf env stores h wi" "set ts \<subseteq> fst ` set stores"
  shows "rewireRelations env stores h ts = Inr (wiredTables env stores h wi (set ts))"
proof -
  have "fold_result (\<lambda>h t. fillRelationFrom env stores wi t h) ts (wiredTables env stores h wi us) = Inr (wiredTables env stores h wi (us \<union> set ts))" for us
    using assms(4)
  proof (induction ts arbitrary: us)
    case (Cons t ts)
    then show ?case using fill_from_wired[OF assms(1,3), of t us] by simp
  qed simp
  from this[of "{}"] show ?thesis by (simp add: rewireRelations_def assms(2) wiredTables_none)
qed

text \<open>
  C33. The order in which the tables are opened is irrelevant when the mirrored fields carry ids. Each \<open>Open\<close> wires its own rows
  against tables of which some are wired already and others still hold hollow pointers; when
  the mirrored fields carry ids, any two sequences of opens of the same tables succeed and leave
  the same graph, repetitions included. It is also the graph that \<open>rewireRelations\<close> leaves, which
  wires all tables against one index.
\<close>

theorem opening_order_is_irrelevant:
  assumes "storesOk env h stores" and "mirroredByID env stores"
    and "set ts \<subseteq> fst ` set stores" and "set us = set ts"
  shows "\<exists>h'. fold_result (fillRelation env stores) ts h = Inr h' \<and> fold_result (fillRelation env stores) us h = Inr h' \<and>
    rewireRelations env stores h ts = Inr h'"
proof -
  obtain wi where built: "buildRelationWireIndex env h stores = Inr wi" and wi: "wireIndexOf env stores h wi" using wire_index_of[OF assms(1)] by blast
  have "fold_result (fillRelation env stores) us h = Inr (wiredTables env stores h wi (set us))"
    by (rule fill_from_start[OF assms(1,2) wi]) (use assms(3,4) in simp)
  then show ?thesis using fill_from_start[OF assms(1,2) wi assms(3)]
      rewire_tables[OF assms(1) built wi assms(3)] assms(4) by simp
qed

section \<open>A loaded order and its item\<close>

text \<open>Order 1 at address 11 without items, item 5 at address 12 with a hollow order at 13.\<close>

definition loadedHeap :: "nat heap" where
  "loadedHeap a =
     (if a = 12 then \<lparr>getId = 5, scalars = [''Id'' \<mapsto> IntValue ''int'' 5], pointers = (\<lambda>i. if i = 1 then Pointer (Some 13) else Pointer None)\<rparr>
      else \<lparr>getId = 1, scalars = [''Id'' \<mapsto> IntValue ''int'' 1], pointers = (\<lambda>i. if i = 1 then Slice [] else Pointer None)\<rparr>)"

definition loadedStores :: "nat stores" where
  "loadedStores = [(''Order'', [11]), (''Item'', [12])]"

lemma loaded_ok: "storesOk orderTypes loadedHeap loadedStores"
  by (simp add: storesOk_def loadedStores_def orderTypes_specs rowShape_def loadedHeap_def)

lemma order_declared:
  "declaredSpecs orderTypes ''Order'' = [\<lparr>owner = ''Order'', fieldIndex = 1, fieldName = ''Items'', target = ''Item'',
     kind = OwnRelation, matchField = ''Order'', many = True\<rparr>]"
  "declaredSpecs orderTypes ''Item'' = [\<lparr>owner = ''Item'', fieldIndex = 1, fieldName = ''Order'', target = ''Order'',
     kind = OwnedByRelation, matchField = ''Id'', many = False\<rparr>]"
  by (simp_all add: declaredSpecs_def orderTypes_specs)

lemma order_named:
  "FieldByName orderTypes ''Order'' entityIDField = Some (0, \<lparr>rf_name = ''Id'', rf_type = ScalarType ''int'', rf_tag = None\<rparr>)"
  "FieldByName orderTypes ''Item'' ''Order'' =
     Some (1, \<lparr>rf_name = ''Order'', rf_type = PointerType (StructType ''Order''), rf_tag = Some ''ownedby, Id''\<rparr>)"
  by (simp_all add: FieldByName_def structFields_def orderTypes_def entityIDField_def)

lemma order_all: "map fst stores = [''Order'', ''Item''] \<Longrightarrow>
    set (allSpecs orderTypes stores) = set (declaredSpecs orderTypes ''Order'') \<union> set (declaredSpecs orderTypes ''Item'')"
  by (auto simp: allSpecs_def map_eq_Cons_conv)

lemma order_mirrored:
  assumes "map fst stores = [''Order'', ''Item'']"
  shows "mirroredByID orderTypes stores"
proof -
  let ?parent = "\<lparr>owner = ''Item'', fieldIndex = 1, fieldName = ''Order'', target = ''Order'',
     kind = OwnedByRelation, matchField = ''Id'', many = False\<rparr>"
  let ?items = "\<lparr>owner = ''Order'', fieldIndex = 1, fieldName = ''Items'', target = ''Item'',
     kind = OwnRelation, matchField = ''Order'', many = True\<rparr>"
  have "mirrorOf orderTypes ?items ?parent" by (simp add: mirrorOf_def order_declared entityIDField_def computedSlice_def)
  then have "\<exists>r. mirrorOf orderTypes ?items r \<and> fieldIndex r = 1 \<and> \<not> many r" by (intro exI[of _ ?parent]) simp
  then show ?thesis
    unfolding mirroredByID_def order_all[OF assms] order_declared by (simp add: computedSlice_def order_named)
qed

theorem opening_order_is_irrelevant_witness:
  "\<exists>h'. fold_result (fillRelation orderTypes loadedStores) [''Order'', ''Item''] loadedHeap = Inr h' \<and>
     fold_result (fillRelation orderTypes loadedStores) [''Item'', ''Order'', ''Item''] loadedHeap = Inr h' \<and>
     rewireRelations orderTypes loadedStores loadedHeap [''Order'', ''Item''] = Inr h'"
  by (rule opening_order_is_irrelevant[OF loaded_ok order_mirrored]) (auto simp: loadedStores_def)

section \<open>A wired graph comes back from its rows\<close>

text \<open>Tables loaded from the rows of \<open>saved\<close>, and the rows at the same position of a table in both.\<close>

definition loadedFrom :: "typeEnv \<Rightarrow> 'p heap \<Rightarrow> 'p stores \<Rightarrow> memory \<Rightarrow> nat stores \<Rightarrow> bool" where
  "loadedFrom env hs saved m stores \<longleftrightarrow>
     map fst saved = map fst stores \<and>
     (\<forall>t. list_all2 (\<lambda>a b. restored (declaredSpecs env t) hs (hs a) m (cells m b)) (storeRows saved t) (storeRows stores t))"

definition sameRow :: "'p stores \<Rightarrow> nat stores \<Rightarrow> string \<Rightarrow> 'p \<Rightarrow> nat \<Rightarrow> bool" where
  "sameRow saved stores t a b \<longleftrightarrow> (a, b) \<in> set (zip (storeRows saved t) (storeRows stores t))"

lemma find_all2:
  "list_all2 R xs ys \<Longrightarrow> (\<And>x y. R x y \<Longrightarrow> P x = Q y) \<Longrightarrow> rel_option R (find P xs) (find Q ys)"
  by (induction rule: list_all2_induct) auto

lemma filter_all2:
  "list_all2 R xs ys \<Longrightarrow> (\<And>x y. R x y \<Longrightarrow> P x = Q y) \<Longrightarrow> list_all2 R (filter P xs) (filter Q ys)"
  by (induction rule: list_all2_induct) auto

lemma map_filter_all2:
  "list_all2 R xs ys \<Longrightarrow> (\<And>x y. R x y \<Longrightarrow> rel_option S (f x) (g y)) \<Longrightarrow> list_all2 S (List.map_filter f xs) (List.map_filter g ys)"
proof (induction rule: list_all2_induct)
  case (Cons x xs y ys)
  then have "rel_option S (f x) (g y)" by simp
  then show ?case using Cons by (cases "f x"; cases "g y") (simp_all add: map_filter_simps)
qed (simp add: map_filter_simps)

lemma loaded_rows:
  assumes "loadedFrom env hs saved m stores"
  shows "list_all2 (sameRow saved stores t) (storeRows saved t) (storeRows stores t)"
proof -
  have "length (storeRows saved t) = length (storeRows stores t)" using assms by (auto simp: loadedFrom_def dest: list_all2_lengthD)
  then show ?thesis by (auto simp: sameRow_def list_all2_conv_all_nth in_set_zip)
qed

lemma sameRow_parts:
  assumes "loadedFrom env hs saved m stores" and "sameRow saved stores t a b"
  shows "a \<in> set (storeRows saved t)" "b \<in> set (storeRows stores t)" "restored (declaredSpecs env t) hs (hs a) m (cells m b)"
    "relationKey (cells m) (Some b) n = relationKey hs (Some a) n"
proof -
  show "a \<in> set (storeRows saved t)" "b \<in> set (storeRows stores t)" using assms(2) by (auto simp: sameRow_def dest: set_zip_leftD set_zip_rightD)
  show r: "restored (declaredSpecs env t) hs (hs a) m (cells m b)"
    using assms by (fastforce simp: loadedFrom_def sameRow_def list_all2_iff)
  show "relationKey (cells m) (Some b) n = relationKey hs (Some a) n" using r by (simp add: relationKey_def restored_def)
qed

lemma allSpecs_names: "map fst saved = map fst stores \<Longrightarrow> allSpecs env saved = allSpecs env stores"
proof -
  have "allSpecs env s = concat (map (declaredSpecs env) (map fst s))" for s :: "'c stores" by (simp add: allSpecs_def o_def)
  moreover have "allSpecs env s = concat (map (declaredSpecs env) (map fst s))" for s :: "'b stores" by (simp add: allSpecs_def o_def)
  ultimately show "map fst saved = map fst stores \<Longrightarrow> allSpecs env saved = allSpecs env stores" by metis
qed

lemma declared_kinds:
  assumes "r \<in> set (declaredSpecs env t)"
  shows "owner r = t" "many r \<Longrightarrow> kind r \<noteq> OwnedByRelation" "kind r = InverseRelation \<Longrightarrow> many r"
proof -
  obtain specs where s: "relationSpecs env t = Inr specs" "r \<in> set specs"
    using assms by (cases "relationSpecs env t") (auto simp: declaredSpecs_def)
  show "owner r = t" by (rule spec_owner[OF s])
  obtain fs where fs: "map_of (structs env) t = Some fs" using s(1) by (auto simp: relationSpecs_def split: option.splits)
  let ?I = "\<lambda>s. (many s \<longrightarrow> kind s \<noteq> OwnedByRelation) \<and> (kind s = InverseRelation \<longrightarrow> many s)"
  have parsed: "parseRelationField env t i = Inr (Some s) \<Longrightarrow> ?I s" for i s
    by (auto simp: parseRelationField_def Let_def split: option.splits if_splits)
  have "\<forall>s \<in> set specs. ?I s"
    by (rule fold_result_invariant[where I = "\<lambda>out. \<forall>s \<in> set out. ?I s"
          and f = "\<lambda>out i. bind_result (parseRelationField env t i) (\<lambda>r. Inr (case r of None \<Rightarrow> out | Some s \<Rightarrow> out @ [s]))"
          and xs = "[0 ..< length fs]" and s = "[]"])
      (use s fs in \<open>auto simp: relationSpecs_def bind_result_def dest!: parsed split: sum.splits option.splits\<close>)
  then show "many r \<Longrightarrow> kind r \<noteq> OwnedByRelation" "kind r = InverseRelation \<Longrightarrow> many r" using s(2) by auto
qed

lemma computed_kinds:
  assumes "r \<in> set (declaredSpecs env t)"
  shows "computedSlice r \<longleftrightarrow> \<not> persistedRelation r"
  using declared_kinds(2,3)[OF assms] by (cases "kind r") (auto simp: computedSlice_def persistedRelation_def)

lemma map_filter_Some: "map f ps = map Some ks \<Longrightarrow> List.map_filter f ps = ks"
  by (induction ps arbitrary: ks) (auto simp: map_filter_simps map_eq_Cons_conv)

lemma restored_keys:
  assumes "restored specs hs e m e'" "rowShape specs e" "r \<in> set specs" "persistedRelation r"
  shows "fieldKeys (cells m) e' r = fieldKeys hs e r"
proof -
  have i: "inflatedField m e' r (fieldKeys hs e r)" using assms by (auto simp: restored_def)
  show ?thesis
  proof (cases "many r")
    case True
    then show ?thesis using i map_filter_Some by (fastforce simp: inflatedField_def fieldKeys_def[of "cells m"] pointersOf_def)
  next
    case False
    obtain p where p: "pointers e (fieldIndex r) = Pointer p" using assms(2)[unfolded rowShape_def, THEN bspec, OF assms(3)] False by auto
    obtain q where q: "pointers e' (fieldIndex r) = Pointer q"
      "relationKey (cells m) q (matchField r) = (case fieldKeys hs e r of [] \<Rightarrow> None | k # _ \<Rightarrow> Some k)"
      using i False by (auto simp: inflatedField_def)
    have "fieldKeys hs e r = (case relationKey hs p (matchField r) of None \<Rightarrow> [] | Some v \<Rightarrow> [v])"
      by (simp add: fieldKeys_def pointersOf_def p map_filter_simps split: option.split)
    then show ?thesis using q by (simp add: fieldKeys_def[of "cells m"] pointersOf_def map_filter_simps split: option.split)
  qed
qed

lemma restored_shape:
  assumes "restored specs hs e m e'"
  shows "rowShape specs e'"
proof -
  have "if many r then \<exists>ps. pointers e' (fieldIndex r) = Slice ps else \<exists>p. pointers e' (fieldIndex r) = Pointer p" if "r \<in> set specs" for r
  proof -
    have "if persistedRelation r then inflatedField m e' r (fieldKeys hs e r) else pointers e' (fieldIndex r) = Slice []"
      using assms that unfolding restored_def by blast
    moreover have "\<not> persistedRelation r \<Longrightarrow> many r" by (simp add: persistedRelation_def)
    ultimately show ?thesis by (auto simp: inflatedField_def split: if_splits)
  qed
  then show ?thesis by (simp add: rowShape_def)
qed

lemma loaded_storesOk:
  assumes ok: "storesOk env hs saved" and l: "loadedFrom env hs saved m stores" and d: "distinct (concat (map snd stores))"
  shows "storesOk env (cells m) stores"
proof -
  have names: "map fst saved = map fst stores" using l by (simp add: loadedFrom_def)
  have dn: "distinct (map fst stores)" using ok names by (simp add: storesOk_def)
  have "distinct (map (\<lambda>a. getId (cells m a)) (snd s)) \<and>
      (\<exists>specs. relationSpecs env (fst s) = Inr specs \<and> (\<forall>a \<in> set (snd s). rowShape specs (cells m a)))" if s: "s \<in> set stores" for s
  proof -
    have "fst s \<in> fst ` set saved" using s arg_cong[OF names, of set] by auto
    then obtain s0 where s0: "s0 \<in> set saved" "fst s0 = fst s" by auto
    have rows: "storeRows stores (fst s) = snd s" "storeRows saved (fst s) = snd s0"
      using storeRows_in[OF dn s] storeRows_in[OF _ s0(1)] ok s0(2) by (auto simp: storesOk_def)
    then have R: "list_all2 (\<lambda>a b. restored (declaredSpecs env (fst s)) hs (hs a) m (cells m b)) (snd s0) (snd s)"
      using l unfolding loadedFrom_def by metis
    have ids: "map (\<lambda>a. getId (cells m a)) (snd s) = map (\<lambda>a. getId (hs a)) (snd s0)"
      using R by (induction rule: list_all2_induct) (simp_all add: restored_def)
    moreover have "distinct (map (\<lambda>a. getId (hs a)) (snd s0))" using ok s0(1) by (auto simp: storesOk_def)
    moreover have "rowShape (declaredSpecs env (fst s)) (cells m b)" if "b \<in> set (snd s)" for b
      using R that restored_shape by (fastforce simp: list_all2_conv_all_nth in_set_conv_nth)
    ultimately show ?thesis using stores_specs[OF ok s0(1)] s0(2) by simp
  qed
  then show ?thesis using dn d unfolding storesOk_def by blast
qed

lemma loaded_keys:
  assumes "storesOk env hs saved" "loadedFrom env hs saved m stores" "sameRow saved stores t a b"
    and "r \<in> set (declaredSpecs env t)" "persistedRelation r"
  shows "fieldKeys (cells m) (cells m b) r = fieldKeys hs (hs a) r"
  using restored_keys[OF sameRow_parts(3)[OF assms(2,3)] rows_shape[OF assms(1) sameRow_parts(1)[OF assms(2,3)]] assms(4,5)] .

lemma loaded_target:
  assumes l: "loadedFrom env hs saved m stores"
  shows "rel_option (sameRow saved stores (fst key)) (firstTarget env hs saved key) (firstTarget env (cells m) stores key)"
proof -
  have "allSpecs env saved = allSpecs env stores" by (rule allSpecs_names) (use l in \<open>simp add: loadedFrom_def\<close>)
  then have "lookedUp env saved = lookedUp env stores" by (simp add: lookedUp_def)
  moreover have "rel_option (sameRow saved stores t) (find (\<lambda>a. relationKey hs (Some a) f = Some v) (storeRows saved t))
      (find (\<lambda>a. relationKey (cells m) (Some a) f = Some v) (storeRows stores t))" for t f v
    by (rule find_all2[OF loaded_rows[OF l]]) (simp add: sameRow_parts(4)[OF l])
  ultimately show ?thesis by (cases key) (simp add: firstTarget_def)
qed

text \<open>A wired field in terms of the keys it held.\<close>

lemma reference_field:
  assumes "r \<in> set (declaredSpecs env t)" "\<not> computedSlice r" "rowShape (declaredSpecs env t) (h a)"
  shows "wiredField h wi a r (pointers (h a) (fieldIndex r)) =
    (let tgt = \<lambda>k. wi_targets wi (target r, matchField r, k); ks = fieldKeys h (h a) r
     in if many r then Slice (map Some (List.map_filter tgt ks)) else Pointer (case ks of [] \<Rightarrow> None | k # _ \<Rightarrow> tgt k))"
proof -
  let ?tgt = "\<lambda>k. wi_targets wi (target r, matchField r, k)"
  have shape: "if many r then \<exists>ps. pointers (h a) (fieldIndex r) = Slice ps else \<exists>p. pointers (h a) (fieldIndex r) = Pointer p"
    using assms(3)[unfolded rowShape_def, THEN bspec, OF assms(1)] .
  have slice: "List.map_filter (canonicalSliceElement h wi r) ps = List.map_filter ?tgt (List.map_filter (\<lambda>p. relationKey h p (matchField r)) ps)" for ps
    by (induction ps) (auto simp: map_filter_simps canonicalSliceElement_def split: option.split)
  show ?thesis
  proof (cases "many r")
    case True
    then obtain ps where ps: "pointers (h a) (fieldIndex r) = Slice ps" using shape by auto
    have "kind r = BorrowRelation \<or> kind r = OptionRelation"
      using True assms(2) declared_kinds(2)[OF assms(1)] by (cases "kind r") (auto simp: computedSlice_def)
    then show ?thesis using True ps by (auto simp: wiredField_def wireReferenceSlice_def slice fieldKeys_def pointersOf_def Let_def)
  next
    case False
    then obtain p where p: "pointers (h a) (fieldIndex r) = Pointer p" using shape by auto
    then show ?thesis using False
      by (simp add: wiredField_def wireToOne_def fieldKeys_def pointersOf_def Let_def map_filter_simps split: option.split)
  qed
qed

lemma computed_field:
  assumes "r \<in> set (declaredSpecs env t)" "computedSlice r" "rowShape (declaredSpecs env t) (h a)"
  obtains ps where "pointers (h a) (fieldIndex r) = Slice ps"
    "wiredField h wi a r (pointers (h a) (fieldIndex r)) = Slice (wireIndexedSlice h wi r a ps)"
proof -
  have "many r" using assms(2) declared_kinds(3)[OF assms(1)] by (auto simp: computedSlice_def)
  moreover obtain ps where ps: "pointers (h a) (fieldIndex r) = Slice ps"
    using assms(3)[unfolded rowShape_def, THEN bspec, OF assms(1)] \<open>many r\<close> by auto
  ultimately have "wiredField h wi a r (pointers (h a) (fieldIndex r)) = Slice (wireIndexedSlice h wi r a ps)"
    using assms(2) by (auto simp: wiredField_def computedSlice_def Let_def)
  then show thesis using that ps by blast
qed

text \<open>The rows agree on which computed slices they belong into.\<close>

lemma loaded_members:
  assumes ok: "storesOk env hs saved" and m: "mirroredByID env saved" and l: "loadedFrom env hs saved m stores"
    and s: "s \<in> set (allSpecs env saved)" "computedSlice s"
  shows "list_all2 (sameRow saved stores (target s)) (sliceOf env hs saved s k) (sliceOf env (cells m) stores s k)"
proof -
  have mirror: "(k \<in> set (backKeys (cells m) r b)) = (k \<in> set (backKeys hs r a))"
    if r: "mirrorOf env s r" and ab: "sameRow saved stores (target s) a b" for r a b
  proof -
    have R: "r \<in> set (declaredSpecs env (target s))" "\<not> computedSlice r" using r by (simp_all add: mirrorOf_def)
    have keys: "k \<in> set (backKeys g r c) \<longleftrightarrow> k \<in> set (fieldKeys g (g c) r)" for g :: "'c heap" and c
      by (auto simp: set_backKeys fieldKeys_def fieldPointers_def pointersOf_def in_map_filter)
    have keys': "k \<in> set (backKeys g r c) \<longleftrightarrow> k \<in> set (fieldKeys g (g c) r)" for g :: "nat heap" and c
      by (auto simp: set_backKeys fieldKeys_def fieldPointers_def pointersOf_def in_map_filter)
    have "persistedRelation r" using computed_kinds[OF R(1)] R(2) by blast
    then show ?thesis unfolding set_backKeys using loaded_keys[OF ok l ab R(1)]
      by (simp add: set_backKeys[symmetric] keys' ) (auto simp: set_backKeys fieldKeys_def fieldPointers_def pointersOf_def in_map_filter)
  qed
  have "isMember env hs s k a = isMember env (cells m) s k b" if ab: "sameRow saved stores (target s) a b" for a b
  proof (cases "kind s = OwnRelation")
    case True
    have "(ownKey env hs s a = Some k) = (ownKey env (cells m) s b = Some k)"
    proof (cases "FieldByName env (target s) (matchField s)")
      case (Some q)
      obtain i fd where q: "q = (i, fd)" by fastforce
      show ?thesis
      proof (cases "\<exists>t. rf_type fd = PointerType t")
        case ptr: True
        then obtain t where t: "rf_type fd = PointerType t" by blast
        then obtain r where r: "mirrorOf env s r" "fieldIndex r = i" "\<not> many r"
          using m s True Some q by (fastforce simp: mirroredByID_def)
        then have R: "r \<in> set (declaredSpecs env (target s))" "matchField r = entityIDField" by (simp_all add: mirrorOf_def)
        have sh: "rowShape (declaredSpecs env (target s)) (hs a)" "rowShape (declaredSpecs env (target s)) (cells m b)"
          using rows_shape[OF ok sameRow_parts(1)[OF l ab]] restored_shape[OF sameRow_parts(3)[OF l ab]] by auto
        obtain p q' where "pointers (hs a) i = Pointer p" "pointers (cells m b) i = Pointer q'"
          using sh[unfolded rowShape_def, THEN bspec, OF R(1)] r(2,3) by auto
        then show ?thesis using mirror[OF r(1) ab] t r R
          by (simp add: set_backKeys fieldPointers_def ownKey_def Some q)
      next
        case False
        then show ?thesis using sameRow_parts(4)[OF l ab] by (simp add: ownKey_def Some q split: reflectType.split)
      qed
    qed (simp add: ownKey_def)
    then show ?thesis using True by (simp add: isMember_def)
  next
    case False
    have "mirrorOf env s r" if "namedRelationSpec env (target s) (matchField s) = Some r" for r
      using that m s False by (auto simp: mirroredByID_def)
    then show ?thesis using mirror[OF _ ab] False by (auto simp: isMember_def)
  qed
  then show ?thesis using s(2) by (simp add: sliceOf_def filter_all2[OF loaded_rows[OF l]])
qed

definition sameField :: "'p stores \<Rightarrow> nat stores \<Rightarrow> 'p entity \<Rightarrow> nat entity \<Rightarrow> relationSpec \<Rightarrow> bool" where
  "sameField saved stores e e' r \<longleftrightarrow>
     (\<exists>qs. (if computedSlice r then mset qs = mset (pointersOf e r) else qs = pointersOf e r) \<and>
        list_all2 (rel_option (sameRow saved stores (target r))) qs (pointersOf e' r))"

lemma references_come_back:
  assumes ok: "storesOk env hs saved" and l: "loadedFrom env hs saved m stores"
    and wi: "wi_targets wi = firstTarget env hs saved" "wi_targets wi' = firstTarget env (cells m) stores"
    and ab: "sameRow saved stores t a b" and r: "r \<in> set (declaredSpecs env t)" "\<not> computedSlice r"
    and e: "pointers e (fieldIndex r) = wiredField hs wi a r (pointers (hs a) (fieldIndex r))"
    and e': "pointers e' (fieldIndex r) = wiredField (cells m) wi' b r (pointers (cells m b) (fieldIndex r))"
  shows "sameField saved stores e e' r"
proof -
  let ?R = "sameRow saved stores (target r)"
  have p: "persistedRelation r" using computed_kinds[OF r(1)] r(2) by blast
  have keys: "fieldKeys (cells m) (cells m b) r = fieldKeys hs (hs a) r" by (rule loaded_keys[OF ok l ab r(1) p])
  have tgt: "rel_option ?R (wi_targets wi (target r, n, k)) (wi_targets wi' (target r, n, k))" for n k
    using loaded_target[OF l, of "(target r, n, k)"] by (simp add: wi)
  note F = reference_field[where h = hs and wi = wi, OF r rows_shape[OF ok sameRow_parts(1)[OF l ab]]]
    reference_field[where h = "cells m" and wi = wi', OF r restored_shape[OF sameRow_parts(3)[OF l ab]]]
  show ?thesis
  proof (cases "many r")
    case True
    have "list_all2 ?R (List.map_filter (\<lambda>k. wi_targets wi (target r, matchField r, k)) ks)
        (List.map_filter (\<lambda>k. wi_targets wi' (target r, matchField r, k)) ks)" for ks
      by (rule map_filter_all2[where R = "(=)"]) (simp_all add: list.rel_eq tgt)
    then have "list_all2 (rel_option ?R) (map Some (List.map_filter (\<lambda>k. wi_targets wi (target r, matchField r, k)) ks))
        (map Some (List.map_filter (\<lambda>k. wi_targets wi' (target r, matchField r, k)) ks))" for ks
      by (simp add: list.rel_map)
    then show ?thesis using True r(2) e e' F keys by (simp add: sameField_def pointersOf_def Let_def)
  next
    case False
    then show ?thesis using r(2) e e' F keys tgt
      by (cases "fieldKeys hs (hs a) r") (simp_all add: sameField_def pointersOf_def Let_def)
  qed
qed

lemma computed_slices_come_back:
  assumes ok: "storesOk env hs saved" and m: "mirroredByID env saved" and l: "loadedFrom env hs saved m stores"
    and wi: "wireIndexOf env saved hs wi" "wireIndexOf env stores (cells m) wi'"
    and ab: "sameRow saved stores t a b" and r: "r \<in> set (declaredSpecs env t)" "computedSlice r"
    and e: "pointers e (fieldIndex r) = wiredField hs wi a r (pointers (hs a) (fieldIndex r))"
    and e': "pointers e' (fieldIndex r) = wiredField (cells m) wi' b r (pointers (cells m b) (fieldIndex r))"
  shows "sameField saved stores e e' r"
proof -
  let ?R = "sameRow saved stores (target r)"
  have a: "a \<in> set (storeRows saved t)" by (rule sameRow_parts(1)[OF l ab])
  have names: "map fst saved = map fst stores" using l by (simp add: loadedFrom_def)
  have all: "r \<in> set (allSpecs env saved)" using r(1) storeRows_some[OF a] by (force simp: allSpecs_def)
  then have all': "r \<in> set (allSpecs env stores)" using allSpecs_names[OF names] by metis
  obtain ps where ps: "wiredField hs wi a r (pointers (hs a) (fieldIndex r)) = Slice (wireIndexedSlice hs wi r a ps)"
    using computed_field[where h = hs and wi = wi, OF r rows_shape[OF ok a]] by metis
  have start: "pointers (cells m b) (fieldIndex r) = Slice []"
    using sameRow_parts(3)[OF l ab] r computed_kinds[OF r(1)] by (auto simp: restored_def)
  then obtain "wiredField (cells m) wi' b r (pointers (cells m b) (fieldIndex r)) = Slice (wireIndexedSlice (cells m) wi' r b [])"
    using computed_field[where h = "cells m" and wi = wi', OF r restored_shape[OF sameRow_parts(3)[OF l ab]]] by auto
  note F = ps this
  have empty: "arranged h members [] = members" for h :: "nat heap" and members by (simp add: arranged_def)
  show ?thesis
  proof (cases "relationKey hs (Some a) entityIDField")
    case None
    then show ?thesis using F e e' r(2) sameRow_parts(4)[OF l ab, of entityIDField]
      by (simp add: sameField_def pointersOf_def wireIndexedSlice_conv)
  next
    case (Some k)
    let ?M = "sliceOf env hs saved r k"
    have "list_all2 ?R ?M (sliceOf env (cells m) stores r k)" by (rule loaded_members[OF ok m l all r(2)])
    moreover have "wi_slices wi (owner r, fieldIndex r) k = ?M" "wi_slices wi' (owner r, fieldIndex r) k = sliceOf env (cells m) stores r k"
      using wi all all' by (simp_all add: wireIndexOf_def)
    moreover have "mset ?M = mset (arranged hs ?M ps)"
    proof -
      have d: "distinct (map (\<lambda>c. getId (hs c)) ?M)" by (rule sliceOf_ids[OF ok])
      have "distinct ?M" "distinct (arranged hs ?M ps)" "set (arranged hs ?M ps) = set ?M"
        using d arranged_members[OF d, of ps] by (auto simp: distinct_map)
      then show ?thesis by (simp add: set_eq_iff_mset_eq_distinct)
    qed
    ultimately show ?thesis using F e e' r(2) Some sameRow_parts(4)[OF l ab, of entityIDField]
      by (auto simp: sameField_def pointersOf_def wireIndexedSlice_conv empty list.rel_map intro!: exI[of _ "map Some ?M"])
  qed
qed

text \<open>
  C34. A restart restores the graph when the mirrored fields carry ids. Take a wired graph of such a
  schema, one that rewiring leaves as it is, and tables loaded from its rows. Opening all tables
  succeeds, every row has its fields and its id back, every reference of a row points to the row at
  the position of its old target, in the old order, and every computed slice has the same members,
  the rows at the positions of its old ones, each as often.
\<close>

theorem restart_restores_the_graph:
  assumes "storesOk env hs saved" and "mirroredByID env saved"
    and "rewireRelations env saved hs (map fst saved) = Inr hs"
    and "loadedFrom env hs saved m stores" and "distinct (concat (map snd stores))"
  shows "\<exists>h'. fold_result (fillRelation env stores) (map fst stores) (cells m) = Inr h' \<and>
    (\<forall>t a b. sameRow saved stores t a b \<longrightarrow>
       scalars (h' b) = scalars (hs a) \<and> getId (h' b) = getId (hs a) \<and>
       (\<forall>r \<in> set (declaredSpecs env t). sameField saved stores (hs a) (h' b) r))"
proof -
  note ok = assms(1) and m = assms(2) and l = assms(4)
  have ok': "storesOk env (cells m) stores" by (rule loaded_storesOk[OF ok l assms(5)])
  have names: "map fst saved = map fst stores" using l by (simp add: loadedFrom_def)
  have m': "mirroredByID env stores" using m unfolding mirroredByID_def allSpecs_names[OF names] .
  obtain wi where wi: "buildRelationWireIndex env hs saved = Inr wi" "wireIndexOf env saved hs wi" using wire_index_of[OF ok] by blast
  obtain wi' where wi': "wireIndexOf env stores (cells m) wi'" using wire_index_of[OF ok'] by blast
  define h' where "h' = wiredTables env stores (cells m) wi' (set (map fst stores))"
  have run: "fold_result (fillRelation env stores) (map fst stores) (cells m) = Inr h'"
    using fill_from_start[OF ok' m' wi', of "map fst stores"] by (simp add: h'_def)
  have hs: "hs = wiredTables env saved hs wi (set (map fst saved))"
    using rewire_tables[OF ok wi, of "map fst saved"] assms(3) by simp
  have "scalars (h' b) = scalars (hs a) \<and> getId (h' b) = getId (hs a) \<and>
      (\<forall>r \<in> set (declaredSpecs env t). sameField saved stores (hs a) (h' b) r)" if ab: "sameRow saved stores t a b" for t a b
  proof -
    have a: "a \<in> set (storeRows saved t)" and b: "b \<in> set (storeRows stores t)" using sameRow_parts[OF l ab] by auto
    have t: "t \<in> set (map fst saved)" "t \<in> set (map fst stores)" using storeRows_some[OF b] names by force+
    have e: "hs a = wiredRow hs wi (declaredSpecs env t) a" using wiredTables_row[OF ok a, of wi "set (map fst saved)"] hs t by simp
    have e': "h' b = wiredRow (cells m) wi' (declaredSpecs env t) b" using wiredTables_row[OF ok' b] t by (simp add: h'_def)
    have "sameField saved stores (hs a) (h' b) r" if r: "r \<in> set (declaredSpecs env t)" for r
    proof -
      note F = wiredRow_field[OF declared_distinct r, where h = hs and wi = wi and a = a, folded e]
        wiredRow_field[OF declared_distinct r, where h = "cells m" and wi = wi' and a = b, folded e']
      show ?thesis
      proof (cases "computedSlice r")
        case True
        show ?thesis by (rule computed_slices_come_back[OF ok m l wi(2) wi' ab r True F])
      next
        case False
        show ?thesis by (rule references_come_back[OF ok l _ _ ab r False F]) (use wi(2) wi' in \<open>simp_all add: wireIndexOf_def\<close>)
      qed
    qed
    then show ?thesis using e' sameRow_parts(3)[OF l ab] by (simp add: wiredRow_def restored_def)
  qed
  then show ?thesis using run by blast
qed

definition savedStores :: "nat stores" where
  "savedStores = [(''Order'', [1]), (''Item'', [2])]"

lemma saved_ok: "storesOk orderTypes savedHeap savedStores"
  by (simp add: storesOk_def savedStores_def orderTypes_specs rowShape_def savedHeap_def)

lemma saved_item: "ownKey orderTypes savedHeap \<lparr>owner = ''Order'', fieldIndex = 1, fieldName = ''Items'', target = ''Item'',
     kind = OwnRelation, matchField = ''Order'', many = True\<rparr> 2 = Some (IntValue ''int'' 1)"
  by (simp add: ownKey_def order_named[unfolded One_nat_def] savedHeap_def relationKey_def entityIDField_def)

lemma saved_wired: "rewireRelations orderTypes savedStores savedHeap (map fst savedStores) = Inr savedHeap"
proof -
  let ?items = "\<lparr>owner = ''Order'', fieldIndex = 1, fieldName = ''Items'', target = ''Item'',
     kind = OwnRelation, matchField = ''Order'', many = True\<rparr>"
  let ?parent = "\<lparr>owner = ''Item'', fieldIndex = 1, fieldName = ''Order'', target = ''Order'',
     kind = OwnedByRelation, matchField = ''Id'', many = False\<rparr>"
  obtain wi where wi: "buildRelationWireIndex orderTypes savedHeap savedStores = Inr wi" "wireIndexOf orderTypes savedStores savedHeap wi"
    using wire_index_of[OF saved_ok] by blast
  have all: "set (allSpecs orderTypes savedStores) = {?items, ?parent}"
    using order_all[of savedStores] by (simp add: savedStores_def order_declared insert_commute)
  have rows: "storeRows savedStores ''Order'' = [1]" "storeRows savedStores ''Item'' = [2]" by (simp_all add: storeRows_def savedStores_def)
  have slices: "wi_slices wi (''Order'', 1) = sliceOf orderTypes savedHeap savedStores ?items" using wi(2) all by (auto simp: wireIndexOf_def)
  have slice: "wi_slices wi (''Order'', 1) (IntValue ''int'' 1) = [2]"
    unfolding slices by (simp add: sliceOf_def computedSlice_def rows isMember_def saved_item[unfolded One_nat_def])
  have "relationKey savedHeap (Some 1) ''Id'' = Some (IntValue ''int'' 1)" by (simp add: relationKey_def savedHeap_def)
  moreover have "(''Order'', ''Id'') \<in> lookedUp orderTypes savedStores"
  proof -
    have "?parent \<in> set (allSpecs orderTypes savedStores) \<and> \<not> computedSlice ?parent \<and> FieldByName orderTypes ''Order'' ''Id'' \<noteq> None"
      using all order_named(1) by (simp add: computedSlice_def entityIDField_def)
    then show ?thesis unfolding lookedUp_def by force
  qed
  ultimately have target: "wi_targets wi (''Order'', ''Id'', IntValue ''int'' 1) = Some 1"
    using wi(2) by (simp add: wireIndexOf_def firstTarget_def rows)
  have "wiredField savedHeap wi 1 ?items (Slice [Some 2]) = Slice [Some 2]"
    using slice by (simp add: wiredField_def wireIndexedSlice_def relationKey_def savedHeap_def entityIDField_def listedMember_def memberByID_def valueID_def)
  then have one: "wiredRow savedHeap wi (declaredSpecs orderTypes ''Order'') 1 = savedHeap 1"
    by (intro entity.equality) (auto simp: wiredRow_def order_declared savedHeap_def split: option.split)
  have "wiredField savedHeap wi 2 ?parent (Pointer (Some 1)) = Pointer (Some 1)"
    using target by (simp add: wiredField_def wireToOne_def relationKey_def savedHeap_def)
  then have two: "wiredRow savedHeap wi (declaredSpecs orderTypes ''Item'') 2 = savedHeap 2"
    by (intro entity.equality) (auto simp: wiredRow_def order_declared savedHeap_def split: option.split)
  have "wiredTables orderTypes savedStores savedHeap wi (set (map fst savedStores)) a = savedHeap a" for a
    using one two rows by (auto simp: wiredTables_def savedStores_def split: option.split)
  then have "wiredTables orderTypes savedStores savedHeap wi (set (map fst savedStores)) = savedHeap" by blast
  then show ?thesis using rewire_tables[OF saved_ok wi, of "map fst savedStores"] by simp
qed

lemma saved_loaded: "loadedFrom orderTypes savedHeap savedStores \<lparr>cells = loadedHeap, brk = 20\<rparr> loadedStores"
proof -
  let ?m = "\<lparr>cells = loadedHeap, brk = 20\<rparr>"
  have "restored (declaredSpecs orderTypes ''Order'') savedHeap (savedHeap 1) ?m (loadedHeap 11)"
    by (simp add: restored_def order_declared persistedRelation_def savedHeap_def loadedHeap_def)
  moreover have "restored (declaredSpecs orderTypes ''Item'') savedHeap (savedHeap 2) ?m (loadedHeap 12)"
    by (simp add: restored_def order_declared persistedRelation_def inflatedField_def fieldKeys_def pointersOf_def savedHeap_def loadedHeap_def
        relationKey_def map_filter_simps)
  ultimately show ?thesis by (simp add: loadedFrom_def savedStores_def loadedStores_def storeRows_def)
qed

theorem restart_restores_the_graph_witness:
  "\<exists>h'. fold_result (fillRelation orderTypes loadedStores) [''Order'', ''Item''] loadedHeap = Inr h' \<and>
     (\<exists>r \<in> set (declaredSpecs orderTypes ''Order''). pointersOf (h' 11) r = [Some 12]) \<and>
     (\<exists>r \<in> set (declaredSpecs orderTypes ''Item''). pointersOf (h' 12) r = [Some 11])"
proof -
  let ?items = "\<lparr>owner = ''Order'', fieldIndex = 1, fieldName = ''Items'', target = ''Item'',
     kind = OwnRelation, matchField = ''Order'', many = True\<rparr>"
  let ?parent = "\<lparr>owner = ''Item'', fieldIndex = 1, fieldName = ''Order'', target = ''Order'',
     kind = OwnedByRelation, matchField = ''Id'', many = False\<rparr>"
  obtain h' where h': "fold_result (fillRelation orderTypes loadedStores) (map fst loadedStores) (cells \<lparr>cells = loadedHeap, brk = 20\<rparr>) = Inr h'"
    "\<forall>t a b. sameRow savedStores loadedStores t a b \<longrightarrow>
       scalars (h' b) = scalars (savedHeap a) \<and> getId (h' b) = getId (savedHeap a) \<and>
       (\<forall>r \<in> set (declaredSpecs orderTypes t). sameField savedStores loadedStores (savedHeap a) (h' b) r)"
    using restart_restores_the_graph[OF saved_ok order_mirrored saved_wired saved_loaded] by (auto simp: savedStores_def loadedStores_def)
  have same: "sameRow savedStores loadedStores ''Order'' = (\<lambda>a b. a = 1 \<and> b = 11)" "sameRow savedStores loadedStores ''Item'' = (\<lambda>a b. a = 2 \<and> b = 12)"
    by (auto simp: sameRow_def savedStores_def loadedStores_def storeRows_def fun_eq_iff)
  have one: "ps = [Some b]" if "list_all2 (rel_option (\<lambda>x y. x = a \<and> y = b)) [Some a] ps" for a b :: nat and ps
    using that by (auto simp: list_all2_Cons1 option_rel_Some1)
  have "sameField savedStores loadedStores (savedHeap 1) (h' 11) ?items"
    using h'(2)[rule_format, of "''Order''" 1 11] by (simp add: same order_declared)
  moreover have "pointersOf (savedHeap 1) ?items = [Some 2]" by (simp add: pointersOf_def savedHeap_def)
  ultimately have "pointersOf (h' 11) ?items = [Some 12]"
    unfolding sameField_def using one[of 2 12] by (auto simp: same split: if_splits)
  moreover have "sameField savedStores loadedStores (savedHeap 2) (h' 12) ?parent"
    using h'(2)[rule_format, of "''Item''" 2 12] by (simp add: same order_declared)
  moreover have "pointersOf (savedHeap 2) ?parent = [Some 1]" by (simp add: pointersOf_def savedHeap_def)
  ultimately have "pointersOf (h' 11) ?items = [Some 12]" "pointersOf (h' 12) ?parent = [Some 11]"
    unfolding sameField_def using one[of 1 11] by (auto simp: same split: if_splits)
  then show ?thesis using h'(1) by (simp add: order_declared loadedStores_def)
qed

section \<open>Inverse slices over a key that is not the id\<close>

text \<open>
  Tasks name their user by a code. Users 1 and 2 have the codes 2 and 1, and the task belongs to
  user 1.
\<close>

definition codeTypes :: typeEnv where
  "codeTypes = \<lparr>structs =
     [(''Task'', [\<lparr>rf_name = ''Id'', rf_type = ScalarType ''int'', rf_tag = None\<rparr>,
        \<lparr>rf_name = ''User'', rf_type = PointerType (StructType ''User''), rf_tag = Some ''borrow,Code''\<rparr>]),
      (''User'', [\<lparr>rf_name = ''Id'', rf_type = ScalarType ''int'', rf_tag = None\<rparr>,
        \<lparr>rf_name = ''Code'', rf_type = ScalarType ''int'', rf_tag = None\<rparr>,
        \<lparr>rf_name = ''Tasks'', rf_type = SliceType (PointerType (StructType ''Task'')), rf_tag = Some ''inverse,User''\<rparr>])],
     entityTypes = [''Task'', ''User'']\<rparr>"

definition codeHeap :: "nat heap" where
  "codeHeap a =
     (if a = 3 then \<lparr>getId = 1, scalars = [''Id'' \<mapsto> IntValue ''int'' 1], pointers = (\<lambda>i. Pointer (Some 1))\<rparr>
      else if a = 1 then \<lparr>getId = 1, scalars = [''Id'' \<mapsto> IntValue ''int'' 1, ''Code'' \<mapsto> IntValue ''int'' 2], pointers = (\<lambda>i. Slice [Some 3])\<rparr>
      else \<lparr>getId = 2, scalars = [''Id'' \<mapsto> IntValue ''int'' 2, ''Code'' \<mapsto> IntValue ''int'' 1], pointers = (\<lambda>i. Slice [])\<rparr>)"

definition codeStores :: "nat stores" where
  "codeStores = [(''Task'', [3]), (''User'', [1, 2])]"

lemma code_specs:
  "relationSpecs codeTypes ''Task'' = Inr [\<lparr>owner = ''Task'', fieldIndex = 1, fieldName = ''User'', target = ''User'',
     kind = BorrowRelation, matchField = ''Code'', many = False\<rparr>]"
  "relationSpecs codeTypes ''User'' = Inr [\<lparr>owner = ''User'', fieldIndex = 2, fieldName = ''Tasks'', target = ''Task'',
     kind = InverseRelation, matchField = ''User'', many = True\<rparr>]"
  by (simp_all add: relationSpecs_def codeTypes_def parseRelationField_def structFields_def upt_rec isEntityType_def
      TrimSpace_def isSpace_def parseKind_def Let_def)

lemma code_declared:
  "declaredSpecs codeTypes ''Task'' = [\<lparr>owner = ''Task'', fieldIndex = 1, fieldName = ''User'', target = ''User'',
     kind = BorrowRelation, matchField = ''Code'', many = False\<rparr>]"
  "declaredSpecs codeTypes ''User'' = [\<lparr>owner = ''User'', fieldIndex = 2, fieldName = ''Tasks'', target = ''Task'',
     kind = InverseRelation, matchField = ''User'', many = True\<rparr>]"
  by (simp_all add: declaredSpecs_def code_specs)

lemma code_ok: "storesOk codeTypes codeHeap codeStores"
  by (simp add: storesOk_def codeStores_def code_specs rowShape_def codeHeap_def)

lemma code_rows: "storeRows codeStores ''Task'' = [3]" "storeRows codeStores ''User'' = [1, 2]"
  by (simp_all add: storeRows_def codeStores_def)

lemma code_accepted: "\<exists>schema. buildRelationSchema codeTypes (\<lambda>b. map fst (specsByType b)) (StructType ''User'') = Inr schema"
proof -
  let ?tasks = "\<lparr>owner = ''User'', fieldIndex = 2, fieldName = ''Tasks'', target = ''Task'', kind = InverseRelation, matchField = ''User'', many = True\<rparr>"
  let ?user = "\<lparr>owner = ''Task'', fieldIndex = 1, fieldName = ''User'', target = ''User'', kind = BorrowRelation, matchField = ''Code'', many = False\<rparr>"
  have parse: "parseRelationField codeTypes ''Task'' 1 = Inr (Some ?user)"
    by (simp add: codeTypes_def parseRelationField_def structFields_def isEntityType_def TrimSpace_def isSpace_def parseKind_def Let_def)
  have "validateRelationSpec codeTypes ?user = Inr ()"
    by (simp add: validateRelationSpec_def FieldByName_def structFields_def codeTypes_def validateScalarMatchField_def isScalarKey_def)
  moreover have "FieldByName codeTypes ''Task'' ''User'' =
      Some (1, \<lparr>rf_name = ''User'', rf_type = PointerType (StructType ''User''), rf_tag = Some ''borrow,Code''\<rparr>)"
    by (simp add: FieldByName_def structFields_def codeTypes_def)
  then have "validateRelationSpec codeTypes ?tasks = Inr ()"
    by (simp add: validateRelationSpec_def validateInverseBackField_def parse[unfolded One_nat_def])
  ultimately show ?thesis
    by (simp add: buildRelationSchema_def visit.simps code_specs newRelationSchemaBuilder_def startVisit_def
        appendChild_def relationPointOf_def countRelationKind_def validateRequiredCycles_def visitRequiredType.simps
        specsOf_def isRequiredTypeEdge_def)
qed

text \<open>
  C35. Wiring attaches tasks to the wrong users. An inverse slice is filled by the keys that the
  mirrored field names, but read by the id of the row, so with a mirrored field that names
  users by \<open>Code\<close> the task of user 1 appears in the slice of the user whose id is that code.
  The declaration is accepted, and the graph that is rewired was right.
\<close>

theorem inverse_slice_of_another_user:
  "(\<exists>schema. buildRelationSchema codeTypes (\<lambda>b. map fst (specsByType b)) (StructType ''User'') = Inr schema) \<and>
   pointers (codeHeap 3) 1 = Pointer (Some 1) \<and> pointers (codeHeap 1) 2 = Slice [Some 3] \<and> pointers (codeHeap 2) 2 = Slice [] \<and>
   (\<exists>h'. rewireRelations codeTypes codeStores codeHeap [''Task'', ''User''] = Inr h' \<and>
     pointers (h' 3) 1 = Pointer (Some 1) \<and> pointers (h' 1) 2 = Slice [] \<and> pointers (h' 2) 2 = Slice [Some 3])"
proof -
  let ?tasks = "\<lparr>owner = ''User'', fieldIndex = 2, fieldName = ''Tasks'', target = ''Task'', kind = InverseRelation, matchField = ''User'', many = True\<rparr>"
  let ?user = "\<lparr>owner = ''Task'', fieldIndex = 1, fieldName = ''User'', target = ''User'', kind = BorrowRelation, matchField = ''Code'', many = False\<rparr>"
  obtain wi where wi: "buildRelationWireIndex codeTypes codeHeap codeStores = Inr wi" "wireIndexOf codeTypes codeStores codeHeap wi"
    using wire_index_of[OF code_ok] by blast
  let ?h = "wiredTables codeTypes codeStores codeHeap wi {''Task'', ''User''}"
  have run: "rewireRelations codeTypes codeStores codeHeap [''Task'', ''User''] = Inr ?h"
    using rewire_tables[OF code_ok wi, of "[''Task'', ''User'']"] by (simp add: codeStores_def)
  have all: "set (allSpecs codeTypes codeStores) = {?user, ?tasks}" by (auto simp: allSpecs_def codeStores_def code_declared)
  have code: "relationKey codeHeap (Some 1) ''Code'' = Some (IntValue ''int'' 2)" by (simp add: relationKey_def codeHeap_def)
  have "namedRelationSpec codeTypes ''Task'' ''User'' = Some ?user" by (simp add: namedRelationSpec_def code_specs)
  moreover have "backKeys codeHeap ?user 3 = [IntValue ''int'' 2]" 
    by (simp add: backKeys_def fieldPointers_def codeHeap_def relationKey_def map_filter_simps)
  ultimately have "sliceOf codeTypes codeHeap codeStores ?tasks k = (if k = IntValue ''int'' 2 then [3] else [])" for k
    by (simp add: sliceOf_def computedSlice_def isMember_def code_rows)
  then have slice: "wi_slices wi (''User'', 2) k = (if k = IntValue ''int'' 2 then [3] else [])" for k
    using wi(2) all by (auto simp: wireIndexOf_def)
  have "(''User'', ''Code'') \<in> lookedUp codeTypes codeStores"
  proof -
    have "?user \<in> set (allSpecs codeTypes codeStores) \<and> \<not> computedSlice ?user \<and> FieldByName codeTypes ''User'' ''Code'' \<noteq> None"
      using all by (simp add: computedSlice_def FieldByName_def structFields_def codeTypes_def)
    then show ?thesis unfolding lookedUp_def by force
  qed
  then have target: "wi_targets wi (''User'', ''Code'', IntValue ''int'' 2) = Some 1"
    using wi(2) code by (simp add: wireIndexOf_def firstTarget_def code_rows)
  have row: "?h 3 = wiredRow codeHeap wi [?user] 3" "?h 1 = wiredRow codeHeap wi [?tasks] 1" "?h 2 = wiredRow codeHeap wi [?tasks] 2"
    using wiredTables_row[OF code_ok, of 3 "''Task''" wi "{''Task'', ''User''}"] wiredTables_row[OF code_ok, of 1 "''User''" wi "{''Task'', ''User''}"]
      wiredTables_row[OF code_ok, of 2 "''User''" wi "{''Task'', ''User''}"] by (simp_all add: code_rows code_declared)
  have "pointers (?h 3) 1 = Pointer (Some 1)" using target code unfolding row
    by (simp add: wiredRow_def wiredField_def wireToOne_def codeHeap_def[of 3])
  moreover have "pointers (?h 1) 2 = Slice []" "pointers (?h 2) 2 = Slice [Some 3]"
    unfolding row
    by (simp_all add: wiredRow_def wiredField_def wireIndexedSlice_def codeHeap_def relationKey_def entityIDField_def slice
        listedMember_def memberByID_def valueID_def)
  ultimately show ?thesis using run code_accepted by (intro conjI) (simp_all add: codeHeap_def)
qed

section \<open>Owners named by a key that is not the id\<close>

text \<open>Items name their order by its number; order 1 with number 7 at address 11, its item at 12 with a hollow order at 13.\<close>

definition numberTypes :: typeEnv where
  "numberTypes = \<lparr>structs =
     [(''Order'', [\<lparr>rf_name = ''Id'', rf_type = ScalarType ''int'', rf_tag = None\<rparr>,
        \<lparr>rf_name = ''Number'', rf_type = ScalarType ''int'', rf_tag = None\<rparr>,
        \<lparr>rf_name = ''Items'', rf_type = SliceType (PointerType (StructType ''Item'')), rf_tag = Some ''own,Order''\<rparr>]),
      (''Item'', [\<lparr>rf_name = ''Id'', rf_type = ScalarType ''int'', rf_tag = None\<rparr>,
        \<lparr>rf_name = ''Order'', rf_type = PointerType (StructType ''Order''), rf_tag = Some ''ownedby,Number''\<rparr>])],
     entityTypes = [''Order'', ''Item'']\<rparr>"

definition numberHeap :: "nat heap" where
  "numberHeap a =
     (if a = 12 then \<lparr>getId = 5, scalars = [''Id'' \<mapsto> IntValue ''int'' 5], pointers = (\<lambda>i. Pointer (Some 13))\<rparr>
      else if a = 11 then \<lparr>getId = 1, scalars = [''Id'' \<mapsto> IntValue ''int'' 1, ''Number'' \<mapsto> IntValue ''int'' 7], pointers = (\<lambda>i. Slice [])\<rparr>
      else \<lparr>getId = 0, scalars = [''Id'' \<mapsto> IntValue ''int'' 0, ''Number'' \<mapsto> IntValue ''int'' 7], pointers = (\<lambda>i. Slice [])\<rparr>)"

lemma number_specs:
  "relationSpecs numberTypes ''Order'' = Inr [\<lparr>owner = ''Order'', fieldIndex = 2, fieldName = ''Items'', target = ''Item'',
     kind = OwnRelation, matchField = ''Order'', many = True\<rparr>]"
  "relationSpecs numberTypes ''Item'' = Inr [\<lparr>owner = ''Item'', fieldIndex = 1, fieldName = ''Order'', target = ''Order'',
     kind = OwnedByRelation, matchField = ''Number'', many = False\<rparr>]"
  by (simp_all add: relationSpecs_def numberTypes_def parseRelationField_def structFields_def upt_rec isEntityType_def
      TrimSpace_def isSpace_def parseKind_def Let_def)

lemma number_declared:
  "declaredSpecs numberTypes ''Order'' = [\<lparr>owner = ''Order'', fieldIndex = 2, fieldName = ''Items'', target = ''Item'',
     kind = OwnRelation, matchField = ''Order'', many = True\<rparr>]"
  "declaredSpecs numberTypes ''Item'' = [\<lparr>owner = ''Item'', fieldIndex = 1, fieldName = ''Order'', target = ''Order'',
     kind = OwnedByRelation, matchField = ''Number'', many = False\<rparr>]"
  by (simp_all add: declaredSpecs_def number_specs)

lemma number_back: "FieldByName numberTypes ''Item'' ''Order'' =
    Some (1, \<lparr>rf_name = ''Order'', rf_type = PointerType (StructType ''Order''), rf_tag = Some ''ownedby,Number''\<rparr>)"
  by (simp add: FieldByName_def structFields_def numberTypes_def)

lemma number_rows: "storeRows loadedStores ''Order'' = [11]" "storeRows loadedStores ''Item'' = [12]"
  by (simp_all add: storeRows_def loadedStores_def)

lemma number_ok: "storesOk numberTypes numberHeap loadedStores"
  by (simp add: storesOk_def loadedStores_def number_specs rowShape_def numberHeap_def)

lemma number_accepted: "\<exists>schema. buildRelationSchema numberTypes (\<lambda>b. map fst (specsByType b)) (StructType ''Order'') = Inr schema"
proof -
  let ?items = "\<lparr>owner = ''Order'', fieldIndex = 2, fieldName = ''Items'', target = ''Item'', kind = OwnRelation, matchField = ''Order'', many = True\<rparr>"
  let ?parent = "\<lparr>owner = ''Item'', fieldIndex = 1, fieldName = ''Order'', target = ''Order'', kind = OwnedByRelation, matchField = ''Number'', many = False\<rparr>"
  have parse: "parseRelationField numberTypes ''Item'' 1 = Inr (Some ?parent)"
    by (simp add: numberTypes_def parseRelationField_def structFields_def isEntityType_def TrimSpace_def isSpace_def parseKind_def Let_def)
  have "validateRelationSpec numberTypes ?parent = Inr ()"
    by (simp add: validateRelationSpec_def FieldByName_def structFields_def numberTypes_def validateScalarMatchField_def isScalarKey_def)
  moreover have "validateRelationSpec numberTypes ?items = Inr ()"
    by (simp add: validateRelationSpec_def validateOwnBackField_def parse[unfolded One_nat_def] number_back)
  ultimately show ?thesis
    by (simp add: buildRelationSchema_def visit.simps number_specs newRelationSchemaBuilder_def startVisit_def
        appendChild_def relationPointOf_def countRelationKind_def validateRequiredCycles_def visitRequiredType.simps
        specsOf_def isRequiredTypeEdge_def)
qed

text \<open>The items of the order, given a graph in which the item's pointer leads to a row with this id.\<close>

lemma number_items:
  assumes ok: "storesOk numberTypes h loadedStores" and h: "scalars (h 11) = scalars (numberHeap 11)" "pointers (h 11) 2 = Slice []" "getId (h 12) = 5"
    and p: "pointers (h 12) 1 = Pointer (Some b)" and k: "relationKey h (Some b) ''Id'' = key" "key = None \<or> key = Some (IntValue ''int'' 1)"
  shows "\<exists>h'. fillRelation numberTypes loadedStores h ''Order'' = Inr h' \<and>
    pointers (h' 11) 2 = Slice (if key = None then [] else [Some 12]) \<and> storesOk numberTypes h' loadedStores"
proof -
  let ?items = "\<lparr>owner = ''Order'', fieldIndex = 2, fieldName = ''Items'', target = ''Item'', kind = OwnRelation, matchField = ''Order'', many = True\<rparr>"
  obtain wi where wi: "buildRelationWireIndex numberTypes h loadedStores = Inr wi" "wireIndexOf numberTypes loadedStores h wi"
    using wire_index_of[OF ok] by blast
  have "?items \<in> set (allSpecs numberTypes loadedStores)" by (simp add: allSpecs_def loadedStores_def number_declared)
  then have slices: "wi_slices wi (''Order'', 2) = sliceOf numberTypes h loadedStores ?items" using wi(2) by (fastforce simp: wireIndexOf_def)
  have "ownKey numberTypes h ?items 12 = key" using p k(1) by (simp add: ownKey_def number_back[unfolded One_nat_def] entityIDField_def)
  then have slice: "wi_slices wi (''Order'', 2) (IntValue ''int'' 1) = (if key = None then [] else [12])"
    unfolding slices using k(2) by (auto simp: sliceOf_def computedSlice_def number_rows isMember_def)
  have "relationKey h (Some 11) entityIDField = Some (IntValue ''int'' 1)" using h(1) by (simp add: relationKey_def numberHeap_def entityIDField_def)
  then have "wireIndexedSlice h wi ?items 11 [] = (if key = None then [] else [Some 12])"
    using slice h(3) by (simp add: wireIndexedSlice_def memberByID_def)
  then have "pointers (wiredRow h wi [?items] 11) 2 = Slice (if key = None then [] else [Some 12])"
    using h(2) by (simp add: wiredRow_def wiredField_def)
  moreover have "''Order'' \<in> fst ` set loadedStores" by (simp add: loadedStores_def)
  from fill_rows[OF ok this wi(1)] have "fillRelation numberTypes loadedStores h ''Order'' = Inr (\<lambda>a. if a = 11 then wiredRow h wi [?items] a else h a)"
    unfolding number_rows number_declared by simp
  moreover have "(\<lambda>a. if a = 11 then wiredRow h wi [?items] a else h a) = wiredTables numberTypes loadedStores h wi {''Order''}"
    using wiredTables_insert[OF ok, of "''Order''" "wiredRow h wi [?items]" wi "{}"] unfolding number_rows number_declared wiredTables_none by simp
  then have "storesOk numberTypes (\<lambda>a. if a = 11 then wiredRow h wi [?items] a else h a) loadedStores" using wiredTables_ok[OF ok] by metis
  ultimately show ?thesis by simp
qed

lemma number_owner:
  assumes ok: "storesOk numberTypes h loadedStores"
  obtains h' where "fillRelation numberTypes loadedStores h ''Item'' = Inr h'" "\<forall>a. a \<noteq> 12 \<longrightarrow> h' a = h a" "storesOk numberTypes h' loadedStores"
    "h = numberHeap \<Longrightarrow> pointers (h' 12) 1 = Pointer (Some 11) \<and> getId (h' 12) = 5"
proof -
  let ?parent = "\<lparr>owner = ''Item'', fieldIndex = 1, fieldName = ''Order'', target = ''Order'', kind = OwnedByRelation, matchField = ''Number'', many = False\<rparr>"
  obtain wi where wi: "buildRelationWireIndex numberTypes h loadedStores = Inr wi" "wireIndexOf numberTypes loadedStores h wi"
    using wire_index_of[OF ok] by blast
  let ?h = "\<lambda>a. if a = 12 then wiredRow h wi [?parent] a else h a"
  have "''Item'' \<in> fst ` set loadedStores" by (simp add: loadedStores_def)
  from fill_rows[OF ok this wi(1)] have run: "fillRelation numberTypes loadedStores h ''Item'' = Inr ?h"
    unfolding number_rows number_declared by simp
  have "?h = wiredTables numberTypes loadedStores h wi {''Item''}"
    using wiredTables_insert[OF ok, of "''Item''" "wiredRow h wi [?parent]" wi "{}"] unfolding number_rows number_declared wiredTables_none by simp
  then have ok': "storesOk numberTypes ?h loadedStores" using wiredTables_ok[OF ok] by metis
  have "pointers (?h 12) 1 = Pointer (Some 11) \<and> getId (?h 12) = 5" if "h = numberHeap"
  proof -
    have "?parent \<in> set (allSpecs numberTypes loadedStores)" "\<not> computedSlice ?parent"
      by (simp_all add: allSpecs_def loadedStores_def number_declared computedSlice_def)
    moreover have "FieldByName numberTypes ''Order'' ''Number'' \<noteq> None" by (simp add: FieldByName_def structFields_def numberTypes_def)
    ultimately have "(''Order'', ''Number'') \<in> lookedUp numberTypes loadedStores" unfolding lookedUp_def by force
    moreover have "relationKey h (Some 11) ''Number'' = Some (IntValue ''int'' 7)" "relationKey h (Some 13) ''Number'' = Some (IntValue ''int'' 7)"
      using that by (simp_all add: relationKey_def numberHeap_def)
    ultimately have "wireToOne h wi ?parent (Some 13) = Some 11" using wi(2) by (simp add: wireToOne_def wireIndexOf_def firstTarget_def number_rows)
    moreover have "pointers (h 12) 1 = Pointer (Some 13)" "getId (h 12) = 5" using that by (simp_all add: numberHeap_def)
    ultimately show ?thesis by (simp add: wiredRow_def wiredField_def)
  qed
  then show thesis using that[of ?h] run ok' by simp
qed

text \<open>
  An order without its items. An owned slice is indexed by the id behind the child's pointer;
  a hollow pointer of a child that names its owner by another key has no id yet. If the table
  of the owner is opened first, its slices stay empty until the next full rewire; in the other
  order they are filled. The declaration is accepted.
\<close>

theorem owned_slice_depends_on_the_opening_order:
  "(\<exists>schema. buildRelationSchema numberTypes (\<lambda>b. map fst (specsByType b)) (StructType ''Order'') = Inr schema) \<and>
   (\<exists>h1 h2. fold_result (fillRelation numberTypes loadedStores) [''Order'', ''Item''] numberHeap = Inr h1 \<and>
     fold_result (fillRelation numberTypes loadedStores) [''Item'', ''Order''] numberHeap = Inr h2 \<and>
     pointers (h1 11) 2 = Slice [] \<and> pointers (h2 11) 2 = Slice [Some 12])"
proof -
  have "relationKey numberHeap (Some 13) ''Id'' = None" by (simp add: relationKey_def numberHeap_def)
  then obtain g1 where g1: "fillRelation numberTypes loadedStores numberHeap ''Order'' = Inr g1" "pointers (g1 11) 2 = Slice []"
    "storesOk numberTypes g1 loadedStores"
    using number_items[OF number_ok, of 13 None] by (auto simp: numberHeap_def)
  obtain h1 where h1: "fillRelation numberTypes loadedStores g1 ''Item'' = Inr h1" "\<forall>a. a \<noteq> 12 \<longrightarrow> h1 a = g1 a"
    by (rule number_owner[OF g1(3)]) blast
  obtain g2 where g2: "fillRelation numberTypes loadedStores numberHeap ''Item'' = Inr g2" "\<forall>a. a \<noteq> 12 \<longrightarrow> g2 a = numberHeap a"
    "storesOk numberTypes g2 loadedStores" "pointers (g2 12) 1 = Pointer (Some 11)" "getId (g2 12) = 5"
    by (rule number_owner[OF number_ok]) blast
  have "g2 11 = numberHeap 11" using g2(2) by simp
  then have "scalars (g2 11) = scalars (numberHeap 11)" "pointers (g2 11) 2 = Slice []" "relationKey g2 (Some 11) ''Id'' = Some (IntValue ''int'' 1)"
    by (simp_all add: numberHeap_def relationKey_def)
  then obtain h2 where h2: "fillRelation numberTypes loadedStores g2 ''Order'' = Inr h2" "pointers (h2 11) 2 = Slice [Some 12]"
    using number_items[OF g2(3) _ _ g2(5) g2(4), of "Some (IntValue ''int'' 1)"] by auto
  show ?thesis using g1 h1 g2(1) h2 number_accepted by simp
qed

end
