(* ===== verification/Detached_Branches.thy ===== *)
theory Detached_Branches
  imports Relation_Wiring Index_Build Transaction_State
begin

text \<open>
  Detached branches (\<open>relation_runtime.go\<close>, \<open>snapshot.go\<close>, \<open>query.go\<close>, \<open>db.go\<close>): the copies of a row
  and of everything it owns that \<open>Get\<close> hands out, with the pointers between them rewired to the
  copies, and the commit of edited copies when the relation graph is unchanged.

  A slice field is a value of its entity, which is what \<open>cloneSliceFields\<close> establishes for copies.
  Fields that are neither scalars nor relations are left out: \<open>Get\<close> copies them as they are.
\<close>

section \<open>Copies of rows\<close>

text \<open>The slot that \<open>resource\<close> finds for a row: the stable address of its entity and its version.\<close>

type_synonym liveRows = "nodeKey \<Rightarrow> (nat \<times> int) option"

definition snapshotResource :: "liveRows \<Rightarrow> memory \<Rightarrow> nodeKey \<Rightarrow> (memory \<times> nat touchedResource) result" where
  "snapshotResource live m key =
     (case live key of
        None \<Rightarrow> Inl ErrNotFound
      | Some (a, ver) \<Rightarrow>
          let q = newEntity (cells m a) m; q' = newEntity (cells (fst q) a) (fst q)
          in Inr (fst q', \<lparr>tr_dbName = nk_type key, tr_id = nk_id key, tr_ver = ver, tr_work = snd q, tr_original = snd q'\<rparr>))"

definition snapshotBranch :: "liveRows \<Rightarrow> memory \<Rightarrow> nodeKey list \<Rightarrow> (memory \<times> nat touchedResource list) result" where
  "snapshotBranch live m keys =
     fold_result (\<lambda>st key. bind_result (snapshotResource live (fst st) key) (\<lambda>q. Inr (fst q, snd st @ [snd q]))) keys (m, [])"

section \<open>Rewiring of copies\<close>

definition mapPointers :: "relationSpec \<Rightarrow> ('p option \<Rightarrow> 'p option) \<Rightarrow> 'p fieldValue \<Rightarrow> 'p fieldValue" where
  "mapPointers spec f v =
     (case v of
        Pointer p \<Rightarrow> if many spec then v else Pointer (f p)
      | Slice ps \<Rightarrow> if many spec then Slice (map f ps) else v)"

definition rewireCopyField :: "relationSpec \<Rightarrow> ('p option \<Rightarrow> 'p option) \<Rightarrow> 'p \<Rightarrow> 'p heap \<Rightarrow> 'p heap" where
  "rewireCopyField spec f a h = h(a := setPointers (fieldIndex spec) (mapPointers spec f (pointers (h a) (fieldIndex spec))) (h a))"

definition rewireSelfRelationPointer :: "'p heap \<Rightarrow> string \<Rightarrow> nodeKey \<Rightarrow> 'p \<Rightarrow> 'p option \<Rightarrow> 'p option" where
  "rewireSelfRelationPointer h t key a p =
     (case valueID h p of None \<Rightarrow> p | Some i \<Rightarrow> if t = nk_type key \<and> i = nk_id key then Some a else p)"

definition rewireSingleField :: "nodeKey \<Rightarrow> 'p touchedResource \<Rightarrow> 'p heap \<Rightarrow> relationSpec \<Rightarrow> 'p heap" where
  "rewireSingleField key r h spec =
     (let h1 = rewireCopyField spec (rewireSelfRelationPointer h (target spec) key (tr_work r)) (tr_work r) h
      in rewireCopyField spec (rewireSelfRelationPointer h1 (target spec) key (tr_original r)) (tr_original r) h1)"

definition rewireSingleOwnershipResource :: "typeEnv \<Rightarrow> 'p heap \<Rightarrow> nodeKey \<Rightarrow> 'p touchedResource \<Rightarrow> 'p heap result" where
  "rewireSingleOwnershipResource env h key r =
     bind_result (relationSpecs env (nk_type key)) (\<lambda>specs. Inr (foldl (rewireSingleField key r) h specs))"

definition copyPositions :: "'p touchedResource list \<Rightarrow> nodeKey \<Rightarrow> nat option" where
  "copyPositions rs = foldl (\<lambda>m i. m(NodeKey (tr_dbName (rs ! i)) (tr_id (rs ! i)) \<mapsto> i)) (\<lambda>_. None) [0 ..< length rs]"

text \<open>A batch of one copy has no map of positions.\<close>

definition copiedAt :: "'p touchedResource list \<Rightarrow> string \<Rightarrow> int \<Rightarrow> nat option" where
  "copiedAt rs t i =
     (if 1 < length rs then copyPositions rs (NodeKey t i)
      else if length rs = 1 \<and> tr_dbName (rs ! 0) = t \<and> tr_id (rs ! 0) = i then Some 0 else None)"

definition rewireResourcePointer :: "'p heap \<Rightarrow> 'p touchedResource list \<Rightarrow> bool \<Rightarrow> string \<Rightarrow> 'p option \<Rightarrow> 'p option" where
  "rewireResourcePointer h rs original t p =
     (case valueID h p of
        None \<Rightarrow> p
      | Some i \<Rightarrow>
          (case copiedAt rs t i of
             None \<Rightarrow> p
           | Some n \<Rightarrow> Some (if original then tr_original (rs ! n) else tr_work (rs ! n))))"

definition rewireResourceField :: "'p touchedResource list \<Rightarrow> 'p touchedResource \<Rightarrow> 'p heap \<Rightarrow> relationSpec \<Rightarrow> 'p heap" where
  "rewireResourceField rs r h spec =
     (let h1 = rewireCopyField spec (rewireResourcePointer h rs False (target spec)) (tr_work r) h
      in rewireCopyField spec (rewireResourcePointer h1 rs True (target spec)) (tr_original r) h1)"

definition rewireOwnershipResources :: "typeEnv \<Rightarrow> 'p heap \<Rightarrow> 'p touchedResource list \<Rightarrow> 'p heap result" where
  "rewireOwnershipResources env h rs =
     fold_result (\<lambda>h r. bind_result (relationSpecs env (tr_dbName r)) (\<lambda>specs. Inr (foldl (rewireResourceField rs r) h specs))) rs h"

section \<open>Loading a branch\<close>

definition cloneSingleOwnershipResource :: "typeEnv \<Rightarrow> liveRows \<Rightarrow> memory \<Rightarrow> nodeKey \<Rightarrow> (memory \<times> nat \<times> nat touchedResource list) result" where
  "cloneSingleOwnershipResource env live m root =
     bind_result (snapshotResource live m root)
       (\<lambda>q. bind_result (rewireSingleOwnershipResource env (cells (fst q)) root (snd q))
          (\<lambda>h. Inr ((fst q)\<lparr>cells := h\<rparr>, tr_work (snd q), [snd q])))"

text \<open>
  \<open>None\<close> stands for a walk of the branch that does not end, which an accepted graph excludes. The
  branch of the committed ownership is cached.
\<close>

definition cloneOwnershipAggregate ::
  "typeEnv \<Rightarrow> liveRows \<Rightarrow> memory \<Rightarrow> 'p committedOwnership \<Rightarrow> nodeKey \<Rightarrow>
   ((memory \<times> nat \<times> nat touchedResource list) result \<times> 'p committedOwnership) option" where
  "cloneOwnershipAggregate env live m co root =
     (if childList (co_outgoing co) root = [] then Some (cloneSingleOwnershipResource env live m root, co)
      else case committedOwnershipKeys (co_branches co) (co_outgoing co) root of
        None \<Rightarrow> None
      | Some (ordered, branches) \<Rightarrow>
          Some (bind_result (snapshotBranch live m ordered)
              (\<lambda>q. bind_result (rewireOwnershipResources env (cells (fst q)) (snd q))
                 (\<lambda>h. case find (\<lambda>r. NodeKey (tr_dbName r) (tr_id r) = root) (snd q) of
                    None \<Rightarrow> Inl (Panic ''interface conversion'')
                  | Some r \<Rightarrow> Inr ((fst q)\<lparr>cells := h\<rparr>, tr_work r, snd q))),
            co\<lparr>co_branches := branches\<rparr>))"

text \<open>\<open>getInTransaction\<close>: a row that the transaction has already read is not copied again.\<close>

definition getInTransaction ::
  "typeEnv \<Rightarrow> liveRows \<Rightarrow> 'p committedOwnership \<Rightarrow> memory \<Rightarrow> nat transactionEngine \<Rightarrow> nat \<Rightarrow> nodeKey \<Rightarrow>
   ((memory \<times> nat transactionEngine \<times> nat) result \<times> 'p committedOwnership) option" where
  "getInTransaction env live co m en t root =
     (case txWork (en_txs en ! t) (nk_type root) (nk_id root) of
        Some w \<Rightarrow> Some (Inr (m, en, w), co)
      | None \<Rightarrow>
          map_option (\<lambda>(r, co'). (bind_result r (\<lambda>(m', w, rs). Inr (m', recordBatch en t rs (Some w), w)), co'))
            (cloneOwnershipAggregate env live m co root))"

section \<open>What a snapshot is\<close>

definition copyKey :: "'p touchedResource \<Rightarrow> nodeKey" where
  "copyKey r = NodeKey (tr_dbName r) (tr_id r)"

definition copyAddrs :: "'p touchedResource list \<Rightarrow> 'p list" where
  "copyAddrs rs = concat (map (\<lambda>r. [tr_work r, tr_original r]) rs)"

lemma copyAddrs_simps [simp]:
  "copyAddrs [] = []" "copyAddrs (r # rs) = tr_work r # tr_original r # copyAddrs rs"
  "copyAddrs (rs @ ss) = copyAddrs rs @ copyAddrs ss"
  by (simp_all add: copyAddrs_def)

lemma copyAddrs_in: "r \<in> set rs \<Longrightarrow> tr_work r \<in> set (copyAddrs rs) \<and> tr_original r \<in> set (copyAddrs rs)"
  by (auto simp: copyAddrs_def)

text \<open>Two fresh copies of every row, with its version; \<open>m\<close> is the memory before and \<open>h\<close> the heap after.\<close>

definition copiesOf :: "liveRows \<Rightarrow> memory \<Rightarrow> nodeKey list \<Rightarrow> nat heap \<Rightarrow> nat \<Rightarrow> nat touchedResource list \<Rightarrow> bool" where
  "copiesOf live m keys h hi rs \<longleftrightarrow>
     map copyKey rs = keys \<and> distinct (copyAddrs rs) \<and> set (copyAddrs rs) \<subseteq> {brk m ..< hi} \<and> brk m \<le> hi \<and>
     (\<forall>x < brk m. h x = cells m x) \<and>
     (\<forall>r \<in> set rs. \<exists>a. live (copyKey r) = Some (a, tr_ver r) \<and> a < brk m \<and> h (tr_work r) = cells m a \<and> h (tr_original r) = cells m a)"

definition liveBelow :: "liveRows \<Rightarrow> memory \<Rightarrow> nodeKey list \<Rightarrow> bool" where
  "liveBelow live m keys \<longleftrightarrow> (\<forall>k \<in> set keys. \<exists>a ver. live k = Some (a, ver) \<and> a < brk m)"

lemma snapshot_one:
  assumes "live key = Some (a, ver)" "a < brk m"
  shows "snapshotResource live m key =
    Inr (\<lparr>cells = (cells m)(brk m := cells m a, brk m + 1 := cells m a), brk = brk m + 2\<rparr>,
      \<lparr>tr_dbName = nk_type key, tr_id = nk_id key, tr_ver = ver, tr_work = brk m, tr_original = brk m + 1\<rparr>)"
  using assms by (simp add: snapshotResource_def newEntity_def Let_def)

lemma copyKey_of [simp]: "copyKey \<lparr>tr_dbName = nk_type key, tr_id = nk_id key, tr_ver = v, tr_work = w, tr_original = o'\<rparr> = key"
  by (simp add: copyKey_def)

lemma snapshot_branch:
  assumes "liveBelow live m keys"
  shows "\<exists>m' rs. snapshotBranch live m keys = Inr (m', rs) \<and> copiesOf live m keys (cells m') (brk m') rs"
  using assms
proof (induction keys rule: rev_induct)
  case Nil
  then show ?case by (simp add: snapshotBranch_def copiesOf_def)
next
  case (snoc key keys)
  then obtain m1 rs where IH: "snapshotBranch live m keys = Inr (m1, rs)" "copiesOf live m keys (cells m1) (brk m1) rs"
    by (auto simp: liveBelow_def)
  obtain a ver where a: "live key = Some (a, ver)" "a < brk m" using snoc.prems by (auto simp: liveBelow_def)
  have top: "brk m \<le> brk m1" "cells m1 a = cells m a" using IH(2) a(2) by (auto simp: copiesOf_def)
  let ?m = "\<lparr>cells = (cells m1)(brk m1 := cells m a, brk m1 + 1 := cells m a), brk = brk m1 + 2\<rparr>"
  let ?r = "\<lparr>tr_dbName = nk_type key, tr_id = nk_id key, tr_ver = ver, tr_work = brk m1, tr_original = brk m1 + 1\<rparr>"
  have one: "snapshotResource live m1 key = Inr (?m, ?r)" using snapshot_one[of live key a ver m1] a top by simp
  have run: "snapshotBranch live m (keys @ [key]) = Inr (?m, rs @ [?r])"
    using IH(1) by (simp add: snapshotBranch_def fold_result_append one)
  have low: "x < brk m1" if "x \<in> set (copyAddrs rs)" for x using IH(2) that by (auto simp: copiesOf_def)
  have old: "cells ?m x = cells m1 x" if "x < brk m1" for x using that by simp
  have "copiesOf live m (keys @ [key]) (cells ?m) (brk ?m) (rs @ [?r])"
    unfolding copiesOf_def
  proof (intro conjI)
    show "map copyKey (rs @ [?r]) = keys @ [key]" using IH(2) by (simp add: copiesOf_def)
    show "distinct (copyAddrs (rs @ [?r]))" using IH(2) low by (fastforce simp: copiesOf_def)
    show "set (copyAddrs (rs @ [?r])) \<subseteq> {brk m ..< brk ?m}" using IH(2) low top by (fastforce simp: copiesOf_def)
    show "brk m \<le> brk ?m" using top by simp
    show "\<forall>x < brk m. cells ?m x = cells m x" using IH(2) top by (auto simp: copiesOf_def)
    show "\<forall>r \<in> set (rs @ [?r]). \<exists>a. live (copyKey r) = Some (a, tr_ver r) \<and> a < brk m \<and>
        cells ?m (tr_work r) = cells m a \<and> cells ?m (tr_original r) = cells m a"
    proof
      fix r assume "r \<in> set (rs @ [?r])"
      then consider "r \<in> set rs" | "r = ?r" by auto
      then show "\<exists>a. live (copyKey r) = Some (a, tr_ver r) \<and> a < brk m \<and> cells ?m (tr_work r) = cells m a \<and> cells ?m (tr_original r) = cells m a"
      proof cases
        case 1
        then have "tr_work r < brk m1" "tr_original r < brk m1" using copyAddrs_in[of r rs] low by auto
        then show ?thesis using IH(2) 1 old by (auto simp: copiesOf_def)
      next
        case 2
        then show ?thesis using a by auto
      qed
    qed
  qed
  then show ?case using run by blast
qed

section \<open>What rewiring makes of the copies\<close>

definition copyEntity :: "relationSpec list \<Rightarrow> (relationSpec \<Rightarrow> 'p option \<Rightarrow> 'p option) \<Rightarrow> 'p entity \<Rightarrow> 'p entity" where
  "copyEntity specs f e =
     e\<lparr>pointers := (\<lambda>i. case find (\<lambda>s. fieldIndex s = i) specs of None \<Rightarrow> pointers e i | Some s \<Rightarrow> mapPointers s (f s) (pointers e i))\<rparr>"

lemma copyEntity_parts [simp]:
  "scalars (copyEntity specs f e) = scalars e" "getId (copyEntity specs f e) = getId e"
  by (simp_all add: copyEntity_def)

lemma copyEntity_field:
  "distinct (map fieldIndex specs) \<Longrightarrow> s \<in> set specs \<Longrightarrow>
   pointers (copyEntity specs f e) (fieldIndex s) = mapPointers s (f s) (pointers e (fieldIndex s))"
  by (simp add: copyEntity_def find_index)

definition rewirePair ::
  "('p heap \<Rightarrow> relationSpec \<Rightarrow> 'p option \<Rightarrow> 'p option) \<Rightarrow> ('p heap \<Rightarrow> relationSpec \<Rightarrow> 'p option \<Rightarrow> 'p option) \<Rightarrow> 'p \<Rightarrow> 'p \<Rightarrow> 'p heap \<Rightarrow> relationSpec \<Rightarrow> 'p heap" where
  "rewirePair F G w v h s = (let h1 = rewireCopyField s (F h s) w h in rewireCopyField s (G h1 s) v h1)"

lemma rewireResourceField_pair:
  "rewireResourceField rs r =
   rewirePair (\<lambda>h s. rewireResourcePointer h rs False (target s)) (\<lambda>h s. rewireResourcePointer h rs True (target s)) (tr_work r) (tr_original r)"
  by (simp add: fun_eq_iff rewireResourceField_def rewirePair_def)

lemma rewireSingleField_pair:
  "rewireSingleField key r =
   rewirePair (\<lambda>h s. rewireSelfRelationPointer h (target s) key (tr_work r)) (\<lambda>h s. rewireSelfRelationPointer h (target s) key (tr_original r))
     (tr_work r) (tr_original r)"
  by (simp add: fun_eq_iff rewireSingleField_def rewirePair_def)

lemma rewireCopyField_same: "sameRows h (rewireCopyField s f a h)"
  by (simp add: sameRows_def rewireCopyField_def setPointers_def)

lemma rewirePair_same: "sameRows h (rewirePair F G w v h s)"
  using sameRows_trans[OF rewireCopyField_same rewireCopyField_same] by (simp add: rewirePair_def Let_def)

lemma rewire_pair:
  assumes F: "\<And>h h'. sameRows h h' \<Longrightarrow> F h' = F h" and G: "\<And>h h'. sameRows h h' \<Longrightarrow> G h' = G h"
    and "w \<noteq> v" and "distinct (map fieldIndex specs)"
  shows "foldl (rewirePair F G w v) h specs = h(w := copyEntity specs (F h) (h w), v := copyEntity specs (G h) (h v))"
  using assms(4)
proof (induction specs arbitrary: h)
  case Nil
  then show ?case by (simp add: copyEntity_def)
next
  case (Cons s specs)
  let ?h = "rewirePair F G w v h s"
  have none: "find (\<lambda>q. fieldIndex q = fieldIndex s) specs = None"
    unfolding find_None_iff using Cons.prems by (metis distinct.simps(2) image_eqI image_set list.simps(9))
  have h: "?h = h(w := setPointers (fieldIndex s) (mapPointers s (F h s) (pointers (h w) (fieldIndex s))) (h w),
      v := setPointers (fieldIndex s) (mapPointers s (G h s) (pointers (h v) (fieldIndex s))) (h v))"
    using G[OF rewireCopyField_same] assms(3) by (simp add: rewirePair_def rewireCopyField_def Let_def)
  have one: "copyEntity specs (f :: relationSpec \<Rightarrow> 'a option \<Rightarrow> 'a option) (setPointers (fieldIndex s) (mapPointers s (f s) (pointers e (fieldIndex s))) e) = copyEntity (s # specs) f e" for f e
  proof -
    have "pointers (copyEntity specs f (setPointers (fieldIndex s) (mapPointers s (f s) (pointers e (fieldIndex s))) e)) i = pointers (copyEntity (s # specs) f e) i" for i
      using none by (cases "fieldIndex s = i") (auto simp: copyEntity_def setPointers_def split: option.split)
    then show ?thesis by (intro entity.equality) (auto simp: copyEntity_def setPointers_def)
  qed
  have "foldl (rewirePair F G w v) h (s # specs) = ?h(w := copyEntity specs (F ?h) (?h w), v := copyEntity specs (G ?h) (?h v))"
    unfolding foldl_Cons by (rule Cons.IH) (use Cons.prems in simp)
  also have "\<dots> = ?h(w := copyEntity specs (F h) (?h w), v := copyEntity specs (G h) (?h v))"
    using F[OF rewirePair_same] G[OF rewirePair_same] by simp
  also have "\<dots> = h(w := copyEntity (s # specs) (F h) (h w), v := copyEntity (s # specs) (G h) (h v))"
    using assms(3) one by (simp add: h fun_eq_iff)
  finally show ?case .
qed

lemma rewirePointer_same:
  assumes "sameRows h h'"
  shows "rewireResourcePointer h' rs b t = rewireResourcePointer h rs b t"
    "rewireSelfRelationPointer h' t key a = rewireSelfRelationPointer h t key a"
  by (simp_all add: fun_eq_iff rewireResourcePointer_def rewireSelfRelationPointer_def sameRows_reads(2)[OF assms])

text \<open>The branch after rewiring: works point to works, originals to originals.\<close>

definition wiredCopies :: "typeEnv \<Rightarrow> 'p touchedResource list \<Rightarrow> 'p heap \<Rightarrow> 'p heap \<Rightarrow> bool" where
  "wiredCopies env rs h h' \<longleftrightarrow>
     (\<forall>r \<in> set rs.
        h' (tr_work r) = copyEntity (declaredSpecs env (tr_dbName r)) (\<lambda>s. rewireResourcePointer h rs False (target s)) (h (tr_work r)) \<and>
        h' (tr_original r) = copyEntity (declaredSpecs env (tr_dbName r)) (\<lambda>s. rewireResourcePointer h rs True (target s)) (h (tr_original r))) \<and>
     (\<forall>x. x \<notin> set (copyAddrs rs) \<longrightarrow> h' x = h x)"

lemma rewire_branch_fold:
  assumes "\<forall>r \<in> set qs. relationSpecs env (tr_dbName r) = Inr (declaredSpecs env (tr_dbName r))" and "distinct (copyAddrs qs)"
  shows "\<exists>h'. fold_result (\<lambda>h r. bind_result (relationSpecs env (tr_dbName r)) (\<lambda>specs. Inr (foldl (rewireResourceField rs r) h specs))) qs h = Inr h' \<and>
    sameRows h h' \<and> (\<forall>x. x \<notin> set (copyAddrs qs) \<longrightarrow> h' x = h x) \<and>
    (\<forall>r \<in> set qs.
        h' (tr_work r) = copyEntity (declaredSpecs env (tr_dbName r)) (\<lambda>s. rewireResourcePointer h rs False (target s)) (h (tr_work r)) \<and>
        h' (tr_original r) = copyEntity (declaredSpecs env (tr_dbName r)) (\<lambda>s. rewireResourcePointer h rs True (target s)) (h (tr_original r)))"
  using assms
proof (induction qs arbitrary: h)
  case Nil
  then show ?case by (simp add: sameRows_def)
next
  case (Cons r qs)
  let ?F = "\<lambda>h s. rewireResourcePointer h rs False (target s)" and ?G = "\<lambda>h s. rewireResourcePointer h rs True (target s)"
  let ?specs = "declaredSpecs env (tr_dbName r)"
  define g where "g = h(tr_work r := copyEntity ?specs (?F h) (h (tr_work r)), tr_original r := copyEntity ?specs (?G h) (h (tr_original r)))"
  have "tr_work r \<noteq> tr_original r" using Cons.prems(2) by simp
  then have step: "foldl (rewireResourceField rs r) h ?specs = g"
    unfolding rewireResourceField_pair g_def by (intro rewire_pair) (auto simp: rewirePointer_same intro: declared_distinct)
  have same: "sameRows h g" by (simp add: sameRows_def g_def)
  obtain h' where IH: "fold_result (\<lambda>h r. bind_result (relationSpecs env (tr_dbName r)) (\<lambda>specs. Inr (foldl (rewireResourceField rs r) h specs))) qs g = Inr h'"
    "sameRows g h'" "\<forall>x. x \<notin> set (copyAddrs qs) \<longrightarrow> h' x = g x"
    "\<forall>r \<in> set qs. h' (tr_work r) = copyEntity (declaredSpecs env (tr_dbName r)) (?F g) (g (tr_work r)) \<and>
        h' (tr_original r) = copyEntity (declaredSpecs env (tr_dbName r)) (?G g) (g (tr_original r))"
    using Cons.IH[of g] Cons.prems by fastforce
  have kept: "g (tr_work q) = h (tr_work q)" "g (tr_original q) = h (tr_original q)" if "q \<in> set qs" for q
    using Cons.prems(2) copyAddrs_in[OF that] by (auto simp: g_def)
  have FG: "?F g = ?F h" "?G g = ?G h" by (simp_all add: fun_eq_iff rewirePointer_same[OF same])
  have "fold_result (\<lambda>h r. bind_result (relationSpecs env (tr_dbName r)) (\<lambda>specs. Inr (foldl (rewireResourceField rs r) h specs))) (r # qs) h = Inr h'"
    using IH(1) Cons.prems(1) step by simp
  moreover have "h' (tr_work q) = copyEntity (declaredSpecs env (tr_dbName q)) (?F h) (h (tr_work q)) \<and>
        h' (tr_original q) = copyEntity (declaredSpecs env (tr_dbName q)) (?G h) (h (tr_original q))" if "q \<in> set (r # qs)" for q
  proof (cases "q \<in> set qs")
    case True
    then show ?thesis using IH(4) kept[OF True] unfolding FG by metis
  next
    case False
    then have "q = r" using that by simp
    moreover have "tr_work r \<notin> set (copyAddrs qs)" "tr_original r \<notin> set (copyAddrs qs)" "tr_work r \<noteq> tr_original r" using Cons.prems(2) by auto
    ultimately show ?thesis using IH(3) by (simp add: g_def)
  qed
  moreover have "h' x = h x" if "x \<notin> set (copyAddrs (r # qs))" for x using IH(3) that by (simp add: g_def)
  ultimately show ?case using sameRows_trans[OF same IH(2)] by blast
qed

lemma rewire_branch:
  assumes "\<forall>r \<in> set rs. relationSpecs env (tr_dbName r) = Inr (declaredSpecs env (tr_dbName r))" and "distinct (copyAddrs rs)"
  shows "\<exists>h'. rewireOwnershipResources env h rs = Inr h' \<and> wiredCopies env rs h h'"
  using rewire_branch_fold[OF assms, of rs h] unfolding rewireOwnershipResources_def wiredCopies_def by blast

lemma copyPositions_nth:
  assumes "distinct (map copyKey rs)"
  shows "copyPositions rs k = Some n \<longleftrightarrow> n < length rs \<and> copyKey (rs ! n) = k"
proof -
  have "foldl (\<lambda>m i. m(copyKey (rs ! i) \<mapsto> i)) (\<lambda>_. None) [0 ..< j] k = Some n \<longleftrightarrow> n < j \<and> copyKey (rs ! n) = k" if "j \<le> length rs" for j
    using that
  proof (induction j)
    case (Suc j)
    have "\<forall>n < j. copyKey (rs ! n) \<noteq> copyKey (rs ! j)"
      using assms Suc.prems nth_eq_iff_index_eq[of "map copyKey rs" _ j] by simp
    then show ?case using Suc by (auto simp: less_Suc_eq)
  qed simp
  from this[of "length rs"] show ?thesis by (simp add: copyPositions_def copyKey_def)
qed

lemma copiedAt_nth:
  assumes "distinct (map copyKey rs)"
  shows "copiedAt rs t i = Some n \<longleftrightarrow> n < length rs \<and> copyKey (rs ! n) = NodeKey t i"
proof (cases "1 < length rs")
  case True
  then show ?thesis using copyPositions_nth[OF assms] by (simp add: copiedAt_def)
next
  case False
  then consider "rs = []" | r where "rs = [r]" by (cases rs) auto
  then show ?thesis by cases (auto simp: copiedAt_def copyKey_def)
qed

lemma copied_none:
  assumes "distinct (map copyKey rs)"
  shows "copiedAt rs t i = None \<longleftrightarrow> NodeKey t i \<notin> copyKey ` set rs"
proof -
  have "copiedAt rs t i \<noteq> None \<longleftrightarrow> (\<exists>n < length rs. copyKey (rs ! n) = NodeKey t i)"
    using copiedAt_nth[OF assms] by blast
  then show ?thesis by (auto simp: in_set_conv_nth image_iff) (metis nth_mem)
qed

section \<open>Isolation of a loaded branch\<close>

text \<open>Where a pointer of a copy leads: to the copy of its target when that is in the branch, and else where the live row's pointer does.\<close>

definition copyOf :: "'p heap \<Rightarrow> 'p touchedResource list \<Rightarrow> bool \<Rightarrow> string \<Rightarrow> 'p option \<Rightarrow> 'p option" where
  "copyOf h rs original t p =
     (case p of
        None \<Rightarrow> None
      | Some b \<Rightarrow>
          (case find (\<lambda>r. copyKey r = NodeKey t (getId (h b))) rs of
             None \<Rightarrow> Some b
           | Some r \<Rightarrow> Some (if original then tr_original r else tr_work r)))"

lemma find_unique:
  "distinct (map f xs) \<Longrightarrow> n < length xs \<Longrightarrow> f (xs ! n) = k \<Longrightarrow> find (\<lambda>x. f x = k) xs = Some (xs ! n)"
proof (induction xs arbitrary: n)
  case (Cons x xs)
  then show ?case by (cases n) (auto simp: image_iff)
qed simp

lemma rewire_is_copyOf:
  assumes "distinct (map copyKey rs)"
  shows "rewireResourcePointer h rs b t p = copyOf h rs b t p"
proof (cases p)
  case (Some x)
  show ?thesis
  proof (cases "copiedAt rs t (getId (h x))")
    case None
    then have "find (\<lambda>r. copyKey r = NodeKey t (getId (h x))) rs = None"
      using copied_none[OF assms] by (auto simp: find_None_iff image_iff)
    then show ?thesis using Some None by (simp add: rewireResourcePointer_def copyOf_def valueID_def)
  next
    case n: (Some n)
    then have "find (\<lambda>r. copyKey r = NodeKey t (getId (h x))) rs = Some (rs ! n)"
      using copiedAt_nth[OF assms] find_unique[OF assms] by auto
    then show ?thesis using Some n by (simp add: rewireResourcePointer_def copyOf_def valueID_def)
  qed
qed (simp add: rewireResourcePointer_def copyOf_def valueID_def)

lemma self_is_copyOf:
  "rewireSelfRelationPointer h t (copyKey r) (if b then tr_original r else tr_work r) p = copyOf h [r] b t p"
  by (auto simp: rewireSelfRelationPointer_def copyOf_def valueID_def copyKey_def split: option.split)

definition closedMemory :: "memory \<Rightarrow> bool" where
  "closedMemory m \<longleftrightarrow>
     (\<forall>x < brk m. \<forall>i. (case pointers (cells m x) i of Pointer p \<Rightarrow> set_option p | Slice ps \<Rightarrow> (\<Union>p \<in> set ps. set_option p)) \<subseteq> {..< brk m})"

lemma copyEntity_cong:
  assumes "\<And>i. (case pointers e i of Pointer p \<Rightarrow> set_option p | Slice ps \<Rightarrow> (\<Union>p \<in> set ps. set_option p)) \<subseteq> D"
    and "\<And>s p. set_option p \<subseteq> D \<Longrightarrow> f s p = g s p"
  shows "copyEntity specs f e = copyEntity specs g e"
proof -
  have "mapPointers s (f s) (pointers e i) = mapPointers s (g s) (pointers e i)" for s i
    using assms(1)[of i] assms(2)[of _ s] by (cases "pointers e i") (auto simp: mapPointers_def UN_subset_iff)
  then show ?thesis by (simp add: copyEntity_def cong: option.case_cong)
qed

text \<open>What a loaded branch is.\<close>

definition detachedBranch :: "typeEnv \<Rightarrow> liveRows \<Rightarrow> memory \<Rightarrow> memory \<Rightarrow> nat touchedResource list \<Rightarrow> bool" where
  "detachedBranch env live m m' rs \<longleftrightarrow>
     distinct (map copyKey rs) \<and> distinct (copyAddrs rs) \<and> set (copyAddrs rs) \<subseteq> {brk m ..< brk m'} \<and> brk m \<le> brk m' \<and>
     (\<forall>x < brk m. cells m' x = cells m x) \<and>
     (\<forall>r \<in> set rs. \<exists>a. live (copyKey r) = Some (a, tr_ver r) \<and> a < brk m \<and>
        cells m' (tr_work r) = copyEntity (declaredSpecs env (tr_dbName r)) (\<lambda>s. copyOf (cells m) rs False (target s)) (cells m a) \<and>
        cells m' (tr_original r) = copyEntity (declaredSpecs env (tr_dbName r)) (\<lambda>s. copyOf (cells m) rs True (target s)) (cells m a))"

lemma copyOf_low:
  assumes "\<forall>x < D. getId (h' x) = getId (h x)" "set_option p \<subseteq> {..< D}"
  shows "copyOf h' rs b t p = copyOf h rs b t p"
  using assms by (cases p) (simp_all add: copyOf_def)

lemma wired_branch:
  assumes c: "copiesOf live m keys h hi rs" and w: "wiredCopies env rs h h'" and d: "distinct keys" and m: "closedMemory m"
  shows "detachedBranch env live m \<lparr>cells = h', brk = hi\<rparr> rs"
proof -
  have C: "map copyKey rs = keys" "distinct (copyAddrs rs)" "set (copyAddrs rs) \<subseteq> {brk m ..< hi}" "brk m \<le> hi" "\<forall>x < brk m. h x = cells m x"
    "\<forall>r \<in> set rs. \<exists>a. live (copyKey r) = Some (a, tr_ver r) \<and> a < brk m \<and> h (tr_work r) = cells m a \<and> h (tr_original r) = cells m a"
    using c by (simp_all add: copiesOf_def)
  have dk: "distinct (map copyKey rs)" using C(1) d by simp
  have to: "copyEntity specs (\<lambda>s. rewireResourcePointer h rs b (target s)) (cells m a) = copyEntity specs (\<lambda>s. copyOf (cells m) rs b (target s)) (cells m a)"
    if "a < brk m" for a b specs
  proof (rule copyEntity_cong)
    show "(case pointers (cells m a) i of Pointer p \<Rightarrow> set_option p | Slice ps \<Rightarrow> (\<Union>p \<in> set ps. set_option p)) \<subseteq> {..< brk m}" for i
      using m that by (auto simp: closedMemory_def)
    show "rewireResourcePointer h rs b (target s) p = copyOf (cells m) rs b (target s) p" if "set_option p \<subseteq> {..< brk m}" for s p
      unfolding rewire_is_copyOf[OF dk] by (rule copyOf_low[OF _ that]) (use C(5) in simp)
  qed
  have "\<exists>a. live (copyKey r) = Some (a, tr_ver r) \<and> a < brk m \<and>
      h' (tr_work r) = copyEntity (declaredSpecs env (tr_dbName r)) (\<lambda>s. copyOf (cells m) rs False (target s)) (cells m a) \<and>
      h' (tr_original r) = copyEntity (declaredSpecs env (tr_dbName r)) (\<lambda>s. copyOf (cells m) rs True (target s)) (cells m a)"
    if r: "r \<in> set rs" for r
  proof -
    obtain a where "live (copyKey r) = Some (a, tr_ver r)" "a < brk m" "h (tr_work r) = cells m a" "h (tr_original r) = cells m a"
      using C(6) r by blast
    then show ?thesis using w r to by (simp add: wiredCopies_def)
  qed
  moreover have "\<forall>x < brk m. h' x = cells m x"
  proof (intro allI impI)
    fix x assume x: "x < brk m"
    then have "x \<notin> set (copyAddrs rs)" using C(3) by auto
    then show "h' x = cells m x" using w C(5) x by (simp add: wiredCopies_def)
  qed
  ultimately show ?thesis using C dk by (simp add: detachedBranch_def)
qed

lemma single_branch:
  assumes live: "live root = Some (a, ver)" "a < brk m" and m: "closedMemory m"
    and s: "relationSpecs env (nk_type root) = Inr (declaredSpecs env (nk_type root))"
  shows "\<exists>m' r. cloneSingleOwnershipResource env live m root = Inr (m', tr_work r, [r]) \<and> copyKey r = root \<and> detachedBranch env live m m' [r]"
proof -
  let ?h = "(cells m)(brk m := cells m a, brk m + 1 := cells m a)"
  let ?r = "\<lparr>tr_dbName = nk_type root, tr_id = nk_id root, tr_ver = ver, tr_work = brk m, tr_original = brk m + 1\<rparr>"
  note one = snapshot_one[of live root a ver m, OF live]
  have key: "copyKey ?r = root" by simp
  have c: "copiesOf live m [root] ?h (brk m + 2) [?r]" using live by (auto simp: copiesOf_def)
  let ?F = "\<lambda>h s. rewireSelfRelationPointer h (target s) root (tr_work ?r)" and ?G = "\<lambda>h s. rewireSelfRelationPointer h (target s) root (tr_original ?r)"
  let ?specs = "declaredSpecs env (nk_type root)"
  define h' where "h' = ?h(tr_work ?r := copyEntity ?specs (?F ?h) (?h (tr_work ?r)), tr_original ?r := copyEntity ?specs (?G ?h) (?h (tr_original ?r)))"
  have "foldl (rewireSingleField root ?r) ?h ?specs = h'"
    unfolding rewireSingleField_pair h'_def
    by (rule rewire_pair) (simp_all add: rewirePointer_same declared_distinct)
  then have run: "rewireSingleOwnershipResource env ?h root ?r = Inr h'" by (simp add: rewireSingleOwnershipResource_def s)
  have eq: "rewireResourcePointer h [?r] b t = copyOf h [?r] b t" for h b t by (intro ext rewire_is_copyOf) simp
  have F: "?F h = (\<lambda>s. rewireResourcePointer h [?r] False (target s))" and G: "?G h = (\<lambda>s. rewireResourcePointer h [?r] True (target s))" for h
    using self_is_copyOf[of h _ ?r False] self_is_copyOf[of h _ ?r True] unfolding key
    unfolding eq by (simp_all add: fun_eq_iff)
  have "wiredCopies env [?r] ?h h'" unfolding wiredCopies_def h'_def F G by simp
  from wired_branch[OF c this _ m] have "detachedBranch env live m \<lparr>cells = h', brk = brk m + 2\<rparr> [?r]" by simp
  moreover have "cloneSingleOwnershipResource env live m root = Inr (\<lparr>cells = h', brk = brk m + 2\<rparr>, tr_work ?r, [?r])"
    unfolding cloneSingleOwnershipResource_def one using run by simp
  ultimately show ?thesis using key by (intro exI[of _ "\<lparr>cells = h', brk = brk m + 2\<rparr>"] exI[of _ ?r]) simp
qed

lemma branch_of_leaf: "childList out root = [] \<Longrightarrow> (outEdges out)\<^sup>* `` {root} = {root}"
  by (auto simp: outEdges_def elim: converse_rtranclE)

lemma cloned_branch:
  assumes "forest (co_outgoing co)" and "branches_ok (co_outgoing co) (co_branches co)" and "closedMemory m"
    and "\<forall>k \<in> (outEdges (co_outgoing co))\<^sup>* `` {root}. (\<exists>a ver. live k = Some (a, ver) \<and> a < brk m) \<and>
      relationSpecs env (nk_type k) = Inr (declaredSpecs env (nk_type k))"
  shows "\<exists>m' w rs co'. cloneOwnershipAggregate env live m co root = Some (Inr (m', w, rs), co') \<and>
    copyKey ` set rs = (outEdges (co_outgoing co))\<^sup>* `` {root} \<and> (\<exists>r \<in> set rs. copyKey r = root \<and> tr_work r = w) \<and>
    detachedBranch env live m m' rs"
proof (cases "childList (co_outgoing co) root = []")
  case True
  then have b: "(outEdges (co_outgoing co))\<^sup>* `` {root} = {root}" by (rule branch_of_leaf)
  then obtain a ver where "live root = Some (a, ver)" "a < brk m" "relationSpecs env (nk_type root) = Inr (declaredSpecs env (nk_type root))"
    using assms(4) by auto
  then obtain m' r where R: "cloneSingleOwnershipResource env live m root = Inr (m', tr_work r, [r])" "copyKey r = root" "detachedBranch env live m m' [r]"
    using single_branch[of live root a ver m env] assms(3) by blast
  then have "cloneOwnershipAggregate env live m co root = Some (Inr (m', tr_work r, [r]), co)" using True by (simp add: cloneOwnershipAggregate_def)
  moreover have "copyKey ` set [r] = (outEdges (co_outgoing co))\<^sup>* `` {root}" using b R(2) by simp
  ultimately show ?thesis using R by fastforce
next
  case False
  obtain keys branches' where K: "committedOwnershipKeys (co_branches co) (co_outgoing co) root = Some (keys, branches')"
    "is_branch (co_outgoing co) root keys" using branch_keys[OF assms(1,2)] by blast
  have set: "set keys = (outEdges (co_outgoing co))\<^sup>* `` {root}" "distinct keys" using K(2) by (simp_all add: is_branch_def)
  have "liveBelow live m keys" using assms(4) set(1) by (simp add: liveBelow_def)
  then obtain m1 rs where S: "snapshotBranch live m keys = Inr (m1, rs)" "copiesOf live m keys (cells m1) (brk m1) rs" using snapshot_branch by blast
  have keys: "map copyKey rs = keys" using S(2) by (simp add: copiesOf_def)
  then have "\<forall>r \<in> set rs. relationSpecs env (tr_dbName r) = Inr (declaredSpecs env (tr_dbName r))"
  proof (intro ballI)
    fix r assume "r \<in> set rs"
    then have "copyKey r \<in> set (map copyKey rs)" by simp
    then have "copyKey r \<in> (outEdges (co_outgoing co))\<^sup>* `` {root}" unfolding keys set(1) .
    then have "relationSpecs env (nk_type (copyKey r)) = Inr (declaredSpecs env (nk_type (copyKey r)))" using assms(4) by blast
    then show "relationSpecs env (tr_dbName r) = Inr (declaredSpecs env (tr_dbName r))" by (simp add: copyKey_def)
  qed
  moreover have "distinct (copyAddrs rs)" using S(2) by (simp add: copiesOf_def)
  ultimately obtain h' where h': "rewireOwnershipResources env (cells m1) rs = Inr h'" "wiredCopies env rs (cells m1) h'" using rewire_branch by blast
  have "root \<in> set keys" using set(1) by simp
  then obtain r where r: "find (\<lambda>r. NodeKey (tr_dbName r) (tr_id r) = root) rs = Some r"
    using keys[symmetric] by (cases "find (\<lambda>r. NodeKey (tr_dbName r) (tr_id r) = root) rs") (auto simp: find_None_iff copyKey_def)
  then have "r \<in> set rs" "copyKey r = root" by (auto simp: find_Some_iff copyKey_def)
  moreover have "cloneOwnershipAggregate env live m co root = Some (Inr (m1\<lparr>cells := h'\<rparr>, tr_work r, rs), co\<lparr>co_branches := branches'\<rparr>)"
    using False K(1) S(1) h'(1) r by (simp add: cloneOwnershipAggregate_def)
  moreover have eq: "m1\<lparr>cells := h'\<rparr> = \<lparr>cells = h', brk = brk m1\<rparr>" by simp
  have "detachedBranch env live m (m1\<lparr>cells := h'\<rparr>) rs" unfolding eq by (rule wired_branch[OF S(2) h'(2) set(2) assms(3)])
  moreover have "copyKey ` set rs = (outEdges (co_outgoing co))\<^sup>* `` {root}" using keys set(1) by (metis list.set_map)
  ultimately show ?thesis by blast
qed

text \<open>
  C36. A loaded branch is isolated. Loading a row copies exactly the row and everything it owns,
  twice, into fresh memory, and changes no live row. Copies have the fields of their rows;
  a relation of a working copy leads to the working copy of its target when the target belongs
  to the branch, and likewise among the originals. Every other pointer of a copy is exactly the one
  that the live row holds, wherever that leads, so no working copy leads to an original.
\<close>

theorem detached_branch_is_isolated:
  assumes "forest (co_outgoing co)" and "branches_ok (co_outgoing co) (co_branches co)" and "closedMemory m"
    and "\<forall>k \<in> (outEdges (co_outgoing co))\<^sup>* `` {root}. (\<exists>a ver. live k = Some (a, ver) \<and> a < brk m) \<and>
      relationSpecs env (nk_type k) = Inr (declaredSpecs env (nk_type k))"
  shows "\<exists>m' w rs co'. cloneOwnershipAggregate env live m co root = Some (Inr (m', w, rs), co') \<and>
    copyKey ` set rs = (outEdges (co_outgoing co))\<^sup>* `` {root} \<and> (\<exists>r \<in> set rs. copyKey r = root \<and> tr_work r = w) \<and>
    detachedBranch env live m m' rs"
  by (rule cloned_branch[OF assms])

end
