(* ===== verification/Branch_Commits.thy ===== *)
theory Branch_Commits
  imports Detached_Branches
begin

text \<open>
  Which copies of a branch were edited, whether the edits change the relation graph, and the
  commit that writes them back when they do not (\<open>engine.go\<close>, \<open>db.go\<close>). Logs and secondary
  indexes take part in it as in \<open>Transaction_Commit\<close> and are left out here; so is the commit that
  changes the graph. Two ways in which a commit of a loaded branch goes wrong are at the end.
\<close>

section \<open>Comparing copies\<close>

definition relationValueEqual :: "'p heap \<Rightarrow> bool \<Rightarrow> 'p fieldValue \<Rightarrow> 'p fieldValue \<Rightarrow> bool" where
  "relationValueEqual h m v w =
     (case (v, w) of
        (Pointer p, Pointer q) \<Rightarrow> \<not> m \<and> valueID h p = valueID h q
      | (Slice ps, Slice qs) \<Rightarrow> m \<and> list_all2 (\<lambda>p q. valueID h p = valueID h q) ps qs
      | _ \<Rightarrow> False)"

definition fieldStateEqual :: "typeEnv \<Rightarrow> (string \<times> relationSpec) list \<Rightarrow> 'p heap \<Rightarrow> string \<Rightarrow> 'p \<Rightarrow> 'p \<Rightarrow> nat \<Rightarrow> bool" where
  "fieldStateEqual env sb h t a b i =
     (let n = rf_name (structFields env t ! i) in
      case map_of sb n of
        Some r \<Rightarrow> relationValueEqual h (many r) (pointers (h a) i) (pointers (h b) i)
      | None \<Rightarrow> scalars (h a) n = scalars (h b) n)"

definition entityStateEqual :: "typeEnv \<Rightarrow> 'p heap \<Rightarrow> string \<Rightarrow> 'p \<Rightarrow> 'p \<Rightarrow> bool" where
  "entityStateEqual env h t a b =
     (case specsByField env t of
        Inl e \<Rightarrow> False
      | Inr sb \<Rightarrow> list_all (fieldStateEqual env sb h t a b) [0 ..< length (structFields env t)])"

definition editedCopy :: "typeEnv \<Rightarrow> 'p heap \<Rightarrow> 'p touchedResource \<Rightarrow> bool" where
  "editedCopy env h r \<longleftrightarrow> \<not> entityStateEqual env h (tr_dbName r) (tr_original r) (tr_work r)"

text \<open>\<open>changedResources\<close> keeps the slice it was given when every copy changed.\<close>

definition changedCopies :: "typeEnv \<Rightarrow> 'p heap \<Rightarrow> 'p touchedResource list \<Rightarrow> 'p touchedResource list" where
  "changedCopies env h rs =
     (let k = length (takeWhile (editedCopy env h) rs) in
      if k = length rs then rs else take k rs @ filter (editedCopy env h) (drop (k + 1) rs))"

section \<open>Does a change touch the relation graph?\<close>

text \<open>\<open>reflect.DeepEqual\<close> on values of a declared type, to a depth; cycles are equal when no depth tells them apart.\<close>

definition deepValue :: "('p \<Rightarrow> 'p \<Rightarrow> bool) \<Rightarrow> 'p fieldValue \<Rightarrow> 'p fieldValue \<Rightarrow> bool" where
  "deepValue d v w =
     (case (v, w) of
        (Pointer p, Pointer q) \<Rightarrow> rel_option d p q
      | (Slice ps, Slice qs) \<Rightarrow> list_all2 (rel_option d) ps qs
      | _ \<Rightarrow> False)"

primrec deepEqualUpTo :: "nat \<Rightarrow> typeEnv \<Rightarrow> 'p heap \<Rightarrow> string \<Rightarrow> 'p \<Rightarrow> 'p \<Rightarrow> bool" where
  "deepEqualUpTo 0 env h t a b = True"
| "deepEqualUpTo (Suc n) env h t a b =
     (a = b \<or> scalars (h a) = scalars (h b) \<and>
        (\<forall>i < length (structFields env t).
           case rf_type (structFields env t ! i) of
             PointerType (StructType u) \<Rightarrow> deepValue (deepEqualUpTo n env h u) (pointers (h a) i) (pointers (h b) i)
           | SliceType (PointerType (StructType u)) \<Rightarrow> deepValue (deepEqualUpTo n env h u) (pointers (h a) i) (pointers (h b) i)
           | _ \<Rightarrow> True))"

definition relationFieldEqual :: "typeEnv \<Rightarrow> 'p heap \<Rightarrow> string \<Rightarrow> nat \<Rightarrow> 'p \<Rightarrow> 'p \<Rightarrow> bool" where
  "relationFieldEqual env h t i a b =
     (let f = structFields env t ! i in
      case rf_type f of
        PointerType _ \<Rightarrow> pointers (h a) i = pointers (h b) i
      | SliceType (PointerType (StructType u)) \<Rightarrow> (\<forall>n. deepValue (deepEqualUpTo n env h u) (pointers (h a) i) (pointers (h b) i))
      | _ \<Rightarrow> scalars (h a) (rf_name f) = scalars (h b) (rf_name f))"

text \<open>The fields that relations of the open tables find their targets by.\<close>

definition registeredRelationMatchFields :: "typeEnv \<Rightarrow> string list \<Rightarrow> (string \<times> nat) list result" where
  "registeredRelationMatchFields env types =
     fold_result
       (\<lambda>out t. case FieldByName env t entityIDField of
            None \<Rightarrow> Inl (ErrRelationSchema ''does not exist'')
          | Some (i, _) \<Rightarrow>
              bind_result (relationSpecs env t)
                (\<lambda>specs. fold_result
                   (\<lambda>out s. case FieldByName env (target s) (matchField s) of
                        None \<Rightarrow> Inl (ErrRelationSchema ''does not exist'')
                      | Some (j, _) \<Rightarrow> Inr (List.insert (target s, j) out)) specs (List.insert (t, i) out)))
       types []"

fun resourcesChangeRelationGraph :: "typeEnv \<Rightarrow> string list \<Rightarrow> bool \<Rightarrow> 'p heap \<Rightarrow> 'p touchedResource list \<Rightarrow> bool result" where
  "resourcesChangeRelationGraph env types hasRelations h [] = Inr False"
| "resourcesChangeRelationGraph env types hasRelations h (r # rs) =
     (if getId (h (tr_original r)) \<noteq> getId (h (tr_work r)) then Inl (ErrRelationInvariant ''primary key changed'')
      else if \<not> hasRelations then resourcesChangeRelationGraph env types hasRelations h rs
      else bind_result (relationSpecs env (tr_dbName r))
        (\<lambda>specs.
           if list_ex (\<lambda>s. \<not> relationValueEqual h (many s) (pointers (h (tr_original r)) (fieldIndex s)) (pointers (h (tr_work r)) (fieldIndex s))) specs
           then Inr True
           else bind_result (registeredRelationMatchFields env types)
             (\<lambda>ms. if list_ex (\<lambda>q. fst q = tr_dbName r \<and> \<not> relationFieldEqual env h (tr_dbName r) (snd q) (tr_original r) (tr_work r)) ms
                   then Inr True else resourcesChangeRelationGraph env types hasRelations h rs)))"

section \<open>Writing back\<close>

text \<open>\<open>applyWrite\<close>: through the stable pointer, the whole struct.\<close>

definition writeCopy :: "liveRows \<times> memory \<Rightarrow> nat touchedResource \<Rightarrow> liveRows \<times> memory" where
  "writeCopy st r =
     (case fst st (copyKey r) of
        None \<Rightarrow> st
      | Some (a, ver) \<Rightarrow> ((fst st)(copyKey r \<mapsto> (a, ver + 1)), (snd st)\<lparr>cells := (cells (snd st))(a := cells (snd st) (tr_work r))\<rparr>))"

definition staleCopy :: "liveRows \<Rightarrow> nat touchedResource \<Rightarrow> bool" where
  "staleCopy live r = (case live (copyKey r) of None \<Rightarrow> True | Some (a, ver) \<Rightarrow> ver \<noteq> tr_ver r)"

text \<open>A commit without creates and deletes; \<open>None\<close> when it changes the graph.\<close>

definition commitBranch :: "typeEnv \<Rightarrow> string list \<Rightarrow> bool \<Rightarrow> liveRows \<Rightarrow> memory \<Rightarrow> nat touchedResource list \<Rightarrow> (liveRows \<times> memory) option result" where
  "commitBranch env types hasRelations live m rs =
     (let touched = changedCopies env (cells m) rs in
      if touched = [] then Inr (Some (live, m))
      else bind_result (resourcesChangeRelationGraph env types hasRelations (cells m) touched)
        (\<lambda>graphChanged.
           if graphChanged then Inr None
           else if list_ex (staleCopy live) touched then Inl ErrConflict
           else Inr (Some (foldl writeCopy (live, m) touched))))"

lemma changed_filter: "changedCopies env h rs = filter (editedCopy env h) rs"
proof (induction rs)
  case (Cons r rs)
  then show ?case by (auto simp: changedCopies_def Let_def)
qed (simp add: changedCopies_def)

section \<open>Edits are merged\<close>

definition addressOf :: "liveRows \<Rightarrow> nodeKey \<Rightarrow> nat option" where
  "addressOf live k = map_option fst (live k)"

lemma write_copies:
  assumes "distinct (map copyKey rs)" and "\<forall>r \<in> set rs. live (copyKey r) \<noteq> None"
    and "\<forall>r \<in> set rs. \<forall>q \<in> set rs. copyKey r \<noteq> copyKey q \<longrightarrow> addressOf live (copyKey r) \<noteq> addressOf live (copyKey q)"
    and "\<forall>r \<in> set rs. \<forall>q \<in> set rs. addressOf live (copyKey r) \<noteq> Some (tr_work q)"
    and "foldl writeCopy (live, m) rs = (live', m')"
  shows "(\<forall>k. k \<notin> copyKey ` set rs \<longrightarrow> live' k = live k) \<and>
    (\<forall>r \<in> set rs. \<forall>a ver. live (copyKey r) = Some (a, ver) \<longrightarrow> live' (copyKey r) = Some (a, ver + 1) \<and> cells m' a = cells m (tr_work r)) \<and>
    (\<forall>x. (\<forall>r \<in> set rs. addressOf live (copyKey r) \<noteq> Some x) \<longrightarrow> cells m' x = cells m x) \<and> brk m' = brk m"
  using assms
proof (induction rs arbitrary: live' m' rule: rev_induct)
  case (snoc r rs)
  obtain live1 m1 where f: "foldl writeCopy (live, m) rs = (live1, m1)" by fastforce
  have IH: "\<forall>k. k \<notin> copyKey ` set rs \<longrightarrow> live1 k = live k"
    "\<forall>r \<in> set rs. \<forall>a ver. live (copyKey r) = Some (a, ver) \<longrightarrow> live1 (copyKey r) = Some (a, ver + 1) \<and> cells m1 a = cells m (tr_work r)"
    "\<forall>x. (\<forall>r \<in> set rs. addressOf live (copyKey r) \<noteq> Some x) \<longrightarrow> cells m1 x = cells m x" "brk m1 = brk m"
    using snoc.IH[OF _ _ _ _ f] snoc.prems(1-4) by auto
  obtain a ver where a: "live (copyKey r) = Some (a, ver)" using snoc.prems(2) by auto
  have new: "copyKey r \<notin> copyKey ` set rs" using snoc.prems(1) by auto
  then have "live1 (copyKey r) = Some (a, ver)" using IH(1) a by simp
  moreover have work: "cells m1 (tr_work r) = cells m (tr_work r)" using IH(3) snoc.prems(4) by auto
  ultimately have st: "live' = live1(copyKey r \<mapsto> (a, ver + 1))" "cells m' = (cells m1)(a := cells m (tr_work r))" "brk m' = brk m1"
    using snoc.prems(5) unfolding foldl_append f by (auto simp: writeCopy_def)
  have other: "addressOf live (copyKey q) \<noteq> Some a" if "q \<in> set rs" for q
  proof -
    have "copyKey q \<noteq> copyKey r" using new that by (metis imageI)
    then have "addressOf live (copyKey q) \<noteq> addressOf live (copyKey r)" using snoc.prems(3) that by auto
    then show ?thesis using a by (simp add: addressOf_def)
  qed
  show ?case
  proof (intro conjI allI impI ballI)
    fix k assume "k \<notin> copyKey ` set (rs @ [r])"
    then show "live' k = live k" using IH(1) st by auto
  next
    fix q b v assume q: "q \<in> set (rs @ [r])" "live (copyKey q) = Some (b, v)"
    show "live' (copyKey q) = Some (b, v + 1)" "cells m' b = cells m (tr_work q)"
    proof (atomize(full), cases "q = r")
      case True
      then show "live' (copyKey q) = Some (b, v + 1) \<and> cells m' b = cells m (tr_work q)" using q a st by simp
    next
      case False
      then have qin: "q \<in> set rs" using q by simp
      have "copyKey q \<noteq> copyKey r" using new qin by (metis imageI)
      moreover have "b \<noteq> a" using other[OF qin] q(2) by (simp add: addressOf_def)
      ultimately show "live' (copyKey q) = Some (b, v + 1) \<and> cells m' b = cells m (tr_work q)" using IH(2) qin q(2) st by auto
    qed
  next
    fix x assume "\<forall>q \<in> set (rs @ [r]). addressOf live (copyKey q) \<noteq> Some x"
    then show "cells m' x = cells m x" using IH(3) st a by (auto simp: addressOf_def)
  next
    show "brk m' = brk m" using IH(4) st by simp
  qed
qed simp

definition plainFields :: "typeEnv \<Rightarrow> string \<Rightarrow> string set" where
  "plainFields env t = rf_name ` set (structFields env t) - fieldName ` set (declaredSpecs env t)"

text \<open>The live rows carry the ids they are found by, have the shape of their type and their own addresses.\<close>

definition liveOk :: "typeEnv \<Rightarrow> liveRows \<Rightarrow> memory \<Rightarrow> bool" where
  "liveOk env live m \<longleftrightarrow>
     (\<forall>k a ver. live k = Some (a, ver) \<longrightarrow> getId (cells m a) = nk_id k \<and> rowShape (declaredSpecs env (nk_type k)) (cells m a)) \<and>
     (\<forall>j k. live j \<noteq> None \<and> addressOf live j = addressOf live k \<longrightarrow> j = k)"

text \<open>A memory in which only plain fields of working copies were edited.\<close>

definition editedMemory :: "nat touchedResource list \<Rightarrow> memory \<Rightarrow> memory \<Rightarrow> bool" where
  "editedMemory rs m m' \<longleftrightarrow>
     (\<forall>x. pointers (cells m' x) = pointers (cells m x) \<and> getId (cells m' x) = getId (cells m x) \<and>
        (x \<notin> tr_work ` set rs \<longrightarrow> cells m' x = cells m x))"

lemma live_row:
  "liveOk env live m \<Longrightarrow> live k = Some (a, ver) \<Longrightarrow> getId (cells m a) = nk_id k \<and> rowShape (declaredSpecs env (nk_type k)) (cells m a)"
  unfolding liveOk_def by blast

lemma copies_ids:
  assumes "detachedBranch env live m m' rs" "liveOk env live m" "r \<in> set rs"
  shows "getId (cells m' (tr_work r)) = tr_id r" "getId (cells m' (tr_original r)) = tr_id r"
proof -
  obtain a where a: "live (copyKey r) = Some (a, tr_ver r)"
    "cells m' (tr_work r) = copyEntity (declaredSpecs env (tr_dbName r)) (\<lambda>s. copyOf (cells m) rs False (target s)) (cells m a)"
    "cells m' (tr_original r) = copyEntity (declaredSpecs env (tr_dbName r)) (\<lambda>s. copyOf (cells m) rs True (target s)) (cells m a)"
    using assms(1,3) unfolding detachedBranch_def by metis
  have "getId (cells m a) = tr_id r" using live_row[OF assms(2) a(1)] by (simp add: copyKey_def)
  then show "getId (cells m' (tr_work r)) = tr_id r" "getId (cells m' (tr_original r)) = tr_id r" using a by simp_all
qed

lemma copies_same_target:
  assumes d: "detachedBranch env live m m' rs" and ok: "liveOk env live m" and e: "editedMemory rs m' m''"
  shows "valueID (cells m'') (copyOf (cells m) rs False t p) = valueID (cells m'') (copyOf (cells m) rs True t p)"
proof -
  have "getId (cells m'' (tr_work r)) = getId (cells m'' (tr_original r))" if "r \<in> set rs" for r
    using copies_ids[OF d ok that] e by (simp add: editedMemory_def)
  moreover have "r \<in> set rs" if "find P rs = Some r" for P r using that by (auto simp: find_Some_iff)
  ultimately show ?thesis by (cases p) (auto simp: copyOf_def valueID_def split: option.split)
qed

lemma relations_of_copies:
  assumes d: "detachedBranch env live m m' rs" and ok: "liveOk env live m" and e: "editedMemory rs m' m''"
    and r: "r \<in> set rs" and s: "s \<in> set (declaredSpecs env (tr_dbName r))"
  shows "relationValueEqual (cells m'') (many s) (pointers (cells m'' (tr_original r)) (fieldIndex s)) (pointers (cells m'' (tr_work r)) (fieldIndex s))"
proof -
  obtain a where a: "live (copyKey r) = Some (a, tr_ver r)"
    "cells m' (tr_work r) = copyEntity (declaredSpecs env (tr_dbName r)) (\<lambda>s. copyOf (cells m) rs False (target s)) (cells m a)"
    "cells m' (tr_original r) = copyEntity (declaredSpecs env (tr_dbName r)) (\<lambda>s. copyOf (cells m) rs True (target s)) (cells m a)"
    using d r unfolding detachedBranch_def by metis
  have "rowShape (declaredSpecs env (tr_dbName r)) (cells m a)" using live_row[OF ok a(1)] by (simp add: copyKey_def)
  then have shape: "if many s then \<exists>ps. pointers (cells m a) (fieldIndex s) = Slice ps else \<exists>p. pointers (cells m a) (fieldIndex s) = Pointer p"
    using s by (simp add: rowShape_def)
  have w: "pointers (cells m'' (tr_work r)) (fieldIndex s) = mapPointers s (copyOf (cells m) rs False (target s)) (pointers (cells m a) (fieldIndex s))"
    "pointers (cells m'' (tr_original r)) (fieldIndex s) = mapPointers s (copyOf (cells m) rs True (target s)) (pointers (cells m a) (fieldIndex s))"
    using e a copyEntity_field[OF declared_distinct s] by (simp_all add: editedMemory_def)
  show ?thesis using shape copies_same_target[OF d ok e] unfolding w
    by (cases "many s") (auto simp: mapPointers_def relationValueEqual_def list_all2_conv_all_nth)
qed

lemma copyAddrs_nth:
  "i < length rs \<Longrightarrow> copyAddrs rs ! (2 * i) = tr_work (rs ! i) \<and> copyAddrs rs ! (2 * i + 1) = tr_original (rs ! i) \<and> length (copyAddrs rs) = 2 * length rs"
proof (induction rs arbitrary: i)
  case (Cons r rs)
  have "length (copyAddrs rs) = 2 * length rs" by (induction rs) auto
  then show ?case using Cons by (cases i) auto
qed simp

text \<open>A working copy counts as edited exactly when a plain field differs from the live row.\<close>

lemma edited_copy:
  assumes d: "detachedBranch env live m m' rs" and ok: "liveOk env live m" and e: "editedMemory rs m' m''"
    and r: "r \<in> set rs" and live: "live (copyKey r) = Some (a, ver)"
    and s: "relationSpecs env (tr_dbName r) = Inr (declaredSpecs env (tr_dbName r))" "namedFields env (tr_dbName r)"
  shows "editedCopy env (cells m'') r \<longleftrightarrow> (\<exists>n \<in> plainFields env (tr_dbName r). scalars (cells m'' (tr_work r)) n \<noteq> scalars (cells m a) n)"
proof -
  let ?t = "tr_dbName r" and ?fs = "structFields env (tr_dbName r)"
  obtain sb where sb: "specsByField env ?t = Inr sb" "\<And>n q. map_of sb n = Some q \<longleftrightarrow> q \<in> set (declaredSpecs env ?t) \<and> fieldName q = n"
    by (rule specs_by_field[OF s]) blast
  have o': "cells m'' (tr_original r) = cells m' (tr_original r)"
  proof -
    have "tr_original r \<notin> tr_work ` set rs"
    proof
      assume "tr_original r \<in> tr_work ` set rs"
      then obtain q where q: "q \<in> set rs" "tr_work q = tr_original r" by auto
      obtain i j where i: "i < length rs" "rs ! i = r" and j: "j < length rs" "rs ! j = q" using r q(1) by (auto simp: in_set_conv_nth)
      have "copyAddrs rs ! (2 * i + 1) = tr_original r" "copyAddrs rs ! (2 * j) = tr_work q" "2 * i + 1 < length (copyAddrs rs)" "2 * j < length (copyAddrs rs)"
        using copyAddrs_nth[OF i(1)] copyAddrs_nth[OF j(1)] i j by auto
      moreover have "2 * i + 1 \<noteq> 2 * j" by presburger
      ultimately show False using d q(2) nth_eq_iff_index_eq[of "copyAddrs rs" "2 * i + 1" "2 * j"] by (simp add: detachedBranch_def)
    qed
    then show ?thesis using e by (simp add: editedMemory_def)
  qed
  obtain b where b: "live (copyKey r) = Some (b, tr_ver r)"
    "cells m' (tr_original r) = copyEntity (declaredSpecs env ?t) (\<lambda>s. copyOf (cells m) rs True (target s)) (cells m b)"
    using d r unfolding detachedBranch_def by metis
  then have sc: "scalars (cells m'' (tr_original r)) = scalars (cells m a)" using live o' by simp
  have field: "fieldStateEqual env sb (cells m'') ?t (tr_original r) (tr_work r) i \<longleftrightarrow>
      (rf_name (?fs ! i) \<notin> fieldName ` set (declaredSpecs env ?t) \<longrightarrow> scalars (cells m'' (tr_work r)) (rf_name (?fs ! i)) = scalars (cells m a) (rf_name (?fs ! i)))"
    if i: "i < length ?fs" for i
  proof (cases "map_of sb (rf_name (?fs ! i))")
    case None
    then have "rf_name (?fs ! i) \<notin> fieldName ` set (declaredSpecs env ?t)" using sb(2) by (metis imageE option.distinct(1))
    then show ?thesis using None sc by (auto simp: fieldStateEqual_def)
  next
    case (Some q)
    then have q: "q \<in> set (declaredSpecs env ?t)" "fieldName q = rf_name (?fs ! i)" using sb(2) by auto
    have "fieldIndex q = i"
    proof -
      have "fieldIndex q < length ?fs" "fieldName q = rf_name (?fs ! fieldIndex q)" using spec_parts(1,2)[OF s(1) q(1)] by auto
      then show ?thesis using q(2) i s(2) nth_eq_iff_index_eq[of "map rf_name ?fs" "fieldIndex q" i] by (simp add: namedFields_def)
    qed
    then have "fieldStateEqual env sb (cells m'') ?t (tr_original r) (tr_work r) i"
      using relations_of_copies[OF d ok e r q(1)] Some by (simp add: fieldStateEqual_def)
    moreover have "rf_name (?fs ! i) \<in> fieldName ` set (declaredSpecs env ?t)" using q by (metis imageI)
    ultimately show ?thesis by simp
  qed
  have "entityStateEqual env (cells m'') ?t (tr_original r) (tr_work r) \<longleftrightarrow> (\<forall>i < length ?fs. fieldStateEqual env sb (cells m'') ?t (tr_original r) (tr_work r) i)"
    by (auto simp: entityStateEqual_def sb(1) list_all_iff)
  also have "\<dots> \<longleftrightarrow> (\<forall>f \<in> set ?fs. rf_name f \<notin> fieldName ` set (declaredSpecs env ?t) \<longrightarrow> scalars (cells m'' (tr_work r)) (rf_name f) = scalars (cells m a) (rf_name f))"
    using field by (auto simp: all_set_conv_all_nth)
  also have "\<dots> \<longleftrightarrow> (\<forall>n \<in> plainFields env ?t. scalars (cells m'' (tr_work r)) n = scalars (cells m a) n)"
    by (auto simp: plainFields_def)
  finally show ?thesis by (auto simp: editedCopy_def)
qed

lemma edits_merged:
  assumes d: "detachedBranch env live m m' rs" and ok: "liveOk env live m" and e: "editedMemory rs m' m''"
    and s: "\<forall>r \<in> set rs. relationSpecs env (tr_dbName r) = Inr (declaredSpecs env (tr_dbName r)) \<and> namedFields env (tr_dbName r)"
    and low: "\<forall>k a ver. live k = Some (a, ver) \<longrightarrow> a < brk m"
    and g: "resourcesChangeRelationGraph env types hasRelations (cells m'') (changedCopies env (cells m'') rs) = Inr False"
  shows "\<exists>live' m3. commitBranch env types hasRelations live m'' rs = Inr (Some (live', m3)) \<and>
    (\<forall>r \<in> set rs. \<forall>a ver. live (copyKey r) = Some (a, ver) \<longrightarrow>
       (if \<exists>n \<in> plainFields env (tr_dbName r). scalars (cells m'' (tr_work r)) n \<noteq> scalars (cells m a) n
        then live' (copyKey r) = Some (a, ver + 1) \<and> cells m3 a = cells m'' (tr_work r)
        else live' (copyKey r) = Some (a, ver) \<and> cells m3 a = cells m a)) \<and>
    (\<forall>k a ver. k \<notin> copyKey ` set rs \<and> live k = Some (a, ver) \<longrightarrow> live' k = Some (a, ver) \<and> cells m3 a = cells m a) \<and>
    (\<forall>x. (\<forall>k. addressOf live k \<noteq> Some x) \<longrightarrow> cells m3 x = cells m'' x) \<and> brk m3 = brk m''"
proof -
  let ?touched = "filter (editedCopy env (cells m'')) rs"
  have D: "distinct (map copyKey rs)" "set (copyAddrs rs) \<subseteq> {brk m ..< brk m'}" "\<forall>x < brk m. cells m' x = cells m x"
    "\<forall>r \<in> set rs. \<exists>a. live (copyKey r) = Some (a, tr_ver r)" using d unfolding detachedBranch_def by metis+
  have high: "brk m \<le> tr_work r" if "r \<in> set rs" for r using copyAddrs_in[OF that] D(2) by auto
  have old: "cells m'' x = cells m x" if "x < brk m" for x
  proof -
    have "x \<notin> tr_work ` set rs" using high that by (metis imageE not_less)
    then show ?thesis using that e D(3) by (simp add: editedMemory_def)
  qed
  have none: "\<not> list_ex (staleCopy live) ?touched" using D(4) by (fastforce simp: staleCopy_def list_ex_iff)
  obtain live' m3 where st: "foldl writeCopy (live, m'') ?touched = (live', m3)" by fastforce
  have inj: "addressOf live j = addressOf live k \<Longrightarrow> live j \<noteq> None \<Longrightarrow> j = k" for j k using ok unfolding liveOk_def by blast
  have t1: "distinct (map copyKey ?touched)" using D(1) by (rule distinct_map_filter)
  have t2: "\<forall>r \<in> set ?touched. live (copyKey r) \<noteq> None" using D(4) by fastforce
  have t3: "\<forall>r \<in> set ?touched. \<forall>q \<in> set ?touched. copyKey r \<noteq> copyKey q \<longrightarrow> addressOf live (copyKey r) \<noteq> addressOf live (copyKey q)"
    using inj t2 by blast
  have t4: "\<forall>r \<in> set ?touched. \<forall>q \<in> set ?touched. addressOf live (copyKey r) \<noteq> Some (tr_work q)"
  proof (intro ballI notI)
    fix r q assume "r \<in> set ?touched" "q \<in> set ?touched" "addressOf live (copyKey r) = Some (tr_work q)"
    then show False using low high[of q] by (auto simp: addressOf_def) (metis not_less)
  qed
  note W = write_copies[OF t1 t2 t3 t4 st]
  have key: "r = q" if "r \<in> set rs" "q \<in> set rs" "copyKey r = copyKey q" for r q
    using D(1) that by (auto simp: distinct_map inj_on_def)
  have untouched: "live' k = Some (a, ver) \<and> cells m3 a = cells m a" if k: "live k = Some (a, ver)" "\<forall>r \<in> set ?touched. copyKey r \<noteq> k" for k a ver
  proof -
    have "k \<notin> copyKey ` set ?touched" using k(2) by blast
    then have "live' k = live k" using W by blast
    moreover have "\<forall>r \<in> set ?touched. addressOf live (copyKey r) \<noteq> Some a"
    proof (intro ballI notI)
      fix r assume "r \<in> set ?touched" "addressOf live (copyKey r) = Some a"
      moreover have "addressOf live k = Some a" using k(1) by (simp add: addressOf_def)
      ultimately have "k = copyKey r" using inj[of k "copyKey r"] k(1) by simp
      then show False using k(2) \<open>r \<in> set ?touched\<close> by blast
    qed
    then have "cells m3 a = cells m'' a" using W by blast
    ultimately show ?thesis using k(1) old low by metis
  qed
  have written: "if \<exists>n \<in> plainFields env (tr_dbName r). scalars (cells m'' (tr_work r)) n \<noteq> scalars (cells m a) n
        then live' (copyKey r) = Some (a, ver + 1) \<and> cells m3 a = cells m'' (tr_work r)
        else live' (copyKey r) = Some (a, ver) \<and> cells m3 a = cells m a"
    if r: "r \<in> set rs" "live (copyKey r) = Some (a, ver)" for r a ver
  proof -
    have edited: "editedCopy env (cells m'') r \<longleftrightarrow> (\<exists>n \<in> plainFields env (tr_dbName r). scalars (cells m'' (tr_work r)) n \<noteq> scalars (cells m a) n)"
      using edited_copy[OF d ok e r] s r(1) by blast
    show ?thesis
    proof (cases "editedCopy env (cells m'') r")
      case True
      then show ?thesis using W r edited by simp
    next
      case False
      then have "\<forall>q \<in> set ?touched. copyKey q \<noteq> copyKey r" using key r(1) by auto
      then show ?thesis using untouched[OF r(2)] False edited by simp
    qed
  qed
  have other: "live' k = Some (a, ver) \<and> cells m3 a = cells m a" if "k \<notin> copyKey ` set rs" "live k = Some (a, ver)" for k a ver
    by (rule untouched[OF that(2)]) (use that(1) in auto)
  have "commitBranch env types hasRelations live m'' rs = Inr (Some (live', m3))"
  proof (cases "?touched = []")
    case True
    then show ?thesis using st by (simp add: commitBranch_def changed_filter)
  next
    case False
    then show ?thesis using g none st by (simp add: commitBranch_def changed_filter)
  qed
  moreover have "\<forall>x. (\<forall>k. addressOf live k \<noteq> Some x) \<longrightarrow> cells m3 x = cells m'' x" "brk m3 = brk m''" using W by blast+
  ultimately show ?thesis using written other by blast
qed

text \<open>
  C37. Edits of a branch are merged into the live rows. After any edits of plain fields of working
  copies, a commit that finds the relation graph unchanged succeeds; it replaces exactly the rows
  whose copies have a plain field that differs from the live row, raises the version of exactly
  these rows by one, and leaves every other row and its version alone.
\<close>

theorem branch_edits_are_merged:
  assumes d: "detachedBranch env live m m' rs" and ok: "liveOk env live m" and e: "editedMemory rs m' m''"
    and s: "\<forall>r \<in> set rs. relationSpecs env (tr_dbName r) = Inr (declaredSpecs env (tr_dbName r)) \<and> namedFields env (tr_dbName r)"
    and low: "\<forall>k a ver. live k = Some (a, ver) \<longrightarrow> a < brk m"
    and g: "resourcesChangeRelationGraph env types hasRelations (cells m'') (changedCopies env (cells m'') rs) = Inr False"
  shows "\<exists>live' m3. commitBranch env types hasRelations live m'' rs = Inr (Some (live', m3)) \<and>
    (\<forall>r \<in> set rs. \<forall>a ver. live (copyKey r) = Some (a, ver) \<longrightarrow>
       (if \<exists>n \<in> plainFields env (tr_dbName r). scalars (cells m'' (tr_work r)) n \<noteq> scalars (cells m a) n
        then live' (copyKey r) = Some (a, ver + 1) \<and> cells m3 a = cells m'' (tr_work r)
        else live' (copyKey r) = Some (a, ver) \<and> cells m3 a = cells m a)) \<and>
    (\<forall>k a ver. k \<notin> copyKey ` set rs \<and> live k = Some (a, ver) \<longrightarrow> live' k = Some (a, ver) \<and> cells m3 a = cells m a)"
  using edits_merged[OF assms] by blast

section \<open>A commit of one edited field\<close>

definition editScalar :: "nat \<Rightarrow> string \<Rightarrow> scalar \<Rightarrow> memory \<Rightarrow> memory" where
  "editScalar x n v m = m\<lparr>cells := (cells m)(x := setScalar n v (cells m x))\<rparr>"

lemma edited_scalar: "r \<in> set rs \<Longrightarrow> editedMemory rs m (editScalar (tr_work r) n v m)"
  by (auto simp: editedMemory_def editScalar_def setScalar_def)

text \<open>Match fields are not scalars with this name.\<close>

definition avoidsField :: "typeEnv \<Rightarrow> (string \<times> nat) list \<Rightarrow> string \<Rightarrow> string \<Rightarrow> bool" where
  "avoidsField env ms t n \<longleftrightarrow>
     (\<forall>q \<in> set ms. fst q = t \<longrightarrow> (\<exists>u. rf_type (structFields env t ! snd q) = ScalarType u) \<and> rf_name (structFields env t ! snd q) \<noteq> n)"

lemma works_differ:
  assumes "distinct (copyAddrs rs)" "r \<in> set rs" "q \<in> set rs"
  shows "q \<noteq> r \<Longrightarrow> tr_work q \<noteq> tr_work r" "tr_original q \<noteq> tr_work r"
proof -
  obtain i where i: "i < length rs" "rs ! i = r" using assms(2) by (auto simp: in_set_conv_nth)
  obtain j where j: "j < length rs" "rs ! j = q" using assms(3) by (auto simp: in_set_conv_nth)
  have "2 * j + 1 \<noteq> 2 * i" by presburger
  then show "tr_original q \<noteq> tr_work r"
    using i j copyAddrs_nth[of i rs] copyAddrs_nth[of j rs] assms(1) nth_eq_iff_index_eq[of "copyAddrs rs" "2 * j + 1" "2 * i"] by auto
  assume "q \<noteq> r"
  then have "2 * j \<noteq> 2 * i" using i j by auto
  then show "tr_work q \<noteq> tr_work r"
    using i j copyAddrs_nth[of i rs] copyAddrs_nth[of j rs] assms(1) nth_eq_iff_index_eq[of "copyAddrs rs" "2 * j" "2 * i"] by auto
qed

lemma edited_scalars:
  assumes d: "detachedBranch env live m m' rs" and r: "r \<in> set rs" and q: "q \<in> set rs" "live (copyKey q) = Some (b, w)"
  shows "scalars (cells (editScalar (tr_work r) n v m') (tr_work q)) = (if q = r then (scalars (cells m b))(n \<mapsto> v) else scalars (cells m b))"
    "scalars (cells (editScalar (tr_work r) n v m') (tr_original q)) = scalars (cells m b)"
proof -
  have D: "distinct (copyAddrs rs)" using d unfolding detachedBranch_def by metis
  obtain c where c: "live (copyKey q) = Some (c, tr_ver q)"
    "cells m' (tr_work q) = copyEntity (declaredSpecs env (tr_dbName q)) (\<lambda>s. copyOf (cells m) rs False (target s)) (cells m c)"
    "cells m' (tr_original q) = copyEntity (declaredSpecs env (tr_dbName q)) (\<lambda>s. copyOf (cells m) rs True (target s)) (cells m c)"
    using d q(1) unfolding detachedBranch_def by metis
  then show "scalars (cells (editScalar (tr_work r) n v m') (tr_work q)) = (if q = r then (scalars (cells m b))(n \<mapsto> v) else scalars (cells m b))"
    "scalars (cells (editScalar (tr_work r) n v m') (tr_original q)) = scalars (cells m b)"
    using q(2) works_differ[OF D r q(1)] by (auto simp: editScalar_def setScalar_def)
qed

lemma one_edit_keeps_graph:
  assumes d: "detachedBranch env live m m' rs" and ok: "liveOk env live m"
    and s: "\<forall>r \<in> set rs. relationSpecs env (tr_dbName r) = Inr (declaredSpecs env (tr_dbName r)) \<and> namedFields env (tr_dbName r)"
    and r: "r \<in> set rs" "live (copyKey r) = Some (a, ver)" and n: "n \<in> plainFields env (tr_dbName r)" "scalars (cells m a) n \<noteq> Some v"
    and ms: "registeredRelationMatchFields env types = Inr ms" "avoidsField env ms (tr_dbName r) n"
  defines "m'' \<equiv> editScalar (tr_work r) n v m'"
  shows "resourcesChangeRelationGraph env types True (cells m'') (changedCopies env (cells m'') rs) = Inr False"
proof -
  have e: "editedMemory rs m' m''" unfolding m''_def by (rule edited_scalar[OF r(1)])
  note scal = edited_scalars[OF d r(1), of _ _ _ n v, folded m''_def]
  have edited: "editedCopy env (cells m'') q \<longleftrightarrow> q = r" if q: "q \<in> set rs" for q
  proof -
    obtain b w where b: "live (copyKey q) = Some (b, w)" using d q unfolding detachedBranch_def by metis
    have "editedCopy env (cells m'') q \<longleftrightarrow> (\<exists>n \<in> plainFields env (tr_dbName q). scalars (cells m'' (tr_work q)) n \<noteq> scalars (cells m b) n)"
      using edited_copy[OF d ok e q b] s q by blast
    then show ?thesis using scal(1)[OF q b] n r(2) b by (cases "q = r") auto
  qed
  have touched: "changedCopies env (cells m'') rs = [r]"
  proof -
    have "filter (editedCopy env (cells m'')) rs = filter (\<lambda>q. q = r) rs" using edited by (auto intro: filter_cong)
    moreover have "distinct rs" using d by (simp add: detachedBranch_def distinct_map)
    then have "filter (\<lambda>q. q = r) rs = [r]" using r(1) by (induction rs) (auto simp: filter_empty_conv)
    ultimately show ?thesis by (simp add: changed_filter)
  qed
  have same: "getId (cells m'' (tr_original r)) = getId (cells m'' (tr_work r))"
    using copies_ids[OF d ok r(1)] e by (simp add: editedMemory_def)
  have "relationFieldEqual env (cells m'') (tr_dbName r) (snd q) (tr_original r) (tr_work r)" if "q \<in> set ms" "fst q = tr_dbName r" for q
    using ms(2) that scal[OF r] by (auto simp: avoidsField_def relationFieldEqual_def Let_def)
  then have "resourcesChangeRelationGraph env types True (cells m'') [r] = Inr False"
    using same s r(1) relations_of_copies[OF d ok e r(1)] ms(1) by (auto simp: list_ex_iff)
  then show ?thesis by (simp add: touched)
qed

lemma one_edit:
  assumes d: "detachedBranch env live m m' rs" and ok: "liveOk env live m"
    and s: "\<forall>r \<in> set rs. relationSpecs env (tr_dbName r) = Inr (declaredSpecs env (tr_dbName r)) \<and> namedFields env (tr_dbName r)"
    and low: "\<forall>k a ver. live k = Some (a, ver) \<longrightarrow> a < brk m"
    and r: "r \<in> set rs" "live (copyKey r) = Some (a, ver)" and n: "n \<in> plainFields env (tr_dbName r)" "scalars (cells m a) n \<noteq> Some v"
    and ms: "registeredRelationMatchFields env types = Inr ms" "avoidsField env ms (tr_dbName r) n"
  defines "m'' \<equiv> editScalar (tr_work r) n v m'"
  shows "\<exists>live' m3. commitBranch env types True live m'' rs = Inr (Some (live', m3)) \<and>
    live' (copyKey r) = Some (a, ver + 1) \<and> cells m3 a = cells m'' (tr_work r) \<and>
    (\<forall>k b w. k \<noteq> copyKey r \<and> live k = Some (b, w) \<longrightarrow> live' k = Some (b, w) \<and> cells m3 b = cells m b) \<and>
    (\<forall>x. (\<forall>k. addressOf live k \<noteq> Some x) \<longrightarrow> cells m3 x = cells m'' x) \<and> brk m3 = brk m'"
proof -
  have e: "editedMemory rs m' m''" unfolding m''_def by (rule edited_scalar[OF r(1)])
  note scal = edited_scalars(1)[OF d r(1), of _ _ _ n v, folded m''_def]
  note g = one_edit_keeps_graph[OF d ok s r n ms, folded m''_def]
  obtain live' m3 where R: "commitBranch env types True live m'' rs = Inr (Some (live', m3))"
    "\<forall>r \<in> set rs. \<forall>a ver. live (copyKey r) = Some (a, ver) \<longrightarrow>
       (if \<exists>n \<in> plainFields env (tr_dbName r). scalars (cells m'' (tr_work r)) n \<noteq> scalars (cells m a) n
        then live' (copyKey r) = Some (a, ver + 1) \<and> cells m3 a = cells m'' (tr_work r)
        else live' (copyKey r) = Some (a, ver) \<and> cells m3 a = cells m a)"
    "\<forall>k a ver. k \<notin> copyKey ` set rs \<and> live k = Some (a, ver) \<longrightarrow> live' k = Some (a, ver) \<and> cells m3 a = cells m a"
    "\<forall>x. (\<forall>k. addressOf live k \<noteq> Some x) \<longrightarrow> cells m3 x = cells m'' x" "brk m3 = brk m''"
    using edits_merged[OF d ok e s low g] by blast
  have "live' k = Some (b, w) \<and> cells m3 b = cells m b" if k: "k \<noteq> copyKey r" "live k = Some (b, w)" for k b w
  proof (cases "k \<in> copyKey ` set rs")
    case True
    then obtain q where q: "q \<in> set rs" "copyKey q = k" by blast
    then have "q \<noteq> r" using k(1) by blast
    then show ?thesis using R(2)[rule_format, OF q(1), of b w] q(2) k(2) scal[OF q(1), of b w] by simp
  qed (use R(3) k(2) in blast)
  moreover have "live' (copyKey r) = Some (a, ver + 1) \<and> cells m3 a = cells m'' (tr_work r)"
  proof -
    have "\<exists>n \<in> plainFields env (tr_dbName r). scalars (cells m'' (tr_work r)) n \<noteq> scalars (cells m a) n" using n scal[OF r] by auto
    then show ?thesis using R(2)[rule_format, OF r] by (simp only: if_True)
  qed
  moreover have "brk m'' = brk m'" by (simp add: m''_def editScalar_def)
  ultimately show ?thesis using R by metis
qed

end
