(* ===== verification/Branch_Examples.thy ===== *)
theory Branch_Examples
  imports Branch_Commits
begin

text \<open>
  One order with one item that names it by a plain key: the theorems on detached branches applied to
  it, and two sequences of calls after which an edit is lost or a live row points to copies.
\<close>

section \<open>An order with a plain back key\<close>

definition billTypes :: typeEnv where
  "billTypes = \<lparr>structs =
     [(''Order'', [\<lparr>rf_name = ''Id'', rf_type = ScalarType ''int'', rf_tag = None\<rparr>,
        \<lparr>rf_name = ''Total'', rf_type = ScalarType ''int'', rf_tag = None\<rparr>,
        \<lparr>rf_name = ''Items'', rf_type = SliceType (PointerType (StructType ''Item'')), rf_tag = Some ''own,OrderId''\<rparr>]),
      (''Item'', [\<lparr>rf_name = ''Id'', rf_type = ScalarType ''int'', rf_tag = None\<rparr>,
        \<lparr>rf_name = ''OrderId'', rf_type = ScalarType ''int'', rf_tag = None\<rparr>,
        \<lparr>rf_name = ''Count'', rf_type = ScalarType ''int'', rf_tag = None\<rparr>])],
     entityTypes = [''Order'', ''Item'']\<rparr>"

abbreviation "billOrder \<equiv> NodeKey ''Order'' 1"
abbreviation "billItem \<equiv> NodeKey ''Item'' 5"

definition billSpec :: relationSpec where
  "billSpec = \<lparr>owner = ''Order'', fieldIndex = 2, fieldName = ''Items'', target = ''Item'', kind = OwnRelation, matchField = ''OrderId'', many = True\<rparr>"

definition billMemory :: memory where
  "billMemory = \<lparr>cells = (\<lambda>a.
     if a = 1 then \<lparr>getId = 1, scalars = [''Id'' \<mapsto> IntValue ''int'' 1, ''Total'' \<mapsto> IntValue ''int'' 10],
       pointers = (\<lambda>i. if i = 2 then Slice [Some 2] else Pointer None)\<rparr>
     else \<lparr>getId = 5, scalars = [''Id'' \<mapsto> IntValue ''int'' 5, ''OrderId'' \<mapsto> IntValue ''int'' 1, ''Count'' \<mapsto> IntValue ''int'' 3],
       pointers = (\<lambda>i. Pointer None)\<rparr>), brk = 3\<rparr>"

definition billLive :: liveRows where
  "billLive = [billOrder \<mapsto> (1, 0), billItem \<mapsto> (2, 0)]"

definition billOwnership :: "nat committedOwnership" where
  "billOwnership = \<lparr>co_ready = True, co_outgoing = [(billOrder, [billItem])], co_branches = (\<lambda>_. None), co_graph = None, co_index = None\<rparr>"

lemma bill_specs: "relationSpecs billTypes ''Order'' = Inr [billSpec]" "relationSpecs billTypes ''Item'' = Inr []"
  by (simp_all add: relationSpecs_def billTypes_def parseRelationField_def structFields_def upt_rec isEntityType_def
      TrimSpace_def isSpace_def parseKind_def Let_def billSpec_def)

lemma bill_declared: "declaredSpecs billTypes ''Order'' = [billSpec]" "declaredSpecs billTypes ''Item'' = []"
  by (simp_all add: declaredSpecs_def bill_specs)

lemma bill_named: "namedFields billTypes ''Order''" "namedFields billTypes ''Item''"
  by (simp_all add: namedFields_def structFields_def billTypes_def)

lemma bill_edges: "outEdges [(billOrder, [billItem])] = {(billOrder, billItem)}"
  by (auto simp: outEdges_def childList_def split: if_splits)

lemma bill_branch: "{(billOrder, billItem)}\<^sup>* `` {billOrder} = {billOrder, billItem}" "{(billOrder, billItem)}\<^sup>* `` {billItem} = {billItem}"
proof -
  have "{(billOrder, billItem)}\<^sup>* = Id \<union> {(billOrder, billItem)}"
  proof
    show "{(billOrder, billItem)}\<^sup>* \<subseteq> Id \<union> {(billOrder, billItem)}"
    proof
      fix p assume "p \<in> {(billOrder, billItem)}\<^sup>*"
      then obtain a b where "p = (a, b)" "(a, b) \<in> {(billOrder, billItem)}\<^sup>*" by (cases p) auto
      then show "p \<in> Id \<union> {(billOrder, billItem)}" by (auto elim: converse_rtranclE rtranclE)
    qed
  qed auto
  then show "{(billOrder, billItem)}\<^sup>* `` {billOrder} = {billOrder, billItem}" "{(billOrder, billItem)}\<^sup>* `` {billItem} = {billItem}" by auto
qed

lemma bill_forest: "forest (co_outgoing billOwnership)"
proof -
  have "acyclic {(billOrder, billItem)}"
    unfolding acyclic_def
  proof (intro allI notI)
    fix x assume "(x, x) \<in> {(billOrder, billItem)}\<^sup>+"
    then show False by (auto elim: tranclE converse_tranclE)
  qed
  then show ?thesis by (simp add: forest_def billOwnership_def bill_edges single_valued_def childList_def)
qed

lemma bill_closed: "closedMemory billMemory"
  by (auto simp: closedMemory_def billMemory_def)

lemma bill_live: "liveOk billTypes billLive billMemory"
proof -
  have "getId (cells billMemory a) = nk_id k \<and> rowShape (declaredSpecs billTypes (nk_type k)) (cells billMemory a)" if "billLive k = Some (a, ver)" for k a ver
    using that by (auto simp: billLive_def billMemory_def bill_declared rowShape_def billSpec_def split: if_splits)
  moreover have "j = k" if "billLive j \<noteq> None" "addressOf billLive j = addressOf billLive k" for j k
    using that by (auto simp: billLive_def addressOf_def split: if_splits)
  ultimately show ?thesis unfolding liveOk_def by blast
qed

text \<open>The branch of the order, loaded.\<close>

lemma bill_loaded:
  assumes "co_outgoing co = co_outgoing billOwnership" "branches_ok (co_outgoing co) (co_branches co)" "closedMemory m"
    and "\<exists>v. live billOrder = Some (1, v)" "\<exists>v. live billItem = Some (2, v)" "2 < brk m"
  shows "\<exists>m' rs ro ri co'. cloneOwnershipAggregate billTypes live m co billOrder = Some (Inr (m', tr_work ro, rs), co') \<and>
    set rs = {ro, ri} \<and> copyKey ro = billOrder \<and> copyKey ri = billItem \<and> detachedBranch billTypes live m m' rs"
proof -
  have b: "(outEdges (co_outgoing co))\<^sup>* `` {billOrder} = {billOrder, billItem}" unfolding assms(1) by (simp add: billOwnership_def bill_edges bill_branch)
  have f: "forest (co_outgoing co)" using assms(1) bill_forest by simp
  have "\<forall>k \<in> (outEdges (co_outgoing co))\<^sup>* `` {billOrder}. (\<exists>a ver. live k = Some (a, ver) \<and> a < brk m) \<and>
      relationSpecs billTypes (nk_type k) = Inr (declaredSpecs billTypes (nk_type k))"
    unfolding b using assms(4-6) by (auto simp: bill_specs bill_declared)
  from cloned_branch[OF f assms(2,3) this] obtain m' w rs co' where R: "cloneOwnershipAggregate billTypes live m co billOrder = Some (Inr (m', w, rs), co')"
    "copyKey ` set rs = {billOrder, billItem}" "\<exists>r \<in> set rs. copyKey r = billOrder \<and> tr_work r = w" "detachedBranch billTypes live m m' rs"
    unfolding b by (elim exE conjE) (rule that; assumption)
  obtain ro where ro: "ro \<in> set rs" "copyKey ro = billOrder" "tr_work ro = w" using R(3) by blast
  have "billItem \<in> copyKey ` set rs" using R(2) by simp
  then obtain ri where ri: "ri \<in> set rs" "copyKey ri = billItem" by (metis imageE)
  have inj: "inj_on copyKey (set rs)" using R(4) by (simp add: detachedBranch_def distinct_map)
  have "set rs = {ro, ri}"
  proof
    show "set rs \<subseteq> {ro, ri}"
    proof
      fix r assume r: "r \<in> set rs"
      then have "copyKey r = billOrder \<or> copyKey r = billItem" using R(2) by auto
      then show "r \<in> {ro, ri}" using inj r ro ri by (metis inj_onD insert_iff)
    qed
  qed (use ro ri in auto)
  moreover have "cloneOwnershipAggregate billTypes live m co billOrder = Some (Inr (m', tr_work ro, rs), co')" using R(1) ro(3) by simp
  ultimately show ?thesis using ro(2) ri(2) R(4) by (intro exI conjI)
qed

lemma bill_found:
  assumes "set rs = {ro, ri}" "copyKey ro = billOrder" "copyKey ri = billItem"
  shows "find (\<lambda>r. copyKey r = billItem) rs = Some ri"
proof -
  have "find (\<lambda>r. copyKey r = billItem) rs \<noteq> None" using assms by (auto simp: find_None_iff)
  then obtain r where r: "find (\<lambda>r. copyKey r = billItem) rs = Some r" by blast
  then have "r \<in> set rs" "copyKey r = billItem" by (auto simp: find_Some_iff)
  then show ?thesis using assms r by auto
qed

text \<open>The working copy of the order leads to the working copy of the item.\<close>

lemma bill_copies:
  assumes d: "detachedBranch billTypes live m m' rs" and rs: "set rs = {ro, ri}" "copyKey ro = billOrder" "copyKey ri = billItem"
    and live: "live billOrder = Some (1, v)" "cells m 1 = cells billMemory 1" "getId (cells m 2) = 5"
  shows "pointers (cells m' (tr_work ro)) 2 = Slice [Some (tr_work ri)]"
proof -
  have "ro \<in> set rs" using rs by simp
  then obtain a where a: "live (copyKey ro) = Some (a, tr_ver ro)"
    "cells m' (tr_work ro) = copyEntity (declaredSpecs billTypes (tr_dbName ro)) (\<lambda>s. copyOf (cells m) rs False (target s)) (cells m a)"
    using d unfolding detachedBranch_def by metis
  have "tr_dbName ro = ''Order''" using rs(2) by (simp add: copyKey_def)
  moreover have "a = 1" using a(1) live(1) rs(2) by simp
  moreover have "copyOf (cells m) rs False ''Item'' (Some 2) = Some (tr_work ri)" using bill_found[OF rs] live(3) by (simp add: copyOf_def)
  ultimately show ?thesis using a(2) live(2)
    by (simp add: bill_declared copyEntity_def billSpec_def mapPointers_def billMemory_def)
qed

theorem detached_branch_is_isolated_witness:
  "\<exists>m' w rs co'. cloneOwnershipAggregate billTypes billLive billMemory billOwnership billOrder = Some (Inr (m', w, rs), co') \<and>
     copyKey ` set rs = {billOrder, billItem} \<and> detachedBranch billTypes billLive billMemory m' rs"
proof -
  have b: "(outEdges (co_outgoing billOwnership))\<^sup>* `` {billOrder} = {billOrder, billItem}" by (simp add: billOwnership_def bill_edges bill_branch)
  have "branches_ok (co_outgoing billOwnership) (co_branches billOwnership)" by (simp add: branches_ok_def billOwnership_def)
  moreover have "\<forall>k \<in> (outEdges (co_outgoing billOwnership))\<^sup>* `` {billOrder}. (\<exists>a ver. billLive k = Some (a, ver) \<and> a < brk billMemory) \<and>
      relationSpecs billTypes (nk_type k) = Inr (declaredSpecs billTypes (nk_type k))"
    unfolding b by (auto simp: bill_specs bill_declared billLive_def billMemory_def)
  ultimately obtain m' w rs co' where "cloneOwnershipAggregate billTypes billLive billMemory billOwnership billOrder = Some (Inr (m', w, rs), co')"
    "copyKey ` set rs = {billOrder, billItem}" "detachedBranch billTypes billLive billMemory m' rs"
    using detached_branch_is_isolated[OF bill_forest _ bill_closed, of billOrder billLive billTypes] unfolding b
    by (elim meta_impE exE conjE) (assumption | rule that; assumption)+
  then show ?thesis by (intro exI conjI)
qed

section \<open>A committed row that points to copies\<close>

lemma bill_fields:
  "FieldByName billTypes ''Order'' entityIDField = Some (0, \<lparr>rf_name = ''Id'', rf_type = ScalarType ''int'', rf_tag = None\<rparr>)"
  "FieldByName billTypes ''Item'' entityIDField = Some (0, \<lparr>rf_name = ''Id'', rf_type = ScalarType ''int'', rf_tag = None\<rparr>)"
  "FieldByName billTypes ''Item'' ''OrderId'' = Some (1, \<lparr>rf_name = ''OrderId'', rf_type = ScalarType ''int'', rf_tag = None\<rparr>)"
  by (simp_all add: FieldByName_def structFields_def billTypes_def entityIDField_def)

lemma bill_match_fields:
  "registeredRelationMatchFields billTypes [''Order'', ''Item''] = Inr [(''Item'', 0), (''Item'', 1), (''Order'', 0)]"
  by (simp add: registeredRelationMatchFields_def bill_specs billSpec_def bill_fields)

lemma bill_avoids: "avoidsField billTypes [(''Item'', 0), (''Item'', 1), (''Order'', 0)] ''Order'' ''Total''"
  by (simp add: avoidsField_def structFields_def billTypes_def)

lemma bill_plain: "plainFields billTypes ''Order'' = {''Id'', ''Total''}"
proof -
  have "rf_name ` set (structFields billTypes ''Order'') = {''Id'', ''Total'', ''Items''}" by (simp add: structFields_def billTypes_def)
  then show ?thesis unfolding plainFields_def bill_declared by (auto simp: billSpec_def)
qed

lemma bill_start: "branches_ok (co_outgoing billOwnership) (co_branches billOwnership)" "\<exists>v. billLive billOrder = Some (1, v)"
  "\<exists>v. billLive billItem = Some (2, v)" "2 < brk billMemory" "\<forall>k a ver. billLive k = Some (a, ver) \<longrightarrow> a < brk billMemory"
  by (auto simp: branches_ok_def billOwnership_def billLive_def billMemory_def)

lemma bill_types:
  "set rs = {ro, ri} \<Longrightarrow> copyKey ro = billOrder \<Longrightarrow> copyKey ri = billItem \<Longrightarrow>
   \<forall>r \<in> set rs. relationSpecs billTypes (tr_dbName r) = Inr (declaredSpecs billTypes (tr_dbName r)) \<and> namedFields billTypes (tr_dbName r)"
  by (auto simp: copyKey_def bill_specs bill_declared bill_named)

text \<open>
  C38. A committed row points to copies. An order is loaded with its item, its total is changed and
  committed. The commit finds the graph unchanged and writes the whole struct back, with the
  pointers that were rewired to copies, and nothing rewires it: from then on the live order leads
  to the item copy that the caller holds, not to the live item, which still exists.
\<close>

theorem committed_order_points_to_a_copy:
  "\<exists>m1 w rs co' live2 m2 ri.
     cloneOwnershipAggregate billTypes billLive billMemory billOwnership billOrder = Some (Inr (m1, w, rs), co') \<and>
     commitBranch billTypes [''Order'', ''Item''] True billLive (editScalar w ''Total'' (IntValue ''int'' 20) m1) rs = Inr (Some (live2, m2)) \<and>
     live2 billOrder = Some (1, 1) \<and> scalars (cells m2 1) ''Total'' = Some (IntValue ''int'' 20) \<and>
     live2 billItem = Some (2, 0) \<and> cells m2 2 = cells billMemory 2 \<and>
     ri \<in> set rs \<and> copyKey ri = billItem \<and> tr_work ri \<noteq> 2 \<and> pointers (cells billMemory 1) 2 = Slice [Some 2] \<and>
     pointers (cells m2 1) 2 = Slice [Some (tr_work ri)]"
proof -
  obtain m1 rs ro ri co' where L: "cloneOwnershipAggregate billTypes billLive billMemory billOwnership billOrder = Some (Inr (m1, tr_work ro, rs), co')"
    "set rs = {ro, ri}" "copyKey ro = billOrder" "copyKey ri = billItem" "detachedBranch billTypes billLive billMemory m1 rs"
    using bill_loaded[OF refl bill_start(1) bill_closed bill_start(2-4)] by (elim exE conjE) (rule that; assumption)
  let ?e = "editScalar (tr_work ro) ''Total'' (IntValue ''int'' 20) m1"
  have ro: "ro \<in> set rs" "tr_dbName ro = ''Order''" using L by (simp_all add: copyKey_def)
  have live: "billLive (copyKey ro) = Some (1, 0)" using L(3) by (simp add: billLive_def)
  have plain: "''Total'' \<in> plainFields billTypes (tr_dbName ro)" by (simp add: ro bill_plain)
  have diff: "scalars (cells billMemory 1) ''Total'' \<noteq> Some (IntValue ''int'' 20)" by (simp add: billMemory_def)
  have av: "avoidsField billTypes [(''Item'', 0), (''Item'', 1), (''Order'', 0)] (tr_dbName ro) ''Total''" unfolding ro(2) by (rule bill_avoids)
  obtain live2 m2 where C: "commitBranch billTypes [''Order'', ''Item''] True billLive ?e rs = Inr (Some (live2, m2))"
    "live2 (copyKey ro) = Some (1, 0 + 1)" "cells m2 1 = cells ?e (tr_work ro)"
    "\<forall>k b w. k \<noteq> copyKey ro \<and> billLive k = Some (b, w) \<longrightarrow> live2 k = Some (b, w) \<and> cells m2 b = cells billMemory b"
    using one_edit[OF L(5) bill_live bill_types[OF L(2-4)] bill_start(5) ro(1) live plain diff bill_match_fields av] by (elim exE conjE) (rule that; assumption)
  have "live2 billItem = Some (2, 0) \<and> cells m2 2 = cells billMemory 2" using C(4)[rule_format, of billItem 2 0] L(3) by (simp add: billLive_def)
  moreover have "pointers (cells m1 (tr_work ro)) 2 = Slice [Some (tr_work ri)]"
    by (rule bill_copies[OF L(5) L(2-4)]) (simp_all add: billLive_def billMemory_def)
  then have "pointers (cells m2 1) 2 = Slice [Some (tr_work ri)]" unfolding C(3) by (simp add: editScalar_def setScalar_def)
  moreover have "tr_work ri \<noteq> 2"
  proof -
    have "tr_work ri \<in> set (copyAddrs rs)" using copyAddrs_in[of ri rs] L(2) by simp
    then show ?thesis using L(5) by (auto simp: detachedBranch_def billMemory_def)
  qed
  moreover have "scalars (cells m2 1) ''Total'' = Some (IntValue ''int'' 20)" unfolding C(3) by (simp add: editScalar_def setScalar_def)
  moreover have "pointers (cells billMemory 1) 2 = Slice [Some 2]" by (simp add: billMemory_def)
  moreover have "live2 billOrder = Some (1, 1)" "ri \<in> set rs" using C(2) L(2,3) by simp_all
  ultimately show ?thesis using L(1,4) C(1) by blast
qed

theorem branch_edits_are_merged_witness:
  "\<exists>m1 w rs live2 m2.
     commitBranch billTypes [''Order'', ''Item''] True billLive (editScalar w ''Total'' (IntValue ''int'' 20) m1) rs = Inr (Some (live2, m2)) \<and>
     live2 billOrder = Some (1, 1) \<and> scalars (cells m2 1) ''Total'' = Some (IntValue ''int'' 20)"
proof -
  obtain m1 rs ro ri co' where L: "cloneOwnershipAggregate billTypes billLive billMemory billOwnership billOrder = Some (Inr (m1, tr_work ro, rs), co')"
    "set rs = {ro, ri}" "copyKey ro = billOrder" "copyKey ri = billItem" "detachedBranch billTypes billLive billMemory m1 rs"
    using bill_loaded[OF refl bill_start(1) bill_closed bill_start(2-4)] by (elim exE conjE) (rule that; assumption)
  let ?e = "editScalar (tr_work ro) ''Total'' (IntValue ''int'' 20) m1"
  have ro: "ro \<in> set rs" "tr_dbName ro = ''Order''" using L by (simp_all add: copyKey_def)
  have live: "billLive (copyKey ro) = Some (1, 0)" using L(3) by (simp add: billLive_def)
  have plain: "''Total'' \<in> plainFields billTypes (tr_dbName ro)" by (simp add: ro bill_plain)
  have diff: "scalars (cells billMemory 1) ''Total'' \<noteq> Some (IntValue ''int'' 20)" by (simp add: billMemory_def)
  have av: "avoidsField billTypes [(''Item'', 0), (''Item'', 1), (''Order'', 0)] (tr_dbName ro) ''Total''" unfolding ro(2) by (rule bill_avoids)
  note g = one_edit_keeps_graph[OF L(5) bill_live bill_types[OF L(2-4)] ro(1) live plain diff bill_match_fields av]
  have sc: "scalars (cells ?e (tr_work ro)) ''Total'' = Some (IntValue ''int'' 20)" by (simp add: editScalar_def setScalar_def)
  obtain live2 m2 where C: "commitBranch billTypes [''Order'', ''Item''] True billLive ?e rs = Inr (Some (live2, m2))"
    "\<forall>r \<in> set rs. \<forall>a ver. billLive (copyKey r) = Some (a, ver) \<longrightarrow>
       (if \<exists>n \<in> plainFields billTypes (tr_dbName r). scalars (cells ?e (tr_work r)) n \<noteq> scalars (cells billMemory a) n
        then live2 (copyKey r) = Some (a, ver + 1) \<and> cells m2 a = cells ?e (tr_work r)
        else live2 (copyKey r) = Some (a, ver) \<and> cells m2 a = cells billMemory a)"
    using branch_edits_are_merged[OF L(5) bill_live edited_scalar[OF ro(1)] bill_types[OF L(2-4)] bill_start(5) g]
    by (elim exE conjE) (rule that; assumption)
  have "\<exists>n \<in> plainFields billTypes (tr_dbName ro). scalars (cells ?e (tr_work ro)) n \<noteq> scalars (cells billMemory 1) n"
    using plain diff sc by (metis)
  then have "live2 (copyKey ro) = Some (1, 0 + 1) \<and> cells m2 1 = cells ?e (tr_work ro)" using C(2)[rule_format, OF ro(1) live] by (simp only: if_True)
  then show ?thesis using C(1) L(3) sc by (intro exI[of _ m1] exI[of _ "tr_work ro"] exI[of _ rs] exI[of _ live2] exI[of _ m2]) simp
qed

section \<open>Two loads in one transaction\<close>

lemma bill_item_first:
  assumes "m1 = \<lparr>cells = (cells billMemory)(3 := cells billMemory 2, 4 := cells billMemory 2), brk = 5\<rparr>"
  shows "cloneOwnershipAggregate billTypes billLive billMemory billOwnership billItem =
      Some (Inr (m1, 3, [\<lparr>tr_dbName = ''Item'', tr_id = 5, tr_ver = 0, tr_work = 3, tr_original = 4\<rparr>]), billOwnership)"
    "closedMemory m1" "liveOk billTypes billLive m1"
proof -
  have "snapshotResource billLive billMemory billItem = Inr (m1, \<lparr>tr_dbName = ''Item'', tr_id = 5, tr_ver = 0, tr_work = 3, tr_original = 4\<rparr>)"
    by (simp add: snapshotResource_def newEntity_def Let_def billLive_def billMemory_def assms)
  moreover have "rewireSingleOwnershipResource billTypes h billItem r = Inr h" for h :: "nat heap" and r
    by (simp add: rewireSingleOwnershipResource_def bill_specs)
  ultimately show "cloneOwnershipAggregate billTypes billLive billMemory billOwnership billItem =
      Some (Inr (m1, 3, [\<lparr>tr_dbName = ''Item'', tr_id = 5, tr_ver = 0, tr_work = 3, tr_original = 4\<rparr>]), billOwnership)"
    by (simp add: cloneOwnershipAggregate_def cloneSingleOwnershipResource_def billOwnership_def childList_def)
  show "closedMemory m1" unfolding assms by (auto simp: closedMemory_def billMemory_def)
  have "cells m1 a = cells billMemory a" if "billLive k = Some (a, v)" for k a v
    using that by (auto simp: billLive_def assms split: if_splits)
  then show "liveOk billTypes billLive m1" using bill_live unfolding liveOk_def by metis
qed

text \<open>The second load keeps the item copy of the first one.\<close>

lemma bill_recorded:
  assumes "distinct (map copyKey rs)" "set rs = {ro, ri}" "copyKey ro = billOrder" "copyKey ri = billItem"
    and "txKey r = (''Item'', 5)" "tx = begin_tx\<lparr>tx_resource := Some r, tx_bindings := bs\<rparr>"
  shows "copyResources (recordResources tx rs) = [r, ro] \<and> resourcePos (recordResources tx rs) = None"
proof -
  have keys: "txKey ro = (''Order'', 1)" "txKey ri = (''Item'', 5)" using assms(3,4) by (simp_all add: copyKey_def txKey_def)
  have "ro \<noteq> ri" using assms(3,4) by auto
  then have "length rs = 2" using assms(1,2) distinct_card[of rs] by (simp add: distinct_map)
  then obtain a b where ab: "rs = [a, b]" by (auto simp: length_Suc_conv numeral_2_eq_2)
  then have "rs = [ro, ri] \<or> rs = [ri, ro]" using assms(1-4) by (auto simp: doubleton_eq_iff)
  then show ?thesis using keys assms(5,6)
    by (auto simp: recordResources_def recordOne_def begin_tx_def copyResources_def)
qed

lemma bill_found_first:
  "tx_resource tx = Some r \<Longrightarrow> resourcePos tx = None \<Longrightarrow> txKey r = (''Item'', 5) \<Longrightarrow> txWork tx ''Item'' 5 = Some (tr_work r)"
  by (simp add: txWork_def)

text \<open>
  C39. An edit through a second load is lost. A transaction loads an item and then the order that
  owns it; the order leads to a second copy of the item, which is not the one recorded for the
  transaction. A change of that copy is dropped: the commit succeeds and changes nothing.
\<close>

theorem edit_through_a_second_load_is_lost:
  "\<exists>m1 en1 w m2 en2 v co c.
     getInTransaction billTypes billLive billOwnership billMemory \<lparr>en_bind = (\<lambda>_. None), en_txs = [begin_tx]\<rparr> 0 billItem = Some (Inr (m1, en1, w), billOwnership) \<and>
     getInTransaction billTypes billLive billOwnership m1 en1 0 billOrder = Some (Inr (m2, en2, v), co) \<and>
     pointers (cells m2 v) 2 = Slice [Some c] \<and> getId (cells m2 c) = 5 \<and> c \<noteq> w \<and>
     txWork (en_txs en2 ! 0) ''Item'' 5 = Some w \<and>
     commitBranch billTypes [''Order'', ''Item''] True billLive (editScalar c ''Count'' (IntValue ''int'' 7) m2) (copyResources (en_txs en2 ! 0)) =
       Inr (Some (billLive, editScalar c ''Count'' (IntValue ''int'' 7) m2))"
proof -
  define m1 where "m1 = \<lparr>cells = (cells billMemory)(3 := cells billMemory 2, 4 := cells billMemory 2), brk = 5\<rparr>"
  note one = bill_item_first[OF m1_def]
  define r where "r = \<lparr>tr_dbName = ''Item'', tr_id = 5, tr_ver = 0, tr_work = 3::nat, tr_original = 4\<rparr>"
  define tx where "tx = begin_tx\<lparr>tx_resource := Some r, tx_bindings := [3]\<rparr>"
  define en1 where "en1 = \<lparr>en_bind = (\<lambda>_. None)(3 \<mapsto> 0), en_txs = [tx]\<rparr>"
  have r: "txKey r = (''Item'', 5)" "tr_work r = 3" "tr_original r = 4" "tr_dbName r = ''Item''" by (simp_all add: r_def txKey_def)
  have first: "getInTransaction billTypes billLive billOwnership billMemory \<lparr>en_bind = (\<lambda>_. None), en_txs = [begin_tx]\<rparr> 0 billItem = Some (Inr (m1, en1, 3), billOwnership)"
    by (simp add: getInTransaction_def one(1) txWork_def begin_tx_def recordBatch_def recordResources_def recordOne_def en1_def tx_def r_def)
  have high: "2 < brk m1" by (simp add: m1_def)
  obtain m2 rs ro ri co where L: "cloneOwnershipAggregate billTypes billLive m1 billOwnership billOrder = Some (Inr (m2, tr_work ro, rs), co)"
    "set rs = {ro, ri}" "copyKey ro = billOrder" "copyKey ri = billItem" "detachedBranch billTypes billLive m1 m2 rs"
    using bill_loaded[OF refl bill_start(1) one(2) bill_start(2,3) high] by (elim exE conjE) (rule that; assumption)
  define tx2 where "tx2 = (recordResources tx rs)\<lparr>tx_bindings := tx_bindings (recordResources tx rs) @ [tr_work ro]\<rparr>"
  define en2 where "en2 = \<lparr>en_bind = (en_bind en1)(tr_work ro \<mapsto> 0), en_txs = [tx2]\<rparr>"
  have second: "getInTransaction billTypes billLive billOwnership m1 en1 0 billOrder = Some (Inr (m2, en2, tr_work ro), co)"
    using r(1) by (simp add: getInTransaction_def L(1) txWork_def en1_def tx_def begin_tx_def recordBatch_def en2_def tx2_def Let_def)
  have "distinct (map copyKey rs)" using L(5) by (simp add: detachedBranch_def)
  from bill_recorded[OF this L(2-4) r(1) tx_def] have res: "copyResources (recordResources tx rs) = [r, ro]" "resourcePos (recordResources tx rs) = None" by blast+
  then have kept: "copyResources (en_txs en2 ! 0) = [r, ro]"
    by (cases "tx_resource (recordResources tx rs)") (simp_all add: en2_def tx2_def copyResources_def)
  let ?c = "tr_work ri" let ?e = "editScalar ?c ''Count'' (IntValue ''int'' 7) m2"
  have c: "5 \<le> ?c" "cells m2 3 = cells billMemory 2" "cells m2 4 = cells billMemory 2"
    using L(5) copyAddrs_in[of ri rs] L(2) by (auto simp: detachedBranch_def m1_def)
  have "pointers (cells m2 (tr_work ro)) 2 = Slice [Some ?c]"
    by (rule bill_copies[OF L(5) L(2-4)]) (simp_all add: billLive_def billMemory_def m1_def)
  moreover have "getId (cells m2 ?c) = 5"
    using copies_ids(1)[OF L(5) one(3), of ri] L(2,4) by (simp add: copyKey_def)
  moreover have "txWork (en_txs en2 ! 0) ''Item'' 5 = Some 3"
    using bill_found_first[of tx2 r] res r(1,2) by (simp add: en2_def tx2_def copyResources_def split: option.splits)
  moreover have "\<not> editedCopy billTypes (cells ?e) r"
  proof -
    have "cells ?e 3 = cells billMemory 2" "cells ?e 4 = cells billMemory 2" using c by (auto simp: editScalar_def)
    then show ?thesis by (simp add: editedCopy_def r entityStateEqual_def specsByField_def bill_specs fieldStateEqual_def list_all_iff)
  qed
  moreover have "\<not> editedCopy billTypes (cells ?e) ro"
  proof -
    have in_rs: "ri \<in> set rs" "ro \<in> set rs" "ri \<noteq> ro" and t: "tr_dbName ro = ''Order''" using L(2-4) by (auto simp: copyKey_def)
    have live: "billLive (copyKey ro) = Some (1, 0)" using L(3) by (simp add: billLive_def)
    have "scalars (cells ?e (tr_work ro)) = scalars (cells m1 1)" using edited_scalars(1)[OF L(5) in_rs(1,2) live] in_rs(3) by simp
    then show ?thesis
      using edited_copy[OF L(5) one(3) edited_scalar[OF in_rs(1)] in_rs(2) live] unfolding t by (simp add: bill_specs bill_declared bill_named)
  qed
  ultimately show ?thesis using first second kept c(1)
    by (intro exI[of _ m1] exI[of _ en1] exI[of _ 3] exI[of _ m2] exI[of _ en2] exI[of _ "tr_work ro"] exI[of _ co] exI[of _ ?c])
      (simp add: commitBranch_def changed_filter)
qed

end
