(* ===== verification/Model_Scan.thy ===== *)
theory Model_Scan
  imports Ownership
begin

text \<open>
  What a scan of the relation graph (\<open>relation_runtime.go\<close>) finds, apart from the order in which the
  code ranges over its maps: which rows a lookup key leads to, what each row contributes to the
  model, and when a scan succeeds. A model is characterised up to these orders, so that models
  built on different ways can be compared.
\<close>

section \<open>The target index as a set of holders\<close>

definition keyHolders :: "'p heap \<Rightarrow> (nodeKey \<Rightarrow> 'p option) \<Rightarrow> (string \<times> string) list \<Rightarrow> relationTargetKey \<Rightarrow> nodeKey set" where
  "keyHolders h N tfs key =
     (case key of (t, f, v) \<Rightarrow> {k. nk_type k = t \<and> (t, f) \<in> set tfs \<and> (\<exists>a. N k = Some a \<and> relationKey h (Some a) f = Some v)})"

definition indexesTargets :: "'p heap \<Rightarrow> (nodeKey \<Rightarrow> 'p option) \<Rightarrow> (string \<times> string) list \<Rightarrow> targetIndex \<Rightarrow> bool" where
  "indexesTargets h N tfs T \<longleftrightarrow>
     (\<forall>key. case T key of
        None \<Rightarrow> keyHolders h N tfs key = {}
      | Some (k, d) \<Rightarrow> k \<in> keyHolders h N tfs key \<and> (d \<longleftrightarrow> keyHolders h N tfs key \<noteq> {k}))"

lemma indexes_none: "indexesTargets h N tfs T \<Longrightarrow> T key = None \<longleftrightarrow> keyHolders h N tfs key = {}"
  unfolding indexesTargets_def by (drule spec[of _ key]) (auto split: option.splits)

lemma indexes_some:
  "indexesTargets h N tfs T \<Longrightarrow> T key = Some (k, d) \<Longrightarrow> k \<in> keyHolders h N tfs key \<and> (d \<longleftrightarrow> keyHolders h N tfs key \<noteq> {k})"
  unfolding indexesTargets_def by (drule spec[of _ key]) simp

lemma indexes_unique:
  assumes "indexesTargets h N tfs T" "indexesTargets h N tfs' T'" "set tfs = set tfs'"
  shows "resolveGraphTarget h T r p = resolveGraphTarget h T' r p"
proof -
  have H: "keyHolders h N tfs = keyHolders h N tfs'" using assms(3) by (auto simp: keyHolders_def fun_eq_iff)
  have "(case T key of None \<Rightarrow> Inr None | Some (n, d) \<Rightarrow> if d then Inl e else Inr (Some n)) =
      (case T' key of None \<Rightarrow> Inr None | Some (n, d) \<Rightarrow> if d then Inl e else Inr (Some n))" for key and e :: go_error
  proof (cases "T key")
    case None
    then have "T' key = None" using indexes_none[OF assms(1)] indexes_none[OF assms(2)] H by simp
    then show ?thesis using None by simp
  next
    case (Some q)
    obtain n d where q: "q = (n, d)" by fastforce
    note one = indexes_some[OF assms(1) Some[unfolded q]]
    have "T' key \<noteq> None" using one indexes_none[OF assms(2), of key] H by auto
    then obtain n' d' where n': "T' key = Some (n', d')" by auto
    note two = indexes_some[OF assms(2) n']
    have "d = d'" "\<not> d \<Longrightarrow> n = n'" using one two H by auto
    then show ?thesis using Some q n' by simp
  qed
  then show ?thesis by (simp add: resolveGraphTarget_def split: option.split)
qed

lemma index_node_fields:
  assumes "distinct fs"
  shows "foldl (indexRelationNodeTarget h n) T fs key =
    (if fst key = nk_type (fst n) \<and> fst (snd key) \<in> set fs \<and> relationKey h (Some (snd n)) (fst (snd key)) = Some (snd (snd key))
     then Some (case T key of None \<Rightarrow> (fst n, False) | Some q \<Rightarrow> (fst q, True)) else T key)"
  using assms
proof (induction fs arbitrary: key rule: rev_induct)
  case (snoc g fs)
  let ?T = "foldl (indexRelationNodeTarget h n) T fs"
  obtain t f v where key: "key = (t, f, v)" by (cases key)
  show ?case
  proof (cases "relationKey h (Some (snd n)) g")
    case None
    then have "foldl (indexRelationNodeTarget h n) T (fs @ [g]) = ?T" by (simp add: indexRelationNodeTarget_def)
    then show ?thesis using snoc None by (auto simp: key)
  next
    case (Some w)
    have same: "?T (nk_type (fst n), g, w) = T (nk_type (fst n), g, w)" using snoc by simp
    have "foldl (indexRelationNodeTarget h n) T (fs @ [g]) = ?T((nk_type (fst n), g, w) \<mapsto>
        (case T (nk_type (fst n), g, w) of None \<Rightarrow> (fst n, False) | Some q \<Rightarrow> (fst q, True)))"
      using Some same by (simp add: indexRelationNodeTarget_def Let_def)
    then show ?thesis using snoc Some same by (cases "f = g") (auto simp: key)
  qed
qed simp

lemma index_node:
  assumes "indexesTargets h N tfs T" "distinct tfs" "N (fst n) = None"
  shows "indexesTargets h (N(fst n \<mapsto> snd n)) tfs (indexRelationNodeTargets h tfs T n)"
proof -
  have H: "keyHolders h (N(fst n \<mapsto> snd n)) tfs (t, f, v) = keyHolders h N tfs (t, f, v) \<union>
      (if t = nk_type (fst n) \<and> (t, f) \<in> set tfs \<and> relationKey h (Some (snd n)) f = Some v then {fst n} else {})" for t f v
    using assms(3) by (auto simp: keyHolders_def)
  have new: "fst n \<notin> keyHolders h N tfs key" for key using assms(3) by (auto simp: keyHolders_def split: prod.splits)
  have fs: "distinct (map snd (filter (\<lambda>q. fst q = nk_type (fst n)) tfs))"
    using assms(2) by (auto simp: distinct_map inj_on_def prod_eq_iff)
  have one: "case indexRelationNodeTargets h tfs T n (t, f, v) of
        None \<Rightarrow> keyHolders h (N(fst n \<mapsto> snd n)) tfs (t, f, v) = {}
      | Some (k, d) \<Rightarrow> k \<in> keyHolders h (N(fst n \<mapsto> snd n)) tfs (t, f, v) \<and> (d \<longleftrightarrow> keyHolders h (N(fst n \<mapsto> snd n)) tfs (t, f, v) \<noteq> {k})" for t f v
  proof (cases "t = nk_type (fst n) \<and> (t, f) \<in> set tfs \<and> relationKey h (Some (snd n)) f = Some v")
    case True
    then have T: "indexRelationNodeTargets h tfs T n (t, f, v) = Some (case T (t, f, v) of None \<Rightarrow> (fst n, False) | Some q \<Rightarrow> (fst q, True))"
      unfolding indexRelationNodeTargets_def index_node_fields[OF fs] by force
    show ?thesis
    proof (cases "T (t, f, v)")
      case None
      then have "keyHolders h N tfs (t, f, v) = {}" using indexes_none[OF assms(1)] by simp
      then have "keyHolders h (N(fst n \<mapsto> snd n)) tfs (t, f, v) = {fst n}" using H[of t f v] True by auto
      then show ?thesis using T None by simp
    next
      case (Some q)
      then have "fst q \<in> keyHolders h N tfs (t, f, v)" using indexes_some[OF assms(1), of _ "fst q" "snd q"] by simp
      then show ?thesis using T H True Some new by auto
    qed
  next
    case False
    then have "indexRelationNodeTargets h tfs T n (t, f, v) = T (t, f, v)"
      unfolding indexRelationNodeTargets_def index_node_fields[OF fs] by force
    moreover have "keyHolders h (N(fst n \<mapsto> snd n)) tfs (t, f, v) = keyHolders h N tfs (t, f, v)" using H[of t f v] False by auto
    ultimately show ?thesis using spec[OF assms(1)[unfolded indexesTargets_def], of "(t, f, v)"] by (simp only:)
  qed
  show ?thesis unfolding indexesTargets_def split_paired_All by (intro allI) (rule one)
qed

lemma index_nodes:
  assumes "distinct (map fst nodes)" "distinct tfs"
  shows "indexesTargets h (map_of nodes) tfs (buildRelationTargetIndexFromFields h nodes tfs)"
  using assms(1)
proof (induction nodes rule: rev_induct)
  case Nil
  then show ?case by (auto simp: indexesTargets_def buildRelationTargetIndexFromFields_def keyHolders_def)
next
  case (snoc n nodes)
  have none: "map_of nodes (fst n) = None" using snoc.prems by (auto simp: map_of_eq_None_iff)
  have "map_of (nodes @ [n]) = (map_of nodes)(fst n \<mapsto> snd n)" using none by (cases n) (auto simp: fun_eq_iff map_add_def split: option.split)
  moreover have "indexesTargets h (map_of nodes) tfs (foldl (indexRelationNodeTargets h tfs) (\<lambda>_. None) nodes)"
    using snoc by (simp add: buildRelationTargetIndexFromFields_def)
  then have "indexesTargets h ((map_of nodes)(fst n \<mapsto> snd n)) tfs (indexRelationNodeTargets h tfs (foldl (indexRelationNodeTargets h tfs) (\<lambda>_. None) nodes) n)"
    by (rule index_node[of h "map_of nodes" tfs _ n, OF _ assms(2) none])
  ultimately show ?case unfolding buildRelationTargetIndexFromFields_def by (simp only: foldl_append foldl.simps)
qed

section \<open>What a row contributes\<close>

definition fieldUnresolved :: "'p heap \<Rightarrow> targetIndex \<Rightarrow> nodeKey \<times> 'p \<Rightarrow> relationSpec \<Rightarrow> (nodeKey \<times> relationSpec \<times> relationTargetKey) list" where
  "fieldUnresolved h T n spec =
     List.map_filter (\<lambda>p. if resolveGraphTarget h T spec p = Inr None
        then map_option (\<lambda>l. (fst n, spec, l)) (graphRelationTargetKey h spec p) else None) (fieldPointers h (snd n) spec)"

definition fieldMissing :: "'p heap \<Rightarrow> targetIndex \<Rightarrow> nodeKey \<times> 'p \<Rightarrow> relationSpec \<Rightarrow> (nodeKey \<times> relationSpec) list" where
  "fieldMissing h T n spec =
     (if relationMayBeMissing spec then []
      else map (\<lambda>_. (fst n, spec)) (filter (\<lambda>p. resolveGraphTarget h T spec p = Inr None) (fieldPointers h (snd n) spec)))"

definition fieldScans :: "'p heap \<Rightarrow> targetIndex \<Rightarrow> nodeKey \<times> 'p \<Rightarrow> relationSpec \<Rightarrow> bool" where
  "fieldScans h T n spec \<longleftrightarrow>
     (\<forall>p \<in> set (fieldPointers h (snd n) spec). \<exists>t. resolveGraphTarget h T spec p = Inr t) \<and>
     (many spec \<and> kind spec = OwnRelation \<longrightarrow> distinct (fieldTargets h T (snd n) spec))"

definition nodeSpecs :: "typeEnv \<Rightarrow> nodeKey \<times> 'p \<Rightarrow> relationSpec list" where
  "nodeSpecs env n = (case relationSpecs env (nk_type (fst n)) of Inl _ \<Rightarrow> [] | Inr specs \<Rightarrow> filter (\<lambda>s. kind s \<noteq> InverseRelation) specs)"

definition nodeUnresolved :: "typeEnv \<Rightarrow> 'p heap \<Rightarrow> targetIndex \<Rightarrow> nodeKey \<times> 'p \<Rightarrow> (nodeKey \<times> relationSpec \<times> relationTargetKey) list" where
  "nodeUnresolved env h T n = concat (map (fieldUnresolved h T n) (nodeSpecs env n))"

definition nodeMissing :: "typeEnv \<Rightarrow> 'p heap \<Rightarrow> targetIndex \<Rightarrow> nodeKey \<times> 'p \<Rightarrow> (nodeKey \<times> relationSpec) list" where
  "nodeMissing env h T n = concat (map (fieldMissing h T n) (nodeSpecs env n))"

definition nodeScans :: "typeEnv \<Rightarrow> 'p heap \<Rightarrow> targetIndex \<Rightarrow> nodeKey \<times> 'p \<Rightarrow> bool" where
  "nodeScans env h T n \<longleftrightarrow> (\<exists>specs. relationSpecs env (nk_type (fst n)) = Inr specs) \<and> (\<forall>s \<in> set (nodeSpecs env n). fieldScans h T n s)"

lemma node_refs: "nodeRefs env h T n = concat (map (fieldRefs h T n) (nodeSpecs env n))"
  by (simp add: nodeRefs_def nodeSpecs_def split: sum.split)

definition targetsOf :: "'p heap \<Rightarrow> targetIndex \<Rightarrow> relationSpec \<Rightarrow> 'p option list \<Rightarrow> nodeKey list" where
  "targetsOf h T spec ps = List.map_filter (\<lambda>p. case resolveGraphTarget h T spec p of Inl _ \<Rightarrow> None | Inr t \<Rightarrow> t) ps"

text \<open>A scan succeeds or not, and adds the parts of a field, whatever it has found before.\<close>

definition grew :: "'p scanState \<Rightarrow> 'p scanState \<Rightarrow> (nodeKey \<times> relationSpec \<times> relationTargetKey) list \<Rightarrow> (nodeKey \<times> relationSpec) list \<Rightarrow> bool" where
  "grew st st' us ms \<longleftrightarrow> unresolved (scanned st') = unresolved (scanned st) @ us \<and> missing (scanned st') = missing (scanned st) @ ms"

lemma scan_pointers:
  assumes "rm_targets (scanned st) = T" "seen \<noteq> None \<longrightarrow> kind spec = OwnRelation"
  shows "if (\<forall>p \<in> set ps. \<exists>t. resolveGraphTarget h T spec p = Inr t) \<and>
      (case seen of None \<Rightarrow> True | Some ts \<Rightarrow> distinct (targetsOf h T spec ps) \<and> set (targetsOf h T spec ps) \<inter> ts = {})
    then \<exists>seen' st'. fold_result (scanRelationPointer h holder spec) ps (seen, st) = Inr (seen', st') \<and>
      grew st st'
        (List.map_filter (\<lambda>p. if resolveGraphTarget h T spec p = Inr None
           then map_option (\<lambda>l. (holder, spec, l)) (graphRelationTargetKey h spec p) else None) ps)
        (if relationMayBeMissing spec then [] else map (\<lambda>_. (holder, spec)) (filter (\<lambda>p. resolveGraphTarget h T spec p = Inr None) ps))
    else \<exists>e. fold_result (scanRelationPointer h holder spec) ps (seen, st) = Inl e"
  using assms
proof (induction ps arbitrary: seen st)
  case Nil
  then show ?case by (auto simp: grew_def map_filter_simps targetsOf_def split: option.split)
next
  case (Cons p ps)
  show ?case
  proof (cases "resolveGraphTarget h T spec p")
    case (Inl e)
    then show ?thesis using Cons.prems(1) by (simp add: scanRelationPointer_def)
  next
    case (Inr r)
    show ?thesis
    proof (cases r)
      case None
      define st1 where "st1 = st\<lparr>scanned := recordUnresolved h holder spec p (scanned st)\<rparr>"
      have step: "fold_result (scanRelationPointer h holder spec) (p # ps) (seen, st) = fold_result (scanRelationPointer h holder spec) ps (seen, st1)"
        using Inr None Cons.prems(1) by (simp add: scanRelationPointer_def Let_def st1_def)
      have T1: "rm_targets (scanned st1) = T" using recordUnresolved_frame[of h holder spec p "scanned st"] Cons.prems(1) by (simp add: st1_def same_frame_def)
      have g: "grew st st1 (case graphRelationTargetKey h spec p of None \<Rightarrow> [] | Some l \<Rightarrow> [(holder, spec, l)]) (if relationMayBeMissing spec then [] else [(holder, spec)])"
        by (simp add: grew_def st1_def recordUnresolved_def Let_def split: option.split)
      have t: "targetsOf h T spec (p # ps) = targetsOf h T spec ps" using Inr None by (simp add: targetsOf_def map_filter_simps)
      show ?thesis unfolding step t using Cons.IH[OF T1 Cons.prems(2)] g Inr None
        by (auto simp: grew_def map_filter_simps split: option.splits if_splits)
    next
      case (Some t)
      have t: "targetsOf h T spec (p # ps) = t # targetsOf h T spec ps" using Inr Some by (simp add: targetsOf_def map_filter_simps)
      show ?thesis
      proof (cases "(case seen of None \<Rightarrow> False | Some ts \<Rightarrow> t \<in> ts)")
        case True
        then have "fold_result (scanRelationPointer h holder spec) (p # ps) (seen, st) = Inl (ErrRelationInvariant ''contains owned child more than once'')"
          using Inr Some Cons.prems by (auto simp: scanRelationPointer_def Let_def split: option.splits)
        then show ?thesis unfolding t using True by (auto split: option.splits)
      next
        case False
        define st1 where "st1 = recordResolvedRelation holder t spec st"
        have step: "fold_result (scanRelationPointer h holder spec) (p # ps) (seen, st) = fold_result (scanRelationPointer h holder spec) ps (map_option (insert t) seen, st1)"
          using Inr Some False Cons.prems(1) by (simp add: scanRelationPointer_def Let_def st1_def)
        have T1: "rm_targets (scanned st1) = T" and g: "grew st st1 [] []"
          using Cons.prems(1) by (simp_all add: st1_def recordResolvedRelation_def Let_def grew_def)
        have "map_option (insert t) seen \<noteq> None \<longrightarrow> kind spec = OwnRelation" using Cons.prems(2) by auto
        from Cons.IH[OF T1 this] show ?thesis unfolding step t using g Inr Some False
          by (cases seen) (auto simp: grew_def map_filter_simps split: if_splits)
      qed
    qed
  qed
qed

lemma scan_field:
  assumes "scan_ok st" "rm_targets (scanned st) = T"
  shows "if fieldScans h T n spec
    then \<exists>st'. scanRelationField h n st spec = Inr st' \<and> scan_ok st' \<and> same_frame (scanned st) (scanned st') \<and>
      refs (scanned st') = refs (scanned st) @ fieldRefs h T n spec \<and> grew st st' (fieldUnresolved h T n spec) (fieldMissing h T n spec)
    else \<exists>e. scanRelationField h n st spec = Inl e"
proof -
  let ?seen = "if many spec \<and> kind spec = OwnRelation then Some {} else None"
  have t: "targetsOf h T spec (fieldPointers h (snd n) spec) = fieldTargets h T (snd n) spec" by (simp add: targetsOf_def fieldTargets_def)
  have f: "scanRelationField h n st spec = bind_result (fold_result (scanRelationPointer h (fst n) spec) (fieldPointers h (snd n) spec) (?seen, st)) (\<lambda>r. Inr (snd r))"
    by (simp add: scanRelationField_def Let_def)
  have seen: "?seen \<noteq> None \<longrightarrow> kind spec = OwnRelation" by simp
  note S = scan_pointers[OF assms(2) seen, of "fieldPointers h (snd n) spec" h "fst n", unfolded t]
  have ok: "fieldScans h T n spec \<longleftrightarrow> (\<forall>p \<in> set (fieldPointers h (snd n) spec). \<exists>t. resolveGraphTarget h T spec p = Inr t) \<and>
      (case ?seen of None \<Rightarrow> True | Some ts \<Rightarrow> distinct (fieldTargets h T (snd n) spec) \<and> set (fieldTargets h T (snd n) spec) \<inter> ts = {})"
    by (auto simp: fieldScans_def)
  show ?thesis
  proof (cases "fieldScans h T n spec")
    case True
    then obtain seen' st' where R: "fold_result (scanRelationPointer h (fst n) spec) (fieldPointers h (snd n) spec) (?seen, st) = Inr (seen', st')"
      "grew st st' (fieldUnresolved h T n spec) (fieldMissing h T n spec)"
      using S[unfolded if_P[OF True[unfolded ok]]] unfolding fieldUnresolved_def fieldMissing_def by blast
    then have "scanRelationField h n st spec = Inr st'" unfolding f by simp
    then show ?thesis using True R(2) scanRelationField_step[OF _ assms(1)] assms(2) by auto
  next
    case False
    then obtain e where "fold_result (scanRelationPointer h (fst n) spec) (fieldPointers h (snd n) spec) (?seen, st) = Inl e"
      using S[unfolded if_not_P[OF False[unfolded ok]]] by blast
    then show ?thesis using False unfolding f by simp
  qed
qed

lemma scan_fields:
  assumes "scan_ok st" "rm_targets (scanned st) = T"
  shows "if \<forall>s \<in> set specs. fieldScans h T n s
    then \<exists>st'. fold_result (scanRelationField h n) specs st = Inr st' \<and> scan_ok st' \<and> same_frame (scanned st) (scanned st') \<and>
      refs (scanned st') = refs (scanned st) @ concat (map (fieldRefs h T n) specs) \<and>
      grew st st' (concat (map (fieldUnresolved h T n) specs)) (concat (map (fieldMissing h T n) specs))
    else \<exists>e. fold_result (scanRelationField h n) specs st = Inl e"
  using assms
proof (induction specs arbitrary: st)
  case Nil
  then show ?case by (simp add: same_frame_def grew_def)
next
  case (Cons s specs)
  note F = scan_field[OF Cons.prems, of h n s]
  show ?case
  proof (cases "fieldScans h T n s")
    case True
    then obtain st1 where one: "scanRelationField h n st s = Inr st1" "scan_ok st1" "same_frame (scanned st) (scanned st1)"
      "refs (scanned st1) = refs (scanned st) @ fieldRefs h T n s" "grew st st1 (fieldUnresolved h T n s) (fieldMissing h T n s)"
      using F[unfolded if_P[OF True]] by blast
    have "rm_targets (scanned st1) = T" using one(3) Cons.prems(2) by (simp add: same_frame_def)
    note R = Cons.IH[OF one(2) this]
    show ?thesis
    proof (cases "\<forall>s \<in> set specs. fieldScans h T n s")
      case more: True
      then obtain st' where "fold_result (scanRelationField h n) specs st1 = Inr st'" "scan_ok st'" "same_frame (scanned st1) (scanned st')"
        "refs (scanned st') = refs (scanned st1) @ concat (map (fieldRefs h T n) specs)"
        "grew st1 st' (concat (map (fieldUnresolved h T n) specs)) (concat (map (fieldMissing h T n) specs))"
        using R[unfolded if_P[OF more]] by blast
      then show ?thesis using one True more same_frame_trans[OF one(3)] by (simp add: grew_def)
    next
      case less: False
      then show ?thesis using R one(1) by (auto split: if_splits)
    qed
  next
    case False
    then show ?thesis using F by (auto split: if_splits)
  qed
qed

lemma scan_node:
  assumes "scan_ok st" "rm_targets (scanned st) = T"
  shows "if nodeScans env h T n
    then \<exists>st'. scanNodeRelations env h st n = Inr st' \<and> scan_ok st' \<and> same_frame (scanned st) (scanned st') \<and>
      refs (scanned st') = refs (scanned st) @ nodeRefs env h T n \<and> grew st st' (nodeUnresolved env h T n) (nodeMissing env h T n)
    else \<exists>e. scanNodeRelations env h st n = Inl e"
proof (cases "relationSpecs env (nk_type (fst n))")
  case (Inl e)
  then show ?thesis by (simp add: scanNodeRelations_def nodeScans_def)
next
  case (Inr specs)
  have skip: "fold_result (\<lambda>st s. if kind s = InverseRelation then Inr st else scanRelationField h n st s) qs st =
      fold_result (scanRelationField h n) (filter (\<lambda>s. kind s \<noteq> InverseRelation) qs) st" for qs st
    by (induction qs arbitrary: st) (auto split: sum.split)
  have "scanNodeRelations env h st n = fold_result (scanRelationField h n) (nodeSpecs env n) st"
    using Inr by (simp add: scanNodeRelations_def skip nodeSpecs_def)
  then show ?thesis using scan_fields[OF assms, of "nodeSpecs env n" h n] Inr unfolding node_refs nodeUnresolved_def nodeMissing_def nodeScans_def by simp
qed

lemma scan_node_list:
  assumes "scan_ok st" "rm_targets (scanned st) = T"
  shows "if \<forall>n \<in> set ns. nodeScans env h T n
    then \<exists>st'. fold_result (scanNodeRelations env h) ns st = Inr st' \<and> scan_ok st' \<and> same_frame (scanned st) (scanned st') \<and>
      refs (scanned st') = refs (scanned st) @ graphRefs env h T ns \<and>
      grew st st' (concat (map (nodeUnresolved env h T) ns)) (concat (map (nodeMissing env h T) ns))
    else \<exists>e. fold_result (scanNodeRelations env h) ns st = Inl e"
  using assms
proof (induction ns arbitrary: st)
  case Nil
  then show ?case by (simp add: same_frame_def grew_def graphRefs_def)
next
  case (Cons n ns)
  note F = scan_node[OF Cons.prems, of env h n]
  show ?case
  proof (cases "nodeScans env h T n")
    case True
    then obtain st1 where one: "scanNodeRelations env h st n = Inr st1" "scan_ok st1" "same_frame (scanned st) (scanned st1)"
      "refs (scanned st1) = refs (scanned st) @ nodeRefs env h T n" "grew st st1 (nodeUnresolved env h T n) (nodeMissing env h T n)"
      using F[unfolded if_P[OF True]] by blast
    have "rm_targets (scanned st1) = T" using one(3) Cons.prems(2) by (simp add: same_frame_def)
    note R = Cons.IH[OF one(2) this]
    show ?thesis
    proof (cases "\<forall>n \<in> set ns. nodeScans env h T n")
      case more: True
      then obtain st' where "fold_result (scanNodeRelations env h) ns st1 = Inr st'" "scan_ok st'" "same_frame (scanned st1) (scanned st')"
        "refs (scanned st') = refs (scanned st1) @ graphRefs env h T ns"
        "grew st1 st' (concat (map (nodeUnresolved env h T) ns)) (concat (map (nodeMissing env h T) ns))"
        using R[unfolded if_P[OF more]] by blast
      then show ?thesis using one True more same_frame_trans[OF one(3)] by (simp add: grew_def graphRefs_def)
    next
      case less: False
      then show ?thesis using R one(1) by (auto split: if_splits)
    qed
  next
    case False
    then show ?thesis using F by (auto split: if_splits)
  qed
qed

section \<open>Lookup fields\<close>

definition lookupFields :: "typeEnv \<Rightarrow> nodeKey set \<Rightarrow> (string \<times> string) set" where
  "lookupFields env K = (\<Union>k \<in> K. \<Union>s \<in> set (nodeSpecs env (k, ())). {(target s, lookupField s)})"

lemma nodeSpecs_key: "nodeSpecs env (k, a) = nodeSpecs env (k, ())"
  by (simp add: nodeSpecs_def)

lemma nodeSpecs_type: "nk_type k = nk_type k' \<Longrightarrow> nodeSpecs env (k, ()) = nodeSpecs env (k', ())"
  by (simp add: nodeSpecs_def)

lemma lookup_types: "nk_type ` K = nk_type ` K' \<Longrightarrow> lookupFields env K = lookupFields env K'"
proof -
  have "lookupFields env A \<subseteq> lookupFields env B" if "nk_type ` A \<subseteq> nk_type ` B" for A B
  proof
    fix q assume "q \<in> lookupFields env A"
    then obtain k s where k: "k \<in> A" "s \<in> set (nodeSpecs env (k, ()))" "q = (target s, lookupField s)" by (auto simp: lookupFields_def)
    have "nk_type k \<in> nk_type ` B" using that k(1) by blast
    then obtain k' where k': "k' \<in> B" "nk_type k' = nk_type k" by auto
    have "s \<in> set (nodeSpecs env (k', ()))" using k(2) unfolding nodeSpecs_type[OF k'(2)] .
    then show "q \<in> lookupFields env B" unfolding lookupFields_def k(3) using k'(1) by blast
  qed
  then show "nk_type ` K = nk_type ` K' \<Longrightarrow> lookupFields env K = lookupFields env K'" by (metis subset_antisym order_refl)
qed

lemma target_fields_of:
  "distinct tfs \<Longrightarrow> distinct (targetFieldsOf specs tfs) \<and>
   set (targetFieldsOf specs tfs) = set tfs \<union> (\<lambda>s. (target s, lookupField s)) ` set (filter (\<lambda>s. kind s \<noteq> InverseRelation) specs)"
proof (induction specs arbitrary: tfs)
  case (Cons s specs)
  show ?case
  proof (cases "kind s = InverseRelation \<or> (target s, lookupField s) \<in> set tfs")
    case True
    then have "targetFieldsOf (s # specs) tfs = targetFieldsOf specs tfs" by (auto simp: targetFieldsOf_def)
    then show ?thesis using Cons True by auto
  next
    case False
    then have "targetFieldsOf (s # specs) tfs = targetFieldsOf specs (tfs @ [(target s, lookupField s)])" by (simp add: targetFieldsOf_def)
    then show ?thesis using Cons.IH[of "tfs @ [(target s, lookupField s)]"] Cons.prems False by auto
  qed
qed (simp add: targetFieldsOf_def)

lemma target_fields:
  "if \<forall>n \<in> set nodes. \<exists>specs. relationSpecs env (nk_type (fst n)) = Inr specs
   then \<exists>tfs. relationTargetFields env nodes = Inr tfs \<and> distinct tfs \<and> set tfs = lookupFields env (fst ` set nodes)
   else \<exists>e. relationTargetFields env nodes = Inl e"
proof -
  let ?f = "\<lambda>st n. if nk_type (fst n) \<in> set (fst st) then Inr st
      else bind_result (relationSpecs env (nk_type (fst n))) (\<lambda>specs. Inr (nk_type (fst n) # fst st, targetFieldsOf specs (snd st)))"
  have "if \<forall>n \<in> set nodes. \<exists>specs. relationSpecs env (nk_type (fst n)) = Inr specs
    then \<exists>ts tfs. fold_result ?f nodes ([], []) = Inr (ts, tfs) \<and> set ts = nk_type ` fst ` set nodes \<and> distinct tfs \<and> set tfs = lookupFields env (fst ` set nodes)
    else \<exists>e. fold_result ?f nodes ([], []) = Inl e"
  proof (induction nodes rule: rev_induct)
    case Nil
    then show ?case by (simp add: lookupFields_def)
  next
    case (snoc n nodes)
    show ?case
    proof (cases "\<forall>n \<in> set nodes. \<exists>specs. relationSpecs env (nk_type (fst n)) = Inr specs")
      case True
      then obtain ts tfs where F: "fold_result ?f nodes ([], []) = Inr (ts, tfs)" "set ts = nk_type ` fst ` set nodes" "distinct tfs"
        "set tfs = lookupFields env (fst ` set nodes)" using snoc.IH[unfolded if_P[OF True]] by blast
      show ?thesis
      proof (cases "nk_type (fst n) \<in> set ts")
        case old: True
        then obtain q where q: "q \<in> set nodes" "nk_type (fst q) = nk_type (fst n)" using F(2) by auto
        then have "nk_type ` fst ` set (nodes @ [n]) = nk_type ` fst ` set nodes" by (auto simp: image_iff) (metis q)
        then show ?thesis using F True old q lookup_types[of "fst ` set (nodes @ [n])" "fst ` set nodes" env]
          by (auto simp: fold_result_append)
      next
        case new: False
        show ?thesis
        proof (cases "relationSpecs env (nk_type (fst n))")
          case (Inl e)
          then show ?thesis using F(1) new by (simp add: fold_result_append)
        next
          case (Inr specs)
          have "lookupFields env (fst ` set (nodes @ [n])) = lookupFields env (fst ` set nodes) \<union>
              (\<lambda>s. (target s, lookupField s)) ` set (filter (\<lambda>s. kind s \<noteq> InverseRelation) specs)"
            using Inr by (auto simp: lookupFields_def nodeSpecs_def)
          then show ?thesis using F True new Inr target_fields_of[OF F(3), of specs] by (auto simp: fold_result_append)
        qed
      qed
    next
      case False
      then show ?thesis using snoc.IH[unfolded if_not_P[OF False]] by (auto simp: fold_result_append)
    qed
  qed
  then show ?thesis unfolding relationTargetFields_def by (auto split: if_splits)
qed

section \<open>Models up to the order of the maps\<close>

definition partsAt :: "(nodeKey \<times> 'p \<Rightarrow> 'b list) \<Rightarrow> 'p nodes \<Rightarrow> nodeKey \<Rightarrow> 'b list" where
  "partsAt f nodes k = (case map_of nodes k of None \<Rightarrow> [] | Some a \<Rightarrow> f (k, a))"

definition ownersOk :: "'p relationModel \<Rightarrow> bool" where
  "ownersOk m \<longleftrightarrow>
     (\<forall>c. owner_agrees (refs m) c \<and> map_of (owners m) c = ownerOf (refs m) c) \<and> acyclic (ownerEdges (owners m)) \<and>
     distinct (map fst (owners m)) \<and>
     (\<forall>w. distinct (childList (outgoing m) w) \<and> set (childList (outgoing m) w) = {c. map_of (owners m) c = Some w})"

definition describes :: "typeEnv \<Rightarrow> 'p heap \<Rightarrow> 'p relationModel \<Rightarrow> bool" where
  "describes env h m \<longleftrightarrow>
     distinct (map fst (rm_nodes m)) \<and> distinct (rm_targetFields m) \<and>
     set (rm_targetFields m) = lookupFields env (fst ` set (rm_nodes m)) \<and>
     indexesTargets h (map_of (rm_nodes m)) (rm_targetFields m) (rm_targets m) \<and>
     (\<forall>n \<in> set (rm_nodes m). nodeScans env h (rm_targets m) n) \<and>
     (\<forall>k. filter (\<lambda>r. rr_holder r = k) (refs m) = partsAt (nodeRefs env h (rm_targets m)) (rm_nodes m) k \<and>
        filter (\<lambda>u. fst u = k) (unresolved m) = partsAt (nodeUnresolved env h (rm_targets m)) (rm_nodes m) k \<and>
        filter (\<lambda>u. fst u = k) (missing m) = partsAt (nodeMissing env h (rm_targets m)) (rm_nodes m) k) \<and>
     ownersOk m"

text \<open>What every way of building a model has to decide.\<close>

definition acceptable :: "typeEnv \<Rightarrow> 'p heap \<Rightarrow> 'p nodes \<Rightarrow> targetIndex \<Rightarrow> bool" where
  "acceptable env h nodes T \<longleftrightarrow>
     (\<forall>n \<in> set nodes. nodeScans env h T n) \<and> (\<forall>c. owner_agrees (graphRefs env h T nodes) c) \<and>
     acyclic {(c, w). ownerOf (graphRefs env h T nodes) c = Some w}"

lemma parts_of_nodes:
  assumes "distinct (map fst nodes)" "\<And>n x. x \<in> set (f n) \<Longrightarrow> g x = fst n"
  shows "filter (\<lambda>x. g x = k) (concat (map f nodes)) = partsAt f nodes k"
  using assms(1)
proof (induction nodes)
  case (Cons n nodes)
  have one: "filter (\<lambda>x. g x = k) (f n) = (if fst n = k then f n else [])" using assms(2) by (auto simp: filter_empty_conv filter_id_conv)
  show ?case
  proof (cases "fst n = k")
    case True
    then have "map_of nodes k = None" using Cons.prems by (auto simp: map_of_eq_None_iff)
    then show ?thesis using Cons one True by (cases n) (simp add: partsAt_def)
  next
    case False
    then show ?thesis using Cons one by (cases n) (simp add: partsAt_def)
  qed
qed (simp add: partsAt_def)

lemma part_keys:
  "r \<in> set (nodeRefs env h T n) \<Longrightarrow> rr_holder r = fst n"
  "u \<in> set (nodeUnresolved env h T n) \<Longrightarrow> fst u = fst n"
  "q \<in> set (nodeMissing env h T n) \<Longrightarrow> fst q = fst n"
  by (auto simp: node_refs fieldRefs_def nodeUnresolved_def fieldUnresolved_def nodeMissing_def fieldMissing_def List.map_filter_def
      split: if_splits)

lemma graph_refs_at: "distinct (map fst nodes) \<Longrightarrow> filter (\<lambda>r. rr_holder r = k) (graphRefs env h T nodes) = partsAt (nodeRefs env h T) nodes k"
  unfolding graphRefs_def by (rule parts_of_nodes) (auto dest: part_keys)

text \<open>Owners do not depend on the order in which rows were scanned.\<close>

lemma same_refs:
  assumes "\<And>k. filter (\<lambda>r. rr_holder r = k) rs = filter (\<lambda>r. rr_holder r = k) rs'"
  shows "owner_agrees rs c \<longleftrightarrow> owner_agrees rs' c" "owner_agrees rs c \<Longrightarrow> ownerOf rs c = ownerOf rs' c"
    "mset rs = mset rs'"
proof -
  have "count (mset rs) r = count (mset rs') r" for r
  proof -
    have "count (mset qs) r = count (mset (filter (\<lambda>q. rr_holder q = rr_holder r) qs)) r" for qs by simp
    then show ?thesis using assms by metis
  qed
  then show M: "mset rs = mset rs'" by (rule multiset_eqI)
  have o: "mset (ownHolders rs c) = mset (ownHolders rs' c)" unfolding ownHolders_def mset_map mset_filter M ..
  have b: "backTargets rs c = backTargets rs' c"
  proof -
    have "backTargets qs c = map rr_target (filter (\<lambda>r. kind (rr_spec r) = OwnedByRelation) (filter (\<lambda>r. rr_holder r = c) qs))" for qs
      by (simp add: backTargets_def conj_commute)
    then show ?thesis using assms by metis
  qed
  have len: "length (ownHolders rs c) = length (ownHolders rs' c)" using mset_eq_length[OF o] .
  have eq: "length (ownHolders rs c) \<le> 1 \<Longrightarrow> ownHolders rs c = ownHolders rs' c"
    using o len by (cases "ownHolders rs c"; cases "ownHolders rs' c") auto
  show "owner_agrees rs c \<longleftrightarrow> owner_agrees rs' c" using eq len b by (auto simp: owner_agrees_def)
  show "owner_agrees rs c \<Longrightarrow> ownerOf rs c = ownerOf rs' c" using eq b by (simp add: owner_agrees_def ownerOf_def)
qed

lemma attach_distinct:
  assumes "fold_result (attachNodeOwner inc back) keys m = Inr m'" "distinct (map fst (owners m))"
  shows "distinct (map fst (owners m'))"
proof (rule fold_result_invariant[where I = "\<lambda>m. distinct (map fst (owners m))", OF _ assms(2,1)])
  fix m :: "'a relationModel" and c m'
  assume "distinct (map fst (owners m))" "attachNodeOwner inc back m c = Inr m'"
  then show "distinct (map fst (owners m'))"
    by (auto simp: attachNodeOwner_def Let_def distinct_update split: if_splits option.splits)
qed

lemma graph_keys:
  assumes "indexesTargets h (map_of nodes) tfs T" "r \<in> set (graphRefs env h T nodes)"
  shows "rr_holder r \<in> fst ` set nodes" "rr_target r \<in> fst ` set nodes"
proof -
  have "targets_in T (fst ` set nodes)"
  proof (unfold targets_in_def, intro ballI)
    fix q assume "q \<in> ran T"
    then obtain key where "T key = Some (fst q, snd q)" by (auto simp: ran_def)
    then have "fst q \<in> keyHolders h (map_of nodes) tfs key" using indexes_some[OF assms(1)] by blast
    then show "fst q \<in> fst ` set nodes" by (auto simp: keyHolders_def split: prod.splits dest!: map_of_SomeD intro: image_eqI[rotated])
  qed
  then show "rr_holder r \<in> fst ` set nodes" "rr_target r \<in> fst ` set nodes" using refs_are_nodes[OF assms(2)] by blast+
qed

lemma strangers:
  assumes "\<forall>r \<in> set rs. rr_holder r \<in> K \<and> rr_target r \<in> K" "c \<notin> K"
  shows "ownHolders rs c = []" "backTargets rs c = []" "owner_agrees rs c" "ownerOf rs c = None"
proof -
  show o: "ownHolders rs c = []" "backTargets rs c = []" using assms by (auto simp: ownHolders_def backTargets_def filter_empty_conv)
  then show "owner_agrees rs c" "ownerOf rs c = None" by (simp_all add: owner_agrees_def ownerOf_def)
qed

lemma full_build:
  assumes "distinct (map fst nodes)" "distinct tfs" "set tfs = lookupFields env (fst ` set nodes)" "indexesTargets h (map_of nodes) tfs T"
  shows "if acceptable env h nodes T
    then \<exists>m. buildRelationModelFromTargets env h nodes T tfs = Inr m \<and> describes env h m \<and> rm_nodes m = nodes \<and> rm_targets m = T \<and> rm_targetFields m = tfs
    else \<exists>e. buildRelationModelFromTargets env h nodes T tfs = Inl e"
proof -
  let ?rs = "graphRefs env h T nodes"
  define ini where "ini = \<lparr>scanned = emptyModel nodes T tfs, incoming = noIncoming, ownedBy = (\<lambda>_. None)\<rparr>"
  have "scan_ok ini" "rm_targets (scanned ini) = T" by (simp_all add: scan_ok_def ini_def emptyModel_def noIncoming_def)
  note S = scan_node_list[OF this, of nodes env h]
  have keys: "\<forall>r \<in> set ?rs. rr_holder r \<in> fst ` set nodes \<and> rr_target r \<in> fst ` set nodes" using graph_keys[OF assms(4)] by blast
  show ?thesis
  proof (cases "\<forall>n \<in> set nodes. nodeScans env h T n")
    case False
    then show ?thesis using S[unfolded if_not_P[OF False]]
      by (auto simp: buildRelationModelFromTargets_def scanRelations_def ini_def acceptable_def)
  next
    case True
    then obtain st where st: "scanRelations env h nodes T tfs = Inr st" "scan_ok st" "same_frame (scanned ini) (scanned st)"
      "refs (scanned st) = refs (scanned ini) @ ?rs" "grew ini st (concat (map (nodeUnresolved env h T) nodes)) (concat (map (nodeMissing env h T) nodes))"
      using S[unfolded if_P[OF True]] unfolding scanRelations_def ini_def by blast
    have rs: "refs (scanned st) = ?rs" using st(4) by (simp add: ini_def emptyModel_def)
    have frame: "rm_nodes (scanned st) = nodes" "rm_targets (scanned st) = T" "rm_targetFields (scanned st) = tfs"
      "owners (scanned st) = []" "outgoing (scanned st) = []" using st(3) by (simp_all add: same_frame_def ini_def emptyModel_def)
    note A = attach_nodes[OF st(2), of "map fst nodes" "scanned st", unfolded rs]
    show ?thesis
    proof (cases "\<forall>c \<in> set (map fst nodes). owner_agrees ?rs c")
      case no: False
      then have "\<not> acceptable env h nodes T" by (auto simp: acceptable_def)
      then show ?thesis using A[unfolded if_not_P[OF no]] st(1) by (auto simp: buildRelationModelFromTargets_def)
    next
      case yes: True
      then obtain m where m: "fold_result (attachNodeOwner (incoming st) (ownedBy st)) (map fst nodes) (scanned st) = Inr m"
        "attached ?rs (map fst nodes) (scanned st) m" using A[unfolded if_P[OF yes]] by blast
      have agree: "owner_agrees ?rs c" for c using yes strangers(3)[OF keys, of c] by (cases "c \<in> fst ` set nodes") auto
      have own: "map_of (owners m) c = ownerOf ?rs c" for c
      proof (cases "c \<in> fst ` set nodes")
        case True
        then show ?thesis using m(2) frame(4) by (auto simp: attached_def)
      next
        case False
        then have "map_of (owners m) c = None" using m(2) frame(4) by (auto simp: attached_def)
        then show ?thesis using strangers(4)[OF keys False] by simp
      qed
      have edges: "ownerEdges (owners m) = {(c, w). ownerOf ?rs c = Some w}" by (simp add: ownerEdges_def own)
      have parts: "rm_nodes m = nodes" "rm_targets m = T" "rm_targetFields m = tfs" "refs m = ?rs"
        "unresolved m = concat (map (nodeUnresolved env h T) nodes)" "missing m = concat (map (nodeMissing env h T) nodes)"
        using m(2) frame rs st(5) by (simp_all add: attached_def grew_def ini_def emptyModel_def)
      have "fst ` set (owners m) \<subseteq> set (map fst nodes)"
      proof
        fix c assume "c \<in> fst ` set (owners m)"
        then have "ownerOf ?rs c \<noteq> None" using own by (metis map_of_eq_None_iff)
        then show "c \<in> set (map fst nodes)" using strangers(4)[OF keys, of c] by force
      qed
      from validateOwnershipCycles_conv[OF this]
      have V: "validateOwnershipCycles (map fst nodes) (owners m) = Inr () \<longleftrightarrow> acyclic (ownerEdges (owners m))" .
      have acc: "acceptable env h nodes T \<longleftrightarrow> acyclic (ownerEdges (owners m))" using True agree by (simp add: acceptable_def edges)
      have build: "buildRelationModelFromTargets env h nodes T tfs = bind_result (validateOwnershipCycles (map fst nodes) (owners m)) (\<lambda>_. Inr m)"
        using st(1) m(1) by (simp add: buildRelationModelFromTargets_def)
      show ?thesis
      proof (cases "acyclic (ownerEdges (owners m))")
        case cyc: True
        have "distinct (map fst (owners m))" by (rule attach_distinct[OF m(1)]) (simp add: frame)
        moreover have "childList (outgoing m) w = filter (\<lambda>c. ownerOf ?rs c = Some w) (map fst nodes)" for w
          using m(2) frame(5) by (simp add: attached_def childList_conv)
        moreover have "c \<in> set (map fst nodes)" if "ownerOf ?rs c \<noteq> None" for c using strangers(4)[OF keys, of c] that by force
        ultimately have "ownersOk m" unfolding ownersOk_def using own agree cyc parts(4) assms(1) by (auto intro: distinct_filter)
        moreover have "filter (\<lambda>u. fst u = k) (concat (map (nodeUnresolved env h T) nodes)) = partsAt (nodeUnresolved env h T) nodes k"
          "filter (\<lambda>u. fst u = k) (concat (map (nodeMissing env h T) nodes)) = partsAt (nodeMissing env h T) nodes k" for k
          by (rule parts_of_nodes[OF assms(1)], erule part_keys)+
        ultimately have "describes env h m"
          unfolding describes_def parts using assms True graph_refs_at[OF assms(1)] by blast
        then show ?thesis using V cyc acc build parts by simp
      next
        case False
        then obtain e where "validateOwnershipCycles (map fst nodes) (owners m) = Inl e" using V by (cases "validateOwnershipCycles (map fst nodes) (owners m)") auto
        then show ?thesis using False acc build by simp
      qed
    qed
  qed
qed

lemma described_accepted:
  assumes "describes env h m"
  shows "acceptable env h (rm_nodes m) (rm_targets m)"
proof -
  let ?rs = "graphRefs env h (rm_targets m) (rm_nodes m)"
  have d: "distinct (map fst (rm_nodes m))" using assms by (simp add: describes_def)
  have same: "filter (\<lambda>r. rr_holder r = k) (refs m) = filter (\<lambda>r. rr_holder r = k) ?rs" for k
    using assms unfolding graph_refs_at[OF d] describes_def by blast
  have agree: "owner_agrees (refs m) c" for c using assms by (simp add: describes_def ownersOk_def)
  then have "owner_agrees ?rs c" for c using same_refs(1)[OF same] by blast
  moreover have "ownerOf ?rs c = map_of (owners m) c" for c using same_refs(2)[OF same] agree assms by (simp add: describes_def ownersOk_def)
  then have "{(c, w). ownerOf ?rs c = Some w} = ownerEdges (owners m)" by (simp add: ownerEdges_def)
  ultimately show ?thesis using assms unfolding acceptable_def describes_def ownersOk_def by auto
qed

text \<open>Two lists of the same rows with two indexes of them are accepted alike.\<close>

lemma parts_unique:
  assumes "\<And>r p. resolveGraphTarget h T r p = resolveGraphTarget h T' r p"
  shows "nodeRefs env h T = nodeRefs env h T'" "nodeScans env h T = nodeScans env h T'"
    "nodeUnresolved env h T = nodeUnresolved env h T'" "nodeMissing env h T = nodeMissing env h T'"
proof -
  have "fieldRefs h T = fieldRefs h T'" "fieldScans h T = fieldScans h T'" "fieldUnresolved h T = fieldUnresolved h T'" "fieldMissing h T = fieldMissing h T'"
    using assms by (simp_all add: fun_eq_iff fieldRefs_def fieldTargets_def fieldScans_def fieldUnresolved_def fieldMissing_def)
  then show "nodeRefs env h T = nodeRefs env h T'" "nodeScans env h T = nodeScans env h T'"
    "nodeUnresolved env h T = nodeUnresolved env h T'" "nodeMissing env h T = nodeMissing env h T'"
    by (intro ext; simp only: node_refs nodeScans_def nodeUnresolved_def nodeMissing_def)+
qed

lemma nodes_eq: "distinct (map fst nodes) \<Longrightarrow> distinct (map fst nodes') \<Longrightarrow> map_of nodes = map_of nodes' \<Longrightarrow> set nodes = set nodes'"
  by (metis map_of_inject_set)

lemma accepted_alike:
  assumes "distinct (map fst nodes)" "distinct (map fst nodes')" "map_of nodes = map_of nodes'" "set tfs = set tfs'"
    and "indexesTargets h (map_of nodes) tfs T" "indexesTargets h (map_of nodes') tfs' T'"
  shows "acceptable env h nodes T \<longleftrightarrow> acceptable env h nodes' T'"
proof -
  have T: "resolveGraphTarget h T r p = resolveGraphTarget h T' r p" for r p using indexes_unique[OF assms(5) _ assms(4)] assms(3,6) by simp
  note P = parts_unique[OF T]
  have same: "filter (\<lambda>r. rr_holder r = k) (graphRefs env h T nodes) = filter (\<lambda>r. rr_holder r = k) (graphRefs env h T' nodes')" for k
    unfolding graph_refs_at[OF assms(1)] graph_refs_at[OF assms(2)] by (simp add: partsAt_def assms(3) P(1)[of env])
  have agree: "owner_agrees (graphRefs env h T nodes) c \<longleftrightarrow> owner_agrees (graphRefs env h T' nodes') c" for c by (rule same_refs(1)[OF same])
  have "(\<forall>n \<in> set nodes. nodeScans env h T n) \<longleftrightarrow> (\<forall>n \<in> set nodes'. nodeScans env h T' n)"
    using nodes_eq[OF assms(1-3)] P(2)[of env] by simp
  moreover have "ownerOf (graphRefs env h T nodes) c = ownerOf (graphRefs env h T' nodes') c" if "\<forall>c. owner_agrees (graphRefs env h T nodes) c" for c
    using same_refs(2)[OF same] that by blast
  ultimately show ?thesis unfolding acceptable_def using agree by (auto cong: conj_cong)
qed

section \<open>Which graphs are accepted\<close>

text \<open>
  The lookup of a key as a specification, without the index: the rows of the wanted type whose
  field carries the wanted value.
\<close>

definition rowsWithKey :: "'p heap \<Rightarrow> 'p nodes \<Rightarrow> relationTargetKey \<Rightarrow> nodeKey list" where
  "rowsWithKey h nodes key =
     map fst (filter (\<lambda>n. nk_type (fst n) = fst key \<and> relationKey h (Some (snd n)) (fst (snd key)) = Some (snd (snd key))) nodes)"

definition rowTargets :: "'p heap \<Rightarrow> 'p nodes \<Rightarrow> targetIndex" where
  "rowTargets h nodes key =
     (case rowsWithKey h nodes key of [] \<Rightarrow> None | k # ks \<Rightarrow> Some (k, ks \<noteq> []))"

definition row_scans :: "typeEnv \<Rightarrow> 'p heap \<Rightarrow> 'p nodes \<Rightarrow> nodeKey \<times> 'p \<Rightarrow> bool" where
  "row_scans env h nodes n \<longleftrightarrow>
     (\<exists>specs. relationSpecs env (nk_type (fst n)) = Inr specs \<and>
        (\<forall>s \<in> set specs. kind s \<noteq> InverseRelation \<longrightarrow>
           (\<forall>p \<in> set (fieldPointers h (snd n) s). \<forall>key. graphRelationTargetKey h s p = Some key \<longrightarrow> length (rowsWithKey h nodes key) \<le> 1) \<and>
           (many s \<and> kind s = OwnRelation \<longrightarrow> distinct (fieldTargets h (rowTargets h nodes) (snd n) s))))"

lemma rows_with_key:
  assumes "distinct (map fst nodes)" "(fst key, fst (snd key)) \<in> set tfs"
  shows "set (rowsWithKey h nodes key) = keyHolders h (map_of nodes) tfs key" "distinct (rowsWithKey h nodes key)"
  using assms by (force simp: rowsWithKey_def keyHolders_def distinct_map_filter split: prod.splits)+

lemma row_target:
  assumes "distinct (map fst nodes)" "indexesTargets h (map_of nodes) tfs T" "(fst key, fst (snd key)) \<in> set tfs"
  shows "case rowTargets h nodes key of None \<Rightarrow> T key = None | Some (k, d) \<Rightarrow> \<exists>k'. T key = Some (k', d) \<and> (\<not> d \<longrightarrow> k' = k)"
proof -
  note K = rows_with_key[OF assms(1,3), of h]
  show ?thesis
  proof (cases "rowsWithKey h nodes key")
    case Nil
    then show ?thesis using K(1) indexes_none[OF assms(2)] by (simp add: rowTargets_def)
  next
    case (Cons k ks)
    have "T key \<noteq> None" using Cons K(1) indexes_none[OF assms(2), of key] by auto
    then obtain k' d where T: "T key = Some (k', d)" by auto
    have "k' \<in> set (k # ks)" "d \<longleftrightarrow> set (k # ks) \<noteq> {k'}" using indexes_some[OF assms(2) T] K(1) Cons by simp_all
    moreover have "distinct (k # ks)" using K(2) Cons by simp
    ultimately have "d \<longleftrightarrow> ks \<noteq> []" "ks = [] \<longrightarrow> k' = k" by (cases ks; auto)+
    then show ?thesis using Cons T by (simp add: rowTargets_def)
  qed
qed

lemma row_resolve:
  assumes "distinct (map fst nodes)" "indexesTargets h (map_of nodes) tfs T" "(target s, lookupField s) \<in> set tfs"
  shows "resolveGraphTarget h T s p = resolveGraphTarget h (rowTargets h nodes) s p"
    and "(\<exists>t. resolveGraphTarget h T s p = Inr t) \<longleftrightarrow> (\<forall>key. graphRelationTargetKey h s p = Some key \<longrightarrow> length (rowsWithKey h nodes key) \<le> 1)"
proof -
  have "resolveGraphTarget h T s p = resolveGraphTarget h (rowTargets h nodes) s p \<and>
    ((\<exists>t. resolveGraphTarget h (rowTargets h nodes) s p = Inr t) \<longleftrightarrow>
     (\<forall>key. graphRelationTargetKey h s p = Some key \<longrightarrow> length (rowsWithKey h nodes key) \<le> 1))"
  proof (cases "graphRelationTargetKey h s p")
    case None
    then show ?thesis by (simp add: resolveGraphTarget_def)
  next
    case (Some key)
    then have "(fst key, fst (snd key)) \<in> set tfs" using assms(3) by (auto simp: graphRelationTargetKey_def)
    from row_target[OF assms(1,2) this] show ?thesis
      unfolding resolveGraphTarget_def Some rowTargets_def by (auto split: list.splits)
  qed
  then show "resolveGraphTarget h T s p = resolveGraphTarget h (rowTargets h nodes) s p"
    "(\<exists>t. resolveGraphTarget h T s p = Inr t) \<longleftrightarrow> (\<forall>key. graphRelationTargetKey h s p = Some key \<longrightarrow> length (rowsWithKey h nodes key) \<le> 1)"
    by simp_all
qed

lemma row_parts:
  assumes "distinct (map fst nodes)" "indexesTargets h (map_of nodes) tfs T" "set tfs = lookupFields env (fst ` set nodes)"
  shows "n \<in> set nodes \<Longrightarrow> nodeScans env h T n \<longleftrightarrow> row_scans env h nodes n"
    and "graphRefs env h T nodes = graphRefs env h (rowTargets h nodes) nodes"
proof -
  have field: "(target s, lookupField s) \<in> set tfs" if "n \<in> set nodes" "s \<in> set (nodeSpecs env n)" for n s
  proof -
    have "s \<in> set (nodeSpecs env (fst n, ()))" using that(2) nodeSpecs_key[of env "fst n" "snd n"] by simp
    then show ?thesis using that(1) unfolding assms(3) lookupFields_def by blast
  qed
  note R = row_resolve[OF assms(1,2) field]
  have ts: "fieldTargets h T (snd n) s = fieldTargets h (rowTargets h nodes) (snd n) s" if "n \<in> set nodes" "s \<in> set (nodeSpecs env n)" for n s
    by (simp add: fieldTargets_def R(1)[OF that])
  have "nodeRefs env h T n = nodeRefs env h (rowTargets h nodes) n" if "n \<in> set nodes" for n
    unfolding node_refs by (intro arg_cong[where f = concat] map_cong) (simp_all add: fieldRefs_def ts[OF that])
  then show "graphRefs env h T nodes = graphRefs env h (rowTargets h nodes) nodes"
    unfolding graphRefs_def by (intro arg_cong[where f = concat] map_cong) simp_all
  assume n: "n \<in> set nodes"
  have "fieldScans h T n s \<longleftrightarrow>
      (\<forall>p \<in> set (fieldPointers h (snd n) s). \<forall>key. graphRelationTargetKey h s p = Some key \<longrightarrow> length (rowsWithKey h nodes key) \<le> 1) \<and>
      (many s \<and> kind s = OwnRelation \<longrightarrow> distinct (fieldTargets h (rowTargets h nodes) (snd n) s))"
    if "s \<in> set (nodeSpecs env n)" for s
    unfolding fieldScans_def R(2)[OF n that] ts[OF n that] by (rule refl)
  then show "nodeScans env h T n \<longleftrightarrow> row_scans env h nodes n"
    unfolding nodeScans_def row_scans_def by (auto simp: nodeSpecs_def)
qed

text \<open>
  C14. \<open>buildRelationModel\<close> succeeds exactly when every row can be scanned and ownership is a
  forest. A row can be scanned when the tags of its type are accepted, every key that a pointer of
  it looks up is carried by at most one row, and no \<open>own\<close> slice names a child twice; ownership is a
  forest when no row is held by two \<open>own\<close> fields, the \<open>own\<close> and \<open>ownedby\<close> edges of a row name one
  owner, and there is no cycle. The model then holds every resolved relation in scan order, its
  owner map is the ownership relation, and the children of a row are listed once each. The rows are
  typed: a to-one field holds one pointer, and a type has at most one \<open>ownedby\<close> field, as the schema
  demands.
\<close>

theorem relation_model_is_a_forest:
  assumes "typed_graph env h nodes" and "rs = graphRefs env h (rowTargets h nodes) nodes"
  shows "((\<exists>m. buildRelationModel env h nodes = Inr m) \<longleftrightarrow>
      (\<forall>n \<in> set nodes. row_scans env h nodes n) \<and>
      (\<forall>c. length (ownHolders rs c) \<le> 1) \<and> single_valued ((owns rs)\<inverse>) \<and> acyclic (owns rs)) \<and>
    (\<forall>m. buildRelationModel env h nodes = Inr m \<longrightarrow>
      refs m = rs \<and> ownerEdges (owners m) = (owns rs)\<inverse> \<and>
      (\<forall>w. case_option [] id (map_of (outgoing m) w) = filter (\<lambda>c. (w, c) \<in> owns rs) (map fst nodes)))"
proof -
  have d: "distinct (map fst nodes)" using assms(1) by (simp add: typed_graph_def)
  show ?thesis
  proof (cases "\<forall>n \<in> set nodes. \<exists>specs. relationSpecs env (nk_type (fst n)) = Inr specs")
    case False
    then obtain e where "relationTargetFields env nodes = Inl e" using target_fields[of nodes env, unfolded if_not_P[OF False]] by blast
    then show ?thesis using False by (auto simp: buildRelationModel_def row_scans_def)
  next
    case True
    then obtain tfs where tfs: "relationTargetFields env nodes = Inr tfs" "distinct tfs" "set tfs = lookupFields env (fst ` set nodes)"
      using target_fields[of nodes env, unfolded if_P[OF True]] by blast
    define T where "T = buildRelationTargetIndexFromFields h nodes tfs"
    have T: "indexesTargets h (map_of nodes) tfs T" unfolding T_def by (rule index_nodes[OF d tfs(2)])
    note P = row_parts[OF d T tfs(3)]
    have rs: "rs = graphRefs env h T nodes" unfolding assms(2) P(2) by (rule refl)
    show ?thesis
    proof (cases "\<forall>n \<in> set nodes. nodeScans env h T n")
      case False
      then have "\<not> acceptable env h nodes T" by (simp add: acceptable_def)
      then obtain e where "buildRelationModelFromTargets env h nodes T tfs = Inl e" using full_build[OF d tfs(2,3) T] by auto
      then have "\<nexists>m. buildRelationModel env h nodes = Inr m" by (simp add: buildRelationModel_def tfs(1) T_def)
      then show ?thesis using False P(1) by blast
    next
      case scans: True
      define ini where "ini = \<lparr>scanned = emptyModel nodes T tfs, incoming = noIncoming, ownedBy = (\<lambda>_. None)\<rparr>"
      have "scan_ok ini" "rm_targets (scanned ini) = T" by (simp_all add: scan_ok_def ini_def emptyModel_def noIncoming_def)
      from scan_node_list[OF this, of nodes env h, unfolded if_P[OF scans]]
      obtain st where "scanRelations env h nodes T tfs = Inr st" unfolding scanRelations_def ini_def by blast
      from model_conv[OF assms(1) tfs(1) T_def this rs] show ?thesis using scans P(1) by blast
    qed
  qed
qed

end
