(* ===== verification/Model_Delta.thy ===== *)
theory Model_Delta
  imports Model_Scan Index_Build
begin

text \<open>
  Validation of a transaction that changes the relation graph (\<open>engine.go\<close>, \<open>relation_runtime.go\<close>):
  the state it starts from, the model built from the committed one by scanning only the changed
  rows, and the deletion closure and required relations it checks. The incremental model is the one
  that a scan of all rows would give.
\<close>

section \<open>The model from the committed one\<close>

definition markOwnershipTarget :: "nodeKey list \<Rightarrow> resolvedRelation \<Rightarrow> nodeKey list" where
  "markOwnershipTarget aff r =
     (case kind (rr_spec r) of
        OwnRelation \<Rightarrow> List.insert (rr_target r) aff
      | OwnedByRelation \<Rightarrow> List.insert (rr_holder r) aff
      | _ \<Rightarrow> aff)"

text \<open>Holders of lookups that now have a target; \<open>None\<close> is the zero value of a row that is missing.\<close>

definition rescanResolved ::
  "targetIndex \<Rightarrow> 'p nodes \<Rightarrow> (nodeKey \<times> relationSpec \<times> relationTargetKey) list \<Rightarrow> (nodeKey \<times> 'p option) list \<Rightarrow> (nodeKey \<times> 'p option) list" where
  "rescanResolved targets nodes us rescan =
     foldl (\<lambda>rs u. if targets (snd (snd u)) = None then rs else AList.update (fst u) (map_of nodes (fst u)) rs) rescan us"

definition scanRescan :: "typeEnv \<Rightarrow> 'p heap \<Rightarrow> 'p nodes \<Rightarrow> 'p scanState \<Rightarrow> nodeKey \<times> 'p option \<Rightarrow> 'p scanState result" where
  "scanRescan env h nodes st q =
     (if map_of nodes (fst q) = None then Inr st
      else case snd q of None \<Rightarrow> Inl (Panic ''zero Value'') | Some a \<Rightarrow> scanNodeRelations env h st (fst q, a))"

text \<open>The keys of the two maps that a scan fills.\<close>

definition scannedChildren :: "'p scanState \<Rightarrow> nodeKey list" where
  "scannedChildren st =
     filter (\<lambda>c. 0 < io_count (incoming st c)) (map rr_target (refs (scanned st))) @
     filter (\<lambda>c. ownedBy st c \<noteq> None) (map rr_holder (refs (scanned st)))"

definition collectOwner ::
  "nodeKey list \<Rightarrow> (nodeKey \<Rightarrow> incomingOwns) \<times> (nodeKey \<Rightarrow> nodeKey option) \<Rightarrow> resolvedRelation \<Rightarrow>
   (nodeKey \<Rightarrow> incomingOwns) \<times> (nodeKey \<Rightarrow> nodeKey option)" where
  "collectOwner aff st r =
     (let inc = (if kind (rr_spec r) = OwnRelation \<and> rr_target r \<in> set aff
                 then (fst st)(rr_target r := addOwn (fst st (rr_target r)) (rr_holder r)) else fst st);
          back = (if kind (rr_spec r) = OwnedByRelation \<and> rr_holder r \<in> set aff
                  then (snd st)(rr_holder r \<mapsto> rr_target r) else snd st)
      in (inc, back))"

definition reattachOwner ::
  "(nodeKey \<Rightarrow> incomingOwns) \<Rightarrow> (nodeKey \<Rightarrow> nodeKey option) \<Rightarrow> 'p relationModel \<Rightarrow> nodeKey \<Rightarrow> 'p relationModel result" where
  "reattachOwner inc back m child = attachNodeOwner inc back (m\<lparr>owners := AList.delete child (owners m)\<rparr>) child"

definition ownerChildren :: "(nodeKey \<times> nodeKey) list \<Rightarrow> (nodeKey \<times> nodeKey list) list" where
  "ownerChildren os = foldl (\<lambda>out q. addChild (snd q) (fst q) out) [] os"

function changedWalk :: "(nodeKey \<times> nodeKey) list \<Rightarrow> nodeKey list \<Rightarrow> nodeKey \<Rightarrow> unit result" where
  "changedWalk os seen at =
     (if at \<in> set seen then Inl (ErrRelationInvariant ''ownership cycle'')
      else case map_of os at of None \<Rightarrow> Inr () | Some w \<Rightarrow> changedWalk os (at # seen) w)"
  by pat_completeness auto

termination
proof (relation "measure (\<lambda>(os, seen, at). card (fst ` set os - set seen))", goal_cases)
  case (2 os seen at w)
  then have "at \<in> fst ` set os" by (auto dest: map_of_SomeD intro: image_eqI[rotated])
  then have "fst ` set os - set (at # seen) \<subset> fst ` set os - set seen" using 2(1) by auto
  then have "card (fst ` set os - set (at # seen)) < card (fst ` set os - set seen)" by (intro psubset_card_mono) simp_all
  then show ?case by (simp only: in_measure case_prod_conv)
qed simp

declare changedWalk.simps [simp del]

definition validateChangedOwnershipCycles :: "(nodeKey \<times> nodeKey) list \<Rightarrow> nodeKey list \<Rightarrow> unit result" where
  "validateChangedOwnershipCycles os changed = fold_result (\<lambda>_ start. changedWalk os [] start) changed ()"

definition deltaStart :: "'p relationModel \<Rightarrow> 'p nodes \<Rightarrow> targetIndex \<Rightarrow> nodeKey list \<Rightarrow> 'p relationModel" where
  "deltaStart committed nodes targets changed =
     \<lparr>rm_nodes = nodes, rm_targets = targets, rm_targetFields = rm_targetFields committed,
      refs = filter (\<lambda>r. rr_holder r \<notin> set changed) (refs committed),
      unresolved = filter (\<lambda>u. fst u \<notin> set changed) (unresolved committed), missing = [],
      owners = owners committed, outgoing = []\<rparr>"

definition oldTargets :: "'p relationModel \<Rightarrow> nodeKey list \<Rightarrow> nodeKey list" where
  "oldTargets committed changed = foldl markOwnershipTarget [] (filter (\<lambda>r. rr_holder r \<in> set changed) (refs committed))"

definition buildRelationModelDelta ::
  "typeEnv \<Rightarrow> 'p heap \<Rightarrow> 'p relationModel \<Rightarrow> 'p nodes \<Rightarrow> targetIndex \<Rightarrow> (nodeKey \<times> 'p option) list \<Rightarrow> 'p relationModel result" where
  "buildRelationModelDelta env h committed nodes targets overrides =
     (let rescan = rescanResolved targets nodes (unresolved committed) overrides; changed = map fst rescan in
      bind_result
        (fold_result (scanRescan env h nodes) rescan
           \<lparr>scanned = deltaStart committed nodes targets changed, incoming = noIncoming, ownedBy = (\<lambda>_. None)\<rparr>)
        (\<lambda>st. let affected = remdups (oldTargets committed changed @ scannedChildren st);
                  edges = foldl (collectOwner affected) (noIncoming, (\<lambda>_. None)) (refs (scanned st))
              in bind_result (fold_result (reattachOwner (fst edges) (snd edges)) affected (scanned st))
                   (\<lambda>m. let m' = m\<lparr>outgoing := ownerChildren (owners m)\<rparr>
                        in bind_result (validateChangedOwnershipCycles (owners m') affected) (\<lambda>_. Inr m'))))"

section \<open>What the validation starts from\<close>

record 'p transactionRelationState =
  trs_committed :: "'p relationModel option"
  trs_nodes :: "'p nodes"
  trs_targets :: targetIndex
  trs_targetFields :: "(string \<times> string) list"
  trs_rebuild :: bool

definition relationModelHasType :: "'p relationModel \<Rightarrow> string \<Rightarrow> bool" where
  "relationModelHasType m t \<longleftrightarrow> list_ex (\<lambda>n. nk_type (fst n) = t) (rm_nodes m)"

definition fieldsOfType :: "(string \<times> string) list \<Rightarrow> string \<Rightarrow> string list" where
  "fieldsOfType tfs t = map snd (filter (\<lambda>q. fst q = t) tfs)"

definition relationNodeTargetsOverlap :: "'p heap \<Rightarrow> targetIndex \<Rightarrow> nodeKey \<times> 'p \<Rightarrow> string list \<Rightarrow> bool" where
  "relationNodeTargetsOverlap h targets n names =
     list_ex (\<lambda>f. case relationKey h (Some (snd n)) f of None \<Rightarrow> False | Some v \<Rightarrow> targets (nk_type (fst n), f, v) \<noteq> None) names"

text \<open>Lookup fields are scalars (\<open>validateScalarMatchField\<close>).\<close>

definition relationTargetKeysChanged :: "'p heap \<Rightarrow> 'p nodes \<Rightarrow> 'p nodes \<Rightarrow> (string \<times> string) list \<Rightarrow> bool" where
  "relationTargetKeysChanged h overrides committed tfs =
     list_ex (\<lambda>q. case map_of committed (fst q) of
          None \<Rightarrow> False
        | Some old \<Rightarrow> list_ex (\<lambda>f. scalars (h old) f \<noteq> scalars (h (snd q)) f) (fieldsOfType tfs (nk_type (fst q)))) overrides"

definition overrideNodes :: "'p nodes \<Rightarrow> 'p nodes \<Rightarrow> 'p nodes" where
  "overrideNodes nodes overrides = foldl (\<lambda>ns q. AList.update (fst q) (snd q) ns) nodes overrides"

definition addCreatedTargets ::
  "'p heap \<Rightarrow> (string \<times> string) list \<Rightarrow> 'p nodes \<Rightarrow> targetIndex \<times> bool \<Rightarrow> nodeKey \<Rightarrow> targetIndex \<times> bool" where
  "addCreatedTargets h tfs nodes st key =
     (case map_of nodes key of
        None \<Rightarrow> st
      | Some a \<Rightarrow> (indexRelationNodeTargets h tfs (fst st) (key, a),
                   relationNodeTargetsOverlap h (fst st) (key, a) (fieldsOfType tfs (nk_type key)) \<or> snd st))"

definition prepareTransactionRelationState ::
  "typeEnv \<Rightarrow> 'p heap \<Rightarrow> (string \<times> 'p list) list \<Rightarrow> 'p relationModel option \<Rightarrow> 'p nodes \<Rightarrow> nodeKey list \<Rightarrow> 'p transactionRelationState result" where
  "prepareTransactionRelationState env h stores graph overrides creates =
     (case graph of
        None \<Rightarrow>
          bind_result (collectRelationNodesWithOverrides h stores False [] overrides)
            (\<lambda>nodes. bind_result (relationTargetFields env nodes)
               (\<lambda>tfs. Inr \<lparr>trs_committed = None, trs_nodes = nodes,
                   trs_targets = buildRelationTargetIndexFromFields h nodes tfs, trs_targetFields = tfs, trs_rebuild = True\<rparr>))
      | Some committed \<Rightarrow>
          let nodes = overrideNodes (rm_nodes committed) overrides; tfs = rm_targetFields committed in
          if list_ex (\<lambda>k. \<not> relationModelHasType committed (nk_type k)) creates
          then bind_result (relationTargetFields env nodes)
            (\<lambda>tfs. Inr \<lparr>trs_committed = Some committed, trs_nodes = nodes,
                trs_targets = buildRelationTargetIndexFromFields h nodes tfs, trs_targetFields = tfs, trs_rebuild = True\<rparr>)
          else if relationTargetKeysChanged h overrides (rm_nodes committed) tfs
          then Inr \<lparr>trs_committed = Some committed, trs_nodes = nodes,
                trs_targets = buildRelationTargetIndexFromFields h nodes tfs, trs_targetFields = tfs, trs_rebuild = True\<rparr>
          else if creates = []
          then Inr \<lparr>trs_committed = Some committed, trs_nodes = nodes, trs_targets = rm_targets committed,
                trs_targetFields = tfs, trs_rebuild = False\<rparr>
          else let r = foldl (addCreatedTargets h tfs nodes) (rm_targets committed, False) creates
               in Inr \<lparr>trs_committed = Some committed, trs_nodes = nodes, trs_targets = fst r, trs_targetFields = tfs, trs_rebuild = snd r\<rparr>)"

definition transactionOverrides :: "'p touchedResource list \<Rightarrow> 'p nodes \<Rightarrow> 'p nodes" where
  "transactionOverrides resources creates =
     overrideNodes (overrideNodes [] (map (\<lambda>r. (NodeKey (tr_dbName r) (tr_id r), tr_work r)) resources)) creates"

definition validateTransactionGraph ::
  "typeEnv \<Rightarrow> 'p heap \<Rightarrow> (string \<times> 'p list) list \<Rightarrow> 'p committedOwnership \<Rightarrow> 'p touchedResource list \<Rightarrow> 'p nodes \<Rightarrow> nodeKey list \<Rightarrow>
   ('p relationModel \<times> nodeKey list) result" where
  "validateTransactionGraph env h stores co resources creates deletes =
     (let overrides = transactionOverrides resources creates in
      bind_result (prepareTransactionRelationState env h stores (co_graph co) overrides (map fst creates))
        (\<lambda>s. bind_result
           (if trs_rebuild s then buildRelationModelFromTargets env h (trs_nodes s) (trs_targets s) (trs_targetFields s)
            else case trs_committed s of
              None \<Rightarrow> Inl (Panic ''nil pointer'')
            | Some committed \<Rightarrow>
                buildRelationModelDelta env h committed (trs_nodes s) (trs_targets s) (map (\<lambda>q. (fst q, Some (snd q))) overrides))
           (\<lambda>m. bind_result (deletionClosure m (co_outgoing co) deletes)
              (\<lambda>dead. bind_result (validateRequiredRelations m dead) (\<lambda>_. Inr (m, dead))))))"

section \<open>A scan that starts from kept references\<close>

definition withKept :: "resolvedRelation list \<Rightarrow> (nodeKey \<times> relationSpec \<times> relationTargetKey) list \<Rightarrow> 'p scanState \<Rightarrow> 'p scanState" where
  "withKept ks us st = st\<lparr>scanned := (scanned st)\<lparr>refs := ks @ refs (scanned st), unresolved := us @ unresolved (scanned st)\<rparr>\<rparr>"

lemma fold_result_rows:
  "(\<And>s x. f (g s) x = map_sum id g (f s x)) \<Longrightarrow> fold_result f xs (g s) = map_sum id g (fold_result f xs s)"
  by (induction xs arbitrary: s) (auto split: sum.split)

lemma kept_pointer:
  "scanRelationPointer h holder spec (seen, withKept ks us st) p = map_sum id (\<lambda>q. (fst q, withKept ks us (snd q))) (scanRelationPointer h holder spec (seen, st) p)"
  by (auto simp: scanRelationPointer_def withKept_def Let_def recordUnresolved_def recordResolvedRelation_def split: sum.split option.split)

lemma kept_node:
  "scanNodeRelations env h (withKept ks us st) n = map_sum id (withKept ks us) (scanNodeRelations env h st n)"
proof -
  have "fold_result (scanRelationPointer h k spec) ps (seen, withKept ks us st) =
      map_sum id (\<lambda>q. (fst q, withKept ks us (snd q))) (fold_result (scanRelationPointer h k spec) ps (seen, st))" for k spec ps seen st
  proof -
    let ?g = "\<lambda>q. (fst q, withKept ks us (snd q))"
    have "fold_result (scanRelationPointer h k spec) ps (?g (seen, st)) = map_sum id ?g (fold_result (scanRelationPointer h k spec) ps (seen, st))"
    proof (rule fold_result_rows)
      fix s :: "nodeKey set option \<times> 'a scanState" and p
      show "scanRelationPointer h k spec (?g s) p = map_sum id ?g (scanRelationPointer h k spec s p)" by (cases s) (simp add: kept_pointer)
    qed
    then show ?thesis by simp
  qed
  then have field: "scanRelationField h n (withKept ks us st) spec = map_sum id (withKept ks us) (scanRelationField h n st spec)" for st spec
    by (simp add: scanRelationField_def Let_def bind_result_def split: sum.split)
  have "fold_result (\<lambda>st spec. if kind spec = InverseRelation then Inr st else scanRelationField h n st spec) specs (withKept ks us st) =
      map_sum id (withKept ks us) (fold_result (\<lambda>st spec. if kind spec = InverseRelation then Inr st else scanRelationField h n st spec) specs st)" for specs
    by (rule fold_result_rows) (simp add: field)
  then show ?thesis by (simp add: scanNodeRelations_def bind_result_def split: sum.split)
qed

lemma kept_nodes:
  "fold_result (scanNodeRelations env h) ns (withKept ks us st) = map_sum id (withKept ks us) (fold_result (scanNodeRelations env h) ns st)"
  by (rule fold_result_rows) (rule kept_node)

section \<open>The rows that are scanned again\<close>

lemma rescan_resolved:
  assumes "distinct (map fst rescan)" "\<forall>q \<in> set rescan. snd q = map_of nodes (fst q)"
  shows "distinct (map fst (rescanResolved T nodes us rescan)) \<and>
    (\<forall>q \<in> set (rescanResolved T nodes us rescan). snd q = map_of nodes (fst q)) \<and>
    fst ` set (rescanResolved T nodes us rescan) = fst ` set rescan \<union> fst ` {u \<in> set us. T (snd (snd u)) \<noteq> None}"
  using assms
proof (induction us arbitrary: rescan)
  case (Cons u us)
  show ?case
  proof (cases "T (snd (snd u)) = None")
    case True
    then have "rescanResolved T nodes (u # us) rescan = rescanResolved T nodes us rescan" by (simp add: rescanResolved_def)
    moreover have "{v \<in> set (u # us). T (snd (snd v)) \<noteq> None} = {v \<in> set us. T (snd (snd v)) \<noteq> None}" using True by auto
    ultimately show ?thesis using Cons.IH[OF Cons.prems] by simp
  next
    case False
    let ?r = "AList.update (fst u) (map_of nodes (fst u)) rescan"
    have d: "distinct (map fst ?r)" using Cons.prems(1) by (rule distinct_update)
    have "map_of ?r k = Some v \<Longrightarrow> v = map_of nodes k" for k v
      using Cons.prems(2) by (auto simp: update_conv' split: if_splits dest!: map_of_SomeD)
    then have v: "\<forall>q \<in> set ?r. snd q = map_of nodes (fst q)" using d by (metis map_of_eq_Some_iff prod.collapse)
    have "rescanResolved T nodes (u # us) rescan = rescanResolved T nodes us ?r" using False by (simp add: rescanResolved_def del: not_None_eq)
    moreover have "fst ` set ?r = insert (fst u) (fst ` set rescan)" using dom_update[of "fst u" "map_of nodes (fst u)" rescan] by simp
    moreover have "{v \<in> set (u # us). T (snd (snd v)) \<noteq> None} = insert u {v \<in> set us. T (snd (snd v)) \<noteq> None}" using False by auto
    ultimately show ?thesis using Cons.IH[OF d v] by simp
  qed
qed (simp add: rescanResolved_def)

definition presentRows :: "'p nodes \<Rightarrow> nodeKey list \<Rightarrow> 'p nodes" where
  "presentRows nodes ks = List.map_filter (\<lambda>k. map_option (Pair k) (map_of nodes k)) ks"

lemma present_rows: "distinct ks \<Longrightarrow> distinct (map fst (presentRows nodes ks)) \<and>
   map_of (presentRows nodes ks) k = (if k \<in> set ks then map_of nodes k else None) \<and> set (presentRows nodes ks) \<subseteq> set nodes"
proof (induction ks)
  case (Cons j ks)
  have "fst ` set (presentRows nodes ks) \<subseteq> set ks" by (auto simp: presentRows_def List.map_filter_def)
  then show ?case using Cons by (cases "map_of nodes j") (auto simp: presentRows_def map_filter_simps dest: map_of_SomeD)
qed (simp add: presentRows_def map_filter_simps)

lemma scan_rescan:
  assumes "\<forall>q \<in> set rescan. snd q = map_of nodes (fst q)"
  shows "fold_result (scanRescan env h nodes) rescan st = fold_result (scanNodeRelations env h) (presentRows nodes (map fst rescan)) st"
  using assms
proof (induction rescan arbitrary: st)
  case (Cons q rescan)
  then show ?case by (cases "map_of nodes (fst q)") (auto simp: scanRescan_def presentRows_def map_filter_simps split: sum.split)
qed (simp add: presentRows_def map_filter_simps)

lemma node_cong:
  assumes "\<forall>s \<in> set (nodeSpecs env n). \<forall>p \<in> set (fieldPointers h (snd n) s). resolveGraphTarget h T s p = resolveGraphTarget h T' s p"
  shows "nodeRefs env h T n = nodeRefs env h T' n" "nodeScans env h T n = nodeScans env h T' n"
    "nodeUnresolved env h T n = nodeUnresolved env h T' n" "nodeMissing env h T n = nodeMissing env h T' n"
proof -
  have *: "fieldRefs h T n s = fieldRefs h T' n s" "fieldUnresolved h T n s = fieldUnresolved h T' n s" "fieldMissing h T n s = fieldMissing h T' n s"
    "fieldScans h T n s = fieldScans h T' n s" if "s \<in> set (nodeSpecs env n)" for s
  proof -
    have r: "resolveGraphTarget h T s p = resolveGraphTarget h T' s p" if "p \<in> set (fieldPointers h (snd n) s)" for p
      using assms \<open>s \<in> set (nodeSpecs env n)\<close> that by blast
    have mf: "List.map_filter f xs = List.map_filter g xs" if "\<And>x. x \<in> set xs \<Longrightarrow> f x = g x" for f g :: "'a option \<Rightarrow> 'b option" and xs
      using that by (induction xs) (auto simp: map_filter_simps split: option.split)
    have t: "fieldTargets h T (snd n) s = fieldTargets h T' (snd n) s"
      unfolding fieldTargets_def List.map_filter_def using r by (auto intro!: map_cong filter_cong)
    then show "fieldRefs h T n s = fieldRefs h T' n s" "fieldScans h T n s = fieldScans h T' n s" using r by (auto simp: fieldRefs_def fieldScans_def)
    show "fieldUnresolved h T n s = fieldUnresolved h T' n s" "fieldMissing h T n s = fieldMissing h T' n s"
      unfolding fieldUnresolved_def fieldMissing_def List.map_filter_def using r by (auto intro!: map_cong filter_cong)
  qed
  then show "nodeRefs env h T n = nodeRefs env h T' n" "nodeScans env h T n = nodeScans env h T' n"
    "nodeUnresolved env h T n = nodeUnresolved env h T' n" "nodeMissing env h T n = nodeMissing env h T' n"
    unfolding node_refs nodeScans_def nodeUnresolved_def nodeMissing_def by (auto intro!: arg_cong[of _ _ concat] map_cong)
qed

section \<open>Owners of the affected rows\<close>

definition ownEdgesOf :: "resolvedRelation list \<Rightarrow> nodeKey \<Rightarrow> incomingOwns" where
  "ownEdgesOf rs c = \<lparr>io_first = (if ownHolders rs c = [] then NodeKey [] 0 else hd (ownHolders rs c)), io_count = length (ownHolders rs c)\<rparr>"

definition backEdgeOf :: "resolvedRelation list \<Rightarrow> nodeKey \<Rightarrow> nodeKey option" where
  "backEdgeOf rs c = (if backTargets rs c = [] then None else Some (last (backTargets rs c)))"

lemma scan_ok_edges: "scan_ok st \<Longrightarrow> incoming st c = ownEdgesOf (refs (scanned st)) c \<and> ownedBy st c = backEdgeOf (refs (scanned st)) c"
  by (simp add: scan_ok_def Let_def ownEdgesOf_def backEdgeOf_def)

lemma collect_owners:
  "c \<in> set aff \<Longrightarrow> fst (foldl (collectOwner aff) (noIncoming, (\<lambda>_. None)) rs) c = ownEdgesOf rs c \<and>
     snd (foldl (collectOwner aff) (noIncoming, (\<lambda>_. None)) rs) c = backEdgeOf rs c"
proof (induction rs rule: rev_induct)
  case Nil
  then show ?case by (simp add: noIncoming_def ownEdgesOf_def backEdgeOf_def)
next
  case (snoc r rs)
  obtain inc bk where st: "foldl (collectOwner aff) (noIncoming, (\<lambda>_. None)) rs = (inc, bk)" by fastforce
  have IH: "inc c = ownEdgesOf rs c" "bk c = backEdgeOf rs c" using snoc st by simp_all
  have "ownEdgesOf (rs @ [r]) c = (if kind (rr_spec r) = OwnRelation \<and> rr_target r = c then addOwn (ownEdgesOf rs c) (rr_holder r) else ownEdgesOf rs c)"
    by (auto simp: ownEdgesOf_def addOwn_def ownHolders_def)
  moreover have "backEdgeOf (rs @ [r]) c = (if kind (rr_spec r) = OwnedByRelation \<and> rr_holder r = c then Some (rr_target r) else backEdgeOf rs c)"
    by (simp add: backEdgeOf_def backTargets_def)
  moreover have "foldl (collectOwner aff) (noIncoming, (\<lambda>_. None)) (rs @ [r]) = collectOwner aff (inc, bk) r" by (simp only: foldl_append foldl.simps st)
  ultimately show ?case using IH snoc.prems by (auto simp: collectOwner_def[of aff "(inc, bk)"])
qed

lemma attach_edges:
  assumes "inc c = ownEdgesOf rs c" "back c = backEdgeOf rs c"
  shows "attachNodeOwner inc back m c =
    (if owner_agrees rs c then (case ownerOf rs c of None \<Rightarrow> Inr m
       | Some w \<Rightarrow> Inr (m\<lparr>owners := AList.update c w (owners m), outgoing := addChild w c (outgoing m)\<rparr>))
     else Inl (ErrRelationInvariant (if 1 < length (ownHolders rs c) then ''has more than one owner'' else ''own and ownedby disagree'')))"
proof -
  define st :: "'a scanState" where "st = \<lparr>scanned = m\<lparr>refs := rs\<rparr>, incoming = ownEdgesOf rs, ownedBy = backEdgeOf rs\<rparr>"
  have "scan_ok st" by (simp add: scan_ok_def st_def ownEdgesOf_def backEdgeOf_def Let_def)
  then have "attachNodeOwner (incoming st) (ownedBy st) m c =
    (if \<not> owner_agrees (refs (scanned st)) c
     then Inl (ErrRelationInvariant (if 1 < length (ownHolders (refs (scanned st)) c) then ''has more than one owner'' else ''own and ownedby disagree''))
     else case ownerOf (refs (scanned st)) c of None \<Rightarrow> Inr m
     | Some w \<Rightarrow> Inr (m\<lparr>owners := AList.update c w (owners m), outgoing := addChild w c (outgoing m)\<rparr>))"
    by (rule attachNodeOwner_conv)
  moreover have st: "incoming st = ownEdgesOf rs" "ownedBy st = backEdgeOf rs" by (simp_all add: st_def)
  have "attachNodeOwner inc back m c = attachNodeOwner (incoming st) (ownedBy st) m c" unfolding attachNodeOwner_def assms st ..
  ultimately show ?thesis by (simp add: st_def)
qed

definition reowned :: "resolvedRelation list \<Rightarrow> nodeKey list \<Rightarrow> 'p relationModel \<Rightarrow> 'p relationModel \<Rightarrow> bool" where
  "reowned rs aff m m' \<longleftrightarrow>
     rm_nodes m' = rm_nodes m \<and> rm_targets m' = rm_targets m \<and> rm_targetFields m' = rm_targetFields m \<and>
     refs m' = refs m \<and> unresolved m' = unresolved m \<and> missing m' = missing m \<and>
     (\<forall>c. map_of (owners m') c = (if c \<in> set aff then ownerOf rs c else map_of (owners m) c)) \<and>
     (distinct (map fst (owners m)) \<longrightarrow> distinct (map fst (owners m')))"

lemma reattach_owners:
  assumes "\<forall>c \<in> set aff. inc c = ownEdgesOf rs c \<and> back c = backEdgeOf rs c"
  shows "if \<forall>c \<in> set aff. owner_agrees rs c
    then \<exists>m'. fold_result (reattachOwner inc back) aff m = Inr m' \<and> reowned rs aff m m'
    else \<exists>e. fold_result (reattachOwner inc back) aff m = Inl e"
  using assms
proof (induction aff arbitrary: m)
  case Nil
  then show ?case by (simp add: reowned_def)
next
  case (Cons c aff)
  have "inc c = ownEdgesOf rs c" "back c = backEdgeOf rs c" using Cons.prems by auto
  note edges = attach_edges[of inc c rs "back", OF this]
  show ?case
  proof (cases "owner_agrees rs c")
    case False
    then show ?thesis by (simp add: reattachOwner_def edges)
  next
    case True
    define m0 where "m0 = m\<lparr>owners := AList.delete c (owners m)\<rparr>"
    define m1 where "m1 = (case ownerOf rs c of None \<Rightarrow> m0
      | Some w \<Rightarrow> m0\<lparr>owners := AList.update c w (owners m0), outgoing := addChild w c (outgoing m0)\<rparr>)"
    have step: "fold_result (reattachOwner inc back) (c # aff) m = fold_result (reattachOwner inc back) aff m1"
      using True by (cases "ownerOf rs c") (simp_all add: reattachOwner_def edges m1_def m0_def)
    have "distinct (map fst (AList.delete c (owners m)))" if "distinct (map fst (owners m))" using that by (simp add: distinct_delete)
    then have d: "distinct (map fst (owners m1))" if "distinct (map fst (owners m))"
      using that by (cases "ownerOf rs c") (simp_all add: m1_def m0_def distinct_update)
    have o1: "map_of (owners m1) k = (if k = c then ownerOf rs c else map_of (owners m) k)" for k
      by (cases "ownerOf rs c") (auto simp: m1_def m0_def update_conv' delete_conv')
    have "rm_nodes m1 = rm_nodes m \<and> rm_targets m1 = rm_targets m \<and> rm_targetFields m1 = rm_targetFields m \<and>
        refs m1 = refs m \<and> unresolved m1 = unresolved m \<and> missing m1 = missing m"
      by (cases "ownerOf rs c") (simp_all add: m1_def m0_def)
    then have "reowned rs (c # aff) m m'" if "reowned rs aff m1 m'" for m' using that o1 d unfolding reowned_def by auto
    then show ?thesis using Cons.IH[of m1] Cons.prems True unfolding step by (auto split: if_splits)
  qed
qed

section \<open>Cycles among the changed owners\<close>

lemma changed_walk_ok:
  "changedWalk os seen at = Inr () \<Longrightarrow> (at, x) \<in> (ownerEdges os)\<^sup>* \<Longrightarrow> (x, x) \<notin> (ownerEdges os)\<^sup>+"
proof (induction os seen at arbitrary: x rule: changedWalk.induct)
  case (1 os seen at)
  let ?E = "ownerEdges os"
  have n: "at \<notin> set seen" using "1.prems"(1) by (auto simp: changedWalk.simps[of os seen at])
  show ?case
  proof (cases "map_of os at")
    case None
    then have "at \<notin> Domain ?E" by (auto simp: ownerEdges_def)
    then show ?thesis using "1.prems"(2) by (metis Not_Domain_rtrancl DomainI tranclD)
  next
    case (Some w)
    then have IH: "(w, y) \<in> ?E\<^sup>* \<Longrightarrow> (y, y) \<notin> ?E\<^sup>+" for y
      using "1.IH"[OF n Some] "1.prems"(1) n by (simp add: changedWalk.simps[of os seen at])
    have first: "(at, y) \<in> ?E \<Longrightarrow> y = w" for y using Some by (simp add: ownerEdges_def)
    have "(at, y) \<in> ?E\<^sup>+ \<Longrightarrow> (w, y) \<in> ?E\<^sup>*" for y using first by (metis tranclD)
    then show ?thesis using IH "1.prems"(2) by (metis rtranclD trancl_into_rtrancl)
  qed
qed

lemma changed_walk_error:
  "changedWalk os seen at = Inl e \<Longrightarrow> \<forall>s \<in> set seen. (s, at) \<in> (ownerEdges os)\<^sup>+ \<Longrightarrow> \<not> acyclic (ownerEdges os)"
proof (induction os seen at rule: changedWalk.induct)
  case (1 os seen at)
  show ?case
  proof (cases "at \<in> set seen")
    case True
    then show ?thesis using "1.prems"(2) by (auto simp: acyclic_def)
  next
    case False
    then obtain w where w: "map_of os at = Some w" "changedWalk os (at # seen) w = Inl e"
      using "1.prems"(1) by (auto simp: changedWalk.simps[of os seen at] split: option.splits)
    have "(at, w) \<in> ownerEdges os" using w(1) by (simp add: ownerEdges_def)
    then have "\<forall>s \<in> set (at # seen). (s, w) \<in> (ownerEdges os)\<^sup>+" using "1.prems"(2) by (auto intro: trancl_into_trancl)
    then show ?thesis using "1.IH"[OF False w] by blast
  qed
qed

lemma cycle_in:
  assumes "E \<subseteq> E0 \<union> A \<times> UNIV"
  shows "(x, y) \<in> E\<^sup>+ \<Longrightarrow> (x, y) \<in> E0\<^sup>+ \<or> (\<exists>a \<in> A. (x, a) \<in> E\<^sup>* \<and> (a, y) \<in> E\<^sup>+)"
proof (induction rule: trancl_induct)
  case (base y)
  then show ?case using assms by blast
next
  case (step y z)
  show ?case
  proof (cases "y \<in> A")
    case True
    then show ?thesis using step.hyps by (blast intro: trancl_into_rtrancl)
  next
    case False
    then have "(y, z) \<in> E0" using step.hyps(2) assms by blast
    then show ?thesis using step.IH step.hyps(2) by (metis trancl.trancl_into_trancl)
  qed
qed

lemma changed_cycles:
  assumes "acyclic E0" "ownerEdges os \<subseteq> E0 \<union> set aff \<times> UNIV"
  shows "validateChangedOwnershipCycles os aff = Inr () \<longleftrightarrow> acyclic (ownerEdges os)"
proof
  assume "validateChangedOwnershipCycles os aff = Inr ()"
  then have ok: "\<forall>a \<in> set aff. changedWalk os [] a = Inr ()" by (simp add: validateChangedOwnershipCycles_def fold_result_unit)
  show "acyclic (ownerEdges os)"
  proof (unfold acyclic_def, intro allI notI)
    fix x assume x: "(x, x) \<in> (ownerEdges os)\<^sup>+"
    then have "(x, x) \<notin> E0\<^sup>+" using assms(1) by (simp add: acyclic_def)
    then obtain a where a: "a \<in> set aff" "(x, a) \<in> (ownerEdges os)\<^sup>*" "(a, x) \<in> (ownerEdges os)\<^sup>+" using cycle_in[OF assms(2) x] by blast
    have "(a, a) \<in> (ownerEdges os)\<^sup>+" using a(3,2) by (rule trancl_rtrancl_trancl)
    then show False using changed_walk_ok[of os "[]" a a] ok a(1) by blast
  qed
next
  assume "acyclic (ownerEdges os)"
  then have "changedWalk os [] a \<noteq> Inl e" for a e using changed_walk_error[of os "[]" a e] by auto
  then have "changedWalk os [] a = Inr ()" for a by (cases "changedWalk os [] a") auto
  then show "validateChangedOwnershipCycles os aff = Inr ()" by (simp add: validateChangedOwnershipCycles_def fold_result_unit)
qed

lemma children_of: "childList (ownerChildren os) w = map fst (filter (\<lambda>q. snd q = w) os)"
proof (induction os rule: rev_induct)
  case (snoc q os)
  have "ownerChildren (os @ [q]) = addChild (snd q) (fst q) (ownerChildren os)" by (simp add: ownerChildren_def)
  then show ?case using snoc by (auto simp: addChild_def childList_def update_conv' split: option.splits)
qed (simp add: ownerChildren_def childList_def)

section \<open>The incremental model is the model\<close>

text \<open>What the validation passes: the committed model, the rows with the overrides in, and an index of them.\<close>

definition deltaReady :: "typeEnv \<Rightarrow> 'p heap \<Rightarrow> 'p relationModel \<Rightarrow> 'p nodes \<Rightarrow> targetIndex \<Rightarrow> 'p nodes \<Rightarrow> bool" where
  "deltaReady env h m0 nodes T ov \<longleftrightarrow>
     describes env h m0 \<and> missing m0 = [] \<and> distinct (map fst nodes) \<and> distinct (map fst ov) \<and>
     (\<forall>q \<in> set ov. map_of nodes (fst q) = Some (snd q)) \<and>
     (\<forall>k. k \<notin> fst ` set ov \<longrightarrow> map_of nodes k = map_of (rm_nodes m0) k) \<and>
     indexesTargets h (map_of nodes) (rm_targetFields m0) T \<and>
     (\<forall>key. rm_targets m0 key \<noteq> None \<longrightarrow> T key = rm_targets m0 key) \<and>
     set (rm_targetFields m0) = lookupFields env (fst ` set nodes)"

definition rescanned :: "'p relationModel \<Rightarrow> 'p nodes \<Rightarrow> targetIndex \<Rightarrow> 'p nodes \<Rightarrow> (nodeKey \<times> 'p option) list" where
  "rescanned m0 nodes T ov = rescanResolved T nodes (unresolved m0) (map (\<lambda>q. (fst q, Some (snd q))) ov)"

lemma rescanned_rows:
  assumes "deltaReady env h m0 nodes T ov"
  defines "rescan \<equiv> rescanned m0 nodes T ov"
  shows "distinct (map fst rescan)" "\<forall>q \<in> set rescan. snd q = map_of nodes (fst q)"
    "fst ` set rescan = fst ` set ov \<union> fst ` {u \<in> set (unresolved m0). T (snd (snd u)) \<noteq> None}"
proof -
  have "distinct (map fst (map (\<lambda>q. (fst q, Some (snd q))) ov))" "\<forall>q \<in> set (map (\<lambda>q. (fst q, Some (snd q))) ov). snd q = map_of nodes (fst q)"
    using assms(1) by (simp_all add: deltaReady_def comp_def)
  note R = rescan_resolved[OF this, of T "unresolved m0", folded rescanned_def, folded rescan_def]
  then show "distinct (map fst rescan)" "\<forall>q \<in> set rescan. snd q = map_of nodes (fst q)" by blast+
  have "fst ` set (map (\<lambda>q. (fst q, Some (snd q))) ov) = fst ` set ov" by (simp add: image_image)
  then show "fst ` set rescan = fst ` set ov \<union> fst ` {u \<in> set (unresolved m0). T (snd (snd u)) \<noteq> None}" using R by simp
qed

lemma unchanged_row:
  assumes "deltaReady env h m0 nodes T ov" "map_of nodes k = Some a" "k \<notin> fst ` set (rescanned m0 nodes T ov)"
  shows "map_of (rm_nodes m0) k = Some a" "nodeRefs env h T (k, a) = nodeRefs env h (rm_targets m0) (k, a)"
    "nodeScans env h T (k, a)" "nodeUnresolved env h T (k, a) = nodeUnresolved env h (rm_targets m0) (k, a)" "nodeMissing env h T (k, a) = []"
proof -
  have k: "k \<notin> fst ` set ov" "k \<notin> fst ` {u \<in> set (unresolved m0). T (snd (snd u)) \<noteq> None}"
    using assms(3) unfolding rescanned_rows(3)[OF assms(1)] by blast+
  show a: "map_of (rm_nodes m0) k = Some a" using assms(1,2) k(1) by (simp add: deltaReady_def)
  have D: "describes env h m0" and ext: "\<And>key. rm_targets m0 key \<noteq> None \<Longrightarrow> T key = rm_targets m0 key"
    using assms(1) unfolding deltaReady_def by blast+
  have un: "nodeUnresolved env h (rm_targets m0) (k, a) = filter (\<lambda>u. fst u = k) (unresolved m0)"
    and mi: "nodeMissing env h (rm_targets m0) (k, a) = filter (\<lambda>u. fst u = k) (missing m0)"
    and sc: "nodeScans env h (rm_targets m0) (k, a)"
    using D a by (auto simp: describes_def partsAt_def dest: map_of_SomeD)
  have "resolveGraphTarget h T s p = resolveGraphTarget h (rm_targets m0) s p"
    if s: "s \<in> set (nodeSpecs env (k, a))" and p: "p \<in> set (fieldPointers h (snd (k, a)) s)" for s p
  proof (cases "graphRelationTargetKey h s p")
    case (Some key)
    show ?thesis
    proof (cases "rm_targets m0 key")
      case None
      then have none: "resolveGraphTarget h (rm_targets m0) s p = Inr None" using Some by (simp add: resolveGraphTarget_def)
      have "(k, s, key) \<in> set (fieldUnresolved h (rm_targets m0) (k, a) s)"
        unfolding fieldUnresolved_def List.map_filter_def set_map set_filter comp_def by (rule image_eqI[of _ _ p]) (use p Some none in \<open>simp_all del: not_None_eq\<close>)
      then have "(k, s, key) \<in> set (nodeUnresolved env h (rm_targets m0) (k, a))" using s by (auto simp: nodeUnresolved_def)
      then have "(k, s, key) \<in> set (unresolved m0)" unfolding un by simp
      then have "T key = None" using k(2) by force
      then show ?thesis using Some None by (simp add: resolveGraphTarget_def)
    qed (use ext Some in \<open>simp add: resolveGraphTarget_def\<close>)
  qed (simp add: resolveGraphTarget_def)
  then have *: "\<forall>s \<in> set (nodeSpecs env (k, a)). \<forall>p \<in> set (fieldPointers h (snd (k, a)) s). resolveGraphTarget h T s p = resolveGraphTarget h (rm_targets m0) s p" by blast
  show "nodeRefs env h T (k, a) = nodeRefs env h (rm_targets m0) (k, a)" "nodeScans env h T (k, a)"
    "nodeUnresolved env h T (k, a) = nodeUnresolved env h (rm_targets m0) (k, a)" using node_cong[OF *] sc by simp_all
  have "missing m0 = []" using assms(1) by (simp add: deltaReady_def)
  then show "nodeMissing env h T (k, a) = []" using node_cong(4)[OF *] mi by simp
qed

lemma combined_parts:
  assumes "\<And>k. filter (\<lambda>x. g x = k) old = partsAt f0 nodes0 k" "\<And>n x. x \<in> set (f n) \<Longrightarrow> g x = fst n"
    and "distinct (map fst ns)" "\<And>k. map_of ns k = (if k \<in> Ch then map_of nodes k else None)"
    and "\<And>k. k \<notin> Ch \<Longrightarrow> map_of nodes k = map_of nodes0 k" "\<And>k a. k \<notin> Ch \<Longrightarrow> map_of nodes k = Some a \<Longrightarrow> f (k, a) = f0 (k, a)"
  shows "filter (\<lambda>x. g x = k) (filter (\<lambda>x. g x \<notin> Ch) old @ concat (map f ns)) = partsAt f nodes k"
proof -
  have new: "filter (\<lambda>x. g x = k) (concat (map f ns)) = partsAt f ns k" by (rule parts_of_nodes[OF assms(3)]) (rule assms(2))
  have old: "filter (\<lambda>x. g x = k) (filter (\<lambda>x. g x \<notin> Ch) old) = (if k \<in> Ch then [] else partsAt f0 nodes0 k)"
    unfolding assms(1)[symmetric] by (auto simp: filter_empty_conv intro: filter_cong)
  show ?thesis
  proof (cases "k \<in> Ch")
    case True
    then show ?thesis using new old assms(4)[of k] by (simp add: partsAt_def)
  next
    case False
    then show ?thesis using new old assms(4)[of k] assms(5,6)[OF False] by (simp add: partsAt_def split: option.split)
  qed
qed

text \<open>The scan of the changed rows.\<close>

lemma delta_scan:
  assumes "deltaReady env h m0 nodes T ov"
  defines "rescan \<equiv> rescanned m0 nodes T ov"
  defines "ns \<equiv> presentRows nodes (map fst rescan)"
  defines "start \<equiv> \<lparr>scanned = deltaStart m0 nodes T (map fst rescan), incoming = noIncoming, ownedBy = (\<lambda>_. None)\<rparr>"
  shows "if \<forall>n \<in> set nodes. nodeScans env h T n
    then \<exists>st. fold_result (scanRescan env h nodes) rescan start = Inr st \<and>
      rm_nodes (scanned st) = nodes \<and> rm_targets (scanned st) = T \<and> rm_targetFields (scanned st) = rm_targetFields m0 \<and>
      owners (scanned st) = owners m0 \<and>
      refs (scanned st) = filter (\<lambda>r. rr_holder r \<notin> fst ` set rescan) (refs m0) @ graphRefs env h T ns \<and>
      unresolved (scanned st) = filter (\<lambda>u. fst u \<notin> fst ` set rescan) (unresolved m0) @ concat (map (nodeUnresolved env h T) ns) \<and>
      missing (scanned st) = concat (map (nodeMissing env h T) ns) \<and>
      (\<forall>c. incoming st c = ownEdgesOf (graphRefs env h T ns) c \<and> ownedBy st c = backEdgeOf (graphRefs env h T ns) c)
    else \<exists>e. fold_result (scanRescan env h nodes) rescan start = Inl e"
proof -
  note R = rescanned_rows[OF assms(1), folded rescan_def]
  note P = present_rows[OF R(1), of nodes, folded ns_def]
  let ?ks = "filter (\<lambda>r. rr_holder r \<notin> fst ` set rescan) (refs m0)" and ?us = "filter (\<lambda>u. fst u \<notin> fst ` set rescan) (unresolved m0)"
  define ini where "ini = start\<lparr>scanned := (scanned start)\<lparr>refs := [], unresolved := []\<rparr>\<rparr>"
  have start: "start = withKept ?ks ?us ini" by (simp add: ini_def start_def withKept_def deltaStart_def)
  have run: "fold_result (scanRescan env h nodes) rescan start = map_sum id (withKept ?ks ?us) (fold_result (scanNodeRelations env h) ns ini)"
    unfolding scan_rescan[OF R(2)] start ns_def by (rule kept_nodes)
  have ini: "scan_ok ini" "rm_targets (scanned ini) = T" by (simp_all add: ini_def start_def deltaStart_def scan_ok_def noIncoming_def)
  have scans: "(\<forall>n \<in> set nodes. nodeScans env h T n) \<longleftrightarrow> (\<forall>n \<in> set ns. nodeScans env h T n)"
  proof
    assume ok: "\<forall>n \<in> set ns. nodeScans env h T n"
    show "\<forall>n \<in> set nodes. nodeScans env h T n"
    proof
      fix n assume n: "n \<in> set nodes"
      have "distinct (map fst nodes)" using assms(1) by (simp add: deltaReady_def)
      then have k: "map_of nodes (fst n) = Some (snd n)" using n by simp
      show "nodeScans env h T n"
      proof (cases "fst n \<in> fst ` set rescan")
        case True
        then have "map_of ns (fst n) = Some (snd n)" using P k by simp
        then show ?thesis using ok by (auto dest: map_of_SomeD)
      next
        case False
        then show ?thesis using unchanged_row(3)[OF assms(1) k] unfolding rescan_def by simp
      qed
    qed
  qed (use P in blast)
  show ?thesis
  proof (cases "\<forall>n \<in> set nodes. nodeScans env h T n")
    case True
    then have True': "\<forall>n \<in> set ns. nodeScans env h T n" using scans by blast
    obtain st where st: "fold_result (scanNodeRelations env h) ns ini = Inr st" "scan_ok st" "same_frame (scanned ini) (scanned st)"
      "refs (scanned st) = refs (scanned ini) @ graphRefs env h T ns" "grew ini st (concat (map (nodeUnresolved env h T) ns)) (concat (map (nodeMissing env h T) ns))"
      using scan_node_list[OF ini, of ns env h, unfolded if_P[OF True']] by blast
    have g: "refs (scanned st) = graphRefs env h T ns" using st(4) by (simp add: ini_def)
    have parts: "rm_nodes (scanned st) = nodes" "rm_targets (scanned st) = T" "rm_targetFields (scanned st) = rm_targetFields m0" "owners (scanned st) = owners m0"
      "unresolved (scanned st) = concat (map (nodeUnresolved env h T) ns)" "missing (scanned st) = concat (map (nodeMissing env h T) ns)"
      using st(3,5) by (simp_all add: same_frame_def grew_def ini_def start_def deltaStart_def)
    have "fold_result (scanRescan env h nodes) rescan start = Inr (withKept ?ks ?us st)" unfolding run st(1) by simp
    then show ?thesis using True g parts scan_ok_edges[OF st(2)] by (simp add: withKept_def)
  next
    case False
    then have False': "\<not> (\<forall>n \<in> set ns. nodeScans env h T n)" using scans by blast
    then show ?thesis using False scan_node_list[OF ini, of ns env h, unfolded if_not_P[OF False']] unfolding run by auto
  qed
qed

lemma old_targets: "set (oldTargets m ks) = {rr_target r |r. r \<in> set (refs m) \<and> rr_holder r \<in> set ks \<and> kind (rr_spec r) = OwnRelation} \<union>
    {rr_holder r |r. r \<in> set (refs m) \<and> rr_holder r \<in> set ks \<and> kind (rr_spec r) = OwnedByRelation}"
proof -
  have "set (foldl markOwnershipTarget acc rs) = set acc \<union> {rr_target r |r. r \<in> set rs \<and> kind (rr_spec r) = OwnRelation} \<union>
      {rr_holder r |r. r \<in> set rs \<and> kind (rr_spec r) = OwnedByRelation}" for acc rs
  proof (induction rs arbitrary: acc)
    case (Cons r rs)
    have "set (markOwnershipTarget acc r) = set acc \<union> (if kind (rr_spec r) = OwnRelation then {rr_target r} else {}) \<union>
        (if kind (rr_spec r) = OwnedByRelation then {rr_holder r} else {})"
      by (cases "kind (rr_spec r)") (simp_all add: markOwnershipTarget_def)
    then show ?case unfolding foldl_Cons Cons.IH[of "markOwnershipTarget acc r"] by auto
  qed simp
  from this[of "[]"] show ?thesis unfolding oldTargets_def by auto
qed

text \<open>A row whose owner edges did not change is not affected, and every other one is.\<close>

lemma unaffected_owner_kept:
  assumes "refs (scanned st) = filter (\<lambda>r. rr_holder r \<notin> set ks) (refs m0) @ new"
    and "\<forall>c. incoming st c = ownEdgesOf new c \<and> ownedBy st c = backEdgeOf new c"
    and "c \<notin> set (oldTargets m0 ks @ scannedChildren st)"
  shows "ownHolders (refs (scanned st)) c = ownHolders (refs m0) c" "backTargets (refs (scanned st)) c = backTargets (refs m0) c"
proof -
  have kept: "ownHolders (filter (\<lambda>r. rr_holder r \<notin> set ks) (refs m0)) c = ownHolders (refs m0) c"
    "backTargets (filter (\<lambda>r. rr_holder r \<notin> set ks) (refs m0)) c = backTargets (refs m0) c"
    using assms(3) by (auto simp: old_targets ownHolders_def backTargets_def intro!: arg_cong[of _ _ "map _"] filter_cong)
  have "ownHolders new c = []"
  proof (rule ccontr)
    assume n: "ownHolders new c \<noteq> []"
    then obtain r where "r \<in> set new" "rr_target r = c" by (auto simp: ownHolders_def filter_empty_conv)
    then have "c \<in> set (map rr_target (refs (scanned st)))" unfolding assms(1) by auto
    moreover have "0 < io_count (incoming st c)" using assms(2) n by (simp add: ownEdgesOf_def)
    ultimately have "c \<in> set (scannedChildren st)" by (simp add: scannedChildren_def)
    then show False using assms(3) by simp
  qed
  moreover have "backTargets new c = []"
  proof (rule ccontr)
    assume n: "backTargets new c \<noteq> []"
    then obtain r where "r \<in> set new" "rr_holder r = c" by (auto simp: backTargets_def filter_empty_conv)
    then have "c \<in> set (map rr_holder (refs (scanned st)))" unfolding assms(1) by auto
    moreover have "ownedBy st c \<noteq> None" using assms(2) n by (simp add: backEdgeOf_def)
    ultimately have "c \<in> set (scannedChildren st)" by (simp add: scannedChildren_def)
    then show False using assms(3) by simp
  qed
  ultimately show "ownHolders (refs (scanned st)) c = ownHolders (refs m0) c" "backTargets (refs (scanned st)) c = backTargets (refs m0) c"
    using kept unfolding assms(1) by simp_all
qed

lemma children_ok:
  assumes "distinct (map fst os)"
  shows "distinct (childList (ownerChildren os) w)" "set (childList (ownerChildren os) w) = {c. map_of os c = Some w}"
proof -
  show "distinct (childList (ownerChildren os) w)" unfolding children_of using assms by (simp add: distinct_map_filter)
  show "set (childList (ownerChildren os) w) = {c. map_of os c = Some w}"
    unfolding children_of using assms by (auto intro: image_eqI[rotated] dest: map_of_SomeD)
qed

lemma delta_build:
  assumes ready: "deltaReady env h m0 nodes T ov"
  defines "ov' \<equiv> map (\<lambda>q. (fst q, Some (snd q))) ov"
  shows "if acceptable env h nodes T
    then \<exists>m. buildRelationModelDelta env h m0 nodes T ov' = Inr m \<and> describes env h m \<and> rm_nodes m = nodes
    else \<exists>e. buildRelationModelDelta env h m0 nodes T ov' = Inl e"
proof -
  define rescan where "rescan = rescanned m0 nodes T ov"
  let ?ks = "map fst rescan" and ?Ch = "fst ` set rescan"
  define ns where "ns = presentRows nodes ?ks"
  define start where "start = \<lparr>scanned = deltaStart m0 nodes T ?ks, incoming = noIncoming, ownedBy = (\<lambda>_. None)\<rparr>"
  note S = delta_scan[OF ready, folded rescan_def, folded ns_def start_def]
  note R = rescanned_rows[OF ready, folded rescan_def]
  note P = present_rows[OF R(1), of nodes, folded ns_def]
  note U = unchanged_row[OF ready, folded rescan_def]
  have D: "describes env h m0" "distinct (map fst nodes)" using ready by (simp_all add: deltaReady_def)
  have rescan: "rescanResolved T nodes (unresolved m0) ov' = rescan" by (simp add: rescan_def rescanned_def ov'_def)
  show ?thesis
  proof (cases "\<forall>n \<in> set nodes. nodeScans env h T n")
    case False
    then obtain e where "fold_result (scanRescan env h nodes) rescan start = Inl e" using S[unfolded if_not_P[OF False]] by blast
    then have "buildRelationModelDelta env h m0 nodes T ov' = Inl e" by (simp add: buildRelationModelDelta_def Let_def rescan start_def)
    moreover have "\<not> acceptable env h nodes T" using False by (simp add: acceptable_def)
    ultimately show ?thesis by simp
  next
    case True
    obtain st where st: "fold_result (scanRescan env h nodes) rescan start = Inr st"
      "rm_nodes (scanned st) = nodes" "rm_targets (scanned st) = T" "rm_targetFields (scanned st) = rm_targetFields m0" "owners (scanned st) = owners m0"
      "refs (scanned st) = filter (\<lambda>r. rr_holder r \<notin> ?Ch) (refs m0) @ graphRefs env h T ns"
      "unresolved (scanned st) = filter (\<lambda>u. fst u \<notin> ?Ch) (unresolved m0) @ concat (map (nodeUnresolved env h T) ns)"
      "missing (scanned st) = concat (map (nodeMissing env h T) ns)"
      "\<forall>c. incoming st c = ownEdgesOf (graphRefs env h T ns) c \<and> ownedBy st c = backEdgeOf (graphRefs env h T ns) c"
      using S[unfolded if_P[OF True]] by blast
    let ?rs = "refs (scanned st)" and ?G = "graphRefs env h T nodes"
    define aff where "aff = remdups (oldTargets m0 ?ks @ scannedChildren st)"
    define edges where "edges = foldl (collectOwner aff) (noIncoming, (\<lambda>_. None)) ?rs"
    have build: "buildRelationModelDelta env h m0 nodes T ov' =
        bind_result (fold_result (reattachOwner (fst edges) (snd edges)) aff (scanned st))
          (\<lambda>m. bind_result (validateChangedOwnershipCycles (owners m) aff) (\<lambda>_. Inr (m\<lparr>outgoing := ownerChildren (owners m)\<rparr>)))"
      using st(1) by (simp add: buildRelationModelDelta_def Let_def rescan start_def aff_def edges_def)
    have map0: "map_of nodes k = map_of (rm_nodes m0) k" if "k \<notin> ?Ch" for k using ready that R(3) by (simp add: deltaReady_def)
    have ns: "map_of ns k = (if k \<in> ?Ch then map_of nodes k else None)" for k using P by simp
    have dns: "distinct (map fst ns)" using P by simp
    have D0: "filter (\<lambda>r. rr_holder r = k) (refs m0) = partsAt (nodeRefs env h (rm_targets m0)) (rm_nodes m0) k"
      "filter (\<lambda>u. fst u = k) (unresolved m0) = partsAt (nodeUnresolved env h (rm_targets m0)) (rm_nodes m0) k" for k
      using D(1) unfolding describes_def by blast+
    have refs_at: "filter (\<lambda>r. rr_holder r = k) ?rs = partsAt (nodeRefs env h T) nodes k" for k
      unfolding st(6) graphRefs_def by (rule combined_parts[OF D0(1) _ dns ns map0]) (use part_keys U in auto)
    have un_at: "filter (\<lambda>u. fst u = k) (unresolved (scanned st)) = partsAt (nodeUnresolved env h T) nodes k" for k
      unfolding st(7) by (rule combined_parts[OF D0(2) _ dns ns map0]) (erule part_keys, use U in auto)
    have mi_at: "filter (\<lambda>u. fst u = k) (missing (scanned st)) = partsAt (nodeMissing env h T) nodes k" for k
    proof -
      have "filter (\<lambda>u. fst u = k) (concat (map (nodeMissing env h T) ns)) = partsAt (nodeMissing env h T) ns k"
        by (rule parts_of_nodes[OF dns]) (erule part_keys)
      then show ?thesis using ns[of k] U(5)[of k] unfolding st(8) by (auto simp: partsAt_def split: option.split)
    qed
    have same: "filter (\<lambda>r. rr_holder r = k) ?rs = filter (\<lambda>r. rr_holder r = k) ?G" for k unfolding refs_at graph_refs_at[OF D(2)] ..
    have agreeG: "owner_agrees ?rs c \<longleftrightarrow> owner_agrees ?G c" for c by (rule same_refs(1)[OF same])
    have un_own: "owner_agrees ?rs c \<and> ownerOf ?rs c = map_of (owners m0) c" if c: "c \<notin> set aff" for c
    proof -
      have "c \<notin> set (oldTargets m0 ?ks @ scannedChildren st)" using c by (simp add: aff_def)
      note E = unaffected_owner_kept[OF _ st(9) this]
      have "owner_agrees (refs m0) c \<and> map_of (owners m0) c = ownerOf (refs m0) c" using D(1) unfolding describes_def ownersOk_def by blast
      then show ?thesis using E st(6) by (simp add: owner_agrees_def ownerOf_def)
    qed
    have "\<forall>c \<in> set aff. fst edges c = ownEdgesOf ?rs c \<and> snd edges c = backEdgeOf ?rs c" unfolding edges_def using collect_owners[of _ aff ?rs] by blast
    note A = reattach_owners[OF this, of "scanned st"]
    show ?thesis
    proof (cases "\<forall>c \<in> set aff. owner_agrees ?rs c")
      case no: False
      then obtain e where "fold_result (reattachOwner (fst edges) (snd edges)) aff (scanned st) = Inl e" using A[unfolded if_not_P[OF no]] by blast
      moreover have "\<not> acceptable env h nodes T" using no agreeG by (auto simp: acceptable_def)
      ultimately show ?thesis unfolding build by simp
    next
      case yes: True
      then obtain m where m: "fold_result (reattachOwner (fst edges) (snd edges)) aff (scanned st) = Inr m" "reowned ?rs aff (scanned st) m"
        using A[unfolded if_P[OF yes]] by blast
      have agree: "owner_agrees ?rs c" for c using yes un_own by blast
      have own: "map_of (owners m) c = ownerOf ?rs c" for c using m(2) un_own[of c] st(5) by (simp add: reowned_def)
      have ownG: "ownerOf ?rs c = ownerOf ?G c" for c by (rule same_refs(2)[OF same agree])
      have E: "ownerEdges (owners m) = {(c, w). ownerOf ?G c = Some w}" by (simp add: ownerEdges_def own ownG)
      have acc: "acceptable env h nodes T \<longleftrightarrow> acyclic (ownerEdges (owners m))" using True agree agreeG by (simp add: acceptable_def E)
      have "acyclic (ownerEdges (owners m0))" using D(1) unfolding describes_def ownersOk_def by blast
      moreover have "ownerEdges (owners m) \<subseteq> ownerEdges (owners m0) \<union> set aff \<times> UNIV"
      proof
        fix q assume q: "q \<in> ownerEdges (owners m)"
        show "q \<in> ownerEdges (owners m0) \<union> set aff \<times> UNIV"
        proof (cases "fst q \<in> set aff")
          case False
          then show ?thesis using q own un_own[OF False] by (auto simp: ownerEdges_def)
        qed (cases q, simp)
      qed
      ultimately have V: "validateChangedOwnershipCycles (owners m) aff = Inr () \<longleftrightarrow> acyclic (ownerEdges (owners m))" by (rule changed_cycles)
      show ?thesis
      proof (cases "acyclic (ownerEdges (owners m))")
        case False
        then obtain e where "validateChangedOwnershipCycles (owners m) aff = Inl e" using V by (cases "validateChangedOwnershipCycles (owners m) aff") auto
        then show ?thesis using False acc unfolding build m(1) by simp
      next
        case cyc: True
        let ?m = "m\<lparr>outgoing := ownerChildren (owners m)\<rparr>"
        have run: "buildRelationModelDelta env h m0 nodes T ov' = Inr ?m" unfolding build m(1) using V cyc by simp
        have frame: "rm_nodes m = nodes" "rm_targets m = T" "rm_targetFields m = rm_targetFields m0" "refs m = ?rs"
          "unresolved m = unresolved (scanned st)" "missing m = missing (scanned st)"
          using m(2) st(2-4) by (simp_all add: reowned_def)
        have "distinct (map fst (owners m0))" using D(1) by (simp add: describes_def ownersOk_def)
        then have dist: "distinct (map fst (owners m))" using m(2) st(5) by (simp add: reowned_def)
        have "ownersOk ?m" unfolding ownersOk_def using agree own cyc dist children_ok[OF dist] frame(4) by simp
        moreover have "distinct (rm_targetFields m0)" "set (rm_targetFields m0) = lookupFields env (fst ` set nodes)"
          "indexesTargets h (map_of nodes) (rm_targetFields m0) T" using ready D(1) by (auto simp: deltaReady_def describes_def)
        ultimately have "describes env h ?m" unfolding describes_def
          using True refs_at un_at mi_at D(2) frame by simp
        then show ?thesis using run cyc acc frame(1) by auto
      qed
    qed
  qed
qed

section \<open>Models of the same rows agree\<close>

lemma described_alike:
  assumes "describes env h m" "describes env h m'" "map_of (rm_nodes m) = map_of (rm_nodes m')"
  shows "mset (refs m) = mset (refs m')" "map_of (owners m) = map_of (owners m')" "set (missing m) = set (missing m')"
    "set (childList (outgoing m) w) = set (childList (outgoing m') w)"
proof -
  have "dom (map_of (rm_nodes m)) = dom (map_of (rm_nodes m'))" using assms(3) by simp
  then have keys: "fst ` set (rm_nodes m) = fst ` set (rm_nodes m')" unfolding dom_map_of_conv_image_fst .
  have tfs: "set (rm_targetFields m) = set (rm_targetFields m')" using assms(1,2) unfolding describes_def by (simp add: keys)
  have "resolveGraphTarget h (rm_targets m) r p = resolveGraphTarget h (rm_targets m') r p" for r p
    by (rule indexes_unique[OF _ _ tfs]) (use assms in \<open>auto simp: describes_def\<close>)
  note P = parts_unique[OF this]
  have same: "filter (\<lambda>r. rr_holder r = k) (refs m) = filter (\<lambda>r. rr_holder r = k) (refs m')"
    "filter (\<lambda>u. fst u = k) (missing m) = filter (\<lambda>u. fst u = k) (missing m')" for k
    using assms(1,2) unfolding describes_def by (simp_all add: partsAt_def assms(3) P(1,4)[of env])
  show "mset (refs m) = mset (refs m')" by (rule same_refs(3)[OF same(1)])
  show own: "map_of (owners m) = map_of (owners m')"
    using same_refs(2)[OF same(1)] assms(1,2) unfolding describes_def ownersOk_def by (simp add: fun_eq_iff)
  have "q \<in> set (missing m) \<longleftrightarrow> q \<in> set (filter (\<lambda>u. fst u = fst q) (missing m))" for q and m :: "'a relationModel" by simp
  then show "set (missing m) = set (missing m')" using same(2) by (metis subsetI subset_antisym)
  have "set (childList (outgoing q) w) = {c. map_of (owners q) c = Some w}" if "describes env h q" for q
    using that unfolding describes_def ownersOk_def by blast
  from this[OF assms(1)] this[OF assms(2)] show "set (childList (outgoing m) w) = set (childList (outgoing m') w)" unfolding own by (simp only:)
qed

lemma validation_alike:
  assumes "describes env h m" "describes env h m'" "map_of (rm_nodes m) = map_of (rm_nodes m')"
    and "deletionClosure m committed deletes = Inr dead" "validateRequiredRelations m dead = Inr ()"
  shows "\<exists>dead'. deletionClosure m' committed deletes = Inr dead' \<and> validateRequiredRelations m' dead' = Inr () \<and> set dead' = set dead"
proof -
  note A = described_alike[OF assms(1-3)]
  have children: "set (deletionChildren m committed w) = set (deletionChildren m' committed w)" for w
    by (simp add: deletionChildren_set A(2,4) assms(3))
  have rel: "childRel m committed = childRel m' committed" by (simp add: childRel_def children)
  have refs: "set (refs m) = set (refs m')" using A(1) by (metis set_mset_mset)
  have dead: "set dead = (childRel m committed)\<^sup>* `` set deletes" by (rule deletionClosure_set[OF assms(4)])
  have loop: "set (deletionLoop m' committed deletes deletes) = set dead"
    unfolding dead rel by (rule deletionLoop_set) auto
  have "\<forall>r \<in> set (refs m'). \<not> vetoes (set dead) r" "set deletes \<subseteq> dom (map_of (rm_nodes m'))"
    using assms(4) unfolding deletionClosure_conv refs assms(3) by blast+
  then have "deletionClosure m' committed deletes = Inr (deletionLoop m' committed deletes deletes)"
    unfolding deletionClosure_conv loop by blast
  moreover have "validateRequiredRelations m' (deletionLoop m' committed deletes deletes) = Inr ()"
    using assms(5) unfolding validateRequiredRelations_def fold_result_unit A(3) loop .
  ultimately show ?thesis using loop by blast
qed

section \<open>The prepared state\<close>

lemma override_nodes:
  assumes "distinct (map fst nodes)"
  shows "distinct (map fst (overrideNodes nodes ov))" "fst ` set (overrideNodes nodes ov) = fst ` set nodes \<union> fst ` set ov"
    "distinct (map fst ov) \<Longrightarrow> map_of (overrideNodes nodes ov) k = (case map_of ov k of None \<Rightarrow> map_of nodes k | Some a \<Rightarrow> Some a)"
proof -
  show "distinct (map fst (overrideNodes nodes ov))" using assms
    unfolding overrideNodes_def by (induction ov arbitrary: nodes) (simp_all add: distinct_update)
  show "fst ` set (overrideNodes nodes ov) = fst ` set nodes \<union> fst ` set ov"
    unfolding overrideNodes_def
  proof (induction ov arbitrary: nodes)
    case (Cons q ov)
    have "fst ` set (AList.update (fst q) (snd q) nodes) = insert (fst q) (fst ` set nodes)" using dom_update[of "fst q" "snd q" nodes] by simp
    then show ?case by (simp add: Cons)
  qed simp
  show "distinct (map fst ov) \<Longrightarrow> map_of (overrideNodes nodes ov) k = (case map_of ov k of None \<Rightarrow> map_of nodes k | Some a \<Rightarrow> Some a)"
    unfolding overrideNodes_def
  proof (induction ov arbitrary: nodes)
    case (Cons q ov)
    then have "map_of ov (fst q) = None" by (simp add: map_of_eq_None_iff)
    then show ?case using Cons by (cases q) (auto simp: update_conv' split: option.split)
  qed simp
qed

lemma transaction_overrides:
  "distinct (map fst (transactionOverrides resources creates))"
  "fst ` set (transactionOverrides resources creates) = (\<lambda>r. NodeKey (tr_dbName r) (tr_id r)) ` set resources \<union> fst ` set creates"
proof -
  let ?a = "overrideNodes [] (map (\<lambda>r. (NodeKey (tr_dbName r) (tr_id r), tr_work r)) resources)"
  have a: "distinct (map fst ?a)" "fst ` set ?a = (\<lambda>r. NodeKey (tr_dbName r) (tr_id r)) ` set resources"
    by (rule override_nodes(1), simp) (subst override_nodes(2), simp_all add: image_image)
  show "distinct (map fst (transactionOverrides resources creates))" unfolding transactionOverrides_def by (rule override_nodes(1)[OF a(1)])
  show "fst ` set (transactionOverrides resources creates) = (\<lambda>r. NodeKey (tr_dbName r) (tr_id r)) ` set resources \<union> fst ` set creates"
    unfolding transactionOverrides_def override_nodes(2)[OF a(1)] a(2) ..
qed

lemma unchanged_holders:
  assumes "\<not> relationTargetKeysChanged h ov nodes0 tfs" "distinct (map fst ov)"
  shows "keyHolders h ((\<lambda>k. case map_of ov k of None \<Rightarrow> map_of nodes0 k | Some a \<Rightarrow> Some a) |` dom (map_of nodes0)) tfs = keyHolders h (map_of nodes0) tfs"
proof -
  have one: "relationKey h (Some a) f = relationKey h (Some b) f" if "map_of ov k = Some a" "map_of nodes0 k = Some b" "(nk_type k, f) \<in> set tfs" for k a b f
  proof -
    have "(k, a) \<in> set ov" using that(1) by (rule map_of_SomeD)
    moreover have "f \<in> set (fieldsOfType tfs (nk_type k))" using that(3) by (force simp: fieldsOfType_def)
    moreover from calculation(1) have "\<not> (case map_of nodes0 (fst (k, a)) of None \<Rightarrow> False
        | Some old \<Rightarrow> list_ex (\<lambda>f. scalars (h old) f \<noteq> scalars (h (snd (k, a))) f) (fieldsOfType tfs (nk_type (fst (k, a)))))"
      using assms(1) unfolding relationTargetKeysChanged_def list_ex_iff[of _ ov] by blast
    ultimately have "scalars (h b) f = scalars (h a) f" using that(2) by (simp add: list_ex_iff)
    then show ?thesis by (simp add: relationKey_def)
  qed
  show ?thesis
  proof (intro ext set_eqI)
    fix key :: relationTargetKey and k
    obtain t f v where key: "key = (t, f, v)" by (cases key)
    show "k \<in> keyHolders h ((\<lambda>k. case map_of ov k of None \<Rightarrow> map_of nodes0 k | Some a \<Rightarrow> Some a) |` dom (map_of nodes0)) tfs key \<longleftrightarrow>
        k \<in> keyHolders h (map_of nodes0) tfs key"
    proof (cases "map_of nodes0 k")
      case (Some b)
      then show ?thesis using one[OF _ Some] by (cases "map_of ov k") (auto simp: keyHolders_def key restrict_map_def)
    qed (simp add: keyHolders_def key restrict_map_def domIff)
  qed
qed

lemma created_targets:
  assumes "indexesTargets h (N |` D) tfs T0" "distinct tfs" "N = map_of nodes"
    and "distinct cs" "set cs \<subseteq> dom N" "set cs \<inter> D = {}" "foldl (addCreatedTargets h tfs nodes) (T0, False) cs = (T, rb)"
  shows "indexesTargets h (N |` (D \<union> set cs)) tfs T \<and> (\<not> rb \<longrightarrow> (\<forall>key. T0 key \<noteq> None \<longrightarrow> T key = T0 key))"
  using assms(4-7)
proof (induction cs arbitrary: T rb rule: rev_induct)
  case Nil
  then show ?case using assms(1) by simp
next
  case (snoc c cs)
  obtain T1 rb1 where one: "foldl (addCreatedTargets h tfs nodes) (T0, False) cs = (T1, rb1)" by fastforce
  have "distinct cs" "set cs \<subseteq> dom N" "set cs \<inter> D = {}" using snoc.prems(1-3) by auto
  note I = snoc.IH[OF this one]
  have IH: "indexesTargets h (N |` (D \<union> set cs)) tfs T1" "\<not> rb1 \<Longrightarrow> T0 key \<noteq> None \<Longrightarrow> T1 key = T0 key" for key
    using I by blast+
  obtain a where a: "N c = Some a" using snoc.prems(2) by auto
  have "addCreatedTargets h tfs nodes (T1, rb1) c = (T, rb)" using snoc.prems(4) unfolding foldl_append one by simp
  then have st: "T = indexRelationNodeTargets h tfs T1 (c, a)"
    "rb \<longleftrightarrow> relationNodeTargetsOverlap h T1 (c, a) (fieldsOfType tfs (nk_type c)) \<or> rb1"
    using a assms(3) by (auto simp: addCreatedTargets_def)
  have "(N |` (D \<union> set cs)) c = None" using snoc.prems by (auto simp: restrict_map_def)
  from index_node[of h "N |` (D \<union> set cs)" tfs T1 "(c, a)", OF IH(1) assms(2)] this
  have "indexesTargets h ((N |` (D \<union> set cs))(c \<mapsto> a)) tfs T" by (simp add: st(1))
  moreover have "(N |` (D \<union> set cs))(c \<mapsto> a) = N |` (D \<union> set (cs @ [c]))" using a by (auto simp: restrict_map_def fun_eq_iff)
  moreover have "T key = T0 key" if rb: "\<not> rb" and k: "T0 key \<noteq> None" for key
  proof -
    have T1: "T1 key = T0 key" using IH(2) rb k st(2) by blast
    have "distinct (map snd (filter (\<lambda>q. fst q = nk_type c) tfs))" using assms(2) by (auto simp: distinct_map inj_on_def prod_eq_iff)
    note ix = index_node_fields[OF this, of h "(c, a)" T1 key, unfolded fst_conv snd_conv]
    have no: "\<not> (fst key = nk_type c \<and> fst (snd key) \<in> set (map snd (filter (\<lambda>q. fst q = nk_type c) tfs)) \<and> relationKey h (Some a) (fst (snd key)) = Some (snd (snd key)))"
    proof
      assume q: "fst key = nk_type c \<and> fst (snd key) \<in> set (map snd (filter (\<lambda>q. fst q = nk_type c) tfs)) \<and> relationKey h (Some a) (fst (snd key)) = Some (snd (snd key))"
      obtain t f v where key: "key = (t, f, v)" by (cases key)
      have "\<not> relationNodeTargetsOverlap h T1 (c, a) (fieldsOfType tfs (nk_type c))" using rb st(2) by simp
      then have "\<not> (case relationKey h (Some (snd (c, a))) f of None \<Rightarrow> False | Some v \<Rightarrow> T1 (nk_type (fst (c, a)), f, v) \<noteq> None)"
        using q unfolding relationNodeTargetsOverlap_def list_ex_iff fieldsOfType_def key fst_conv snd_conv by blast
      then have "T1 key = None" using q by (simp add: key del: not_None_eq)
      then show False using T1 k by simp
    qed
    have "T key = T1 key" using ix[unfolded if_not_P[OF no]] by (simp add: st(1) indexRelationNodeTargets_def)
    then show ?thesis using T1 by simp
  qed
  ultimately show ?case by simp
qed

text \<open>Whatever it decides, the prepared index is an index of the prepared rows.\<close>

definition indexedState :: "typeEnv \<Rightarrow> 'p heap \<Rightarrow> 'p nodes \<Rightarrow> (string \<times> string) list \<Rightarrow> targetIndex \<Rightarrow> bool" where
  "indexedState env h nodes tfs T \<longleftrightarrow>
     distinct (map fst nodes) \<and> distinct tfs \<and> set tfs = lookupFields env (fst ` set nodes) \<and> indexesTargets h (map_of nodes) tfs T"

lemma rebuilt_state:
  assumes "distinct (map fst nodes)"
  shows "if \<forall>n \<in> set nodes. \<exists>specs. relationSpecs env (nk_type (fst n)) = Inr specs
    then \<exists>tfs. relationTargetFields env nodes = Inr tfs \<and> indexedState env h nodes tfs (buildRelationTargetIndexFromFields h nodes tfs)
    else \<exists>e. relationTargetFields env nodes = Inl e"
  using target_fields[of nodes env] index_nodes[OF assms] assms unfolding indexedState_def by (auto split: if_splits)

lemma prepared_state:
  assumes D: "describes env h m0" "missing m0 = []" and ov: "distinct (map fst ov)"
    and keys: "fst ` set ov \<subseteq> fst ` set (rm_nodes m0) \<union> set cs" "set cs \<subseteq> fst ` set ov" and cs: "distinct cs" "set cs \<inter> fst ` set (rm_nodes m0) = {}"
  defines "nodes \<equiv> overrideNodes (rm_nodes m0) ov"
  shows "if \<forall>n \<in> set nodes. \<exists>specs. relationSpecs env (nk_type (fst n)) = Inr specs
    then \<exists>s. prepareTransactionRelationState env h stores (Some m0) ov cs = Inr s \<and> trs_nodes s = nodes \<and>
      indexedState env h nodes (trs_targetFields s) (trs_targets s) \<and>
      (\<not> trs_rebuild s \<longrightarrow> trs_committed s = Some m0 \<and> deltaReady env h m0 nodes (trs_targets s) ov)
    else \<exists>e. prepareTransactionRelationState env h stores (Some m0) ov cs = Inl e"
proof -
  let ?new = "list_ex (\<lambda>k. \<not> relationModelHasType m0 (nk_type k)) cs"
  have d0: "distinct (map fst (rm_nodes m0))" using D(1) by (simp add: describes_def)
  have dn: "distinct (map fst nodes)" unfolding nodes_def by (rule override_nodes(1)[OF d0])
  have kn: "fst ` set nodes = fst ` set (rm_nodes m0) \<union> fst ` set ov" unfolding nodes_def by (rule override_nodes(2)[OF d0])
  have mn: "map_of nodes k = (case map_of ov k of None \<Rightarrow> map_of (rm_nodes m0) k | Some a \<Rightarrow> Some a)" for k
    unfolding nodes_def by (rule override_nodes(3)[OF d0 ov])
  show ?thesis
  proof (cases ?new)
    case True
    then have "prepareTransactionRelationState env h stores (Some m0) ov cs = bind_result (relationTargetFields env nodes)
        (\<lambda>tfs. Inr \<lparr>trs_committed = Some m0, trs_nodes = nodes, trs_targets = buildRelationTargetIndexFromFields h nodes tfs, trs_targetFields = tfs, trs_rebuild = True\<rparr>)"
      by (simp add: prepareTransactionRelationState_def nodes_def Let_def)
    then show ?thesis using rebuilt_state[OF dn, of env h] by (auto split: if_splits)
  next
    case False
    have types: "nk_type ` fst ` set nodes = nk_type ` fst ` set (rm_nodes m0)"
    proof -
      have "nk_type k \<in> nk_type ` fst ` set (rm_nodes m0)" if "k \<in> set cs" for k
      proof -
        have "relationModelHasType m0 (nk_type k)" using False that by (auto simp: list_ex_iff)
        then obtain n where "n \<in> set (rm_nodes m0)" "nk_type (fst n) = nk_type k" by (auto simp: relationModelHasType_def list_ex_iff)
        then show ?thesis by (metis imageI)
      qed
      then show ?thesis unfolding kn using keys by blast
    qed
    have scans: "\<forall>n \<in> set nodes. \<exists>specs. relationSpecs env (nk_type (fst n)) = Inr specs"
    proof
      fix n assume "n \<in> set nodes"
      then have "nk_type (fst n) \<in> nk_type ` fst ` set (rm_nodes m0)" unfolding types[symmetric] by blast
      then obtain q where "q \<in> set (rm_nodes m0)" "nk_type (fst q) = nk_type (fst n)" by auto
      then show "\<exists>specs. relationSpecs env (nk_type (fst n)) = Inr specs" using D(1) unfolding describes_def nodeScans_def by metis
    qed
    define tfs where "tfs = rm_targetFields m0"
    have tfs: "distinct tfs" "set tfs = lookupFields env (fst ` set nodes)" and T0: "indexesTargets h (map_of (rm_nodes m0)) tfs (rm_targets m0)"
      using D(1) lookup_types[OF types, of env] unfolding describes_def tfs_def by auto
    show ?thesis
    proof (cases "relationTargetKeysChanged h ov (rm_nodes m0) tfs")
      case True
      then have "prepareTransactionRelationState env h stores (Some m0) ov cs = Inr \<lparr>trs_committed = Some m0, trs_nodes = nodes,
          trs_targets = buildRelationTargetIndexFromFields h nodes tfs, trs_targetFields = tfs, trs_rebuild = True\<rparr>"
        using False by (simp add: prepareTransactionRelationState_def nodes_def Let_def tfs_def)
      then show ?thesis using scans index_nodes[OF dn tfs(1)] dn tfs by (simp add: indexedState_def)
    next
      case same: False
      have restricted: "map_of nodes |` dom (map_of (rm_nodes m0)) = (\<lambda>k. case map_of ov k of None \<Rightarrow> map_of (rm_nodes m0) k | Some a \<Rightarrow> Some a) |` dom (map_of (rm_nodes m0))"
        by (simp add: fun_eq_iff restrict_map_def mn)
      have T1: "indexesTargets h (map_of nodes |` dom (map_of (rm_nodes m0))) tfs (rm_targets m0)"
        using T0 unfolding indexesTargets_def restricted unchanged_holders[OF same ov] .
      obtain T rb where loop: "foldl (addCreatedTargets h tfs nodes) (rm_targets m0, False) cs = (T, rb)" by fastforce
      have dom: "dom (map_of nodes) = dom (map_of (rm_nodes m0)) \<union> set cs"
        unfolding dom_map_of_conv_image_fst kn using keys by blast
      have "set cs \<subseteq> dom (map_of nodes)" "set cs \<inter> dom (map_of (rm_nodes m0)) = {}" using dom cs(2) by (auto simp: dom_map_of_conv_image_fst)
      note C = created_targets[OF T1 tfs(1) refl cs(1) this loop]
      have "map_of nodes |` (dom (map_of (rm_nodes m0)) \<union> set cs) = map_of nodes"
        unfolding dom[symmetric] by (auto simp: restrict_map_def fun_eq_iff domIff)
      then have T: "indexesTargets h (map_of nodes) tfs T" using C by simp
      have run: "prepareTransactionRelationState env h stores (Some m0) ov cs = Inr \<lparr>trs_committed = Some m0, trs_nodes = nodes,
          trs_targets = T, trs_targetFields = tfs, trs_rebuild = rb\<rparr>"
        using False same loop by (cases "cs = []") (simp_all add: prepareTransactionRelationState_def nodes_def Let_def tfs_def)
      have "map_of nodes (fst q) = Some (snd q)" if "q \<in> set ov" for q
      proof -
        have "map_of ov (fst q) = Some (snd q)" using that ov by simp
        then show ?thesis unfolding mn by simp
      qed
      moreover have "map_of nodes k = map_of (rm_nodes m0) k" if "k \<notin> fst ` set ov" for k
      proof -
        have "map_of ov k = None" using that by (simp add: map_of_eq_None_iff)
        then show ?thesis using mn[of k] by simp
      qed
      ultimately have "\<not> rb \<Longrightarrow> deltaReady env h m0 nodes T ov" using D dn ov T C tfs unfolding deltaReady_def tfs_def by blast
      then show ?thesis using run scans dn tfs T by (simp add: indexedState_def)
    qed
  qed
qed

section \<open>Both ways of validation agree\<close>

lemma collected_distinct:
  assumes "collectRelationNodesWithOverrides h stores False [] [] = Inr live"
  shows "distinct (map fst live)"
proof -
  have one: "distinct (map fst ns')" if "distinct (map fst ns)" "addGraphNode h t r ns a = Inr ns'" for ns ns' :: "'a nodes" and t r a
    using that by (auto simp: addGraphNode_def Let_def distinct_update split: if_splits)
  have store: "distinct (map fst ns')" if "distinct (map fst ns)" "collectStoreNodes h ns q = Inr ns'" for ns ns' q
    by (rule fold_result_invariant[where I = "\<lambda>ns. distinct (map fst ns)", OF _ that(1) that(2)[unfolded collectStoreNodes_def]]) (rule one)
  have "fold_result (collectStoreNodes h) stores [] = Inr live"
    using assms by (auto simp: collectRelationNodesWithOverrides_def bind_result_def split: sum.splits)
  then show ?thesis
    by (rule fold_result_invariant[where I = "\<lambda>ns. distinct (map fst ns)", rotated 2]) (use store in auto)
qed

lemma validated:
  assumes state: "prepareTransactionRelationState env h stores graph ov (map fst creates) = Inr s" "graph = co_graph co" "ov = transactionOverrides resources creates"
    and ix: "indexedState env h (trs_nodes s) (trs_targetFields s) (trs_targets s)"
    and delta: "\<not> trs_rebuild s \<Longrightarrow> trs_committed s = Some m0 \<and> deltaReady env h m0 (trs_nodes s) (trs_targets s) ov"
  shows "if acceptable env h (trs_nodes s) (trs_targets s)
    then \<exists>m. describes env h m \<and> rm_nodes m = trs_nodes s \<and> validateTransactionGraph env h stores co resources creates deletes =
        bind_result (deletionClosure m (co_outgoing co) deletes) (\<lambda>dead. bind_result (validateRequiredRelations m dead) (\<lambda>_. Inr (m, dead)))
    else \<exists>e. validateTransactionGraph env h stores co resources creates deletes = Inl e"
proof -
  define r where "r = (if trs_rebuild s then buildRelationModelFromTargets env h (trs_nodes s) (trs_targets s) (trs_targetFields s)
      else case trs_committed s of None \<Rightarrow> Inl (Panic ''nil pointer'')
      | Some committed \<Rightarrow> buildRelationModelDelta env h committed (trs_nodes s) (trs_targets s) (map (\<lambda>q. (fst q, Some (snd q))) ov))"
  have v: "validateTransactionGraph env h stores co resources creates deletes =
      bind_result r (\<lambda>m. bind_result (deletionClosure m (co_outgoing co) deletes) (\<lambda>dead. bind_result (validateRequiredRelations m dead) (\<lambda>_. Inr (m, dead))))"
    unfolding validateTransactionGraph_def r_def Let_def state(2)[symmetric] state(3)[symmetric] state(1) by simp
  have "if acceptable env h (trs_nodes s) (trs_targets s) then \<exists>m. r = Inr m \<and> describes env h m \<and> rm_nodes m = trs_nodes s else \<exists>e. r = Inl e"
  proof (cases "trs_rebuild s")
    case True
    then have "r = buildRelationModelFromTargets env h (trs_nodes s) (trs_targets s) (trs_targetFields s)" by (simp add: r_def)
    then show ?thesis using full_build[of "trs_nodes s" "trs_targetFields s" env h "trs_targets s"] ix unfolding indexedState_def by (auto split: if_splits)
  next
    case False
    then have r: "r = buildRelationModelDelta env h m0 (trs_nodes s) (trs_targets s) (map (\<lambda>q. (fst q, Some (snd q))) ov)" using delta by (simp add: r_def)
    show ?thesis unfolding r by (rule delta_build) (use delta[OF False] in blast)
  qed
  then show ?thesis unfolding v by (auto split: if_splits)
qed

lemma validation_exact:
  fixes deletes :: "nodeKey list"
  assumes graph: "co_graph co = Some m0" "describes env h m0" "missing m0 = []"
    and live: "collectRelationNodesWithOverrides h stores False [] [] = Inr live" "map_of live = map_of (rm_nodes m0)"
    and touched: "\<forall>r \<in> set resources. map_of live (NodeKey (tr_dbName r) (tr_id r)) \<noteq> None"
    and created: "distinct (map fst creates)" "\<forall>q \<in> set creates. map_of live (fst q) = None"
  defines "incremental \<equiv> validateTransactionGraph env h stores co resources creates deletes"
    and "full \<equiv> validateTransactionGraph env h stores (co\<lparr>co_graph := None\<rparr>) resources creates deletes"
  shows "((\<exists>r. incremental = Inr r) \<longleftrightarrow> (\<exists>r. full = Inr r)) \<and>
    (\<forall>m dead m' dead'. incremental = Inr (m, dead) \<and> full = Inr (m', dead') \<longrightarrow>
       describes env h m \<and> map_of (rm_nodes m) = map_of (rm_nodes m') \<and> mset (refs m) = mset (refs m') \<and>
       map_of (owners m) = map_of (owners m') \<and> set dead = set dead')"
proof -
  define ov where "ov = transactionOverrides resources creates"
  define nodes where "nodes = overrideNodes (rm_nodes m0) ov"
  define nodes' where "nodes' = overrideNodes live ov"
  note O = transaction_overrides[of resources creates, folded ov_def]
  have dl: "distinct (map fst live)" by (rule collected_distinct[OF live(1)])
  have d0: "distinct (map fst (rm_nodes m0))" using graph(2) by (simp add: describes_def)
  have lk: "fst ` set live = fst ` set (rm_nodes m0)"
    using live(2) by (metis dom_map_of_conv_image_fst)
  have mapn: "map_of nodes = map_of nodes'"
    by (rule ext) (simp only: nodes_def nodes'_def override_nodes(3)[OF d0 O(1)] override_nodes(3)[OF dl O(1)] live(2))
  have dn: "distinct (map fst nodes)" "distinct (map fst nodes')" using override_nodes(1) d0 dl by (simp_all add: nodes_def nodes'_def)
  have sets: "set nodes = set nodes'" by (rule nodes_eq[OF dn mapn])
  have key: "k \<in> fst ` set live" if "map_of live k \<noteq> None" for k using that by (metis map_of_eq_None_iff)
  have k1: "fst ` set ov \<subseteq> fst ` set (rm_nodes m0) \<union> set (map fst creates)" unfolding O(2) lk[symmetric] using touched key by auto
  have k2: "set (map fst creates) \<subseteq> fst ` set ov" unfolding O(2) by simp
  have k3: "set (map fst creates) \<inter> fst ` set (rm_nodes m0) = {}" unfolding lk[symmetric] using created(2) by (force simp: map_of_eq_None_iff)
  note P = prepared_state[OF graph(2,3) O(1) k1 k2 created(1) k3, of stores, folded nodes_def]
  have coll: "collectRelationNodesWithOverrides h stores False [] ov = Inr nodes'"
    using live(1) by (auto simp: collectRelationNodesWithOverrides_def bind_result_def nodes'_def overrideNodes_def split: sum.splits)
  have fresh: "prepareTransactionRelationState env h stores None ov (map fst creates) = bind_result (relationTargetFields env nodes')
      (\<lambda>tfs. Inr \<lparr>trs_committed = None, trs_nodes = nodes', trs_targets = buildRelationTargetIndexFromFields h nodes' tfs, trs_targetFields = tfs, trs_rebuild = True\<rparr>)"
    by (simp add: prepareTransactionRelationState_def coll)
  let ?specs = "\<forall>n \<in> set nodes. \<exists>specs. relationSpecs env (nk_type (fst n)) = Inr specs"
  show ?thesis
  proof (cases ?specs)
    case False
    then obtain e where "prepareTransactionRelationState env h stores (Some m0) ov (map fst creates) = Inl e" using P[unfolded if_not_P[OF False]] by blast
    then have "incremental = Inl e" using graph(1) by (simp add: incremental_def validateTransactionGraph_def ov_def)
    moreover obtain e' where "relationTargetFields env nodes' = Inl e'"
      using rebuilt_state[OF dn(2), of env h] False sets by (auto split: if_splits)
    then have "full = Inl e'" using fresh by (simp add: full_def validateTransactionGraph_def ov_def)
    ultimately show ?thesis by simp
  next
    case True
    then obtain s where s: "prepareTransactionRelationState env h stores (Some m0) ov (map fst creates) = Inr s" "trs_nodes s = nodes"
      "indexedState env h nodes (trs_targetFields s) (trs_targets s)"
      "\<not> trs_rebuild s \<Longrightarrow> trs_committed s = Some m0 \<and> deltaReady env h m0 nodes (trs_targets s) ov" using P[unfolded if_P[OF True]] by blast
    obtain tfs where tfs: "relationTargetFields env nodes' = Inr tfs" "indexedState env h nodes' tfs (buildRelationTargetIndexFromFields h nodes' tfs)"
      using rebuilt_state[OF dn(2), of env h] True sets by (auto split: if_splits)
    define s' where "s' = \<lparr>trs_committed = (None :: 'a relationModel option), trs_nodes = nodes', trs_targets = buildRelationTargetIndexFromFields h nodes' tfs, trs_targetFields = tfs, trs_rebuild = True\<rparr>"
    have fresh': "prepareTransactionRelationState env h stores None ov (map fst creates) = Inr s'" using fresh tfs(1) by (simp add: s'_def)
    have A: "acceptable env h nodes (trs_targets s) \<longleftrightarrow> acceptable env h nodes' (trs_targets s')"
      by (rule accepted_alike[OF dn mapn, where tfs = "trs_targetFields s" and tfs' = tfs])
        (use s(3) tfs(2) sets in \<open>simp_all add: indexedState_def s'_def\<close>)
    note V = validated[OF s(1) graph(1)[symmetric] ov_def, where ?m0.0 = m0 and deletes = deletes, unfolded s(2), OF s(3,4), folded incremental_def]
    note V' = validated[OF fresh' _ ov_def, where co = "co\<lparr>co_graph := None\<rparr>" and ?m0.0 = m0 and deletes = deletes, folded full_def]
    show ?thesis
    proof (cases "acceptable env h nodes (trs_targets s)")
      case False
      then show ?thesis using V V' A tfs(2) by (auto simp: s'_def)
    next
      case yes: True
      obtain m where m: "describes env h m" "rm_nodes m = nodes"
        "incremental = bind_result (deletionClosure m (co_outgoing co) deletes) (\<lambda>dead. bind_result (validateRequiredRelations m dead) (\<lambda>_. Inr (m, dead)))"
        using V[unfolded if_P[OF yes]] by blast
      obtain m' where m': "describes env h m'" "rm_nodes m' = nodes'"
        "full = bind_result (deletionClosure m' (co_outgoing co) deletes) (\<lambda>dead. bind_result (validateRequiredRelations m' dead) (\<lambda>_. Inr (m', dead)))"
        using V' yes A tfs(2) by (auto simp: s'_def)
      have eq: "map_of (rm_nodes m) = map_of (rm_nodes m')" using m(2) m'(2) mapn by simp
      note alike = described_alike[OF m(1) m'(1) eq]
      have i: "incremental = Inr (n, dead) \<longleftrightarrow> n = m \<and> deletionClosure m (co_outgoing co) deletes = Inr dead \<and> validateRequiredRelations m dead = Inr ()" for n dead
        unfolding m(3) bind_result_Inr_iff by auto
      have f: "full = Inr (n, dead) \<longleftrightarrow> n = m' \<and> deletionClosure m' (co_outgoing co) deletes = Inr dead \<and> validateRequiredRelations m' dead = Inr ()" for n dead
        unfolding m'(3) bind_result_Inr_iff by auto
      have to: "\<exists>dead'. full = Inr (m', dead') \<and> set dead' = set dead" if "incremental = Inr (m, dead)" for dead
        using validation_alike[OF m(1) m'(1) eq, of "co_outgoing co" deletes dead] that unfolding i f by blast
      have fro: "\<exists>dead. incremental = Inr (m, dead)" if "full = Inr (m', dead')" for dead'
        using validation_alike[OF m'(1) m(1) eq[symmetric], of "co_outgoing co" deletes dead'] that unfolding i f by blast
      have both: "(\<exists>r. incremental = Inr r) \<longleftrightarrow> (\<exists>r. full = Inr r)"
      proof
        assume "\<exists>r. incremental = Inr r"
        then obtain n dead where "incremental = Inr (n, dead)" by (metis surj_pair)
        moreover from this have "n = m" using i by blast
        ultimately show "\<exists>r. full = Inr r" using to by blast
      next
        assume "\<exists>r. full = Inr r"
        then obtain n dead where "full = Inr (n, dead)" by (metis surj_pair)
        moreover from this have "n = m'" using f by blast
        ultimately show "\<exists>r. incremental = Inr r" using fro by blast
      qed
      show ?thesis
      proof (intro conjI allI impI both)
        fix n dead n' dead' assume r: "incremental = Inr (n, dead) \<and> full = Inr (n', dead')"
        then have "n = m" "n' = m'" using i f by blast+
        then show "describes env h n" "map_of (rm_nodes n) = map_of (rm_nodes n')" "mset (refs n) = mset (refs n')"
          "map_of (owners n) = map_of (owners n')" using m(1) eq alike(1,2) by blast+
        from r have "full = Inr (m', dead')" "incremental = Inr (m, dead)" using i f by blast+
        then show "set dead = set dead'" using to[of dead] by auto
      qed
    qed
  qed
qed

text \<open>
  C40. The incremental validation of a transaction decides as a full one. When the stored model
  describes the live rows, the changed rows are live and the created ids are free, validating a
  transaction from the stored model, with only the changed rows scanned, succeeds exactly when
  building the model of all rows does; both give the same rows, references and owners,
  and delete the same rows. The model it gives describes its rows again.
\<close>

theorem incremental_validation_is_exact:
  assumes "co_graph co = Some m0" "describes env h m0" "missing m0 = []"
    and "collectRelationNodesWithOverrides h stores False [] [] = Inr live" "map_of live = map_of (rm_nodes m0)"
    and "\<forall>r \<in> set resources. map_of live (NodeKey (tr_dbName r) (tr_id r)) \<noteq> None"
    and "distinct (map fst creates)" "\<forall>q \<in> set creates. map_of live (fst q) = None"
  shows "((\<exists>r. validateTransactionGraph env h stores co resources creates deletes = Inr r) \<longleftrightarrow>
      (\<exists>r. validateTransactionGraph env h stores (co\<lparr>co_graph := None\<rparr>) resources creates deletes = Inr r)) \<and>
    (\<forall>m dead m' dead'.
       validateTransactionGraph env h stores co resources creates deletes = Inr (m, dead) \<and>
       validateTransactionGraph env h stores (co\<lparr>co_graph := None\<rparr>) resources creates deletes = Inr (m', dead') \<longrightarrow>
       describes env h m \<and> map_of (rm_nodes m) = map_of (rm_nodes m') \<and> mset (refs m) = mset (refs m') \<and>
       map_of (owners m) = map_of (owners m') \<and> set dead = set dead')"
  by (rule validation_exact[OF assms])

lemma built_describes:
  assumes "distinct (map fst nodes)" "buildRelationModel env h nodes = Inr m"
  shows "describes env h m" "rm_nodes m = nodes"
proof -
  obtain tfs where tfs: "relationTargetFields env nodes = Inr tfs" using assms(2) by (cases "relationTargetFields env nodes") (auto simp: buildRelationModel_def)
  have "indexedState env h nodes tfs (buildRelationTargetIndexFromFields h nodes tfs)"
    using rebuilt_state[OF assms(1), of env h] tfs by (auto split: if_splits)
  then show "describes env h m" "rm_nodes m = nodes"
    using full_build[of nodes tfs env h "buildRelationTargetIndexFromFields h nodes tfs"] assms(2) tfs
    by (auto simp: indexedState_def buildRelationModel_def split: if_splits)
qed

end
