(* ===== verification/Model_Examples.thy ===== *)
theory Model_Examples
  imports Model_Delta Ownership_Examples
begin

text \<open>
  The order with two items of \<open>Ownership_Examples\<close>, to which a transaction adds a third item and
  from which it deletes the second one.
\<close>

definition orderStores :: "(string \<times> nat list) list" where
  "orderStores = [(''Order'', [1]), (''Item'', [2, 3])]"

definition orderOwnership :: "nat committedOwnership" where
  "orderOwnership = \<lparr>co_ready = True, co_outgoing = outgoing orderModel, co_branches = (\<lambda>_. None), co_graph = Some orderModel, co_index = None\<rparr>"

lemma order_live: "collectRelationNodesWithOverrides orderHeap orderStores False [] [] = Inr orderNodes"
  by (simp add: collectRelationNodesWithOverrides_def orderStores_def collectStoreNodes_def addGraphNode_def orderHeap_def orderNodes_def Let_def)

lemma order_described: "describes orderTypes orderHeap orderModel"
  by (rule built_describes[OF _ order_model]) (simp add: orderNodes_def)

abbreviation "thirdItem \<equiv> NodeKey ''Item'' 3"

theorem incremental_validation_is_exact_witness:
  "(\<exists>r. validateTransactionGraph orderTypes orderHeap orderStores orderOwnership [] [(thirdItem, 4)] [NodeKey ''Item'' 2] = Inr r) \<longleftrightarrow>
   (\<exists>r. validateTransactionGraph orderTypes orderHeap orderStores (orderOwnership\<lparr>co_graph := None\<rparr>) [] [(thirdItem, 4)] [NodeKey ''Item'' 2] = Inr r)"
proof -
  have "co_graph orderOwnership = Some orderModel" "missing orderModel = []" "map_of orderNodes = map_of (rm_nodes orderModel)"
    "\<forall>r \<in> set ([] :: nat touchedResource list). map_of orderNodes (NodeKey (tr_dbName r) (tr_id r)) \<noteq> None"
    "distinct (map fst [(thirdItem, 4 :: nat)])" "\<forall>q \<in> set [(thirdItem, 4 :: nat)]. map_of orderNodes (fst q) = None"
    by (simp_all add: orderOwnership_def orderModel_def orderNodes_def)
  from incremental_validation_is_exact[OF this(1) order_described this(2) order_live this(3-6)] show ?thesis by blast
qed

theorem relation_model_is_a_forest_witness:
  "acyclic (owns (refs orderModel)) \<and> ownerEdges (owners orderModel) = (owns (refs orderModel))\<inverse> \<and>
   row_scans orderTypes orderHeap orderNodes (NodeKey ''Order'' 1, 1)"
proof -
  have "(NodeKey ''Order'' 1, 1) \<in> set orderNodes" by (simp add: orderNodes_def)
  then show ?thesis using relation_model_is_a_forest[OF order_typed refl] order_model by auto
qed

end
