(* ===== verification/Spec2Isabelle.thy ===== *)
theory Spec2Isabelle
  imports Durability Snapshot_Files Index_Reads Index_Examples Transaction_Locks Open_Table
    Restart_Wiring Branch_Examples Model_Examples
begin

text \<open>
  A verification development of nestory, an embedded object store for Go: typed tables of live
  structs in memory, transactions over detached copies of rows, relations between rows declared
  by struct tags and kept as pointers, secondary indexes, and durability by write-ahead logs and
  snapshot files.

  \<^bold>\<open>Parts and theories.\<close>
  \<^item> \<open>Nestory_Prelude\<close>, \<open>Go_Bytes\<close>, \<open>Go_Strings\<close>: errors as \<open>result\<close> values (a panic is one of
    them), loops that may fail (\<open>fold_result\<close>), binary search, big-endian bytes, and the string
    functions the program calls.
  \<^item> \<open>Chunk_Store\<close> (\<open>chunkstore.go\<close>): the arena of a table: blocks of slots, tombstones, dirty
    blocks, append, delete and write in place. It is well formed, simulates an abstract store,
    and never moves or reuses a slot.
  \<^item> \<open>Wal_Frames\<close>, \<open>Row_Codec\<close> (\<open>wal.go\<close>, \<open>transaction_wal.go\<close>): the frames of the log of one
    table and of the shared log, and the scalar row codec, byte for byte: both round trip, and a
    torn frame ends a replay. A slice of a defined byte type is logged and panics in the replay.
    Gob is a parameter.
  \<^item> \<open>Recovery\<close>, \<open>Durability\<close> (\<open>storage.go\<close>, \<open>db.go\<close>, \<open>engine.go\<close>): replay on top of a snapshot, the
    choice of the log of a commit, and the history that a restart recovers, each write as it comes
    back from its row (scalar rows as they were, entities with relations hollow until they are
    wired), with the orders of commits and the torn frames for which it does not.
  \<^item> \<open>Snapshot_Files\<close> (\<open>storage.go\<close>): the block files of a table, save under every outcome of the
    system calls, and load.
  \<^item> \<open>Index_Specs\<close>, \<open>Secondary_Index\<close>, \<open>Index_Reads\<close> (\<open>secondary_index.go\<close>, \<open>indices.go\<close>): tag
    parsing, ordered entries, unique lookups, validation and maintenance of a commit on both of
    its paths, rebuild, range reads.
  \<^item> \<open>Relation_Schema\<close> (\<open>relations.go\<close>, \<open>schema.go\<close>): the \<open>rel\<close> tags and the checked schema of a
    type.
  \<^item> \<open>Entity_Graph\<close>, \<open>Ownership\<close> (\<open>relation_runtime.go\<close>): the relation model of all rows, deletion
    closures, ownership roots and branches. Which graphs the model accepts is stated in \<open>Model_Scan\<close>.
  \<^item> \<open>Index_Counts\<close>, \<open>Owner_Chain\<close>, \<open>Relation_Index\<close>, \<open>Index_Ownership\<close>, \<open>Index_Publish\<close>,
    \<open>Index_Build\<close> (\<open>relation_index.go\<close>): the committed relation index, the delta of an incremental
    commit, its ownership check against the forest of the whole graph, its publication, and the
    rebuild from a model that establishes the invariant the publication keeps.
  \<^item> \<open>Transaction_State\<close> (\<open>engine.go\<close>): the working set of a transaction, its staged creates and
    deletes, and the engine's map from detached roots to transactions.
  \<^item> \<open>Transaction_Locks\<close> (\<open>engine.go\<close>, \<open>branchlock.go\<close>, \<open>view.go\<close>, \<open>snapshot.go\<close>, \<open>relation_runtime.go\<close>):
    which locks commits, reads and copies of branches take and give back and in which order, as
    interleaved steps under Go's read-write mutexes: no row that one request writes is read or
    written by another, no deadlock, and the reader that a delete blocks.
  \<^item> \<open>Transaction_Commit\<close>, \<open>Commit_Conflicts\<close> (\<open>engine.go\<close>, \<open>db.go\<close>): a commit of tables outside
    the relation graph on rows: conflict check, validation, log, writes and index passes; what
    it leaves, which transactions it refuses, the indexes along a history of commits, and two commits
    that lose data.
  \<^item> \<open>Index_Pointers\<close>, \<open>Open_Table\<close> (\<open>db.go\<close>, \<open>persist.go\<close>, \<open>relation_runtime.go\<close>): a table as \<open>Open\<close>
    builds it, with the arena, the id map and indexes of pointers; the commit on it agrees with
    the commit on rows.
  \<^item> \<open>Schema_Rows\<close> (\<open>schema.go\<close>): the columns of a type, rows taken from entities, and entities inflated
    from rows with hollow pointers that carry only keys; rows survive a restart.
  \<^item> \<open>Relation_Wiring\<close>, \<open>Restart_Wiring\<close> (\<open>relations.go\<close>): the wire index over all tables and the
    wiring of hollow pointers and computed slices to live rows. The order of the opens does not
    matter when mirrored fields carry ids, and a wired graph comes back from its rows; two accepted
    declarations with other keys for which rows end up in the wrong slice or in none.
  \<^item> \<open>Detached_Branches\<close>, \<open>Branch_Commits\<close>, \<open>Branch_Examples\<close> (\<open>relation_runtime.go\<close>, \<open>query.go\<close>, \<open>engine.go\<close>):
    the copies of a row and all it owns, which are isolated from live rows and from the originals;
    which copies were edited, whether edits change the graph, and the commit that merges them when
    they do not; the pointers to copies that such a commit leaves in live rows, and an edit that
    gets lost between two loads.
  \<^item> \<open>Model_Scan\<close>, \<open>Model_Delta\<close>, \<open>Model_Examples\<close> (\<open>relation_runtime.go\<close>, \<open>engine.go\<close>): the validation of
    a transaction that changes the relation graph. What a scan finds does not depend on the order of
    the rows; the model built from the stored one by scanning the changed rows is the model of all
    rows, so that the incremental validation accepts and deletes as a full one does.
  \<^item> \<open>Ownership_Examples\<close>, \<open>Index_Examples\<close>: one order with two items, on which the theorems are
    applied.

  \<^bold>\<open>Conventions.\<close> An entity is the value of a type variable or an address \<open>'p\<close> with a heap of rows;
  pointers are compared as addresses. Go maps are functions or association lists; where the code
  ranges over a map in random order the model takes one order and the theorems do not depend on
  it. Interleaving is modelled where locks are taken (\<open>Transaction_Locks\<close>); everywhere else an
  operation runs under the locks its Go caller holds, and goroutines that work on different
  files or blocks are folded in order.
  Machine integers are words where the code's conversions can wrap; lengths and versions of rows are
  unbounded. Struct types have no embedded structs, so that a field is found by name among the direct
  fields only.

  \<^bold>\<open>Fuel.\<close> The walk up the committed owners (\<open>climbOwners\<close>) is bounded by the number of owned rows,
  as in the code; every other loop is structural, has a termination proof, or is a partial
  function that is proved to return.

  \<^bold>\<open>Not modelled.\<close> The tower of shadow branches (\<open>tower.go\<close>, \<open>tracked.go\<close>), which is a cache of
  detached branches behind \<open>UpdateWithin\<close>; the live-pointer \<open>Flush\<close>; the branch of \<open>commit\<close> that
  changes the graph is modelled by its parts (validation, delta, closure, publication) and not as one
  operation. Reflection caches and capacity reuse of slices (values are the same), system
  calls beyond their outcomes, the third-party encoders (gob) and clocks.
\<close>

end
